(* ===== verification/Prelude.thy ===== *)
theory Prelude
  imports Main "HOL-Library.Word" "HOL-Library.Code_Target_Numeral"
begin

text \<open>
  Shared vocabulary of the development: the machine integers of the code (a 64-bit target, so
  \<open>size_t\<close> and \<open>crypto_word_t\<close> have 64 bits), big-endian and base-128 readings of byte lists,
  C's short-circuit conjunction over a threaded state, the allocator parameter, and the two codec
  interfaces (\<open>prefix_codec\<close>, \<open>strict_codec\<close>) that every encoder/decoder pair of the program is
  shown to satisfy.
\<close>

unbundle bit_operations_syntax

type_synonym u8 = "8 word"
type_synonym u16 = "16 word"
type_synonym u32 = "32 word"
type_synonym u64 = "64 word"

text \<open>A pointer is the 64-bit word of its address; NULL is 0.\<close>

type_synonym ptr = u64

named_theorems byte_arith \<open>conversions of byte and word operations to arithmetic on nat\<close>
named_theorems consume \<open>how much input a successful read leaves\<close>

section \<open>Sizes\<close>

text \<open>\<open>size_t\<close> values are naturals below \<open>2 ^ 64\<close>; additions that can wrap are written with \<open>szadd\<close>.\<close>

definition szadd :: "nat \<Rightarrow> nat \<Rightarrow> nat" where
  "szadd a b = (a + b) mod 2 ^ 64"

lemma szadd_small [simp]: "a + b < 2 ^ 64 \<Longrightarrow> szadd a b = a + b"
  by (simp add: szadd_def)

lemma szadd_bound: "szadd a b < 2 ^ 64"
  by (simp add: szadd_def)

text \<open>The overflow test \<open>a + b < a\<close> of the code detects exactly the wrapped additions.\<close>

lemma szadd_overflow:
  assumes "a < 2 ^ 64" and "b < 2 ^ 64"
  shows "szadd a b < a \<longleftrightarrow> 2 ^ 64 \<le> a + b"
proof (cases "a + b < 2 ^ 64")
  case False
  then have "(a + b) mod 2 ^ 64 = a + b - 2 ^ 64"
    using assms by (simp add: mod_if)
  then show ?thesis using False assms by (simp add: szadd_def)
qed simp

section \<open>C's conjunction of fallible calls\<close>

text \<open>\<open>f(s) \<and>\<and> g(s)\<close> of C for functions that return a success flag and update the state:
  the second call runs only when the first one succeeded.\<close>

definition c_and :: "('s \<Rightarrow> bool \<times> 's) \<Rightarrow> ('s \<Rightarrow> bool \<times> 's) \<Rightarrow> 's \<Rightarrow> bool \<times> 's" where
  "c_and f g s = (case f s of (ok, s') \<Rightarrow> if ok then g s' else (False, s'))"

lemma c_and_True:
  "c_and f g s = (True, t) \<longleftrightarrow> (\<exists>u. f s = (True, u) \<and> g u = (True, t))"
  by (auto simp: c_and_def split: prod.splits)

lemma fst_c_and: "fst (c_and f g s) \<longleftrightarrow> fst (f s) \<and> fst (g (snd (f s)))"
  by (auto simp: c_and_def split: prod.splits)

text \<open>The allocator is libc's: the \<open>k\<close>-th allocation of a run, of \<open>n\<close> bytes, returns a fresh block
  with some contents, or NULL. Every model that allocates takes it as a parameter; \<open>alloc_ok\<close> is the
  documented contract (a block has the requested size, and no object reaches \<open>PTRDIFF_MAX\<close>) and
  \<open>alloc_avail\<close> says that requests up to a limit are served.\<close>

type_synonym allocator = "nat \<Rightarrow> nat \<Rightarrow> u8 list option"

definition alloc_ok :: "allocator \<Rightarrow> bool" where
  "alloc_ok m \<longleftrightarrow> (\<forall>k n b. m k n = Some b \<longrightarrow> length b = n \<and> n < 2 ^ 63)"

definition alloc_avail :: "allocator \<Rightarrow> nat \<Rightarrow> bool" where
  "alloc_avail m limit \<longleftrightarrow> (\<forall>k n. n \<le> limit \<longrightarrow> m k n \<noteq> None)"

lemma alloc_ok_length: "alloc_ok m \<Longrightarrow> m k n = Some b \<Longrightarrow> length b = n"
  and alloc_ok_bound: "alloc_ok m \<Longrightarrow> m k n = Some b \<Longrightarrow> n < 2 ^ 63"
  unfolding alloc_ok_def by blast+

section \<open>Blocks of memory\<close>

text \<open>\<open>overwrite off bs xs\<close> is \<open>xs\<close> with the bytes \<open>bs\<close> copied over it at \<open>off\<close> (memcpy).\<close>

definition overwrite :: "nat \<Rightarrow> 'a list \<Rightarrow> 'a list \<Rightarrow> 'a list" where
  "overwrite off bs xs = take off xs @ bs @ drop (off + length bs) xs"

lemma length_overwrite [simp]: "off + length bs \<le> length xs \<Longrightarrow> length (overwrite off bs xs) = length xs"
  by (simp add: overwrite_def)

lemma overwrite_Nil [simp]: "overwrite off [] xs = xs"
  by (simp add: overwrite_def)

lemma take_overwrite_before [simp]: "n \<le> off \<Longrightarrow> off \<le> length xs \<Longrightarrow> take n (overwrite off bs xs) = take n xs"
  by (simp add: overwrite_def min_def)

lemma take_overwrite_after:
  "off + length bs \<le> length xs \<Longrightarrow> take (off + length bs) (overwrite off bs xs) = take off xs @ bs"
  by (simp add: overwrite_def)

lemma take_overwrite_within:
  assumes "off + length bs \<le> n" and "n \<le> length xs"
  shows "take n (overwrite off bs xs) = overwrite off bs (take n xs)"
proof (cases "n = off")
  case True
  then show ?thesis using assms by (simp add: overwrite_def)
next
  case False
  then show ?thesis using assms by (auto simp: overwrite_def min_def drop_take)
qed

section \<open>Big-endian byte lists\<close>

definition be_val :: "u8 list \<Rightarrow> nat" where
  "be_val bs = foldl (\<lambda>a b. a * 256 + unat b) 0 bs"

fun be_bytes :: "nat \<Rightarrow> nat \<Rightarrow> u8 list" where
  "be_bytes 0 v = []"
| "be_bytes (Suc n) v = be_bytes n (v div 256) @ [of_nat v]"

lemma unat_u8_less [simp]: "unat (b :: u8) < 256"
  by (rule order.strict_trans2 [OF unsigned_less]) simp

lemma mod_128_high: "128 \<le> n \<Longrightarrow> n < 256 \<Longrightarrow> n mod 128 = n - (128 :: nat)"
proof -
  assume "128 \<le> n" and "n < 256"
  then have "n - 128 < 128" by linarith
  with \<open>128 \<le> n\<close> show ?thesis by (simp add: le_mod_geq)
qed

lemma unat_of_nat_u8 [byte_arith]: "unat (of_nat n :: u8) = n mod 256"
  by (simp add: unat_of_nat)

lemma foldl_be: "foldl (\<lambda>a b. a * 256 + unat (b :: u8)) x bs = x * 256 ^ length bs + be_val bs"
proof (induction bs arbitrary: x)
  case Nil
  then show ?case by (simp add: be_val_def)
next
  case (Cons b bs)
  have "be_val (b # bs) = foldl (\<lambda>a b. a * 256 + unat (b :: u8)) (unat b) bs"
    by (simp add: be_val_def)
  then show ?case
    by (simp only: foldl.simps Cons.IH) (simp add: algebra_simps)
qed

lemma be_val_Nil [simp]: "be_val [] = 0"
  by (simp add: be_val_def)

lemma be_val_Cons: "be_val (b # bs) = unat b * 256 ^ length bs + be_val bs"
  using foldl_be [of "unat b" bs] by (simp add: be_val_def)

lemma be_val_append: "be_val (as @ bs) = be_val as * 256 ^ length bs + be_val bs"
  using foldl_be [of "be_val as" bs] by (simp add: be_val_def)

lemma be_val_snoc [simp]: "be_val (bs @ [b]) = be_val bs * 256 + unat b"
  by (simp add: be_val_def)

lemma be_val_single [simp]: "be_val [b] = unat b"
  by (simp add: be_val_def)

lemma be_val_bound: "be_val bs < 256 ^ length bs"
proof (induction bs rule: rev_induct)
  case (snoc b bs)
  have "be_val bs * 256 + unat b < (be_val bs + 1) * 256"
    using unat_u8_less [of b] by simp
  also have "\<dots> \<le> 256 ^ length bs * 256"
    using snoc by (intro mult_right_mono) auto
  finally show ?case by simp
qed simp

lemma length_be_bytes [simp]: "length (be_bytes n v) = n"
  by (induction n arbitrary: v) auto

lemma be_val_be_bytes: "be_val (be_bytes n v) = v mod 256 ^ n"
proof (induction n arbitrary: v)
  case (Suc n)
  then show ?case
    by (simp add: byte_arith mod_mult2_eq mult.commute)
qed simp

lemma be_bytes_be_val: "be_bytes (length bs) (be_val bs) = bs"
proof (induction bs rule: rev_induct)
  case (snoc b bs)
  have "(be_val bs * 256 + unat b) div 256 = be_val bs"
    using unat_u8_less [of b] by simp
  moreover have "of_nat (be_val bs * 256 + unat b) = b"
    by (rule word_unat_eq_iff [THEN iffD2]) (simp only: byte_arith, simp)
  ultimately show ?case using snoc by simp
qed simp

lemma be_val_inject:
  "length as = length bs \<Longrightarrow> be_val as = be_val bs \<Longrightarrow> as = bs"
  by (metis be_bytes_be_val)

lemma be_bytes_mod: "be_bytes n (v mod 256 ^ n) = be_bytes n v"
  by (metis be_bytes_be_val be_val_be_bytes length_be_bytes)

lemma be_bytes_eq_iff:
  "length bs = n \<Longrightarrow> v < 256 ^ n \<Longrightarrow> be_bytes n v = bs \<longleftrightarrow> v = be_val bs"
  by (metis be_bytes_be_val be_val_be_bytes mod_less)

section \<open>Bit operations as arithmetic\<close>

lemma unat_drop_bit [byte_arith]: "unat (drop_bit n (v :: 'a::len word)) = unat v div 2 ^ n"
  by (metis drop_bit_eq_div unat_drop_bit_eq)

lemma unat_push_bit [byte_arith]:
  "unat (push_bit n (v :: 'a::len word)) = unat v * 2 ^ n mod 2 ^ LENGTH('a)"
  by (metis push_bit_eq_mult take_bit_eq_mod unsigned_push_bit_eq)

lemma unat_take_bit [byte_arith]: "unat (take_bit n (v :: 'a::len word)) = unat v mod 2 ^ n"
  by (metis take_bit_eq_mod unsigned_take_bit_eq)

lemma unat_ucast [byte_arith]:
  "unat (ucast (v :: 'a::len word) :: 'b::len word) = unat v mod 2 ^ LENGTH('b)"
  by (metis take_bit_eq_mod unsigned_ucast_eq)

lemma unat_ucast_up:
  assumes "LENGTH('a) \<le> LENGTH('b)"
  shows "unat (ucast (v :: 'a::len word) :: 'b::len word) = unat v"
proof -
  have "unat v < 2 ^ LENGTH('a)" by (rule unsigned_less)
  also have "\<dots> \<le> 2 ^ LENGTH('b)" using assms by simp
  finally show ?thesis by (simp only: unat_ucast mod_less)
qed

lemma nat_push_or: 
  assumes "w < 2 ^ n"
  shows "push_bit n a OR w = a * 2 ^ n + (w :: nat)"
proof -
  have "\<not> bit (push_bit n a) m \<or> \<not> bit w m" for m
  proof (cases "m < n")
    case True
    then show ?thesis by (simp add: bit_push_bit_iff)
  next
    case False
    then have "(2 :: nat) ^ n \<le> 2 ^ m" by simp
    with assms have "w < 2 ^ m" by (rule order.strict_trans2)
    then show ?thesis by (simp add: bit_nat_def)
  qed
  then have "push_bit n a + w = push_bit n a OR w"
    by (rule disjunctive_add)
  then show ?thesis by (simp add: push_bit_eq_mult)
qed

lemma unat_push_or:
  fixes v w :: "'a::len word"
  assumes "unat w < 2 ^ n" and "unat v * 2 ^ n < 2 ^ LENGTH('a)"
  shows "unat (push_bit n v OR w) = unat v * 2 ^ n + unat w"
proof -
  have "unat (push_bit n v OR w) = unat (push_bit n v) OR unat w"
    by (rule unsigned_or_eq)
  also have "unat (push_bit n v) = push_bit n (unat v)"
    using assms(2) by (simp add: unat_push_bit push_bit_eq_mult [of n "unat v"])
  finally show ?thesis using nat_push_or [OF assms(1)] by simp
qed

lemma word_of_nat_eqI: "unat (w :: 'a::len word) = n \<Longrightarrow> w = of_nat n"
proof -
  assume "unat w = n"
  then have "(of_nat (unat w) :: 'a word) = of_nat n" by (rule arg_cong)
  then show ?thesis by simp
qed

lemma unat_and_mask: "unat (v AND mask n :: 'a::len word) = unat v mod 2 ^ n"
  by (metis unat_take_bit take_bit_eq_mask)

lemma and_low_masks:
  "unat (v AND 0x7f :: 'a::len word) = unat v mod 128"
  "unat (v AND 0x3f :: 'a::len word) = unat v mod 64"
  "unat (v AND 0x1f :: 'a::len word) = unat v mod 32"
  "unat (v AND 0x0f :: 'a::len word) = unat v mod 16"
  "unat (v AND 0x07 :: 'a::len word) = unat v mod 8"
  using unat_and_mask [of v 7] unat_and_mask [of v 6] unat_and_mask [of v 5]
    unat_and_mask [of v 4] unat_and_mask [of v 3]
  by (simp_all add: mask_eq_exp_minus_1)

declare and_low_masks [byte_arith]

lemma and_not_mask_eq: "x AND NOT (mask n) = push_bit n (drop_bit n (x :: 'a::len word))"
  by (rule bit_eqI) (auto simp: bit_simps)

lemma unat_and_not_mask: "unat (x AND NOT (mask n) :: 'a::len word) = unat x div 2 ^ n * 2 ^ n"
proof -
  have "unat x div 2 ^ n * 2 ^ n < 2 ^ LENGTH('a)"
    by (rule order.strict_trans1 [OF _ unsigned_less [of x]]) simp
  then show ?thesis by (simp add: and_not_mask_eq unat_push_bit unat_drop_bit)
qed

lemma bit_unat: "bit v n \<longleftrightarrow> odd (unat (v :: 'a::len word) div 2 ^ n)"
proof -
  have "bit (unat v) n \<longleftrightarrow> bit v n"
    by (simp add: bit_unsigned_iff)
  then show ?thesis by (simp add: bit_nat_def)
qed

lemma and_0x80_eq_0: "(b :: u8) AND 0x80 = 0 \<longleftrightarrow> unat b < 128"
proof -
  have "b AND 0x80 = 0 \<longleftrightarrow> \<not> bit b 7"
    using and_exp_eq_0_iff_not_bit [of b 7] by simp
  also have "\<dots> \<longleftrightarrow> even (unat b div 128)"
    by (simp add: bit_unat)
  also have "\<dots> \<longleftrightarrow> unat b < 128"
  proof (cases "unat b < 128")
    case False
    then have "unat b div 128 = 1" using unat_u8_less [of b] by (simp add: div_nat_eqI)
    then show ?thesis using False by simp
  qed simp
  finally show ?thesis .
qed

section \<open>Codec interfaces\<close>

text \<open>
  A decoder reads a value from the front of its input and leaves the rest (\<open>None\<close> is the C code's
  return value 0, with the input as far as the code has advanced it). A \<^emph>\<open>prefix codec\<close> decodes
  what its encoder writes, whatever follows; a \<^emph>\<open>strict codec\<close> moreover accepts nothing else, so
  that every value has exactly one encoding.
\<close>

type_synonym 'a reader = "u8 list \<Rightarrow> 'a option \<times> u8 list"

locale prefix_codec =
  fixes enc :: "'a \<Rightarrow> u8 list"
    and dec :: "u8 list \<Rightarrow> 'a option \<times> u8 list"
    and valid :: "'a \<Rightarrow> bool"
  assumes dec_enc: "valid x \<Longrightarrow> dec (enc x @ rest) = (Some x, rest)"
begin

lemma codec_exact: "valid x \<Longrightarrow> dec (enc x) = (Some x, [])"
  using dec_enc [of x "[]"] by simp

lemma codec_split:
  assumes "valid x" and "valid y" and "enc x @ r = enc y @ s"
  shows "x = y \<and> r = s"
  using dec_enc [OF assms(1), of r] dec_enc [OF assms(2), of s] assms(3)
  by (metis Pair_inject option.inject)

lemma codec_inject: "valid x \<Longrightarrow> valid y \<Longrightarrow> enc x = enc y \<Longrightarrow> x = y"
  using codec_split [of x y "[]" "[]"] by simp

lemma codec_prefix_free: "valid x \<Longrightarrow> valid y \<Longrightarrow> enc x = enc y @ s \<Longrightarrow> s = []"
  using codec_split [of x y "[]" s] by simp

text \<open>Reading a known number of values one after the other.\<close>

fun read_n :: "nat \<Rightarrow> u8 list \<Rightarrow> 'a list option \<times> u8 list" where
  "read_n 0 bs = (Some [], bs)"
| "read_n (Suc n) bs =
     (case dec bs of (None, r) \<Rightarrow> (None, r)
      | (Some x, r) \<Rightarrow> (case read_n n r of (None, r') \<Rightarrow> (None, r')
                       | (Some xs, r') \<Rightarrow> (Some (x # xs), r')))"

lemma read_n_concat:
  "(\<And>x. x \<in> set xs \<Longrightarrow> valid x) \<Longrightarrow>
   read_n (length xs) (concat (map enc xs) @ rest) = (Some xs, rest)"
  by (induction xs) (auto simp: dec_enc)

lemma concat_enc_inject:
  assumes "length xs = length ys"
    and "\<And>x. x \<in> set xs \<Longrightarrow> valid x" and "\<And>y. y \<in> set ys \<Longrightarrow> valid y"
    and "concat (map enc xs) = concat (map enc ys)"
  shows "xs = ys"
  using read_n_concat [of xs "[]"] read_n_concat [of ys "[]"] assms by simp

end

locale strict_codec = prefix_codec +
  assumes dec_Some: "dec bs = (Some x, rest) \<Longrightarrow> valid x \<and> bs = enc x @ rest"
begin

lemma strict_iff: "dec bs = (Some x, rest) \<longleftrightarrow> valid x \<and> bs = enc x @ rest"
  using dec_Some dec_enc by blast

lemma strict_suffix: "dec bs = (Some x, rest) \<Longrightarrow> bs = take (length bs - length rest) bs @ rest"
  by (simp add: strict_iff)

lemma strict_length: "dec bs = (Some x, rest) \<Longrightarrow> length bs = length (enc x) + length rest"
  by (simp add: strict_iff)

lemma strict_extend: "dec bs = (Some x, rest) \<Longrightarrow> dec (bs @ more) = (Some x, rest @ more)"
  by (simp add: strict_iff)

text \<open>Two inputs that decode to the same value carry the same bytes.\<close>

lemma strict_unique:
  "dec bs = (Some x, r) \<Longrightarrow> dec cs = (Some x, s) \<Longrightarrow>
   take (length bs - length r) bs = take (length cs - length s) cs"
  by (simp add: strict_iff)

end

end
