(* ===== verification/Mem.thy ===== *)
theory Mem
  imports Prelude
begin

text \<open>
  \<open>crypto/mem.c\<close>: the allocation wrappers, the constant-time comparison, the FNV-1a hash and the
  string helpers. A block of memory is the list of its bytes; a C string is the list of the bytes
  from the pointer on. \<open>char\<close> is signed on the target, so characters are compared by \<open>sint\<close>.
\<close>

section \<open>Allocation\<close>

definition OPENSSL_MALLOC_PREFIX :: nat where
  "OPENSSL_MALLOC_PREFIX = 8"

text \<open>The wrapper asks libc for the size plus a prefix, in which it stores the size, and returns
  the bytes behind the prefix. The addition is a \<open>size_t\<close> addition.\<close>

definition OPENSSL_malloc :: "allocator \<Rightarrow> nat \<Rightarrow> nat \<Rightarrow> u8 list option \<times> nat" where
  "OPENSSL_malloc m k sz =
     (case m k (szadd sz OPENSSL_MALLOC_PREFIX) of
        None \<Rightarrow> (None, Suc k)
      | Some ptr \<Rightarrow> (Some (drop OPENSSL_MALLOC_PREFIX ptr), Suc k))"

text \<open>\<open>orig\<close> is \<open>None\<close> for NULL; the size of the old block is the one in its prefix.\<close>

definition OPENSSL_realloc ::
  "allocator \<Rightarrow> nat \<Rightarrow> u8 list option \<Rightarrow> nat \<Rightarrow> u8 list option \<times> nat" where
  "OPENSSL_realloc m k orig new_size =
     (case orig of
        None \<Rightarrow> OPENSSL_malloc m k new_size
      | Some old \<Rightarrow>
          (case OPENSSL_malloc m k new_size of
             (None, k') \<Rightarrow> (None, k')
           | (Some ret, k') \<Rightarrow>
               let to_copy = (if length old < new_size then length old else new_size)
               in (Some (take to_copy old @ drop to_copy ret), k')))"

lemma OPENSSL_malloc_length:
  assumes "alloc_ok m" and "sz + OPENSSL_MALLOC_PREFIX < 2 ^ 64"
    and "OPENSSL_malloc m k sz = (Some b, k')"
  shows "length b = sz \<and> sz + OPENSSL_MALLOC_PREFIX < 2 ^ 63"
  using assms
  by (auto simp: OPENSSL_malloc_def dest: alloc_ok_length alloc_ok_bound split: option.splits)

lemma OPENSSL_malloc_avail:
  assumes "alloc_avail m limit" and "limit < 2 ^ 64" and "sz + OPENSSL_MALLOC_PREFIX \<le> limit"
  shows "\<exists>b. OPENSSL_malloc m k sz = (Some b, Suc k)"
proof -
  have "m k (sz + OPENSSL_MALLOC_PREFIX) \<noteq> None"
    using assms unfolding alloc_avail_def by blast
  then show ?thesis using assms by (auto simp: OPENSSL_malloc_def)
qed

lemma OPENSSL_realloc_Some:
  assumes "alloc_ok m" and "new_size + OPENSSL_MALLOC_PREFIX < 2 ^ 64"
    and "OPENSSL_realloc m k (Some old) new_size = (Some b, k')"
  shows "length b = new_size \<and> take (min (length old) new_size) b = take new_size old
    \<and> new_size + OPENSSL_MALLOC_PREFIX < 2 ^ 63"
proof -
  obtain ret where ret: "OPENSSL_malloc m k new_size = (Some ret, k')"
    and b: "b = take (min (length old) new_size) old @ drop (min (length old) new_size) ret"
    using assms(3)
    by (auto simp: OPENSSL_realloc_def Let_def min_def not_less split: option.splits prod.splits if_splits)
  from OPENSSL_malloc_length [OF assms(1,2) ret] b show ?thesis
    by (auto simp: min_def)
qed

section \<open>Comparison and hashing\<close>

fun memcmp_loop :: "u8 \<Rightarrow> u8 list \<Rightarrow> u8 list \<Rightarrow> u8" where
  "memcmp_loop x (a # as) (b # bs) = memcmp_loop (x OR (a XOR b)) as bs"
| "memcmp_loop x _ _ = x"

definition CRYPTO_memcmp :: "u8 list \<Rightarrow> u8 list \<Rightarrow> nat \<Rightarrow> u8" where
  "CRYPTO_memcmp a b len = memcmp_loop 0 (take len a) (take len b)"

lemma memcmp_loop_0:
  "length as = length bs \<Longrightarrow> memcmp_loop x as bs = 0 \<longleftrightarrow> x = 0 \<and> as = bs"
proof (induction x as bs rule: memcmp_loop.induct)
  case (1 x a as b bs)
  have "x OR (a XOR b) = 0 \<longleftrightarrow> x = 0 \<and> a = b"
    by (auto simp: bit_eq_iff bit_or_iff bit_xor_iff)
  with 1 show ?case by auto
qed auto

text \<open>libc's \<open>memcmp\<close>: the sign of the first difference.\<close>

fun memcmp :: "u8 list \<Rightarrow> u8 list \<Rightarrow> int" where
  "memcmp (a # as) (b # bs) = (if a < b then - 1 else if b < a then 1 else memcmp as bs)"
| "memcmp _ _ = 0"

definition OPENSSL_memcmp :: "u8 list \<Rightarrow> u8 list \<Rightarrow> nat \<Rightarrow> int" where
  "OPENSSL_memcmp s1 s2 n = (if n = 0 then 0 else memcmp (take n s1) (take n s2))"

definition OPENSSL_hash32 :: "u8 list \<Rightarrow> u32" where
  "OPENSSL_hash32 bytes = foldl (\<lambda>h b. (h XOR ucast b) * 16777619) 2166136261 bytes"

section \<open>Strings\<close>

fun OPENSSL_strnlen :: "u8 list \<Rightarrow> nat \<Rightarrow> nat" where
  "OPENSSL_strnlen s 0 = 0"
| "OPENSSL_strnlen [] (Suc n) = 0"
| "OPENSSL_strnlen (c # s) (Suc n) = (if c = 0 then 0 else Suc (OPENSSL_strnlen s n))"

definition OPENSSL_tolower :: "int \<Rightarrow> int" where
  "OPENSSL_tolower c = (if 65 \<le> c \<and> c \<le> 90 then c + (97 - 65) else c)"

fun OPENSSL_strncasecmp :: "u8 list \<Rightarrow> u8 list \<Rightarrow> nat \<Rightarrow> int" where
  "OPENSSL_strncasecmp a b 0 = 0"
| "OPENSSL_strncasecmp (a # as) (b # bs) (Suc n) =
     (let aa = OPENSSL_tolower (sint a); bb = OPENSSL_tolower (sint b) in
      if aa < bb then - 1 else if aa > bb then 1 else if aa = 0 then 0
      else OPENSSL_strncasecmp as bs n)"
| "OPENSSL_strncasecmp _ _ (Suc n) = 0"

fun OPENSSL_strcasecmp :: "u8 list \<Rightarrow> u8 list \<Rightarrow> int" where
  "OPENSSL_strcasecmp (a # as) (b # bs) =
     (let aa = OPENSSL_tolower (sint a); bb = OPENSSL_tolower (sint b) in
      if aa < bb then - 1 else if aa > bb then 1 else if aa = 0 then 0
      else OPENSSL_strcasecmp as bs)"
| "OPENSSL_strcasecmp _ _ = 0"

definition OPENSSL_strndup ::
  "allocator \<Rightarrow> nat \<Rightarrow> u8 list \<Rightarrow> nat \<Rightarrow> u8 list option \<times> nat" where
  "OPENSSL_strndup m k str sz =
     (let sz = OPENSSL_strnlen str sz; alloc_size = szadd sz 1 in
      if alloc_size < sz then (None, k)
      else case OPENSSL_malloc m k alloc_size of
             (None, k') \<Rightarrow> (None, k')
           | (Some ret, k') \<Rightarrow> (Some ((take sz str @ drop sz ret)[sz := 0]), k'))"

definition OPENSSL_memdup ::
  "allocator \<Rightarrow> nat \<Rightarrow> u8 list \<Rightarrow> nat \<Rightarrow> u8 list option \<times> nat" where
  "OPENSSL_memdup m k data sz =
     (if sz = 0 then (None, k)
      else case OPENSSL_malloc m k sz of
             (None, k') \<Rightarrow> (None, k')
           | (Some ret, k') \<Rightarrow> (Some (take sz data @ drop sz ret), k'))"

text \<open>\<open>strlcpy\<close> returns the destination bytes it writes (with the terminator, if there is room for
  one) and the length of the source.\<close>

fun strlcpy_loop :: "u8 list \<Rightarrow> nat \<Rightarrow> u8 list \<times> u8 list \<times> nat \<times> nat" where
  "strlcpy_loop (c # src) dst_size =
     (if dst_size > 1 \<and> c \<noteq> 0
      then case strlcpy_loop src (dst_size - 1) of (d, src', n, l) \<Rightarrow> (c # d, src', n, Suc l)
      else ([], c # src, dst_size, 0))"
| "strlcpy_loop [] dst_size = ([], [], dst_size, 0)"

definition c_strlen :: "u8 list \<Rightarrow> nat" where
  "c_strlen s = length (takeWhile (\<lambda>c. c \<noteq> 0) s)"

definition OPENSSL_strlcpy :: "u8 list \<Rightarrow> nat \<Rightarrow> u8 list \<times> nat" where
  "OPENSSL_strlcpy src dst_size =
     (case strlcpy_loop src dst_size of
        (d, src', n, l) \<Rightarrow> (if n \<noteq> 0 then d @ [0] else d, l + c_strlen src'))"

lemma strlcpy_loop_spec:
  "strlcpy_loop src n =
     (let s = takeWhile (\<lambda>c. c \<noteq> 0) src; l = min (length s) (n - 1)
      in (take l src, drop l src, n - l, l))"
  by (induction src n rule: strlcpy_loop.induct) (auto simp: Let_def min_def take_Cons' drop_Cons' split: prod.splits)

lemma strlcpy_returns_source_length: "snd (OPENSSL_strlcpy src n) = c_strlen src"
proof -
  have "l + length (takeWhile (\<lambda>c. c \<noteq> 0) (drop l src)) = length (takeWhile (\<lambda>c. c \<noteq> 0) src)"
    if "l \<le> length (takeWhile (\<lambda>c. c \<noteq> 0) src)" for l
    using that
  proof (induction l arbitrary: src)
    case (Suc l)
    then show ?case by (cases src) (auto split: if_splits)
  qed simp
  then show ?thesis
    by (simp add: OPENSSL_strlcpy_def strlcpy_loop_spec Let_def c_strlen_def)
qed

end
