(* ===== verification/Cbs.thy ===== *)
theory Cbs
  imports Mem
begin

text \<open>
  \<open>crypto/bytestring/cbs.c\<close>, the parser half of the byte-string library. A \<open>CBS\<close> (a pointer and a
  length) is the list of the \<open>len\<close> bytes from \<open>data\<close> on. A reading function returns \<open>None\<close> where the
  code returns 0 and the CBS as the code has left it (some failures have advanced it); out-parameters
  are components of the result. The endianness helpers come from \<open>crypto/internal.h\<close>.
\<close>

type_synonym CBS = "u8 list"

section \<open>Basic reads\<close>

definition CBS_len :: "CBS \<Rightarrow> nat" where
  "CBS_len cbs = length cbs"

definition CBS_data :: "CBS \<Rightarrow> u8 list" where
  "CBS_data cbs = cbs"

definition CBS_init :: "u8 list \<Rightarrow> nat \<Rightarrow> CBS" where
  "CBS_init data len = take len data"

definition cbs_get :: "CBS \<Rightarrow> nat \<Rightarrow> u8 list option \<times> CBS" where
  "cbs_get cbs n = (if CBS_len cbs < n then (None, cbs) else (Some (take n cbs), drop n cbs))"

definition CBS_skip :: "CBS \<Rightarrow> nat \<Rightarrow> unit option \<times> CBS" where
  "CBS_skip cbs len =
     (case cbs_get cbs len of (None, cbs) \<Rightarrow> (None, cbs) | (Some dummy, cbs) \<Rightarrow> (Some (), cbs))"

definition CBS_stow :: "allocator \<Rightarrow> nat \<Rightarrow> CBS \<Rightarrow> (bool \<times> u8 list option \<times> nat) \<times> nat" where
  "CBS_stow m k cbs =
     (if CBS_len cbs = 0 then ((True, None, 0), k)
      else case OPENSSL_memdup m k cbs (CBS_len cbs) of
             (None, k') \<Rightarrow> ((False, None, 0), k')
           | (Some p, k') \<Rightarrow> ((True, Some p, CBS_len cbs), k'))"

definition CBS_strdup :: "allocator \<Rightarrow> nat \<Rightarrow> CBS \<Rightarrow> (bool \<times> u8 list option) \<times> nat" where
  "CBS_strdup m k cbs =
     (case OPENSSL_strndup m k cbs (CBS_len cbs) of (p, k') \<Rightarrow> ((p \<noteq> None, p), k'))"

definition CBS_contains_zero_byte :: "CBS \<Rightarrow> bool" where
  "CBS_contains_zero_byte cbs \<longleftrightarrow> (0 \<in> set cbs)"

definition CBS_mem_equal :: "CBS \<Rightarrow> u8 list \<Rightarrow> nat \<Rightarrow> bool" where
  "CBS_mem_equal cbs data len =
     (if len \<noteq> CBS_len cbs then False else CRYPTO_memcmp cbs data len = 0)"

text \<open>The loop of \<open>cbs_get_u\<close>: shift the accumulator and or the next byte in.\<close>

definition get_u_loop :: "u64 \<Rightarrow> u8 list \<Rightarrow> u64" where
  "get_u_loop result data = foldl (\<lambda>r b. push_bit 8 r OR ucast b) result data"

definition cbs_get_u :: "CBS \<Rightarrow> nat \<Rightarrow> u64 option \<times> CBS" where
  "cbs_get_u cbs len =
     (case cbs_get cbs len of
        (None, cbs) \<Rightarrow> (None, cbs)
      | (Some data, cbs) \<Rightarrow> (Some (get_u_loop 0 data), cbs))"

definition CBS_get_u8 :: "CBS \<Rightarrow> u8 option \<times> CBS" where
  "CBS_get_u8 cbs =
     (case cbs_get cbs 1 of (None, cbs) \<Rightarrow> (None, cbs) | (Some v, cbs) \<Rightarrow> (Some (v ! 0), cbs))"

definition CBS_get_u16 :: "CBS \<Rightarrow> u16 option \<times> CBS" where
  "CBS_get_u16 cbs =
     (case cbs_get_u cbs 2 of (None, cbs) \<Rightarrow> (None, cbs) | (Some v, cbs) \<Rightarrow> (Some (ucast v), cbs))"

definition CBS_get_u24 :: "CBS \<Rightarrow> u32 option \<times> CBS" where
  "CBS_get_u24 cbs =
     (case cbs_get_u cbs 3 of (None, cbs) \<Rightarrow> (None, cbs) | (Some v, cbs) \<Rightarrow> (Some (ucast v), cbs))"

definition CBS_get_u32 :: "CBS \<Rightarrow> u32 option \<times> CBS" where
  "CBS_get_u32 cbs =
     (case cbs_get_u cbs 4 of (None, cbs) \<Rightarrow> (None, cbs) | (Some v, cbs) \<Rightarrow> (Some (ucast v), cbs))"

definition CBS_get_u64 :: "CBS \<Rightarrow> u64 option \<times> CBS" where
  "CBS_get_u64 cbs = cbs_get_u cbs 8"

text \<open>The portable byte swaps (the compiler built-ins compute the same).\<close>

definition CRYPTO_bswap2 :: "u16 \<Rightarrow> u16" where
  "CRYPTO_bswap2 x = drop_bit 8 x OR push_bit 8 x"

definition CRYPTO_bswap4 :: "u32 \<Rightarrow> u32" where
  "CRYPTO_bswap4 x =
     (let x = drop_bit 16 x OR push_bit 16 x
      in drop_bit 8 (x AND 0xff00ff00) OR push_bit 8 (x AND 0x00ff00ff))"

definition CRYPTO_bswap8 :: "u64 \<Rightarrow> u64" where
  "CRYPTO_bswap8 x =
     ucast (CRYPTO_bswap4 (ucast (drop_bit 32 x))) OR push_bit 32 (ucast (CRYPTO_bswap4 (ucast x)))"

definition CBS_get_u16le :: "CBS \<Rightarrow> u16 option \<times> CBS" where
  "CBS_get_u16le cbs =
     (case CBS_get_u16 cbs of (None, cbs) \<Rightarrow> (None, cbs) | (Some v, cbs) \<Rightarrow> (Some (CRYPTO_bswap2 v), cbs))"

definition CBS_get_u32le :: "CBS \<Rightarrow> u32 option \<times> CBS" where
  "CBS_get_u32le cbs =
     (case CBS_get_u32 cbs of (None, cbs) \<Rightarrow> (None, cbs) | (Some v, cbs) \<Rightarrow> (Some (CRYPTO_bswap4 v), cbs))"

definition CBS_get_u64le :: "CBS \<Rightarrow> u64 option \<times> CBS" where
  "CBS_get_u64le cbs =
     (case cbs_get_u cbs 8 of (None, cbs) \<Rightarrow> (None, cbs) | (Some v, cbs) \<Rightarrow> (Some (CRYPTO_bswap8 v), cbs))"

definition CBS_get_last_u8 :: "CBS \<Rightarrow> u8 option \<times> CBS" where
  "CBS_get_last_u8 cbs =
     (if CBS_len cbs = 0 then (None, cbs)
      else (Some (cbs ! (CBS_len cbs - 1)), take (CBS_len cbs - 1) cbs))"

definition CBS_get_bytes :: "CBS \<Rightarrow> nat \<Rightarrow> CBS option \<times> CBS" where
  "CBS_get_bytes cbs len =
     (case cbs_get cbs len of (None, cbs) \<Rightarrow> (None, cbs) | (Some v, cbs) \<Rightarrow> (Some (CBS_init v len), cbs))"

definition CBS_copy_bytes :: "CBS \<Rightarrow> nat \<Rightarrow> u8 list option \<times> CBS" where
  "CBS_copy_bytes cbs len =
     (case cbs_get cbs len of (None, cbs) \<Rightarrow> (None, cbs) | (Some v, cbs) \<Rightarrow> (Some (take len v), cbs))"

definition cbs_get_length_prefixed :: "CBS \<Rightarrow> nat \<Rightarrow> CBS option \<times> CBS" where
  "cbs_get_length_prefixed cbs len_len =
     (case cbs_get_u cbs len_len of
        (None, cbs) \<Rightarrow> (None, cbs)
      | (Some len, cbs) \<Rightarrow> CBS_get_bytes cbs (unat len))"

definition CBS_get_u8_length_prefixed :: "CBS \<Rightarrow> CBS option \<times> CBS" where
  "CBS_get_u8_length_prefixed cbs = cbs_get_length_prefixed cbs 1"

definition CBS_get_u16_length_prefixed :: "CBS \<Rightarrow> CBS option \<times> CBS" where
  "CBS_get_u16_length_prefixed cbs = cbs_get_length_prefixed cbs 2"

definition CBS_get_u24_length_prefixed :: "CBS \<Rightarrow> CBS option \<times> CBS" where
  "CBS_get_u24_length_prefixed cbs = cbs_get_length_prefixed cbs 3"

lemmas cbs_defs = CBS_len_def CBS_data_def CBS_init_def cbs_get_def CBS_skip_def CBS_get_bytes_def

lemma cbs_get_Some [consume]:
  "cbs_get cbs n = (Some v, r) \<longleftrightarrow> n \<le> length cbs \<and> v = take n cbs \<and> r = drop n cbs"
  by (auto simp: cbs_defs)

lemma CBS_get_u8_Nil [simp]: "CBS_get_u8 [] = (None, [])"
  by (simp add: CBS_get_u8_def cbs_defs)

lemma CBS_get_u8_Cons [simp]: "CBS_get_u8 (b # bs) = (Some b, bs)"
  by (simp add: CBS_get_u8_def cbs_defs)

lemma CBS_get_u8_Some [consume]: "CBS_get_u8 cbs = (Some b, r) \<longleftrightarrow> cbs = b # r"
  by (cases cbs) auto

lemma CBS_get_u8_None [consume]: "CBS_get_u8 cbs = (None, r) \<longleftrightarrow> cbs = [] \<and> r = []"
  by (cases cbs) auto

lemma CBS_get_bytes_eq:
  "CBS_get_bytes cbs n = (if length cbs < n then (None, cbs) else (Some (take n cbs), drop n cbs))"
  by (simp add: cbs_defs)

lemma CBS_get_bytes_Some [consume]:
  "CBS_get_bytes cbs n = (Some v, r) \<longleftrightarrow> n \<le> length cbs \<and> v = take n cbs \<and> r = drop n cbs"
  by (auto simp: CBS_get_bytes_eq)

lemma CBS_skip_eq:
  "CBS_skip cbs n = (if length cbs < n then (None, cbs) else (Some (), drop n cbs))"
  by (simp add: cbs_defs)

lemma get_u_loop_unat:
  "unat r * 256 ^ length bs + be_val bs < 2 ^ 64 \<Longrightarrow>
   unat (get_u_loop r bs) = unat r * 256 ^ length bs + be_val bs"
proof (induction bs arbitrary: r)
  case Nil
  then show ?case by (simp add: get_u_loop_def)
next
  case (Cons b bs)
  have small: "unat r * 256 < 2 ^ 64"
  proof -
    have "unat r * 256 \<le> unat r * 256 ^ length (b # bs)" by simp
    with Cons.prems show ?thesis by linarith
  qed
  have step: "unat (push_bit 8 r OR ucast b) = unat r * 256 + unat b"
  proof -
    have "unat (ucast b :: u64) = unat b" by (rule unat_ucast_up) simp
    then show ?thesis using unat_push_or [of "ucast b :: u64" 8 r] small by simp
  qed
  have "get_u_loop r (b # bs) = get_u_loop (push_bit 8 r OR ucast b) bs"
    by (simp add: get_u_loop_def)
  also have "unat \<dots> = (unat r * 256 + unat b) * 256 ^ length bs + be_val bs"
    using Cons.IH [of "push_bit 8 r OR ucast b"] Cons.prems
    by (simp only: step) (simp add: be_val_Cons algebra_simps)
  finally show ?case by (simp add: be_val_Cons algebra_simps)
qed

lemma be_val_lt_64: "length bs \<le> 8 \<Longrightarrow> be_val bs < 2 ^ 64"
proof -
  assume "length bs \<le> 8"
  then have "(256 :: nat) ^ length bs \<le> 256 ^ 8"
    by (rule power_increasing) simp
  with be_val_bound [of bs] have "be_val bs < 256 ^ 8" by linarith
  then show ?thesis by simp
qed

lemma cbs_get_u_Some [consume]:
  assumes "n \<le> 8"
  shows "cbs_get_u cbs n = (Some v, r) \<longleftrightarrow>
    n \<le> length cbs \<and> unat v = be_val (take n cbs) \<and> r = drop n cbs"
proof -
  have "unat (get_u_loop 0 (take n cbs)) = be_val (take n cbs)"
    using get_u_loop_unat [of 0 "take n cbs"] be_val_lt_64 [of "take n cbs"] assms by simp
  then show ?thesis
    by (auto simp: cbs_get_u_def cbs_defs word_unat_eq_iff)
qed

lemma cbs_get_u_None [consume]: "cbs_get_u cbs n = (None, r) \<longleftrightarrow> length cbs < n \<and> r = cbs"
  by (auto simp: cbs_get_u_def cbs_defs)

lemma cbs_get_u_append:
  assumes "v < 256 ^ n" and "n \<le> 8"
  shows "cbs_get_u (be_bytes n v @ rest) n = (Some (of_nat v), rest)"
proof -
  have "(256 :: nat) ^ n \<le> 256 ^ 8" using assms(2) by (rule power_increasing) simp
  with assms(1) have "v < 2 ^ 64" by simp
  then have "unat (of_nat v :: u64) = v" by (simp add: unat_of_nat)
  then show ?thesis using assms by (simp add: cbs_get_u_Some be_val_be_bytes)
qed

end
