(* ===== verification/CbsAsn1.thy ===== *)
theory CbsAsn1
  imports Cbs
begin

text \<open>
  The ASN.1 half of \<open>crypto/bytestring/cbs.c\<close>: base-128 integers, tags, elements in DER (and in the
  subset of BER that \<open>ber.c\<close> needs), and the typed readers built on them. Tags are the 32-bit values
  of \<open>openssl/bytestring.h\<close>: class and constructed bit in the top three bits, the tag number below.
\<close>

section \<open>Tags\<close>

definition CBS_ASN1_TAG_SHIFT :: nat where "CBS_ASN1_TAG_SHIFT = 24"
definition CBS_ASN1_CONSTRUCTED :: u32 where
  "CBS_ASN1_CONSTRUCTED = push_bit CBS_ASN1_TAG_SHIFT 0x20"
definition CBS_ASN1_TAG_NUMBER_MASK :: u32 where
  "CBS_ASN1_TAG_NUMBER_MASK = push_bit (5 + CBS_ASN1_TAG_SHIFT) 1 - 1"
definition CBS_ASN1_BOOLEAN :: u32 where "CBS_ASN1_BOOLEAN = 0x1"
definition CBS_ASN1_INTEGER :: u32 where "CBS_ASN1_INTEGER = 0x2"
definition CBS_ASN1_BITSTRING :: u32 where "CBS_ASN1_BITSTRING = 0x3"
definition CBS_ASN1_OCTETSTRING :: u32 where "CBS_ASN1_OCTETSTRING = 0x4"

text \<open>The do-while loop of \<open>parse_base128_integer\<close>, from an accumulator.\<close>

function parse_base128_loop :: "u64 \<Rightarrow> CBS \<Rightarrow> u64 option \<times> CBS" where
  "parse_base128_loop v cbs =
     (case CBS_get_u8 cbs of
        (None, cbs') \<Rightarrow> (None, cbs')
      | (Some b, cbs') \<Rightarrow>
          if drop_bit (64 - 7) v \<noteq> 0 then (None, cbs')
          else if v = 0 \<and> b = 0x80 then (None, cbs')
          else let v' = push_bit 7 v OR ucast (b AND 0x7f)
               in if b AND 0x80 \<noteq> 0 then parse_base128_loop v' cbs' else (Some v', cbs'))"
  by pat_completeness auto
termination
  by (relation "measure (\<lambda>(v, cbs). length cbs)") (auto simp: consume dest!: sym [of "(_, _)"])

declare parse_base128_loop.simps [simp del]

definition parse_base128_integer :: "CBS \<Rightarrow> u64 option \<times> CBS" where
  "parse_base128_integer cbs = parse_base128_loop 0 cbs"

definition parse_asn1_tag :: "CBS \<Rightarrow> u32 option \<times> CBS" where
  "parse_asn1_tag cbs =
     (case CBS_get_u8 cbs of
        (None, cbs) \<Rightarrow> (None, cbs)
      | (Some tag_byte, cbs) \<Rightarrow>
          let tag = push_bit CBS_ASN1_TAG_SHIFT (ucast tag_byte AND 0xe0);
              tag_number = (ucast (tag_byte AND 0x1f) :: u32)
          in if tag_number = 0x1f
             then (case parse_base128_integer cbs of
                     (None, cbs) \<Rightarrow> (None, cbs)
                   | (Some v, cbs) \<Rightarrow>
                       if v > ucast CBS_ASN1_TAG_NUMBER_MASK \<or> v < 0x1f then (None, cbs)
                       else (Some (tag OR ucast v), cbs))
             else (Some (tag OR tag_number), cbs))"

section \<open>Elements\<close>

text \<open>On success the result is the element (header included), its tag and the length of its header.
  The element is parsed on a copy of the input: a failure leaves the input unchanged.\<close>

definition cbs_get_any_asn1_element ::
  "CBS \<Rightarrow> bool \<Rightarrow> (CBS \<times> u32 \<times> nat) option \<times> CBS" where
  "cbs_get_any_asn1_element cbs ber_ok =
     (let get_out = (\<lambda>len tag header_len.
            case CBS_get_bytes cbs len of
              (None, cbs') \<Rightarrow> (None, cbs')
            | (Some out, cbs') \<Rightarrow> (Some (out, tag, header_len), cbs'))
      in case parse_asn1_tag cbs of
           (None, _) \<Rightarrow> (None, cbs)
         | (Some tag, header) \<Rightarrow>
             (case CBS_get_u8 header of
                (None, _) \<Rightarrow> (None, cbs)
              | (Some length_byte, header) \<Rightarrow>
                  let header_len = CBS_len cbs - CBS_len header in
                  if length_byte AND 0x80 = 0
                  then get_out (unat length_byte + header_len) tag header_len
                  else
                    let num_bytes = unat (length_byte AND 0x7f) in
                    if ber_ok \<and> tag AND CBS_ASN1_CONSTRUCTED \<noteq> 0 \<and> num_bytes = 0
                    then get_out header_len tag header_len
                    else if num_bytes = 0 \<or> num_bytes > 4 then (None, cbs)
                    else (case cbs_get_u header num_bytes of
                            (None, _) \<Rightarrow> (None, cbs)
                          | (Some len64, header) \<Rightarrow>
                              if len64 < 128 then (None, cbs)
                              else if drop_bit ((num_bytes - 1) * 8) len64 = 0 then (None, cbs)
                              else
                                let len = unat len64;
                                    total = szadd (szadd len header_len) num_bytes
                                in if total < len then (None, cbs)
                                   else get_out total tag (header_len + num_bytes))))"

definition CBS_get_any_asn1_element :: "CBS \<Rightarrow> (CBS \<times> u32 \<times> nat) option \<times> CBS" where
  "CBS_get_any_asn1_element cbs = cbs_get_any_asn1_element cbs False"

definition CBS_get_any_ber_asn1_element :: "CBS \<Rightarrow> (CBS \<times> u32 \<times> nat) option \<times> CBS" where
  "CBS_get_any_ber_asn1_element cbs = cbs_get_any_asn1_element cbs True"

definition CBS_get_any_asn1 :: "CBS \<Rightarrow> (CBS \<times> u32) option \<times> CBS" where
  "CBS_get_any_asn1 cbs =
     (case CBS_get_any_asn1_element cbs of
        (None, cbs) \<Rightarrow> (None, cbs)
      | (Some (out, tag, header_len), cbs) \<Rightarrow>
          (case CBS_skip out header_len of
             (None, out) \<Rightarrow> (None, cbs)
           | (Some _, out) \<Rightarrow> (Some (out, tag), cbs)))"

definition cbs_get_asn1 :: "CBS \<Rightarrow> u32 \<Rightarrow> bool \<Rightarrow> CBS option \<times> CBS" where
  "cbs_get_asn1 cbs tag_value skip_header =
     (case CBS_get_any_asn1_element cbs of
        (None, cbs) \<Rightarrow> (None, cbs)
      | (Some (out, tag, header_len), cbs) \<Rightarrow>
          if tag \<noteq> tag_value then (None, cbs)
          else if skip_header
          then (case CBS_skip out header_len of
                  (None, out) \<Rightarrow> (None, cbs)
                | (Some _, out) \<Rightarrow> (Some out, cbs))
          else (Some out, cbs))"

definition CBS_get_asn1 :: "CBS \<Rightarrow> u32 \<Rightarrow> CBS option \<times> CBS" where
  "CBS_get_asn1 cbs tag_value = cbs_get_asn1 cbs tag_value True"

definition CBS_get_asn1_element :: "CBS \<Rightarrow> u32 \<Rightarrow> CBS option \<times> CBS" where
  "CBS_get_asn1_element cbs tag_value = cbs_get_asn1 cbs tag_value False"

definition CBS_peek_asn1_tag :: "CBS \<Rightarrow> u32 \<Rightarrow> bool" where
  "CBS_peek_asn1_tag cbs tag_value =
     (if CBS_len cbs < 1 then False
      else case parse_asn1_tag cbs of
             (None, _) \<Rightarrow> False
           | (Some actual_tag, _) \<Rightarrow> tag_value = actual_tag)"

section \<open>Typed readers\<close>

fun asn1_uint64_loop :: "u64 \<Rightarrow> u8 list \<Rightarrow> u64 option" where
  "asn1_uint64_loop out [] = Some out"
| "asn1_uint64_loop out (b # data) =
     (if drop_bit 56 out \<noteq> 0 then None
      else asn1_uint64_loop (push_bit 8 out OR ucast b) data)"

definition CBS_get_asn1_uint64 :: "CBS \<Rightarrow> u64 option \<times> CBS" where
  "CBS_get_asn1_uint64 cbs =
     (case CBS_get_asn1 cbs CBS_ASN1_INTEGER of
        (None, cbs) \<Rightarrow> (None, cbs)
      | (Some bytes, cbs) \<Rightarrow>
          let data = CBS_data bytes; len = CBS_len bytes in
          if len = 0 then (None, cbs)
          else if data ! 0 AND 0x80 \<noteq> 0 then (None, cbs)
          else if data ! 0 = 0 \<and> len > 1 \<and> data ! 1 AND 0x80 = 0 then (None, cbs)
          else (asn1_uint64_loop 0 data, cbs))"

text \<open>The \<open>int64_t\<close> of the union is read from its bytes, least significant first; its bits are the
  64-bit word returned here.\<close>

definition CBS_get_asn1_int64 :: "CBS \<Rightarrow> u64 option \<times> CBS" where
  "CBS_get_asn1_int64 cbs =
     (case CBS_get_asn1 cbs CBS_ASN1_INTEGER of
        (None, cbs) \<Rightarrow> (None, cbs)
      | (Some bytes, cbs) \<Rightarrow>
          let data = CBS_data bytes; len = CBS_len bytes in
          if len = 0 \<or> len > 8 then (None, cbs)
          else if len > 1 \<and> data ! 0 = 0 \<and> data ! 1 AND 0x80 = 0 then (None, cbs)
          else if len > 1 \<and> data ! 0 = 0xff \<and> data ! 1 AND 0x80 \<noteq> 0 then (None, cbs)
          else
            let is_negative = data ! 0 AND 0x80 \<noteq> 0;
                u = replicate 8 (if is_negative then 0xff else 0);
                u = fold (\<lambda>i u. u[i := data ! (len - i - 1)]) [0..<len] u
            in (Some (of_nat (be_val (rev u))), cbs))"

definition CBS_get_asn1_bool :: "CBS \<Rightarrow> bool option \<times> CBS" where
  "CBS_get_asn1_bool cbs =
     (case CBS_get_asn1 cbs CBS_ASN1_BOOLEAN of
        (None, cbs) \<Rightarrow> (None, cbs)
      | (Some bytes, cbs) \<Rightarrow>
          if CBS_len bytes \<noteq> 1 then (None, cbs)
          else let val = CBS_data bytes ! 0 in
               if val \<noteq> 0 \<and> val \<noteq> 0xff then (None, cbs)
               else (Some (val \<noteq> 0), cbs))"

text \<open>\<open>Some None\<close>: the element is absent, \<open>*out_present\<close> is 0.\<close>

definition CBS_get_optional_asn1 :: "CBS \<Rightarrow> u32 \<Rightarrow> CBS option option \<times> CBS" where
  "CBS_get_optional_asn1 cbs tag =
     (if CBS_peek_asn1_tag cbs tag
      then (case CBS_get_asn1 cbs tag of
              (None, cbs) \<Rightarrow> (None, cbs)
            | (Some out, cbs) \<Rightarrow> (Some (Some out), cbs))
      else (Some None, cbs))"

definition CBS_get_optional_asn1_octet_string :: "CBS \<Rightarrow> u32 \<Rightarrow> (CBS \<times> bool) option \<times> CBS" where
  "CBS_get_optional_asn1_octet_string cbs tag =
     (case CBS_get_optional_asn1 cbs tag of
        (None, cbs) \<Rightarrow> (None, cbs)
      | (Some (Some child), cbs) \<Rightarrow>
          (case CBS_get_asn1 child CBS_ASN1_OCTETSTRING of
             (None, child) \<Rightarrow> (None, cbs)
           | (Some out, child) \<Rightarrow>
               if CBS_len child \<noteq> 0 then (None, cbs) else (Some (out, True), cbs))
      | (Some None, cbs) \<Rightarrow> (Some ([], False), cbs))"

definition CBS_get_optional_asn1_uint64 :: "CBS \<Rightarrow> u32 \<Rightarrow> u64 \<Rightarrow> u64 option \<times> CBS" where
  "CBS_get_optional_asn1_uint64 cbs tag default_value =
     (case CBS_get_optional_asn1 cbs tag of
        (None, cbs) \<Rightarrow> (None, cbs)
      | (Some (Some child), cbs) \<Rightarrow>
          (case CBS_get_asn1_uint64 child of
             (None, child) \<Rightarrow> (None, cbs)
           | (Some out, child) \<Rightarrow> if CBS_len child \<noteq> 0 then (None, cbs) else (Some out, cbs))
      | (Some None, cbs) \<Rightarrow> (Some default_value, cbs))"

definition CBS_get_optional_asn1_bool :: "CBS \<Rightarrow> u32 \<Rightarrow> int \<Rightarrow> int option \<times> CBS" where
  "CBS_get_optional_asn1_bool cbs tag default_value =
     (case CBS_get_optional_asn1 cbs tag of
        (None, cbs) \<Rightarrow> (None, cbs)
      | (Some (Some child), cbs) \<Rightarrow>
          (case CBS_get_asn1 child CBS_ASN1_BOOLEAN of
             (None, child) \<Rightarrow> (None, cbs)
           | (Some child2, child) \<Rightarrow>
               if CBS_len child2 \<noteq> 1 \<or> CBS_len child \<noteq> 0 then (None, cbs)
               else let boolean = CBS_data child2 ! 0 in
                    if boolean = 0 then (Some 0, cbs)
                    else if boolean = 0xff then (Some 1, cbs)
                    else (None, cbs))
      | (Some None, cbs) \<Rightarrow> (Some default_value, cbs))"

definition CBS_is_valid_asn1_bitstring :: "CBS \<Rightarrow> bool" where
  "CBS_is_valid_asn1_bitstring cbs =
     (case CBS_get_u8 cbs of
        (None, _) \<Rightarrow> False
      | (Some num_unused_bits, input) \<Rightarrow>
          if num_unused_bits > 7 then False
          else if num_unused_bits = 0 then True
          else (case CBS_get_last_u8 input of
                  (None, _) \<Rightarrow> False
                | (Some last_byte, _) \<Rightarrow> last_byte AND (push_bit (unat num_unused_bits) 1 - 1) = 0))"

definition CBS_asn1_bitstring_has_bit :: "CBS \<Rightarrow> u32 \<Rightarrow> bool" where
  "CBS_asn1_bitstring_has_bit cbs bit_no =
     (if \<not> CBS_is_valid_asn1_bitstring cbs then False
      else let byte_num = unat (drop_bit 3 bit_no) + 1;
               bit_num = 7 - unat (bit_no AND 7)
           in byte_num < CBS_len cbs \<and> CBS_data cbs ! byte_num AND push_bit bit_num 1 \<noteq> 0)"

end
