(* ===== verification/Der.thy ===== *)
theory Der
  imports CbsAsn1
begin

text \<open>
  What DER promises about the parser of \<open>cbs.c\<close>: reference encodings of base-128 integers, tags,
  lengths and elements, and the proof that the parser is a strict codec for each of them. It accepts
  exactly the canonical encoding of every tag and length, and every element has one encoding.
\<close>

section \<open>Base-128 integers\<close>

fun base128_hi :: "nat \<Rightarrow> u8 list" where
  "base128_hi n = (if n = 0 then [] else base128_hi (n div 128) @ [of_nat (128 + n mod 128)])"

declare base128_hi.simps [simp del]

definition base128 :: "nat \<Rightarrow> u8 list" where
  "base128 n = base128_hi (n div 128) @ [of_nat (n mod 128)]"

lemma base128_hi_0 [simp]: "base128_hi 0 = []"
  by (simp add: base128_hi.simps)

lemma base128_hi_step:
  "d < 128 \<Longrightarrow> n \<noteq> 0 \<or> d \<noteq> 0 \<Longrightarrow> base128_hi (n * 128 + d) = base128_hi n @ [of_nat (128 + d)]"
  by (subst base128_hi.simps) auto

lemma base128_step: "d < 128 \<Longrightarrow> base128 (n * 128 + d) = base128_hi n @ [of_nat d]"
  by (simp add: base128_def)

lemma length_base128_hi: "n < 128 ^ k \<Longrightarrow> length (base128_hi n) \<le> k"
proof (induction k arbitrary: n)
  case (Suc k)
  then have "n div 128 < 128 ^ k" by (simp add: less_mult_imp_div_less mult.commute)
  with Suc.IH [of "n div 128"] show ?case by (subst base128_hi.simps) auto
qed simp

lemma unat_ucast_u8_u64 [simp]: "unat (ucast (b :: u8) :: u64) = unat b"
  and unat_ucast_u8_u32 [simp]: "unat (ucast (b :: u8) :: u32) = unat b"
  and unat_ucast_u32_u64 [simp]: "unat (ucast (w :: u32) :: u64) = unat w"
  by (rule unat_ucast_up, simp)+

lemma drop_57_eq_0: "drop_bit 57 (v :: u64) = 0 \<longleftrightarrow> unat v < 2 ^ 57"
proof -
  have "drop_bit 57 v = 0 \<longleftrightarrow> unat v div 2 ^ 57 = 0"
    by (simp add: word_unat_eq_iff unat_drop_bit)
  also have "\<dots> \<longleftrightarrow> unat v < 2 ^ 57"
    by (metis div_eq_0_iff power_not_zero zero_neq_numeral)
  finally show ?thesis .
qed

lemma base128_acc:
  assumes "unat v < 2 ^ 57"
  shows "unat (push_bit 7 v OR ucast ((b :: u8) AND 0x7f) :: u64) = unat v * 128 + unat b mod 128"
proof -
  have "unat (ucast (b AND 0x7f) :: u64) = unat b mod 128"
    by (simp add: byte_arith)
  then show ?thesis
    using unat_push_or [of "ucast (b AND 0x7f) :: u64" 7 v] assms by simp
qed

lemma parse_base128_loop_Nil [simp]: "parse_base128_loop v [] = (None, [])"
  by (subst parse_base128_loop.simps) simp

lemma parse_base128_loop_Cons:
  "parse_base128_loop v (b # bs) =
     (if 2 ^ 57 \<le> unat v \<or> (v = 0 \<and> b = 0x80) then (None, bs)
      else let v' = push_bit 7 v OR ucast (b AND 0x7f)
           in if 128 \<le> unat b then parse_base128_loop v' bs else (Some v', bs))"
  by (subst parse_base128_loop.simps) (auto simp: drop_57_eq_0 and_0x80_eq_0 Let_def not_less not_le)

lemma parse_base128_loop_hi:
  "n < 2 ^ 57 \<Longrightarrow> parse_base128_loop 0 (base128_hi n @ bs) = parse_base128_loop (of_nat n) bs"
proof (induction n arbitrary: bs rule: base128_hi.induct)
  case (1 n)
  show ?case
  proof (cases "n = 0")
    case False
    let ?b = "of_nat (128 + n mod 128) :: u8" and ?v = "of_nat (n div 128) :: u64"
    have b: "unat ?b = 128 + n mod 128" by (simp only: byte_arith) simp
    have v: "unat ?v = n div 128" using 1(2) by (simp add: unat_of_nat)
    have small: "\<not> 2 ^ 57 \<le> n div 128" using 1(2) div_le_dividend [of n 128] by linarith
    have not_lead: "\<not> (?v = 0 \<and> ?b = 0x80)"
    proof
      assume "?v = 0 \<and> ?b = 0x80"
      then have "n div 128 = 0" and "128 + n mod 128 = 128"
        using v b by (auto simp: word_unat_eq_iff)
      with False show False by (simp add: div_eq_0_iff)
    qed
    have acc: "push_bit 7 ?v OR ucast (?b AND 0x7f) = (of_nat n :: u64)"
    proof (rule word_unat_eq_iff [THEN iffD2])
      show "unat (push_bit 7 ?v OR ucast (?b AND 0x7f)) = unat (of_nat n :: u64)"
        using base128_acc [of ?v ?b] 1(2) v b by (simp add: unat_of_nat)
    qed
    have "parse_base128_loop 0 (base128_hi n @ bs) = parse_base128_loop 0 (base128_hi (n div 128) @ ?b # bs)"
      using False by (subst base128_hi.simps) simp
    also have "\<dots> = parse_base128_loop ?v (?b # bs)"
      using 1 False by simp
    also have "\<dots> = parse_base128_loop (of_nat n) bs"
      using not_lead b v small acc by (auto simp: parse_base128_loop_Cons Let_def simp del: of_nat_add)
    finally show ?thesis .
  qed simp
qed

lemma parse_base128_enc:
  "parse_base128_integer (base128 (unat w) @ bs) = (Some w, bs)"
proof -
  let ?n = "unat w div 128" and ?b = "of_nat (unat w mod 128) :: u8"
  have n: "?n < 2 ^ 57" using unsigned_less [of w, where 'a = nat] by simp
  have b: "unat ?b = unat w mod 128" by (simp add: byte_arith)
  have v: "unat (of_nat ?n :: u64) = ?n" using n by (simp add: unat_of_nat)
  have "\<not> 128 \<le> unat ?b" by (simp add: b)
  moreover have "?b \<noteq> 0x80" using b by (auto simp: word_unat_eq_iff)
  moreover have "push_bit 7 (of_nat ?n) OR ucast (?b AND 0x7f) = w"
    by (rule word_unat_eq_iff [THEN iffD2]) (use base128_acc [of "of_nat ?n" ?b] n b v in simp)
  ultimately show ?thesis
    using n v parse_base128_loop_hi [OF n, of "?b # bs"]
    by (simp add: parse_base128_integer_def base128_def parse_base128_loop_Cons)
qed

lemma parse_base128_loop_Some:
  "parse_base128_loop v cs = (Some w, rest) \<Longrightarrow>
   \<exists>ds. cs = ds @ rest \<and> base128 (unat w) = base128_hi (unat v) @ ds"
proof (induction cs arbitrary: v)
  case (Cons b bs)
  let ?v' = "push_bit 7 v OR ucast (b AND 0x7f) :: u64"
  from Cons.prems have small: "unat v < 2 ^ 57" and nz: "\<not> (v = 0 \<and> b = 0x80)"
    by (auto simp: parse_base128_loop_Cons split: if_splits)
  note v' = base128_acc [OF small, of b]
  show ?case
  proof (cases "128 \<le> unat b")
    case True
    then have "parse_base128_loop ?v' bs = (Some w, rest)"
      using Cons.prems small nz by (simp add: parse_base128_loop_Cons Let_def)
    from Cons.IH [OF this] obtain ds
      where ds: "bs = ds @ rest" "base128 (unat w) = base128_hi (unat ?v') @ ds" by blast
    have b: "of_nat (128 + unat b mod 128) = b"
    proof (rule word_unat_eq_iff [THEN iffD2])
      have "unat b mod 128 = unat b - 128" using True by (simp add: mod_128_high)
      then show "unat (of_nat (128 + unat b mod 128) :: u8) = unat b"
        using True unat_u8_less [of b] by (simp add: byte_arith del: of_nat_add)
    qed
    have "unat v \<noteq> 0 \<or> unat b mod 128 \<noteq> 0"
    proof (rule ccontr)
      assume "\<not> ?thesis"
      then have "v = 0" and "b = of_nat 128" using b by (auto simp: unat_eq_0 simp del: of_nat_add)
      with nz show False by simp
    qed
    then have "base128_hi (unat ?v') = base128_hi (unat v) @ [b]"
      using base128_hi_step [of "unat b mod 128" "unat v"] v' b by simp
    with ds show ?thesis by (intro exI [of _ "b # ds"]) simp
  next
    case False
    then have "w = ?v'" and "rest = bs"
      using Cons.prems small nz by (auto simp: parse_base128_loop_Cons Let_def)
    moreover have "base128 (unat ?v') = base128_hi (unat v) @ [b]"
      using v' False base128_step [of "unat b" "unat v"] by simp
    ultimately show ?thesis by (intro exI [of _ "[b]"]) simp
  qed
qed simp

interpretation base128: strict_codec "\<lambda>w. base128 (unat w)" parse_base128_integer "\<lambda>_. True"
proof unfold_locales
  fix x rest show "parse_base128_integer (base128 (unat x) @ rest) = (Some x, rest)"
    by (rule parse_base128_enc)
next
  fix bs :: "u8 list" and x rest assume "parse_base128_integer bs = (Some x, rest)"
  then show "True \<and> bs = base128 (unat x) @ rest"
    using parse_base128_loop_Some [of 0 bs x rest] by (auto simp: parse_base128_integer_def)
qed

section \<open>Tags\<close>

text \<open>The identifier octets of a tag: the class and constructed bits, then the number in the low
  five bits or, from 31 on, in base 128.\<close>

definition tag_class :: "u32 \<Rightarrow> nat" where
  "tag_class tag = unat tag div 2 ^ 29"

definition tag_number :: "u32 \<Rightarrow> nat" where
  "tag_number tag = unat tag mod 2 ^ 29"

definition der_tag :: "u32 \<Rightarrow> u8 list" where
  "der_tag tag =
     (if tag_number tag < 31 then [of_nat (tag_class tag * 32 + tag_number tag)]
      else of_nat (tag_class tag * 32 + 31) # base128 (tag_number tag))"

lemma tag_class_less: "tag_class tag < 8"
  using unsigned_less [of tag, where 'a = nat] by (simp add: tag_class_def less_mult_imp_div_less)

lemma tag_split: "unat tag = tag_class tag * 2 ^ 29 + tag_number tag"
  by (simp add: tag_class_def tag_number_def)

lemma tag_eqI:
  "unat tag = c * 2 ^ 29 + n \<Longrightarrow> n < 2 ^ 29 \<Longrightarrow> tag_class tag = c \<and> tag_number tag = n"
  by (simp add: tag_class_def tag_number_def)

lemma unat_and_0xe0: "unat ((x :: u8) AND 0xe0) = unat x div 32 * 32"
proof -
  have "(0xe0 :: u8) = NOT (mask 5)" by (simp add: mask_eq_exp_minus_1)
  then show ?thesis using unat_and_not_mask [of x 5] by simp
qed

lemma unat_ucast_and_0xe0: "unat (ucast (x :: u8) AND 0xe0 :: u32) = unat x div 32 * 32"
proof -
  have "unat (ucast x AND 0xe0 :: u32) = unat (ucast x :: u32) AND unat (0xe0 :: u32)"
    by (rule unsigned_and_eq)
  also have "\<dots> = unat x AND unat (0xe0 :: u8)" by simp
  also have "\<dots> = unat (x AND 0xe0)" by (rule unsigned_and_eq [symmetric])
  finally show ?thesis by (simp only: unat_and_0xe0)
qed

lemma unat_tag_bits:
  "unat (push_bit CBS_ASN1_TAG_SHIFT (ucast (b :: u8) AND 0xe0) :: u32) = unat b div 32 * 2 ^ 29"
proof -
  have "unat b div 32 < 8" using unat_u8_less [of b] by (simp add: less_mult_imp_div_less)
  then show ?thesis
    by (simp add: CBS_ASN1_TAG_SHIFT_def unat_push_bit unat_ucast_and_0xe0 del: push_bit_and)
qed

lemma unat_tag_or:
  assumes "unat n < 2 ^ 29"
  shows "unat (push_bit CBS_ASN1_TAG_SHIFT (ucast (b :: u8) AND 0xe0) OR n :: u32)
         = unat b div 32 * 2 ^ 29 + unat n"
proof -
  have c: "unat b div 32 < 8" using unat_u8_less [of b] by (simp add: less_mult_imp_div_less)
  have "push_bit CBS_ASN1_TAG_SHIFT (ucast b AND 0xe0) = (push_bit 29 (of_nat (unat b div 32)) :: u32)"
    by (rule word_unat_eq_iff [THEN iffD2])
      (simp only: unat_tag_bits, use c in \<open>simp add: unat_push_bit unat_of_nat\<close>)
  then show ?thesis
    using unat_push_or [OF assms, of "of_nat (unat b div 32)"] c by (simp add: unat_of_nat)
qed

lemma number_mask: "unat CBS_ASN1_TAG_NUMBER_MASK = 2 ^ 29 - 1"
  by (simp add: CBS_ASN1_TAG_NUMBER_MASK_def CBS_ASN1_TAG_SHIFT_def)

lemma parse_asn1_tag_Nil [simp]: "parse_asn1_tag [] = (None, [])"
  by (simp add: parse_asn1_tag_def)

lemma parse_asn1_tag_Cons:
  "parse_asn1_tag (b # bs) =
     (if unat b mod 32 = 31
      then case parse_base128_integer bs of
             (None, r) \<Rightarrow> (None, r)
           | (Some v, r) \<Rightarrow>
               if 2 ^ 29 \<le> unat v \<or> unat v < 31 then (None, r)
               else (Some (of_nat (unat b div 32 * 2 ^ 29 + unat v)), r)
      else (Some (of_nat (unat b div 32 * 2 ^ 29 + unat b mod 32)), bs))"
proof -
  have low: "unat (ucast (b AND 0x1f) :: u32) = unat b mod 32"
    by (simp add: byte_arith)
  have num: "(ucast (b AND 0x1f) :: u32) = 0x1f \<longleftrightarrow> unat b mod 32 = 31"
    by (simp add: word_unat_eq_iff byte_arith)
  have max: "(v :: u64) > ucast CBS_ASN1_TAG_NUMBER_MASK \<longleftrightarrow> 2 ^ 29 \<le> unat v" for v
    by (simp add: word_less_nat_alt number_mask) linarith
  have min: "(v :: u64) < 0x1f \<longleftrightarrow> unat v < 31" for v
    by (simp add: word_less_nat_alt)
  have short: "push_bit CBS_ASN1_TAG_SHIFT (ucast b AND 0xe0) OR ucast (b AND 0x1f)
      = (of_nat (unat b div 32 * 2 ^ 29 + unat b mod 32) :: u32)"
  proof (rule word_of_nat_eqI)
    have "unat b mod 32 < 2 ^ 29" by (rule order.strict_trans [of _ 32]) simp_all
    then show "unat (push_bit CBS_ASN1_TAG_SHIFT (ucast b AND 0xe0) OR ucast (b AND 0x1f) :: u32)
        = unat b div 32 * 2 ^ 29 + unat b mod 32"
      using unat_tag_or [of "ucast (b AND 0x1f)" b] by (simp only: low)
  qed
  have long: "push_bit CBS_ASN1_TAG_SHIFT (ucast b AND 0xe0) OR ucast v
      = (of_nat (unat b div 32 * 2 ^ 29 + unat v) :: u32)" if "unat v < 2 ^ 29" for v :: u64
  proof -
    have "unat (ucast v :: u32) = unat v" using that by (simp add: unat_ucast)
    then show ?thesis using unat_tag_or [of "ucast v" b] that by (intro word_of_nat_eqI) simp
  qed
  show ?thesis
    by (auto simp: parse_asn1_tag_def Let_def num max min short long not_le
        simp del: push_bit_and of_nat_add of_nat_mult split: option.splits prod.splits)
qed

lemma tag_number_less: "tag_number tag < 2 ^ 29"
  by (simp add: tag_number_def)

lemma parse_asn1_tag_enc: "parse_asn1_tag (der_tag tag @ rest) = (Some tag, rest)"
proof -
  have tag: "of_nat (tag_class tag * 2 ^ 29 + tag_number tag) = tag"
    by (rule word_of_nat_eqI [OF tag_split, symmetric])
  show ?thesis
  proof (cases "tag_number tag < 31")
    case True
    let ?b = "of_nat (tag_class tag * 32 + tag_number tag) :: u8"
    have b: "unat ?b = tag_class tag * 32 + tag_number tag"
      using tag_class_less [of tag] True by (simp add: byte_arith del: of_nat_add of_nat_mult)
    then have "unat ?b div 32 = tag_class tag" and "unat ?b mod 32 = tag_number tag"
      using True by (simp_all add: div_nat_eqI)
    then show ?thesis using True tag
      by (simp add: der_tag_def parse_asn1_tag_Cons del: of_nat_add of_nat_mult)
  next
    case False
    let ?b = "of_nat (tag_class tag * 32 + 31) :: u8"
    have b: "unat ?b = tag_class tag * 32 + 31"
      using tag_class_less [of tag] by (simp add: byte_arith del: of_nat_add of_nat_mult)
    then have d: "unat ?b div 32 = tag_class tag" and m: "unat ?b mod 32 = 31"
      by (simp_all add: div_nat_eqI)
    have num: "unat (of_nat (tag_number tag) :: u64) = tag_number tag"
      using tag_number_less [of tag] by (simp add: unat_of_nat)
    have "parse_base128_integer (base128 (tag_number tag) @ rest) = (Some (of_nat (tag_number tag)), rest)"
      using parse_base128_enc [of "of_nat (tag_number tag)" rest] by (simp only: num)
    then show ?thesis using False tag d m num tag_number_less [of tag]
      by (simp add: der_tag_def parse_asn1_tag_Cons del: of_nat_add of_nat_mult)
  qed
qed

lemma parse_asn1_tag_Some:
  assumes "parse_asn1_tag bs = (Some tag, rest)"
  shows "bs = der_tag tag @ rest"
proof -
  obtain b cs where bs: "bs = b # cs" using assms by (cases bs) auto
  have c: "unat b div 32 < 8" using unat_u8_less [of b] by (simp add: less_mult_imp_div_less)
  show ?thesis
  proof (cases "unat b mod 32 = 31")
    case True
    then obtain v where v: "parse_base128_integer cs = (Some v, rest)" "unat v < 2 ^ 29" "31 \<le> unat v"
      and tag: "tag = of_nat (unat b div 32 * 2 ^ 29 + unat v)"
      using assms by (auto simp: bs parse_asn1_tag_Cons split: option.splits prod.splits if_splits
          simp del: of_nat_add of_nat_mult)
    have "unat tag = unat b div 32 * 2 ^ 29 + unat v"
      using c v(2) by (simp add: tag unat_of_nat del: of_nat_add of_nat_mult)
    then have t: "tag_class tag = unat b div 32" "tag_number tag = unat v"
      using tag_eqI v(2) by blast+
    have "unat b = unat b div 32 * 32 + 31" using True by presburger
    then have "b = of_nat (unat b div 32 * 32 + 31)" by (rule word_of_nat_eqI)
    then show ?thesis
      using v(3) base128.dec_Some [OF v(1)] by (simp add: bs der_tag_def t del: of_nat_add of_nat_mult)
  next
    case False
    then have tag: "tag = of_nat (unat b div 32 * 2 ^ 29 + unat b mod 32)" and r: "rest = cs"
      using assms by (auto simp: bs parse_asn1_tag_Cons simp del: of_nat_add of_nat_mult)
    have m: "unat b mod 32 < 31" using False mod_less_divisor [of 32 "unat b"] by linarith
    then have "unat tag = unat b div 32 * 2 ^ 29 + unat b mod 32"
      using c by (simp add: tag unat_of_nat del: of_nat_add of_nat_mult)
    moreover have "unat b mod 32 < 2 ^ 29" using m by simp
    ultimately have t: "tag_class tag = unat b div 32" "tag_number tag = unat b mod 32"
      using tag_eqI by blast+
    have "b = of_nat (unat b div 32 * 32 + unat b mod 32)"
      by (rule word_of_nat_eqI) (simp only: div_mult_mod_eq)
    then show ?thesis using m by (simp add: bs r der_tag_def t del: of_nat_add of_nat_mult)
  qed
qed

interpretation der_tag: strict_codec der_tag parse_asn1_tag "\<lambda>_. True"
  by unfold_locales (auto simp: parse_asn1_tag_enc dest: parse_asn1_tag_Some)

lemma length_der_tag: "0 < length (der_tag tag) \<and> length (der_tag tag) \<le> 7"
proof -
  have "tag_number tag div 128 < 128 ^ 5"
    using tag_number_less [of tag] by (simp add: less_mult_imp_div_less)
  from length_base128_hi [OF this] show ?thesis by (simp add: der_tag_def base128_def)
qed

section \<open>Lengths\<close>

text \<open>The number of significant bytes, and the DER length octets: short form below 128, otherwise the
  number of length bytes and the length in as few bytes as it takes.\<close>

fun nbytes :: "nat \<Rightarrow> nat" where
  "nbytes n = (if n = 0 then 0 else Suc (nbytes (n div 256)))"

declare nbytes.simps [simp del]

definition der_len :: "nat \<Rightarrow> u8 list" where
  "der_len n = (if n < 128 then [of_nat n] else of_nat (128 + nbytes n) # be_bytes (nbytes n) n)"

lemma nbytes_0 [simp]: "nbytes 0 = 0"
  by (simp add: nbytes.simps)

lemma nbytes_upper: "n < 256 ^ nbytes n"
proof (induction n rule: nbytes.induct)
  case (1 n)
  show ?case
  proof (cases "n = 0")
    case False
    then have "n div 256 < 256 ^ nbytes (n div 256)" using 1 by blast
    then have "n < 256 * 256 ^ nbytes (n div 256)"
      by (metis dividend_less_div_times less_le_trans div_less_iff_less_mult mult.commute zero_less_numeral)
    then show ?thesis using False by (subst nbytes.simps) simp
  qed simp
qed

lemma nbytes_le_iff: "nbytes n \<le> k \<longleftrightarrow> n < 256 ^ k"
proof
  assume "nbytes n \<le> k"
  then have "(256 :: nat) ^ nbytes n \<le> 256 ^ k" by (rule power_increasing) simp
  with nbytes_upper [of n] show "n < 256 ^ k" by linarith
next
  show "n < 256 ^ k \<Longrightarrow> nbytes n \<le> k"
  proof (induction k arbitrary: n)
    case (Suc k)
    then have "n div 256 < 256 ^ k" by (simp add: less_mult_imp_div_less mult.commute)
    with Suc.IH [of "n div 256"] show ?case by (subst nbytes.simps) simp
  qed simp
qed

lemma nbytes_eq_iff: "0 < k \<Longrightarrow> nbytes n = k \<longleftrightarrow> 256 ^ (k - 1) \<le> n \<and> n < 256 ^ k"
  using nbytes_le_iff [of n k] nbytes_le_iff [of n "k - 1"] by linarith

lemma nbytes_long:
  assumes "128 \<le> n" and "n < 2 ^ 32"
  shows "1 \<le> nbytes n" and "nbytes n \<le> 4"
    and "256 ^ (nbytes n - 1) \<le> n" and "n < 256 ^ nbytes n"
proof -
  show one: "1 \<le> nbytes n" using nbytes_le_iff [of n 0] assms(1) by simp
  show "nbytes n \<le> 4" using nbytes_le_iff [of n 4] assms(2) by simp
  show "256 ^ (nbytes n - 1) \<le> n" and "n < 256 ^ nbytes n"
    using nbytes_eq_iff [of "nbytes n" n] one by simp_all
qed

lemma length_der_len: "n < 2 ^ 32 \<Longrightarrow> 0 < length (der_len n) \<and> length (der_len n) \<le> 5"
  using nbytes_long(2) [of n] by (simp add: der_len_def)

section \<open>Elements\<close>

definition der_element :: "u32 \<Rightarrow> u8 list \<Rightarrow> u8 list" where
  "der_element tag c = der_tag tag @ der_len (length c) @ c"

definition header_length :: "u32 \<Rightarrow> u8 list \<Rightarrow> nat" where
  "header_length tag c = length (der_tag tag) + length (der_len (length c))"

lemma header_length_bound:
  "length c < 2 ^ 32 \<Longrightarrow> 2 \<le> header_length tag c \<and> header_length tag c \<le> 12"
  using length_der_tag [of tag] length_der_len [of "length c"] unfolding header_length_def by linarith

lemma length_der_element: "length (der_element tag c) = header_length tag c + length c"
  by (simp add: der_element_def header_length_def)

lemma drop_header [simp]: "drop (header_length tag c) (der_element tag c) = c"
  by (simp add: der_element_def header_length_def)

lemma drop_bit_eq_0_iff: "drop_bit n (v :: 'a::len word) = 0 \<longleftrightarrow> unat v < 2 ^ n"
proof -
  have "drop_bit n v = 0 \<longleftrightarrow> unat v div 2 ^ n = 0"
    by (simp add: word_unat_eq_iff unat_drop_bit)
  also have "\<dots> \<longleftrightarrow> unat v < 2 ^ n"
    by (metis div_eq_0_iff power_not_zero zero_neq_numeral)
  finally show ?thesis .
qed

lemma pow_256: "(2 :: nat) ^ (n * 8) = 256 ^ n"
  by (simp add: power_mult mult.commute [of n 8])

lemma cbs_element_enc:
  assumes len: "length c < 2 ^ 32"
  shows "cbs_get_any_asn1_element (der_element tag c @ rest) ber_ok =
    (Some (der_element tag c, tag, header_length tag c), rest)"
proof -
  let ?n = "length c" and ?in = "der_element tag c @ rest"
  have tg: "parse_asn1_tag ?in = (Some tag, der_len ?n @ c @ rest)"
    by (simp add: der_element_def parse_asn1_tag_enc)
  have bytes: "CBS_get_bytes ?in (?n + header_length tag c) = (Some (der_element tag c), rest)"
    by (simp add: CBS_get_bytes_eq add.commute [of ?n] flip: length_der_element)
  show ?thesis
  proof (cases "?n < 128")
    case True
    then have lb: "unat (of_nat ?n :: u8) = ?n" by (simp add: byte_arith)
    have dl: "der_len ?n = [of_nat ?n]" using True by (simp add: der_len_def)
    have hl: "length ?in - length (c @ rest) = header_length tag c"
      by (simp add: length_der_element)
    show ?thesis
      using True bytes hl
      by (simp add: cbs_get_any_asn1_element_def tg dl and_0x80_eq_0 lb CBS_len_def Let_def del: length_append)
  next
    case False
    let ?k = "nbytes ?n" and ?lb = "of_nat (128 + nbytes (length c)) :: u8"
    note k = nbytes_long [of ?n, OF _ len]
    have k4: "1 \<le> ?k" "?k \<le> 4" using k False by auto
    have lb: "unat ?lb = 128 + ?k" using k4 by (simp add: byte_arith del: of_nat_add)
    then have lb80: "?lb AND 0x80 \<noteq> 0" by (simp add: and_0x80_eq_0 del: of_nat_add)
    have lb7f: "unat (?lb AND 0x7f) = ?k"
      using k4 by (simp only: and_low_masks lb) (simp add: mod_add_self1)
    have dl: "der_len ?n @ c @ rest = ?lb # be_bytes ?k ?n @ c @ rest"
      using False by (simp add: der_len_def)
    have get: "cbs_get_u (be_bytes ?k ?n @ c @ rest) ?k = (Some (of_nat ?n), c @ rest)"
      by (rule cbs_get_u_append) (use k False in auto)
    have n: "unat (of_nat ?n :: u64) = ?n" using len by (simp add: unat_of_nat)
    have c1: "\<not> (of_nat ?n :: u64) < 128" using False n by (simp add: word_less_nat_alt)
    have c2: "drop_bit ((?k - 1) * 8) (of_nat ?n :: u64) \<noteq> 0"
      using k(3) False n by (simp only: drop_bit_eq_0_iff pow_256) simp
    have hl: "length ?in - length (be_bytes ?k ?n @ c @ rest) + ?k = header_length tag c"
      using False by (simp add: der_element_def header_length_def der_len_def)
    let ?h = "length ?in - length (be_bytes ?k ?n @ c @ rest)"
    have tot: "szadd (szadd ?n ?h) ?k = ?n + header_length tag c"
      using len header_length_bound [OF len, of tag] hl by (simp add: szadd_def)
    show ?thesis
      using lb80 lb7f k4 c1 c2 hl tot bytes n
      by (simp add: cbs_get_any_asn1_element_def tg dl get CBS_len_def Let_def del: length_append of_nat_add)
  qed
qed

text \<open>The same parser in two stages, header and body: what the code computes before it takes the
  bytes, and the single call that takes them.\<close>

definition asn1_header :: "CBS \<Rightarrow> bool \<Rightarrow> (nat \<times> u32 \<times> nat) option" where
  "asn1_header cbs ber_ok =
     (case parse_asn1_tag cbs of
        (None, _) \<Rightarrow> None
      | (Some tag, []) \<Rightarrow> None
      | (Some tag, lb # h) \<Rightarrow>
          let hl = length cbs - length h; n = unat (lb AND 0x7f) in
          if lb AND 0x80 = 0 then Some (unat lb + hl, tag, hl)
          else if ber_ok \<and> tag AND CBS_ASN1_CONSTRUCTED \<noteq> 0 \<and> n = 0 then Some (hl, tag, hl)
          else if n = 0 \<or> n > 4 then None
          else (case cbs_get_u h n of
                  (None, _) \<Rightarrow> None
                | (Some len64, _) \<Rightarrow>
                    let tot = szadd (szadd (unat len64) hl) n in
                    if len64 < 128 \<or> drop_bit ((n - 1) * 8) len64 = 0 \<or> tot < unat len64 then None
                    else Some (tot, tag, hl + n)))"

lemma diff_not_greater: "\<not> a < a - (b :: nat)"
  by simp

lemma cbs_element_header:
  "cbs_get_any_asn1_element cbs ber_ok =
     (case asn1_header cbs ber_ok of
        None \<Rightarrow> (None, cbs)
      | Some (tot, tag, hl) \<Rightarrow>
          if length cbs < tot then (None, cbs)
          else (Some (take tot cbs, tag, hl), drop tot cbs))"
proof (cases "parse_asn1_tag cbs")
  case (Pair t h)
  show ?thesis
  proof (cases t)
    case None
    then show ?thesis by (simp add: Pair cbs_get_any_asn1_element_def asn1_header_def)
  next
    case (Some tag)
    show ?thesis
    proof (cases h)
      case Nil
      then show ?thesis by (simp add: Pair Some cbs_get_any_asn1_element_def asn1_header_def)
    next
      case (Cons lb h')
      show ?thesis
        by (cases "cbs_get_u h' (unat (lb AND 0x7f))"; cases "fst (cbs_get_u h' (unat (lb AND 0x7f)))")
          (simp_all add: diff_not_greater Pair Some Cons cbs_get_any_asn1_element_def asn1_header_def CBS_get_bytes_eq
            CBS_len_def Let_def)
    qed
  qed
qed

text \<open>A failed parse leaves the input where it was; a successful one splits it.\<close>

lemma cbs_element_None: "cbs_get_any_asn1_element cbs ber_ok = (None, r) \<Longrightarrow> r = cbs"
  by (auto simp: cbs_element_header split: option.splits prod.splits if_splits)

lemma cbs_element_split:
  "cbs_get_any_asn1_element cbs ber_ok = (Some (out, tag, hl), rest) \<Longrightarrow> cbs = out @ rest"
  by (auto simp: cbs_element_header split: option.splits prod.splits if_splits)

lemma asn1_header_tag:
  "asn1_header cbs ber_ok = Some (tot, tag, hl) \<Longrightarrow> \<exists>lb h. parse_asn1_tag cbs = (Some tag, lb # h)"
  by (auto simp: asn1_header_def Let_def split: option.splits prod.splits list.splits if_splits)

lemma cbs_element_dec:
  assumes dec: "cbs_get_any_asn1_element cbs ber_ok = (Some (out, tag, hl), rest)"
  shows "(\<exists>c. length c < 2 ^ 32 \<and> out = der_element tag c \<and> hl = header_length tag c)
    \<or> (ber_ok \<and> tag AND CBS_ASN1_CONSTRUCTED \<noteq> 0 \<and> out = der_tag tag @ [0x80] \<and> hl = length out)"
proof -
  obtain tot where ah: "asn1_header cbs ber_ok = Some (tot, tag, hl)"
    and got: "CBS_get_bytes cbs tot = (Some out, rest)"
    using dec by (auto simp: cbs_element_header CBS_get_bytes_eq split: option.splits prod.splits if_splits)
  obtain lb h' where tg: "parse_asn1_tag cbs = (Some tag, lb # h')"
    using asn1_header_tag [OF ah] by blast
  have cbs: "cbs = der_tag tag @ lb # h'" using parse_asn1_tag_Some [OF tg] by simp
  have hdr: "length cbs - length h' = length (der_tag tag) + 1"
    by (simp add: cbs)
  note ah' = ah [unfolded asn1_header_def tg prod.case option.case list.case Let_def hdr]
  show ?thesis
  proof (cases "unat lb < 128")
    case True
    then have tot: "tot = unat lb + (length (der_tag tag) + 1)" and hl: "hl = length (der_tag tag) + 1"
      using ah' by (simp_all add: and_0x80_eq_0)
    have len: "unat lb \<le> length h'" and out: "out = der_tag tag @ lb # take (unat lb) h'"
      using got by (auto simp: tot CBS_get_bytes_eq cbs split: if_splits)
    have "der_len (unat lb) = [lb]" using True by (simp add: der_len_def)
    then have "out = der_element tag (take (unat lb) h')"
      and "hl = header_length tag (take (unat lb) h')"
      using len by (simp_all add: out hl der_element_def header_length_def)
    then show ?thesis using len True by (intro disjI1 exI [of _ "take (unat lb) h'"]) simp
  next
    case False
    let ?k = "unat (lb AND 0x7f)"
    have k: "?k = unat lb - 128" using False by (simp add: byte_arith mod_128_high)
    show ?thesis
    proof (cases "ber_ok \<and> tag AND CBS_ASN1_CONSTRUCTED \<noteq> 0 \<and> ?k = 0")
      case True
      then have "lb = 0x80" using k False by (simp add: word_unat_eq_iff)
      then show ?thesis using True ah' got False
        by (auto simp: and_0x80_eq_0 CBS_get_bytes_eq cbs split: if_splits)
    next
      case nind: False
      then have k4: "1 \<le> ?k" "?k \<le> 4" and "\<exists>len64 h''. cbs_get_u h' ?k = (Some len64, h'')"
        using ah' False by (auto simp: and_0x80_eq_0 split: option.splits prod.splits if_splits)
      then obtain len64 h'' where u: "cbs_get_u h' ?k = (Some len64, h'')" by blast
      let ?n = "unat len64"
      have len64: "?k \<le> length h'" "?n = be_val (take ?k h')" "h'' = drop ?k h'"
        using u k4 cbs_get_u_Some [of ?k h'] by auto
      have ge: "128 \<le> ?n" "256 ^ (?k - 1) \<le> ?n"
        and tot: "tot = szadd (szadd ?n (length (der_tag tag) + 1)) ?k"
        and hl: "hl = length (der_tag tag) + 1 + ?k"
        using ah' False nind k4 u
        by (auto simp: and_0x80_eq_0 word_less_nat_alt drop_bit_eq_0_iff pow_256 split: if_splits)
      have lt: "?n < 256 ^ ?k" using be_val_bound [of "take ?k h'"] len64 by (simp add: min_absorb2)
      have "(256 :: nat) ^ ?k \<le> 256 ^ 4" using k4 by (intro power_increasing) auto
      with lt have n32: "?n < 2 ^ 32" by simp
      have tot': "tot = ?n + (length (der_tag tag) + 1) + ?k"
        using n32 length_der_tag [of tag] k4 by (simp add: tot szadd_def)
      have nb: "nbytes ?n = ?k" using nbytes_eq_iff [of ?k ?n] k4 ge lt by simp
      let ?c = "take ?n h''"
      have "der_len ?n = lb # take ?k h'"
      proof -
        have "of_nat (128 + ?k) = lb" using k False by (intro word_of_nat_eqI [symmetric]) simp
        moreover have "be_bytes ?k ?n = take ?k h'"
          using be_bytes_be_val [of "take ?k h'"] len64 by (simp add: min_absorb2)
        ultimately show ?thesis using ge(1) nb by (simp add: der_len_def)
      qed
      moreover have ta: "take (?n + ?k) h' = take ?k h' @ take ?n (drop ?k h')"
        by (metis add.commute take_add)
      moreover have "?n \<le> length h''" and "out = der_tag tag @ lb # take ?k h' @ ?c"
        using got [unfolded tot'] len64(1)
        by (auto simp: len64(3) CBS_get_bytes_eq cbs ta split: if_splits)
      ultimately have "out = der_element tag ?c" and "hl = header_length tag ?c" and "length ?c = ?n"
        using len64(1) by (simp_all add: hl der_element_def header_length_def)
      then show ?thesis using n32 by (intro disjI1 exI [of _ ?c]) simp
    qed
  qed
qed

section \<open>The element parser as a codec\<close>

lemma get_any_element_enc:
  "length c < 2 ^ 32 \<Longrightarrow> CBS_get_any_asn1_element (der_element tag c @ rest) =
    (Some (der_element tag c, tag, header_length tag c), rest)"
  by (simp add: CBS_get_any_asn1_element_def cbs_element_enc)

lemma get_any_element_dec:
  assumes "CBS_get_any_asn1_element cbs = (Some (out, tag, hl), rest)"
  shows "\<exists>c. length c < 2 ^ 32 \<and> out = der_element tag c \<and> hl = header_length tag c \<and> cbs = der_element tag c @ rest"
  using cbs_element_dec [of cbs False] cbs_element_split [of cbs False] assms
  unfolding CBS_get_any_asn1_element_def by fastforce

lemma get_any_element_None: "CBS_get_any_asn1_element cbs = (None, r) \<Longrightarrow> r = cbs"
  unfolding CBS_get_any_asn1_element_def by (rule cbs_element_None)

lemma get_any_asn1_enc:
  "length c < 2 ^ 32 \<Longrightarrow> CBS_get_any_asn1 (der_element tag c @ rest) = (Some (c, tag), rest)"
  by (simp add: CBS_get_any_asn1_def get_any_element_enc CBS_skip_eq length_der_element)

lemma get_any_asn1_dec:
  assumes "CBS_get_any_asn1 cbs = (Some (c, tag), rest)"
  shows "length c < 2 ^ 32 \<and> cbs = der_element tag c @ rest"
proof -
  obtain out hl where e: "CBS_get_any_asn1_element cbs = (Some (out, tag, hl), rest)"
    and c: "CBS_skip out hl = (Some (), c)"
    using assms by (auto simp: CBS_get_any_asn1_def split: option.splits prod.splits)
  obtain c' where "length c' < 2 ^ 32" "out = der_element tag c'" "hl = header_length tag c'"
    "cbs = der_element tag c' @ rest"
    using get_any_element_dec [OF e] by blast
  then show ?thesis using c by (simp add: CBS_skip_eq length_der_element)
qed

text \<open>\<open>CBS_get_any_asn1\<close> reads exactly the DER encodings of the pairs of contents and tag.\<close>

definition der_pair :: "u8 list \<times> u32 \<Rightarrow> u8 list" where
  "der_pair = (\<lambda>(c, tag). der_element tag c)"

definition der_short :: "u8 list \<times> u32 \<Rightarrow> bool" where
  "der_short = (\<lambda>(c, tag). length c < 2 ^ 32)"

interpretation der: strict_codec der_pair CBS_get_any_asn1 der_short
  by unfold_locales
    (auto simp: der_pair_def der_short_def get_any_asn1_enc dest: get_any_asn1_dec)

lemma get_any_asn1_iff:
  "CBS_get_any_asn1 cbs = (Some (c, tag), rest) \<longleftrightarrow> length c < 2 ^ 32 \<and> cbs = der_element tag c @ rest"
  using der.strict_iff [of cbs "(c, tag)" rest] by (simp add: der_pair_def der_short_def)

text \<open>No DER encoding is a proper prefix of another one.\<close>

lemma der_element_prefix_free:
  assumes "length c < 2 ^ 32" and "length d < 2 ^ 32"
    and "der_element tag c @ r = der_element tag' d @ s"
  shows "tag = tag' \<and> c = d \<and> r = s"
  using der.codec_split [of "(c, tag)" "(d, tag')" r s] assms by (simp add: der_pair_def der_short_def)

lemma get_asn1_iff:
  "CBS_get_asn1 cbs tag = (Some c, rest) \<longleftrightarrow> length c < 2 ^ 32 \<and> cbs = der_element tag c @ rest"
proof
  assume "CBS_get_asn1 cbs tag = (Some c, rest)"
  then obtain out hl where e: "CBS_get_any_asn1_element cbs = (Some (out, tag, hl), rest)"
    and c: "CBS_skip out hl = (Some (), c)"
    by (auto simp: CBS_get_asn1_def cbs_get_asn1_def split: option.splits prod.splits if_splits)
  then show "length c < 2 ^ 32 \<and> cbs = der_element tag c @ rest"
    using get_any_element_dec [OF e] by (auto simp: CBS_skip_eq length_der_element)
next
  assume "length c < 2 ^ 32 \<and> cbs = der_element tag c @ rest"
  then show "CBS_get_asn1 cbs tag = (Some c, rest)"
    by (simp add: CBS_get_asn1_def cbs_get_asn1_def get_any_element_enc CBS_skip_eq length_der_element)
qed

lemma get_asn1_enc [simp]:
  "length c < 2 ^ 32 \<Longrightarrow> CBS_get_asn1 (der_element tag c @ rest) tag = (Some c, rest)"
  by (simp add: get_asn1_iff)

lemma get_asn1_element_iff:
  "CBS_get_asn1_element cbs tag = (Some e, rest) \<longleftrightarrow>
   (\<exists>c. length c < 2 ^ 32 \<and> e = der_element tag c \<and> cbs = e @ rest)"
proof
  assume "CBS_get_asn1_element cbs tag = (Some e, rest)"
  then obtain hl where "CBS_get_any_asn1_element cbs = (Some (e, tag, hl), rest)"
    by (auto simp: CBS_get_asn1_element_def cbs_get_asn1_def split: option.splits prod.splits if_splits)
  from get_any_element_dec [OF this]
  show "\<exists>c. length c < 2 ^ 32 \<and> e = der_element tag c \<and> cbs = e @ rest" by blast
qed (auto simp: CBS_get_asn1_element_def cbs_get_asn1_def get_any_element_enc)

lemma peek_tag_enc: "CBS_peek_asn1_tag (der_element tag c @ rest) tag' \<longleftrightarrow> tag' = tag"
  using length_der_tag [of tag]
  by (simp add: CBS_peek_asn1_tag_def CBS_len_def der_element_def parse_asn1_tag_enc)

end
