(* ===== verification/Cbb.thy ===== *)
theory Cbb
  imports Der
begin

text \<open>
  \<open>crypto/bytestring/cbb.c\<close>, the builder half of the byte-string library: the growable buffer, the
  chain of pending length-prefixed children, and the operations that append to it. The buffer of a
  builder is a block of \<open>cap\<close> bytes, of which \<open>len\<close> are written. The \<open>CBB\<close> objects that share a
  buffer form a chain: the root, its child, the child's child and so on. \<open>cbb_children\<close> holds the
  \<open>offset\<close>, \<open>pending_len_len\<close> and \<open>pending_is_asn1\<close> fields of the children of that chain, and an
  operation names the \<open>CBB\<close> it is called on by its depth: 0 for the root, \<open>d + 1\<close> for the child of
  the one at \<open>d\<close>. A child that has been flushed out of the chain has a NULL \<open>base\<close>; its depth is
  beyond the end. Operations take the allocator and return the code's success flag; the state counts
  the allocations made.
\<close>

section \<open>State\<close>

record cbb_buffer_st =
  cb_buf :: "u8 list"
  cb_len :: nat
  cb_cap :: nat
  cb_can_resize :: bool
  cb_error :: bool

record cbb_child =
  ch_offset :: nat
  ch_len_len :: nat
  ch_asn1 :: bool

record CBB =
  cbb_base :: "cbb_buffer_st option"
  cbb_children :: "cbb_child list"
  cbb_allocs :: nat

abbreviation set_base :: "CBB \<Rightarrow> cbb_buffer_st \<Rightarrow> CBB" where
  "set_base s b \<equiv> s\<lparr>cbb_base := Some b\<rparr>"

definition cbb_fail :: "CBB \<Rightarrow> bool \<times> CBB" where
  "cbb_fail s = (False, s\<lparr>cbb_base := map_option (\<lambda>b. b\<lparr>cb_error := True\<rparr>) (cbb_base s)\<rparr>)"

section \<open>Initialisation\<close>

definition CBB_zero :: "nat \<Rightarrow> CBB" where
  "CBB_zero k = \<lparr>cbb_base = None, cbb_children = [], cbb_allocs = k\<rparr>"

text \<open>\<open>sizeof(struct cbb_buffer_st)\<close>: three words and two \<open>char\<close>s, padded.\<close>

definition sizeof_cbb_buffer_st :: nat where
  "sizeof_cbb_buffer_st = 32"

definition cbb_init :: "allocator \<Rightarrow> nat \<Rightarrow> u8 list \<Rightarrow> nat \<Rightarrow> bool \<times> CBB" where
  "cbb_init m k buf cap =
     (case OPENSSL_malloc m k sizeof_cbb_buffer_st of
        (None, k') \<Rightarrow> (False, CBB_zero k')
      | (Some _, k') \<Rightarrow>
          (True, \<lparr>cbb_base = Some \<lparr>cb_buf = buf, cb_len = 0, cb_cap = cap, cb_can_resize = True, cb_error = False\<rparr>,
                  cbb_children = [], cbb_allocs = k'\<rparr>))"

text \<open>A NULL buffer (the first allocation failed for an empty builder) is the empty block.\<close>

definition CBB_init :: "allocator \<Rightarrow> nat \<Rightarrow> nat \<Rightarrow> bool \<times> CBB" where
  "CBB_init m k initial_capacity =
     (case OPENSSL_malloc m k initial_capacity of
        (None, k') \<Rightarrow>
          if initial_capacity > 0 then (False, CBB_zero k') else cbb_init m k' [] initial_capacity
      | (Some buf, k') \<Rightarrow> cbb_init m k' buf initial_capacity)"

definition CBB_init_fixed :: "allocator \<Rightarrow> nat \<Rightarrow> u8 list \<Rightarrow> nat \<Rightarrow> bool \<times> CBB" where
  "CBB_init_fixed m k buf len =
     (case cbb_init m k buf len of
        (False, s) \<Rightarrow> (False, s)
      | (True, s) \<Rightarrow>
          (True, s\<lparr>cbb_base := map_option (\<lambda>b. b\<lparr>cb_can_resize := False\<rparr>) (cbb_base s)\<rparr>))"

definition CBB_cleanup :: "nat \<Rightarrow> CBB \<Rightarrow> CBB" where
  "CBB_cleanup d s = (if d \<noteq> 0 then s else s\<lparr>cbb_base := None\<rparr>)"

section \<open>The buffer\<close>

text \<open>On success the result is the offset of the first reserved byte (the code's out-pointer).\<close>

definition cbb_buffer_reserve :: "allocator \<Rightarrow> nat \<Rightarrow> CBB \<Rightarrow> nat option \<times> CBB" where
  "cbb_buffer_reserve m n s =
     (case cbb_base s of
        None \<Rightarrow> (None, s)
      | Some base \<Rightarrow>
          let newlen = szadd (cb_len base) n
          in if newlen < cb_len base then (None, snd (cbb_fail s))
             else if newlen > cb_cap base then
               if \<not> cb_can_resize base then (None, snd (cbb_fail s))
               else
                 let newcap = cb_cap base * 2 mod 2 ^ 64;
                     newcap = (if newcap < cb_cap base \<or> newcap < newlen then newlen else newcap)
                 in case OPENSSL_realloc m (cbb_allocs s) (Some (cb_buf base)) newcap of
                      (None, k) \<Rightarrow> (None, snd (cbb_fail (s\<lparr>cbb_allocs := k\<rparr>)))
                    | (Some newbuf, k) \<Rightarrow>
                        (Some (cb_len base),
                         set_base (s\<lparr>cbb_allocs := k\<rparr>) (base\<lparr>cb_buf := newbuf, cb_cap := newcap\<rparr>))
             else (Some (cb_len base), s))"

definition cbb_buffer_add :: "allocator \<Rightarrow> nat \<Rightarrow> CBB \<Rightarrow> nat option \<times> CBB" where
  "cbb_buffer_add m n s =
     (case cbb_buffer_reserve m n s of
        (None, s') \<Rightarrow> (None, s')
      | (Some out, s') \<Rightarrow>
          (Some out, s'\<lparr>cbb_base := map_option (\<lambda>b. b\<lparr>cb_len := cb_len b + n\<rparr>) (cbb_base s')\<rparr>))"

text \<open>The backwards loop that stores the low \<open>n\<close> bytes of \<open>v\<close> at \<open>off\<close>, least significant last, and
  what is left of \<open>v\<close> after it (\<open>v\<close> is an unsigned 64-bit value, shifted right by 8 each time).\<close>

fun store_be_loop :: "nat \<Rightarrow> nat \<Rightarrow> nat \<Rightarrow> u8 list \<Rightarrow> nat \<times> u8 list" where
  "store_be_loop 0 off v buf = (v, buf)"
| "store_be_loop (Suc i) off v buf = store_be_loop i off (v div 256) (buf[off + i := of_nat v])"

definition cbb_buffer_add_u :: "allocator \<Rightarrow> u64 \<Rightarrow> nat \<Rightarrow> CBB \<Rightarrow> bool \<times> CBB" where
  "cbb_buffer_add_u m v len_len s =
     (if len_len = 0 then (True, s)
      else case cbb_buffer_add m len_len s of
             (None, s') \<Rightarrow> (False, s')
           | (Some out, s') \<Rightarrow>
               (case cbb_base s' of
                  None \<Rightarrow> (False, s')
                | Some base \<Rightarrow>
                    (case store_be_loop len_len out (unat v) (cb_buf base) of
                       (v', buf') \<Rightarrow>
                         let s'' = set_base s' (base\<lparr>cb_buf := buf'\<rparr>)
                         in if v' \<noteq> 0 then cbb_fail s'' else (True, s''))))"

section \<open>Flushing\<close>

text \<open>The length octets of a pending ASN.1 child: how many there are, the first one, and the part of
  the length still to be stored behind it; \<open>None\<close> when the length is too large.\<close>

definition cbb_asn1_len :: "nat \<Rightarrow> (nat \<times> nat \<times> nat) option" where
  "cbb_asn1_len n =
     (if n > 0xfffffffe then None
      else if n > 0xffffff then Some (5, 0x84, n)
      else if n > 0xffff then Some (4, 0x83, n)
      else if n > 0xff then Some (3, 0x82, n)
      else if n > 0x7f then Some (2, 0x81, n)
      else Some (1, n, 0))"

text \<open>\<open>memmove(dst, src, n)\<close> inside a block.\<close>

definition buf_memmove :: "nat \<Rightarrow> nat \<Rightarrow> nat \<Rightarrow> u8 list \<Rightarrow> u8 list" where
  "buf_memmove dst src n buf = overwrite dst (take n (drop src buf)) buf"

text \<open>The ASN.1 branch for the child \<open>ch\<close> at index \<open>d\<close>, whose contents of \<open>n\<close> bytes start at
  \<open>child_start\<close>: makes room for the length octets, moves the contents and stores the first octet. The
  result is the length that the final loop has yet to store.\<close>

definition cbb_flush_asn1 ::
  "allocator \<Rightarrow> nat \<Rightarrow> cbb_child \<Rightarrow> nat \<Rightarrow> nat \<Rightarrow> CBB \<Rightarrow> nat option \<times> CBB" where
  "cbb_flush_asn1 m d ch child_start n s =
     (case cbb_asn1_len n of
        None \<Rightarrow> (None, s)
      | Some (len_len, initial_length_byte, n') \<Rightarrow>
          let move =
            (if len_len \<noteq> 1
             then (case cbb_buffer_add m (len_len - 1) s of
                     (None, s') \<Rightarrow> (None, s')
                   | (Some _, s') \<Rightarrow>
                       (Some (), s'\<lparr>cbb_base := map_option (\<lambda>b.
                          b\<lparr>cb_buf := buf_memmove (child_start + (len_len - 1)) child_start n' (cb_buf b)\<rparr>)
                          (cbb_base s')\<rparr>))
             else (Some (), s))
          in case move of
               (None, s') \<Rightarrow> (None, s')
             | (Some _, s') \<Rightarrow>
                 (Some n', s'\<lparr>cbb_base := map_option (\<lambda>b.
                      b\<lparr>cb_buf := (cb_buf b)[ch_offset ch := of_nat initial_length_byte]\<rparr>) (cbb_base s'),
                    cbb_children := (cbb_children s')[d :=
                      ch\<lparr>ch_offset := ch_offset ch + 1, ch_len_len := len_len - 1\<rparr>]\<rparr>))"

text \<open>The final loop: the pending length octets of the child at index \<open>d\<close>, which then leaves the
  chain with everything below it.\<close>

definition cbb_flush_len :: "nat \<Rightarrow> nat \<Rightarrow> CBB \<Rightarrow> bool \<times> CBB" where
  "cbb_flush_len d n s =
     (case cbb_base s of
        None \<Rightarrow> (False, s)
      | Some base \<Rightarrow>
          let ch = cbb_children s ! d
          in case store_be_loop (ch_len_len ch) (ch_offset ch) n (cb_buf base) of
               (n', buf') \<Rightarrow>
                 let s' = set_base s (base\<lparr>cb_buf := buf'\<rparr>)
                 in if n' \<noteq> 0 then cbb_fail s'
                    else (True, s'\<lparr>cbb_children := take d (cbb_children s')\<rparr>))"

text \<open>What \<open>CBB_flush\<close> does for the child \<open>ch\<close> at index \<open>d\<close> once everything below it is flushed.\<close>

definition cbb_flush_child :: "allocator \<Rightarrow> nat \<Rightarrow> cbb_child \<Rightarrow> CBB \<Rightarrow> bool \<times> CBB" where
  "cbb_flush_child m d ch s =
     (case cbb_base s of
        None \<Rightarrow> (False, s)
      | Some base \<Rightarrow>
          let child_start = szadd (ch_offset ch) (ch_len_len ch)
          in if child_start < ch_offset ch \<or> cb_len base < child_start then cbb_fail s
             else
               let n = cb_len base - child_start
               in if ch_asn1 ch
                  then (case cbb_flush_asn1 m d ch child_start n s of
                          (None, s') \<Rightarrow> cbb_fail s'
                        | (Some n', s') \<Rightarrow> cbb_flush_len d n' s')
                  else cbb_flush_len d n s)"

function CBB_flush :: "allocator \<Rightarrow> nat \<Rightarrow> CBB \<Rightarrow> bool \<times> CBB" where
  "CBB_flush m d s =
     (case cbb_base s of
        None \<Rightarrow> (False, s)
      | Some base \<Rightarrow>
          if d > length (cbb_children s) \<or> cb_error base then (False, s)
          else if d = length (cbb_children s) \<or> ch_len_len (cbb_children s ! d) = 0 then (True, s)
          else case CBB_flush m (Suc d) s of
                 (False, s') \<Rightarrow> cbb_fail s'
               | (True, s') \<Rightarrow> cbb_flush_child m d (cbb_children s ! d) s')"
  by pat_completeness auto
termination
  by (relation "measure (\<lambda>(m, d, s). Suc (length (cbb_children s)) - d)") auto

declare CBB_flush.simps [simp del]

text \<open>\<open>out\<close> is whether both out-pointers are given; the result is the buffer and its length.\<close>

definition CBB_finish :: "allocator \<Rightarrow> nat \<Rightarrow> bool \<Rightarrow> CBB \<Rightarrow> (bool \<times> (u8 list \<times> nat) option) \<times> CBB" where
  "CBB_finish m d out s =
     (if d \<noteq> 0 then ((False, None), s)
      else case CBB_flush m d s of
             (False, s') \<Rightarrow> ((False, None), s')
           | (True, s') \<Rightarrow>
               (case cbb_base s' of
                  None \<Rightarrow> ((False, None), s')
                | Some base \<Rightarrow>
                    if cb_can_resize base \<and> \<not> out then ((False, None), s')
                    else ((True, if out then Some (cb_buf base, cb_len base) else None),
                          CBB_cleanup d (set_base s' (base\<lparr>cb_buf := []\<rparr>)))))"

text \<open>Where the contents of the \<open>CBB\<close> at depth \<open>d\<close> start: \<open>offset + pending_len_len\<close>, 0 for the root.\<close>

definition cbb_start :: "nat \<Rightarrow> CBB \<Rightarrow> nat" where
  "cbb_start d s =
     (if d = 0 then 0
      else ch_offset (cbb_children s ! (d - 1)) + ch_len_len (cbb_children s ! (d - 1)))"

definition CBB_data :: "nat \<Rightarrow> CBB \<Rightarrow> u8 list" where
  "CBB_data d s = (case cbb_base s of None \<Rightarrow> [] | Some b \<Rightarrow> drop (cbb_start d s) (cb_buf b))"

definition CBB_len :: "nat \<Rightarrow> CBB \<Rightarrow> nat" where
  "CBB_len d s = (case cbb_base s of None \<Rightarrow> 0 | Some b \<Rightarrow> cb_len b - cbb_start d s)"

section \<open>Adding\<close>

definition cbb_attach :: "nat \<Rightarrow> nat \<Rightarrow> nat \<Rightarrow> bool \<Rightarrow> CBB \<Rightarrow> CBB" where
  "cbb_attach d off len_len asn1 s =
     s\<lparr>cbb_children := take d (cbb_children s) @
        [\<lparr>ch_offset = off, ch_len_len = len_len, ch_asn1 = asn1\<rparr>]\<rparr>"

definition cbb_add_length_prefixed :: "allocator \<Rightarrow> nat \<Rightarrow> nat \<Rightarrow> CBB \<Rightarrow> bool \<times> CBB" where
  "cbb_add_length_prefixed m d len_len s =
     (case CBB_flush m d s of
        (False, s) \<Rightarrow> (False, s)
      | (True, s) \<Rightarrow>
          (case cbb_buffer_add m len_len s of
             (None, s) \<Rightarrow> (False, s)
           | (Some off, s) \<Rightarrow>
               (True, cbb_attach d off len_len False
                  (s\<lparr>cbb_base := map_option (\<lambda>b. b\<lparr>cb_buf := overwrite off (replicate len_len 0) (cb_buf b)\<rparr>)
                      (cbb_base s)\<rparr>))))"

definition CBB_add_u8_length_prefixed :: "allocator \<Rightarrow> nat \<Rightarrow> CBB \<Rightarrow> bool \<times> CBB" where
  "CBB_add_u8_length_prefixed m d = cbb_add_length_prefixed m d 1"

definition CBB_add_u16_length_prefixed :: "allocator \<Rightarrow> nat \<Rightarrow> CBB \<Rightarrow> bool \<times> CBB" where
  "CBB_add_u16_length_prefixed m d = cbb_add_length_prefixed m d 2"

definition CBB_add_u24_length_prefixed :: "allocator \<Rightarrow> nat \<Rightarrow> CBB \<Rightarrow> bool \<times> CBB" where
  "CBB_add_u24_length_prefixed m d = cbb_add_length_prefixed m d 3"

text \<open>The common body of the integer writers: flush, then append \<open>n\<close> bytes of \<open>v\<close>.\<close>

definition cbb_add_u :: "allocator \<Rightarrow> nat \<Rightarrow> u64 \<Rightarrow> nat \<Rightarrow> CBB \<Rightarrow> bool \<times> CBB" where
  "cbb_add_u m d v n = c_and (CBB_flush m d) (cbb_buffer_add_u m v n)"

definition CBB_add_u8 :: "allocator \<Rightarrow> nat \<Rightarrow> u8 \<Rightarrow> CBB \<Rightarrow> bool \<times> CBB" where
  "CBB_add_u8 m d v = cbb_add_u m d (ucast v) 1"

definition CBB_add_u16 :: "allocator \<Rightarrow> nat \<Rightarrow> u16 \<Rightarrow> CBB \<Rightarrow> bool \<times> CBB" where
  "CBB_add_u16 m d v = cbb_add_u m d (ucast v) 2"

definition CBB_add_u16le :: "allocator \<Rightarrow> nat \<Rightarrow> u16 \<Rightarrow> CBB \<Rightarrow> bool \<times> CBB" where
  "CBB_add_u16le m d v = CBB_add_u16 m d (CRYPTO_bswap2 v)"

definition CBB_add_u24 :: "allocator \<Rightarrow> nat \<Rightarrow> u32 \<Rightarrow> CBB \<Rightarrow> bool \<times> CBB" where
  "CBB_add_u24 m d v = cbb_add_u m d (ucast v) 3"

definition CBB_add_u32 :: "allocator \<Rightarrow> nat \<Rightarrow> u32 \<Rightarrow> CBB \<Rightarrow> bool \<times> CBB" where
  "CBB_add_u32 m d v = cbb_add_u m d (ucast v) 4"

definition CBB_add_u32le :: "allocator \<Rightarrow> nat \<Rightarrow> u32 \<Rightarrow> CBB \<Rightarrow> bool \<times> CBB" where
  "CBB_add_u32le m d v = CBB_add_u32 m d (CRYPTO_bswap4 v)"

definition CBB_add_u64 :: "allocator \<Rightarrow> nat \<Rightarrow> u64 \<Rightarrow> CBB \<Rightarrow> bool \<times> CBB" where
  "CBB_add_u64 m d v = cbb_add_u m d v 8"

definition CBB_add_u64le :: "allocator \<Rightarrow> nat \<Rightarrow> u64 \<Rightarrow> CBB \<Rightarrow> bool \<times> CBB" where
  "CBB_add_u64le m d v = CBB_add_u64 m d (CRYPTO_bswap8 v)"

text \<open>The two loops of \<open>add_base128_integer\<close>: the number of 7-bit groups, then the groups from the
  most significant one on.\<close>

function base128_len_loop :: "u64 \<Rightarrow> nat" where
  "base128_len_loop copy = (if copy > 0 then Suc (base128_len_loop (drop_bit 7 copy)) else 0)"
  by pat_completeness auto
termination
  by (relation "measure unat") (auto simp: byte_arith word_less_nat_alt unat_gt_0)

declare base128_len_loop.simps [simp del]

fun add_base128_loop :: "allocator \<Rightarrow> nat \<Rightarrow> u64 \<Rightarrow> nat \<Rightarrow> CBB \<Rightarrow> bool \<times> CBB" where
  "add_base128_loop m d v 0 s = (True, s)"
| "add_base128_loop m d v (Suc i) s =
     (let byte = ucast (drop_bit (7 * i) v) AND 0x7f;
          byte = (if i \<noteq> 0 then byte OR 0x80 else byte)
      in case CBB_add_u8 m d byte s of
           (False, s) \<Rightarrow> (False, s)
         | (True, s) \<Rightarrow> add_base128_loop m d v i s)"

definition add_base128_integer :: "allocator \<Rightarrow> nat \<Rightarrow> u64 \<Rightarrow> CBB \<Rightarrow> bool \<times> CBB" where
  "add_base128_integer m d v =
     (let len_len = base128_len_loop v;
          len_len = (if len_len = 0 then 1 else len_len)
      in add_base128_loop m d v len_len)"

definition cbb_add_tag :: "allocator \<Rightarrow> nat \<Rightarrow> u32 \<Rightarrow> CBB \<Rightarrow> bool \<times> CBB" where
  "cbb_add_tag m d tag =
     (let tag_bits = ucast (drop_bit CBS_ASN1_TAG_SHIFT tag) AND 0xe0;
          tag_number = tag AND CBS_ASN1_TAG_NUMBER_MASK
      in if tag_number \<ge> 0x1f
         then c_and (CBB_add_u8 m d (tag_bits OR 0x1f)) (add_base128_integer m d (ucast tag_number))
         else CBB_add_u8 m d (tag_bits OR ucast tag_number))"

definition CBB_add_asn1 :: "allocator \<Rightarrow> nat \<Rightarrow> u32 \<Rightarrow> CBB \<Rightarrow> bool \<times> CBB" where
  "CBB_add_asn1 m d tag s =
     (case c_and (CBB_flush m d) (cbb_add_tag m d tag) s of
        (False, s) \<Rightarrow> (False, s)
      | (True, s) \<Rightarrow>
          (case cbb_base s of
             None \<Rightarrow> (False, s)
           | Some base \<Rightarrow>
               let offset = cb_len base
               in (case CBB_add_u8 m d 0 s of
                     (False, s) \<Rightarrow> (False, s)
                   | (True, s) \<Rightarrow> (True, cbb_attach d offset 1 True s))))"

text \<open>The space operations return the offset of the bytes; a caller fills them with \<open>cbb_poke\<close>.\<close>

definition cbb_poke :: "nat \<Rightarrow> u8 list \<Rightarrow> CBB \<Rightarrow> CBB" where
  "cbb_poke off data s =
     s\<lparr>cbb_base := map_option (\<lambda>b. b\<lparr>cb_buf := overwrite off data (cb_buf b)\<rparr>) (cbb_base s)\<rparr>"

definition CBB_add_space :: "allocator \<Rightarrow> nat \<Rightarrow> nat \<Rightarrow> CBB \<Rightarrow> nat option \<times> CBB" where
  "CBB_add_space m d n s =
     (case CBB_flush m d s of (False, s) \<Rightarrow> (None, s) | (True, s) \<Rightarrow> cbb_buffer_add m n s)"

definition CBB_add_bytes :: "allocator \<Rightarrow> nat \<Rightarrow> u8 list \<Rightarrow> CBB \<Rightarrow> bool \<times> CBB" where
  "CBB_add_bytes m d data s =
     (case CBB_flush m d s of
        (False, s) \<Rightarrow> (False, s)
      | (True, s) \<Rightarrow>
          (case cbb_buffer_add m (length data) s of
             (None, s) \<Rightarrow> (False, s)
           | (Some dest, s) \<Rightarrow> (True, cbb_poke dest data s)))"

definition CBB_reserve :: "allocator \<Rightarrow> nat \<Rightarrow> nat \<Rightarrow> CBB \<Rightarrow> nat option \<times> CBB" where
  "CBB_reserve m d n s =
     (case CBB_flush m d s of (False, s) \<Rightarrow> (None, s) | (True, s) \<Rightarrow> cbb_buffer_reserve m n s)"

definition CBB_did_write :: "nat \<Rightarrow> nat \<Rightarrow> CBB \<Rightarrow> bool \<times> CBB" where
  "CBB_did_write d n s =
     (case cbb_base s of
        None \<Rightarrow> (False, s)
      | Some base \<Rightarrow>
          let newlen = szadd (cb_len base) n
          in if d < length (cbb_children s) \<or> newlen < cb_len base \<or> newlen > cb_cap base then (False, s)
             else (True, set_base s (base\<lparr>cb_len := newlen\<rparr>)))"

definition CBB_discard_child :: "nat \<Rightarrow> CBB \<Rightarrow> CBB" where
  "CBB_discard_child d s =
     (if d < length (cbb_children s)
      then s\<lparr>cbb_base := map_option (\<lambda>b. b\<lparr>cb_len := ch_offset (cbb_children s ! d)\<rparr>) (cbb_base s),
             cbb_children := take d (cbb_children s)\<rparr>
      else s)"

end
