(* ===== verification/CbbSpec.thy ===== *)
theory CbbSpec
  imports Cbb
begin

text \<open>
  What the builder of \<open>cbb.c\<close> promises. \<open>cbb_ok\<close> is its representation invariant: the written part
  lies inside the buffer and the pending children are nested, one behind the other. \<open>flush_bytes\<close> is
  the reference for closing pending children on plain byte lists. Every operation keeps the invariant,
  appends what it should when it succeeds, and succeeds when there is room.
\<close>

section \<open>Overwriting\<close>

lemma overwrite_snoc:
  assumes "off + length xs < length buf"
  shows "overwrite off xs (buf[off + length xs := y]) = overwrite off (xs @ [y]) buf"
  using assms
  by (intro nth_equalityI) (auto simp: overwrite_def nth_append nth_list_update)

lemma store_be_loop_eq:
  "off + n \<le> length buf \<Longrightarrow>
   store_be_loop n off v buf = (v div 256 ^ n, overwrite off (be_bytes n v) buf)"
proof (induction n arbitrary: v buf)
  case (Suc n)
  then show ?case
    using overwrite_snoc [of off "be_bytes n (v div 256)" buf "of_nat v"]
    by (simp add: div_mult2_eq)
qed simp

section \<open>The representation invariant\<close>

definition base_ok :: "cbb_buffer_st \<Rightarrow> bool" where
  "base_ok b \<longleftrightarrow> cb_cap b = length (cb_buf b) \<and> cb_len b \<le> cb_cap b \<and> cb_cap b < 2 ^ 63
     \<and> (cb_can_resize b \<longrightarrow> cb_cap b + OPENSSL_MALLOC_PREFIX < 2 ^ 63)"

fun children_ok :: "nat \<Rightarrow> cbb_child list \<Rightarrow> nat \<Rightarrow> bool" where
  "children_ok lo [] n \<longleftrightarrow> lo \<le> n"
| "children_ok lo (c # cs) n \<longleftrightarrow>
     lo \<le> ch_offset c \<and> children_ok (ch_offset c + ch_len_len c) cs n"

definition cbb_ok :: "CBB \<Rightarrow> bool" where
  "cbb_ok s \<longleftrightarrow> (\<exists>b. cbb_base s = Some b \<and> base_ok b \<and> children_ok 0 (cbb_children s) (cb_len b))"

text \<open>A child in the chain has a prefix of one to three bytes, of one byte if it is ASN.1.\<close>

definition pending_ok :: "cbb_child \<Rightarrow> bool" where
  "pending_ok c \<longleftrightarrow> 1 \<le> ch_len_len c \<and> ch_len_len c \<le> 3 \<and> (ch_asn1 c \<longrightarrow> ch_len_len c = 1)"

definition cbb_inv :: "CBB \<Rightarrow> bool" where
  "cbb_inv s \<longleftrightarrow> cbb_ok s \<and> (\<forall>c \<in> set (cbb_children s). pending_ok c)"

definition cbb_bytes :: "CBB \<Rightarrow> u8 list" where
  "cbb_bytes s = (case cbb_base s of None \<Rightarrow> [] | Some b \<Rightarrow> take (cb_len b) (cb_buf b))"

definition cbb_error :: "CBB \<Rightarrow> bool" where
  "cbb_error s = (case cbb_base s of None \<Rightarrow> True | Some b \<Rightarrow> cb_error b)"

text \<open>There is room for \<open>n\<close> bytes in all: the buffer has them already, or it may grow and the
  allocator serves what the doubling can ask for.\<close>

definition cbb_room :: "allocator \<Rightarrow> CBB \<Rightarrow> nat \<Rightarrow> bool" where
  "cbb_room m s n \<longleftrightarrow> (\<exists>b. cbb_base s = Some b \<and> \<not> cb_error b \<and>
     (n \<le> cb_cap b \<or>
      cb_can_resize b \<and> alloc_avail m (2 * n + OPENSSL_MALLOC_PREFIX) \<and> 2 * n + OPENSSL_MALLOC_PREFIX < 2 ^ 63))"

lemma children_ok_mono: "children_ok lo cs n \<Longrightarrow> n \<le> n' \<Longrightarrow> children_ok lo cs n'"
  by (induction cs arbitrary: lo) auto

lemma children_ok_bound: "children_ok lo cs n \<Longrightarrow> lo \<le> n"
  by (induction cs arbitrary: lo) force+

lemma children_ok_append:
  "children_ok lo (cs @ [c]) n \<longleftrightarrow>
   children_ok lo cs (ch_offset c) \<and> ch_offset c + ch_len_len c \<le> n"
  by (induction cs arbitrary: lo) auto

lemma children_ok_take: "children_ok lo cs n \<Longrightarrow> children_ok lo (take d cs) n"
proof (induction cs arbitrary: lo d)
  case (Cons c cs)
  then show ?case using children_ok_bound [of "ch_offset c + ch_len_len c" cs n] by (cases d) auto
qed simp

lemma children_ok_nth:
  "children_ok lo cs n \<Longrightarrow> d < length cs \<Longrightarrow>
   ch_offset (cs ! d) + ch_len_len (cs ! d) \<le> n"
proof (induction cs arbitrary: lo d)
  case (Cons c cs)
  then show ?case using children_ok_bound [of "ch_offset c + ch_len_len c" cs n] by (cases d) auto
qed simp

lemma cbb_okE:
  assumes "cbb_ok s"
  obtains b where "cbb_base s = Some b" "base_ok b" "children_ok 0 (cbb_children s) (cb_len b)"
    "cbb_bytes s = take (cb_len b) (cb_buf b)" "length (cbb_bytes s) = cb_len b"
  using assms unfolding cbb_ok_def cbb_bytes_def base_ok_def by fastforce

lemma cbb_ok_nested: "cbb_ok s \<Longrightarrow> children_ok 0 (cbb_children s) (length (cbb_bytes s))"
  by (elim cbb_okE) simp

lemma cbb_okI:
  "cbb_base s = Some b \<Longrightarrow> base_ok b \<Longrightarrow> children_ok 0 (cbb_children s) (cb_len b) \<Longrightarrow> cbb_ok s"
  unfolding cbb_ok_def by blast

lemma cbb_fail_simps [simp]:
  "fst (cbb_fail s) = False"
  "cbb_children (snd (cbb_fail s)) = cbb_children s"
  "cbb_bytes (snd (cbb_fail s)) = cbb_bytes s"
  "cbb_error (snd (cbb_fail s))"
  by (auto simp: cbb_fail_def cbb_bytes_def cbb_error_def split: option.splits)

lemma cbb_ok_fail [simp]: "cbb_ok s \<Longrightarrow> cbb_ok (snd (cbb_fail s))"
  by (auto simp: cbb_ok_def cbb_fail_def base_ok_def)

section \<open>The buffer\<close>

text \<open>What every buffer operation keeps: the chain and whether the buffer may grow; the capacity never
  shrinks.\<close>

definition same_shape :: "CBB \<Rightarrow> CBB \<Rightarrow> bool" where
  "same_shape s s' \<longleftrightarrow> cbb_children s' = cbb_children s \<and>
     (\<forall>b. cbb_base s = Some b \<longrightarrow> (\<exists>b'. cbb_base s' = Some b' \<and> cb_can_resize b' = cb_can_resize b
        \<and> cb_cap b \<le> cb_cap b' \<and> (cb_error b \<longrightarrow> cb_error b')))"

lemma same_shape_refl [simp]: "same_shape s s"
  by (simp add: same_shape_def)

lemma same_shape_trans: "same_shape s t \<Longrightarrow> same_shape t u \<Longrightarrow> same_shape s u"
  unfolding same_shape_def by (metis order_trans)

lemma same_shape_children: "same_shape s s' \<Longrightarrow> cbb_children s' = cbb_children s"
  by (simp add: same_shape_def)

lemma same_shape_room:
  "same_shape s s' \<Longrightarrow> cbb_room m s n \<Longrightarrow> \<not> cbb_error s' \<Longrightarrow> cbb_room m s' n"
  unfolding same_shape_def cbb_room_def cbb_error_def by (auto intro: order_trans)

lemma cbb_room_mono: "cbb_room m s n \<Longrightarrow> k \<le> n \<Longrightarrow> cbb_room m s k"
  unfolding cbb_room_def alloc_avail_def by (auto intro: order_trans)

lemma cbb_room_error: "cbb_room m s n \<Longrightarrow> \<not> cbb_error s"
  unfolding cbb_room_def cbb_error_def by auto

lemma same_shape_fail [simp]: "same_shape s (snd (cbb_fail s))"
  by (auto simp: same_shape_def cbb_fail_def)

text \<open>Reserving space never changes the written bytes, and fails only with the error flag set.\<close>

lemma cbb_buffer_reserve_grow:
  assumes b: "cbb_base s = Some b" and ok: "base_ok b" and n: "n < 2 ^ 63"
    and grow: "cb_cap b < cb_len b + n" "cb_can_resize b"
  shows "cbb_buffer_reserve m n s =
    (case OPENSSL_realloc m (cbb_allocs s) (Some (cb_buf b)) (max (cb_cap b * 2) (cb_len b + n)) of
       (None, k) \<Rightarrow> (None, snd (cbb_fail (s\<lparr>cbb_allocs := k\<rparr>)))
     | (Some newbuf, k) \<Rightarrow>
         (Some (cb_len b), set_base (s\<lparr>cbb_allocs := k\<rparr>)
            (b\<lparr>cb_buf := newbuf, cb_cap := max (cb_cap b * 2) (cb_len b + n)\<rparr>)))"
proof -
  have sz: "szadd (cb_len b) n = cb_len b + n" and md: "cb_cap b * 2 mod 2 ^ 64 = cb_cap b * 2"
    using ok n by (auto simp: base_ok_def)
  have mx: "(if cb_cap b * 2 < cb_cap b \<or> cb_cap b * 2 < cb_len b + n then cb_len b + n else cb_cap b * 2)
      = max (cb_cap b * 2) (cb_len b + n)"
    by auto
  show ?thesis
    unfolding cbb_buffer_reserve_def b option.case Let_def sz md mx using grow by simp
qed

lemma cbb_buffer_reserve:
  assumes m: "alloc_ok m" and ok: "cbb_ok s" and n: "n < 2 ^ 63"
    and r: "cbb_buffer_reserve m n s = (r, s')"
  shows "cbb_ok s' \<and> same_shape s s' \<and> cbb_bytes s' = cbb_bytes s \<and>
    (case r of
       None \<Rightarrow> cbb_error s'
     | Some off \<Rightarrow> off = length (cbb_bytes s) \<and> cbb_error s' = cbb_error s \<and>
         (\<exists>b'. cbb_base s' = Some b' \<and> off + n \<le> cb_cap b'))"
proof -
  obtain b where b: "cbb_base s = Some b" "base_ok b" "children_ok 0 (cbb_children s) (cb_len b)"
    "cbb_bytes s = take (cb_len b) (cb_buf b)" "length (cbb_bytes s) = cb_len b"
    using ok by (rule cbb_okE)
  have len: "cb_len b + n < 2 ^ 64" and cap: "cb_cap b * 2 < 2 ^ 64" "cb_cap b = length (cb_buf b)"
    "cb_len b \<le> cb_cap b"
    using b(2) n by (auto simp: base_ok_def)
  let ?newcap = "max (cb_cap b * 2) (cb_len b + n)"
  consider (fits) "cb_len b + n \<le> cb_cap b" | (fixed) "cb_cap b < cb_len b + n" "\<not> cb_can_resize b"
    | (grow) "cb_cap b < cb_len b + n" "cb_can_resize b"
    by linarith
  then show ?thesis
  proof cases
    case fits
    then have "r = Some (cb_len b)" and "s' = s"
      using r len by (simp_all add: cbb_buffer_reserve_def b)
    then show ?thesis using ok b fits by simp
  next
    case fixed
    then have "r = None" and "s' = snd (cbb_fail s)"
      using r len by (simp_all add: cbb_buffer_reserve_def b)
    then show ?thesis using ok by simp
  next
    case grow
    then have pre: "?newcap + OPENSSL_MALLOC_PREFIX < 2 ^ 64"
      using b(2) n by (auto simp: base_ok_def OPENSSL_MALLOC_PREFIX_def)
    obtain nb k where re: "OPENSSL_realloc m (cbb_allocs s) (Some (cb_buf b)) ?newcap = (nb, k)"
      by (cases "OPENSSL_realloc m (cbb_allocs s) (Some (cb_buf b)) ?newcap")
    show ?thesis
    proof (cases nb)
      case None
      then have "r = None" and "s' = snd (cbb_fail (s\<lparr>cbb_allocs := k\<rparr>))"
        using r re by (simp_all add: cbb_buffer_reserve_grow [OF b(1,2) n grow])
      then show ?thesis using b
        by (auto simp: cbb_fail_def cbb_ok_def base_ok_def same_shape_def cbb_bytes_def cbb_error_def)
    next
      case (Some newbuf)
      then have s': "r = Some (cb_len b)"
        "s' = set_base (s\<lparr>cbb_allocs := k\<rparr>) (b\<lparr>cb_buf := newbuf, cb_cap := ?newcap\<rparr>)"
        using r re by (simp_all add: cbb_buffer_reserve_grow [OF b(1,2) n grow])
      have nb: "length newbuf = ?newcap" "?newcap + OPENSSL_MALLOC_PREFIX < 2 ^ 63"
        and copy: "take (min (length (cb_buf b)) ?newcap) newbuf = take ?newcap (cb_buf b)"
        using OPENSSL_realloc_Some [OF m pre(1) re [unfolded Some]] by auto
      have "cb_cap b \<le> ?newcap" by auto
      then have "take (cb_cap b) newbuf = cb_buf b" using copy cap by (simp add: min_absorb1)
      then have "take (cb_len b) newbuf = take (cb_len b) (cb_buf b)"
        using cap by (metis min.absorb1 take_take)
      then show ?thesis using b s' nb cap grow
        by (auto simp: cbb_ok_def base_ok_def same_shape_def cbb_bytes_def cbb_error_def)
    qed
  qed
qed

lemma cbb_buffer_reserve_live:
  assumes ok: "cbb_ok s" and room: "cbb_room m s (length (cbb_bytes s) + n)" and n: "n < 2 ^ 63"
  shows "fst (cbb_buffer_reserve m n s) \<noteq> None"
proof -
  obtain b where b: "cbb_base s = Some b" "base_ok b" "length (cbb_bytes s) = cb_len b"
    using ok by (rule cbb_okE)
  have len: "cb_len b + n < 2 ^ 64"
    using b(2) n by (auto simp: base_ok_def)
  show ?thesis
  proof (cases "cb_len b + n \<le> cb_cap b")
    case True
    then show ?thesis using len by (simp add: cbb_buffer_reserve_def b)
  next
    case False
    let ?newcap = "max (cb_cap b * 2) (cb_len b + n)"
    have grow: "cb_can_resize b" "alloc_avail m (2 * (cb_len b + n) + OPENSSL_MALLOC_PREFIX)"
      "2 * (cb_len b + n) + OPENSSL_MALLOC_PREFIX < 2 ^ 63"
      using room False by (auto simp: cbb_room_def b)
    have "?newcap + OPENSSL_MALLOC_PREFIX \<le> 2 * (cb_len b + n) + OPENSSL_MALLOC_PREFIX"
      using False by auto
    then obtain nb where "OPENSSL_malloc m (cbb_allocs s) ?newcap = (Some nb, Suc (cbb_allocs s))"
      using OPENSSL_malloc_avail [OF grow(2), of ?newcap] grow(3) by fastforce
    then show ?thesis using False
      by (simp add: cbb_buffer_reserve_grow [OF b(1,2) n _ grow(1)] OPENSSL_realloc_def Let_def)
  qed
qed


lemma cbb_buffer_add:
  assumes m: "alloc_ok m" and ok: "cbb_ok s" and n: "n < 2 ^ 63"
    and r: "cbb_buffer_add m n s = (r, s')"
  shows "cbb_ok s' \<and> same_shape s s' \<and>
    (case r of
       None \<Rightarrow> cbb_error s'
     | Some off \<Rightarrow> off = length (cbb_bytes s) \<and> cbb_error s' = cbb_error s \<and>
         length (cbb_bytes s') = off + n \<and> take off (cbb_bytes s') = cbb_bytes s)"
proof -
  obtain q t where q: "cbb_buffer_reserve m n s = (q, t)" by (cases "cbb_buffer_reserve m n s")
  note spec = cbb_buffer_reserve [OF m ok n q]
  show ?thesis
  proof (cases q)
    case None
    then show ?thesis using spec r q by (simp add: cbb_buffer_add_def)
  next
    case (Some off)
    obtain b where b: "cbb_base t = Some b" "base_ok b" "children_ok 0 (cbb_children t) (cb_len b)"
      "cbb_bytes t = take (cb_len b) (cb_buf b)" "length (cbb_bytes t) = cb_len b"
      using spec by (blast elim: cbb_okE)
    have off: "off = cb_len b" "off + n \<le> cb_cap b" "cbb_bytes t = cbb_bytes s"
      using spec Some b by auto
    have s': "r = Some off" "s' = set_base t (b\<lparr>cb_len := cb_len b + n\<rparr>)"
      using r q Some b by (simp_all add: cbb_buffer_add_def)
    have "cbb_ok s'"
      using b off children_ok_mono [OF b(3), of "cb_len b + n"]
      by (auto simp: s' cbb_ok_def base_ok_def)
    moreover have "same_shape s s'"
      using spec b by (auto simp: s' same_shape_def)
    moreover have "cbb_bytes s' = take (cb_len b + n) (cb_buf b)"
      by (simp add: s' cbb_bytes_def)
    ultimately show ?thesis
      using spec Some b off by (auto simp: s' cbb_error_def base_ok_def min_def)
  qed
qed

lemma cbb_buffer_add_live:
  "cbb_ok s \<Longrightarrow> cbb_room m s (length (cbb_bytes s) + n) \<Longrightarrow> n < 2 ^ 63 \<Longrightarrow>
   fst (cbb_buffer_add m n s) \<noteq> None"
  using cbb_buffer_reserve_live [of s m n]
  by (auto simp: cbb_buffer_add_def split: prod.splits option.splits)

text \<open>Writing inside the written part.\<close>

lemma cbb_poke:
  assumes ok: "cbb_ok s" and fit: "off + length data \<le> length (cbb_bytes s)"
  shows "cbb_ok (cbb_poke off data s)"
    and "cbb_bytes (cbb_poke off data s) = overwrite off data (cbb_bytes s)"
    and "same_shape s (cbb_poke off data s)"
    and "cbb_error (cbb_poke off data s) = cbb_error s"
proof -
  obtain b where b: "cbb_base s = Some b" "base_ok b" "children_ok 0 (cbb_children s) (cb_len b)"
    "cbb_bytes s = take (cb_len b) (cb_buf b)" "length (cbb_bytes s) = cb_len b"
    using ok by (rule cbb_okE)
  show "cbb_ok (cbb_poke off data s)"
    using b fit by (auto simp: cbb_ok_def cbb_poke_def base_ok_def)
  show "cbb_bytes (cbb_poke off data s) = overwrite off data (cbb_bytes s)"
    using b fit by (simp add: cbb_poke_def cbb_bytes_def base_ok_def take_overwrite_within)
  show "same_shape s (cbb_poke off data s)" "cbb_error (cbb_poke off data s) = cbb_error s"
    using b by (auto simp: same_shape_def cbb_poke_def cbb_error_def)
qed

lemma overwrite_at_end:
  assumes "take off ys = xs" and "length ys = off + length bs" and "off = length xs"
  shows "overwrite off bs ys = xs @ bs"
  using assms by (simp add: overwrite_def)

text \<open>The loop that stores an integer is such a write.\<close>

lemma store_be_poke:
  assumes ok: "cbb_ok s" and b: "cbb_base s = Some b" and fit: "off + n \<le> length (cbb_bytes s)"
  shows "store_be_loop n off v (cb_buf b) = (v div 256 ^ n, overwrite off (be_bytes n v) (cb_buf b))"
    and "set_base s (b\<lparr>cb_buf := overwrite off (be_bytes n v) (cb_buf b)\<rparr>) = cbb_poke off (be_bytes n v) s"
proof -
  have "length (cbb_bytes s) \<le> length (cb_buf b)" using b by (simp add: cbb_bytes_def)
  with fit show "store_be_loop n off v (cb_buf b) = (v div 256 ^ n, overwrite off (be_bytes n v) (cb_buf b))"
    by (intro store_be_loop_eq) simp
qed (simp add: cbb_poke_def b)

lemma cbb_buffer_add_u:
  assumes m: "alloc_ok m" and ok: "cbb_ok s" and n: "1 \<le> n" "n < 2 ^ 63"
    and r: "cbb_buffer_add_u m v n s = (r, s')"
  shows "cbb_ok s' \<and> same_shape s s' \<and>
    (if r then unat v < 256 ^ n \<and> cbb_bytes s' = cbb_bytes s @ be_bytes n (unat v) \<and> cbb_error s' = cbb_error s
     else cbb_error s')"
proof -
  obtain q t where q: "cbb_buffer_add m n s = (q, t)" by (cases "cbb_buffer_add m n s")
  note spec = cbb_buffer_add [OF m ok n(2) q]
  show ?thesis
  proof (cases q)
    case None
    then show ?thesis using spec r q n by (simp add: cbb_buffer_add_u_def)
  next
    case (Some off)
    obtain b where b: "cbb_base t = Some b" using spec unfolding cbb_ok_def by blast
    have fit: "off + n \<le> length (cbb_bytes t)" using spec Some by simp
    have okt: "cbb_ok t" using spec by simp
    note poke = cbb_poke [OF okt, of off "be_bytes n (unat v)"]
    have res: "(r, s') = (if unat v div 256 ^ n \<noteq> 0 then cbb_fail (cbb_poke off (be_bytes n (unat v)) t)
        else (True, cbb_poke off (be_bytes n (unat v)) t))"
      using r q n Some b store_be_poke [OF okt b fit]
      by (simp add: cbb_buffer_add_u_def Let_def split: if_splits)
    have small: "unat v div 256 ^ n = 0 \<longleftrightarrow> unat v < 256 ^ n" by (simp add: div_eq_0_iff)
    have "same_shape s (cbb_poke off (be_bytes n (unat v)) t)"
      using same_shape_trans [of s t] spec poke(3) fit by simp
    moreover from this have "same_shape s (snd (cbb_fail (cbb_poke off (be_bytes n (unat v)) t)))"
      by (rule same_shape_trans) simp
    moreover have "cbb_bytes (cbb_poke off (be_bytes n (unat v)) t) = cbb_bytes s @ be_bytes n (unat v)"
      using poke(2) fit overwrite_at_end [of off "cbb_bytes t" "cbb_bytes s" "be_bytes n (unat v)"] spec Some by auto
    ultimately show ?thesis
      using res small poke fit spec Some by (auto simp: prod_eq_iff split: if_splits)
  qed
qed

lemma cbb_buffer_add_u_live:
  assumes m: "alloc_ok m" and ok: "cbb_ok s" and n: "1 \<le> n" "n < 2 ^ 63"
    and room: "cbb_room m s (length (cbb_bytes s) + n)" and v: "unat v < 256 ^ n"
  shows "fst (cbb_buffer_add_u m v n s)"
proof -
  obtain off t where q: "cbb_buffer_add m n s = (Some off, t)"
    using cbb_buffer_add_live [OF ok room n(2)] by (cases "cbb_buffer_add m n s") auto
  note spec = cbb_buffer_add [OF m ok n(2) q]
  obtain b where b: "cbb_base t = Some b" using spec unfolding cbb_ok_def by blast
  have "off + n \<le> length (cbb_bytes t)" using spec by simp
  then show ?thesis
    using q n b v store_be_poke [of t b off n] spec by (simp add: cbb_buffer_add_u_def Let_def)
qed


section \<open>Flushing\<close>

text \<open>Closing a pending child of a byte list: its length prefix is filled in, or, for an ASN.1 child,
  replaced by the DER length octets; \<open>None\<close> when the contents are too long for the prefix.\<close>

definition close_child :: "cbb_child \<Rightarrow> u8 list \<Rightarrow> u8 list option" where
  "close_child ch bs =
     (let body = drop (ch_offset ch + ch_len_len ch) bs; pre = take (ch_offset ch) bs
      in if ch_asn1 ch
         then if length body > 0xfffffffe then None else Some (pre @ der_len (length body) @ body)
         else if length body < 256 ^ ch_len_len ch
              then Some (pre @ be_bytes (ch_len_len ch) (length body) @ body) else None)"

fun flush_bytes :: "cbb_child list \<Rightarrow> u8 list \<Rightarrow> u8 list option" where
  "flush_bytes [] bs = Some bs"
| "flush_bytes (c # cs) bs = Option.bind (flush_bytes cs bs) (close_child c)"

lemma cbb_asn1_len_Some:
  assumes "cbb_asn1_len n = Some (k, b, n')"
  shows "der_len n = of_nat b # be_bytes (k - 1) n'" and "1 \<le> k" and "k \<le> 5" and "n' < 256 ^ (k - 1)"
    and "n \<le> 0xfffffffe" and "k \<noteq> 1 \<longrightarrow> n' = n" and "length (der_len n) = k"
proof -
  have nb: "nbytes n = j" if "0 < j" "256 ^ (j - 1) \<le> n" "n < 256 ^ j" for j
    using nbytes_eq_iff [of j n] that by blast
  consider "n \<le> 0x7f" "(k, b, n') = (1, n, 0)"
    | "0x7f < n" "n \<le> 0xff" "(k, b, n') = (2, 0x81, n)"
    | "0xff < n" "n \<le> 0xffff" "(k, b, n') = (3, 0x82, n)"
    | "0xffff < n" "n \<le> 0xffffff" "(k, b, n') = (4, 0x83, n)"
    | "0xffffff < n" "n \<le> 0xfffffffe" "(k, b, n') = (5, 0x84, n)"
    using assms by (auto simp: cbb_asn1_len_def split: if_splits)
  then have "der_len n = of_nat b # be_bytes (k - 1) n' \<and> 1 \<le> k \<and> k \<le> 5 \<and> n' < 256 ^ (k - 1)
      \<and> n \<le> 0xfffffffe \<and> (k \<noteq> 1 \<longrightarrow> n' = n)"
  proof cases
    case 1 then show ?thesis by (simp add: der_len_def)
  next
    case 2 then show ?thesis using nb [of 1] by (simp add: der_len_def)
  next
    case 3 then show ?thesis using nb [of 2] by (simp add: der_len_def)
  next
    case 4 then show ?thesis using nb [of 3] by (simp add: der_len_def)
  next
    case 5 then show ?thesis using nb [of 4] by (simp add: der_len_def)
  qed
  then show "der_len n = of_nat b # be_bytes (k - 1) n'" "1 \<le> k" "k \<le> 5" "n' < 256 ^ (k - 1)"
    "n \<le> 0xfffffffe" "k \<noteq> 1 \<longrightarrow> n' = n" "length (der_len n) = k"
    by auto
qed

lemma cbb_asn1_len_None: "cbb_asn1_len n = None \<longleftrightarrow> 0xfffffffe < n"
  by (simp add: cbb_asn1_len_def)

lemma cbb_flush_len:
  assumes ok: "cbb_ok s" and d: "d < length (cbb_children s)"
    and fit: "ch_offset (cbb_children s ! d) + ch_len_len (cbb_children s ! d) \<le> length (cbb_bytes s)"
    and r: "cbb_flush_len d n s = (r, s')"
  shows "cbb_ok s' \<and> (r \<longleftrightarrow> n < 256 ^ ch_len_len (cbb_children s ! d)) \<and>
    (if r then cbb_children s' = take d (cbb_children s) \<and> cbb_error s' = cbb_error s \<and>
       same_shape s (s'\<lparr>cbb_children := cbb_children s\<rparr>) \<and>
       cbb_bytes s' = overwrite (ch_offset (cbb_children s ! d)) (be_bytes (ch_len_len (cbb_children s ! d)) n) (cbb_bytes s)
     else cbb_error s' \<and> cbb_children s' = cbb_children s)"
proof -
  let ?c = "cbb_children s ! d"
  obtain b where b: "cbb_base s = Some b" using ok unfolding cbb_ok_def by blast
  let ?t = "cbb_poke (ch_offset ?c) (be_bytes (ch_len_len ?c) n) s"
  have res: "(r, s') = (if n div 256 ^ ch_len_len ?c \<noteq> 0 then cbb_fail ?t
      else (True, ?t\<lparr>cbb_children := take d (cbb_children ?t)\<rparr>))"
    using r b store_be_poke [OF ok b fit, of n] by (simp add: cbb_flush_len_def Let_def split: if_splits)
  note poke = cbb_poke [OF ok, of "ch_offset ?c" "be_bytes (ch_len_len ?c) n"]
  have ch: "cbb_children ?t = cbb_children s" by (simp add: cbb_poke_def)
  have small: "n div 256 ^ ch_len_len ?c = 0 \<longleftrightarrow> n < 256 ^ ch_len_len ?c" by (simp add: div_eq_0_iff)
  show ?thesis
  proof (cases "n < 256 ^ ch_len_len ?c")
    case False
    then have "r = False" "s' = snd (cbb_fail ?t)" using res small by (auto simp: cbb_fail_def)
    then show ?thesis using poke(1) fit ch False by simp
  next
    case True
    then have r: "r" and s': "s' = ?t\<lparr>cbb_children := take d (cbb_children ?t)\<rparr>" using res small by auto
    have "cbb_ok s'"
      using poke(1) fit children_ok_take by (fastforce simp: s' cbb_ok_def)
    moreover have "cbb_bytes s' = cbb_bytes ?t" and "cbb_error s' = cbb_error ?t"
      by (simp_all add: s' cbb_bytes_def cbb_error_def)
    moreover have "s'\<lparr>cbb_children := cbb_children s\<rparr> = ?t"
      by (simp add: s' cbb_poke_def)
    moreover have "cbb_children s' = take d (cbb_children s)" by (simp add: s' ch)
    ultimately show ?thesis using r poke fit True by simp
  qed
qed


lemma cbb_ok_children:
  "cbb_ok s \<Longrightarrow> cbb_children s = cs @ [c] \<Longrightarrow> ch_offset c + ch_len_len c \<le> length (cbb_bytes s)"
  by (elim cbb_okE) (simp add: children_ok_append)

text \<open>The ASN.1 branch together with the final loop.\<close>

lemma cbb_flush_asn1:
  assumes m: "alloc_ok m" and ok: "cbb_ok s" and cs: "cbb_children s = cs @ [ch]"
    and asn1: "ch_len_len ch = 1" and body: "body = drop (ch_offset ch + 1) (cbb_bytes s)"
    and r: "cbb_flush_asn1 m (length cs) ch (ch_offset ch + 1) (length body) s = (r, s')"
  shows "case r of
      None \<Rightarrow> cbb_ok s' \<and> cbb_children s' = cs @ [ch] \<and> same_shape s s'
    | Some n' \<Rightarrow> \<exists>k b t. cbb_asn1_len (length body) = Some (k, b, n') \<and> same_shape s t \<and> cbb_ok s' \<and>
        s' = t\<lparr>cbb_children := cs @ [ch\<lparr>ch_offset := ch_offset ch + 1, ch_len_len := k - 1\<rparr>]\<rparr> \<and>
        cbb_error s' = cbb_error s \<and>
        (\<exists>gap. length gap = k - 1 \<and>
          cbb_bytes s' = take (ch_offset ch) (cbb_bytes s) @ of_nat b # gap @ body)"
proof -
  have lo: "ch_offset ch + 1 \<le> length (cbb_bytes s)"
    using cbb_ok_children [OF ok cs] asn1 by simp
  show ?thesis
  proof (cases "cbb_asn1_len (length body)")
    case None
    then show ?thesis using r ok cs by (simp add: cbb_flush_asn1_def)
  next
    case (Some kbn)
    obtain k b n' where kbn: "cbb_asn1_len (length body) = Some (k, b, n')"
      using Some by (cases kbn) auto
    note k = cbb_asn1_len_Some [OF kbn]
    let ?ch' = "ch\<lparr>ch_offset := ch_offset ch + 1, ch_len_len := k - 1\<rparr>"
    text \<open>Storing the first length octet in a state whose written part has room for all of them.\<close>
    have finish: "\<exists>u. same_shape s u \<and> cbb_ok s' \<and> s' = u\<lparr>cbb_children := cs @ [?ch']\<rparr> \<and>
        cbb_error s' = cbb_error s \<and>
        cbb_bytes s' = take (ch_offset ch) (cbb_bytes s) @ of_nat b # gap @ body"
      if t: "same_shape s t" "cbb_ok t" "cbb_error t = cbb_error s"
        and bytes: "cbb_bytes t = take (ch_offset ch + 1) (cbb_bytes s) @ gap @ body" and gap: "length gap = k - 1"
        and s': "s' = t\<lparr>cbb_base := map_option (\<lambda>b'.
              b'\<lparr>cb_buf := (cb_buf b')[ch_offset ch := of_nat b]\<rparr>) (cbb_base t),
            cbb_children := (cbb_children t)[length cs := ?ch']\<rparr>" for t gap
    proof -
      obtain bb where bb: "cbb_base t = Some bb" "base_ok bb" "children_ok 0 (cbb_children t) (cb_len bb)"
        "cbb_bytes t = take (cb_len bb) (cb_buf bb)" "length (cbb_bytes t) = cb_len bb"
        using t(2) by (rule cbb_okE)
      let ?u = "t\<lparr>cbb_base := Some (bb\<lparr>cb_buf := (cb_buf bb)[ch_offset ch := of_nat b]\<rparr>)\<rparr>"
      have cht: "cbb_children t = cs @ [ch]" using t(1) cs by (simp add: same_shape_def)
      have su: "s' = ?u\<lparr>cbb_children := cs @ [?ch']\<rparr>" using bb(1) by (simp add: s' cht)
      have lens: "length (cbb_bytes t) = ch_offset ch + 1 + (k - 1) + length body"
        using lo gap by (simp add: bytes)
      have "cbb_bytes s' = (cbb_bytes t)[ch_offset ch := of_nat b]"
        using bb(4) by (simp add: su cbb_bytes_def take_update_swap)
      also have "\<dots> = take (ch_offset ch) (cbb_bytes s) @ of_nat b # gap @ body"
        using lo by (simp add: bytes take_Suc_conv_app_nth list_update_append)
      finally have b': "cbb_bytes s' = take (ch_offset ch) (cbb_bytes s) @ of_nat b # gap @ body" .
      have "cbb_ok s'"
        using bb cht lens children_ok_mono [of 0 cs "ch_offset ch" "ch_offset ch + 1"]
        by (auto simp: su cbb_ok_def base_ok_def children_ok_append)
      moreover have "same_shape s ?u"
        using t(1) bb(1) by (auto simp: same_shape_def)
      moreover have "cbb_error s' = cbb_error s" using bb(1) t(3) by (simp add: su cbb_error_def)
      ultimately show ?thesis using su b' by blast
    qed
    have split: "cbb_bytes s = take (ch_offset ch + 1) (cbb_bytes s) @ body"
      by (simp add: body)
    show ?thesis
    proof (cases "k = 1")
      case True
      then have "r = Some n'" and s': "s' = s\<lparr>cbb_base := map_option (\<lambda>b'.
              b'\<lparr>cb_buf := (cb_buf b')[ch_offset ch := of_nat b]\<rparr>) (cbb_base s),
            cbb_children := (cbb_children s)[length cs := ?ch']\<rparr>"
        using r kbn by (simp_all add: cbb_flush_asn1_def)
      then show ?thesis
        using finish [of s "[]"] ok split kbn True by simp
    next
      case False
      then have n': "n' = length body" using k by blast
      have small: "k - 1 < 2 ^ 63" using k by simp
      obtain q t where q: "cbb_buffer_add m (k - 1) s = (q, t)" by (cases "cbb_buffer_add m (k - 1) s")
      note spec = cbb_buffer_add [OF m ok small q]
      show ?thesis
      proof (cases q)
        case None
        then have "r = None" "s' = t" using r kbn False q by (simp_all add: cbb_flush_asn1_def)
        then show ?thesis using spec None cs by (simp add: same_shape_def)
      next
        case (Some off)
        obtain bb where bb: "cbb_base t = Some bb" "base_ok bb" "cbb_bytes t = take (cb_len bb) (cb_buf bb)"
          "length (cbb_bytes t) = cb_len bb"
          using spec by (blast elim: cbb_okE)
        let ?dst = "ch_offset ch + 1 + (k - 1)"
        have off: "off = length (cbb_bytes s)" "take off (cbb_bytes t) = cbb_bytes s"
          "length (cbb_bytes t) = off + (k - 1)" using spec Some by auto
        have lens: "length (cbb_bytes s) = ch_offset ch + 1 + length body" using lo by (simp add: body)
        have src: "take n' (drop (ch_offset ch + 1) (cb_buf bb)) = body"
        proof -
          have "take n' (drop (ch_offset ch + 1) (cb_buf bb)) = drop (ch_offset ch + 1) (take off (cb_buf bb))"
            using lens off by (simp add: n' drop_take)
          also have "take off (cb_buf bb) = cbb_bytes s"
            using off bb by (metis le_add1 min.absorb1 take_take)
          finally show ?thesis by (simp add: body)
        qed
        let ?u = "cbb_poke ?dst body t"
        have fit: "?dst + length body \<le> length (cbb_bytes t)" using off lens by simp
        note poke = cbb_poke [OF _ fit]
        have mv: "t\<lparr>cbb_base := map_option (\<lambda>b'. b'\<lparr>cb_buf :=
              buf_memmove (ch_offset ch + 1 + (k - 1)) (ch_offset ch + 1) n' (cb_buf b')\<rparr>) (cbb_base t)\<rparr> = ?u"
          using src by (simp add: bb cbb_poke_def buf_memmove_def)
        have rs: "r = Some n'" "s' = ?u\<lparr>cbb_base := map_option (\<lambda>b'.
              b'\<lparr>cb_buf := (cb_buf b')[ch_offset ch := of_nat b]\<rparr>) (cbb_base ?u),
            cbb_children := (cbb_children ?u)[length cs := ?ch']\<rparr>"
          using r kbn False q Some mv by (simp_all add: cbb_flush_asn1_def Let_def)
        define gap where "gap = take (k - 1) (drop (ch_offset ch + 1) (cbb_bytes t))"
        have gap: "length gap = k - 1" using off lens by (simp add: gap_def)
        have bytes: "cbb_bytes ?u = take (ch_offset ch + 1) (cbb_bytes s) @ gap @ body"
        proof -
          have "cbb_bytes ?u = overwrite ?dst body (cbb_bytes t)" using poke spec by simp
          also have "\<dots> = take ?dst (cbb_bytes t) @ body"
            using fit off lens by (simp add: overwrite_def)
          also have "take ?dst (cbb_bytes t) = take (ch_offset ch + 1) (cbb_bytes t) @ gap"
            by (simp only: take_add gap_def)
          also have "take (ch_offset ch + 1) (cbb_bytes t) = take (ch_offset ch + 1) (cbb_bytes s)"
            using off(2) lo off(1) by (metis min.absorb1 take_take)
          finally show ?thesis by simp
        qed
        have "same_shape s ?u" using same_shape_trans [of s t ?u] spec poke(3) by simp
        moreover have "cbb_error ?u = cbb_error s" using poke(4) spec Some by simp
        ultimately show ?thesis
          using finish [of ?u gap, OF _ _ _ bytes gap rs(2)] poke(1) spec kbn gap rs(1) by auto
      qed
    qed
  qed
qed


lemma cbb_inv_okD: "cbb_inv s \<Longrightarrow> cbb_ok s"
  by (simp add: cbb_inv_def)

lemma cbb_inv_same_shape: "cbb_inv s \<Longrightarrow> cbb_ok s' \<Longrightarrow> same_shape s s' \<Longrightarrow> cbb_inv s'"
  by (simp add: cbb_inv_def same_shape_def)

text \<open>Closing the last child of the chain.\<close>

lemma cbb_flush_child:
  assumes m: "alloc_ok m" and inv: "cbb_inv s" and cs: "cbb_children s = cs @ [ch]"
    and r: "cbb_flush_child m (length cs) ch s = (r, s')"
  shows "if r
    then cbb_inv s' \<and> cbb_children s' = cs \<and> cbb_error s' = cbb_error s \<and>
         same_shape s (s'\<lparr>cbb_children := cbb_children s\<rparr>) \<and> close_child ch (cbb_bytes s) = Some (cbb_bytes s')
    else cbb_inv s' \<and> cbb_error s' \<and> cbb_children s' = cs @ [ch]"
proof -
  have ok: "cbb_ok s" and p: "pending_ok ch" and pcs: "\<forall>c \<in> set cs. pending_ok c"
    using inv cs by (auto simp: cbb_inv_def)
  obtain bb where bb: "cbb_base s = Some bb" "base_ok bb" "length (cbb_bytes s) = cb_len bb"
    using ok by (rule cbb_okE)
  have fit: "ch_offset ch + ch_len_len ch \<le> length (cbb_bytes s)" using cbb_ok_children [OF ok cs] .
  then have sz: "szadd (ch_offset ch) (ch_len_len ch) = ch_offset ch + ch_len_len ch"
    using bb by (simp add: base_ok_def)
  define body where "body = drop (ch_offset ch + ch_len_len ch) (cbb_bytes s)"
  have lens: "length body = cb_len bb - (ch_offset ch + ch_len_len ch)" by (simp add: body_def bb)
  have last: "cbb_children s ! length cs = ch" by (simp add: cs)
  show ?thesis
  proof (cases "ch_asn1 ch")
    case False
    then have fl: "cbb_flush_len (length cs) (length body) s = (r, s')"
      using r fit bb lens by (simp add: cbb_flush_child_def sz)
    have "close_child ch (cbb_bytes s) =
        (if length body < 256 ^ ch_len_len ch
         then Some (overwrite (ch_offset ch) (be_bytes (ch_len_len ch) (length body)) (cbb_bytes s)) else None)"
      using False by (simp add: close_child_def body_def Let_def overwrite_def)
    then show ?thesis
      using cbb_flush_len [OF ok _ _ fl] fit cs p pcs last
      by (auto simp: cbb_inv_def split: if_splits)
  next
    case True
    then have len1: "ch_len_len ch = 1" using p by (simp add: pending_ok_def)
    have body1: "body = drop (ch_offset ch + 1) (cbb_bytes s)" by (simp add: body_def len1)
    obtain q t where q: "cbb_flush_asn1 m (length cs) ch (ch_offset ch + 1) (length body) s = (q, t)"
      by (cases "cbb_flush_asn1 m (length cs) ch (ch_offset ch + 1) (length body) s")
    note spec = cbb_flush_asn1 [OF m ok cs len1 body1 q]
    show ?thesis
    proof (cases q)
      case None
      then have "r = False" "s' = snd (cbb_fail t)"
        using r True fit bb lens q len1 sz by (simp_all add: cbb_flush_child_def cbb_fail_def)
      moreover have "cbb_ok t" "cbb_children t = cs @ [ch]" using spec None by auto
      ultimately show ?thesis using inv cs by (simp add: cbb_inv_def)
    next
      case (Some n')
      have fl: "cbb_flush_len (length cs) n' t = (r, s')"
        using r True fit bb lens q len1 sz Some by (simp add: cbb_flush_child_def)
      obtain k b u gap where k: "cbb_asn1_len (length body) = Some (k, b, n')"
        and u: "same_shape s u" "cbb_ok t"
          "t = u\<lparr>cbb_children := cs @ [ch\<lparr>ch_offset := ch_offset ch + 1, ch_len_len := k - 1\<rparr>]\<rparr>"
          "cbb_error t = cbb_error s"
        and gap: "length gap = k - 1"
        and bytes: "cbb_bytes t = take (ch_offset ch) (cbb_bytes s) @ of_nat b # gap @ body"
        using spec Some by auto
      note kl = cbb_asn1_len_Some [OF k]
      have cht: "cbb_children t ! length cs = ch\<lparr>ch_offset := ch_offset ch + 1, ch_len_len := k - 1\<rparr>"
        using u(3) by simp
      have fit': "ch_offset (cbb_children t ! length cs) + ch_len_len (cbb_children t ! length cs) \<le> length (cbb_bytes t)"
        using fit gap by (simp add: cht bytes)
      have len: "length cs < length (cbb_children t)" using u(3) by simp
      note fin = cbb_flush_len [OF u(2) len fit' fl]
      then have r: r and s': "cbb_ok s'" "cbb_children s' = cs" "cbb_error s' = cbb_error s"
        "same_shape t (s'\<lparr>cbb_children := cbb_children t\<rparr>)"
        "cbb_bytes s' = overwrite (ch_offset ch + 1) (be_bytes (k - 1) n') (cbb_bytes t)"
        using kl(4) u(3,4) by (auto simp: cht)
      have "overwrite (ch_offset ch + 1) (be_bytes (k - 1) n') (cbb_bytes t)
          = take (ch_offset ch) (cbb_bytes s) @ der_len (length body) @ body"
        using fit gap by (simp add: bytes overwrite_def kl(1))
      then have "close_child ch (cbb_bytes s) = Some (cbb_bytes s')"
        using True kl(5) s'(5) by (simp add: close_child_def len1 body1 Let_def)
      moreover have "same_shape s (s'\<lparr>cbb_children := cbb_children s\<rparr>)"
        using s'(4) u(1) bb(1) by (fastforce simp: same_shape_def u(3))
      ultimately show ?thesis using r s' pcs by (simp add: cbb_inv_def)
    qed
  qed
qed


text \<open>The bytes after flushing the builder at depth \<open>d\<close>, by the reference.\<close>

definition cbb_flushed :: "nat \<Rightarrow> CBB \<Rightarrow> u8 list option" where
  "cbb_flushed d s = flush_bytes (drop d (cbb_children s)) (cbb_bytes s)"

lemma cbb_flushed_end [simp]: "length (cbb_children s) \<le> d \<Longrightarrow> cbb_flushed d s = Some (cbb_bytes s)"
  by (simp add: cbb_flushed_def)

lemma close_child_length: "close_child c bs = Some bs' \<Longrightarrow> ch_offset c + ch_len_len c \<le> length bs \<Longrightarrow>
    pending_ok c \<Longrightarrow> length bs \<le> length bs'"
  by (auto simp: close_child_def Let_def pending_ok_def der_len_def split: if_splits)

lemma CBB_flush_no_base: "cbb_error s \<Longrightarrow> fst (CBB_flush m d s) = False \<and> snd (CBB_flush m d s) = s"
  by (subst (1 2) CBB_flush.simps) (auto simp: cbb_error_def split: option.splits)

theorem CBB_flush:
  assumes m: "alloc_ok m"
  shows "cbb_inv s \<Longrightarrow> CBB_flush m d s = (r, s') \<Longrightarrow>
    cbb_inv s' \<and>
    (if r then d \<le> length (cbb_children s) \<and> \<not> cbb_error s \<and> \<not> cbb_error s' \<and>
         cbb_children s' = take d (cbb_children s) \<and>
         same_shape s (s'\<lparr>cbb_children := cbb_children s\<rparr>) \<and> cbb_flushed d s = Some (cbb_bytes s')
     else s' = s \<and> length (cbb_children s) < d \<or> cbb_error s')"
proof (induction "length (cbb_children s) - d" arbitrary: d r s')
  case 0
  obtain b where b: "cbb_base s = Some b" using 0 by (auto simp: cbb_inv_def cbb_ok_def)
  show ?case
  proof (cases "cb_error b \<or> length (cbb_children s) < d")
    case True
    then have "(r, s') = (False, s)" using 0(3) b by (simp add: CBB_flush.simps [of m d s] disj_commute)
    then show ?thesis using True 0(2) b by (auto simp: cbb_error_def)
  next
    case False
    then have "d = length (cbb_children s)" using 0(1) by linarith
    then have "(r, s') = (True, s)" using 0(3) b False
      by (simp add: CBB_flush.simps [of m "length (cbb_children s)" s])
    then show ?thesis using 0(2) b False by (auto simp: cbb_error_def \<open>d = _\<close>)
  qed
next
  case (Suc n)
  then have d: "d < length (cbb_children s)" by linarith
  let ?c = "cbb_children s ! d"
  obtain b where b: "cbb_base s = Some b" using Suc.prems by (auto simp: cbb_inv_def cbb_ok_def)
  show ?case
  proof (cases "cb_error b")
    case True
    then have "(r, s') = (False, s)" using Suc.prems(2) b by (simp add: CBB_flush.simps [of m d s])
    then show ?thesis using True Suc.prems(1) b by (simp add: cbb_error_def)
  next
    case False
    have "?c \<in> set (cbb_children s)" using d by simp
    then have "pending_ok ?c" using Suc.prems(1) unfolding cbb_inv_def by blast
    then have pc: "ch_len_len ?c \<noteq> 0" by (simp add: pending_ok_def)
    obtain q t where q: "CBB_flush m (Suc d) s = (q, t)" by (cases "CBB_flush m (Suc d) s")
    have step: "(r, s') = (if q then cbb_flush_child m d ?c t else cbb_fail t)"
      using Suc.prems(2) b d pc False q by (simp add: CBB_flush.simps [of m d s] split: if_splits bool.splits)
    have "n = length (cbb_children s) - Suc d" using Suc.hyps(2) by simp
    note IH = Suc.hyps(1) [OF this Suc.prems(1) q]
    show ?thesis
    proof (cases q)
      case False
      then have "r = False" "s' = snd (cbb_fail t)" using step by (simp_all add: cbb_fail_def)
      then show ?thesis using IH by (simp add: cbb_inv_def)
    next
      case True
      have ch: "cbb_children t = take d (cbb_children s) @ [?c]"
        using IH True d by (simp add: take_Suc_conv_app_nth)
      have ld: "length (take d (cbb_children s)) = d" using d by simp
      have "cbb_flush_child m (length (take d (cbb_children s))) ?c t = (r, s')"
        using step True by (simp only: ld if_True)
      note spec = cbb_flush_child [OF m _ ch this]
      show ?thesis
      proof (cases r)
        case False
        then show ?thesis using spec IH by simp
      next
        case r: True
        have "cbb_flushed d s = Option.bind (cbb_flushed (Suc d) s) (close_child ?c)"
          using d by (simp add: cbb_flushed_def flip: Cons_nth_drop_Suc)
        then have "cbb_flushed d s = Some (cbb_bytes s')" using IH True spec r by simp
        moreover have "same_shape s (s'\<lparr>cbb_children := cbb_children s\<rparr>)"
          using IH True spec r b unfolding same_shape_def by fastforce
        ultimately show ?thesis using IH True spec r d by simp
      qed
    qed
  qed
qed


text \<open>Flushing succeeds whenever the lengths fit their prefixes and there is room for the result.\<close>

lemma flush_bytes_length:
  "children_ok lo cs (length bs) \<Longrightarrow> \<forall>c \<in> set cs. pending_ok c \<Longrightarrow> flush_bytes cs bs = Some bs' \<Longrightarrow>
   length bs \<le> length bs'"
proof (induction cs arbitrary: lo bs')
  case (Cons c cs)
  then obtain b1 where b1: "flush_bytes cs bs = Some b1" "close_child c b1 = Some bs'"
    by (auto simp: Option.bind_eq_Some_conv)
  have "length bs \<le> length b1" using Cons.IH b1(1) Cons.prems by auto
  moreover have "ch_offset c + ch_len_len c \<le> length bs"
    using Cons.prems(1) children_ok_bound by fastforce
  ultimately show ?case using close_child_length [OF b1(2)] Cons.prems(2) by fastforce
qed simp

lemma cbb_flushed_length:
  assumes inv: "cbb_inv s" and fl: "cbb_flushed d s = Some bs"
  shows "length (cbb_bytes s) \<le> length bs"
proof -
  have drop: "children_ok lo (xs @ ys) n \<Longrightarrow> \<exists>lo'. children_ok lo' ys n" for lo xs ys n
    by (induction xs arbitrary: lo) auto
  have "children_ok 0 (take d (cbb_children s) @ drop d (cbb_children s)) (length (cbb_bytes s))"
    using cbb_ok_nested [OF cbb_inv_okD [OF inv]] by simp
  from drop [OF this] show ?thesis
    using flush_bytes_length fl inv unfolding cbb_flushed_def cbb_inv_def by (meson in_set_dropD)
qed

lemma cbb_flush_child_live:
  assumes m: "alloc_ok m" and inv: "cbb_inv s" and cs: "cbb_children s = cs @ [ch]"
    and cl: "close_child ch (cbb_bytes s) = Some bs" and room: "cbb_room m s (length bs)"
  shows "fst (cbb_flush_child m (length cs) ch s)"
proof -
  have ok: "cbb_ok s" and p: "pending_ok ch" using inv cs by (auto simp: cbb_inv_def)
  obtain bb where bb: "cbb_base s = Some bb" "base_ok bb" "length (cbb_bytes s) = cb_len bb"
    using ok by (rule cbb_okE)
  have fit: "ch_offset ch + ch_len_len ch \<le> length (cbb_bytes s)" using cbb_ok_children [OF ok cs] .
  then have sz: "szadd (ch_offset ch) (ch_len_len ch) = ch_offset ch + ch_len_len ch"
    using bb by (simp add: base_ok_def)
  define body where "body = drop (ch_offset ch + ch_len_len ch) (cbb_bytes s)"
  have lens: "length body = cb_len bb - (ch_offset ch + ch_len_len ch)" by (simp add: body_def bb)
  have last: "cbb_children s ! length cs = ch" by (simp add: cs)
  show ?thesis
  proof (cases "ch_asn1 ch")
    case False
    obtain r s' where fl: "cbb_flush_len (length cs) (length body) s = (r, s')"
      by (cases "cbb_flush_len (length cs) (length body) s")
    have "length body < 256 ^ ch_len_len ch"
      using cl False by (simp add: close_child_def body_def Let_def split: if_splits)
    then show ?thesis
      using cbb_flush_len [OF ok _ _ fl] fl fit cs last False bb lens sz by (simp add: cbb_flush_child_def)
  next
    case True
    then have len1: "ch_len_len ch = 1" using p by (simp add: pending_ok_def)
    have body1: "body = drop (ch_offset ch + 1) (cbb_bytes s)" by (simp add: body_def len1)
    have bs: "bs = take (ch_offset ch) (cbb_bytes s) @ der_len (length body) @ body" "length body \<le> 0xfffffffe"
      using cl True by (auto simp: close_child_def body_def Let_def len1 split: if_splits)
    obtain k b n' where k: "cbb_asn1_len (length body) = Some (k, b, n')"
      using bs(2) cbb_asn1_len_None [of "length body"] by (cases "cbb_asn1_len (length body)") auto
    note kl = cbb_asn1_len_Some [OF k]
    have lbs: "length bs = length (cbb_bytes s) + (k - 1)"
      using fit len1 kl(2,7) lens bb(3) by (simp add: bs(1))
    obtain q t where q: "cbb_flush_asn1 m (length cs) ch (ch_offset ch + 1) (length body) s = (q, t)"
      by (cases "cbb_flush_asn1 m (length cs) ch (ch_offset ch + 1) (length body) s")
    have "k \<noteq> 1 \<Longrightarrow> fst (cbb_buffer_add m (k - 1) s) \<noteq> None"
      using cbb_buffer_add_live [OF ok, of m "k - 1"] room lbs kl(3) by simp
    then have "q \<noteq> None"
      using q k by (cases "cbb_buffer_add m (k - 1) s"; cases "k = 1") (auto simp: cbb_flush_asn1_def)
    then obtain n1 where Some: "q = Some n1" by blast
    obtain u where u: "cbb_ok t" "n1 = n'"
        "t = u\<lparr>cbb_children := cs @ [ch\<lparr>ch_offset := ch_offset ch + 1, ch_len_len := k - 1\<rparr>]\<rparr>"
      and bytes: "length (cbb_bytes t) = ch_offset ch + k + length body"
      using cbb_flush_asn1 [OF m ok cs len1 body1 q] Some k fit kl(2) len1 by auto
    obtain r s' where fl: "cbb_flush_len (length cs) n' t = (r, s')"
      by (cases "cbb_flush_len (length cs) n' t")
    have "r" using cbb_flush_len [OF u(1) _ _ fl] u(3) bytes kl(2,4) by simp
    then show ?thesis
      using True fit bb lens q len1 sz Some fl u(2) by (simp add: cbb_flush_child_def)
  qed
qed

lemma CBB_flush_live:
  assumes m: "alloc_ok m" and inv: "cbb_inv s"
  shows "d \<le> length (cbb_children s) \<Longrightarrow> cbb_flushed d s = Some bs \<Longrightarrow> cbb_room m s (length bs) \<Longrightarrow>
    fst (CBB_flush m d s)"
proof (induction "length (cbb_children s) - d" arbitrary: d bs)
  case 0
  then have d: "d = length (cbb_children s)" by linarith
  obtain b where "cbb_base s = Some b" "\<not> cb_error b" using 0(4) by (auto simp: cbb_room_def)
  then show ?case by (simp add: CBB_flush.simps [of m "length (cbb_children s)" s] d)
next
  case (Suc n)
  then have d: "d < length (cbb_children s)" by linarith
  let ?c = "cbb_children s ! d"
  obtain b where b: "cbb_base s = Some b" "\<not> cb_error b" using Suc.prems(3) by (auto simp: cbb_room_def)
  have cset: "?c \<in> set (cbb_children s)" using d by simp
  then have p: "pending_ok ?c" using inv unfolding cbb_inv_def by blast
  then have pc: "ch_len_len ?c \<noteq> 0" by (simp add: pending_ok_def)
  have "cbb_flushed d s = Option.bind (cbb_flushed (Suc d) s) (close_child ?c)"
    using d by (simp add: cbb_flushed_def flip: Cons_nth_drop_Suc)
  with Suc.prems(2) have "Option.bind (cbb_flushed (Suc d) s) (close_child ?c) = Some bs" by metis
  then obtain b1 where b1: "cbb_flushed (Suc d) s = Some b1" "close_child ?c b1 = Some bs"
    by (auto simp: Option.bind_eq_Some_conv)
  obtain q t where q: "CBB_flush m (Suc d) s = (q, t)" by (cases "CBB_flush m (Suc d) s")
  note spec = CBB_flush [OF m inv q]
  have fit1: "ch_offset ?c + ch_len_len ?c \<le> length b1"
  proof -
    have nest: "children_ok 0 (cbb_children s) (length (cbb_bytes s))"
      using cbb_ok_nested [OF cbb_inv_okD [OF inv]] .
    have "length (cbb_bytes s) \<le> length b1" using cbb_flushed_length [OF inv b1(1)] .
    moreover have "ch_offset ?c + ch_len_len ?c \<le> length (cbb_bytes s)"
      using children_ok_nth [of 0 "cbb_children s" "length (cbb_bytes s)" d] nest d by simp
    ultimately show ?thesis by linarith
  qed
  have le: "length b1 \<le> length bs" using close_child_length [OF b1(2) fit1 p] .
  have "n = length (cbb_children s) - Suc d" using Suc.hyps(2) by simp
  from Suc.hyps(1) [OF this _ b1(1) cbb_room_mono [OF Suc.prems(3) le]] d q have Q: q by simp
  have ch: "cbb_children t = take d (cbb_children s) @ [?c]" and tb: "cbb_bytes t = b1"
    using spec Q d b1(1) by (simp_all add: take_Suc_conv_app_nth)
  have "same_shape s (t\<lparr>cbb_children := cbb_children s\<rparr>)" and "\<not> cbb_error t" using spec Q by auto
  then have "cbb_room m (t\<lparr>cbb_children := cbb_children s\<rparr>) (length bs)"
    using same_shape_room Suc.prems(3) by (simp add: cbb_error_def)
  then have "cbb_room m t (length bs)" by (simp add: cbb_room_def)
  then have "fst (cbb_flush_child m (length (take d (cbb_children s))) ?c t)"
    using cbb_flush_child_live [OF m _ ch] spec tb b1(2) by blast
  then show ?case
    using b d pc q Q by (simp add: CBB_flush.simps [of m d s] min_absorb2)
qed


section \<open>Writers\<close>

text \<open>\<open>writes d f out\<close>: the operation \<open>f\<close> on the builder at depth \<open>d\<close> keeps the invariant; when it
  succeeds, the pending children of that builder have been closed and \<open>out\<close> has been appended; and it
  succeeds whenever their lengths fit and there is room for the result.\<close>

definition appended :: "nat \<Rightarrow> CBB \<Rightarrow> u8 list \<Rightarrow> CBB \<Rightarrow> bool" where
  "appended d s out s' \<longleftrightarrow>
     d \<le> length (cbb_children s) \<and> \<not> cbb_error s \<and> \<not> cbb_error s' \<and> cbb_children s' = take d (cbb_children s) \<and>
     same_shape s (s'\<lparr>cbb_children := cbb_children s\<rparr>) \<and>
     map_option (\<lambda>bs. bs @ out) (cbb_flushed d s) = Some (cbb_bytes s')"

definition writes :: "nat \<Rightarrow> (allocator \<Rightarrow> CBB \<Rightarrow> bool \<times> CBB) \<Rightarrow> u8 list \<Rightarrow> bool" where
  "writes d f out \<longleftrightarrow> (\<forall>m s. alloc_ok m \<and> cbb_inv s \<longrightarrow>
     cbb_inv (snd (f m s)) \<and>
     (fst (f m s) \<longrightarrow> appended d s out (snd (f m s))) \<and>
     (\<forall>bs. d \<le> length (cbb_children s) \<and> cbb_flushed d s = Some bs \<and> cbb_room m s (length (bs @ out)) \<longrightarrow>
        fst (f m s)))"

lemma writesI:
  assumes "\<And>m s. alloc_ok m \<Longrightarrow> cbb_inv s \<Longrightarrow> cbb_inv (snd (f m s))"
    and "\<And>m s s'. alloc_ok m \<Longrightarrow> cbb_inv s \<Longrightarrow> f m s = (True, s') \<Longrightarrow> appended d s out s'"
    and "\<And>m s bs. alloc_ok m \<Longrightarrow> cbb_inv s \<Longrightarrow> d \<le> length (cbb_children s) \<Longrightarrow>
      cbb_flushed d s = Some bs \<Longrightarrow> cbb_room m s (length bs + length out) \<Longrightarrow> fst (f m s)"
  shows "writes d f out"
proof -
  have "appended d s out (snd (f m s))" if "alloc_ok m" "cbb_inv s" "fst (f m s)" for m s
    using assms(2) [of m s "snd (f m s)"] that by (simp add: prod_eq_iff)
  then show ?thesis using assms(1,3) unfolding writes_def by auto
qed

lemma writesD:
  assumes "writes d f out" and "alloc_ok m" and "cbb_inv s"
  shows "cbb_inv (snd (f m s))"
    and "f m s = (True, s') \<Longrightarrow> appended d s out s'"
    and "d \<le> length (cbb_children s) \<Longrightarrow> cbb_flushed d s = Some bs \<Longrightarrow>
      cbb_room m s (length bs + length out) \<Longrightarrow> \<exists>s'. f m s = (True, s')"
  using assms unfolding writes_def by (auto simp: prod_eq_iff)

lemma appended_trans:
  assumes "appended d s o1 t" and "appended d t o2 u"
  shows "appended d s (o1 @ o2) u"
proof -
  have "cbb_children t = take d (cbb_children s)" and "length (cbb_children t) = d"
    using assms by (auto simp: appended_def)
  then show ?thesis using assms by (auto simp: appended_def same_shape_def simp flip: append_assoc)
qed

lemma appended_room:
  assumes "appended d s out t" and "cbb_room m s n"
  shows "cbb_room m t n"
proof -
  have "cbb_room m (t\<lparr>cbb_children := cbb_children s\<rparr>) n"
    using same_shape_room [OF _ assms(2)] assms(1) by (simp add: appended_def cbb_error_def)
  then show ?thesis by (simp add: cbb_room_def)
qed

lemma appended_flushed:
  "appended d s out t \<Longrightarrow> d \<le> length (cbb_children t) \<and> cbb_flushed d t = Some (cbb_bytes t) \<and>
   length (cbb_children t) = d"
  by (auto simp: appended_def)

lemma appended_bytes:
  "appended d s out t \<Longrightarrow> length (cbb_children s) \<le> d \<Longrightarrow> cbb_bytes t = cbb_bytes s @ out"
  by (auto simp: appended_def)

lemma writes_seq:
  assumes f: "writes d f o1" and g: "writes d g o2"
  shows "writes d (\<lambda>m. c_and (f m) (g m)) (o1 @ o2)"
proof (rule writesI)
  fix m s assume m: "alloc_ok m" and s: "cbb_inv s"
  note invf = writesD(1) [OF f m s]
  show "cbb_inv (snd (c_and (f m) (g m) s))"
    using invf writesD(1) [OF g m invf] by (auto simp: c_and_def split: prod.splits)
next
  fix m s s' assume m: "alloc_ok m" and s: "cbb_inv s" and r: "c_and (f m) (g m) s = (True, s')"
  then obtain t where t: "f m s = (True, t)" "g m t = (True, s')" by (auto simp: c_and_True)
  have "cbb_inv t" using writesD(1) [OF f m s] t by simp
  then show "appended d s (o1 @ o2) s'"
    using appended_trans writesD(2) [OF f m s t(1)] writesD(2) [OF g m _ t(2)] by blast
next
  fix m s bs assume m: "alloc_ok m" and s: "cbb_inv s" and d: "d \<le> length (cbb_children s)"
    and bs: "cbb_flushed d s = Some bs" and room: "cbb_room m s (length bs + length (o1 @ o2))"
  have "cbb_room m s (length bs + length o1)" by (rule cbb_room_mono [OF room]) simp
  then obtain t where t: "f m s = (True, t)" using writesD(3) [OF f m s d bs] by blast
  have inv: "cbb_inv t" using writesD(1) [OF f m s] t by simp
  have app: "appended d s o1 t" using writesD(2) [OF f m s t] .
  have lt: "length (cbb_bytes t) = length bs + length o1" using app bs by (auto simp: appended_def simp flip: length_append)
  obtain u where "g m t = (True, u)"
    using writesD(3) [OF g m inv, of "cbb_bytes t"] appended_flushed [OF app] appended_room [OF app room] lt
    by (auto simp: add.assoc)
  then show "fst (c_and (f m) (g m) s)" using t by (simp add: fst_c_and)
qed

lemma writes_flush: "writes d (\<lambda>m. CBB_flush m d) []"
proof (rule writesI)
  fix m s assume "alloc_ok m" and "cbb_inv s"
  then show "cbb_inv (snd (CBB_flush m d s))"
    using CBB_flush [of m s d "fst (CBB_flush m d s)" "snd (CBB_flush m d s)"] by simp
next
  fix m s s' assume "alloc_ok m" and "cbb_inv s" and "CBB_flush m d s = (True, s')"
  from CBB_flush [OF this] show "appended d s [] s'" by (simp add: appended_def)
next
  fix m s bs assume "alloc_ok m" and "cbb_inv s" and "d \<le> length (cbb_children s)"
    and "cbb_flushed d s = Some bs" and "cbb_room m s (length bs + length ([] :: u8 list))"
  then show "fst (CBB_flush m d s)" using CBB_flush_live by simp
qed

text \<open>An operation that first flushes and then appends to a flushed builder.\<close>

lemma writes_flushed:
  assumes inv: "\<And>m s. alloc_ok m \<Longrightarrow> cbb_inv s \<Longrightarrow> cbb_inv (snd (g m s))"
    and app: "\<And>m s s'. alloc_ok m \<Longrightarrow> cbb_inv s \<Longrightarrow> length (cbb_children s) = d \<Longrightarrow> \<not> cbb_error s \<Longrightarrow>
      g m s = (True, s') \<Longrightarrow> same_shape s s' \<and> \<not> cbb_error s' \<and> cbb_bytes s' = cbb_bytes s @ out"
    and live: "\<And>m s. alloc_ok m \<Longrightarrow> cbb_inv s \<Longrightarrow> length (cbb_children s) = d \<Longrightarrow>
      cbb_room m s (length (cbb_bytes s) + length out) \<Longrightarrow> fst (g m s)"
  shows "writes d (\<lambda>m. c_and (CBB_flush m d) (g m)) out"
proof (rule writesI)
  fix m s assume m: "alloc_ok m" and s: "cbb_inv s"
  note f = writesD(1) [OF writes_flush m s, of d]
  then show "cbb_inv (snd (c_and (CBB_flush m d) (g m) s))"
    using inv [OF m f] by (auto simp: c_and_def split: prod.splits)
next
  fix m s s' assume m: "alloc_ok m" and s: "cbb_inv s" and r: "c_and (CBB_flush m d) (g m) s = (True, s')"
  then obtain t where t: "CBB_flush m d s = (True, t)" "g m t = (True, s')" by (auto simp: c_and_True)
  have fl: "appended d s [] t" and ti: "cbb_inv t"
    using writesD(1,2) [OF writes_flush m s, of d] t by auto
  have "same_shape t s' \<and> \<not> cbb_error s' \<and> cbb_bytes s' = cbb_bytes t @ out"
    using app [OF m ti _ _ t(2)] fl by (auto simp: appended_def)
  then show "appended d s out s'" using fl by (auto simp: appended_def same_shape_def)
next
  fix m s bs assume m: "alloc_ok m" and s: "cbb_inv s" and d: "d \<le> length (cbb_children s)"
    and bs: "cbb_flushed d s = Some bs" and room: "cbb_room m s (length bs + length out)"
  have "cbb_room m s (length bs + length ([] :: u8 list))" by (rule cbb_room_mono [OF room]) simp
  then obtain t where t: "CBB_flush m d s = (True, t)" using writesD(3) [OF writes_flush m s d bs] by blast
  have fl: "appended d s [] t" and ti: "cbb_inv t"
    using writesD(1,2) [OF writes_flush m s, of d] t by auto
  have "cbb_bytes t = bs" using fl bs by (simp add: appended_def)
  then show "fst (c_and (CBB_flush m d) (g m) s)"
    using live [OF m ti] appended_room [OF fl room] appended_flushed [OF fl] t by (simp add: fst_c_and)
qed

lemma writes_add_u:
  assumes n: "1 \<le> n" "n < 2 ^ 63" and v: "unat v < 256 ^ n"
  shows "writes d (\<lambda>m. cbb_add_u m d v n) (be_bytes n (unat v))"
  unfolding cbb_add_u_def
proof (rule writes_flushed)
  fix m s assume m: "alloc_ok m" and s: "cbb_inv s"
  obtain r s' where r: "cbb_buffer_add_u m v n s = (r, s')" by (cases "cbb_buffer_add_u m v n s")
  then show "cbb_inv (snd (cbb_buffer_add_u m v n s))"
    using cbb_buffer_add_u [OF m cbb_inv_okD [OF s] n r] cbb_inv_same_shape [OF s] by simp
next
  fix m s s' assume "alloc_ok m" "cbb_inv s" "\<not> cbb_error s" "cbb_buffer_add_u m v n s = (True, s')"
  then show "same_shape s s' \<and> \<not> cbb_error s' \<and> cbb_bytes s' = cbb_bytes s @ be_bytes n (unat v)"
    using cbb_buffer_add_u [OF _ cbb_inv_okD n] by fastforce
next
  fix m s assume "alloc_ok m" "cbb_inv s" "cbb_room m s (length (cbb_bytes s) + length (be_bytes n (unat v)))"
  then show "fst (cbb_buffer_add_u m v n s)"
    using cbb_buffer_add_u_live [OF _ cbb_inv_okD n] v by simp
qed

lemma CBB_add_bytes_c_and:
  "CBB_add_bytes m d data = c_and (CBB_flush m d) (\<lambda>s.
     case cbb_buffer_add m (length data) s of (None, s) \<Rightarrow> (False, s) | (Some dest, s) \<Rightarrow> (True, cbb_poke dest data s))"
  by (rule ext) (auto simp: CBB_add_bytes_def c_and_def split: prod.splits bool.splits)

lemma writes_bytes:
  assumes n: "length data < 2 ^ 63"
  shows "writes d (\<lambda>m. CBB_add_bytes m d data) data"
  unfolding CBB_add_bytes_c_and
proof (rule writes_flushed)
  fix m s assume m: "alloc_ok m" and s: "cbb_inv s"
  obtain q t where q: "cbb_buffer_add m (length data) s = (q, t)" by (cases "cbb_buffer_add m (length data) s")
  note spec = cbb_buffer_add [OF m cbb_inv_okD [OF s] n q]
  have "cbb_inv t" using spec cbb_inv_same_shape [OF s] by simp
  then show "cbb_inv (snd (case cbb_buffer_add m (length data) s of (None, s) \<Rightarrow> (False, s)
      | (Some dest, s) \<Rightarrow> (True, cbb_poke dest data s)))"
    using q spec cbb_poke(1,3) [of t _ data] cbb_inv_same_shape [of t]
    by (auto split: option.splits)
next
  fix m s s' assume m: "alloc_ok m" and s: "cbb_inv s" and e: "\<not> cbb_error s"
    and r: "(case cbb_buffer_add m (length data) s of (None, s) \<Rightarrow> (False, s)
      | (Some dest, s) \<Rightarrow> (True, cbb_poke dest data s)) = (True, s')"
  then obtain off t where q: "cbb_buffer_add m (length data) s = (Some off, t)" and s': "s' = cbb_poke off data t"
    by (auto split: prod.splits option.splits)
  note spec = cbb_buffer_add [OF m cbb_inv_okD [OF s] n q]
  then have fit: "off + length data \<le> length (cbb_bytes t)" and ok: "cbb_ok t" by auto
  note poke = cbb_poke [OF ok fit]
  have "overwrite off data (cbb_bytes t) = cbb_bytes s @ data"
    using overwrite_at_end [of off "cbb_bytes t" "cbb_bytes s" data] spec by auto
  then show "same_shape s s' \<and> \<not> cbb_error s' \<and> cbb_bytes s' = cbb_bytes s @ data"
    using poke spec e same_shape_trans [of s t s'] by (auto simp: s')
next
  fix m s assume "alloc_ok m" "cbb_inv s" "cbb_room m s (length (cbb_bytes s) + length data)"
  then show "fst (case cbb_buffer_add m (length data) s of (None, s) \<Rightarrow> (False, s)
      | (Some dest, s) \<Rightarrow> (True, cbb_poke dest data s))"
    using cbb_buffer_add_live [OF cbb_inv_okD, of s m "length data"] n
    by (auto split: prod.splits option.splits)
qed


subsection \<open>Tags\<close>

lemma writes_u8: "writes d (\<lambda>m. CBB_add_u8 m d v) [v]"
proof -
  have "unat (ucast v :: u64) < 256 ^ 1" by simp
  from writes_add_u [OF _ _ this] show ?thesis
    by (simp add: CBB_add_u8_def)
qed

lemma be_bytes_1 [simp]: "be_bytes 1 (unat (v :: u8)) = [v]"
  by simp

fun base128_digits :: "nat \<Rightarrow> nat \<Rightarrow> u8 list" where
  "base128_digits v 0 = []"
| "base128_digits v (Suc i) =
     of_nat (v div 128 ^ i mod 128 + (if i \<noteq> 0 then 128 else 0)) # base128_digits v i"

lemma add_base128_byte:
  "(let byte = ucast (drop_bit (7 * i) (v :: u64)) AND 0x7f :: u8 in if i \<noteq> 0 then byte OR 0x80 else byte)
   = of_nat (unat v div 128 ^ i mod 128 + (if i \<noteq> 0 then 128 else 0))"
proof -
  let ?b = "ucast (drop_bit (7 * i) v) AND 0x7f :: u8"
  have p: "(2 :: nat) ^ (7 * i) = 128 ^ i" by (simp add: power_mult)
  have b: "unat ?b = unat v div 128 ^ i mod 128"
    by (simp add: byte_arith p mod_mod_cancel)
  have "unat (?b OR 0x80) = unat v div 128 ^ i mod 128 + 128"
  proof -
    have "?b OR 0x80 = push_bit 7 1 OR ?b" by (simp add: or.commute)
    then show ?thesis using unat_push_or [of ?b 7 1] by (simp only: b) simp
  qed
  then show ?thesis using b by (auto simp: Let_def simp del: of_nat_add intro: word_of_nat_eqI)
qed

lemma add_base128_loop_Suc:
  "(\<lambda>m. add_base128_loop m d v (Suc i)) =
   (\<lambda>m. c_and (CBB_add_u8 m d (of_nat (unat v div 128 ^ i mod 128 + (if i \<noteq> 0 then 128 else 0))))
      (add_base128_loop m d v i))"
  using add_base128_byte [of i v]
  by (intro ext) (auto simp: Let_def c_and_def simp del: of_nat_add split: prod.splits bool.splits)

lemma c_and_done [simp]: "c_and f (\<lambda>s. (True, s)) = f"
  by (rule ext) (auto simp: c_and_def split: prod.splits)

lemma writes_base128_loop: "writes d (\<lambda>m. add_base128_loop m d v (Suc n)) (base128_digits (unat v) (Suc n))"
proof (induction n)
  case 0
  have "add_base128_loop m d v 0 = (\<lambda>s. (True, s))" for m by (rule ext) simp
  then show ?case
    unfolding add_base128_loop_Suc base128_digits.simps by (simp add: writes_u8 del: of_nat_add)
next
  case (Suc n)
  show ?case
    unfolding add_base128_loop_Suc [of d v "Suc n"] base128_digits.simps(2) [of "unat v" "Suc n"]
    by (rule writes_seq [OF writes_u8 Suc.IH, unfolded append_Cons append_Nil])
qed

text \<open>The number of groups is the least one that suffices, so the digits are the base-128 encoding.\<close>

fun len128 :: "nat \<Rightarrow> nat" where
  "len128 n = (if n = 0 then 0 else Suc (len128 (n div 128)))"

fun hi_digits :: "nat \<Rightarrow> nat \<Rightarrow> u8 list" where
  "hi_digits w 0 = []"
| "hi_digits w (Suc n) = of_nat (w div 128 ^ n mod 128 + 128) # hi_digits w n"

declare len128.simps [simp del]

lemma hi_digits_low: "hi_digits w (Suc n) = hi_digits (w div 128) n @ [of_nat (128 + w mod 128)]"
proof (induction n)
  case (Suc n)
  have "hi_digits w (Suc (Suc n)) = of_nat (w div 128 ^ Suc n mod 128 + 128) # hi_digits w (Suc n)"
    by (simp only: hi_digits.simps)
  then show ?case using Suc by (simp add: div_mult2_eq del: of_nat_add)
qed (simp add: add.commute)

lemma base128_digits_low:
  "base128_digits v (Suc n) = hi_digits (v div 128) n @ [of_nat (v mod 128)]"
proof (induction n)
  case (Suc n)
  have "base128_digits v (Suc (Suc n)) = of_nat (v div 128 ^ Suc n mod 128 + 128) # base128_digits v (Suc n)"
    by (simp del: of_nat_add)
  then show ?case using Suc by (simp add: div_mult2_eq)
qed simp

lemma base128_hi_digits: "base128_hi w = hi_digits w (len128 w)"
proof (induction w rule: base128_hi.induct)
  case (1 w)
  show ?case
  proof (cases "w = 0")
    case False
    then have "len128 w = Suc (len128 (w div 128))" by (subst len128.simps) simp
    then show ?thesis using 1 [OF False] False
      by (subst base128_hi.simps) (simp only: hi_digits_low if_False)
  qed (simp add: len128.simps)
qed

lemma base128_len_loop: "base128_len_loop v = len128 (unat v)"
proof (induction v rule: base128_len_loop.induct)
  case (1 v)
  then show ?case
    by (subst base128_len_loop.simps, subst len128.simps) (auto simp: word_less_nat_alt unat_eq_0 byte_arith unat_gt_0)
qed

lemma writes_base128: "writes d (\<lambda>m. add_base128_integer m d v) (base128 (unat v))"
proof -
  obtain n where n: "(if base128_len_loop v = 0 then 1 else base128_len_loop v) = Suc n"
    and eq: "base128 (unat v) = base128_digits (unat v) (Suc n)"
  proof (cases "v = 0")
    case True
    show ?thesis by (rule that [of 0]) (simp_all add: base128_len_loop len128.simps True base128_def)
  next
    case False
    then have "len128 (unat v) = Suc (len128 (unat v div 128))"
      by (subst len128.simps) (simp add: unat_eq_0)
    then show ?thesis
      by (intro that [of "len128 (unat v div 128)"])
        (simp_all add: base128_len_loop base128_digits_low base128_def base128_hi_digits
          del: base128_digits.simps)
  qed
  have "(\<lambda>m. add_base128_integer m d v) = (\<lambda>m. add_base128_loop m d v (Suc n))"
    using n by (simp add: add_base128_integer_def Let_def del: add_base128_loop.simps)
  then show ?thesis using writes_base128_loop eq by simp
qed


lemma unat_tag_octet_bits: "unat (ucast (drop_bit CBS_ASN1_TAG_SHIFT (tag :: u32)) AND 0xe0 :: u8) = tag_class tag * 32"
proof -
  have "unat tag div 2 ^ 24 < 256" using unsigned_less [of tag, where 'a = nat] by (simp add: less_mult_imp_div_less)
  then have "unat (ucast (drop_bit CBS_ASN1_TAG_SHIFT tag) :: u8) = unat tag div 2 ^ 24"
    by (simp add: CBS_ASN1_TAG_SHIFT_def byte_arith)
  then show ?thesis
    by (simp add: unat_and_0xe0 tag_class_def flip: div_mult2_eq)
qed

lemma tag_octet:
  assumes "unat n < 32"
  shows "(ucast (drop_bit CBS_ASN1_TAG_SHIFT (tag :: u32)) AND 0xe0 :: u8) OR n = of_nat (tag_class tag * 32 + unat n)"
proof (rule word_of_nat_eqI)
  let ?b = "ucast (drop_bit CBS_ASN1_TAG_SHIFT tag) AND 0xe0 :: u8"
  have c: "unat (of_nat (tag_class tag) :: u8) = tag_class tag"
    using tag_class_less [of tag] by (simp add: byte_arith)
  have "?b = push_bit 5 (of_nat (tag_class tag))"
    by (rule word_unat_eq_iff [THEN iffD2]) (simp only: unat_tag_octet_bits unat_push_bit c, use tag_class_less [of tag] in simp)
  then show "unat (?b OR n) = tag_class tag * 32 + unat n"
    using unat_push_or [of n 5 "of_nat (tag_class tag)"] assms c tag_class_less [of tag] by simp
qed

lemma unat_tag_number: "unat (tag AND CBS_ASN1_TAG_NUMBER_MASK) = tag_number tag"
proof -
  have mask: "CBS_ASN1_TAG_NUMBER_MASK = mask 29"
    by (simp add: CBS_ASN1_TAG_NUMBER_MASK_def CBS_ASN1_TAG_SHIFT_def mask_eq_exp_minus_1)
  show ?thesis unfolding mask tag_number_def by (rule unat_and_mask)
qed

lemma writes_tag: "writes d (\<lambda>m. cbb_add_tag m d tag) (der_tag tag)"
proof (cases "tag_number tag < 31")
  case True
  then have lt: "\<not> 0x1f \<le> tag AND CBS_ASN1_TAG_NUMBER_MASK"
    by (simp add: word_le_nat_alt unat_tag_number)
  have n: "unat (ucast (tag AND CBS_ASN1_TAG_NUMBER_MASK) :: u8) = tag_number tag"
    using True by (simp only: unat_ucast unat_tag_number) simp
  then have "(ucast (drop_bit CBS_ASN1_TAG_SHIFT tag) AND 0xe0) OR ucast (tag AND CBS_ASN1_TAG_NUMBER_MASK)
      = (of_nat (tag_class tag * 32 + tag_number tag) :: u8)"
    using tag_octet [of "ucast (tag AND CBS_ASN1_TAG_NUMBER_MASK)" tag] True by simp
  then show ?thesis
    using lt True writes_u8 [of d "of_nat (tag_class tag * 32 + tag_number tag)"]
    by (simp only: cbb_add_tag_def Let_def der_tag_def if_False if_True)
next
  case False
  then have ge: "0x1f \<le> tag AND CBS_ASN1_TAG_NUMBER_MASK"
    by (simp add: word_le_nat_alt unat_tag_number)
  have n: "unat (ucast (tag AND CBS_ASN1_TAG_NUMBER_MASK) :: u64) = tag_number tag"
    by (subst unat_ucast_up) (simp_all add: unat_tag_number)
  have "(ucast (drop_bit CBS_ASN1_TAG_SHIFT tag) AND 0xe0) OR 0x1f = (of_nat (tag_class tag * 32 + 31) :: u8)"
    using tag_octet [of 31 tag] by simp
  then show ?thesis
    using ge False writes_seq [OF writes_u8 [of d "of_nat (tag_class tag * 32 + 31)"]
        writes_base128 [of d "ucast (tag AND CBS_ASN1_TAG_NUMBER_MASK)"]]
    by (simp only: cbb_add_tag_def Let_def der_tag_def if_False if_True n append_Cons append_Nil)
qed

subsection \<open>Children\<close>

text \<open>\<open>opens d f pre n asn1\<close>: \<open>f\<close> appends \<open>pre\<close> and attaches a child with an \<open>n\<close>-byte zero prefix.\<close>

definition opened :: "nat \<Rightarrow> CBB \<Rightarrow> u8 list \<Rightarrow> nat \<Rightarrow> bool \<Rightarrow> CBB \<Rightarrow> bool" where
  "opened d s pre n asn1 s' \<longleftrightarrow>
     (\<exists>t. appended d s (pre @ replicate n 0) t \<and>
        s' = cbb_attach d (length (cbb_bytes t) - n) n asn1 t)"

definition opens :: "nat \<Rightarrow> (allocator \<Rightarrow> CBB \<Rightarrow> bool \<times> CBB) \<Rightarrow> u8 list \<Rightarrow> nat \<Rightarrow> bool \<Rightarrow> bool" where
  "opens d f pre n asn1 \<longleftrightarrow> (\<forall>m s. alloc_ok m \<and> cbb_inv s \<longrightarrow>
     cbb_inv (snd (f m s)) \<and>
     (\<forall>s'. f m s = (True, s') \<longrightarrow> opened d s pre n asn1 s') \<and>
     (\<forall>bs. d \<le> length (cbb_children s) \<and> cbb_flushed d s = Some bs \<and>
        cbb_room m s (length bs + length pre + n) \<longrightarrow> fst (f m s)))"

definition length_prefix :: "nat \<Rightarrow> bool \<Rightarrow> nat \<Rightarrow> u8 list" where
  "length_prefix n asn1 k = (if asn1 then der_len k else be_bytes n k)"

definition length_fits :: "nat \<Rightarrow> bool \<Rightarrow> nat \<Rightarrow> bool" where
  "length_fits n asn1 k \<longleftrightarrow> (if asn1 then k \<le> 0xfffffffe else k < 256 ^ n)"

lemma close_child_eq:
  assumes "ch_offset c = length pre" and "length z = ch_len_len c"
  shows "close_child c (pre @ z @ body) =
    (if length_fits (ch_len_len c) (ch_asn1 c) (length body)
     then Some (pre @ length_prefix (ch_len_len c) (ch_asn1 c) (length body) @ body) else None)"
  using assms by (auto simp: close_child_def Let_def length_fits_def length_prefix_def)

lemma cbb_attach_simps [simp]:
  "cbb_children (cbb_attach d off n a s) = take d (cbb_children s) @ [\<lparr>ch_offset = off, ch_len_len = n, ch_asn1 = a\<rparr>]"
  "cbb_bytes (cbb_attach d off n a s) = cbb_bytes s"
  "cbb_error (cbb_attach d off n a s) = cbb_error s"
  "cbb_base (cbb_attach d off n a s) = cbb_base s"
  by (simp_all add: cbb_attach_def cbb_bytes_def cbb_error_def)

lemma cbb_room_attach [simp]: "cbb_room m (cbb_attach d off n a s) k = cbb_room m s k"
  by (simp add: cbb_room_def)

lemma cbb_inv_attach:
  assumes inv: "cbb_inv t" and len: "length (cbb_children t) = d"
    and n: "pending_ok \<lparr>ch_offset = off, ch_len_len = n, ch_asn1 = a\<rparr>"
    and z: "cbb_bytes t = bs @ z" "length z = n" "off = length bs" and nest: "children_ok 0 (cbb_children t) off"
  shows "cbb_inv (cbb_attach d off n a t)"
proof -
  obtain b where b: "cbb_base t = Some b" "base_ok b" "length (cbb_bytes t) = cb_len b"
    using cbb_inv_okD [OF inv] by (blast elim: cbb_okE)
  then have "cbb_ok (cbb_attach d off n a t)"
    using nest len z by (auto simp: cbb_ok_def children_ok_append)
  then show ?thesis using inv n by (auto simp: cbb_inv_def dest: in_set_takeD)
qed

text \<open>Closing a freshly opened child behind whatever was written into it.\<close>

lemma opened_close:
  assumes op: "opened d s pre n asn1 s1" and body: "appended (Suc d) s1 body s2"
    and fl: "cbb_flushed d s = Some bs"
  shows "cbb_flushed d s2 =
    (if length_fits n asn1 (length body) then Some (bs @ pre @ length_prefix n asn1 (length body) @ body) else None)"
    and "length (cbb_children s2) = Suc d"
    and "take d (cbb_children s2) = take d (cbb_children s)"
proof -
  obtain t where t: "appended d s (pre @ replicate n 0) t"
    "s1 = cbb_attach d (length (cbb_bytes t) - n) n asn1 t"
    using op by (auto simp: opened_def)
  let ?c = "\<lparr>ch_offset = length (cbb_bytes t) - n, ch_len_len = n, ch_asn1 = asn1\<rparr>"
  have bt: "cbb_bytes t = bs @ pre @ replicate n 0" and lt: "length (cbb_children t) = d"
    and ct: "cbb_children t = take d (cbb_children s)"
    using t(1) fl appended_flushed [OF t(1)] by (auto simp: appended_def)
  have c2: "cbb_children s2 = cbb_children t @ [?c]" and "cbb_bytes s2 = cbb_bytes t @ body"
    using body lt by (auto simp: appended_def t(2))
  then have b2: "cbb_bytes s2 = (bs @ pre) @ replicate n 0 @ body" by (simp add: bt)
  show "length (cbb_children s2) = Suc d" "take d (cbb_children s2) = take d (cbb_children s)"
    using lt ct by (simp_all add: c2)
  have "cbb_flushed d s2 = close_child ?c (cbb_bytes s2)"
    using lt by (simp add: cbb_flushed_def c2)
  then show "cbb_flushed d s2 =
    (if length_fits n asn1 (length body) then Some (bs @ pre @ length_prefix n asn1 (length body) @ body) else None)"
    using close_child_eq [of ?c "bs @ pre" "replicate n 0" body] by (simp add: b2 bt)
qed


lemma opensI0:
  assumes "\<And>m s. alloc_ok m \<Longrightarrow> cbb_inv s \<Longrightarrow> cbb_inv (snd (f m s))"
    and "\<And>m s s'. alloc_ok m \<Longrightarrow> cbb_inv s \<Longrightarrow> f m s = (True, s') \<Longrightarrow> opened d s pre n asn1 s'"
    and "\<And>m s bs. alloc_ok m \<Longrightarrow> cbb_inv s \<Longrightarrow> d \<le> length (cbb_children s) \<Longrightarrow>
      cbb_flushed d s = Some bs \<Longrightarrow> cbb_room m s (length bs + length pre + n) \<Longrightarrow> fst (f m s)"
  shows "opens d f pre n asn1"
  using assms unfolding opens_def by auto

lemma opensD:
  assumes "opens d f pre n asn1" and "alloc_ok m" and "cbb_inv s"
  shows "cbb_inv (snd (f m s))"
    and "f m s = (True, s') \<Longrightarrow> opened d s pre n asn1 s'"
    and "d \<le> length (cbb_children s) \<Longrightarrow> cbb_flushed d s = Some bs \<Longrightarrow>
      cbb_room m s (length bs + length pre + n) \<Longrightarrow> \<exists>s'. f m s = (True, s')"
  using assms unfolding opens_def by (auto simp: prod_eq_iff)

lemma opensI:
  assumes op: "\<And>m s. alloc_ok m \<Longrightarrow> cbb_inv s \<Longrightarrow> f m s = (case w m s of (False, s) \<Rightarrow> (False, s)
      | (True, s) \<Rightarrow> (True, cbb_attach d (length (cbb_bytes s) - n) n asn1 s))"
    and w: "writes d w (pre @ replicate n 0)" and n: "1 \<le> n" "n \<le> 3" "asn1 \<longrightarrow> n = 1"
  shows "opens d f pre n asn1"
proof (rule opensI0)
  fix m s assume m: "alloc_ok m" and s: "cbb_inv s"
  show "cbb_inv (snd (f m s))"
  proof (cases "w m s")
    case (Pair r t)
    have ti: "cbb_inv t" using writesD(1) [OF w m s] Pair by simp
    show ?thesis
    proof (cases r)
      case False
      then show ?thesis using ti Pair by (simp add: op [OF m s])
    next
      case True
      have app: "appended d s (pre @ replicate n 0) t" using writesD(2) [OF w m s] Pair True by simp
      obtain bs where bs: "cbb_flushed d s = Some bs" "cbb_bytes t = (bs @ pre) @ replicate n 0"
        using app by (auto simp: appended_def)
      have "cbb_children t = take d (cbb_children s)" using app by (simp add: appended_def)
      then have nest: "children_ok 0 (cbb_children t) (length (bs @ pre))"
        using children_ok_take [OF cbb_ok_nested [OF cbb_inv_okD [OF s]], of d]
          cbb_flushed_length [OF s bs(1)] children_ok_mono by fastforce
      show ?thesis
        using cbb_inv_attach [OF ti _ _ bs(2) _ _ nest] appended_flushed [OF app] n Pair True
        by (simp add: op [OF m s] bs(2) pending_ok_def)
    qed
  qed
next
  fix m s s' assume m: "alloc_ok m" and s: "cbb_inv s" and r: "f m s = (True, s')"
  then show "opened d s pre n asn1 s'"
    using writesD(2) [OF w m s]
    by (auto simp: op [OF m s] opened_def split: prod.splits bool.splits)
next
  fix m s bs assume m: "alloc_ok m" and s: "cbb_inv s" and "d \<le> length (cbb_children s)"
    and "cbb_flushed d s = Some bs" and "cbb_room m s (length bs + length pre + n)"
  then show "fst (f m s)"
    using writesD(3) [OF w m s, of bs] by (auto simp: op [OF m s] add.assoc)
qed


text \<open>The whole life of a child: open it, write its contents, flush the parent.\<close>

lemma writes_child:
  assumes op: "opens d f pre n asn1" and w: "writes (Suc d) g body"
    and fits: "length_fits n asn1 (length body)" and n: "n \<le> length (length_prefix n asn1 (length body))"
  shows "writes d (\<lambda>m. c_and (f m) (c_and (g m) (CBB_flush m d)))
    (pre @ length_prefix n asn1 (length body) @ body)"
proof (rule writesI)
  fix m s assume m: "alloc_ok m" and s: "cbb_inv s"
  note i1 = opensD(1) [OF op m s]
  note i2 = writesD(1) [OF w m i1]
  note i3 = writesD(1) [OF writes_flush m i2, of d]
  show "cbb_inv (snd (c_and (f m) (c_and (g m) (CBB_flush m d)) s))"
    using i1 i2 i3 by (auto simp: c_and_def split: prod.splits)
next
  fix m s s' assume m: "alloc_ok m" and s: "cbb_inv s"
    and "c_and (f m) (c_and (g m) (CBB_flush m d)) s = (True, s')"
  then obtain s1 s2 where r: "f m s = (True, s1)" "g m s1 = (True, s2)" "CBB_flush m d s2 = (True, s')"
    by (auto simp: c_and_True)
  have i: "cbb_inv s1" "cbb_inv s2" using opensD(1) [OF op m s] writesD(1) [OF w m, of s1] r by auto
  have o1: "opened d s pre n asn1 s1" and a2: "appended (Suc d) s1 body s2" and a3: "appended d s2 [] s'"
    using opensD(2) [OF op m s r(1)] writesD(2) [OF w m i(1) r(2)] writesD(2) [OF writes_flush m i(2) r(3)]
    by auto
  obtain t where t: "appended d s (pre @ replicate n 0) t"
    "s1 = cbb_attach d (length (cbb_bytes t) - n) n asn1 t"
    using o1 by (auto simp: opened_def)
  obtain bs where bs: "cbb_flushed d s = Some bs" using t(1) by (auto simp: appended_def)
  note cl = opened_close [OF o1 a2 bs]
  have "same_shape s (s'\<lparr>cbb_children := cbb_children s\<rparr>)"
    using t a2 a3 unfolding appended_def same_shape_def by fastforce
  then show "appended d s (pre @ length_prefix n asn1 (length body) @ body) s'"
    using t(1) a3 cl fits bs by (simp add: appended_def)
next
  fix m s bs assume m: "alloc_ok m" and s: "cbb_inv s" and d: "d \<le> length (cbb_children s)"
    and bs: "cbb_flushed d s = Some bs"
    and room: "cbb_room m s (length bs + length (pre @ length_prefix n asn1 (length body) @ body))"
  have "cbb_room m s (length bs + length pre + n)" by (rule cbb_room_mono [OF room]) (use n in simp)
  then obtain s1 where r1: "f m s = (True, s1)" using opensD(3) [OF op m s d bs] by blast
  have i1: "cbb_inv s1" and o1: "opened d s pre n asn1 s1"
    using opensD(1,2) [OF op m s] r1 by auto
  obtain t where t: "appended d s (pre @ replicate n 0) t"
    "s1 = cbb_attach d (length (cbb_bytes t) - n) n asn1 t"
    using o1 by (auto simp: opened_def)
  have l1: "length (cbb_children s1) = Suc d" and b1: "cbb_bytes s1 = bs @ pre @ replicate n 0"
    using t(1) bs appended_flushed [OF t(1)] by (auto simp: t(2) appended_def)
  have room1: "cbb_room m s1 (length bs + length (pre @ length_prefix n asn1 (length body) @ body))"
    using appended_room [OF t(1) room] by (simp add: t(2))
  have "cbb_room m s1 (length (cbb_bytes s1) + length body)"
    by (rule cbb_room_mono [OF room1]) (use n in \<open>simp add: b1\<close>)
  then obtain s2 where r2: "g m s1 = (True, s2)" using writesD(3) [OF w m i1, of "cbb_bytes s1"] l1 by auto
  have i2: "cbb_inv s2" and a2: "appended (Suc d) s1 body s2" using writesD(1,2) [OF w m i1] r2 by auto
  note cl = opened_close [OF o1 a2 bs]
  have "fst (CBB_flush m d s2)"
    using CBB_flush_live [OF m i2, of d] cl fits appended_room [OF a2 room1] by simp
  then show "fst (c_and (f m) (c_and (g m) (CBB_flush m d)) s)" using r1 r2 by (simp add: fst_c_and)
qed


lemma opens_asn1: "opens d (\<lambda>m. CBB_add_asn1 m d tag) (der_tag tag) 1 True"
proof (rule opensI [where w = "\<lambda>m. c_and (c_and (CBB_flush m d) (cbb_add_tag m d tag)) (CBB_add_u8 m d 0)"])
  have tg: "writes d (\<lambda>m. c_and (CBB_flush m d) (cbb_add_tag m d tag)) (der_tag tag)"
    using writes_seq [OF writes_flush writes_tag] by simp
  then show "writes d (\<lambda>m. c_and (c_and (CBB_flush m d) (cbb_add_tag m d tag)) (CBB_add_u8 m d 0))
      (der_tag tag @ replicate 1 0)"
    using writes_seq [OF tg writes_u8] by simp
  fix m s assume m: "alloc_ok m" and s: "cbb_inv s"
  obtain r t where rt: "c_and (CBB_flush m d) (cbb_add_tag m d tag) s = (r, t)"
    by (cases "c_and (CBB_flush m d) (cbb_add_tag m d tag) s")
  obtain q u where qu: "CBB_add_u8 m d 0 t = (q, u)" by (cases "CBB_add_u8 m d 0 t")
  have ti: "cbb_inv t" using writesD(1) [OF tg m s] rt by simp
  obtain b where b: "cbb_base t = Some b" "length (cbb_bytes t) = cb_len b"
    using cbb_inv_okD [OF ti] by (blast elim: cbb_okE)
  have "cb_len b = length (cbb_bytes u) - 1" if "r" "q"
  proof -
    have "appended d s (der_tag tag) t" and "appended d t [0] u"
      using writesD(2) [OF tg m s, of t] writesD(2) [OF writes_u8 m ti, of d 0 u] that rt qu by auto
    then have "cbb_bytes u = cbb_bytes t @ [0]" using appended_flushed appended_bytes by blast
    then show ?thesis using b(2) by simp
  qed
  then show "CBB_add_asn1 m d tag s =
      (case c_and (c_and (CBB_flush m d) (cbb_add_tag m d tag)) (CBB_add_u8 m d 0) s of
         (False, s) \<Rightarrow> (False, s)
       | (True, s) \<Rightarrow> (True, cbb_attach d (length (cbb_bytes s) - 1) 1 True s))"
    using rt qu b(1) by (cases r; cases q) (simp_all add: CBB_add_asn1_def c_and_def)
qed simp_all

lemma opens_length_prefixed:
  assumes n: "1 \<le> n" "n \<le> 3"
  shows "opens d (\<lambda>m. cbb_add_length_prefixed m d n) [] n False"
proof (rule opensI [where w = "\<lambda>m. CBB_add_bytes m d (replicate n 0)"])
  have lt: "length (replicate n (0 :: u8)) < 2 ^ 63" using n by simp
  from writes_bytes [OF this]
  show w: "writes d (\<lambda>m. CBB_add_bytes m d (replicate n 0)) ([] @ replicate n 0)" by simp
  fix m s assume m: "alloc_ok m" and s: "cbb_inv s"
  obtain r t where rt: "CBB_flush m d s = (r, t)" by (cases "CBB_flush m d s")
  obtain q u where qu: "cbb_buffer_add m n t = (q, u)" by (cases "cbb_buffer_add m n t")
  have ti: "cbb_inv t" using writesD(1) [OF writes_flush m s, of d] rt by simp
  have "n < 2 ^ 63" using n by simp
  note spec = cbb_buffer_add [OF m cbb_inv_okD [OF ti] this qu]
  have "off = length (cbb_bytes (cbb_poke off (replicate n 0) u)) - n" if "q = Some off" for off
    using spec that cbb_poke(2) [of u off "replicate n 0"] by simp
  then show "cbb_add_length_prefixed m d n s =
      (case CBB_add_bytes m d (replicate n 0) s of (False, s) \<Rightarrow> (False, s)
       | (True, s) \<Rightarrow> (True, cbb_attach d (length (cbb_bytes s) - n) n False s))"
    using rt qu
    by (cases r; cases q) (simp_all add: cbb_add_length_prefixed_def CBB_add_bytes_def cbb_poke_def)
qed (use n in simp_all)

text \<open>A definite-length element, and a length-prefixed vector, around what \<open>g\<close> writes.\<close>

lemma writes_asn1:
  assumes "writes (Suc d) g body" and "length body \<le> 0xfffffffe"
  shows "writes d (\<lambda>m. c_and (CBB_add_asn1 m d tag) (c_and (g m) (CBB_flush m d))) (der_element tag body)"
  using writes_child [OF opens_asn1 assms(1), of tag] assms(2) length_der_len [of "length body"]
  by (simp add: length_fits_def length_prefix_def der_element_def Suc_le_eq)

lemma writes_length_prefixed:
  assumes "1 \<le> n" "n \<le> 3" and "writes (Suc d) g body" and "length body < 256 ^ n"
  shows "writes d (\<lambda>m. c_and (cbb_add_length_prefixed m d n) (c_and (g m) (CBB_flush m d)))
    (be_bytes n (length body) @ body)"
  using writes_child [OF opens_length_prefixed [OF assms(1,2)] assms(3)] assms(4)
  by (simp add: length_fits_def length_prefix_def)

section \<open>Whole runs\<close>

lemma CBB_init_spec:
  assumes m: "alloc_ok m" and cap: "cap < 2 ^ 63" and r: "CBB_init m k cap = (True, s)"
  shows "cbb_inv s \<and> cbb_children s = [] \<and> cbb_bytes s = [] \<and> \<not> cbb_error s \<and>
    (\<exists>b. cbb_base s = Some b \<and> cb_can_resize b)"
proof -
  obtain p k' where p: "OPENSSL_malloc m k cap = (p, k')" by (cases "OPENSSL_malloc m k cap")
  have pre: "cap + OPENSSL_MALLOC_PREFIX < 2 ^ 64" using cap by (simp add: OPENSSL_MALLOC_PREFIX_def)
  define buf where "buf = (case p of None \<Rightarrow> [] | Some b \<Rightarrow> b)"
  have len: "length buf = cap" "cap + OPENSSL_MALLOC_PREFIX < 2 ^ 63"
  proof -
    show "length buf = cap"
      using r p OPENSSL_malloc_length [OF m pre, of k] by (auto simp: CBB_init_def buf_def split: option.splits if_splits)
    show "cap + OPENSSL_MALLOC_PREFIX < 2 ^ 63"
      using r p OPENSSL_malloc_length [OF m pre, of k]
      by (auto simp: CBB_init_def OPENSSL_MALLOC_PREFIX_def split: option.splits if_splits)
  qed
  obtain k'' where "s = \<lparr>cbb_base = Some \<lparr>cb_buf = buf, cb_len = 0, cb_cap = cap, cb_can_resize = True,
      cb_error = False\<rparr>, cbb_children = [], cbb_allocs = k''\<rparr>"
    using r p by (auto simp: CBB_init_def cbb_init_def buf_def split: option.splits prod.splits if_splits)
  then show ?thesis
    using len by (auto simp: cbb_inv_def cbb_ok_def base_ok_def cbb_bytes_def cbb_error_def)
qed

lemma CBB_finish_spec:
  assumes m: "alloc_ok m" and inv: "cbb_inv s" and r: "CBB_finish m 0 True s = ((True, Some (buf, n)), s')"
  shows "cbb_flushed 0 s = Some (take n buf) \<and> n \<le> length buf \<and> cbb_base s' = None"
proof -
  obtain q t where q: "CBB_flush m 0 s = (q, t)" by (cases "CBB_flush m 0 s")
  note spec = CBB_flush [OF m inv q]
  obtain b where b: "cbb_base t = Some b" "base_ok b" "cbb_bytes t = take (cb_len b) (cb_buf b)"
    using cbb_inv_okD spec by (blast elim: cbb_okE)
  have "q" "buf = cb_buf b" "n = cb_len b" "s' = CBB_cleanup 0 (set_base t (b\<lparr>cb_buf := []\<rparr>))"
    using r q b by (auto simp: CBB_finish_def split: bool.splits)
  then show ?thesis using spec b by (auto simp: base_ok_def CBB_cleanup_def)
qed

text \<open>Everything a fresh builder is made to write is what \<open>CBB_finish\<close> hands out.\<close>

lemma cbb_run:
  assumes w: "writes 0 f out" and m: "alloc_ok m" and cap: "cap < 2 ^ 63"
    and init: "CBB_init m k cap = (True, s0)" and run: "f m s0 = (True, s1)"
    and fin: "CBB_finish m 0 True s1 = ((True, Some (buf, n)), s2)"
  shows "take n buf = out \<and> n = length out"
proof -
  note i = CBB_init_spec [OF m cap init]
  then have inv: "cbb_inv s1" and app: "appended 0 s0 out s1"
    using writesD(1,2) [OF w m, of s0] run by auto
  have "cbb_flushed 0 s1 = Some out" using app i by (auto simp: appended_def)
  with CBB_finish_spec [OF m inv fin] show ?thesis by auto
qed

lemma CBB_finish_live:
  assumes m: "alloc_ok m" and inv: "cbb_inv s" and fl: "cbb_flushed 0 s = Some bs" and room: "cbb_room m s (length bs)"
  shows "\<exists>buf n s'. CBB_finish m 0 True s = ((True, Some (buf, n)), s')"
proof -
  obtain t where t: "CBB_flush m 0 s = (True, t)"
    using CBB_flush_live [OF m inv _ fl room] by (cases "CBB_flush m 0 s") auto
  obtain b where "cbb_base t = Some b"
    using CBB_flush [OF m inv t] unfolding cbb_inv_def cbb_ok_def by auto
  then show ?thesis using t by (simp add: CBB_finish_def)
qed

lemma CBB_init_live:
  assumes "alloc_avail m limit" and "limit < 2 ^ 64" and "cap + OPENSSL_MALLOC_PREFIX \<le> limit"
    and "sizeof_cbb_buffer_st + OPENSSL_MALLOC_PREFIX \<le> limit"
  shows "\<exists>s. CBB_init m k cap = (True, s)"
proof -
  obtain b where "OPENSSL_malloc m k cap = (Some b, Suc k)"
    using OPENSSL_malloc_avail [OF assms(1-3)] by blast
  moreover obtain c where "OPENSSL_malloc m (Suc k) sizeof_cbb_buffer_st = (Some c, Suc (Suc k))"
    using OPENSSL_malloc_avail [OF assms(1,2,4)] by blast
  ultimately show ?thesis by (simp add: CBB_init_def cbb_init_def)
qed

text \<open>With enough memory, a whole run succeeds.\<close>

lemma cbb_run_live:
  assumes w: "writes 0 f out" and m: "alloc_ok m" and cap: "cap < 2 ^ 63"
    and av: "alloc_avail m limit" "limit < 2 ^ 63"
    and lim: "cap + OPENSSL_MALLOC_PREFIX \<le> limit" "sizeof_cbb_buffer_st + OPENSSL_MALLOC_PREFIX \<le> limit"
      "2 * length out + OPENSSL_MALLOC_PREFIX \<le> limit"
  shows "\<exists>s0 s1 buf n s2. CBB_init m k cap = (True, s0) \<and> f m s0 = (True, s1) \<and>
    CBB_finish m 0 True s1 = ((True, Some (buf, n)), s2)"
proof -
  have "limit < 2 ^ 64" using av(2) by simp
  then obtain s0 where s0: "CBB_init m k cap = (True, s0)"
    using CBB_init_live [OF av(1) _ lim(1,2)] by blast
  note i = CBB_init_spec [OF m cap s0]
  then obtain b where b: "cbb_base s0 = Some b" "cb_can_resize b" "\<not> cb_error b"
    by (auto simp: cbb_error_def)
  have "alloc_avail m (2 * length out + OPENSSL_MALLOC_PREFIX)"
    using av(1) lim(3) by (auto simp: alloc_avail_def)
  then have room: "cbb_room m s0 (length out)"
    using b av(2) lim(3) by (auto simp: cbb_room_def)
  obtain s1 where s1: "f m s0 = (True, s1)"
    using writesD(3) [OF w m, of s0 "[]"] i room by auto
  have inv: "cbb_inv s1" and app: "appended 0 s0 out s1"
    using writesD(1,2) [OF w m, of s0] i s1 by auto
  have "cbb_flushed 0 s1 = Some out" using app i by (auto simp: appended_def)
  from CBB_finish_live [OF m inv this appended_room [OF app room]] show ?thesis using s0 s1 by blast
qed

section \<open>Interfaces\<close>

text \<open>A family of values a builder can write, and those that a parser reads back.\<close>

locale cbb_writer =
  fixes wr :: "allocator \<Rightarrow> nat \<Rightarrow> 'a \<Rightarrow> CBB \<Rightarrow> bool \<times> CBB"
    and enc :: "'a \<Rightarrow> u8 list"
    and valid :: "'a \<Rightarrow> bool"
  assumes writes_enc: "valid x \<Longrightarrow> writes d (\<lambda>m. wr m d x) (enc x)"
begin

fun write_list :: "allocator \<Rightarrow> nat \<Rightarrow> 'a list \<Rightarrow> CBB \<Rightarrow> bool \<times> CBB" where
  "write_list m d [] = CBB_flush m d"
| "write_list m d (x # xs) = c_and (wr m d x) (write_list m d xs)"

lemma writes_list:
  "(\<And>x. x \<in> set xs \<Longrightarrow> valid x) \<Longrightarrow> writes d (\<lambda>m. write_list m d xs) (concat (map enc xs))"
  by (induction xs) (auto simp: writes_flush intro!: writes_seq writes_enc)

lemma run_list:
  assumes "\<And>x. x \<in> set xs \<Longrightarrow> valid x" and "alloc_ok m" and "cap < 2 ^ 63"
    and "CBB_init m k cap = (True, s0)" and "write_list m 0 xs s0 = (True, s1)"
    and "CBB_finish m 0 True s1 = ((True, Some (buf, n)), s2)"
  shows "take n buf = concat (map enc xs)"
  using cbb_run [OF writes_list [of xs 0] assms(2-6)] assms(1) by blast

end

locale cbb_codec = cbb_writer wr enc valid + prefix_codec enc dec valid
  for wr :: "allocator \<Rightarrow> nat \<Rightarrow> 'a \<Rightarrow> CBB \<Rightarrow> bool \<times> CBB" and enc valid dec
begin

text \<open>Built with a \<open>CBB\<close>, read back with a \<open>CBS\<close>.\<close>

lemma build_and_read:
  assumes "\<And>x. x \<in> set xs \<Longrightarrow> valid x" and "alloc_ok m" and "cap < 2 ^ 63"
    and "CBB_init m k cap = (True, s0)" and "write_list m 0 xs s0 = (True, s1)"
    and "CBB_finish m 0 True s1 = ((True, Some (buf, n)), s2)"
  shows "read_n (length xs) (take n buf) = (Some xs, [])"
  using run_list [OF assms] read_n_concat [OF assms(1), where rest = "[]"] by simp

end

end
