(* ===== verification/Qsort.thy ===== *)
theory Qsort
  imports Prelude "HOL-Library.Multiset"
begin

text \<open>
  libc's \<open>qsort\<close> and the interface of the three-way comparison functions it is called with. The
  standard fixes its result up to the order of elements that compare equal; the model sorts by
  insertion, and the locale \<open>comparator\<close> shows which properties hold of any sorted permutation.
\<close>

fun insert_by :: "('a \<Rightarrow> 'a \<Rightarrow> int) \<Rightarrow> 'a \<Rightarrow> 'a list \<Rightarrow> 'a list" where
  "insert_by cmp x [] = [x]"
| "insert_by cmp x (y # ys) = (if cmp x y \<le> 0 then x # y # ys else y # insert_by cmp x ys)"

fun qsort :: "('a \<Rightarrow> 'a \<Rightarrow> int) \<Rightarrow> 'a list \<Rightarrow> 'a list" where
  "qsort cmp [] = []"
| "qsort cmp (x # xs) = insert_by cmp x (qsort cmp xs)"

lemma mset_insert_by [simp]: "mset (insert_by cmp x ys) = add_mset x (mset ys)"
  by (induction ys) auto

lemma mset_qsort [simp]: "mset (qsort cmp xs) = mset xs"
  by (induction xs) auto

lemma length_qsort [simp]: "length (qsort cmp xs) = length xs"
  by (metis mset_qsort size_mset)

lemma set_qsort [simp]: "set (qsort cmp xs) = set xs"
  by (metis mset_qsort set_mset_mset)

locale comparator =
  fixes cmp :: "'a \<Rightarrow> 'a \<Rightarrow> int"
  assumes cmp_swap: "sgn (cmp x y) = - sgn (cmp y x)"
    and cmp_trans: "cmp x y \<le> 0 \<Longrightarrow> cmp y z \<le> 0 \<Longrightarrow> cmp x z \<le> 0"
begin

lemma cmp_refl: "cmp x x = 0"
  using cmp_swap [of x x] by (simp add: sgn_if split: if_splits)

lemma cmp_gt: "0 < cmp x y \<longleftrightarrow> cmp y x < 0"
  using cmp_swap [of x y] by (auto simp: sgn_if split: if_splits)

lemma cmp_eq: "cmp x y = 0 \<longleftrightarrow> cmp y x = 0"
  using cmp_swap [of x y] by (auto simp: sgn_if split: if_splits)

lemma cmp_total: "cmp x y \<le> 0 \<or> cmp y x \<le> 0"
  using cmp_gt [of x y] by linarith

definition ordered :: "'a list \<Rightarrow> bool" where
  "ordered xs \<longleftrightarrow> sorted_wrt (\<lambda>x y. cmp x y \<le> 0) xs"

lemma ordered_insert_by: "ordered ys \<Longrightarrow> ordered (insert_by cmp x ys)"
proof (induction ys)
  case (Cons y ys)
  have mem: "z \<in> set (insert_by cmp x ys) \<longleftrightarrow> z = x \<or> z \<in> set ys" for z
    by (metis insert_iff mset_insert_by set_mset_add_mset_insert set_mset_mset)
  show ?case
    using Cons cmp_total [of x y] mem by (auto simp: ordered_def intro: cmp_trans)
qed (simp add: ordered_def)

lemma ordered_qsort: "ordered (qsort cmp xs)"
  by (induction xs) (auto simp: ordered_def [of "[]"] intro: ordered_insert_by)

lemma qsort_ordered: "ordered xs \<Longrightarrow> qsort cmp xs = xs"
proof (induction xs)
  case (Cons x xs)
  then show ?case by (cases xs) (auto simp: ordered_def)
qed simp

lemma qsort_idem: "qsort cmp (qsort cmp xs) = qsort cmp xs"
  by (rule qsort_ordered) (rule ordered_qsort)

end

text \<open>When only equal elements compare equal, the sorted permutation is unique, so that it does not
  matter which sorting algorithm the library uses.\<close>

locale strict_comparator = comparator +
  assumes cmp_0: "cmp x y = 0 \<Longrightarrow> x = y"
begin

lemma ordered_unique: "ordered xs \<Longrightarrow> ordered ys \<Longrightarrow> mset xs = mset ys \<Longrightarrow> xs = ys"
proof (induction xs arbitrary: ys)
  case (Cons x xs)
  then obtain y ys' where ys: "ys = y # ys'" by (cases ys) auto
  have "x \<in> set ys" and "y \<in> set (x # xs)"
    using Cons.prems(3) ys by (metis list.set_intros(1) set_mset_mset)+
  then have "cmp y x \<le> 0" and "cmp x y \<le> 0"
    using Cons.prems(1,2) ys cmp_refl by (auto simp: ordered_def)
  then have "x = y" using cmp_swap [of x y] by (intro cmp_0) (simp add: sgn_if split: if_splits)
  then show ?case using Cons ys by (auto simp: ordered_def)
qed simp

lemma any_sort: "ordered ys \<Longrightarrow> mset ys = mset xs \<Longrightarrow> ys = qsort cmp xs"
  using ordered_unique [of ys "qsort cmp xs"] ordered_qsort by simp

end

end
