(* ===== verification/CbbAsn1.thy ===== *)
theory CbbAsn1
  imports CbbSpec Qsort
begin

text \<open>
  The ASN.1 writers of \<open>crypto/bytestring/cbb.c\<close> (INTEGER, BOOLEAN, OCTET STRING, OBJECT IDENTIFIER
  from text, SET OF), \<open>CBS_asn1_oid_to_text\<close> of \<open>cbs.c\<close> and \<open>CBB_finish_i2d\<close> of \<open>asn1_compat.c\<close>. The
  child \<open>CBB\<close> of a writer called at depth \<open>d\<close> is at depth \<open>d + 1\<close>.
\<close>

section \<open>Integers, booleans, octet strings\<close>

text \<open>The loop of \<open>CBB_add_asn1_uint64\<close>, for the \<open>n\<close> low bytes of the value; the result includes the
  flag \<open>started\<close>.\<close>

fun add_uint64_loop :: "allocator \<Rightarrow> nat \<Rightarrow> u64 \<Rightarrow> nat \<Rightarrow> bool \<Rightarrow> CBB \<Rightarrow> bool \<times> bool \<times> CBB" where
  "add_uint64_loop m d v 0 started s = (True, started, s)"
| "add_uint64_loop m d v (Suc n) started s =
     (let byte = ucast (drop_bit (8 * n) v) AND 0xff :: u8 in
      if \<not> started \<and> byte = 0 then add_uint64_loop m d v n started s
      else
        case (if \<not> started \<and> byte AND 0x80 \<noteq> 0 then CBB_add_u8 m d 0 s else (True, s)) of
          (False, s) \<Rightarrow> (False, started, s)
        | (True, s) \<Rightarrow>
            (case CBB_add_u8 m d byte s of
               (False, s) \<Rightarrow> (False, True, s)
             | (True, s) \<Rightarrow> add_uint64_loop m d v n True s))"

definition CBB_add_asn1_uint64 :: "allocator \<Rightarrow> nat \<Rightarrow> u64 \<Rightarrow> CBB \<Rightarrow> bool \<times> CBB" where
  "CBB_add_asn1_uint64 m d value =
     c_and (CBB_add_asn1 m d CBS_ASN1_INTEGER) (\<lambda>s.
       case add_uint64_loop m (Suc d) value 8 False s of
         (False, started, s) \<Rightarrow> (False, s)
       | (True, started, s) \<Rightarrow>
           c_and (\<lambda>s. if \<not> started then CBB_add_u8 m (Suc d) 0 s else (True, s)) (CBB_flush m d) s)"

text \<open>The bytes of the union, least significant first; \<open>start\<close> is the index of the first one written.\<close>

fun int64_start :: "u8 list \<Rightarrow> nat \<Rightarrow> nat" where
  "int64_start bytes 0 = 0"
| "int64_start bytes (Suc i) =
     (if bytes ! Suc i = 0xff \<and> bytes ! i AND 0x80 \<noteq> 0 then int64_start bytes i else Suc i)"

fun add_int64_loop :: "allocator \<Rightarrow> nat \<Rightarrow> u8 list \<Rightarrow> nat \<Rightarrow> CBB \<Rightarrow> bool \<times> CBB" where
  "add_int64_loop m d bytes 0 = CBB_add_u8 m d (bytes ! 0)"
| "add_int64_loop m d bytes (Suc i) = c_and (CBB_add_u8 m d (bytes ! Suc i)) (add_int64_loop m d bytes i)"

text \<open>The \<open>int64_t\<close> argument is the two's complement word \<open>value\<close>.\<close>

definition CBB_add_asn1_int64 :: "allocator \<Rightarrow> nat \<Rightarrow> u64 \<Rightarrow> CBB \<Rightarrow> bool \<times> CBB" where
  "CBB_add_asn1_int64 m d value =
     (if 0 \<le> sint value then CBB_add_asn1_uint64 m d value
      else
        let bytes = rev (be_bytes 8 (unat value)); start = int64_start bytes 7
        in c_and (CBB_add_asn1 m d CBS_ASN1_INTEGER)
             (c_and (add_int64_loop m (Suc d) bytes start) (CBB_flush m d)))"

definition CBB_add_asn1_octet_string :: "allocator \<Rightarrow> nat \<Rightarrow> u8 list \<Rightarrow> CBB \<Rightarrow> bool \<times> CBB" where
  "CBB_add_asn1_octet_string m d data =
     c_and (CBB_add_asn1 m d CBS_ASN1_OCTETSTRING) (c_and (CBB_add_bytes m (Suc d) data) (CBB_flush m d))"

definition CBB_add_asn1_bool :: "allocator \<Rightarrow> nat \<Rightarrow> int \<Rightarrow> CBB \<Rightarrow> bool \<times> CBB" where
  "CBB_add_asn1_bool m d value =
     c_and (CBB_add_asn1 m d CBS_ASN1_BOOLEAN)
       (c_and (CBB_add_u8 m (Suc d) (if value \<noteq> 0 then 0xff else 0)) (CBB_flush m d))"

section \<open>Object identifiers\<close>

text \<open>The loop of \<open>parse_dotted_decimal\<close>: \<open>None\<close> where it returns 0, otherwise the value and whether a
  digit was seen when the loop is left by \<open>break\<close>. \<open>46\<close> is the dot and \<open>48\<close> to \<open>57\<close> are the digits.\<close>

function parse_dotted_loop :: "u64 \<Rightarrow> bool \<Rightarrow> CBS \<Rightarrow> (u64 \<times> bool) option \<times> CBS" where
  "parse_dotted_loop out seen_digit cbs =
     (case CBS_get_u8 cbs of
        (None, cbs) \<Rightarrow> (Some (out, seen_digit), cbs)
      | (Some u, cbs) \<Rightarrow>
          if u = 46 \<and> CBS_len cbs > 0 then (Some (out, seen_digit), cbs)
          else if u < 48 \<or> u > 57 \<or> (seen_digit \<and> out = 0) \<or> out > - 1 div 10 \<or>
                  out * 10 > - 1 - (ucast u - 48)
          then (None, cbs)
          else parse_dotted_loop (out * 10 + (ucast u - 48)) True cbs)"
  by pat_completeness auto
termination
  by (relation "measure (\<lambda>(out, seen, cbs). length cbs)") (auto simp: consume dest!: sym [of "(_, _)"])

declare parse_dotted_loop.simps [simp del]

definition parse_dotted_decimal :: "CBS \<Rightarrow> u64 option \<times> CBS" where
  "parse_dotted_decimal cbs =
     (case parse_dotted_loop 0 False cbs of
        (None, cbs) \<Rightarrow> (None, cbs)
      | (Some (out, seen_digit), cbs) \<Rightarrow> (if seen_digit then Some out else None, cbs))"

lemma parse_dotted_loop_shorter:
  "parse_dotted_loop out seen cbs = (Some r, cbs') \<Longrightarrow> length cbs' < length cbs \<or> cbs = [] \<and> cbs' = []"
proof (induction out seen cbs rule: parse_dotted_loop.induct)
  case (1 out seen cbs)
  show ?case
  proof (cases cbs)
    case Nil
    then show ?thesis using 1(2) by (simp add: parse_dotted_loop.simps)
  next
    case (Cons u bs)
    then show ?thesis using 1 by (subst (asm) (2) parse_dotted_loop.simps) (fastforce split: if_splits)
  qed
qed

lemma parse_dotted_decimal_shorter:
  "parse_dotted_decimal cbs = (Some v, cbs') \<Longrightarrow> length cbs' < length cbs \<or> cbs = []"
  by (auto simp: parse_dotted_decimal_def split: option.splits prod.splits if_splits
      dest!: parse_dotted_loop_shorter)

text \<open>The loop over the remaining components.\<close>

function oid_from_text_loop :: "allocator \<Rightarrow> nat \<Rightarrow> CBS \<Rightarrow> CBB \<Rightarrow> bool \<times> CBB" where
  "oid_from_text_loop m d cbs s =
     (if CBS_len cbs > 0
      then case parse_dotted_decimal cbs of
             (None, _) \<Rightarrow> (False, s)
           | (Some a, cbs) \<Rightarrow>
               (case add_base128_integer m d a s of
                  (False, s) \<Rightarrow> (False, s)
                | (True, s) \<Rightarrow> oid_from_text_loop m d cbs s)
      else (True, s))"
  by pat_completeness auto
termination
  by (relation "measure (\<lambda>(m, d, cbs, s). length cbs)")
    (auto simp: CBS_len_def dest!: sym [of "(Some _, _)"] parse_dotted_decimal_shorter)

declare oid_from_text_loop.simps [simp del]

definition CBB_add_asn1_oid_from_text :: "allocator \<Rightarrow> nat \<Rightarrow> u8 list \<Rightarrow> nat \<Rightarrow> CBB \<Rightarrow> bool \<times> CBB" where
  "CBB_add_asn1_oid_from_text m d str len =
     c_and (CBB_flush m d) (\<lambda>s.
       case parse_dotted_decimal (CBS_init str len) of
         (None, _) \<Rightarrow> (False, s)
       | (Some a, cbs) \<Rightarrow>
           (case parse_dotted_decimal cbs of
              (None, _) \<Rightarrow> (False, s)
            | (Some b, cbs) \<Rightarrow>
                if a > 2 \<or> (a < 2 \<and> b > 39) \<or> b > - 1 - 80 then (False, s)
                else c_and (add_base128_integer m d (40 * a + b)) (oid_from_text_loop m d cbs) s))"

text \<open>The decimal digits that \<open>snprintf\<close> prints for an unsigned integer.\<close>

fun decimal :: "nat \<Rightarrow> u8 list" where
  "decimal n = (if n < 10 then [of_nat (48 + n)] else decimal (n div 10) @ [of_nat (48 + n mod 10)])"

declare decimal.simps [simp del]

definition add_decimal :: "allocator \<Rightarrow> nat \<Rightarrow> u64 \<Rightarrow> CBB \<Rightarrow> bool \<times> CBB" where
  "add_decimal m d v = CBB_add_bytes m d (decimal (unat v))"

lemma parse_base128_loop_shorter:
  "parse_base128_loop v cbs = (Some w, cbs') \<Longrightarrow> length cbs' < length cbs"
  by (induction cbs arbitrary: v) (auto simp: parse_base128_loop_Cons Let_def less_Suc_eq split: if_splits)

function oid_to_text_loop :: "allocator \<Rightarrow> CBS \<Rightarrow> CBB \<Rightarrow> bool \<times> CBB" where
  "oid_to_text_loop m copy s =
     (if CBS_len copy \<noteq> 0
      then case parse_base128_integer copy of
             (None, _) \<Rightarrow> (False, s)
           | (Some v, copy) \<Rightarrow>
               (case c_and (CBB_add_u8 m 0 46) (add_decimal m 0 v) s of
                  (False, s) \<Rightarrow> (False, s)
                | (True, s) \<Rightarrow> oid_to_text_loop m copy s)
      else (True, s))"
  by pat_completeness auto
termination
  by (relation "measure (\<lambda>(m, copy, s). length copy)")
    (auto simp: parse_base128_integer_def dest!: sym [of "(Some _, _)"] parse_base128_loop_shorter)

declare oid_to_text_loop.simps [simp del]

text \<open>Everything between \<open>CBB_init\<close> and \<open>CBB_finish\<close>.\<close>

definition oid_to_text_body :: "allocator \<Rightarrow> CBS \<Rightarrow> CBB \<Rightarrow> bool \<times> CBB" where
  "oid_to_text_body m cbs s =
     (case parse_base128_integer cbs of
        (None, _) \<Rightarrow> (False, s)
      | (Some v, copy) \<Rightarrow>
          c_and
            (if v \<ge> 80 then c_and (CBB_add_bytes m 0 [50, 46]) (add_decimal m 0 (v - 80))
             else c_and (add_decimal m 0 (v div 40)) (c_and (CBB_add_u8 m 0 46) (add_decimal m 0 (v mod 40))))
            (c_and (oid_to_text_loop m copy) (CBB_add_u8 m 0 0)) s)"

text \<open>The result is the block that holds the NUL-terminated text, with the number of allocations made.\<close>

definition CBS_asn1_oid_to_text :: "allocator \<Rightarrow> nat \<Rightarrow> CBS \<Rightarrow> u8 list option \<times> nat" where
  "CBS_asn1_oid_to_text m k cbs =
     (case CBB_init m k 32 of
        (False, s) \<Rightarrow> (None, cbb_allocs s)
      | (True, s) \<Rightarrow>
          (case oid_to_text_body m cbs s of
             (False, s) \<Rightarrow> (None, cbb_allocs s)
           | (True, s) \<Rightarrow>
               (case CBB_finish m 0 True s of
                  ((True, Some (txt, txt_len)), s) \<Rightarrow> (Some txt, cbb_allocs s)
                | (_, s) \<Rightarrow> (None, cbb_allocs s))))"

section \<open>SET OF\<close>

definition compare_set_of_element :: "CBS \<Rightarrow> CBS \<Rightarrow> int" where
  "compare_set_of_element a b =
     (let a_len = CBS_len a; b_len = CBS_len b;
          min_len = (if a_len < b_len then a_len else b_len);
          ret = OPENSSL_memcmp (CBS_data a) (CBS_data b) min_len
      in if ret \<noteq> 0 then ret
         else if a_len = b_len then 0
         else if a_len < b_len then - 1 else 1)"

lemma get_any_element_shorter:
  "CBS_get_any_asn1_element cbs = (Some e, cbs') \<Longrightarrow> length cbs' < length cbs"
proof -
  assume e: "CBS_get_any_asn1_element cbs = (Some e, cbs')"
  obtain out tag hl where e': "e = (out, tag, hl)" by (cases e)
  from get_any_element_dec [OF e [unfolded e']]
  obtain c where "cbs = der_element tag c @ cbs'" by blast
  then show "length cbs' < length cbs" using length_der_tag [of tag] by (auto simp: der_element_def)
qed

text \<open>The counting loop and the parsing loop.\<close>

function set_of_count :: "CBS \<Rightarrow> nat option" where
  "set_of_count cbs =
     (if CBS_len cbs \<noteq> 0
      then case CBS_get_any_asn1_element cbs of
             (None, _) \<Rightarrow> None
           | (Some _, cbs) \<Rightarrow> map_option Suc (set_of_count cbs)
      else Some 0)"
  by pat_completeness auto
termination
  by (relation "measure length") (auto dest!: sym [of "(Some _, _)"] get_any_element_shorter)

declare set_of_count.simps [simp del]

fun set_of_children :: "nat \<Rightarrow> CBS \<Rightarrow> CBS list option" where
  "set_of_children 0 cbs = Some []"
| "set_of_children (Suc n) cbs =
     (case CBS_get_any_asn1_element cbs of
        (None, _) \<Rightarrow> None
      | (Some (child, _, _), cbs) \<Rightarrow> map_option ((#) child) (set_of_children n cbs))"

fun add_all_bytes :: "allocator \<Rightarrow> nat \<Rightarrow> CBS list \<Rightarrow> CBB \<Rightarrow> bool \<times> CBB" where
  "add_all_bytes m d [] s = (True, s)"
| "add_all_bytes m d (c # cs) s = c_and (CBB_add_bytes m d c) (add_all_bytes m d cs) s"

definition sizeof_CBS :: nat where
  "sizeof_CBS = 16"

definition CBB_flush_asn1_set_of :: "allocator \<Rightarrow> nat \<Rightarrow> CBB \<Rightarrow> bool \<times> CBB" where
  "CBB_flush_asn1_set_of m d s =
     (case CBB_flush m d s of
        (False, s) \<Rightarrow> (False, s)
      | (True, s) \<Rightarrow>
          (case set_of_count (CBS_init (CBB_data d s) (CBB_len d s)) of
             None \<Rightarrow> (False, s)
           | Some num_children \<Rightarrow>
               if num_children < 2 then (True, s)
               else if num_children > (2 ^ 64 - 1) div sizeof_CBS then (False, s)
               else
                 let buf_len = CBB_len d s in
                 case OPENSSL_memdup m (cbb_allocs s) (CBB_data d s) buf_len of
                   (buf, k) \<Rightarrow>
                     (case OPENSSL_malloc m k (num_children * sizeof_CBS) of
                        (children, k) \<Rightarrow>
                          let s = s\<lparr>cbb_allocs := k\<rparr> in
                          (case (buf, children) of
                             (Some buf, Some _) \<Rightarrow>
                               (case set_of_children num_children (CBS_init buf buf_len) of
                                  None \<Rightarrow> (False, s)
                                | Some cs \<Rightarrow>
                                    add_all_bytes m d (qsort compare_set_of_element cs)
                                      (s\<lparr>cbb_base := map_option (\<lambda>b. b\<lparr>cb_len := cbb_start d s\<rparr>) (cbb_base s)\<rparr>))
                           | _ \<Rightarrow> (False, s)))))"

section \<open>\<open>i2d\<close> functions\<close>

text \<open>\<open>CBB_finish_i2d\<close> (\<open>asn1_compat.c\<close>): \<open>outp\<close> is \<open>None\<close> for a NULL argument, otherwise what it points
  to (\<open>None\<close> for a NULL buffer, to be replaced by the new one; otherwise the caller's buffer from the
  current position on). The results are the returned length or -1, the block handed to the caller and
  the caller's buffer, with the number of bytes its pointer advances.\<close>

definition CBB_finish_i2d ::
  "allocator \<Rightarrow> CBB \<Rightarrow> u8 list option option \<Rightarrow> (int \<times> u8 list option \<times> (u8 list \<times> nat) option) \<times> CBB" where
  "CBB_finish_i2d m s outp =
     (case CBB_finish m 0 True s of
        ((True, Some (der, n)), s) \<Rightarrow>
          if n > 2 ^ 31 - 1 then ((- 1, None, None), s)
          else
            (case outp of
               None \<Rightarrow> ((int n, None, None), s)
             | Some None \<Rightarrow> ((int n, Some der, None), s)
             | Some (Some out) \<Rightarrow> ((int n, None, Some (overwrite 0 (take n der) out, n)), s))
      | (_, s) \<Rightarrow> ((- 1, None, None), CBB_cleanup 0 s))"

end
