(* ===== verification/DerInt.thy ===== *)
theory DerInt
  imports CbbAsn1
begin

text \<open>
  DER INTEGERs: the minimal two's complement octets of an integer (\<open>der_int\<close>), the proof that the
  readers \<open>CBS_get_asn1_uint64\<close> and \<open>CBS_get_asn1_int64\<close> accept exactly them, and that the writers
  \<open>CBB_add_asn1_uint64\<close> and \<open>CBB_add_asn1_int64\<close> produce them.
\<close>

section \<open>Minimal two's complement octets\<close>

definition sbe :: "u8 list \<Rightarrow> int" where
  "sbe c = int (be_val c) - (if c \<noteq> [] \<and> 128 \<le> uint (hd c) then 256 ^ length c else 0)"

definition minimal :: "u8 list \<Rightarrow> bool" where
  "minimal c \<longleftrightarrow> c \<noteq> [] \<and>
     \<not> (1 < length c \<and> uint (c ! 0) = 0 \<and> uint (c ! 1) < 128) \<and>
     \<not> (1 < length c \<and> uint (c ! 0) = 255 \<and> 128 \<le> uint (c ! 1))"

function der_int :: "int \<Rightarrow> u8 list" where
  "der_int v = (if - 128 \<le> v \<and> v < 128 then [of_int v] else der_int (v div 256) @ [of_int v])"
  by pat_completeness auto
termination
proof (relation "measure (\<lambda>v. nat \<bar>v\<bar>)")
  fix v :: int assume "\<not> (- 128 \<le> v \<and> v < 128)"
  then have "\<bar>v div 256\<bar> < \<bar>v\<bar>" by linarith
  then show "(v div 256, v) \<in> measure (\<lambda>v. nat \<bar>v\<bar>)" by simp
qed simp

declare der_int.simps [simp del]

lemma der_int_big: "\<not> (- 128 \<le> v \<and> v < 128) \<Longrightarrow> der_int v = der_int (v div 256) @ [of_int v]"
  by (subst der_int.simps) (rule if_not_P)

lemma uint_of_int_u8: "uint (of_int v :: u8) = v mod 256"
  by (simp add: unsigned_of_int take_bit_eq_mod)

lemma uint_u8: "0 \<le> uint (b :: u8) \<and> uint b \<le> 255"
  using uint_lt2p [of b] by simp

lemma uint_u8_neg [simp]: "- numeral n \<le> uint (b :: u8)"
  by (rule order_trans [of _ 0]) simp_all

lemma uint_u8_mod [simp]: "uint (b :: u8) mod 256 = uint b"
  using uint_u8 [of b] by simp

lemma sbe_single: "sbe [b] = (if uint b < 128 then uint b else uint b - 256)"
  by (simp add: sbe_def)

lemma sbe_snoc: "c \<noteq> [] \<Longrightarrow> sbe (c @ [b]) = sbe c * 256 + uint b"
  by (simp add: sbe_def algebra_simps)

lemma sbe_range: "c \<noteq> [] \<Longrightarrow> - (128 * 256 ^ (length c - 1)) \<le> sbe c \<and> sbe c < 128 * 256 ^ (length c - 1)"
proof (induction c rule: rev_induct)
  case (snoc b c)
  show ?case
  proof (cases "c = []")
    case True
    then show ?thesis using uint_u8 [of b] by (simp add: sbe_single)
  next
    case False
    let ?p = "128 * 256 ^ (length c - 1) :: int"
    have p: "128 * 256 ^ (length (c @ [b]) - 1) = ?p * 256"
      using False by (cases "length c") simp_all
    have "- ?p \<le> sbe c" "sbe c + 1 \<le> ?p" using snoc False by auto
    moreover have "0 \<le> uint b" "uint b \<le> 255" using uint_u8 [of b] by blast+
    ultimately show ?thesis unfolding p sbe_snoc [OF False] by linarith
  qed
qed simp

lemma minimal_snoc:
  assumes "2 \<le> length c"
  shows "minimal (c @ [b]) \<longleftrightarrow> minimal c"
  using assms by (cases c; cases "tl c") (auto simp: minimal_def nth_append)

lemma sbe_pair: "sbe [a, b] = sbe [a] * 256 + uint b"
  using sbe_snoc [of "[a]" b] by simp

lemma minimal_pair: "minimal [a, b] \<longleftrightarrow> \<not> (- 128 \<le> sbe [a, b] \<and> sbe [a, b] < 128)"
proof -
  have "\<not> (x = 0 \<and> y < 128) \<and> \<not> (x = 255 \<and> 128 \<le> y) \<longleftrightarrow>
      \<not> (- 128 \<le> (if x < 128 then x else x - 256) * 256 + y \<and> (if x < 128 then x else x - 256) * 256 + y < 128)"
    if "0 \<le> x" "x \<le> 255" "0 \<le> y" "y \<le> 255" for x y :: int
    using that by (cases "x < 128") auto
  from this [of "uint a" "uint b"] uint_u8 [of a] uint_u8 [of b] show ?thesis
    by (simp only: sbe_pair sbe_single) (simp add: minimal_def)
qed

text \<open>Longer minimal encodings are of numbers that need them.\<close>

lemma minimal_large:
  "2 \<le> length c \<Longrightarrow> minimal c \<Longrightarrow> \<not> (- 128 \<le> sbe c \<and> sbe c < 128)"
proof (induction c rule: rev_induct)
  case (snoc b c)
  show ?case
  proof (cases "length c = 1")
    case True
    then obtain a where "c = [a]" by (metis One_nat_def length_0_conv length_Suc_conv)
    then show ?thesis using snoc.prems minimal_pair by simp
  next
    case False
    then have len: "2 \<le> length c" using snoc.prems by simp
    then have "\<not> (- 128 \<le> sbe c \<and> sbe c < 128)" using snoc minimal_snoc by blast
    moreover have "c \<noteq> []" using len by auto
    ultimately show ?thesis using uint_u8 [of b] unfolding sbe_snoc [OF \<open>c \<noteq> []\<close>] by linarith
  qed
qed simp

lemma of_int_uint_u8: "(of_int (x * 256 + uint (b :: u8)) :: u8) = b"
  by (rule word_uint_eq_iff [THEN iffD2]) (simp only: uint_of_int_u8, simp)

lemma der_int_sbe: "minimal c \<Longrightarrow> der_int (sbe c) = c"
proof (induction c rule: rev_induct)
  case (snoc b c)
  show ?case
  proof (cases "c = []")
    case True
    have "- 128 \<le> sbe [b] \<and> sbe [b] < 128" using uint_u8 [of b] by (simp add: sbe_single)
    moreover have "(of_int (sbe [b]) :: u8) = b"
      using of_int_uint_u8 [of 0 b] of_int_uint_u8 [of "-1" b] by (auto simp: sbe_single)
    ultimately show ?thesis using True by (simp add: der_int.simps)
  next
    case False
    then have len: "2 \<le> length (c @ [b])" by (cases c) auto
    have "minimal c"
    proof (cases "length c = 1")
      case True
      then show ?thesis using False by (simp add: minimal_def)
    next
      case nl: False
      then have "2 \<le> length c" using False by (cases "length c") auto
      then show ?thesis using snoc.prems minimal_snoc by blast
    qed
    then have IH: "der_int (sbe c) = c" by (rule snoc.IH)
    have big: "\<not> (- 128 \<le> sbe (c @ [b]) \<and> sbe (c @ [b]) < 128)" using minimal_large [OF len snoc.prems] .
    have "sbe (c @ [b]) div 256 = sbe c" using uint_u8 [of b] by (simp add: sbe_snoc [OF False])
    moreover have "(of_int (sbe (c @ [b])) :: u8) = b" by (simp only: sbe_snoc [OF False] of_int_uint_u8)
    ultimately show ?thesis using der_int_big [OF big] IH by simp
  qed
qed (simp add: minimal_def)

lemma sbe_der_int: "sbe (der_int v) = v \<and> minimal (der_int v)"
proof (induction v rule: der_int.induct)
  case (1 v)
  show ?case
  proof (cases "- 128 \<le> v \<and> v < 128")
    case True
    have u: "uint (of_int v :: u8) = v mod 256" by (rule uint_of_int_u8)
    have "v mod 256 = (if 0 \<le> v then v else v + 256)"
    proof (cases "0 \<le> v")
      case False
      have "v mod 256 = (v + 256) mod 256" by simp
      also have "\<dots> = v + 256" using True False by (intro mod_pos_pos_trivial) auto
      finally show ?thesis using False by simp
    qed (use True in simp)
    then have "sbe [of_int v] = v" using True u by (auto simp: sbe_single split: if_splits)
    then show ?thesis using True by (simp add: der_int.simps minimal_def)
  next
    case False
    let ?c = "der_int (v div 256)" and ?b = "of_int v :: u8"
    have IH: "sbe ?c = v div 256" "minimal ?c" using 1 False by auto
    then have ne: "?c \<noteq> []" by (simp add: minimal_def)
    have val: "sbe (?c @ [?b]) = v" using IH(1) by (simp only: sbe_snoc [OF ne] uint_of_int_u8) simp
    have "minimal (?c @ [?b])"
    proof (cases "2 \<le> length ?c")
      case True
      then show ?thesis using IH(2) minimal_snoc by blast
    next
      case nl: False
      then obtain a where "?c = [a]" using ne by (cases ?c) (auto simp: not_le)
      then show ?thesis using val False minimal_pair by simp
    qed
    then show ?thesis using val by (simp add: der_int_big [OF False])
  qed
qed

lemma der_int_iff: "der_int v = c \<longleftrightarrow> minimal c \<and> sbe c = v"
  using der_int_sbe sbe_der_int by blast

lemma length_der_int: "length (der_int v) \<le> Suc k \<longleftrightarrow> - (128 * 256 ^ k) \<le> v \<and> v < 128 * 256 ^ k"
proof (induction k arbitrary: v)
  case 0
  have "der_int x \<noteq> []" for x using sbe_der_int [of x] by (auto simp: minimal_def)
  then show ?case by (subst der_int.simps) auto
next
  case (Suc k)
  show ?case
  proof (cases "- 128 \<le> v \<and> v < 128")
    case True
    have "(1 :: int) \<le> 256 ^ Suc k" by (rule one_le_power) simp
    then have "128 \<le> 128 * (256 :: int) ^ Suc k" by linarith
    then show ?thesis using True by (subst der_int.simps) auto
  next
    case False
    have "- (128 * 256 ^ k) \<le> v div 256 \<and> v div 256 < 128 * 256 ^ k \<longleftrightarrow>
        - (128 * 256 ^ Suc k) \<le> v \<and> v < 128 * 256 ^ Suc k"
      by (simp add: algebra_simps) linarith
    then show ?thesis using Suc [of "v div 256"] by (simp add: der_int_big [OF False])
  qed
qed


section \<open>The readers\<close>

text \<open>What \<open>CBS_get_asn1_uint64\<close> and \<open>CBS_get_asn1_int64\<close> do with the contents of the element.\<close>

definition uint64_contents :: "u8 list \<Rightarrow> u64 option" where
  "uint64_contents c =
     (if minimal c \<and> \<not> 128 \<le> uint (c ! 0) then asn1_uint64_loop 0 c else None)"

definition int64_contents :: "u8 list \<Rightarrow> u64 option" where
  "int64_contents c =
     (if minimal c \<and> length c \<le> 8
      then Some (of_nat (be_val (replicate (8 - length c) (if 128 \<le> uint (c ! 0) then 0xff else 0) @ c)))
      else None)"

lemma and_0x80_uint: "(b :: u8) AND 0x80 = 0 \<longleftrightarrow> uint b < 128"
  unfolding and_0x80_eq_0 uint_nat by linarith

lemma get_asn1_uint64_eq:
  "CBS_get_asn1_uint64 cbs =
     (case CBS_get_asn1 cbs CBS_ASN1_INTEGER of (None, r) \<Rightarrow> (None, r) | (Some c, r) \<Rightarrow> (uint64_contents c, r))"
proof (cases "CBS_get_asn1 cbs CBS_ASN1_INTEGER")
  case (Pair q r)
  show ?thesis
  proof (cases q)
    case (Some c)
    have u0: "c ! 0 = 0 \<longleftrightarrow> uint (c ! 0) = 0" by (simp add: word_uint_eq_iff)
    show ?thesis
      using uint_u8 [of "c ! 0"]
      by (auto simp: CBS_get_asn1_uint64_def Pair Some uint64_contents_def minimal_def CBS_len_def CBS_data_def
          and_0x80_uint u0 Let_def)
  qed (simp add: CBS_get_asn1_uint64_def Pair)
qed

lemma fold_update:
  "n \<le> length u \<Longrightarrow> fold (\<lambda>i u. u[i := f i]) [0..<n] u = map f [0..<n] @ drop n u"
proof (induction n)
  case (Suc n)
  then have "fold (\<lambda>i u. u[i := f i]) [0..<Suc n] u = (map f [0..<n] @ drop n u)[n := f n]" by simp
  also have "\<dots> = map f [0..<n] @ f n # drop (Suc n) u"
    using Suc.prems by (simp add: list_update_append flip: Cons_nth_drop_Suc)
  finally show ?case by simp
qed simp

lemma get_asn1_int64_eq:
  "CBS_get_asn1_int64 cbs =
     (case CBS_get_asn1 cbs CBS_ASN1_INTEGER of (None, r) \<Rightarrow> (None, r) | (Some c, r) \<Rightarrow> (int64_contents c, r))"
proof (cases "CBS_get_asn1 cbs CBS_ASN1_INTEGER")
  case (Pair q r)
  show ?thesis
  proof (cases q)
    case (Some c)
    have u0: "c ! 0 = 0 \<longleftrightarrow> uint (c ! 0) = 0" and uff: "c ! 0 = 0xff \<longleftrightarrow> uint (c ! 0) = 255"
      by (simp_all add: word_uint_eq_iff)
    have bit: "d AND 0x80 = 0 \<longleftrightarrow> \<not> 128 \<le> uint d" for d :: u8
      using and_0x80_uint [of d] by linarith
    have rv: "map (\<lambda>i. c ! (length c - i - 1)) [0..<length c] = rev c"
      by (rule nth_equalityI) (simp_all add: rev_nth)
    have fold: "fold (\<lambda>i u. u[i := c ! (length c - i - 1)]) [0..<length c] (replicate 8 x) = rev c @ replicate (8 - length c) x"
      if "length c \<le> 8" for x
      using fold_update [of "length c" "replicate 8 x" "\<lambda>i. c ! (length c - i - 1)"] that rv by simp
    have eq: "CBS_get_asn1_int64 cbs =
       (if length c = 0 \<or> length c > 8 then (None, r)
        else if length c > 1 \<and> c ! 0 = 0 \<and> c ! 1 AND 0x80 = 0 then (None, r)
        else if length c > 1 \<and> c ! 0 = 0xff \<and> c ! 1 AND 0x80 \<noteq> 0 then (None, r)
        else (Some (of_nat (be_val (rev (fold (\<lambda>i u. u[i := c ! (length c - i - 1)]) [0..<length c]
                (replicate 8 (if c ! 0 AND 0x80 \<noteq> 0 then 0xff else 0)))))), r))"
      by (simp add: CBS_get_asn1_int64_def Pair Some CBS_len_def CBS_data_def Let_def)
    show ?thesis
    proof (cases "length c \<le> 8")
      case True
      then have gt: "\<not> length c > 8" by simp
      show ?thesis
        unfolding eq Pair Some int64_contents_def minimal_def fold [OF True] u0 uff bit
        using gt by (auto simp del: One_nat_def)
    next
      case False
      then show ?thesis unfolding eq Pair Some int64_contents_def by simp
    qed
  qed (simp add: CBS_get_asn1_int64_def Pair)
qed

lemma asn1_uint64_loop_eq:
  "asn1_uint64_loop out c =
     (if unat out * 256 ^ length c + be_val c < 2 ^ 64 then Some (of_nat (unat out * 256 ^ length c + be_val c)) else None)"
proof (induction c arbitrary: out)
  case Nil
  show ?case using unsigned_less [of out, where 'a = nat] by simp
next
  case (Cons b c)
  have val: "unat out * 256 ^ length (b # c) + be_val (b # c) = (unat out * 256 + unat b) * 256 ^ length c + be_val c"
    by (simp add: be_val_Cons algebra_simps)
  show ?case
  proof (cases "unat out < 2 ^ 56")
    case True
    have "unat (push_bit 8 out OR ucast b) = unat out * 256 + unat b"
      using unat_push_or [of "ucast b :: u64" 8 out] True by simp
    moreover have "drop_bit 56 out = 0" using True by (simp only: drop_bit_eq_0_iff)
    ultimately show ?thesis by (simp only: asn1_uint64_loop.simps Cons.IH val) simp
  next
    case False
    have "(2 :: nat) ^ 64 \<le> unat out * 256" using False by simp
    also have "\<dots> \<le> (unat out * 256 + unat b) * 1" by simp
    also have "\<dots> \<le> (unat out * 256 + unat b) * 256 ^ length c" by (rule mult_le_mono2) simp
    also have "\<dots> \<le> (unat out * 256 + unat b) * 256 ^ length c + be_val c" by simp
    finally have "\<not> (unat out * 256 + unat b) * 256 ^ length c + be_val c < 2 ^ 64" by linarith
    moreover have "drop_bit 56 out \<noteq> 0" using False by (simp only: drop_bit_eq_0_iff) simp
    ultimately show ?thesis by (simp only: asn1_uint64_loop.simps val) simp
  qed
qed

lemma sbe_nonneg: "c \<noteq> [] \<Longrightarrow> \<not> 128 \<le> uint (c ! 0) \<Longrightarrow> sbe c = int (be_val c)"
  by (simp add: sbe_def hd_conv_nth)

lemma sbe_neg: "c \<noteq> [] \<Longrightarrow> 128 \<le> uint (c ! 0) \<Longrightarrow> sbe c = int (be_val c) - 256 ^ length c \<and> sbe c < 0"
proof -
  assume c: "c \<noteq> []" "128 \<le> uint (c ! 0)"
  have "int (be_val c) < int (256 ^ length c)" using be_val_bound [of c] by (simp only: of_nat_less_iff)
  then show ?thesis using c by (simp add: sbe_def hd_conv_nth)
qed

lemma uint64_contents_iff: "uint64_contents c = Some w \<longleftrightarrow> c = der_int (uint w)"
proof
  assume a: "uint64_contents c = Some w"
  then have c: "minimal c" "\<not> 128 \<le> uint (c ! 0)" and v: "be_val c < 2 ^ 64" "w = of_nat (be_val c)"
    by (auto simp: uint64_contents_def asn1_uint64_loop_eq split: if_splits)
  have "sbe c = int (be_val c)" using c sbe_nonneg by (auto simp: minimal_def)
  moreover have "uint w = int (be_val c)" using v by (simp add: unsigned_of_nat take_bit_eq_mod)
  ultimately show "c = der_int (uint w)" using c(1) der_int_iff by metis
next
  assume c: "c = der_int (uint w)"
  then have m: "minimal c" "sbe c = uint w" using sbe_der_int by auto
  then have ne: "c \<noteq> []" by (simp add: minimal_def)
  then have hd: "\<not> 128 \<le> uint (c ! 0)" using sbe_neg m(2) uint_ge_0 [of w] by fastforce
  then have v: "int (be_val c) = uint w" using sbe_nonneg ne m(2) by simp
  then have "be_val c = unat w" by (metis nat_int unat_eq_nat_uint)
  then have "asn1_uint64_loop 0 c = Some w"
    using unsigned_less [of w, where 'a = nat] by (simp add: asn1_uint64_loop_eq)
  then show "uint64_contents c = Some w"
    unfolding uint64_contents_def using m(1) hd by (simp only: simp_thms if_True)
qed

lemma be_val_replicate_ff: "int (be_val (replicate n 0xff @ c)) = (256 ^ n - 1) * 256 ^ length c + int (be_val c)"
proof (induction n)
  case (Suc n)
  have "be_val (replicate (Suc n) 0xff @ c) = 255 * 256 ^ (n + length c) + be_val (replicate n 0xff @ c)"
    by (simp add: be_val_Cons)
  then have "int (be_val (replicate (Suc n) 0xff @ c)) = 255 * 256 ^ (n + length c) + int (be_val (replicate n 0xff @ c))"
    by (simp only: of_nat_add of_nat_mult of_nat_power of_nat_numeral)
  then show ?case by (simp only: Suc.IH) (simp add: power_add algebra_simps)
qed simp

lemma be_val_replicate_0: "be_val (replicate n 0 @ c) = be_val c"
  by (induction n) (simp_all add: be_val_Cons)

lemma int64_contents_eq:
  "int64_contents c = (if minimal c \<and> length c \<le> 8 then Some (of_int (sbe c)) else None)"
proof (cases "minimal c \<and> length c \<le> 8")
  case True
  then have ne: "c \<noteq> []" by (simp add: minimal_def)
  show ?thesis
  proof (cases "128 \<le> uint (c ! 0)")
    case False
    then show ?thesis using True sbe_nonneg [OF ne] by (simp add: int64_contents_def be_val_replicate_0)
  next
    case neg: True
    have p: "(256 :: int) ^ (8 - length c) * 256 ^ length c = 2 ^ 64"
    proof -
      have "(256 :: int) ^ (8 - length c) * 256 ^ length c = 256 ^ (8 - length c + length c)" by (rule power_add [symmetric])
      then show ?thesis using True by simp
    qed
    have "int (be_val (replicate (8 - length c) 0xff @ c)) = 2 ^ 64 + sbe c"
      using sbe_neg [OF ne neg] p by (simp add: be_val_replicate_ff algebra_simps)
    then have "(of_nat (be_val (replicate (8 - length c) 0xff @ c)) :: u64) = of_int (2 ^ 64 + sbe c)"
      by (metis of_int_of_nat_eq)
    then show ?thesis using True neg by (simp add: int64_contents_def)
  qed
next
  case False
  then show ?thesis by (simp only: int64_contents_def if_False)
qed

lemma sint_64_range: "- (128 * 256 ^ 7) \<le> sint (w :: u64) \<and> sint w < 128 * 256 ^ 7"
  using sint_greater_eq [of w] sint_less [of w] by simp

lemma int64_contents_iff: "int64_contents c = Some w \<longleftrightarrow> c = der_int (sint w)"
proof
  assume "int64_contents c = Some w"
  then have c: "minimal c" "length c \<le> 8" and w: "w = of_int (sbe c)"
    by (auto simp: int64_contents_eq split: if_splits)
  have "(256 :: int) ^ (length c - 1) \<le> 256 ^ 7" using c(2) by (intro power_increasing) auto
  then have "- (2 ^ 63) \<le> sbe c" "sbe c < 2 ^ 63" using sbe_range [of c] c(1) by (auto simp: minimal_def)
  then have "sint w = sbe c" by (simp add: w signed_of_int signed_take_bit_int_eq_self)
  then show "c = der_int (sint w)" using c(1) der_int_iff by metis
next
  assume c: "c = der_int (sint w)"
  then have "length c \<le> Suc 7" using length_der_int sint_64_range [of w] by blast
  then show "int64_contents c = Some w" using sbe_der_int [of "sint w"] c by (simp add: int64_contents_eq)
qed

lemma length_der_int_64: "length (der_int (uint (w :: u64))) \<le> 9" "length (der_int (sint (w :: u64))) \<le> 8"
proof -
  have "- (128 * 256 ^ 8) \<le> uint w" by (rule order_trans [OF _ uint_ge_0]) simp
  moreover have "uint w < 128 * 256 ^ 8" by (rule order.strict_trans2 [OF uint_lt2p]) simp
  ultimately have "length (der_int (uint w)) \<le> Suc 8" by (simp only: length_der_int simp_thms)
  then show "length (der_int (uint w)) \<le> 9" by simp
  have "length (der_int (sint w)) \<le> Suc 7" using sint_64_range [of w] by (subst length_der_int) simp
  then show "length (der_int (sint w)) \<le> 8" by simp
qed

text \<open>Unsigned and signed 64-bit INTEGERs have one encoding each, which the readers accept.\<close>

definition der_uint64 :: "u64 \<Rightarrow> u8 list" where
  "der_uint64 w = der_element CBS_ASN1_INTEGER (der_int (uint w))"

definition der_int64 :: "u64 \<Rightarrow> u8 list" where
  "der_int64 w = der_element CBS_ASN1_INTEGER (der_int (sint w))"

interpretation asn1_uint64: strict_codec der_uint64 CBS_get_asn1_uint64 "\<lambda>_. True"
proof unfold_locales
  fix x rest show "CBS_get_asn1_uint64 (der_uint64 x @ rest) = (Some x, rest)"
    using length_der_int_64(1) [of x] uint64_contents_iff [of "der_int (uint x)" x]
    by (simp add: get_asn1_uint64_eq der_uint64_def)
next
  fix bs :: "u8 list" and x rest assume "CBS_get_asn1_uint64 bs = (Some x, rest)"
  then show "True \<and> bs = der_uint64 x @ rest"
    by (auto simp: get_asn1_uint64_eq der_uint64_def uint64_contents_iff get_asn1_iff
        split: option.splits prod.splits)
qed

interpretation asn1_int64: strict_codec der_int64 CBS_get_asn1_int64 "\<lambda>_. True"
proof unfold_locales
  fix x rest show "CBS_get_asn1_int64 (der_int64 x @ rest) = (Some x, rest)"
    using length_der_int_64(2) [of x] int64_contents_iff [of "der_int (sint x)" x]
    by (simp add: get_asn1_int64_eq der_int64_def)
next
  fix bs :: "u8 list" and x rest assume "CBS_get_asn1_int64 bs = (Some x, rest)"
  then show "True \<and> bs = der_int64 x @ rest"
    by (auto simp: get_asn1_int64_eq der_int64_def int64_contents_iff get_asn1_iff
        split: option.splits prod.splits)
qed


section \<open>The writers\<close>

lemma be_bytes_Cons: "be_bytes (Suc n) v = of_nat (v div 256 ^ n) # be_bytes n v"
proof (induction n arbitrary: v)
  case (Suc n)
  have "be_bytes (Suc (Suc n)) v = be_bytes (Suc n) (v div 256) @ [of_nat v]" by simp
  also have "\<dots> = of_nat (v div 256 div 256 ^ n) # be_bytes n (v div 256) @ [of_nat v]" by (simp only: Suc append_Cons)
  finally show ?case by (simp add: div_mult2_eq)
qed simp

lemma uint64_byte: "ucast (drop_bit (8 * n) (v :: u64)) AND 0xff = (of_nat (unat v div 256 ^ n) :: u8)"
proof -
  have p: "(2 :: nat) ^ (8 * n) = 256 ^ n" by (simp add: power_mult)
  have ff: "(0xff :: u8) = - 1" by simp
  have "(x :: u8) AND 0xff = x" for x
    unfolding ff by simp
  then show ?thesis by (simp add: word_unat_eq_iff byte_arith p)
qed

text \<open>The loop followed by what the code does when nothing was written.\<close>

definition add_uint64 :: "nat \<Rightarrow> u64 \<Rightarrow> nat \<Rightarrow> bool \<Rightarrow> allocator \<Rightarrow> CBB \<Rightarrow> bool \<times> CBB" where
  "add_uint64 d v n started m s =
     (case add_uint64_loop m d v n started s of
        (False, started, s) \<Rightarrow> (False, s)
      | (True, started, s) \<Rightarrow> if \<not> started then CBB_add_u8 m d 0 s else (True, s))"

lemma add_uint64_Suc:
  "add_uint64 d v (Suc n) started m =
     (let byte = of_nat (unat v div 256 ^ n) in
      if \<not> started \<and> byte = 0 then add_uint64 d v n started m
      else if \<not> started \<and> \<not> unat byte < 128
      then c_and (CBB_add_u8 m d 0) (c_and (CBB_add_u8 m d byte) (add_uint64 d v n True m))
      else c_and (CBB_add_u8 m d byte) (add_uint64 d v n True m))"
  by (rule ext)
    (simp add: add_uint64_def Let_def uint64_byte and_0x80_eq_0 c_and_def split: prod.splits bool.splits)

lemma writes_uint64_started:
  "writes d (\<lambda>m. c_and (CBB_add_u8 m d b) (add_uint64 d v n True m)) (b # be_bytes n (unat v))"
proof (induction n arbitrary: b)
  case 0
  have "add_uint64 d v 0 True m = (\<lambda>s. (True, s))" for m by (rule ext) (simp add: add_uint64_def)
  then show ?case by (simp add: writes_u8)
next
  case (Suc n)
  show ?case
    unfolding add_uint64_Suc be_bytes_Cons [of n]
    using writes_seq [OF writes_u8 [of d b] Suc.IH [of "of_nat (unat v div 256 ^ n)"]] by (simp add: Let_def)
qed

lemma be_val_mod_Cons:
  "be_val (of_nat (u div 256 ^ n) # be_bytes n u) = u mod 256 ^ Suc n"
  by (simp only: be_val_be_bytes flip: be_bytes_Cons)

lemma der_int_nat_Cons:
  assumes "unat b \<noteq> 0"
  shows "der_int (int (be_val (b # bs))) = (if unat b < 128 then b # bs else 0 # b # bs)"
proof -
  have u: "uint b = int (unat b)" by (rule uint_nat)
  show ?thesis
  proof (cases "unat b < 128")
    case True
    then have b: "\<not> 128 \<le> uint b" "uint b \<noteq> 0" "uint b \<noteq> 255" using assms unfolding u by linarith+
    then have "minimal (b # bs)" and "sbe (b # bs) = int (be_val (b # bs))"
      using sbe_nonneg [of "b # bs"] by (simp_all add: minimal_def)
    then show ?thesis using True der_int_iff by simp
  next
    case False
    then have b: "128 \<le> uint b" unfolding u by linarith
    then have "minimal (0 # b # bs)" and "sbe (0 # b # bs) = int (be_val (b # bs))"
      using sbe_nonneg [of "0 # b # bs"] by (simp_all add: minimal_def be_val_Cons [of 0])
    then show ?thesis using False der_int_iff by simp
  qed
qed

lemma writes_uint64: "writes d (add_uint64 d v n False) (der_int (int (unat v mod 256 ^ n)))"
proof (induction n)
  case 0
  have "add_uint64 d v 0 False = (\<lambda>m. CBB_add_u8 m d 0)" by (intro ext) (simp add: add_uint64_def)
  then show ?case using writes_u8 [of d 0] by (simp add: der_int.simps)
next
  case (Suc n)
  let ?b = "of_nat (unat v div 256 ^ n) :: u8"
  have val: "be_val (?b # be_bytes n (unat v)) = unat v mod 256 ^ Suc n" by (rule be_val_mod_Cons)
  consider (zero) "?b = 0" | (low) "?b \<noteq> 0" "unat ?b < 128" | (high) "?b \<noteq> 0" "\<not> unat ?b < 128" by blast
  then show ?case
  proof cases
    case zero
    then have "unat v mod 256 ^ n = unat v mod 256 ^ Suc n"
      using val by (simp add: be_val_Cons be_val_be_bytes)
    then show ?thesis using Suc zero unfolding add_uint64_Suc by (simp add: Let_def)
  next
    case low
    then have "der_int (int (unat v mod 256 ^ Suc n)) = ?b # be_bytes n (unat v)"
      using der_int_nat_Cons [of ?b "be_bytes n (unat v)"] val by (simp add: unat_eq_0)
    then show ?thesis
      using low writes_uint64_started [of d ?b v n] unfolding add_uint64_Suc Let_def by simp
  next
    case high
    then have "der_int (int (unat v mod 256 ^ Suc n)) = 0 # ?b # be_bytes n (unat v)"
      using der_int_nat_Cons [of ?b "be_bytes n (unat v)"] val by (simp add: unat_eq_0)
    then show ?thesis
      using high writes_seq [OF writes_u8 [of d 0] writes_uint64_started [of d ?b v n]]
      unfolding add_uint64_Suc Let_def by simp
  qed
qed

lemma CBB_add_asn1_uint64_eq:
  "CBB_add_asn1_uint64 m d v =
     c_and (CBB_add_asn1 m d CBS_ASN1_INTEGER) (c_and (add_uint64 (Suc d) v 8 False m) (CBB_flush m d))"
  unfolding CBB_add_asn1_uint64_def
  by (rule arg_cong [where f = "c_and _"], rule ext)
    (auto simp: add_uint64_def c_and_def split: prod.splits bool.splits)

lemma writes_asn1_uint64: "writes d (\<lambda>m. CBB_add_asn1_uint64 m d v) (der_uint64 v)"
proof -
  have "unat v mod 256 ^ 8 = unat v" using unsigned_less [of v, where 'a = nat] by simp
  then have "int (unat v mod 256 ^ 8) = uint v" by (simp only: uint_nat)
  then have "writes (Suc d) (add_uint64 (Suc d) v 8 False) (der_int (uint v))"
    using writes_uint64 [of "Suc d" v 8] by metis
  from writes_asn1 [OF this] show ?thesis
    unfolding CBB_add_asn1_uint64_eq der_uint64_def using length_der_int_64(1) [of v] by simp
qed

lemma writes_int64_loop:
  "i < length bytes \<Longrightarrow> writes d (\<lambda>m. add_int64_loop m d bytes i) (rev (take (Suc i) bytes))"
proof (induction i)
  case 0
  then show ?case using writes_u8 [of d "bytes ! 0"] by (simp add: take_Suc_conv_app_nth)
next
  case (Suc i)
  then show ?case
    using writes_seq [OF writes_u8 [of d "bytes ! Suc i"] Suc.IH]
    by (simp add: take_Suc_conv_app_nth [of "Suc i"])
qed

lemma sbe_ff: "c \<noteq> [] \<Longrightarrow> 128 \<le> uint (hd c) \<Longrightarrow> sbe (0xff # c) = sbe c"
proof -
  assume c: "c \<noteq> []" "128 \<le> uint (hd c)"
  have "int (be_val (0xff # c)) = 255 * 256 ^ length c + int (be_val c)"
    using be_val_replicate_ff [of 1 c] by simp
  then show ?thesis using c by (simp add: sbe_def)
qed

lemma int64_start_spec:
  "i < length bytes \<Longrightarrow> 128 \<le> uint (bytes ! i) \<Longrightarrow>
   int64_start bytes i \<le> i \<and> minimal (rev (take (Suc (int64_start bytes i)) bytes)) \<and>
   sbe (rev (take (Suc (int64_start bytes i)) bytes)) = sbe (rev (take (Suc i) bytes))"
proof (induction i)
  case 0
  then show ?case by (simp add: take_Suc_conv_app_nth minimal_def)
next
  case (Suc i)
  have c: "rev (take (Suc (Suc i)) bytes) = bytes ! Suc i # rev (take (Suc i) bytes)"
    "rev (take (Suc i) bytes) = bytes ! i # rev (take i bytes)"
    using Suc.prems by (simp_all add: take_Suc_conv_app_nth)
  have bit: "bytes ! i AND 0x80 = 0 \<longleftrightarrow> \<not> 128 \<le> uint (bytes ! i)"
    using and_0x80_uint [of "bytes ! i"] by linarith
  show ?case
  proof (cases "bytes ! Suc i = 0xff \<and> 128 \<le> uint (bytes ! i)")
    case True
    then have "sbe (rev (take (Suc (Suc i)) bytes)) = sbe (rev (take (Suc i) bytes))"
      using sbe_ff [of "rev (take (Suc i) bytes)"] c by simp
    then show ?thesis using Suc True bit by simp
  next
    case False
    then have "minimal (rev (take (Suc (Suc i)) bytes))"
      using Suc.prems(2) by (auto simp: c minimal_def word_uint_eq_iff)
    then show ?thesis using False bit by auto
  qed
qed

lemma sint_be_bytes: "sint (w :: u64) = sbe (be_bytes 8 (unat w))"
proof -
  let ?c = "be_bytes 8 (unat w)"
  have ne: "?c \<noteq> []" by (metis length_be_bytes length_0_conv zero_neq_numeral)
  have val: "be_val ?c = unat w"
    using unsigned_less [of w, where 'a = nat] by (simp only: be_val_be_bytes) simp
  have r: "- (2 ^ 63) \<le> sbe ?c" "sbe ?c < 2 ^ 63" using sbe_range [OF ne] by simp_all
  have "(of_int (sbe ?c) :: u64) = of_int (int (be_val ?c)) - (if 128 \<le> uint (hd ?c) then of_int (2 ^ 64) else 0)"
    by (simp add: sbe_def ne)
  also have "\<dots> = w" by (simp add: val)
  finally have "w = of_int (sbe ?c)" ..
  then have "sint w = sint (of_int (sbe ?c) :: u64)" by (rule arg_cong)
  also have "\<dots> = sbe ?c" using r by (simp add: signed_of_int signed_take_bit_int_eq_self)
  finally show ?thesis .
qed

lemma writes_asn1_int64: "writes d (\<lambda>m. CBB_add_asn1_int64 m d v) (der_int64 v)"
proof (cases "0 \<le> sint v")
  case True
  moreover have "sint v < 2 ^ 64" using sint_64_range [of v] by simp
  ultimately have "sint v = uint v" by (simp add: uint_sint take_bit_int_eq_self)
  then show ?thesis
    using \<open>0 \<le> sint v\<close> writes_asn1_uint64 [of d v] by (simp add: CBB_add_asn1_int64_def der_int64_def der_uint64_def)
next
  case False
  let ?b = "rev (be_bytes 8 (unat v))"
  have ne: "be_bytes 8 (unat v) \<noteq> []" by (metis length_be_bytes length_0_conv zero_neq_numeral)
  have "128 \<le> uint (be_bytes 8 (unat v) ! 0)"
    using False sbe_nonneg [OF ne] by (auto simp: sint_be_bytes)
  then have hd: "128 \<le> uint (?b ! 7)" by (simp add: rev_nth del: be_bytes.simps)
  have spec: "int64_start ?b 7 \<le> 7" "minimal (rev (take (Suc (int64_start ?b 7)) ?b))"
    "sbe (rev (take (Suc (int64_start ?b 7)) ?b)) = sbe (rev (take 8 ?b))"
    using int64_start_spec [of 7 ?b] hd by (simp_all del: be_bytes.simps)
  have "rev (take (Suc (int64_start ?b 7)) ?b) = der_int (sint v)"
    using spec(2,3) der_int_sbe by (simp add: sint_be_bytes del: be_bytes.simps) metis
  then have "writes (Suc d) (\<lambda>m. add_int64_loop m (Suc d) ?b (int64_start ?b 7)) (der_int (sint v))"
    using writes_int64_loop [of "int64_start ?b 7" ?b "Suc d"] spec(1) by (simp del: be_bytes.simps)
  from writes_asn1 [OF this, of CBS_ASN1_INTEGER] show ?thesis
    using False length_der_int_64(2) [of v]
    by (simp add: CBB_add_asn1_int64_def der_int64_def Let_def del: be_bytes.simps)
qed

interpretation asn1_uint64_cbb:
  cbb_codec CBB_add_asn1_uint64 der_uint64 "\<lambda>_. True" CBS_get_asn1_uint64
  by unfold_locales (simp_all add: writes_asn1_uint64 asn1_uint64.dec_enc)

interpretation asn1_int64_cbb:
  cbb_codec CBB_add_asn1_int64 der_int64 "\<lambda>_. True" CBS_get_asn1_int64
  by unfold_locales (simp_all add: writes_asn1_int64 asn1_int64.dec_enc)

end
