(* ===== verification/SetOf.thy ===== *)
theory SetOf
  imports DerInt
begin

text \<open>
  \<open>CBB_flush_asn1_set_of\<close>: the order of SET OF elements is a strict total order on byte strings (an
  interpretation of \<open>strict_comparator\<close>), and the operation replaces the elements that the builder
  holds by their sorted permutation, which is the DER encoding of the set.
\<close>

section \<open>The order\<close>

lemma memcmp_range: "memcmp as bs = - 1 \<or> memcmp as bs = 0 \<or> memcmp as bs = 1"
  by (induction as bs rule: memcmp.induct) auto

lemma compare_Nil [simp]:
  "compare_set_of_element [] [] = 0"
  "compare_set_of_element [] (y # ys) = - 1"
  "compare_set_of_element (x # xs) [] = 1"
  by (simp_all add: compare_set_of_element_def CBS_len_def CBS_data_def OPENSSL_memcmp_def)

lemma compare_Cons [simp]:
  "compare_set_of_element (x # xs) (y # ys) =
     (if x < y then - 1 else if y < x then 1 else compare_set_of_element xs ys)"
proof -
  have m: "(if length (x # xs) < length (y # ys) then length (x # xs) else length (y # ys)) =
      Suc (if length xs < length ys then length xs else length ys)"
    by simp
  show ?thesis
    unfolding compare_set_of_element_def CBS_len_def CBS_data_def Let_def m OPENSSL_memcmp_def
    by auto
qed

lemma compare_range: "compare_set_of_element a b = - 1 \<or> compare_set_of_element a b = 0 \<or> compare_set_of_element a b = 1"
proof (induction a arbitrary: b)
  case Nil
  then show ?case by (cases b) auto
next
  case (Cons x a)
  then show ?case by (cases b) auto
qed

interpretation set_of: strict_comparator compare_set_of_element
proof unfold_locales
  fix a b :: CBS
  show "sgn (compare_set_of_element a b) = - sgn (compare_set_of_element b a)"
  proof (induction a arbitrary: b)
    case Nil
    then show ?case by (cases b) auto
  next
    case (Cons x a)
    then show ?case by (cases b) auto
  qed
next
  fix a b c :: CBS
  show "compare_set_of_element a b \<le> 0 \<Longrightarrow> compare_set_of_element b c \<le> 0 \<Longrightarrow> compare_set_of_element a c \<le> 0"
  proof (induction a arbitrary: b c)
    case Nil
    then show ?case by (cases c) auto
  next
    case (Cons x a)
    then obtain y b' where b: "b = y # b'" by (cases b) auto
    then obtain z c' where c: "c = z # c'" using Cons.prems(2) by (cases c) auto
    show ?case using Cons.prems Cons.IH [of b' c'] unfolding b c by (auto split: if_splits)
  qed
next
  fix a b :: CBS
  show "compare_set_of_element a b = 0 \<Longrightarrow> a = b"
  proof (induction a arbitrary: b)
    case Nil
    then show ?case by (cases b) auto
  next
    case (Cons x a)
    then show ?case by (cases b) (auto split: if_splits)
  qed
qed

text \<open>The order is the lexicographic order of the bytes.\<close>

definition bytes_le :: "u8 list \<Rightarrow> u8 list \<Rightarrow> bool" where
  "bytes_le a b \<longleftrightarrow> a = b \<or> (a, b) \<in> lexord {(x, y). x < y}"

lemma compare_bytes_le: "compare_set_of_element a b \<le> 0 \<longleftrightarrow> bytes_le a b"
proof (induction a arbitrary: b)
  case Nil
  then show ?case by (cases b) (auto simp: bytes_le_def)
next
  case (Cons x a)
  then show ?case by (cases b) (auto simp: bytes_le_def)
qed

text \<open>The code's remark that the length comparison is never reached.\<close>

lemma memcmp_0: "length as = length bs \<Longrightarrow> memcmp as bs = 0 \<longleftrightarrow> as = bs"
  by (induction as bs rule: memcmp.induct) auto

definition is_element :: "u8 list \<Rightarrow> bool" where
  "is_element e \<longleftrightarrow> (\<exists>tag c. length c < 2 ^ 32 \<and> e = der_element tag c)"

lemma compare_elements_by_content:
  assumes a: "is_element a" and b: "is_element b" and ne: "a \<noteq> b"
  shows "OPENSSL_memcmp a b (min (length a) (length b)) \<noteq> 0"
proof
  assume z: "OPENSSL_memcmp a b (min (length a) (length b)) = 0"
  obtain s t c d where sc: "a = der_element s c" "length c < 2 ^ 32" "b = der_element t d" "length d < 2 ^ 32"
    using a b by (auto simp: is_element_def)
  have "length a \<noteq> 0" "length b \<noteq> 0"
    using length_der_tag [of s] length_der_tag [of t] by (auto simp: sc der_element_def)
  then have eq: "take (min (length a) (length b)) a = take (min (length a) (length b)) b"
    using z by (simp add: OPENSSL_memcmp_def memcmp_0 min_def split: if_splits)
  show False
  proof (cases "length a \<le> length b")
    case True
    then have "a @ drop (length a) b = b @ []"
      using eq by (metis append_Nil2 append_take_drop_id min.absorb1 take_all_iff order_refl)
    then show False using der_element_prefix_free [OF sc(2,4), of s "drop (length a) b" t "[]"] ne by (simp add: sc)
  next
    case False
    then have "b @ drop (length b) a = a @ []"
      using eq by (metis append_Nil2 append_take_drop_id min.absorb2 nat_le_linear take_all_iff order_refl)
    then show False using der_element_prefix_free [OF sc(4,2), of t "drop (length b) a" s "[]"] ne by (simp add: sc)
  qed
qed

section \<open>Splitting into elements\<close>

lemma element_read:
  "is_element e \<Longrightarrow> \<exists>tag hl. CBS_get_any_asn1_element (e @ rest) = (Some (e, tag, hl), rest)"
  unfolding is_element_def using get_any_element_enc by blast

lemma element_nonempty: "is_element e \<Longrightarrow> e \<noteq> []"
  using length_der_tag unfolding is_element_def by (fastforce simp: der_element_def)

lemma set_of_count_concat: "(\<And>e. e \<in> set es \<Longrightarrow> is_element e) \<Longrightarrow> set_of_count (concat es) = Some (length es)"
proof (induction es)
  case Nil
  then show ?case by (simp add: set_of_count.simps CBS_len_def)
next
  case (Cons e es)
  obtain tag hl where "CBS_get_any_asn1_element (e @ concat es) = (Some (e, tag, hl), concat es)"
    using element_read [of e "concat es"] Cons.prems by auto
  then show ?case using Cons element_nonempty [of e] by (subst set_of_count.simps) (simp add: CBS_len_def)
qed

lemma set_of_children_concat:
  "(\<And>e. e \<in> set es \<Longrightarrow> is_element e) \<Longrightarrow> set_of_children (length es) (concat es) = Some es"
proof (induction es)
  case (Cons e es)
  obtain tag hl where "CBS_get_any_asn1_element (e @ concat es) = (Some (e, tag, hl), concat es)"
    using element_read [of e "concat es"] Cons.prems by auto
  then show ?case using Cons by simp
qed simp

lemma set_of_count_Some:
  "set_of_count cbs = Some n \<Longrightarrow> \<exists>es. cbs = concat es \<and> length es = n \<and> (\<forall>e \<in> set es. is_element e)"
proof (induction cbs arbitrary: n rule: set_of_count.induct)
  case (1 cbs)
  show ?case
  proof (cases "cbs = []")
    case True
    then show ?thesis using 1(2) by (intro exI [of _ "[]"]) (simp add: set_of_count.simps CBS_len_def)
  next
    case False
    then have pos: "CBS_len cbs \<noteq> 0" by (simp add: CBS_len_def)
    obtain x r where x: "CBS_get_any_asn1_element cbs = (Some x, r)"
      using 1(2) pos by (subst (asm) set_of_count.simps) (auto split: prod.splits option.splits)
    obtain k where k: "set_of_count r = Some k" "n = Suc k"
      using 1(2) pos x by (subst (asm) set_of_count.simps) auto
    obtain es where es: "r = concat es" "length es = k" "\<forall>e \<in> set es. is_element e"
      using 1(1) [OF pos x [symmetric] refl k(1)] by blast
    obtain out tag hl where x': "x = (out, tag, hl)" by (cases x)
    have "is_element out" "cbs = out @ r"
      using get_any_element_dec [OF x [unfolded x']] by (auto simp: is_element_def)
    then show ?thesis using es k by (intro exI [of _ "out # es"]) auto
  qed
qed

section \<open>The operation\<close>

lemma writes_all_bytes:
  "cs \<noteq> [] \<Longrightarrow> (\<And>c. c \<in> set cs \<Longrightarrow> length c < 2 ^ 63) \<Longrightarrow> writes d (\<lambda>m. add_all_bytes m d cs) (concat cs)"
proof (induction cs)
  case (Cons c cs)
  have eq: "(\<lambda>m. add_all_bytes m d (c # cs)) = (\<lambda>m. c_and (CBB_add_bytes m d c) (add_all_bytes m d cs))"
    by (intro ext) simp
  show ?case
  proof (cases cs)
    case Nil
    have "add_all_bytes m d [] = (\<lambda>s. (True, s))" for m by (rule ext) simp
    then show ?thesis unfolding eq using Nil Cons.prems writes_bytes [of c d] by simp
  next
    case Cons': (Cons c' cs')
    then have "cs \<noteq> []" by simp
    then have w: "writes d (\<lambda>m. add_all_bytes m d cs) (concat cs)"
      by (rule Cons.IH) (rule Cons.prems(2), simp)
    show ?thesis unfolding eq using writes_seq [OF writes_bytes [of c d] w] Cons.prems(2) by simp
  qed
qed simp

lemma cbb_start_bound: "cbb_inv s \<Longrightarrow> d \<le> length (cbb_children s) \<Longrightarrow> cbb_start d s \<le> length (cbb_bytes s)"
  using children_ok_nth [OF cbb_ok_nested [OF cbb_inv_okD], of s "d - 1"] by (simp add: cbb_start_def)

lemma cbb_start_take: "d \<le> length cs \<Longrightarrow> cbb_children s = cs \<Longrightarrow> cbb_children t = take d cs \<Longrightarrow> cbb_start d t = cbb_start d s"
  by (simp add: cbb_start_def)

lemma CBB_contents:
  assumes inv: "cbb_inv s" and d: "d \<le> length (cbb_children s)"
  shows "CBS_init (CBB_data d s) (CBB_len d s) = drop (cbb_start d s) (cbb_bytes s)"
    and "CBB_len d s = length (cbb_bytes s) - cbb_start d s"
proof -
  obtain b where b: "cbb_base s = Some b" "cbb_bytes s = take (cb_len b) (cb_buf b)" "length (cbb_bytes s) = cb_len b"
    using cbb_inv_okD [OF inv] by (rule cbb_okE)
  show "CBB_len d s = length (cbb_bytes s) - cbb_start d s"
    by (simp add: CBB_len_def b(1,3))
  show "CBS_init (CBB_data d s) (CBB_len d s) = drop (cbb_start d s) (cbb_bytes s)"
    by (simp add: CBS_init_def CBB_data_def CBB_len_def b drop_take)
qed

lemma memdup_Some:
  "OPENSSL_memdup m k data n = (Some p, k') \<Longrightarrow> n \<le> length data \<Longrightarrow> take n p = take n data"
  by (auto simp: OPENSSL_memdup_def split: prod.splits option.splits if_splits)

lemma cbb_inv_truncate:
  assumes inv: "cbb_inv s" and len: "length (cbb_children s) = d" and n: "n = cbb_start d s"
  shows "cbb_inv (s\<lparr>cbb_base := map_option (\<lambda>b. b\<lparr>cb_len := n\<rparr>) (cbb_base s)\<rparr>)"
proof -
  obtain b where b: "cbb_base s = Some b" "base_ok b" "children_ok 0 (cbb_children s) (cb_len b)"
    using cbb_inv_okD [OF inv] by (rule cbb_okE)
  have "n \<le> cb_len b" using cbb_start_bound [OF inv] len n b cbb_inv_okD [OF inv] by (auto elim: cbb_okE)
  moreover have "children_ok 0 (cbb_children s) n"
  proof (cases "cbb_children s" rule: rev_cases)
    case (snoc cs c)
    then show ?thesis using b(3) len n by (auto simp: children_ok_append cbb_start_def)
  qed simp
  ultimately have "cbb_ok (s\<lparr>cbb_base := map_option (\<lambda>b. b\<lparr>cb_len := n\<rparr>) (cbb_base s)\<rparr>)"
    using b by (auto simp: cbb_ok_def base_ok_def)
  then show ?thesis using inv by (simp add: cbb_inv_def)
qed

lemma flush_set_of:
  assumes m: "alloc_ok m" and inv: "cbb_inv s" and r: "CBB_flush_asn1_set_of m d s = (True, s')"
  shows "\<exists>bs es. cbb_flushed d s = Some bs \<and> drop (cbb_start d s) bs = concat es \<and> (\<forall>e \<in> set es. is_element e) \<and>
    cbb_bytes s' = take (cbb_start d s) bs @ concat (qsort compare_set_of_element es) \<and>
    cbb_inv s' \<and> d \<le> length (cbb_children s) \<and> cbb_children s' = take d (cbb_children s)"
proof -
  obtain t where t: "CBB_flush m d s = (True, t)"
    using r by (auto simp: CBB_flush_asn1_set_of_def split: prod.splits bool.splits)
  have fl: "appended d s [] t" and ti: "cbb_inv t"
    using writesD(1,2) [OF writes_flush m inv, of d] t by auto
  have d: "d \<le> length (cbb_children s)" and ct: "cbb_children t = take d (cbb_children s)"
    and lt: "length (cbb_children t) = d" and bs: "cbb_flushed d s = Some (cbb_bytes t)"
    using fl appended_flushed [OF fl] by (auto simp: appended_def)
  have st: "cbb_start d t = cbb_start d s" using cbb_start_take [OF d refl ct] .
  have le: "cbb_start d t \<le> length (cbb_bytes t)" using cbb_start_bound [OF ti] lt by simp
  note cont = CBB_contents [OF ti, of d]
  obtain n where n: "set_of_count (drop (cbb_start d t) (cbb_bytes t)) = Some n"
    using r t cont lt by (auto simp: CBB_flush_asn1_set_of_def split: option.splits)
  obtain es where es: "drop (cbb_start d t) (cbb_bytes t) = concat es" "length es = n" "\<forall>e \<in> set es. is_element e"
    using set_of_count_Some [OF n] by blast
  have whole: "cbb_bytes t = take (cbb_start d t) (cbb_bytes t) @ concat es" by (simp flip: es(1))
  show ?thesis
  proof (cases "n < 2")
    case True
    then have "s' = t" using r t n cont lt by (simp add: CBB_flush_asn1_set_of_def)
    moreover have "qsort compare_set_of_element es = es"
      using True es(2) by (cases es) auto
    ultimately show ?thesis
      using bs es ti d ct st whole by (intro exI [of _ "cbb_bytes t"] exI [of _ es]) simp
  next
    case False
    obtain b where b: "cbb_base t = Some b" "base_ok b" "cbb_bytes t = take (cb_len b) (cb_buf b)"
      "length (cbb_bytes t) = cb_len b"
      using cbb_inv_okD [OF ti] by (rule cbb_okE)
    obtain p k ch k' cs where mem: "OPENSSL_memdup m (cbb_allocs t) (CBB_data d t) (CBB_len d t) = (Some p, k)"
      and kids: "set_of_children n (CBS_init p (CBB_len d t)) = Some cs"
      and run: "add_all_bytes m d (qsort compare_set_of_element cs)
        (t\<lparr>cbb_allocs := k', cbb_base := map_option (\<lambda>b. b\<lparr>cb_len := cbb_start d (t\<lparr>cbb_allocs := k'\<rparr>)\<rparr>) (cbb_base t)\<rparr>) = (True, s')"
      using r t n cont lt False
      by (auto simp: CBB_flush_asn1_set_of_def Let_def split: prod.splits option.splits if_splits)
    have "CBB_len d t \<le> length (CBB_data d t)"
      using b le by (auto simp: CBB_len_def CBB_data_def base_ok_def intro: diff_le_mono)
    then have "CBS_init p (CBB_len d t) = CBS_init (CBB_data d t) (CBB_len d t)"
      using memdup_Some [OF mem] by (simp add: CBS_init_def)
    then have "CBS_init p (CBB_len d t) = concat es" using cont(1) lt es(1) by simp
    then have cs: "cs = es" using kids set_of_children_concat [of es] es(2,3) by simp
    let ?u = "t\<lparr>cbb_allocs := k', cbb_base := map_option (\<lambda>b. b\<lparr>cb_len := cbb_start d t\<rparr>) (cbb_base t)\<rparr>"
    have ui: "cbb_inv ?u"
    proof -
      have "cbb_inv (t\<lparr>cbb_base := map_option (\<lambda>b. b\<lparr>cb_len := cbb_start d t\<rparr>) (cbb_base t)\<rparr>)"
        using cbb_inv_truncate [OF ti lt refl] .
      then show ?thesis by (simp add: cbb_inv_def cbb_ok_def)
    qed
    have ub: "cbb_bytes ?u = take (cbb_start d t) (cbb_bytes t)"
      using b le by (simp add: cbb_bytes_def min_absorb1)
    have "length e < 2 ^ 63" if "e \<in> set es" for e
    proof -
      obtain xs ys where "es = xs @ e # ys" using split_list [OF \<open>e \<in> set es\<close>] by blast
      then have "length e \<le> length (concat es)" by simp
      also have "\<dots> \<le> length (cbb_bytes t)" by (simp flip: es(1))
      also have "\<dots> < 2 ^ 63" using b by (simp add: base_ok_def)
      finally show ?thesis .
    qed
    moreover have "qsort compare_set_of_element es \<noteq> []" using False es(2) by (metis length_0_conv length_qsort zero_less_numeral)
    ultimately have w: "writes d (\<lambda>m. add_all_bytes m d (qsort compare_set_of_element es))
        (concat (qsort compare_set_of_element es))"
      by (intro writes_all_bytes) simp_all
    have run': "add_all_bytes m d (qsort compare_set_of_element es) ?u = (True, s')"
    proof -
      have st': "cbb_start d (t\<lparr>cbb_allocs := k'\<rparr>) = cbb_start d t" by (simp add: cbb_start_def)
      show ?thesis using run unfolding cs st' .
    qed
    have app: "appended d ?u (concat (qsort compare_set_of_element es)) s'" and inv': "cbb_inv s'"
      using writesD(1,2) [OF w m ui] run' by auto
    have "cbb_bytes s' = take (cbb_start d t) (cbb_bytes t) @ concat (qsort compare_set_of_element es)"
      using appended_bytes [OF app] ub lt by simp
    moreover have "cbb_children s' = take d (cbb_children s)" using app ct by (simp add: appended_def)
    ultimately show ?thesis
      using bs es(1,3) inv' d st by (intro exI [of _ "cbb_bytes t"] exI [of _ es]) simp
  qed
qed

end
