(* ===== verification/Values.thy ===== *)
theory Values
  imports DerInt
begin

text \<open>
  Builders and parsers as each other's inverse: every \<open>CBB_add_*\<close> operation and the \<open>CBS_get_*\<close>
  operation that reads its output are interpretations of the locale \<open>cbb_codec\<close>, and the parsers
  strict codecs. The little-endian operations write the bytes in the reverse order.
\<close>

section \<open>Byte swaps\<close>

lemma be_bytes_word:
  "be_bytes n (unat (w :: 'a::len word)) = map (\<lambda>i. ucast (drop_bit (8 * i) w)) (rev [0..<n])"
proof (induction n)
  case (Suc n)
  have "(of_nat (unat w div 256 ^ n) :: u8) = ucast (drop_bit (8 * n) w)"
  proof -
    have "(2 :: nat) ^ (8 * n) = 256 ^ n" by (simp add: power_mult)
    then show ?thesis by (simp add: word_unat_eq_iff byte_arith)
  qed
  then show ?case using Suc by (simp only: be_bytes_Cons) simp
qed simp

lemma byte_eqI:
  assumes "\<And>n. n < 8 \<Longrightarrow> bit v (i + n) \<longleftrightarrow> bit w (j + n)"
  shows "(ucast (drop_bit i (v :: 'a::len word)) :: u8) = ucast (drop_bit j (w :: 'b::len word))"
  using assms by (intro bit_word_eqI) (auto simp: bit_simps)

lemma bswap2_bytes: "be_bytes 2 (unat (CRYPTO_bswap2 w)) = rev (be_bytes 2 (unat w))"
proof -
  have "(ucast (drop_bit 8 (CRYPTO_bswap2 w)) :: u8) = ucast (drop_bit 0 w)"
    and "(ucast (drop_bit 0 (CRYPTO_bswap2 w)) :: u8) = ucast (drop_bit 8 w)"
    by (rule byte_eqI; auto simp: CRYPTO_bswap2_def bit_simps dest: bit_imp_le_length)+
  then show ?thesis by (simp add: be_bytes_word upt_rec)
qed

lemma bswap4_mask_high: "bit (0xff00ff00 :: u32) k \<longleftrightarrow> 8 \<le> k \<and> k < 16 \<or> 24 \<le> k \<and> k < 32"
proof -
  have eq: "(0xff00ff00 :: u32) = push_bit 8 (mask 8) OR push_bit 24 (mask 8)"
    by (simp add: mask_eq_exp_minus_1)
  show ?thesis unfolding eq by (auto simp: bit_simps)
qed

lemma bswap4_mask_low: "bit (0x00ff00ff :: u32) k \<longleftrightarrow> k < 8 \<or> 16 \<le> k \<and> k < 24"
proof -
  have eq: "(0x00ff00ff :: u32) = mask 8 OR push_bit 16 (mask 8)"
    by (simp add: mask_eq_exp_minus_1)
  show ?thesis unfolding eq by (auto simp: bit_simps)
qed

lemma bswap4_bit:
  "bit (CRYPTO_bswap4 w) n \<longleftrightarrow> n < 32 \<and> bit w (24 - n div 8 * 8 + n mod 8)"
proof -
  let ?r = "drop_bit 16 w OR push_bit 16 w"
  have r: "bit ?r k \<longleftrightarrow> k < 32 \<and> bit w (if k < 16 then k + 16 else k - 16)" for k
    by (auto simp: bit_simps add.commute dest: bit_imp_le_length)
  have *: "bit (CRYPTO_bswap4 w) n \<longleftrightarrow>
      bit ?r (8 + n) \<and> (n < 8 \<or> 16 \<le> n \<and> n < 24) \<or>
      8 \<le> n \<and> n < 32 \<and> bit ?r (n - 8) \<and> (n < 16 \<or> 24 \<le> n)"
    unfolding CRYPTO_bswap4_def Let_def bit_or_iff bit_drop_bit_eq bit_push_bit_iff bit_and_iff
      bswap4_mask_high bswap4_mask_low comp_def
    by auto
  consider "n < 8" | "8 \<le> n" "n < 16" | "16 \<le> n" "n < 24" | "24 \<le> n" "n < 32" | "32 \<le> n" by linarith
  then show ?thesis
  proof cases
    case 1
    then show ?thesis unfolding * r by simp
  next
    case 2
    then have "n div 8 = 1" "n mod 8 = n - 8" "n - 8 < 16" by (simp_all add: div_nat_eqI le_mod_geq)
    then show ?thesis using 2 unfolding * r by simp
  next
    case 3
    then have "n div 8 = 2" "n mod 8 = n - 16" by (simp_all add: div_nat_eqI le_mod_geq)
    then show ?thesis using 3 unfolding * r by simp
  next
    case 4
    then have "n div 8 = 3" "n mod 8 = n - 24" "\<not> n - 8 < 16" "n - 8 < 32" by (simp_all add: div_nat_eqI le_mod_geq)
    then show ?thesis using 4 unfolding * r by simp
  next
    case 5
    then show ?thesis unfolding * r by simp
  qed
qed


lemma bswap4_byte:
  "i < 4 \<Longrightarrow> (ucast (drop_bit (8 * i) (CRYPTO_bswap4 w)) :: u8) = ucast (drop_bit (8 * (3 - i)) w)"
proof (rule byte_eqI)
  fix n :: nat assume "i < 4" and n: "n < 8"
  then have "(8 * i + n) div 8 = i" "(8 * i + n) mod 8 = n" by simp_all
  moreover have "24 - i * 8 = 8 * (3 - i)" using \<open>i < 4\<close> by linarith
  ultimately show "bit (CRYPTO_bswap4 w) (8 * i + n) \<longleftrightarrow> bit w (8 * (3 - i) + n)"
    using \<open>i < 4\<close> n by (simp only: bswap4_bit) simp
qed

lemma bswap4_bytes: "be_bytes 4 (unat (CRYPTO_bswap4 w)) = rev (be_bytes 4 (unat w))"
  using bswap4_byte [of 0 w] bswap4_byte [of 1 w] bswap4_byte [of 2 w] bswap4_byte [of 3 w]
  by (simp add: be_bytes_word upt_rec)

lemma bswap8_byte:
  assumes i: "i < 8"
  shows "(ucast (drop_bit (8 * i) (CRYPTO_bswap8 w)) :: u8) = ucast (drop_bit (8 * (7 - i)) w)"
proof (rule byte_eqI)
  fix n :: nat assume n: "n < 8"
  have bit8: "bit (CRYPTO_bswap8 w) k \<longleftrightarrow>
      (if k < 32 then bit (CRYPTO_bswap4 (ucast (drop_bit 32 w))) k
       else k < 64 \<and> bit (CRYPTO_bswap4 (ucast w)) (k - 32))" for k
    by (auto simp: CRYPTO_bswap8_def bit_simps dest: bit_imp_le_length)
  have d: "(8 * j + n) div 8 = j" "(8 * j + n) mod 8 = n" for j using n by simp_all
  show "bit (CRYPTO_bswap8 w) (8 * i + n) \<longleftrightarrow> bit w (8 * (7 - i) + n)"
  proof (cases "i < 4")
    case True
    then have "24 - i * 8 + n + 32 = 8 * (7 - i) + n" "24 - i * 8 + n < 32" using n by linarith+
    then show ?thesis using True n
      by (simp only: bit8 bswap4_bit d) (simp add: bit_simps add.commute)
  next
    case False
    then have k: "8 * i + n - 32 = 8 * (i - 4) + n" "24 - (i - 4) * 8 + n = 8 * (7 - i) + n" "8 * (7 - i) + n < 32"
      "8 * (i - 4) + n < 32"
      using i n by linarith+
    then show ?thesis using False i n
      by (simp only: bit8 k(1) bswap4_bit d k(2)) (simp add: bit_simps)
  qed
qed

lemma bswap8_bytes: "be_bytes 8 (unat (CRYPTO_bswap8 w)) = rev (be_bytes 8 (unat w))"
  using bswap8_byte [of 0 w] bswap8_byte [of 1 w] bswap8_byte [of 2 w] bswap8_byte [of 3 w]
    bswap8_byte [of 4 w] bswap8_byte [of 5 w] bswap8_byte [of 6 w] bswap8_byte [of 7 w]
  by (simp add: be_bytes_word upt_rec)

lemma unat_word_less:
  "unat (x :: u16) < 256 ^ 2" "unat (y :: u32) < 256 ^ 4" "unat (z :: u64) < 256 ^ 8"
  using unsigned_less [of x, where 'a = nat] unsigned_less [of y, where 'a = nat]
    unsigned_less [of z, where 'a = nat] by simp_all

lemma be_bytes_inject_word:
  assumes "be_bytes n (unat v) = be_bytes n (unat w)" and "unat v < 256 ^ n" and "unat w < 256 ^ n"
  shows "v = w"
  using assms by (metis be_val_be_bytes mod_less word_unat_eq_iff)

lemma bswap_involution:
  "CRYPTO_bswap2 (CRYPTO_bswap2 x) = x" "CRYPTO_bswap4 (CRYPTO_bswap4 y) = y" "CRYPTO_bswap8 (CRYPTO_bswap8 z) = z"
proof -
  show "CRYPTO_bswap2 (CRYPTO_bswap2 x) = x"
    by (rule be_bytes_inject_word [of 2])
      (simp_all only: bswap2_bytes rev_rev_ident unat_word_less)
  show "CRYPTO_bswap4 (CRYPTO_bswap4 y) = y"
    by (rule be_bytes_inject_word [of 4])
      (simp_all only: bswap4_bytes rev_rev_ident unat_word_less)
  show "CRYPTO_bswap8 (CRYPTO_bswap8 z) = z"
    by (rule be_bytes_inject_word [of 8])
      (simp_all only: bswap8_bytes rev_rev_ident unat_word_less)
qed


section \<open>Fixed-width integers\<close>

lemma strict_codecI:
  assumes "\<And>bs x r. dec bs = (Some x, r) \<longleftrightarrow> valid x \<and> bs = enc x @ r"
  shows "strict_codec enc dec valid"
  using assms by unfold_locales auto

lemma cbs_get_u_iff:
  assumes "n \<le> 8"
  shows "cbs_get_u cbs n = (Some v, r) \<longleftrightarrow> unat v < 256 ^ n \<and> cbs = be_bytes n (unat v) @ r"
proof
  assume "cbs_get_u cbs n = (Some v, r)"
  then have u: "n \<le> length cbs" "unat v = be_val (take n cbs)" "r = drop n cbs"
    using assms by (simp_all add: cbs_get_u_Some)
  then have l: "length (take n cbs) = n" by simp
  have "unat v < 256 ^ n" using be_val_bound [of "take n cbs"] by (simp only: u(2) l)
  moreover have "be_bytes n (unat v) = take n cbs" using be_bytes_be_val [of "take n cbs"] by (simp only: u(2) l)
  ultimately show "unat v < 256 ^ n \<and> cbs = be_bytes n (unat v) @ r" by (simp add: u(3))
qed (use assms cbs_get_u_append in fastforce)

lemma cbs_get_word_iff:
  assumes "n \<le> 8" and "2 ^ LENGTH('a) = (256 :: nat) ^ n"
    and get: "\<And>cbs. get cbs = (case cbs_get_u cbs n of (None, cbs) \<Rightarrow> (None, cbs)
      | (Some v, cbs) \<Rightarrow> (Some (ucast v), cbs))"
  shows "get cbs = (Some (w :: 'a::len word), r) \<longleftrightarrow> cbs = be_bytes n (unat w) @ r"
proof
  assume "get cbs = (Some w, r)"
  then obtain v where v: "cbs_get_u cbs n = (Some v, r)" "w = ucast v"
    by (auto simp: get split: prod.splits option.splits)
  then have "unat v < 256 ^ n" "cbs = be_bytes n (unat v) @ r" using cbs_get_u_iff [OF assms(1)] by blast+
  moreover from this have "unat w = unat v" by (simp add: v(2) unat_ucast assms(2))
  ultimately show "cbs = be_bytes n (unat w) @ r" by simp
next
  have "unat w < 256 ^ n" using unsigned_less [of w, where 'a = nat] assms(2) by simp
  moreover have "(256 :: nat) ^ n \<le> 256 ^ 8" using assms(1) by (rule power_increasing) simp
  ultimately have lt: "unat w < 256 ^ n" "unat w < 2 ^ 64" by simp_all
  then have "unat (of_nat (unat w) :: u64) = unat w" by (simp only: unat_of_nat mod_less len_of_numeral_defs) simp
  then have "(ucast (of_nat (unat w) :: u64) :: 'a word) = w" by (simp only: word_unat_eq_iff unat_ucast) simp
  moreover assume "cbs = be_bytes n (unat w) @ r"
  ultimately show "get cbs = (Some w, r)" using cbs_get_u_append [of "unat w" n r] assms(1) lt
    by (simp add: get del: of_nat_unat)
qed

interpretation u8: strict_codec "\<lambda>w. [w]" CBS_get_u8 "\<lambda>_. True"
  by (rule strict_codecI) (simp add: consume)

interpretation u16: strict_codec "\<lambda>w. be_bytes 2 (unat w)" CBS_get_u16 "\<lambda>_. True"
  by (rule strict_codecI, simp, rule cbs_get_word_iff) (simp_all add: CBS_get_u16_def)

interpretation u32: strict_codec "\<lambda>w. be_bytes 4 (unat w)" CBS_get_u32 "\<lambda>_. True"
  by (rule strict_codecI, simp, rule cbs_get_word_iff) (simp_all add: CBS_get_u32_def)

interpretation u64: strict_codec "\<lambda>w. be_bytes 8 (unat w)" CBS_get_u64 "\<lambda>_. True"
  by (rule strict_codecI) (use unat_word_less(3) in \<open>auto simp: CBS_get_u64_def cbs_get_u_iff\<close>)

definition valid_u24 :: "u32 \<Rightarrow> bool" where
  "valid_u24 w \<longleftrightarrow> unat w < 2 ^ 24"

interpretation u24: strict_codec "\<lambda>w. be_bytes 3 (unat w)" CBS_get_u24 valid_u24
proof (rule strict_codecI)
  fix bs :: "u8 list" and x r
  show "CBS_get_u24 bs = (Some x, r) \<longleftrightarrow> valid_u24 x \<and> bs = be_bytes 3 (unat x) @ r"
  proof
    assume "CBS_get_u24 bs = (Some x, r)"
    then obtain v where v: "cbs_get_u bs 3 = (Some v, r)" "x = ucast v"
      by (auto simp: CBS_get_u24_def split: prod.splits option.splits)
    then have "unat v < 256 ^ 3" "bs = be_bytes 3 (unat v) @ r" using cbs_get_u_iff [of 3] by force+
    moreover from this have "unat x = unat v" by (simp add: v(2) unat_ucast)
    ultimately show "valid_u24 x \<and> bs = be_bytes 3 (unat x) @ r" by (simp add: valid_u24_def)
  next
    assume a: "valid_u24 x \<and> bs = be_bytes 3 (unat x) @ r"
    have "(ucast (ucast x :: u64) :: u32) = x"
      using unsigned_less [of x, where 'a = nat] by (simp add: word_unat_eq_iff unat_ucast)
    then show "CBS_get_u24 bs = (Some x, r)"
      using a cbs_get_u_append [of "unat x" 3 r] by (simp add: CBS_get_u24_def valid_u24_def)
  qed
qed

lemma swapped_iff:
  assumes get: "\<And>bs x r. get bs = (Some x, r) \<longleftrightarrow> bs = enc x @ r" and inv: "\<And>x. swap (swap x) = x"
    and get': "\<And>bs. get' bs = (case get bs of (None, r) \<Rightarrow> (None, r) | (Some v, r) \<Rightarrow> (Some (swap v), r))"
  shows "get' bs = (Some x, r) \<longleftrightarrow> bs = enc (swap x) @ r"
proof -
  have "get' bs = (Some x, r) \<longleftrightarrow> (\<exists>v. get bs = (Some v, r) \<and> swap v = x)"
    by (auto simp: get' split: prod.splits option.splits)
  also have "\<dots> \<longleftrightarrow> get bs = (Some (swap x), r)" using inv by metis
  finally show ?thesis by (simp only: get)
qed

interpretation u16le: strict_codec "\<lambda>w. rev (be_bytes 2 (unat w))" CBS_get_u16le "\<lambda>_. True"
  unfolding bswap2_bytes [symmetric]
  by (rule strict_codecI, simp only: simp_thms, rule swapped_iff [of CBS_get_u16 _ CRYPTO_bswap2])
    (simp_all only: u16.strict_iff simp_thms bswap_involution CBS_get_u16le_def)

interpretation u32le: strict_codec "\<lambda>w. rev (be_bytes 4 (unat w))" CBS_get_u32le "\<lambda>_. True"
  unfolding bswap4_bytes [symmetric]
  by (rule strict_codecI, simp only: simp_thms, rule swapped_iff [of CBS_get_u32 _ CRYPTO_bswap4])
    (simp_all only: u32.strict_iff simp_thms bswap_involution CBS_get_u32le_def)

interpretation u64le: strict_codec "\<lambda>w. rev (be_bytes 8 (unat w))" CBS_get_u64le "\<lambda>_. True"
  unfolding bswap8_bytes [symmetric]
  by (rule strict_codecI, simp only: simp_thms, rule swapped_iff [of CBS_get_u64 _ CRYPTO_bswap8])
    (simp_all only: u64.strict_iff [unfolded CBS_get_u64_def] simp_thms bswap_involution CBS_get_u64le_def CBS_get_u64_def)


text \<open>The writers.\<close>

lemma writes_word:
  assumes "unat (w :: 'a::len word) < 256 ^ n" and "1 \<le> n" and "n \<le> 8" and "LENGTH('a) \<le> 64"
  shows "writes d (\<lambda>m. cbb_add_u m d (ucast w) n) (be_bytes n (unat w))"
proof -
  have u: "unat (ucast w :: u64) = unat w" using assms(4) by (intro unat_ucast_up) simp
  have "n < 2 ^ 63" using assms(3) by simp
  from writes_add_u [OF assms(2) this, of "ucast w" d] show ?thesis using assms(1) by (simp only: u)
qed

interpretation u8_cbb: cbb_codec CBB_add_u8 "\<lambda>w. [w]" "\<lambda>_. True" CBS_get_u8
  by unfold_locales (simp_all add: writes_u8)

interpretation u16_cbb: cbb_codec CBB_add_u16 "\<lambda>w. be_bytes 2 (unat w)" "\<lambda>_. True" CBS_get_u16
proof unfold_locales
  fix x d show "writes d (\<lambda>m. CBB_add_u16 m d x) (be_bytes 2 (unat x))"
    using writes_word [of x 2 d] unat_word_less(1) [of x] by (simp add: CBB_add_u16_def)
qed

interpretation u24_cbb: cbb_codec CBB_add_u24 "\<lambda>w. be_bytes 3 (unat w)" valid_u24 CBS_get_u24
proof unfold_locales
  fix x d assume "valid_u24 x"
  then show "writes d (\<lambda>m. CBB_add_u24 m d x) (be_bytes 3 (unat x))"
    using writes_word [of x 3 d] by (simp add: CBB_add_u24_def valid_u24_def)
qed

interpretation u32_cbb: cbb_codec CBB_add_u32 "\<lambda>w. be_bytes 4 (unat w)" "\<lambda>_. True" CBS_get_u32
proof unfold_locales
  fix x d show "writes d (\<lambda>m. CBB_add_u32 m d x) (be_bytes 4 (unat x))"
    using writes_word [of x 4 d] unat_word_less(2) [of x] by (simp add: CBB_add_u32_def)
qed

interpretation u64_cbb: cbb_codec CBB_add_u64 "\<lambda>w. be_bytes 8 (unat w)" "\<lambda>_. True" CBS_get_u64
proof unfold_locales
  fix x d show "writes d (\<lambda>m. CBB_add_u64 m d x) (be_bytes 8 (unat x))"
    using writes_word [of x 8 d] unat_word_less(3) [of x] by (simp add: CBB_add_u64_def)
qed

interpretation u16le_cbb: cbb_codec CBB_add_u16le "\<lambda>w. rev (be_bytes 2 (unat w))" "\<lambda>_. True" CBS_get_u16le
  by unfold_locales
    (simp_all only: CBB_add_u16le_def u16_cbb.writes_enc u16le.dec_enc flip: bswap2_bytes)

interpretation u32le_cbb: cbb_codec CBB_add_u32le "\<lambda>w. rev (be_bytes 4 (unat w))" "\<lambda>_. True" CBS_get_u32le
  by unfold_locales
    (simp_all only: CBB_add_u32le_def u32_cbb.writes_enc u32le.dec_enc flip: bswap4_bytes)

interpretation u64le_cbb: cbb_codec CBB_add_u64le "\<lambda>w. rev (be_bytes 8 (unat w))" "\<lambda>_. True" CBS_get_u64le
  by unfold_locales
    (simp_all only: CBB_add_u64le_def u64_cbb.writes_enc u64le.dec_enc flip: bswap8_bytes)

section \<open>Length-prefixed vectors\<close>

definition vector :: "nat \<Rightarrow> u8 list \<Rightarrow> u8 list" where
  "vector n c = be_bytes n (length c) @ c"

lemma get_length_prefixed_iff:
  assumes "n \<le> 8"
  shows "cbs_get_length_prefixed cbs n = (Some c, r) \<longleftrightarrow> length c < 256 ^ n \<and> cbs = vector n c @ r"
proof
  assume "cbs_get_length_prefixed cbs n = (Some c, r)"
  then obtain v t where v: "cbs_get_u cbs n = (Some v, t)" "CBS_get_bytes t (unat v) = (Some c, r)"
    by (auto simp: cbs_get_length_prefixed_def split: prod.splits option.splits)
  then have "unat v < 256 ^ n" "cbs = be_bytes n (unat v) @ t" using cbs_get_u_iff [OF assms] by blast+
  moreover have "length c = unat v" "t = c @ r" using v(2) by (auto simp: consume)
  ultimately show "length c < 256 ^ n \<and> cbs = vector n c @ r" by (simp add: vector_def)
next
  assume c: "length c < 256 ^ n \<and> cbs = vector n c @ r"
  have "(256 :: nat) ^ n \<le> 256 ^ 8" using assms by (rule power_increasing) simp
  then have "length c < 2 ^ 64" using c by simp
  then have "unat (of_nat (length c) :: u64) = length c" by (simp add: unat_of_nat)
  then show "cbs_get_length_prefixed cbs n = (Some c, r)"
    using c cbs_get_u_append [of "length c" n "c @ r"] assms
    by (simp add: cbs_get_length_prefixed_def vector_def CBS_get_bytes_eq)
qed

text \<open>The three calls a client makes to add a vector.\<close>

definition add_vector ::
  "(allocator \<Rightarrow> nat \<Rightarrow> CBB \<Rightarrow> bool \<times> CBB) \<Rightarrow> allocator \<Rightarrow> nat \<Rightarrow> u8 list \<Rightarrow> CBB \<Rightarrow> bool \<times> CBB" where
  "add_vector open m d c = c_and (open m d) (c_and (CBB_add_bytes m (Suc d) c) (CBB_flush m d))"

lemma writes_vector:
  assumes "1 \<le> n" "n \<le> 3" and c: "length c < 256 ^ n"
  shows "writes d (\<lambda>m. add_vector (\<lambda>m d. cbb_add_length_prefixed m d n) m d c) (vector n c)"
proof -
  have "(256 :: nat) ^ n \<le> 256 ^ 3" using assms(2) by (rule power_increasing) simp
  with c have "length c < 2 ^ 63" by simp
  from writes_length_prefixed [OF assms(1,2) writes_bytes [OF this] c] show ?thesis
    by (simp add: add_vector_def vector_def)
qed

interpretation vector8: strict_codec "vector 1" CBS_get_u8_length_prefixed "\<lambda>c. length c < 256"
  by (rule strict_codecI) (simp add: CBS_get_u8_length_prefixed_def get_length_prefixed_iff)

interpretation vector16: strict_codec "vector 2" CBS_get_u16_length_prefixed "\<lambda>c. length c < 65536"
  by (rule strict_codecI) (simp add: CBS_get_u16_length_prefixed_def get_length_prefixed_iff)

interpretation vector24: strict_codec "vector 3" CBS_get_u24_length_prefixed "\<lambda>c. length c < 16777216"
  by (rule strict_codecI) (simp add: CBS_get_u24_length_prefixed_def get_length_prefixed_iff)

interpretation vector8_cbb: cbb_codec "add_vector CBB_add_u8_length_prefixed" "vector 1" "\<lambda>c. length c < 256"
    CBS_get_u8_length_prefixed
  by unfold_locales
    (use writes_vector [of 1] vector8.dec_enc in \<open>simp_all add: CBB_add_u8_length_prefixed_def [abs_def]\<close>)

interpretation vector16_cbb: cbb_codec "add_vector CBB_add_u16_length_prefixed" "vector 2" "\<lambda>c. length c < 65536"
    CBS_get_u16_length_prefixed
  by unfold_locales
    (use writes_vector [of 2] vector16.dec_enc in \<open>simp_all add: CBB_add_u16_length_prefixed_def [abs_def]\<close>)

interpretation vector24_cbb: cbb_codec "add_vector CBB_add_u24_length_prefixed" "vector 3" "\<lambda>c. length c < 16777216"
    CBS_get_u24_length_prefixed
  by unfold_locales
    (use writes_vector [of 3] vector24.dec_enc in \<open>simp_all add: CBB_add_u24_length_prefixed_def [abs_def]\<close>)

section \<open>Elements\<close>

definition add_element :: "u32 \<Rightarrow> allocator \<Rightarrow> nat \<Rightarrow> u8 list \<Rightarrow> CBB \<Rightarrow> bool \<times> CBB" where
  "add_element tag m d c = c_and (CBB_add_asn1 m d tag) (c_and (CBB_add_bytes m (Suc d) c) (CBB_flush m d))"

interpretation element_cbb: cbb_codec "add_element tag" "der_element tag" "\<lambda>c. length c \<le> 0xfffffffe"
    "\<lambda>cbs. CBS_get_asn1 cbs tag" for tag
proof unfold_locales
  fix c :: "u8 list" and d assume "length c \<le> 0xfffffffe"
  moreover from this have "writes (Suc d) (\<lambda>m. CBB_add_bytes m (Suc d) c) c" by (intro writes_bytes) simp
  ultimately show "writes d (\<lambda>m. add_element tag m d c) (der_element tag c)"
    using writes_asn1 by (simp add: add_element_def)
qed simp

interpretation octet_string_cbb: cbb_codec CBB_add_asn1_octet_string "der_element CBS_ASN1_OCTETSTRING"
    "\<lambda>c. length c \<le> 0xfffffffe" "\<lambda>cbs. CBS_get_asn1 cbs CBS_ASN1_OCTETSTRING"
  by unfold_locales
    (use element_cbb.writes_enc in \<open>simp_all add: CBB_add_asn1_octet_string_def add_element_def\<close>)

definition der_bool :: "bool \<Rightarrow> u8 list" where
  "der_bool b = der_element CBS_ASN1_BOOLEAN [if b then 0xff else 0]"

interpretation der_bool: strict_codec der_bool CBS_get_asn1_bool "\<lambda>_. True"
proof (rule strict_codecI)
  fix bs :: "u8 list" and x r
  have one: "length c = 1 \<longleftrightarrow> (\<exists>b. c = [b])" for c :: "u8 list" by (cases c) auto
  show "CBS_get_asn1_bool bs = (Some x, r) \<longleftrightarrow> True \<and> bs = der_bool x @ r"
  proof
    assume "CBS_get_asn1_bool bs = (Some x, r)"
    then obtain b where "CBS_get_asn1 bs CBS_ASN1_BOOLEAN = (Some [b], r)" "b = 0 \<or> b = 0xff" "x = (b \<noteq> 0)"
      by (auto simp: CBS_get_asn1_bool_def CBS_len_def CBS_data_def Let_def one simp del: One_nat_def
          split: prod.splits option.splits if_splits)
    then show "True \<and> bs = der_bool x @ r" by (auto simp: get_asn1_iff der_bool_def)
  qed (auto simp: CBS_get_asn1_bool_def der_bool_def CBS_len_def CBS_data_def Let_def)
qed

interpretation der_bool_cbb: cbb_codec "\<lambda>m d b. CBB_add_asn1_bool m d (of_bool b)" der_bool "\<lambda>_. True" CBS_get_asn1_bool
proof unfold_locales
  fix b d
  have "writes (Suc d) (\<lambda>m. CBB_add_u8 m (Suc d) (if b then 0xff else 0)) [if b then 0xff else 0]"
    by (rule writes_u8)
  from writes_asn1 [OF this] show "writes d (\<lambda>m. CBB_add_asn1_bool m d (of_bool b)) (der_bool b)"
    by (simp add: CBB_add_asn1_bool_def der_bool_def)
qed

end
