(* ===== verification/Ber.thy ===== *)
theory Ber
  imports SetOf Values
begin

text \<open>
  \<open>crypto/bytestring/ber.c\<close>: the search for BER constructs (indefinite lengths and constructed
  strings), the conversion of BER to DER, and implicitly tagged strings. \<open>cbs_convert_ber\<close> consumes
  its input in nested calls that share it, so its model takes fuel; the length of the input plus one is
  always enough.
\<close>

definition kMaxDepth :: nat where
  "kMaxDepth = 2048"

definition CBS_ASN1_UTF8STRING :: u32 where "CBS_ASN1_UTF8STRING = 0xc"
definition CBS_ASN1_NUMERICSTRING :: u32 where "CBS_ASN1_NUMERICSTRING = 0x12"
definition CBS_ASN1_PRINTABLESTRING :: u32 where "CBS_ASN1_PRINTABLESTRING = 0x13"
definition CBS_ASN1_T61STRING :: u32 where "CBS_ASN1_T61STRING = 0x14"
definition CBS_ASN1_VIDEOTEXSTRING :: u32 where "CBS_ASN1_VIDEOTEXSTRING = 0x15"
definition CBS_ASN1_IA5STRING :: u32 where "CBS_ASN1_IA5STRING = 0x16"
definition CBS_ASN1_GRAPHICSTRING :: u32 where "CBS_ASN1_GRAPHICSTRING = 0x19"
definition CBS_ASN1_VISIBLESTRING :: u32 where "CBS_ASN1_VISIBLESTRING = 0x1a"
definition CBS_ASN1_GENERALSTRING :: u32 where "CBS_ASN1_GENERALSTRING = 0x1b"
definition CBS_ASN1_UNIVERSALSTRING :: u32 where "CBS_ASN1_UNIVERSALSTRING = 0x1c"
definition CBS_ASN1_BMPSTRING :: u32 where "CBS_ASN1_BMPSTRING = 0x1e"

definition is_string_type :: "u32 \<Rightarrow> bool" where
  "is_string_type tag =
     (tag AND NOT CBS_ASN1_CONSTRUCTED \<in>
        {CBS_ASN1_BITSTRING, CBS_ASN1_OCTETSTRING, CBS_ASN1_UTF8STRING, CBS_ASN1_NUMERICSTRING,
         CBS_ASN1_PRINTABLESTRING, CBS_ASN1_T61STRING, CBS_ASN1_VIDEOTEXSTRING, CBS_ASN1_IA5STRING,
         CBS_ASN1_GRAPHICSTRING, CBS_ASN1_VISIBLESTRING, CBS_ASN1_GENERALSTRING,
         CBS_ASN1_UNIVERSALSTRING, CBS_ASN1_BMPSTRING})"

section \<open>Finding BER\<close>

lemma ber_element_shorter:
  assumes "CBS_get_any_ber_asn1_element cbs = (Some (out, tag, hl), rest)"
  shows "length rest < length cbs" and "cbs = out @ rest" and "hl \<le> length out" and "0 < hl"
proof -
  have e: "cbs_get_any_asn1_element cbs True = (Some (out, tag, hl), rest)"
    using assms by (simp add: CBS_get_any_ber_asn1_element_def)
  show split: "cbs = out @ rest" by (rule cbs_element_split [OF e])
  have "0 < length (der_tag tag)" using length_der_tag by blast
  then show hl: "hl \<le> length out" and pos: "0 < hl"
    using cbs_element_dec [OF e] by (auto simp: length_der_element header_length_def)
  show "length rest < length cbs" using split hl pos by (cases out) simp_all
qed

text \<open>The result is the success flag and the value of \<open>*ber_found\<close>. The function sets it to 0 on entry,
  in every recursive call as well.\<close>

function cbs_find_ber :: "CBS \<Rightarrow> bool \<Rightarrow> nat \<Rightarrow> bool \<times> bool"
  and cbs_find_ber_loop :: "CBS \<Rightarrow> bool \<Rightarrow> nat \<Rightarrow> bool \<times> bool" where
  "cbs_find_ber orig_in ber_found depth =
     (if depth > kMaxDepth then (False, ber_found)
      else cbs_find_ber_loop (CBS_init (CBS_data orig_in) (CBS_len orig_in)) False depth)"
| "cbs_find_ber_loop inp ber_found depth =
     (if CBS_len inp > 0
      then case CBS_get_any_ber_asn1_element inp of
             (None, _) \<Rightarrow> (False, ber_found)
           | (Some (contents, tag, header_len), inp) \<Rightarrow>
               if CBS_len contents = header_len \<and> header_len > 0 \<and> CBS_data contents ! (header_len - 1) = 0x80
               then (True, True)
               else if tag AND CBS_ASN1_CONSTRUCTED \<noteq> 0
               then
                 if is_string_type tag then (True, True)
                 else (case CBS_skip contents header_len of
                         (None, _) \<Rightarrow> (False, ber_found)
                       | (Some _, contents) \<Rightarrow>
                           (case cbs_find_ber contents ber_found (depth + 1) of
                              (False, ber_found) \<Rightarrow> (False, ber_found)
                            | (True, ber_found) \<Rightarrow> cbs_find_ber_loop inp ber_found depth))
               else cbs_find_ber_loop inp ber_found depth
      else (True, ber_found))"
  by pat_completeness auto
termination
proof (relation "measure (\<lambda>x. case x of Inl (i, f, d) \<Rightarrow> 2 * length i + 1 | Inr (i, f, d) \<Rightarrow> 2 * length i)",
    goal_cases)
  case (2 orig_in ber_found depth)
  then show ?case by (simp add: CBS_init_def CBS_data_def CBS_len_def)
next
  case (3 inp ber_found depth x y x2 contents y' tag header_len u v)
  then have "CBS_get_any_ber_asn1_element inp = (Some (contents, tag, header_len), y)" by simp
  note e = ber_element_shorter [OF this]
  have "length v < length contents" using 3 e(3,4) by (auto simp: CBS_skip_eq split: if_splits)
  then show ?case using e(2) by simp
next
  case (4 inp ber_found depth x y x2 contents y' tag header_len u v)
  then have "CBS_get_any_ber_asn1_element inp = (Some (contents, tag, header_len), y)" by simp
  then show ?case using ber_element_shorter(1) by simp
next
  case (5 inp ber_found depth x y x2 contents y' tag header_len)
  then have "CBS_get_any_ber_asn1_element inp = (Some (contents, tag, header_len), y)" by simp
  then show ?case using ber_element_shorter(1) by simp
qed simp

declare cbs_find_ber.simps [simp del] cbs_find_ber_loop.simps [simp del]

section \<open>Conversion\<close>

definition is_eoc :: "nat \<Rightarrow> CBS \<Rightarrow> bool" where
  "is_eoc header_len contents =
     (header_len = 2 \<and> CBS_len contents = 2 \<and> OPENSSL_memcmp (CBS_data contents) [0, 0] 2 = 0)"

text \<open>Where an element goes: its builder, the string tag for its children; opens a child unless the
  element is a fragment of a constructed string.\<close>

definition convert_open ::
  "allocator \<Rightarrow> nat \<Rightarrow> u32 \<Rightarrow> u32 \<Rightarrow> CBB \<Rightarrow> (nat \<times> u32) option \<times> CBB" where
  "convert_open m d string_tag tag s =
     (if string_tag \<noteq> 0
      then if tag AND NOT CBS_ASN1_CONSTRUCTED \<noteq> string_tag then (None, s) else (Some (d, string_tag), s)
      else
        case (if tag AND CBS_ASN1_CONSTRUCTED \<noteq> 0 \<and> is_string_type tag
              then (tag AND NOT CBS_ASN1_CONSTRUCTED, tag AND NOT CBS_ASN1_CONSTRUCTED)
              else (tag, string_tag)) of
          (out_tag, child_string_tag) \<Rightarrow>
            (case CBB_add_asn1 m d out_tag s of
               (False, s) \<Rightarrow> (None, s)
             | (True, s) \<Rightarrow> (Some (Suc d, child_string_tag), s)))"

text \<open>One unfolding is one iteration of the loop; the depth test of the function's entry cannot fail in
  later iterations. The result is the success flag, the rest of the input and the builder.\<close>

fun cbs_convert_ber ::
  "nat \<Rightarrow> allocator \<Rightarrow> CBS \<Rightarrow> nat \<Rightarrow> u32 \<Rightarrow> bool \<Rightarrow> nat \<Rightarrow> CBB \<Rightarrow> (bool \<times> CBS \<times> CBB) option" where
  "cbs_convert_ber 0 m inp d string_tag looking_for_eoc depth s = None"
| "cbs_convert_ber (Suc fuel) m inp d string_tag looking_for_eoc depth s =
     (if depth > kMaxDepth then Some (False, inp, s)
      else if CBS_len inp > 0
      then case CBS_get_any_ber_asn1_element inp of
             (None, inp) \<Rightarrow> Some (False, inp, s)
           | (Some (contents, tag, header_len), inp) \<Rightarrow>
               if is_eoc header_len contents then Some (looking_for_eoc, inp, s)
               else
                 (case convert_open m d string_tag tag s of
                    (None, s) \<Rightarrow> Some (False, inp, s)
                  | (Some (dc, child_string_tag), s) \<Rightarrow>
                      if CBS_len contents = header_len \<and> header_len > 0 \<and> CBS_data contents ! (header_len - 1) = 0x80
                      then
                        (case cbs_convert_ber fuel m inp dc child_string_tag True (depth + 1) s of
                           None \<Rightarrow> None
                         | Some (False, inp, s) \<Rightarrow> Some (False, inp, s)
                         | Some (True, inp, s) \<Rightarrow>
                             (case CBB_flush m d s of
                                (False, s) \<Rightarrow> Some (False, inp, s)
                              | (True, s) \<Rightarrow> cbs_convert_ber fuel m inp d string_tag looking_for_eoc depth s))
                      else
                        (case CBS_skip contents header_len of
                           (None, _) \<Rightarrow> Some (False, inp, s)
                         | (Some _, contents) \<Rightarrow>
                             (case (if tag AND CBS_ASN1_CONSTRUCTED \<noteq> 0
                                    then map_option (\<lambda>(ok, _, s). (ok, s))
                                           (cbs_convert_ber fuel m contents dc child_string_tag False (depth + 1) s)
                                    else Some (CBB_add_bytes m dc contents s)) of
                                None \<Rightarrow> None
                              | Some (False, s) \<Rightarrow> Some (False, inp, s)
                              | Some (True, s) \<Rightarrow>
                                  (case CBB_flush m d s of
                                     (False, s) \<Rightarrow> Some (False, inp, s)
                                   | (True, s) \<Rightarrow> cbs_convert_ber fuel m inp d string_tag looking_for_eoc depth s))))
      else Some (\<not> looking_for_eoc, inp, s))"

declare cbs_convert_ber.simps(2) [simp del]

text \<open>On success the result is the element, whether it is in a new buffer, and the rest of the input.\<close>

definition CBS_asn1_ber_to_der :: "allocator \<Rightarrow> nat \<Rightarrow> CBS \<Rightarrow> (u8 list \<times> bool) option \<times> CBS" where
  "CBS_asn1_ber_to_der m k inp =
     (case cbs_find_ber inp False 0 of
        (False, _) \<Rightarrow> (None, inp)
      | (True, conversion_needed) \<Rightarrow>
          if \<not> conversion_needed
          then (case CBS_get_any_asn1_element inp of
                  (None, inp) \<Rightarrow> (None, inp)
                | (Some (out, _, _), inp) \<Rightarrow> (Some (out, False), inp))
          else
            (case CBB_init m k (CBS_len inp) of
               (False, _) \<Rightarrow> (None, inp)
             | (True, cbb) \<Rightarrow>
                 (case cbs_convert_ber (Suc (CBS_len inp)) m inp 0 0 False 0 cbb of
                    None \<Rightarrow> (None, inp)
                  | Some (False, inp, cbb) \<Rightarrow> (None, inp)
                  | Some (True, inp, cbb) \<Rightarrow>
                      (case CBB_finish m 0 True cbb of
                         ((True, Some (storage, len)), _) \<Rightarrow> (Some (CBS_init storage len, True), inp)
                       | _ \<Rightarrow> (None, inp)))))"

lemma get_asn1_shorter: "CBS_get_asn1 cbs tag = (Some c, r) \<Longrightarrow> length r < length cbs"
  using length_der_tag [of tag] by (auto simp: get_asn1_iff der_element_def)

text \<open>The loop that concatenates the fragments of an implicitly tagged constructed string.\<close>

function implicit_string_loop :: "allocator \<Rightarrow> u32 \<Rightarrow> CBS \<Rightarrow> CBB \<Rightarrow> bool \<times> CBB" where
  "implicit_string_loop m inner_tag child s =
     (if CBS_len child > 0
      then case CBS_get_asn1 child inner_tag of
             (None, _) \<Rightarrow> (False, s)
           | (Some chunk, child) \<Rightarrow>
               (case CBB_add_bytes m 0 chunk s of
                  (False, s) \<Rightarrow> (False, s)
                | (True, s) \<Rightarrow> implicit_string_loop m inner_tag child s)
      else (True, s))"
  by pat_completeness auto
termination
  by (relation "measure (\<lambda>(m, t, child, s). length child)") (auto dest!: sym [of "(Some _, _)"] get_asn1_shorter)

declare implicit_string_loop.simps [simp del]

definition CBS_get_asn1_implicit_string ::
  "allocator \<Rightarrow> nat \<Rightarrow> CBS \<Rightarrow> u32 \<Rightarrow> u32 \<Rightarrow> (u8 list \<times> bool) option \<times> CBS" where
  "CBS_get_asn1_implicit_string m k inp outer_tag inner_tag =
     (if CBS_peek_asn1_tag inp outer_tag
      then (case CBS_get_asn1 inp outer_tag of
              (None, inp) \<Rightarrow> (None, inp)
            | (Some out, inp) \<Rightarrow> (Some (out, False), inp))
      else
        (case CBB_init m k (CBS_len inp) of
           (False, _) \<Rightarrow> (None, inp)
         | (True, s) \<Rightarrow>
             (case CBS_get_asn1 inp (outer_tag OR CBS_ASN1_CONSTRUCTED) of
                (None, inp) \<Rightarrow> (None, inp)
              | (Some child, inp) \<Rightarrow>
                  (case implicit_string_loop m inner_tag child s of
                     (False, _) \<Rightarrow> (None, inp)
                   | (True, s) \<Rightarrow>
                       (case CBB_finish m 0 True s of
                          ((True, Some (data, len)), _) \<Rightarrow> (Some (CBS_init data len, True), inp)
                        | _ \<Rightarrow> (None, inp))))))"

end
