(* ===== verification/BerSpec.thy ===== *)
theory BerSpec
  imports Ber
begin

text \<open>
  The conversion of BER to DER: the fuel of \<open>cbs_convert_ber\<close> is always enough; what it writes into the
  builder is what the reference \<open>ber_conv\<close> computes on byte lists; and the result has neither indefinite
  lengths nor constructed strings, so that \<open>cbs_find_ber\<close> finds nothing to convert in it.
\<close>

section \<open>Elements of BER\<close>

definition indefinite :: "nat \<Rightarrow> CBS \<Rightarrow> bool" where
  "indefinite hl e \<longleftrightarrow> length e = hl \<and> hl > 0 \<and> e ! (hl - 1) = 0x80"

lemma ber_element_cases:
  assumes "CBS_get_any_ber_asn1_element inp = (Some (e, tag, hl), rest)"
  obtains c where "length c < 2 ^ 32" "e = der_element tag c" "hl = header_length tag c" "\<not> indefinite hl e"
      "drop hl e = c" "inp = e @ rest"
    | "tag AND CBS_ASN1_CONSTRUCTED \<noteq> 0" "e = der_tag tag @ [0x80]" "hl = length e" "indefinite hl e" "inp = e @ rest"
proof -
  have el: "cbs_get_any_asn1_element inp True = (Some (e, tag, hl), rest)"
    using assms by (simp add: CBS_get_any_ber_asn1_element_def)
  note split = cbs_element_split [OF el]
  from cbs_element_dec [OF el] show thesis
  proof (elim disjE exE conjE)
    fix c :: "u8 list"
    assume c: "length c < 2 ^ 32" "e = der_element tag c" "hl = header_length tag c"
    have "\<not> indefinite hl e"
    proof
      assume i: "indefinite hl e"
      then have "c = []" using c by (simp add: indefinite_def length_der_element)
      then show False using i c
        by (simp add: indefinite_def der_element_def der_len_def header_length_def nth_append)
    qed
    then show thesis using that(1) c split by simp
  next
    assume "tag AND CBS_ASN1_CONSTRUCTED \<noteq> 0" "e = der_tag tag @ [0x80]" "hl = length e"
    then show thesis using that(2) split by (simp add: indefinite_def nth_append)
  qed
qed

section \<open>The reference conversion\<close>

text \<open>The tag an element is written with, and the string tag of its children; inside a constructed string
  (\<open>string_tag \<noteq> 0\<close>) only fragments of the same string type are allowed.\<close>

definition conv_tags :: "u32 \<Rightarrow> u32 \<Rightarrow> (u32 \<times> u32) option" where
  "conv_tags string_tag tag =
     (if string_tag \<noteq> 0 then if tag AND NOT CBS_ASN1_CONSTRUCTED \<noteq> string_tag then None else Some (tag, string_tag)
      else if tag AND CBS_ASN1_CONSTRUCTED \<noteq> 0 \<and> is_string_type tag
      then Some (tag AND NOT CBS_ASN1_CONSTRUCTED, tag AND NOT CBS_ASN1_CONSTRUCTED)
      else Some (tag, 0))"

definition conv_wrap :: "u32 \<Rightarrow> u32 \<Rightarrow> u8 list \<Rightarrow> u8 list" where
  "conv_wrap string_tag tag c = (if string_tag \<noteq> 0 then c else der_element tag c)"

fun ber_conv :: "nat \<Rightarrow> CBS \<Rightarrow> u32 \<Rightarrow> bool \<Rightarrow> nat \<Rightarrow> (u8 list \<times> CBS) option" where
  "ber_conv 0 inp string_tag looking_for_eoc depth = None"
| "ber_conv (Suc fuel) inp string_tag looking_for_eoc depth =
     (if depth > kMaxDepth then None
      else if inp = [] then if looking_for_eoc then None else Some ([], [])
      else case CBS_get_any_ber_asn1_element inp of
             (None, _) \<Rightarrow> None
           | (Some (e, tag, hl), rest) \<Rightarrow>
               if is_eoc hl e then if looking_for_eoc then Some ([], rest) else None
               else
                 (case conv_tags string_tag tag of
                    None \<Rightarrow> None
                  | Some (out_tag, child_tag) \<Rightarrow>
                      (case (if indefinite hl e then ber_conv fuel rest child_tag True (depth + 1)
                             else if tag AND CBS_ASN1_CONSTRUCTED \<noteq> 0
                             then map_option (\<lambda>(c, _). (c, rest)) (ber_conv fuel (drop hl e) child_tag False (depth + 1))
                             else Some (drop hl e, rest)) of
                         None \<Rightarrow> None
                       | Some (c, rest) \<Rightarrow>
                           if string_tag = 0 \<and> length c > 0xfffffffe then None
                           else map_option (\<lambda>(out, r). (conv_wrap string_tag out_tag c @ out, r))
                                  (ber_conv fuel rest string_tag looking_for_eoc depth))))"

declare ber_conv.simps(2) [simp del]

section \<open>The conversion ends\<close>

lemma convert_ber_total:
  "length inp < fuel \<Longrightarrow>
   \<exists>ok r s'. cbs_convert_ber fuel m inp d tag eoc depth s = Some (ok, r, s') \<and> length r \<le> length inp"
proof (induction fuel arbitrary: inp d tag eoc depth s)
  case (Suc fuel)
  show ?case
  proof (cases "depth > kMaxDepth \<or> inp = []")
    case True
    then show ?thesis by (auto simp: cbs_convert_ber.simps(2) CBS_len_def)
  next
    case False
    then have go: "\<not> depth > kMaxDepth" "CBS_len inp > 0" by (simp_all add: CBS_len_def)
    note unfold = cbs_convert_ber.simps(2) [of fuel m inp d tag eoc depth s]
    show ?thesis
    proof (cases "CBS_get_any_ber_asn1_element inp")
      case (Pair el rest)
      show ?thesis
      proof (cases el)
        case None
        then have "rest = inp"
          using Pair cbs_element_None [of inp True rest] by (simp add: CBS_get_any_ber_asn1_element_def)
        then show ?thesis using unfold go Pair None by auto
      next
        case (Some x)
        obtain e t hl where x: "x = (e, t, hl)" by (cases x)
        note short = ber_element_shorter [OF Pair [unfolded Some x]]
        obtain op s1 where op: "convert_open m d tag t s = (op, s1)" by force
        note unfold' = unfold [unfolded Pair Some x prod.case option.case op]
        have less: "length rest < fuel" "length (drop hl e) < fuel" using short Suc.prems by simp_all
        show ?thesis
        proof (cases "is_eoc hl e \<or> op = None")
          case True
          then show ?thesis using unfold' go short by auto
        next
          case False
          then obtain dc ct where "op = Some (dc, ct)" and ne: "\<not> is_eoc hl e" by (cases op) auto
          note unfold'' = unfold' [unfolded this prod.case option.case]
          obtain ok1 r1 t1 where c1: "cbs_convert_ber fuel m rest dc ct True (Suc depth) s1 = Some (ok1, r1, t1)"
              "length r1 \<le> length rest"
            using Suc.IH [OF less(1)] by blast
          obtain ok2 r2 t2 where c2: "cbs_convert_ber fuel m (drop hl e) dc ct False (Suc depth) s1 = Some (ok2, r2, t2)"
            using Suc.IH [OF less(2)] by blast
          obtain ok3 t3 where c3: "CBB_add_bytes m dc (drop hl e) s1 = (ok3, t3)" by force
          have go_on: "\<exists>ok r s'. (case CBB_flush m d u of (False, s) \<Rightarrow> Some (False, r', s)
                | (True, s) \<Rightarrow> cbs_convert_ber fuel m r' d tag eoc depth s) = Some (ok, r, s') \<and> length r \<le> length inp"
            if "length r' \<le> length rest" for r' u
          proof (cases "CBB_flush m d u")
            case (Pair q v)
            then show ?thesis
              using Suc.IH [of r' d tag eoc depth v] that short(1) less(1) by (cases q) force+
          qed
          have sk: "CBS_skip e hl = (Some (), drop hl e)" using short(3) by (simp add: CBS_skip_eq)
          show ?thesis
          proof (cases "CBS_len e = hl \<and> hl > 0 \<and> CBS_data e ! (hl - 1) = 0x80")
            case True
            then show ?thesis using go ne go_on [of r1 t1] c1(2) short(1) by (cases ok1) (auto simp: unfold'' c1(1))
          next
            case False
            then show ?thesis
              using go ne go_on [of rest t2] go_on [of rest t3] short(1)
              by (cases "t AND CBS_ASN1_CONSTRUCTED = 0"; cases ok2; cases ok3) (auto simp: unfold'' sk c2 c3)
          qed
        qed
      qed
    qed
  qed
qed simp

section \<open>The builder follows the reference\<close>

lemma appended_nothing: "length (cbb_children s) = d \<Longrightarrow> \<not> cbb_error s \<Longrightarrow> appended d s [] s"
  by (simp add: appended_def same_shape_def)

text \<open>What closing a freshly opened element leaves.\<close>

lemma close_element:
  assumes m: "alloc_ok m" and s: "cbb_inv s" and op: "CBB_add_asn1 m d tag s = (True, s1)"
    and body: "appended (Suc d) s1 body s2" and i2: "cbb_inv s2" and fl: "CBB_flush m d s2 = (True, s')"
  shows "appended d s (der_element tag body) s'" and "length body \<le> 0xfffffffe"
proof -
  have o1: "opened d s (der_tag tag) 1 True s1" using opensD(2) [OF opens_asn1 m s op] .
  obtain t where t: "appended d s (der_tag tag @ replicate 1 0) t"
    "s1 = cbb_attach d (length (cbb_bytes t) - 1) 1 True t"
    using o1 unfolding opened_def by blast
  obtain bs where bs: "cbb_flushed d s = Some bs" using t(1) by (auto simp: appended_def)
  have a3: "appended d s2 [] s'" using writesD(2) [OF writes_flush m i2 fl] .
  note cl = opened_close [OF o1 body bs]
  show fits: "length body \<le> 0xfffffffe"
    using a3 cl by (auto simp: appended_def length_fits_def split: if_splits)
  have "same_shape s (s'\<lparr>cbb_children := cbb_children s\<rparr>)"
    using t body a3 unfolding appended_def same_shape_def by fastforce
  then show "appended d s (der_element tag body) s'"
    using t(1) a3 cl fits bs by (simp add: appended_def length_fits_def length_prefix_def der_element_def)
qed

text \<open>A builder whose innermost open handle is \<open>d\<close>.\<close>

definition open_at :: "nat \<Rightarrow> CBB \<Rightarrow> bool" where
  "open_at d s \<longleftrightarrow> cbb_inv s \<and> length (cbb_children s) = d \<and> \<not> cbb_error s"

lemma appended_open: "appended d s out t \<Longrightarrow> cbb_inv t \<Longrightarrow> open_at d t"
  using appended_flushed [of d s out t] by (simp add: open_at_def appended_def)

lemma convert_open_spec:
  assumes m: "alloc_ok m" and s: "open_at d s" and op: "convert_open m d st tag s = (Some (dc, ct), s1)"
  obtains otag where "conv_tags st tag = Some (otag, ct)" and "open_at dc s1"
    and "\<And>c s2 s3. appended dc s1 c s2 \<Longrightarrow> cbb_inv s2 \<Longrightarrow> CBB_flush m d s2 = (True, s3) \<Longrightarrow>
      appended d s (conv_wrap st otag c) s3 \<and> cbb_inv s3 \<and> (st = 0 \<longrightarrow> length c \<le> 0xfffffffe)"
proof (cases "st = 0")
  case False
  then have e: "conv_tags st tag = Some (tag, ct)" "dc = d" "s1 = s"
    using op by (auto simp: convert_open_def conv_tags_def split: if_splits)
  have "appended d s (conv_wrap st tag c) s3 \<and> cbb_inv s3"
    if "appended d s c s2" "cbb_inv s2" "CBB_flush m d s2 = (True, s3)" for c s2 s3
    using appended_trans [OF that(1) writesD(2) [OF writes_flush m that(2,3)]]
      writesD(1) [OF writes_flush m that(2), of d] that(3) False
    by (simp add: conv_wrap_def)
  then show thesis using that [of tag] e False s by blast
next
  case True
  obtain otag where o: "conv_tags st tag = Some (otag, ct)" "CBB_add_asn1 m d otag s = (True, s1)" "dc = Suc d"
    using op True by (auto simp: convert_open_def conv_tags_def split: if_splits prod.splits bool.splits)
  have i: "cbb_inv s" using s by (simp add: open_at_def)
  have i1: "cbb_inv s1" and o1: "opened d s (der_tag otag) 1 True s1"
    using opensD(1,2) [OF opens_asn1 m i] o(2) by (metis snd_conv)+
  have "open_at dc s1"
  proof -
    obtain t where t: "appended d s (der_tag otag @ replicate 1 0) t" "s1 = cbb_attach d (length (cbb_bytes t) - 1) 1 True t"
      using o1 by (auto simp: opened_def)
    then show ?thesis using i1 appended_flushed [OF t(1)] o(3) by (simp add: open_at_def appended_def)
  qed
  moreover have "appended d s (conv_wrap st otag c) s3 \<and> cbb_inv s3 \<and> (st = 0 \<longrightarrow> length c \<le> 0xfffffffe)"
    if "appended dc s1 c s2" "cbb_inv s2" "CBB_flush m d s2 = (True, s3)" for c s2 s3
    using close_element [OF m i o(2) that(1) [unfolded o(3)] that(2,3)]
      writesD(1) [OF writes_flush m that(2), of d] that(3) True
    by (simp add: conv_wrap_def)
  ultimately show thesis using that o(1) by blast
qed

lemma convert_ber_refines:
  assumes m: "alloc_ok m"
  shows "open_at d s \<Longrightarrow> cbs_convert_ber fuel m inp d st eoc depth s = Some (True, r, s') \<Longrightarrow>
    \<exists>out. ber_conv fuel inp st eoc depth = Some (out, r) \<and> appended d s out s' \<and> cbb_inv s'"
proof (induction fuel arbitrary: inp d st eoc depth s r s')
  case (Suc fuel)
  note inv = Suc.prems(1)
  have here: "appended d s [] s" "cbb_inv s" using inv appended_nothing by (auto simp: open_at_def)
  note unfold = cbs_convert_ber.simps(2) [of fuel m inp d st eoc depth s]
  note spec = ber_conv.simps(2) [of fuel inp st eoc depth]
  have deep: "\<not> depth > kMaxDepth" using Suc.prems(2) unfold by auto
  show ?case
  proof (cases "inp = []")
    case True
    then show ?thesis using Suc.prems(2) unfold spec deep here by (auto simp: CBS_len_def)
  next
    case False
    then have go: "CBS_len inp > 0" by (simp add: CBS_len_def)
    obtain el rest where el: "CBS_get_any_ber_asn1_element inp = (el, rest)" by force
    have "el \<noteq> None"
    proof
      assume "el = None"
      then show False using Suc.prems(2) unfold deep go el by simp
    qed
    then obtain e t hl where x: "el = Some (e, t, hl)" by auto
    note short = ber_element_shorter [OF el [unfolded x]]
    note spec' = spec [unfolded el x prod.case option.case]
    note unfold' = unfold [unfolded el x prod.case option.case]
    show ?thesis
    proof (cases "is_eoc hl e")
      case True
      then show ?thesis using Suc.prems(2) unfold' spec' deep go False here by auto
    next
      case ne: False
      obtain dc ct s1 where op: "convert_open m d st t s = (Some (dc, ct), s1)"
        using Suc.prems(2) unfold' deep go ne by (cases "convert_open m d st t s") (auto split: option.splits)
      obtain otag where tags: "conv_tags st t = Some (otag, ct)" and s1: "open_at dc s1"
        and close: "\<And>c s2 s3. appended dc s1 c s2 \<Longrightarrow> cbb_inv s2 \<Longrightarrow> CBB_flush m d s2 = (True, s3) \<Longrightarrow>
          appended d s (conv_wrap st otag c) s3 \<and> cbb_inv s3 \<and> (st = 0 \<longrightarrow> length c \<le> 0xfffffffe)"
        using convert_open_spec [OF m inv op] by metis
      note spec'' = spec' [unfolded tags option.case prod.case]
      note unfold'' = unfold' [unfolded op prod.case option.case]
      have finish: ?thesis
        if "(if indefinite hl e then ber_conv fuel rest ct True (depth + 1)
             else if t AND CBS_ASN1_CONSTRUCTED \<noteq> 0
             then map_option (\<lambda>(c, _). (c, rest)) (ber_conv fuel (drop hl e) ct False (depth + 1))
             else Some (drop hl e, rest)) = Some (c, rest')"
          and "appended dc s1 c s2" "cbb_inv s2" "CBB_flush m d s2 = (True, s3)"
          and "cbs_convert_ber fuel m rest' d st eoc depth s3 = Some (True, r, s')" for c rest' s2 s3
      proof -
        note again = that(5)
        have c: "appended d s (conv_wrap st otag c) s3" "cbb_inv s3" "st = 0 \<longrightarrow> length c \<le> 0xfffffffe"
          using close [OF that(2-4)] by auto
        obtain out where out: "ber_conv fuel rest' st eoc depth = Some (out, r)" "appended d s3 out s'" "cbb_inv s'"
          using Suc.IH [OF appended_open [OF c(1,2)] again] by blast
        have "ber_conv (Suc fuel) inp st eoc depth = Some (conv_wrap st otag c @ out, r)"
          using spec'' deep False ne c(3) out(1) by (auto simp: that(1))
        then show ?thesis using appended_trans [OF c(1) out(2)] out(3) by blast
      qed
      show ?thesis
      proof (cases "indefinite hl e")
        case True
        then have "CBS_len e = hl \<and> hl > 0 \<and> CBS_data e ! (hl - 1) = 0x80"
          by (simp add: indefinite_def CBS_len_def CBS_data_def)
        then obtain r1 s2 s3 where run: "cbs_convert_ber fuel m rest dc ct True (depth + 1) s1 = Some (True, r1, s2)"
            "CBB_flush m d s2 = (True, s3)" "cbs_convert_ber fuel m r1 d st eoc depth s3 = Some (True, r, s')"
          using Suc.prems(2) deep go ne
          by (auto simp: unfold'' split: option.splits prod.splits bool.splits)
        obtain c where "ber_conv fuel rest ct True (depth + 1) = Some (c, r1)" "appended dc s1 c s2" "cbb_inv s2"
          using Suc.IH [OF s1 run(1)] by blast
        then show ?thesis using True by (intro finish [OF _ _ _ run(2,3)]) simp_all
      next
        case nind: False
        then have nind': "\<not> (CBS_len e = hl \<and> hl > 0 \<and> CBS_data e ! (hl - 1) = 0x80)"
          by (simp add: indefinite_def CBS_len_def CBS_data_def)
        have sk: "CBS_skip e hl = (Some (), drop hl e)" using short(3) by (simp add: CBS_skip_eq)
        show ?thesis
        proof (cases "t AND CBS_ASN1_CONSTRUCTED \<noteq> 0")
          case True
          then obtain r1 s2 s3 where run: "cbs_convert_ber fuel m (drop hl e) dc ct False (depth + 1) s1 = Some (True, r1, s2)"
              "CBB_flush m d s2 = (True, s3)" "cbs_convert_ber fuel m rest d st eoc depth s3 = Some (True, r, s')"
            using Suc.prems(2) deep go ne nind'
            by (auto simp: unfold'' sk split: option.splits prod.splits bool.splits)
          obtain c where "ber_conv fuel (drop hl e) ct False (depth + 1) = Some (c, r1)" "appended dc s1 c s2" "cbb_inv s2"
            using Suc.IH [OF s1 run(1)] by blast
          then show ?thesis using True nind by (intro finish [OF _ _ _ run(2,3)]) simp_all
        next
          case False
          then obtain s2 s3 where run: "CBB_add_bytes m dc (drop hl e) s1 = (True, s2)"
              "CBB_flush m d s2 = (True, s3)" "cbs_convert_ber fuel m rest d st eoc depth s3 = Some (True, r, s')"
            using Suc.prems(2) deep go ne nind'
            by (auto simp: unfold'' sk split: option.splits prod.splits bool.splits)
          obtain c where "length c < 2 ^ 32" "drop hl e = c"
            using ber_element_cases [OF el [unfolded x]] nind by metis
          then have "length (drop hl e) < 2 ^ 63" by simp
          from writesD(1,2) [OF writes_bytes [OF this] m, of s1 dc] s1 run(1)
          have "appended dc s1 (drop hl e) s2" "cbb_inv s2" by (simp_all add: open_at_def)
          then show ?thesis using False nind by (intro finish [OF _ _ _ run(2,3)]) simp_all
        qed
      qed
    qed
  qed
qed simp

section \<open>The result is free of BER\<close>

text \<open>A sequence of DER elements with at most \<open>n\<close> levels below the first, none of them a constructed
  string.\<close>

inductive clean :: "nat \<Rightarrow> u8 list \<Rightarrow> bool" where
  clean_Nil: "clean n []"
| clean_prim: "tag AND CBS_ASN1_CONSTRUCTED = 0 \<Longrightarrow> length c \<le> 0xfffffffe \<Longrightarrow> clean n rest \<Longrightarrow>
    clean n (der_element tag c @ rest)"
| clean_cons: "tag AND CBS_ASN1_CONSTRUCTED \<noteq> 0 \<Longrightarrow> \<not> is_string_type tag \<Longrightarrow> length c \<le> 0xfffffffe \<Longrightarrow> clean n c \<Longrightarrow>
    clean (Suc n) rest \<Longrightarrow> clean (Suc n) (der_element tag c @ rest)"

lemma ber_conv_clean:
  "ber_conv fuel inp 0 eoc depth = Some (out, r) \<Longrightarrow> clean (kMaxDepth - depth) out"
proof (induction fuel arbitrary: inp eoc depth out r)
  case (Suc fuel)
  note spec = ber_conv.simps(2) [of fuel inp 0 eoc depth]
  have deep: "\<not> depth > kMaxDepth" using Suc.prems spec by auto
  show ?case
  proof (cases "inp = []")
    case True
    then show ?thesis using Suc.prems spec deep by (auto intro: clean_Nil split: if_splits)
  next
    case False
    obtain el rest where el: "CBS_get_any_ber_asn1_element inp = (el, rest)" by force
    have "el \<noteq> None"
    proof
      assume "el = None"
      then show False using Suc.prems spec deep False el by simp
    qed
    then obtain e t hl where x: "el = Some (e, t, hl)" by auto
    note spec' = spec [unfolded el x prod.case option.case]
    show ?thesis
    proof (cases "is_eoc hl e")
      case True
      then show ?thesis using Suc.prems spec' deep False by (auto intro: clean_Nil split: if_splits)
    next
      case ne: False
      obtain otag ct where tags: "conv_tags 0 t = Some (otag, ct)"
        using Suc.prems spec' deep False ne by (cases "conv_tags 0 t") auto
      note spec'' = spec' [unfolded tags option.case prod.case]
      let ?body = "if indefinite hl e then ber_conv fuel rest ct True (depth + 1)
             else if t AND CBS_ASN1_CONSTRUCTED \<noteq> 0
             then map_option (\<lambda>(c, _). (c, rest)) (ber_conv fuel (drop hl e) ct False (depth + 1))
             else Some (drop hl e, rest)"
      obtain c rest' where body: "?body = Some (c, rest')"
        using Suc.prems spec'' deep False ne by (cases ?body) auto
      obtain out' where out': "ber_conv fuel rest' 0 eoc depth = Some (out', r)"
          "out = der_element otag c @ out'" "length c \<le> 0xfffffffe"
        using Suc.prems spec'' deep False ne unfolding body
        by (auto simp: conv_wrap_def split: if_splits)
      note tail = Suc.IH [OF out'(1)]
      show ?thesis
      proof (cases "t AND CBS_ASN1_CONSTRUCTED \<noteq> 0 \<and> \<not> is_string_type t")
        case True
        then have o: "otag = t" "ct = 0" using tags by (auto simp: conv_tags_def)
        obtain inp' eoc' r' where inner: "ber_conv fuel inp' 0 eoc' (depth + 1) = Some (c, r')"
          using body True o by (auto split: if_splits)
        have "\<not> depth + 1 > kMaxDepth" using inner by (cases fuel) (auto simp: ber_conv.simps(2))
        then have k: "kMaxDepth - depth = Suc (kMaxDepth - (depth + 1))" by simp
        show ?thesis
          using clean_cons [OF _ _ out'(3) Suc.IH [OF inner] tail [unfolded k]] True o unfolding out'(2) k by simp
      next
        case False
        have "otag AND CBS_ASN1_CONSTRUCTED = 0"
          using tags False by (auto simp: conv_tags_def and.assoc split: if_splits)
        then show ?thesis unfolding out'(2) by (rule clean_prim [OF _ out'(3) tail])
      qed
    qed
  qed
qed simp

lemma find_ber_element:
  assumes "length c \<le> 0xfffffffe"
  shows "cbs_find_ber_loop (der_element tag c @ rest) f depth =
    (if tag AND CBS_ASN1_CONSTRUCTED \<noteq> 0
     then if is_string_type tag then (True, True)
          else case cbs_find_ber c f (depth + 1) of (False, f) \<Rightarrow> (False, f) | (True, f) \<Rightarrow> cbs_find_ber_loop rest f depth
     else cbs_find_ber_loop rest f depth)"
proof -
  let ?e = "der_element tag c" and ?h = "header_length tag c"
  have len: "length c < 2 ^ 32" using assms by simp
  have e: "CBS_get_any_ber_asn1_element (?e @ rest) = (Some (?e, tag, ?h), rest)"
    using cbs_element_enc [OF len] by (simp add: CBS_get_any_ber_asn1_element_def)
  have ne: "(CBS_len (?e @ rest) > 0) = True"
    using length_der_tag [of tag] by (simp add: CBS_len_def der_element_def)
  have "\<not> indefinite ?h ?e"
  proof
    assume i: "indefinite ?h ?e"
    then have "c = []" by (simp add: indefinite_def length_der_element)
    then show False using i by (simp add: indefinite_def der_element_def der_len_def header_length_def nth_append)
  qed
  then have ni: "(CBS_len ?e = ?h \<and> ?h > 0 \<and> CBS_data ?e ! (?h - 1) = 0x80) = False"
    by (simp add: indefinite_def CBS_len_def CBS_data_def)
  have sk: "CBS_skip ?e ?h = (Some (), c)" by (simp add: CBS_skip_eq length_der_element)
  show ?thesis
    by (simp only: cbs_find_ber_loop.simps [of "?e @ rest" f depth] e ne ni sk prod.case option.case if_True if_False)
qed

lemma clean_find_ber:
  "clean n bs \<Longrightarrow> n + depth \<le> kMaxDepth \<Longrightarrow> cbs_find_ber_loop bs False depth = (True, False)"
proof (induction n bs arbitrary: depth rule: clean.induct)
  case (clean_Nil n)
  then show ?case by (simp add: cbs_find_ber_loop.simps [of "[]"] CBS_len_def)
next
  case (clean_prim tag c n rest)
  then show ?case by (simp add: find_ber_element)
next
  case (clean_cons tag c n rest)
  have "cbs_find_ber c False (depth + 1) = (True, False)"
    using clean_cons.IH(1) [of "depth + 1"] clean_cons.prems
    by (simp add: cbs_find_ber.simps [of c] CBS_init_def CBS_data_def CBS_len_def)
  then show ?case using clean_cons by (simp add: find_ber_element)
qed

section \<open>The flag of the search\<close>

text \<open>The flag that a call finds in its caller's variable is lost. Among siblings of definite length, only the
  last constructed one decides.\<close>

lemma find_ber_flag: "depth \<le> kMaxDepth \<Longrightarrow> cbs_find_ber c f depth = cbs_find_ber c False depth"
  by (simp add: cbs_find_ber.simps [of c])

definition siblings :: "(u32 \<times> u8 list) list \<Rightarrow> u8 list" where
  "siblings xs = concat (map (\<lambda>(tag, c). der_element tag c) xs)"

definition last_flag :: "nat \<Rightarrow> (u32 \<times> u8 list) list \<Rightarrow> bool \<Rightarrow> bool" where
  "last_flag depth =
     fold (\<lambda>(tag, c) found. if tag AND CBS_ASN1_CONSTRUCTED \<noteq> 0 then snd (cbs_find_ber c False (depth + 1)) else found)"

lemma find_ber_siblings:
  assumes "depth < kMaxDepth"
    and "\<forall>(tag, c) \<in> set xs. length c \<le> 0xfffffffe \<and>
      (tag AND CBS_ASN1_CONSTRUCTED \<noteq> 0 \<longrightarrow> \<not> is_string_type tag \<and> fst (cbs_find_ber c False (depth + 1)))"
  shows "cbs_find_ber_loop (siblings xs) f depth = (True, last_flag depth xs f)"
  using assms(2)
proof (induction xs arbitrary: f)
  case Nil
  then show ?case by (simp add: siblings_def last_flag_def cbs_find_ber_loop.simps [of "[]"] CBS_len_def)
next
  case (Cons x xs)
  obtain tag c where x: "x = (tag, c)" by (cases x)
  have c: "length c \<le> 0xfffffffe" "\<And>g. cbs_find_ber c g (depth + 1) = cbs_find_ber c False (depth + 1)"
    using Cons.prems assms(1) find_ber_flag [of "depth + 1"] by (auto simp: x)
  have IH: "cbs_find_ber_loop (siblings xs) g depth = (True, last_flag depth xs g)" for g
    using Cons.IH Cons.prems by simp
  have s: "siblings (x # xs) = der_element tag c @ siblings xs" by (simp add: x siblings_def)
  show ?case
    using Cons.prems unfolding s find_ber_element [OF c(1)] c(2) [of f] IH
    by (cases "cbs_find_ber c False (depth + 1)") (auto simp: x last_flag_def)
qed

text \<open>The whole conversion.\<close>

lemma ber_to_der_converted:
  assumes m: "alloc_ok m" and len: "length inp < 2 ^ 63"
    and r: "CBS_asn1_ber_to_der m k inp = (Some (out, True), rest)"
  shows "ber_conv (Suc (length inp)) inp 0 False 0 = Some (out, rest)" and "clean kMaxDepth out"
    and "cbs_find_ber out False 0 = (True, False)"
proof -
  obtain cbb rest' cbb' buf n s2 where run: "CBB_init m k (length inp) = (True, cbb)"
      "cbs_convert_ber (Suc (length inp)) m inp 0 0 False 0 cbb = Some (True, rest', cbb')"
      "CBB_finish m 0 True cbb' = ((True, Some (buf, n)), s2)" "out = CBS_init buf n" "rest = rest'"
    using r by (auto simp: CBS_asn1_ber_to_der_def CBS_len_def split: prod.splits bool.splits option.splits if_splits)
  have i: "open_at 0 cbb" "cbb_flushed 0 cbb = Some []"
    using CBB_init_spec [OF m len run(1)] by (auto simp: open_at_def)
  obtain o' where o: "ber_conv (Suc (length inp)) inp 0 False 0 = Some (o', rest')" "appended 0 cbb o' cbb'" "cbb_inv cbb'"
    using convert_ber_refines [OF m i(1) run(2)] by blast
  have "cbb_flushed 0 cbb' = Some o'" using o(2) i(2) by (auto simp: appended_def)
  then have "out = o'" using CBB_finish_spec [OF m o(3) run(3)] run(4) by (simp add: CBS_init_def)
  then show conv: "ber_conv (Suc (length inp)) inp 0 False 0 = Some (out, rest)" using o(1) run(5) by simp
  show c: "clean kMaxDepth out" using ber_conv_clean [OF conv] by simp
  then show "cbs_find_ber out False 0 = (True, False)"
    using clean_find_ber [OF c, of 0] by (simp add: cbs_find_ber.simps [of out] CBS_init_def CBS_data_def CBS_len_def)
qed

end
