(* ===== verification/Concrete.thy ===== *)
theory Concrete
  imports Prelude Qsort
begin

text \<open>
  The concrete parameters at which the properties are evaluated: an allocator that serves small requests
  with zeroed blocks, and a comparison function.
\<close>

definition zeroed :: allocator where
  "zeroed k n = (if n < 4096 then Some (replicate n 0) else None)"

lemma zeroed_ok: "alloc_ok zeroed"
  by (auto simp: alloc_ok_def zeroed_def split: if_splits)

lemma zeroed_avail: "alloc_avail zeroed 4000"
  by (auto simp: alloc_avail_def zeroed_def)

text \<open>A client's comparison function, the same for every function pointer: pointers by address.\<close>

definition by_address :: "u64 \<Rightarrow> u64 \<Rightarrow> u64 \<Rightarrow> int" where
  "by_address f x y = (if x < y then - 1 else if y < x then 1 else 0)"

lemma by_address_comparator: "comparator (by_address f)"
  by unfold_locales (auto simp: by_address_def split: if_splits)

end
