(* ===== verification/BerProperties.thy ===== *)
theory BerProperties
  imports BerSpec Concrete
begin

text \<open>
  The properties of the conversion of BER to DER, each with an instance at a concrete input.
\<close>

text \<open>C8: What \<open>CBS_asn1_ber_to_der\<close> converts is the reference conversion of its input, and the result is
  clean: a sequence of DER elements without indefinite lengths or constructed strings, in which
  \<open>cbs_find_ber\<close> finds nothing more to convert.\<close>

theorem ber_to_der_clean:
  assumes "alloc_ok m" and "length inp < 2 ^ 63" and "CBS_asn1_ber_to_der m k inp = (Some (out, True), rest)"
  shows "ber_conv (Suc (length inp)) inp 0 False 0 = Some (out, rest) \<and> clean kMaxDepth out \<and>
    cbs_find_ber out False 0 = (True, False)"
  using ber_to_der_converted [OF assms] by blast

theorem ber_to_der_clean_witness:
  "CBS_asn1_ber_to_der zeroed 0 [0x24, 0x80, 0, 0] = (Some ([4, 0], True), []) \<and> clean kMaxDepth [4, 0]"
proof -
  have r: "CBS_asn1_ber_to_der zeroed 0 [0x24, 0x80, 0, 0] = (Some ([4, 0], True), [])" by code_simp
  from ber_to_der_clean [OF zeroed_ok _ r] r show ?thesis by simp
qed

text \<open>C31: The conversion ends on every input: a fuel of one more than the length of the input is always
  enough for the loops and the recursion of \<open>cbs_convert_ber\<close>.\<close>

theorem convert_ber_terminates:
  assumes "length inp < fuel"
  shows "\<exists>ok rest s'. cbs_convert_ber fuel m inp d string_tag looking_for_eoc depth s = Some (ok, rest, s')"
  using convert_ber_total [OF assms] by blast

theorem convert_ber_terminates_witness:
  "\<exists>ok rest s'. cbs_convert_ber 4 zeroed [0x30, 0x80, 0x24] 0 0 False 0 (snd (CBB_init zeroed 0 8)) = Some (ok, rest, s')"
  by (rule convert_ber_terminates) simp

text \<open>C32: \<open>cbs_find_ber\<close> clears its result in every recursive call, so that its flag says only what the last
  constructed one of the siblings holds (primitive ones do not count), when no sibling is itself a constructed
  string or of indefinite length and the search in each of them succeeds: BER that was found in an earlier sibling
  is forgotten.\<close>

theorem find_ber_forgets:
  assumes "depth < kMaxDepth"
    and "\<forall>(tag, c) \<in> set xs. length c \<le> 0xfffffffe \<and>
      (tag AND CBS_ASN1_CONSTRUCTED \<noteq> 0 \<longrightarrow> \<not> is_string_type tag \<and> fst (cbs_find_ber c False (depth + 1)))"
  shows "cbs_find_ber (concat (map (\<lambda>(tag, c). der_element tag c) xs)) ber_found depth =
    (True, fold (\<lambda>(tag, c) found. if tag AND CBS_ASN1_CONSTRUCTED \<noteq> 0 then snd (cbs_find_ber c False (depth + 1)) else found)
       xs False)"
  using find_ber_siblings [OF assms, of False] assms(1)
  by (simp add: cbs_find_ber.simps CBS_init_def CBS_data_def CBS_len_def siblings_def last_flag_def)

text \<open>So \<open>CBS_asn1_ber_to_der\<close> returns a structure unchanged, as if it were DER, in which a constructed string
  stands in front of an empty sequence.\<close>

theorem find_ber_forgets_witness:
  "cbs_find_ber [0x24, 3, 4, 1, 0xaa] False 2 = (True, True) \<and>
   cbs_find_ber [0x30, 5, 0x24, 3, 4, 1, 0xaa, 0x30, 0] False 1 = (True, False) \<and>
   CBS_asn1_ber_to_der zeroed 0 [0x30, 9, 0x30, 5, 0x24, 3, 4, 1, 0xaa, 0x30, 0] =
     (Some ([0x30, 9, 0x30, 5, 0x24, 3, 4, 1, 0xaa, 0x30, 0], False), [])"
proof -
  let ?seq = "0x20000010 :: u32" and ?inner = "[0x30, 5, 0x24, 3, 4, 1, 0xaa, 0x30, 0] :: u8 list"
  let ?out = "[0x30, 9, 0x30, 5, 0x24, 3, 4, 1, 0xaa, 0x30, 0] :: u8 list"
  have deep: "0 < kMaxDepth" "1 < kMaxDepth" "2 \<le> kMaxDepth" by (simp_all add: kMaxDepth_def)
  have tag: "?seq AND CBS_ASN1_CONSTRUCTED \<noteq> 0" "\<not> is_string_type ?seq"
      "0x20000004 AND CBS_ASN1_CONSTRUCTED \<noteq> 0" "is_string_type 0x20000004"
    by (simp_all add: is_string_type_def CBS_ASN1_CONSTRUCTED_def CBS_ASN1_BITSTRING_def CBS_ASN1_OCTETSTRING_def
        CBS_ASN1_UTF8STRING_def CBS_ASN1_NUMERICSTRING_def CBS_ASN1_PRINTABLESTRING_def CBS_ASN1_T61STRING_def
        CBS_ASN1_VIDEOTEXSTRING_def CBS_ASN1_IA5STRING_def CBS_ASN1_GRAPHICSTRING_def CBS_ASN1_VISIBLESTRING_def
        CBS_ASN1_GENERALSTRING_def CBS_ASN1_UNIVERSALSTRING_def CBS_ASN1_BMPSTRING_def CBS_ASN1_TAG_SHIFT_def)
  have bytes: "der_element 0x20000004 [4, 1, 0xaa] = [0x24, 3, 4, 1, 0xaa]" "der_element ?seq ?inner = ?out"
      "concat (map (\<lambda>(tag, c). der_element tag c) [(?seq, [0x24, 3, 4, 1, 0xaa]), (?seq, [])]) = ?inner"
    by code_simp+
  have found: "cbs_find_ber [0x24, 3, 4, 1, 0xaa] False 2 = (True, True)"
    using find_ber_element [of "[4, 1, 0xaa]" "0x20000004" "[]" False 2] tag(3,4) bytes(1) deep(3)
    by (simp add: cbs_find_ber.simps CBS_init_def CBS_data_def CBS_len_def)
  have none: "cbs_find_ber [] False 2 = (True, False)" by code_simp
  have inner: "cbs_find_ber ?inner False 1 = (True, False)"
    using find_ber_forgets [OF deep(2), of "[(?seq, [0x24, 3, 4, 1, 0xaa]), (?seq, [])]" False, unfolded bytes(3)]
      found none tag(1,2) by (simp add: numeral_2_eq_2)
  have outer: "cbs_find_ber ?out False 0 = (True, False)"
    using find_ber_forgets [OF deep(1), of "[(?seq, ?inner)]" False] inner tag(1,2) bytes(2) by simp
  have "CBS_get_any_asn1_element ?out = (Some (?out, ?seq, 2), [])" by code_simp
  then show ?thesis using found inner outer by (simp add: CBS_asn1_ber_to_der_def)
qed

end
