(* ===== verification/Oid.thy ===== *)
theory Oid
  imports DerInt
begin

text \<open>
  OBJECT IDENTIFIERs: the correspondence between the DER contents octets (base-128 components) and the
  dotted-decimal text, which \<open>CBB_add_asn1_oid_from_text\<close> and \<open>CBS_asn1_oid_to_text\<close> implement in the
  two directions. An identifier is a non-empty list of 64-bit components, the first of which packs the
  first two numbers of the text.
\<close>

section \<open>Reference\<close>

definition oid_contents :: "u64 list \<Rightarrow> u8 list" where
  "oid_contents cs = concat (map (\<lambda>c. base128 (unat c)) cs)"

definition oid_head :: "u64 \<Rightarrow> u8 list" where
  "oid_head v =
     (if unat v \<ge> 80 then [50, 46] @ decimal (unat v - 80)
      else decimal (unat v div 40) @ [46] @ decimal (unat v mod 40))"

definition oid_tail :: "u64 list \<Rightarrow> u8 list" where
  "oid_tail cs = concat (map (\<lambda>c. 46 # decimal (unat c)) cs)"

fun oid_text :: "u64 list \<Rightarrow> u8 list" where
  "oid_text [] = []"
| "oid_text (v # cs) = oid_head v @ oid_tail cs"

lemma c_and_case: "(case f s of (False, s) \<Rightarrow> (False, s) | (True, s) \<Rightarrow> g s) = c_and f g s"
  by (auto simp: c_and_def split: prod.splits)

lemma c_and_assoc: "c_and (c_and f g) h = c_and f (c_and g h)"
  by (rule ext) (auto simp: c_and_def split: prod.splits)

section \<open>Decimal numbers\<close>

lemma decimal_small: "n < 10 \<Longrightarrow> decimal n = [of_nat (48 + n)]"
  by (simp add: decimal.simps)

lemma decimal_step: "n \<noteq> 0 \<Longrightarrow> d < 10 \<Longrightarrow> decimal (n * 10 + d) = decimal n @ [of_nat (48 + d)]"
  by (subst decimal.simps) auto

lemma decimal_nonempty: "decimal n \<noteq> []"
  by (subst decimal.simps) simp

lemma length_decimal: "n < 10 ^ Suc k \<Longrightarrow> length (decimal n) \<le> Suc k"
proof (induction k arbitrary: n)
  case 0
  then show ?case by (simp add: decimal_small)
next
  case (Suc k)
  then have "n div 10 < 10 ^ Suc k" by (simp add: less_mult_imp_div_less)
  with Suc.IH [of "n div 10"] show ?case by (subst decimal.simps) simp
qed

lemma decimal_digit: "u \<in> set (decimal n) \<Longrightarrow> 48 \<le> unat u \<and> unat u \<le> 57"
proof (induction n rule: decimal.induct)
  case (1 n)
  have "unat (of_nat (48 + d) :: u8) = 48 + d" if "d < 10" for d
    using that by (simp only: byte_arith) simp
  then show ?case using 1 by (subst (asm) (2) decimal.simps) (auto split: if_splits)
qed

lemma parse_dotted_loop_Nil [simp]: "parse_dotted_loop out seen [] = (Some (out, seen), [])"
  by (subst parse_dotted_loop.simps) simp

lemma unat_of_nat_u64: "n < 2 ^ 64 \<Longrightarrow> unat (of_nat n :: u64) = n"
  by (simp add: unat_of_nat)

lemma dotted_overflow:
  assumes d: "unat D \<le> 9"
  shows "(out > - 1 div 10 \<or> out * 10 > - 1 - D) \<longleftrightarrow> 2 ^ 64 \<le> unat (out :: u64) * 10 + unat D"
proof -
  have m: "out > - 1 div 10 \<longleftrightarrow> 1844674407370955161 < unat out" by (simp add: word_less_nat_alt)
  have "unat (- 1 :: u64) = 2 ^ 64 - 1" by (simp add: unsigned_minus_1_eq_mask mask_eq_exp_minus_1)
  moreover have "D \<le> - 1" by simp
  ultimately have mx: "unat (- 1 - D) = 2 ^ 64 - 1 - unat D" by (simp only: unat_sub)
  have o: "out * 10 > - 1 - D \<longleftrightarrow> 2 ^ 64 - 1 - unat D < unat (out * 10)"
    unfolding word_less_nat_alt mx by (rule refl)
  show ?thesis
  proof (cases "unat out \<le> 1844674407370955161")
    case True
    then have "unat (out * 10) = unat out * 10" by (simp add: unat_word_ariths)
    then show ?thesis unfolding m o using True d by simp linarith
  next
    case False
    then show ?thesis unfolding m by simp
  qed
qed

lemma dotted_guard:
  assumes "48 \<le> unat u" and "unat u \<le> 57"
  shows "(out > - 1 div 10 \<or> out * 10 > - 1 - (ucast u - 48)) \<longleftrightarrow> 2 ^ 64 \<le> unat (out :: u64) * 10 + (unat (u :: u8) - 48)"
    and "unat out * 10 + (unat u - 48) < 2 ^ 64 \<Longrightarrow>
      out * 10 + (ucast u - 48) = of_nat (unat out * 10 + (unat u - 48))"
proof -
  have d: "(ucast u - 48 :: u64) = of_nat (unat u - 48)"
    using assms by (simp add: of_nat_diff)
  have ud: "unat (ucast u - 48 :: u64) = unat u - 48"
    unfolding d by (rule unat_of_nat_u64) (use assms in simp)
  show "(out > - 1 div 10 \<or> out * 10 > - 1 - (ucast u - 48)) \<longleftrightarrow> 2 ^ 64 \<le> unat out * 10 + (unat u - 48)"
    using dotted_overflow [of "ucast u - 48" out] assms unfolding ud by simp
  show "unat out * 10 + (unat u - 48) < 2 ^ 64 \<Longrightarrow>
      out * 10 + (ucast u - 48) = of_nat (unat out * 10 + (unat u - 48))"
    by (simp add: d)
qed

lemma parse_dotted_loop_Cons:
  "parse_dotted_loop out seen (u # bs) =
     (if u = 46 \<and> bs \<noteq> [] then (Some (out, seen), bs)
      else if unat u < 48 \<or> 57 < unat u \<or> seen \<and> out = 0 \<or> 2 ^ 64 \<le> unat out * 10 + (unat u - 48)
      then (None, bs)
      else parse_dotted_loop (of_nat (unat out * 10 + (unat u - 48))) True bs)"
proof -
  have lo: "u < 48 \<longleftrightarrow> unat u < 48" and hi: "u > 57 \<longleftrightarrow> 57 < unat u"
    by (simp_all add: word_less_nat_alt)
  have eq: "parse_dotted_loop out seen (u # bs) =
     (if u = 46 \<and> bs \<noteq> [] then (Some (out, seen), bs)
      else if unat u < 48 \<or> 57 < unat u \<or> (seen \<and> out = 0) \<or>
         (out > - 1 div 10 \<or> out * 10 > - 1 - (ucast u - 48))
      then (None, bs)
      else parse_dotted_loop (out * 10 + (ucast u - 48)) True bs)"
    by (subst parse_dotted_loop.simps) (simp add: CBS_len_def lo hi)
  show ?thesis
  proof (cases "unat u < 48 \<or> 57 < unat u")
    case True
    then show ?thesis unfolding eq by auto
  next
    case False
    then have u: "48 \<le> unat u" "unat u \<le> 57" by auto
    show ?thesis
    proof (cases "2 ^ 64 \<le> unat out * 10 + (unat u - 48)")
      case True
      then show ?thesis unfolding eq dotted_guard(1) [OF u] by (simp only: simp_thms if_True)
    next
      case nw: False
      then have e: "out * 10 + (ucast u - 48) = of_nat (unat out * 10 + (unat u - 48))"
        using dotted_guard(2) [OF u, of out] by simp
      show ?thesis unfolding eq dotted_guard(1) [OF u] e by (rule refl)
    qed
  qed
qed

lemma parse_dotted_loop_decimal:
  "n < 2 ^ 64 \<Longrightarrow> parse_dotted_loop 0 False (decimal n @ bs) = parse_dotted_loop (of_nat n) True bs"
proof (induction n arbitrary: bs rule: decimal.induct)
  case (1 n)
  have c: "unat (of_nat (48 + d) :: u8) = 48 + d \<and> of_nat (48 + d) \<noteq> (46 :: u8)" if "d < 10" for d
  proof -
    have "unat (of_nat (48 + d) :: u8) = 48 + d" using that by (simp only: byte_arith) simp
    then show ?thesis by (auto simp: word_unat_eq_iff)
  qed
  show ?case
  proof (cases "n < 10")
    case True
    then show ?thesis using c [OF True]
      by (simp add: decimal_small parse_dotted_loop_Cons del: of_nat_add)
  next
    case False
    have u: "unat (of_nat (n div 10) :: u64) = n div 10"
      using 1(2) by (simp add: unat_of_nat)
    have nz: "(of_nat (n div 10) :: u64) \<noteq> 0"
    proof
      assume "(of_nat (n div 10) :: u64) = 0"
      then have "n div 10 = 0" using u by simp
      then show False using False by (simp add: div_eq_0_iff)
    qed
    have d: "n mod 10 < 10" by simp
    then have d': "\<not> 9 < n mod 10" by linarith
    have "parse_dotted_loop 0 False (decimal n @ bs) =
        parse_dotted_loop 0 False (decimal (n div 10) @ of_nat (48 + n mod 10) # bs)"
      using False by (subst decimal.simps) simp
    also have "\<dots> = parse_dotted_loop (of_nat (n div 10)) True (of_nat (48 + n mod 10) # bs)"
      using 1 False by simp
    also have "\<dots> = parse_dotted_loop (of_nat n) True bs"
      using c [OF d] u nz 1(2) d' by (simp add: parse_dotted_loop_Cons del: of_nat_add)
    finally show ?thesis .
  qed
qed

text \<open>What may follow a number: the end of the text, or a dot that is not its last character.\<close>

definition dotted_end :: "u8 list \<Rightarrow> u8 list \<Rightarrow> bool" where
  "dotted_end t r \<longleftrightarrow> t = [] \<and> r = [] \<or> t = 46 # r \<and> r \<noteq> []"

lemma parse_dotted_decimal_enc:
  "dotted_end t r \<Longrightarrow> parse_dotted_decimal (decimal (unat w) @ t) = (Some w, r)"
  using unsigned_less [of w, where 'a = nat]
  by (auto simp: parse_dotted_decimal_def parse_dotted_loop_decimal dotted_end_def parse_dotted_loop_Cons)

lemma digit_char: "48 \<le> unat u \<Longrightarrow> unat u \<le> 57 \<Longrightarrow> of_nat (48 + (unat u - 48)) = (u :: u8)"
  by simp

lemma parse_dotted_loop_seen:
  "parse_dotted_loop out True cbs = (Some (w, sn), r) \<Longrightarrow>
   sn \<and> (\<exists>ds t. cbs = ds @ t \<and> dotted_end t r \<and> decimal (unat w) = decimal (unat out) @ ds)"
proof (induction cbs arbitrary: out)
  case Nil
  then show ?case by (simp add: dotted_end_def)
next
  case (Cons u bs)
  show ?case
  proof (cases "u = 46 \<and> bs \<noteq> []")
    case True
    then show ?thesis using Cons.prems by (auto simp: parse_dotted_loop_Cons dotted_end_def)
  next
    case False
    then have u: "48 \<le> unat u" "unat u \<le> 57" and nz: "out \<noteq> 0"
      and lt: "unat out * 10 + (unat u - 48) < 2 ^ 64"
      and rec: "parse_dotted_loop (of_nat (unat out * 10 + (unat u - 48))) True bs = (Some (w, sn), r)"
      using Cons.prems by (auto simp: parse_dotted_loop_Cons not_less simp del: of_nat_add split: if_splits)
    obtain ds t where ds: "sn" "bs = ds @ t" "dotted_end t r"
      "decimal (unat w) = decimal (unat (of_nat (unat out * 10 + (unat u - 48)) :: u64)) @ ds"
      using Cons.IH [OF rec] by blast
    have "unat (of_nat (unat out * 10 + (unat u - 48)) :: u64) = unat out * 10 + (unat u - 48)"
      using lt by (simp only: unat_of_nat) simp
    moreover have "decimal (unat out * 10 + (unat u - 48)) = decimal (unat out) @ [u]"
      using decimal_step [of "unat out" "unat u - 48"] u nz digit_char [OF u] by (simp add: unat_eq_0)
    ultimately show ?thesis using ds by (intro conjI exI [of _ "u # ds"] exI [of _ t]) auto
  qed
qed

lemma parse_dotted_decimal_dec:
  assumes "parse_dotted_decimal cbs = (Some w, r)"
  shows "\<exists>t. cbs = decimal (unat w) @ t \<and> dotted_end t r"
proof (cases cbs)
  case Nil
  then show ?thesis using assms by (simp add: parse_dotted_decimal_def)
next
  case (Cons u bs)
  obtain seen where loop: "parse_dotted_loop 0 False (u # bs) = (Some (w, seen), r)" "seen"
    using assms Cons by (auto simp: parse_dotted_decimal_def split: option.splits prod.splits if_splits)
  then have u: "48 \<le> unat u" "unat u \<le> 57"
    and rec: "parse_dotted_loop (of_nat (unat u - 48)) True bs = (Some (w, seen), r)"
    by (auto simp: parse_dotted_loop_Cons not_less split: if_splits)
  have "unat (of_nat (unat u - 48) :: u64) = unat u - 48"
    by (rule unat_of_nat_u64) (use u in simp)
  moreover have "decimal (unat u - 48) = [u]" using u digit_char [OF u] by (simp add: decimal_small)
  ultimately show ?thesis using parse_dotted_loop_seen [OF rec] Cons by auto
qed


section \<open>From text\<close>

text \<open>The components behind a dot: the text that the loop of \<open>CBB_add_asn1_oid_from_text\<close> sees.\<close>

fun dotted :: "u64 list \<Rightarrow> u8 list" where
  "dotted [] = []"
| "dotted (c # cs) = decimal (unat c) @ oid_tail cs"

lemma oid_tail_dotted: "oid_tail cs = (if cs = [] then [] else 46 # dotted cs)"
  by (cases cs) (simp_all add: oid_tail_def)

lemma dotted_nonempty: "dotted cs = [] \<longleftrightarrow> cs = []"
  by (cases cs) (simp_all add: decimal_nonempty)

lemma dotted_end_tail: "dotted_end (oid_tail cs) (dotted cs)"
  by (cases "cs = []") (auto simp: dotted_end_def oid_tail_dotted dotted_nonempty)

lemma oid_contents_Cons: "oid_contents (c # cs) = base128 (unat c) @ oid_contents cs"
  by (simp add: oid_contents_def)

lemma writes_oid_loop:
  "writes d f out \<Longrightarrow>
   writes d (\<lambda>m. c_and (f m) (oid_from_text_loop m d (dotted cs))) (out @ oid_contents cs)"
proof (induction cs arbitrary: f out)
  case Nil
  have "oid_from_text_loop m d [] = (\<lambda>s. (True, s))" for m
    by (rule ext) (subst oid_from_text_loop.simps, simp add: CBS_len_def)
  then show ?case using Nil by (simp add: oid_contents_def)
next
  case (Cons c cs)
  have step: "oid_from_text_loop m d (dotted (c # cs)) =
      c_and (add_base128_integer m d c) (oid_from_text_loop m d (dotted cs))" for m
    using parse_dotted_decimal_enc [OF dotted_end_tail, of c cs] dotted_nonempty [of "c # cs"]
    by (intro ext) (subst oid_from_text_loop.simps, auto simp: CBS_len_def c_and_def split: prod.splits bool.splits)
  have "c_and (f m) (oid_from_text_loop m d (dotted (c # cs))) =
      c_and (c_and (f m) (add_base128_integer m d c)) (oid_from_text_loop m d (dotted cs))" for m
    unfolding step c_and_assoc ..
  then show ?case
    using Cons.IH [OF writes_seq [OF Cons.prems writes_base128 [of d c]]]
    by (simp add: oid_contents_Cons)
qed

text \<open>What the loop accepts.\<close>

lemma oid_loop_accepts:
  "fst (oid_from_text_loop m d cbs s) \<Longrightarrow> \<exists>cs. cbs = dotted cs"
proof (induction m d cbs s rule: oid_from_text_loop.induct)
  case (1 m d cbs s)
  show ?case
  proof (cases "cbs = []")
    case True
    then show ?thesis by (metis dotted.simps(1))
  next
    case False
    then have pos: "CBS_len cbs > 0" by (simp add: CBS_len_def)
    obtain a r where a: "parse_dotted_decimal cbs = (Some a, r)"
      using 1(2) pos by (subst (asm) oid_from_text_loop.simps) (auto split: prod.splits option.splits)
    obtain t where t: "add_base128_integer m d a s = (True, t)" and f: "fst (oid_from_text_loop m d r t)"
      using 1(2) pos a by (subst (asm) oid_from_text_loop.simps) (auto split: prod.splits bool.splits)
    obtain cs where cs: "r = dotted cs" using 1(1) [OF pos a [symmetric] refl t [symmetric] refl f] by blast
    obtain u where u: "cbs = decimal (unat a) @ u" "dotted_end u r" using parse_dotted_decimal_dec [OF a] by blast
    have "u = oid_tail cs"
      using u(2) dotted_nonempty [of cs] by (auto simp: dotted_end_def oid_tail_dotted cs)
    then have "cbs = dotted (a # cs)" using u(1) by simp
    then show ?thesis by blast
  qed
qed

text \<open>The two numbers packed in the first component.\<close>

lemma oid_head_split:
  "\<exists>a b. oid_head v = decimal (unat a) @ 46 # decimal (unat b) \<and> \<not> a > 2 \<and> \<not> (a < 2 \<and> b > 39) \<and>
     \<not> b > - 1 - 80 \<and> 40 * a + b = (v :: u64)"
proof (cases "unat v \<ge> 80")
  case True
  let ?b = "v - 80"
  have b: "unat ?b = unat v - 80" using True by (subst unat_sub) (simp_all add: word_le_nat_alt)
  have le: "\<not> ?b > - 1 - 80"
    using unsigned_less [of v, where 'a = nat] by (simp add: word_less_nat_alt b)
  have "decimal 2 = [50]" by (simp add: decimal_small)
  then show ?thesis using True b le
    by (intro exI [of _ 2] exI [of _ ?b]) (simp add: oid_head_def)
next
  case False
  let ?a = "v div 40" and ?b = "v mod 40"
  have a: "unat ?a = unat v div 40" and b: "unat ?b = unat v mod 40" by (simp_all add: unat_div unat_mod)
  have "unat ?a \<le> 1" and "unat ?b \<le> 39" using False by (simp_all add: a b)
  then have "\<not> ?a > 2" "\<not> ?b > 39" "\<not> ?b > - 1 - 80" by (simp_all add: word_less_nat_alt)
  moreover have "40 * ?a + ?b = v" by (metis mult.commute word_mod_div_equality)
  ultimately show ?thesis using False a b by (intro exI [of _ ?a] exI [of _ ?b]) (simp add: oid_head_def)
qed

lemma oid_head_join:
  assumes "\<not> a > 2" and "\<not> (a < 2 \<and> b > 39)" and "\<not> b > - 1 - (80 :: u64)"
  shows "oid_head (40 * a + b) = decimal (unat a) @ 46 # decimal (unat b)"
proof -
  have a: "unat a \<le> 2" and b: "unat a < 2 \<Longrightarrow> unat b \<le> 39" and b': "unat b \<le> 2 ^ 64 - 81"
    using assms by (simp_all add: word_less_nat_alt not_less)
  have v: "unat (40 * a + b) = 40 * unat a + unat b"
    using a b' by (simp add: unat_word_ariths)
  show ?thesis
  proof (cases "unat a = 2")
    case True
    then show ?thesis by (simp add: oid_head_def v decimal_small)
  next
    case False
    then have a1: "unat a \<le> 1" and b1: "unat b \<le> 39" using a b by linarith+
    then have "40 * unat a + unat b < 80" "(40 * unat a + unat b) div 40 = unat a"
      "(40 * unat a + unat b) mod 40 = unat b"
      by simp_all
    then show ?thesis by (simp add: oid_head_def v)
  qed
qed

lemma oid_from_text_eq:
  assumes "40 * a + b = v" and "\<not> a > 2" and "\<not> (a < 2 \<and> b > 39)" and "\<not> b > - 1 - 80"
    and "take n str = decimal (unat a) @ 46 # decimal (unat b) @ oid_tail cs"
  shows "CBB_add_asn1_oid_from_text m d str n =
     c_and (CBB_flush m d) (c_and (add_base128_integer m d v) (oid_from_text_loop m d (dotted cs)))"
proof -
  have "dotted_end (46 # decimal (unat b) @ oid_tail cs) (decimal (unat b) @ oid_tail cs)"
    by (simp add: dotted_end_def decimal_nonempty)
  from parse_dotted_decimal_enc [OF this, of a]
  have p1: "parse_dotted_decimal (CBS_init str n) = (Some a, decimal (unat b) @ oid_tail cs)"
    using assms(5) by (simp add: CBS_init_def)
  have p2: "parse_dotted_decimal (decimal (unat b) @ oid_tail cs) = (Some b, dotted cs)"
    by (rule parse_dotted_decimal_enc) (rule dotted_end_tail)
  have g: "(a > 2 \<or> (a < 2 \<and> b > 39) \<or> b > - 1 - 80) = False" using assms(2-4) by blast
  show ?thesis
    unfolding CBB_add_asn1_oid_from_text_def p1 prod.case option.case p2 g if_False assms(1) by (rule refl)
qed

lemma writes_oid_from_text:
  assumes str: "take n str = oid_text cs" and ne: "cs \<noteq> []"
  shows "writes d (\<lambda>m. CBB_add_asn1_oid_from_text m d str n) (oid_contents cs)"
proof -
  obtain v ws where cs: "cs = v # ws" using ne by (cases cs) auto
  obtain a b where ab: "oid_head v = decimal (unat a) @ 46 # decimal (unat b)" "\<not> a > 2"
    "\<not> (a < 2 \<and> b > 39)" "\<not> b > - 1 - 80" "40 * a + b = v"
    using oid_head_split [of v] by blast
  have str': "take n str = decimal (unat a) @ 46 # decimal (unat b) @ oid_tail ws"
    using str by (simp add: cs ab(1))
  have "writes d (\<lambda>m. c_and (CBB_flush m d) (c_and (add_base128_integer m d v) (oid_from_text_loop m d (dotted ws))))
      (oid_contents cs)"
    using writes_seq [OF writes_flush writes_oid_loop [OF writes_base128 [of d v]]]
    by (simp add: cs oid_contents_Cons)
  then show ?thesis unfolding oid_from_text_eq [OF ab(5,2,3,4) str'] .
qed

lemma oid_from_text_accepts:
  assumes ok: "fst (CBB_add_asn1_oid_from_text m d str n s)"
  shows "\<exists>cs. cs \<noteq> [] \<and> take n str = oid_text cs"
proof -
  obtain a r where a: "parse_dotted_decimal (CBS_init str n) = (Some a, r)"
    using ok by (auto simp: CBB_add_asn1_oid_from_text_def c_and_def split: prod.splits option.splits if_splits)
  obtain b r' where b: "parse_dotted_decimal r = (Some b, r')"
    using ok a by (auto simp: CBB_add_asn1_oid_from_text_def c_and_def split: prod.splits option.splits if_splits)
  have g: "\<not> a > 2" "\<not> (a < 2 \<and> b > 39)" "\<not> b > - 1 - 80" and "\<exists>t. fst (oid_from_text_loop m d r' t)"
    using ok a b by (auto simp: CBB_add_asn1_oid_from_text_def c_and_def split: prod.splits if_splits)
  then obtain cs where cs: "r' = dotted cs" using oid_loop_accepts by blast
  obtain t where t: "take n str = decimal (unat a) @ t" "dotted_end t r"
    using parse_dotted_decimal_dec [OF a] by (auto simp: CBS_init_def)
  obtain u where u: "r = decimal (unat b) @ u" "dotted_end u r'" using parse_dotted_decimal_dec [OF b] by blast
  have "u = oid_tail cs" using u(2) dotted_nonempty [of cs] by (auto simp: dotted_end_def oid_tail_dotted cs)
  moreover have "t = 46 # r" using t(2) u(1) decimal_nonempty by (auto simp: dotted_end_def)
  ultimately have "take n str = oid_text ((40 * a + b) # cs)"
    using t(1) u(1) oid_head_join [OF g] by simp
  then show ?thesis by blast
qed


section \<open>To text\<close>

lemma length_decimal_u64: "length (decimal (unat (w :: u64))) \<le> 20"
proof -
  have "unat w < 10 ^ Suc 19" using unsigned_less [of w, where 'a = nat] by simp
  from length_decimal [OF this] show ?thesis by simp
qed

lemma writes_decimal: "writes d (\<lambda>m. add_decimal m d v) (decimal (unat v))"
  unfolding add_decimal_def by (rule writes_bytes) (use length_decimal_u64 [of v] in simp)

lemma oid_contents_nonempty: "oid_contents cs = [] \<longleftrightarrow> cs = []"
  by (cases cs) (simp_all add: oid_contents_def base128_def)

lemma oid_tail_Cons: "oid_tail (c # cs) = (46 # decimal (unat c)) @ oid_tail cs"
  by (simp add: oid_tail_def)

lemma writes_oid_to_text_loop:
  "writes 0 f out \<Longrightarrow>
   writes 0 (\<lambda>m. c_and (f m) (oid_to_text_loop m (oid_contents cs))) (out @ oid_tail cs)"
proof (induction cs arbitrary: f out)
  case Nil
  have "oid_to_text_loop m [] = (\<lambda>s. (True, s))" for m
    by (rule ext) (subst oid_to_text_loop.simps, simp add: CBS_len_def)
  then show ?case using Nil by (simp add: oid_contents_def oid_tail_def)
next
  case (Cons c cs)
  let ?w = "\<lambda>m. c_and (CBB_add_u8 m 0 46) (add_decimal m 0 c)"
  have ne: "CBS_len (oid_contents (c # cs)) \<noteq> 0"
    using oid_contents_nonempty [of "c # cs"] by (simp add: CBS_len_def)
  have p: "parse_base128_integer (oid_contents (c # cs)) = (Some c, oid_contents cs)"
    using base128.dec_enc [of c "oid_contents cs"] by (simp add: oid_contents_Cons)
  have step: "oid_to_text_loop m (oid_contents (c # cs)) = c_and (?w m) (oid_to_text_loop m (oid_contents cs))" for m
    by (intro ext) (subst oid_to_text_loop.simps, simp add: ne p c_and_case)
  have "c_and (f m) (oid_to_text_loop m (oid_contents (c # cs))) =
      c_and (c_and (f m) (?w m)) (oid_to_text_loop m (oid_contents cs))" for m
    unfolding step c_and_assoc ..
  moreover have "writes 0 (\<lambda>m. c_and (f m) (?w m)) (out @ 46 # decimal (unat c))"
    using writes_seq [OF Cons.prems writes_seq [OF writes_u8 [of 0 46] writes_decimal [of 0 c]]] by simp
  ultimately show ?case
    using Cons.IH [of "\<lambda>m. c_and (f m) (?w m)" "out @ 46 # decimal (unat c)"]
    by (simp add: oid_tail_Cons)
qed

lemma oid_to_text_loop_accepts:
  "fst (oid_to_text_loop m copy s) \<Longrightarrow> \<exists>cs. copy = oid_contents cs"
proof (induction m copy s rule: oid_to_text_loop.induct)
  case (1 m copy s)
  show ?case
  proof (cases "copy = []")
    case True
    then show ?thesis by (intro exI [of _ "[]"]) (simp add: oid_contents_def)
  next
    case False
    then have pos: "CBS_len copy \<noteq> 0" by (simp add: CBS_len_def)
    obtain v r where v: "parse_base128_integer copy = (Some v, r)"
      using 1(2) pos by (subst (asm) oid_to_text_loop.simps) (auto split: prod.splits option.splits)
    obtain t where t: "c_and (CBB_add_u8 m 0 46) (add_decimal m 0 v) s = (True, t)" and f: "fst (oid_to_text_loop m r t)"
      using 1(2) pos v by (subst (asm) oid_to_text_loop.simps) (auto split: prod.splits bool.splits)
    obtain cs where "r = oid_contents cs" using 1(1) [OF pos v [symmetric] refl t [symmetric] refl f] by blast
    then have "copy = oid_contents (v # cs)" using base128.dec_Some [OF v] by (simp add: oid_contents_Cons)
    then show ?thesis by blast
  qed
qed

lemma writes_oid_to_text:
  assumes "cs \<noteq> []"
  shows "writes 0 (\<lambda>m. oid_to_text_body m (oid_contents cs)) (oid_text cs @ [0])"
proof -
  obtain v ws where cs: "cs = v # ws" using assms by (cases cs) auto
  define head where "head m = (if v \<ge> 80 then c_and (CBB_add_bytes m 0 [50, 46]) (add_decimal m 0 (v - 80))
      else c_and (add_decimal m 0 (v div 40)) (c_and (CBB_add_u8 m 0 46) (add_decimal m 0 (v mod 40))))" for m
  have body: "oid_to_text_body m (oid_contents cs) =
      c_and (head m) (c_and (oid_to_text_loop m (oid_contents ws)) (CBB_add_u8 m 0 0))" for m
    using base128.dec_enc [of v "oid_contents ws"]
    by (intro ext) (simp add: oid_to_text_body_def head_def cs oid_contents_Cons)
  have "writes 0 head (oid_head v)"
  proof (cases "v \<ge> 80")
    case True
    then have "unat (v - 80) = unat v - 80" by (subst unat_sub) simp_all
    moreover have "unat v \<ge> 80" using True by (simp add: word_le_nat_alt)
    moreover have "writes 0 (\<lambda>m. CBB_add_bytes m 0 [50, 46]) [50, 46]" by (rule writes_bytes) simp
    ultimately show ?thesis
      using True writes_seq [OF _ writes_decimal [of 0 "v - 80"], of "\<lambda>m. CBB_add_bytes m 0 [50, 46]" "[50, 46]"]
      unfolding head_def oid_head_def by simp
  next
    case False
    then have "\<not> unat v \<ge> 80" by (simp add: word_le_nat_alt)
    then show ?thesis
      using False writes_seq [OF writes_decimal [of 0 "v div 40"]
          writes_seq [OF writes_u8 [of 0 46] writes_decimal [of 0 "v mod 40"]]]
      unfolding head_def oid_head_def by (simp add: unat_div unat_mod)
  qed
  from writes_seq [OF writes_oid_to_text_loop [OF this, of ws] writes_u8 [of 0 0]]
  have "writes 0 (\<lambda>m. c_and (c_and (head m) (oid_to_text_loop m (oid_contents ws))) (CBB_add_u8 m 0 0))
      (oid_text cs @ [0])"
    by (simp add: cs)
  moreover have "c_and (c_and (head m) (oid_to_text_loop m (oid_contents ws))) (CBB_add_u8 m 0 0) =
      oid_to_text_body m (oid_contents cs)" for m
    unfolding body c_and_assoc ..
  ultimately show ?thesis by simp
qed

lemma oid_to_text_accepts:
  assumes "fst (oid_to_text_body m cbs s)"
  shows "\<exists>cs. cs \<noteq> [] \<and> cbs = oid_contents cs"
proof -
  obtain v r where v: "parse_base128_integer cbs = (Some v, r)" and "\<exists>t. fst (oid_to_text_loop m r t)"
    using assms by (auto simp: oid_to_text_body_def fst_c_and split: prod.splits option.splits)
  then obtain cs where "r = oid_contents cs" using oid_to_text_loop_accepts by blast
  then have "cbs = oid_contents (v # cs)" using base128.dec_Some [OF v] by (simp add: oid_contents_Cons)
  then show ?thesis by blast
qed

text \<open>The text of an identifier determines its components, and so does its contents.\<close>

lemma oid_to_text_Some:
  assumes m: "alloc_ok m" and r: "CBS_asn1_oid_to_text m k cbs = (Some txt, k')"
  shows "\<exists>cs. cs \<noteq> [] \<and> cbs = oid_contents cs \<and> take (Suc (length (oid_text cs))) txt = oid_text cs @ [0]"
proof -
  obtain s0 s1 n s2 where s: "CBB_init m k 32 = (True, s0)" "oid_to_text_body m cbs s0 = (True, s1)"
    "CBB_finish m 0 True s1 = ((True, Some (txt, n)), s2)"
    using r by (auto simp: CBS_asn1_oid_to_text_def split: prod.splits bool.splits option.splits)
  have "fst (oid_to_text_body m cbs s0)" using s(2) by simp
  then obtain cs where cs: "cs \<noteq> []" "cbs = oid_contents cs" using oid_to_text_accepts by blast
  have "take n txt = oid_text cs @ [0] \<and> n = length (oid_text cs @ [0])"
    by (rule cbb_run [OF writes_oid_to_text [OF cs(1)] m _ s(1) s(2) [unfolded cs(2)] s(3)]) simp
  then show ?thesis using cs by auto
qed

lemma oid_to_text_live:
  assumes m: "alloc_ok m" and av: "alloc_avail m limit" "limit < 2 ^ 63" and cs: "cs \<noteq> []"
    and lim: "40 \<le> limit" "2 * length (oid_text cs) + 10 \<le> limit"
  shows "fst (CBS_asn1_oid_to_text m k (oid_contents cs)) \<noteq> None"
proof -
  have "\<exists>s0 s1 buf n s2. CBB_init m k 32 = (True, s0) \<and> oid_to_text_body m (oid_contents cs) s0 = (True, s1) \<and>
      CBB_finish m 0 True s1 = ((True, Some (buf, n)), s2)"
    by (rule cbb_run_live [OF writes_oid_to_text [OF cs] m _ av])
      (use lim in \<open>simp_all add: OPENSSL_MALLOC_PREFIX_def sizeof_cbb_buffer_st_def\<close>)
  then show ?thesis by (auto simp: CBS_asn1_oid_to_text_def)
qed

text \<open>Different arc lists have different contents.\<close>

lemma oid_contents_inject: "oid_contents cs = oid_contents ds \<longleftrightarrow> cs = ds"
proof (induction cs arbitrary: ds)
  case Nil
  then show ?case by (cases ds) (auto simp: oid_contents_def base128_def)
next
  case (Cons c cs)
  show ?case
  proof (cases ds)
    case Nil
    then show ?thesis by (auto simp: oid_contents_def base128_def)
  next
    case (Cons d ds')
    then show ?thesis
      using base128.codec_split [where x = c and y = d and r = "oid_contents cs" and s = "oid_contents ds'"] Cons.IH [of ds']
      by (auto simp: oid_contents_def)
  qed
qed

end
