(* ===== verification/Unicode.thy ===== *)
theory Unicode
  imports Values
begin

text \<open>
  \<open>crypto/bytestring/unicode.c\<close>: reading and writing code points in UTF-8, Latin-1, UCS-2 and UTF-32.
  UTF-8 and the other encodings are shown to be strict codecs on the valid code points: no overlong
  form, no surrogate and no reserved value is accepted, and what is written is read back.
\<close>

section \<open>Operations\<close>

definition is_valid_code_point :: "u32 \<Rightarrow> bool" where
  "is_valid_code_point v =
     (\<not> (v > 0x10ffff \<or> v AND 0xfffe = 0xfffe \<or> (v \<ge> 0xfdd0 \<and> v \<le> 0xfdef) \<or> (v \<ge> 0xd800 \<and> v \<le> 0xdfff)))"

definition BOTTOM_BITS :: "nat \<Rightarrow> u8" where
  "BOTTOM_BITS n = push_bit n 1 - 1"

definition TOP_BITS :: "nat \<Rightarrow> u8" where
  "TOP_BITS n = NOT (BOTTOM_BITS (8 - n))"

text \<open>The loop over the continuation bytes.\<close>

fun utf8_cont :: "nat \<Rightarrow> u32 \<Rightarrow> CBS \<Rightarrow> u32 option \<times> CBS" where
  "utf8_cont 0 v cbs = (Some v, cbs)"
| "utf8_cont (Suc n) v cbs =
     (case CBS_get_u8 cbs of
        (None, cbs) \<Rightarrow> (None, cbs)
      | (Some c, cbs) \<Rightarrow>
          if c AND TOP_BITS 2 \<noteq> TOP_BITS 1 then (None, cbs)
          else utf8_cont n (push_bit 6 v OR ucast (c AND BOTTOM_BITS 6)) cbs)"

definition cbs_get_utf8 :: "CBS \<Rightarrow> u32 option \<times> CBS" where
  "cbs_get_utf8 cbs =
     (case CBS_get_u8 cbs of
        (None, cbs) \<Rightarrow> (None, cbs)
      | (Some c, cbs) \<Rightarrow>
          if c \<le> 0x7f then (Some (ucast c), cbs)
          else
            let lead =
              (if c AND TOP_BITS 3 = TOP_BITS 2 then Some (ucast (c AND BOTTOM_BITS 5), 1, 0x80)
               else if c AND TOP_BITS 4 = TOP_BITS 3 then Some (ucast (c AND BOTTOM_BITS 4), 2, 0x800)
               else if c AND TOP_BITS 5 = TOP_BITS 4 then Some (ucast (c AND BOTTOM_BITS 3), 3, 0x10000)
               else None)
            in case lead of
                 None \<Rightarrow> (None, cbs)
               | Some (v, len, lower_bound) \<Rightarrow>
                   (case utf8_cont len v cbs of
                      (None, cbs) \<Rightarrow> (None, cbs)
                    | (Some v, cbs) \<Rightarrow>
                        if \<not> is_valid_code_point v \<or> v < lower_bound then (None, cbs) else (Some v, cbs)))"

definition cbs_get_latin1 :: "CBS \<Rightarrow> u32 option \<times> CBS" where
  "cbs_get_latin1 cbs =
     (case CBS_get_u8 cbs of (None, cbs) \<Rightarrow> (None, cbs) | (Some c, cbs) \<Rightarrow> (Some (ucast c), cbs))"

definition cbs_get_ucs2_be :: "CBS \<Rightarrow> u32 option \<times> CBS" where
  "cbs_get_ucs2_be cbs =
     (case CBS_get_u16 cbs of
        (None, cbs) \<Rightarrow> (None, cbs)
      | (Some c, cbs) \<Rightarrow> if \<not> is_valid_code_point (ucast c) then (None, cbs) else (Some (ucast c), cbs))"

definition cbs_get_utf32_be :: "CBS \<Rightarrow> u32 option \<times> CBS" where
  "cbs_get_utf32_be cbs =
     (case CBS_get_u32 cbs of
        (None, cbs) \<Rightarrow> (None, cbs)
      | (Some v, cbs) \<Rightarrow> if is_valid_code_point v then (Some v, cbs) else (None, cbs))"

definition cbb_get_utf8_len :: "u32 \<Rightarrow> nat" where
  "cbb_get_utf8_len u = (if u \<le> 0x7f then 1 else if u \<le> 0x7ff then 2 else if u \<le> 0xffff then 3 else 4)"

definition cbb_add_utf8 :: "allocator \<Rightarrow> nat \<Rightarrow> u32 \<Rightarrow> CBB \<Rightarrow> bool \<times> CBB" where
  "cbb_add_utf8 m d u s =
     (if \<not> is_valid_code_point u then (False, s)
      else if u \<le> 0x7f then CBB_add_u8 m d (ucast u) s
      else if u \<le> 0x7ff then
        c_and (CBB_add_u8 m d (ucast (ucast (TOP_BITS 2) OR drop_bit 6 u)))
          (CBB_add_u8 m d (ucast (ucast (TOP_BITS 1) OR (u AND ucast (BOTTOM_BITS 6))))) s
      else if u \<le> 0xffff then
        c_and (CBB_add_u8 m d (ucast (ucast (TOP_BITS 3) OR drop_bit 12 u)))
          (c_and (CBB_add_u8 m d (ucast (ucast (TOP_BITS 1) OR (drop_bit 6 u AND ucast (BOTTOM_BITS 6)))))
            (CBB_add_u8 m d (ucast (ucast (TOP_BITS 1) OR (u AND ucast (BOTTOM_BITS 6)))))) s
      else if u \<le> 0x10ffff then
        c_and (CBB_add_u8 m d (ucast (ucast (TOP_BITS 4) OR drop_bit 18 u)))
          (c_and (CBB_add_u8 m d (ucast (ucast (TOP_BITS 1) OR (drop_bit 12 u AND ucast (BOTTOM_BITS 6)))))
            (c_and (CBB_add_u8 m d (ucast (ucast (TOP_BITS 1) OR (drop_bit 6 u AND ucast (BOTTOM_BITS 6)))))
              (CBB_add_u8 m d (ucast (ucast (TOP_BITS 1) OR (u AND ucast (BOTTOM_BITS 6))))))) s
      else (False, s))"

definition cbb_add_latin1 :: "allocator \<Rightarrow> nat \<Rightarrow> u32 \<Rightarrow> CBB \<Rightarrow> bool \<times> CBB" where
  "cbb_add_latin1 m d u s = (if u \<le> 0xff then CBB_add_u8 m d (ucast u) s else (False, s))"

definition cbb_add_ucs2_be :: "allocator \<Rightarrow> nat \<Rightarrow> u32 \<Rightarrow> CBB \<Rightarrow> bool \<times> CBB" where
  "cbb_add_ucs2_be m d u s =
     (if u \<le> 0xffff \<and> is_valid_code_point u then CBB_add_u16 m d (ucast u) s else (False, s))"

definition cbb_add_utf32_be :: "allocator \<Rightarrow> nat \<Rightarrow> u32 \<Rightarrow> CBB \<Rightarrow> bool \<times> CBB" where
  "cbb_add_utf32_be m d u s = (if is_valid_code_point u then CBB_add_u32 m d u s else (False, s))"

section \<open>The masks\<close>

lemma BOTTOM_BITS_mask: "BOTTOM_BITS n = mask n"
  by (simp add: BOTTOM_BITS_def mask_eq_exp_minus_1 push_bit_eq_mult)

lemma unat_bottom: "unat (c AND BOTTOM_BITS n) = unat c mod 2 ^ n"
  by (simp only: BOTTOM_BITS_mask unat_and_mask)

lemma top_bits_eq:
  "c AND TOP_BITS 2 = TOP_BITS 1 \<longleftrightarrow> unat c div 64 = 2"
  "c AND TOP_BITS 3 = TOP_BITS 2 \<longleftrightarrow> unat c div 32 = 6"
  "c AND TOP_BITS 4 = TOP_BITS 3 \<longleftrightarrow> unat c div 16 = 14"
  "c AND TOP_BITS 5 = TOP_BITS 4 \<longleftrightarrow> unat c div 8 = 30"
proof -
  have top: "unat (TOP_BITS 1) = 128" "unat (TOP_BITS 2) = 192" "unat (TOP_BITS 3) = 224" "unat (TOP_BITS 4) = 240"
    by (simp_all add: TOP_BITS_def BOTTOM_BITS_def)
  have eq: "c AND TOP_BITS k = w \<longleftrightarrow> unat c div 2 ^ (8 - k) * 2 ^ (8 - k) = unat w" for k w
    by (simp only: word_unat_eq_iff TOP_BITS_def BOTTOM_BITS_mask unat_and_not_mask)
  show "c AND TOP_BITS 2 = TOP_BITS 1 \<longleftrightarrow> unat c div 64 = 2"
    "c AND TOP_BITS 3 = TOP_BITS 2 \<longleftrightarrow> unat c div 32 = 6"
    "c AND TOP_BITS 4 = TOP_BITS 3 \<longleftrightarrow> unat c div 16 = 14"
    "c AND TOP_BITS 5 = TOP_BITS 4 \<longleftrightarrow> unat c div 8 = 30"
    unfolding eq top by simp_all
qed

lemma unat_of_nat_u32: "n < 2 ^ 32 \<Longrightarrow> unat (of_nat n :: u32) = n"
  by (simp add: unat_of_nat)

section \<open>Reading UTF-8\<close>

fun utf8 :: "u32 \<Rightarrow> u8 list" where
  "utf8 u =
     (let n = unat u in
      if n \<le> 0x7f then [of_nat n]
      else if n \<le> 0x7ff then [of_nat (192 + n div 64), of_nat (128 + n mod 64)]
      else if n \<le> 0xffff then [of_nat (224 + n div 4096), of_nat (128 + n div 64 mod 64), of_nat (128 + n mod 64)]
      else [of_nat (240 + n div 262144), of_nat (128 + n div 4096 mod 64), of_nat (128 + n div 64 mod 64),
        of_nat (128 + n mod 64)])"

declare utf8.simps [simp del]

lemma utf8_acc:
  assumes "unat v < 2 ^ 26"
  shows "unat (push_bit 6 v OR ucast (c AND BOTTOM_BITS 6) :: u32) = unat v * 64 + unat c mod 64"
  using unat_push_or [of "ucast (c AND BOTTOM_BITS 6) :: u32" 6 v] assms by (simp add: unat_bottom)

lemma utf8_cont_Suc:
  "unat v < 2 ^ 26 \<Longrightarrow> utf8_cont (Suc n) v cbs = (Some w, r) \<longleftrightarrow>
   (\<exists>c cs. cbs = c # cs \<and> unat c div 64 = 2 \<and> utf8_cont n (of_nat (unat v * 64 + unat c mod 64)) cs = (Some w, r))"
proof -
  assume v: "unat v < 2 ^ 26"
  have "push_bit 6 v OR ucast (c AND BOTTOM_BITS 6) = (of_nat (unat v * 64 + unat c mod 64) :: u32)" for c
    by (rule word_of_nat_eqI) (rule utf8_acc [OF v])
  then show ?thesis by (cases cbs) (auto simp: top_bits_eq simp del: One_nat_def of_nat_add of_nat_mult)
qed

lemma utf8_conts:
  "unat v < 2 ^ 26 \<Longrightarrow> utf8_cont 1 v cbs = (Some w, r) \<longleftrightarrow>
     (\<exists>a. cbs = a # r \<and> unat a div 64 = 2 \<and> w = of_nat (unat v * 64 + unat a mod 64))"
  "unat v < 2 ^ 20 \<Longrightarrow> utf8_cont 2 v cbs = (Some w, r) \<longleftrightarrow>
     (\<exists>a b. cbs = a # b # r \<and> unat a div 64 = 2 \<and> unat b div 64 = 2 \<and>
        w = of_nat ((unat v * 64 + unat a mod 64) * 64 + unat b mod 64))"
  "unat v < 2 ^ 14 \<Longrightarrow> utf8_cont 3 v cbs = (Some w, r) \<longleftrightarrow>
     (\<exists>a b c. cbs = a # b # c # r \<and> unat a div 64 = 2 \<and> unat b div 64 = 2 \<and> unat c div 64 = 2 \<and>
        w = of_nat (((unat v * 64 + unat a mod 64) * 64 + unat b mod 64) * 64 + unat c mod 64))"
proof -
  have one: "utf8_cont (Suc 0) v cbs = (Some w, r) \<longleftrightarrow>
     (\<exists>a. cbs = a # r \<and> unat a div 64 = 2 \<and> w = of_nat (unat v * 64 + unat a mod 64))"
    if "unat v < 2 ^ 26" for v cbs
    using that by (subst utf8_cont_Suc) auto
  have two: "utf8_cont (Suc (Suc 0)) v cbs = (Some w, r) \<longleftrightarrow>
     (\<exists>a b. cbs = a # b # r \<and> unat a div 64 = 2 \<and> unat b div 64 = 2 \<and>
        w = of_nat ((unat v * 64 + unat a mod 64) * 64 + unat b mod 64))"
    if "unat v < 2 ^ 20" for v cbs
  proof -
    have "unat (of_nat (unat v * 64 + unat a mod 64) :: u32) = unat v * 64 + unat a mod 64 \<and>
        unat v * 64 + unat a mod 64 < 2 ^ 26" for a :: u8
    proof -
      have "unat a mod 64 < 64" by simp
      then have "unat v * 64 + unat a mod 64 < 2 ^ 26" using that by simp
      moreover from this have "unat v * 64 + unat a mod 64 < 2 ^ 32" by simp
      ultimately show ?thesis by (simp only: unat_of_nat_u32 simp_thms)
    qed
    then show ?thesis using that one by (subst utf8_cont_Suc) (fastforce simp del: of_nat_add of_nat_mult)+
  qed
  have three: "utf8_cont (Suc (Suc (Suc 0))) v cbs = (Some w, r) \<longleftrightarrow>
     (\<exists>a b c. cbs = a # b # c # r \<and> unat a div 64 = 2 \<and> unat b div 64 = 2 \<and> unat c div 64 = 2 \<and>
        w = of_nat (((unat v * 64 + unat a mod 64) * 64 + unat b mod 64) * 64 + unat c mod 64))"
    if "unat v < 2 ^ 14" for v cbs
  proof -
    have "unat (of_nat (unat v * 64 + unat a mod 64) :: u32) = unat v * 64 + unat a mod 64 \<and>
        unat v * 64 + unat a mod 64 < 2 ^ 20" for a :: u8
    proof -
      have "unat a mod 64 < 64" by simp
      then have "unat v * 64 + unat a mod 64 < 2 ^ 20" using that by simp
      moreover from this have "unat v * 64 + unat a mod 64 < 2 ^ 32" by simp
      ultimately show ?thesis by (simp only: unat_of_nat_u32 simp_thms)
    qed
    then show ?thesis using that two by (subst utf8_cont_Suc) (fastforce simp del: of_nat_add of_nat_mult)+
  qed
  show "unat v < 2 ^ 26 \<Longrightarrow> utf8_cont 1 v cbs = (Some w, r) \<longleftrightarrow>
     (\<exists>a. cbs = a # r \<and> unat a div 64 = 2 \<and> w = of_nat (unat v * 64 + unat a mod 64))"
    using one [of v cbs] by (simp only: One_nat_def)
  show "unat v < 2 ^ 20 \<Longrightarrow> utf8_cont 2 v cbs = (Some w, r) \<longleftrightarrow>
     (\<exists>a b. cbs = a # b # r \<and> unat a div 64 = 2 \<and> unat b div 64 = 2 \<and>
        w = of_nat ((unat v * 64 + unat a mod 64) * 64 + unat b mod 64))"
    using two [of v cbs] by (simp only: numeral_2_eq_2)
  show "unat v < 2 ^ 14 \<Longrightarrow> utf8_cont 3 v cbs = (Some w, r) \<longleftrightarrow>
     (\<exists>a b c. cbs = a # b # c # r \<and> unat a div 64 = 2 \<and> unat b div 64 = 2 \<and> unat c div 64 = 2 \<and>
        w = of_nat (((unat v * 64 + unat a mod 64) * 64 + unat b mod 64) * 64 + unat c mod 64))"
    using three [of v cbs] by (simp only: numeral_3_eq_3)
qed


text \<open>The lead byte, with the number of continuation bytes and the least value that needs them.\<close>

definition utf8_lead :: "u8 \<Rightarrow> (nat \<times> nat \<times> nat) option" where
  "utf8_lead c =
     (if unat c div 32 = 6 then Some (unat c mod 32, 1, 0x80)
      else if unat c div 16 = 14 then Some (unat c mod 16, 2, 0x800)
      else if unat c div 8 = 30 then Some (unat c mod 8, 3, 0x10000)
      else None)"

lemma get_utf8_Cons:
  "cbs_get_utf8 (c # cs) = (Some w, r) \<longleftrightarrow>
     (if unat c \<le> 0x7f then w = ucast c \<and> r = cs
      else (\<exists>v n lo. utf8_lead c = Some (v, n, lo) \<and> utf8_cont n (of_nat v) cs = (Some w, r) \<and>
        is_valid_code_point w \<and> lo \<le> unat w))"
proof -
  have le: "c \<le> 0x7f \<longleftrightarrow> unat c \<le> 0x7f" by (simp add: word_le_nat_alt)
  have bot: "ucast (c AND BOTTOM_BITS k) = (of_nat (unat c mod 2 ^ k) :: u32)" for k
    by (rule word_of_nat_eqI) (simp add: unat_bottom)
  have lead: "(if c AND TOP_BITS 3 = TOP_BITS 2 then Some (ucast (c AND BOTTOM_BITS 5), 1, 0x80)
      else if c AND TOP_BITS 4 = TOP_BITS 3 then Some (ucast (c AND BOTTOM_BITS 4), 2, 0x800)
      else if c AND TOP_BITS 5 = TOP_BITS 4 then Some (ucast (c AND BOTTOM_BITS 3), 3, 0x10000)
      else None) = map_option (\<lambda>(v, n, lo). (of_nat v :: u32, n, of_nat lo :: u32)) (utf8_lead c)"
    unfolding utf8_lead_def top_bits_eq bot by simp
  show ?thesis
  proof (cases "unat c \<le> 0x7f")
    case True
    then show ?thesis by (auto simp: cbs_get_utf8_def le)
  next
    case False
    have eq: "cbs_get_utf8 (c # cs) = (case map_option (\<lambda>(v, n, lo). (of_nat v, n, of_nat lo)) (utf8_lead c) of
        None \<Rightarrow> (None, cs)
      | Some (v, len, lower_bound) \<Rightarrow>
          (case utf8_cont len v cs of (None, cs) \<Rightarrow> (None, cs)
           | (Some v, cs) \<Rightarrow> if \<not> is_valid_code_point v \<or> v < lower_bound then (None, cs) else (Some v, cs)))"
      unfolding cbs_get_utf8_def CBS_get_u8_Cons prod.case option.case Let_def lead le
      by (rule if_not_P [OF False])
    show ?thesis
    proof (cases "utf8_lead c")
      case None
      then show ?thesis using False by (simp add: eq)
    next
      case (Some x)
      obtain v n lo where x: "x = (v, n, lo)" by (cases x)
      have "lo \<in> {0x80, 0x800, 0x10000}" using Some x by (auto simp: utf8_lead_def split: if_splits)
      then have "lo < 2 ^ 32" by auto
      then have lt: "w < of_nat lo \<longleftrightarrow> \<not> lo \<le> unat w" for w :: u32
        by (simp add: word_less_nat_alt unat_of_nat_u32 not_le)
      show ?thesis using False Some x
        by (auto simp: eq lt split: prod.splits option.splits if_splits)
    qed
  qed
qed

text \<open>The valid code points: at most U+10FFFF, no surrogate, not in the block of noncharacters and not one
  of the last two of a plane.\<close>

lemma valid_code_point_iff:
  "is_valid_code_point u \<longleftrightarrow>
     unat u \<le> 0x10ffff \<and> \<not> (0xd800 \<le> unat u \<and> unat u \<le> 0xdfff) \<and>
     \<not> (0xfdd0 \<le> unat u \<and> unat u \<le> 0xfdef) \<and> unat u mod 0x10000 < 0xfffe"
proof -
  have mask: "(0xfffe :: u32) = push_bit 1 (mask 15)" by (simp add: mask_eq_exp_minus_1 push_bit_eq_mult)
  have "u AND 0xfffe = push_bit 1 (take_bit 15 (drop_bit 1 u))"
    unfolding mask by (rule bit_word_eqI) (auto simp: bit_push_bit_iff bit_and_iff bit_mask_iff bit_take_bit_iff bit_drop_bit_eq simp del: push_bit_Suc One_nat_def)
  then have "unat (u AND 0xfffe) = 2 * (unat u div 2 mod 2 ^ 15)"
    by (simp only: unat_push_bit unat_take_bit unat_drop_bit) simp
  moreover have "2 * (n div 2 mod 2 ^ 15) = 0xfffe \<longleftrightarrow> \<not> n mod 0x10000 < 0xfffe" for n :: nat
  proof -
    have "n mod (2 * 2 ^ 15) = 2 * (n div 2 mod 2 ^ 15) + n mod 2" by (rule mod_mult2_eq)
    moreover have "n div 2 mod 2 ^ 15 < 2 ^ 15" "n mod 2 < 2" by simp_all
    ultimately show ?thesis by simp linarith
  qed
  ultimately have "u AND 0xfffe = 0xfffe \<longleftrightarrow> \<not> unat u mod 0x10000 < 0xfffe"
    by (simp add: word_unat_eq_iff)
  then show ?thesis
    by (auto simp: is_valid_code_point_def word_less_nat_alt word_le_nat_alt)
qed

lemma valid_code_point_bound: "is_valid_code_point w \<Longrightarrow> unat w \<le> 0x10ffff"
  by (simp add: is_valid_code_point_def word_less_nat_alt)

lemma valid_code_point_ascii: "unat w \<le> 0x7f \<Longrightarrow> is_valid_code_point w"
proof -
  assume w: "unat w \<le> 0x7f"
  have "unat (w AND 0xfffe) \<le> unat w"
    by (metis word_and_le2 word_le_nat_alt)
  with w have "w AND 0xfffe \<noteq> 0xfffe" by auto
  then show ?thesis using w by (simp add: is_valid_code_point_def word_less_nat_alt word_le_nat_alt)
qed

lemma unat_byte: "n < 256 \<Longrightarrow> unat (of_nat n :: u8) = n"
  by (simp only: byte_arith mod_less)

lemma byte_split: "unat (b :: u8) div k = q \<Longrightarrow> b = of_nat (k * q + unat b mod k)"
  by (rule word_of_nat_eqI) (metis mult_div_mod_eq)

lemma cont_byte: "n < 64 \<Longrightarrow> unat (of_nat (128 + n) :: u8) div 64 = 2 \<and> unat (of_nat (128 + n) :: u8) mod 64 = n"
proof -
  assume n: "n < 64"
  have "(128 + n) div 64 = 2" by (rule div_nat_eqI) (use n in auto)
  moreover have "(128 + n) mod 64 = n" using mod_mult_self3 [of 2 64 n] n by simp
  ultimately show ?thesis using unat_byte [of "128 + n"] n by simp
qed

lemma lead_arith:
  "q < 32 \<Longrightarrow> (192 + q) div 32 = 6 \<and> (192 + q) mod 32 = (q :: nat)"
  "q < 16 \<Longrightarrow> (224 + q) div 32 = 7 \<and> (224 + q) div 16 = 14 \<and> (224 + q) mod 16 = (q :: nat)"
  "q < 8 \<Longrightarrow> (240 + q) div 32 = 7 \<and> (240 + q) div 16 = 15 \<and> (240 + q) div 8 = 30 \<and> (240 + q) mod 8 = (q :: nat)"
proof -
  have g: "(k * j + q) div k = j \<and> (k * j + q) mod k = q" if "q < k" for k j q :: nat
    using that by simp
  show "q < 32 \<Longrightarrow> (192 + q) div 32 = 6 \<and> (192 + q) mod 32 = q" using g [of q 32 6] by simp
  show "q < 16 \<Longrightarrow> (224 + q) div 32 = 7 \<and> (224 + q) div 16 = 14 \<and> (224 + q) mod 16 = q"
    using g [of q 16 14] g [of q 32 7] by simp
  show "q < 8 \<Longrightarrow> (240 + q) div 32 = 7 \<and> (240 + q) div 16 = 15 \<and> (240 + q) div 8 = 30 \<and> (240 + q) mod 8 = q"
    using g [of q 8 30] g [of q 16 15] g [of "16 + q" 32 7] by simp
qed

lemma get_utf8_enc:
  assumes w: "is_valid_code_point w"
  shows "cbs_get_utf8 (utf8 w @ r) = (Some w, r)"
proof -
  let ?n = "unat w"
  have max: "?n \<le> 0x10ffff" using valid_code_point_bound [OF w] .
  have m64: "x mod 64 < 64" for x :: nat by simp
  note cont = cont_byte [OF m64]
  have bk: "of_nat ?n = w" by simp
  consider "?n \<le> 0x7f" | "\<not> ?n \<le> 0x7f" "?n \<le> 0x7ff" | "\<not> ?n \<le> 0x7ff" "?n \<le> 0xffff" | "\<not> ?n \<le> 0xffff" by linarith
  then show ?thesis
  proof cases
    case 1
    then have u: "unat (of_nat ?n :: u8) = ?n" by (intro unat_byte) simp
    then have "ucast (of_nat ?n :: u8) = w" by (simp only: word_unat_eq_iff unat_ucast_u8_u32)
    then show ?thesis using 1 u by (simp add: utf8.simps get_utf8_Cons del: of_nat_unat)
  next
    case 2
    let ?c = "of_nat (192 + ?n div 64) :: u8"
    have "?n div 64 < 32" using 2 by simp
    then have c: "unat ?c = 192 + ?n div 64" by (intro unat_byte) simp
    have lead: "utf8_lead ?c = Some (?n div 64, 1, 0x80)"
      using lead_arith(1) [OF \<open>?n div 64 < 32\<close>] unfolding utf8_lead_def c by simp
    have v: "unat (of_nat (?n div 64) :: u32) = ?n div 64" by (rule unat_of_nat_u32) (use max in simp)
    have n: "?n div 64 * 64 + ?n mod 64 = ?n" by simp
    have "unat (of_nat (?n div 64) :: u32) < 2 ^ 26" using \<open>?n div 64 < 32\<close> by (simp only: v) simp
    note iff = utf8_conts(1) [OF this]
    have ct: "utf8_cont 1 (of_nat (?n div 64)) (of_nat (128 + ?n mod 64) # r) = (Some w, r)"
      unfolding iff by (intro exI conjI, rule refl) (simp_all only: v cont n bk)
    show ?thesis
      using 2 c lead ct w by (simp add: utf8.simps Let_def get_utf8_Cons del: of_nat_add One_nat_def)
  next
    case 3
    let ?c = "of_nat (224 + ?n div 4096) :: u8"
    have "?n div 4096 < 16" using 3 by simp
    then have c: "unat ?c = 224 + ?n div 4096" by (intro unat_byte) simp
    have lead: "utf8_lead ?c = Some (?n div 4096, 2, 0x800)"
      using lead_arith(2) [OF \<open>?n div 4096 < 16\<close>] unfolding utf8_lead_def c by simp
    have v: "unat (of_nat (?n div 4096) :: u32) = ?n div 4096" by (rule unat_of_nat_u32) (use max in simp)
    have n: "?n div 4096 * 64 + ?n div 64 mod 64 = ?n div 64" "?n div 64 * 64 + ?n mod 64 = ?n"
      using div_mult_mod_eq [of "?n div 64" 64] by (simp_all add: div_mult2_eq [symmetric])
    have "unat (of_nat (?n div 4096) :: u32) < 2 ^ 20" using \<open>?n div 4096 < 16\<close> by (simp only: v) simp
    note iff = utf8_conts(2) [OF this]
    have ct: "utf8_cont 2 (of_nat (?n div 4096)) (of_nat (128 + ?n div 64 mod 64) # of_nat (128 + ?n mod 64) # r) = (Some w, r)"
      unfolding iff by (intro exI conjI, rule refl) (simp_all only: v cont n bk)
    show ?thesis
      using 3 c lead ct w by (simp add: utf8.simps Let_def get_utf8_Cons del: of_nat_add)
  next
    case 4
    let ?c = "of_nat (240 + ?n div 262144) :: u8"
    have lt: "?n div 262144 < 8" using max by simp
    then have c: "unat ?c = 240 + ?n div 262144" by (intro unat_byte) simp
    have lead: "utf8_lead ?c = Some (?n div 262144, 3, 0x10000)"
      using lead_arith(3) [OF lt] unfolding utf8_lead_def c by simp
    have v: "unat (of_nat (?n div 262144) :: u32) = ?n div 262144" by (rule unat_of_nat_u32) (use max in simp)
    have n: "?n div 262144 * 64 + ?n div 4096 mod 64 = ?n div 4096"
      "?n div 4096 * 64 + ?n div 64 mod 64 = ?n div 64" "?n div 64 * 64 + ?n mod 64 = ?n"
      using div_mult_mod_eq [of "?n div 64" 64] div_mult_mod_eq [of "?n div 4096" 64]
      by (simp_all add: div_mult2_eq [symmetric])
    have "unat (of_nat (?n div 262144) :: u32) < 2 ^ 14" using lt by (simp only: v) simp
    note iff = utf8_conts(3) [OF this]
    have ct: "utf8_cont 3 (of_nat (?n div 262144)) (of_nat (128 + ?n div 4096 mod 64) #
        of_nat (128 + ?n div 64 mod 64) # of_nat (128 + ?n mod 64) # r) = (Some w, r)"
      unfolding iff by (intro exI conjI, rule refl) (simp_all only: v cont n bk)
    show ?thesis
      using 4 c lead ct w by (simp add: utf8.simps Let_def get_utf8_Cons del: of_nat_add)
  qed
qed


lemma get_utf8_dec:
  assumes "cbs_get_utf8 cbs = (Some w, r)"
  shows "is_valid_code_point w \<and> cbs = utf8 w @ r"
proof -
  obtain c cs where cbs: "cbs = c # cs" using assms by (cases cbs) (auto simp: cbs_get_utf8_def)
  note got = assms [unfolded cbs get_utf8_Cons]
  show ?thesis
  proof (cases "unat c \<le> 0x7f")
    case True
    then have w: "unat w = unat c" "r = cs" using got by auto
    then show ?thesis
      using True valid_code_point_ascii [of w] by (simp add: cbs utf8.simps)
  next
    case False
    then obtain v n lo where lead: "utf8_lead c = Some (v, n, lo)"
      and ct: "utf8_cont n (of_nat v) cs = (Some w, r)" and val: "is_valid_code_point w" and lo: "lo \<le> unat w"
      using got by auto
    have cont: "a = of_nat (128 + unat a mod 64)" if "unat a div 64 = 2" for a :: u8
      using byte_split [OF that] by simp
    have g: "(x * 64 + unat b mod 64) mod 64 = unat b mod 64" "(x * 64 + unat b mod 64) div 64 = x" for x :: nat and b :: u8
      by simp_all
    have m: "unat a mod k < k" if "0 < k" for a :: u8 and k using that by simp
    consider (two) "unat c div 32 = 6" "v = unat c mod 32" "n = 1" "lo = 0x80"
      | (three) "unat c div 16 = 14" "v = unat c mod 16" "n = 2" "lo = 0x800"
      | (four) "unat c div 8 = 30" "v = unat c mod 8" "n = 3" "lo = 0x10000"
      using lead by (auto simp: utf8_lead_def split: if_splits)
    then show ?thesis
    proof cases
      case two
      have v: "unat (of_nat v :: u32) = v" by (rule unat_of_nat_u32) (use two(2) m [of 32 c] in simp)
      have vlt: "v < 32" using two(2) by simp
      then have "unat (of_nat v :: u32) < 2 ^ 26" unfolding v by simp
      from ct [unfolded two(3) utf8_conts(1) [OF this] v] obtain a
        where a: "cs = a # r" "unat a div 64 = 2" and w: "w = of_nat (v * 64 + unat a mod 64)" by blast
      have uw: "unat w = v * 64 + unat a mod 64"
        unfolding w by (rule unat_of_nat_u32) (use vlt m [of 64 a] in simp)
      have d: "unat w div 64 = v" "unat w mod 64 = unat a mod 64" unfolding uw by simp_all
      have "\<not> unat w \<le> 0x7f" "unat w \<le> 0x7ff" using lo two(4) vlt m [of 64 a] uw by simp_all
      then have "utf8 w = [of_nat (192 + v), of_nat (128 + unat a mod 64)]"
        by (simp add: utf8.simps Let_def d)
      then show ?thesis using byte_split [OF two(1)] cont [OF a(2)] two(2) val by (simp add: cbs a(1))
    next
      case three
      have v: "unat (of_nat v :: u32) = v" by (rule unat_of_nat_u32) (use three(2) m [of 16 c] in simp)
      have vlt: "v < 16" using three(2) by simp
      then have "unat (of_nat v :: u32) < 2 ^ 20" unfolding v by simp
      from ct [unfolded three(3) utf8_conts(2) [OF this] v] obtain a b
        where a: "cs = a # b # r" "unat a div 64 = 2" "unat b div 64 = 2"
          and w: "w = of_nat ((v * 64 + unat a mod 64) * 64 + unat b mod 64)" by blast
      have uw: "unat w = (v * 64 + unat a mod 64) * 64 + unat b mod 64"
        unfolding w by (rule unat_of_nat_u32) (use vlt m [of 64 a] m [of 64 b] in simp)
      have d: "unat w mod 64 = unat b mod 64" "unat w div 64 = v * 64 + unat a mod 64" by (simp_all only: uw g)
      have d': "unat w div 64 mod 64 = unat a mod 64" "unat w div 4096 = v"
      proof -
        show "unat w div 64 mod 64 = unat a mod 64" by (simp only: d g)
        have "unat w div 4096 = unat w div 64 div 64" by (simp flip: div_mult2_eq)
        also have "\<dots> = v" by (simp only: d g)
        finally show "unat w div 4096 = v" .
      qed
      have "\<not> unat w \<le> 0x7ff" "unat w \<le> 0xffff" using lo three(4) vlt m [of 64 a] m [of 64 b] uw by simp_all
      then have "utf8 w = [of_nat (224 + v), of_nat (128 + unat a mod 64), of_nat (128 + unat b mod 64)]"
        by (simp add: utf8.simps Let_def d(1) d')
      then show ?thesis
        using byte_split [OF three(1)] cont [OF a(2)] cont [OF a(3)] three(2) val by (simp add: cbs a(1))
    next
      case four
      have v: "unat (of_nat v :: u32) = v" by (rule unat_of_nat_u32) (use four(2) m [of 8 c] in simp)
      have vlt: "v < 8" using four(2) by simp
      then have "unat (of_nat v :: u32) < 2 ^ 14" unfolding v by simp
      from ct [unfolded four(3) utf8_conts(3) [OF this] v] obtain a b e
        where a: "cs = a # b # e # r" "unat a div 64 = 2" "unat b div 64 = 2" "unat e div 64 = 2"
          and w: "w = of_nat (((v * 64 + unat a mod 64) * 64 + unat b mod 64) * 64 + unat e mod 64)" by blast
      have uw: "unat w = ((v * 64 + unat a mod 64) * 64 + unat b mod 64) * 64 + unat e mod 64"
        unfolding w by (rule unat_of_nat_u32) (use vlt m [of 64 a] m [of 64 b] m [of 64 e] in simp)
      have d: "unat w mod 64 = unat e mod 64" "unat w div 64 = (v * 64 + unat a mod 64) * 64 + unat b mod 64"
        by (simp_all only: uw g)
      have e: "unat w div 4096 = v * 64 + unat a mod 64"
      proof -
        have "unat w div 4096 = unat w div 64 div 64" by (simp flip: div_mult2_eq)
        also have "\<dots> = v * 64 + unat a mod 64" by (simp only: d g)
        finally show ?thesis .
      qed
      have d': "unat w div 64 mod 64 = unat b mod 64" "unat w div 4096 mod 64 = unat a mod 64" "unat w div 262144 = v"
      proof -
        show "unat w div 64 mod 64 = unat b mod 64" by (simp only: d g)
        show "unat w div 4096 mod 64 = unat a mod 64" by (simp only: e g)
        have "unat w div 262144 = unat w div 4096 div 64" by (simp flip: div_mult2_eq)
        also have "\<dots> = v" by (simp only: e g)
        finally show "unat w div 262144 = v" .
      qed
      have "\<not> unat w \<le> 0xffff" using lo four(4) by simp
      then have "utf8 w = [of_nat (240 + v), of_nat (128 + unat a mod 64), of_nat (128 + unat b mod 64),
          of_nat (128 + unat e mod 64)]"
        by (simp add: utf8.simps Let_def d(1) d')
      then show ?thesis
        using byte_split [OF four(1)] cont [OF a(2)] cont [OF a(3)] cont [OF a(4)] four(2) val
        by (simp add: cbs a(1))
    qed
  qed
qed

interpretation utf8: strict_codec utf8 cbs_get_utf8 is_valid_code_point
  by unfold_locales (simp_all add: get_utf8_enc get_utf8_dec)

section \<open>The other encodings\<close>

definition latin1 :: "u32 \<Rightarrow> u8 list" where
  "latin1 u = [of_nat (unat u)]"

definition ucs2 :: "u32 \<Rightarrow> u8 list" where
  "ucs2 u = be_bytes 2 (unat u)"

definition utf32 :: "u32 \<Rightarrow> u8 list" where
  "utf32 u = be_bytes 4 (unat u)"

interpretation latin1: strict_codec latin1 cbs_get_latin1 "\<lambda>u. u \<le> 0xff"
proof (rule strict_codecI)
  fix bs :: "u8 list" and x r
  show "cbs_get_latin1 bs = (Some x, r) \<longleftrightarrow> x \<le> 0xff \<and> bs = latin1 x @ r"
  proof
    assume "cbs_get_latin1 bs = (Some x, r)"
    then obtain c where c: "bs = c # r" "x = ucast c"
      by (cases bs) (auto simp: cbs_get_latin1_def)
    then have "unat x = unat c" by simp
    then show "x \<le> 0xff \<and> bs = latin1 x @ r"
      using unat_u8_less [of c, THEN Suc_leI] by (simp add: c(1) latin1_def word_le_nat_alt)
  next
    assume a: "x \<le> 0xff \<and> bs = latin1 x @ r"
    then have "unat (of_nat (unat x) :: u8) = unat x" by (intro unat_byte) (simp add: word_le_nat_alt)
    then have "ucast (of_nat (unat x) :: u8) = x" by (simp only: word_unat_eq_iff unat_ucast_u8_u32)
    then show "cbs_get_latin1 bs = (Some x, r)"
      using a by (simp add: cbs_get_latin1_def latin1_def del: of_nat_unat)
  qed
qed

interpretation ucs2: strict_codec ucs2 cbs_get_ucs2_be "\<lambda>u. u \<le> 0xffff \<and> is_valid_code_point u"
proof (rule strict_codecI)
  fix bs :: "u8 list" and x r
  show "cbs_get_ucs2_be bs = (Some x, r) \<longleftrightarrow> (x \<le> 0xffff \<and> is_valid_code_point x) \<and> bs = ucs2 x @ r"
  proof
    assume "cbs_get_ucs2_be bs = (Some x, r)"
    then obtain c where c: "CBS_get_u16 bs = (Some c, r)" "x = ucast c" "is_valid_code_point x"
      by (auto simp: cbs_get_ucs2_be_def split: prod.splits option.splits if_splits)
    have "unat x = unat c" using c(2) unat_ucast_up [of c, where 'b = 32] by simp
    then show "(x \<le> 0xffff \<and> is_valid_code_point x) \<and> bs = ucs2 x @ r"
      using u16.dec_Some [OF c(1)] c(3) unat_word_less(1) [of c] by (simp add: ucs2_def word_le_nat_alt)
  next
    assume a: "(x \<le> 0xffff \<and> is_valid_code_point x) \<and> bs = ucs2 x @ r"
    then have "unat x < 2 ^ 16" by (simp add: word_le_nat_alt)
    then have u: "unat (ucast x :: u16) = unat x" by (simp add: unat_ucast)
    then have "ucast (ucast x :: u16) = x" by (simp add: word_unat_eq_iff unat_ucast)
    moreover have "CBS_get_u16 bs = (Some (ucast x), r)"
      using a u16.dec_enc [of "ucast x" r] by (simp only: u ucs2_def)
    ultimately show "cbs_get_ucs2_be bs = (Some x, r)" using a by (simp add: cbs_get_ucs2_be_def)
  qed
qed

interpretation utf32: strict_codec utf32 cbs_get_utf32_be is_valid_code_point
proof (rule strict_codecI)
  fix bs :: "u8 list" and x r
  show "cbs_get_utf32_be bs = (Some x, r) \<longleftrightarrow> is_valid_code_point x \<and> bs = utf32 x @ r"
  proof
    assume "cbs_get_utf32_be bs = (Some x, r)"
    then have "CBS_get_u32 bs = (Some x, r)" "is_valid_code_point x"
      by (auto simp: cbs_get_utf32_be_def split: prod.splits option.splits if_splits)
    then show "is_valid_code_point x \<and> bs = utf32 x @ r" using u32.dec_Some by (auto simp: utf32_def)
  qed (simp add: cbs_get_utf32_be_def utf32_def u32.dec_enc)
qed

section \<open>Writing\<close>

lemma utf8_bytes:
  "ucast (u :: u32) = (of_nat (unat u) :: u8)"
  "unat u < 64 * 64 \<Longrightarrow> unat u div 64 < 32 \<Longrightarrow> (ucast (ucast (TOP_BITS 2) OR drop_bit 6 u) :: u8) = of_nat (192 + unat u div 64)"
  "unat u div 4096 < 16 \<Longrightarrow> (ucast (ucast (TOP_BITS 3) OR drop_bit 12 u) :: u8) = of_nat (224 + unat u div 4096)"
  "unat u div 262144 < 8 \<Longrightarrow> (ucast (ucast (TOP_BITS 4) OR drop_bit 18 u) :: u8) = of_nat (240 + unat u div 262144)"
  "(ucast (ucast (TOP_BITS 1) OR ((v :: u32) AND ucast (BOTTOM_BITS 6))) :: u8) = of_nat (128 + unat v mod 64)"
proof -
  have or: "(ucast ((push_bit k a :: u32) OR w) :: u8) = of_nat (unat a * 2 ^ k + unat w)"
    if "unat w < 2 ^ k" "unat a * 2 ^ k < 2 ^ 32" for a w :: u32 and k
  proof -
    have "unat (push_bit k a OR w) = unat a * 2 ^ k + unat w" using unat_push_or [of w k a] that by simp
    then show ?thesis by (metis of_nat_unat)
  qed
  have top: "(ucast (TOP_BITS 1) :: u32) = push_bit 6 2" "(ucast (TOP_BITS 2) :: u32) = push_bit 5 6"
    "(ucast (TOP_BITS 3) :: u32) = push_bit 4 14" "(ucast (TOP_BITS 4) :: u32) = push_bit 3 30"
    by (simp_all add: TOP_BITS_def BOTTOM_BITS_def)
  show "ucast u = (of_nat (unat u) :: u8)" by (metis of_nat_unat)
  show "unat u < 64 * 64 \<Longrightarrow> unat u div 64 < 32 \<Longrightarrow> (ucast (ucast (TOP_BITS 2) OR drop_bit 6 u) :: u8) = of_nat (192 + unat u div 64)"
    unfolding top using or [of "drop_bit 6 u" 5 6] by (simp add: unat_drop_bit)
  show "unat u div 4096 < 16 \<Longrightarrow> (ucast (ucast (TOP_BITS 3) OR drop_bit 12 u) :: u8) = of_nat (224 + unat u div 4096)"
    unfolding top using or [of "drop_bit 12 u" 4 14] by (simp add: unat_drop_bit)
  show "unat u div 262144 < 8 \<Longrightarrow> (ucast (ucast (TOP_BITS 4) OR drop_bit 18 u) :: u8) = of_nat (240 + unat u div 262144)"
    unfolding top using or [of "drop_bit 18 u" 3 30] by (simp add: unat_drop_bit)
  have b: "(ucast (BOTTOM_BITS 6) :: u32) = mask 6" by (simp add: BOTTOM_BITS_def mask_eq_exp_minus_1)
  show "(ucast (ucast (TOP_BITS 1) OR (v AND ucast (BOTTOM_BITS 6))) :: u8) = of_nat (128 + unat v mod 64)"
    unfolding top b using or [of "v AND mask 6" 6 2] unat_and_mask [of v 6] by simp
qed


lemma utf8_len: "cbb_get_utf8_len u = length (utf8 u)"
  by (simp add: cbb_get_utf8_len_def utf8.simps Let_def word_le_nat_alt)

lemma writes_utf8:
  assumes u: "is_valid_code_point u"
  shows "writes d (\<lambda>m. cbb_add_utf8 m d u) (utf8 u)"
proof -
  have max: "unat u \<le> 0x10ffff" using valid_code_point_bound [OF u] .
  have le: "u \<le> 0x7f \<longleftrightarrow> unat u \<le> 0x7f" "u \<le> 0x7ff \<longleftrightarrow> unat u \<le> 0x7ff" "u \<le> 0xffff \<longleftrightarrow> unat u \<le> 0xffff"
    "u \<le> 0x10ffff"
    using max by (simp_all add: word_le_nat_alt)
  note cont = utf8_bytes(5) [of u] utf8_bytes(5) [of "drop_bit 6 u"] utf8_bytes(5) [of "drop_bit 12 u"]
  have dr: "unat (drop_bit 6 u) = unat u div 64" "unat (drop_bit 12 u) = unat u div 4096"
    by (simp_all add: unat_drop_bit)
  note cont' = cont [unfolded dr]
  consider "unat u \<le> 0x7f" | "\<not> unat u \<le> 0x7f" "unat u \<le> 0x7ff" | "\<not> unat u \<le> 0x7ff" "unat u \<le> 0xffff"
    | "\<not> unat u \<le> 0xffff" by linarith
  then show ?thesis
  proof cases
    case 1
    then have "cbb_add_utf8 m d u = CBB_add_u8 m d (of_nat (unat u))" for m
      using u by (intro ext) (simp add: cbb_add_utf8_def le)
    moreover have "utf8 u = [of_nat (unat u)]" using 1 by (simp add: utf8.simps Let_def del: of_nat_unat)
    ultimately show ?thesis by (simp only: writes_u8)
  next
    case 2
    then have lead: "(ucast (ucast (TOP_BITS 2) OR drop_bit 6 u) :: u8) = of_nat (192 + unat u div 64)"
      by (intro utf8_bytes(2)) simp_all
    have "cbb_add_utf8 m d u = c_and (CBB_add_u8 m d (of_nat (192 + unat u div 64)))
        (CBB_add_u8 m d (of_nat (128 + unat u mod 64)))" for m
      unfolding lead [symmetric] cont'(1) [symmetric] using 2 u by (intro ext) (simp add: cbb_add_utf8_def le)
    moreover have "utf8 u = [of_nat (192 + unat u div 64)] @ [of_nat (128 + unat u mod 64)]"
      using 2 by (simp add: utf8.simps Let_def)
    ultimately show ?thesis by (simp only: writes_u8 writes_seq)
  next
    case 3
    then have lead: "(ucast (ucast (TOP_BITS 3) OR drop_bit 12 u) :: u8) = of_nat (224 + unat u div 4096)"
      by (intro utf8_bytes(3)) simp_all
    have "cbb_add_utf8 m d u = c_and (CBB_add_u8 m d (of_nat (224 + unat u div 4096)))
        (c_and (CBB_add_u8 m d (of_nat (128 + unat u div 64 mod 64)))
          (CBB_add_u8 m d (of_nat (128 + unat u mod 64))))" for m
      unfolding lead [symmetric] cont'(1,2) [symmetric] using 3 u by (intro ext) (simp add: cbb_add_utf8_def le)
    moreover have "utf8 u = [of_nat (224 + unat u div 4096)] @ [of_nat (128 + unat u div 64 mod 64)] @
        [of_nat (128 + unat u mod 64)]"
      using 3 by (simp add: utf8.simps Let_def)
    ultimately show ?thesis by (simp only: writes_u8 writes_seq)
  next
    case 4
    then have lead: "(ucast (ucast (TOP_BITS 4) OR drop_bit 18 u) :: u8) = of_nat (240 + unat u div 262144)"
      using max by (intro utf8_bytes(4)) simp_all
    have "cbb_add_utf8 m d u = c_and (CBB_add_u8 m d (of_nat (240 + unat u div 262144)))
        (c_and (CBB_add_u8 m d (of_nat (128 + unat u div 4096 mod 64)))
          (c_and (CBB_add_u8 m d (of_nat (128 + unat u div 64 mod 64)))
            (CBB_add_u8 m d (of_nat (128 + unat u mod 64)))))" for m
      unfolding lead [symmetric] cont' [symmetric] using 4 u by (intro ext) (simp add: cbb_add_utf8_def le)
    moreover have "utf8 u = [of_nat (240 + unat u div 262144)] @ [of_nat (128 + unat u div 4096 mod 64)] @
        [of_nat (128 + unat u div 64 mod 64)] @ [of_nat (128 + unat u mod 64)]"
      using 4 by (simp add: utf8.simps Let_def)
    ultimately show ?thesis by (simp only: writes_u8 writes_seq)
  qed
qed

interpretation utf8_cbb: cbb_codec cbb_add_utf8 utf8 is_valid_code_point cbs_get_utf8
  by unfold_locales (rule writes_utf8)

interpretation latin1_cbb: cbb_codec cbb_add_latin1 latin1 "\<lambda>u. u \<le> 0xff" cbs_get_latin1
proof unfold_locales
  fix u :: u32 and d assume "u \<le> 0xff"
  then have "cbb_add_latin1 m d u = CBB_add_u8 m d (of_nat (unat u))" for m
    by (intro ext) (simp add: cbb_add_latin1_def)
  then show "writes d (\<lambda>m. cbb_add_latin1 m d u) (latin1 u)" by (simp only: writes_u8 latin1_def)
qed

interpretation ucs2_cbb: cbb_codec cbb_add_ucs2_be ucs2 "\<lambda>u. u \<le> 0xffff \<and> is_valid_code_point u" cbs_get_ucs2_be
proof unfold_locales
  fix u :: u32 and d assume u: "u \<le> 0xffff \<and> is_valid_code_point u"
  then have "cbb_add_ucs2_be m d u = CBB_add_u16 m d (ucast u)" for m
    by (intro ext) (simp add: cbb_add_ucs2_be_def)
  moreover have "unat (ucast u :: u16) = unat u" using u by (simp add: unat_ucast word_le_nat_alt)
  ultimately show "writes d (\<lambda>m. cbb_add_ucs2_be m d u) (ucs2 u)"
    using u16_cbb.writes_enc [where x = "ucast u" and d = d] by (simp only: ucs2_def simp_thms)
qed

interpretation utf32_cbb: cbb_codec cbb_add_utf32_be utf32 is_valid_code_point cbs_get_utf32_be
proof unfold_locales
  fix u d assume "is_valid_code_point u"
  then have "cbb_add_utf32_be m d u = CBB_add_u32 m d u" for m by (intro ext) (simp add: cbb_add_utf32_be_def)
  then show "writes d (\<lambda>m. cbb_add_utf32_be m d u) (utf32 u)"
    using u32_cbb.writes_enc [where x = u and d = d] by (simp only: utf32_def simp_thms)
qed

end
