(* ===== verification/ConstTime.thy ===== *)
theory ConstTime
  imports Prelude
begin

text \<open>
  The branch-free comparisons and selections of \<open>crypto/internal.h\<close> on 64-bit words, on bytes and on
  \<open>int\<close>s, with the value each computes: an all-ones mask where the comparison holds, zero where it does
  not. \<open>value_barrier_w\<close> returns its argument; what it keeps the compiler from doing has no meaning here.
\<close>

definition CONSTTIME_TRUE_W :: u64 where "CONSTTIME_TRUE_W = NOT 0"
definition CONSTTIME_FALSE_W :: u64 where "CONSTTIME_FALSE_W = 0"
definition CONSTTIME_TRUE_8 :: u8 where "CONSTTIME_TRUE_8 = 0xff"
definition CONSTTIME_FALSE_8 :: u8 where "CONSTTIME_FALSE_8 = 0"

definition value_barrier_w :: "u64 \<Rightarrow> u64" where
  "value_barrier_w a = a"

definition constant_time_msb_w :: "u64 \<Rightarrow> u64" where
  "constant_time_msb_w a = 0 - drop_bit (8 * 8 - 1) a"

definition constant_time_lt_w :: "u64 \<Rightarrow> u64 \<Rightarrow> u64" where
  "constant_time_lt_w a b = constant_time_msb_w (a XOR ((a XOR b) OR ((a - b) XOR a)))"

definition constant_time_lt_8 :: "u64 \<Rightarrow> u64 \<Rightarrow> u8" where
  "constant_time_lt_8 a b = ucast (constant_time_lt_w a b)"

definition constant_time_ge_w :: "u64 \<Rightarrow> u64 \<Rightarrow> u64" where
  "constant_time_ge_w a b = NOT (constant_time_lt_w a b)"

definition constant_time_ge_8 :: "u64 \<Rightarrow> u64 \<Rightarrow> u8" where
  "constant_time_ge_8 a b = ucast (constant_time_ge_w a b)"

definition constant_time_is_zero_w :: "u64 \<Rightarrow> u64" where
  "constant_time_is_zero_w a = constant_time_msb_w (NOT a AND (a - 1))"

definition constant_time_is_zero_8 :: "u64 \<Rightarrow> u8" where
  "constant_time_is_zero_8 a = ucast (constant_time_is_zero_w a)"

definition constant_time_eq_w :: "u64 \<Rightarrow> u64 \<Rightarrow> u64" where
  "constant_time_eq_w a b = constant_time_is_zero_w (a XOR b)"

definition constant_time_eq_8 :: "u64 \<Rightarrow> u64 \<Rightarrow> u8" where
  "constant_time_eq_8 a b = ucast (constant_time_eq_w a b)"

text \<open>An \<open>int\<close> is a 32-bit word, converted to a \<open>crypto_word_t\<close> with its sign.\<close>

definition constant_time_eq_int :: "u32 \<Rightarrow> u32 \<Rightarrow> u64" where
  "constant_time_eq_int a b = constant_time_eq_w (scast a) (scast b)"

definition constant_time_eq_int_8 :: "u32 \<Rightarrow> u32 \<Rightarrow> u8" where
  "constant_time_eq_int_8 a b = constant_time_eq_8 (scast a) (scast b)"

definition constant_time_select_w :: "u64 \<Rightarrow> u64 \<Rightarrow> u64 \<Rightarrow> u64" where
  "constant_time_select_w msk a b = (value_barrier_w msk AND a) OR (value_barrier_w (NOT msk) AND b)"

definition constant_time_select_8 :: "u8 \<Rightarrow> u8 \<Rightarrow> u8 \<Rightarrow> u8" where
  "constant_time_select_8 msk a b = ucast (constant_time_select_w (ucast msk) (ucast a) (ucast b))"

definition constant_time_select_int :: "u64 \<Rightarrow> u32 \<Rightarrow> u32 \<Rightarrow> u32" where
  "constant_time_select_int msk a b = ucast (constant_time_select_w msk (scast a) (scast b))"

section \<open>What they compute\<close>

named_theorems ct \<open>the values of the constant-time operations\<close>

lemma bit_63: "bit (a :: u64) 63 \<longleftrightarrow> 2 ^ 63 \<le> unat a"
proof -
  have "unat a < 2 ^ 64" using unsigned_less [of a, where 'a = nat] by simp
  then have "unat a div 2 ^ 63 < 2" by (simp add: less_mult_imp_div_less)
  then have "odd (unat a div 2 ^ 63) \<longleftrightarrow> unat a div 2 ^ 63 \<noteq> 0"
    by (metis One_nat_def dvd_0_right even_Suc less_2_cases odd_one)
  then show ?thesis by (simp add: bit_unat div_eq_0_iff not_less)
qed

lemma msb_w: "constant_time_msb_w a = (if bit a 63 then NOT 0 else 0)"
proof -
  have "drop_bit 63 a = (if bit a 63 then 1 else 0)"
  proof (rule bit_word_eqI)
    fix n assume "n < LENGTH(64)"
    then show "bit (drop_bit 63 a) n = bit (if bit a 63 then 1 else 0 :: u64) n"
      using bit_imp_le_length [of a "63 + n"] by (cases n) (auto simp: bit_simps bit_1_iff)
  qed
  then show ?thesis by (simp add: constant_time_msb_w_def)
qed

lemma lt_w [ct]: "constant_time_lt_w a b = (if a < b then CONSTTIME_TRUE_W else CONSTTIME_FALSE_W)"
proof -
  have d: "unat (a - b) = (if unat b \<le> unat a then unat a - unat b else unat a + 2 ^ 64 - unat b)"
    using unat_sub_if' [of a b] by simp
  have u: "unat a < 2 ^ 64" "unat b < 2 ^ 64"
    using unsigned_less [of a, where 'a = nat] unsigned_less [of b, where 'a = nat] by simp_all
  have "bit (a XOR ((a XOR b) OR ((a - b) XOR a))) 63 \<longleftrightarrow>
      (if bit a 63 = bit b 63 then bit (a - b) 63 else bit b 63)"
    by (auto simp: bit_simps)
  also have "\<dots> \<longleftrightarrow> unat a < unat b"
    using u by (auto simp: bit_63 d not_le)
  finally show ?thesis
    by (simp add: constant_time_lt_w_def msb_w word_less_nat_alt CONSTTIME_TRUE_W_def CONSTTIME_FALSE_W_def)
qed

lemma is_zero_w [ct]: "constant_time_is_zero_w a = (if a = 0 then CONSTTIME_TRUE_W else CONSTTIME_FALSE_W)"
proof -
  have u: "unat a < 2 ^ 64" using unsigned_less [of a, where 'a = nat] by simp
  have d: "unat (a - 1) = (if 1 \<le> unat a then unat a - 1 else unat a + 2 ^ 64 - 1)"
    using unat_sub_if' [of a 1] by simp
  have "bit (NOT a AND (a - 1)) 63 \<longleftrightarrow> \<not> bit a 63 \<and> bit (a - 1) 63"
    by (auto simp: bit_simps)
  also have "\<dots> \<longleftrightarrow> unat a = 0" using u by (auto simp: bit_63 d)
  finally show ?thesis
    by (simp add: constant_time_is_zero_w_def msb_w unat_eq_0 CONSTTIME_TRUE_W_def CONSTTIME_FALSE_W_def)
qed

lemma eq_w [ct]: "constant_time_eq_w a b = (if a = b then CONSTTIME_TRUE_W else CONSTTIME_FALSE_W)"
proof -
  have "a XOR b = 0 \<longleftrightarrow> a = b" by (auto simp: bit_eq_iff bit_simps)
  then show ?thesis by (simp add: constant_time_eq_w_def is_zero_w)
qed

lemma ge_w [ct]: "constant_time_ge_w a b = (if a \<ge> b then CONSTTIME_TRUE_W else CONSTTIME_FALSE_W)"
  by (auto simp: constant_time_ge_w_def lt_w CONSTTIME_TRUE_W_def CONSTTIME_FALSE_W_def)

lemma ucast_masks: "(ucast CONSTTIME_TRUE_W :: u8) = CONSTTIME_TRUE_8" "(ucast CONSTTIME_FALSE_W :: u8) = CONSTTIME_FALSE_8"
  by code_simp+

lemma byte_masks [ct]:
  "constant_time_lt_8 a b = (if a < b then CONSTTIME_TRUE_8 else CONSTTIME_FALSE_8)"
  "constant_time_ge_8 a b = (if a \<ge> b then CONSTTIME_TRUE_8 else CONSTTIME_FALSE_8)"
  "constant_time_is_zero_8 a = (if a = 0 then CONSTTIME_TRUE_8 else CONSTTIME_FALSE_8)"
  "constant_time_eq_8 a b = (if a = b then CONSTTIME_TRUE_8 else CONSTTIME_FALSE_8)"
  by (simp_all add: constant_time_lt_8_def constant_time_ge_8_def constant_time_is_zero_8_def
      constant_time_eq_8_def lt_w ge_w is_zero_w eq_w ucast_masks)

lemma scast_inject: "(scast (a :: u32) :: u64) = scast b \<longleftrightarrow> a = b"
proof
  assume eq: "(scast a :: u64) = scast b"
  have low: "bit (scast w :: u64) n = bit w n" if "n < 32" for w :: u32 and n
    using that by (cases "n = 31") (auto simp: bit_simps min_def)
  show "a = b" by (rule bit_word_eqI) (use eq in \<open>simp flip: low\<close>)
qed simp

lemma eq_int [ct]:
  "constant_time_eq_int a b = (if a = b then CONSTTIME_TRUE_W else CONSTTIME_FALSE_W)"
  "constant_time_eq_int_8 a b = (if a = b then CONSTTIME_TRUE_8 else CONSTTIME_FALSE_8)"
  by (simp_all add: constant_time_eq_int_def constant_time_eq_int_8_def eq_w byte_masks scast_inject)

lemma select_w [ct]:
  "constant_time_select_w CONSTTIME_TRUE_W a b = a"
  "constant_time_select_w CONSTTIME_FALSE_W a b = b"
  by (simp_all add: constant_time_select_w_def value_barrier_w_def CONSTTIME_TRUE_W_def CONSTTIME_FALSE_W_def)

lemma select_8 [ct]:
  "constant_time_select_8 CONSTTIME_TRUE_8 a b = a"
  "constant_time_select_8 CONSTTIME_FALSE_8 a b = b"
proof -
  have m: "(ucast (255 :: u8) :: u64) = mask 8" by (simp add: mask_eq_exp_minus_1)
  show "constant_time_select_8 CONSTTIME_TRUE_8 a b = a"
    unfolding constant_time_select_8_def constant_time_select_w_def value_barrier_w_def CONSTTIME_TRUE_8_def m
    by (rule bit_word_eqI) (auto simp: bit_simps)
  show "constant_time_select_8 CONSTTIME_FALSE_8 a b = b"
    unfolding constant_time_select_8_def constant_time_select_w_def value_barrier_w_def CONSTTIME_FALSE_8_def
    by (rule bit_word_eqI) (auto simp: bit_simps)
qed

lemma select_int [ct]:
  "constant_time_select_int CONSTTIME_TRUE_W a b = a"
  "constant_time_select_int CONSTTIME_FALSE_W a b = b"
  unfolding constant_time_select_int_def select_w
  by (rule bit_word_eqI, auto simp: bit_simps)+

lemma select_8_if [ct]:
  "constant_time_select_8 (if P then CONSTTIME_TRUE_8 else CONSTTIME_FALSE_8) a b = (if P then a else b)"
  by (simp add: select_8)

end
