(* ===== verification/Base64.thy ===== *)
theory Base64
  imports ConstTime
begin

text \<open>
  \<open>crypto/base64/base64.c\<close>: the block encoder and decoder and the streaming ones, which work in lines of
  48 bytes (64 characters) and skip white space. An output buffer is modelled by the bytes that are
  written to it, in order; the caller provides the room. Behind it stands the reference \<open>base64\<close>, which
  writes the groups of six bits of the data as numbers.
\<close>

section \<open>Characters in constant time\<close>

definition constant_time_lt_args_8 :: "u8 \<Rightarrow> u8 \<Rightarrow> u8" where
  "constant_time_lt_args_8 a b =
     (let aw = ucast a; bw = ucast b in ucast (constant_time_msb_w (aw - bw)))"

definition constant_time_in_range_8 :: "u8 \<Rightarrow> u8 \<Rightarrow> u8 \<Rightarrow> u8" where
  "constant_time_in_range_8 a lo hi = constant_time_lt_args_8 (a - lo) (hi - lo + 1)"

definition conv_bin2ascii :: "u8 \<Rightarrow> u8" where
  "conv_bin2ascii a =
     (let a = a AND 0x3f;
          ret = constant_time_select_8 (constant_time_eq_8 (ucast a) 62) 43 47;
          ret = constant_time_select_8 (constant_time_lt_args_8 a 62) (a - 52 + 48) ret;
          ret = constant_time_select_8 (constant_time_lt_args_8 a 52) (a - 26 + 97) ret;
          ret = constant_time_select_8 (constant_time_lt_args_8 a 26) (a + 65) ret
      in ret)"

definition base64_ascii_to_bin :: "u8 \<Rightarrow> u8" where
  "base64_ascii_to_bin a =
     (let is_upper = constant_time_in_range_8 a 65 90;
          is_lower = constant_time_in_range_8 a 97 122;
          is_digit = constant_time_in_range_8 a 48 57;
          is_plus = constant_time_eq_8 (ucast a) 43;
          is_slash = constant_time_eq_8 (ucast a) 47;
          is_equals = constant_time_eq_8 (ucast a) 61;
          ret = 0xff;
          ret = constant_time_select_8 is_upper (a - 65) ret;
          ret = constant_time_select_8 is_lower (a - 97 + 26) ret;
          ret = constant_time_select_8 is_digit (a - 48 + 52) ret;
          ret = constant_time_select_8 is_plus 62 ret;
          ret = constant_time_select_8 is_slash 63 ret;
          ret = constant_time_select_8 is_equals 0 ret
      in ret)"

section \<open>Encoding\<close>

definition EVP_EncodedLength :: "nat \<Rightarrow> nat option" where
  "EVP_EncodedLength len =
     (if szadd len 2 < len then None
      else
        let len = szadd len 2 div 3 in
        if (len * 4 mod 2 ^ 64) div 4 \<noteq> len then None
        else
          let len = len * 4 mod 2 ^ 64 in
          if szadd len 1 < len then None else Some (szadd len 1))"

text \<open>The loop of \<open>EVP_EncodeBlock\<close>: what it writes, and the count.\<close>

fun encode_block_loop :: "u8 list \<Rightarrow> nat \<Rightarrow> u8 list \<times> nat" where
  "encode_block_loop [] ret = ([], ret)"
| "encode_block_loop [s0] ret =
     (let l = push_bit 16 (ucast s0) :: u32
      in ([conv_bin2ascii (ucast (drop_bit 18 l)), conv_bin2ascii (ucast (drop_bit 12 l)), 61, 61], szadd ret 4))"
| "encode_block_loop [s0, s1] ret =
     (let l = push_bit 16 (ucast s0) OR push_bit 8 (ucast s1) :: u32
      in ([conv_bin2ascii (ucast (drop_bit 18 l)), conv_bin2ascii (ucast (drop_bit 12 l)),
           conv_bin2ascii (ucast (drop_bit 6 l)), 61], szadd ret 4))"
| "encode_block_loop (s0 # s1 # s2 # src) ret =
     (let l = push_bit 16 (ucast s0) OR push_bit 8 (ucast s1) OR ucast s2 :: u32
      in case encode_block_loop src (szadd ret 4) of
           (dst, ret) \<Rightarrow>
             (conv_bin2ascii (ucast (drop_bit 18 l)) # conv_bin2ascii (ucast (drop_bit 12 l)) #
              conv_bin2ascii (ucast (drop_bit 6 l)) # conv_bin2ascii (ucast l) # dst, ret))"

text \<open>The bytes written, with the final NUL, and the returned length without it.\<close>

definition EVP_EncodeBlock :: "u8 list \<Rightarrow> u8 list \<times> nat" where
  "EVP_EncodeBlock src = (case encode_block_loop src 0 of (dst, ret) \<Rightarrow> (dst @ [0], ret))"

record EVP_ENCODE_CTX =
  ctx_data_used :: nat
  ctx_data :: "u8 list"
  ctx_eof_seen :: bool
  ctx_error :: bool

definition EVP_EncodeInit :: EVP_ENCODE_CTX where
  "EVP_EncodeInit = \<lparr>ctx_data_used = 0, ctx_data = replicate 48 0, ctx_eof_seen = False, ctx_error = False\<rparr>"

text \<open>The loop over whole lines. Each line ends in a newline and a NUL that the next line overwrites, so
  the NUL is left to the caller. The total is \<open>None\<close> where the code finds that it overflows.\<close>

function encode_update_loop :: "u8 list \<Rightarrow> nat \<Rightarrow> u8 list \<times> u8 list \<times> nat option" where
  "encode_update_loop inp count =
     (if length inp \<ge> 48
      then case EVP_EncodeBlock (take 48 inp) of
             (line, encoded) \<Rightarrow>
               if szadd (szadd count encoded) 1 < count
               then (take encoded line @ [10], drop 48 inp, None)
               else case encode_update_loop (drop 48 inp) (szadd (szadd count encoded) 1) of
                      (out, rest, t) \<Rightarrow> (take encoded line @ [10] @ out, rest, t)
      else ([], inp, Some count))"
  by pat_completeness auto
termination
  by (relation "measure (\<lambda>(inp, c). length inp)") auto

declare encode_update_loop.simps [simp del]

text \<open>The results are the bytes written, \<open>*out_len\<close> and the context.\<close>

definition EVP_EncodeUpdate :: "EVP_ENCODE_CTX \<Rightarrow> u8 list \<Rightarrow> (u8 list \<times> int) \<times> EVP_ENCODE_CTX" where
  "EVP_EncodeUpdate ctx inp =
     (if inp = [] then (([], 0), ctx)
      else if 48 - ctx_data_used ctx > length inp
      then (([], 0), ctx\<lparr>ctx_data := overwrite (ctx_data_used ctx) inp (ctx_data ctx),
                        ctx_data_used := ctx_data_used ctx + length inp\<rparr>)
      else
        case (if ctx_data_used ctx \<noteq> 0
              then let todo = 48 - ctx_data_used ctx;
                       data = overwrite (ctx_data_used ctx) (take todo inp) (ctx_data ctx)
                   in case EVP_EncodeBlock data of
                        (line, encoded) \<Rightarrow>
                          (take encoded line @ [10], drop todo inp, szadd encoded 1,
                           ctx\<lparr>ctx_data := data, ctx_data_used := 0\<rparr>)
              else ([], inp, 0, ctx)) of
          (first, inp, count, ctx) \<Rightarrow>
            (case encode_update_loop inp count of
               (lines, rest, None) \<Rightarrow> ((first @ lines @ [0], 0), ctx)
             | (lines, rest, Some count) \<Rightarrow>
                 let ctx = (if rest \<noteq> [] then ctx\<lparr>ctx_data := overwrite 0 rest (ctx_data ctx)\<rparr> else ctx);
                     count = (if count > 2 ^ 31 - 1 then 0 else count)
                 in ((first @ lines @ [0], int count), ctx\<lparr>ctx_data_used := length rest\<rparr>)))"

definition EVP_EncodeFinal :: "EVP_ENCODE_CTX \<Rightarrow> (u8 list \<times> int) \<times> EVP_ENCODE_CTX" where
  "EVP_EncodeFinal ctx =
     (if ctx_data_used ctx = 0 then (([], 0), ctx)
      else case EVP_EncodeBlock (take (ctx_data_used ctx) (ctx_data ctx)) of
             (line, encoded) \<Rightarrow>
               ((take encoded line @ [10, 0], int (encoded + 1)), ctx\<lparr>ctx_data_used := 0\<rparr>))"

section \<open>Decoding\<close>

definition EVP_DecodedLength :: "nat \<Rightarrow> nat option" where
  "EVP_DecodedLength len = (if len mod 4 \<noteq> 0 then None else Some (len div 4 * 3))"

definition EVP_DecodeInit :: EVP_ENCODE_CTX where
  "EVP_DecodeInit = \<lparr>ctx_data_used = 0, ctx_data = replicate 48 0, ctx_eof_seen = False, ctx_error = False\<rparr>"

text \<open>The result is the bytes written, so \<open>*out_num_bytes\<close> is its length.\<close>

definition base64_decode_quad :: "u8 \<Rightarrow> u8 \<Rightarrow> u8 \<Rightarrow> u8 \<Rightarrow> u8 list option" where
  "base64_decode_quad in0 in1 in2 in3 =
     (let a = base64_ascii_to_bin in0; b = base64_ascii_to_bin in1;
          c = base64_ascii_to_bin in2; d = base64_ascii_to_bin in3 in
      if a = 0xff \<or> b = 0xff \<or> c = 0xff \<or> d = 0xff then None
      else
        let v = push_bit 18 (ucast a) OR push_bit 12 (ucast b) OR push_bit 6 (ucast c) OR ucast d :: u32;
            padding_pattern = push_bit 3 (of_bool (in0 = 61)) OR push_bit 2 (of_bool (in1 = 61)) OR
              push_bit 1 (of_bool (in2 = 61)) OR of_bool (in3 = 61) :: u32
        in if padding_pattern = 0 then Some [ucast (drop_bit 16 v), ucast (drop_bit 8 v), ucast v]
           else if padding_pattern = 1 then Some [ucast (drop_bit 16 v), ucast (drop_bit 8 v)]
           else if padding_pattern = 3 then Some [ucast (drop_bit 16 v)]
           else None)"

text \<open>The loop over the input characters: the bytes written and whether it ran to the end.\<close>

fun decode_update_loop :: "u8 list \<Rightarrow> EVP_ENCODE_CTX \<Rightarrow> (u8 list \<times> bool) \<times> EVP_ENCODE_CTX" where
  "decode_update_loop [] ctx = (([], True), ctx)"
| "decode_update_loop (c # inp) ctx =
     (if c = 32 \<or> c = 9 \<or> c = 13 \<or> c = 10 then decode_update_loop inp ctx
      else if ctx_eof_seen ctx then (([], False), ctx\<lparr>ctx_error := True\<rparr>)
      else
        let ctx = ctx\<lparr>ctx_data := (ctx_data ctx)[ctx_data_used ctx := c],
                     ctx_data_used := ctx_data_used ctx + 1\<rparr>
        in if ctx_data_used ctx = 4
           then
             (case base64_decode_quad (ctx_data ctx ! 0) (ctx_data ctx ! 1) (ctx_data ctx ! 2) (ctx_data ctx ! 3) of
                None \<Rightarrow> (([], False), ctx\<lparr>ctx_error := True\<rparr>)
              | Some bytes \<Rightarrow>
                  let ctx = ctx\<lparr>ctx_data_used := 0\<rparr>;
                      ctx = (if length bytes < 3 then ctx\<lparr>ctx_eof_seen := True\<rparr> else ctx)
                  in (case decode_update_loop inp ctx of ((out, ok), ctx) \<Rightarrow> ((bytes @ out, ok), ctx)))
           else decode_update_loop inp ctx)"

text \<open>The results are the bytes written, \<open>*out_len\<close> and the return value, and the context.\<close>

definition EVP_DecodeUpdate :: "EVP_ENCODE_CTX \<Rightarrow> u8 list \<Rightarrow> (u8 list \<times> int \<times> int) \<times> EVP_ENCODE_CTX" where
  "EVP_DecodeUpdate ctx inp =
     (if ctx_error ctx then (([], 0, - 1), ctx)
      else case decode_update_loop inp ctx of
             ((out, False), ctx) \<Rightarrow> ((out, 0, - 1), ctx)
           | ((out, True), ctx) \<Rightarrow>
               if length out > 2 ^ 31 - 1 then ((out, 0, - 1), ctx\<lparr>ctx_error := True\<rparr>)
               else ((out, int (length out), if ctx_eof_seen ctx then 0 else 1), ctx))"

definition EVP_DecodeFinal :: "EVP_ENCODE_CTX \<Rightarrow> int" where
  "EVP_DecodeFinal ctx = (if ctx_error ctx \<or> ctx_data_used ctx \<noteq> 0 then - 1 else 1)"

text \<open>The loop over the quads of an input whose length is a multiple of four.\<close>

fun decode_base64_loop :: "u8 list \<Rightarrow> u8 list option" where
  "decode_base64_loop (in0 # in1 # in2 # in3 # inp) =
     (case base64_decode_quad in0 in1 in2 in3 of
        None \<Rightarrow> None
      | Some bytes \<Rightarrow>
          if length bytes \<noteq> 3 \<and> inp \<noteq> [] then None
          else map_option ((@) bytes) (decode_base64_loop inp))"
| "decode_base64_loop _ = Some []"

definition EVP_DecodeBase64 :: "nat \<Rightarrow> u8 list \<Rightarrow> u8 list option" where
  "EVP_DecodeBase64 max_out inp =
     (if length inp mod 4 \<noteq> 0 then None
      else case EVP_DecodedLength (length inp) of
             None \<Rightarrow> None
           | Some max_len \<Rightarrow> if max_out < max_len then None else decode_base64_loop inp)"

text \<open>The bytes written and the return value.\<close>

definition EVP_DecodeBlock :: "u8 list \<Rightarrow> (u8 list \<times> int) option" where
  "EVP_DecodeBlock src =
     (let src = dropWhile (\<lambda>c. c = 32 \<or> c = 9) src;
          src = rev (dropWhile (\<lambda>c. c = 32 \<or> c = 9 \<or> c = 13 \<or> c = 10) (rev src))
      in case EVP_DecodedLength (length src) of
           None \<Rightarrow> None
         | Some dst_len \<Rightarrow>
             if dst_len > 2 ^ 31 - 1 then None
             else case EVP_DecodeBase64 dst_len src of
                    None \<Rightarrow> None
                  | Some dst \<Rightarrow>
                      let dst = dst @ replicate ((3 - length dst mod 3) mod 3) 0
                      in Some (dst, int (length dst)))"

end
