(* ===== verification/Base64Spec.thy ===== *)
theory Base64Spec
  imports Base64
begin

text \<open>
  What \<open>base64.c\<close> computes: the encoder writes the reference \<open>base64\<close>, the decoder inverts it, and the
  streaming functions do not depend on how the data is cut into calls.
\<close>

section \<open>The reference\<close>

definition b64_char :: "nat \<Rightarrow> u8" where
  "b64_char n =
     of_nat (if n < 26 then 65 + n else if n < 52 then 71 + n else if n < 62 then n - 4
             else if n = 62 then 43 else 47)"

definition b64_value :: "u8 \<Rightarrow> nat option" where
  "b64_value c =
     (let n = unat c in
      if 65 \<le> n \<and> n \<le> 90 then Some (n - 65)
      else if 97 \<le> n \<and> n \<le> 122 then Some (n - 71)
      else if 48 \<le> n \<and> n \<le> 57 then Some (n + 4)
      else if n = 43 then Some 62 else if n = 47 then Some 63 else None)"

definition sextets :: "nat \<Rightarrow> u8 list" where
  "sextets n = map b64_char [n div 262144, n div 4096 mod 64, n div 64 mod 64, n mod 64]"

fun base64 :: "u8 list \<Rightarrow> u8 list" where
  "base64 [] = []"
| "base64 [a] = take 2 (sextets (be_val [a, 0, 0])) @ [61, 61]"
| "base64 [a, b] = take 3 (sextets (be_val [a, b, 0])) @ [61]"
| "base64 (a # b # c # s) = sextets (be_val [a, b, c]) @ base64 s"

lemma length_base64: "length (base64 s) = (length s + 2) div 3 * 4"
proof (induction s rule: base64.induct)
  case (4 a b c s)
  have "(5 + length s) div 3 = (length s + 2) div 3 + 1" by presburger
  then show ?case using 4 by (simp add: sextets_def)
qed (simp_all add: sextets_def)

lemma b64_value_char: "n < 64 \<Longrightarrow> b64_value (b64_char n) = Some n"
  by (auto simp: b64_value_def b64_char_def Let_def unat_of_nat_u8 split: if_splits)

lemma b64_char_value: "b64_value c = Some n \<longleftrightarrow> n < 64 \<and> c = b64_char n"
proof
  assume v: "b64_value c = Some n"
  have c: "c = of_nat (unat c)" by simp
  show "n < 64 \<and> c = b64_char n"
    using v unfolding b64_value_def b64_char_def Let_def
    by (subst c) (auto split: if_splits simp del: of_nat_unat)
qed (simp add: b64_value_char)

lemma b64_char_not_equals: "n < 64 \<Longrightarrow> b64_char n \<noteq> 61"
  by (auto simp: b64_char_def word_unat_eq_iff unat_of_nat_u8)

section \<open>Characters\<close>

lemma byte_le: "unat (b :: u8) \<le> 255"
  using unat_u8_less [of b] by linarith

lemma lt_args_8 [ct]: "constant_time_lt_args_8 a b = (if a < b then CONSTTIME_TRUE_8 else CONSTTIME_FALSE_8)"
proof -
  have u: "unat (ucast a :: u64) = unat a" "unat (ucast b :: u64) = unat b"
    by (simp_all add: unat_ucast_up)
  have "bit (ucast a - ucast b :: u64) 63 \<longleftrightarrow> unat a < unat b"
    using unat_sub_if' [of "ucast a :: u64" "ucast b"] byte_le [of a] byte_le [of b]
    unfolding bit_63 u by (cases "unat b \<le> unat a") simp_all
  then show ?thesis
    using ucast_masks
    by (simp add: constant_time_lt_args_8_def Let_def msb_w word_less_nat_alt CONSTTIME_TRUE_W_def CONSTTIME_FALSE_W_def)
qed

lemma in_range_8 [ct]:
  assumes "lo \<le> hi" and "hi - lo < 255"
  shows "constant_time_in_range_8 a lo hi = (if lo \<le> a \<and> a \<le> hi then CONSTTIME_TRUE_8 else CONSTTIME_FALSE_8)"
proof -
  have r: "unat (hi - lo + 1) = unat hi - unat lo + 1"
    using assms by (simp add: unat_word_ariths word_less_nat_alt word_le_nat_alt unat_sub)
  have "a - lo < hi - lo + 1 \<longleftrightarrow> lo \<le> a \<and> a \<le> hi"
    using unat_sub_if' [of a lo] assms(1) byte_le [of a] byte_le [of hi]
    unfolding word_less_nat_alt word_le_nat_alt r by (cases "unat lo \<le> unat a") auto
  then show ?thesis by (simp add: constant_time_in_range_8_def lt_args_8)
qed

lemma eq_8_char [ct]:
  "n < 256 \<Longrightarrow> constant_time_eq_8 (ucast (a :: u8)) (of_nat n) =
    (if unat a = n then CONSTTIME_TRUE_8 else CONSTTIME_FALSE_8)"
  by (simp add: byte_masks word_unat_eq_iff unat_ucast_up unat_of_nat)

lemma conv_bin2ascii_eq: "conv_bin2ascii a = b64_char (unat a mod 64)"
proof -
  define n where "n = unat a mod 64"
  have n: "n < 64" by (simp add: n_def)
  have x: "a AND 0x3f = of_nat n" by (rule word_of_nat_eqI) (simp add: and_low_masks n_def)
  have u: "unat (of_nat n :: u8) = n" using n by (simp add: unat_of_nat_u8)
  have e: "constant_time_eq_8 (ucast (of_nat n :: u8)) 62 = (if n = 62 then CONSTTIME_TRUE_8 else CONSTTIME_FALSE_8)"
    using eq_8_char [of 62 "of_nat n"] by (simp add: u)
  have l: "(of_nat n :: u8) < 62 \<longleftrightarrow> n < 62" "(of_nat n :: u8) < 52 \<longleftrightarrow> n < 52" "(of_nat n :: u8) < 26 \<longleftrightarrow> n < 26"
    by (simp_all add: word_less_nat_alt u)
  have d: "of_nat n - 52 + 48 = (of_nat (n - 4) :: u8)" if "52 \<le> n"
    using that by (simp add: of_nat_diff)
  have d': "of_nat n - 26 + 97 = (of_nat (71 + n) :: u8)" if "26 \<le> n"
    using that by simp
  show ?thesis
    unfolding conv_bin2ascii_def Let_def x e lt_args_8 select_8_if l n_def [symmetric]
    using d d' by (auto simp: b64_char_def)
qed

lemma ascii_to_bin_eq:
  "base64_ascii_to_bin c = (if c = 61 then 0 else case b64_value c of None \<Rightarrow> 0xff | Some n \<Rightarrow> of_nat n)"
proof -
  define n where "n = unat c"
  have n: "n < 256" by (simp add: n_def)
  have c: "c = of_nat n" by (simp add: n_def)
  have r: "65 \<le> c \<and> c \<le> 90 \<longleftrightarrow> 65 \<le> n \<and> n \<le> 90" "97 \<le> c \<and> c \<le> 122 \<longleftrightarrow> 97 \<le> n \<and> n \<le> 122"
    "48 \<le> c \<and> c \<le> 57 \<longleftrightarrow> 48 \<le> n \<and> n \<le> 57" "c = 61 \<longleftrightarrow> n = 61"
    by (simp_all add: word_le_nat_alt n_def word_unat_eq_iff)
  have e: "constant_time_eq_8 (ucast c) 43 = (if n = 43 then CONSTTIME_TRUE_8 else CONSTTIME_FALSE_8)"
    "constant_time_eq_8 (ucast c) 47 = (if n = 47 then CONSTTIME_TRUE_8 else CONSTTIME_FALSE_8)"
    "constant_time_eq_8 (ucast c) 61 = (if n = 61 then CONSTTIME_TRUE_8 else CONSTTIME_FALSE_8)"
    using eq_8_char [of 43 c] eq_8_char [of 47 c] eq_8_char [of 61 c] by (simp_all add: n_def)
  have bin: "base64_ascii_to_bin c =
      (if n = 61 then 0 else if n = 47 then 63 else if n = 43 then 62 else
       if 48 \<le> n \<and> n \<le> 57 then c - 48 + 52 else if 97 \<le> n \<and> n \<le> 122 then c - 97 + 26 else
       if 65 \<le> n \<and> n \<le> 90 then c - 65 else 0xff)"
    unfolding base64_ascii_to_bin_def Let_def e by (simp add: in_range_8 select_8_if r)
  have d: "c - 48 + 52 = of_nat (n + 4)" "97 \<le> n \<Longrightarrow> c - 97 + 26 = of_nat (n - 71)" "65 \<le> n \<Longrightarrow> c - 65 = of_nat (n - 65)"
    by (simp_all add: c of_nat_diff)
  show ?thesis
    unfolding bin r(4) b64_value_def Let_def n_def [symmetric]
    by (cases "n = 61"; cases "n = 47"; cases "n = 43"; cases "48 \<le> n \<and> n \<le> 57"; cases "97 \<le> n \<and> n \<le> 122";
        cases "65 \<le> n \<and> n \<le> 90") (simp_all only: d if_True if_False simp_thms option.case, simp_all)
qed

section \<open>The block encoder\<close>

lemma sextets_conv:
  assumes "unat l < 2 ^ 24"
  shows "sextets (unat (l :: u32)) =
    [conv_bin2ascii (ucast (drop_bit 18 l)), conv_bin2ascii (ucast (drop_bit 12 l)),
     conv_bin2ascii (ucast (drop_bit 6 l)), conv_bin2ascii (ucast l)]"
proof -
  have "unat l div 262144 < 64" using assms by (simp add: less_mult_imp_div_less)
  then show ?thesis
    by (simp add: sextets_def conv_bin2ascii_eq unat_ucast unat_drop_bit mod_mod_cancel)
qed

lemma be_val_3: "be_val [a, b, c] = unat a * 65536 + unat b * 256 + unat c"
  by (simp add: be_val_def)

lemma group_word:
  "unat (push_bit 16 (ucast a) OR push_bit 8 (ucast b) OR ucast c :: u32) = be_val [a, b, c]"
  "unat (push_bit 16 (ucast a) OR push_bit 8 (ucast b) :: u32) = be_val [a, b, 0]"
  "unat (push_bit 16 (ucast a) :: u32) = be_val [a, 0, 0]"
proof -
  have u: "unat (ucast (w :: u8) :: u32) = unat w" for w by (simp add: unat_ucast_up)
  have 1: "unat (push_bit 8 (ucast b) OR ucast c :: u32) = unat b * 256 + unat c" for c :: u8
    using unat_push_or [of "ucast c :: u32" 8 "ucast b"] byte_le [of b] byte_le [of c] by (simp add: u)
  have p: "unat (push_bit 8 (ucast b) :: u32) = unat b * 256" using 1 [of 0] by simp
  show "unat (push_bit 16 (ucast a) :: u32) = be_val [a, 0, 0]"
    using byte_le [of a] by (simp add: unat_push_bit u be_val_3)
  show "unat (push_bit 16 (ucast a) OR push_bit 8 (ucast b) :: u32) = be_val [a, b, 0]"
    using unat_push_or [of "push_bit 8 (ucast b) :: u32" 16 "ucast a"] byte_le [of a] byte_le [of b]
    by (simp add: u p be_val_3)
  show "unat (push_bit 16 (ucast a) OR push_bit 8 (ucast b) OR ucast c :: u32) = be_val [a, b, c]"
    using unat_push_or [of "push_bit 8 (ucast b) OR ucast c :: u32" 16 "ucast a"] 1 [of c]
      byte_le [of a] byte_le [of b] byte_le [of c]
    by (simp add: u be_val_3 or.assoc)
qed

lemma be_val_3_less: "be_val [a, b, c] < 2 ^ 24"
  using be_val_bound [of "[a, b, c]"] by simp

lemma Suc_4: "Suc (Suc (Suc (Suc n))) = n + 4"
  by simp

lemma encode_block_loop_eq:
  "ret + length (base64 src) < 2 ^ 64 \<Longrightarrow>
   encode_block_loop src ret = (base64 src, ret + length (base64 src))"
proof (induction src ret rule: encode_block_loop.induct)
  case (2 a ret)
  then show ?case using sextets_conv [of "push_bit 16 (ucast a)"] be_val_3_less [of a 0 0]
    by (simp add: group_word Let_def Suc_4)
next
  case (3 a b ret)
  then show ?case using sextets_conv [of "push_bit 16 (ucast a) OR push_bit 8 (ucast b)"] be_val_3_less [of a b 0]
    by (simp add: group_word Let_def Suc_4)
next
  case (4 a b c src ret)
  then show ?case
    using sextets_conv [of "push_bit 16 (ucast a) OR push_bit 8 (ucast b) OR ucast c"] be_val_3_less [of a b c]
    by (simp add: group_word Let_def Suc_4 sextets_def)
qed simp

lemma encode_block_eq:
  assumes "length src < 2 ^ 62"
  shows "EVP_EncodeBlock src = (base64 src @ [0], length (base64 src))"
proof -
  have "length (base64 src) < 2 ^ 64" using assms by (simp add: length_base64)
  then show ?thesis by (simp add: EVP_EncodeBlock_def encode_block_loop_eq)
qed

lemma encoded_length_eq:
  assumes "len < 2 ^ 64"
  shows "EVP_EncodedLength len =
    (if (len + 2) div 3 * 4 + 1 < 2 ^ 64 then Some ((len + 2) div 3 * 4 + 1) else None)"
proof (cases "len + 2 < 2 ^ 64")
  case False
  then have "szadd len 2 < len" using szadd_overflow [of len 2] assms by simp
  moreover have "\<not> (len + 2) div 3 * 4 + 1 < 2 ^ 64"
    using div_le_mono [of "2 ^ 64" "len + 2" 3] False by simp
  ultimately show ?thesis by (simp add: EVP_EncodedLength_def)
next
  case True
  define k where "k = (len + 2) div 3"
  have s: "szadd len 2 = len + 2" using True by simp
  have kk: "Suc (Suc len) div 3 = k" "(len + 2) div 3 = k" by (simp_all add: k_def)
  have k: "k < 2 ^ 64" using True by (simp add: k_def)
  show ?thesis
  proof (cases "k * 4 < 2 ^ 64")
    case False
    have "k * 4 mod 2 ^ 64 div 4 < 2 ^ 62" by (simp add: less_mult_imp_div_less)
    then have "k * 4 mod 2 ^ 64 div 4 \<noteq> k" using False by simp
    moreover have "\<not> k * 4 + 1 < 2 ^ 64" using False by simp
    ultimately show ?thesis by (simp add: EVP_EncodedLength_def s Let_def kk)
  next
    case b: True
    have "k * 4 < 18446744073709551616" using b by simp
    then have "k * 4 + 1 < 18446744073709551616" by presburger
    then show ?thesis using b by (simp add: EVP_EncodedLength_def s Let_def kk)
  qed
qed

section \<open>The decoder\<close>

definition quad_value :: "nat \<Rightarrow> nat \<Rightarrow> nat \<Rightarrow> nat \<Rightarrow> nat" where
  "quad_value a b c d = ((a * 64 + b) * 64 + c) * 64 + d"

definition padded_value :: "u8 \<Rightarrow> nat option" where
  "padded_value c = (if c = 61 then Some 0 else b64_value c)"

lemma padded_value_less: "padded_value c = Some n \<Longrightarrow> n < 64"
  by (auto simp: padded_value_def b64_char_value split: if_splits)

lemma bin_padded: "base64_ascii_to_bin c = (case padded_value c of None \<Rightarrow> 0xff | Some n \<Rightarrow> of_nat n)"
  by (simp add: ascii_to_bin_eq padded_value_def)

lemma bin_invalid: "base64_ascii_to_bin c = 0xff \<longleftrightarrow> padded_value c = None"
  using padded_value_less [of c]
  by (auto simp: bin_padded word_unat_eq_iff unat_of_nat_u8 split: option.splits)

lemma quad_word:
  assumes "a < 64" "b < 64" "c < 64" "d < 64"
  shows "unat (push_bit 18 (ucast (of_nat a :: u8)) OR push_bit 12 (ucast (of_nat b :: u8)) OR
      push_bit 6 (ucast (of_nat c :: u8)) OR ucast (of_nat d :: u8) :: u32) = quad_value a b c d"
proof -
  have u: "unat (ucast (of_nat n :: u8) :: u32) = n" if "n < 64" for n
    using that by (simp add: unat_ucast_up unat_of_nat_u8)
  have 1: "unat (push_bit 6 (ucast (of_nat c :: u8)) OR ucast (of_nat d :: u8) :: u32) = c * 64 + d"
    using unat_push_or [of "ucast (of_nat d :: u8) :: u32" 6 "ucast (of_nat c :: u8)"] assms by (simp add: u)
  have 2: "unat (push_bit 12 (ucast (of_nat b :: u8)) OR (push_bit 6 (ucast (of_nat c :: u8)) OR
      ucast (of_nat d :: u8)) :: u32) = b * 4096 + (c * 64 + d)"
    using unat_push_or [of "push_bit 6 (ucast (of_nat c :: u8)) OR ucast (of_nat d :: u8) :: u32" 12
        "ucast (of_nat b :: u8)"] assms by (simp add: u 1)
  show ?thesis
    using unat_push_or [of "push_bit 12 (ucast (of_nat b :: u8)) OR (push_bit 6 (ucast (of_nat c :: u8)) OR
        ucast (of_nat d :: u8)) :: u32" 18 "ucast (of_nat a :: u8)"] assms
    by (simp add: u 2 quad_value_def or.assoc)
qed

lemma word_bytes_3: "[ucast (drop_bit 16 v), ucast (drop_bit 8 v), ucast (v :: u32)] = be_bytes 3 (unat v)"
  by (simp add: numeral_3_eq_3 word_unat_eq_iff unat_ucast unat_drop_bit unat_of_nat_u8 flip: div_mult2_eq)

lemma pattern_cases:
  "(push_bit 3 (of_bool p) OR push_bit 2 (of_bool q) OR push_bit 1 (of_bool r) OR of_bool s :: u32) = 0
     \<longleftrightarrow> \<not> p \<and> \<not> q \<and> \<not> r \<and> \<not> s"
  "(push_bit 3 (of_bool p) OR push_bit 2 (of_bool q) OR push_bit 1 (of_bool r) OR of_bool s :: u32) = 1
     \<longleftrightarrow> \<not> p \<and> \<not> q \<and> \<not> r \<and> s"
  "(push_bit 3 (of_bool p) OR push_bit 2 (of_bool q) OR push_bit 1 (of_bool r) OR of_bool s :: u32) = 3
     \<longleftrightarrow> \<not> p \<and> \<not> q \<and> r \<and> s"
  by (cases p; cases q; cases r; cases s; simp)+

lemma decode_quad_eq:
  "base64_decode_quad w x y z =
    (case (padded_value w, padded_value x, padded_value y, padded_value z) of
       (Some a, Some b, Some c, Some d) \<Rightarrow>
         (let bs = be_bytes 3 (quad_value a b c d) in
          if w = 61 \<or> x = 61 then None
          else if y = 61 then if z = 61 then Some (take 1 bs) else None
          else if z = 61 then Some (take 2 bs) else Some bs)
     | _ \<Rightarrow> None)"
proof (cases "padded_value w = None \<or> padded_value x = None \<or> padded_value y = None \<or> padded_value z = None")
  case True
  then show ?thesis by (auto simp: base64_decode_quad_def bin_invalid Let_def split: option.splits)
next
  case False
  then obtain a b c d where v: "padded_value w = Some a" "padded_value x = Some b" "padded_value y = Some c"
      "padded_value z = Some d" by auto
  have bin: "base64_ascii_to_bin w = of_nat a" "base64_ascii_to_bin x = of_nat b" "base64_ascii_to_bin y = of_nat c"
    "base64_ascii_to_bin z = of_nat d" by (simp_all add: bin_padded v)
  have ok: "(of_nat n :: u8) \<noteq> 0xff" if "n < 64" for n
    using that by (simp add: word_unat_eq_iff unat_of_nat_u8)
  note less = v [THEN padded_value_less]
  define V where "V = push_bit 18 (ucast (of_nat a :: u8)) OR push_bit 12 (ucast (of_nat b :: u8)) OR
      push_bit 6 (ucast (of_nat c :: u8)) OR (ucast (of_nat d :: u8) :: u32)"
  have bytes: "be_bytes 3 (quad_value a b c d) = [ucast (drop_bit 16 V), ucast (drop_bit 8 V), ucast V]"
    by (simp only: word_bytes_3 quad_word [OF less] V_def)
  show ?thesis
    unfolding base64_decode_quad_def Let_def bin V_def [symmetric] pattern_cases v
    using ok [OF less(1)] ok [OF less(2)] ok [OF less(3)] ok [OF less(4)] by (simp add: bytes Let_def)
qed

text \<open>Decoding what the encoder writes.\<close>

lemma padded_value_char [simp]: "n < 64 \<Longrightarrow> padded_value (b64_char n) = Some n"
  by (simp add: padded_value_def b64_char_not_equals b64_value_char)

lemma padded_value_equals [simp]: "padded_value 61 = Some 0"
  by (simp add: padded_value_def)

lemma div_step: "n div (m * 64) * 64 + n div m mod 64 = n div (m :: nat)"
  by (metis div_mult2_eq div_mult_mod_eq)

lemma mod_64_zero: "s < 64 \<Longrightarrow> s + 64 * k = 64 * j \<Longrightarrow> s = (0 :: nat)"
  by (metis mod_less mod_mult_self1_is_0 mod_mult_self2 mult.commute)

lemma sextets_quad:
  assumes "n < 2 ^ 24"
  shows "\<exists>a b c d. a < 64 \<and> b < 64 \<and> c < 64 \<and> d < 64 \<and> n = quad_value a b c d \<and>
    sextets n = [b64_char a, b64_char b, b64_char c, b64_char d]"
proof (intro exI conjI)
  show "n div 262144 < 64" using assms by (simp add: less_mult_imp_div_less)
  show "n = quad_value (n div 262144) (n div 4096 mod 64) (n div 64 mod 64) (n mod 64)"
    using div_step [of n 4096] div_step [of n 64] div_step [of n 1] by (simp add: quad_value_def)
qed (simp_all add: sextets_def)

lemma be_bytes_3_val: "be_bytes 3 (be_val [a, b, c]) = [a, b, c]"
  using be_bytes_be_val [of "[a, b, c]"] by (simp add: numeral_3_eq_3 del: be_bytes.simps)

lemma take_2_be_bytes: "take 2 (be_bytes 3 (be_val [a, b, c])) = [a, b]"
  and take_1_be_bytes: "take 1 (be_bytes 3 (be_val [a, b, c])) = [a]"
  by (simp_all add: be_bytes_3_val)

lemma decode_full:
  "\<exists>w x y z. sextets (be_val [a, b, c]) = [w, x, y, z] \<and> w \<noteq> 61 \<and> x \<noteq> 61 \<and> y \<noteq> 61 \<and> z \<noteq> 61 \<and>
    base64_decode_quad w x y z = Some [a, b, c]"
proof -
  obtain p q r s where v: "p < 64" "q < 64" "r < 64" "s < 64" "be_val [a, b, c] = quad_value p q r s"
      "sextets (be_val [a, b, c]) = [b64_char p, b64_char q, b64_char r, b64_char s]"
    using sextets_quad [OF be_val_3_less] by blast
  have "be_bytes 3 (quad_value p q r s) = [a, b, c]" using be_bytes_3_val [of a b c] by (simp only: v(5))
  then show ?thesis using v by (simp add: decode_quad_eq b64_char_not_equals)
qed

text \<open>The last sextet of a group that ends in zero bits is zero, and so is the value of the padding.\<close>

lemma decode_two:
  "\<exists>w x y. take 3 (sextets (be_val [a, b, 0])) = [w, x, y] \<and> w \<noteq> 61 \<and> x \<noteq> 61 \<and> y \<noteq> 61 \<and>
    base64_decode_quad w x y 61 = Some [a, b]"
proof -
  obtain p q r s where v: "p < 64" "q < 64" "r < 64" "s < 64" "be_val [a, b, 0] = quad_value p q r s"
      "sextets (be_val [a, b, 0]) = [b64_char p, b64_char q, b64_char r, b64_char s]"
    using sextets_quad [OF be_val_3_less] by blast
  have "s + 64 * ((p * 64 + q) * 64 + r) = 64 * (4 * (unat a * 256 + unat b))"
    using v(5) by (simp add: quad_value_def be_val_3 algebra_simps)
  then have "s = 0" by (rule mod_64_zero [OF v(4)])
  then have "be_bytes 3 (quad_value p q r 0) = [a, b, 0]" using be_bytes_3_val [of a b 0] v(5) by simp
  then show ?thesis using v by (simp add: decode_quad_eq b64_char_not_equals)
qed

lemma decode_one:
  "\<exists>w x. take 2 (sextets (be_val [a, 0, 0])) = [w, x] \<and> w \<noteq> 61 \<and> x \<noteq> 61 \<and>
    base64_decode_quad w x 61 61 = Some [a]"
proof -
  obtain p q r s where v: "p < 64" "q < 64" "r < 64" "s < 64" "be_val [a, 0, 0] = quad_value p q r s"
      "sextets (be_val [a, 0, 0]) = [b64_char p, b64_char q, b64_char r, b64_char s]"
    using sextets_quad [OF be_val_3_less] by blast
  have eq: "s + 64 * (r + 64 * (p * 64 + q)) = 64 * (64 * (16 * unat a))"
    using v(5) by (simp add: quad_value_def be_val_3 algebra_simps)
  then have s: "s = 0" by (rule mod_64_zero [OF v(4)])
  have "r + 64 * (p * 64 + q) = 64 * (16 * unat a)" using eq by (simp add: s)
  then have "r = 0" by (rule mod_64_zero [OF v(3)])
  then have "be_bytes 3 (quad_value p q 0 0) = [a, 0, 0]" using be_bytes_3_val [of a 0 0] v(5) s by simp
  then show ?thesis using v s by (simp add: decode_quad_eq b64_char_not_equals)
qed

lemma decode_base64_loop_enc: "decode_base64_loop (base64 s) = Some s"
proof (induction s rule: base64.induct)
  case (2 a)
  then show ?case using decode_one [of a] by auto
next
  case (3 a b)
  then show ?case using decode_two [of a b] by auto
next
  case (4 a b c s)
  then show ?case using decode_full [of a b c] by auto
qed simp

lemma decode_base64_enc:
  assumes "(length s + 2) div 3 * 3 \<le> max_out"
  shows "EVP_DecodeBase64 max_out (base64 s) = Some s"
  using assms by (simp add: EVP_DecodeBase64_def EVP_DecodedLength_def length_base64 decode_base64_loop_enc)

section \<open>Streaming\<close>

text \<open>The stream format: lines of 48 bytes, each encoded and followed by a newline.\<close>

function b64_lines :: "u8 list \<Rightarrow> u8 list" where
  "b64_lines s = (if s = [] then [] else base64 (take 48 s) @ [10] @ b64_lines (drop 48 s))"
  by pat_completeness auto
termination
  by (relation "measure length") auto

declare b64_lines.simps [simp del]

lemma b64_lines_Nil [simp]: "b64_lines [] = []"
  by (simp add: b64_lines.simps)

lemma b64_lines_append: "length s mod 48 = 0 \<Longrightarrow> b64_lines (s @ t) = b64_lines s @ b64_lines t"
proof (induction s rule: b64_lines.induct)
  case (1 s)
  show ?case
  proof (cases "s = []")
    case False
    then have "48 \<le> length s" using 1(2) by (cases "length s < 48") auto
    moreover from this have "length (drop 48 s) mod 48 = 0" using 1(2) by (simp add: le_mod_geq)
    ultimately show ?thesis
      using False 1(1) by (subst (1 2) b64_lines.simps) simp
  qed simp
qed

lemma b64_lines_short: "s \<noteq> [] \<Longrightarrow> length s \<le> 48 \<Longrightarrow> b64_lines s = base64 s @ [10]"
  by (subst b64_lines.simps) simp


end
