(* ===== verification/Base64Stream.thy ===== *)
theory Base64Stream
  imports Base64Spec
begin

text \<open>
  The streaming encoder and decoder of \<open>base64.c\<close>: what a sequence of calls produces depends on the
  concatenated data only, and decoding undoes encoding.
\<close>

section \<open>Encoding in pieces\<close>

definition whole :: "u8 list \<Rightarrow> nat" where
  "whole s = length s div 48 * 48"

lemma whole_le: "whole s \<le> length s"
  by (simp add: whole_def)

lemma length_drop_whole: "length (drop (whole s) s) = length s mod 48"
  by (simp add: whole_def minus_div_mult_eq_mod)

lemma length_take_whole: "length (take (whole s) s) mod 48 = 0"
proof -
  have "length (take (whole s) s) = whole s" using whole_le [of s] by simp
  then show ?thesis by (simp add: whole_def)
qed

lemma whole_step: "48 \<le> length s \<Longrightarrow> whole s = 48 + whole (drop 48 s)"
  by (simp add: whole_def le_div_geq)

lemma lines_48: "length s = 48 \<Longrightarrow> b64_lines s = base64 s @ [10]"
  by (rule b64_lines_short) auto

lemma base64_48: "length s = 48 \<Longrightarrow> length (base64 s) = 64"
  by (simp add: length_base64)

lemma length_lines_whole: "length (b64_lines (take (whole s) s)) = length s div 48 * 65"
proof (induction s rule: b64_lines.induct)
  case (1 s)
  show ?case
  proof (cases "length s < 48")
    case True
    then show ?thesis by (simp add: whole_def)
  next
    case False
    then have w: "take (whole s) s = take 48 s @ take (whole (drop 48 s)) (drop 48 s)"
      by (simp add: whole_step take_add)
    have "length (b64_lines (take 48 s)) = 65"
      using False lines_48 [of "take 48 s"] base64_48 [of "take 48 s"] by simp
    moreover have "length (b64_lines (take (whole (drop 48 s)) (drop 48 s))) = length (drop 48 s) div 48 * 65"
      using 1 [OF _ ] False by (cases "s = []") auto
    ultimately show ?thesis
      using False unfolding w by (subst b64_lines_append) (simp_all add: le_div_geq)
  qed
qed

lemma encode_update_loop_eq:
  "count + length inp div 48 * 65 < 2 ^ 63 \<Longrightarrow>
   encode_update_loop inp count =
     (b64_lines (take (whole inp) inp), drop (whole inp) inp, Some (count + length inp div 48 * 65))"
proof (induction inp count rule: encode_update_loop.induct)
  case (1 inp count)
  show ?case
  proof (cases "48 \<le> length inp")
    case False
    then show ?thesis by (simp add: encode_update_loop.simps [of inp] whole_def)
  next
    case True
    let ?r = "drop 48 inp"
    have d: "length inp div 48 = Suc (length ?r div 48)" using True by (simp add: le_div_geq)
    have enc: "EVP_EncodeBlock (take 48 inp) = (base64 (take 48 inp) @ [0], 64)"
      using True by (simp add: encode_block_eq length_base64)
    have ih: "encode_update_loop ?r (65 + count) =
        (b64_lines (take (whole ?r) ?r), drop (whole ?r) ?r, Some (65 + count + length ?r div 48 * 65))"
      using 1(1) [OF True enc [symmetric]] 1(2) by (simp add: d)
    have w: "take (whole inp) inp = take 48 inp @ take (whole ?r) ?r" "drop (whole inp) inp = drop (whole ?r) ?r"
      using True by (simp_all add: whole_step take_add add.commute)
    have l: "b64_lines (take 48 inp @ take (whole ?r) ?r) = base64 (take 48 inp) @ [10] @ b64_lines (take (whole ?r) ?r)"
      using True lines_48 [of "take 48 inp"] by (subst b64_lines_append) simp_all
    show ?thesis
      using True base64_48 [of "take 48 inp"]
      1(2) by (simp add: encode_update_loop.simps [of inp] enc ih w l d)
  qed
qed

text \<open>The invariant of an encoding context, and the data it still holds.\<close>

definition enc_ok :: "EVP_ENCODE_CTX \<Rightarrow> bool" where
  "enc_ok ctx \<longleftrightarrow> ctx_data_used ctx < 48 \<and> length (ctx_data ctx) = 48"

definition held :: "EVP_ENCODE_CTX \<Rightarrow> u8 list" where
  "held ctx = take (ctx_data_used ctx) (ctx_data ctx)"

lemma length_held: "enc_ok ctx \<Longrightarrow> length (held ctx) = ctx_data_used ctx"
  by (simp add: enc_ok_def held_def)

text \<open>An update writes the whole lines of the held data followed by the new data, and holds the rest.\<close>

theorem encode_update:
  assumes ok: "enc_ok ctx" and len: "length inp < 2 ^ 30"
  shows "\<exists>out n ctx'. EVP_EncodeUpdate ctx inp = ((out, int n), ctx') \<and> enc_ok ctx' \<and>
    take n out = b64_lines (take (whole (held ctx @ inp)) (held ctx @ inp)) \<and>
    held ctx' = drop (whole (held ctx @ inp)) (held ctx @ inp)"
proof -
  let ?u = "ctx_data_used ctx" and ?all = "held ctx @ inp"
  note okD = ok [unfolded enc_ok_def]
  consider (nil) "inp = []" | (short) "inp \<noteq> []" "length inp < 48 - ?u" | (long) "inp \<noteq> []" "48 - ?u \<le> length inp"
    by linarith
  then show ?thesis
  proof cases
    case nil
    then have "whole ?all = 0" using okD by (simp add: whole_def held_def)
    then show ?thesis using nil ok by (auto simp: EVP_EncodeUpdate_def intro!: exI [of _ 0])
  next
    case short
    then have w: "whole ?all = 0" using okD by (simp add: whole_def length_held [OF ok])
    let ?c = "ctx\<lparr>ctx_data := overwrite ?u inp (ctx_data ctx), ctx_data_used := ?u + length inp\<rparr>"
    have "EVP_EncodeUpdate ctx inp = (([], 0), ?c)" using short by (simp add: EVP_EncodeUpdate_def)
    moreover have "enc_ok ?c" using short okD by (simp add: enc_ok_def)
    moreover have "held ?c = ?all" using short okD by (simp add: held_def take_overwrite_after)
    ultimately show ?thesis using w by (intro exI [of _ "[]"] exI [of _ 0] exI [of _ ?c]) simp
  next
    case long
    define t where "t = (if ?u = 0 then 0 else 48 - ?u)"
    let ?d = "overwrite ?u (take (48 - ?u) inp) (ctx_data ctx)"
    define c1 where "c1 = (if ?u \<noteq> 0 then ctx\<lparr>ctx_data := ?d, ctx_data_used := 0\<rparr> else ctx)"
    define first where "first = (if ?u \<noteq> 0 then b64_lines (held ctx @ take t inp) else [])"
    define r where "r = drop t inp"
    have tt: "?u \<noteq> 0 \<Longrightarrow> 48 - ?u = t" and t0: "?u = 0 \<Longrightarrow> t = 0" by (simp_all add: t_def)
    have tl: "t \<le> length inp" using long by (simp add: t_def)
    have ht: "?u \<noteq> 0 \<Longrightarrow> length (held ctx @ take t inp) = 48" using long okD by (simp add: t_def length_held [OF ok])
    have line: "overwrite ?u (take t inp) (ctx_data ctx) = held ctx @ take t inp" if "?u \<noteq> 0"
      using that long okD by (simp add: overwrite_def held_def t_def)
    have fl: "length first = (if ?u \<noteq> 0 then 65 else 0)"
      using lines_48 [OF ht] base64_48 [OF ht] by (auto simp: first_def)
    have stage: "(if ?u \<noteq> 0
        then let todo = 48 - ?u; data = overwrite ?u (take todo inp) (ctx_data ctx)
             in case EVP_EncodeBlock data of
                  (line, encoded) \<Rightarrow> (take encoded line @ [10], drop todo inp, szadd encoded 1,
                    ctx\<lparr>ctx_data := data, ctx_data_used := 0\<rparr>)
        else ([], inp, 0, ctx)) = (first, r, length first, c1)"
      using lines_48 [OF ht] base64_48 [OF ht] ht
      by (cases "?u = 0") (simp_all add: Let_def line tt encode_block_eq first_def r_def c1_def t0 length_append_singleton
        del: length_append)
    have r: "length r < 2 ^ 30" using len by (simp add: r_def)
    have cnt: "length first + length r div 48 * 65 < 2 ^ 31"
      using fl div_le_mono [of "length r" "2 ^ 30" 48] r by simp
    have all: "?all = (if ?u \<noteq> 0 then held ctx @ take t inp else []) @ r"
      using okD by (auto simp: r_def t_def held_def)
    have wh: "whole ?all = (if ?u \<noteq> 0 then 48 else 0) + whole r"
      using ht by (subst all) (auto simp: whole_def le_div_geq)
    have "b64_lines (take (whole ?all) ?all) = first @ b64_lines (take (whole r) r)"
      using ht by (subst (2) all) (auto simp: wh first_def b64_lines_append)
    moreover have "drop (whole ?all) ?all = drop (whole r) r"
      using ht by (subst (2) all) (auto simp: wh)
    moreover have "\<exists>out n ctx'. EVP_EncodeUpdate ctx inp = ((out, int n), ctx') \<and> enc_ok ctx' \<and>
        take n out = first @ b64_lines (take (whole r) r) \<and> held ctx' = drop (whole r) r"
    proof -
      let ?rest = "drop (whole r) r" and ?n = "length first + length r div 48 * 65"
      let ?c2 = "(if ?rest \<noteq> [] then c1\<lparr>ctx_data := overwrite 0 ?rest (ctx_data c1)\<rparr> else c1)
        \<lparr>ctx_data_used := length ?rest\<rparr>"
      have rest: "length ?rest < 48" unfolding length_drop_whole by simp
      have d1: "length (ctx_data c1) = 48" using long okD by (simp add: c1_def)
      have loop: "encode_update_loop r (length first) = (b64_lines (take (whole r) r), ?rest, Some ?n)"
        using cnt by (intro encode_update_loop_eq) simp
      have "EVP_EncodeUpdate ctx inp = ((first @ b64_lines (take (whole r) r) @ [0], int ?n), ?c2)"
        using long cnt unfolding EVP_EncodeUpdate_def stage prod.case loop option.case
        by (simp add: Let_def not_less)
      moreover have "enc_ok ?c2" using rest d1 by (simp add: enc_ok_def)
      moreover have "held ?c2 = ?rest" using rest d1 by (auto simp: held_def overwrite_def)
      moreover have "take ?n (first @ b64_lines (take (whole r) r) @ [0]) = first @ b64_lines (take (whole r) r)"
        by (simp add: length_lines_whole)
      ultimately show ?thesis by blast
    qed
    ultimately show ?thesis by simp
  qed
qed

text \<open>A whole run: updates with the chunks, then the end. Each call contributes the \<open>*out_len\<close> bytes it
  reports.\<close>

fun encode_run :: "EVP_ENCODE_CTX \<Rightarrow> u8 list list \<Rightarrow> u8 list" where
  "encode_run ctx [] = (case EVP_EncodeFinal ctx of ((out, n), _) \<Rightarrow> take (nat n) out)"
| "encode_run ctx (c # cs) =
     (case EVP_EncodeUpdate ctx c of ((out, n), ctx) \<Rightarrow> take (nat n) out @ encode_run ctx cs)"

lemma encode_run_eq:
  "enc_ok ctx \<Longrightarrow> (\<And>c. c \<in> set cs \<Longrightarrow> length c < 2 ^ 30) \<Longrightarrow> encode_run ctx cs = b64_lines (held ctx @ concat cs)"
proof (induction cs arbitrary: ctx)
  case Nil
  show ?case
  proof (cases "ctx_data_used ctx = 0")
    case True
    then show ?thesis by (simp add: EVP_EncodeFinal_def held_def)
  next
    case False
    note h = length_held [OF Nil(1)]
    have "EVP_EncodeBlock (held ctx) = (base64 (held ctx) @ [0], length (base64 (held ctx)))"
      using h Nil(1) by (intro encode_block_eq) (simp add: enc_ok_def)
    moreover have "b64_lines (held ctx) = base64 (held ctx) @ [10]"
      using False h Nil(1) by (intro b64_lines_short) (auto simp: enc_ok_def)
    ultimately show ?thesis
      using False by (simp add: EVP_EncodeFinal_def nat_add_distrib flip: held_def)
  qed
next
  case (Cons c cs)
  obtain out n ctx' where u: "EVP_EncodeUpdate ctx c = ((out, int n), ctx')" "enc_ok ctx'"
      "take n out = b64_lines (take (whole (held ctx @ c)) (held ctx @ c))"
      "held ctx' = drop (whole (held ctx @ c)) (held ctx @ c)"
    using encode_update [OF Cons.prems(1), of c] Cons.prems(2) [of c] by auto
  have ih: "encode_run ctx' cs = b64_lines (held ctx' @ concat cs)"
    using Cons.IH [OF u(2)] Cons.prems(2) by auto
  have "encode_run ctx (c # cs) =
      b64_lines (take (whole (held ctx @ c)) (held ctx @ c)) @ b64_lines (held ctx' @ concat cs)"
    by (simp add: u(1,3) ih)
  also have "\<dots> = b64_lines (take (whole (held ctx @ c)) (held ctx @ c) @ (held ctx' @ concat cs))"
    by (intro b64_lines_append [symmetric] length_take_whole)
  also have "\<dots> = b64_lines (held ctx @ concat (c # cs))"
    by (simp only: u(4) append_assoc [symmetric] append_take_drop_id) simp
  finally show ?case .
qed

section \<open>Decoding in pieces\<close>

abbreviation b64_space :: "u8 \<Rightarrow> bool" where
  "b64_space c \<equiv> c = 32 \<or> c = 9 \<or> c = 13 \<or> c = 10"

lemma decode_update_loop_strip:
  "decode_update_loop (filter (\<lambda>c. \<not> b64_space c) inp) ctx = decode_update_loop inp ctx"
  by (induction inp ctx rule: decode_update_loop.induct) (auto simp: Let_def split: option.splits)

text \<open>Two calls in a row are one call on the concatenation.\<close>

lemma decode_update_loop_append:
  "decode_update_loop (a @ b) ctx =
     (case decode_update_loop a ctx of
        ((out, False), ctx) \<Rightarrow> ((out, False), ctx)
      | ((out, True), ctx) \<Rightarrow> (case decode_update_loop b ctx of ((out', ok), ctx) \<Rightarrow> ((out @ out', ok), ctx)))"
  by (induction a ctx rule: decode_update_loop.induct)
    (auto simp: Let_def split: option.splits prod.splits bool.splits)

declare decode_update_loop.simps(2) [simp del]

text \<open>Decoding the encoded data, from a context with no pending characters.\<close>

definition dec_ready :: "EVP_ENCODE_CTX \<Rightarrow> bool" where
  "dec_ready ctx \<longleftrightarrow> ctx_data_used ctx = 0 \<and> length (ctx_data ctx) = 48 \<and> \<not> ctx_eof_seen ctx"

lemma b64_char_not_space: "n < 64 \<Longrightarrow> \<not> b64_space (b64_char n)"
  by (auto simp: b64_char_def word_unat_eq_iff unat_of_nat_u8)

lemma decode_quad_not_space:
  assumes "base64_decode_quad w x y z = Some bs"
  shows "\<not> b64_space w" and "\<not> b64_space x" and "\<not> b64_space y" and "\<not> b64_space z"
proof -
  have none: "padded_value c = None" if "b64_space c" for c
    using that by (auto simp: padded_value_def b64_value_def)
  have some: "padded_value w \<noteq> None" "padded_value x \<noteq> None" "padded_value y \<noteq> None" "padded_value z \<noteq> None"
    using assms
    by (cases "padded_value w"; cases "padded_value x"; cases "padded_value y"; cases "padded_value z";
        simp add: decode_quad_eq)+
  show "\<not> b64_space w" and "\<not> b64_space x" and "\<not> b64_space y" and "\<not> b64_space z"
    by (rule notI, drule none, use some in simp)+
qed

text \<open>One quad of characters that decodes.\<close>

lemma decode_update_quad:
  assumes q: "base64_decode_quad w x y z = Some bs" and r: "dec_ready ctx"
  shows "\<exists>ctx'. ctx_data_used ctx' = 0 \<and> length (ctx_data ctx') = 48 \<and> ctx_error ctx' = ctx_error ctx \<and>
    ctx_eof_seen ctx' = (length bs < 3) \<and>
    decode_update_loop (w # x # y # z # inp) ctx =
      (case decode_update_loop inp ctx' of ((out, ok), c) \<Rightarrow> ((bs @ out, ok), c))"
proof -
  note s = decode_quad_not_space [OF q]
  let ?d = "(ctx_data ctx)[0 := w, 1 := x, 2 := y, 3 := z]"
  let ?c1 = "ctx\<lparr>ctx_data := ?d, ctx_data_used := 0\<rparr>"
  let ?c = "if length bs < 3 then ?c1\<lparr>ctx_eof_seen := True\<rparr> else ?c1"
  have n: "?d ! 0 = w" "?d ! 1 = x" "?d ! 2 = y" "?d ! 3 = z"
    using r by (simp_all add: dec_ready_def nth_list_update)
  have "decode_update_loop (w # x # y # z # inp) ctx =
      (case decode_update_loop inp ?c of ((out, ok), c) \<Rightarrow> ((bs @ out, ok), c))"
    using r s q n
    by (simp add: decode_update_loop.simps(2) dec_ready_def Let_def numeral_3_eq_3 numeral_2_eq_2)
  then show ?thesis using r by (intro exI [of _ ?c]) (simp add: dec_ready_def)
qed

lemma decode_update_enc:
  "dec_ready ctx \<Longrightarrow> \<exists>ctx'. decode_update_loop (base64 s) ctx = ((s, True), ctx') \<and>
    ctx_data_used ctx' = 0 \<and> ctx_error ctx' = ctx_error ctx \<and> ctx_eof_seen ctx' = (length s mod 3 \<noteq> 0)"
proof (induction s arbitrary: ctx rule: base64.induct)
  case 1
  then show ?case by (simp add: dec_ready_def)
next
  case (2 a)
  obtain w x where q: "take 2 (sextets (be_val [a, 0, 0])) = [w, x]" "base64_decode_quad w x 61 61 = Some [a]"
    using decode_one [of a] by blast
  show ?case using decode_update_quad [OF q(2) 2, of "[]"] q(1) by auto
next
  case (3 a b)
  obtain w x y where q: "take 3 (sextets (be_val [a, b, 0])) = [w, x, y]" "base64_decode_quad w x y 61 = Some [a, b]"
    using decode_two [of a b] by blast
  show ?case using decode_update_quad [OF q(2) 3, of "[]"] q(1) by auto
next
  case (4 a b c s)
  obtain w x y z where q: "sextets (be_val [a, b, c]) = [w, x, y, z]" "base64_decode_quad w x y z = Some [a, b, c]"
    using decode_full [of a b c] by blast
  obtain c1 where c1: "ctx_data_used c1 = 0" "length (ctx_data c1) = 48" "ctx_error c1 = ctx_error ctx"
      "ctx_eof_seen c1 = (length [a, b, c] < 3)"
      "decode_update_loop (w # x # y # z # base64 s) ctx =
        (case decode_update_loop (base64 s) c1 of ((out, ok), e) \<Rightarrow> (([a, b, c] @ out, ok), e))"
    using decode_update_quad [OF q(2) 4(2), of "base64 s"] by blast
  have "dec_ready c1" using c1 by (simp add: dec_ready_def)
  from 4(1) [OF this] obtain c2 where c2: "decode_update_loop (base64 s) c1 = ((s, True), c2)"
      "ctx_data_used c2 = 0" "ctx_error c2 = ctx_error c1" "ctx_eof_seen c2 = (length s mod 3 \<noteq> 0)" by blast
  have "Suc (Suc (Suc (length s))) mod 3 = length s mod 3" by presburger
  then show ?case using c1 c2 q(1) by simp
qed

text \<open>Without its newlines the stream format is the plain encoding.\<close>

lemma sextets_not_space: "\<forall>c \<in> set (sextets (be_val [x, y, z])). \<not> b64_space c"
proof -
  obtain a b c d where "a < 64" "b < 64" "c < 64" "d < 64"
      "sextets (be_val [x, y, z]) = [b64_char a, b64_char b, b64_char c, b64_char d]"
    using sextets_quad [OF be_val_3_less] by blast
  then show ?thesis using b64_char_not_space by auto
qed

lemma base64_not_space: "\<forall>c \<in> set (base64 s). \<not> b64_space c"
proof (induction s rule: base64.induct)
  case (2 a)
  then show ?case using sextets_not_space [of a 0 0] by (auto dest: in_set_takeD)
next
  case (3 a b)
  then show ?case using sextets_not_space [of a b 0] by (auto dest: in_set_takeD)
next
  case (4 a b c s)
  then show ?case using sextets_not_space [of a b c] by auto
qed simp

lemma base64_append: "length s mod 3 = 0 \<Longrightarrow> base64 (s @ t) = base64 s @ base64 t"
proof (induction s rule: base64.induct)
  case (4 a b c s)
  have "Suc (Suc (Suc (length s))) mod 3 = length s mod 3" by presburger
  then show ?case using 4 by simp
qed simp_all

lemma strip_lines: "filter (\<lambda>c. \<not> b64_space c) (b64_lines s) = base64 s"
proof (induction s rule: b64_lines.induct)
  case (1 s)
  show ?case
  proof (cases "length s \<le> 48")
    case True
    then show ?thesis
      using base64_not_space [of s] by (cases "s = []") (simp_all add: b64_lines_short filter_id_conv)
  next
    case False
    then have "b64_lines s = base64 (take 48 s) @ [10] @ b64_lines (drop 48 s)"
      by (subst b64_lines.simps) auto
    moreover have "base64 (take 48 s @ drop 48 s) = base64 (take 48 s) @ base64 (drop 48 s)"
      using False by (intro base64_append) simp
    moreover have "s \<noteq> []" using False by auto
    ultimately show ?thesis
      using 1 base64_not_space [of "take 48 s"] by (simp add: filter_id_conv)
  qed
qed

text \<open>A whole decoding run: the calls in order, until one fails; the data is complete when the final call
  returns 1.\<close>

fun decode_run :: "EVP_ENCODE_CTX \<Rightarrow> u8 list list \<Rightarrow> u8 list option" where
  "decode_run ctx [] = (if EVP_DecodeFinal ctx = 1 then Some [] else None)"
| "decode_run ctx (c # cs) =
     (case EVP_DecodeUpdate ctx c of
        ((out, n, ret), ctx) \<Rightarrow> if ret < 0 then None else map_option ((@) (take (nat n) out)) (decode_run ctx cs))"

lemma decode_quad_length: "base64_decode_quad w x y z = Some bs \<Longrightarrow> length bs \<le> 3"
  by (auto simp: decode_quad_eq Let_def split: option.splits if_splits)

text \<open>The decoder writes at most three bytes for four characters, so it never writes more than it reads.\<close>

lemma decode_update_bound:
  "decode_update_loop inp ctx = ((out, ok), ctx') \<Longrightarrow> ctx_data_used ctx < 4 \<Longrightarrow>
   length out + (if ok then ctx_data_used ctx' else 0) \<le> length inp + ctx_data_used ctx \<and>
   (ok \<longrightarrow> ctx_data_used ctx' < 4 \<and> ctx_error ctx' = ctx_error ctx)"
proof (induction inp ctx arbitrary: out ok ctx' rule: decode_update_loop.induct)
  case (2 c inp ctx)
  show ?case
  proof (cases "b64_space c")
    case True
    then have "decode_update_loop inp ctx = ((out, ok), ctx')" using 2(4) by (simp add: decode_update_loop.simps(2))
    from 2(1) [OF True this 2(5)] show ?thesis by auto
  next
    case sp: False
    show ?thesis
    proof (cases "ctx_eof_seen ctx")
      case True
      then show ?thesis using 2(4) sp by (auto simp: decode_update_loop.simps(2))
    next
      case eof: False
      let ?c = "ctx\<lparr>ctx_data := (ctx_data ctx)[ctx_data_used ctx := c], ctx_data_used := ctx_data_used ctx + 1\<rparr>"
      show ?thesis
      proof (cases "ctx_data_used ?c = 4")
        case False
        then have "decode_update_loop inp ?c = ((out, ok), ctx')" and "ctx_data_used ?c < 4"
          using 2(4,5) sp eof by (simp_all add: decode_update_loop.simps(2) Let_def)
        from 2(3) [OF sp eof refl False this] show ?thesis by auto
      next
        case full: True
        let ?q = "base64_decode_quad (ctx_data ?c ! 0) (ctx_data ?c ! 1) (ctx_data ?c ! 2) (ctx_data ?c ! 3)"
        show ?thesis
        proof (cases ?q)
          case None
          then show ?thesis using 2(4) sp eof full by (auto simp: decode_update_loop.simps(2) Let_def)
        next
          case (Some bs)
          let ?e = "if length bs < 3 then ?c\<lparr>ctx_data_used := 0, ctx_eof_seen := True\<rparr> else ?c\<lparr>ctx_data_used := 0\<rparr>"
          obtain o' k e' where r: "decode_update_loop inp ?e = ((o', k), e')" by (metis prod.collapse)
          have "out = bs @ o'" "ok = k" "ctx' = e'"
            using 2(4) sp eof full Some r by (simp_all add: decode_update_loop.simps(2) Let_def split: if_splits)
          moreover have "length o' + (if k then ctx_data_used e' else 0) \<le> length inp + ctx_data_used ?e \<and>
              (k \<longrightarrow> ctx_data_used e' < 4 \<and> ctx_error e' = ctx_error ?e)"
            using 2(2) [OF sp eof refl full Some refl refl] r by (auto split: if_splits)
          ultimately show ?thesis using decode_quad_length [OF Some] full by (auto split: if_splits)
        qed
      qed
    qed
  qed
qed auto

text \<open>The calls together do what one pass over the concatenated input does.\<close>

lemma decode_run_eq:
  "ctx_data_used ctx < 4 \<Longrightarrow> \<not> ctx_error ctx \<Longrightarrow> (\<And>c. c \<in> set cs \<Longrightarrow> length c < 2 ^ 30) \<Longrightarrow>
   decode_run ctx cs =
     (case decode_update_loop (concat cs) ctx of
        ((out, ok), ctx') \<Rightarrow> if ok \<and> ctx_data_used ctx' = 0 then Some out else None)"
proof (induction cs arbitrary: ctx)
  case Nil
  then show ?case by (simp add: EVP_DecodeFinal_def)
next
  case (Cons c cs)
  obtain out ok ctx' where l: "decode_update_loop c ctx = ((out, ok), ctx')" by (metis prod.collapse)
  note b = decode_update_bound [OF l Cons.prems(1)]
  have len: "length out \<le> 2 ^ 31 - 1" using b Cons.prems(1) Cons.prems(3) [of c] by (simp split: if_splits)
  show ?case
  proof (cases ok)
    case False
    then show ?thesis using l Cons.prems(2) by (simp add: EVP_DecodeUpdate_def decode_update_loop_append)
  next
    case True
    have "decode_run ctx' cs = (case decode_update_loop (concat cs) ctx' of
        ((out, ok), ctx') \<Rightarrow> if ok \<and> ctx_data_used ctx' = 0 then Some out else None)"
      using b True Cons.prems by (intro Cons.IH) auto
    then show ?thesis
      using l True len Cons.prems(2)
      by (auto simp: EVP_DecodeUpdate_def decode_update_loop_append split: prod.splits)
  qed
qed

theorem decode_run_lines:
  assumes "filter (\<lambda>c. \<not> b64_space c) (concat cs) = base64 s" and "\<And>c. c \<in> set cs \<Longrightarrow> length c < 2 ^ 30"
  shows "decode_run EVP_DecodeInit cs = Some s"
proof -
  have "dec_ready EVP_DecodeInit" by (simp add: dec_ready_def EVP_DecodeInit_def)
  from decode_update_enc [OF this, of s] obtain ctx' where
      "decode_update_loop (base64 s) EVP_DecodeInit = ((s, True), ctx')" "ctx_data_used ctx' = 0" by blast
  then have "decode_update_loop (concat cs) EVP_DecodeInit = ((s, True), ctx')"
    using decode_update_loop_strip [of "concat cs" EVP_DecodeInit] by (simp only: assms(1))
  moreover have "ctx_data_used EVP_DecodeInit < 4" "\<not> ctx_error EVP_DecodeInit"
    by (simp_all add: EVP_DecodeInit_def)
  ultimately show ?thesis
    using decode_run_eq [of EVP_DecodeInit cs] assms(2) \<open>ctx_data_used ctx' = 0\<close> by simp
qed

end
