(* ===== verification/Stack.thy ===== *)
theory Stack
  imports Mem Qsort
begin

text \<open>
  \<open>crypto/stack/stack.c\<close>: growable arrays of pointers with an optional comparison function and a flag
  that says that the array is sorted by it. A pointer is a 64-bit word and NULL is 0; the array is the
  list of the \<open>num_alloc\<close> words of its block. A comparison function is a pointer as well, and the
  parameter \<open>call\<close> says what the function it points to returns. A NULL stack is \<open>None\<close>. Freed memory is
  not tracked, apart from the elements handed to a free function.
\<close>

record stack_st =
  st_num :: nat
  st_data :: "ptr list"
  st_sorted :: bool
  st_num_alloc :: nat
  st_comp :: ptr

definition kMinSize :: nat where
  "kMinSize = 4"

definition sizeof_ptr :: nat where
  "sizeof_ptr = 8"

definition sizeof_STACK :: nat where
  "sizeof_STACK = 40"

text \<open>A block of pointers as bytes (the target is little-endian) and back.\<close>

fun pointers :: "u8 list \<Rightarrow> ptr list" where
  "pointers (a # b # c # d # e # f # g # h # bs) = of_nat (be_val [h, g, f, e, d, c, b, a]) # pointers bs"
| "pointers _ = []"

definition pointer_bytes :: "ptr list \<Rightarrow> u8 list" where
  "pointer_bytes ps = concat (map (\<lambda>p. rev (be_bytes 8 (unat p))) ps)"

definition sk_new :: "allocator \<Rightarrow> nat \<Rightarrow> ptr \<Rightarrow> stack_st option \<times> nat" where
  "sk_new m k cmp =
     (case OPENSSL_malloc m k sizeof_STACK of
        (None, k) \<Rightarrow> (None, k)
      | (Some _, k) \<Rightarrow>
          (case OPENSSL_malloc m k (sizeof_ptr * kMinSize) of
             (None, k) \<Rightarrow> (None, k)
           | (Some _, k) \<Rightarrow>
               (Some \<lparr>st_num = 0, st_data = replicate kMinSize 0, st_sorted = False,
                      st_num_alloc = kMinSize, st_comp = cmp\<rparr>, k)))"

definition sk_new_null :: "allocator \<Rightarrow> nat \<Rightarrow> stack_st option \<times> nat" where
  "sk_new_null m k = sk_new m k 0"

fun sk_num :: "stack_st option \<Rightarrow> nat" where
  "sk_num None = 0"
| "sk_num (Some sk) = st_num sk"

fun sk_zero :: "stack_st option \<Rightarrow> stack_st option" where
  "sk_zero None = None"
| "sk_zero (Some sk) =
     (if st_num sk = 0 then Some sk
      else Some (sk\<lparr>st_data := overwrite 0 (replicate (st_num sk) 0) (st_data sk), st_num := 0, st_sorted := False\<rparr>))"

fun sk_value :: "stack_st option \<Rightarrow> nat \<Rightarrow> ptr" where
  "sk_value None i = 0"
| "sk_value (Some sk) i = (if i \<ge> st_num sk then 0 else st_data sk ! i)"

fun sk_set :: "stack_st option \<Rightarrow> nat \<Rightarrow> ptr \<Rightarrow> ptr \<times> stack_st option" where
  "sk_set None i v = (0, None)"
| "sk_set (Some sk) i v =
     (if i \<ge> st_num sk then (0, Some sk) else (v, Some (sk\<lparr>st_data := (st_data sk)[i := v]\<rparr>)))"

text \<open>The elements that \<open>sk_pop_free_ex\<close> hands to the free function, in order.\<close>

fun pop_free_loop :: "ptr list \<Rightarrow> nat \<Rightarrow> ptr list" where
  "pop_free_loop data 0 = []"
| "pop_free_loop [] (Suc n) = []"
| "pop_free_loop (p # data) (Suc n) = (if p \<noteq> 0 then p # pop_free_loop data n else pop_free_loop data n)"

fun sk_pop_free_ex :: "stack_st option \<Rightarrow> ptr list" where
  "sk_pop_free_ex None = []"
| "sk_pop_free_ex (Some sk) = pop_free_loop (st_data sk) (st_num sk)"

definition sk_pop_free :: "stack_st option \<Rightarrow> ptr list" where
  "sk_pop_free sk = sk_pop_free_ex sk"

text \<open>The size to grow to: twice the allocation, or one more if doubling overflows. \<open>None\<close> if that
  overflows too.\<close>

definition sk_grow :: "nat \<Rightarrow> (nat \<times> nat) option" where
  "sk_grow num_alloc =
     (let new_alloc = num_alloc * 2 mod 2 ^ 64;
          alloc_size = new_alloc * sizeof_ptr mod 2 ^ 64;
          (new_alloc, alloc_size) =
            (if new_alloc < num_alloc \<or> alloc_size div sizeof_ptr \<noteq> new_alloc
             then (szadd num_alloc 1, szadd num_alloc 1 * sizeof_ptr mod 2 ^ 64)
             else (new_alloc, alloc_size))
      in if new_alloc < num_alloc \<or> alloc_size div sizeof_ptr \<noteq> new_alloc then None
         else Some (new_alloc, alloc_size))"

text \<open>The new length (0 on error), the stack, the number of allocations.\<close>

fun sk_insert :: "allocator \<Rightarrow> nat \<Rightarrow> stack_st option \<Rightarrow> ptr \<Rightarrow> nat \<Rightarrow> nat \<times> stack_st option \<times> nat" where
  "sk_insert m k None p pos = (0, None, k)"
| "sk_insert m k (Some sk) p pos =
     (case (if st_num_alloc sk \<le> szadd (st_num sk) 1
            then
              (case sk_grow (st_num_alloc sk) of
                 None \<Rightarrow> (None, k)
               | Some (new_alloc, alloc_size) \<Rightarrow>
                   (case OPENSSL_realloc m k (Some (pointer_bytes (st_data sk))) alloc_size of
                      (None, k) \<Rightarrow> (None, k)
                    | (Some block, k) \<Rightarrow>
                        (Some (sk\<lparr>st_data := pointers block, st_num_alloc := new_alloc\<rparr>), k)))
            else (Some sk, k)) of
        (None, k) \<Rightarrow> (0, Some sk, k)
      | (Some sk, k) \<Rightarrow>
          let data =
                (if pos \<ge> st_num sk then (st_data sk)[st_num sk := p]
                 else (overwrite (pos + 1) (take (st_num sk - pos) (drop pos (st_data sk))) (st_data sk))[pos := p]);
              n = szadd (st_num sk) 1
          in (n, Some (sk\<lparr>st_data := data, st_num := n, st_sorted := False\<rparr>), k))"

fun sk_delete :: "stack_st option \<Rightarrow> nat \<Rightarrow> ptr \<times> stack_st option" where
  "sk_delete None pos = (0, None)"
| "sk_delete (Some sk) pos =
     (if pos \<ge> st_num sk then (0, Some sk)
      else
        let ret = st_data sk ! pos;
            data = (if pos \<noteq> st_num sk - 1
                    then overwrite pos (take (st_num sk - pos - 1) (drop (pos + 1) (st_data sk))) (st_data sk)
                    else st_data sk)
        in (ret, Some (sk\<lparr>st_data := data, st_num := st_num sk - 1\<rparr>)))"

text \<open>The linear searches: the first index from \<open>i\<close> on, below \<open>n\<close>, whose element passes the test.\<close>

function find_index_loop :: "(ptr \<Rightarrow> bool) \<Rightarrow> ptr list \<Rightarrow> nat \<Rightarrow> nat \<Rightarrow> nat option" where
  "find_index_loop test data i n =
     (if i < n then if test (data ! i) then Some i else find_index_loop test data (i + 1) n else None)"
  by pat_completeness auto
termination
  by (relation "measure (\<lambda>(test, data, i, n). n - i)") auto

declare find_index_loop.simps [simp del]

fun sk_delete_ptr :: "stack_st option \<Rightarrow> ptr \<Rightarrow> ptr \<times> stack_st option" where
  "sk_delete_ptr None p = (0, None)"
| "sk_delete_ptr (Some sk) p =
     (case find_index_loop (\<lambda>e. e = p) (st_data sk) 0 (st_num sk) of
        None \<Rightarrow> (0, Some sk)
      | Some i \<Rightarrow> sk_delete (Some sk) i)"

text \<open>The binary search, on the half-open interval from \<open>lo\<close> to \<open>hi\<close>.\<close>

function find_sorted_loop :: "(ptr \<Rightarrow> ptr \<Rightarrow> int) \<Rightarrow> ptr list \<Rightarrow> ptr \<Rightarrow> nat \<Rightarrow> nat \<Rightarrow> nat option" where
  "find_sorted_loop cmp data p lo hi =
     (if lo < hi
      then
        let mid = lo + (hi - lo - 1) div 2; r = cmp p (data ! mid) in
        if r > 0 then find_sorted_loop cmp data p (mid + 1) hi
        else if r < 0 then find_sorted_loop cmp data p lo mid
        else if hi - lo = 1 then Some mid
        else find_sorted_loop cmp data p lo (mid + 1)
      else None)"
  by pat_completeness auto
termination
  by (relation "measure (\<lambda>(cmp, data, p, lo, hi). hi - lo)") auto

declare find_sorted_loop.simps [simp del]

fun sk_is_sorted :: "stack_st option \<Rightarrow> bool" where
  "sk_is_sorted None = True"
| "sk_is_sorted (Some sk) = st_sorted sk"

text \<open>\<open>call\<close> is \<open>call_cmp_func\<close>; the result is \<open>*out_index\<close>.\<close>

fun sk_find :: "(ptr \<Rightarrow> ptr \<Rightarrow> ptr \<Rightarrow> int) \<Rightarrow> stack_st option \<Rightarrow> ptr \<Rightarrow> nat option" where
  "sk_find call None p = None"
| "sk_find call (Some sk) p =
     (if st_comp sk = 0 then find_index_loop (\<lambda>e. e = p) (st_data sk) 0 (st_num sk)
      else if p = 0 then None
      else if \<not> sk_is_sorted (Some sk)
      then find_index_loop (\<lambda>e. call (st_comp sk) p e = 0) (st_data sk) 0 (st_num sk)
      else find_sorted_loop (call (st_comp sk)) (st_data sk) p 0 (st_num sk))"

fun sk_shift :: "stack_st option \<Rightarrow> ptr \<times> stack_st option" where
  "sk_shift None = (0, None)"
| "sk_shift (Some sk) = (if st_num sk = 0 then (0, Some sk) else sk_delete (Some sk) 0)"

definition sk_push :: "allocator \<Rightarrow> nat \<Rightarrow> stack_st option \<Rightarrow> ptr \<Rightarrow> nat \<times> stack_st option \<times> nat" where
  "sk_push m k sk p = sk_insert m k sk p (sk_num sk)"

fun sk_pop :: "stack_st option \<Rightarrow> ptr \<times> stack_st option" where
  "sk_pop None = (0, None)"
| "sk_pop (Some sk) = (if st_num sk = 0 then (0, Some sk) else sk_delete (Some sk) (st_num sk - 1))"

fun sk_dup :: "allocator \<Rightarrow> nat \<Rightarrow> stack_st option \<Rightarrow> stack_st option \<times> nat" where
  "sk_dup m k None = (None, k)"
| "sk_dup m k (Some sk) =
     (case sk_new m k (st_comp sk) of
        (None, k) \<Rightarrow> (None, k)
      | (Some ret, k) \<Rightarrow>
          (case OPENSSL_realloc m k (Some (pointer_bytes (st_data ret))) (sizeof_ptr * st_num_alloc sk mod 2 ^ 64) of
             (None, k) \<Rightarrow> (None, k)
           | (Some block, k) \<Rightarrow>
               (Some \<lparr>st_num = st_num sk,
                      st_data = overwrite 0 (take (st_num sk) (st_data sk)) (pointers block),
                      st_sorted = st_sorted sk, st_num_alloc = st_num_alloc sk, st_comp = st_comp sk\<rparr>, k)))"

fun sk_sort :: "(ptr \<Rightarrow> ptr \<Rightarrow> ptr \<Rightarrow> int) \<Rightarrow> stack_st option \<Rightarrow> stack_st option" where
  "sk_sort call None = None"
| "sk_sort call (Some sk) =
     (if st_comp sk = 0 \<or> st_sorted sk then Some sk
      else
        let sk = (if st_num sk \<ge> 2
                  then sk\<lparr>st_data := overwrite 0 (qsort (call (st_comp sk)) (take (st_num sk) (st_data sk))) (st_data sk)\<rparr>
                  else sk)
        in Some (sk\<lparr>st_sorted := True\<rparr>))"

definition sk_set_cmp_func :: "stack_st \<Rightarrow> ptr \<Rightarrow> ptr \<times> stack_st" where
  "sk_set_cmp_func sk cmp =
     (let old = st_comp sk;
          sk = (if st_comp sk \<noteq> cmp then sk\<lparr>st_sorted := False\<rparr> else sk)
      in (old, sk\<lparr>st_comp := cmp\<rparr>))"

text \<open>The loop of \<open>sk_deep_copy\<close>. \<open>copy i p\<close> is what the copy function returns for the element \<open>p\<close> at
  index \<open>i\<close> (NULL if it fails). The result is the copied array, or the copies to free again.\<close>

function deep_copy_loop :: "(nat \<Rightarrow> ptr \<Rightarrow> ptr) \<Rightarrow> ptr list \<Rightarrow> nat \<Rightarrow> nat \<Rightarrow> ptr list + ptr list" where
  "deep_copy_loop copy data i n =
     (if i < n
      then if data ! i = 0 then deep_copy_loop copy data (i + 1) n
           else
             let data = data[i := copy i (data ! i)] in
             if data ! i = 0 then Inl (pop_free_loop data i)
             else deep_copy_loop copy data (i + 1) n
      else Inr data)"
  by pat_completeness auto
termination
  by (relation "measure (\<lambda>(copy, data, i, n). n - i)") auto

declare deep_copy_loop.simps [simp del]

text \<open>The copy and, when copying an element fails, the elements that are freed again.\<close>

definition sk_deep_copy ::
  "allocator \<Rightarrow> nat \<Rightarrow> (nat \<Rightarrow> ptr \<Rightarrow> ptr) \<Rightarrow> stack_st option \<Rightarrow> (stack_st option \<times> ptr list) \<times> nat" where
  "sk_deep_copy m k copy sk =
     (case sk_dup m k sk of
        (None, k) \<Rightarrow> ((None, []), k)
      | (Some ret, k) \<Rightarrow>
          (case deep_copy_loop copy (st_data ret) 0 (st_num ret) of
             Inl freed \<Rightarrow> ((None, freed), k)
           | Inr data \<Rightarrow> ((Some (ret\<lparr>st_data := data\<rparr>), []), k)))"

end
