(* ===== verification/StackSpec.thy ===== *)
theory StackSpec
  imports Stack
begin

text \<open>
  What \<open>stack.c\<close> promises: every operation does to the element list \<open>elems\<close> what its name says and keeps
  the representation invariant \<open>stack_ok\<close>; the binary search finds what the linear search finds; a stack
  is a last-in first-out store (the interface \<open>lifo\<close>).
\<close>

section \<open>Blocks of pointers\<close>

lemma pointer_bytes_Cons: "pointer_bytes (p # ps) = rev (be_bytes 8 (unat p)) @ pointer_bytes ps"
  by (simp add: pointer_bytes_def)

lemma length_pointer_bytes [simp]: "length (pointer_bytes ps) = 8 * length ps"
  by (induction ps) (simp_all add: pointer_bytes_Cons, simp add: pointer_bytes_def)

lemma list_8: "length xs = 8 \<Longrightarrow> \<exists>a b c d e f g h. xs = [a, b, c, d, e, f, g, h]"
  by (auto simp: eval_nat_numeral length_Suc_conv)

lemma pointers_block:
  assumes "length b = 8"
  shows "pointers (b @ bs) = of_nat (be_val (rev b)) # pointers bs"
  using list_8 [OF assms] by auto

lemma pointers_append_bytes: "pointers (pointer_bytes ps @ bs) = ps @ pointers bs"
proof (induction ps)
  case (Cons p ps)
  have "unat p < 256 ^ 8" using unsigned_less [of p, where 'a = nat] by simp
  then have "of_nat (be_val (rev (rev (be_bytes 8 (unat p))))) = p"
    by (simp only: rev_rev_ident be_val_be_bytes mod_less of_nat_unat) simp
  then show ?case using Cons by (simp add: pointer_bytes_Cons pointers_block)
qed (simp add: pointer_bytes_def)

lemma length_pointers: "length (pointers bs) = length bs div 8"
proof (induction bs rule: pointers.induct)
  case (1 a b c d e f g h bs)
  have "length (a # b # c # d # e # f # g # h # bs) div 8 = Suc (length bs div 8)" by simp
  then show ?case using 1 by simp
qed auto

lemma pointers_realloc:
  assumes "length b = 8 * n" and "take (8 * length ps) b = pointer_bytes ps" and "length ps \<le> n"
  shows "length (pointers b) = n \<and> take (length ps) (pointers b) = ps"
proof -
  have "b = pointer_bytes ps @ drop (8 * length ps) b"
    using assms(2) append_take_drop_id [of "8 * length ps" b] by simp
  then have "pointers b = ps @ pointers (drop (8 * length ps) b)" by (metis pointers_append_bytes)
  moreover have "(8 * n - 8 * length ps) div 8 = n - length ps" by (simp flip: diff_mult_distrib2)
  ultimately show ?thesis using assms(1,3) by (simp add: length_pointers)
qed

section \<open>The representation invariant\<close>

definition elems :: "stack_st \<Rightarrow> ptr list" where
  "elems sk = take (st_num sk) (st_data sk)"

definition stack_ok :: "stack_st \<Rightarrow> bool" where
  "stack_ok sk \<longleftrightarrow> length (st_data sk) = st_num_alloc sk \<and> st_num sk \<le> st_num_alloc sk \<and>
     kMinSize \<le> st_num_alloc sk \<and> st_num_alloc sk * sizeof_ptr + OPENSSL_MALLOC_PREFIX < 2 ^ 63"

lemma length_elems: "stack_ok sk \<Longrightarrow> length (elems sk) = st_num sk"
  by (simp add: stack_ok_def elems_def)

lemma sk_new_spec:
  assumes "sk_new m k cmp = (Some sk, k')"
  shows "stack_ok sk \<and> elems sk = [] \<and> st_comp sk = cmp"
  using assms
  by (auto simp: sk_new_def stack_ok_def elems_def kMinSize_def sizeof_ptr_def OPENSSL_MALLOC_PREFIX_def
      split: prod.splits option.splits)

section \<open>Insertion and deletion\<close>

lemma sk_grow_double:
  assumes "4 \<le> n" and "n < 2 ^ 60"
  shows "sk_grow n = Some (n * 2, n * 2 * 8)"
  using assms by (simp add: sk_grow_def sizeof_ptr_def Let_def)

lemma split_array:
  assumes "pos \<le> n" and "n \<le> length data"
  obtains A B C where "data = A @ B @ C" "length A = pos" "length B = n - pos" "take n data = A @ B"
proof
  show "data = take pos data @ take (n - pos) (drop pos data) @ drop n data"
    by (metis append.assoc append_take_drop_id assms(1) le_add_diff_inverse take_add)
  show "take n data = take pos data @ take (n - pos) (drop pos data)"
    using assms(1) by (metis le_add_diff_inverse take_add)
qed (use assms in auto)

lemma list_insert:
  assumes "n < length data" and "pos < n"
  shows "take (Suc n) ((overwrite (pos + 1) (take (n - pos) (drop pos data)) data)[pos := p]) =
    take pos (take n data) @ p # drop pos (take n data)"
proof -
  obtain A B C where s: "data = A @ B @ C" "length A = pos" "length B = n - pos" "take n data = A @ B"
    using split_array [of pos n data] assms by auto
  obtain b B' c C' where "B = b # B'" "C = c # C'" using s assms by (cases B; cases C) auto
  moreover from this have "n = Suc (length A + length B')" using s assms by simp
  ultimately show ?thesis
    using s assms by (simp add: overwrite_def list_update_append)
qed

lemma list_delete:
  assumes "n \<le> length data" and "pos < n"
  shows "take (n - 1) (overwrite pos (take (n - pos - 1) (drop (pos + 1) data)) data) =
    take pos (take n data) @ drop (Suc pos) (take n data)"
proof -
  obtain A B C where s: "data = A @ B @ C" "length A = pos" "length B = n - pos" "take n data = A @ B"
    using split_array [of pos n data] assms by auto
  obtain b B' where "B = b # B'" using s assms by (cases B) auto
  then show ?thesis
    using s assms by (simp add: overwrite_def)
qed

text \<open>Making room: the first half of \<open>sk_insert\<close>.\<close>

definition make_room :: "allocator \<Rightarrow> nat \<Rightarrow> stack_st \<Rightarrow> stack_st option \<times> nat" where
  "make_room m k sk =
     (if st_num_alloc sk \<le> szadd (st_num sk) 1
      then
        (case sk_grow (st_num_alloc sk) of
           None \<Rightarrow> (None, k)
         | Some (new_alloc, alloc_size) \<Rightarrow>
             (case OPENSSL_realloc m k (Some (pointer_bytes (st_data sk))) alloc_size of
                (None, k) \<Rightarrow> (None, k)
              | (Some block, k) \<Rightarrow>
                  (Some (sk\<lparr>st_data := pointers block, st_num_alloc := new_alloc\<rparr>), k)))
      else (Some sk, k))"

definition put :: "ptr \<Rightarrow> nat \<Rightarrow> stack_st \<Rightarrow> stack_st" where
  "put p pos sk = sk\<lparr>st_data :=
      (if pos \<ge> st_num sk then (st_data sk)[st_num sk := p]
       else (overwrite (pos + 1) (take (st_num sk - pos) (drop pos (st_data sk))) (st_data sk))[pos := p]),
    st_num := szadd (st_num sk) 1, st_sorted := False\<rparr>"

lemma sk_insert_eq:
  "sk_insert m k (Some sk) p pos =
     (case make_room m k sk of
        (None, k) \<Rightarrow> (0, Some sk, k)
      | (Some sk, k) \<Rightarrow> (st_num (put p pos sk), Some (put p pos sk), k))"
  unfolding sk_insert.simps make_room_def put_def Let_def by (auto split: prod.splits option.splits)

declare sk_insert.simps(2) [simp del]

lemma make_room_Some:
  assumes m: "alloc_ok m" and ok: "stack_ok sk" and r: "make_room m k sk = (Some sk', k')"
  shows "stack_ok sk' \<and> st_num sk' < st_num_alloc sk' \<and> st_num sk' = st_num sk \<and> elems sk' = elems sk \<and>
    st_comp sk' = st_comp sk \<and> st_sorted sk' = st_sorted sk"
proof (cases "st_num_alloc sk \<le> szadd (st_num sk) 1")
  case False
  moreover have "szadd (st_num sk) 1 = st_num sk + 1"
    using ok by (simp add: stack_ok_def sizeof_ptr_def OPENSSL_MALLOC_PREFIX_def)
  ultimately show ?thesis using ok r by (simp add: make_room_def)
next
  case True
  let ?n = "st_num_alloc sk"
  have n: "4 \<le> ?n" "?n < 2 ^ 60"
    using ok by (simp_all add: stack_ok_def sizeof_ptr_def kMinSize_def OPENSSL_MALLOC_PREFIX_def)
  obtain b where b: "OPENSSL_realloc m k (Some (pointer_bytes (st_data sk))) (?n * 2 * 8) = (Some b, k')"
      "sk' = sk\<lparr>st_data := pointers b, st_num_alloc := ?n * 2\<rparr>"
    using r True by (auto simp: make_room_def sk_grow_double [OF n] split: option.splits prod.splits)
  have size: "?n * 2 * 8 + OPENSSL_MALLOC_PREFIX < 2 ^ 64"
    using n by (simp add: OPENSSL_MALLOC_PREFIX_def)
  from OPENSSL_realloc_Some [OF m size b(1)] ok
  have "length b = 8 * (?n * 2)" and "take (8 * length (st_data sk)) b = pointer_bytes (st_data sk)"
    and new: "?n * 2 * 8 + OPENSSL_MALLOC_PREFIX < 2 ^ 63"
    by (simp_all add: stack_ok_def)
  from pointers_realloc [OF this(1,2)] ok
  have p: "length (pointers b) = ?n * 2" "take ?n (pointers b) = st_data sk" by (simp_all add: stack_ok_def)
  have "elems sk' = take (st_num sk) (take ?n (pointers b))"
    using ok by (simp add: elems_def b(2) stack_ok_def min_def)
  then have "elems sk' = elems sk" by (simp add: p(2) elems_def)
  then show ?thesis
    using ok n p(1) new by (auto simp: b(2) stack_ok_def sizeof_ptr_def kMinSize_def)
qed

lemma put_spec:
  assumes ok: "stack_ok sk" and lt: "st_num sk < st_num_alloc sk"
  shows "stack_ok (put p pos sk) \<and> elems (put p pos sk) = take pos (elems sk) @ p # drop pos (elems sk) \<and>
    st_num (put p pos sk) = Suc (st_num sk) \<and> st_comp (put p pos sk) = st_comp sk \<and> \<not> st_sorted (put p pos sk)"
proof -
  have len: "length (st_data sk) = st_num_alloc sk" using ok by (simp add: stack_ok_def)
  have s: "szadd (st_num sk) 1 = Suc (st_num sk)"
    using ok by (simp add: stack_ok_def sizeof_ptr_def OPENSSL_MALLOC_PREFIX_def)
  have "elems (put p pos sk) = take pos (elems sk) @ p # drop pos (elems sk)"
  proof (cases "pos \<ge> st_num sk")
    case True
    then show ?thesis
      using lt len s by (simp add: put_def elems_def take_Suc_conv_app_nth)
  next
    case False
    then show ?thesis
      using list_insert [of "st_num sk" "st_data sk" pos p] lt len s by (simp add: put_def elems_def)
  qed
  then show ?thesis using ok lt s len by (auto simp: put_def stack_ok_def)
qed

text \<open>On success the element is at the position, or at the end if the position is past the end.\<close>

theorem sk_insert_spec:
  assumes m: "alloc_ok m" and ok: "stack_ok sk" and r: "sk_insert m k (Some sk) p pos = (n, Some sk', k')"
  shows "stack_ok sk' \<and> st_comp sk' = st_comp sk \<and>
    (if n = 0 then sk' = sk
     else elems sk' = take pos (elems sk) @ p # drop pos (elems sk) \<and> n = length (elems sk') \<and> \<not> st_sorted sk')"
proof (cases "fst (make_room m k sk)")
  case None
  then show ?thesis using r ok by (auto simp: sk_insert_eq split: prod.splits)
next
  case (Some s)
  then obtain k1 where mr: "make_room m k sk = (Some s, k1)" by (metis prod.collapse)
  note a = make_room_Some [OF m ok mr]
  have "sk' = put p pos s" "n = st_num sk'" using r by (auto simp: sk_insert_eq mr)
  then show ?thesis using put_spec [of s p pos] a length_elems [of sk'] by simp
qed

text \<open>With memory to spare an insertion succeeds.\<close>

lemma sk_insert_live:
  assumes ok: "stack_ok sk" and av: "alloc_avail m limit" "limit < 2 ^ 63"
    and lim: "16 * st_num_alloc sk + OPENSSL_MALLOC_PREFIX \<le> limit"
  shows "fst (sk_insert m k (Some sk) p pos) \<noteq> 0"
proof -
  have n: "4 \<le> st_num_alloc sk" "st_num_alloc sk < 2 ^ 60"
    using ok by (simp_all add: stack_ok_def sizeof_ptr_def kMinSize_def OPENSSL_MALLOC_PREFIX_def)
  have "limit < 2 ^ 64" using av(2) by simp
  from OPENSSL_malloc_avail [OF av(1) this, of "st_num_alloc sk * 2 * 8"] lim
  obtain b where b: "OPENSSL_malloc m k (st_num_alloc sk * 2 * 8) = (Some b, Suc k)" by auto
  have s: "szadd (st_num sk) 1 = Suc (st_num sk)"
    using ok by (simp add: stack_ok_def sizeof_ptr_def OPENSSL_MALLOC_PREFIX_def)
  have "\<exists>s k'. make_room m k sk = (Some s, k') \<and> st_num s = st_num sk"
    using b by (auto simp: make_room_def sk_grow_double [OF n] OPENSSL_realloc_def Let_def)
  then show ?thesis using s by (auto simp: sk_insert_eq put_def)
qed

theorem sk_delete_spec:
  assumes ok: "stack_ok sk" and r: "sk_delete (Some sk) pos = (p, Some sk')"
  shows "stack_ok sk' \<and> st_comp sk' = st_comp sk \<and> st_sorted sk' = st_sorted sk \<and>
    (if pos < length (elems sk)
     then p = elems sk ! pos \<and> elems sk' = take pos (elems sk) @ drop (Suc pos) (elems sk)
     else p = 0 \<and> sk' = sk)"
proof (cases "pos < st_num sk")
  case False
  then show ?thesis using r ok by (auto simp: length_elems)
next
  case True
  have len: "length (st_data sk) = st_num_alloc sk" "st_num sk \<le> st_num_alloc sk" using ok by (simp_all add: stack_ok_def)
  have p: "p = elems sk ! pos" using r True by (auto simp: Let_def elems_def)
  have e: "elems sk' = take pos (elems sk) @ drop (Suc pos) (elems sk)"
  proof (cases "pos = st_num sk - 1")
    case last: True
    then have "elems sk' = take pos (st_data sk)" using r True by (auto simp: Let_def elems_def)
    then show ?thesis using last True by (simp add: elems_def min_def)
  next
    case False
    then have "elems sk' = take (st_num sk - 1) (overwrite pos (take (st_num sk - pos - 1) (drop (pos + 1) (st_data sk))) (st_data sk))"
      using r True by (auto simp: Let_def elems_def)
    then show ?thesis using list_delete [of "st_num sk" "st_data sk" pos] True len by (simp add: elems_def)
  qed
  have "stack_ok sk' \<and> st_comp sk' = st_comp sk \<and> st_sorted sk' = st_sorted sk"
    using r True ok by (auto simp: Let_def stack_ok_def)
  then show ?thesis using p e True by (simp add: length_elems [OF ok])
qed

text \<open>\<open>sk_delete_ptr\<close> removes the first occurrence.\<close>

lemma find_index_loop_spec:
  "find_index_loop test data i n = Some j \<longleftrightarrow> i \<le> j \<and> j < n \<and> test (data ! j) \<and> (\<forall>l. i \<le> l \<and> l < j \<longrightarrow> \<not> test (data ! l))"
proof (induction test data i n rule: find_index_loop.induct)
  case (1 test data i n)
  show ?case
  proof (cases "i < n \<and> \<not> test (data ! i)")
    case True
    then have "find_index_loop test data i n = find_index_loop test data (i + 1) n"
      by (subst find_index_loop.simps) simp
    moreover have "i \<le> l \<longleftrightarrow> l = i \<or> i + 1 \<le> l" for l by linarith
    ultimately show ?thesis using 1 True by auto
  next
    case False
    then show ?thesis by (subst find_index_loop.simps) (auto dest: leD)
  qed
qed

lemma find_index_loop_None:
  "find_index_loop test data i n = None \<longleftrightarrow> (\<forall>l. i \<le> l \<and> l < n \<longrightarrow> \<not> test (data ! l))"
proof (induction test data i n rule: find_index_loop.induct)
  case (1 test data i n)
  have "i \<le> l \<longleftrightarrow> l = i \<or> i + 1 \<le> l" for l by linarith
  then show ?case using 1 by (subst find_index_loop.simps) auto
qed

section \<open>Searching\<close>

text \<open>In an ordered array the binary search is the linear search.\<close>

context comparator
begin

lemma cmp_less_trans: "cmp x y < 0 \<Longrightarrow> cmp y z \<le> 0 \<Longrightarrow> cmp x z < 0"
  by (metis cmp_gt cmp_trans linorder_not_le order_less_imp_le)

lemma cmp_le_less_trans: "cmp x y \<le> 0 \<Longrightarrow> cmp y z < 0 \<Longrightarrow> cmp x z < 0"
  by (metis cmp_gt cmp_trans linorder_not_le order_less_imp_le)

lemma ordered_nth: "ordered xs \<Longrightarrow> i \<le> j \<Longrightarrow> j < length xs \<Longrightarrow> cmp (xs ! i) (xs ! j) \<le> 0"
  unfolding ordered_def using cmp_refl by (cases "i = j") (auto simp: sorted_wrt_iff_nth_less)

end

definition search_inv :: "(ptr \<Rightarrow> ptr \<Rightarrow> int) \<Rightarrow> ptr list \<Rightarrow> ptr \<Rightarrow> nat \<Rightarrow> nat \<Rightarrow> nat \<Rightarrow> bool" where
  "search_inv cmp data p n lo hi \<longleftrightarrow>
     lo \<le> hi \<and> hi \<le> n \<and> (\<forall>j < lo. 0 < cmp p (data ! j)) \<and>
     ((\<forall>j. hi \<le> j \<and> j < n \<longrightarrow> cmp p (data ! j) < 0) \<or> lo < hi \<and> cmp p (data ! (hi - 1)) = 0)"

lemma find_sorted_loop_eq:
  assumes c: "comparator cmp" and ord: "comparator.ordered cmp (take n data)" and len: "n \<le> length data"
  shows "search_inv cmp data p n lo hi \<Longrightarrow>
    find_sorted_loop cmp data p lo hi = find_index_loop (\<lambda>e. cmp p e = 0) data 0 n"
proof (induction "hi - lo" arbitrary: lo hi rule: less_induct)
  case less
  have le: "cmp (data ! i) (data ! j) \<le> 0" if "i \<le> j" "j < n" for i j
    using comparator.ordered_nth [OF c ord that(1)] that len by simp
  note inv = less.prems [unfolded search_inv_def]
  let ?mid = "lo + (hi - lo - 1) div 2" and ?find = "find_index_loop (\<lambda>e. cmp p e = 0) data 0 n"
  show ?case
  proof (cases "lo < hi")
    case False
    then have "\<forall>l < n. cmp p (data ! l) \<noteq> 0" using inv by (metis less_numeral_extra(3) linorder_le_less_linear order_antisym)
    then have "?find = None" by (simp add: find_index_loop_None)
    then show ?thesis using False by (simp add: find_sorted_loop.simps [of cmp data p lo hi])
  next
    case True
    have mid: "lo \<le> ?mid" "?mid < hi" "?mid < n" using True inv by linarith+
    consider (gt) "0 < cmp p (data ! ?mid)" | (lt) "cmp p (data ! ?mid) < 0" | (eq) "cmp p (data ! ?mid) = 0" by linarith
    then show ?thesis
    proof cases
      case gt
      have "0 < cmp p (data ! j)" if "j < ?mid + 1" for j
        using comparator.cmp_trans [OF c _ le [of j ?mid], of p] that mid gt
        by (cases "cmp p (data ! j) \<le> 0") auto
      moreover have "?mid + 1 < hi \<or> (\<forall>j. hi \<le> j \<and> j < n \<longrightarrow> cmp p (data ! j) < 0)"
      proof (cases "?mid = hi - 1")
        case True
        then show ?thesis using inv gt by (metis less_numeral_extra(3))
      next
        case False
        then show ?thesis using mid by linarith
      qed
      ultimately have "search_inv cmp data p n (?mid + 1) hi"
        using inv mid gt unfolding search_inv_def by auto
      moreover have "hi - (?mid + 1) < hi - lo" using True by linarith
      ultimately show ?thesis
        using less.hyps True gt by (simp add: find_sorted_loop.simps [of cmp data p lo hi] Let_def)
    next
      case lt
      have "cmp p (data ! j) < 0" if "?mid \<le> j" "j < n" for j
        using comparator.cmp_less_trans [OF c lt le [OF that]] .
      then have "search_inv cmp data p n lo ?mid" using inv mid unfolding search_inv_def by auto
      moreover have "?mid - lo < hi - lo" using True by linarith
      ultimately show ?thesis
        using less.hyps True lt by (simp add: find_sorted_loop.simps [of cmp data p lo hi] Let_def)
    next
      case eq
      show ?thesis
      proof (cases "hi - lo = 1")
        case one: True
        then have "?mid = lo" by simp
        moreover have "?find = Some lo"
          using eq inv mid one by (auto simp: find_index_loop_spec)
        ultimately show ?thesis
          using True eq one by (simp add: find_sorted_loop.simps [of cmp data p lo hi] Let_def)
      next
        case False
        have "search_inv cmp data p n lo (?mid + 1)"
          using inv mid eq unfolding search_inv_def by auto
        moreover have "?mid + 1 - lo < hi - lo" using True False by linarith
        ultimately show ?thesis
          using less.hyps True eq False by (simp add: find_sorted_loop.simps [of cmp data p lo hi] Let_def)
      qed
    qed
  qed
qed

text \<open>The flag: the elements are in the order of the comparison function.\<close>

definition flag_ok :: "(ptr \<Rightarrow> ptr \<Rightarrow> ptr \<Rightarrow> int) \<Rightarrow> stack_st \<Rightarrow> bool" where
  "flag_ok call sk \<longleftrightarrow> (st_sorted sk \<and> st_comp sk \<noteq> 0 \<longrightarrow> comparator.ordered (call (st_comp sk)) (elems sk))"

text \<open>What \<open>sk_find\<close> returns: the first element that matches, by the comparison function if there is one.\<close>

definition matches :: "(ptr \<Rightarrow> ptr \<Rightarrow> ptr \<Rightarrow> int) \<Rightarrow> stack_st \<Rightarrow> ptr \<Rightarrow> ptr \<Rightarrow> bool" where
  "matches call sk p e \<longleftrightarrow> (if st_comp sk = 0 then e = p else p \<noteq> 0 \<and> call (st_comp sk) p e = 0)"

theorem sk_find_spec:
  assumes c: "comparator (call (st_comp sk))" and ok: "stack_ok sk" and flag: "flag_ok call sk"
  shows "sk_find call (Some sk) p = Some i \<longleftrightarrow>
    i < length (elems sk) \<and> matches call sk p (elems sk ! i) \<and> (\<forall>j < i. \<not> matches call sk p (elems sk ! j))"
proof -
  have nth: "elems sk ! j = st_data sk ! j" if "j < st_num sk" for j using that by (simp add: elems_def)
  have len: "st_num sk \<le> length (st_data sk)" using ok by (simp add: stack_ok_def)
  have "sk_find call (Some sk) p =
      (if st_comp sk \<noteq> 0 \<and> p = 0 then None
       else find_index_loop (matches call sk p) (st_data sk) 0 (st_num sk))"
  proof (cases "st_comp sk \<noteq> 0 \<and> p \<noteq> 0 \<and> st_sorted sk")
    case True
    then have "comparator.ordered (call (st_comp sk)) (take (st_num sk) (st_data sk))"
      using flag by (simp add: flag_ok_def elems_def)
    moreover have "search_inv (call (st_comp sk)) (st_data sk) p (st_num sk) 0 (st_num sk)"
      by (simp add: search_inv_def)
    moreover have "matches call sk p = (\<lambda>e. call (st_comp sk) p e = 0)"
      using True by (auto simp: matches_def)
    ultimately show ?thesis using True find_sorted_loop_eq [OF c _ len] by simp
  next
    case False
    have "st_comp sk = 0 \<Longrightarrow> matches call sk p = (\<lambda>e. e = p)"
      and "st_comp sk \<noteq> 0 \<Longrightarrow> p \<noteq> 0 \<Longrightarrow> matches call sk p = (\<lambda>e. call (st_comp sk) p e = 0)"
      by (auto simp: matches_def)
    then show ?thesis using False by auto
  qed
  then show ?thesis
    by (auto simp: length_elems [OF ok] find_index_loop_spec nth matches_def)
qed

section \<open>Sorting\<close>

theorem sk_sort_spec:
  assumes c: "comparator (call (st_comp sk))" and ok: "stack_ok sk" and flag: "flag_ok call sk"
    and r: "sk_sort call (Some sk) = Some sk'"
  shows "stack_ok sk' \<and> mset (elems sk') = mset (elems sk) \<and> flag_ok call sk' \<and>
    (st_comp sk \<noteq> 0 \<longrightarrow> comparator.ordered (call (st_comp sk)) (elems sk') \<and> st_sorted sk')"
proof (cases "st_comp sk = 0 \<or> st_sorted sk")
  case True
  then show ?thesis using r ok flag by (auto simp: flag_ok_def)
next
  case False
  let ?q = "qsort (call (st_comp sk)) (elems sk)"
  have len: "length (st_data sk) = st_num_alloc sk" "st_num sk \<le> st_num_alloc sk" using ok by (simp_all add: stack_ok_def)
  have e: "elems sk' = ?q \<and> stack_ok sk' \<and> st_comp sk' = st_comp sk \<and> st_sorted sk'"
  proof (cases "st_num sk \<ge> 2")
    case True
    then show ?thesis
      using r False ok len by (auto simp: elems_def stack_ok_def Let_def overwrite_def)
  next
    case few: False
    then have "elems sk = [] \<or> (\<exists>e. elems sk = [e])"
      using length_elems [OF ok] by (cases "elems sk"; cases "tl (elems sk)") auto
    then have "?q = elems sk" by auto
    then show ?thesis using r False few ok by (auto simp: elems_def stack_ok_def)
  qed
  then show ?thesis
    using comparator.ordered_qsort [OF c, of "elems sk"] by (simp add: flag_ok_def)
qed

section \<open>Copies\<close>

theorem sk_dup_spec:
  assumes m: "alloc_ok m" and ok: "stack_ok sk" and r: "sk_dup m k (Some sk) = (Some sk', k')"
  shows "stack_ok sk' \<and> elems sk' = elems sk \<and> st_comp sk' = st_comp sk \<and> st_sorted sk' = st_sorted sk"
proof -
  obtain new k1 where new: "sk_new m k (st_comp sk) = (Some new, k1)"
    using r by (auto split: prod.splits option.splits)
  have small: "st_num_alloc sk * 8 < 2 ^ 64" "4 \<le> st_num_alloc sk"
    using ok by (simp_all add: stack_ok_def sizeof_ptr_def OPENSSL_MALLOC_PREFIX_def kMinSize_def)
  then obtain b where b: "OPENSSL_realloc m k1 (Some (pointer_bytes (st_data new))) (8 * st_num_alloc sk) = (Some b, k')"
      "sk' = \<lparr>st_num = st_num sk, st_data = overwrite 0 (take (st_num sk) (st_data sk)) (pointers b),
        st_sorted = st_sorted sk, st_num_alloc = st_num_alloc sk, st_comp = st_comp sk\<rparr>"
    using r new by (auto simp: sizeof_ptr_def split: prod.splits option.splits)
  have "8 * st_num_alloc sk + OPENSSL_MALLOC_PREFIX < 2 ^ 64"
    using ok by (simp add: stack_ok_def sizeof_ptr_def mult.commute)
  from OPENSSL_realloc_Some [OF m this b(1)]
  have "length (pointers b) = st_num_alloc sk" by (simp add: length_pointers)
  then show ?thesis using ok by (auto simp: b(2) stack_ok_def elems_def overwrite_def)
qed

text \<open>The freed elements are the non-NULL ones.\<close>

lemma pop_free_loop_eq: "pop_free_loop data n = filter (\<lambda>p. p \<noteq> 0) (take n data)"
  by (induction data n rule: pop_free_loop.induct) auto

lemma deep_copy_loop_Inr:
  "deep_copy_loop copy data i n = Inr data' \<Longrightarrow> n \<le> length data \<Longrightarrow>
   length data' = length data \<and> (\<forall>j < length data. data' ! j =
     (if i \<le> j \<and> j < n \<and> data ! j \<noteq> 0 then copy j (data ! j) else data ! j)) \<and>
   (\<forall>j. i \<le> j \<and> j < n \<and> data ! j \<noteq> 0 \<longrightarrow> copy j (data ! j) \<noteq> 0)"
proof (induction copy data i n rule: deep_copy_loop.induct)
  case (1 copy data i n)
  have split: "i \<le> l \<longleftrightarrow> l = i \<or> i + 1 \<le> l" for l by linarith
  consider (stop) "\<not> i < n" | (null) "i < n" "data ! i = 0" | (copy) "i < n" "data ! i \<noteq> 0" by blast
  then show ?case
  proof cases
    case stop
    then show ?thesis using 1(3) by (subst (asm) deep_copy_loop.simps) auto
  next
    case null
    then have "deep_copy_loop copy data (i + 1) n = Inr data'"
      using 1(3) by (subst (asm) deep_copy_loop.simps) simp
    from 1(1) [OF null this 1(4)] null show ?thesis by (auto simp: split)
  next
    case copy
    let ?d = "data[i := copy i (data ! i)]"
    have nz: "?d ! i \<noteq> 0" and rec: "deep_copy_loop copy ?d (i + 1) n = Inr data'"
      using 1(3) copy by (subst (asm) deep_copy_loop.simps, auto simp: Let_def split: if_splits)+
    from 1(2) [OF copy refl nz rec] 1(4) copy nz
    show ?thesis by (auto simp: split nth_list_update)
  qed
qed

text \<open>When a copy fails, exactly the copies made so far are freed.\<close>

lemma deep_copy_loop_Inl:
  "deep_copy_loop copy data i n = Inl freed \<Longrightarrow> n \<le> length data \<Longrightarrow>
   \<exists>j. i \<le> j \<and> j < n \<and> data ! j \<noteq> 0 \<and> copy j (data ! j) = 0 \<and>
     freed = filter (\<lambda>p. p \<noteq> 0) (take i data @
       map (\<lambda>l. if data ! l = 0 then 0 else copy l (data ! l)) [i..<j])"
proof (induction copy data i n rule: deep_copy_loop.induct)
  case (1 copy data i n)
  consider (stop) "\<not> i < n" | (null) "i < n" "data ! i = 0" | (copy) "i < n" "data ! i \<noteq> 0" by blast
  then show ?case
  proof cases
    case stop
    then show ?thesis using 1(3) by (subst (asm) deep_copy_loop.simps) auto
  next
    case null
    then have "deep_copy_loop copy data (i + 1) n = Inl freed"
      using 1(3) by (subst (asm) deep_copy_loop.simps) simp
    from 1(1) [OF null this 1(4)] obtain j where j: "i + 1 \<le> j" "j < n" "data ! j \<noteq> 0" "copy j (data ! j) = 0"
        "freed = filter (\<lambda>p. p \<noteq> 0) (take (i + 1) data @ map (\<lambda>l. if data ! l = 0 then 0 else copy l (data ! l)) [i + 1..<j])"
      by blast
    have "take (i + 1) data = take i data @ [0]" using null 1(4) by (simp add: take_Suc_conv_app_nth)
    moreover have "[i..<j] = i # [i + 1..<j]" using j(1) by (simp add: upt_conv_Cons)
    ultimately show ?thesis using j null by (intro exI [of _ j]) simp
  next
    case copy
    let ?d = "data[i := copy i (data ! i)]"
    show ?thesis
    proof (cases "copy i (data ! i) = 0")
      case True
      then have "freed = filter (\<lambda>p. p \<noteq> 0) (take i data)"
        using 1(3,4) copy by (subst (asm) deep_copy_loop.simps) (simp add: Let_def pop_free_loop_eq)
      then show ?thesis using copy True by (intro exI [of _ i]) simp
    next
      case False
      then have nz: "?d ! i \<noteq> 0" and rec: "deep_copy_loop copy ?d (i + 1) n = Inl freed"
        using 1(3,4) copy by (subst (asm) deep_copy_loop.simps, auto simp: Let_def)+
      from 1(2) [OF copy refl nz rec] 1(4) obtain j where j: "i + 1 \<le> j" "j < n" "?d ! j \<noteq> 0" "copy j (?d ! j) = 0"
        "freed = filter (\<lambda>p. p \<noteq> 0) (take (i + 1) ?d @ map (\<lambda>l. if ?d ! l = 0 then 0 else copy l (?d ! l)) [i + 1..<j])"
        by auto
      have "take (i + 1) ?d = take i data @ [copy i (data ! i)]" using copy 1(4) by (simp add: take_Suc_conv_app_nth)
      moreover have "[i..<j] = i # [i + 1..<j]" using j(1) by (simp add: upt_conv_Cons)
      moreover have m: "map (\<lambda>l. if ?d ! l = 0 then 0 else copy l (?d ! l)) [i + 1..<j] =
          map (\<lambda>l. if data ! l = 0 then 0 else copy l (data ! l)) [i + 1..<j]" by (intro map_cong) auto
      ultimately show ?thesis using j copy unfolding m by (intro exI [of _ j]) simp
    qed
  qed
qed

section \<open>A last-in first-out store\<close>

locale lifo =
  fixes contents :: "'s \<Rightarrow> 'a list"
    and good :: "'s \<Rightarrow> bool"
    and push :: "'a \<Rightarrow> 's \<Rightarrow> 's option"
    and pop :: "'s \<Rightarrow> ('a \<times> 's) option"
  assumes push_contents: "good s \<Longrightarrow> push x s = Some s' \<Longrightarrow> good s' \<and> contents s' = contents s @ [x]"
    and pop_contents: "good s \<Longrightarrow> contents s = xs @ [x] \<Longrightarrow> \<exists>s'. pop s = Some (x, s') \<and> good s' \<and> contents s' = xs"
    and pop_empty: "good s \<Longrightarrow> contents s = [] \<Longrightarrow> pop s = None"
begin

fun push_all :: "'a list \<Rightarrow> 's \<Rightarrow> 's option" where
  "push_all [] s = Some s"
| "push_all (x # xs) s = (case push x s of None \<Rightarrow> None | Some s \<Rightarrow> push_all xs s)"

fun pop_all :: "nat \<Rightarrow> 's \<Rightarrow> ('a list \<times> 's) option" where
  "pop_all 0 s = Some ([], s)"
| "pop_all (Suc n) s =
     (case pop s of None \<Rightarrow> None
      | Some (x, s) \<Rightarrow> (case pop_all n s of None \<Rightarrow> None | Some (xs, s) \<Rightarrow> Some (x # xs, s)))"

lemma push_all_contents: "good s \<Longrightarrow> push_all xs s = Some s' \<Longrightarrow> good s' \<and> contents s' = contents s @ xs"
  by (induction xs arbitrary: s) (auto dest: push_contents split: option.splits)

lemma pop_all_contents:
  "good s \<Longrightarrow> contents s = ys @ xs \<Longrightarrow> \<exists>s'. pop_all (length xs) s = Some (rev xs, s') \<and> good s' \<and> contents s' = ys"
proof (induction xs arbitrary: s rule: rev_induct)
  case (snoc x xs)
  obtain s1 where s1: "pop s = Some (x, s1)" "good s1" "contents s1 = ys @ xs"
    using pop_contents [of s "ys @ xs" x] snoc.prems by auto
  from snoc.IH [OF this(2,3)] s1(1) show ?case by auto
qed auto

lemma push_then_pop:
  assumes "good s" and "push_all xs s = Some s'"
  shows "\<exists>s''. pop_all (length xs) s' = Some (rev xs, s'') \<and> good s'' \<and> contents s'' = contents s"
  using pop_all_contents push_all_contents [OF assms] by blast

end

text \<open>The stack with the allocator it grows with.\<close>

fun stack_good :: "allocator \<times> nat \<times> stack_st \<Rightarrow> bool" where
  "stack_good (m, k, sk) \<longleftrightarrow> alloc_ok m \<and> stack_ok sk"

fun push_stack :: "ptr \<Rightarrow> allocator \<times> nat \<times> stack_st \<Rightarrow> (allocator \<times> nat \<times> stack_st) option" where
  "push_stack p (m, k, sk) =
     (case sk_push m k (Some sk) p of
        (n, Some sk, k) \<Rightarrow> if n = 0 then None else Some (m, k, sk)
      | _ \<Rightarrow> None)"

fun pop_stack :: "allocator \<times> nat \<times> stack_st \<Rightarrow> (ptr \<times> allocator \<times> nat \<times> stack_st) option" where
  "pop_stack (m, k, sk) =
     (if sk_num (Some sk) = 0 then None
      else case sk_pop (Some sk) of (p, Some sk) \<Rightarrow> Some (p, m, k, sk) | _ \<Rightarrow> None)"

interpretation sk: lifo "\<lambda>(m, k, sk). elems sk" stack_good push_stack pop_stack
proof unfold_locales
  fix s s' :: "allocator \<times> nat \<times> stack_st" and x
  assume g: "stack_good s" and p: "push_stack x s = Some s'"
  obtain m k sk where s: "s = (m, k, sk)" by (cases s)
  obtain n sk' k' where i: "sk_insert m k (Some sk) x (st_num sk) = (n, Some sk', k')" "n \<noteq> 0" "s' = (m, k', sk')"
    using p by (auto simp: s sk_push_def split: prod.splits option.splits if_splits)
  have "alloc_ok m" "stack_ok sk" using g by (simp_all add: s)
  from sk_insert_spec [OF this i(1)] i(2) length_elems [OF this(2)]
  show "stack_good s' \<and> (case s' of (m, k, sk) \<Rightarrow> elems sk) = (case s of (m, k, sk) \<Rightarrow> elems sk) @ [x]"
    using g by (simp add: s i(3))
next
  fix s :: "allocator \<times> nat \<times> stack_st" and xs x
  assume g: "stack_good s" and c: "(case s of (m, k, sk) \<Rightarrow> elems sk) = xs @ [x]"
  obtain m k sk where s: "s = (m, k, sk)" by (cases s)
  have ok: "stack_ok sk" and e: "elems sk = xs @ [x]" using g c by (simp_all add: s)
  have n: "st_num sk = Suc (length xs)" using length_elems [OF ok] e by simp
  obtain p sk' where d: "sk_delete (Some sk) (length xs) = (p, Some sk')"
    using n by (auto simp: Let_def)
  from sk_delete_spec [OF ok d] e n
  show "\<exists>s'. pop_stack s = Some (x, s') \<and> stack_good s' \<and> (case s' of (m, k, sk) \<Rightarrow> elems sk) = xs"
    using g d by (simp add: s)
next
  fix s :: "allocator \<times> nat \<times> stack_st"
  assume g: "stack_good s" and c: "(case s of (m, k, sk) \<Rightarrow> elems sk) = []"
  then show "pop_stack s = None" using length_elems by (cases s) fastforce
qed

end
