(* ===== verification/UtilProperties.thy ===== *)
theory UtilProperties
  imports Base64Stream StackSpec Concrete
begin

text \<open>
  The properties of the base64 codec, the constant-time primitives, the memory helpers and the pointer
  stack, each with an instance at a concrete input.
\<close>

section \<open>Base64\<close>

text \<open>C17: \<open>EVP_EncodeBlock\<close> writes the base64 text of its input (RFC 4648, the reference \<open>base64\<close>), in
  spite of its constant-time character arithmetic, then a NUL, and returns the length of the text.\<close>

theorem encode_block_is_base64:
  assumes "length src < 2 ^ 62"
  shows "EVP_EncodeBlock src = (base64 src @ [0], length (base64 src))"
  by (rule encode_block_eq [OF assms])

theorem encode_block_is_base64_witness:
  "EVP_EncodeBlock [77, 97] = ([84, 87, 69, 61, 0], 4)"
proof -
  have "base64 [77, 97] = [84, 87, 69, 61]" by code_simp
  with encode_block_is_base64 [of "[77, 97]"] show ?thesis by (simp del: base64.simps)
qed

text \<open>C18: \<open>EVP_DecodeBase64\<close> inverts \<open>EVP_EncodeBlock\<close>, for every input and every sufficient output size.\<close>

theorem base64_roundtrip:
  assumes "length src < 2 ^ 62" and "(length src + 2) div 3 * 3 \<le> max_out" and "EVP_EncodeBlock src = (out, n)"
  shows "EVP_DecodeBase64 max_out (take n out) = Some src"
  using encode_block_eq [OF assms(1)] assms(3) decode_base64_enc [OF assms(2)] by auto

theorem base64_roundtrip_witness:
  "EVP_DecodeBase64 3 [84, 87, 69, 61] = Some [77, 97]"
proof -
  have "EVP_EncodeBlock [77, 97] = ([84, 87, 69, 61, 0], 4)" by code_simp
  from base64_roundtrip [OF _ _ this, of 3] show ?thesis by simp
qed

text \<open>The streaming encoder does not depend on how its input is cut into chunks: initialised, updated
  chunk by chunk and finished, it writes the concatenation as lines of 64 characters.\<close>

theorem encode_stream_chunks:
  assumes "\<forall>c \<in> set cs. length c < 2 ^ 30"
  shows "encode_run EVP_EncodeInit cs = b64_lines (concat cs)"
proof -
  have "enc_ok EVP_EncodeInit" "held EVP_EncodeInit = []"
    by (simp_all add: EVP_EncodeInit_def enc_ok_def held_def)
  then show ?thesis using encode_run_eq [of EVP_EncodeInit cs] assms by auto
qed

theorem encode_stream_chunks_witness:
  "encode_run EVP_EncodeInit [[77], [], [97]] = [84, 87, 69, 61, 10]"
proof -
  have "b64_lines [77, 97] = [84, 87, 69, 61, 10]" by code_simp
  with encode_stream_chunks [of "[[77], [], [97]]"] show ?thesis by simp
qed

text \<open>C19: The streaming decoder, fed the streaming encoder's output in any other chunks, gives back the
  original data and ends without an error.\<close>

theorem stream_roundtrip:
  assumes "\<forall>c \<in> set cs. length c < 2 ^ 30" and "\<forall>d \<in> set ds. length d < 2 ^ 30"
    and "concat ds = encode_run EVP_EncodeInit cs"
  shows "decode_run EVP_DecodeInit ds = Some (concat cs)"
proof -
  have "enc_ok EVP_EncodeInit" "held EVP_EncodeInit = []"
    by (simp_all add: EVP_EncodeInit_def enc_ok_def held_def)
  then have "concat ds = b64_lines (concat cs)"
    using assms(1,3) encode_run_eq [of EVP_EncodeInit cs] by auto
  then show ?thesis using decode_run_lines [of ds "concat cs"] assms(2) strip_lines by simp
qed

theorem stream_roundtrip_witness:
  "decode_run EVP_DecodeInit [[84, 87], [69, 61, 10]] = Some [77, 97]"
proof -
  have "concat [[84, 87], [69, 61, 10]] = encode_run EVP_EncodeInit [[77], [97]]" by code_simp
  from stream_roundtrip [OF _ _ this] show ?thesis by simp
qed

text \<open>\<open>EVP_EncodedLength\<close> is exactly the space that \<open>EVP_EncodeBlock\<close> needs, and it reports an
  overflow if and only if that space does not fit in a \<open>size_t\<close>.\<close>

theorem encoded_length_exact:
  assumes "len < 2 ^ 64"
  shows "(EVP_EncodedLength len = None \<longleftrightarrow> 2 ^ 64 \<le> (len + 2) div 3 * 4 + 1) \<and>
    (length src = len \<and> len < 2 ^ 62 \<longrightarrow> EVP_EncodedLength len = Some (length (fst (EVP_EncodeBlock src))))"
proof (intro conjI impI; (elim conjE)?)
  show "EVP_EncodedLength len = None \<longleftrightarrow> 2 ^ 64 \<le> (len + 2) div 3 * 4 + 1"
    using encoded_length_eq [OF assms] by auto
  assume s: "length src = len" "len < 2 ^ 62"
  then have "(len + 2) div 3 * 4 + 1 < 2 ^ 64" by simp
  then show "EVP_EncodedLength len = Some (length (fst (EVP_EncodeBlock src)))"
    using encoded_length_eq [OF assms] encode_block_eq [of src] s by (simp add: length_base64)
qed

theorem encoded_length_exact_witness:
  "EVP_EncodedLength 2 = Some 5 \<and> EVP_EncodedLength (2 ^ 64 - 1) = None"
proof -
  have b: "base64 [77, 97] = [84, 87, 69, 61]" by code_simp
  have "EVP_EncodedLength 2 = Some 5"
    using encoded_length_exact [of 2 "[77, 97]"] encode_block_eq [of "[77, 97]"] b by (simp del: base64.simps)
  moreover have "EVP_EncodedLength (2 ^ 64 - 1) = None"
    using encoded_length_exact [of "2 ^ 64 - 1"] by simp
  ultimately show ?thesis by blast
qed

text \<open>\<open>EVP_DecodeBase64\<close> never writes more than \<open>max_out\<close> bytes, whatever the input.\<close>

lemma decode_loop_length: "decode_base64_loop inp = Some out \<Longrightarrow> length out \<le> length inp div 4 * 3"
proof (induction inp arbitrary: out rule: decode_base64_loop.induct)
  case (1 a b c d inp)
  then obtain bs r where "base64_decode_quad a b c d = Some bs" "decode_base64_loop inp = Some r" "out = bs @ r"
    by (auto split: option.splits if_splits)
  moreover have "length (a # b # c # d # inp) div 4 = Suc (length inp div 4)" by simp
  ultimately show ?case using 1 decode_quad_length [of a b c d bs] by (auto split: if_splits)
qed auto

theorem decode_within_bounds:
  assumes "EVP_DecodeBase64 max_out inp = Some out"
  shows "length out \<le> max_out"
  using assms decode_loop_length [of inp out]
  by (auto simp: EVP_DecodeBase64_def EVP_DecodedLength_def split: if_splits)

theorem decode_within_bounds_witness:
  "length (the (EVP_DecodeBase64 3 (base64 [77, 97]))) \<le> 3"
proof -
  have d: "EVP_DecodeBase64 3 (base64 [77, 97]) = Some [77, 97]" by (rule decode_base64_enc) simp
  from decode_within_bounds [OF this] show ?thesis unfolding d by simp
qed

section \<open>Constant time\<close>

text \<open>C20: The branch-free comparisons of \<open>crypto/internal.h\<close> give masks with which the branch-free selections
  choose as a conditional expression does, for every pair of words compared and every pair of values to choose
  from: words, bytes and \<open>int\<close>s, the comparisons of \<open>int\<close>s included.\<close>

theorem constant_time_equivalence:
  "constant_time_select_w (constant_time_lt_w a b) x y = (if a < b then x else y) \<and>
   constant_time_select_w (constant_time_ge_w a b) x y = (if a \<ge> b then x else y) \<and>
   constant_time_select_w (constant_time_eq_w a b) x y = (if a = b then x else y) \<and>
   constant_time_select_w (constant_time_is_zero_w a) x y = (if a = 0 then x else y) \<and>
   constant_time_select_w (constant_time_eq_int i j) x y = (if i = j then x else y) \<and>
   constant_time_select_8 (constant_time_lt_8 a b) p q = (if a < b then p else q) \<and>
   constant_time_select_8 (constant_time_ge_8 a b) p q = (if a \<ge> b then p else q) \<and>
   constant_time_select_8 (constant_time_eq_8 a b) p q = (if a = b then p else q) \<and>
   constant_time_select_8 (constant_time_is_zero_8 a) p q = (if a = 0 then p else q) \<and>
   constant_time_select_8 (constant_time_eq_int_8 i j) p q = (if i = j then p else q) \<and>
   constant_time_select_int (constant_time_lt_w a b) k l = (if a < b then k else l) \<and>
   constant_time_select_int (constant_time_eq_int i j) k l = (if i = j then k else l)"
  by (auto simp: ct)

text \<open>\<open>CRYPTO_memcmp\<close> returns zero exactly when the two regions hold the same bytes; it looks at
  every byte, with no early exit.\<close>

theorem memcmp_equal:
  assumes "len \<le> length a" and "len \<le> length b"
  shows "CRYPTO_memcmp a b len = 0 \<longleftrightarrow> take len a = take len b"
  using memcmp_loop_0 [of "take len a" "take len b" 0] assms by (simp add: CRYPTO_memcmp_def)

theorem memcmp_equal_witness: "CRYPTO_memcmp [1, 2, 3] [1, 2, 4] 2 = 0 \<and> CRYPTO_memcmp [1, 2, 3] [1, 2, 4] 3 \<noteq> 0"
  using memcmp_equal [of 2 "[1, 2, 3]" "[1, 2, 4]"] memcmp_equal [of 3 "[1, 2, 3]" "[1, 2, 4]"] by simp

text \<open>\<open>OPENSSL_malloc\<close> does not check the addition of its header: for the eight largest sizes it asks
  the C library for fewer than eight bytes and returns a pointer behind that block.\<close>

theorem malloc_wraps:
  assumes "2 ^ 64 - OPENSSL_MALLOC_PREFIX \<le> sz" and "sz < 2 ^ 64" and "m k (sz + OPENSSL_MALLOC_PREFIX - 2 ^ 64) = Some b"
  shows "OPENSSL_malloc m k sz = (Some (drop OPENSSL_MALLOC_PREFIX b), Suc k) \<and>
    (alloc_ok m \<longrightarrow> length b < OPENSSL_MALLOC_PREFIX)"
proof (intro conjI impI)
  have "szadd sz OPENSSL_MALLOC_PREFIX = sz + OPENSSL_MALLOC_PREFIX - 2 ^ 64"
    using assms(1,2) by (simp add: szadd_def OPENSSL_MALLOC_PREFIX_def mod_if)
  then show "OPENSSL_malloc m k sz = (Some (drop OPENSSL_MALLOC_PREFIX b), Suc k)"
    using assms(3) by (simp add: OPENSSL_malloc_def)
  show "length b < OPENSSL_MALLOC_PREFIX" if "alloc_ok m"
    using alloc_ok_length [OF that assms(3)] assms(1,2) by (simp add: OPENSSL_MALLOC_PREFIX_def)
qed

theorem malloc_wraps_witness: "OPENSSL_malloc zeroed 0 (2 ^ 64 - 1) = (Some [], 1)"
  using malloc_wraps [of "2 ^ 64 - 1" zeroed 0 "replicate 7 0"]
  by (simp add: OPENSSL_MALLOC_PREFIX_def zeroed_def)

end
