(* ===== verification/StackProperties.thy ===== *)
theory StackProperties
  imports StackSpec Concrete
begin

text \<open>
  The properties of the pointer stack of \<open>crypto/stack/stack.c\<close>, each with an instance at a concrete
  stack.
\<close>

definition two_elements :: stack_st where
  "two_elements = \<lparr>st_num = 2, st_data = [30, 10, 0, 0], st_sorted = False, st_num_alloc = 4, st_comp = 7\<rparr>"

lemma two_elements_ok: "stack_ok two_elements" and two_elements_elems: "elems two_elements = [30, 10]"
  and two_elements_flag: "flag_ok call two_elements"
  by (simp_all add: two_elements_def stack_ok_def elems_def flag_ok_def kMinSize_def sizeof_ptr_def OPENSSL_MALLOC_PREFIX_def)

text \<open>C21: \<open>sk_insert\<close> inserts at the position (at the end if it is past the end), returns the new length and
  marks the stack unsorted; growing the array on the way does not disturb the elements; if there is no
  memory it returns 0 and the stack is unchanged. The representation invariant is kept.\<close>

theorem insert_functional:
  assumes "alloc_ok m" and "stack_ok sk" and "sk_insert m k (Some sk) p pos = (n, Some sk', k')"
  shows "stack_ok sk' \<and> st_comp sk' = st_comp sk \<and>
    (if n = 0 then sk' = sk
     else elems sk' = take pos (elems sk) @ p # drop pos (elems sk) \<and> n = length (elems sk') \<and> \<not> st_sorted sk')"
  by (rule sk_insert_spec [OF assms])

theorem insert_functional_witness:
  "elems (the (fst (snd (sk_insert zeroed 0 (Some two_elements) 5 1)))) = [30, 5, 10]"
proof -
  define r where "r = sk_insert zeroed 0 (Some two_elements) 5 1"
  have "fst r = 3" "fst (snd r) \<noteq> None" unfolding r_def by code_simp+
  then have "sk_insert zeroed 0 (Some two_elements) 5 1 = (3, Some (the (fst (snd r))), snd (snd r))"
    unfolding r_def [symmetric] by (metis option.collapse prod.collapse)
  from insert_functional [OF zeroed_ok two_elements_ok this] show ?thesis
    by (simp add: two_elements_elems r_def)
qed

text \<open>When memory is there, \<open>sk_insert\<close> does not fail.\<close>

theorem insert_succeeds:
  assumes "stack_ok sk" and "alloc_avail m limit" and "limit < 2 ^ 63" and "16 * st_num_alloc sk + OPENSSL_MALLOC_PREFIX \<le> limit"
  shows "fst (sk_insert m k (Some sk) p pos) \<noteq> 0"
  by (rule sk_insert_live [OF assms])

theorem insert_succeeds_witness: "fst (sk_insert zeroed 0 (Some two_elements) 5 9) \<noteq> 0"
  by (rule insert_succeeds [OF two_elements_ok zeroed_avail])
    (simp_all add: two_elements_def OPENSSL_MALLOC_PREFIX_def)

text \<open>\<open>sk_delete\<close> removes and returns the element at the position, keeps the order of the others (and
  the sorted mark), and does nothing past the end.\<close>

theorem delete_functional:
  assumes "stack_ok sk" and "sk_delete (Some sk) pos = (p, Some sk')"
  shows "stack_ok sk' \<and> st_comp sk' = st_comp sk \<and> st_sorted sk' = st_sorted sk \<and>
    (if pos < length (elems sk)
     then p = elems sk ! pos \<and> elems sk' = take pos (elems sk) @ drop (Suc pos) (elems sk)
     else p = 0 \<and> sk' = sk)"
  by (rule sk_delete_spec [OF assms])

theorem delete_functional_witness:
  "fst (sk_delete (Some two_elements) 0) = 30 \<and> elems (the (snd (sk_delete (Some two_elements) 0))) = [10]"
proof -
  define r where "r = sk_delete (Some two_elements) 0"
  have "snd r \<noteq> None" unfolding r_def by code_simp
  then have "sk_delete (Some two_elements) 0 = (fst r, Some (the (snd r)))"
    unfolding r_def [symmetric] by (metis option.collapse prod.collapse)
  from delete_functional [OF two_elements_ok this] show ?thesis
    by (simp add: two_elements_elems r_def)
qed

text \<open>C22: \<open>sk_find\<close> returns the first matching index, by binary search when the stack is sorted exactly as
  by the linear search; \<open>call\<close> is the client's comparison, which has to be a total preorder, and the
  sorted mark has to be truthful.\<close>

theorem find_first:
  assumes "comparator (call (st_comp sk))" and "stack_ok sk" and "flag_ok call sk"
  shows "sk_find call (Some sk) p = Some i \<longleftrightarrow>
    i < length (elems sk) \<and> matches call sk p (elems sk ! i) \<and> (\<forall>j < i. \<not> matches call sk p (elems sk ! j))"
  by (rule sk_find_spec [OF assms])

theorem find_first_witness: "sk_find by_address (Some two_elements) 10 = Some 1"
proof -
  have m: "matches by_address two_elements p e \<longleftrightarrow> e = p" if "p \<noteq> 0" for p e
    using that by (auto simp: matches_def two_elements_def by_address_def)
  show ?thesis
    by (subst find_first [OF by_address_comparator two_elements_ok two_elements_flag])
      (simp add: m two_elements_elems less_Suc_eq)
qed

text \<open>C23: \<open>sk_sort\<close> permutes the elements into the order of the comparison function and marks the stack;
  sorting first does not change whether \<open>sk_find\<close> finds a match.\<close>

theorem sort_then_find:
  assumes "comparator (call (st_comp sk))" and "stack_ok sk" and "flag_ok call sk" and "st_comp sk \<noteq> 0"
    and "sk_sort call (Some sk) = Some sk'"
  shows "mset (elems sk') = mset (elems sk) \<and> comparator.ordered (call (st_comp sk)) (elems sk') \<and> st_sorted sk' \<and>
    stack_ok sk' \<and> flag_ok call sk' \<and>
    ((\<exists>i. sk_find call (Some sk') p = Some i) \<longleftrightarrow> (\<exists>i. sk_find call (Some sk) p = Some i))"
proof -
  note s = sk_sort_spec [OF assms(1-3,5)]
  have comp: "st_comp sk' = st_comp sk" using assms(5) by (auto simp: Let_def split: if_splits)
  have sorted: "mset (elems sk') = mset (elems sk)" "comparator.ordered (call (st_comp sk)) (elems sk')" "st_sorted sk'"
    and ok: "stack_ok sk' \<and> flag_ok call sk'"
    using s assms(4) by auto
  have ex: "(\<exists>i. sk_find call (Some s) p = Some i) \<longleftrightarrow> (\<exists>e \<in> set (elems s). matches call sk p e)"
    if "stack_ok s" "flag_ok call s" "st_comp s = st_comp sk" for s
  proof -
    have m: "matches call s = matches call sk" using that(3) by (simp add: matches_def fun_eq_iff)
    have iff: "sk_find call (Some s) p = Some i \<longleftrightarrow> i < length (elems s) \<and> matches call sk p (elems s ! i) \<and>
        (\<forall>j < i. \<not> matches call sk p (elems s ! j))" for i
      using sk_find_spec [of call s p i] assms(1) that m by simp
    show ?thesis
    proof
      assume "\<exists>i. sk_find call (Some s) p = Some i"
      then show "\<exists>e \<in> set (elems s). matches call sk p e" unfolding iff by (metis nth_mem)
    next
      assume "\<exists>e \<in> set (elems s). matches call sk p e"
      then obtain j where j: "j < length (elems s) \<and> matches call sk p (elems s ! j)" by (auto simp: in_set_conv_nth)
      define i where "i = (LEAST j. j < length (elems s) \<and> matches call sk p (elems s ! j))"
      have "i < length (elems s) \<and> matches call sk p (elems s ! i)" unfolding i_def
        by (rule LeastI [where P = "\<lambda>j. j < length (elems s) \<and> matches call sk p (elems s ! j)", OF j])
      moreover have "\<not> matches call sk p (elems s ! l)" if "l < i" for l
        using not_less_Least [OF that [unfolded i_def]] that calculation by (meson order.strict_trans)
      ultimately show "\<exists>i. sk_find call (Some s) p = Some i" unfolding iff by blast
    qed
  qed
  have "set (elems sk') = set (elems sk)" using s by (metis set_mset_mset)
  then have "(\<exists>i. sk_find call (Some sk') p = Some i) \<longleftrightarrow> (\<exists>i. sk_find call (Some sk) p = Some i)"
    using ex [of sk] ex [of sk'] assms(2,3) ok comp by simp
  then show ?thesis using sorted ok by blast
qed

theorem sort_then_find_witness:
  "mset (elems (the (sk_sort by_address (Some two_elements)))) = {#10, 30#}"
proof -
  have "sk_sort by_address (Some two_elements) \<noteq> None" by code_simp
  then have s: "sk_sort by_address (Some two_elements) = Some (the (sk_sort by_address (Some two_elements)))" by simp
  have c: "st_comp two_elements \<noteq> 0" by (simp add: two_elements_def)
  from sort_then_find [OF by_address_comparator two_elements_ok two_elements_flag c s, THEN conjunct1]
  show ?thesis by (simp only: two_elements_elems) simp
qed

text \<open>Pushing a sequence of elements and popping as many gives them back in reverse order and leaves
  the stack's contents as before.\<close>

theorem push_pop_lifo:
  assumes "alloc_ok m" and "stack_ok s" and "sk.push_all ps (m, k, s) = Some t"
  shows "\<exists>m' k' s'. sk.pop_all (length ps) t = Some (rev ps, m', k', s') \<and> stack_ok s' \<and> elems s' = elems s"
proof -
  have "stack_good (m, k, s)" using assms(1,2) by simp
  from sk.push_then_pop [OF this assms(3)] show ?thesis by force
qed

theorem push_pop_lifo_witness:
  "\<exists>t m' k' s'. sk.push_all [1, 2, 3] (zeroed, 0, two_elements) = Some t \<and> sk.pop_all 3 t = Some ([3, 2, 1], m', k', s') \<and>
     elems s' = [30, 10]"
proof -
  have "\<not> Option.is_none (sk.push_all [1, 2, 3] (zeroed, 0, two_elements))"
    unfolding sk.push_all.simps by code_simp
  then obtain t where t: "sk.push_all [1, 2, 3] (zeroed, 0, two_elements) = Some t"
    by (cases "sk.push_all [1, 2, 3] (zeroed, 0, two_elements)") auto
  from push_pop_lifo [OF zeroed_ok two_elements_ok t] show ?thesis
    using t by (auto simp: two_elements_elems numeral_3_eq_3 simp del: sk.push_all.simps sk.pop_all.simps)
qed

lemma pop_free_loop_code [code]:
  "pop_free_loop data n =
     (if n = 0 then [] else case data of [] \<Rightarrow> []
      | p # data \<Rightarrow> if p \<noteq> 0 then p # pop_free_loop data (n - 1) else pop_free_loop data (n - 1))"
  by (cases n; cases data) simp_all

text \<open>C24: \<open>sk_deep_copy\<close> either copies every non-NULL element, or, when the copy function fails at some
  element, frees exactly the copies made before it; nothing is leaked and nothing else is freed.\<close>

theorem deep_copy_all_or_freed:
  assumes "alloc_ok m" and "stack_ok sk" and "sk_deep_copy m k copy (Some sk) = ((r, freed), k')"
  shows "case r of
      Some sk' \<Rightarrow> freed = [] \<and> length (elems sk') = length (elems sk) \<and>
        (\<forall>j < length (elems sk). elems sk ! j = 0 \<and> elems sk' ! j = 0 \<or>
           elems sk ! j \<noteq> 0 \<and> elems sk' ! j = copy j (elems sk ! j) \<and> elems sk' ! j \<noteq> 0)
    | None \<Rightarrow> fst (sk_dup m k (Some sk)) = None \<and> freed = [] \<or>
        (\<exists>j < length (elems sk). elems sk ! j \<noteq> 0 \<and> copy j (elems sk ! j) = 0 \<and>
           freed = filter (\<lambda>p. p \<noteq> 0) (map (\<lambda>l. if elems sk ! l = 0 then 0 else copy l (elems sk ! l)) [0..<j]))"
proof (cases "sk_dup m k (Some sk)")
  case (Pair d k'')
  show ?thesis
  proof (cases d)
    case None
    then show ?thesis using assms(3) Pair by (simp add: sk_deep_copy_def)
  next
    case (Some ret)
    have ret: "stack_ok ret" "elems ret = elems sk"
      using sk_dup_spec [OF assms(1,2) Pair [unfolded Some]] by auto
    have len: "st_num ret = length (elems sk)" "st_num ret \<le> length (st_data ret)"
      using length_elems [OF ret(1)] ret by (auto simp: stack_ok_def)
    have nth: "st_data ret ! j = elems sk ! j" if "j < length (elems sk)" for j
      using that len ret(2) by (metis elems_def nth_take)
    show ?thesis
    proof (cases "deep_copy_loop copy (st_data ret) 0 (st_num ret)")
      case (Inl f)
      then have r: "r = None" "freed = f" using assms(3) Pair Some by (auto simp: sk_deep_copy_def)
      from deep_copy_loop_Inl [OF Inl len(2)] obtain j where j: "j < st_num ret" "st_data ret ! j \<noteq> 0"
          "copy j (st_data ret ! j) = 0"
          "f = filter (\<lambda>p. p \<noteq> 0) (map (\<lambda>l. if st_data ret ! l = 0 then 0 else copy l (st_data ret ! l)) [0..<j])"
        by auto
      have maps: "map (\<lambda>l. if st_data ret ! l = 0 then 0 else copy l (st_data ret ! l)) [0..<j] =
          map (\<lambda>l. if elems sk ! l = 0 then 0 else copy l (elems sk ! l)) [0..<j]"
        using j(1) len(1) nth by (intro map_cong) auto
      have "freed = filter (\<lambda>p. p \<noteq> 0) (map (\<lambda>l. if elems sk ! l = 0 then 0 else copy l (elems sk ! l)) [0..<j])"
        unfolding r(2) j(4) maps by (rule refl)
      moreover have "j < length (elems sk) \<and> elems sk ! j \<noteq> 0 \<and> copy j (elems sk ! j) = 0"
        using j(1-3) len(1) nth [of j] by simp
      ultimately have "\<exists>j < length (elems sk). elems sk ! j \<noteq> 0 \<and> copy j (elems sk ! j) = 0 \<and>
          freed = filter (\<lambda>p. p \<noteq> 0) (map (\<lambda>l. if elems sk ! l = 0 then 0 else copy l (elems sk ! l)) [0..<j])"
        by blast
      then show ?thesis unfolding r(1) option.case by blast
    next
      case (Inr data)
      then have r: "r = Some (ret\<lparr>st_data := data\<rparr>)" "freed = []" using assms(3) Pair Some by (auto simp: sk_deep_copy_def)
      from deep_copy_loop_Inr [OF Inr len(2)] have d: "length data = length (st_data ret)"
          "\<forall>j < length (st_data ret). data ! j =
             (if 0 \<le> j \<and> j < st_num ret \<and> st_data ret ! j \<noteq> 0 then copy j (st_data ret ! j) else st_data ret ! j)"
          "\<forall>j. 0 \<le> j \<and> j < st_num ret \<and> st_data ret ! j \<noteq> 0 \<longrightarrow> copy j (st_data ret ! j) \<noteq> 0" by auto
      have e: "elems (ret\<lparr>st_data := data\<rparr>) = take (length (elems sk)) data" using len(1) by (simp add: elems_def)
      have "elems sk ! j = 0 \<and> data ! j = 0 \<or> elems sk ! j \<noteq> 0 \<and> data ! j = copy j (elems sk ! j) \<and> data ! j \<noteq> 0"
        if "j < length (elems sk)" for j
        using d(2,3) that len nth [OF that] by auto
      then show ?thesis using r d(1) len by (simp add: e)
    qed
  qed
qed

theorem deep_copy_all_or_freed_witness:
  "snd (fst (sk_deep_copy zeroed 0 (\<lambda>i p. if i = 1 then 0 else p + 1) (Some two_elements))) = [31]"
proof -
  define c :: "nat \<Rightarrow> ptr \<Rightarrow> ptr" where "c = (\<lambda>i p. if i = 1 then 0 else p + 1)"
  define r where "r = sk_deep_copy zeroed 0 c (Some two_elements)"
  have none: "fst (fst r) = None" "fst (sk_dup zeroed 0 (Some two_elements)) \<noteq> None" unfolding r_def c_def by code_simp+
  then have "sk_deep_copy zeroed 0 c (Some two_elements) = ((None, snd (fst r)), snd r)"
    unfolding r_def [symmetric] by (metis prod.collapse)
  from deep_copy_all_or_freed [OF zeroed_ok two_elements_ok this] none
  show ?thesis unfolding r_def [unfolded c_def, symmetric]
    by (auto simp: two_elements_elems c_def less_Suc_eq)
qed

end
