(* ===== verification/Lhash.thy ===== *)
theory Lhash
  imports Mem
begin

text \<open>
  \<open>crypto/lhash/lhash.c\<close>: a chained hash table of pointers that grows and shrinks. A chain is the list of
  its items, so that the \<open>next\<close> pointer of an item is its successor in the list; the block of an item is
  identified by the number of the allocation that made it, which is what the walk of \<open>lh_doall_arg\<close>
  keeps across a callback. The hash and the comparison functions are pointers as well, and the parameters
  \<open>call_hash\<close> and \<open>call_cmp\<close> say what the functions they point to return.
\<close>

record lhash_item =
  li_data :: ptr
  li_hash :: u32
  li_addr :: nat

record lhash_st =
  ht_num_items :: nat
  ht_buckets :: "lhash_item list list"
  ht_num_buckets :: nat
  ht_callback_depth :: nat
  ht_comp :: ptr
  ht_hash :: ptr

definition kMinNumBuckets :: nat where
  "kMinNumBuckets = 16"

definition kMaxAverageChainLength :: nat where
  "kMaxAverageChainLength = 2"

definition kMinAverageChainLength :: nat where
  "kMinAverageChainLength = 1"

definition sizeof_LHASH :: nat where
  "sizeof_LHASH = 48"

definition sizeof_LHASH_ITEM :: nat where
  "sizeof_LHASH_ITEM = 24"

definition sizeof_LHASH_ITEM_ptr :: nat where
  "sizeof_LHASH_ITEM_ptr = 8"

definition lh_new :: "allocator \<Rightarrow> nat \<Rightarrow> ptr \<Rightarrow> ptr \<Rightarrow> lhash_st option \<times> nat" where
  "lh_new m k hash cmp =
     (case OPENSSL_malloc m k sizeof_LHASH of
        (None, k) \<Rightarrow> (None, k)
      | (Some _, k) \<Rightarrow>
          (case OPENSSL_malloc m k (sizeof_LHASH_ITEM_ptr * kMinNumBuckets) of
             (None, k) \<Rightarrow> (None, k)
           | (Some _, k) \<Rightarrow>
               (Some \<lparr>ht_num_items = 0, ht_buckets = replicate kMinNumBuckets [],
                      ht_num_buckets = kMinNumBuckets, ht_callback_depth = 0,
                      ht_comp = cmp, ht_hash = hash\<rparr>, k)))"

text \<open>The items that \<open>lh_free\<close> frees, in order.\<close>

fun lh_free :: "lhash_st option \<Rightarrow> nat list" where
  "lh_free None = []"
| "lh_free (Some lh) = map li_addr (concat (take (ht_num_buckets lh) (ht_buckets lh)))"

definition lh_num_items :: "lhash_st \<Rightarrow> nat" where
  "lh_num_items lh = ht_num_items lh"

section \<open>Searching\<close>

text \<open>A pointer to a pointer to an item is the bucket and the position in its chain: the position 0 is the
  element of \<open>buckets\<close>, a later one the \<open>next\<close> field of the item before it; the position after the last
  item holds NULL.\<close>

type_synonym next_ptr = "nat \<times> nat"

fun chain_pos :: "(lhash_item \<Rightarrow> bool) \<Rightarrow> lhash_item list \<Rightarrow> nat" where
  "chain_pos test [] = 0"
| "chain_pos test (cur # chain) = (if test cur then 0 else Suc (chain_pos test chain))"

fun next_item :: "lhash_st \<Rightarrow> next_ptr \<Rightarrow> lhash_item option" where
  "next_item lh (b, i) =
     (if i < length (ht_buckets lh ! b) then Some (ht_buckets lh ! b ! i) else None)"

definition get_next_ptr_and_hash ::
  "(ptr \<Rightarrow> ptr \<Rightarrow> u32) \<Rightarrow> (ptr \<Rightarrow> ptr \<Rightarrow> ptr \<Rightarrow> int) \<Rightarrow> lhash_st \<Rightarrow> ptr \<Rightarrow> u32 \<times> next_ptr" where
  "get_next_ptr_and_hash call_hash call_cmp lh data =
     (let hash = call_hash (ht_hash lh) data;
          b = unat hash mod ht_num_buckets lh
      in (hash, b, chain_pos (\<lambda>cur. call_cmp (ht_comp lh) (li_data cur) data = 0) (ht_buckets lh ! b)))"

definition get_next_ptr_by_key :: "lhash_st \<Rightarrow> 'key \<Rightarrow> u32 \<Rightarrow> ('key \<Rightarrow> ptr \<Rightarrow> int) \<Rightarrow> next_ptr" where
  "get_next_ptr_by_key lh key key_hash cmp_key =
     (let b = unat key_hash mod ht_num_buckets lh
      in (b, chain_pos (\<lambda>cur. cmp_key key (li_data cur) = 0) (ht_buckets lh ! b)))"

definition lh_retrieve ::
  "(ptr \<Rightarrow> ptr \<Rightarrow> u32) \<Rightarrow> (ptr \<Rightarrow> ptr \<Rightarrow> ptr \<Rightarrow> int) \<Rightarrow> lhash_st \<Rightarrow> ptr \<Rightarrow> ptr" where
  "lh_retrieve call_hash call_cmp lh data =
     (case get_next_ptr_and_hash call_hash call_cmp lh data of
        (_, next_ptr) \<Rightarrow> (case next_item lh next_ptr of None \<Rightarrow> 0 | Some item \<Rightarrow> li_data item))"

definition lh_retrieve_key :: "lhash_st \<Rightarrow> 'key \<Rightarrow> u32 \<Rightarrow> ('key \<Rightarrow> ptr \<Rightarrow> int) \<Rightarrow> ptr" where
  "lh_retrieve_key lh key key_hash cmp_key =
     (case next_item lh (get_next_ptr_by_key lh key key_hash cmp_key) of
        None \<Rightarrow> 0 | Some item \<Rightarrow> li_data item)"

section \<open>Resizing\<close>

fun rebucket_chain :: "nat \<Rightarrow> lhash_item list \<Rightarrow> lhash_item list list \<Rightarrow> lhash_item list list" where
  "rebucket_chain n [] new_buckets = new_buckets"
| "rebucket_chain n (cur # chain) new_buckets =
     (let new_bucket = unat (li_hash cur) mod n
      in rebucket_chain n chain (new_buckets[new_bucket := cur # new_buckets ! new_bucket]))"

fun rebucket_loop :: "nat \<Rightarrow> lhash_item list list \<Rightarrow> lhash_item list list \<Rightarrow> lhash_item list list" where
  "rebucket_loop n [] new_buckets = new_buckets"
| "rebucket_loop n (chain # buckets) new_buckets =
     rebucket_loop n buckets (rebucket_chain n chain new_buckets)"

definition lh_rebucket :: "allocator \<Rightarrow> nat \<Rightarrow> lhash_st \<Rightarrow> nat \<Rightarrow> lhash_st \<times> nat" where
  "lh_rebucket m k lh new_num_buckets =
     (let alloc_size = sizeof_LHASH_ITEM_ptr * new_num_buckets mod 2 ^ 64 in
      if alloc_size div sizeof_LHASH_ITEM_ptr \<noteq> new_num_buckets then (lh, k)
      else
        case OPENSSL_malloc m k alloc_size of
          (None, k) \<Rightarrow> (lh, k)
        | (Some _, k) \<Rightarrow>
            (lh\<lparr>ht_buckets := rebucket_loop new_num_buckets (take (ht_num_buckets lh) (ht_buckets lh))
                  (replicate new_num_buckets []),
                ht_num_buckets := new_num_buckets\<rparr>, k))"

definition lh_maybe_resize :: "allocator \<Rightarrow> nat \<Rightarrow> lhash_st \<Rightarrow> lhash_st \<times> nat" where
  "lh_maybe_resize m k lh =
     (if ht_callback_depth lh > 0 then (lh, k)
      else
        let avg_chain_length = ht_num_items lh div ht_num_buckets lh in
        if avg_chain_length > kMaxAverageChainLength
        then
          let new_num_buckets = ht_num_buckets lh * 2 mod 2 ^ 64 in
          if new_num_buckets > ht_num_buckets lh then lh_rebucket m k lh new_num_buckets else (lh, k)
        else if avg_chain_length < kMinAverageChainLength \<and> ht_num_buckets lh > kMinNumBuckets
        then
          let new_num_buckets = ht_num_buckets lh div 2;
              new_num_buckets = (if new_num_buckets < kMinNumBuckets then kMinNumBuckets else new_num_buckets)
          in lh_rebucket m k lh new_num_buckets
        else (lh, k))"

section \<open>Insertion and deletion\<close>

text \<open>The return value, \<open>*old_data\<close>, the table and the number of allocations.\<close>

definition lh_insert ::
  "(ptr \<Rightarrow> ptr \<Rightarrow> u32) \<Rightarrow> (ptr \<Rightarrow> ptr \<Rightarrow> ptr \<Rightarrow> int) \<Rightarrow> allocator \<Rightarrow> nat \<Rightarrow> lhash_st \<Rightarrow> ptr \<Rightarrow>
     bool \<times> ptr \<times> lhash_st \<times> nat" where
  "lh_insert call_hash call_cmp m k lh data =
     (case get_next_ptr_and_hash call_hash call_cmp lh data of
        (hash, b, i) \<Rightarrow>
          (case next_item lh (b, i) of
             Some item \<Rightarrow>
               (True, li_data item,
                lh\<lparr>ht_buckets := (ht_buckets lh)[b := (ht_buckets lh ! b)[i := item\<lparr>li_data := data\<rparr>]]\<rparr>, k)
           | None \<Rightarrow>
               (case OPENSSL_malloc m k sizeof_LHASH_ITEM of
                  (None, k') \<Rightarrow> (False, 0, lh, k')
                | (Some _, k') \<Rightarrow>
                    let item = \<lparr>li_data = data, li_hash = hash, li_addr = k\<rparr>;
                        lh = lh\<lparr>ht_buckets := (ht_buckets lh)[b := ht_buckets lh ! b @ [item]],
                                ht_num_items := szadd (ht_num_items lh) 1\<rparr>
                    in (True, 0, lh_maybe_resize m k' lh))))"

definition lh_delete ::
  "(ptr \<Rightarrow> ptr \<Rightarrow> u32) \<Rightarrow> (ptr \<Rightarrow> ptr \<Rightarrow> ptr \<Rightarrow> int) \<Rightarrow> allocator \<Rightarrow> nat \<Rightarrow> lhash_st \<Rightarrow> ptr \<Rightarrow>
     ptr \<times> lhash_st \<times> nat" where
  "lh_delete call_hash call_cmp m k lh data =
     (case get_next_ptr_and_hash call_hash call_cmp lh data of
        (_, b, i) \<Rightarrow>
          (case next_item lh (b, i) of
             None \<Rightarrow> (0, lh, k)
           | Some item \<Rightarrow>
               let chain = ht_buckets lh ! b;
                   lh = lh\<lparr>ht_buckets := (ht_buckets lh)[b := take i chain @ drop (Suc i) chain],
                           ht_num_items := szadd (ht_num_items lh) (2 ^ 64 - 1)\<rparr>
               in (li_data item, lh_maybe_resize m k lh)))"

section \<open>Walking over the table\<close>

text \<open>The callback gets the data of an item and the state, which is the table, the number of allocations
  and whatever else the client keeps; it may call the operations of the table. The walk holds the address
  of the next item meanwhile. Its value is \<open>None\<close> when that item is gone when the walk comes to it (the
  code reads freed memory), when a callback has no value, and when the walk does not end (a callback that
  keeps inserting).\<close>

definition UINT_MAX :: nat where
  "UINT_MAX = 2 ^ 32 - 1"

fun chain_head :: "lhash_item list \<Rightarrow> nat option" where
  "chain_head [] = None"
| "chain_head (item # chain) = Some (li_addr item)"

fun item_in_chain :: "nat \<Rightarrow> lhash_item list \<Rightarrow> (ptr \<times> nat option) option" where
  "item_in_chain a [] = None"
| "item_in_chain a (item # chain) =
     (if li_addr item = a then Some (li_data item, chain_head chain) else item_in_chain a chain)"

fun read_item :: "nat \<Rightarrow> lhash_item list list \<Rightarrow> (ptr \<times> nat option) option" where
  "read_item a [] = None"
| "read_item a (chain # buckets) =
     (case item_in_chain a chain of Some r \<Rightarrow> Some r | None \<Rightarrow> read_item a buckets)"

partial_function (option) doall_chain ::
  "(ptr \<Rightarrow> lhash_st \<times> nat \<times> 's \<Rightarrow> (lhash_st \<times> nat \<times> 's) option) \<Rightarrow> nat option \<Rightarrow>
     lhash_st \<times> nat \<times> 's \<Rightarrow> (lhash_st \<times> nat \<times> 's) option" where
  "doall_chain func cur st =
     (case cur of
        None \<Rightarrow> Some st
      | Some a \<Rightarrow>
          (case read_item a (ht_buckets (fst st)) of
             None \<Rightarrow> None
           | Some (data, nxt) \<Rightarrow>
               (case func data st of None \<Rightarrow> None | Some st \<Rightarrow> doall_chain func nxt st)))"

partial_function (option) doall_buckets ::
  "(ptr \<Rightarrow> lhash_st \<times> nat \<times> 's \<Rightarrow> (lhash_st \<times> nat \<times> 's) option) \<Rightarrow> nat \<Rightarrow>
     lhash_st \<times> nat \<times> 's \<Rightarrow> (lhash_st \<times> nat \<times> 's) option" where
  "doall_buckets func i st =
     (if i < ht_num_buckets (fst st)
      then
        (case doall_chain func (chain_head (ht_buckets (fst st) ! i)) st of
           None \<Rightarrow> None
         | Some st \<Rightarrow> doall_buckets func (i + 1) st)
      else Some st)"

declare doall_chain.simps [code] doall_buckets.simps [code]

definition lh_doall_arg ::
  "allocator \<Rightarrow> (ptr \<Rightarrow> lhash_st \<times> nat \<times> 's \<Rightarrow> (lhash_st \<times> nat \<times> 's) option) \<Rightarrow>
     lhash_st \<times> nat \<times> 's \<Rightarrow> (lhash_st \<times> nat \<times> 's) option" where
  "lh_doall_arg m func st =
     (case st of (lh, k, s) \<Rightarrow>
        let lh = (if ht_callback_depth lh < UINT_MAX
                  then lh\<lparr>ht_callback_depth := ht_callback_depth lh + 1\<rparr> else lh) in
        case doall_buckets func 0 (lh, k, s) of
          None \<Rightarrow> None
        | Some (lh, k, s) \<Rightarrow>
            let lh = (if ht_callback_depth lh < UINT_MAX
                      then lh\<lparr>ht_callback_depth := ht_callback_depth lh - 1\<rparr> else lh)
            in (case lh_maybe_resize m k lh of (lh, k) \<Rightarrow> Some (lh, k, s)))"

definition lh_strhash :: "u8 list option \<Rightarrow> u32" where
  "lh_strhash c = (case c of None \<Rightarrow> 0 | Some c \<Rightarrow> OPENSSL_hash32 (take (c_strlen c) c))"

end
