(* ===== verification/Refcount.thy ===== *)
theory Refcount
  imports Prelude
begin

text \<open>
  Reference counts: \<open>crypto/refcount_lock.c\<close>, where every operation runs under a lock, and
  \<open>crypto/refcount_c11.c\<close>, where it is a loop around a compare-and-exchange that other threads may
  disturb. A count that has reached the maximum stays there.
\<close>

definition CRYPTO_REFCOUNT_MAX :: u32 where
  "CRYPTO_REFCOUNT_MAX = 0xffffffff"

section \<open>Under a lock\<close>

definition CRYPTO_refcount_inc :: "u32 \<Rightarrow> u32" where
  "CRYPTO_refcount_inc count = (if count < CRYPTO_REFCOUNT_MAX then count + 1 else count)"

text \<open>The return value and the count; \<open>None\<close> is \<open>abort()\<close>.\<close>

definition CRYPTO_refcount_dec_and_test_zero :: "u32 \<Rightarrow> (bool \<times> u32) option" where
  "CRYPTO_refcount_dec_and_test_zero count =
     (if count = 0 then None
      else
        let count = (if count < CRYPTO_REFCOUNT_MAX then count - 1 else count)
        in Some (count = 0, count))"

section \<open>With C11 atomics\<close>

text \<open>The argument lists, for every attempt of the weak compare-and-exchange, the value that the count has
  then and whether the exchange fails spuriously; a failing exchange loads the value. The result is
  \<open>Wrote v v'\<close> if the exchange put \<open>v'\<close> in the place of \<open>v\<close>, and \<open>Unchanged v\<close> if the loop was left because the
  last value read was \<open>v\<close>; \<open>None\<close> is an abort or a loop that is still running.\<close>

datatype atomic_effect = Wrote u32 u32 | Unchanged u32

fun refcount_inc_c11 :: "u32 \<Rightarrow> (u32 \<times> bool) list \<Rightarrow> atomic_effect option" where
  "refcount_inc_c11 expected attempts =
     (if expected \<noteq> CRYPTO_REFCOUNT_MAX
      then
        let new_value = expected + 1 in
        case attempts of
          [] \<Rightarrow> None
        | (v, spurious) # attempts \<Rightarrow>
            if v = expected \<and> \<not> spurious then Some (Wrote expected new_value)
            else refcount_inc_c11 v attempts
      else Some (Unchanged expected))"

fun refcount_dec_c11 :: "u32 \<Rightarrow> (u32 \<times> bool) list \<Rightarrow> (bool \<times> atomic_effect) option" where
  "refcount_dec_c11 expected attempts =
     (if expected = 0 then None
      else if expected = CRYPTO_REFCOUNT_MAX then Some (False, Unchanged expected)
      else
        let new_value = expected - 1 in
        case attempts of
          [] \<Rightarrow> None
        | (v, spurious) # attempts \<Rightarrow>
            if v = expected \<and> \<not> spurious then Some (new_value = 0, Wrote expected new_value)
            else refcount_dec_c11 v attempts)"

declare refcount_inc_c11.simps [simp del] refcount_dec_c11.simps [simp del]

lemma refcount_max: "CRYPTO_REFCOUNT_MAX = - 1"
  by (simp add: CRYPTO_REFCOUNT_MAX_def)

lemma refcount_max_nonzero: "CRYPTO_REFCOUNT_MAX \<noteq> 0"
  by (simp add: CRYPTO_REFCOUNT_MAX_def)

lemma below_max: "count < CRYPTO_REFCOUNT_MAX \<longleftrightarrow> count \<noteq> CRYPTO_REFCOUNT_MAX"
  unfolding refcount_max by (rule word_order.not_eq_extremum [symmetric])

text \<open>Whatever the other threads do, the loops take effect in one step, and that step is the locked
  operation on the value that the count has then.\<close>

lemma inc_c11_linearizes:
  "refcount_inc_c11 expected attempts = Some e \<Longrightarrow>
     \<exists>v. (e = Wrote v (CRYPTO_refcount_inc v) \<or> e = Unchanged v \<and> CRYPTO_refcount_inc v = v)"
proof (induction attempts arbitrary: expected)
  case Nil
  then show ?case
    by (subst (asm) refcount_inc_c11.simps) (auto simp: CRYPTO_refcount_inc_def split: if_splits)
next
  case (Cons a attempts)
  obtain v s where a: "a = (v, s)" by (cases a)
  show ?case
  proof (cases "expected = CRYPTO_REFCOUNT_MAX \<or> v = expected \<and> \<not> s")
    case True
    then have "e = Wrote expected (CRYPTO_refcount_inc expected) \<or>
        e = Unchanged expected \<and> CRYPTO_refcount_inc expected = expected"
      using Cons.prems
      by (subst (asm) refcount_inc_c11.simps) (auto simp: a CRYPTO_refcount_inc_def below_max split: if_splits)
    then show ?thesis by blast
  next
    case False
    then have "refcount_inc_c11 v attempts = Some e"
      using Cons.prems by (subst (asm) refcount_inc_c11.simps) (auto simp: a split: if_splits)
    then show ?thesis by (rule Cons.IH)
  qed
qed

lemma dec_c11_linearizes:
  "refcount_dec_c11 expected attempts = Some (z, e) \<Longrightarrow>
     \<exists>v v'. CRYPTO_refcount_dec_and_test_zero v = Some (z, v') \<and> (e = Wrote v v' \<or> e = Unchanged v \<and> v' = v)"
proof (induction attempts arbitrary: expected)
  case Nil
  then have "CRYPTO_refcount_dec_and_test_zero expected = Some (z, expected) \<and> e = Unchanged expected"
    by (subst (asm) refcount_dec_c11.simps)
      (auto simp: CRYPTO_refcount_dec_and_test_zero_def refcount_max_nonzero split: if_splits)
  then show ?case by blast
next
  case (Cons a attempts)
  obtain v s where a: "a = (v, s)" by (cases a)
  show ?case
  proof (cases "expected = CRYPTO_REFCOUNT_MAX \<or> v = expected \<and> \<not> s")
    case True
    then have "\<exists>v'. CRYPTO_refcount_dec_and_test_zero expected = Some (z, v') \<and>
        (e = Wrote expected v' \<or> e = Unchanged expected \<and> v' = expected)"
      using Cons.prems
      by (subst (asm) refcount_dec_c11.simps)
        (auto simp: a CRYPTO_refcount_dec_and_test_zero_def below_max refcount_max_nonzero Let_def split: if_splits)
    then show ?thesis by blast
  next
    case False
    moreover have "expected \<noteq> 0" using Cons.prems by (subst (asm) refcount_dec_c11.simps) auto
    ultimately have "refcount_dec_c11 v attempts = Some (z, e)"
      using Cons.prems by (subst (asm) refcount_dec_c11.simps) (auto simp: a split: if_splits)
    then show ?thesis by (rule Cons.IH)
  qed
qed

text \<open>The count as a number.\<close>

lemma unat_refcount_inc:
  "count \<noteq> CRYPTO_REFCOUNT_MAX \<Longrightarrow> unat (CRYPTO_refcount_inc count) = Suc (unat count)"
proof -
  assume "count \<noteq> CRYPTO_REFCOUNT_MAX"
  moreover have "unat CRYPTO_REFCOUNT_MAX = 2 ^ 32 - 1" by (simp add: CRYPTO_REFCOUNT_MAX_def)
  ultimately have "unat count \<noteq> 2 ^ 32 - 1" by (metis word_unat_eq_iff)
  then have "Suc (unat count) < 2 ^ 32" using unsigned_less [of count, where 'a = nat] by simp
  then show ?thesis
    using \<open>count \<noteq> CRYPTO_REFCOUNT_MAX\<close> by (simp add: CRYPTO_refcount_inc_def below_max unat_word_ariths)
qed

lemma refcount_inc_max [simp]: "CRYPTO_refcount_inc CRYPTO_REFCOUNT_MAX = CRYPTO_REFCOUNT_MAX"
  by (simp add: CRYPTO_refcount_inc_def)

lemma refcount_dec_max [simp]:
  "CRYPTO_refcount_dec_and_test_zero CRYPTO_REFCOUNT_MAX = Some (False, CRYPTO_REFCOUNT_MAX)"
  by (simp add: CRYPTO_refcount_dec_and_test_zero_def CRYPTO_REFCOUNT_MAX_def)

lemma refcount_dec_below:
  assumes "count \<noteq> 0" and "count \<noteq> CRYPTO_REFCOUNT_MAX"
  shows "CRYPTO_refcount_dec_and_test_zero count = Some (unat count = 1, count - 1)"
    and "unat (count - 1) = unat count - 1"
proof -
  have "count - 1 = 0 \<longleftrightarrow> unat count = 1"
    by (metis diff_eq_diff_eq eq_iff_diff_eq_0 unat_1 unsigned_word_eqI word_unat_eq_iff)
  then show "CRYPTO_refcount_dec_and_test_zero count = Some (unat count = 1, count - 1)"
    using assms by (simp add: CRYPTO_refcount_dec_and_test_zero_def below_max)
  show "unat (count - 1) = unat count - 1" by (rule unat_minus_one [OF assms(1)])
qed

end
