(* ===== verification/Pool.thy ===== *)
theory Pool
  imports Lhash Refcount Cbs "HOL-Library.Multiset"
begin

text \<open>
  \<open>crypto/pool/pool.c\<close>: reference-counted blobs that a pool interns in a hash table of
  \<open>crypto/lhash/lhash.c\<close>. The buffers are in a heap, a map from addresses to \<open>CRYPTO_BUFFER\<close>s, out of which
  freeing takes them; a buffer holds its bytes, and a nonzero \<open>cb_pool\<close> is the pool of the state. The
  operations that take the lock of the pool are the critical sections that run between taking and releasing
  it; \<open>CRYPTO_BUFFER_new\<close> has two of them, with an allocation in between, so that other threads may run in
  the middle of it: \<open>pool_step\<close> interleaves the sections of any number of threads.
\<close>

record CRYPTO_BUFFER =
  cb_pool :: ptr
  cb_data :: "u8 list"
  cb_len :: nat
  cb_references :: u32

record pool_st =
  ps_heap :: "ptr \<rightharpoonup> CRYPTO_BUFFER"
  ps_bufs :: lhash_st
  ps_allocs :: nat

definition sizeof_CRYPTO_BUFFER :: nat where
  "sizeof_CRYPTO_BUFFER = 32"

definition sizeof_CRYPTO_BUFFER_POOL :: nat where
  "sizeof_CRYPTO_BUFFER_POOL = 208"

section \<open>The table of buffers\<close>

definition CRYPTO_BUFFER_hash :: "CRYPTO_BUFFER \<Rightarrow> u32" where
  "CRYPTO_BUFFER_hash buf = OPENSSL_hash32 (take (cb_len buf) (cb_data buf))"

definition CRYPTO_BUFFER_cmp :: "CRYPTO_BUFFER \<Rightarrow> CRYPTO_BUFFER \<Rightarrow> int" where
  "CRYPTO_BUFFER_cmp a b =
     (if cb_len a \<noteq> cb_len b then 1 else OPENSSL_memcmp (cb_data a) (cb_data b) (cb_len a))"

text \<open>What the wrappers of \<open>DEFINE_LHASH_OF\<close> return for pointers into the heap. The table only has pointers to
  buffers that are there, so that the other cases do not arise.\<close>

definition call_hash_func :: "(ptr \<rightharpoonup> CRYPTO_BUFFER) \<Rightarrow> ptr \<Rightarrow> ptr \<Rightarrow> u32" where
  "call_hash_func heap func a = (case heap a of None \<Rightarrow> 0 | Some a \<Rightarrow> CRYPTO_BUFFER_hash a)"

definition call_cmp_func :: "(ptr \<rightharpoonup> CRYPTO_BUFFER) \<Rightarrow> ptr \<Rightarrow> ptr \<Rightarrow> ptr \<Rightarrow> int" where
  "call_cmp_func heap func a b =
     (case (heap a, heap b) of (Some a, Some b) \<Rightarrow> CRYPTO_BUFFER_cmp a b | _ \<Rightarrow> 1)"

text \<open>The pool at first: \<open>hash\<close> and \<open>cmp\<close> are the addresses of the two functions.\<close>

definition CRYPTO_BUFFER_POOL_new ::
  "allocator \<Rightarrow> ptr \<Rightarrow> ptr \<Rightarrow> (ptr \<rightharpoonup> CRYPTO_BUFFER) \<Rightarrow> nat \<Rightarrow> pool_st option \<times> nat" where
  "CRYPTO_BUFFER_POOL_new m hash cmp heap k =
     (case OPENSSL_malloc m k sizeof_CRYPTO_BUFFER_POOL of
        (None, k) \<Rightarrow> (None, k)
      | (Some _, k) \<Rightarrow>
          (case lh_new m k hash cmp of
             (None, k) \<Rightarrow> (None, k)
           | (Some lh, k) \<Rightarrow> (Some \<lparr>ps_heap = heap, ps_bufs = lh, ps_allocs = k\<rparr>, k)))"

text \<open>\<open>None\<close> is the failing assertion that the pool is empty; the items of the table are freed.\<close>

definition CRYPTO_BUFFER_POOL_free :: "pool_st option \<Rightarrow> nat list option" where
  "CRYPTO_BUFFER_POOL_free pool =
     (case pool of
        None \<Rightarrow> Some []
      | Some ps \<Rightarrow> if lh_num_items (ps_bufs ps) = 0 then Some (lh_free (Some (ps_bufs ps))) else None)"

section \<open>Making buffers\<close>

definition buffer_inc :: "ptr \<Rightarrow> pool_st \<Rightarrow> pool_st" where
  "buffer_inc p ps =
     (case ps_heap ps p of
        None \<Rightarrow> ps
      | Some b \<Rightarrow> ps\<lparr>ps_heap := (ps_heap ps)(p \<mapsto> b\<lparr>cb_references := CRYPTO_refcount_inc (cb_references b)\<rparr>)\<rparr>)"

text \<open>The first critical section, under the read lock: \<open>tmp\<close> is the address of the local variable.\<close>

definition new_lookup :: "ptr \<Rightarrow> u8 list \<Rightarrow> pool_st \<Rightarrow> ptr \<times> pool_st" where
  "new_lookup tmp data ps =
     (let heap = (ps_heap ps)(tmp \<mapsto> \<lparr>cb_pool = 0, cb_data = data, cb_len = length data, cb_references = 0\<rparr>);
          duplicate = lh_retrieve (call_hash_func heap) (call_cmp_func heap) (ps_bufs ps) tmp
      in if duplicate \<noteq> 0 then (duplicate, buffer_inc duplicate ps) else (0, ps))"

text \<open>The new buffer, which no other thread knows yet: \<open>a\<close> is the address that the allocation returns. The
  result is NULL if there is no memory.\<close>

definition new_buffer :: "allocator \<Rightarrow> ptr \<Rightarrow> ptr \<Rightarrow> u8 list \<Rightarrow> pool_st \<Rightarrow> ptr \<times> pool_st" where
  "new_buffer m a pool data ps =
     (case OPENSSL_malloc m (ps_allocs ps) sizeof_CRYPTO_BUFFER of
        (None, k) \<Rightarrow> (0, ps\<lparr>ps_allocs := k\<rparr>)
      | (Some _, k) \<Rightarrow>
          (case OPENSSL_memdup m k data (length data) of
             (copy, k) \<Rightarrow>
               if length data \<noteq> 0 \<and> copy = None then (0, ps\<lparr>ps_allocs := k\<rparr>)
               else
                 (a, ps\<lparr>ps_heap := (ps_heap ps)(a \<mapsto>
                          \<lparr>cb_pool = pool, cb_data = (case copy of None \<Rightarrow> [] | Some d \<Rightarrow> d),
                           cb_len = length data, cb_references = 1\<rparr>),
                       ps_allocs := k\<rparr>)))"

text \<open>The second critical section, under the write lock, and what follows it. \<open>None\<close> is the failing assertion
  that the insertion replaces nothing.\<close>

definition new_publish :: "allocator \<Rightarrow> ptr \<Rightarrow> pool_st \<Rightarrow> (ptr \<times> pool_st) option" where
  "new_publish m buf ps =
     (let call_hash = call_hash_func (ps_heap ps);
          call_cmp = call_cmp_func (ps_heap ps);
          duplicate = lh_retrieve call_hash call_cmp (ps_bufs ps) buf
      in if duplicate = 0
         then
           (case lh_insert call_hash call_cmp m (ps_allocs ps) (ps_bufs ps) buf of
              (inserted, old, lh, k) \<Rightarrow>
                let ps = ps\<lparr>ps_bufs := lh, ps_allocs := k\<rparr> in
                if old \<noteq> 0 then None
                else if \<not> inserted then Some (0, ps\<lparr>ps_heap := (ps_heap ps)(buf := None)\<rparr>)
                else Some (buf, ps))
         else
           let ps = buffer_inc duplicate ps
           in Some (duplicate, ps\<lparr>ps_heap := (ps_heap ps)(buf := None)\<rparr>))"

definition CRYPTO_BUFFER_new ::
  "allocator \<Rightarrow> ptr \<Rightarrow> ptr \<Rightarrow> u8 list \<Rightarrow> ptr \<Rightarrow> pool_st \<Rightarrow> (ptr \<times> pool_st) option" where
  "CRYPTO_BUFFER_new m tmp a data pool ps =
     (case (if pool \<noteq> 0 then new_lookup tmp data ps else (0, ps)) of
        (duplicate, ps) \<Rightarrow>
          if duplicate \<noteq> 0 then Some (duplicate, ps)
          else
            case new_buffer m a pool data ps of
              (buf, ps) \<Rightarrow>
                if buf = 0 then Some (0, ps)
                else if pool = 0 then Some (buf, ps)
                else new_publish m buf ps)"

definition CRYPTO_BUFFER_alloc :: "allocator \<Rightarrow> ptr \<Rightarrow> nat \<Rightarrow> pool_st \<Rightarrow> ptr \<times> pool_st" where
  "CRYPTO_BUFFER_alloc m a len ps =
     (case OPENSSL_malloc m (ps_allocs ps) sizeof_CRYPTO_BUFFER of
        (None, k) \<Rightarrow> (0, ps\<lparr>ps_allocs := k\<rparr>)
      | (Some _, k) \<Rightarrow>
          (case OPENSSL_malloc m k len of
             (block, k) \<Rightarrow>
               if len \<noteq> 0 \<and> block = None then (0, ps\<lparr>ps_allocs := k\<rparr>)
               else
                 (a, ps\<lparr>ps_heap := (ps_heap ps)(a \<mapsto>
                          \<lparr>cb_pool = 0, cb_data = (case block of None \<Rightarrow> [] | Some d \<Rightarrow> d),
                           cb_len = len, cb_references = 1\<rparr>),
                       ps_allocs := k\<rparr>)))"

definition CRYPTO_BUFFER_new_from_CBS ::
  "allocator \<Rightarrow> ptr \<Rightarrow> ptr \<Rightarrow> CBS \<Rightarrow> ptr \<Rightarrow> pool_st \<Rightarrow> (ptr \<times> pool_st) option" where
  "CRYPTO_BUFFER_new_from_CBS m tmp a cbs pool ps =
     CRYPTO_BUFFER_new m tmp a (take (CBS_len cbs) (CBS_data cbs)) pool ps"

section \<open>References\<close>

text \<open>\<open>None\<close> is a pointer to a buffer that has been freed, an abort of the reference count, or a failing
  assertion.\<close>

definition CRYPTO_BUFFER_free :: "allocator \<Rightarrow> ptr \<Rightarrow> pool_st \<Rightarrow> pool_st option" where
  "CRYPTO_BUFFER_free m buf ps =
     (if buf = 0 then Some ps
      else
        case ps_heap ps buf of
          None \<Rightarrow> None
        | Some b \<Rightarrow>
            (case CRYPTO_refcount_dec_and_test_zero (cb_references b) of
               None \<Rightarrow> None
             | Some (zero, n) \<Rightarrow>
                 let ps = ps\<lparr>ps_heap := (ps_heap ps)(buf \<mapsto> b\<lparr>cb_references := n\<rparr>)\<rparr> in
                 if \<not> zero then Some ps
                 else if cb_pool b = 0 then Some (ps\<lparr>ps_heap := (ps_heap ps)(buf := None)\<rparr>)
                 else
                   case lh_delete (call_hash_func (ps_heap ps)) (call_cmp_func (ps_heap ps)) m (ps_allocs ps)
                          (ps_bufs ps) buf of
                     (found, lh, k) \<Rightarrow>
                       if found \<noteq> buf then None
                       else Some (ps\<lparr>ps_bufs := lh, ps_allocs := k, ps_heap := (ps_heap ps)(buf := None)\<rparr>)))"

definition CRYPTO_BUFFER_up_ref :: "ptr \<Rightarrow> pool_st \<Rightarrow> (bool \<times> pool_st) option" where
  "CRYPTO_BUFFER_up_ref buf ps =
     (case ps_heap ps buf of None \<Rightarrow> None | Some _ \<Rightarrow> Some (True, buffer_inc buf ps))"

fun CRYPTO_BUFFER_len :: "CRYPTO_BUFFER \<Rightarrow> nat" where
  "CRYPTO_BUFFER_len buf = cb_len buf"

fun CRYPTO_BUFFER_data :: "CRYPTO_BUFFER \<Rightarrow> u8 list" where
  "CRYPTO_BUFFER_data buf = cb_data buf"

definition CRYPTO_BUFFER_init_CBS :: "CRYPTO_BUFFER \<Rightarrow> CBS" where
  "CRYPTO_BUFFER_init_CBS buf = CBS_init (cb_data buf) (cb_len buf)"

section \<open>Threads\<close>

text \<open>A thread in the middle of \<open>CRYPTO_BUFFER_new\<close> has missed its data in the pool, or has made its own
  buffer. The references that clients hold are a multiset. \<open>pool\<close> is the address of the pool; an allocation
  returns any address that is not in use. Clients do not ask for a buffer of the whole address space, where
  the size computation of \<open>OPENSSL_malloc\<close> wraps.\<close>

datatype thread = Missed "u8 list" | Made ptr

record system =
  sy_pool :: pool_st
  sy_refs :: "ptr multiset"
  sy_threads :: "thread multiset"

definition gain :: "ptr \<Rightarrow> ptr multiset \<Rightarrow> ptr multiset" where
  "gain r refs = (if r = 0 then refs else add_mset r refs)"

definition free_address :: "ptr \<Rightarrow> pool_st \<Rightarrow> bool" where
  "free_address a ps \<longleftrightarrow> a \<noteq> 0 \<and> ps_heap ps a = None"

inductive pool_step :: "allocator \<Rightarrow> ptr \<Rightarrow> system \<Rightarrow> system \<Rightarrow> bool" for m pool where
  new_hit: "pool_step m pool \<lparr>sy_pool = ps, sy_refs = refs, sy_threads = ts\<rparr>
      \<lparr>sy_pool = ps', sy_refs = add_mset dup refs, sy_threads = ts\<rparr>"
    if "free_address tmp ps" "new_lookup tmp data ps = (dup, ps')" "dup \<noteq> 0"
| new_miss: "pool_step m pool \<lparr>sy_pool = ps, sy_refs = refs, sy_threads = ts\<rparr>
      \<lparr>sy_pool = ps', sy_refs = refs, sy_threads = add_mset (Missed data) ts\<rparr>"
    if "free_address tmp ps" "new_lookup tmp data ps = (0, ps')"
| new_alloc: "pool_step m pool \<lparr>sy_pool = ps, sy_refs = refs, sy_threads = add_mset (Missed data) ts\<rparr>
      \<lparr>sy_pool = ps', sy_refs = refs, sy_threads = (if buf = 0 then ts else add_mset (Made buf) ts)\<rparr>"
    if "free_address a ps" "new_buffer m a pool data ps = (buf, ps')"
| new_done: "pool_step m pool \<lparr>sy_pool = ps, sy_refs = refs, sy_threads = add_mset (Made buf) ts\<rparr>
      \<lparr>sy_pool = ps', sy_refs = gain r refs, sy_threads = ts\<rparr>"
    if "new_publish m buf ps = Some (r, ps')"
| new_unpooled: "pool_step m pool \<lparr>sy_pool = ps, sy_refs = refs, sy_threads = ts\<rparr>
      \<lparr>sy_pool = ps', sy_refs = gain buf refs, sy_threads = ts\<rparr>"
    if "free_address a ps" "new_buffer m a 0 data ps = (buf, ps')"
| alloc: "pool_step m pool \<lparr>sy_pool = ps, sy_refs = refs, sy_threads = ts\<rparr>
      \<lparr>sy_pool = ps', sy_refs = gain buf refs, sy_threads = ts\<rparr>"
    if "free_address a ps" "len + OPENSSL_MALLOC_PREFIX < 2 ^ 64" "CRYPTO_BUFFER_alloc m a len ps = (buf, ps')"
| up_ref: "pool_step m pool \<lparr>sy_pool = ps, sy_refs = refs, sy_threads = ts\<rparr>
      \<lparr>sy_pool = ps', sy_refs = add_mset buf refs, sy_threads = ts\<rparr>"
    if "buf \<in># refs" "CRYPTO_BUFFER_up_ref buf ps = Some (True, ps')"
| free: "pool_step m pool \<lparr>sy_pool = ps, sy_refs = add_mset buf refs, sy_threads = ts\<rparr>
      \<lparr>sy_pool = ps', sy_refs = refs, sy_threads = ts\<rparr>"
    if "CRYPTO_BUFFER_free m buf ps = Some ps'"

text \<open>What a run of the threads reaches from a fresh pool.\<close>

inductive pool_reach :: "allocator \<Rightarrow> ptr \<Rightarrow> system \<Rightarrow> bool" for m pool where
  start: "pool_reach m pool \<lparr>sy_pool = ps, sy_refs = {#}, sy_threads = {#}\<rparr>"
    if "CRYPTO_BUFFER_POOL_new m hash cmp Map.empty k = (Some ps, k')"
| step: "pool_reach m pool s'" if "pool_reach m pool s" "pool_step m pool s s'"

end
