(* ===== verification/LhashSpec.thy ===== *)
theory LhashSpec
  imports Lhash "HOL-Library.Multiset"
begin

text \<open>
  What the hash table of \<open>crypto/lhash/lhash.c\<close> promises: it is a finite map from keys to pointers. The
  interface \<open>keyed\<close> is what the table asks of its client: a key for every pointer, such that the comparison
  function decides equality of keys and the hash function depends on the key only. A chain holds items of its
  own residue only, so that the search in one chain is a search in the table; resizing permutes the items.
\<close>

section \<open>Searching a chain\<close>

declare next_item.simps [simp del]

lemma chain_pos_bound: "chain_pos test chain \<le> length chain"
  by (induction chain) auto

lemma chain_pos_hit: "chain_pos test chain < length chain \<Longrightarrow> test (chain ! chain_pos test chain)"
  by (induction chain) (auto split: if_splits)

lemma chain_pos_miss: "chain_pos test chain = length chain \<longleftrightarrow> (\<forall>item \<in> set chain. \<not> test item)"
  by (induction chain) auto

section \<open>The items of the table\<close>

definition lh_items :: "lhash_st \<Rightarrow> lhash_item list" where
  "lh_items lh = concat (ht_buckets lh)"

definition buckets_ok :: "nat \<Rightarrow> lhash_item list list \<Rightarrow> bool" where
  "buckets_ok n buckets \<longleftrightarrow> length buckets = n \<and>
     (\<forall>b < n. \<forall>item \<in> set (buckets ! b). unat (li_hash item) mod n = b)"

lemma set_concat_nth: "x \<in> set (concat bs) \<longleftrightarrow> (\<exists>b < length bs. x \<in> set (bs ! b))"
  by (metis in_set_conv_nth set_concat UN_iff)

lemma bucket_of_item:
  assumes "buckets_ok n bs" and "item \<in> set (concat bs)"
  shows "item \<in> set (bs ! (unat (li_hash item) mod n))"
  using assms unfolding buckets_ok_def set_concat_nth by auto

lemma buckets_ok_update:
  assumes "buckets_ok n bs" and "b < n" and "\<And>item. item \<in> set c \<Longrightarrow> unat (li_hash item) mod n = b"
  shows "buckets_ok n (bs[b := c])"
  using assms by (auto simp: buckets_ok_def nth_list_update)

text \<open>Changing one chain leaves the other items alone.\<close>

lemma mset_concat_update:
  assumes "b < length bs"
  obtains R where "mset (concat bs) = mset (bs ! b) + mset R"
    and "\<And>c. mset (concat (bs[b := c])) = mset c + mset R"
proof
  have bs: "bs = take b bs @ bs ! b # drop (Suc b) bs" using assms by (rule id_take_nth_drop)
  have "mset (concat bs) = mset (concat (take b bs @ bs ! b # drop (Suc b) bs))" using bs by simp
  then show "mset (concat bs) = mset (bs ! b) + mset (concat (take b bs @ drop (Suc b) bs))" by simp
  show "mset (concat (bs[b := c])) = mset c + mset (concat (take b bs @ drop (Suc b) bs))" for c
    using assms by (simp add: upd_conv_take_nth_drop)
qed

lemma mset_concat_nth:
  assumes "b < length bs" and "i < length (bs ! b)"
  obtains L where "mset (concat bs) = mset (bs ! b ! i # L)"
    and "\<And>item. mset (concat (bs[b := (bs ! b)[i := item]])) = mset (item # L)"
    and "mset (concat (bs[b := take i (bs ! b) @ drop (Suc i) (bs ! b)])) = mset L"
proof -
  obtain R where R: "mset (concat bs) = mset (bs ! b) + mset R"
    "\<And>c. mset (concat (bs[b := c])) = mset c + mset R"
    using mset_concat_update [OF assms(1)] by blast
  have c: "mset (bs ! b) = mset (bs ! b ! i # take i (bs ! b) @ drop (Suc i) (bs ! b))"
    by (subst id_take_nth_drop [OF assms(2)]) simp
  show thesis
  proof (rule that [of "take i (bs ! b) @ drop (Suc i) (bs ! b) @ R"])
    show "mset (concat bs) = mset (bs ! b ! i # take i (bs ! b) @ drop (Suc i) (bs ! b) @ R)"
      by (simp add: R c)
    show "mset (concat (bs[b := (bs ! b)[i := item]])) = mset (item # take i (bs ! b) @ drop (Suc i) (bs ! b) @ R)"
      for item
      using assms(2) by (simp add: R upd_conv_take_nth_drop)
  qed (simp add: R)
qed

definition items_map :: "(ptr \<Rightarrow> 'k) \<Rightarrow> lhash_item list \<Rightarrow> 'k \<rightharpoonup> ptr" where
  "items_map key items = map_of (map (\<lambda>item. (key (li_data item), li_data item)) items)"

abbreviation item_keys :: "(ptr \<Rightarrow> 'k) \<Rightarrow> lhash_item list \<Rightarrow> 'k list" where
  "item_keys key items \<equiv> map (\<lambda>item. key (li_data item)) items"

lemma items_map_Cons [simp]:
  "items_map key (item # items) = (items_map key items)(key (li_data item) \<mapsto> li_data item)"
  by (simp add: items_map_def)

lemma dom_items_map: "dom (items_map key items) = set (item_keys key items)"
  by (auto simp: items_map_def dom_map_of_conv_image_fst image_image)

lemma items_map_Some:
  assumes "distinct (item_keys key items)"
  shows "items_map key items x = Some d \<longleftrightarrow> (\<exists>item \<in> set items. li_data item = d \<and> key d = x)"
proof -
  have "map_of (map (\<lambda>item. (key (li_data item), li_data item)) items) x = Some d \<longleftrightarrow>
      (x, d) \<in> set (map (\<lambda>item. (key (li_data item), li_data item)) items)"
    by (rule map_of_eq_Some_iff) (simp add: comp_def assms)
  then show ?thesis by (auto simp: items_map_def)
qed

lemma items_map_None: "items_map key items x = None \<longleftrightarrow> x \<notin> set (item_keys key items)"
  by (metis domIff dom_items_map)

lemma distinct_keys_mset:
  assumes "mset items = mset items'"
  shows "distinct (item_keys key items) \<longleftrightarrow> distinct (item_keys key items')"
  using assms by (metis mset_eq_imp_distinct_iff mset_map)

lemma items_map_mset:
  assumes "mset items = mset items'" and "distinct (item_keys key items)"
  shows "items_map key items = items_map key items'"
proof
  fix x
  have d: "distinct (item_keys key items')" using assms distinct_keys_mset by blast
  have s: "set items = set items'" by (rule mset_eq_setD [OF assms(1)])
  have "items_map key items x = Some d \<longleftrightarrow> items_map key items' x = Some d" for d
    by (simp add: items_map_Some [OF d] items_map_Some [OF assms(2)] s)
  then show "items_map key items x = items_map key items' x" by (metis not_Some_eq)
qed

lemma items_map_drop:
  assumes "distinct (item_keys key (item # R))"
  shows "items_map key R = (items_map key (item # R))(key (li_data item) := None)"
  using assms items_map_None [of key R "key (li_data item)"] by auto

lemma card_items_map:
  assumes "distinct (item_keys key items)"
  shows "card (dom (items_map key items)) = length items"
  using assms by (metis dom_items_map distinct_card length_map)

section \<open>Resizing permutes the items\<close>

lemma rebucket_chain_spec:
  assumes "buckets_ok n bs" and "n > 0"
  shows "buckets_ok n (rebucket_chain n chain bs) \<and>
    mset (concat (rebucket_chain n chain bs)) = mset chain + mset (concat bs)"
  using assms(1)
proof (induction chain arbitrary: bs)
  case (Cons cur chain)
  let ?b = "unat (li_hash cur) mod n"
  have b: "?b < n" "?b < length bs" using assms(2) Cons.prems by (auto simp: buckets_ok_def)
  have ok: "buckets_ok n (bs[?b := cur # bs ! ?b])"
    using Cons.prems b by (intro buckets_ok_update) (auto simp: buckets_ok_def)
  obtain R where "mset (concat bs) = mset (bs ! ?b) + mset R"
    and "\<And>c. mset (concat (bs[?b := c])) = mset c + mset R"
    using mset_concat_update [OF b(2)] by blast
  then show ?case using Cons.IH [OF ok] by (simp add: Let_def)
qed simp

lemma rebucket_loop_spec:
  assumes "buckets_ok n bs" and "n > 0"
  shows "buckets_ok n (rebucket_loop n css bs) \<and>
    mset (concat (rebucket_loop n css bs)) = mset (concat css) + mset (concat bs)"
  using assms(1)
proof (induction css arbitrary: bs)
  case (Cons chain css)
  have "buckets_ok n (rebucket_chain n chain bs) \<and>
      mset (concat (rebucket_chain n chain bs)) = mset chain + mset (concat bs)"
    by (rule rebucket_chain_spec [OF Cons.prems assms(2)])
  then show ?case using Cons.IH [of "rebucket_chain n chain bs"] by simp
qed simp

definition table_ok :: "lhash_st \<Rightarrow> bool" where
  "table_ok lh \<longleftrightarrow> kMinNumBuckets \<le> ht_num_buckets lh \<and> ht_num_buckets lh < 2 ^ 64 \<and>
     buckets_ok (ht_num_buckets lh) (ht_buckets lh) \<and> ht_num_items lh = length (lh_items lh) mod 2 ^ 64"

text \<open>What resizing may change: the order of the items and the number of buckets. What the rest of an
  operation may change: the items.\<close>

definition same_items :: "lhash_st \<Rightarrow> lhash_st \<Rightarrow> bool" where
  "same_items lh lh' \<longleftrightarrow> mset (lh_items lh') = mset (lh_items lh) \<and> ht_num_items lh' = ht_num_items lh \<and>
     ht_callback_depth lh' = ht_callback_depth lh \<and> ht_comp lh' = ht_comp lh \<and> ht_hash lh' = ht_hash lh"

definition same_shape :: "lhash_st \<Rightarrow> lhash_st \<Rightarrow> bool" where
  "same_shape lh lh' \<longleftrightarrow> ht_num_buckets lh' = ht_num_buckets lh \<and>
     ht_callback_depth lh' = ht_callback_depth lh \<and> ht_comp lh' = ht_comp lh \<and> ht_hash lh' = ht_hash lh"

lemma same_items_refl [simp]: "same_items lh lh"
  by (simp add: same_items_def)

lemma buckets_ok_empty: "buckets_ok n (replicate n [])"
  by (simp add: buckets_ok_def)

lemma lh_rebucket_spec:
  assumes "table_ok lh" and "kMinNumBuckets \<le> n" and "n < 2 ^ 64" and "lh_rebucket m k lh n = (lh', k')"
  shows "table_ok lh' \<and> same_items lh lh' \<and> k \<le> k' \<and> ht_num_buckets lh' \<in> {ht_num_buckets lh, n}"
proof -
  have n: "n > 0" using assms(2) by (simp add: kMinNumBuckets_def)
  have l: "take (ht_num_buckets lh) (ht_buckets lh) = ht_buckets lh"
    using assms(1) by (simp add: table_ok_def buckets_ok_def)
  have "mset (concat (rebucket_loop n (ht_buckets lh) (replicate n []))) = mset (lh_items lh)"
    and "buckets_ok n (rebucket_loop n (ht_buckets lh) (replicate n []))"
    using rebucket_loop_spec [OF buckets_ok_empty n, of "ht_buckets lh"] by (simp_all add: lh_items_def)
  then show ?thesis
    using assms l
    by (auto simp: lh_rebucket_def Let_def table_ok_def same_items_def lh_items_def OPENSSL_malloc_def
        split: option.splits if_splits dest: mset_eq_length)
qed

text \<open>The sizes it resizes to.\<close>

lemma lh_maybe_resize_cases:
  assumes "ht_num_buckets lh < 2 ^ 64" and "kMinNumBuckets \<le> ht_num_buckets lh"
  obtains "lh_maybe_resize m k lh = (lh, k)"
  | n where "lh_maybe_resize m k lh = lh_rebucket m k lh n" and "kMinNumBuckets \<le> n" and "n < 2 ^ 64"
proof -
  let ?n = "if ht_num_buckets lh div 2 < kMinNumBuckets then kMinNumBuckets else ht_num_buckets lh div 2"
  let ?m = "ht_num_buckets lh * 2 mod 2 ^ 64"
  have n: "?n < 2 ^ 64" "kMinNumBuckets \<le> ?n" "?m < 2 ^ 64" using assms by (auto simp: kMinNumBuckets_def)
  have "lh_maybe_resize m k lh = (lh, k) \<or> lh_maybe_resize m k lh = lh_rebucket m k lh ?n \<or>
      lh_maybe_resize m k lh = lh_rebucket m k lh ?m \<and> ht_num_buckets lh < ?m"
    by (simp only: lh_maybe_resize_def Let_def) (simp split: if_splits)
  then consider "lh_maybe_resize m k lh = (lh, k)" | "lh_maybe_resize m k lh = lh_rebucket m k lh ?n"
    | "lh_maybe_resize m k lh = lh_rebucket m k lh ?m" "kMinNumBuckets \<le> ?m"
    using assms(2) by linarith
  then show thesis
    by cases (erule that(1), erule that(2) [OF _ n(2,1)], erule that(2) [OF _ _ n(3)])
qed

lemma lh_maybe_resize_spec:
  assumes "table_ok lh" and "lh_maybe_resize m k lh = (lh', k')"
  shows "table_ok lh' \<and> same_items lh lh' \<and> k \<le> k'"
proof -
  have "ht_num_buckets lh < 2 ^ 64" "kMinNumBuckets \<le> ht_num_buckets lh"
    using assms(1) by (simp_all add: table_ok_def)
  then show ?thesis
  proof (cases rule: lh_maybe_resize_cases [of lh m k])
    case 1
    then show ?thesis using assms by simp
  next
    case (2 n)
    then show ?thesis using assms lh_rebucket_spec by metis
  qed
qed

section \<open>The interface to the client\<close>

text \<open>\<open>lh_ok\<close> is the representation invariant relative to the client's functions; \<open>lh_map\<close> is the map that
  the table stands for.\<close>

definition items_ok :: "(ptr \<Rightarrow> u32) \<Rightarrow> (ptr \<Rightarrow> 'k) \<Rightarrow> ptr set \<Rightarrow> lhash_item list \<Rightarrow> bool" where
  "items_ok hash key D items \<longleftrightarrow> distinct (item_keys key items) \<and>
     (\<forall>item \<in> set items. li_data item \<in> D \<and> li_hash item = hash (li_data item))"

definition lh_ok :: "(ptr \<Rightarrow> u32) \<Rightarrow> (ptr \<Rightarrow> 'k) \<Rightarrow> ptr set \<Rightarrow> lhash_st \<Rightarrow> bool" where
  "lh_ok hash key D lh \<longleftrightarrow> table_ok lh \<and> items_ok hash key D (lh_items lh)"

definition lh_map :: "(ptr \<Rightarrow> 'k) \<Rightarrow> lhash_st \<Rightarrow> 'k \<rightharpoonup> ptr" where
  "lh_map key lh = items_map key (lh_items lh)"

definition or_null :: "ptr option \<Rightarrow> ptr" where
  "or_null p = (case p of None \<Rightarrow> 0 | Some p \<Rightarrow> p)"

lemma or_null_simps [simp]: "or_null None = 0" "or_null (Some p) = p"
  by (simp_all add: or_null_def)

lemma items_ok_mset: "mset items = mset items' \<Longrightarrow> items_ok hash key D items \<longleftrightarrow> items_ok hash key D items'"
  unfolding items_ok_def using distinct_keys_mset mset_eq_setD by metis

lemma same_items_set: "same_items lh lh' \<Longrightarrow> set (lh_items lh') = set (lh_items lh)"
  by (auto simp: same_items_def dest: mset_eq_setD)

lemma resized:
  assumes "lh_ok hash key D lh" and "lh_maybe_resize m k lh = (lh', k')"
  shows "lh_ok hash key D lh' \<and> lh_map key lh' = lh_map key lh \<and> ht_comp lh' = ht_comp lh \<and>
    ht_hash lh' = ht_hash lh \<and> ht_callback_depth lh' = ht_callback_depth lh \<and> k \<le> k'"
proof -
  have t: "table_ok lh" and d: "distinct (item_keys key (lh_items lh))" using assms(1) by (simp_all add: lh_ok_def items_ok_def)
  have s: "table_ok lh'" "same_items lh lh'" "k \<le> k'" using lh_maybe_resize_spec [OF t assms(2)] by auto
  then have mset: "mset (lh_items lh) = mset (lh_items lh')" by (simp add: same_items_def)
  have "lh_map key lh' = lh_map key lh" using items_map_mset [OF mset d] by (simp add: lh_map_def)
  then show ?thesis
    using assms(1) s same_items_set [OF s(2)] distinct_keys_mset [OF mset] by (auto simp: lh_ok_def items_ok_def same_items_def)
qed

lemma lh_map_Some:
  assumes "lh_ok hash key D lh"
  shows "lh_map key lh x = Some d \<longleftrightarrow> (\<exists>item \<in> set (lh_items lh). li_data item = d \<and> key d = x)"
  using assms by (simp add: lh_ok_def items_ok_def lh_map_def items_map_Some)

lemma lh_map_key: "lh_ok hash key D lh \<Longrightarrow> lh_map key lh x = Some d \<Longrightarrow> key d = x \<and> d \<in> D"
  by (auto simp: lh_map_Some) (auto simp: lh_ok_def items_ok_def)

lemma lh_num_items_spec:
  assumes "lh_ok hash key D lh"
  shows "lh_num_items lh = card (dom (lh_map key lh)) mod 2 ^ 64"
  using assms by (simp add: lh_ok_def items_ok_def lh_map_def card_items_map lh_num_items_def table_ok_def)

text \<open>A table whose items are a permutation of well-formed items.\<close>

lemma items_denote:
  assumes "items_ok hash key D items" and "mset (lh_items lh) = mset items"
  shows "items_ok hash key D (lh_items lh) \<and> lh_map key lh = items_map key items"
proof -
  have io: "items_ok hash key D (lh_items lh)" using assms items_ok_mset by metis
  then show ?thesis using items_map_mset [OF assms(2), of key] by (simp add: items_ok_def lh_map_def)
qed

lemma lh_ok_bucket:
  assumes "lh_ok hash key D lh" and "b < length (ht_buckets lh)"
  shows "buckets_ok (ht_num_buckets lh) (ht_buckets lh) \<and> b < ht_num_buckets lh \<and>
    (\<forall>item \<in> set (ht_buckets lh ! b). unat (li_hash item) mod ht_num_buckets lh = b)"
  using assms by (auto simp: lh_ok_def table_ok_def buckets_ok_def)

abbreviation addrs :: "lhash_st \<Rightarrow> nat multiset" where
  "addrs lh \<equiv> image_mset li_addr (mset (lh_items lh))"

lemma replace_item:
  assumes "lh_ok hash key D lh" and "b < length (ht_buckets lh)" and "i < length (ht_buckets lh ! b)"
    and "item = ht_buckets lh ! b ! i" and "data \<in> D" and "key (li_data item) = key data"
    and "hash (li_data item) = hash data"
    and "lh' = lh\<lparr>ht_buckets := (ht_buckets lh)[b := (ht_buckets lh ! b)[i := item\<lparr>li_data := data\<rparr>]]\<rparr>"
  shows "lh_ok hash key D lh' \<and> lh_map key lh' = (lh_map key lh)(key data \<mapsto> data) \<and> addrs lh' = addrs lh"
proof -
  let ?new = "item\<lparr>li_data := data\<rparr>"
  obtain L where L: "mset (lh_items lh) = mset (item # L)" "mset (lh_items lh') = mset (?new # L)"
    using mset_concat_nth [OF assms(2,3)] assms(4,8) by (auto simp: lh_items_def)
  have io: "items_ok hash key D (item # L)" and t: "table_ok lh"
    using assms(1) items_ok_mset [OF L(1)] by (auto simp: lh_ok_def)
  then have new: "items_ok hash key D (?new # L)" using assms(5-7) by (simp add: items_ok_def)
  have "lh_map key lh' = items_map key (?new # L)" "lh_map key lh = items_map key (item # L)"
    using items_denote [OF new L(2)] items_denote [OF io L(1)] by auto
  then have map: "lh_map key lh' = (lh_map key lh)(key data \<mapsto> data)" using assms(6) by simp
  note b = lh_ok_bucket [OF assms(1,2)]
  have mem: "item \<in> set (ht_buckets lh ! b)" using assms(3,4) by simp
  have "unat (li_hash it) mod ht_num_buckets lh = b" if "it \<in> set ((ht_buckets lh ! b)[i := ?new])" for it
    using subsetD [OF set_update_subset_insert that] b mem by auto
  then have "buckets_ok (ht_num_buckets lh) (ht_buckets lh')" using buckets_ok_update b assms(8) by simp
  then have "table_ok lh'"
    using t assms(8) mset_eq_length [OF L(1)] mset_eq_length [OF L(2)] by (simp add: table_ok_def)
  then show ?thesis using items_denote [OF new L(2)] map L by (simp add: lh_ok_def)
qed

lemma append_item:
  assumes "lh_ok hash key D lh" and "b < length (ht_buckets lh)" and "data \<in> D" and "lh_map key lh (key data) = None"
    and "b = unat (hash data) mod ht_num_buckets lh" and "item = \<lparr>li_data = data, li_hash = hash data, li_addr = a\<rparr>"
    and "lh' = lh\<lparr>ht_buckets := (ht_buckets lh)[b := ht_buckets lh ! b @ [item]],
                  ht_num_items := szadd (ht_num_items lh) 1\<rparr>"
  shows "lh_ok hash key D lh' \<and> lh_map key lh' = (lh_map key lh)(key data \<mapsto> data) \<and> addrs lh' = add_mset a (addrs lh)"
proof -
  obtain R where "mset (lh_items lh) = mset (ht_buckets lh ! b) + mset R"
    and "\<And>c. mset (concat ((ht_buckets lh)[b := c])) = mset c + mset R"
    using mset_concat_update [OF assms(2)] unfolding lh_items_def by blast
  then have L: "mset (lh_items lh') = mset (item # lh_items lh)" by (simp add: lh_items_def assms(7))
  have t: "table_ok lh" using assms(1) by (simp add: lh_ok_def)
  have "key data \<notin> set (item_keys key (lh_items lh))" using assms(4) by (simp add: lh_map_def items_map_None)
  then have new: "items_ok hash key D (item # lh_items lh)" using assms(1,3,6) by (simp add: lh_ok_def items_ok_def)
  note b = lh_ok_bucket [OF assms(1,2)]
  have "unat (li_hash it) mod ht_num_buckets lh = b" if "it \<in> set (ht_buckets lh ! b @ [item])" for it
    using that b assms(5,6) by auto
  then have "buckets_ok (ht_num_buckets lh) ((ht_buckets lh)[b := ht_buckets lh ! b @ [item]])"
    using b by (intro buckets_ok_update) blast+
  then have "buckets_ok (ht_num_buckets lh) (ht_buckets lh')" by (simp add: assms(7))
  then have "table_ok lh'" using t assms(7) mset_eq_length [OF L] by (simp add: table_ok_def szadd_def mod_Suc_eq)
  then show ?thesis using items_denote [OF new L] L assms(6) by (simp add: lh_ok_def lh_map_def)
qed

lemma remove_item:
  assumes "lh_ok hash key D lh" and "b < length (ht_buckets lh)" and "i < length (ht_buckets lh ! b)"
    and "item = ht_buckets lh ! b ! i"
    and "lh' = lh\<lparr>ht_buckets := (ht_buckets lh)[b := take i (ht_buckets lh ! b) @ drop (Suc i) (ht_buckets lh ! b)],
                  ht_num_items := szadd (ht_num_items lh) (2 ^ 64 - 1)\<rparr>"
  shows "lh_ok hash key D lh' \<and> lh_map key lh' = (lh_map key lh)(key (li_data item) := None) \<and> addrs lh' \<subseteq># addrs lh"
proof -
  obtain L where L: "mset (lh_items lh) = mset (item # L)" "mset (lh_items lh') = mset L"
    using mset_concat_nth [OF assms(2,3)] assms(4,5) by (auto simp: lh_items_def)
  have io: "items_ok hash key D (item # L)" and t: "table_ok lh"
    using assms(1) items_ok_mset [OF L(1)] by (auto simp: lh_ok_def)
  then have new: "items_ok hash key D L" by (simp add: items_ok_def)
  have "lh_map key lh' = items_map key L" "lh_map key lh = items_map key (item # L)"
    using items_denote [OF new L(2)] items_denote [OF io L(1)] by auto
  then have map: "lh_map key lh' = (lh_map key lh)(key (li_data item) := None)"
    using items_map_drop [of key item L] io by (simp add: items_ok_def)
  note b = lh_ok_bucket [OF assms(1,2)]
  have "unat (li_hash it) mod ht_num_buckets lh = b"
    if "it \<in> set (take i (ht_buckets lh ! b) @ drop (Suc i) (ht_buckets lh ! b))" for it
    using that b by (auto dest: in_set_takeD in_set_dropD)
  then have "buckets_ok (ht_num_buckets lh)
      ((ht_buckets lh)[b := take i (ht_buckets lh ! b) @ drop (Suc i) (ht_buckets lh ! b)])"
    using b by (intro buckets_ok_update) blast+
  then have "buckets_ok (ht_num_buckets lh) (ht_buckets lh')" by (simp add: assms(5))
  moreover have "szadd (Suc (length L) mod 2 ^ 64) (2 ^ 64 - 1) = length L mod 2 ^ 64"
    by (simp add: szadd_def mod_simps)
  ultimately have "table_ok lh'"
    using t assms(5) mset_eq_length [OF L(1)] mset_eq_length [OF L(2)] by (simp add: table_ok_def)
  then show ?thesis using items_denote [OF new L(2)] map L by (simp add: lh_ok_def)
qed

locale keyed =
  fixes call_hash :: "ptr \<Rightarrow> ptr \<Rightarrow> u32" and call_cmp :: "ptr \<Rightarrow> ptr \<Rightarrow> ptr \<Rightarrow> int"
    and hash cmp :: ptr and key :: "ptr \<Rightarrow> 'k" and D :: "ptr set"
  assumes cmp_key: "a \<in> D \<Longrightarrow> b \<in> D \<Longrightarrow> call_cmp cmp a b = 0 \<longleftrightarrow> key a = key b"
    and hash_key: "a \<in> D \<Longrightarrow> b \<in> D \<Longrightarrow> key a = key b \<Longrightarrow> call_hash hash a = call_hash hash b"
begin

abbreviation good :: "lhash_st \<Rightarrow> bool" where
  "good lh \<equiv> ht_hash lh = hash \<and> ht_comp lh = cmp \<and> lh_ok (call_hash hash) key D lh"

text \<open>A search in the chain of a hash value, with a test that decides the key \<open>x\<close>, which has that hash
  value: it finds the item of the key or NULL.\<close>

lemma search_chain:
  assumes "good lh"
    and test: "\<And>item. item \<in> set (lh_items lh) \<Longrightarrow> test item \<longleftrightarrow> key (li_data item) = x"
    and hv: "\<And>d. d \<in> D \<Longrightarrow> key d = x \<Longrightarrow> call_hash hash d = hv"
    and b: "b = unat hv mod ht_num_buckets lh" and i: "i = chain_pos test (ht_buckets lh ! b)"
  shows "b < length (ht_buckets lh) \<and> (case next_item lh (b, i) of
      None \<Rightarrow> lh_map key lh x = None
    | Some item \<Rightarrow> i < length (ht_buckets lh ! b) \<and> item = ht_buckets lh ! b ! i \<and>
        lh_map key lh x = Some (li_data item))"
proof -
  let ?chain = "ht_buckets lh ! b"
  have ok: "lh_ok (call_hash hash) key D lh" using assms(1) by blast
  have bs: "buckets_ok (ht_num_buckets lh) (ht_buckets lh)" and b': "b < length (ht_buckets lh)"
    using ok b by (auto simp: lh_ok_def items_ok_def table_ok_def buckets_ok_def kMinNumBuckets_def)
  have sub: "set ?chain \<subseteq> set (lh_items lh)"
    using nth_mem [OF b'] by (auto simp: lh_items_def)
  show ?thesis
  proof (cases "i < length ?chain")
    case True
    have mem: "?chain ! i \<in> set (lh_items lh)" using True sub by (meson nth_mem subsetD)
    have "key (li_data (?chain ! i)) = x"
      using chain_pos_hit [of test ?chain] True test [OF mem] by (simp add: i)
    then have "lh_map key lh x = Some (li_data (?chain ! i))"
      using mem by (auto simp: lh_map_Some [OF ok])
    then show ?thesis using True b' by (simp add: next_item.simps)
  next
    case False
    then have "i = length ?chain" using chain_pos_bound [of test ?chain] by (simp add: i)
    then have miss: "\<not> test item" if "item \<in> set ?chain" for item
      using that chain_pos_miss [of test ?chain] by (auto simp: i)
    have "lh_map key lh x \<noteq> Some d" for d
    proof
      assume "lh_map key lh x = Some d"
      then obtain item where item: "item \<in> set (lh_items lh)" "li_data item = d" "key d = x"
        by (auto simp: lh_map_Some [OF ok])
      have "li_hash item = hv" using ok item hv by (auto simp: lh_ok_def items_ok_def)
      then have "item \<in> set ?chain"
        using bucket_of_item [OF bs, of item] item(1) by (simp add: b lh_items_def)
      then show False using miss test item by auto
    qed
    then show ?thesis using False b' by (cases "lh_map key lh x") (auto simp: next_item.simps)
  qed
qed

lemma get_next_ptr_spec:
  assumes "good lh" and "data \<in> D" and "get_next_ptr_and_hash call_hash call_cmp lh data = (hv, b, i)"
  shows "hv = call_hash hash data \<and> b = unat hv mod ht_num_buckets lh \<and> b < length (ht_buckets lh) \<and>
   (case next_item lh (b, i) of
      None \<Rightarrow> lh_map key lh (key data) = None
    | Some item \<Rightarrow> i < length (ht_buckets lh ! b) \<and> item = ht_buckets lh ! b ! i \<and>
        lh_map key lh (key data) = Some (li_data item))"
proof -
  have g: "hv = call_hash hash data" "b = unat hv mod ht_num_buckets lh"
    and i: "i = chain_pos (\<lambda>cur. call_cmp cmp (li_data cur) data = 0) (ht_buckets lh ! b)"
    using assms(1,3) by (auto simp: get_next_ptr_and_hash_def Let_def)
  have t: "call_cmp cmp (li_data item) data = 0 \<longleftrightarrow> key (li_data item) = key data" if "item \<in> set (lh_items lh)" for item
    using that assms(1,2) cmp_key by (auto simp: lh_ok_def items_ok_def)
  have h: "call_hash hash d = hv" if "d \<in> D" "key d = key data" for d
    using hash_key [OF that(1) assms(2) that(2)] g(1) by simp
  from search_chain [OF assms(1) t h g(2) i] g show ?thesis by blast
qed

lemma retrieve_spec:
  assumes "good lh" and "data \<in> D"
  shows "lh_retrieve call_hash call_cmp lh data = or_null (lh_map key lh (key data))"
proof -
  obtain hv b i where g: "get_next_ptr_and_hash call_hash call_cmp lh data = (hv, b, i)"
    by (metis prod_cases3)
  show ?thesis
    using get_next_ptr_spec [OF assms g] g by (auto simp: lh_retrieve_def split: option.splits)
qed

lemma retrieve_key_spec:
  assumes "good lh" and "\<And>d. d \<in> D \<Longrightarrow> cmp_key ky d = 0 \<longleftrightarrow> key d = x"
    and "\<And>d. d \<in> D \<Longrightarrow> key d = x \<Longrightarrow> call_hash hash d = key_hash"
  shows "lh_retrieve_key lh ky key_hash cmp_key = or_null (lh_map key lh x)"
proof -
  have t: "cmp_key ky (li_data item) = 0 \<longleftrightarrow> key (li_data item) = x" if "item \<in> set (lh_items lh)" for item
    using that assms(1,2) by (auto simp: lh_ok_def items_ok_def)
  obtain b i where g: "get_next_ptr_by_key lh ky key_hash cmp_key = (b, i)" by (metis prod.exhaust)
  then have b: "b = unat key_hash mod ht_num_buckets lh"
    and i: "i = chain_pos (\<lambda>cur. cmp_key ky (li_data cur) = 0) (ht_buckets lh ! b)"
    by (auto simp: get_next_ptr_by_key_def Let_def)
  have "case next_item lh (b, i) of None \<Rightarrow> lh_map key lh x = None
      | Some item \<Rightarrow> i < length (ht_buckets lh ! b) \<and> item = ht_buckets lh ! b ! i \<and>
          lh_map key lh x = Some (li_data item)"
    using search_chain [OF assms(1) t assms(3) b i] by blast
  then show ?thesis by (simp add: lh_retrieve_key_def g split: option.splits)
qed

text \<open>What an insertion does before it resizes: it replaces an item, appends one, or fails for want of
  memory.\<close>

lemma insert_cases:
  assumes "good lh" and "data \<in> D" and "lh_insert call_hash call_cmp m k lh data = (ok, old, lh', k')"
  obtains (replaced) d where "lh_map key lh (key data) = Some d" "ok" "old = d" "k' = k" "same_shape lh lh'"
      "lh_ok (call_hash hash) key D lh'" "lh_map key lh' = (lh_map key lh)(key data \<mapsto> data)" "addrs lh' = addrs lh"
  | (failed) "lh_map key lh (key data) = None" "fst (OPENSSL_malloc m k sizeof_LHASH_ITEM) = None" "\<not> ok"
      "old = 0" "lh' = lh" "k' = Suc k"
  | (appended) lh1 where "lh_map key lh (key data) = None" "ok" "old = 0" "same_shape lh lh1"
      "lh_ok (call_hash hash) key D lh1" "lh_map key lh1 = (lh_map key lh)(key data \<mapsto> data)"
      "lh_maybe_resize m (Suc k) lh1 = (lh', k')" "addrs lh1 = add_mset k (addrs lh)"
proof -
  obtain hv b i where g: "get_next_ptr_and_hash call_hash call_cmp lh data = (hv, b, i)"
    by (metis prod_cases3)
  have hv: "hv = call_hash hash data" "b = unat hv mod ht_num_buckets lh" and bl: "b < length (ht_buckets lh)"
    and gs: "case next_item lh (b, i) of None \<Rightarrow> lh_map key lh (key data) = None
      | Some item \<Rightarrow> i < length (ht_buckets lh ! b) \<and> item = ht_buckets lh ! b ! i \<and>
          lh_map key lh (key data) = Some (li_data item)"
    using get_next_ptr_spec [OF assms(1,2) g] by blast+
  have ok: "lh_ok (call_hash hash) key D lh" using assms(1) by blast
  show thesis
  proof (cases "next_item lh (b, i)")
    case (Some item)
    let ?lh = "lh\<lparr>ht_buckets := (ht_buckets lh)[b := (ht_buckets lh ! b)[i := item\<lparr>li_data := data\<rparr>]]\<rparr>"
    have i: "i < length (ht_buckets lh ! b)" "item = ht_buckets lh ! b ! i"
      and old: "lh_map key lh (key data) = Some (li_data item)"
      using gs Some by simp_all
    have key: "key (li_data item) = key data" and D: "li_data item \<in> D" using lh_map_key [OF ok old] by auto
    note r = replace_item [OF ok bl i assms(2) key hash_key [OF D assms(2) key] refl]
    have "ok" "old = li_data item" "lh' = ?lh" "k' = k" using assms(3) Some by (auto simp: lh_insert_def g)
    with old r show thesis by (intro replaced) (simp_all add: same_shape_def)
  next
    case None
    have none: "lh_map key lh (key data) = None" using gs None by simp
    have b: "b = unat (call_hash hash data) mod ht_num_buckets lh" using hv by simp
    let ?new = "\<lparr>li_data = data, li_hash = hv, li_addr = k\<rparr>"
    let ?lh = "lh\<lparr>ht_buckets := (ht_buckets lh)[b := ht_buckets lh ! b @ [?new]],
                  ht_num_items := szadd (ht_num_items lh) 1\<rparr>"
    show thesis
    proof (cases "fst (OPENSSL_malloc m k sizeof_LHASH_ITEM)")
      case None
      then show thesis
        using assms none \<open>next_item lh (b, i) = None\<close>
        by (intro failed) (auto simp: lh_insert_def g OPENSSL_malloc_def split: option.splits)
    next
      case (Some _)
      then have r: "ok" "old = 0" "lh_maybe_resize m (Suc k) ?lh = (lh', k')"
        using assms(3) \<open>next_item lh (b, i) = None\<close>
        by (auto simp: lh_insert_def g Let_def OPENSSL_malloc_def split: option.splits)
      have new: "?new = \<lparr>li_data = data, li_hash = call_hash hash data, li_addr = k\<rparr>" by (simp add: hv(1))
      note a = append_item [OF ok bl assms(2) none b new refl]
      show thesis
        by (rule appended [OF none r(1,2) _ conjunct1 [OF a] _ r(3)]) (use a in \<open>simp_all add: same_shape_def\<close>)
    qed
  qed
qed

lemma insert_spec:
  assumes "good lh" and "data \<in> D" and "lh_insert call_hash call_cmp m k lh data = (ok, old, lh', k')"
  shows "good lh' \<and> ht_callback_depth lh' = ht_callback_depth lh \<and> k \<le> k' \<and>
    (if ok then lh_map key lh' = (lh_map key lh)(key data \<mapsto> data) \<and> old = or_null (lh_map key lh (key data))
     else lh' = lh \<and> old = 0 \<and> lh_map key lh (key data) = None)"
using assms
proof (cases rule: insert_cases)
  case (replaced d)
  then show ?thesis using assms(1) by (simp add: same_shape_def)
next
  case failed
  then show ?thesis using assms(1) by simp
next
  case (appended lh1)
  from resized [OF appended(5,7)] show ?thesis using appended assms(1) by (simp add: same_shape_def)
qed

lemma delete_cases:
  assumes "good lh" and "data \<in> D" and "lh_delete call_hash call_cmp m k lh data = (ret, lh', k')"
  obtains (absent) "lh_map key lh (key data) = None" "ret = 0" "lh' = lh" "k' = k"
  | (removed) lh1 where "lh_map key lh (key data) = Some ret" "same_shape lh lh1"
      "lh_ok (call_hash hash) key D lh1" "lh_map key lh1 = (lh_map key lh)(key data := None)"
      "lh_maybe_resize m k lh1 = (lh', k')" "addrs lh1 \<subseteq># addrs lh"
proof -
  obtain hv b i where g: "get_next_ptr_and_hash call_hash call_cmp lh data = (hv, b, i)"
    by (metis prod_cases3)
  have bl: "b < length (ht_buckets lh)"
    and gs: "case next_item lh (b, i) of None \<Rightarrow> lh_map key lh (key data) = None
      | Some item \<Rightarrow> i < length (ht_buckets lh ! b) \<and> item = ht_buckets lh ! b ! i \<and>
          lh_map key lh (key data) = Some (li_data item)"
    using get_next_ptr_spec [OF assms(1,2) g] by blast+
  have ok: "lh_ok (call_hash hash) key D lh" using assms(1) by blast
  show thesis
  proof (cases "next_item lh (b, i)")
    case None
    then show thesis using assms gs by (intro absent) (auto simp: lh_delete_def g)
  next
    case (Some item)
    have i: "i < length (ht_buckets lh ! b)" "item = ht_buckets lh ! b ! i"
      and old: "lh_map key lh (key data) = Some (li_data item)"
      using gs Some by simp_all
    note a = remove_item [OF ok bl i refl]
    have r: "ret = li_data item"
      and z: "lh_maybe_resize m k (lh\<lparr>ht_buckets := (ht_buckets lh)[b := take i (ht_buckets lh ! b) @ drop (Suc i) (ht_buckets lh ! b)],
                  ht_num_items := szadd (ht_num_items lh) (2 ^ 64 - 1)\<rparr>) = (lh', k')"
      using assms(3) Some by (simp_all add: lh_delete_def g Let_def)
    show thesis
      by (rule removed [OF _ _ conjunct1 [OF a] _ z])
        (use old r a lh_map_key [OF ok old] in \<open>simp_all add: same_shape_def\<close>)
  qed
qed

lemma delete_spec:
  assumes "good lh" and "data \<in> D" and "lh_delete call_hash call_cmp m k lh data = (ret, lh', k')"
  shows "good lh' \<and> ht_callback_depth lh' = ht_callback_depth lh \<and> k \<le> k' \<and>
    ret = or_null (lh_map key lh (key data)) \<and> lh_map key lh' = (lh_map key lh)(key data := None)"
using assms
proof (cases rule: delete_cases)
  case absent
  then show ?thesis using assms(1) by (simp add: fun_upd_idem)
next
  case (removed lh1)
  from resized [OF removed(3,5)] show ?thesis using removed assms(1) by (simp add: same_shape_def)
qed

end

end
