(* ===== verification/LhashWalk.thy ===== *)
theory LhashWalk
  imports LhashSpec
begin

text \<open>
  The walk \<open>lh_doall_arg\<close> over the hash table, with a callback that may delete the item it is called with,
  and the load factor that resizing maintains.
\<close>

section \<open>Addresses of items\<close>

definition addrs_ok :: "nat \<Rightarrow> lhash_st \<Rightarrow> bool" where
  "addrs_ok k lh \<longleftrightarrow> distinct (map li_addr (lh_items lh)) \<and> (\<forall>item \<in> set (lh_items lh). li_addr item < k)"

lemma distinct_addrs_mset:
  assumes "mset items = mset items'"
  shows "distinct (map li_addr items) \<longleftrightarrow> distinct (map li_addr items')"
  using assms by (metis mset_eq_imp_distinct_iff mset_map)

lemma addrs_ok_same:
  assumes "addrs_ok k lh" and "same_items lh lh'" and "k \<le> k'"
  shows "addrs_ok k' lh'"
  using assms distinct_addrs_mset [of "lh_items lh'" "lh_items lh"] same_items_set [OF assms(2)]
  by (fastforce simp: addrs_ok_def same_items_def)

lemma addrs_ok_iff: "addrs_ok k lh \<longleftrightarrow> (\<forall>a \<in># addrs lh. a < k \<and> count (addrs lh) a = 1)"
  by (auto simp: addrs_ok_def distinct_count_atmost_1 simp flip: mset_map)

lemma item_in_chain_at:
  assumes "li_addr item \<notin> li_addr ` set ys"
  shows "item_in_chain (li_addr item) (ys @ item # zs) = Some (li_data item, chain_head zs)"
  using assms by (induction ys) auto

lemma item_in_chain_None: "item_in_chain a chain = None \<longleftrightarrow> a \<notin> li_addr ` set chain"
  by (induction chain) auto

lemma item_in_concat: "j < length bs \<Longrightarrow> bs ! j = ys @ item # zs \<Longrightarrow> item \<in> set (concat bs)"
  unfolding set_concat_nth by (intro exI [of _ j]) simp

lemma distinct_chain: "distinct (map f (concat bs)) \<Longrightarrow> j < length bs \<Longrightarrow> distinct (map f (bs ! j))"
  by (induction bs arbitrary: j) (auto simp: less_Suc_eq_0_disj)

lemma read_item_at:
  assumes "distinct (map li_addr (concat bs))" and "j < length bs" and "bs ! j = ys @ item # zs"
  shows "read_item (li_addr item) bs = Some (li_data item, chain_head zs)"
  using assms
proof (induction bs arbitrary: j)
  case (Cons c bs)
  show ?case
  proof (cases j)
    case 0
    then have "c = ys @ item # zs" using Cons.prems(3) by simp
    then show ?thesis using Cons.prems(1) item_in_chain_at [of item ys zs] by simp
  next
    case (Suc j')
    then have j': "j' < length bs" "bs ! j' = ys @ item # zs" using Cons.prems by auto
    then have "item \<in> set (concat bs)" by (rule item_in_concat)
    then have "li_addr item \<notin> li_addr ` set c" using Cons.prems(1) by auto
    then have "item_in_chain (li_addr item) c = None" by (simp add: item_in_chain_None)
    then show ?thesis using Cons.IH [OF _ j'] Cons.prems(1) by simp
  qed
qed simp

section \<open>A visitor that may delete what it visits\<close>

text \<open>The callback logs the data it is called with and deletes the item if \<open>p\<close> says so.\<close>

definition visit ::
  "(ptr \<Rightarrow> ptr \<Rightarrow> u32) \<Rightarrow> (ptr \<Rightarrow> ptr \<Rightarrow> ptr \<Rightarrow> int) \<Rightarrow> allocator \<Rightarrow> (ptr \<Rightarrow> bool) \<Rightarrow> ptr \<Rightarrow>
     lhash_st \<times> nat \<times> ptr list \<Rightarrow> (lhash_st \<times> nat \<times> ptr list) option" where
  "visit call_hash call_cmp m p data st =
     (case st of (lh, k, seen) \<Rightarrow>
        if p data
        then (case lh_delete call_hash call_cmp m k lh data of (_, lh, k) \<Rightarrow> Some (lh, k, seen @ [data]))
        else Some (lh, k, seen @ [data]))"

text \<open>The table after the visitor has gone over the chains before \<open>j\<close>, and over the chain \<open>j\<close> up to what is
  left of it.\<close>

abbreviation keeping :: "(ptr \<Rightarrow> bool) \<Rightarrow> lhash_item list \<Rightarrow> lhash_item list" where
  "keeping p chain \<equiv> filter (\<lambda>item. \<not> p (li_data item)) chain"

context keyed
begin

lemma delete_while_walking:
  assumes "good lh" and "ht_callback_depth lh > 0" and "j < length (ht_buckets lh)"
    and "ht_buckets lh ! j = ys @ item # zs"
  shows "lh_delete call_hash call_cmp m k lh (li_data item) =
    (li_data item, lh\<lparr>ht_buckets := (ht_buckets lh)[j := ys @ zs],
       ht_num_items := szadd (ht_num_items lh) (2 ^ 64 - 1)\<rparr>, k)"
proof -
  have ok: "lh_ok (call_hash hash) key D lh" using assms(1) by blast
  note jb = lh_ok_bucket [OF ok assms(3)]
  have mem: "item \<in> set (lh_items lh)" using item_in_concat [OF assms(3,4)] by (simp add: lh_items_def)
  then have D: "li_data item \<in> D" and h: "li_hash item = call_hash hash (li_data item)"
    using ok by (auto simp: lh_ok_def items_ok_def)
  obtain hv b i where g: "get_next_ptr_and_hash call_hash call_cmp lh (li_data item) = (hv, b, i)"
    by (metis prod_cases3)
  have "b = unat (li_hash item) mod ht_num_buckets lh"
    and n: "case next_item lh (b, i) of None \<Rightarrow> lh_map key lh (key (li_data item)) = None
      | Some it \<Rightarrow> i < length (ht_buckets lh ! b) \<and> it = ht_buckets lh ! b ! i \<and>
          lh_map key lh (key (li_data item)) = Some (li_data it)"
    using get_next_ptr_spec [OF assms(1) D g] h by auto
  then have b: "b = j" using jb assms(4) by simp
  have some: "lh_map key lh (key (li_data item)) = Some (li_data item)" using mem by (auto simp: lh_map_Some [OF ok])
  have "next_item lh (j, i) \<noteq> None"
  proof
    assume "next_item lh (j, i) = None"
    from n [unfolded b this option.case] some show False by simp
  qed
  then obtain it where nx: "next_item lh (j, i) = Some it" by blast
  then have it: "i < length (ht_buckets lh ! j)" "it = ht_buckets lh ! j ! i" "li_data it = li_data item"
    using n [unfolded b nx option.case] unfolding some by simp_all
  have "distinct (item_keys key (ht_buckets lh ! j))"
    by (rule distinct_chain [OF _ assms(3)]) (use ok in \<open>simp add: lh_ok_def items_ok_def lh_items_def\<close>)
  moreover have "item_keys key (ht_buckets lh ! j) ! i = item_keys key (ht_buckets lh ! j) ! length ys"
  proof -
    have "item_keys key (ht_buckets lh ! j) ! i = key (li_data item)"
      unfolding nth_map [OF it(1)] it(2) [symmetric] it(3) ..
    moreover have "item_keys key (ht_buckets lh ! j) ! length ys = key (li_data item)"
      using nth_append_length [of "item_keys key ys"] by (simp add: assms(4))
    ultimately show ?thesis by simp
  qed
  ultimately have "i = length ys"
    using it(1) assms(4) nth_eq_iff_index_eq [of "item_keys key (ht_buckets lh ! j)" i "length ys"]
    unfolding length_map by simp
  then show ?thesis
    using nx it(3) assms(2,4) by (simp add: lh_delete_def g [unfolded b] Let_def lh_maybe_resize_def)
qed

text \<open>One step of the walk: the state before the callback, and after it.\<close>

definition ready :: "nat \<Rightarrow> lhash_st \<Rightarrow> bool" where
  "ready k lh \<longleftrightarrow> good lh \<and> ht_callback_depth lh > 0 \<and> addrs_ok k lh"

definition updated :: "lhash_st \<Rightarrow> lhash_item list list \<Rightarrow> lhash_st \<Rightarrow> bool" where
  "updated lh bs lh' \<longleftrightarrow> ht_buckets lh' = bs \<and> ht_num_buckets lh' = ht_num_buckets lh \<and>
     ht_callback_depth lh' = ht_callback_depth lh"

lemma visit_step:
  assumes "ready k lh" and "j < length (ht_buckets lh)" and "ht_buckets lh ! j = ys @ item # zs"
  shows "\<exists>lh'. visit call_hash call_cmp m p (li_data item) (lh, k, seen) = Some (lh', k, seen @ [li_data item]) \<and>
    ready k lh' \<and> updated lh ((ht_buckets lh)[j := ys @ keeping p [item] @ zs]) lh'"
proof (cases "p (li_data item)")
  case False
  have "(ht_buckets lh)[j := ys @ item # zs] = ht_buckets lh" by (metis assms(3) list_update_id)
  then show ?thesis using assms False by (simp add: visit_def updated_def)
next
  case True
  have g: "good lh" "ht_callback_depth lh > 0" and a: "addrs_ok k lh" using assms(1) by (simp_all add: ready_def)
  have "item \<in> set (lh_items lh)" using item_in_concat [OF assms(2,3)] by (simp add: lh_items_def)
  then have D: "li_data item \<in> D" using g(1) by (auto simp: lh_ok_def items_ok_def)
  let ?lh = "lh\<lparr>ht_buckets := (ht_buckets lh)[j := ys @ zs], ht_num_items := szadd (ht_num_items lh) (2 ^ 64 - 1)\<rparr>"
  have d: "lh_delete call_hash call_cmp m k lh (li_data item) = (li_data item, ?lh, k)"
    by (rule delete_while_walking [OF g assms(2,3)])
  obtain R where "mset (lh_items lh) = mset (ht_buckets lh ! j) + mset R" "mset (lh_items ?lh) = mset (ys @ zs) + mset R"
    by (rule mset_concat_update [OF assms(2)]) (simp add: lh_items_def)
  then have L: "mset (lh_items lh) = mset (item # ys @ zs @ R)" "mset (lh_items ?lh) = mset (ys @ zs @ R)"
    by (simp_all add: assms(3))
  have "addrs_ok k ?lh"
    using a distinct_addrs_mset [OF L(1)] distinct_addrs_mset [OF L(2)] mset_eq_setD [OF L(1)] mset_eq_setD [OF L(2)]
    by (auto simp: addrs_ok_def)
  then have "ready k ?lh" using delete_spec [OF g(1) D d] g by (simp add: ready_def)
  then show ?thesis using True d by (simp add: visit_def updated_def)
qed

lemma walk_chain:
  assumes "ready k lh" and "j < length (ht_buckets lh)" and "ht_buckets lh ! j = ys @ zs"
  shows "\<exists>lh'. doall_chain (visit call_hash call_cmp m p) (chain_head zs) (lh, k, seen) =
      Some (lh', k, seen @ map li_data zs) \<and>
    ready k lh' \<and> updated lh ((ht_buckets lh)[j := ys @ keeping p zs]) lh'"
  using assms
proof (induction zs arbitrary: lh ys seen)
  case Nil
  then have "(ht_buckets lh)[j := ys] = ht_buckets lh" by (simp add: list_update_same_conv)
  then show ?case using Nil by (simp add: doall_chain.simps updated_def)
next
  case (Cons item zs)
  have r: "read_item (li_addr item) (ht_buckets lh) = Some (li_data item, chain_head zs)"
    using Cons.prems by (intro read_item_at) (auto simp: ready_def addrs_ok_def lh_items_def)
  obtain lh1 where v: "visit call_hash call_cmp m p (li_data item) (lh, k, seen) = Some (lh1, k, seen @ [li_data item])"
    and lh1: "ready k lh1" "updated lh ((ht_buckets lh)[j := ys @ keeping p [item] @ zs]) lh1"
    using visit_step [OF Cons.prems, of m p seen] by blast
  have j: "j < length (ht_buckets lh1)" "ht_buckets lh1 ! j = (ys @ keeping p [item]) @ zs"
    using lh1(2) Cons.prems(2) by (simp_all add: updated_def)
  from Cons.IH [OF lh1(1) j, of "seen @ [li_data item]"] show ?case
    using lh1(2) by (subst doall_chain.simps) (auto simp: r v updated_def)
qed

lemma walk_buckets:
  assumes "ready k lh" and "i \<le> ht_num_buckets lh"
  shows "\<exists>lh'. doall_buckets (visit call_hash call_cmp m p) i (lh, k, seen) =
      Some (lh', k, seen @ map li_data (concat (drop i (ht_buckets lh)))) \<and>
    ready k lh' \<and> updated lh (take i (ht_buckets lh) @ map (keeping p) (drop i (ht_buckets lh))) lh'"
  using assms
proof (induction "ht_num_buckets lh - i" arbitrary: lh i seen)
  case 0
  then have "length (ht_buckets lh) = i" by (auto simp: ready_def lh_ok_def table_ok_def buckets_ok_def)
  then show ?case using 0 by (subst doall_buckets.simps) (simp add: updated_def)
next
  case (Suc n)
  have len: "length (ht_buckets lh) = ht_num_buckets lh"
    using Suc.prems by (auto simp: ready_def lh_ok_def table_ok_def buckets_ok_def)
  have i: "i < length (ht_buckets lh)" using Suc.hyps(2) len by simp
  let ?c = "ht_buckets lh ! i"
  obtain lh1 where w: "doall_chain (visit call_hash call_cmp m p) (chain_head ?c) (lh, k, seen) =
      Some (lh1, k, seen @ map li_data ?c)"
    and lh1: "ready k lh1" "updated lh ((ht_buckets lh)[i := keeping p ?c]) lh1"
    using walk_chain [OF Suc.prems(1) i, of "[]" ?c m p seen] by auto
  have n: "n = ht_num_buckets lh1 - (i + 1)" "i + 1 \<le> ht_num_buckets lh1"
    using Suc.hyps(2) lh1(2) by (auto simp: updated_def)
  have bs: "ht_buckets lh1 = (ht_buckets lh)[i := keeping p ?c]" using lh1(2) by (simp add: updated_def)
  have d: "drop (i + 1) (ht_buckets lh1) = drop (Suc i) (ht_buckets lh)"
    and t: "take (i + 1) (ht_buckets lh1) = take i (ht_buckets lh) @ [keeping p ?c]"
    using i by (simp_all add: bs take_Suc_conv_app_nth)
  obtain lh2 where d2: "doall_buckets (visit call_hash call_cmp m p) (i + 1) (lh1, k, seen @ map li_data ?c) =
      Some (lh2, k, (seen @ map li_data ?c) @ map li_data (concat (drop (Suc i) (ht_buckets lh))))"
    and lh2: "ready k lh2"
      "updated lh1 ((take i (ht_buckets lh) @ [keeping p ?c]) @ map (keeping p) (drop (Suc i) (ht_buckets lh))) lh2"
    using Suc.hyps(1) [OF n(1) lh1(1) n(2), of "seen @ map li_data ?c"] unfolding d t by blast
  have ci: "drop i (ht_buckets lh) = ?c # drop (Suc i) (ht_buckets lh)" using i by (simp add: Cons_nth_drop_Suc)
  show ?case
    using lh1(2) lh2 len i by (subst doall_buckets.simps) (auto simp: w d2 [simplified] ci updated_def)
qed

lemma walk_spec:
  assumes "good lh" and "addrs_ok k lh" and "ht_callback_depth lh + 1 < UINT_MAX"
  shows "\<exists>lh' k'. lh_doall_arg m (visit call_hash call_cmp m p) (lh, k, []) = Some (lh', k', map li_data (lh_items lh)) \<and>
    good lh' \<and> addrs_ok k' lh' \<and> ht_callback_depth lh' = ht_callback_depth lh \<and>
    mset (lh_items lh') = mset (keeping p (lh_items lh))"
proof -
  let ?lh = "lh\<lparr>ht_callback_depth := ht_callback_depth lh + 1\<rparr>"
  have "ready k ?lh" using assms by (simp add: ready_def lh_ok_def table_ok_def addrs_ok_def lh_items_def)
  from walk_buckets [OF this, of 0 m p "[]"] obtain lh1
    where w: "doall_buckets (visit call_hash call_cmp m p) 0 (?lh, k, []) = Some (lh1, k, map li_data (lh_items lh))"
    and lh1: "ready k lh1" "updated ?lh (map (keeping p) (ht_buckets lh)) lh1"
    by (auto simp: lh_items_def)
  let ?lh1 = "lh1\<lparr>ht_callback_depth := ht_callback_depth lh\<rparr>"
  obtain lh2 k2 where z: "lh_maybe_resize m k ?lh1 = (lh2, k2)" by (metis prod.exhaust)
  have g: "good ?lh1" "addrs_ok k ?lh1"
    using lh1(1) by (simp_all add: ready_def lh_ok_def table_ok_def addrs_ok_def lh_items_def)
  have items: "lh_items ?lh1 = keeping p (lh_items lh)"
    using lh1(2) by (simp add: updated_def lh_items_def filter_concat)
  have ok: "lh_ok (call_hash hash) key D ?lh1" and t: "table_ok ?lh1" using g(1) by (simp_all add: lh_ok_def)
  note s = lh_maybe_resize_spec [OF t z] and r = resized [OF ok z]
  have "lh_doall_arg m (visit call_hash call_cmp m p) (lh, k, []) = Some (lh2, k2, map li_data (lh_items lh))"
    using assms(3) lh1(2) by (simp add: lh_doall_arg_def w [simplified] z [simplified] updated_def)
  moreover have "addrs_ok k2 lh2" using addrs_ok_same [OF g(2)] s by blast
  moreover have "good lh2" using r g(1) by simp
  moreover have "ht_callback_depth lh2 = ht_callback_depth lh" using r lh1(2) by (simp add: updated_def)
  moreover have "mset (lh_items lh2) = mset (keeping p (lh_items lh))" using s items by (simp add: same_items_def)
  ultimately show ?thesis by blast
qed

end

section \<open>The load factor\<close>

text \<open>While memory is there, the table has fewer than three items for every bucket, and not more buckets
  than items, once it has grown beyond the minimal size.\<close>

definition load_ok :: "lhash_st \<Rightarrow> bool" where
  "load_ok lh \<longleftrightarrow> length (lh_items lh) < 3 * ht_num_buckets lh \<and>
     (ht_num_buckets lh = kMinNumBuckets \<or> ht_num_buckets lh \<le> length (lh_items lh))"

text \<open>One item more or less than a well-loaded table has.\<close>

definition nearly_ok :: "lhash_st \<Rightarrow> bool" where
  "nearly_ok lh \<longleftrightarrow> length (lh_items lh) \<le> 3 * ht_num_buckets lh \<and>
     (ht_num_buckets lh = kMinNumBuckets \<or> ht_num_buckets lh \<le> Suc (length (lh_items lh)))"

lemma lh_rebucket_live:
  assumes "alloc_avail m limit" and "limit < 2 ^ 63" and "8 * n + OPENSSL_MALLOC_PREFIX \<le> limit"
  shows "ht_num_buckets (fst (lh_rebucket m k lh n)) = n"
proof -
  have "8 * n < 2 ^ 64" using assms(2,3) by simp
  moreover obtain b where "OPENSSL_malloc m k (8 * n) = (Some b, Suc k)"
    using OPENSSL_malloc_avail [OF assms(1) _ assms(3)] assms(2) by fastforce
  ultimately show ?thesis by (simp add: lh_rebucket_def Let_def sizeof_LHASH_ITEM_ptr_def)
qed

lemma resize_restores_load:
  assumes "table_ok lh" and "nearly_ok lh" and "ht_callback_depth lh = 0" and "length (lh_items lh) < 2 ^ 60"
    and "alloc_avail m limit" and "limit < 2 ^ 63" and "16 * ht_num_buckets lh + OPENSSL_MALLOC_PREFIX \<le> limit"
    and "lh_maybe_resize m k lh = (lh', k')"
  shows "load_ok lh'"
proof -
  let ?n = "ht_num_buckets lh" and ?len = "length (lh_items lh)"
  have n: "16 \<le> ?n" "ht_num_items lh = ?len"
    using assms(1,4) by (simp_all add: table_ok_def kMinNumBuckets_def)
  have near: "?len \<le> 3 * ?n" "?n = 16 \<or> ?n \<le> Suc ?len"
    using assms(2) by (simp_all add: nearly_ok_def kMinNumBuckets_def)
  have len: "length (lh_items lh') = ?len"
    using lh_maybe_resize_spec [OF assms(1,8)] by (auto simp: same_items_def dest: mset_eq_length)
  have dbl: "?n * 2 mod 2 ^ 64 = 2 * ?n" using assms(6,7) by simp
  consider "?len = 3 * ?n" | "?n \<le> ?len" "?len < 3 * ?n" | "?len < ?n" using near(1) by linarith
  then show ?thesis
  proof cases
    case 1
    then have "2 < ?len div ?n" using n(1) by simp
    then have "lh_maybe_resize m k lh = lh_rebucket m k lh (2 * ?n)"
      using assms(3) n dbl by (simp add: lh_maybe_resize_def kMaxAverageChainLength_def Let_def)
    then have "lh_rebucket m k lh (2 * ?n) = (lh', k')" using assms(8) by simp
    then have "ht_num_buckets lh' = 2 * ?n"
      using lh_rebucket_live [OF assms(5,6), of "2 * ?n" k lh] assms(7) by simp
    then show ?thesis using 1 n len by (simp add: load_ok_def)
  next
    case 2
    then have "?len div ?n < 3" "?len div ?n \<ge> 1" using n(1) by (simp_all add: less_mult_imp_div_less div_greater_zero_iff Suc_le_eq)
    then have "lh' = lh"
      using assms(3,8) n by (simp add: lh_maybe_resize_def kMaxAverageChainLength_def kMinAverageChainLength_def Let_def)
    then show ?thesis using 2 by (simp add: load_ok_def)
  next
    case 3
    show ?thesis
    proof (cases "?n = 16")
      case True
      then have "lh' = lh"
        using assms(3,8) n 3 by (simp add: lh_maybe_resize_def kMaxAverageChainLength_def kMinNumBuckets_def Let_def)
      then show ?thesis using True 3 by (simp add: load_ok_def kMinNumBuckets_def)
    next
      case False
      let ?h = "if ?n div 2 < 16 then 16 else ?n div 2"
      have "lh_maybe_resize m k lh = lh_rebucket m k lh ?h"
        using assms(3) n 3 False
        by (simp add: lh_maybe_resize_def kMaxAverageChainLength_def kMinAverageChainLength_def kMinNumBuckets_def Let_def)
      moreover have "8 * ?h + OPENSSL_MALLOC_PREFIX \<le> limit" using assms(7) n(1) by auto
      ultimately have "lh_rebucket m k lh ?h = (lh', k')" "8 * ?h + OPENSSL_MALLOC_PREFIX \<le> limit"
        using assms(8) by metis+
      then have "ht_num_buckets lh' = ?h"
        using lh_rebucket_live [OF assms(5,6), of ?h k lh] by (metis fst_conv)
      then show ?thesis using near 3 False n(1) len by (auto simp: load_ok_def kMinNumBuckets_def)
    qed
  qed
qed

lemma length_items:
  assumes "lh_ok hash key D lh"
  shows "length (lh_items lh) = card (dom (lh_map key lh))"
  using assms by (simp add: lh_ok_def items_ok_def lh_map_def card_items_map)

lemma finite_dom_lh_map: "finite (dom (lh_map key lh))"
  by (simp add: lh_map_def items_map_def finite_dom_map_of)

context keyed
begin

lemma insert_keeps_load:
  assumes "good lh" and "data \<in> D" and "load_ok lh" and "ht_callback_depth lh = 0" and "length (lh_items lh) + 1 < 2 ^ 60"
    and "alloc_avail m limit" and "limit < 2 ^ 63" and "16 * ht_num_buckets lh + OPENSSL_MALLOC_PREFIX \<le> limit"
    and "lh_insert call_hash call_cmp m k lh data = (ok, old, lh', k')"
  shows "ok \<and> load_ok lh'"
proof -
  have ok: "lh_ok (call_hash hash) key D lh" and t: "table_ok lh" using assms(1) by (simp_all add: lh_ok_def)
  have "kMinNumBuckets \<le> ht_num_buckets lh" using t by (simp add: table_ok_def)
  then have "sizeof_LHASH_ITEM + OPENSSL_MALLOC_PREFIX \<le> limit"
    using assms(8) by (simp add: kMinNumBuckets_def sizeof_LHASH_ITEM_def)
  then obtain b where mal: "OPENSSL_malloc m k sizeof_LHASH_ITEM = (Some b, Suc k)"
    using OPENSSL_malloc_avail [OF assms(6)] assms(7) by fastforce
  show ?thesis
    using assms(1,2,9)
  proof (cases rule: insert_cases)
    case (replaced d)
    then have "card (dom (lh_map key lh')) = card (dom (lh_map key lh))" by (simp add: insert_absorb domIff)
    then have "length (lh_items lh') = length (lh_items lh)" using length_items [OF ok] length_items [OF replaced(6)] by simp
    then show ?thesis using assms(3) replaced by (simp add: load_ok_def same_shape_def)
  next
    case failed
    then show ?thesis using mal by simp
  next
    case (appended lh1)
    then have "card (dom (lh_map key lh1)) = Suc (card (dom (lh_map key lh)))"
      by (simp add: finite_dom_lh_map card_insert_if domIff)
    then have len: "length (lh_items lh1) = Suc (length (lh_items lh))"
      using length_items [OF ok] length_items [OF appended(5)] by simp
    have "nearly_ok lh1" using assms(3) appended(4) len by (auto simp: load_ok_def nearly_ok_def same_shape_def)
    moreover have "table_ok lh1" using appended(5) by (simp add: lh_ok_def)
    ultimately show ?thesis
      using resize_restores_load [OF _ _ _ _ assms(6,7) _ appended(7)] appended(2,4) len assms(4,5,8)
      by (simp add: same_shape_def)
  qed
qed

lemma delete_keeps_load:
  assumes "good lh" and "data \<in> D" and "load_ok lh" and "ht_callback_depth lh = 0" and "length (lh_items lh) < 2 ^ 60"
    and "alloc_avail m limit" and "limit < 2 ^ 63" and "16 * ht_num_buckets lh + OPENSSL_MALLOC_PREFIX \<le> limit"
    and "lh_delete call_hash call_cmp m k lh data = (ret, lh', k')"
  shows "load_ok lh'"
proof -
  have ok: "lh_ok (call_hash hash) key D lh" using assms(1) by blast
  show ?thesis
    using assms(1,2,9)
  proof (cases rule: delete_cases)
    case absent
    then show ?thesis using assms(3) by simp
  next
    case (removed lh1)
    have d: "key data \<in> dom (lh_map key lh)" using removed(1) by blast
    then have "card (dom (lh_map key lh)) > 0" using finite_dom_lh_map by (auto simp: card_gt_0_iff)
    then have "Suc (card (dom (lh_map key lh1))) = card (dom (lh_map key lh))"
      using d by (simp add: removed(4) finite_dom_lh_map)
    then have len: "length (lh_items lh) = Suc (length (lh_items lh1))"
      using length_items [OF ok] length_items [OF removed(3)] by simp
    have "nearly_ok lh1" using assms(3) removed(2) len by (auto simp: load_ok_def nearly_ok_def same_shape_def)
    moreover have "table_ok lh1" using removed(3) by (simp add: lh_ok_def)
    ultimately show ?thesis
      using resize_restores_load [OF _ _ _ _ assms(6,7) _ removed(5)] removed(2) len assms(4,5,8)
      by (simp add: same_shape_def)
  qed
qed

lemma insert_keeps_addrs:
  assumes "good lh" and "data \<in> D" and "addrs_ok k lh" and "lh_insert call_hash call_cmp m k lh data = (ok, old, lh', k')"
  shows "addrs_ok k' lh'"
  using assms(1,2,4)
proof (cases rule: insert_cases)
  case (replaced d)
  then show ?thesis using assms(3) by (simp add: addrs_ok_iff)
next
  case failed
  then show ?thesis using assms(3) by (auto simp: addrs_ok_def)
next
  case (appended lh1)
  have "k \<notin># addrs lh" using assms(3) by (auto simp: addrs_ok_def)
  then have "count (addrs lh) k = 0" by (simp only: not_in_iff)
  then have "addrs_ok (Suc k) lh1" using assms(3) appended(8) by (auto simp: addrs_ok_iff less_Suc_eq)
  moreover have "table_ok lh1" using appended(5) by (simp add: lh_ok_def)
  ultimately show ?thesis using lh_maybe_resize_spec [OF _ appended(7)] addrs_ok_same by blast
qed

lemma delete_keeps_addrs:
  assumes "good lh" and "data \<in> D" and "addrs_ok k lh" and "lh_delete call_hash call_cmp m k lh data = (ret, lh', k')"
  shows "addrs_ok k' lh'"
  using assms(1,2,4)
proof (cases rule: delete_cases)
  case absent
  then show ?thesis using assms(3) by simp
next
  case (removed lh1)
  have "addrs_ok k lh1"
    unfolding addrs_ok_iff
  proof
    fix a
    assume a: "a \<in># addrs lh1"
    then have "a \<in># addrs lh" by (rule mset_subset_eqD [OF removed(6)])
    then have "a < k \<and> count (addrs lh) a = 1" using assms(3) unfolding addrs_ok_iff by blast
    moreover have "0 < count (addrs lh1) a" using a by (simp only: count_greater_zero_iff)
    ultimately show "a < k \<and> count (addrs lh1) a = 1"
      using mset_subset_eq_count [OF removed(6), of a] by linarith
  qed
  moreover have "table_ok lh1" using removed(3) by (simp add: lh_ok_def)
  ultimately show ?thesis using lh_maybe_resize_spec [OF _ removed(5)] addrs_ok_same by blast
qed

end

lemma new_table:
  assumes "lh_new m k h c = (Some lh, k')"
  shows "lh_ok hash key D lh \<and> lh_map key lh = Map.empty \<and> addrs_ok k' lh \<and> load_ok lh \<and>
    ht_hash lh = h \<and> ht_comp lh = c \<and> ht_callback_depth lh = 0"
proof -
  have lh: "lh = \<lparr>ht_num_items = 0, ht_buckets = replicate kMinNumBuckets [], ht_num_buckets = kMinNumBuckets,
      ht_callback_depth = 0, ht_comp = c, ht_hash = h\<rparr>"
    using assms by (auto simp: lh_new_def split: prod.splits option.splits)
  have items: "lh_items lh = []" by (simp add: lh lh_items_def)
  have "table_ok lh" unfolding table_ok_def items using buckets_ok_empty by (simp add: lh kMinNumBuckets_def)
  then show ?thesis
    using items by (simp add: lh_ok_def items_ok_def lh_map_def items_map_def addrs_ok_def load_ok_def lh kMinNumBuckets_def)
qed

end
