(* ===== verification/PoolSpec.thy ===== *)
theory PoolSpec
  imports Pool LhashWalk
begin

text \<open>
  The buffer pool of \<open>crypto/pool/pool.c\<close> as a client of the hash table: contents are the keys. The
  invariant of the threads says that the table holds exactly the buffers of the pool that are not private
  to a thread, and that a reference count is the number of references, unless it is saturated.
\<close>

section \<open>Contents are keys\<close>

lemma memcmp_eq_0: "length as = length bs \<Longrightarrow> memcmp as bs = 0 \<longleftrightarrow> as = bs"
  by (induction as bs rule: memcmp.induct) auto

definition content :: "(ptr \<rightharpoonup> CRYPTO_BUFFER) \<Rightarrow> ptr \<Rightarrow> u8 list" where
  "content h p = (case h p of None \<Rightarrow> [] | Some b \<Rightarrow> cb_data b)"

definition sized :: "(ptr \<rightharpoonup> CRYPTO_BUFFER) \<Rightarrow> ptr set" where
  "sized h = {p. case h p of None \<Rightarrow> False | Some b \<Rightarrow> cb_len b = length (cb_data b)}"

interpretation bufs: keyed "call_hash_func h" "call_cmp_func h" hash cmp "content h" "sized h" for h hash cmp
proof
  fix a b
  assume "a \<in> sized h" "b \<in> sized h"
  then obtain x y where h: "h a = Some x" "h b = Some y" and len: "cb_len x = length (cb_data x)" "cb_len y = length (cb_data y)"
    by (auto simp: sized_def split: option.splits)
  show "call_cmp_func h cmp a b = 0 \<longleftrightarrow> content h a = content h b"
    using memcmp_eq_0 [of "cb_data x" "cb_data y"]
    by (auto simp: call_cmp_func_def CRYPTO_BUFFER_cmp_def OPENSSL_memcmp_def content_def h len)
  show "call_hash_func h hash a = call_hash_func h hash b" if "content h a = content h b"
    using that by (simp add: call_hash_func_def CRYPTO_BUFFER_hash_def content_def h len)
qed

definition tab :: "(ptr \<rightharpoonup> CRYPTO_BUFFER) \<Rightarrow> lhash_st \<Rightarrow> bool" where
  "tab h lh \<longleftrightarrow> lh_ok (call_hash_func h (ht_hash lh)) (content h) (sized h) lh"

text \<open>The buffers in the table.\<close>

definition tabled :: "lhash_st \<Rightarrow> ptr set" where
  "tabled lh = li_data ` set (lh_items lh)"

lemma tab_Some: "tab h lh \<Longrightarrow> lh_map (content h) lh x = Some d \<longleftrightarrow> d \<in> tabled lh \<and> content h d = x"
  by (auto simp: tab_def tabled_def lh_map_Some)

lemma tab_sized: "tab h lh \<Longrightarrow> d \<in> tabled lh \<Longrightarrow> d \<in> sized h"
  by (auto simp: tab_def tabled_def lh_ok_def items_ok_def)

lemma tab_dom: "tab h lh \<Longrightarrow> d \<in> tabled lh \<Longrightarrow> h d \<noteq> None"
  by (drule (1) tab_sized) (auto simp: sized_def split: option.splits)

lemma tab_inj: "tab h lh \<Longrightarrow> d \<in> tabled lh \<Longrightarrow> d' \<in> tabled lh \<Longrightarrow> content h d = content h d' \<Longrightarrow> d = d'"
  by (metis option.inject tab_Some)

text \<open>Only the buffers in the table matter, and of those the bytes.\<close>

definition same_bytes :: "CRYPTO_BUFFER option \<Rightarrow> CRYPTO_BUFFER option \<Rightarrow> bool" where
  "same_bytes b b' \<longleftrightarrow> map_option (\<lambda>b. (cb_pool b, cb_data b, cb_len b)) b = map_option (\<lambda>b. (cb_pool b, cb_data b, cb_len b)) b'"

lemma same_bytes_refl [simp]: "same_bytes b b"
  by (simp add: same_bytes_def)

lemma tab_cong:
  assumes "tab h lh" and "\<And>d. d \<in> tabled lh \<Longrightarrow> same_bytes (h d) (h' d)"
  shows "tab h' lh \<and> lh_map (content h') lh = lh_map (content h) lh"
proof -
  have eq: "content h' d = content h d \<and> call_hash_func h' f d = call_hash_func h f d \<and> (d \<in> sized h' \<longleftrightarrow> d \<in> sized h)"
    if "d \<in> tabled lh" for d f
    using assms(2) [OF that]
    by (auto simp: same_bytes_def content_def call_hash_func_def CRYPTO_BUFFER_hash_def sized_def split: option.splits)
  have keys: "item_keys (content h') (lh_items lh) = item_keys (content h) (lh_items lh)"
    using eq by (auto simp: tabled_def)
  have ok: "tab h' lh" using assms(1) eq unfolding tab_def lh_ok_def items_ok_def keys by (auto simp: tabled_def)
  moreover have "lh_map (content h') lh x = Some d \<longleftrightarrow> lh_map (content h) lh x = Some d" for x d
    using eq by (auto simp: tab_Some [OF ok] tab_Some [OF assms(1)])
  then have "lh_map (content h') lh = lh_map (content h) lh" by (metis not_Some_eq ext)
  ultimately show ?thesis by blast
qed

text \<open>The operations of the table on contents.\<close>

lemma tab_retrieve:
  assumes "tab h lh" and "p \<in> sized h"
  shows "lh_retrieve (call_hash_func h) (call_cmp_func h) lh p = or_null (lh_map (content h) lh (content h p))"
  using assms bufs.retrieve_spec unfolding tab_def by blast

lemma tabled_upd:
  assumes "tab h lh" and "tab h lh'" and "p \<in> sized h" and "lh_map (content h) lh' = (lh_map (content h) lh)(content h p \<mapsto> p)"
    and "lh_map (content h) lh (content h p) = None"
  shows "tabled lh' = insert p (tabled lh)"
proof -
  have "d \<in> tabled lh' \<longleftrightarrow> d = p \<or> d \<in> tabled lh" for d
    using tab_Some [OF assms(2), of "content h d" d] tab_Some [OF assms(1), of "content h d" d] assms(4,5)
    by (auto split: if_splits)
  then show ?thesis by blast
qed

lemma tab_insert:
  assumes "tab h lh" and "p \<in> sized h" and "lh_map (content h) lh (content h p) = None"
    and "lh_insert (call_hash_func h) (call_cmp_func h) m k lh p = (ok, old, lh', k')"
  shows "tab h lh' \<and> old = 0 \<and> tabled lh' = (if ok then insert p (tabled lh) else tabled lh)"
proof -
  have s: "tab h lh' \<and> (if ok then lh_map (content h) lh' = (lh_map (content h) lh)(content h p \<mapsto> p) \<and>
      old = or_null (lh_map (content h) lh (content h p)) else lh' = lh \<and> old = 0)"
    using bufs.insert_spec [OF _ assms(2,4), of "ht_hash lh" "ht_comp lh"] assms(1) by (auto simp: tab_def split: if_splits)
  then show ?thesis using tabled_upd [OF assms(1) _ assms(2) _ assms(3)] assms(3) by (simp split: if_splits)
qed

lemma tab_delete:
  assumes "tab h lh" and "p \<in> tabled lh"
    and "lh_delete (call_hash_func h) (call_cmp_func h) m k lh p = (found, lh', k')"
  shows "tab h lh' \<and> found = p \<and> tabled lh' = tabled lh - {p}"
proof -
  have some: "lh_map (content h) lh (content h p) = Some p" using assms(1,2) by (simp add: tab_Some)
  have s: "tab h lh'" "found = p" "lh_map (content h) lh' = (lh_map (content h) lh)(content h p := None)"
    using bufs.delete_spec [OF _ tab_sized [OF assms(1,2)] assms(3), of "ht_hash lh" "ht_comp lh"] assms(1) some
    by (auto simp: tab_def)
  have "d \<in> tabled lh' \<longleftrightarrow> d \<in> tabled lh \<and> d \<noteq> p" for d
    using tab_Some [OF s(1), of "content h d" d] tab_Some [OF assms(1), of "content h d" d] s(3) some
    by (auto split: if_splits)
  then show ?thesis using s by blast
qed

section \<open>The invariant of the threads\<close>

text \<open>A buffer's count is right, or saturated for good.\<close>

definition count_ok :: "ptr multiset \<Rightarrow> ptr \<Rightarrow> CRYPTO_BUFFER \<Rightarrow> bool" where
  "count_ok refs p b \<longleftrightarrow> cb_references b = CRYPTO_REFCOUNT_MAX \<or>
     cb_references b \<noteq> 0 \<and> unat (cb_references b) = count refs p"

definition heap_ok :: "(ptr \<rightharpoonup> CRYPTO_BUFFER) \<Rightarrow> bool" where
  "heap_ok h \<longleftrightarrow> h 0 = None \<and> (\<forall>p b. h p = Some b \<longrightarrow> cb_len b = length (cb_data b))"

definition private_ok :: "ptr multiset \<Rightarrow> (ptr \<rightharpoonup> CRYPTO_BUFFER) \<Rightarrow> thread multiset \<Rightarrow> ptr \<Rightarrow> bool" where
  "private_ok refs h ts p \<longleftrightarrow> count ts (Made p) = 1 \<and> p \<notin># refs \<and>
     (\<exists>b. h p = Some b \<and> cb_references b = 1 \<and> cb_pool b \<noteq> 0)"

definition pooled :: "(ptr \<rightharpoonup> CRYPTO_BUFFER) \<Rightarrow> ptr set" where
  "pooled h = {p. \<exists>b. h p = Some b \<and> cb_pool b \<noteq> 0}"

definition made :: "thread multiset \<Rightarrow> ptr set" where
  "made ts = {p. Made p \<in># ts}"

definition pool_inv :: "(ptr \<rightharpoonup> CRYPTO_BUFFER) \<Rightarrow> lhash_st \<Rightarrow> ptr multiset \<Rightarrow> thread multiset \<Rightarrow> bool" where
  "pool_inv h lh refs ts \<longleftrightarrow> heap_ok h \<and> tab h lh \<and> tabled lh = pooled h - made ts \<and>
     (\<forall>p \<in> made ts. private_ok refs h ts p) \<and>
     (\<forall>p b. h p = Some b \<longrightarrow> p \<notin> made ts \<longrightarrow> count_ok refs p b) \<and> set_mset refs \<subseteq> dom h"

lemma heap_ok_sized: "heap_ok h \<Longrightarrow> p \<in> dom h \<Longrightarrow> p \<in> sized h"
  by (auto simp: heap_ok_def sized_def)

lemma made_simps [simp]:
  "made (add_mset (Missed d) ts) = made ts" "made (add_mset (Made p) ts) = insert p (made ts)" "made {#} = {}"
  by (auto simp: made_def)

lemma pool_invD:
  assumes "pool_inv h lh refs ts"
  shows "heap_ok h" "tab h lh" "tabled lh = pooled h - made ts" "q \<in> made ts \<Longrightarrow> private_ok refs h ts q"
    "h q = Some b \<Longrightarrow> q \<notin> made ts \<Longrightarrow> count_ok refs q b" "set_mset refs \<subseteq> dom h"
  using assms by (auto simp: pool_inv_def)

lemma fresh_address:
  assumes "pool_inv h lh refs ts" and "h a = None"
  shows "a \<notin> tabled lh" "a \<notin># refs" "a \<notin> made ts"
proof -
  show "a \<notin> tabled lh" using tab_dom [OF pool_invD(2) [OF assms(1)], of a] assms(2) by auto
  show "a \<notin># refs" using pool_invD(6) [OF assms(1)] assms(2) by auto
  show "a \<notin> made ts" using pool_invD(4) [OF assms(1), of a] assms(2) by (auto simp: private_ok_def)
qed

lemma held_buffer:
  assumes "pool_inv h lh refs ts" and "p \<in># refs"
  obtains b where "h p = Some b" and "p \<notin> made ts" and "count_ok refs p b"
proof -
  obtain b where b: "h p = Some b" using pool_invD(6) [OF assms(1)] assms(2) by auto
  have "p \<notin> made ts" using pool_invD(4) [OF assms(1), of p] assms(2) by (auto simp: private_ok_def)
  then show thesis using that b pool_invD(5) [OF assms(1) b] by blast
qed

text \<open>Taking one more reference to a buffer that is not private.\<close>

lemma inc_inv:
  assumes "pool_inv h lh refs ts" and "h p = Some b" and "p \<notin> made ts"
  shows "pool_inv (h(p \<mapsto> b\<lparr>cb_references := CRYPTO_refcount_inc (cb_references b)\<rparr>)) lh (add_mset p refs) ts"
proof -
  let ?b = "b\<lparr>cb_references := CRYPTO_refcount_inc (cb_references b)\<rparr>"
  let ?h = "h(p \<mapsto> ?b)"
  note i = pool_invD [OF assms(1)]
  have "tab ?h lh" using tab_cong [OF i(2), of ?h] assms(2) by (auto simp: same_bytes_def)
  moreover have "pooled ?h = pooled h" using assms(2) by (auto simp: pooled_def split: if_splits)
  moreover have "heap_ok ?h" using i(1) assms(2) by (auto simp: heap_ok_def)
  moreover have "private_ok (add_mset p refs) ?h ts q" if "q \<in> made ts" for q
    using i(4) [OF that] assms(3) that by (auto simp: private_ok_def)
  moreover have "count_ok (add_mset p refs) p ?b"
    using i(5) [OF assms(2,3)] unat_refcount_inc [of "cb_references b"]
    by (cases "cb_references b = CRYPTO_REFCOUNT_MAX") (auto simp: count_ok_def simp flip: unat_eq_0)
  moreover have "count_ok (add_mset p refs) q b'" if "h q = Some b'" "q \<notin> made ts" "q \<noteq> p" for q b'
    using i(5) [OF that(1,2)] that(3) by (simp add: count_ok_def)
  ultimately show ?thesis using i(3,6) assms(2) by (auto simp: pool_inv_def split: if_splits)
qed

text \<open>A new buffer, either private to a thread or unpooled with its first reference.\<close>

lemma private_inv:
  assumes "pool_inv h lh refs ts" and "h a = None" and "a \<noteq> 0" and "cb_len b = length (cb_data b)"
    and "cb_references b = 1" and "cb_pool b \<noteq> 0"
  shows "pool_inv (h(a \<mapsto> b)) lh refs (add_mset (Made a) ts)"
proof -
  let ?h = "h(a \<mapsto> b)"
  note i = pool_invD [OF assms(1)]
  note fresh = fresh_address [OF assms(1,2)]
  have "same_bytes (h d) (?h d)" if "d \<in> tabled lh" for d using that fresh(1) by auto
  then have "tab ?h lh" using tab_cong [OF i(2)] by blast
  moreover have "heap_ok ?h" using i(1) assms(3,4) by (auto simp: heap_ok_def)
  moreover have "pooled ?h = insert a (pooled h)" using assms(2,6) by (auto simp: pooled_def)
  moreover have "private_ok refs ?h (add_mset (Made a) ts) q" if "q \<in> made ts" for q
    using i(4) [OF that] that fresh(3) by (auto simp: private_ok_def)
  moreover have "private_ok refs ?h (add_mset (Made a) ts) a"
    using fresh assms(5,6) by (auto simp: private_ok_def made_def not_in_iff)
  ultimately show ?thesis using i fresh by (auto simp: pool_inv_def)
qed

lemma unpooled_inv:
  assumes "pool_inv h lh refs ts" and "h a = None" and "a \<noteq> 0" and "cb_len b = length (cb_data b)"
    and "cb_references b = 1" and "cb_pool b = 0"
  shows "pool_inv (h(a \<mapsto> b)) lh (add_mset a refs) ts"
proof -
  let ?h = "h(a \<mapsto> b)"
  note i = pool_invD [OF assms(1)]
  note fresh = fresh_address [OF assms(1,2)]
  have "same_bytes (h d) (?h d)" if "d \<in> tabled lh" for d using that fresh(1) by auto
  then have "tab ?h lh" using tab_cong [OF i(2)] by blast
  moreover have "heap_ok ?h" using i(1) assms(3,4) by (auto simp: heap_ok_def)
  moreover have "pooled ?h = pooled h" using assms(2,6) by (auto simp: pooled_def)
  moreover have "private_ok (add_mset a refs) ?h ts q" if "q \<in> made ts" for q
    using i(4) [OF that] that fresh(3) by (auto simp: private_ok_def)
  moreover have "count_ok (add_mset a refs) a b" using assms(5) fresh(2) by (simp add: count_ok_def not_in_iff)
  moreover have "count_ok (add_mset a refs) q b'" if "h q = Some b'" "q \<notin> made ts" "q \<noteq> a" for q b'
    using i(5) [OF that(1,2)] that(3) by (simp add: count_ok_def)
  ultimately show ?thesis using i fresh by (auto simp: pool_inv_def)
qed

text \<open>A thread publishes its buffer, or throws it away.\<close>

lemma private_buffer:
  assumes "pool_inv h lh refs (add_mset (Made p) ts)"
  obtains b where "h p = Some b" and "cb_references b = 1" and "cb_pool b \<noteq> 0"
    and "p \<notin> made ts" and "p \<notin># refs" and "p \<notin> tabled lh"
    and "\<And>q. q \<in> made ts \<Longrightarrow> q \<noteq> p \<and> private_ok refs h ts q"
proof -
  have pr: "private_ok refs h (add_mset (Made p) ts) p" by (rule pool_invD(4) [OF assms]) simp
  then obtain b where "h p = Some b" "cb_references b = 1" "cb_pool b \<noteq> 0" "p \<notin># refs" by (auto simp: private_ok_def)
  moreover have m: "p \<notin> made ts" using pr by (auto simp: private_ok_def made_def not_in_iff)
  moreover have "p \<notin> tabled lh" using pool_invD(3) [OF assms] by simp
  moreover have "q \<noteq> p \<and> private_ok refs h ts q" if "q \<in> made ts" for q
    using pool_invD(4) [OF assms, of q] that m by (auto simp: private_ok_def split: if_splits)
  ultimately show thesis using that by blast
qed

lemma publish_inv:
  assumes "pool_inv h lh refs (add_mset (Made p) ts)" and "tab h lh'" and "tabled lh' = insert p (tabled lh)"
  shows "pool_inv h lh' (add_mset p refs) ts"
proof -
  note i = pool_invD [OF assms(1)]
  obtain b where b: "h p = Some b" "cb_references b = 1" "cb_pool b \<noteq> 0" "p \<notin> made ts" "p \<notin># refs"
      "\<And>q. q \<in> made ts \<Longrightarrow> q \<noteq> p \<and> private_ok refs h ts q"
    using private_buffer [OF assms(1)] by metis
  have "private_ok (add_mset p refs) h ts q" if "q \<in> made ts" for q
    using b(6) [OF that] by (auto simp: private_ok_def)
  moreover have "tabled lh' = pooled h - made ts" using i(3) assms(3) b(1,3,4) by (auto simp: pooled_def)
  moreover have "count_ok (add_mset p refs) q b'" if "h q = Some b'" "q \<notin> made ts" for q b'
    using i(5) [OF that(1)] that b(1,2,5) by (cases "q = p") (auto simp: count_ok_def not_in_iff)
  ultimately show ?thesis using i(1,6) assms(2) b(1) by (auto simp: pool_inv_def)
qed

lemma discard_inv:
  assumes "pool_inv h lh refs (add_mset (Made p) ts)"
  shows "pool_inv (h(p := None)) lh refs ts"
proof -
  note i = pool_invD [OF assms(1)]
  obtain b where b: "h p = Some b" "p \<notin> made ts" "p \<notin># refs" "p \<notin> tabled lh"
      "\<And>q. q \<in> made ts \<Longrightarrow> q \<noteq> p \<and> private_ok refs h ts q"
    using private_buffer [OF assms(1)] by metis
  have "same_bytes (h d) ((h(p := None)) d)" if "d \<in> tabled lh" for d using that b(4) by auto
  then have "tab (h(p := None)) lh" using tab_cong [OF i(2)] by blast
  moreover have "heap_ok (h(p := None))" using i(1) by (simp add: heap_ok_def)
  moreover have "private_ok refs (h(p := None)) ts q" if "q \<in> made ts" for q
    using b(5) [OF that] by (auto simp: private_ok_def)
  moreover have "tabled lh = pooled (h(p := None)) - made ts" using i(3) by (auto simp: pooled_def)
  ultimately show ?thesis using i(5,6) b(3) by (auto simp: pool_inv_def)
qed

text \<open>Giving a reference back: the buffer stays, or goes with the last reference.\<close>

lemma drop_inv:
  assumes "pool_inv h lh (add_mset p refs) ts" and "h p = Some b"
    and "CRYPTO_refcount_dec_and_test_zero (cb_references b) = Some (False, n)"
  shows "pool_inv (h(p \<mapsto> b\<lparr>cb_references := n\<rparr>)) lh refs ts"
proof -
  let ?h = "h(p \<mapsto> b\<lparr>cb_references := n\<rparr>)"
  note i = pool_invD [OF assms(1)]
  have p: "p \<notin> made ts" "count_ok (add_mset p refs) p b" using held_buffer [OF assms(1), of p] assms(2) by auto
  have "tab ?h lh" using tab_cong [OF i(2), of ?h] assms(2) by (auto simp: same_bytes_def)
  moreover have "pooled ?h = pooled h" using assms(2) by (auto simp: pooled_def split: if_splits)
  moreover have "heap_ok ?h" using i(1) assms(2) by (auto simp: heap_ok_def)
  moreover have "private_ok refs ?h ts q" if "q \<in> made ts" for q
    using i(4) [OF that] p(1) that by (auto simp: private_ok_def)
  moreover have "count_ok refs p (b\<lparr>cb_references := n\<rparr>)"
  proof (cases "cb_references b = CRYPTO_REFCOUNT_MAX")
    case True
    then show ?thesis using assms(3) by (simp add: count_ok_def)
  next
    case False
    then have c: "cb_references b \<noteq> 0" "unat (cb_references b) = Suc (count refs p)" using p(2) by (auto simp: count_ok_def)
    then have "n = cb_references b - 1" "unat (cb_references b) \<noteq> 1" "unat n = count refs p"
      using assms(3) refcount_dec_below [OF c(1) False] by auto
    then show ?thesis using c by (auto simp: count_ok_def simp flip: unat_eq_0)
  qed
  moreover have "count_ok refs q b'" if "h q = Some b'" "q \<notin> made ts" "q \<noteq> p" for q b'
    using i(5) [OF that(1,2)] that(3) by (simp add: count_ok_def)
  ultimately show ?thesis using i(3,6) assms(2) by (auto simp: pool_inv_def split: if_splits)
qed

lemma last_reference:
  assumes "pool_inv h lh (add_mset p refs) ts" and "h p = Some b"
    and "CRYPTO_refcount_dec_and_test_zero (cb_references b) = Some (True, n)"
  shows "p \<notin># refs"
proof -
  have c: "count_ok (add_mset p refs) p b" using held_buffer [OF assms(1), of p] assms(2) by auto
  have max: "cb_references b \<noteq> CRYPTO_REFCOUNT_MAX" using assms(3) by auto
  then have "cb_references b \<noteq> 0" "unat (cb_references b) = Suc (count refs p)" using c by (auto simp: count_ok_def)
  then have "count refs p = 0" using assms(3) refcount_dec_below [of "cb_references b"] max by simp
  then show ?thesis by (simp add: not_in_iff)
qed

lemma release_inv:
  assumes "pool_inv h lh (add_mset p refs) ts" and "p \<notin># refs" and "tab h lh'" and "tabled lh' = tabled lh - {p}"
  shows "pool_inv (h(p := None)) lh' refs ts"
proof -
  note i = pool_invD [OF assms(1)]
  have p: "p \<notin> made ts" using held_buffer [OF assms(1), of p] by auto
  have "same_bytes (h d) ((h(p := None)) d)" if "d \<in> tabled lh'" for d using that assms(4) by auto
  then have "tab (h(p := None)) lh'" using tab_cong [OF assms(3)] by blast
  moreover have "heap_ok (h(p := None))" using i(1) by (simp add: heap_ok_def)
  moreover have "private_ok refs (h(p := None)) ts q" if "q \<in> made ts" for q
    using i(4) [OF that] p that by (auto simp: private_ok_def)
  moreover have "tabled lh' = pooled (h(p := None)) - made ts" using i(3) assms(4) by (auto simp: pooled_def)
  moreover have "count_ok refs q b'" if "h q = Some b'" "q \<notin> made ts" "q \<noteq> p" for q b'
    using i(5) [OF that(1,2)] that(3) by (simp add: count_ok_def)
  ultimately show ?thesis using i(6) assms(2) by (auto simp: pool_inv_def split: if_splits)
qed

section \<open>The operations keep the invariant\<close>

abbreviation state_inv :: "pool_st \<Rightarrow> ptr multiset \<Rightarrow> thread multiset \<Rightarrow> bool" where
  "state_inv ps refs ts \<equiv> pool_inv (ps_heap ps) (ps_bufs ps) refs ts"

text \<open>A retrieved pointer is a buffer of the table, and NULL says that there is none.\<close>

lemma retrieved:
  assumes "heap_ok h" and "tab h lh" and "dup = or_null (lh_map (content h) lh data)"
  shows "dup = 0 \<and> lh_map (content h) lh data = None \<or> dup \<noteq> 0 \<and> dup \<in> tabled lh \<and> content h dup = data"
proof (cases "lh_map (content h) lh data")
  case None
  then show ?thesis using assms(3) by simp
next
  case (Some d)
  then have d: "d \<in> tabled lh" "content h d = data" using tab_Some [OF assms(2)] by blast+
  then have "d \<noteq> 0" using tab_dom [OF assms(2) d(1)] assms(1) by (auto simp: heap_ok_def)
  then show ?thesis using d assms(3) Some by simp
qed

lemma new_lookup_spec:
  assumes "state_inv ps refs ts" and "free_address tmp ps" and "new_lookup tmp data ps = (dup, ps')"
  shows "dup = 0 \<and> ps' = ps \<or> dup \<noteq> 0 \<and> dup \<in> tabled (ps_bufs ps) \<and> content (ps_heap ps) dup = data \<and> ps' = buffer_inc dup ps"
proof -
  let ?h = "ps_heap ps"
  let ?h' = "?h(tmp \<mapsto> \<lparr>cb_pool = 0, cb_data = data, cb_len = length data, cb_references = 0\<rparr>)"
  note i = pool_invD [OF assms(1)]
  have f: "tmp \<notin> tabled (ps_bufs ps)" using fresh_address [OF assms(1)] assms(2) by (simp add: free_address_def)
  then have "same_bytes (?h d) (?h' d)" if "d \<in> tabled (ps_bufs ps)" for d using that by auto
  then have t: "tab ?h' (ps_bufs ps)" "lh_map (content ?h') (ps_bufs ps) = lh_map (content ?h) (ps_bufs ps)"
    using tab_cong [OF i(2)] by blast+
  have "tmp \<in> sized ?h'" "content ?h' tmp = data" by (simp_all add: sized_def content_def)
  then have r: "lh_retrieve (call_hash_func ?h') (call_cmp_func ?h') (ps_bufs ps) tmp =
      or_null (lh_map (content ?h) (ps_bufs ps) data)"
    using tab_retrieve [OF t(1)] t(2) by metis
  show ?thesis
    using retrieved [OF i(1,2) refl, of data] assms(3)
    by (auto simp: new_lookup_def Let_def r split: if_splits)
qed

lemma buffer_inc_inv:
  assumes "state_inv ps refs ts" and "p \<in> dom (ps_heap ps)" and "p \<notin> made ts"
  shows "state_inv (buffer_inc p ps) (add_mset p refs) ts"
  using inc_inv [OF assms(1) _ assms(3)] assms(2) by (auto simp: buffer_inc_def)

lemma new_buffer_spec:
  assumes "alloc_ok m" and "new_buffer m a pool data ps = (buf, ps')"
  shows "ps_bufs ps' = ps_bufs ps \<and>
    (buf = 0 \<and> ps_heap ps' = ps_heap ps \<or>
     buf = a \<and> ps_heap ps' = (ps_heap ps)(a \<mapsto>
       \<lparr>cb_pool = pool, cb_data = data, cb_len = length data, cb_references = 1\<rparr>))"
proof -
  have l: "length b \<le> n + 8" if "m k (szadd n 8) = Some b" for k n b
    using alloc_ok_length [OF assms(1) that] by (simp add: szadd_def)
  show ?thesis
    using assms(2)
    by (auto simp: new_buffer_def OPENSSL_memdup_def OPENSSL_malloc_def OPENSSL_MALLOC_PREFIX_def
        dest!: l split: prod.splits option.splits if_splits)
qed

lemma new_publish_spec:
  assumes "state_inv ps refs (add_mset (Made buf) ts)"
  shows "\<exists>r ps'. new_publish m buf ps = Some (r, ps') \<and> state_inv ps' (gain r refs) ts \<and>
    (r \<noteq> 0 \<longrightarrow> content (ps_heap ps') r = content (ps_heap ps) buf)"
proof -
  let ?h = "ps_heap ps" and ?lh = "ps_bufs ps"
  let ?dup = "lh_retrieve (call_hash_func ?h) (call_cmp_func ?h) ?lh buf"
  note i = pool_invD [OF assms]
  obtain b where b: "?h buf = Some b" "buf \<notin> tabled ?lh" using private_buffer [OF assms] by metis
  then have sz: "buf \<in> sized ?h" using heap_ok_sized [OF i(1)] by blast
  consider (miss) "?dup = 0" "lh_map (content ?h) ?lh (content ?h buf) = None"
    | (hit) "?dup \<noteq> 0" "?dup \<in> tabled ?lh" "content ?h ?dup = content ?h buf"
    using retrieved [OF i(1,2) tab_retrieve [OF i(2) sz]] by argo
  then show ?thesis
  proof cases
    case miss
    obtain ok old lh' k' where ins: "lh_insert (call_hash_func ?h) (call_cmp_func ?h) m (ps_allocs ps) ?lh buf = (ok, old, lh', k')"
      by (metis prod_cases4)
    note t = tab_insert [OF i(2) sz miss(2) ins]
    have b0: "buf \<noteq> 0" using b(1) i(1) by (auto simp: heap_ok_def)
    show ?thesis
    proof (cases ok)
      case True
      then show ?thesis
        using publish_inv [OF assms, of lh'] t b0 miss(1) ins by (simp add: new_publish_def Let_def gain_def)
    next
      case False
      then have "state_inv (ps\<lparr>ps_bufs := lh', ps_allocs := k', ps_heap := ?h(buf := None)\<rparr>) refs ts"
        using discard_inv [OF assms] t bufs.insert_spec [OF _ sz ins, of "ht_hash ?lh" "ht_comp ?lh"] i(2)
        by (simp add: tab_def)
      then show ?thesis using False t miss(1) ins by (simp add: new_publish_def Let_def gain_def)
    qed
  next
    case hit
    have d: "?dup \<in> dom ?h" "?dup \<noteq> buf" using tab_dom [OF i(2) hit(2)] hit(2) b(2) by auto
    have "?dup \<notin> made (add_mset (Made buf) ts)" using hit(2) i(3) by blast
    from buffer_inc_inv [OF assms d(1) this] have inc: "state_inv (buffer_inc ?dup ps) (add_mset ?dup refs) (add_mset (Made buf) ts)" .
    have "content ((ps_heap (buffer_inc ?dup ps))(buf := None)) ?dup = content ?h buf"
      using hit(3) d by (auto simp: buffer_inc_def content_def split: option.splits)
    then show ?thesis
      using discard_inv [OF inc] hit(1) by (simp add: new_publish_def Let_def gain_def)
  qed
qed

lemma CRYPTO_BUFFER_free_spec:
  assumes "state_inv ps (add_mset buf refs) ts"
  shows "\<exists>ps'. CRYPTO_BUFFER_free m buf ps = Some ps' \<and> state_inv ps' refs ts \<and>
    (buf \<in># refs \<longrightarrow> content (ps_heap ps') buf = content (ps_heap ps) buf)"
proof -
  let ?h = "ps_heap ps" and ?lh = "ps_bufs ps"
  note i = pool_invD [OF assms]
  obtain b where b: "?h buf = Some b" "buf \<notin> made ts" "count_ok (add_mset buf refs) buf b"
    using held_buffer [OF assms, of buf] by auto
  have b0: "buf \<noteq> 0" using b(1) i(1) by (auto simp: heap_ok_def)
  have "cb_references b \<noteq> 0" using b(3) refcount_max_nonzero by (auto simp: count_ok_def)
  then obtain zero n where dec: "CRYPTO_refcount_dec_and_test_zero (cb_references b) = Some (zero, n)"
    by (auto simp: CRYPTO_refcount_dec_and_test_zero_def Let_def)
  let ?h' = "?h(buf \<mapsto> b\<lparr>cb_references := n\<rparr>)"
  show ?thesis
  proof (cases zero)
    case False
    then have "state_inv (ps\<lparr>ps_heap := ?h'\<rparr>) refs ts" using drop_inv [OF assms b(1)] dec by simp
    then show ?thesis using b0 b(1) dec False by (auto simp: CRYPTO_BUFFER_free_def Let_def content_def)
  next
    case True
    then have out: "buf \<notin># refs" using last_reference [OF assms b(1)] dec by simp
    show ?thesis
    proof (cases "cb_pool b = 0")
      case True
      then have "buf \<notin> tabled ?lh" using i(3) b(1) by (simp add: pooled_def)
      then have "state_inv (ps\<lparr>ps_heap := ?h(buf := None)\<rparr>) refs ts" using release_inv [OF assms out i(2)] by simp
      then show ?thesis using b0 b(1) dec \<open>zero\<close> True out by (simp add: CRYPTO_BUFFER_free_def Let_def)
    next
      case False
      then have mem: "buf \<in> tabled ?lh" using i(3) b(1,2) by (auto simp: pooled_def)
      obtain found lh' k' where del: "lh_delete (call_hash_func ?h') (call_cmp_func ?h') m (ps_allocs ps) ?lh buf = (found, lh', k')"
        by (metis prod_cases3)
      have same: "same_bytes (?h d) (?h' d)" for d using b(1) by (auto simp: same_bytes_def)
      then have "tab ?h' ?lh" using tab_cong [OF i(2)] by blast
      note d = tab_delete [OF this mem del]
      have "same_bytes (?h' e) (?h e)" for e using same [of e] by (simp add: same_bytes_def)
      then have "tab ?h lh'" using tab_cong [OF conjunct1 [OF d]] by blast
      then have "state_inv (ps\<lparr>ps_bufs := lh', ps_allocs := k', ps_heap := ?h(buf := None)\<rparr>) refs ts"
        using release_inv [OF assms out] d by simp
      then show ?thesis using b0 b(1) dec \<open>zero\<close> False out del d by (simp add: CRYPTO_BUFFER_free_def Let_def)
    qed
  qed
qed

lemma new_alloc_inv:
  assumes "alloc_ok m" and "pool \<noteq> 0" and "state_inv ps refs ts" and "free_address a ps"
    and "new_buffer m a pool data ps = (buf, ps')"
  shows "state_inv ps' refs (if buf = 0 then ts else add_mset (Made buf) ts) \<and>
    (buf \<noteq> 0 \<longrightarrow> content (ps_heap ps') buf = data)"
  using new_buffer_spec [OF assms(1,5)] assms(2-4) private_inv [OF assms(3), of a]
  by (auto simp: free_address_def content_def)

lemma new_unpooled_inv:
  assumes "alloc_ok m" and "state_inv ps refs ts" and "free_address a ps" and "new_buffer m a 0 data ps = (buf, ps')"
  shows "state_inv ps' (gain buf refs) ts"
  using new_buffer_spec [OF assms(1,4)] assms(2,3) unpooled_inv [OF assms(2), of a]
  by (auto simp: free_address_def gain_def)

lemma alloc_inv:
  assumes "alloc_ok m" and "state_inv ps refs ts" and "free_address a ps" and "len + OPENSSL_MALLOC_PREFIX < 2 ^ 64"
    and "CRYPTO_BUFFER_alloc m a len ps = (buf, ps')"
  shows "state_inv ps' (gain buf refs) ts"
proof -
  have "ps_bufs ps' = ps_bufs ps \<and> (buf = 0 \<and> ps_heap ps' = ps_heap ps \<or>
      buf = a \<and> (\<exists>d. ps_heap ps' = (ps_heap ps)(a \<mapsto>
        \<lparr>cb_pool = 0, cb_data = d, cb_len = len, cb_references = 1\<rparr>) \<and> length d = len))"
    using assms(5) OPENSSL_malloc_length [OF assms(1,4)]
    by (auto simp: CRYPTO_BUFFER_alloc_def split: prod.splits option.splits if_splits)
  then show ?thesis using assms(2,3) unpooled_inv [OF assms(2), of a] by (auto simp: free_address_def gain_def)
qed

text \<open>\<open>CRYPTO_BUFFER_new\<close> without interference.\<close>

lemma CRYPTO_BUFFER_new_spec:
  assumes "alloc_ok m" and "pool \<noteq> 0" and "state_inv ps refs ts" and "free_address tmp ps" and "free_address a ps"
  shows "\<exists>r ps'. CRYPTO_BUFFER_new m tmp a data pool ps = Some (r, ps') \<and> state_inv ps' (gain r refs) ts \<and>
    (r \<noteq> 0 \<longrightarrow> content (ps_heap ps') r = data)"
proof -
  note i = pool_invD [OF assms(3)]
  obtain dup ps1 where l: "new_lookup tmp data ps = (dup, ps1)" by (metis prod.exhaust)
  from new_lookup_spec [OF assms(3,4) l] consider (miss) "dup = 0" "ps1 = ps"
    | (hit) "dup \<noteq> 0" "dup \<in> tabled (ps_bufs ps)" "content (ps_heap ps) dup = data" "ps1 = buffer_inc dup ps"
    by blast
  then show ?thesis
  proof cases
    case hit
    have d: "dup \<in> dom (ps_heap ps)" "dup \<notin> made ts" using tab_dom [OF i(2) hit(2)] hit(2) i(3) by auto
    have "content (ps_heap ps1) dup = data"
      using hit(3,4) d by (auto simp: buffer_inc_def content_def)
    then show ?thesis
      using buffer_inc_inv [OF assms(3) d] hit(1,4) l assms(2) by (simp add: CRYPTO_BUFFER_new_def gain_def)
  next
    case miss
    obtain buf ps2 where n: "new_buffer m a pool data ps = (buf, ps2)" by (metis prod.exhaust)
    note s = new_alloc_inv [OF assms(1-3,5) n]
    show ?thesis
    proof (cases "buf = 0")
      case True
      then show ?thesis using s miss l n assms(2) by (simp add: CRYPTO_BUFFER_new_def gain_def)
    next
      case False
      then have s2: "state_inv ps2 refs (add_mset (Made buf) ts)" "content (ps_heap ps2) buf = data" using s by auto
      from new_publish_spec [OF s2(1), of m] show ?thesis
        using s2(2) False miss l n assms(2) by (auto simp: CRYPTO_BUFFER_new_def)
    qed
  qed
qed

section \<open>Reachable states\<close>

abbreviation sys_inv :: "system \<Rightarrow> bool" where
  "sys_inv s \<equiv> state_inv (sy_pool s) (sy_refs s) (sy_threads s)"

lemma pool_step_inv:
  assumes "alloc_ok m" and "pool \<noteq> 0" and "pool_step m pool s s'" and "sys_inv s"
  shows "sys_inv s'"
  using assms(3,4)
proof (cases rule: pool_step.cases)
  case (new_hit tmp ps data dup ps' refs ts)
  then have inv: "state_inv ps refs ts" using assms(4) by simp
  note i = pool_invD [OF inv]
  have d: "dup \<in> tabled (ps_bufs ps)" "ps' = buffer_inc dup ps"
    using new_lookup_spec [OF inv new_hit(3,4)] new_hit(5) by auto
  then have "dup \<in> dom (ps_heap ps)" "dup \<notin> made ts" using tab_dom [OF i(2) d(1)] i(3) by auto
  then show ?thesis using buffer_inc_inv [OF inv] d(2) new_hit(2) by simp
next
  case (new_miss tmp ps data ps' refs ts)
  then have inv: "state_inv ps refs ts" using assms(4) by simp
  then have "ps' = ps" using new_lookup_spec [OF inv new_miss(3,4)] by simp
  moreover have "state_inv ps refs (add_mset (Missed data) ts)"
    using inv by (simp add: pool_inv_def private_ok_def)
  ultimately show ?thesis using new_miss(2) by simp
next
  case (new_alloc a ps data buf ps' refs ts)
  then have "state_inv ps refs ts" using assms(4) by (simp add: pool_inv_def private_ok_def)
  then show ?thesis using new_alloc_inv [OF assms(1,2) _ new_alloc(3,4)] new_alloc(2) by simp
next
  case (new_done buf ps r ps' refs ts)
  then show ?thesis using new_publish_spec [of ps refs buf ts m] assms(4) by auto
next
  case (new_unpooled a ps data buf ps' refs ts)
  then show ?thesis using new_unpooled_inv [OF assms(1) _ new_unpooled(3,4)] assms(4) by simp
next
  case (alloc a ps len buf ps' refs ts)
  then show ?thesis using alloc_inv [OF assms(1) _ alloc(3-5)] assms(4) by simp
next
  case (up_ref buf refs ps ps' ts)
  then have inv: "state_inv ps refs ts" using assms(4) by simp
  obtain b where "ps_heap ps buf = Some b" "buf \<notin> made ts" using held_buffer [OF inv up_ref(3)] by metis
  then show ?thesis
    using buffer_inc_inv [OF inv, of buf] up_ref by (auto simp: CRYPTO_BUFFER_up_ref_def)
next
  case (free buf ps ps' refs ts)
  then show ?thesis using CRYPTO_BUFFER_free_spec [of ps buf refs ts m] assms(4) by auto
qed

lemma pool_reach_inv:
  assumes "alloc_ok m" and "pool \<noteq> 0" and "pool_reach m pool s"
  shows "sys_inv s"
  using assms(3)
proof (induction rule: pool_reach.induct)
  case (start hash cmp k ps k')
  then have "ps_heap ps = Map.empty" and "\<exists>k1 k2. lh_new m k1 hash cmp = (Some (ps_bufs ps), k2)"
    by (auto simp: CRYPTO_BUFFER_POOL_new_def split: prod.splits option.splits) blast
  then obtain k1 k2 where h: "ps_heap ps = Map.empty" and n: "lh_new m k1 hash cmp = (Some (ps_bufs ps), k2)" by blast
  have "tab Map.empty (ps_bufs ps)" unfolding tab_def using new_table [OF n] by blast
  moreover have "tabled (ps_bufs ps) = {}"
  proof -
    have "d \<notin> tabled (ps_bufs ps)" for d
      using tab_dom [OF calculation, of d] by auto
    then show ?thesis by blast
  qed
  ultimately show ?case by (simp add: h pool_inv_def heap_ok_def pooled_def)
next
  case (step s s')
  then show ?case using pool_step_inv [OF assms(1,2)] by blast
qed

end
