(* ===== verification/TableProperties.thy ===== *)
theory TableProperties
  imports PoolSpec Concrete
begin

text \<open>
  The properties of the hash table of \<open>crypto/lhash/lhash.c\<close> and of the buffer pool of
  \<open>crypto/pool/pool.c\<close>, each with an instance at concrete tables.
\<close>

section \<open>A concrete client of the hash table\<close>

text \<open>The elements are their own keys, and the hash value is the low byte modulo 4, so that chains grow.\<close>

definition low_hash :: "ptr \<Rightarrow> ptr \<Rightarrow> u32" where
  "low_hash f p = ucast p AND 3"

lemma low_keyed: "keyed low_hash by_address 1 2 (\<lambda>p. p) UNIV"
  by unfold_locales (auto simp: by_address_def)

text \<open>A table with the elements in the given order.\<close>

fun filled :: "ptr list \<Rightarrow> lhash_st \<times> nat" where
  "filled [] = (case lh_new zeroed 0 1 2 of (Some lh, k) \<Rightarrow> (lh, k))"
| "filled (p # ps) =
     (case filled ps of (lh, k) \<Rightarrow>
        case lh_insert low_hash by_address zeroed k lh p of (_, _, lh, k) \<Rightarrow> (lh, k))"

interpretation low: keyed low_hash by_address 1 2 "\<lambda>p. p" UNIV
  by (rule low_keyed)

lemma filled_ok:
  assumes "filled ps = (lh, k)"
  shows "ht_hash lh = 1 \<and> ht_comp lh = 2 \<and> lh_ok (low_hash 1) (\<lambda>p. p) UNIV lh \<and> addrs_ok k lh \<and> ht_callback_depth lh = 0"
  using assms
proof (induction ps arbitrary: lh k)
  case Nil
  obtain lh' k' where n: "lh_new zeroed 0 1 2 = (Some lh', k')"
    by (auto simp: lh_new_def OPENSSL_malloc_def zeroed_def sizeof_LHASH_def sizeof_LHASH_ITEM_ptr_def
        kMinNumBuckets_def OPENSSL_MALLOC_PREFIX_def)
  then show ?case using Nil new_table [OF n] by auto
next
  case (Cons p ps)
  obtain lh1 k1 where f: "filled ps = (lh1, k1)" by (metis prod.exhaust)
  obtain ok old where i: "lh_insert low_hash by_address zeroed k1 lh1 p = (ok, old, lh, k)"
    using Cons.prems f by (auto split: prod.splits)
  have g: "low.good lh1" "addrs_ok k1 lh1" "ht_callback_depth lh1 = 0" using Cons.IH [OF f] by auto
  from low.insert_spec [OF g(1) UNIV_I i] low.insert_keeps_addrs [OF g(1) UNIV_I g(2) i] g(3) show ?case by simp
qed

declare filled.simps [simp del]

section \<open>The hash table\<close>

text \<open>C34: The table is a finite map: \<open>keyed\<close> is what it asks of the client's functions (they decide and respect
  a key), and \<open>lh_ok\<close> is its representation invariant. Retrieving looks the key up; inserting updates the
  map and returns the pointer that was replaced, or fails without memory and leaves the table alone;
  deleting removes the key and returns its pointer; and the number of items is the size of the map. All of
  that whether or not the table is resized on the way.\<close>

theorem table_is_a_map:
  assumes "keyed call_hash call_cmp (ht_hash lh) (ht_comp lh) key D" and "lh_ok (call_hash (ht_hash lh)) key D lh"
    and "data \<in> D"
  shows "lh_retrieve call_hash call_cmp lh data = or_null (lh_map key lh (key data)) \<and>
    (case lh_insert call_hash call_cmp m k lh data of (ok, old, lh', k') \<Rightarrow>
       lh_ok (call_hash (ht_hash lh)) key D lh' \<and>
       (if ok then lh_map key lh' = (lh_map key lh)(key data \<mapsto> data) \<and> old = or_null (lh_map key lh (key data))
        else lh' = lh \<and> old = 0)) \<and>
    (case lh_delete call_hash call_cmp m k lh data of (old, lh', k') \<Rightarrow>
       lh_ok (call_hash (ht_hash lh)) key D lh' \<and>
       lh_map key lh' = (lh_map key lh)(key data := None) \<and> old = or_null (lh_map key lh (key data))) \<and>
    lh_num_items lh = card (dom (lh_map key lh)) mod 2 ^ 64"
proof -
  note k = assms(1) and g = conjI [OF refl conjI [OF refl assms(2)]]
  show ?thesis
    using keyed.retrieve_spec [OF k g assms(3)] keyed.insert_spec [OF k g assms(3)] keyed.delete_spec [OF k g assms(3)]
      lh_num_items_spec [OF assms(2)]
    by (auto split: prod.splits)
qed

theorem table_is_a_map_witness:
  "lh_retrieve low_hash by_address (fst (filled [5, 9, 4])) 9 = 9 \<and>
   fst (snd (lh_insert low_hash by_address zeroed 9 (fst (filled [5, 9, 4])) 5)) = 5 \<and>
   fst (lh_delete low_hash by_address zeroed 9 (fst (filled [5, 9, 4])) 6) = 0"
proof -
  obtain lh k where f: "filled [5, 9, 4] = (lh, k)" by (metis prod.exhaust)
  note ok = filled_ok [OF f]
  have key: "keyed low_hash by_address (ht_hash lh) (ht_comp lh) (\<lambda>p. p) UNIV" using low_keyed ok by simp
  have h: "lh_ok (low_hash (ht_hash lh)) (\<lambda>p. p) UNIV lh" using ok by simp
  have m: "map (\<lambda>p. lh_retrieve low_hash by_address (fst (filled [5, 9, 4])) p) [9, 5, 6] = [9, 5, 0]" by code_simp
  note t = table_is_a_map [OF key h UNIV_I, of _ zeroed 9]
  have r: "or_null (lh_map (\<lambda>p. p) lh p) = lh_retrieve low_hash by_address lh p" for p using t [of p] by simp
  have i: "fst (lh_insert low_hash by_address zeroed 9 (fst (filled [5, 9, 4])) 5)" by code_simp
  show ?thesis
    using t [of 5] t [of 6] r [of 9] r [of 5] r [of 6] m i by (auto simp: f split: prod.splits)
qed

text \<open>C35: A walk with a callback that may delete the item it is called with calls it for every item of the table
  exactly once, in the order of the chains; afterwards the table holds the items that were not deleted, and
  is well-formed.\<close>

theorem walk_visits_each_once:
  assumes "keyed call_hash call_cmp (ht_hash lh) (ht_comp lh) key D" and "lh_ok (call_hash (ht_hash lh)) key D lh"
    and "addrs_ok k lh" and "ht_callback_depth lh + 1 < UINT_MAX"
  shows "\<exists>lh' k'. lh_doall_arg m (visit call_hash call_cmp m p) (lh, k, []) = Some (lh', k', map li_data (lh_items lh)) \<and>
    lh_ok (call_hash (ht_hash lh')) key D lh' \<and> addrs_ok k' lh' \<and>
    mset (lh_items lh') = filter_mset (\<lambda>item. \<not> p (li_data item)) (mset (lh_items lh))"
  using keyed.walk_spec [OF assms(1) conjI [OF refl conjI [OF refl assms(2)]] assms(3,4), of m p]
  by (auto simp: mset_filter)

theorem walk_visits_each_once_witness:
  "\<exists>lh' k'. lh_doall_arg zeroed (visit low_hash by_address zeroed (\<lambda>p. p < 6)) (fst (filled [5, 9, 4]), 9, []) =
    Some (lh', k', [4, 9, 5]) \<and> map li_data (lh_items lh') = [9]"
proof -
  obtain lh k where f: "filled [5, 9, 4] = (lh, k)" by (metis prod.exhaust)
  note ok = filled_ok [OF f]
  have key: "keyed low_hash by_address (ht_hash lh) (ht_comp lh) (\<lambda>p. p) UNIV" using low_keyed ok by simp
  have h: "lh_ok (low_hash (ht_hash lh)) (\<lambda>p. p) UNIV lh" using ok by simp
  have k: "snd (filled [5, 9, 4]) = 5" by code_simp
  have a: "addrs_ok 9 lh" using ok f k by (auto simp: addrs_ok_def)
  have d: "ht_callback_depth lh + 1 < UINT_MAX" using ok by (simp add: UINT_MAX_def)
  have e: "map li_data (lh_items (fst (filled [5, 9, 4]))) = [4, 9, 5]" by code_simp
  from walk_visits_each_once [OF key h a d, of zeroed "\<lambda>p. p < 6"] obtain lh' k' where
    w: "lh_doall_arg zeroed (visit low_hash by_address zeroed (\<lambda>p. p < 6)) (lh, 9, []) = Some (lh', k', [4, 9, 5])"
      "mset (lh_items lh') = filter_mset (\<lambda>item. \<not> li_data item < 6) (mset (lh_items lh))"
    using e f by auto
  have "mset (map li_data (lh_items lh')) = image_mset li_data (filter_mset (\<lambda>item. \<not> li_data item < 6) (mset (lh_items lh)))"
    by (simp add: w(2))
  also have "\<dots> = filter_mset (\<lambda>p. \<not> p < 6) (mset (map li_data (lh_items lh)))" by (simp add: filter_mset_image_mset)
  also have "\<dots> = mset [9]" using e f by simp
  finally have "map li_data (lh_items lh') = [9]" by (metis mset_single_iff_right mset.simps)
  then show ?thesis using w(1) f by auto
qed

text \<open>C36: While memory is there, insertions succeed, and insertions and deletions outside walks keep the table
  between one and three items per bucket, once it has grown beyond 16 buckets.\<close>

theorem load_factor_bounded:
  assumes "keyed call_hash call_cmp (ht_hash lh) (ht_comp lh) key D" and "lh_ok (call_hash (ht_hash lh)) key D lh"
    and "data \<in> D" and "load_ok lh" and "ht_callback_depth lh = 0" and "length (lh_items lh) + 1 < 2 ^ 60"
    and "alloc_avail m limit" and "limit < 2 ^ 63" and "16 * ht_num_buckets lh + OPENSSL_MALLOC_PREFIX \<le> limit"
  shows "(case lh_insert call_hash call_cmp m k lh data of (ok, old, lh', k') \<Rightarrow> ok \<and> load_ok lh') \<and>
    (case lh_delete call_hash call_cmp m k lh data of (old, lh', k') \<Rightarrow> load_ok lh')"
proof -
  note g = conjI [OF refl conjI [OF refl assms(2)]]
  have len: "length (lh_items lh) < 2 ^ 60" using assms(6) by simp
  obtain ok old lh1 k1 where i: "lh_insert call_hash call_cmp m k lh data = (ok, old, lh1, k1)" by (metis prod_cases4)
  obtain ret lh2 k2 where d: "lh_delete call_hash call_cmp m k lh data = (ret, lh2, k2)" by (metis prod_cases3)
  from keyed.insert_keeps_load [OF assms(1) g assms(3-9) i] keyed.delete_keeps_load [OF assms(1) g assms(3-5) len assms(7-9) d]
  show ?thesis by (simp add: i d)
qed

theorem load_factor_bounded_witness:
  "load_ok (fst (snd (snd (lh_insert low_hash by_address zeroed 9 (fst (filled [5, 9, 4])) 7))))"
proof -
  obtain lh k where f: "filled [5, 9, 4] = (lh, k)" by (metis prod.exhaust)
  note ok = filled_ok [OF f]
  have key: "keyed low_hash by_address (ht_hash lh) (ht_comp lh) (\<lambda>p. p) UNIV" using low_keyed ok by simp
  have h: "lh_ok (low_hash (ht_hash lh)) (\<lambda>p. p) UNIV lh" using ok by simp
  have n: "ht_num_buckets (fst (filled [5, 9, 4])) = 16" "length (lh_items (fst (filled [5, 9, 4]))) = 3" by code_simp+
  have l: "load_ok lh" using n f by (simp add: load_ok_def kMinNumBuckets_def)
  have d: "ht_callback_depth lh = 0" and len: "length (lh_items lh) + 1 < 2 ^ 60"
    and lim: "16 * ht_num_buckets lh + OPENSSL_MALLOC_PREFIX \<le> 4000"
    using ok n f by (simp_all add: OPENSSL_MALLOC_PREFIX_def)
  from load_factor_bounded [OF key h UNIV_I l d len zeroed_avail _ lim, of 9 7] show ?thesis
    by (auto simp: f split: prod.splits)
qed

text \<open>A callback that deletes another item than its own may take the item that comes next, which the walk
  then reads after it has been freed: here the visit of 9 deletes 5.\<close>

definition delete_other :: "ptr \<Rightarrow> lhash_st \<times> nat \<times> ptr list \<Rightarrow> (lhash_st \<times> nat \<times> ptr list) option" where
  "delete_other data st =
     (case st of (lh, k, seen) \<Rightarrow>
        if data = 9
        then (case lh_delete low_hash by_address zeroed k lh 5 of (_, lh, k) \<Rightarrow> Some (lh, k, seen @ [data]))
        else Some (lh, k, seen @ [data]))"

lemma walk_reads_freed_item:
  "lh_doall_arg zeroed delete_other (fst (filled [5, 9, 4]), 9, []) = None"
  by code_simp

section \<open>The buffer pool\<close>

text \<open>C37: However the threads that call the pool interleave, two references to buffers of the pool with the same
  bytes are the same pointer, and a buffer's count is the number of the references to it, unless it is
  saturated.\<close>

theorem pool_interns:
  assumes "alloc_ok m" and "pool \<noteq> 0" and "pool_reach m pool s" and "r \<in># sy_refs s" and "r' \<in># sy_refs s"
    and "ps_heap (sy_pool s) r = Some b" and "ps_heap (sy_pool s) r' = Some b'" and "cb_pool b \<noteq> 0" and "cb_pool b' \<noteq> 0"
    and "cb_data b = cb_data b'"
  shows "r = r' \<and> (cb_references b = CRYPTO_REFCOUNT_MAX \<or> unat (cb_references b) = count (sy_refs s) r)"
proof -
  have inv: "sys_inv s" by (rule pool_reach_inv [OF assms(1-3)])
  note i = pool_invD [OF inv]
  have "r \<notin> made (sy_threads s)" "r' \<notin> made (sy_threads s)" and c: "count_ok (sy_refs s) r b"
    using held_buffer [OF inv assms(4)] held_buffer [OF inv assms(5)] assms(6) by auto
  then have "r \<in> tabled (ps_bufs (sy_pool s))" "r' \<in> tabled (ps_bufs (sy_pool s))"
    using i(3) assms(6-9) by (auto simp: pooled_def)
  then show ?thesis
    using tab_inj [OF i(2), of r r'] c assms(6,7,10) by (auto simp: content_def count_ok_def)
qed

text \<open>Two threads that both miss the same bytes and both make a buffer: the second one gives its buffer up.\<close>

definition fresh_pool :: pool_st where
  "fresh_pool = \<lparr>ps_heap = Map.empty,
     ps_bufs = \<lparr>ht_num_items = 0, ht_buckets = replicate 16 [], ht_num_buckets = 16, ht_callback_depth = 0,
       ht_comp = 2, ht_hash = 1\<rparr>, ps_allocs = 3\<rparr>"

definition both_made :: pool_st where
  "both_made = snd (new_buffer zeroed 200 5 [1, 2] (snd (new_buffer zeroed 100 5 [1, 2] fresh_pool)))"

definition first_done :: pool_st where
  "first_done = snd (the (new_publish zeroed 100 both_made))"

definition both_done :: pool_st where
  "both_done = snd (the (new_publish zeroed 200 first_done))"

lemma race_reachable:
  "pool_reach zeroed 5 \<lparr>sy_pool = both_done, sy_refs = {#100, 100#}, sy_threads = {#}\<rparr>"
proof -
  let ?d = "[1, 2] :: u8 list"
  have z: "(5::ptr) \<noteq> 0" "(100::ptr) \<noteq> 0" "(200::ptr) \<noteq> 0" by simp_all
  define p1 where "p1 = snd (new_buffer zeroed 100 5 ?d fresh_pool)"
  have "CRYPTO_BUFFER_POOL_new zeroed 1 2 Map.empty 0 = (Some fresh_pool, 3)"
    by (simp add: CRYPTO_BUFFER_POOL_new_def fresh_pool_def lh_new_def OPENSSL_malloc_def zeroed_def
        sizeof_CRYPTO_BUFFER_POOL_def sizeof_LHASH_def sizeof_LHASH_ITEM_ptr_def kMinNumBuckets_def OPENSSL_MALLOC_PREFIX_def)
  then have s0: "pool_reach zeroed 5 \<lparr>sy_pool = fresh_pool, sy_refs = {#}, sy_threads = {#}\<rparr>" by (rule start)
  have miss: "pool_step zeroed 5 \<lparr>sy_pool = fresh_pool, sy_refs = {#}, sy_threads = ts\<rparr>
      \<lparr>sy_pool = fresh_pool, sy_refs = {#}, sy_threads = add_mset (Missed ?d) ts\<rparr>" for ts
  proof (rule new_miss)
    show "free_address 9 fresh_pool" by code_simp
    have "fst (new_lookup 9 ?d fresh_pool) = 0" by code_simp
    then show "new_lookup 9 ?d fresh_pool = (0, fresh_pool)" by (auto simp: new_lookup_def Let_def split: if_splits)
  qed
  have s2: "pool_reach zeroed 5 \<lparr>sy_pool = fresh_pool, sy_refs = {#}, sy_threads = {#Missed ?d, Missed ?d#}\<rparr>"
    by (rule step [OF step [OF s0 miss] miss])
  have f1: "free_address 100 fresh_pool" "fst (new_buffer zeroed 100 5 ?d fresh_pool) = 100" by code_simp+
  have a1: "new_buffer zeroed 100 5 ?d fresh_pool = (100, p1)" by (simp add: p1_def prod_eq_iff f1)
  have s3: "pool_reach zeroed 5 \<lparr>sy_pool = p1, sy_refs = {#}, sy_threads = {#Made 100, Missed ?d#}\<rparr>"
    using step [OF s2 new_alloc [OF f1(1) a1]] z by simp
  have f2: "free_address 200 p1" "fst (new_buffer zeroed 200 5 ?d p1) = 200" unfolding p1_def by code_simp+
  have a2: "new_buffer zeroed 200 5 ?d p1 = (200, both_made)"
    using f2(2) by (simp add: both_made_def p1_def [symmetric] prod_eq_iff)
  have s4: "pool_reach zeroed 5 \<lparr>sy_pool = both_made, sy_refs = {#}, sy_threads = {#Made 100, Made 200#}\<rparr>"
    using step [OF s3 [unfolded add_mset_commute [of "Made 100"]] new_alloc [OF f2(1) a2]] z by (simp add: add_mset_commute)
  have "map_option fst (new_publish zeroed 100 both_made) = Some 100" by code_simp
  then have b1: "new_publish zeroed 100 both_made = Some (100, first_done)" by (auto simp: first_done_def)
  have s5: "pool_reach zeroed 5 \<lparr>sy_pool = first_done, sy_refs = {#100#}, sy_threads = {#Made 200#}\<rparr>"
    using step [OF s4 new_done [OF b1]] z by (simp add: gain_def)
  have "map_option fst (new_publish zeroed 200 first_done) = Some 100" by code_simp
  then have b2: "new_publish zeroed 200 first_done = Some (100, both_done)" by (auto simp: both_done_def)
  show ?thesis using step [OF s5 new_done [OF b2]] z by (simp add: gain_def)
qed

theorem pool_interns_witness:
  "\<exists>b. ps_heap both_done 100 = Some b \<and> cb_data b = [1, 2] \<and> unat (cb_references b) = count {#100 :: ptr, 100#} 100"
proof -
  have "map_option (\<lambda>b. (cb_data b, cb_pool b, cb_references b)) (ps_heap both_done 100) = Some ([1, 2], 5, 2)"
    by code_simp
  then obtain b where b: "ps_heap both_done 100 = Some b" "cb_data b = [1, 2]" "cb_pool b = 5" "cb_references b = 2" by auto
  let ?s = "\<lparr>sy_pool = both_done, sy_refs = {#100, 100#}, sy_threads = {#}\<rparr>"
  have "cb_references b \<noteq> CRYPTO_REFCOUNT_MAX" by (simp add: b(4) CRYPTO_REFCOUNT_MAX_def)
  then show ?thesis
    using pool_interns [OF zeroed_ok _ race_reachable, of 100 100 b b] b by auto
qed

text \<open>C38: The operations never touch a freed buffer, never abort and never violate an assertion: a reference can
  be duplicated and given back, a thread can finish, a new buffer has the bytes that were asked for; and a
  buffer that is there is private to a thread, or referenced, or saturated, so that the last reference takes
  it away.\<close>

theorem pool_never_dangles:
  assumes "alloc_ok m" and "pool \<noteq> 0" and "pool_reach m pool s"
  shows "(\<forall>r. r \<in># sy_refs s \<longrightarrow> CRYPTO_BUFFER_free m r (sy_pool s) \<noteq> None \<and> CRYPTO_BUFFER_up_ref r (sy_pool s) \<noteq> None) \<and>
    (\<forall>p. Made p \<in># sy_threads s \<longrightarrow> (\<exists>r ps'. new_publish m p (sy_pool s) = Some (r, ps') \<and>
       (r \<noteq> 0 \<longrightarrow> content (ps_heap ps') r = content (ps_heap (sy_pool s)) p))) \<and>
    (\<forall>tmp a data. free_address tmp (sy_pool s) \<longrightarrow> free_address a (sy_pool s) \<longrightarrow>
       (\<exists>r ps'. CRYPTO_BUFFER_new m tmp a data pool (sy_pool s) = Some (r, ps') \<and>
          (r \<noteq> 0 \<longrightarrow> content (ps_heap ps') r = data))) \<and>
    (\<forall>p b. ps_heap (sy_pool s) p = Some b \<longrightarrow>
       Made p \<in># sy_threads s \<or> p \<in># sy_refs s \<or> cb_references b = CRYPTO_REFCOUNT_MAX)"
proof -
  have inv: "sys_inv s" by (rule pool_reach_inv [OF assms])
  note i = pool_invD [OF inv]
  have 1: "CRYPTO_BUFFER_free m r (sy_pool s) \<noteq> None \<and> CRYPTO_BUFFER_up_ref r (sy_pool s) \<noteq> None" if r: "r \<in># sy_refs s" for r
  proof -
    obtain refs where "sy_refs s = add_mset r refs" using multi_member_split [OF r] by blast
    then have "CRYPTO_BUFFER_free m r (sy_pool s) \<noteq> None"
      using CRYPTO_BUFFER_free_spec [of "sy_pool s" r refs "sy_threads s" m] inv by auto
    then show ?thesis using subsetD [OF i(6) r] by (auto simp: CRYPTO_BUFFER_up_ref_def)
  qed
  have 2: "\<exists>r ps'. new_publish m p (sy_pool s) = Some (r, ps') \<and>
      (r \<noteq> 0 \<longrightarrow> content (ps_heap ps') r = content (ps_heap (sy_pool s)) p)" if p: "Made p \<in># sy_threads s" for p
  proof -
    obtain ts where "sy_threads s = add_mset (Made p) ts" using multi_member_split [OF p] by blast
    then show ?thesis using new_publish_spec [of "sy_pool s" "sy_refs s" p ts m] inv by auto
  qed
  have 3: "Made p \<in># sy_threads s \<or> p \<in># sy_refs s \<or> cb_references b = CRYPTO_REFCOUNT_MAX"
    if "ps_heap (sy_pool s) p = Some b" for p b
    using i(5) [OF that] by (auto simp: count_ok_def made_def simp flip: unat_eq_0 count_greater_zero_iff)
  show ?thesis
    using 1 2 3 CRYPTO_BUFFER_new_spec [OF assms(1,2) inv] by blast
qed

theorem pool_never_dangles_witness: "CRYPTO_BUFFER_free zeroed 100 both_done \<noteq> None"
  using pool_never_dangles [OF zeroed_ok _ race_reachable, THEN conjunct1] by simp

end
