(* ===== verification/Buf.thy ===== *)
theory Buf
  imports Mem
begin

text \<open>
  \<open>crypto/buf/buf.c\<close>: buffers that grow. \<open>bm_data\<close> is the memory from the data pointer on, \<open>None\<close> if it is
  NULL; a read-only memory BIO moves the pointer over memory that is not its own, and \<open>bm_before\<close> is what it
  has moved over. A function returns the buffer and the number of allocations afterwards.
\<close>

record BUF_MEM =
  bm_length :: nat
  bm_data :: "u8 list option"
  bm_max :: nat
  bm_before :: "u8 list"

definition sizeof_BUF_MEM :: nat where
  "sizeof_BUF_MEM = 24"

definition BUF_MEM_new :: "allocator \<Rightarrow> nat \<Rightarrow> BUF_MEM option \<times> nat" where
  "BUF_MEM_new m k =
     (case OPENSSL_malloc m k sizeof_BUF_MEM of
        (None, k) \<Rightarrow> (None, k)
      | (Some _, k) \<Rightarrow> (Some \<lparr>bm_length = 0, bm_data = None, bm_max = 0, bm_before = []\<rparr>, k))"

definition BUF_MEM_reserve :: "allocator \<Rightarrow> nat \<Rightarrow> BUF_MEM \<Rightarrow> nat \<Rightarrow> bool \<times> BUF_MEM \<times> nat" where
  "BUF_MEM_reserve m k buf cap =
     (if bm_max buf \<ge> cap then (True, buf, k)
      else
        let n = szadd cap 3 in
        if n < cap then (False, buf, k)
        else
          let n = n div 3;
              alloc_size = n * 4 mod 2 ^ 64
          in if alloc_size div 4 \<noteq> n then (False, buf, k)
             else
               case OPENSSL_realloc m k (bm_data buf) alloc_size of
                 (None, k) \<Rightarrow> (False, buf, k)
               | (Some new_buf, k) \<Rightarrow> (True, buf\<lparr>bm_data := Some new_buf, bm_max := alloc_size\<rparr>, k))"

text \<open>Writing at the data pointer plus an offset.\<close>

definition bm_store :: "nat \<Rightarrow> u8 list \<Rightarrow> BUF_MEM \<Rightarrow> BUF_MEM" where
  "bm_store off bs buf = buf\<lparr>bm_data := map_option (overwrite off bs) (bm_data buf)\<rparr>"

definition BUF_MEM_grow :: "allocator \<Rightarrow> nat \<Rightarrow> BUF_MEM \<Rightarrow> nat \<Rightarrow> nat \<times> BUF_MEM \<times> nat" where
  "BUF_MEM_grow m k buf len =
     (case BUF_MEM_reserve m k buf len of
        (False, buf, k) \<Rightarrow> (0, buf, k)
      | (True, buf, k) \<Rightarrow>
          let buf = (if bm_length buf < len
                     then bm_store (bm_length buf) (replicate (len - bm_length buf) 0) buf else buf)
          in (len, buf\<lparr>bm_length := len\<rparr>, k))"

definition BUF_MEM_grow_clean :: "allocator \<Rightarrow> nat \<Rightarrow> BUF_MEM \<Rightarrow> nat \<Rightarrow> nat \<times> BUF_MEM \<times> nat" where
  "BUF_MEM_grow_clean m k buf len = BUF_MEM_grow m k buf len"

definition BUF_MEM_append :: "allocator \<Rightarrow> nat \<Rightarrow> BUF_MEM \<Rightarrow> u8 list \<Rightarrow> bool \<times> BUF_MEM \<times> nat" where
  "BUF_MEM_append m k buf bs =
     (let len = length bs in
      if len = 0 then (True, buf, k)
      else
        let new_len = szadd (bm_length buf) len in
        if new_len < len then (False, buf, k)
        else
          case BUF_MEM_reserve m k buf new_len of
            (False, buf, k) \<Rightarrow> (False, buf, k)
          | (True, buf, k) \<Rightarrow> (True, (bm_store (bm_length buf) bs buf)\<lparr>bm_length := new_len\<rparr>, k))"

section \<open>The contents\<close>

text \<open>A growing buffer owns a block of \<open>bm_max\<close> bytes, and its contents are the first \<open>bm_length\<close> of them.\<close>

definition buf_block :: "BUF_MEM \<Rightarrow> u8 list" where
  "buf_block buf = (case bm_data buf of None \<Rightarrow> [] | Some d \<Rightarrow> d)"

definition buf_bytes :: "BUF_MEM \<Rightarrow> u8 list" where
  "buf_bytes buf = take (bm_length buf) (buf_block buf)"

definition buf_ok :: "BUF_MEM \<Rightarrow> bool" where
  "buf_ok buf \<longleftrightarrow> length (buf_block buf) = bm_max buf \<and> bm_length buf \<le> bm_max buf \<and> bm_max buf < 2 ^ 63"

lemma buf_bytes_length: "buf_ok buf \<Longrightarrow> length (buf_bytes buf) = bm_length buf"
  by (simp add: buf_ok_def buf_bytes_def)

lemma buf_new_ok: "BUF_MEM_new m k = (Some buf, k') \<Longrightarrow> buf_ok buf \<and> buf_bytes buf = []"
  by (auto simp: BUF_MEM_new_def buf_ok_def buf_bytes_def buf_block_def split: prod.splits option.splits)

lemma reserve_size:
  fixes cap :: nat
  assumes "cap < 2 ^ 62"
  shows "szadd cap 3 = cap + 3" and "(cap + 3) div 3 * 4 mod 2 ^ 64 = (cap + 3) div 3 * 4"
    and "cap \<le> (cap + 3) div 3 * 4" and "(cap + 3) div 3 * 4 \<le> 2 * cap + 4"
proof -
  have b: "cap < 4611686018427387904" using assms by simp
  then show "szadd cap 3 = cap + 3" by (simp add: szadd_def)
  show "cap \<le> (cap + 3) div 3 * 4" and le: "(cap + 3) div 3 * 4 \<le> 2 * cap + 4" by linarith+
  with b have "(cap + 3) div 3 * 4 < 18446744073709551616" by linarith
  then show "(cap + 3) div 3 * 4 mod 2 ^ 64 = (cap + 3) div 3 * 4" by simp
qed

text \<open>What reserving does: the contents stay, and when it succeeds there is room.\<close>

lemma reserve_ok:
  assumes m: "alloc_ok m" and ok: "buf_ok buf" and cap: "cap < 2 ^ 62"
    and r: "BUF_MEM_reserve m k buf cap = (s, buf', k')"
  shows "buf_ok buf' \<and> buf_bytes buf' = buf_bytes buf \<and> bm_length buf' = bm_length buf
     \<and> bm_before buf' = bm_before buf \<and> (s \<longrightarrow> cap \<le> bm_max buf') \<and> (\<not> s \<longrightarrow> buf' = buf)"
proof (cases "bm_max buf \<ge> cap")
  case True
  then show ?thesis using r ok by (auto simp: BUF_MEM_reserve_def)
next
  case False
  define n where "n = (cap + 3) div 3 * 4"
  have n: "cap \<le> n" "n \<le> 2 * cap + 4" "n div 4 = (cap + 3) div 3" "n mod 2 ^ 64 = n"
    using reserve_size [OF cap] by (simp_all add: n_def)
  have size: "n + OPENSSL_MALLOC_PREFIX < 2 ^ 64"
    using n(2) cap by (simp add: OPENSSL_MALLOC_PREFIX_def)
  obtain p k'' where p: "OPENSSL_realloc m k (bm_data buf) n = (p, k'')"
    by fastforce
  have "BUF_MEM_reserve m k buf cap =
      (case p of None \<Rightarrow> (False, buf, k'')
       | Some b \<Rightarrow> (True, buf\<lparr>bm_data := Some b, bm_max := n\<rparr>, k''))"
    using False n reserve_size(1) [OF cap] p unfolding BUF_MEM_reserve_def n_def [symmetric] Let_def
    by (simp add: n_def [symmetric] split: option.splits)
  with r have r': "(case p of None \<Rightarrow> (False, buf, k'')
       | Some b \<Rightarrow> (True, buf\<lparr>bm_data := Some b, bm_max := n\<rparr>, k'')) = (s, buf', k')"
    by simp
  show ?thesis
  proof (cases p)
    case None
    then show ?thesis using r' ok by simp
  next
    case (Some b)
    have b: "length b = n \<and> n + OPENSSL_MALLOC_PREFIX < 2 ^ 63 \<and>
        take (bm_length buf) b = take (bm_length buf) (buf_block buf)"
    proof (cases "bm_data buf")
      case None
      then show ?thesis
        using OPENSSL_malloc_length [OF m size] p Some ok
        by (simp add: OPENSSL_realloc_def buf_ok_def buf_block_def)
    next
      case (Some d)
      have "length b = n \<and> take (min (length d) n) b = take n d \<and> n + OPENSSL_MALLOC_PREFIX < 2 ^ 63"
        using OPENSSL_realloc_Some [OF m size] p \<open>p = Some b\<close> Some by metis
      moreover have "length d \<le> n" "bm_length buf \<le> length d"
        using ok Some False n(1) by (auto simp: buf_ok_def buf_block_def)
      ultimately show ?thesis
        using Some by (simp add: buf_block_def) (metis min.absorb1 take_take)
    qed
    then show ?thesis
      using r' Some n ok False by (auto simp: buf_ok_def buf_bytes_def buf_block_def)
  qed
qed

lemma reserve_avail:
  assumes "alloc_avail m limit" and "limit < 2 ^ 63" and "2 * cap + 4 + OPENSSL_MALLOC_PREFIX \<le> limit"
  shows "fst (BUF_MEM_reserve m k buf cap)"
proof (cases "bm_max buf \<ge> cap")
  case True
  then show ?thesis by (simp add: BUF_MEM_reserve_def)
next
  case False
  have cap: "cap < 2 ^ 62" using assms by simp
  have "(cap + 3) div 3 * 4 + OPENSSL_MALLOC_PREFIX \<le> limit"
    using reserve_size(4) [OF cap] assms(3) by linarith
  with assms(1,2) have a: "\<exists>b. OPENSSL_malloc m k ((cap + 3) div 3 * 4) = (Some b, Suc k)"
    by (intro OPENSSL_malloc_avail) auto
  have "\<exists>b. fst (OPENSSL_realloc m k (bm_data buf) ((cap + 3) div 3 * 4)) = Some b"
    using a by (auto simp: OPENSSL_realloc_def Let_def split: option.splits)
  then show ?thesis
    using False reserve_size [OF cap]
    unfolding BUF_MEM_reserve_def Let_def
    by (auto simp: split: prod.splits option.splits)
qed

text \<open>Storing at the end of the contents, and growing.\<close>

lemma store_end:
  assumes "buf_ok buf" and "bm_length buf + length bs \<le> bm_max buf"
  shows "buf_ok ((bm_store (bm_length buf) bs buf)\<lparr>bm_length := bm_length buf + length bs\<rparr>)"
    and "buf_bytes ((bm_store (bm_length buf) bs buf)\<lparr>bm_length := bm_length buf + length bs\<rparr>) = buf_bytes buf @ bs"
  using assms
  by (cases "bm_data buf"; auto simp: bm_store_def buf_ok_def buf_bytes_def buf_block_def take_overwrite_after)+

lemma append_spec:
  assumes m: "alloc_ok m" and ok: "buf_ok buf" and len: "bm_length buf + length bs < 2 ^ 62"
    and r: "BUF_MEM_append m k buf bs = (s, buf', k')"
  shows "buf_ok buf' \<and> buf_bytes buf' = buf_bytes buf @ (if s then bs else [])"
proof (cases "bs = []")
  case True
  then show ?thesis using r ok by (auto simp: BUF_MEM_append_def)
next
  case False
  have sz: "szadd (bm_length buf) (length bs) = bm_length buf + length bs"
    using len by simp
  obtain s1 buf1 k1 where res: "BUF_MEM_reserve m k buf (bm_length buf + length bs) = (s1, buf1, k1)"
    by (metis prod_cases3)
  note r1 = reserve_ok [OF m ok len res]
  have "BUF_MEM_append m k buf bs =
      (if s1 then (True, (bm_store (bm_length buf1) bs buf1)\<lparr>bm_length := bm_length buf + length bs\<rparr>, k1)
       else (False, buf1, k1))"
    using False by (simp add: BUF_MEM_append_def Let_def sz res split: bool.splits)
  then show ?thesis
    using r r1 store_end [of buf1 bs] by (auto split: if_splits)
qed

lemma grow_spec:
  assumes m: "alloc_ok m" and ok: "buf_ok buf" and len: "bm_length buf \<le> len" "len < 2 ^ 62"
    and r: "BUF_MEM_grow m k buf len = (s, buf', k')"
  shows "buf_ok buf' \<and> (s = len \<and> buf_bytes buf' = buf_bytes buf @ replicate (len - bm_length buf) 0
      \<or> s = 0 \<and> buf' = buf)"
proof -
  obtain s1 buf1 k1 where res: "BUF_MEM_reserve m k buf len = (s1, buf1, k1)"
    by (metis prod_cases3)
  note r1 = reserve_ok [OF m ok len(2) res]
  show ?thesis
  proof (cases s1)
    case False
    then show ?thesis using r r1 ok res by (simp add: BUF_MEM_grow_def)
  next
    case True
    let ?z = "replicate (len - bm_length buf) 0 :: u8 list"
    have "buf' = (bm_store (bm_length buf1) ?z buf1)\<lparr>bm_length := bm_length buf1 + length ?z\<rparr> \<and> s = len"
      using r r1 True res len
      by (cases "bm_data buf1") (auto simp: BUF_MEM_grow_def Let_def bm_store_def split: if_splits)
    then show ?thesis using r1 True len store_end [of buf1 ?z] by simp
  qed
qed

end
