(* ===== verification/BioBase.thy ===== *)
theory BioBase
  imports Buf Refcount "HOL-Library.Monad_Syntax"
begin

text \<open>
  The data of \<open>crypto/bio/\<close>: the structures of \<open>include/openssl/bio.h\<close> and of \<open>pair.c\<close> in a heap of maps from
  addresses, and the functions of \<open>bio.c\<close> that only read or set fields of one \<open>BIO\<close>. The result \<open>None\<close> of a
  function stands for everything that has no defined result in C: a pointer is followed that points to
  nothing, memory is accessed outside its block, an assertion fails, a count overflows into \<open>abort\<close>, or
  the function does not return. A \<open>BIO_METHOD\<close> is its record of function pointers, each of them NULL, a
  function of \<open>pair.c\<close> or \<open>bio_mem.c\<close>, or a function of the client.
\<close>

section \<open>Data\<close>

datatype bio_fn = Null_fn | Pair_fn | Mem_fn | User_fn nat

record BIO_METHOD =
  mt_type :: nat
  mt_name :: string
  mt_bwrite :: bio_fn
  mt_bread :: bio_fn
  mt_bputs :: bio_fn
  mt_bgets :: bio_fn
  mt_ctrl :: bio_fn
  mt_create :: bio_fn
  mt_destroy :: bio_fn
  mt_callback_ctrl :: bio_fn

record BIO =
  bio_method :: "BIO_METHOD option"
  bio_init :: int
  bio_shutdown :: int
  bio_flags :: u32
  bio_retry_reason :: int
  bio_num :: int
  bio_references :: u32
  bio_ptr :: ptr
  bio_next :: ptr
  bio_num_read :: nat
  bio_num_write :: nat

text \<open>One half of a pair; \<open>bb_buf\<close> has \<open>bb_size\<close> bytes if it is not NULL.\<close>

record bio_bio_st =
  bb_peer :: ptr
  bb_closed :: int
  bb_len :: nat
  bb_offset :: nat
  bb_size :: nat
  bb_buf :: "u8 list option"
  bb_request :: nat

record bio_heap =
  bh_bios :: "ptr \<rightharpoonup> BIO"
  bh_pairs :: "ptr \<rightharpoonup> bio_bio_st"
  bh_bufs :: "ptr \<rightharpoonup> BUF_MEM"
  bh_allocs :: nat

text \<open>The environment: the allocator, the addresses of the blocks that it returns, and the functions of the
  client, by their numbers. A \<open>ctrl\<close> function returns its result and what it stores through its pointer
  argument.\<close>

datatype ctrl_out = No_out | Out_data "u8 list option" | Out_buf ptr

record bio_env =
  be_malloc :: allocator
  be_addr :: "nat \<Rightarrow> ptr"
  be_write :: "nat \<Rightarrow> bio_heap \<Rightarrow> ptr \<Rightarrow> u8 list option \<Rightarrow> int \<Rightarrow> (int \<times> bio_heap) option"
  be_read :: "nat \<Rightarrow> bio_heap \<Rightarrow> ptr \<Rightarrow> bool \<Rightarrow> int \<Rightarrow> (int \<times> u8 list \<times> bio_heap) option"
  be_gets :: "nat \<Rightarrow> bio_heap \<Rightarrow> ptr \<Rightarrow> bool \<Rightarrow> int \<Rightarrow> (int \<times> u8 list \<times> bio_heap) option"
  be_ctrl :: "nat \<Rightarrow> bio_heap \<Rightarrow> ptr \<Rightarrow> nat \<Rightarrow> int \<Rightarrow> ptr \<Rightarrow> (int \<times> ctrl_out \<times> bio_heap) option"
  be_create :: "nat \<Rightarrow> bio_heap \<Rightarrow> ptr \<Rightarrow> (int \<times> bio_heap) option"
  be_destroy :: "nat \<Rightarrow> bio_heap \<Rightarrow> ptr \<Rightarrow> (int \<times> bio_heap) option"
  be_callback_ctrl :: "nat \<Rightarrow> bio_heap \<Rightarrow> ptr \<Rightarrow> nat \<Rightarrow> ptr \<Rightarrow> (int \<times> bio_heap) option"

text \<open>Following pointers, and storing what they point to.\<close>

definition bio_at :: "bio_heap \<Rightarrow> ptr \<Rightarrow> BIO option" where
  "bio_at h p = (if p = 0 then None else bh_bios h p)"

definition pair_at :: "bio_heap \<Rightarrow> ptr \<Rightarrow> bio_bio_st option" where
  "pair_at h p = (if p = 0 then None else bh_pairs h p)"

definition buf_at :: "bio_heap \<Rightarrow> ptr \<Rightarrow> BUF_MEM option" where
  "buf_at h p = (if p = 0 then None else bh_bufs h p)"

definition put_bio :: "ptr \<Rightarrow> BIO \<Rightarrow> bio_heap \<Rightarrow> bio_heap" where
  "put_bio p x h = h\<lparr>bh_bios := (bh_bios h)(p \<mapsto> x)\<rparr>"

definition put_pair :: "ptr \<Rightarrow> bio_bio_st \<Rightarrow> bio_heap \<Rightarrow> bio_heap" where
  "put_pair p b h = h\<lparr>bh_pairs := (bh_pairs h)(p \<mapsto> b)\<rparr>"

definition put_buf :: "ptr \<Rightarrow> BUF_MEM \<Rightarrow> bio_heap \<Rightarrow> bio_heap" where
  "put_buf p b h = h\<lparr>bh_bufs := (bh_bufs h)(p \<mapsto> b)\<rparr>"

lemma heap_at_put [simp]:
  "bio_at (put_bio p x h) q = (if q = p \<and> p \<noteq> 0 then Some x else bio_at h q)"
  "bio_at (put_pair p b h) q = bio_at h q"
  "bio_at (put_buf p c h) q = bio_at h q"
  "pair_at (put_pair p b h) q = (if q = p \<and> p \<noteq> 0 then Some b else pair_at h q)"
  "pair_at (put_bio p x h) q = pair_at h q"
  "pair_at (put_buf p c h) q = pair_at h q"
  "buf_at (put_buf p c h) q = (if q = p \<and> p \<noteq> 0 then Some c else buf_at h q)"
  "buf_at (put_bio p x h) q = buf_at h q"
  "buf_at (put_pair p b h) q = buf_at h q"
  by (simp_all add: bio_at_def pair_at_def buf_at_def put_bio_def put_pair_def put_buf_def)

lemma heap_allocs_put [simp]:
  "bh_allocs (put_bio p x h) = bh_allocs h" "bh_allocs (put_pair p b h) = bh_allocs h"
  "bh_allocs (put_buf p c h) = bh_allocs h"
  by (simp_all add: put_bio_def put_pair_def put_buf_def)

lemma heap_at_allocs [simp]:
  "bio_at (h\<lparr>bh_allocs := k\<rparr>) q = bio_at h q" "pair_at (h\<lparr>bh_allocs := k\<rparr>) q = pair_at h q"
  "buf_at (h\<lparr>bh_allocs := k\<rparr>) q = buf_at h q"
  by (simp_all add: bio_at_def pair_at_def buf_at_def)

lemma heap_at_nonnull:
  "bio_at h p = Some x \<Longrightarrow> p \<noteq> 0" "pair_at h p = Some b \<Longrightarrow> p \<noteq> 0" "buf_at h p = Some c \<Longrightarrow> p \<noteq> 0"
  by (auto simp: bio_at_def pair_at_def buf_at_def split: if_splits)

definition c_assert :: "bool \<Rightarrow> unit option" where
  "c_assert b = (if b then Some () else None)"

lemma c_assert_iff [simp]: "c_assert b = Some u \<longleftrightarrow> b" "c_assert b = None \<longleftrightarrow> \<not> b"
  by (auto simp: c_assert_def)

lemma c_assert_True [simp]: "c_assert True = Some ()"
  by (simp add: c_assert_def)

text \<open>Conversions between \<open>size_t\<close>, \<open>int\<close> and \<open>long\<close>, and the difference of two \<open>size_t\<close>.\<close>

definition INT_MAX :: nat where
  "INT_MAX = 2 ^ 31 - 1"

definition size_to_int :: "nat \<Rightarrow> int" where
  "size_to_int n = (int n + 2 ^ 31) mod 2 ^ 32 - 2 ^ 31"

definition size_to_long :: "nat \<Rightarrow> int" where
  "size_to_long n = (int n + 2 ^ 63) mod 2 ^ 64 - 2 ^ 63"

definition long_to_int :: "int \<Rightarrow> int" where
  "long_to_int i = (i + 2 ^ 31) mod 2 ^ 32 - 2 ^ 31"

definition int_to_size :: "int \<Rightarrow> nat" where
  "int_to_size i = nat (i mod 2 ^ 64)"

definition szsub :: "nat \<Rightarrow> nat \<Rightarrow> nat" where
  "szsub a b = (a + (2 ^ 64 - b)) mod 2 ^ 64"

lemma size_to_int_small [simp]: "n < 2 ^ 31 \<Longrightarrow> size_to_int n = int n"
  by (simp add: size_to_int_def)

lemma size_to_long_small [simp]: "n < 2 ^ 63 \<Longrightarrow> size_to_long n = int n"
  by (simp add: size_to_long_def)

lemma int_to_size_small [simp]: "0 \<le> i \<Longrightarrow> i < 2 ^ 64 \<Longrightarrow> int_to_size i = nat i"
  by (simp add: int_to_size_def)

lemma int_to_size_of_nat [simp]: "n < 2 ^ 64 \<Longrightarrow> int_to_size (int n) = n"
  by (subst int_to_size_small) simp_all

lemma szsub_small [simp]:
  assumes "b \<le> a" and "a < 2 ^ 64"
  shows "szsub a b = a - b"
proof -
  have "a + (2 ^ 64 - b) = (a - b) + 2 ^ 64" using assms by simp
  then have "szsub a b = (a - b) mod 2 ^ 64"
    unfolding szsub_def by (simp only: mod_add_self2)
  then show ?thesis using assms by simp
qed

section \<open>Flags\<close>

definition BIO_FLAGS_READ :: u32 where "BIO_FLAGS_READ = 1"
definition BIO_FLAGS_WRITE :: u32 where "BIO_FLAGS_WRITE = 2"
definition BIO_FLAGS_IO_SPECIAL :: u32 where "BIO_FLAGS_IO_SPECIAL = 4"
definition BIO_FLAGS_SHOULD_RETRY :: u32 where "BIO_FLAGS_SHOULD_RETRY = 8"
definition BIO_FLAGS_MEM_RDONLY :: u32 where "BIO_FLAGS_MEM_RDONLY = 0x200"

definition BIO_FLAGS_RWS :: u32 where
  "BIO_FLAGS_RWS = BIO_FLAGS_READ OR BIO_FLAGS_WRITE OR BIO_FLAGS_IO_SPECIAL"

definition kRetryFlags :: u32 where
  "kRetryFlags = BIO_FLAGS_RWS OR BIO_FLAGS_SHOULD_RETRY"

text \<open>What the functions do to the structure, and the functions themselves, which follow the pointer.\<close>

definition set_flags :: "u32 \<Rightarrow> BIO \<Rightarrow> BIO" where
  "set_flags flags x = x\<lparr>bio_flags := bio_flags x OR flags\<rparr>"

definition clear_retry_flags :: "BIO \<Rightarrow> BIO" where
  "clear_retry_flags x = x\<lparr>bio_flags := bio_flags x AND NOT kRetryFlags, bio_retry_reason := 0\<rparr>"

definition upd_bio :: "(BIO \<Rightarrow> BIO) \<Rightarrow> bio_heap \<Rightarrow> ptr \<Rightarrow> bio_heap option" where
  "upd_bio f h bio = do { x \<leftarrow> bio_at h bio; Some (put_bio bio (f x) h) }"

definition BIO_set_flags :: "bio_heap \<Rightarrow> ptr \<Rightarrow> u32 \<Rightarrow> bio_heap option" where
  "BIO_set_flags h bio flags = upd_bio (set_flags flags) h bio"

definition BIO_test_flags :: "bio_heap \<Rightarrow> ptr \<Rightarrow> u32 \<Rightarrow> u32 option" where
  "BIO_test_flags h bio flags = do { x \<leftarrow> bio_at h bio; Some (bio_flags x AND flags) }"

definition BIO_should_read :: "bio_heap \<Rightarrow> ptr \<Rightarrow> u32 option" where
  "BIO_should_read h bio = BIO_test_flags h bio BIO_FLAGS_READ"

definition BIO_should_write :: "bio_heap \<Rightarrow> ptr \<Rightarrow> u32 option" where
  "BIO_should_write h bio = BIO_test_flags h bio BIO_FLAGS_WRITE"

definition BIO_should_retry :: "bio_heap \<Rightarrow> ptr \<Rightarrow> u32 option" where
  "BIO_should_retry h bio = BIO_test_flags h bio BIO_FLAGS_SHOULD_RETRY"

definition BIO_should_io_special :: "bio_heap \<Rightarrow> ptr \<Rightarrow> u32 option" where
  "BIO_should_io_special h bio = BIO_test_flags h bio BIO_FLAGS_IO_SPECIAL"

definition BIO_get_retry_reason :: "bio_heap \<Rightarrow> ptr \<Rightarrow> int option" where
  "BIO_get_retry_reason h bio = do { x \<leftarrow> bio_at h bio; Some (bio_retry_reason x) }"

definition BIO_clear_flags :: "bio_heap \<Rightarrow> ptr \<Rightarrow> u32 \<Rightarrow> bio_heap option" where
  "BIO_clear_flags h bio flags = upd_bio (\<lambda>x. x\<lparr>bio_flags := bio_flags x AND NOT flags\<rparr>) h bio"

definition BIO_set_retry_read :: "bio_heap \<Rightarrow> ptr \<Rightarrow> bio_heap option" where
  "BIO_set_retry_read h bio = upd_bio (set_flags (BIO_FLAGS_READ OR BIO_FLAGS_SHOULD_RETRY)) h bio"

definition BIO_set_retry_write :: "bio_heap \<Rightarrow> ptr \<Rightarrow> bio_heap option" where
  "BIO_set_retry_write h bio = upd_bio (set_flags (BIO_FLAGS_WRITE OR BIO_FLAGS_SHOULD_RETRY)) h bio"

definition BIO_get_retry_flags :: "bio_heap \<Rightarrow> ptr \<Rightarrow> u32 option" where
  "BIO_get_retry_flags h bio = do { x \<leftarrow> bio_at h bio; Some (bio_flags x AND kRetryFlags) }"

definition BIO_clear_retry_flags :: "bio_heap \<Rightarrow> ptr \<Rightarrow> bio_heap option" where
  "BIO_clear_retry_flags h bio = upd_bio clear_retry_flags h bio"

definition BIO_method_type :: "bio_heap \<Rightarrow> ptr \<Rightarrow> nat option" where
  "BIO_method_type h bio = do { x \<leftarrow> bio_at h bio; mt \<leftarrow> bio_method x; Some (mt_type mt) }"

definition BIO_copy_next_retry :: "bio_heap \<Rightarrow> ptr \<Rightarrow> bio_heap option" where
  "BIO_copy_next_retry h bio = do {
     h \<leftarrow> BIO_clear_retry_flags h bio;
     x \<leftarrow> bio_at h bio;
     flags \<leftarrow> BIO_get_retry_flags h (bio_next x);
     h \<leftarrow> BIO_set_flags h bio flags;
     y \<leftarrow> bio_at h (bio_next x);
     upd_bio (\<lambda>x. x\<lparr>bio_retry_reason := bio_retry_reason y\<rparr>) h bio }"

definition BIO_set_retry_special :: "bio_heap \<Rightarrow> ptr \<Rightarrow> bio_heap option" where
  "BIO_set_retry_special h bio = upd_bio (set_flags (BIO_FLAGS_READ OR BIO_FLAGS_IO_SPECIAL)) h bio"

section \<open>Fields\<close>

definition BIO_number_read :: "bio_heap \<Rightarrow> ptr \<Rightarrow> nat option" where
  "BIO_number_read h bio = do { x \<leftarrow> bio_at h bio; Some (bio_num_read x) }"

definition BIO_number_written :: "bio_heap \<Rightarrow> ptr \<Rightarrow> nat option" where
  "BIO_number_written h bio = do { x \<leftarrow> bio_at h bio; Some (bio_num_write x) }"

definition BIO_set_data :: "bio_heap \<Rightarrow> ptr \<Rightarrow> ptr \<Rightarrow> bio_heap option" where
  "BIO_set_data h bio p = upd_bio (\<lambda>x. x\<lparr>bio_ptr := p\<rparr>) h bio"

definition BIO_get_data :: "bio_heap \<Rightarrow> ptr \<Rightarrow> ptr option" where
  "BIO_get_data h bio = do { x \<leftarrow> bio_at h bio; Some (bio_ptr x) }"

definition BIO_set_init :: "bio_heap \<Rightarrow> ptr \<Rightarrow> int \<Rightarrow> bio_heap option" where
  "BIO_set_init h bio init = upd_bio (\<lambda>x. x\<lparr>bio_init := init\<rparr>) h bio"

definition BIO_get_init :: "bio_heap \<Rightarrow> ptr \<Rightarrow> int option" where
  "BIO_get_init h bio = do { x \<leftarrow> bio_at h bio; Some (bio_init x) }"

definition BIO_set_shutdown :: "bio_heap \<Rightarrow> ptr \<Rightarrow> int \<Rightarrow> bio_heap option" where
  "BIO_set_shutdown h bio shutdown = upd_bio (\<lambda>x. x\<lparr>bio_shutdown := shutdown\<rparr>) h bio"

definition BIO_get_shutdown :: "bio_heap \<Rightarrow> ptr \<Rightarrow> int option" where
  "BIO_get_shutdown h bio = do { x \<leftarrow> bio_at h bio; Some (bio_shutdown x) }"

definition BIO_up_ref :: "bio_heap \<Rightarrow> ptr \<Rightarrow> bio_heap option" where
  "BIO_up_ref h bio = upd_bio (\<lambda>x. x\<lparr>bio_references := CRYPTO_refcount_inc (bio_references x)\<rparr>) h bio"

section \<open>Chains\<close>

partial_function (option) push_walk :: "bio_heap \<Rightarrow> ptr \<Rightarrow> ptr option" where
  "push_walk h last_bio =
     do { x \<leftarrow> bio_at h last_bio;
          if bio_next x \<noteq> 0 then push_walk h (bio_next x) else Some last_bio }"

definition BIO_push :: "bio_heap \<Rightarrow> ptr \<Rightarrow> ptr \<Rightarrow> (ptr \<times> bio_heap) option" where
  "BIO_push h bio appended_bio =
     (if bio = 0 then Some (bio, h)
      else do {
        last_bio \<leftarrow> push_walk h bio;
        h \<leftarrow> upd_bio (\<lambda>x. x\<lparr>bio_next := appended_bio\<rparr>) h last_bio;
        Some (bio, h) })"

definition BIO_pop :: "bio_heap \<Rightarrow> ptr \<Rightarrow> (ptr \<times> bio_heap) option" where
  "BIO_pop h bio =
     (if bio = 0 then Some (0, h)
      else do {
        x \<leftarrow> bio_at h bio;
        Some (bio_next x, put_bio bio (x\<lparr>bio_next := 0\<rparr>) h) })"

definition BIO_next :: "bio_heap \<Rightarrow> ptr \<Rightarrow> ptr option" where
  "BIO_next h bio = (if bio = 0 then Some 0 else do { x \<leftarrow> bio_at h bio; Some (bio_next x) })"

partial_function (option) find_type_loop :: "bio_heap \<Rightarrow> nat \<Rightarrow> ptr \<Rightarrow> ptr option" where
  "find_type_loop h type bio =
     do { x \<leftarrow> bio_at h bio;
          if (case bio_method x of
                None \<Rightarrow> False
              | Some mt \<Rightarrow> if type mod 256 = 0 then mt_type mt AND type \<noteq> 0 else mt_type mt = type)
          then Some bio
          else if bio_next x \<noteq> 0 then find_type_loop h type (bio_next x) else Some 0 }"

definition BIO_find_type :: "bio_heap \<Rightarrow> ptr \<Rightarrow> nat \<Rightarrow> ptr option" where
  "BIO_find_type h bio type = (if bio = 0 then Some 0 else find_type_loop h type bio)"

declare push_walk.simps [code] find_type_loop.simps [code]

section \<open>Methods\<close>

definition BIO_TYPE_MEM :: nat where "BIO_TYPE_MEM = 1 OR 0x400"
definition BIO_TYPE_BIO :: nat where "BIO_TYPE_BIO = 19 OR 0x400"
definition sizeof_BIO_METHOD :: nat where "sizeof_BIO_METHOD = 80"

definition BIO_meth_new :: "allocator \<Rightarrow> nat \<Rightarrow> nat \<Rightarrow> string \<Rightarrow> BIO_METHOD option \<times> nat" where
  "BIO_meth_new m k type name =
     (case OPENSSL_malloc m k sizeof_BIO_METHOD of
        (None, k) \<Rightarrow> (None, k)
      | (Some _, k) \<Rightarrow>
          (Some \<lparr>mt_type = type, mt_name = name, mt_bwrite = Null_fn, mt_bread = Null_fn, mt_bputs = Null_fn,
                 mt_bgets = Null_fn, mt_ctrl = Null_fn, mt_create = Null_fn, mt_destroy = Null_fn,
                 mt_callback_ctrl = Null_fn\<rparr>, k))"

definition BIO_meth_set_create :: "BIO_METHOD \<Rightarrow> bio_fn \<Rightarrow> BIO_METHOD" where
  "BIO_meth_set_create mt create = mt\<lparr>mt_create := create\<rparr>"

definition BIO_meth_set_destroy :: "BIO_METHOD \<Rightarrow> bio_fn \<Rightarrow> BIO_METHOD" where
  "BIO_meth_set_destroy mt destroy = mt\<lparr>mt_destroy := destroy\<rparr>"

definition BIO_meth_set_write :: "BIO_METHOD \<Rightarrow> bio_fn \<Rightarrow> BIO_METHOD" where
  "BIO_meth_set_write mt write = mt\<lparr>mt_bwrite := write\<rparr>"

definition BIO_meth_set_read :: "BIO_METHOD \<Rightarrow> bio_fn \<Rightarrow> BIO_METHOD" where
  "BIO_meth_set_read mt read = mt\<lparr>mt_bread := read\<rparr>"

definition BIO_meth_set_gets :: "BIO_METHOD \<Rightarrow> bio_fn \<Rightarrow> BIO_METHOD" where
  "BIO_meth_set_gets mt gets = mt\<lparr>mt_bgets := gets\<rparr>"

definition BIO_meth_set_ctrl :: "BIO_METHOD \<Rightarrow> bio_fn \<Rightarrow> BIO_METHOD" where
  "BIO_meth_set_ctrl mt ctrl = mt\<lparr>mt_ctrl := ctrl\<rparr>"

text \<open>The index is a global variable under a lock.\<close>

definition BIO_get_new_index :: "int \<Rightarrow> int \<times> int" where
  "BIO_get_new_index g_index = (if g_index > 255 then (- 1, g_index) else (g_index, g_index + 1))"

end
