(* ===== verification/BioPair.thy ===== *)
theory BioPair
  imports BioBase
begin

text \<open>
  \<open>crypto/bio/pair.c\<close>: two \<open>BIO\<close>s that are each other's peer; what is written to one is read from the
  other. Each half has a ring buffer for what is written to it, which the peer reads. A read returns, next to
  the result of the C function, the bytes that it stores in the caller's buffer.
\<close>

definition BIO_C_GET_WRITE_BUF_SIZE :: nat where "BIO_C_GET_WRITE_BUF_SIZE = 137"
definition BIO_C_GET_WRITE_GUARANTEE :: nat where "BIO_C_GET_WRITE_GUARANTEE = 140"
definition BIO_C_GET_READ_REQUEST :: nat where "BIO_C_GET_READ_REQUEST = 141"
definition BIO_C_SHUTDOWN_WR :: nat where "BIO_C_SHUTDOWN_WR = 142"
definition BIO_C_RESET_READ_REQUEST :: nat where "BIO_C_RESET_READ_REQUEST = 147"
definition BIO_CTRL_RESET :: nat where "BIO_CTRL_RESET = 1"
definition BIO_CTRL_EOF :: nat where "BIO_CTRL_EOF = 2"
definition BIO_CTRL_INFO :: nat where "BIO_CTRL_INFO = 3"
definition BIO_CTRL_GET_CLOSE :: nat where "BIO_CTRL_GET_CLOSE = 8"
definition BIO_CTRL_SET_CLOSE :: nat where "BIO_CTRL_SET_CLOSE = 9"
definition BIO_CTRL_PENDING :: nat where "BIO_CTRL_PENDING = 10"
definition BIO_CTRL_FLUSH :: nat where "BIO_CTRL_FLUSH = 11"
definition BIO_CTRL_WPENDING :: nat where "BIO_CTRL_WPENDING = 13"

definition sizeof_bio_bio_st :: nat where
  "sizeof_bio_bio_st = 56"

section \<open>Making and freeing\<close>

definition bio_new :: "bio_env \<Rightarrow> bio_heap \<Rightarrow> ptr \<Rightarrow> (int \<times> bio_heap) option" where
  "bio_new E h bio =
     (case OPENSSL_malloc (be_malloc E) (bh_allocs h) sizeof_bio_bio_st of
        (None, k) \<Rightarrow> Some (0, h\<lparr>bh_allocs := k\<rparr>)
      | (Some _, k) \<Rightarrow>
          let b = be_addr E (bh_allocs h);
              h = put_pair b \<lparr>bb_peer = 0, bb_closed = 0, bb_len = 0, bb_offset = 0, bb_size = 17 * 1024,
                              bb_buf = None, bb_request = 0\<rparr> (h\<lparr>bh_allocs := k\<rparr>)
          in do { h \<leftarrow> upd_bio (\<lambda>x. x\<lparr>bio_ptr := b\<rparr>) h bio; Some (1, h) })"

definition bio_destroy_pair :: "bio_heap \<Rightarrow> ptr \<Rightarrow> bio_heap option" where
  "bio_destroy_pair h bio = do {
     x \<leftarrow> bio_at h bio;
     if bio_ptr x = 0 then Some h
     else do {
       b \<leftarrow> pair_at h (bio_ptr x);
       let peer_bio = bb_peer b;
       if peer_bio = 0 then Some h
       else do {
         y \<leftarrow> bio_at h peer_bio;
         peer_b \<leftarrow> pair_at h (bio_ptr y);
         c_assert (bb_peer peer_b = bio);
         let h = put_bio peer_bio (y\<lparr>bio_init := 0\<rparr>) h;
         c_assert (bb_buf peer_b \<noteq> None);
         let h = put_pair (bio_ptr y) (peer_b\<lparr>bb_peer := 0, bb_len := 0, bb_offset := 0\<rparr>) h;
         x \<leftarrow> bio_at h bio;
         let h = put_bio bio (x\<lparr>bio_init := 0\<rparr>) h;
         b \<leftarrow> pair_at h (bio_ptr x);
         c_assert (bb_buf b \<noteq> None);
         Some (put_pair (bio_ptr x) (b\<lparr>bb_peer := 0, bb_len := 0, bb_offset := 0\<rparr>) h) } } }"

definition bio_free :: "bio_heap \<Rightarrow> ptr \<Rightarrow> (int \<times> bio_heap) option" where
  "bio_free h bio =
     (if bio = 0 then Some (0, h)
      else do {
        x \<leftarrow> bio_at h bio;
        b \<leftarrow> pair_at h (bio_ptr x);
        h \<leftarrow> (if bb_peer b \<noteq> 0 then bio_destroy_pair h bio else Some h);
        Some (1, h\<lparr>bh_pairs := (bh_pairs h)(bio_ptr x := None)\<rparr>) })"

section \<open>Reading\<close>

text \<open>The loop of \<open>bio_read\<close>: it returns the bytes that it copies.\<close>

partial_function (option) bio_read_loop :: "nat \<Rightarrow> bio_bio_st \<Rightarrow> (u8 list \<times> bio_bio_st) option" where
  "bio_read_loop rest peer_b = do {
     c_assert (rest \<le> bb_len peer_b);
     buf \<leftarrow> bb_buf peer_b;
     let chunk = (if szadd (bb_offset peer_b) rest \<le> bb_size peer_b then rest
                  else szsub (bb_size peer_b) (bb_offset peer_b));
     c_assert (szadd (bb_offset peer_b) chunk \<le> bb_size peer_b);
     c_assert (bb_offset peer_b + chunk \<le> length buf);
     let bs = take chunk (drop (bb_offset peer_b) buf);
     let peer_b = peer_b\<lparr>bb_len := szsub (bb_len peer_b) chunk\<rparr>;
     peer_b \<leftarrow> (if bb_len peer_b \<noteq> 0
               then
                 let offset = szadd (bb_offset peer_b) chunk
                 in do {
                   c_assert (offset \<le> bb_size peer_b);
                   Some (peer_b\<lparr>bb_offset := (if offset = bb_size peer_b then 0 else offset)\<rparr>) }
               else do {
                 c_assert (chunk = rest);
                 Some (peer_b\<lparr>bb_offset := 0\<rparr>) });
     let rest = szsub rest chunk;
     if rest \<noteq> 0
     then do { (more, peer_b) \<leftarrow> bio_read_loop rest peer_b; Some (bs @ more, peer_b) }
     else Some (bs, peer_b) }"

declare bio_read_loop.simps [code]

definition bio_read :: "bio_heap \<Rightarrow> ptr \<Rightarrow> bool \<Rightarrow> int \<Rightarrow> (int \<times> u8 list \<times> bio_heap) option" where
  "bio_read h bio buf len = do {
     let size = int_to_size len;
     h \<leftarrow> BIO_clear_retry_flags h bio;
     x \<leftarrow> bio_at h bio;
     if bio_init x = 0 then Some (0, [], h)
     else do {
       b \<leftarrow> pair_at h (bio_ptr x);
       y \<leftarrow> bio_at h (bb_peer b);
       peer_b \<leftarrow> pair_at h (bio_ptr y);
       c_assert (bb_buf peer_b \<noteq> None);
       let peer_b = peer_b\<lparr>bb_request := 0\<rparr>;
       let h = put_pair (bio_ptr y) peer_b h;
       if \<not> buf \<or> size = 0 then Some (0, [], h)
       else if bb_len peer_b = 0
       then
         if bb_closed peer_b \<noteq> 0 then Some (0, [], h)
         else do {
           h \<leftarrow> BIO_set_retry_read h bio;
           let request = (if size \<le> bb_size peer_b then size else bb_size peer_b);
           Some (- 1, [], put_pair (bio_ptr y) (peer_b\<lparr>bb_request := request\<rparr>) h) }
       else do {
         let size = (if bb_len peer_b < size then bb_len peer_b else size);
         c_assert (size > 0);
         (bs, peer_b) \<leftarrow> bio_read_loop size peer_b;
         Some (size_to_int size, bs, put_pair (bio_ptr y) peer_b h) } } }"

section \<open>Writing\<close>

partial_function (option) bio_write_loop :: "nat \<Rightarrow> u8 list \<Rightarrow> bio_bio_st \<Rightarrow> bio_bio_st option" where
  "bio_write_loop rest bs b = do {
     c_assert (szadd (bb_len b) rest \<le> bb_size b);
     buf \<leftarrow> bb_buf b;
     let write_offset = szadd (bb_offset b) (bb_len b);
     let write_offset = (if write_offset \<ge> bb_size b then szsub write_offset (bb_size b) else write_offset);
     let chunk = (if szadd write_offset rest \<le> bb_size b then rest else szsub (bb_size b) write_offset);
     c_assert (write_offset + chunk \<le> length buf \<and> chunk \<le> length bs);
     let b = b\<lparr>bb_buf := Some (overwrite write_offset (take chunk bs) buf), bb_len := szadd (bb_len b) chunk\<rparr>;
     c_assert (bb_len b \<le> bb_size b);
     let rest = szsub rest chunk;
     if rest \<noteq> 0 then bio_write_loop rest (drop chunk bs) b else Some b }"

declare bio_write_loop.simps [code]

definition bio_write :: "bio_heap \<Rightarrow> ptr \<Rightarrow> u8 list option \<Rightarrow> int \<Rightarrow> (int \<times> bio_heap) option" where
  "bio_write h bio buf inl = do {
     let num = int_to_size inl;
     h \<leftarrow> BIO_clear_retry_flags h bio;
     x \<leftarrow> bio_at h bio;
     if bio_init x = 0 \<or> buf = None \<or> num = 0 then Some (0, h)
     else do {
       bs \<leftarrow> buf;
       b \<leftarrow> pair_at h (bio_ptr x);
       c_assert (bb_peer b \<noteq> 0);
       c_assert (bb_buf b \<noteq> None);
       let b = b\<lparr>bb_request := 0\<rparr>;
       let h = put_pair (bio_ptr x) b h;
       if bb_closed b \<noteq> 0 then Some (- 1, h)
       else do {
         c_assert (bb_len b \<le> bb_size b);
         if bb_len b = bb_size b then do { h \<leftarrow> BIO_set_retry_write h bio; Some (- 1, h) }
         else do {
           let num = (if num > szsub (bb_size b) (bb_len b) then szsub (bb_size b) (bb_len b) else num);
           c_assert (num > 0);
           b \<leftarrow> bio_write_loop num bs b;
           Some (size_to_int num, put_pair (bio_ptr x) b h) } } } }"

section \<open>Making pairs\<close>

text \<open>Giving a half its buffer, unless it has one; the two halves are treated alike.\<close>

definition make_buffer :: "bio_env \<Rightarrow> bio_heap \<Rightarrow> ptr \<Rightarrow> nat \<Rightarrow> (bool \<times> bio_heap) option" where
  "make_buffer E h p writebuf_len = do {
     b \<leftarrow> pair_at h p;
     if bb_buf b = None
     then
       let b = (if writebuf_len \<noteq> 0 then b\<lparr>bb_size := writebuf_len\<rparr> else b)
       in case OPENSSL_malloc (be_malloc E) (bh_allocs h) (bb_size b) of
            (None, k) \<Rightarrow> Some (False, put_pair p b (h\<lparr>bh_allocs := k\<rparr>))
          | (Some buf, k) \<Rightarrow>
              Some (True, put_pair p (b\<lparr>bb_buf := Some buf, bb_len := 0, bb_offset := 0\<rparr>) (h\<lparr>bh_allocs := k\<rparr>))
     else Some (True, h) }"

definition bio_make_pair ::
  "bio_env \<Rightarrow> bio_heap \<Rightarrow> ptr \<Rightarrow> ptr \<Rightarrow> nat \<Rightarrow> nat \<Rightarrow> (int \<times> bio_heap) option" where
  "bio_make_pair E h bio1 bio2 writebuf1_len writebuf2_len = do {
     x1 \<leftarrow> bio_at h bio1;
     x2 \<leftarrow> bio_at h bio2;
     b1 \<leftarrow> pair_at h (bio_ptr x1);
     b2 \<leftarrow> pair_at h (bio_ptr x2);
     if bb_peer b1 \<noteq> 0 \<or> bb_peer b2 \<noteq> 0 then Some (0, h)
     else do {
       (ok, h) \<leftarrow> make_buffer E h (bio_ptr x1) writebuf1_len;
       if \<not> ok then Some (0, h)
       else do {
         (ok, h) \<leftarrow> make_buffer E h (bio_ptr x2) writebuf2_len;
         if \<not> ok then Some (0, h)
         else do {
           b1 \<leftarrow> pair_at h (bio_ptr x1);
           let h = put_pair (bio_ptr x1) (b1\<lparr>bb_peer := bio2, bb_closed := 0, bb_request := 0\<rparr>) h;
           b2 \<leftarrow> pair_at h (bio_ptr x2);
           let h = put_pair (bio_ptr x2) (b2\<lparr>bb_peer := bio1, bb_closed := 0, bb_request := 0\<rparr>) h;
           h \<leftarrow> BIO_set_init h bio1 1;
           h \<leftarrow> BIO_set_init h bio2 1;
           Some (1, h) } } } }"

section \<open>Control\<close>

definition bio_ctrl ::
  "bio_heap \<Rightarrow> ptr \<Rightarrow> nat \<Rightarrow> int \<Rightarrow> ptr \<Rightarrow> (int \<times> ctrl_out \<times> bio_heap) option" where
  "bio_ctrl h bio cmd num p = do {
     x \<leftarrow> bio_at h bio;
     b \<leftarrow> pair_at h (bio_ptr x);
     if cmd = BIO_C_GET_WRITE_BUF_SIZE then Some (size_to_long (bb_size b), No_out, h)
     else if cmd = BIO_C_GET_WRITE_GUARANTEE
     then
       if bb_peer b = 0 \<or> bb_closed b \<noteq> 0 then Some (0, No_out, h)
       else Some (size_to_long (szsub (bb_size b) (bb_len b)), No_out, h)
     else if cmd = BIO_C_GET_READ_REQUEST then Some (size_to_long (bb_request b), No_out, h)
     else if cmd = BIO_C_RESET_READ_REQUEST then Some (1, No_out, put_pair (bio_ptr x) (b\<lparr>bb_request := 0\<rparr>) h)
     else if cmd = BIO_C_SHUTDOWN_WR then Some (1, No_out, put_pair (bio_ptr x) (b\<lparr>bb_closed := 1\<rparr>) h)
     else if cmd = BIO_CTRL_GET_CLOSE then Some (bio_shutdown x, No_out, h)
     else if cmd = BIO_CTRL_SET_CLOSE then Some (1, No_out, put_bio bio (x\<lparr>bio_shutdown := long_to_int num\<rparr>) h)
     else if cmd = BIO_CTRL_PENDING
     then
       if bb_peer b \<noteq> 0
       then do {
         y \<leftarrow> bio_at h (bb_peer b);
         peer_b \<leftarrow> pair_at h (bio_ptr y);
         Some (size_to_long (bb_len peer_b), No_out, h) }
       else Some (0, No_out, h)
     else if cmd = BIO_CTRL_WPENDING
     then Some (if bb_buf b \<noteq> None then size_to_long (bb_len b) else 0, No_out, h)
     else if cmd = BIO_CTRL_FLUSH then Some (1, No_out, h)
     else if cmd = BIO_CTRL_EOF
     then
       if p \<noteq> 0
       then do {
         other \<leftarrow> bio_at h p;
         other_b \<leftarrow> pair_at h (bio_ptr other);
         Some (if bb_len other_b = 0 \<and> bb_closed other_b \<noteq> 0 then 1 else 0, No_out, h) }
       else Some (1, No_out, h)
     else Some (0, No_out, h) }"

definition methods_biop :: BIO_METHOD where
  "methods_biop =
     \<lparr>mt_type = BIO_TYPE_BIO, mt_name = ''BIO pair'', mt_bwrite = Pair_fn, mt_bread = Pair_fn, mt_bputs = Null_fn,
      mt_bgets = Null_fn, mt_ctrl = Pair_fn, mt_create = Pair_fn, mt_destroy = Pair_fn, mt_callback_ctrl = Null_fn\<rparr>"

end
