(* ===== verification/BioMem.thy ===== *)
theory BioMem
  imports BioPair
begin

text \<open>
  \<open>crypto/bio/bio_mem.c\<close>: the \<open>BIO\<close> over a buffer in memory. A writable one keeps what is written in a
  growing buffer of \<open>Buf\<close> and takes what is read from its front; a read-only one moves its data pointer over
  memory that belongs to the client.
\<close>

definition BIO_C_SET_BUF_MEM :: nat where "BIO_C_SET_BUF_MEM = 114"
definition BIO_C_GET_BUF_MEM_PTR :: nat where "BIO_C_GET_BUF_MEM_PTR = 115"
definition BIO_C_SET_BUF_MEM_EOF_RETURN :: nat where "BIO_C_SET_BUF_MEM_EOF_RETURN = 130"

definition mem_new :: "bio_env \<Rightarrow> bio_heap \<Rightarrow> ptr \<Rightarrow> (int \<times> bio_heap) option" where
  "mem_new E h bio =
     (case BUF_MEM_new (be_malloc E) (bh_allocs h) of
        (None, k) \<Rightarrow> Some (0, h\<lparr>bh_allocs := k\<rparr>)
      | (Some b, k) \<Rightarrow>
          let p = be_addr E (bh_allocs h);
              h = put_buf p b (h\<lparr>bh_allocs := k\<rparr>)
          in do {
            h \<leftarrow> upd_bio (\<lambda>x. x\<lparr>bio_shutdown := 1, bio_init := 1, bio_num := - 1, bio_ptr := p\<rparr>) h bio;
            Some (1, h) })"

text \<open>Freeing sets the data pointer of a read-only buffer to NULL first, so that only the structure is
  freed.\<close>

definition mem_free :: "bio_heap \<Rightarrow> ptr \<Rightarrow> (int \<times> bio_heap) option" where
  "mem_free h bio =
     (if bio = 0 then Some (0, h)
      else do {
        x \<leftarrow> bio_at h bio;
        if bio_shutdown x = 0 \<or> bio_init x = 0 \<or> bio_ptr x = 0 then Some (1, h)
        else do {
          b \<leftarrow> buf_at h (bio_ptr x);
          let h = h\<lparr>bh_bufs := (bh_bufs h)(bio_ptr x := None)\<rparr>;
          Some (1, put_bio bio (x\<lparr>bio_ptr := 0\<rparr>) h) } })"

definition is_rdonly :: "BIO \<Rightarrow> bool" where
  "is_rdonly x \<longleftrightarrow> bio_flags x AND BIO_FLAGS_MEM_RDONLY \<noteq> 0"

text \<open>Taking \<open>n\<close> bytes from the front: the pointer is moved, or the rest of the contents is.\<close>

definition mem_take :: "bool \<Rightarrow> nat \<Rightarrow> BUF_MEM \<Rightarrow> (u8 list \<times> BUF_MEM) option" where
  "mem_take rdonly n b = do {
     d \<leftarrow> bm_data b;
     c_assert (n \<le> length d);
     let len = szsub (bm_length b) n;
     let b = b\<lparr>bm_length := len\<rparr>;
     if rdonly then Some (take n d, b\<lparr>bm_data := Some (drop n d), bm_before := bm_before b @ take n d\<rparr>)
     else do {
       c_assert (n + len \<le> length d);
       Some (take n d, b\<lparr>bm_data := Some (overwrite 0 (take len (drop n d)) d)\<rparr>) } }"

definition mem_read :: "bio_heap \<Rightarrow> ptr \<Rightarrow> bool \<Rightarrow> int \<Rightarrow> (int \<times> u8 list \<times> bio_heap) option" where
  "mem_read h bio out outl = do {
     x \<leftarrow> bio_at h bio;
     b \<leftarrow> buf_at h (bio_ptr x);
     h \<leftarrow> BIO_clear_retry_flags h bio;
     let ret = (if bm_length b < INT_MAX \<and> outl > size_to_int (bm_length b) then size_to_int (bm_length b) else outl);
     if ret > 0
     then do {
       c_assert out;
       (bs, b) \<leftarrow> mem_take (is_rdonly x) (nat ret) b;
       Some (ret, bs, put_buf (bio_ptr x) b h) }
     else if bm_length b = 0
     then
       let ret = bio_num x in
       if ret \<noteq> 0 then do { h \<leftarrow> BIO_set_retry_read h bio; Some (ret, [], h) }
       else Some (ret, [], h)
     else Some (ret, [], h) }"

text \<open>The addition that follows the test of the sizes, and the test itself, have no defined result if the
  length is negative as an \<open>int\<close>.\<close>

definition mem_write :: "bio_env \<Rightarrow> bio_heap \<Rightarrow> ptr \<Rightarrow> u8 list option \<Rightarrow> int \<Rightarrow> (int \<times> bio_heap) option" where
  "mem_write E h bio buf inl = do {
     x \<leftarrow> bio_at h bio;
     b \<leftarrow> buf_at h (bio_ptr x);
     if is_rdonly x then Some (- 1, h)
     else do {
       h \<leftarrow> BIO_clear_retry_flags h bio;
       let blen = size_to_int (bm_length b);
       c_assert (0 \<le> blen);
       if int INT_MAX - blen < inl then Some (- 1, h)
       else
         case BUF_MEM_grow_clean (be_malloc E) (bh_allocs h) b (int_to_size (blen + inl)) of
           (n, b, k) \<Rightarrow>
             let h = put_buf (bio_ptr x) b (h\<lparr>bh_allocs := k\<rparr>) in
             if n \<noteq> szadd (nat blen) (int_to_size inl) then Some (- 1, h)
             else do {
               bs \<leftarrow> buf;
               c_assert (inl \<le> int (length bs));
               Some (inl, put_buf (bio_ptr x) (bm_store (nat blen) (take (nat inl) bs) b) h) } } }"

text \<open>The number of bytes up to the first newline, which is included.\<close>

fun gets_scan :: "u8 list \<Rightarrow> nat" where
  "gets_scan [] = 0"
| "gets_scan (c # p) = (if c = 10 then 1 else Suc (gets_scan p))"

definition mem_gets :: "bio_heap \<Rightarrow> ptr \<Rightarrow> bool \<Rightarrow> int \<Rightarrow> (int \<times> u8 list \<times> bio_heap) option" where
  "mem_gets h bio buf sz = do {
     x \<leftarrow> bio_at h bio;
     b \<leftarrow> buf_at h (bio_ptr x);
     h \<leftarrow> BIO_clear_retry_flags h bio;
     let j = size_to_int (bm_length b);
     let j = (if sz - 1 < j then sz - 1 else j);
     if j \<le> 0
     then (if sz > 0 then do { c_assert buf; Some (0, [0], h) } else Some (0, [], h))
     else do {
       p \<leftarrow> bm_data b;
       c_assert (j \<le> int (length p));
       (i, bs, h) \<leftarrow> mem_read h bio buf (int (gets_scan (take (nat j) p)));
       Some (i, if i > 0 then bs @ [0] else bs, h) } }"

definition mem_ctrl ::
  "bio_heap \<Rightarrow> ptr \<Rightarrow> nat \<Rightarrow> int \<Rightarrow> ptr \<Rightarrow> (int \<times> ctrl_out \<times> bio_heap) option" where
  "mem_ctrl h bio cmd num p = do {
     x \<leftarrow> bio_at h bio;
     if cmd = BIO_CTRL_RESET
     then do {
       b \<leftarrow> buf_at h (bio_ptr x);
       case bm_data b of
         None \<Rightarrow> Some (1, No_out, h)
       | Some d \<Rightarrow>
           if is_rdonly x
           then
             let back = szsub (bm_max b) (bm_length b); n = length (bm_before b) - back in do {
               c_assert (back \<le> length (bm_before b));
               Some (1, No_out, put_buf (bio_ptr x)
                 (b\<lparr>bm_data := Some (drop n (bm_before b) @ d), bm_before := take n (bm_before b),
                    bm_length := bm_max b\<rparr>) h) }
           else do {
             c_assert (bm_max b \<le> length d);
             Some (1, No_out, put_buf (bio_ptr x)
               (b\<lparr>bm_data := Some (overwrite 0 (replicate (bm_max b) 0) d), bm_length := 0\<rparr>) h) } }
     else if cmd = BIO_CTRL_EOF
     then do { b \<leftarrow> buf_at h (bio_ptr x); Some (if bm_length b = 0 then 1 else 0, No_out, h) }
     else if cmd = BIO_C_SET_BUF_MEM_EOF_RETURN
     then Some (1, No_out, put_bio bio (x\<lparr>bio_num := long_to_int num\<rparr>) h)
     else if cmd = BIO_CTRL_INFO
     then do {
       b \<leftarrow> buf_at h (bio_ptr x);
       Some (size_to_long (bm_length b), if p \<noteq> 0 then Out_data (bm_data b) else No_out, h) }
     else if cmd = BIO_C_SET_BUF_MEM
     then do {
       (_, h) \<leftarrow> mem_free h bio;
       h \<leftarrow> upd_bio (\<lambda>x. x\<lparr>bio_shutdown := long_to_int num, bio_ptr := p\<rparr>) h bio;
       Some (1, No_out, h) }
     else if cmd = BIO_C_GET_BUF_MEM_PTR
     then Some (1, if p \<noteq> 0 then Out_buf (bio_ptr x) else No_out, h)
     else if cmd = BIO_CTRL_GET_CLOSE then Some (bio_shutdown x, No_out, h)
     else if cmd = BIO_CTRL_SET_CLOSE
     then Some (1, No_out, put_bio bio (x\<lparr>bio_shutdown := long_to_int num\<rparr>) h)
     else if cmd = BIO_CTRL_WPENDING then Some (0, No_out, h)
     else if cmd = BIO_CTRL_PENDING
     then do { b \<leftarrow> buf_at h (bio_ptr x); Some (size_to_long (bm_length b), No_out, h) }
     else if cmd = BIO_CTRL_FLUSH then Some (1, No_out, h)
     else Some (0, No_out, h) }"

definition mem_method :: BIO_METHOD where
  "mem_method =
     \<lparr>mt_type = BIO_TYPE_MEM, mt_name = ''memory buffer'', mt_bwrite = Mem_fn, mt_bread = Mem_fn,
      mt_bputs = Null_fn, mt_bgets = Mem_fn, mt_ctrl = Mem_fn, mt_create = Mem_fn, mt_destroy = Mem_fn,
      mt_callback_ctrl = Null_fn\<rparr>"

end
