(* ===== verification/Bio.thy ===== *)
theory Bio
  imports BioMem
begin

text \<open>
  \<open>crypto/bio/bio.c\<close>: the functions that work on any \<open>BIO\<close>. They call the functions of its method, which
  are those of \<open>BioPair\<close> and \<open>BioMem\<close>, or the client's. The constructors of the two methods are here as
  well, as they go through \<open>BIO_new\<close>.
\<close>

definition sizeof_BIO :: nat where
  "sizeof_BIO = 64"

section \<open>Calling the functions of a method\<close>

fun call_bwrite :: "bio_env \<Rightarrow> bio_fn \<Rightarrow> bio_heap \<Rightarrow> ptr \<Rightarrow> u8 list option \<Rightarrow> int \<Rightarrow> (int \<times> bio_heap) option" where
  "call_bwrite E Null_fn h bio buf inl = None"
| "call_bwrite E Pair_fn h bio buf inl = bio_write h bio buf inl"
| "call_bwrite E Mem_fn h bio buf inl = mem_write E h bio buf inl"
| "call_bwrite E (User_fn f) h bio buf inl = be_write E f h bio buf inl"

fun call_bread :: "bio_env \<Rightarrow> bio_fn \<Rightarrow> bio_heap \<Rightarrow> ptr \<Rightarrow> bool \<Rightarrow> int \<Rightarrow> (int \<times> u8 list \<times> bio_heap) option" where
  "call_bread E Null_fn h bio buf len = None"
| "call_bread E Pair_fn h bio buf len = bio_read h bio buf len"
| "call_bread E Mem_fn h bio buf len = mem_read h bio buf len"
| "call_bread E (User_fn f) h bio buf len = be_read E f h bio buf len"

fun call_bgets :: "bio_env \<Rightarrow> bio_fn \<Rightarrow> bio_heap \<Rightarrow> ptr \<Rightarrow> bool \<Rightarrow> int \<Rightarrow> (int \<times> u8 list \<times> bio_heap) option" where
  "call_bgets E Null_fn h bio buf len = None"
| "call_bgets E Pair_fn h bio buf len = None"
| "call_bgets E Mem_fn h bio buf len = mem_gets h bio buf len"
| "call_bgets E (User_fn f) h bio buf len = be_gets E f h bio buf len"

fun call_ctrl :: "bio_env \<Rightarrow> bio_fn \<Rightarrow> bio_heap \<Rightarrow> ptr \<Rightarrow> nat \<Rightarrow> int \<Rightarrow> ptr \<Rightarrow> (int \<times> ctrl_out \<times> bio_heap) option" where
  "call_ctrl E Null_fn h bio cmd num p = None"
| "call_ctrl E Pair_fn h bio cmd num p = bio_ctrl h bio cmd num p"
| "call_ctrl E Mem_fn h bio cmd num p = mem_ctrl h bio cmd num p"
| "call_ctrl E (User_fn f) h bio cmd num p = be_ctrl E f h bio cmd num p"

fun call_create :: "bio_env \<Rightarrow> bio_fn \<Rightarrow> bio_heap \<Rightarrow> ptr \<Rightarrow> (int \<times> bio_heap) option" where
  "call_create E Null_fn h bio = None"
| "call_create E Pair_fn h bio = bio_new E h bio"
| "call_create E Mem_fn h bio = mem_new E h bio"
| "call_create E (User_fn f) h bio = be_create E f h bio"

fun call_destroy :: "bio_env \<Rightarrow> bio_fn \<Rightarrow> bio_heap \<Rightarrow> ptr \<Rightarrow> (int \<times> bio_heap) option" where
  "call_destroy E Null_fn h bio = None"
| "call_destroy E Pair_fn h bio = bio_free h bio"
| "call_destroy E Mem_fn h bio = mem_free h bio"
| "call_destroy E (User_fn f) h bio = be_destroy E f h bio"

fun call_callback_ctrl :: "bio_env \<Rightarrow> bio_fn \<Rightarrow> bio_heap \<Rightarrow> ptr \<Rightarrow> nat \<Rightarrow> ptr \<Rightarrow> (int \<times> bio_heap) option" where
  "call_callback_ctrl E (User_fn f) h bio cmd fp = be_callback_ctrl E f h bio cmd fp"
| "call_callback_ctrl E _ h bio cmd fp = None"

section \<open>Making and freeing\<close>

definition BIO_new :: "bio_env \<Rightarrow> bio_heap \<Rightarrow> BIO_METHOD \<Rightarrow> (ptr \<times> bio_heap) option" where
  "BIO_new E h mt =
     (case OPENSSL_malloc (be_malloc E) (bh_allocs h) sizeof_BIO of
        (None, k) \<Rightarrow> Some (0, h\<lparr>bh_allocs := k\<rparr>)
      | (Some _, k) \<Rightarrow>
          let ret = be_addr E (bh_allocs h);
              h = put_bio ret \<lparr>bio_method = Some mt, bio_init = 0, bio_shutdown = 1, bio_flags = 0,
                    bio_retry_reason = 0, bio_num = 0, bio_references = 1, bio_ptr = 0, bio_next = 0,
                    bio_num_read = 0, bio_num_write = 0\<rparr> (h\<lparr>bh_allocs := k\<rparr>)
          in if mt_create mt \<noteq> Null_fn
             then do {
               (ok, h) \<leftarrow> call_create E (mt_create mt) h ret;
               if ok = 0 then Some (0, h\<lparr>bh_bios := (bh_bios h)(ret := None)\<rparr>) else Some (ret, h) }
             else Some (ret, h))"

text \<open>Freeing follows the chain as long as the reference that is dropped is the last one.\<close>

partial_function (option) BIO_free :: "bio_env \<Rightarrow> bio_heap \<Rightarrow> ptr \<Rightarrow> (int \<times> bio_heap) option" where
  "BIO_free E h bio =
     (if bio = 0 then Some (1, h)
      else do {
        x \<leftarrow> bio_at h bio;
        (zero, references) \<leftarrow> CRYPTO_refcount_dec_and_test_zero (bio_references x);
        let h = put_bio bio (x\<lparr>bio_references := references\<rparr>) h;
        if \<not> zero then Some (0, h)
        else do {
          (next_bio, h) \<leftarrow> BIO_pop h bio;
          h \<leftarrow> (case bio_method x of
                  None \<Rightarrow> Some h
                | Some mt \<Rightarrow>
                    if mt_destroy mt \<noteq> Null_fn
                    then do { (_, h) \<leftarrow> call_destroy E (mt_destroy mt) h bio; Some h }
                    else Some h);
          BIO_free E (h\<lparr>bh_bios := (bh_bios h)(bio := None)\<rparr>) next_bio } })"

declare BIO_free.simps [code]

definition BIO_vfree :: "bio_env \<Rightarrow> bio_heap \<Rightarrow> ptr \<Rightarrow> bio_heap option" where
  "BIO_vfree E h bio = do { (_, h) \<leftarrow> BIO_free E h bio; Some h }"

definition BIO_free_all :: "bio_env \<Rightarrow> bio_heap \<Rightarrow> ptr \<Rightarrow> bio_heap option" where
  "BIO_free_all E h bio = do { (_, h) \<leftarrow> BIO_free E h bio; Some h }"

definition BIO_new_bio_pair ::
  "bio_env \<Rightarrow> bio_heap \<Rightarrow> nat \<Rightarrow> nat \<Rightarrow> (int \<times> ptr \<times> ptr \<times> bio_heap) option" where
  "BIO_new_bio_pair E h writebuf1_len writebuf2_len = do {
     (bio1, h) \<leftarrow> BIO_new E h methods_biop;
     (bio2, h) \<leftarrow> BIO_new E h methods_biop;
     (ok, h) \<leftarrow> (if bio1 = 0 \<or> bio2 = 0 then Some (0, h)
                else bio_make_pair E h bio1 bio2 writebuf1_len writebuf2_len);
     if ok = 0
     then do {
       (_, h) \<leftarrow> BIO_free E h bio1;
       (_, h) \<leftarrow> BIO_free E h bio2;
       Some (0, 0, 0, h) }
     else Some (1, bio1, bio2, h) }"

text \<open>The argument \<open>buf\<close> is the memory at the pointer. The length of a string is determined before the
  pointer is compared with NULL.\<close>

definition BIO_new_mem_buf :: "bio_env \<Rightarrow> bio_heap \<Rightarrow> u8 list option \<Rightarrow> int \<Rightarrow> (ptr \<times> bio_heap) option" where
  "BIO_new_mem_buf E h buf len = do {
     size \<leftarrow> (if len < 0
             then do { s \<leftarrow> buf; c_assert (0 \<in> set s); Some (c_strlen s) }
             else Some (int_to_size len));
     if buf = None \<and> len \<noteq> 0 then Some (0, h)
     else do {
       (ret, h) \<leftarrow> BIO_new E h mem_method;
       if ret = 0 then Some (0, h)
       else do {
         x \<leftarrow> bio_at h ret;
         b \<leftarrow> buf_at h (bio_ptr x);
         let h = put_buf (bio_ptr x) (b\<lparr>bm_data := buf, bm_length := size, bm_max := size\<rparr>) h;
         Some (ret, put_bio ret (x\<lparr>bio_flags := bio_flags x OR BIO_FLAGS_MEM_RDONLY, bio_num := 0\<rparr>) h) } } }"

section \<open>Reading and writing\<close>

definition count_read :: "ptr \<Rightarrow> int \<Rightarrow> bio_heap \<Rightarrow> bio_heap option" where
  "count_read bio ret h =
     (if ret > 0 then upd_bio (\<lambda>x. x\<lparr>bio_num_read := szadd (bio_num_read x) (nat ret)\<rparr>) h bio else Some h)"

definition count_write :: "ptr \<Rightarrow> int \<Rightarrow> bio_heap \<Rightarrow> bio_heap option" where
  "count_write bio ret h =
     (if ret > 0 then upd_bio (\<lambda>x. x\<lparr>bio_num_write := szadd (bio_num_write x) (nat ret)\<rparr>) h bio else Some h)"

definition BIO_read :: "bio_env \<Rightarrow> bio_heap \<Rightarrow> ptr \<Rightarrow> bool \<Rightarrow> int \<Rightarrow> (int \<times> u8 list \<times> bio_heap) option" where
  "BIO_read E h bio buf len =
     (if bio = 0 then Some (- 2, [], h)
      else do {
        x \<leftarrow> bio_at h bio;
        case bio_method x of
          None \<Rightarrow> Some (- 2, [], h)
        | Some mt \<Rightarrow>
            if mt_bread mt = Null_fn then Some (- 2, [], h)
            else if bio_init x = 0 then Some (- 2, [], h)
            else if len \<le> 0 then Some (0, [], h)
            else do {
              (ret, bs, h) \<leftarrow> call_bread E (mt_bread mt) h bio buf len;
              h \<leftarrow> count_read bio ret h;
              Some (ret, bs, h) } })"

definition BIO_gets :: "bio_env \<Rightarrow> bio_heap \<Rightarrow> ptr \<Rightarrow> bool \<Rightarrow> int \<Rightarrow> (int \<times> u8 list \<times> bio_heap) option" where
  "BIO_gets E h bio buf len =
     (if bio = 0 then Some (- 2, [], h)
      else do {
        x \<leftarrow> bio_at h bio;
        case bio_method x of
          None \<Rightarrow> Some (- 2, [], h)
        | Some mt \<Rightarrow>
            if mt_bgets mt = Null_fn then Some (- 2, [], h)
            else if bio_init x = 0 then Some (- 2, [], h)
            else if len \<le> 0 then Some (0, [], h)
            else do {
              (ret, bs, h) \<leftarrow> call_bgets E (mt_bgets mt) h bio buf len;
              h \<leftarrow> count_read bio ret h;
              Some (ret, bs, h) } })"

definition BIO_write :: "bio_env \<Rightarrow> bio_heap \<Rightarrow> ptr \<Rightarrow> u8 list option \<Rightarrow> int \<Rightarrow> (int \<times> bio_heap) option" where
  "BIO_write E h bio buf inl =
     (if bio = 0 then Some (- 2, h)
      else do {
        x \<leftarrow> bio_at h bio;
        case bio_method x of
          None \<Rightarrow> Some (- 2, h)
        | Some mt \<Rightarrow>
            if mt_bwrite mt = Null_fn then Some (- 2, h)
            else if bio_init x = 0 then Some (- 2, h)
            else if inl \<le> 0 then Some (0, h)
            else do {
              (ret, h) \<leftarrow> call_bwrite E (mt_bwrite mt) h bio buf inl;
              h \<leftarrow> count_write bio ret h;
              Some (ret, h) } })"

partial_function (option) BIO_write_all :: "bio_env \<Rightarrow> bio_heap \<Rightarrow> ptr \<Rightarrow> u8 list \<Rightarrow> (bool \<times> bio_heap) option" where
  "BIO_write_all E h bio bs =
     (let len = length bs in
      if len > 0
      then do {
        (ret, h) \<leftarrow> BIO_write E h bio (Some bs) (if len > INT_MAX then int INT_MAX else size_to_int len);
        if ret \<le> 0 then Some (False, h)
        else do {
          c_assert (nat ret \<le> len);
          BIO_write_all E h bio (drop (nat ret) bs) } }
      else Some (True, h))"

declare BIO_write_all.simps [code]

definition BIO_puts :: "bio_env \<Rightarrow> bio_heap \<Rightarrow> ptr \<Rightarrow> u8 list \<Rightarrow> (int \<times> bio_heap) option" where
  "BIO_puts E h bio s = do {
     c_assert (0 \<in> set s);
     BIO_write E h bio (Some s) (size_to_int (c_strlen s)) }"

fun indent_loop :: "bio_env \<Rightarrow> bio_heap \<Rightarrow> ptr \<Rightarrow> nat \<Rightarrow> (bool \<times> bio_heap) option" where
  "indent_loop E h bio 0 = Some (True, h)"
| "indent_loop E h bio (Suc indent) = do {
     (n, h) \<leftarrow> BIO_puts E h bio [32, 0];
     if n \<noteq> 1 then Some (False, h) else indent_loop E h bio indent }"

definition BIO_indent :: "bio_env \<Rightarrow> bio_heap \<Rightarrow> ptr \<Rightarrow> u32 \<Rightarrow> u32 \<Rightarrow> (bool \<times> bio_heap) option" where
  "BIO_indent E h bio indent max_indent =
     indent_loop E h bio (unat (if indent > max_indent then max_indent else indent))"

section \<open>Control\<close>

definition BIO_ctrl ::
  "bio_env \<Rightarrow> bio_heap \<Rightarrow> ptr \<Rightarrow> nat \<Rightarrow> int \<Rightarrow> ptr \<Rightarrow> (int \<times> ctrl_out \<times> bio_heap) option" where
  "BIO_ctrl E h bio cmd larg parg =
     (if bio = 0 then Some (0, No_out, h)
      else do {
        x \<leftarrow> bio_at h bio;
        case bio_method x of
          None \<Rightarrow> Some (- 2, No_out, h)
        | Some mt \<Rightarrow>
            if mt_ctrl mt = Null_fn then Some (- 2, No_out, h)
            else call_ctrl E (mt_ctrl mt) h bio cmd larg parg })"

text \<open>The commands without a result through a pointer.\<close>

definition ctrl_value :: "bio_env \<Rightarrow> bio_heap \<Rightarrow> ptr \<Rightarrow> nat \<Rightarrow> int \<Rightarrow> (int \<times> bio_heap) option" where
  "ctrl_value E h bio cmd larg = do { (r, _, h) \<leftarrow> BIO_ctrl E h bio cmd larg 0; Some (r, h) }"

text \<open>\<open>tmp\<close> is the address of a local variable, to which \<open>ctrl\<close> may store.\<close>

definition BIO_ptr_ctrl :: "bio_env \<Rightarrow> bio_heap \<Rightarrow> ptr \<Rightarrow> nat \<Rightarrow> int \<Rightarrow> ptr \<Rightarrow> (ctrl_out \<times> bio_heap) option" where
  "BIO_ptr_ctrl E h b cmd larg tmp = do {
     (r, p, h) \<leftarrow> BIO_ctrl E h b cmd larg tmp;
     if r \<le> 0 then Some (No_out, h) else Some (p, h) }"

definition BIO_flush :: "bio_env \<Rightarrow> bio_heap \<Rightarrow> ptr \<Rightarrow> (int \<times> bio_heap) option" where
  "BIO_flush E h bio = do { (r, h) \<leftarrow> ctrl_value E h bio BIO_CTRL_FLUSH 0; Some (long_to_int r, h) }"

definition BIO_reset :: "bio_env \<Rightarrow> bio_heap \<Rightarrow> ptr \<Rightarrow> (int \<times> bio_heap) option" where
  "BIO_reset E h bio = do { (r, h) \<leftarrow> ctrl_value E h bio BIO_CTRL_RESET 0; Some (long_to_int r, h) }"

definition BIO_eof :: "bio_env \<Rightarrow> bio_heap \<Rightarrow> ptr \<Rightarrow> (int \<times> bio_heap) option" where
  "BIO_eof E h bio = do { (r, h) \<leftarrow> ctrl_value E h bio BIO_CTRL_EOF 0; Some (long_to_int r, h) }"

definition BIO_pending :: "bio_env \<Rightarrow> bio_heap \<Rightarrow> ptr \<Rightarrow> (nat \<times> bio_heap) option" where
  "BIO_pending E h bio = do {
     (r, h) \<leftarrow> ctrl_value E h bio BIO_CTRL_PENDING 0;
     c_assert (r \<ge> 0);
     Some (nat r, h) }"

definition BIO_ctrl_pending :: "bio_env \<Rightarrow> bio_heap \<Rightarrow> ptr \<Rightarrow> (nat \<times> bio_heap) option" where
  "BIO_ctrl_pending E h bio = BIO_pending E h bio"

definition BIO_wpending :: "bio_env \<Rightarrow> bio_heap \<Rightarrow> ptr \<Rightarrow> (nat \<times> bio_heap) option" where
  "BIO_wpending E h bio = do {
     (r, h) \<leftarrow> ctrl_value E h bio BIO_CTRL_WPENDING 0;
     c_assert (r \<ge> 0);
     Some (nat r, h) }"

definition BIO_set_close :: "bio_env \<Rightarrow> bio_heap \<Rightarrow> ptr \<Rightarrow> int \<Rightarrow> (int \<times> bio_heap) option" where
  "BIO_set_close E h bio close_flag = do {
     (r, h) \<leftarrow> ctrl_value E h bio BIO_CTRL_SET_CLOSE close_flag; Some (long_to_int r, h) }"

definition BIO_callback_ctrl :: "bio_env \<Rightarrow> bio_heap \<Rightarrow> ptr \<Rightarrow> nat \<Rightarrow> ptr \<Rightarrow> (int \<times> bio_heap) option" where
  "BIO_callback_ctrl E h bio cmd fp =
     (if bio = 0 then Some (0, h)
      else do {
        x \<leftarrow> bio_at h bio;
        case bio_method x of
          None \<Rightarrow> Some (0, h)
        | Some mt \<Rightarrow>
            if mt_callback_ctrl mt = Null_fn then Some (0, h)
            else call_callback_ctrl E (mt_callback_ctrl mt) h bio cmd fp })"

text \<open>Those of \<open>pair.c\<close> and \<open>bio_mem.c\<close>.\<close>

definition BIO_ctrl_get_read_request :: "bio_env \<Rightarrow> bio_heap \<Rightarrow> ptr \<Rightarrow> (nat \<times> bio_heap) option" where
  "BIO_ctrl_get_read_request E h bio = do {
     (r, h) \<leftarrow> ctrl_value E h bio BIO_C_GET_READ_REQUEST 0; Some (int_to_size r, h) }"

definition BIO_ctrl_get_write_guarantee :: "bio_env \<Rightarrow> bio_heap \<Rightarrow> ptr \<Rightarrow> (nat \<times> bio_heap) option" where
  "BIO_ctrl_get_write_guarantee E h bio = do {
     (r, h) \<leftarrow> ctrl_value E h bio BIO_C_GET_WRITE_GUARANTEE 0; Some (int_to_size r, h) }"

definition BIO_shutdown_wr :: "bio_env \<Rightarrow> bio_heap \<Rightarrow> ptr \<Rightarrow> (int \<times> bio_heap) option" where
  "BIO_shutdown_wr E h bio = do { (r, h) \<leftarrow> ctrl_value E h bio BIO_C_SHUTDOWN_WR 0; Some (long_to_int r, h) }"

definition BIO_mem_contents :: "bio_heap \<Rightarrow> ptr \<Rightarrow> (u8 list option \<times> nat) option option" where
  "BIO_mem_contents h bio = do {
     x \<leftarrow> bio_at h bio;
     if bio_method x \<noteq> Some mem_method then Some None
     else do { b \<leftarrow> buf_at h (bio_ptr x); Some (Some (bm_data b, bm_length b)) } }"

definition BIO_get_mem_data :: "bio_env \<Rightarrow> bio_heap \<Rightarrow> ptr \<Rightarrow> ptr \<Rightarrow> (int \<times> ctrl_out \<times> bio_heap) option" where
  "BIO_get_mem_data E h bio contents = BIO_ctrl E h bio BIO_CTRL_INFO 0 contents"

definition BIO_get_mem_ptr :: "bio_env \<Rightarrow> bio_heap \<Rightarrow> ptr \<Rightarrow> ptr \<Rightarrow> (int \<times> ctrl_out \<times> bio_heap) option" where
  "BIO_get_mem_ptr E h bio out = do {
     (r, p, h) \<leftarrow> BIO_ctrl E h bio BIO_C_GET_BUF_MEM_PTR 0 out; Some (long_to_int r, p, h) }"

definition BIO_set_mem_buf :: "bio_env \<Rightarrow> bio_heap \<Rightarrow> ptr \<Rightarrow> ptr \<Rightarrow> int \<Rightarrow> (int \<times> bio_heap) option" where
  "BIO_set_mem_buf E h bio b take_ownership = do {
     (r, _, h) \<leftarrow> BIO_ctrl E h bio BIO_C_SET_BUF_MEM take_ownership b; Some (long_to_int r, h) }"

definition BIO_set_mem_eof_return :: "bio_env \<Rightarrow> bio_heap \<Rightarrow> ptr \<Rightarrow> int \<Rightarrow> (int \<times> bio_heap) option" where
  "BIO_set_mem_eof_return E h bio eof_value = do {
     (r, h) \<leftarrow> ctrl_value E h bio BIO_C_SET_BUF_MEM_EOF_RETURN eof_value; Some (long_to_int r, h) }"

end
