(* ===== verification/BioRead.thy ===== *)
theory BioRead
  imports Bio CbsAsn1
begin

text \<open>
  The end of \<open>crypto/bio/bio.c\<close>: reading a given number of bytes, everything, or one ASN.1 object from a
  \<open>BIO\<close>. The memory that is read into is a list, with the position where the next byte goes; what the method
  stores outside of it makes the result \<open>None\<close>.
\<close>

definition kChunkSize :: nat where
  "kChunkSize = 4096"

definition store_at :: "nat \<Rightarrow> u8 list \<Rightarrow> u8 list \<Rightarrow> u8 list option" where
  "store_at pos bs out = do { c_assert (bs = [] \<or> pos + length bs \<le> length out); Some (overwrite pos bs out) }"

text \<open>The result is the block and the number of bytes in it, or \<open>None\<close> for the return value 0.\<close>

partial_function (option) read_all_loop ::
  "bio_env \<Rightarrow> bio_heap \<Rightarrow> ptr \<Rightarrow> u8 list \<Rightarrow> nat \<Rightarrow> nat \<Rightarrow> nat \<Rightarrow> ((u8 list \<times> nat) option \<times> bio_heap) option" where
  "read_all_loop E h bio out len done max_len =
     (if done = len then Some (None, h)
      else do {
        let todo = szsub len done;
        c_assert (todo < INT_MAX);
        (n, bs, h) \<leftarrow> BIO_read E h bio True (size_to_int todo);
        out \<leftarrow> store_at done bs out;
        if n = 0 then Some (Some (out, done), h)
        else if n = - 1 then Some (None, h)
        else
          let done = szadd done (int_to_size n) in
          if len < max_len \<and> szsub len done < kChunkSize div 2
          then
            let len' = szadd len kChunkSize;
                len = (if len' < kChunkSize \<or> len' > max_len then max_len else len')
            in case OPENSSL_realloc (be_malloc E) (bh_allocs h) (Some out) len of
                 (None, k) \<Rightarrow> Some (None, h\<lparr>bh_allocs := k\<rparr>)
               | (Some new_buf, k) \<Rightarrow> read_all_loop E (h\<lparr>bh_allocs := k\<rparr>) bio new_buf len done max_len
          else read_all_loop E h bio out len done max_len })"

declare read_all_loop.simps [code]

definition bio_read_all ::
  "bio_env \<Rightarrow> bio_heap \<Rightarrow> ptr \<Rightarrow> u8 list \<Rightarrow> nat \<Rightarrow> ((u8 list \<times> nat) option \<times> bio_heap) option" where
  "bio_read_all E h bio prefix max_len =
     (let prefix_len = length prefix;
          len = szadd prefix_len kChunkSize;
          len = (if len > max_len then max_len else len)
      in if len < prefix_len then Some (None, h)
         else
           case OPENSSL_malloc (be_malloc E) (bh_allocs h) len of
             (None, k) \<Rightarrow> Some (None, h\<lparr>bh_allocs := k\<rparr>)
           | (Some out, k) \<Rightarrow>
               read_all_loop E (h\<lparr>bh_allocs := k\<rparr>) bio (overwrite 0 prefix out) len prefix_len max_len)"

text \<open>The result is the success, the value stored through \<open>out_eof_on_first_read\<close>, and the memory.\<close>

partial_function (option) read_full_loop ::
  "bio_env \<Rightarrow> bio_heap \<Rightarrow> ptr \<Rightarrow> u8 list \<Rightarrow> nat \<Rightarrow> nat \<Rightarrow> bool \<Rightarrow> (bool \<times> bool \<times> u8 list \<times> bio_heap) option" where
  "read_full_loop E h bio out pos len first_read =
     (if len > 0
      then do {
        let todo = (if len \<le> INT_MAX then size_to_int len else int INT_MAX);
        (ret, bs, h) \<leftarrow> BIO_read E h bio True todo;
        out \<leftarrow> store_at pos bs out;
        if ret \<le> 0 then Some (False, first_read \<and> ret = 0, out, h)
        else read_full_loop E h bio out (pos + nat ret) (szsub len (nat ret)) False }
      else Some (True, False, out, h))"

declare read_full_loop.simps [code]

definition bio_read_full ::
  "bio_env \<Rightarrow> bio_heap \<Rightarrow> ptr \<Rightarrow> u8 list \<Rightarrow> nat \<Rightarrow> nat \<Rightarrow> (bool \<times> bool \<times> u8 list \<times> bio_heap) option" where
  "bio_read_full E h bio out pos len = read_full_loop E h bio out pos len True"

section \<open>One ASN.1 object\<close>

fun len32_loop :: "u32 \<Rightarrow> u8 list \<Rightarrow> u32" where
  "len32_loop len32 [] = len32"
| "len32_loop len32 (b # bs) = len32_loop (push_bit 8 len32 OR ucast b) bs"

datatype asn1_error = HEADER_TOO_LONG | NOT_ENOUGH_DATA | DECODE_ERROR | TOO_LONG | MALLOC_FAILURE

text \<open>The last part: the header is in the first bytes of the array, and the contents follow.\<close>

definition read_contents ::
  "bio_env \<Rightarrow> bio_heap \<Rightarrow> ptr \<Rightarrow> u8 list \<Rightarrow> nat \<Rightarrow> nat \<Rightarrow> nat \<Rightarrow> ((asn1_error + u8 list \<times> nat) \<times> bio_heap) option" where
  "read_contents E h bio header header_len len max_len =
     (if szadd len header_len < len \<or> szadd len header_len > max_len \<or> len > INT_MAX
      then Some (Inl TOO_LONG, h)
      else
        let len = szadd len header_len in
        case OPENSSL_malloc (be_malloc E) (bh_allocs h) len of
          (None, k) \<Rightarrow> Some (Inl MALLOC_FAILURE, h\<lparr>bh_allocs := k\<rparr>)
        | (Some out, k) \<Rightarrow> do {
            (ok, _, out, h) \<leftarrow>
               bio_read_full E (h\<lparr>bh_allocs := k\<rparr>) bio (overwrite 0 (take header_len header) out)
                 header_len (szsub len header_len);
            Some (if ok then Inr (out, len) else Inl NOT_ENOUGH_DATA, h) })"

text \<open>\<open>header\<close> is what the local array of six bytes has in it at first. A failure comes with the error that
  is put on the queue last.\<close>

definition BIO_read_asn1 ::
  "bio_env \<Rightarrow> bio_heap \<Rightarrow> ptr \<Rightarrow> u8 list \<Rightarrow> nat \<Rightarrow> ((asn1_error + u8 list \<times> nat) \<times> bio_heap) option" where
  "BIO_read_asn1 E h bio header max_len = do {
     (ok, eof_on_first_read, header, h) \<leftarrow> bio_read_full E h bio header 0 2;
     if \<not> ok then Some (Inl (if eof_on_first_read then HEADER_TOO_LONG else NOT_ENOUGH_DATA), h)
     else
       let tag = header ! 0; length_byte = header ! 1 in
       if tag AND 0x1f = 0x1f then Some (Inl DECODE_ERROR, h)
       else if length_byte AND 0x80 = 0 then read_contents E h bio header 2 (unat length_byte) max_len
       else
         let num_bytes = unat (length_byte AND 0x7f) in
         if tag AND 0x20 \<noteq> 0 \<and> num_bytes = 0
         then do {
           (r, h) \<leftarrow> bio_read_all E h bio (take 2 header) max_len;
           Some (case r of None \<Rightarrow> Inl NOT_ENOUGH_DATA | Some out \<Rightarrow> Inr out, h) }
         else if num_bytes = 0 \<or> num_bytes > 4 then Some (Inl DECODE_ERROR, h)
         else do {
           (ok, _, header, h) \<leftarrow> bio_read_full E h bio header 2 num_bytes;
           if \<not> ok then Some (Inl NOT_ENOUGH_DATA, h)
           else
             let len32 = len32_loop 0 (take num_bytes (drop 2 header)) in
             if len32 < 128 then Some (Inl DECODE_ERROR, h)
             else if drop_bit ((num_bytes - 1) * 8) len32 = 0 then Some (Inl DECODE_ERROR, h)
             else read_contents E h bio header (2 + num_bytes) (unat len32) max_len } }"

end
