(* ===== verification/BioReadSpec.thy ===== *)
theory BioReadSpec
  imports BioRead Der
begin

text \<open>
  Reading from a source of bytes. The locale \<open>byte_source\<close> states what \<open>bio_read_full\<close>, \<open>bio_read_all\<close> and
  \<open>BIO_read_asn1\<close> rely on: a read returns some of the bytes that are there, possibly fewer than asked
  for, and a result that is not positive when there are none. Its lemmas say that the pieces are put
  together correctly. Memory BIOs and halves of pairs are such sources.
\<close>

locale byte_source =
  fixes E :: bio_env
    and bio :: ptr
    and source_ok :: "bio_heap \<Rightarrow> bool"
    and content :: "bio_heap \<Rightarrow> u8 list"
    and at_eof :: "bio_heap \<Rightarrow> int"
  assumes read_some:
    "source_ok h \<Longrightarrow> content h \<noteq> [] \<Longrightarrow> 0 < n \<Longrightarrow> n < 2 ^ 31 \<Longrightarrow>
       \<exists>k h'. 0 < k \<and> k \<le> n \<and> k \<le> length (content h) \<and>
         BIO_read E h bio True (int n) = Some (int k, take k (content h), h') \<and>
         source_ok h' \<and> content h' = drop k (content h) \<and> at_eof h' = at_eof h"
    and read_end:
    "source_ok h \<Longrightarrow> content h = [] \<Longrightarrow> 0 < n \<Longrightarrow> n < 2 ^ 31 \<Longrightarrow>
       \<exists>h'. BIO_read E h bio True (int n) = Some (at_eof h, [], h') \<and>
         source_ok h' \<and> content h' = [] \<and> at_eof h' = at_eof h"
    and eof_value: "source_ok h \<Longrightarrow> at_eof h \<le> 0"
    and alloc_ok_source: "source_ok (h\<lparr>bh_allocs := k\<rparr>) = source_ok h"
    and alloc_content: "content (h\<lparr>bh_allocs := k\<rparr>) = content h"
    and alloc_eof: "at_eof (h\<lparr>bh_allocs := k\<rparr>) = at_eof h"
begin

lemmas alloc_source = alloc_ok_source alloc_content alloc_eof

lemma overwrite_overwrite:
  "pos + length as + length bs \<le> length out \<Longrightarrow>
     overwrite (pos + length as) bs (overwrite pos as out) = overwrite pos (as @ bs) out"
  by (simp add: overwrite_def ac_simps)

lemma read_full_ok:
  assumes "source_ok h" and "n \<le> length (content h)" and "pos + n \<le> length out" and "n < 2 ^ 64"
  shows "\<exists>h'. read_full_loop E h bio out pos n first = Some (True, False, overwrite pos (take n (content h)) out, h') \<and>
     source_ok h' \<and> content h' = drop n (content h) \<and> at_eof h' = at_eof h"
  using assms
proof (induction n arbitrary: h pos out first rule: less_induct)
  case (less n)
  show ?case
  proof (cases "n = 0")
    case True
    then show ?thesis using less.prems by (subst read_full_loop.simps) simp
  next
    case False
    define todo where "todo = min n INT_MAX"
    have todo: "0 < todo" "todo < 2 ^ 31" "todo \<le> n" using False by (simp_all add: todo_def INT_MAX_def)
    have t: "(if n \<le> INT_MAX then size_to_int n else int INT_MAX) = int todo"
      by (simp add: todo_def INT_MAX_def)
    have "content h \<noteq> []" using False less.prems(2) by auto
    then obtain k h' where k: "0 < k" "k \<le> todo" "k \<le> length (content h)"
        "BIO_read E h bio True (int todo) = Some (int k, take k (content h), h')"
        "source_ok h'" "content h' = drop k (content h)" "at_eof h' = at_eof h"
      using read_some [OF less.prems(1) _ todo(1,2)] by blast
    let ?out = "overwrite pos (take k (content h)) out"
    have st: "store_at pos (take k (content h)) out = Some ?out"
      using k less.prems todo by (simp add: store_at_def)
    have sub: "szsub n k = n - k" using k todo less.prems by simp
    have "n - k < n" "n - k \<le> length (content h')" "pos + k + (n - k) \<le> length ?out" "n - k < 2 ^ 64"
      using k(1-3,6) todo less.prems by auto
    then obtain h'' where h'': "read_full_loop E h' bio ?out (pos + k) (n - k) False =
        Some (True, False, overwrite (pos + k) (take (n - k) (drop k (content h))) ?out, h'')"
        "source_ok h''" "content h'' = drop (n - k) (drop k (content h))" "at_eof h'' = at_eof h"
      using less.IH [of "n - k" h' "pos + k" ?out False] k(5-7) by metis
    have "take k (content h) @ take (n - k) (drop k (content h)) = take n (content h)"
      using k todo by (simp add: take_add [symmetric])
    then have "overwrite (pos + k) (take (n - k) (drop k (content h))) ?out = overwrite pos (take n (content h)) out"
      using overwrite_overwrite [of pos "take k (content h)" "take (n - k) (drop k (content h))" out] k todo less.prems
      by simp
    moreover have "drop (n - k) (drop k (content h)) = drop n (content h)" using k todo by simp
    ultimately show ?thesis
      using False k st sub h'' by (subst read_full_loop.simps) (simp add: t Let_def)
  qed
qed

lemma read_full_short:
  assumes "source_ok h" and "length (content h) < n" and "pos + n \<le> length out" and "n < 2 ^ 64"
  shows "\<exists>out' h'. read_full_loop E h bio out pos n first = Some (False, first \<and> content h = [] \<and> at_eof h = 0, out', h') \<and>
     length out' = length out \<and> source_ok h' \<and> content h' = [] \<and> at_eof h' = at_eof h"
  using assms
proof (induction n arbitrary: h pos out first rule: less_induct)
  case (less n)
  define todo where "todo = min n INT_MAX"
  have todo: "0 < todo" "todo < 2 ^ 31" "todo \<le> n" using less.prems(2) by (simp_all add: todo_def INT_MAX_def)
  have t: "(if n \<le> INT_MAX then size_to_int n else int INT_MAX) = int todo"
    by (simp add: todo_def INT_MAX_def)
  show ?case
  proof (cases "content h = []")
    case True
    obtain h' where "BIO_read E h bio True (int todo) = Some (at_eof h, [], h')" "source_ok h'" "content h' = []"
        "at_eof h' = at_eof h"
      using read_end [OF less.prems(1) True todo(1,2)] by blast
    then show ?thesis
      using True less.prems eof_value [OF less.prems(1)]
      by (subst read_full_loop.simps) (simp add: t Let_def store_at_def)
  next
    case False
    then obtain k h' where k: "0 < k" "k \<le> todo" "k \<le> length (content h)"
        "BIO_read E h bio True (int todo) = Some (int k, take k (content h), h')"
        "source_ok h'" "content h' = drop k (content h)" "at_eof h' = at_eof h"
      using read_some [OF less.prems(1) _ todo(1,2)] by blast
    let ?out = "overwrite pos (take k (content h)) out"
    have st: "store_at pos (take k (content h)) out = Some ?out" and lo: "length ?out = length out"
      using k less.prems todo by (simp_all add: store_at_def)
    have sub: "szsub n k = n - k" using k todo less.prems by simp
    have "n - k < n" "length (content h') < n - k" "pos + k + (n - k) \<le> length ?out" "n - k < 2 ^ 64"
      using k(1-3,6) todo less.prems lo by auto
    then obtain out' h'' where h'': "read_full_loop E h' bio ?out (pos + k) (n - k) False = Some (False, False, out', h'')"
        "length out' = length out" "source_ok h''" "content h'' = []" "at_eof h'' = at_eof h"
      using less.IH [of "n - k" h' "pos + k" ?out False] k(5,7) lo by auto
    then show ?thesis
      using False k st sub less.prems by (subst read_full_loop.simps) (simp add: t Let_def)
  qed
qed

lemma read_contents_result:
  assumes ok: "source_ok h" and m: "alloc_ok (be_malloc E)"
    and av: "alloc_avail (be_malloc E) limit" "max_len + OPENSSL_MALLOC_PREFIX \<le> limit" "limit < 2 ^ 64"
    and hl: "hl \<le> length header" "hl \<le> 6" and len: "len < 2 ^ 32"
  shows "\<exists>r h'. read_contents E h bio header hl len max_len = Some (r, h') \<and> source_ok h' \<and>
     (if len + hl \<le> max_len \<and> len \<le> INT_MAX \<and> len \<le> length (content h)
      then r = Inr (take hl header @ take len (content h), len + hl) \<and> content h' = drop len (content h)
      else \<exists>e. r = Inl e)"
proof -
  have sz: "szadd len hl = len + hl" "szsub (len + hl) hl = len" using hl(2) len by simp_all
  show ?thesis
  proof (cases "len + hl \<le> max_len \<and> len \<le> INT_MAX")
    case False
    then show ?thesis using ok by (auto simp: read_contents_def sz)
  next
    case True
    obtain out k where out: "OPENSSL_malloc (be_malloc E) (bh_allocs h) (len + hl) = (Some out, k)"
      using OPENSSL_malloc_avail [OF av(1,3), of "len + hl"] True av(2) by fastforce
    have lo: "length out = len + hl"
      using OPENSSL_malloc_length [OF m _ out] hl(2) len by (simp add: OPENSSL_MALLOC_PREFIX_def)
    let ?out = "overwrite 0 (take hl header) out" and ?h = "h\<lparr>bh_allocs := k\<rparr>"
    have lo': "length ?out = len + hl" using lo hl by simp
    have ok': "source_ok ?h" "content ?h = content h" using ok by (simp_all add: alloc_source)
    have step: "read_contents E h bio header hl len max_len = do {
        (ok, _, out, h') \<leftarrow> read_full_loop E ?h bio ?out hl len True;
        Some (if ok then Inr (out, len + hl) else Inl NOT_ENOUGH_DATA, h') }"
      using True by (simp add: read_contents_def sz out bio_read_full_def Let_def)
    show ?thesis
    proof (cases "len \<le> length (content h)")
      case False
      then show ?thesis
        using read_full_short [of ?h len hl ?out True] ok' lo' len step by fastforce
    next
      case in_bounds: True
      obtain h' where h': "read_full_loop E ?h bio ?out hl len True =
          Some (True, False, overwrite hl (take len (content h)) ?out, h')" "source_ok h'" "content h' = drop len (content h)"
        using read_full_ok [of ?h len hl ?out True] ok' lo' len in_bounds by auto
      have "overwrite hl (take len (content h)) ?out = take hl header @ take len (content h)"
        using lo hl in_bounds by (simp add: overwrite_def)
      then show ?thesis using h' step True in_bounds by simp
    qed
  qed
qed

end

section \<open>Headers of one tag byte\<close>

text \<open>Where the element ends and its header, by the definite forms of the length.\<close>

definition definite_header :: "u8 list \<Rightarrow> (nat \<times> nat) option" where
  "definite_header bs =
     (case bs of
        t # lb # rest \<Rightarrow>
          if unat lb < 128 then Some (unat lb + 2, 2)
          else
            let n = unat lb - 128; v = be_val (take n rest) in
            if n = 0 \<or> n > 4 \<or> length rest < n \<or> v < 128 \<or> v < 256 ^ (n - 1) then None
            else Some (v + 2 + n, 2 + n)
      | _ \<Rightarrow> None)"

definition long_form_tag :: "u8 list \<Rightarrow> bool" where
  "long_form_tag bs \<longleftrightarrow> 2 \<le> length bs \<and> bs ! 0 AND 0x1f = 0x1f"

definition indefinite_length :: "u8 list \<Rightarrow> bool" where
  "indefinite_length bs \<longleftrightarrow> 2 \<le> length bs \<and> bs ! 0 AND 0x20 \<noteq> 0 \<and> bs ! 1 = 0x80"

lemma low_tag_iff: "(t :: u8) AND 0x1f = 0x1f \<longleftrightarrow> unat t mod 32 = 31"
  by (simp add: word_unat_eq_iff byte_arith)

lemma length_byte_low: "128 \<le> unat (lb :: u8) \<Longrightarrow> unat (lb AND 0x7f) = unat lb - 128"
  by (simp add: byte_arith mod_128_high)

text \<open>On these, the reader of \<open>cbs.c\<close> finds the same element.\<close>

lemma asn1_header_definite:
  assumes "unat t mod 32 \<noteq> 31"
  shows "map_option (\<lambda>(tot, tag, hl). (tot, hl)) (asn1_header (t # lb # rest) False) = definite_header (t # lb # rest)"
proof -
  obtain tag where tag: "parse_asn1_tag (t # lb # rest) = (Some tag, lb # rest)"
    using assms by (simp add: parse_asn1_tag_Cons)
  show ?thesis
  proof (cases "unat lb < 128")
    case True
    then show ?thesis by (simp add: asn1_header_def definite_header_def tag and_0x80_eq_0)
  next
    case False
    define n where "n = unat lb - 128"
    have n: "unat (lb AND 0x7f) = n" using False by (simp add: length_byte_low n_def)
    show ?thesis
    proof (cases "n = 0 \<or> n > 4 \<or> length rest < n")
      case True
      have "cbs_get_u rest n = (None, rest)" if "length rest < n"
        using that by (simp add: cbs_get_u_None)
      then show ?thesis
        using True False n by (auto simp: asn1_header_def definite_header_def tag and_0x80_eq_0 Let_def n_def [symmetric])
    next
      case small: False
      define v where "v = be_val (take n rest)"
      have "v < 256 ^ n" using be_val_bound [of "take n rest"] small by (simp add: v_def)
      also have "(256 :: nat) ^ n \<le> 256 ^ 4" using small by (intro power_increasing) auto
      finally have v: "v < 2 ^ 32" by simp
      then have uv: "unat (of_nat v :: u64) = v" by (simp add: unat_of_nat)
      have get: "cbs_get_u rest n = (Some (of_nat v), drop n rest)"
        using small uv by (subst cbs_get_u_Some) (auto simp: v_def)
      have c: "(of_nat v :: u64) < 128 \<longleftrightarrow> v < 128" "drop_bit ((n - 1) * 8) (of_nat v :: u64) = 0 \<longleftrightarrow> v < 256 ^ (n - 1)"
        using uv by (simp_all add: word_less_nat_alt drop_bit_eq_0_iff pow_256)
      have sz: "szadd (szadd v 2) n = v + 2 + n" using v small by simp
      have "asn1_header (t # lb # rest) False =
          (if v < 128 \<or> v < 256 ^ (n - 1) then None else Some (v + 2 + n, tag, 2 + n))"
        using False n small sz by (simp add: asn1_header_def tag and_0x80_eq_0 get c uv Let_def del: One_nat_def)
      then show ?thesis
        using False small by (simp add: definite_header_def Let_def n_def [symmetric] v_def [symmetric])
    qed
  qed
qed

lemma len32_loop_unat:
  "unat x * 256 ^ length bs + be_val bs < 2 ^ 32 \<Longrightarrow> unat (len32_loop x bs) = unat x * 256 ^ length bs + be_val bs"
proof (induction x bs rule: len32_loop.induct)
  case (2 x b bs)
  have sum: "unat x * 256 ^ length (b # bs) + be_val (b # bs) = (unat x * 256 + unat b) * 256 ^ length bs + be_val bs"
    by (simp add: be_val_Cons algebra_simps)
  have "unat x * 256 \<le> unat x * 256 ^ length (b # bs)" by simp
  with 2(2) have "unat x * 256 < 2 ^ 32" by linarith
  then have step: "unat (push_bit 8 x OR ucast b) = unat x * 256 + unat b"
    using unat_push_or [of "ucast b" 8 x] by (simp add: unat_ucast)
  show ?case
    using 2 sum by (simp add: step)
qed simp

context byte_source
begin

lemma read_asn1_definite:
  assumes ok: "source_ok h" and m: "alloc_ok (be_malloc E)"
    and av: "alloc_avail (be_malloc E) limit" "max_len + OPENSSL_MALLOC_PREFIX \<le> limit" "limit < 2 ^ 64"
    and header: "length header = 6" and form: "\<not> long_form_tag (content h)" "\<not> indefinite_length (content h)"
  shows "\<exists>r h'. BIO_read_asn1 E h bio header max_len = Some (r, h') \<and> source_ok h' \<and>
     (case definite_header (content h) of
        Some (tot, hl) \<Rightarrow>
          if tot \<le> max_len \<and> tot - hl \<le> INT_MAX \<and> tot \<le> length (content h)
          then r = Inr (take tot (content h), tot) \<and> content h' = drop tot (content h)
          else \<exists>e. r = Inl e
      | None \<Rightarrow> \<exists>e. r = Inl e)"
proof (cases "length (content h) < 2")
  case True
  have "definite_header (content h) = None"
    using True by (auto simp: definite_header_def split: list.splits)
  moreover obtain out' h' where "read_full_loop E h bio header 0 2 True =
      Some (False, content h = [] \<and> at_eof h = 0, out', h')" "source_ok h'"
    using read_full_short [OF ok True, of 0 header True] header by auto
  ultimately show ?thesis by (simp add: BIO_read_asn1_def bio_read_full_def)
next
  case False
  then obtain t lb rest where bs: "content h = t # lb # rest"
    by (metis One_nat_def Suc_1 length_Cons less_Suc_eq_0_disj list.size(3) neq_Nil_conv not_less_eq zero_less_Suc)
  obtain h1 where h1: "read_full_loop E h bio header 0 2 True = Some (True, False, overwrite 0 [t, lb] header, h1)"
      "source_ok h1" "content h1 = rest"
    using read_full_ok [OF ok, of 2 0 header True] header by (auto simp: bs)
  define header1 where "header1 = overwrite 0 [t, lb] header"
  have hd1: "length header1 = 6" "header1 ! 0 = t" "header1 ! 1 = lb" "header1 ! Suc 0 = lb" "take 2 header1 = [t, lb]"
    using header by (simp_all add: header1_def overwrite_def)
  have t: "t AND 0x1f \<noteq> 0x1f" and indef: "\<not> (t AND 0x20 \<noteq> 0 \<and> lb = 0x80)"
    using form by (auto simp: long_form_tag_def indefinite_length_def bs)
  note start = BIO_read_asn1_def bio_read_full_def h1(1) header1_def [symmetric] hd1 t Let_def
  show ?thesis
  proof (cases "unat lb < 128")
    case True
    obtain r h' where "read_contents E h1 bio header1 2 (unat lb) max_len = Some (r, h')" "source_ok h'"
        "if unat lb + 2 \<le> max_len \<and> unat lb \<le> INT_MAX \<and> unat lb \<le> length rest
         then r = Inr ([t, lb] @ take (unat lb) rest, unat lb + 2) \<and> content h' = drop (unat lb) rest
         else \<exists>e. r = Inl e"
      using read_contents_result [OF h1(2) m av, of 2 header1 "unat lb"] True hd1 h1(3) by auto
    then show ?thesis
      using True by (simp add: start and_0x80_eq_0 definite_header_def bs)
  next
    case False
    define n where "n = unat lb - 128"
    have n: "unat (lb AND 0x7f) = n" using False by (simp add: length_byte_low n_def)
    have n0: "n = 0 \<longleftrightarrow> lb = 0x80" using False by (auto simp: n_def word_unat_eq_iff)
    show ?thesis
    proof (cases "n = 0 \<or> n > 4")
      case True
      then show ?thesis
        using False indef n0 ok h1(2)
        by (auto simp: start n and_0x80_eq_0 definite_header_def bs n_def [symmetric])
    next
      case n4: False
      show ?thesis
      proof (cases "length rest < n")
        case True
        obtain out' h' where "read_full_loop E h1 bio header1 2 n True =
            Some (False, content h1 = [] \<and> at_eof h1 = 0, out', h')" "source_ok h'"
          using read_full_short [OF h1(2), of n 2 header1 True] True n4 hd1 h1(3) by auto
        then show ?thesis
          using False n4 True by (simp add: start n and_0x80_eq_0 definite_header_def bs n_def [symmetric])
      next
        case enough: False
        obtain h2 where h2: "read_full_loop E h1 bio header1 2 n True =
            Some (True, False, overwrite 2 (take n rest) header1, h2)" "source_ok h2" "content h2 = drop n rest"
          using read_full_ok [OF h1(2), of n 2 header1 True] enough n4 hd1 h1(3) by auto
        define header2 where "header2 = overwrite 2 (take n rest) header1"
        have hd2: "length header2 = 6" "take n (drop 2 header2) = take n rest" "take (2 + n) header2 = t # lb # take n rest"
          using hd1 enough n4 by (simp_all add: header2_def overwrite_def)
        define v where "v = be_val (take n rest)"
        have "v < 256 ^ n" using be_val_bound [of "take n rest"] enough by (simp add: v_def)
        also have "(256 :: nat) ^ n \<le> 256 ^ 4" using n4 by (intro power_increasing) auto
        finally have v: "v < 2 ^ 32" by simp
        have uv: "unat (len32_loop 0 (take n rest)) = v"
          using len32_loop_unat [of 0 "take n rest"] v by (simp add: v_def)
        have c: "len32_loop 0 (take n rest) < 128 \<longleftrightarrow> v < 128"
            "drop_bit ((n - 1) * 8) (len32_loop 0 (take n rest)) = 0 \<longleftrightarrow> v < 256 ^ (n - 1)"
          using uv by (simp_all add: word_less_nat_alt drop_bit_eq_0_iff pow_256)
        have step: "BIO_read_asn1 E h bio header max_len =
            (if v < 128 \<or> v < 256 ^ (n - 1) then Some (Inl DECODE_ERROR, h2)
             else read_contents E h2 bio header2 (2 + n) v max_len)"
          using False n4 n0 indef h2(1)
          by (simp add: start n and_0x80_eq_0 header2_def [symmetric] hd2 c uv del: One_nat_def)
        have dh: "definite_header (content h) = (if v < 128 \<or> v < 256 ^ (n - 1) then None else Some (v + 2 + n, 2 + n))"
          using False n4 enough by (simp add: definite_header_def bs n_def [symmetric] v_def [symmetric] Let_def)
        show ?thesis
        proof (cases "v < 128 \<or> v < 256 ^ (n - 1)")
          case True
          then show ?thesis using h2(2) by (simp add: step dh)
        next
          case long: False
          have "2 + n \<le> length header2" "2 + n \<le> 6" using n4 hd2(1) by auto
          then obtain r h' where r: "read_contents E h2 bio header2 (2 + n) v max_len = Some (r, h')" "source_ok h'"
              "if v + (2 + n) \<le> max_len \<and> v \<le> INT_MAX \<and> v \<le> length (content h2)
               then r = Inr (take (2 + n) header2 @ take v (content h2), v + (2 + n)) \<and> content h' = drop v (content h2)
               else \<exists>e. r = Inl e"
            using read_contents_result [OF h2(2) m av _ _ v] by blast
          have "v \<le> length (content h2) \<longleftrightarrow> v + 2 + n \<le> length (content h)"
            using enough by (auto simp: h2(3) bs)
          moreover have "take (2 + n) header2 @ take v (content h2) = take (v + 2 + n) (content h)"
            using take_add [of n v rest] hd2(3) by (simp add: h2(3) bs add.commute)
          moreover have "drop v (content h2) = drop (v + 2 + n) (content h)"
            by (simp add: h2(3) bs add.commute)
          moreover have "v + (2 + n) = v + 2 + n" "v + 2 + n - (2 + n) = v" by simp_all
          ultimately show ?thesis
            using r long by (simp only: step dh if_False option.case prod.case simp_thms) auto
        qed
      qed
    qed
  qed
qed

text \<open>Long tags are refused.\<close>

lemma read_asn1_long_tag:
  assumes ok: "source_ok h" and header: "length header = 6" and form: "long_form_tag (content h)"
  shows "\<exists>h'. BIO_read_asn1 E h bio header max_len = Some (Inl DECODE_ERROR, h') \<and> source_ok h'"
proof -
  have two: "2 \<le> length (content h)" using form by (simp add: long_form_tag_def)
  then obtain h1 where h1: "read_full_loop E h bio header 0 2 True =
      Some (True, False, overwrite 0 (take 2 (content h)) header, h1)" "source_ok h1"
    using read_full_ok [OF ok, of 2 0 header True] header by auto
  have "overwrite 0 (take 2 (content h)) header ! 0 = content h ! 0"
    using two header by (simp add: overwrite_def nth_append)
  then show ?thesis
    using h1 form by (simp add: BIO_read_asn1_def bio_read_full_def long_form_tag_def Let_def)
qed

end

section \<open>Reading everything\<close>

context byte_source
begin

text \<open>The block always has room for the next read, until it has the maximal size.\<close>

lemma read_all_loop_result:
  assumes ok: "source_ok h" and m: "alloc_ok (be_malloc E)"
    and av: "alloc_avail (be_malloc E) limit" "max_len + OPENSSL_MALLOC_PREFIX \<le> limit" "limit < 2 ^ 64"
    and max: "max_len < 2 ^ 63" and eof: "at_eof h = 0 \<or> at_eof h = - 1"
    and out: "length out = len" "done \<le> len" "len \<le> max_len" "len = max_len \<or> done < len" "len - done < 3 * 2048"
  shows "\<exists>r h'. read_all_loop E h bio out len done max_len = Some (r, h') \<and> source_ok h' \<and>
     (if at_eof h = 0 \<and> done + length (content h) < max_len
      then \<exists>out'. r = Some (out', done + length (content h)) \<and>
             take (done + length (content h)) out' = take done out @ content h \<and> content h' = []
      else r = None)"
  using ok eof out
proof (induction "length (content h)" arbitrary: h out len "done" rule: less_induct)
  case less
  note prems = less.prems
  have av': "alloc_avail (be_malloc E) limit" "limit < 2 ^ 64" using av by auto
  show ?case
  proof (cases "done = len")
    case True
    then have "len = max_len" using prems(6) by simp
    then show ?thesis using True prems(1) by (subst read_all_loop.simps) simp
  next
    case False
    define todo where "todo = len - done"
    have todo: "0 < todo" "todo < 2 ^ 31" "todo < INT_MAX" "szsub len done = todo"
      using False prems max by (auto simp: todo_def INT_MAX_def)
    have guard: "done \<noteq> len" "size_to_int todo = int todo" using False todo by simp_all
    show ?thesis
    proof (cases "content h = []")
      case True
      obtain h' where h': "BIO_read E h bio True (int todo) = Some (at_eof h, [], h')" "source_ok h'" "content h' = []"
        using read_end [OF prems(1) True todo(1,2)] by blast
      have "done + length (content h) < max_len" using False prems True by auto
      then show ?thesis
        using h' True prems(2) guard todo by (subst read_all_loop.simps) (auto simp: store_at_def)
    next
      case some: False
      then obtain k h' where k: "0 < k" "k \<le> todo" "k \<le> length (content h)"
          "BIO_read E h bio True (int todo) = Some (int k, take k (content h), h')"
          "source_ok h'" "content h' = drop k (content h)" "at_eof h' = at_eof h"
        using read_some [OF prems(1) some todo(1,2)] by blast
      let ?out = "overwrite done (take k (content h)) out"
      have fits: "done + k \<le> len" using k(2) todo(1) by (simp add: todo_def)
      then have st: "store_at done (take k (content h)) out = Some ?out" and lo: "length ?out = len"
        using k(3) prems(3) by (simp_all add: store_at_def)
      have dn: "szadd done (int_to_size (int k)) = done + k" "szsub len (done + k) = len - (done + k)"
        using k todo prems max by (simp_all add: todo_def)
      have tk: "take (done + k) ?out = take done out @ take k (content h)"
        using k todo prems take_overwrite_after [of "done" "take k (content h)" out] by (simp add: todo_def)
      have less: "length (content h') < length (content h)" "length (content h') = length (content h) - k"
        using k by simp_all
      have IH: "\<exists>r h2. read_all_loop E g bio out2 len2 (done + k) max_len = Some (r, h2) \<and> source_ok h2 \<and>
          (if at_eof h = 0 \<and> done + length (content h) < max_len
           then \<exists>out'. r = Some (out', done + length (content h)) \<and>
                  take (done + length (content h)) out' = take done out @ content h \<and> content h2 = []
           else r = None)"
        if g: "source_ok g" "content g = content h'" "at_eof g = at_eof h'" and out2: "length out2 = len2"
          "take (done + k) out2 = take (done + k) ?out" "done + k \<le> len2" "len2 \<le> max_len" "len2 = max_len \<or> done + k < len2"
          "len2 - (done + k) < 3 * 2048" for g out2 len2
      proof -
        have c: "done + k + length (content g) = done + length (content h)" using g(2) less(2) k(3) by simp
        have b: "take (done + k) out2 @ content g = take done out @ content h"
          using g(2) k(6) out2(2) tk by simp
        have d: "length (content g) < length (content h)" "at_eof g = at_eof h"
          using g less(1) k(7) by simp_all
        have "at_eof g = 0 \<or> at_eof g = - 1" using d prems(2) by simp
        then show ?thesis
          using less.hyps [OF d(1) g(1) _ out2(1,3,4,5,6)] by (simp only: c b d)
      qed
      have step: "read_all_loop E h bio out len done max_len =
         (if len < max_len \<and> len - (done + k) < kChunkSize div 2
          then
            let len' = szadd len kChunkSize; len2 = (if len' < kChunkSize \<or> len' > max_len then max_len else len')
            in case OPENSSL_realloc (be_malloc E) (bh_allocs h') (Some ?out) len2 of
                 (None, k2) \<Rightarrow> Some (None, h'\<lparr>bh_allocs := k2\<rparr>)
               | (Some new_buf, k2) \<Rightarrow> read_all_loop E (h'\<lparr>bh_allocs := k2\<rparr>) bio new_buf len2 (done + k) max_len
          else read_all_loop E h' bio ?out len (done + k) max_len)"
        using guard todo k(1,4) st dn by (subst read_all_loop.simps) (simp add: Let_def)
      show ?thesis
      proof (cases "len < max_len \<and> len - (done + k) < kChunkSize div 2")
        case False
        then have "len = max_len \<or> done + k < len" using prems by (auto simp: kChunkSize_def)
        then show ?thesis
          using IH [of h' ?out len] step False k lo prems todo by (simp add: todo_def)
      next
        case True
        define len2 where "len2 = min (len + kChunkSize) max_len"
        have l: "szadd len kChunkSize = len + kChunkSize" using prems max by (simp add: kChunkSize_def)
        have l2: "(if len + kChunkSize < kChunkSize \<or> len + kChunkSize > max_len then max_len else len + kChunkSize) = len2"
          by (simp add: len2_def)
        have pre: "len2 + OPENSSL_MALLOC_PREFIX \<le> limit" "len2 + OPENSSL_MALLOC_PREFIX < 2 ^ 64" using av(2,3) by (auto simp: len2_def)
        obtain new k2 where new: "OPENSSL_realloc (be_malloc E) (bh_allocs h') (Some ?out) len2 = (Some new, k2)"
          using OPENSSL_malloc_avail [OF av' pre(1), of "bh_allocs h'"]
          by (auto simp: OPENSSL_realloc_def Let_def)
        have nl: "length new = len2 \<and> take len new = ?out"
          using OPENSSL_realloc_Some [OF m pre(2) new] lo True by (simp add: len2_def min_def split: if_splits)
        have "take (done + k) new = take (done + k) ?out"
          using nl k todo prems by (metis add_le_mono1 le_add_diff_inverse less_imp_le_nat min.absorb2 min.commute nat_add_left_cancel_le take_take todo_def)
        moreover have "done + k \<le> len2" "len2 \<le> max_len" "len2 = max_len \<or> done + k < len2" "len2 - (done + k) < 3 * 2048"
          using fits True by (auto simp: len2_def kChunkSize_def)
        moreover have "source_ok (h'\<lparr>bh_allocs := k2\<rparr>)" "content (h'\<lparr>bh_allocs := k2\<rparr>) = content h'"
            "at_eof (h'\<lparr>bh_allocs := k2\<rparr>) = at_eof h'" "length new = len2"
          using k nl by (simp_all add: alloc_source)
        moreover have "read_all_loop E h bio out len done max_len =
            read_all_loop E (h'\<lparr>bh_allocs := k2\<rparr>) bio new len2 (done + k) max_len"
          using True new by (simp only: step l l2 Let_def if_True simp_thms option.case prod.case)
        ultimately show ?thesis
          using IH [of "h'\<lparr>bh_allocs := k2\<rparr>" new len2] by (simp only:)
      qed
    qed
  qed
qed

lemma read_all_result:
  assumes ok: "source_ok h" and m: "alloc_ok (be_malloc E)"
    and av: "alloc_avail (be_malloc E) limit" "max_len + OPENSSL_MALLOC_PREFIX \<le> limit" "limit < 2 ^ 64"
    and max: "max_len < 2 ^ 63" and eof: "at_eof h = 0 \<or> at_eof h = - 1" and prefix: "length prefix < 2 ^ 63"
  shows "\<exists>r h'. bio_read_all E h bio prefix max_len = Some (r, h') \<and>
     (if at_eof h = 0 \<and> length prefix + length (content h) < max_len
      then \<exists>out. r = Some (out, length prefix + length (content h)) \<and>
             take (length prefix + length (content h)) out = prefix @ content h \<and> content h' = []
      else r = None)"
proof -
  define len where "len = min (length prefix + kChunkSize) max_len"
  have sz: "szadd (length prefix) kChunkSize = length prefix + kChunkSize" using prefix by (simp add: kChunkSize_def)
  have l: "(if length prefix + kChunkSize > max_len then max_len else length prefix + kChunkSize) = len"
    by (simp add: len_def)
  show ?thesis
  proof (cases "len < length prefix")
    case True
    then have "max_len < length prefix" by (simp add: len_def)
    then show ?thesis using True by (simp add: bio_read_all_def Let_def sz l)
  next
    case False
    obtain out k where out: "OPENSSL_malloc (be_malloc E) (bh_allocs h) len = (Some out, k)"
    proof -
      have "len + OPENSSL_MALLOC_PREFIX \<le> limit" using av(2) by (simp add: len_def)
      then show ?thesis using OPENSSL_malloc_avail [OF av(1,3), of len] that by blast
    qed
    have lo: "length out = len"
      using OPENSSL_malloc_length [OF m _ out] av(2,3) by (simp add: len_def)
    let ?out = "overwrite 0 prefix out" and ?h = "h\<lparr>bh_allocs := k\<rparr>"
    have "length ?out = len" "take (length prefix) ?out = prefix" using lo False by (simp_all add: overwrite_def)
    moreover have "len \<le> max_len" "len = max_len \<or> length prefix < len" "len - length prefix < 3 * 2048"
      by (auto simp: len_def kChunkSize_def)
    moreover have "bio_read_all E h bio prefix max_len = read_all_loop E ?h bio ?out len (length prefix) max_len"
      using False by (simp only: bio_read_all_def Let_def sz l out if_False option.case prod.case)
    moreover have "source_ok ?h" "at_eof ?h = 0 \<or> at_eof ?h = - 1" "length prefix \<le> len"
      using ok eof False by (simp_all add: alloc_source)
    ultimately show ?thesis
      using read_all_loop_result [OF _ m av max, of ?h ?out len "length prefix"]
      by (simp only: alloc_source) blast
  qed
qed

end

section \<open>Indefinite lengths\<close>

context byte_source
begin

text \<open>After the header of an element of indefinite length everything is read.\<close>

lemma read_asn1_indefinite:
  assumes ok: "source_ok h" and m: "alloc_ok (be_malloc E)"
    and av: "alloc_avail (be_malloc E) limit" "max_len + OPENSSL_MALLOC_PREFIX \<le> limit" "limit < 2 ^ 64"
    and max: "max_len < 2 ^ 63" and eof: "at_eof h = 0 \<or> at_eof h = - 1"
    and header: "length header = 6" and form: "\<not> long_form_tag (content h)" "indefinite_length (content h)"
  shows "\<exists>r h'. BIO_read_asn1 E h bio header max_len = Some (r, h') \<and>
     (if at_eof h = 0 \<and> length (content h) < max_len
      then \<exists>out. r = Inr (out, length (content h)) \<and> take (length (content h)) out = content h \<and> content h' = []
      else r = Inl NOT_ENOUGH_DATA)"
proof -
  define pre where "pre = take 2 (content h)"
  have two: "2 \<le> length (content h)" "length pre = 2" "pre ! 0 = content h ! 0" "pre ! 1 = content h ! 1"
      "pre ! Suc 0 = content h ! 1"
    using form by (simp_all add: indefinite_length_def pre_def)
  obtain h1 where h1: "read_full_loop E h bio header 0 2 True = Some (True, False, overwrite 0 pre header, h1)"
      "source_ok h1" "content h1 = drop 2 (content h)" "at_eof h1 = at_eof h"
    using read_full_ok [OF ok two(1), of 0 header True] header by (auto simp: pre_def)
  have hd1: "overwrite 0 pre header ! 0 = content h ! 0" "overwrite 0 pre header ! Suc 0 = content h ! 1"
      "take 2 (overwrite 0 pre header) = pre"
    using header two by (simp_all add: overwrite_def nth_append)
  have t: "content h ! 0 AND 0x1f \<noteq> 0x1f" "content h ! 0 AND 0x20 \<noteq> 0" "content h ! 1 = 0x80"
    using form two by (simp_all add: long_form_tag_def indefinite_length_def)
  have step: "BIO_read_asn1 E h bio header max_len = do {
      (r, h) \<leftarrow> bio_read_all E h1 bio pre max_len;
      Some (case r of None \<Rightarrow> Inl NOT_ENOUGH_DATA | Some out \<Rightarrow> Inr out, h) }"
    using h1(1) t by (simp add: BIO_read_asn1_def bio_read_full_def hd1 Let_def)
  have eof1: "at_eof h1 = 0 \<or> at_eof h1 = - 1" and pl: "length pre < 2 ^ 63" using eof h1(4) two(2) by simp_all
  have len: "length pre + length (content h1) = length (content h)" "pre @ content h1 = content h"
    using two by (simp_all add: h1(3) pre_def)
  obtain r h' where "bio_read_all E h1 bio pre max_len = Some (r, h')"
      "if at_eof h = 0 \<and> length (content h) < max_len
       then \<exists>out. r = Some (out, length (content h)) \<and> take (length (content h)) out = content h \<and> content h' = []
       else r = None"
    using read_all_result [OF h1(2) m av max eof1 pl] unfolding len h1(4) by blast
  then show ?thesis by (auto simp: step split: if_splits)
qed

text \<open>A method may report other negative values than \<open>- 1\<close>. The loop takes them for a number of bytes, and
  goes back in its block instead of giving up.\<close>

lemma read_all_goes_back:
  assumes ok: "source_ok h" "content h = []" and eof: "at_eof h < - 1"
    and d: "done \<noteq> max_len" "0 < szsub max_len done" "szsub max_len done < INT_MAX"
  shows "\<exists>h'. read_all_loop E h bio out max_len done max_len =
     read_all_loop E h' bio out max_len (szadd done (int_to_size (at_eof h))) max_len \<and>
     source_ok h' \<and> content h' = [] \<and> at_eof h' = at_eof h"
proof -
  define todo where "todo = szsub max_len done"
  have todo: "todo < 2 ^ 31" "size_to_int todo = int todo" using d by (simp_all add: todo_def INT_MAX_def)
  obtain h' where h': "BIO_read E h bio True (int todo) = Some (at_eof h, [], h')" "source_ok h'" "content h' = []"
      "at_eof h' = at_eof h"
    using read_end [OF ok _ todo(1)] d by (auto simp: todo_def)
  show ?thesis
    using h' d eof todo by (subst read_all_loop.simps) (auto simp: Let_def store_at_def todo_def [symmetric])
qed

end

end
