(* ===== verification/BioPairSpec.thy ===== *)
theory BioPairSpec
  imports Bio
begin

text \<open>
  What a pair promises: each direction is a queue of bytes of bounded capacity. \<open>ring_bytes\<close> reads the queue
  off the ring buffer of a half, \<open>pair_ok\<close> is the invariant of two connected \<open>BIO\<close>s, \<open>pending\<close> the queue of
  what was written to one and not yet read from the other.
\<close>

section \<open>The ring buffer\<close>

definition ring_ok :: "bio_bio_st \<Rightarrow> bool" where
  "ring_ok b \<longleftrightarrow> (case bb_buf b of None \<Rightarrow> False | Some buf \<Rightarrow> length buf = bb_size b)
     \<and> bb_size b < 2 ^ 63 \<and> bb_len b \<le> bb_size b \<and> bb_offset b < bb_size b"

definition ring_bytes :: "bio_bio_st \<Rightarrow> u8 list" where
  "ring_bytes b =
     (case bb_buf b of
        None \<Rightarrow> []
      | Some buf \<Rightarrow> map (\<lambda>i. buf ! ((bb_offset b + i) mod bb_size b)) [0..<bb_len b])"

lemma ring_okE:
  assumes "ring_ok b"
  obtains buf where "bb_buf b = Some buf" "length buf = bb_size b" "bb_size b < 2 ^ 63" "bb_len b \<le> bb_size b"
    "bb_offset b < bb_size b"
  using assms by (auto simp: ring_ok_def split: option.splits)

lemma length_ring_bytes: "ring_ok b \<Longrightarrow> length (ring_bytes b) = bb_len b"
  by (auto simp: ring_ok_def ring_bytes_def split: option.splits)

lemma ring_mod: "i < n \<Longrightarrow> off < n \<Longrightarrow> (off + i) mod n = (if off + i < n then off + i else off + i - (n :: nat))"
  by (simp add: mod_if)

lemma take_map_upt: "n \<le> len \<Longrightarrow> take n (map f [0..<len]) = map f [0..<n]"
  by (simp add: take_map)

lemma drop_map_upt: "n \<le> len \<Longrightarrow> drop n (map f [0..<len]) = map (\<lambda>i. f (n + i)) [0..<len - n]"
  by (rule nth_equalityI) simp_all

lemma take_drop_map: "off + n \<le> length xs \<Longrightarrow> take n (drop off xs) = map (\<lambda>i. xs ! (off + i)) [0..<n]"
  by (rule nth_equalityI) simp_all

text \<open>Reading moves the front of the queue.\<close>

definition ring_drop :: "nat \<Rightarrow> bio_bio_st \<Rightarrow> bio_bio_st" where
  "ring_drop n b =
     b\<lparr>bb_len := bb_len b - n,
       bb_offset := (if n = bb_len b then 0 else (bb_offset b + n) mod bb_size b)\<rparr>"

lemma ring_drop_ok: "ring_ok b \<Longrightarrow> n \<le> bb_len b \<Longrightarrow> ring_ok (ring_drop n b)"
  by (auto simp: ring_ok_def ring_drop_def split: option.splits)

lemma ring_drop_bytes:
  assumes "ring_ok b" and "n \<le> bb_len b"
  shows "ring_bytes (ring_drop n b) = drop n (ring_bytes b)"
proof (cases "n = bb_len b")
  case True
  then show ?thesis using assms by (auto simp: ring_bytes_def ring_drop_def split: option.splits)
next
  case False
  from assms(1) obtain buf where b: "bb_buf b = Some buf" by (rule ring_okE)
  show ?thesis
    using False assms(2) by (simp add: b ring_bytes_def ring_drop_def drop_map_upt mod_add_left_eq add.assoc)
qed

lemma ring_drop_drop:
  assumes "ring_ok b" and "n + k \<le> bb_len b" and "0 < k"
  shows "ring_drop k (ring_drop n b) = ring_drop (n + k) b"
  using assms by (auto simp: ring_drop_def mod_add_left_eq add.assoc)

text \<open>One iteration of the loop, when the chunk does not wrap around, and when it does.\<close>

lemma read_loop_straight:
  assumes ok: "ring_ok b" and n: "0 < n" "n \<le> bb_len b" and fits: "bb_offset b + n \<le> bb_size b"
  shows "bio_read_loop n b = Some (take n (ring_bytes b), ring_drop n b)"
proof -
  from ok obtain buf where b: "bb_buf b = Some buf" "length buf = bb_size b" "bb_size b < 2 ^ 63"
      "bb_len b \<le> bb_size b" "bb_offset b < bb_size b" by (rule ring_okE)
  have sz: "szadd (bb_offset b) n = bb_offset b + n" using fits b(3) by simp
  have sub: "szsub (bb_len b) n = bb_len b - n" "szsub n n = 0" using n b by simp_all
  have bytes: "take n (drop (bb_offset b) buf) = take n (ring_bytes b)"
    using fits n b by (simp add: take_drop_map ring_bytes_def take_map_upt)
  have off: "(if bb_offset b + n = bb_size b then 0 else bb_offset b + n) = (bb_offset b + n) mod bb_size b"
    using fits by (simp add: mod_if)
  show ?thesis
    using fits n b by (subst bio_read_loop.simps) (auto simp: Let_def sz sub bytes ring_drop_def off)
qed

lemma read_loop_wrap:
  assumes ok: "ring_ok b" and n: "0 < n" "n \<le> bb_len b" and wrap: "bb_size b < bb_offset b + n"
  defines "c \<equiv> bb_size b - bb_offset b"
  shows "bio_read_loop n b =
    do { (more, b') \<leftarrow> bio_read_loop (n - c) (ring_drop c b); Some (take c (ring_bytes b) @ more, b') }"
proof -
  from ok obtain buf where b: "bb_buf b = Some buf" "length buf = bb_size b" "bb_size b < 2 ^ 63"
      "bb_len b \<le> bb_size b" "bb_offset b < bb_size b" by (rule ring_okE)
  have c: "0 < c" "c < n" "bb_offset b + c = bb_size b" using wrap b by (auto simp: c_def)
  have sz: "szadd (bb_offset b) n = bb_offset b + n" "szadd (bb_offset b) c = bb_size b"
    using n b c by simp_all
  have sub: "szsub (bb_len b) c = bb_len b - c" "szsub n c = n - c" "szsub (bb_size b) (bb_offset b) = c"
    using n b c by (simp_all add: c_def)
  have "take c (drop (bb_offset b) buf) = map (\<lambda>i. buf ! (bb_offset b + i)) [0..<c]"
    using c b by (intro take_drop_map) simp
  also have "\<dots> = map (\<lambda>i. buf ! ((bb_offset b + i) mod bb_size b)) [0..<c]"
    using c by (intro map_cong refl) simp
  also have "\<dots> = take c (ring_bytes b)"
    using c n b by (simp add: ring_bytes_def take_map_upt)
  finally have bytes: "take c (drop (bb_offset b) buf) = take c (ring_bytes b)" .
  show ?thesis
    using n b c by (subst bio_read_loop.simps) (simp add: Let_def sz sub bytes ring_drop_def)
qed

lemma read_loop:
  assumes ok: "ring_ok b" and n: "0 < n" "n \<le> bb_len b"
  shows "bio_read_loop n b = Some (take n (ring_bytes b), ring_drop n b)"
proof (cases "bb_offset b + n \<le> bb_size b")
  case True
  then show ?thesis using assms by (rule read_loop_straight [rotated 3])
next
  case False
  define c where "c = bb_size b - bb_offset b"
  from ok have b: "bb_len b \<le> bb_size b" "bb_offset b < bb_size b" by (auto simp: ring_ok_def)
  have c: "0 < c" "c < n" "bb_offset b + c = bb_size b" using False b by (auto simp: c_def)
  have off: "bb_offset (ring_drop c b) = 0" using c n b by (simp add: ring_drop_def)
  have ok': "ring_ok (ring_drop c b)" using ok c n by (intro ring_drop_ok) auto
  have "bio_read_loop (n - c) (ring_drop c b) =
      Some (take (n - c) (ring_bytes (ring_drop c b)), ring_drop (n - c) (ring_drop c b))"
    using ok' off c n b by (intro read_loop_straight) (auto simp: ring_drop_def)
  moreover have "take c (ring_bytes b) @ take (n - c) (drop c (ring_bytes b)) = take n (ring_bytes b)"
    using c by (simp add: take_add [symmetric])
  ultimately show ?thesis
    using read_loop_wrap [OF ok n] False c n ok ring_drop_bytes [OF ok, of c] ring_drop_drop [OF ok, of c "n - c"]
    by (simp add: c_def [symmetric])
qed

text \<open>Writing adds at the end of the queue: first for a piece that does not wrap around.\<close>

lemma nth_overwrite:
  "off + length bs \<le> length xs \<Longrightarrow> i < length xs \<Longrightarrow>
     overwrite off bs xs ! i = (if off \<le> i \<and> i < off + length bs then bs ! (i - off) else xs ! i)"
  by (auto simp: overwrite_def nth_append)

lemma ring_extend:
  assumes ok: "ring_ok b" and buf: "bb_buf b = Some buf" and room: "bb_len b + length bs \<le> bb_size b"
    and w: "w = (bb_offset b + bb_len b) mod bb_size b" and fits: "w + length bs \<le> bb_size b"
  defines "b' \<equiv> b\<lparr>bb_buf := Some (overwrite w bs buf), bb_len := bb_len b + length bs\<rparr>"
  shows "ring_ok b' \<and> ring_bytes b' = ring_bytes b @ bs"
proof
  have b: "length buf = bb_size b" "bb_size b < 2 ^ 63" "bb_offset b < bb_size b"
    using ok buf by (auto simp: ring_ok_def)
  show "ring_ok b'" using ok buf room fits b by (simp add: ring_ok_def b'_def)
  show "ring_bytes b' = ring_bytes b @ bs"
  proof (rule nth_equalityI)
    show "length (ring_bytes b') = length (ring_bytes b @ bs)"
      by (simp add: ring_bytes_def b'_def buf)
    fix i assume "i < length (ring_bytes b')"
    then have i: "i < bb_len b + length bs" by (simp add: ring_bytes_def b'_def)
    define j where "j = (bb_offset b + i) mod bb_size b"
    have j: "j < length buf" using b by (simp add: j_def)
    have ji: "j = (if bb_offset b + i < bb_size b then bb_offset b + i else bb_offset b + i - bb_size b)"
      unfolding j_def using i room b by (intro ring_mod) auto
    have "ring_bytes b' ! i = overwrite w bs buf ! j"
      using i by (simp add: ring_bytes_def b'_def j_def)
    also have "\<dots> = (if w \<le> j \<and> j < w + length bs then bs ! (j - w) else buf ! j)"
      using fits b j by (intro nth_overwrite) auto
    also have "\<dots> = (ring_bytes b @ bs) ! i"
    proof (cases "i < bb_len b")
      case True
      have "w = (if bb_offset b + bb_len b < bb_size b then bb_offset b + bb_len b else bb_offset b + bb_len b - bb_size b)"
        if "bb_len b < bb_size b"
        unfolding w using that b by (intro ring_mod) auto
      then have "\<not> (w \<le> j \<and> j < w + length bs)"
        using ji True room b fits by (cases "bs = []") (auto split: if_splits)
      then show ?thesis using True by (auto simp: nth_append ring_bytes_def buf j_def)
    next
      case False
      then have "bb_len b < bb_size b" using i room by simp
      then have "w = (if bb_offset b + bb_len b < bb_size b then bb_offset b + bb_len b else bb_offset b + bb_len b - bb_size b)"
        unfolding w using b by (intro ring_mod) auto
      then have "j = w + (i - bb_len b)"
        using ji False i fits room b by (auto split: if_splits)
      then have "w \<le> j" "j < w + length bs" "j - w = i - bb_len b"
        using False i by linarith+
      then show ?thesis using False by (simp add: nth_append ring_bytes_def buf)
    qed
    finally show "ring_bytes b' ! i = (ring_bytes b @ bs) ! i" .
  qed
qed

text \<open>One iteration of the loop, and the loop.\<close>

lemma write_loop_step:
  assumes ok: "ring_ok b" and buf: "bb_buf b = Some buf" and n: "0 < n" "bb_len b + n \<le> bb_size b" "n \<le> length bs"
  defines "w \<equiv> (bb_offset b + bb_len b) mod bb_size b"
  defines "c \<equiv> min n (bb_size b - w)"
  defines "b' \<equiv> b\<lparr>bb_buf := Some (overwrite w (take c bs) buf), bb_len := bb_len b + c\<rparr>"
  shows "bio_write_loop n bs b = (if c < n then bio_write_loop (n - c) (drop c bs) b' else Some b')"
    and "0 < c \<and> c \<le> n \<and> ring_ok b' \<and> ring_bytes b' = ring_bytes b @ take c bs"
proof -
  have b: "length buf = bb_size b" "bb_size b < 2 ^ 63" "bb_offset b < bb_size b"
    using ok buf by (auto simp: ring_ok_def)
  have w: "w < bb_size b" using b by (simp add: w_def)
  have c: "0 < c" "c \<le> n" "w + c \<le> bb_size b" using n w by (auto simp: c_def)
  have "ring_ok b' \<and> ring_bytes b' = ring_bytes b @ take c bs"
    using ring_extend [OF ok buf, of "take c bs" w] n c by (simp add: w_def b'_def)
  then show "0 < c \<and> c \<le> n \<and> ring_ok b' \<and> ring_bytes b' = ring_bytes b @ take c bs" using c by simp
  have sz: "szadd (bb_len b) n = bb_len b + n" "szadd (bb_offset b) (bb_len b) = bb_offset b + bb_len b"
      "szadd (bb_len b) c = bb_len b + c" "szadd w n = w + n"
    using n b c w by simp_all
  have wo: "bb_size b \<le> bb_offset b + bb_len b \<Longrightarrow> szsub (bb_offset b + bb_len b) (bb_size b) = w"
      "\<not> bb_size b \<le> bb_offset b + bb_len b \<Longrightarrow> bb_offset b + bb_len b = w"
    using ring_mod [of "bb_len b" "bb_size b" "bb_offset b"] n b by (auto simp: w_def)
  have ch: "w + n \<le> bb_size b \<Longrightarrow> c = n" "\<not> w + n \<le> bb_size b \<Longrightarrow> szsub (bb_size b) w = c"
    using w b by (auto simp: c_def)
  have sub: "szsub n c = n - c" "szsub n n = 0" using c n b by simp_all
  show "bio_write_loop n bs b = (if c < n then bio_write_loop (n - c) (drop c bs) b' else Some b')"
    using n b c
    by (subst bio_write_loop.simps; cases "bb_size b \<le> bb_offset b + bb_len b"; cases "w + n \<le> bb_size b")
      (simp_all add: Let_def buf sz wo ch sub b'_def del: szsub_small)
qed

lemma write_loop:
  assumes ok: "ring_ok b" and n: "0 < n" "bb_len b + n \<le> bb_size b" "n \<le> length bs"
  shows "\<exists>b' buf'. bio_write_loop n bs b = Some b' \<and> b' = b\<lparr>bb_buf := Some buf', bb_len := bb_len b + n\<rparr>
     \<and> ring_ok b' \<and> ring_bytes b' = ring_bytes b @ take n bs"
  using assms
proof (induction n arbitrary: b bs rule: less_induct)
  case (less n)
  obtain buf where buf: "bb_buf b = Some buf" using less.prems(1) by (rule ring_okE)
  define w where "w = (bb_offset b + bb_len b) mod bb_size b"
  define c where "c = min n (bb_size b - w)"
  define b1 where "b1 = b\<lparr>bb_buf := Some (overwrite w (take c bs) buf), bb_len := bb_len b + c\<rparr>"
  have loop: "bio_write_loop n bs b = (if c < n then bio_write_loop (n - c) (drop c bs) b1 else Some b1)"
    and b1: "0 < c \<and> c \<le> n \<and> ring_ok b1 \<and> ring_bytes b1 = ring_bytes b @ take c bs"
    using write_loop_step [OF less.prems(1) buf less.prems(2-4)] by (simp_all add: w_def c_def b1_def)
  show ?case
  proof (cases "c < n")
    case False
    then have "c = n" using b1 by simp
    then show ?thesis using loop b1 by (auto simp: b1_def)
  next
    case True
    have len1: "bb_len b1 = bb_len b + c" "bb_size b1 = bb_size b" by (simp_all add: b1_def)
    obtain b' buf' where b': "bio_write_loop (n - c) (drop c bs) b1 = Some b'"
        "b' = b1\<lparr>bb_buf := Some buf', bb_len := bb_len b1 + (n - c)\<rparr>"
        "ring_ok b'" "ring_bytes b' = ring_bytes b1 @ take (n - c) (drop c bs)"
    proof -
      have "bb_len b1 + (n - c) \<le> bb_size b1" "n - c \<le> length (drop c bs)" "n - c < n" "0 < n - c"
        using True b1 less.prems len1 by auto
      then show ?thesis using less.IH [of "n - c" b1 "drop c bs"] b1 that by blast
    qed
    have "take c bs @ take (n - c) (drop c bs) = take n bs"
      using True by (simp add: take_add [symmetric])
    then show ?thesis
      using loop True b' b1 len1 by (auto simp: b1_def)
  qed
qed

section \<open>Two connected BIOs\<close>

definition half :: "bio_heap \<Rightarrow> ptr \<Rightarrow> bio_bio_st option" where
  "half h p = do { x \<leftarrow> bio_at h p; pair_at h (bio_ptr x) }"

definition pending :: "bio_heap \<Rightarrow> ptr \<Rightarrow> u8 list" where
  "pending h p = (case half h p of None \<Rightarrow> [] | Some b \<Rightarrow> ring_bytes b)"

definition half_ok :: "bio_heap \<Rightarrow> ptr \<Rightarrow> ptr \<Rightarrow> bool" where
  "half_ok h p q \<longleftrightarrow>
     (case bio_at h p of
        None \<Rightarrow> False
      | Some x \<Rightarrow>
          bio_method x = Some methods_biop \<and> bio_init x \<noteq> 0 \<and>
          (case pair_at h (bio_ptr x) of
             None \<Rightarrow> False
           | Some b \<Rightarrow> ring_ok b \<and> bb_peer b = q \<and> bb_request b \<le> bb_size b - bb_len b))"

definition pair_ok :: "bio_heap \<Rightarrow> ptr \<Rightarrow> ptr \<Rightarrow> bool" where
  "pair_ok h p q \<longleftrightarrow> p \<noteq> q \<and> half_ok h p q \<and> half_ok h q p
     \<and> map_option bio_ptr (bio_at h p) \<noteq> map_option bio_ptr (bio_at h q)"

lemma pair_ok_sym: "pair_ok h p q \<Longrightarrow> pair_ok h q p"
  by (auto simp: pair_ok_def)

lemma half_okE:
  assumes "half_ok h p q"
  obtains x b where "bio_at h p = Some x" "bio_method x = Some methods_biop" "bio_init x \<noteq> 0"
    "pair_at h (bio_ptr x) = Some b" "ring_ok b" "bb_peer b = q" "bb_request b \<le> bb_size b - bb_len b"
  using assms by (auto simp: half_ok_def split: option.splits)

lemma pair_okE:
  assumes "pair_ok h p q"
  obtains x b y c where
    "bio_at h p = Some x" "bio_method x = Some methods_biop" "bio_init x \<noteq> 0"
    "pair_at h (bio_ptr x) = Some b" "ring_ok b" "bb_peer b = q" "bb_request b \<le> bb_size b - bb_len b"
    "bio_at h q = Some y" "bio_method y = Some methods_biop" "bio_init y \<noteq> 0"
    "pair_at h (bio_ptr y) = Some c" "ring_ok c" "bb_peer c = p" "bb_request c \<le> bb_size c - bb_len c"
    "bio_ptr x \<noteq> bio_ptr y" "p \<noteq> q" "p \<noteq> 0" "q \<noteq> 0" "bio_ptr x \<noteq> 0" "bio_ptr y \<noteq> 0"
proof -
  have h: "half_ok h p q" "half_ok h q p" and ne: "p \<noteq> q"
    and d: "map_option bio_ptr (bio_at h p) \<noteq> map_option bio_ptr (bio_at h q)"
    using assms by (auto simp: pair_ok_def)
  show thesis
  proof (rule half_okE [OF h(1)], rule half_okE [OF h(2)])
    fix x b y c
    assume x: "bio_at h p = Some x" "bio_method x = Some methods_biop" "bio_init x \<noteq> 0"
      "pair_at h (bio_ptr x) = Some b" "ring_ok b" "bb_peer b = q" "bb_request b \<le> bb_size b - bb_len b"
      and y: "bio_at h q = Some y" "bio_method y = Some methods_biop" "bio_init y \<noteq> 0"
      "pair_at h (bio_ptr y) = Some c" "ring_ok c" "bb_peer c = p" "bb_request c \<le> bb_size c - bb_len c"
    show thesis
      by (rule that [OF x y]) (use d ne x(1,4) y(1,4) in \<open>auto dest: heap_at_nonnull\<close>)
  qed
qed

text \<open>What the client can observe: whether the half is closed for writing, how much can be written, what the
  peer asked for, and the retry flags.\<close>

definition wr_closed :: "bio_heap \<Rightarrow> ptr \<Rightarrow> bool" where
  "wr_closed h p = (case half h p of None \<Rightarrow> False | Some b \<Rightarrow> bb_closed b \<noteq> 0)"

definition capacity :: "bio_heap \<Rightarrow> ptr \<Rightarrow> nat" where
  "capacity h p = (case half h p of None \<Rightarrow> 0 | Some b \<Rightarrow> bb_size b)"

definition requested :: "bio_heap \<Rightarrow> ptr \<Rightarrow> nat" where
  "requested h p = (case half h p of None \<Rightarrow> 0 | Some b \<Rightarrow> bb_request b)"

definition retry_flags :: "bio_heap \<Rightarrow> ptr \<Rightarrow> u32" where
  "retry_flags h p = (case bio_at h p of None \<Rightarrow> 0 | Some x \<Rightarrow> bio_flags x AND kRetryFlags)"

lemmas observe = half_def pending_def wr_closed_def capacity_def requested_def retry_flags_def

lemma ring_request [simp]:
  "ring_ok (b\<lparr>bb_request := r\<rparr>) = ring_ok b" "ring_bytes (b\<lparr>bb_request := r\<rparr>) = ring_bytes b"
  "ring_ok (b\<lparr>bb_closed := k\<rparr>) = ring_ok b" "ring_bytes (b\<lparr>bb_closed := k\<rparr>) = ring_bytes b"
  by (simp_all add: ring_ok_def ring_bytes_def split: option.split)

lemma ring_drop_fields [simp]:
  "bb_peer (ring_drop n b) = bb_peer b" "bb_closed (ring_drop n b) = bb_closed b"
  "bb_size (ring_drop n b) = bb_size b" "bb_request (ring_drop n b) = bb_request b"
  "bb_len (ring_drop n b) = bb_len b - n"
  by (simp_all add: ring_drop_def)

lemma clear_retry_flags_fields [simp]:
  "bio_method (clear_retry_flags x) = bio_method x" "bio_init (clear_retry_flags x) = bio_init x"
  "bio_ptr (clear_retry_flags x) = bio_ptr x" "bio_num (clear_retry_flags x) = bio_num x"
  "bio_shutdown (clear_retry_flags x) = bio_shutdown x" "bio_next (clear_retry_flags x) = bio_next x"
  "bio_method (set_flags f x) = bio_method x" "bio_init (set_flags f x) = bio_init x"
  "bio_ptr (set_flags f x) = bio_ptr x" "bio_num (set_flags f x) = bio_num x"
  by (simp_all add: clear_retry_flags_def set_flags_def)

lemma retry_bits:
  "(f AND NOT kRetryFlags) AND kRetryFlags = 0"
  "((f AND NOT kRetryFlags) OR (BIO_FLAGS_READ OR BIO_FLAGS_SHOULD_RETRY)) AND kRetryFlags
     = BIO_FLAGS_READ OR BIO_FLAGS_SHOULD_RETRY"
  "((f AND NOT kRetryFlags) OR (BIO_FLAGS_WRITE OR BIO_FLAGS_SHOULD_RETRY)) AND kRetryFlags
     = BIO_FLAGS_WRITE OR BIO_FLAGS_SHOULD_RETRY"
  by (rule bit_eqI; auto simp: bit_simps kRetryFlags_def BIO_FLAGS_RWS_def)+

lemma retry_flags_of [simp]:
  "bio_flags (clear_retry_flags x) AND kRetryFlags = 0"
  "bio_flags (set_flags (BIO_FLAGS_READ OR BIO_FLAGS_SHOULD_RETRY) (clear_retry_flags x)) AND kRetryFlags
     = BIO_FLAGS_READ OR BIO_FLAGS_SHOULD_RETRY"
  "bio_flags (set_flags (BIO_FLAGS_WRITE OR BIO_FLAGS_SHOULD_RETRY) (clear_retry_flags x)) AND kRetryFlags
     = BIO_FLAGS_WRITE OR BIO_FLAGS_SHOULD_RETRY"
  by (simp_all add: clear_retry_flags_def set_flags_def retry_bits)

lemmas bio_steps = upd_bio_def BIO_clear_retry_flags_def BIO_set_retry_read_def BIO_set_retry_write_def
  count_read_def count_write_def

lemma pending_le_capacity: "pair_ok h p q \<Longrightarrow> length (pending h p) \<le> capacity h p"
  by (auto elim!: pair_okE simp: observe length_ring_bytes ring_ok_def)

lemma should_retry_flags:
  assumes "pair_ok h p q"
  shows "BIO_should_retry h p = Some (retry_flags h p AND BIO_FLAGS_SHOULD_RETRY)"
proof -
  have "kRetryFlags AND BIO_FLAGS_SHOULD_RETRY = BIO_FLAGS_SHOULD_RETRY"
    by (simp add: kRetryFlags_def BIO_FLAGS_RWS_def BIO_FLAGS_READ_def BIO_FLAGS_WRITE_def BIO_FLAGS_IO_SPECIAL_def
        BIO_FLAGS_SHOULD_RETRY_def)
  then show ?thesis
    using assms by (auto elim!: pair_okE simp: BIO_should_retry_def BIO_test_flags_def observe and.assoc)
qed

section \<open>Writing to and reading from a pair\<close>

text \<open>The result of a write of \<open>n\<close> bytes and its flags are determined by what the client can observe, and the
  bytes that it accepts join the queue.\<close>

lemma pair_write:
  assumes ok: "pair_ok h p q" and n: "0 < length bs" "length bs < 2 ^ 31"
  defines "space \<equiv> capacity h p - length (pending h p)"
  shows "\<exists>r h'. BIO_write E h p (Some bs) (int (length bs)) = Some (r, h') \<and>
     r = (if wr_closed h p \<or> space = 0 then - 1 else int (min (length bs) space)) \<and>
     retry_flags h' p = (if \<not> wr_closed h p \<and> space = 0 then BIO_FLAGS_WRITE OR BIO_FLAGS_SHOULD_RETRY else 0) \<and>
     pair_ok h' p q \<and> pending h' p = pending h p @ take (nat r) bs \<and> pending h' q = pending h q \<and>
     wr_closed h' p = wr_closed h p \<and> wr_closed h' q = wr_closed h q \<and>
     capacity h' p = capacity h p \<and> capacity h' q = capacity h q \<and> requested h' p = 0 \<and>
     requested h' q = requested h q"
proof (rule pair_okE [OF ok])
  fix x b y c
  assume x: "bio_at h p = Some x" "bio_method x = Some methods_biop" "bio_init x \<noteq> 0"
      "pair_at h (bio_ptr x) = Some b" "ring_ok b" "bb_peer b = q" "bb_request b \<le> bb_size b - bb_len b"
    and y: "bio_at h q = Some y" "bio_method y = Some methods_biop" "bio_init y \<noteq> 0"
      "pair_at h (bio_ptr y) = Some c" "ring_ok c" "bb_peer c = p" "bb_request c \<le> bb_size c - bb_len c"
    and ne: "bio_ptr x \<noteq> bio_ptr y" "p \<noteq> q" "p \<noteq> 0" "q \<noteq> 0" "bio_ptr x \<noteq> 0" "bio_ptr y \<noteq> 0"
  note st = x y ne ne [symmetric]
  have b: "bb_buf b \<noteq> None" "bb_size b < 2 ^ 63" "bb_len b \<le> bb_size b"
    using x(5) by (auto simp: ring_ok_def split: option.splits)
  have space: "space = bb_size b - bb_len b" and closed: "wr_closed h p \<longleftrightarrow> bb_closed b \<noteq> 0"
    using x by (simp_all add: space_def observe length_ring_bytes)
  let ?b = "b\<lparr>bb_request := 0\<rparr>"
  let ?h = "put_pair (bio_ptr x) ?b (put_bio p (clear_retry_flags x) h)"
  have call: "BIO_write E h p (Some bs) (int (length bs)) =
      do { (ret, h) \<leftarrow> bio_write h p (Some bs) (int (length bs)); h \<leftarrow> count_write p ret h; Some (ret, h) }"
    using st n by (simp add: BIO_write_def methods_biop_def)
  have size: "int_to_size (int (length bs)) = length bs" using n by simp
  show ?thesis
  proof (cases "bb_closed b \<noteq> 0 \<or> space = 0")
    case True
    define h' where "h' = (if bb_closed b = 0
        then put_bio p (set_flags (BIO_FLAGS_WRITE OR BIO_FLAGS_SHOULD_RETRY) (clear_retry_flags x)) ?h else ?h)"
    have "bio_write h p (Some bs) (int (length bs)) = Some (- 1, h')"
      using st b n True space
      by (auto simp: bio_write_def bio_steps size Let_def h'_def)
    then have w: "BIO_write E h p (Some bs) (int (length bs)) = Some (- 1, h')"
      by (simp add: call count_write_def)
    have "pair_ok h' p q"
      using x y ne by (cases "bb_closed b = 0") (simp_all add: pair_ok_def half_ok_def h'_def)
    moreover have "pending h' p = pending h p \<and> pending h' q = pending h q \<and>
        wr_closed h' p = wr_closed h p \<and> wr_closed h' q = wr_closed h q \<and>
        capacity h' p = capacity h p \<and> capacity h' q = capacity h q \<and> requested h' p = 0 \<and>
        requested h' q = requested h q"
      using x(1,4) y(1,4) ne by (cases "bb_closed b = 0") (simp_all add: h'_def observe)
    moreover have "retry_flags h' p =
        (if bb_closed b = 0 then BIO_FLAGS_WRITE OR BIO_FLAGS_SHOULD_RETRY else 0)"
      using ne by (simp add: h'_def observe)
    ultimately show ?thesis
      using True by (intro exI [of _ "- 1"] exI [of _ h']) (auto simp: w closed)
  next
    case False
    define k where "k = min (length bs) space"
    have k: "0 < k" "bb_len b + k \<le> bb_size b" "k \<le> length bs" using False n space b by (auto simp: k_def)
    obtain b' buf' where b': "bio_write_loop k bs ?b = Some b'"
        "b' = ?b\<lparr>bb_buf := Some buf', bb_len := bb_len b + k\<rparr>" "ring_ok b'" "ring_bytes b' = ring_bytes b @ take k bs"
      using write_loop [of ?b k bs] x(5) k by auto
    have num: "(if length bs > szsub (bb_size b) (bb_len b) then szsub (bb_size b) (bb_len b) else length bs) = k"
      using b space by (auto simp: k_def)
    define x' where "x' = (clear_retry_flags x)\<lparr>bio_num_write := szadd (bio_num_write (clear_retry_flags x)) k\<rparr>"
    define h' where "h' = put_bio p x' (put_pair (bio_ptr x) b' ?h)"
    have "bio_write h p (Some bs) (int (length bs)) = Some (int k, put_pair (bio_ptr x) b' ?h)"
      using st b n False space k b'(1) num
      by (auto simp: bio_write_def bio_steps size Let_def)
    then have w: "BIO_write E h p (Some bs) (int (length bs)) = Some (int k, h')"
      using st k by (simp add: call bio_steps h'_def x'_def)
    have x': "bio_ptr x' = bio_ptr x" "bio_method x' = bio_method x" "bio_init x' = bio_init x"
        "bio_flags x' AND kRetryFlags = 0"
      by (simp_all add: x'_def)
    have "pair_ok h' p q"
      using x y ne x'(1-3) b'(2,3) by (simp add: pair_ok_def half_ok_def h'_def)
    moreover have "pending h' p = pending h p @ take k bs \<and> pending h' q = pending h q \<and>
        wr_closed h' p = wr_closed h p \<and> wr_closed h' q = wr_closed h q \<and>
        capacity h' p = capacity h p \<and> capacity h' q = capacity h q \<and> requested h' p = 0 \<and>
        requested h' q = requested h q"
      using x(1,4) y(1,4) ne x'(1) b'(2,4) by (simp add: h'_def observe)
    moreover have "retry_flags h' p = 0"
      using ne x'(4) by (simp add: h'_def observe)
    ultimately show ?thesis
      using False by (intro exI [of _ "int k"] exI [of _ h']) (simp add: w closed k_def)
  qed
qed

text \<open>Reading from the other side takes bytes from the front of the queue. A read that finds it empty is the end
  of the input if the writer has closed its half; otherwise it records how much was asked for.\<close>

lemma pair_read:
  assumes ok: "pair_ok h p q" and n: "0 < n" "n < 2 ^ 31"
  shows "\<exists>r h'. BIO_read E h q True (int n) = Some (r, take (nat r) (pending h p), h') \<and>
     r = (if pending h p \<noteq> [] then int (min n (length (pending h p))) else if wr_closed h p then 0 else - 1) \<and>
     retry_flags h' q =
       (if pending h p = [] \<and> \<not> wr_closed h p then BIO_FLAGS_READ OR BIO_FLAGS_SHOULD_RETRY else 0) \<and>
     pair_ok h' p q \<and> pending h' p = drop (nat r) (pending h p) \<and> pending h' q = pending h q \<and>
     wr_closed h' p = wr_closed h p \<and> wr_closed h' q = wr_closed h q \<and>
     capacity h' p = capacity h p \<and> capacity h' q = capacity h q \<and>
     requested h' p = (if pending h p = [] \<and> \<not> wr_closed h p then min n (capacity h p) else 0) \<and>
     requested h' q = requested h q"
proof (rule pair_okE [OF ok])
  fix x b y c
  assume x: "bio_at h p = Some x" "bio_method x = Some methods_biop" "bio_init x \<noteq> 0"
      "pair_at h (bio_ptr x) = Some b" "ring_ok b" "bb_peer b = q" "bb_request b \<le> bb_size b - bb_len b"
    and y: "bio_at h q = Some y" "bio_method y = Some methods_biop" "bio_init y \<noteq> 0"
      "pair_at h (bio_ptr y) = Some c" "ring_ok c" "bb_peer c = p" "bb_request c \<le> bb_size c - bb_len c"
    and ne: "bio_ptr x \<noteq> bio_ptr y" "p \<noteq> q" "p \<noteq> 0" "q \<noteq> 0" "bio_ptr x \<noteq> 0" "bio_ptr y \<noteq> 0"
  note st = x y ne ne [symmetric]
  have b: "bb_buf b \<noteq> None" "bb_size b < 2 ^ 63" "bb_len b \<le> bb_size b"
    using x(5) by (auto simp: ring_ok_def split: option.splits)
  have pend: "pending h p = ring_bytes b" "length (ring_bytes b) = bb_len b"
    and closed: "wr_closed h p \<longleftrightarrow> bb_closed b \<noteq> 0"
    using x by (simp_all add: observe length_ring_bytes)
  have empty: "ring_bytes b = [] \<longleftrightarrow> bb_len b = 0" using pend(2) by auto
  let ?b = "b\<lparr>bb_request := 0\<rparr>"
  let ?h = "put_pair (bio_ptr x) ?b (put_bio q (clear_retry_flags y) h)"
  have call: "BIO_read E h q True (int n) =
      do { (ret, bs, h) \<leftarrow> bio_read h q True (int n); h \<leftarrow> count_read q ret h; Some (ret, bs, h) }"
    using st n by (simp add: BIO_read_def methods_biop_def)
  have size: "int_to_size (int n) = n" using n by simp
  show ?thesis
  proof (cases "bb_len b = 0")
    case True
    define r :: int where "r = (if bb_closed b = 0 then - 1 else 0)"
    define b' where "b' = (if bb_closed b = 0 then ?b\<lparr>bb_request := min n (bb_size b)\<rparr> else ?b)"
    define y' where "y' = (if bb_closed b = 0
        then set_flags (BIO_FLAGS_READ OR BIO_FLAGS_SHOULD_RETRY) (clear_retry_flags y) else clear_retry_flags y)"
    define h' where "h' = put_pair (bio_ptr x) b' (put_bio q y' ?h)"
    have h': "h' = (if bb_closed b = 0 then put_pair (bio_ptr x) b' (put_bio q y' ?h) else ?h)"
      by (simp add: h'_def b'_def y'_def put_pair_def put_bio_def fun_upd_idem)
    have "bio_read h q True (int n) = Some (r, [], h')"
      unfolding h' using st b n True
      by (auto simp: bio_read_def bio_steps size Let_def r_def b'_def y'_def min_def)
    then have w: "BIO_read E h q True (int n) = Some (r, [], h')"
      by (simp add: call count_read_def r_def)
    have y': "bio_ptr y' = bio_ptr y" "bio_method y' = bio_method y" "bio_init y' = bio_init y"
        "bio_flags y' AND kRetryFlags = (if bb_closed b = 0 then BIO_FLAGS_READ OR BIO_FLAGS_SHOULD_RETRY else 0)"
      by (simp_all add: y'_def)
    have b': "ring_ok b'" "ring_bytes b' = ring_bytes b" "bb_peer b' = q" "bb_closed b' = bb_closed b"
        "bb_size b' = bb_size b" "bb_len b' = 0" "bb_request b' = (if bb_closed b = 0 then min n (bb_size b) else 0)"
      using x True by (simp_all add: b'_def)
    have "pair_ok h' p q"
      using x y ne y'(1-3) b' by (simp add: pair_ok_def half_ok_def h'_def)
    moreover have "pending h' p = ring_bytes b \<and> pending h' q = pending h q \<and>
        wr_closed h' p = wr_closed h p \<and> wr_closed h' q = wr_closed h q \<and>
        capacity h' p = capacity h p \<and> capacity h' q = capacity h q \<and>
        requested h' p = (if bb_closed b = 0 then min n (capacity h p) else 0) \<and>
        requested h' q = requested h q"
      using x(1,4) y(1,4) ne y'(1) b'(2,4,5,7) by (simp add: h'_def observe)
    moreover have "retry_flags h' q = (if bb_closed b = 0 then BIO_FLAGS_READ OR BIO_FLAGS_SHOULD_RETRY else 0)"
      using ne y'(4) by (simp add: h'_def observe)
    ultimately show ?thesis
      using True empty by (intro exI [of _ r] exI [of _ h']) (simp add: w closed pend r_def)
  next
    case False
    define k where "k = min n (bb_len b)"
    have k: "0 < k" "k \<le> bb_len b" "k < 2 ^ 31" using False n by (auto simp: k_def)
    have loop: "bio_read_loop k ?b = Some (take k (ring_bytes b), ring_drop k ?b)"
      using read_loop [of ?b k] x(5) k by simp
    have num: "(if bb_len b < n then bb_len b else n) = k" by (simp add: k_def)
    define y' where "y' = (clear_retry_flags y)\<lparr>bio_num_read := szadd (bio_num_read (clear_retry_flags y)) k\<rparr>"
    define h' where "h' = put_bio q y' (put_pair (bio_ptr x) (ring_drop k ?b) ?h)"
    have "bio_read h q True (int n) = Some (int k, take k (ring_bytes b), put_pair (bio_ptr x) (ring_drop k ?b) ?h)"
      using st b n False k loop num
      by (auto simp: bio_read_def bio_steps size Let_def)
    then have w: "BIO_read E h q True (int n) = Some (int k, take k (ring_bytes b), h')"
      using st k by (simp add: call bio_steps h'_def y'_def)
    have y': "bio_ptr y' = bio_ptr y" "bio_method y' = bio_method y" "bio_init y' = bio_init y"
        "bio_flags y' AND kRetryFlags = 0"
      by (simp_all add: y'_def)
    have b': "ring_ok (ring_drop k ?b)" "ring_bytes (ring_drop k ?b) = drop k (ring_bytes b)"
      using ring_drop_ok [of ?b k] ring_drop_bytes [of ?b k] x(5) k by simp_all
    have "pair_ok h' p q"
      using x y ne y'(1-3) b'(1) by (simp add: pair_ok_def half_ok_def h'_def)
    moreover have "pending h' p = drop k (ring_bytes b) \<and> pending h' q = pending h q \<and>
        wr_closed h' p = wr_closed h p \<and> wr_closed h' q = wr_closed h q \<and>
        capacity h' p = capacity h p \<and> capacity h' q = capacity h q \<and> requested h' p = 0 \<and>
        requested h' q = requested h q"
      using x(1,4) y(1,4) ne y'(1) b'(2) by (simp add: h'_def observe)
    moreover have "retry_flags h' q = 0"
      using ne y'(4) by (simp add: h'_def observe)
    ultimately show ?thesis
      using False empty by (intro exI [of _ "int k"] exI [of _ h']) (simp add: w closed pend k_def)
  qed
qed

section \<open>Queries and closing\<close>

lemmas ctrl_commands = BIO_C_GET_WRITE_BUF_SIZE_def BIO_C_GET_WRITE_GUARANTEE_def BIO_C_GET_READ_REQUEST_def
  BIO_C_SHUTDOWN_WR_def BIO_C_RESET_READ_REQUEST_def BIO_CTRL_RESET_def BIO_CTRL_EOF_def BIO_CTRL_INFO_def
  BIO_CTRL_GET_CLOSE_def BIO_CTRL_SET_CLOSE_def BIO_CTRL_PENDING_def BIO_CTRL_FLUSH_def BIO_CTRL_WPENDING_def

lemma pair_ctrl:
  assumes "pair_ok h p q"
  shows "BIO_ctrl E h p cmd num arg = bio_ctrl h p cmd num arg"
  using assms by (auto elim!: pair_okE simp: BIO_ctrl_def methods_biop_def)

lemma pair_queries:
  assumes ok: "pair_ok h p q"
  shows "BIO_ctrl_get_write_guarantee E h p =
      Some (if wr_closed h p then 0 else capacity h p - length (pending h p), h)"
    and "BIO_ctrl_get_read_request E h p = Some (requested h p, h)"
    and "BIO_pending E h q = Some (length (pending h p), h)"
    and "BIO_wpending E h p = Some (length (pending h p), h)"
proof -
  note ctrl = pair_ctrl [OF ok] pair_ctrl [OF pair_ok_sym [OF ok]]
  show "BIO_ctrl_get_write_guarantee E h p =
      Some (if wr_closed h p then 0 else capacity h p - length (pending h p), h)"
    and "BIO_ctrl_get_read_request E h p = Some (requested h p, h)"
    and "BIO_pending E h q = Some (length (pending h p), h)"
    and "BIO_wpending E h p = Some (length (pending h p), h)"
    by (rule pair_okE [OF ok];
        auto simp: BIO_ctrl_get_write_guarantee_def BIO_ctrl_get_read_request_def BIO_pending_def BIO_wpending_def
          ctrl_value_def ctrl bio_ctrl_def ctrl_commands observe length_ring_bytes ring_ok_def split: option.splits)+
qed

lemma pair_shutdown:
  assumes ok: "pair_ok h p q"
  shows "\<exists>h'. BIO_shutdown_wr E h p = Some (1, h') \<and> pair_ok h' p q \<and> wr_closed h' p \<and>
     wr_closed h' q = wr_closed h q \<and> pending h' p = pending h p \<and> pending h' q = pending h q \<and>
     capacity h' p = capacity h p \<and> capacity h' q = capacity h q \<and>
     requested h' p = requested h p \<and> requested h' q = requested h q"
proof (rule pair_okE [OF ok])
  fix x b y c
  assume x: "bio_at h p = Some x" "bio_method x = Some methods_biop" "bio_init x \<noteq> 0"
      "pair_at h (bio_ptr x) = Some b" "ring_ok b" "bb_peer b = q" "bb_request b \<le> bb_size b - bb_len b"
    and y: "bio_at h q = Some y" "bio_method y = Some methods_biop" "bio_init y \<noteq> 0"
      "pair_at h (bio_ptr y) = Some c" "ring_ok c" "bb_peer c = p" "bb_request c \<le> bb_size c - bb_len c"
    and ne: "bio_ptr x \<noteq> bio_ptr y" "p \<noteq> q" "p \<noteq> 0" "q \<noteq> 0" "bio_ptr x \<noteq> 0" "bio_ptr y \<noteq> 0"
  define h' where "h' = put_pair (bio_ptr x) (b\<lparr>bb_closed := 1\<rparr>) h"
  have "BIO_shutdown_wr E h p = Some (1, h')"
    using x(1,4) by (simp add: BIO_shutdown_wr_def ctrl_value_def pair_ctrl [OF ok] bio_ctrl_def ctrl_commands
        long_to_int_def h'_def)
  moreover have "pair_ok h' p q"
    using x y ne by (simp add: pair_ok_def half_ok_def h'_def)
  moreover have "wr_closed h' p \<and>
     wr_closed h' q = wr_closed h q \<and> pending h' p = pending h p \<and> pending h' q = pending h q \<and>
     capacity h' p = capacity h p \<and> capacity h' q = capacity h q \<and>
     requested h' p = requested h p \<and> requested h' q = requested h q"
    using x(1,4) y(1,4) ne by (simp add: h'_def observe)
  ultimately show ?thesis by blast
qed

section \<open>Histories\<close>

text \<open>A history is a sequence of operations on the two halves; it collects what each half accepted and what
  was read at each.\<close>

datatype pair_op = Write_op ptr "u8 list" | Read_op ptr nat | Shutdown_op ptr

fun op_side :: "pair_op \<Rightarrow> ptr" where
  "op_side (Write_op p bs) = p"
| "op_side (Read_op p n) = p"
| "op_side (Shutdown_op p) = p"

fun op_fits :: "pair_op \<Rightarrow> bool" where
  "op_fits (Write_op p bs) \<longleftrightarrow> length bs < 2 ^ 31"
| "op_fits (Read_op p n) \<longleftrightarrow> n < 2 ^ 31"
| "op_fits (Shutdown_op p) \<longleftrightarrow> True"

type_synonym history = "(ptr \<Rightarrow> u8 list) \<times> (ptr \<Rightarrow> u8 list)"

fun run_op :: "bio_env \<Rightarrow> pair_op \<Rightarrow> history \<times> bio_heap \<Rightarrow> (history \<times> bio_heap) option" where
  "run_op E (Write_op p bs) ((sent, got), h) = do {
     (r, h) \<leftarrow> BIO_write E h p (Some bs) (int (length bs));
     Some ((sent(p := sent p @ take (nat r) bs), got), h) }"
| "run_op E (Read_op p n) ((sent, got), h) = do {
     (r, bs, h) \<leftarrow> BIO_read E h p True (int n);
     Some ((sent, got(p := got p @ take (nat r) bs)), h) }"
| "run_op E (Shutdown_op p) (hist, h) = do { (_, h) \<leftarrow> BIO_shutdown_wr E h p; Some (hist, h) }"

fun run_ops :: "bio_env \<Rightarrow> pair_op list \<Rightarrow> history \<times> bio_heap \<Rightarrow> (history \<times> bio_heap) option" where
  "run_ops E [] s = Some s"
| "run_ops E (oper # opers) s = do { s \<leftarrow> run_op E oper s; run_ops E opers s }"

text \<open>In either direction, what was accepted is what was read, followed by what is pending.\<close>

definition fifo :: "ptr \<Rightarrow> ptr \<Rightarrow> history \<times> bio_heap \<Rightarrow> bool" where
  "fifo p q s = (case s of ((sent, got), h) \<Rightarrow> sent p = got q @ pending h p)"

lemma pair_write_0: "pair_ok h p q \<Longrightarrow> BIO_write E h p (Some []) 0 = Some (0, h)"
  by (auto elim!: pair_okE simp: BIO_write_def methods_biop_def)

lemma pair_read_0: "pair_ok h p q \<Longrightarrow> BIO_read E h q True 0 = Some (0, [], h)"
  by (auto elim!: pair_okE simp: BIO_read_def methods_biop_def)

lemma run_op_at:
  assumes ok: "pair_ok h p q" and side: "op_side oper = p" and fits: "op_fits oper"
    and f: "fifo p q ((sent, got), h)" "fifo q p ((sent, got), h)"
  shows "\<exists>s' h'. run_op E oper ((sent, got), h) = Some (s', h') \<and> pair_ok h' p q \<and>
     fifo p q (s', h') \<and> fifo q p (s', h') \<and>
     capacity h' p = capacity h p \<and> capacity h' q = capacity h q"
proof -
  have ne: "p \<noteq> q" using ok by (simp add: pair_ok_def)
  show ?thesis
  proof (cases oper)
    case (Write_op p' bs)
    then have p': "p' = p" and bs: "length bs < 2 ^ 31" using side fits by simp_all
    show ?thesis
    proof (cases "bs = []")
      case True
      then show ?thesis using ok f by (simp add: Write_op p' pair_write_0 fun_upd_idem)
    next
      case False
      obtain r h' where w: "BIO_write E h p (Some bs) (int (length bs)) = Some (r, h')" "pair_ok h' p q"
          "pending h' p = pending h p @ take (nat r) bs" "pending h' q = pending h q"
          "capacity h' p = capacity h p" "capacity h' q = capacity h q"
        using pair_write [OF ok, of bs E] False bs by auto
      then show ?thesis using f ne by (simp add: Write_op p' fifo_def)
    qed
  next
    case (Read_op p' n)
    then have p': "p' = p" and n: "n < 2 ^ 31" using side fits by simp_all
    show ?thesis
    proof (cases "n = 0")
      case True
      then show ?thesis using ok f by (simp add: Read_op p' pair_read_0 [OF pair_ok_sym] fun_upd_idem)
    next
      case False
      obtain r h' where w: "BIO_read E h p True (int n) = Some (r, take (nat r) (pending h q), h')" "pair_ok h' q p"
          "pending h' q = drop (nat r) (pending h q)" "pending h' p = pending h p"
          "capacity h' p = capacity h p" "capacity h' q = capacity h q"
        using pair_read [OF pair_ok_sym [OF ok], of n E] False n by auto
      then show ?thesis using f ne pair_ok_sym [OF w(2)] by (simp add: Read_op p' fifo_def)
    qed
  next
    case (Shutdown_op p')
    then have p': "p' = p" using side by simp
    obtain h' where "BIO_shutdown_wr E h p = Some (1, h')" "pair_ok h' p q"
        "pending h' p = pending h p" "pending h' q = pending h q"
        "capacity h' p = capacity h p" "capacity h' q = capacity h q"
      using pair_shutdown [OF ok, of E] by blast
    then show ?thesis using f by (simp add: Shutdown_op p' fifo_def)
  qed
qed

lemma run_op_pair:
  assumes ok: "pair_ok h p q" and side: "op_side oper \<in> {p, q}" and fits: "op_fits oper"
    and f: "fifo p q (s, h)" "fifo q p (s, h)"
  shows "\<exists>s' h'. run_op E oper (s, h) = Some (s', h') \<and> pair_ok h' p q \<and> fifo p q (s', h') \<and> fifo q p (s', h') \<and>
     capacity h' p = capacity h p \<and> capacity h' q = capacity h q"
proof -
  obtain sent got where s: "s = (sent, got)" by (cases s)
  show ?thesis
    using run_op_at [of h p q oper sent got E] run_op_at [of h q p oper sent got E] assms
      pair_ok_sym by (auto simp: s; blast)
qed

lemma run_ops_pair:
  assumes "pair_ok h p q" and "\<forall>oper \<in> set opers. op_side oper \<in> {p, q} \<and> op_fits oper"
    and "fifo p q (s, h)" "fifo q p (s, h)"
  shows "\<exists>s' h'. run_ops E opers (s, h) = Some (s', h') \<and> pair_ok h' p q \<and> fifo p q (s', h') \<and> fifo q p (s', h') \<and>
     capacity h' p = capacity h p \<and> capacity h' q = capacity h q"
  using assms
proof (induction opers arbitrary: s h)
  case (Cons oper opers)
  obtain s1 h1 where "run_op E oper (s, h) = Some (s1, h1)" "pair_ok h1 p q" "fifo p q (s1, h1)" "fifo q p (s1, h1)"
      "capacity h1 p = capacity h p" "capacity h1 q = capacity h q"
    using run_op_pair [of h p q oper s E] Cons.prems by auto
  then show ?case using Cons.IH [of h1 s1] Cons.prems(2) by simp
qed simp

end
