(* ===== verification/BioNewSpec.thy ===== *)
theory BioNewSpec
  imports BioPairSpec
begin

text \<open>
  Making a pair: \<open>BIO_new_bio_pair\<close> connects two new \<open>BIO\<close>s, or it undoes everything it did. The blocks that
  are allocated have addresses that are not in use.
\<close>

definition same_maps :: "bio_heap \<Rightarrow> bio_heap \<Rightarrow> bool" where
  "same_maps h h' \<longleftrightarrow> bh_bios h' = bh_bios h \<and> bh_pairs h' = bh_pairs h \<and> bh_bufs h' = bh_bufs h"

definition addr_free :: "bio_heap \<Rightarrow> ptr \<Rightarrow> bool" where
  "addr_free h a \<longleftrightarrow> a \<noteq> 0 \<and> bh_bios h a = None \<and> bh_pairs h a = None \<and> bh_bufs h a = None"

text \<open>The next \<open>n\<close> allocations.\<close>

definition fresh_addrs :: "bio_env \<Rightarrow> bio_heap \<Rightarrow> nat \<Rightarrow> bool" where
  "fresh_addrs E h n \<longleftrightarrow>
     distinct (map (be_addr E) [bh_allocs h..<bh_allocs h + n]) \<and>
     (\<forall>k \<in> set [bh_allocs h..<bh_allocs h + n]. addr_free h (be_addr E k))"

lemma fresh_addrs_free: "fresh_addrs E h n \<Longrightarrow> bh_allocs h \<le> k \<Longrightarrow> k < bh_allocs h + n \<Longrightarrow> addr_free h (be_addr E k)"
  by (simp add: fresh_addrs_def)

lemma fresh_addrs_ne:
  assumes f: "fresh_addrs E h n" and k: "bh_allocs h \<le> i" "i < j" "j < bh_allocs h + n"
  shows "be_addr E i \<noteq> be_addr E j"
proof -
  have "inj_on (be_addr E) (set [bh_allocs h..<bh_allocs h + n])"
    using f by (simp add: fresh_addrs_def distinct_map)
  then show ?thesis using k by (auto dest: inj_onD)
qed

lemma fresh_addrs_later:
  assumes f: "fresh_addrs E h n" and k: "bh_allocs h \<le> bh_allocs h'" "bh_allocs h' + l \<le> bh_allocs h + n"
    and free: "\<And>i. bh_allocs h' \<le> i \<Longrightarrow> i < bh_allocs h' + l \<Longrightarrow> addr_free h (be_addr E i) \<Longrightarrow> addr_free h' (be_addr E i)"
  shows "fresh_addrs E h' l"
proof -
  have "inj_on (be_addr E) (set [bh_allocs h..<bh_allocs h + n])"
    using f by (simp add: fresh_addrs_def distinct_map)
  then have "inj_on (be_addr E) (set [bh_allocs h'..<bh_allocs h' + l])"
    by (rule inj_on_subset) (use k in auto)
  moreover have "addr_free h' (be_addr E i)" if "bh_allocs h' \<le> i" "i < bh_allocs h' + l" for i
    using free [OF that] fresh_addrs_free [OF f, of i] that k by simp
  ultimately show ?thesis by (simp add: fresh_addrs_def distinct_map)
qed

definition new_bio :: "ptr \<Rightarrow> BIO" where
  "new_bio b =
     \<lparr>bio_method = Some methods_biop, bio_init = 0, bio_shutdown = 1, bio_flags = 0, bio_retry_reason = 0, bio_num = 0,
      bio_references = 1, bio_ptr = b, bio_next = 0, bio_num_read = 0, bio_num_write = 0\<rparr>"

definition new_half :: bio_bio_st where
  "new_half =
     \<lparr>bb_peer = 0, bb_closed = 0, bb_len = 0, bb_offset = 0, bb_size = 17 * 1024, bb_buf = None, bb_request = 0\<rparr>"

text \<open>The two outcomes of making one half.\<close>

lemma BIO_new_pair_half:
  assumes "fresh_addrs E h n" and "2 \<le> n"
  shows "(\<exists>h'. BIO_new E h methods_biop = Some (0, h') \<and> same_maps h h' \<and>
        bh_allocs h \<le> bh_allocs h' \<and> bh_allocs h' \<le> bh_allocs h + 2) \<or>
     (\<exists>h'. BIO_new E h methods_biop = Some (be_addr E (bh_allocs h), h') \<and>
        bh_bios h' = (bh_bios h)(be_addr E (bh_allocs h) \<mapsto> new_bio (be_addr E (Suc (bh_allocs h)))) \<and>
        bh_pairs h' = (bh_pairs h)(be_addr E (Suc (bh_allocs h)) \<mapsto> new_half) \<and> bh_bufs h' = bh_bufs h \<and>
        bh_allocs h' = bh_allocs h + 2)"
proof -
  let ?a = "be_addr E (bh_allocs h)"
  have a: "addr_free h ?a" using assms by (intro fresh_addrs_free) auto
  then have ne: "?a \<noteq> 0" "bh_bios h ?a = None" by (simp_all add: addr_free_def)
  show ?thesis
  proof (cases "fst (OPENSSL_malloc (be_malloc E) (bh_allocs h) sizeof_BIO)")
    case None
    then show ?thesis
      by (auto simp: BIO_new_def same_maps_def OPENSSL_malloc_def split: option.splits)
  next
    case (Some p)
    then have m1: "OPENSSL_malloc (be_malloc E) (bh_allocs h) sizeof_BIO = (Some p, Suc (bh_allocs h))"
      by (auto simp: OPENSSL_malloc_def split: option.splits)
    show ?thesis
    proof (cases "fst (OPENSSL_malloc (be_malloc E) (Suc (bh_allocs h)) sizeof_bio_bio_st)")
      case None
      then have m2: "OPENSSL_malloc (be_malloc E) (Suc (bh_allocs h)) sizeof_bio_bio_st = (None, Suc (Suc (bh_allocs h)))"
        by (auto simp: OPENSSL_malloc_def split: option.splits)
      show ?thesis
        using ne m1 m2
        by (auto simp: BIO_new_def methods_biop_def bio_new_def same_maps_def put_bio_def put_pair_def fun_upd_idem)
    next
      case (Some p2)
      then have m2: "OPENSSL_malloc (be_malloc E) (Suc (bh_allocs h)) sizeof_bio_bio_st = (Some p2, Suc (Suc (bh_allocs h)))"
        by (auto simp: OPENSSL_malloc_def split: option.splits)
      show ?thesis
        using ne m1 m2
        by (simp add: BIO_new_def methods_biop_def bio_new_def upd_bio_def new_bio_def new_half_def put_bio_def
            put_pair_def bio_at_def Let_def)
    qed
  qed
qed

text \<open>Freeing a half that is not connected.\<close>

lemma BIO_free_half:
  assumes "bh_bios h p = Some x" "p \<noteq> 0" "bio_references x = 1" "bio_next x = 0" "bio_method x = Some methods_biop"
    "bh_pairs h (bio_ptr x) = Some b" "bio_ptr x \<noteq> 0" "bb_peer b = 0"
  shows "\<exists>h'. BIO_free E h p = Some (1, h') \<and> bh_bios h' = (bh_bios h)(p := None) \<and>
     bh_pairs h' = (bh_pairs h)(bio_ptr x := None) \<and> bh_bufs h' = bh_bufs h"
proof -
  have dec: "CRYPTO_refcount_dec_and_test_zero 1 = Some (True, 0)"
    by (simp add: CRYPTO_refcount_dec_and_test_zero_def CRYPTO_REFCOUNT_MAX_def)
  have null: "BIO_free E h' 0 = Some (1, h')" for h' by (subst BIO_free.simps) simp
  show ?thesis
    using assms
    by (subst BIO_free.simps)
      (simp add: bio_at_def dec BIO_pop_def methods_biop_def bio_free_def put_bio_def pair_at_def null)
qed

text \<open>Connecting two halves that are not connected and have no buffers yet.\<close>

lemma make_buffer_new:
  fixes n :: nat
  assumes "pair_at h a = Some new_half"
  defines "b \<equiv> new_half\<lparr>bb_size := (if n = 0 then 17 * 1024 else n)\<rparr>"
  shows "make_buffer E h a n =
     (case OPENSSL_malloc (be_malloc E) (bh_allocs h) (bb_size b) of
        (None, k) \<Rightarrow> Some (False, put_pair a b (h\<lparr>bh_allocs := k\<rparr>))
      | (Some buf, k) \<Rightarrow> Some (True, put_pair a (b\<lparr>bb_buf := Some buf\<rparr>) (h\<lparr>bh_allocs := k\<rparr>)))"
  using assms
  by (cases "n = 0") (simp_all add: make_buffer_def new_half_def b_def split: prod.split option.split)

lemma make_pair_result:
  assumes m: "alloc_ok (be_malloc E)" and sz: "n1 + OPENSSL_MALLOC_PREFIX < 2 ^ 64" "n2 + OPENSSL_MALLOC_PREFIX < 2 ^ 64"
    and x: "bh_bios h p = Some (new_bio a)" "bh_pairs h a = Some new_half" "p \<noteq> 0" "a \<noteq> 0"
    and y: "bh_bios h q = Some (new_bio c)" "bh_pairs h c = Some new_half" "q \<noteq> 0" "c \<noteq> 0"
    and ne: "p \<noteq> q" "a \<noteq> c"
  shows "(\<exists>h' b1 b2. bio_make_pair E h p q n1 n2 = Some (0, h') \<and> bh_bios h' = bh_bios h \<and>
        bh_pairs h' = (bh_pairs h)(a \<mapsto> b1, c \<mapsto> b2) \<and> bh_bufs h' = bh_bufs h \<and> bb_peer b1 = 0 \<and> bb_peer b2 = 0) \<or>
     (\<exists>h'. bio_make_pair E h p q n1 n2 = Some (1, h') \<and> pair_ok h' p q \<and>
        pending h' p = [] \<and> pending h' q = [] \<and> \<not> wr_closed h' p \<and> \<not> wr_closed h' q \<and>
        capacity h' p = (if n1 = 0 then 17 * 1024 else n1) \<and> capacity h' q = (if n2 = 0 then 17 * 1024 else n2))"
proof -
  define s1 where "s1 = (if n1 = 0 then 17 * 1024 else n1)"
  define s2 where "s2 = (if n2 = 0 then 17 * 1024 else n2)"
  define b1 where "b1 = new_half\<lparr>bb_size := s1\<rparr>"
  define b2 where "b2 = new_half\<lparr>bb_size := s2\<rparr>"
  have s: "s1 + OPENSSL_MALLOC_PREFIX < 2 ^ 64" "s2 + OPENSSL_MALLOC_PREFIX < 2 ^ 64" "0 < s1" "0 < s2"
    using sz by (auto simp: s1_def s2_def OPENSSL_MALLOC_PREFIX_def)
  note half = make_buffer_new [of _ _ E n1, folded s1_def, folded b1_def] make_buffer_new [of _ _ E n2, folded s2_def, folded b2_def]
  have at: "bio_at h p = Some (new_bio a)" "bio_at h q = Some (new_bio c)" "bio_ptr (new_bio d) = d"
      "pair_at h a = Some new_half" "pair_at h c = Some new_half" "bb_peer new_half = 0" for d
    using x y by (simp_all add: bio_at_def pair_at_def new_bio_def new_half_def)
  have nb: "bb_buf new_half = None" "bb_size b1 = s1" "bb_size b2 = s2" "bb_peer b1 = 0" "bb_peer b2 = 0"
    by (simp_all add: b1_def b2_def new_half_def)
  obtain o1 k1 where m1: "OPENSSL_malloc (be_malloc E) (bh_allocs h) s1 = (o1, k1)" by fastforce
  obtain o2 k2 where m2: "OPENSSL_malloc (be_malloc E) k1 s2 = (o2, k2)" by fastforce
  show ?thesis
  proof (cases o1)
    case None
    have "bio_make_pair E h p q n1 n2 = Some (0, put_pair a b1 (h\<lparr>bh_allocs := k1\<rparr>))"
      by (simp add: bio_make_pair_def at nb half m1 None Let_def)
    moreover have "bh_pairs (put_pair a b1 (h\<lparr>bh_allocs := k1\<rparr>)) = (bh_pairs h)(a \<mapsto> b1, c \<mapsto> new_half)"
      using y(2) ne(2) by (auto simp: put_pair_def fun_eq_iff)
    ultimately show ?thesis
      using nb at by (intro disjI1 exI [of _ "put_pair a b1 (h\<lparr>bh_allocs := k1\<rparr>)"] exI [of _ b1] exI [of _ new_half])
        (simp add: put_pair_def)
  next
    case (Some buf1)
    have l1: "length buf1 = s1 \<and> s1 < 2 ^ 63"
      using OPENSSL_malloc_length [OF m s(1) m1 [unfolded Some]] by simp
    let ?b1 = "b1\<lparr>bb_buf := Some buf1\<rparr>"
    let ?h1 = "put_pair a ?b1 (h\<lparr>bh_allocs := k1\<rparr>)"
    have f1: "make_buffer E h a n1 = Some (True, ?h1)"
      by (simp add: half at nb m1 Some)
    have c1: "pair_at ?h1 c = Some new_half" "bh_allocs ?h1 = k1"
      using at x y ne by (simp_all add: put_pair_def pair_at_def)
    show ?thesis
    proof (cases o2)
      case None
      let ?h2 = "put_pair c b2 (?h1\<lparr>bh_allocs := k2\<rparr>)"
      have f2: "make_buffer E ?h1 c n2 = Some (False, ?h2)"
        using ne by (simp add: half at c1(2) nb m2 None)
      have "bio_make_pair E h p q n1 n2 = Some (0, ?h2)"
        by (simp add: bio_make_pair_def at nb f1 f2)
      then show ?thesis
        using nb by (intro disjI1 exI [of _ ?h2] exI [of _ ?b1] exI [of _ b2]) (simp add: put_pair_def)
    next
      case (Some buf2)
      have l2: "length buf2 = s2 \<and> s2 < 2 ^ 63"
        using OPENSSL_malloc_length [OF m s(2) m2 [unfolded Some]] by simp
      let ?b2 = "b2\<lparr>bb_buf := Some buf2\<rparr>"
      let ?h2 = "put_pair c ?b2 (?h1\<lparr>bh_allocs := k2\<rparr>)"
      have f2: "make_buffer E ?h1 c n2 = Some (True, ?h2)"
        using ne by (simp add: half at c1(2) nb m2 Some)
      let ?c1 = "?b1\<lparr>bb_peer := q, bb_closed := 0, bb_request := 0\<rparr>"
      let ?c2 = "?b2\<lparr>bb_peer := p, bb_closed := 0, bb_request := 0\<rparr>"
      define h' where "h' = put_bio q ((new_bio c)\<lparr>bio_init := 1\<rparr>) (put_bio p ((new_bio a)\<lparr>bio_init := 1\<rparr>)
          (put_pair c ?c2 (put_pair a ?c1 ?h2)))"
      have r: "bio_make_pair E h p q n1 n2 = Some (1, h')"
        using x y ne by (simp add: bio_make_pair_def at nb f1 f2 BIO_set_init_def upd_bio_def Let_def h'_def)
      have new: "bio_method (new_bio d) = Some methods_biop" for d by (simp add: new_bio_def)
      have half': "bb_len b1 = 0" "bb_len b2 = 0" "bb_offset b1 = 0" "bb_offset b2 = 0" "bb_closed b1 = 0" "bb_closed b2 = 0"
        by (simp_all add: b1_def b2_def new_half_def)
      have ring: "ring_ok ?c1" "ring_ok ?c2" "ring_bytes ?c1 = []" "ring_bytes ?c2 = []"
        using l1 l2 s nb half' by (simp_all add: ring_ok_def ring_bytes_def)
      have ends: "bio_at h' p = Some ((new_bio a)\<lparr>bio_init := 1\<rparr>)" "bio_at h' q = Some ((new_bio c)\<lparr>bio_init := 1\<rparr>)"
          "pair_at h' a = Some ?c1" "pair_at h' c = Some ?c2"
        using x(3,4) y(3,4) ne by (simp_all add: h'_def)
      have "pair_ok h' p q"
        using ne l1 l2 s by (simp add: pair_ok_def half_ok_def ends at new ring_ok_def nb half')
      moreover have "pending h' p = [] \<and> pending h' q = [] \<and> \<not> wr_closed h' p \<and> \<not> wr_closed h' q \<and>
          capacity h' p = s1 \<and> capacity h' q = s2"
        by (simp add: observe ends at ring_bytes_def half' nb)
      ultimately show ?thesis
        using r unfolding s1_def s2_def by blast
    qed
  qed
qed

lemma new_pair_cases:
  assumes m: "alloc_ok (be_malloc E)" and f: "fresh_addrs E h 4"
    and sz: "n1 + OPENSSL_MALLOC_PREFIX < 2 ^ 64" "n2 + OPENSSL_MALLOC_PREFIX < 2 ^ 64"
  shows "\<exists>r p q h'. BIO_new_bio_pair E h n1 n2 = Some (r, p, q, h') \<and>
     (r = 1 \<and> pair_ok h' p q \<and> pending h' p = [] \<and> pending h' q = [] \<and> \<not> wr_closed h' p \<and> \<not> wr_closed h' q \<and>
        capacity h' p = (if n1 = 0 then 17 * 1024 else n1) \<and> capacity h' q = (if n2 = 0 then 17 * 1024 else n2) \<or>
      r = 0 \<and> p = 0 \<and> q = 0 \<and> same_maps h h')"
proof -
  let ?k = "bh_allocs h"
  let ?p = "be_addr E ?k" and ?a = "be_addr E (Suc ?k)"
  have null: "BIO_free E h' 0 = Some (1, h')" for h' by (subst BIO_free.simps) simp
  have fields: "bio_references (new_bio d) = 1" "bio_next (new_bio d) = 0" "bio_method (new_bio d) = Some methods_biop"
      "bio_ptr (new_bio d) = d" "bb_peer new_half = 0" for d
    by (simp_all add: new_bio_def new_half_def)
  have free: "addr_free h (be_addr E (?k + i))" if "i < 4" for i
    using fresh_addrs_free [OF f, of "?k + i"] that by simp
  have ne: "be_addr E (?k + i) \<noteq> be_addr E (?k + j)" if "i < j" "j < 4" for i j
    using fresh_addrs_ne [OF f, of "?k + i" "?k + j"] that by simp
  show ?thesis
  proof (cases "\<exists>h1. BIO_new E h methods_biop = Some (0, h1) \<and> same_maps h h1 \<and> ?k \<le> bh_allocs h1 \<and> bh_allocs h1 \<le> ?k + 2")
    case True
    then obtain h1 where h1: "BIO_new E h methods_biop = Some (0, h1)" "same_maps h h1" "?k \<le> bh_allocs h1" "bh_allocs h1 \<le> ?k + 2"
      by blast
    have maps: "bh_bios h1 = bh_bios h" "bh_pairs h1 = bh_pairs h" "bh_bufs h1 = bh_bufs h"
      using h1(2) by (auto simp: same_maps_def)
    have f1: "fresh_addrs E h1 2"
      by (rule fresh_addrs_later [OF f h1(3)]) (use h1(4) in \<open>simp_all add: addr_free_def maps\<close>)
    from BIO_new_pair_half [OF f1 order_refl] show ?thesis
    proof (elim disjE exE conjE)
      fix h2 assume "BIO_new E h1 methods_biop = Some (0, h2)" "same_maps h1 h2"
      then show ?thesis using h1 maps by (simp add: BIO_new_bio_pair_def null same_maps_def)
    next
      fix h2
      let ?q = "be_addr E (bh_allocs h1)" and ?c = "be_addr E (Suc (bh_allocs h1))"
      assume h2: "BIO_new E h1 methods_biop = Some (?q, h2)" "bh_bios h2 = (bh_bios h1)(?q \<mapsto> new_bio ?c)"
        "bh_pairs h2 = (bh_pairs h1)(?c \<mapsto> new_half)" "bh_bufs h2 = bh_bufs h1"
      have "addr_free h1 ?q" "addr_free h1 ?c" using f1 by (auto intro!: fresh_addrs_free)
      then have fr: "?q \<noteq> 0" "?c \<noteq> 0" "bh_bios h ?q = None" "bh_pairs h ?c = None"
        by (simp_all add: addr_free_def maps)
      obtain h3 where "BIO_free E h2 ?q = Some (1, h3)" "bh_bios h3 = (bh_bios h2)(?q := None)"
          "bh_pairs h3 = (bh_pairs h2)(?c := None)" "bh_bufs h3 = bh_bufs h2"
        using BIO_free_half [of h2 ?q "new_bio ?c" new_half E] fields fr h2 by auto
      then show ?thesis
        using h1 h2 fr by (simp add: BIO_new_bio_pair_def null same_maps_def maps fun_upd_idem)
    qed
  next
    case False
    then obtain h1 where h1: "BIO_new E h methods_biop = Some (?p, h1)"
        "bh_bios h1 = (bh_bios h)(?p \<mapsto> new_bio ?a)" "bh_pairs h1 = (bh_pairs h)(?a \<mapsto> new_half)" "bh_bufs h1 = bh_bufs h"
        "bh_allocs h1 = ?k + 2"
      using BIO_new_pair_half [OF f] by auto
    let ?q = "be_addr E (?k + 2)" and ?c = "be_addr E (Suc (?k + 2))"
    have fr: "?p \<noteq> 0" "?a \<noteq> 0" "?q \<noteq> 0" "?c \<noteq> 0" "bh_bios h ?p = None" "bh_pairs h ?a = None"
        "bh_bios h ?q = None" "bh_pairs h ?c = None"
      using free [of 0] free [of 1] free [of 2] free [of 3] by (simp_all add: addr_free_def numeral_3_eq_3)
    have ne': "?p \<noteq> ?q" "?a \<noteq> ?c"
      using ne [of 0 2] ne [of 1 3] by (simp_all add: numeral_3_eq_3)
    have f1: "fresh_addrs E h1 2"
    proof (rule fresh_addrs_later [OF f])
      fix i assume i: "bh_allocs h1 \<le> i" "i < bh_allocs h1 + 2" "addr_free h (be_addr E i)"
      have "be_addr E i \<noteq> ?p" "be_addr E i \<noteq> ?a"
        using fresh_addrs_ne [OF f, of ?k i] fresh_addrs_ne [OF f, of "Suc ?k" i] i(1,2) h1(5) by auto
      then show "addr_free h1 (be_addr E i)" using i(3) by (simp add: addr_free_def h1)
    qed (simp_all add: h1)
    have free_p: "\<exists>h3. BIO_free E h2 ?p = Some (1, h3) \<and> bh_bios h3 = (bh_bios h2)(?p := None) \<and>
        bh_pairs h3 = (bh_pairs h2)(?a := None) \<and> bh_bufs h3 = bh_bufs h2"
      if "bh_bios h2 ?p = Some (new_bio ?a)" "bh_pairs h2 ?a = Some b" "bb_peer b = 0" for h2 b
      using BIO_free_half [of h2 ?p "new_bio ?a" b E] that fields fr by simp
    from BIO_new_pair_half [OF f1 order_refl] show ?thesis
    proof (elim disjE exE conjE)
      fix h2 assume h2: "BIO_new E h1 methods_biop = Some (0, h2)" "same_maps h1 h2"
      have maps: "bh_bios h2 = bh_bios h1" "bh_pairs h2 = bh_pairs h1" "bh_bufs h2 = bh_bufs h1"
        using h2(2) by (auto simp: same_maps_def)
      obtain h3 where "BIO_free E h2 ?p = Some (1, h3)" "bh_bios h3 = (bh_bios h2)(?p := None)"
          "bh_pairs h3 = (bh_pairs h2)(?a := None)" "bh_bufs h3 = bh_bufs h2"
        using free_p [of h2 new_half] by (auto simp: maps h1 fields)
      then show ?thesis
        using h1 h2 fr by (simp add: BIO_new_bio_pair_def null same_maps_def maps fun_upd_idem)
    next
      fix h2
      assume "BIO_new E h1 methods_biop = Some (be_addr E (bh_allocs h1), h2)"
        "bh_bios h2 = (bh_bios h1)(be_addr E (bh_allocs h1) \<mapsto> new_bio (be_addr E (Suc (bh_allocs h1))))"
        "bh_pairs h2 = (bh_pairs h1)(be_addr E (Suc (bh_allocs h1)) \<mapsto> new_half)" "bh_bufs h2 = bh_bufs h1"
      then have h2: "BIO_new E h1 methods_biop = Some (?q, h2)" "bh_bios h2 = (bh_bios h1)(?q \<mapsto> new_bio ?c)"
          "bh_pairs h2 = (bh_pairs h1)(?c \<mapsto> new_half)" "bh_bufs h2 = bh_bufs h1"
        by (simp_all add: h1(5))
      have at: "bh_bios h2 ?p = Some (new_bio ?a)" "bh_pairs h2 ?a = Some new_half"
          "bh_bios h2 ?q = Some (new_bio ?c)" "bh_pairs h2 ?c = Some new_half"
        using ne' by (simp_all add: h2 h1)
      from make_pair_result [OF m sz at(1,2) fr(1,2) at(3,4) fr(3,4) ne'] show ?thesis
      proof (elim disjE exE conjE)
        fix h3 b1 b2
        assume h3: "bio_make_pair E h2 ?p ?q n1 n2 = Some (0, h3)" "bh_bios h3 = bh_bios h2"
          "bh_pairs h3 = (bh_pairs h2)(?a \<mapsto> b1, ?c \<mapsto> b2)" "bh_bufs h3 = bh_bufs h2" "bb_peer b1 = 0" "bb_peer b2 = 0"
        obtain h4 where h4: "BIO_free E h3 ?p = Some (1, h4)" "bh_bios h4 = (bh_bios h3)(?p := None)"
            "bh_pairs h4 = (bh_pairs h3)(?a := None)" "bh_bufs h4 = bh_bufs h3"
          using free_p [of h3 b1] ne' at(1) h3 by auto
        obtain h5 where h5: "BIO_free E h4 ?q = Some (1, h5)" "bh_bios h5 = (bh_bios h4)(?q := None)"
            "bh_pairs h5 = (bh_pairs h4)(?c := None)" "bh_bufs h5 = bh_bufs h4"
          using BIO_free_half [of h4 ?q "new_bio ?c" b2 E] ne' at(3) h3 h4 fields fr by auto
        have "same_maps h h5"
          using fr by (auto simp: same_maps_def h5 h4 h3 h2 h1 fun_eq_iff)
        then show ?thesis
          using h1(1) h2(1) h3(1) h4(1) h5(1) fr by (simp add: BIO_new_bio_pair_def)
      next
        fix h3 assume "bio_make_pair E h2 ?p ?q n1 n2 = Some (1, h3)" "pair_ok h3 ?p ?q"
          "pending h3 ?p = []" "pending h3 ?q = []" "\<not> wr_closed h3 ?p" "\<not> wr_closed h3 ?q"
          "capacity h3 ?p = (if n1 = 0 then 17 * 1024 else n1)" "capacity h3 ?q = (if n2 = 0 then 17 * 1024 else n2)"
        then show ?thesis
          using h1(1) h2(1) fr by (simp add: BIO_new_bio_pair_def)
      qed
    qed
  qed
qed

end
