(* ===== verification/BioSources.thy ===== *)
theory BioSources
  imports BioReadSpec BioNewSpec
begin

text \<open>
  The sources of bytes of the program: memory BIOs and the halves of pairs satisfy the locale
  \<open>byte_source\<close>, and so does a method of a client that hands a memory out in pieces of any size, so that what it says of reading a number of bytes, everything, or an ASN.1 object holds
  for them.
\<close>

section \<open>Memory\<close>

text \<open>A BIO of the method \<open>mt\<close> whose state is a memory; \<open>mem_ok\<close> are those of \<open>bio_mem.c\<close>.\<close>

definition memory_ok :: "BIO_METHOD \<Rightarrow> bio_heap \<Rightarrow> ptr \<Rightarrow> bool" where
  "memory_ok mt h bio \<longleftrightarrow>
     (case bio_at h bio of
        None \<Rightarrow> False
      | Some x \<Rightarrow>
          bio_method x = Some mt \<and> bio_init x \<noteq> 0 \<and> bio_num x \<le> 0 \<and>
          (case buf_at h (bio_ptr x) of
             None \<Rightarrow> False
           | Some b \<Rightarrow> bm_length b \<le> length (buf_block b) \<and> length (buf_block b) < 2 ^ 63))"

abbreviation mem_ok :: "bio_heap \<Rightarrow> ptr \<Rightarrow> bool" where
  "mem_ok \<equiv> memory_ok mem_method"

definition mem_content :: "bio_heap \<Rightarrow> ptr \<Rightarrow> u8 list" where
  "mem_content h bio =
     (case bio_at h bio of
        None \<Rightarrow> []
      | Some x \<Rightarrow> (case buf_at h (bio_ptr x) of None \<Rightarrow> [] | Some b \<Rightarrow> buf_bytes b))"

definition mem_eof :: "bio_heap \<Rightarrow> ptr \<Rightarrow> int" where
  "mem_eof h bio = (case bio_at h bio of None \<Rightarrow> 0 | Some x \<Rightarrow> bio_num x)"

lemma memory_okE:
  assumes "memory_ok mt h bio"
  obtains x b where "bio_at h bio = Some x" "bio_method x = Some mt" "bio_init x \<noteq> 0" "bio_num x \<le> 0"
    "buf_at h (bio_ptr x) = Some b" "bm_length b \<le> length (buf_block b)" "length (buf_block b) < 2 ^ 63"
    "bio \<noteq> 0" "bio_ptr x \<noteq> 0"
  using assms by (auto simp: memory_ok_def split: option.splits dest: heap_at_nonnull)

text \<open>Taking bytes off the front, by moving the pointer or by moving the rest.\<close>

lemma mem_take_result:
  assumes "0 < n" and "n \<le> bm_length b" and "bm_length b \<le> length (buf_block b)" and "length (buf_block b) < 2 ^ 63"
  shows "\<exists>b'. mem_take rdonly n b = Some (take n (buf_bytes b), b') \<and> buf_bytes b' = drop n (buf_bytes b) \<and>
     bm_length b' \<le> length (buf_block b') \<and> length (buf_block b') < 2 ^ 63"
proof -
  obtain d where d: "bm_data b = Some d" using assms by (cases "bm_data b") (auto simp: buf_block_def)
  have len: "szsub (bm_length b) n = bm_length b - n" using assms by simp
  show ?thesis
    using assms by (cases rdonly)
      (auto simp: mem_take_def d len Let_def buf_block_def buf_bytes_def overwrite_def drop_take min_def)
qed

text \<open>Reading with a method that takes \<open>piece\<close> of the \<open>n\<close> bytes that are asked for.\<close>

lemma memory_read_some:
  assumes ok: "memory_ok mt h bio" and some: "mem_content h bio \<noteq> []"
    and piece: "0 < piece" "piece \<le> n" "piece < 2 ^ 31"
    and mt: "mt_bread mt \<noteq> Null_fn" "call_bread E (mt_bread mt) h bio True (int n) = mem_read h bio True (int piece)"
  shows "\<exists>k h'. 0 < k \<and> k \<le> n \<and> k \<le> length (mem_content h bio) \<and>
     BIO_read E h bio True (int n) = Some (int k, take k (mem_content h bio), h') \<and>
     memory_ok mt h' bio \<and> mem_content h' bio = drop k (mem_content h bio) \<and> mem_eof h' bio = mem_eof h bio"
proof (rule memory_okE [OF ok])
  fix x b
  assume x: "bio_at h bio = Some x" "bio_method x = Some mt" "bio_init x \<noteq> 0" "bio_num x \<le> 0"
    "buf_at h (bio_ptr x) = Some b" "bm_length b \<le> length (buf_block b)" "length (buf_block b) < 2 ^ 63"
    "bio \<noteq> 0" "bio_ptr x \<noteq> 0"
  have content: "mem_content h bio = buf_bytes b" "length (buf_bytes b) = bm_length b"
    using x by (simp_all add: mem_content_def buf_bytes_def)
  define k where "k = min piece (bm_length b)"
  have "0 < length (buf_bytes b)" using some content(1) by simp
  then have k: "0 < k" "k \<le> n" "k \<le> bm_length b" "k < 2 ^ 63"
    using piece content(2) by (auto simp: k_def)
  have ret: "(if bm_length b < INT_MAX \<and> int piece > size_to_int (bm_length b) then size_to_int (bm_length b) else int piece) = int k"
    using piece by (auto simp: k_def INT_MAX_def)
  obtain b' where b': "mem_take (is_rdonly x) k b = Some (take k (buf_bytes b), b')" "buf_bytes b' = drop k (buf_bytes b)"
      "bm_length b' \<le> length (buf_block b')" "length (buf_block b') < 2 ^ 63"
    using mem_take_result [OF k(1,3) x(6,7)] by blast
  define x' where "x' = (clear_retry_flags x)\<lparr>bio_num_read := szadd (bio_num_read (clear_retry_flags x)) k\<rparr>"
  have x': "bio_method x' = Some mt" "bio_init x' \<noteq> 0" "bio_num x' = bio_num x" "bio_ptr x' = bio_ptr x"
    using x by (simp_all add: x'_def)
  define h' where "h' = put_bio bio x' (put_buf (bio_ptr x) b' (put_bio bio (clear_retry_flags x) h))"
  have "mem_read h bio True (int piece) =
      Some (int k, take k (buf_bytes b), put_buf (bio_ptr x) b' (put_bio bio (clear_retry_flags x) h))"
    using x k b'(1) by (simp only: mem_read_def bio_steps Option.bind.bind_lunit Let_def ret) simp
  then have "BIO_read E h bio True (int n) = Some (int k, take k (buf_bytes b), h')"
    using x piece k mt by (simp add: BIO_read_def bio_steps h'_def x'_def)
  moreover have "memory_ok mt h' bio \<and> mem_content h' bio = drop k (buf_bytes b) \<and> mem_eof h' bio = mem_eof h bio"
    using x x' b' by (simp add: memory_ok_def mem_content_def mem_eof_def h'_def)
  ultimately show ?thesis using k content by auto
qed

lemma memory_read_end:
  assumes ok: "memory_ok mt h bio" and none: "mem_content h bio = []"
    and piece: "0 < piece" "piece \<le> n" "piece < 2 ^ 31"
    and mt: "mt_bread mt \<noteq> Null_fn" "call_bread E (mt_bread mt) h bio True (int n) = mem_read h bio True (int piece)"
  shows "\<exists>h'. BIO_read E h bio True (int n) = Some (mem_eof h bio, [], h') \<and>
     memory_ok mt h' bio \<and> mem_content h' bio = [] \<and> mem_eof h' bio = mem_eof h bio"
proof (rule memory_okE [OF ok])
  fix x b
  assume x: "bio_at h bio = Some x" "bio_method x = Some mt" "bio_init x \<noteq> 0" "bio_num x \<le> 0"
    "buf_at h (bio_ptr x) = Some b" "bm_length b \<le> length (buf_block b)" "length (buf_block b) < 2 ^ 63"
    "bio \<noteq> 0" "bio_ptr x \<noteq> 0"
  have empty: "bm_length b = 0" "buf_bytes b = []"
    using x none by (auto simp: mem_content_def buf_bytes_def)
  define x' where "x' = (if bio_num x \<noteq> 0 then set_flags (BIO_FLAGS_READ OR BIO_FLAGS_SHOULD_RETRY) (clear_retry_flags x)
      else clear_retry_flags x)"
  define h' where "h' = put_bio bio x' (put_bio bio (clear_retry_flags x) h)"
  have h': "h' = (if bio_num x \<noteq> 0 then put_bio bio x' (put_bio bio (clear_retry_flags x) h) else put_bio bio (clear_retry_flags x) h)"
    by (simp add: h'_def x'_def put_bio_def)
  have x': "bio_method x' = Some mt" "bio_init x' \<noteq> 0" "bio_num x' = bio_num x" "bio_ptr x' = bio_ptr x"
    using x by (simp_all add: x'_def)
  have "mem_read h bio True (int piece) = Some (bio_num x, [], h')"
    unfolding h' using x piece by (auto simp: mem_read_def bio_steps empty INT_MAX_def x'_def)
  then have "BIO_read E h bio True (int n) = Some (mem_eof h bio, [], h')"
    using x piece mt by (simp add: BIO_read_def count_read_def mem_eof_def)
  moreover have "memory_ok mt h' bio \<and> mem_content h' bio = [] \<and> mem_eof h' bio = mem_eof h bio"
    using x x' empty by (simp add: memory_ok_def mem_content_def mem_eof_def h'_def)
  ultimately show ?thesis by blast
qed

lemma mem_allocs:
  "memory_ok mt (h\<lparr>bh_allocs := k\<rparr>) bio = memory_ok mt h bio"
  "mem_content (h\<lparr>bh_allocs := k\<rparr>) bio = mem_content h bio"
  "mem_eof (h\<lparr>bh_allocs := k\<rparr>) bio = mem_eof h bio"
  by (simp_all add: memory_ok_def mem_content_def mem_eof_def cong: option.case_cong)

text \<open>Whatever the sizes of the pieces, such a method is a source of bytes.\<close>

lemma pieces_source:
  assumes mt: "mt_bread mt \<noteq> Null_fn"
    and read: "\<And>h n. 0 < n \<Longrightarrow> n < 2 ^ 31 \<Longrightarrow>
      \<exists>piece. 0 < piece \<and> piece \<le> n \<and> call_bread E (mt_bread mt) h bio True (int n) = mem_read h bio True (int piece)"
  shows "byte_source E bio (\<lambda>h. memory_ok mt h bio) (\<lambda>h. mem_content h bio) (\<lambda>h. mem_eof h bio)"
proof unfold_locales
  show "mem_eof h bio \<le> 0" if "memory_ok mt h bio" for h
    using that by (rule memory_okE) (simp add: mem_eof_def)
next
  fix h and n :: nat
  assume h: "memory_ok mt h bio" "mem_content h bio \<noteq> []" and n: "0 < n" "n < 2 ^ 31"
  from read [OF n, of h] obtain piece where piece: "0 < piece" "piece \<le> n" "piece < 2 ^ 31"
      "call_bread E (mt_bread mt) h bio True (int n) = mem_read h bio True (int piece)"
    using n(2) by (auto intro: le_less_trans)
  show "\<exists>k h'. 0 < k \<and> k \<le> n \<and> k \<le> length (mem_content h bio) \<and>
      BIO_read E h bio True (int n) = Some (int k, take k (mem_content h bio), h') \<and>
      memory_ok mt h' bio \<and> mem_content h' bio = drop k (mem_content h bio) \<and> mem_eof h' bio = mem_eof h bio"
    by (rule memory_read_some [OF h piece(1-3) mt piece(4)])
next
  fix h and n :: nat
  assume h: "memory_ok mt h bio" "mem_content h bio = []" and n: "0 < n" "n < 2 ^ 31"
  from read [OF n, of h] obtain piece where piece: "0 < piece" "piece \<le> n" "piece < 2 ^ 31"
      "call_bread E (mt_bread mt) h bio True (int n) = mem_read h bio True (int piece)"
    using n(2) by (auto intro: le_less_trans)
  show "\<exists>h'. BIO_read E h bio True (int n) = Some (mem_eof h bio, [], h') \<and>
      memory_ok mt h' bio \<and> mem_content h' bio = [] \<and> mem_eof h' bio = mem_eof h bio"
    by (rule memory_read_end [OF h piece(1-3) mt piece(4)])
qed (rule mem_allocs)+

interpretation mem_source: byte_source E bio "\<lambda>h. mem_ok h bio" "\<lambda>h. mem_content h bio" "\<lambda>h. mem_eof h bio" for E bio
  by (rule pieces_source) (auto simp: mem_method_def)

text \<open>An end-of-file value below \<open>- 1\<close>, as a client may set it, makes the loop of \<open>bio_read_all\<close> go back.\<close>

lemma mem_read_all_goes_back:
  assumes "mem_ok h bio" and "mem_content h bio = []" and "mem_eof h bio < - 1"
    and "done \<noteq> max_len" and "0 < szsub max_len done" and "szsub max_len done < INT_MAX"
  shows "\<exists>h'. read_all_loop E h bio out max_len done max_len =
     read_all_loop E h' bio out max_len (szadd done (int_to_size (mem_eof h bio))) max_len \<and>
     mem_ok h' bio \<and> mem_content h' bio = [] \<and> mem_eof h' bio = mem_eof h bio"
  using assms by (rule mem_source.read_all_goes_back)

section \<open>Halves of pairs\<close>

lemma pair_ok_allocs: "pair_ok (h\<lparr>bh_allocs := k\<rparr>) p q = pair_ok h p q"
  by (simp add: pair_ok_def half_ok_def cong: option.case_cong)

lemma pending_allocs: "pending (h\<lparr>bh_allocs := k\<rparr>) p = pending h p" "wr_closed (h\<lparr>bh_allocs := k\<rparr>) p = wr_closed h p"
  by (simp_all add: observe cong: option.case_cong)

interpretation peer_source: byte_source E q "\<lambda>h. pair_ok h p q" "\<lambda>h. pending h p" "\<lambda>h. if wr_closed h p then 0 else - 1"
  for E p q
proof unfold_locales
  fix h and n :: nat
  assume ok: "pair_ok h p q" "pending h p \<noteq> []" "0 < n" "n < 2 ^ 31"
  let ?k = "min n (length (pending h p))"
  from pair_read [OF ok(1,3,4), of E] ok(2) obtain h' where
    "BIO_read E h q True (int n) = Some (int ?k, take ?k (pending h p), h')" "pair_ok h' p q"
    "pending h' p = drop ?k (pending h p)" "wr_closed h' p = wr_closed h p"
    by auto
  moreover have "0 < ?k" "?k \<le> n" "?k \<le> length (pending h p)" using ok by auto
  ultimately show "\<exists>k h'. 0 < k \<and> k \<le> n \<and> k \<le> length (pending h p) \<and>
      BIO_read E h q True (int n) = Some (int k, take k (pending h p), h') \<and> pair_ok h' p q \<and>
      pending h' p = drop k (pending h p) \<and> (if wr_closed h' p then 0 else - 1) = ((if wr_closed h p then 0 else - 1) :: int)"
    by (intro exI [of _ ?k] exI [of _ h']) simp
next
  fix h and n :: nat
  assume ok: "pair_ok h p q" "pending h p = []" "0 < n" "n < 2 ^ 31"
  from pair_read [OF ok(1,3,4), of E] obtain r h' where
    "BIO_read E h q True (int n) = Some (r, take (nat r) (pending h p), h')" "pair_ok h' p q"
    "r = (if wr_closed h p then 0 else - 1)" "pending h' p = drop (nat r) (pending h p)" "wr_closed h' p = wr_closed h p"
    unfolding ok(2) by (simp only: simp_thms if_True if_False) blast
  then show "\<exists>h'. BIO_read E h q True (int n) = Some (if wr_closed h p then 0 else - 1, [], h') \<and> pair_ok h' p q \<and>
      pending h' p = [] \<and> (if wr_closed h' p then 0 else - 1) = ((if wr_closed h p then 0 else - 1) :: int)"
    by (intro exI [of _ h']) (simp add: ok(2))
qed (simp_all add: pair_ok_allocs pending_allocs)

section \<open>The element that is read\<close>

text \<open>What \<open>BIO_read_asn1\<close> finds is what the reader of \<open>cbs.c\<close> finds in the same bytes.\<close>

lemma definite_header_element:
  assumes "\<not> long_form_tag bs"
  shows "case definite_header bs of
      Some (tot, hl) \<Rightarrow>
        if tot \<le> length bs
        then \<exists>tag. CBS_get_any_asn1_element bs = (Some (take tot bs, tag, hl), drop tot bs)
        else CBS_get_any_asn1_element bs = (None, bs)
    | None \<Rightarrow> CBS_get_any_asn1_element bs = (None, bs)"
proof (cases "length bs < 2")
  case True
  have "asn1_header bs False = None"
    using True by (cases bs) (auto simp: asn1_header_def parse_asn1_tag_Cons parse_base128_integer_def split: prod.splits option.splits if_splits)
  moreover have "definite_header bs = None"
    using True by (auto simp: definite_header_def split: list.splits)
  ultimately show ?thesis by (simp add: CBS_get_any_asn1_element_def cbs_element_header)
next
  case False
  then obtain t lb rest where bs: "bs = t # lb # rest"
    by (metis One_nat_def Suc_1 length_Cons less_Suc_eq_0_disj list.size(3) neq_Nil_conv not_less_eq zero_less_Suc)
  have "unat t mod 32 \<noteq> 31" using assms by (simp add: bs long_form_tag_def low_tag_iff)
  from asn1_header_definite [OF this, of lb rest]
  have "definite_header bs = map_option (\<lambda>(tot, tag, hl). (tot, hl)) (asn1_header bs False)"
    by (simp add: bs)
  then show ?thesis
    by (auto simp: CBS_get_any_asn1_element_def cbs_element_header split: option.splits)
qed

context byte_source
begin

lemma read_asn1_element:
  assumes ok: "source_ok h" and m: "alloc_ok (be_malloc E)"
    and av: "alloc_avail (be_malloc E) limit" "max_len + OPENSSL_MALLOC_PREFIX \<le> limit" "limit < 2 ^ 64"
    and header: "length header = 6" and form: "\<not> long_form_tag (content h)" "\<not> indefinite_length (content h)"
  shows "\<exists>r h'. BIO_read_asn1 E h bio header max_len = Some (r, h') \<and>
     (case CBS_get_any_asn1_element (content h) of
        (None, _) \<Rightarrow> \<exists>e. r = Inl e
      | (Some (element, tag, header_len), rest) \<Rightarrow>
          if length element \<le> max_len \<and> length element - header_len \<le> INT_MAX
          then r = Inr (element, length element) \<and> content h' = rest
          else \<exists>e. r = Inl e)"
  using read_asn1_definite [OF assms] definite_header_element [OF form(1)]
  by (fastforce split: option.splits if_splits)

end

end
