(* ===== verification/BioProperties.thy ===== *)
theory BioProperties
  imports BioSources Concrete
begin

text \<open>
  The properties of the BIO layer (\<open>crypto/bio/bio.c\<close>, \<open>pair.c\<close>, \<open>bio_mem.c\<close>), each with an instance at concrete
  BIOs.
\<close>

section \<open>A concrete environment\<close>

text \<open>The \<open>k\<close>-th block is at the address \<open>k + 1\<close>; there are no functions of a client.\<close>

definition demo_env :: bio_env where
  "demo_env =
     \<lparr>be_malloc = zeroed, be_addr = (\<lambda>k. of_nat (k + 1)), be_write = (\<lambda>_ _ _ _ _. None), be_read = (\<lambda>_ _ _ _ _. None),
      be_gets = (\<lambda>_ _ _ _ _. None), be_ctrl = (\<lambda>_ _ _ _ _ _. None), be_create = (\<lambda>_ _ _. None),
      be_destroy = (\<lambda>_ _ _. None), be_callback_ctrl = (\<lambda>_ _ _ _ _. None)\<rparr>"

definition empty_heap :: bio_heap where
  "empty_heap = \<lparr>bh_bios = (\<lambda>_. None), bh_pairs = (\<lambda>_. None), bh_bufs = (\<lambda>_. None), bh_allocs = 0\<rparr>"

lemma demo_malloc: "be_malloc demo_env = zeroed"
  by (simp add: demo_env_def)

lemma demo_fresh: "fresh_addrs demo_env empty_heap 4"
  by code_simp

definition demo_pair :: "(int \<times> ptr \<times> ptr \<times> bio_heap) option" where
  "demo_pair = BIO_new_bio_pair demo_env empty_heap 3 2"

lemma demo_pair_made: "\<exists>h. demo_pair = Some (1, 1, 3, h)"
proof -
  have "map_option (\<lambda>(r, p, q, h). (r, p, q)) demo_pair = Some (1, 1, 3)" by code_simp
  then show ?thesis by auto
qed

section \<open>Pairs\<close>

text \<open>C11: A BIO pair carries bytes in order, without loss. After any sequence of writes, reads and shutdowns on
  the two halves of a new pair, none of which goes wrong, the bytes that one half has accepted are those that
  were read from the other, followed by those that wait in the ring buffer, and these are never more than
  the buffer that was asked for (17 KiB by default).\<close>

theorem pair_is_fifo:
  assumes "alloc_ok (be_malloc E)" and "fresh_addrs E h 4"
    and "n1 + OPENSSL_MALLOC_PREFIX < 2 ^ 64" and "n2 + OPENSSL_MALLOC_PREFIX < 2 ^ 64"
    and "BIO_new_bio_pair E h n1 n2 = Some (1, p, q, h0)"
    and "\<forall>oper \<in> set opers. op_side oper \<in> {p, q} \<and> op_fits oper"
  shows "\<exists>sent got h'. run_ops E opers (((\<lambda>_. []), (\<lambda>_. [])), h0) = Some ((sent, got), h') \<and>
     sent p = got q @ pending h' p \<and> sent q = got p @ pending h' q \<and>
     length (pending h' p) \<le> (if n1 = 0 then 17 * 1024 else n1) \<and>
     length (pending h' q) \<le> (if n2 = 0 then 17 * 1024 else n2)"
proof -
  have new: "pair_ok h0 p q" "pending h0 p = []" "pending h0 q = []"
      "capacity h0 p = (if n1 = 0 then 17 * 1024 else n1)" "capacity h0 q = (if n2 = 0 then 17 * 1024 else n2)"
    using new_pair_cases [OF assms(1-4)] assms(5) by auto
  then have "fifo p q (((\<lambda>_. []), (\<lambda>_. [])), h0)" "fifo q p (((\<lambda>_. []), (\<lambda>_. [])), h0)"
    by (simp_all add: fifo_def)
  from run_ops_pair [OF new(1) assms(6) this] obtain s h' where r: "run_ops E opers (((\<lambda>_. []), (\<lambda>_. [])), h0) = Some (s, h')"
      "pair_ok h' p q" "fifo p q (s, h')" "fifo q p (s, h')" "capacity h' p = capacity h0 p" "capacity h' q = capacity h0 q"
    by blast
  obtain sent got where s: "s = (sent, got)" by (cases s)
  have "sent p = got q @ pending h' p" "sent q = got p @ pending h' q" using r(3,4) by (simp_all add: s fifo_def)
  moreover have "length (pending h' p) \<le> capacity h' p" "length (pending h' q) \<le> capacity h' q"
    by (rule pending_le_capacity [OF r(2)], rule pending_le_capacity [OF pair_ok_sym [OF r(2)]])
  ultimately show ?thesis using r(1,5,6) new(4,5) by (simp add: s)
qed

definition demo_ops :: "pair_op list" where
  "demo_ops = [Read_op 3 4, Write_op 1 [1, 2], Read_op 3 1, Write_op 1 [3, 4, 5], Write_op 3 [6], Shutdown_op 1,
     Write_op 1 [7], Read_op 3 2]"

theorem pair_is_fifo_witness:
  "\<exists>h0 sent got h'. demo_pair = Some (1, 1, 3, h0) \<and>
     run_ops demo_env demo_ops (((\<lambda>_. []), (\<lambda>_. [])), h0) = Some ((sent, got), h') \<and>
     sent 1 = got 3 @ pending h' 1 \<and> sent 3 = got 1 @ pending h' 3 \<and>
     length (pending h' 1) \<le> 3 \<and> length (pending h' 3) \<le> 2"
proof -
  obtain h0 where h0: "demo_pair = Some (1, 1, 3, h0)" using demo_pair_made by blast
  have "\<forall>oper \<in> set demo_ops. op_side oper \<in> {1, 3} \<and> op_fits oper" by (simp add: demo_ops_def)
  with h0 show ?thesis
    using pair_is_fifo [of demo_env empty_heap 3 2 1 3 h0 demo_ops] demo_fresh zeroed_ok
    by (simp add: demo_malloc OPENSSL_MALLOC_PREFIX_def demo_pair_def)
qed

text \<open>C39: \<open>BIO_new_bio_pair\<close> makes a connected pair with empty buffers of the sizes asked for, or it fails and
  leaves nothing behind: all \<open>BIO\<close>s and halves that it has made are freed, whichever allocation fails.\<close>

theorem new_pair_or_nothing:
  assumes "alloc_ok (be_malloc E)" and "fresh_addrs E h 4"
    and "n1 + OPENSSL_MALLOC_PREFIX < 2 ^ 64" and "n2 + OPENSSL_MALLOC_PREFIX < 2 ^ 64"
  shows "\<exists>r p q h'. BIO_new_bio_pair E h n1 n2 = Some (r, p, q, h') \<and>
     (r = 1 \<and> pair_ok h' p q \<and> pending h' p = [] \<and> pending h' q = [] \<and> \<not> wr_closed h' p \<and> \<not> wr_closed h' q \<and>
        capacity h' p = (if n1 = 0 then 17 * 1024 else n1) \<and> capacity h' q = (if n2 = 0 then 17 * 1024 else n2) \<or>
      r = 0 \<and> p = 0 \<and> q = 0 \<and> same_maps h h')"
  using assms by (rule new_pair_cases)

text \<open>The default size is more than the allocator has: the second buffer is not made.\<close>

theorem new_pair_or_nothing_witness:
  "\<exists>h'. BIO_new_bio_pair demo_env empty_heap 3 0 = Some (0, 0, 0, h') \<and> same_maps empty_heap h'"
proof -
  have "map_option (\<lambda>(r, p, q, h). r) (BIO_new_bio_pair demo_env empty_heap 3 0) = Some 0" by code_simp
  then show ?thesis
    using new_pair_or_nothing [of demo_env empty_heap 3 0] demo_fresh zeroed_ok
    by (auto simp: demo_malloc OPENSSL_MALLOC_PREFIX_def)
qed

text \<open>C40: The write guarantee is exact. The next write is accepted up to the guarantee, which decreases by what
  was accepted, and the bytes are queued; a write to a pair with no guarantee fails, and the caller is told to
  try again unless the half was shut down.\<close>

theorem write_guarantee_exact:
  assumes ok: "pair_ok h p q" and n: "0 < length bs" "length bs < 2 ^ 31"
  shows "\<exists>g r h'. BIO_ctrl_get_write_guarantee E h p = Some (g, h) \<and>
     BIO_write E h p (Some bs) (int (length bs)) = Some (r, h') \<and>
     r = (if g = 0 then - 1 else int (min (length bs) g)) \<and>
     BIO_ctrl_get_write_guarantee E h' p = Some (g - nat r, h') \<and>
     BIO_pending E h' q = Some (length (pending h p) + nat r, h') \<and>
     pending h' p = pending h p @ take (nat r) bs \<and>
     BIO_should_retry h' p = Some (if g = 0 \<and> \<not> wr_closed h p then BIO_FLAGS_SHOULD_RETRY else 0)"
proof -
  define g where "g = (if wr_closed h p then 0 else capacity h p - length (pending h p))"
  obtain r h' where w: "BIO_write E h p (Some bs) (int (length bs)) = Some (r, h')"
      "r = (if wr_closed h p \<or> capacity h p - length (pending h p) = 0 then - 1
            else int (min (length bs) (capacity h p - length (pending h p))))"
      "retry_flags h' p = (if \<not> wr_closed h p \<and> capacity h p - length (pending h p) = 0
            then BIO_FLAGS_WRITE OR BIO_FLAGS_SHOULD_RETRY else 0)"
      "pair_ok h' p q" "pending h' p = pending h p @ take (nat r) bs" "wr_closed h' p = wr_closed h p"
      "capacity h' p = capacity h p"
    using pair_write [OF ok n] by blast
  have r: "r = (if g = 0 then - 1 else int (min (length bs) g))" "nat r \<le> g" "nat r \<le> length bs"
    using w(2) by (auto simp: g_def)
  have "BIO_ctrl_get_write_guarantee E h p = Some (g, h)"
    using pair_queries(1) [OF ok] by (simp add: g_def)
  moreover have "BIO_ctrl_get_write_guarantee E h' p = Some (g - nat r, h')"
    using pair_queries(1) [OF w(4)] r(3) by (auto simp: g_def w(5-7))
  moreover have "BIO_pending E h' q = Some (length (pending h p) + nat r, h')"
    using pair_queries(3) [OF w(4)] r(3) by (simp add: w(5))
  moreover have "BIO_should_retry h' p = Some (if g = 0 \<and> \<not> wr_closed h p then BIO_FLAGS_SHOULD_RETRY else 0)"
    using should_retry_flags [OF w(4)] w(3) by (auto simp: g_def)
  ultimately show ?thesis using w(1,5) r(1) by blast
qed

theorem write_guarantee_exact_witness:
  "\<exists>h g r h'. demo_pair = Some (1, 1, 3, h) \<and> BIO_ctrl_get_write_guarantee demo_env h 1 = Some (g, h) \<and>
     BIO_write demo_env h 1 (Some [1, 2, 3, 4]) 4 = Some (r, h') \<and> r = (if g = 0 then - 1 else int (min 4 g))"
proof -
  obtain h where h: "demo_pair = Some (1, 1, 3, h)" using demo_pair_made by blast
  then have "pair_ok h 1 3"
    using new_pair_cases [of demo_env empty_heap 3 2] demo_fresh zeroed_ok
    by (auto simp: demo_malloc OPENSSL_MALLOC_PREFIX_def demo_pair_def)
  have four: "length [1, 2, 3, 4 :: u8] = 4" by simp
  from write_guarantee_exact [OF \<open>pair_ok h 1 3\<close>, of "[1, 2, 3, 4]" demo_env] obtain g r h' where
    "BIO_ctrl_get_write_guarantee demo_env h 1 = Some (g, h)" "BIO_write demo_env h 1 (Some [1, 2, 3, 4]) 4 = Some (r, h')"
    "r = (if g = 0 then - 1 else int (min 4 g))"
    unfolding four by auto
  with h show ?thesis by blast
qed

section \<open>Reading an ASN.1 object\<close>

text \<open>C12: Reading an ASN.1 object from a BIO agrees with \<open>CBS_get_any_asn1_element\<close> on the bytes that are to come,
  for every BIO that is a source of bytes: a call of \<open>BIO_read\<close> returns at least one of them, and as few as it
  likes, or, when there are none left, the value for the end, which is 0 (the end of the data) or -1 (nothing yet).
  Whatever the pieces, the same element is returned, and what follows it stays in the BIO, unless the object is
  longer than \<open>max_len\<close> or its contents than \<open>INT_MAX\<close>, which is an error, as is a long-form tag. When the length
  is indefinite, everything is read if the BIO ends with 0 and has fewer than \<open>max_len\<close> bytes left; exactly
  \<open>max_len\<close> bytes are refused too, although the comment in \<open>bio.h\<close> refuses only more than that. Memory BIOs
  and the halves of pairs are such sources.\<close>

theorem read_asn1_agrees_with_cbs:
  assumes "byte_source E bio source_ok content at_eof" and "source_ok h" and "at_eof h = 0 \<or> at_eof h = - 1"
    and "length header = 6" and "alloc_ok (be_malloc E)" and "alloc_avail (be_malloc E) limit"
    and "max_len + OPENSSL_MALLOC_PREFIX \<le> limit" and "limit < 2 ^ 63"
  shows "\<exists>r h'. BIO_read_asn1 E h bio header max_len = Some (r, h') \<and>
     (if long_form_tag (content h) then r = Inl DECODE_ERROR
      else if indefinite_length (content h)
      then if at_eof h = 0 \<and> length (content h) < max_len
           then \<exists>out. r = Inr (out, length (content h)) \<and> take (length (content h)) out = content h \<and> content h' = []
           else r = Inl NOT_ENOUGH_DATA
      else case CBS_get_any_asn1_element (content h) of
             (None, _) \<Rightarrow> \<exists>e. r = Inl e
           | (Some (element, tag, header_len), rest) \<Rightarrow>
               if length element \<le> max_len \<and> length element - header_len \<le> INT_MAX
               then r = Inr (element, length element) \<and> content h' = rest
               else \<exists>e. r = Inl e)"
proof -
  have lim: "limit < 2 ^ 64" "max_len < 2 ^ 63" using assms(7,8) by simp_all
  consider "long_form_tag (content h)" | "\<not> long_form_tag (content h)" "indefinite_length (content h)"
    | "\<not> long_form_tag (content h)" "\<not> indefinite_length (content h)" by blast
  then show ?thesis
  proof cases
    case 1
    then show ?thesis using byte_source.read_asn1_long_tag [OF assms(1,2,4)] by auto
  next
    case 2
    then show ?thesis
      using byte_source.read_asn1_indefinite [OF assms(1,2,5-7) lim assms(3,4) 2] by (simp only: if_False if_True)
  next
    case 3
    then show ?thesis
      using byte_source.read_asn1_element [OF assms(1,2,5-7) lim(1) assms(4) 3] by (simp only: if_False)
  qed
qed

text \<open>A method that hands out one byte at a time. Two bytes follow the object.\<close>

definition drip_method :: BIO_METHOD where
  "drip_method = mem_method\<lparr>mt_bread := User_fn 0\<rparr>"

definition drip_env :: bio_env where
  "drip_env = demo_env\<lparr>be_read := (\<lambda>_ h bio buf len. mem_read h bio buf (min len 1))\<rparr>"

definition drip_mem :: "(ptr \<times> bio_heap) option" where
  "drip_mem = do {
     (p, h) \<leftarrow> BIO_new_mem_buf drip_env empty_heap (Some [0x30, 3, 2, 1, 5, 9, 9]) 7;
     x \<leftarrow> bio_at h p;
     Some (p, put_bio p (x\<lparr>bio_method := Some drip_method\<rparr>) h) }"

lemma drip_source: "byte_source drip_env bio (\<lambda>h. memory_ok drip_method h bio) (\<lambda>h. mem_content h bio) (\<lambda>h. mem_eof h bio)"
proof (rule pieces_source)
  fix h and n :: nat
  assume "0 < n"
  then show "\<exists>piece. 0 < piece \<and> piece \<le> n \<and>
      call_bread drip_env (mt_bread drip_method) h bio True (int n) = mem_read h bio True (int piece)"
    by (intro exI [of _ 1]) (simp add: drip_env_def drip_method_def)
qed (simp add: drip_method_def)

theorem read_asn1_agrees_with_cbs_witness:
  "\<exists>h h'. drip_mem = Some (1, h) \<and>
     BIO_read_asn1 drip_env h 1 (replicate 6 0) 100 = Some (Inr ([0x30, 3, 2, 1, 5], 5), h') \<and>
     mem_content h' 1 = [9, 9]"
proof -
  have "case drip_mem of None \<Rightarrow> False
      | Some (p, h) \<Rightarrow> p = 1 \<and> memory_ok drip_method h p \<and> mem_content h p = [0x30, 3, 2, 1, 5, 9, 9] \<and> mem_eof h p = 0"
    by code_simp
  then obtain h where h: "drip_mem = Some (1, h)" "memory_ok drip_method h 1" "mem_content h 1 = [0x30, 3, 2, 1, 5, 9, 9]"
      "mem_eof h 1 = 0"
    by (auto split: option.splits)
  have form: "\<not> long_form_tag [0x30, 3, 2, 1, 5, 9, 9]" "\<not> indefinite_length [0x30, 3, 2, 1, 5, 9, 9]"
    by code_simp+
  have cbs: "CBS_get_any_asn1_element [0x30, 3, 2, 1, 5, 9, 9] = (Some ([0x30, 3, 2, 1, 5], 0x30000010 - 0x10000000, 2), [9, 9])"
    by code_simp
  have five: "length [0x30, 3, 2, 1, 5 :: u8] = 5" by simp
  have "be_malloc drip_env = zeroed" by (simp add: drip_env_def demo_malloc)
  then have "\<exists>h'. BIO_read_asn1 drip_env h 1 (replicate 6 0) 100 = Some (Inr ([0x30, 3, 2, 1, 5], 5), h') \<and>
      mem_content h' 1 = [9, 9]"
    using read_asn1_agrees_with_cbs [OF drip_source, of h 1 "replicate 6 0" 4000 100] h(2) zeroed_ok zeroed_avail
    by (simp add: h(3,4) form cbs OPENSSL_MALLOC_PREFIX_def INT_MAX_def five del: list.size)
  with h(1) show ?thesis by blast
qed

end
