(* ===== verification/PbStream.thy ===== *)
theory PbStream
  imports Prelude
begin

text \<open>
  The streams of nanopb (\<open>pb_decode.c\<close>, \<open>pb_encode.c\<close>). An input stream reads from a buffer
  (\<open>is_buf\<close>, the callback is \<open>buf_read\<close>) or through a callback of the client, the parameter \<open>io\<close>; an output
  stream writes to a buffer, through a callback, or nowhere (the sizing stream, whose callback is NULL).
  \<open>is_source\<close> is what \<open>state\<close> of a buffer stream points to, from the current position on, and \<open>os_out\<close> is
  what has been written through the stream and its substreams.
\<close>

section \<open>Input streams\<close>

record 's pb_istream =
  is_buf :: bool
  is_source :: "u8 list"
  is_state :: 's
  is_bytes_left :: nat
  is_errmsg :: "string option"

text \<open>The callback of a client stream works on its \<open>state\<close> (rule 2 of \<open>pb_decode.h\<close>): given the number of
  bytes it returns the success flag, the bytes and the new state.\<close>

type_synonym 's icallback = "'s \<Rightarrow> nat \<Rightarrow> bool \<times> u8 list \<times> 's"

text \<open>\<open>PB_RETURN_ERROR\<close>: the first message is kept.\<close>

definition is_error :: "string \<Rightarrow> 's pb_istream \<Rightarrow> 's pb_istream" where
  "is_error msg s = s\<lparr>is_errmsg := (case is_errmsg s of None \<Rightarrow> Some msg | Some e \<Rightarrow> Some e)\<rparr>"

definition buf_read :: "'s pb_istream \<Rightarrow> nat \<Rightarrow> bool \<times> u8 list \<times> 's pb_istream" where
  "buf_read s count = (True, take count (is_source s), s\<lparr>is_source := drop count (is_source s)\<rparr>)"

text \<open>The call through \<open>stream->callback\<close>.\<close>

definition call_read :: "'s icallback \<Rightarrow> 's pb_istream \<Rightarrow> nat \<Rightarrow> bool \<times> u8 list \<times> 's pb_istream" where
  "call_read io s count =
     (if is_buf s then buf_read s count
      else case io (is_state s) count of (ok, bytes, st) \<Rightarrow> (ok, bytes, s\<lparr>is_state := st\<rparr>))"

text \<open>\<open>bytes_left -= count\<close>, which the callers guard.\<close>

definition is_consume :: "nat \<Rightarrow> 's pb_istream \<Rightarrow> 's pb_istream" where
  "is_consume count s = s\<lparr>is_bytes_left := is_bytes_left s - count\<rparr>"

text \<open>The part of \<open>pb_read\<close> behind the skipping loop: one call of the callback.\<close>

definition pb_read_once :: "'s icallback \<Rightarrow> nat \<Rightarrow> 's pb_istream \<Rightarrow> u8 list option \<times> 's pb_istream" where
  "pb_read_once io count s =
     (if count = 0 then (Some [], s)
      else if is_bytes_left s < count then (None, is_error ''end-of-stream'' s)
      else case call_read io s count of
             (False, _, s) \<Rightarrow> (None, is_error ''io error'' s)
           | (True, bytes, s) \<Rightarrow> (Some bytes, is_consume count s))"

text \<open>Skipping input of a callback stream, sixteen bytes at a time.\<close>

function pb_read_skip :: "'s icallback \<Rightarrow> nat \<Rightarrow> 's pb_istream \<Rightarrow> u8 list option \<times> 's pb_istream" where
  "pb_read_skip io count s =
     (if count > 16
      then case pb_read_once io 16 s of
             (None, s) \<Rightarrow> (None, s)
           | (Some _, s) \<Rightarrow> pb_read_skip io (count - 16) s
      else pb_read_once io count s)"
  by pat_completeness auto
termination
  by (relation "measure (\<lambda>(io, count, s). count)") auto

declare pb_read_skip.simps [simp del]

text \<open>\<open>buf\<close> is whether the buffer argument is given; without it the bytes go nowhere.\<close>

definition pb_read :: "'s icallback \<Rightarrow> bool \<Rightarrow> nat \<Rightarrow> 's pb_istream \<Rightarrow> u8 list option \<times> 's pb_istream" where
  "pb_read io buf count s =
     (if count = 0 then (Some [], s)
      else if \<not> buf \<and> \<not> is_buf s then pb_read_skip io count s
      else pb_read_once io count s)"

definition pb_readbyte :: "'s icallback \<Rightarrow> 's pb_istream \<Rightarrow> u8 option \<times> 's pb_istream" where
  "pb_readbyte io s =
     (if is_bytes_left s = 0 then (None, is_error ''end-of-stream'' s)
      else case call_read io s 1 of
             (False, _, s) \<Rightarrow> (None, is_error ''io error'' s)
           | (True, bytes, s) \<Rightarrow> (Some (hd bytes), is_consume 1 s))"

definition pb_istream_from_buffer :: "u8 list \<Rightarrow> nat \<Rightarrow> unit pb_istream" where
  "pb_istream_from_buffer buf bufsize =
     \<lparr>is_buf = True, is_source = buf, is_state = (), is_bytes_left = bufsize, is_errmsg = None\<rparr>"

section \<open>Output streams\<close>

datatype ocallback = NoCallback | BufWrite | Custom

record 'o pb_ostream =
  os_callback :: ocallback
  os_out :: "u8 list"
  os_state :: 'o
  os_max_size :: nat
  os_bytes_written :: nat
  os_errmsg :: "string option"

type_synonym 'o ocallback_fun = "'o \<Rightarrow> u8 list \<Rightarrow> bool \<times> 'o"

definition os_error :: "string \<Rightarrow> 'o pb_ostream \<Rightarrow> 'o pb_ostream" where
  "os_error msg s = s\<lparr>os_errmsg := (case os_errmsg s of None \<Rightarrow> Some msg | Some e \<Rightarrow> Some e)\<rparr>"

definition buf_write :: "'o pb_ostream \<Rightarrow> u8 list \<Rightarrow> bool \<times> 'o pb_ostream" where
  "buf_write s buf = (True, s\<lparr>os_out := os_out s @ buf\<rparr>)"

definition pb_ostream_from_buffer :: "nat \<Rightarrow> unit pb_ostream" where
  "pb_ostream_from_buffer bufsize =
     \<lparr>os_callback = BufWrite, os_out = [], os_state = (), os_max_size = bufsize, os_bytes_written = 0,
      os_errmsg = None\<rparr>"

definition PB_OSTREAM_SIZING :: "unit pb_ostream" where
  "PB_OSTREAM_SIZING =
     \<lparr>os_callback = NoCallback, os_out = [], os_state = (), os_max_size = 0, os_bytes_written = 0, os_errmsg = None\<rparr>"

definition pb_write :: "'o ocallback_fun \<Rightarrow> u8 list \<Rightarrow> 'o pb_ostream \<Rightarrow> bool \<times> 'o pb_ostream" where
  "pb_write io buf s =
     (case (if length buf > 0 \<and> os_callback s \<noteq> NoCallback
            then
              if szadd (os_bytes_written s) (length buf) > os_max_size s then (False, os_error ''stream full'' s)
              else (case (if os_callback s = BufWrite then buf_write s buf
                    else case io (os_state s) buf of (ok, st) \<Rightarrow> (ok, s\<lparr>os_state := st\<rparr>)) of
                      (False, s) \<Rightarrow> (False, os_error ''io error'' s)
                    | (True, s) \<Rightarrow> (True, s))
            else (True, s)) of
        (False, s) \<Rightarrow> (False, s)
      | (True, s) \<Rightarrow> (True, s\<lparr>os_bytes_written := szadd (os_bytes_written s) (length buf)\<rparr>))"

section \<open>Buffer streams\<close>

text \<open>A buffer stream is well formed when it does not claim more bytes than there are; \<open>is_rest\<close> is what
  it can still read.\<close>

definition is_ok :: "'s pb_istream \<Rightarrow> bool" where
  "is_ok s \<longleftrightarrow> is_buf s \<and> is_bytes_left s \<le> length (is_source s) \<and> is_bytes_left s < 2 ^ 64"

definition is_rest :: "'s pb_istream \<Rightarrow> u8 list" where
  "is_rest s = take (is_bytes_left s) (is_source s)"

definition is_advance :: "nat \<Rightarrow> 's pb_istream \<Rightarrow> 's pb_istream" where
  "is_advance n s = s\<lparr>is_source := drop n (is_source s), is_bytes_left := is_bytes_left s - n\<rparr>"

lemma from_buffer [simp]:
  "is_rest (pb_istream_from_buffer bs n) = take n bs"
  "is_ok (pb_istream_from_buffer bs n) \<longleftrightarrow> n \<le> length bs \<and> n < 2 ^ 64"
  by (simp_all add: pb_istream_from_buffer_def is_rest_def is_ok_def)

lemma is_error_simps [simp]:
  "is_ok (is_error msg s) \<longleftrightarrow> is_ok s" "is_rest (is_error msg s) = is_rest s"
  "is_bytes_left (is_error msg s) = is_bytes_left s" "is_source (is_error msg s) = is_source s" "is_buf (is_error msg s) = is_buf s"
  by (simp_all add: is_error_def is_ok_def is_rest_def)

lemma length_is_rest: "is_ok s \<Longrightarrow> length (is_rest s) = is_bytes_left s"
  by (simp add: is_ok_def is_rest_def)

lemma is_advance_0 [simp]: "is_advance 0 s = s"
  by (simp add: is_advance_def)

lemma is_advance_add: "is_advance n (is_advance k s) = is_advance (k + n) s"
  by (simp add: is_advance_def add.commute)

lemma is_advance_ok: "is_ok s \<Longrightarrow> n \<le> is_bytes_left s \<Longrightarrow>
    is_ok (is_advance n s) \<and> is_rest (is_advance n s) = drop n (is_rest s)"
  by (auto simp: is_ok_def is_rest_def is_advance_def drop_take)

lemma consume_drop:
  "is_consume count (s\<lparr>is_source := drop count (is_source s)\<rparr>) = is_advance count s"
  by (simp add: is_consume_def is_advance_def)

text \<open>Every successful read shortens what is left, so that the reading loops end.\<close>

lemma call_read_left: "call_read io s n = (ok, bs, s') \<Longrightarrow> is_bytes_left s' = is_bytes_left s"
  by (auto simp: call_read_def buf_read_def split: if_splits prod.splits)

lemma pb_readbyte_left: "pb_readbyte io s = (Some b, s') \<Longrightarrow> is_bytes_left s' < is_bytes_left s"
  by (auto simp: pb_readbyte_def is_consume_def dest: call_read_left split: if_splits prod.splits bool.splits)

lemma pb_read_once_left: "pb_read_once io n s = (Some bs, s') \<Longrightarrow> n \<le> is_bytes_left s \<and> is_bytes_left s' = is_bytes_left s - n"
  by (auto simp: pb_read_once_def is_consume_def dest: call_read_left split: if_splits prod.splits bool.splits)

text \<open>Reading from a buffer either delivers the next bytes or fails at the end and moves nothing.\<close>

lemma pb_read_buffer:
  assumes "is_ok s"
  shows "pb_read io buf count s =
    (if count \<le> is_bytes_left s then (Some (take count (is_rest s)), is_advance count s)
     else (None, is_error ''end-of-stream'' s))"
proof (cases "count = 0 \<or> \<not> count \<le> is_bytes_left s")
  case True
  then show ?thesis using assms by (auto simp: pb_read_def pb_read_once_def is_ok_def)
next
  case False
  then have "take count (is_source s) = take count (is_rest s)"
    by (simp add: is_rest_def)
  then show ?thesis
    using False assms consume_drop [of count s]
    by (simp add: pb_read_def pb_read_once_def call_read_def buf_read_def is_ok_def)
qed

lemma pb_readbyte_buffer:
  assumes "is_ok s"
  shows "pb_readbyte io s =
    (case is_rest s of [] \<Rightarrow> (None, is_error ''end-of-stream'' s) | b # _ \<Rightarrow> (Some b, is_advance 1 s))"
proof (cases "is_bytes_left s = 0")
  case True
  then show ?thesis by (simp add: pb_readbyte_def is_rest_def)
next
  case False
  then obtain b r where "is_source s = b # r" using assms by (cases "is_source s") (auto simp: is_ok_def)
  moreover from this have "\<exists>t. is_rest s = b # t" using False by (cases "is_bytes_left s") (auto simp: is_rest_def)
  ultimately show ?thesis
    using False assms consume_drop [of 1 s]
    by (auto simp: pb_readbyte_def call_read_def buf_read_def is_ok_def)
qed

text \<open>\<open>emits f out\<close>: the operation writes exactly \<open>out\<close>. A buffer stream has it appended if it fits and
  otherwise reports an error without exceeding its size; a sizing stream counts its length.\<close>

definition os_ok :: "'o pb_ostream \<Rightarrow> bool" where
  "os_ok s \<longleftrightarrow> os_callback s = BufWrite \<and> os_bytes_written s = length (os_out s) \<and>
     os_bytes_written s \<le> os_max_size s \<and> os_max_size s < 2 ^ 63"

definition os_append :: "u8 list \<Rightarrow> 'o pb_ostream \<Rightarrow> 'o pb_ostream" where
  "os_append out s = s\<lparr>os_out := os_out s @ out, os_bytes_written := os_bytes_written s + length out\<rparr>"

definition emits :: "('o pb_ostream \<Rightarrow> bool \<times> 'o pb_ostream) \<Rightarrow> u8 list \<Rightarrow> bool" where
  "emits f out \<longleftrightarrow>
     (\<forall>s. os_ok s \<longrightarrow>
        (if os_bytes_written s + length out \<le> os_max_size s then f s = (True, os_append out s)
         else fst (f s) = False \<and> os_ok (snd (f s)) \<and> os_max_size (snd (f s)) = os_max_size s \<and>
              os_errmsg (snd (f s)) \<noteq> None)) \<and>
     (\<forall>s. os_callback s = NoCallback \<and> os_bytes_written s < 2 ^ 64 \<longrightarrow>
        f s = (True, s\<lparr>os_bytes_written := szadd (os_bytes_written s) (length out)\<rparr>))"

lemma os_append_ok: "os_ok s \<Longrightarrow> os_bytes_written s + length out \<le> os_max_size s \<Longrightarrow> os_ok (os_append out s)"
  by (simp add: os_ok_def os_append_def)

lemma os_append_simps [simp]:
  "os_out (os_append out s) = os_out s @ out"
  "os_bytes_written (os_append out s) = os_bytes_written s + length out"
  "os_max_size (os_append out s) = os_max_size s"
  by (simp_all add: os_append_def)

lemma os_append_append: "os_append b (os_append a s) = os_append (a @ b) s"
  by (simp add: os_append_def)

lemma szadd_assoc: "szadd (szadd a b) c = szadd a (b + c)"
  by (simp add: szadd_def mod_add_left_eq add.assoc)

lemma emits_write:
  assumes "length out < 2 ^ 63"
  shows "emits (pb_write io out) out"
  unfolding emits_def
proof (intro conjI allI impI)
  fix s :: "'a pb_ostream" assume ok: "os_ok s"
  have z: "szadd (os_bytes_written s) (length out) = os_bytes_written s + length out"
    using ok assms by (simp add: os_ok_def)
  show "if os_bytes_written s + length out \<le> os_max_size s then pb_write io out s = (True, os_append out s)
      else fst (pb_write io out s) = False \<and> os_ok (snd (pb_write io out s)) \<and>
           os_max_size (snd (pb_write io out s)) = os_max_size s \<and> os_errmsg (snd (pb_write io out s)) \<noteq> None"
    using ok z by (auto simp: pb_write_def os_ok_def buf_write_def os_append_def os_error_def split: option.splits)
qed (simp add: pb_write_def)

lemma emits_seq:
  assumes f: "emits f a" and g: "emits g b"
  shows "emits (c_and f g) (a @ b)"
  unfolding emits_def
proof (intro conjI allI impI)
  fix s :: "'a pb_ostream" assume ok: "os_ok s"
  show "if os_bytes_written s + length (a @ b) \<le> os_max_size s then c_and f g s = (True, os_append (a @ b) s)
      else fst (c_and f g s) = False \<and> os_ok (snd (c_and f g s)) \<and>
           os_max_size (snd (c_and f g s)) = os_max_size s \<and> os_errmsg (snd (c_and f g s)) \<noteq> None"
  proof (cases "os_bytes_written s + length a \<le> os_max_size s")
    case True
    then have fs: "f s = (True, os_append a s)" and ok': "os_ok (os_append a s)"
      using f ok os_append_ok by (auto simp: emits_def)
    show ?thesis using g ok' fs by (auto simp: emits_def c_and_def os_append_append add.assoc)
  next
    case False
    then show ?thesis using f ok by (auto simp: emits_def c_and_def split: prod.splits)
  qed
next
  fix s :: "'a pb_ostream" assume "os_callback s = NoCallback \<and> os_bytes_written s < 2 ^ 64"
  then show "c_and f g s = (True, s\<lparr>os_bytes_written := szadd (os_bytes_written s) (length (a @ b))\<rparr>)"
    using f g by (simp add: emits_def c_and_def szadd_assoc szadd_bound [simplified])
qed

end
