(* ===== verification/PbWire.thy ===== *)
theory PbWire
  imports PbStream
begin

text \<open>
  The wire format of nanopb: variable-length integers, zigzag and fixed-width integers, tags,
  length-prefixed strings, skipping of fields and substreams (\<open>pb_decode.c\<close>, \<open>pb_encode.c\<close>). A reader
  returns \<open>None\<close> where the code returns false.
\<close>

type_synonym pb_wire_type_t = u32

text \<open>\<open>int64_t\<close> is a word read with \<open>sint\<close>, compared with \<open><s\<close>.\<close>

type_synonym i64 = u64

definition PB_WT_VARINT :: pb_wire_type_t where "PB_WT_VARINT = 0"
definition PB_WT_64BIT :: pb_wire_type_t where "PB_WT_64BIT = 1"
definition PB_WT_STRING :: pb_wire_type_t where "PB_WT_STRING = 2"
definition PB_WT_32BIT :: pb_wire_type_t where "PB_WT_32BIT = 5"

section \<open>Reading\<close>

text \<open>The multibyte loop of \<open>pb_decode_varint32_eof\<close>. Its \<open>bitpos\<close> is an \<open>uint_fast8_t\<close>, eight bits wide on
  the targets of the program. It delivers the value, the final \<open>bitpos\<close> and the last byte.\<close>

function varint32_loop ::
    "'s icallback \<Rightarrow> nat \<Rightarrow> u32 \<Rightarrow> 's pb_istream \<Rightarrow> (u32 \<times> nat \<times> u8) option \<times> 's pb_istream" where
  "varint32_loop io bitpos result s =
     (case pb_readbyte io s of
        (None, s') \<Rightarrow> (None, s')
      | (Some byte, s') \<Rightarrow>
          if bitpos \<ge> 32 \<and> byte AND 0x7F \<noteq> 0 \<and>
             (drop_bit 31 result = 0 \<or> byte \<noteq> (if bitpos < 63 then 0xFF else 0x01))
          then (None, is_error ''varint overflow'' s')
          else let result' = (if bitpos \<ge> 32 then result
                              else result OR push_bit bitpos (ucast (byte AND 0x7F)));
                   bitpos' = (bitpos + 7) mod 256
               in if byte AND 0x80 \<noteq> 0 then varint32_loop io bitpos' result' s'
                  else (Some (result', bitpos', byte), s'))"
  by pat_completeness auto
termination
  by (relation "measure (\<lambda>(io, bitpos, result, s). is_bytes_left s)") (auto dest: pb_readbyte_left [OF sym])

declare varint32_loop.simps [simp del]

text \<open>The second component is whether \<open>*eof\<close> is set to true.\<close>

definition pb_decode_varint32_eof :: "'s icallback \<Rightarrow> 's pb_istream \<Rightarrow> u32 option \<times> bool \<times> 's pb_istream" where
  "pb_decode_varint32_eof io s =
     (case pb_readbyte io s of
        (None, s) \<Rightarrow> (None, is_bytes_left s = 0, s)
      | (Some byte, s) \<Rightarrow>
          if byte AND 0x80 = 0 then (Some (ucast byte), False, s)
          else case varint32_loop io 7 (ucast (byte AND 0x7F)) s of
                 (None, s) \<Rightarrow> (None, False, s)
               | (Some (result, bitpos, byte), s) \<Rightarrow>
                   if bitpos = 35 \<and> byte AND 0x70 \<noteq> 0 then (None, False, is_error ''varint overflow'' s)
                   else (Some result, False, s))"

definition pb_decode_varint32 :: "'s icallback \<Rightarrow> 's pb_istream \<Rightarrow> u32 option \<times> 's pb_istream" where
  "pb_decode_varint32 io s = (case pb_decode_varint32_eof io s of (v, eof, s) \<Rightarrow> (v, s))"

function varint_loop :: "'s icallback \<Rightarrow> nat \<Rightarrow> u64 \<Rightarrow> 's pb_istream \<Rightarrow> u64 option \<times> 's pb_istream" where
  "varint_loop io bitpos result s =
     (if bitpos \<ge> 64 then (None, is_error ''varint overflow'' s)
      else case pb_readbyte io s of
             (None, s') \<Rightarrow> (None, s')
           | (Some byte, s') \<Rightarrow>
               let result' = result OR push_bit bitpos (ucast (byte AND 0x7F)); bitpos' = (bitpos + 7) mod 256
               in if byte AND 0x80 \<noteq> 0 then varint_loop io bitpos' result' s' else (Some result', s'))"
  by pat_completeness auto
termination
  by (relation "measure (\<lambda>(io, bitpos, result, s). is_bytes_left s)") (auto dest: pb_readbyte_left [OF sym])

declare varint_loop.simps [simp del]

definition pb_decode_varint :: "'s icallback \<Rightarrow> 's pb_istream \<Rightarrow> u64 option \<times> 's pb_istream" where
  "pb_decode_varint io s = varint_loop io 0 0 s"

function pb_skip_varint :: "'s icallback \<Rightarrow> 's pb_istream \<Rightarrow> bool \<times> 's pb_istream" where
  "pb_skip_varint io s =
     (case pb_read io True 1 s of
        (None, s') \<Rightarrow> (False, s')
      | (Some bytes, s') \<Rightarrow> if hd bytes AND 0x80 \<noteq> 0 then pb_skip_varint io s' else (True, s'))"
  by pat_completeness auto
termination
  by (relation "measure (\<lambda>(io, s). is_bytes_left s)") (auto simp: pb_read_def dest: pb_read_once_left [OF sym])

declare pb_skip_varint.simps [simp del]

definition pb_skip_string :: "'s icallback \<Rightarrow> 's pb_istream \<Rightarrow> bool \<times> 's pb_istream" where
  "pb_skip_string io s =
     (case pb_decode_varint32 io s of
        (None, s) \<Rightarrow> (False, s)
      | (Some len, s) \<Rightarrow> (case pb_read io False (unat len) s of (r, s) \<Rightarrow> (r \<noteq> None, s)))"

text \<open>The success flag, the wire type, the field number and the end-of-input flag.\<close>

definition pb_decode_tag ::
    "'s icallback \<Rightarrow> 's pb_istream \<Rightarrow> (bool \<times> pb_wire_type_t \<times> u32 \<times> bool) \<times> 's pb_istream" where
  "pb_decode_tag io s =
     (case pb_decode_varint32_eof io s of
        (None, eof, s) \<Rightarrow> ((False, 0, 0, eof), s)
      | (Some temp, eof, s) \<Rightarrow>
          if temp = 0 then ((False, 0, 0, True), s)
          else ((True, temp AND 7, drop_bit 3 temp, eof), s))"

definition pb_skip_field :: "'s icallback \<Rightarrow> pb_wire_type_t \<Rightarrow> 's pb_istream \<Rightarrow> bool \<times> 's pb_istream" where
  "pb_skip_field io wire_type s =
     (if wire_type = PB_WT_VARINT then pb_skip_varint io s
      else if wire_type = PB_WT_64BIT then (case pb_read io False 8 s of (r, s) \<Rightarrow> (r \<noteq> None, s))
      else if wire_type = PB_WT_STRING then pb_skip_string io s
      else if wire_type = PB_WT_32BIT then (case pb_read io False 4 s of (r, s) \<Rightarrow> (r \<noteq> None, s))
      else (False, is_error ''invalid wire_type'' s))"

text \<open>Reading a raw value into a buffer of \<open>max_size\<close> bytes.\<close>

function raw_varint_loop :: "'s icallback \<Rightarrow> nat \<Rightarrow> u8 list \<Rightarrow> 's pb_istream \<Rightarrow> u8 list option \<times> 's pb_istream" where
  "raw_varint_loop io max_size acc s =
     (if length acc + 1 > max_size then (None, s)
      else case pb_read io True 1 s of
             (None, s') \<Rightarrow> (None, s')
           | (Some bytes, s') \<Rightarrow>
               if hd bytes AND 0x80 \<noteq> 0 then raw_varint_loop io max_size (acc @ [hd bytes]) s'
               else (Some (acc @ [hd bytes]), s'))"
  by pat_completeness auto
termination
  by (relation "measure (\<lambda>(io, m, acc, s). m - length acc)") auto

declare raw_varint_loop.simps [simp del]

definition read_raw_value :: "'s icallback \<Rightarrow> pb_wire_type_t \<Rightarrow> nat \<Rightarrow> 's pb_istream \<Rightarrow> u8 list option \<times> 's pb_istream" where
  "read_raw_value io wire_type max_size s =
     (if wire_type = PB_WT_VARINT then raw_varint_loop io max_size [] s
      else if wire_type = PB_WT_64BIT then pb_read io True 8 s
      else if wire_type = PB_WT_32BIT then pb_read io True 4 s
      else (None, is_error ''invalid wire_type'' s))"

text \<open>A substream of limited length. Reads of the substream move its own position; closing it skips what
  is left and hands the position and the error message back.\<close>

definition pb_make_string_substream :: "'s icallback \<Rightarrow> 's pb_istream \<Rightarrow> 's pb_istream option \<times> 's pb_istream" where
  "pb_make_string_substream io s =
     (case pb_decode_varint32 io s of
        (None, s) \<Rightarrow> (None, s)
      | (Some len, s) \<Rightarrow>
          if is_bytes_left s < unat len then (None, is_error ''parent stream too short'' s)
          else (Some (s\<lparr>is_bytes_left := unat len\<rparr>), is_consume (unat len) s))"

definition pb_close_string_substream :: "'s icallback \<Rightarrow> 's pb_istream \<Rightarrow> 's pb_istream \<Rightarrow> bool \<times> 's pb_istream" where
  "pb_close_string_substream io stream sub =
     (case (if is_bytes_left sub > 0 then (case pb_read io False (is_bytes_left sub) sub of (r, sub) \<Rightarrow> (r \<noteq> None, sub))
            else (True, sub)) of
        (False, sub) \<Rightarrow> (False, stream)
      | (True, sub) \<Rightarrow>
          (True, stream\<lparr>is_source := is_source sub, is_state := is_state sub, is_errmsg := is_errmsg sub\<rparr>))"

definition pb_decode_svarint :: "'s icallback \<Rightarrow> 's pb_istream \<Rightarrow> i64 option \<times> 's pb_istream" where
  "pb_decode_svarint io s =
     (case pb_decode_varint io s of
        (None, s) \<Rightarrow> (None, s)
      | (Some v, s) \<Rightarrow>
          (Some (if v AND 1 \<noteq> 0 then NOT (drop_bit 1 v) else drop_bit 1 v), s))"

definition pb_decode_fixed32 :: "'s icallback \<Rightarrow> 's pb_istream \<Rightarrow> u32 option \<times> 's pb_istream" where
  "pb_decode_fixed32 io s =
     (case pb_read io True 4 s of
        (None, s) \<Rightarrow> (None, s)
      | (Some bytes, s) \<Rightarrow>
          (Some (push_bit 0 (ucast (bytes ! 0)) OR push_bit 8 (ucast (bytes ! 1)) OR
                 push_bit 16 (ucast (bytes ! 2)) OR push_bit 24 (ucast (bytes ! 3))), s))"

definition pb_decode_fixed64 :: "'s icallback \<Rightarrow> 's pb_istream \<Rightarrow> u64 option \<times> 's pb_istream" where
  "pb_decode_fixed64 io s =
     (case pb_read io True 8 s of
        (None, s) \<Rightarrow> (None, s)
      | (Some bytes, s) \<Rightarrow>
          (Some (push_bit 0 (ucast (bytes ! 0)) OR push_bit 8 (ucast (bytes ! 1)) OR
                 push_bit 16 (ucast (bytes ! 2)) OR push_bit 24 (ucast (bytes ! 3)) OR
                 push_bit 32 (ucast (bytes ! 4)) OR push_bit 40 (ucast (bytes ! 5)) OR
                 push_bit 48 (ucast (bytes ! 6)) OR push_bit 56 (ucast (bytes ! 7))), s))"

section \<open>Writing\<close>

function encode_varint_loop :: "u64 \<Rightarrow> u8 list" where
  "encode_varint_loop v =
     (if v = 0 then [] else (ucast ((v AND 0x7F) OR 0x80)) # encode_varint_loop (drop_bit 7 v))"
  by pat_completeness auto
termination
proof (relation "measure unat")
  fix v :: u64 assume "v \<noteq> 0"
  then have "0 < unat v" by (simp add: unat_gt_0)
  then show "(drop_bit 7 v, v) \<in> measure unat" by (simp add: byte_arith)
qed simp

declare encode_varint_loop.simps [simp del]

definition varint_buffer :: "u64 \<Rightarrow> u8 list" where
  "varint_buffer v =
     (let buffer = encode_varint_loop v in buffer[length buffer - 1 := last buffer AND 0x7F])"

definition pb_encode_varint :: "'o ocallback_fun \<Rightarrow> u64 \<Rightarrow> 'o pb_ostream \<Rightarrow> bool \<times> 'o pb_ostream" where
  "pb_encode_varint io v s =
     (if v \<le> 0x7F then pb_write io [ucast v] s else pb_write io (varint_buffer v) s)"

definition zigzag :: "i64 \<Rightarrow> u64" where
  "zigzag v = (if v <s 0 then NOT (push_bit 1 v) else push_bit 1 v)"

definition pb_encode_svarint :: "'o ocallback_fun \<Rightarrow> i64 \<Rightarrow> 'o pb_ostream \<Rightarrow> bool \<times> 'o pb_ostream" where
  "pb_encode_svarint io v s = pb_encode_varint io (zigzag v) s"

definition fixed32_bytes :: "u32 \<Rightarrow> u8 list" where
  "fixed32_bytes val =
     [ucast (val AND 0xFF), ucast (drop_bit 8 val AND 0xFF), ucast (drop_bit 16 val AND 0xFF), ucast (drop_bit 24 val AND 0xFF)]"

definition pb_encode_fixed32 :: "'o ocallback_fun \<Rightarrow> u32 \<Rightarrow> 'o pb_ostream \<Rightarrow> bool \<times> 'o pb_ostream" where
  "pb_encode_fixed32 io val s = pb_write io (fixed32_bytes val) s"

definition fixed64_bytes :: "u64 \<Rightarrow> u8 list" where
  "fixed64_bytes val =
     [ucast (val AND 0xFF), ucast (drop_bit 8 val AND 0xFF), ucast (drop_bit 16 val AND 0xFF), ucast (drop_bit 24 val AND 0xFF),
      ucast (drop_bit 32 val AND 0xFF), ucast (drop_bit 40 val AND 0xFF), ucast (drop_bit 48 val AND 0xFF),
      ucast (drop_bit 56 val AND 0xFF)]"

definition pb_encode_fixed64 :: "'o ocallback_fun \<Rightarrow> u64 \<Rightarrow> 'o pb_ostream \<Rightarrow> bool \<times> 'o pb_ostream" where
  "pb_encode_fixed64 io val s = pb_write io (fixed64_bytes val) s"

definition pb_encode_tag :: "'o ocallback_fun \<Rightarrow> pb_wire_type_t \<Rightarrow> u32 \<Rightarrow> 'o pb_ostream \<Rightarrow> bool \<times> 'o pb_ostream" where
  "pb_encode_tag io wiretype field_number s =
     pb_encode_varint io (push_bit 3 (ucast field_number) OR ucast wiretype) s"

definition pb_encode_string :: "'o ocallback_fun \<Rightarrow> u8 list \<Rightarrow> 'o pb_ostream \<Rightarrow> bool \<times> 'o pb_ostream" where
  "pb_encode_string io buffer s =
     c_and (pb_encode_varint io (of_nat (length buffer))) (pb_write io buffer) s"

end
