(* ===== verification/PbWireSpec.thy ===== *)
theory PbWireSpec
  imports PbWire
begin

text \<open>
  The wire format of protocol buffers as a reference definition on byte lists (\<open>leb\<close>, \<open>leb_read\<close>) and
  the proofs that the streaming code implements it; the interface \<open>pb_codec\<close> of a writer and a reader that
  fit together, with what follows for sequences of values, interpreted on the code's pairs.
\<close>

section \<open>Base-128 integers\<close>

fun leb :: "nat \<Rightarrow> u8 list" where
  "leb n = (if n < 128 then [of_nat n] else of_nat (n mod 128 + 128) # leb (n div 128))"

declare leb.simps [simp del]

text \<open>The first base-128 integer of a list and what follows it.\<close>

fun leb_read :: "u8 list \<Rightarrow> (nat \<times> u8 list) option" where
  "leb_read [] = None"
| "leb_read (b # bs) =
     (if unat b < 128 then Some (unat b, bs)
      else map_option (\<lambda>(n, r). (unat b mod 128 + 128 * n, r)) (leb_read bs))"

lemma leb_small: "n < 128 \<Longrightarrow> leb n = [of_nat n]"
  and leb_large: "\<not> n < 128 \<Longrightarrow> leb n = of_nat (n mod 128 + 128) # leb (n div 128)"
  by (subst leb.simps, simp)+

lemma leb_read_leb: "leb_read (leb n @ rest) = Some (n, rest)"
proof (induction n rule: leb.induct)
  case (1 n)
  show ?case
  proof (cases "n < 128")
    case True
    then show ?thesis by (simp add: leb_small byte_arith)
  next
    case False
    have "n mod 128 + 128 < 256" using mod_less_divisor [of 128 n] by linarith
    then have "unat (of_nat (n mod 128 + 128) :: u8) = n mod 128 + 128" by (simp only: byte_arith mod_less)
    then show ?thesis using False 1 by (simp add: leb_large)
  qed
qed

lemma length_leb_le: "n < 128 ^ k \<Longrightarrow> 0 < k \<Longrightarrow> length (leb n) \<le> k"
proof (induction k arbitrary: n)
  case (Suc k)
  show ?case
  proof (cases "n < 128")
    case False
    then have "n div 128 < 128 ^ k" using Suc.prems by (simp add: less_mult_imp_div_less mult.commute)
    moreover have "0 < k" using False Suc.prems by (cases k) auto
    ultimately show ?thesis using Suc.IH False by (simp add: leb_large)
  qed (simp add: leb_small)
qed simp

lemma length_leb_u64: "length (leb (unat (v :: u64))) \<le> 10"
proof (rule length_leb_le)
  have "unat v < 2 ^ 64" by (rule order.strict_trans2 [OF unsigned_less]) simp
  then show "unat v < 128 ^ 10" by simp
qed simp

lemma leb_not_Nil [simp]: "leb n \<noteq> []"
  by (subst leb.simps) simp

section \<open>Writing\<close>

lemma varint_group: "(ucast ((v AND 0x7F) OR 0x80 :: u64) :: u8) = of_nat (unat v mod 128 + 128)"
proof (rule word_of_nat_eqI)
  have "(v AND 0x7F) OR 0x80 = push_bit 7 1 OR (v AND 0x7f)"
    by (simp add: or.commute)
  then have "unat ((v AND 0x7F) OR 0x80) = 128 + unat v mod 128"
    by (simp only:) (subst unat_push_or, auto simp: byte_arith)
  moreover have "unat v mod 128 + 128 < 256" using mod_less_divisor [of 128 "unat v"] by linarith
  ultimately show "unat (ucast ((v AND 0x7F) OR 0x80) :: u8) = unat v mod 128 + 128"
    by (simp add: byte_arith)
qed

lemma varint_last: "unat v < 128 \<Longrightarrow> (ucast ((v AND 0x7F) OR 0x80 :: u64) :: u8) AND 0x7F = of_nat (unat v)"
  by (rule word_of_nat_eqI) (simp only: varint_group byte_arith, simp)

lemma encode_varint_loop_Nil: "encode_varint_loop v = [] \<longleftrightarrow> v = 0"
  by (subst encode_varint_loop.simps) simp

lemma drop_bit_7_eq_0: "drop_bit 7 (v :: u64) = 0 \<longleftrightarrow> unat v < 128"
proof -
  have "drop_bit 7 v = 0 \<longleftrightarrow> unat (drop_bit 7 v) = 0" by (simp add: unat_eq_zero)
  also have "\<dots> \<longleftrightarrow> unat v < 128" by (simp add: byte_arith div_eq_0_iff)
  finally show ?thesis .
qed

lemma varint_buffer_leb: "v \<noteq> 0 \<Longrightarrow> varint_buffer v = leb (unat v)"
proof (induction v rule: encode_varint_loop.induct)
  case (1 v)
  let ?w = "drop_bit 7 v"
  have unfold: "encode_varint_loop v = ucast ((v AND 0x7F) OR 0x80) # encode_varint_loop ?w"
    using 1 by (subst encode_varint_loop.simps) simp
  show ?case
  proof (cases "unat v < 128")
    case True
    then have "encode_varint_loop ?w = []" by (simp add: encode_varint_loop_Nil drop_bit_7_eq_0)
    then show ?thesis using True by (simp add: varint_buffer_def unfold Let_def varint_last leb_small)
  next
    case False
    then have w: "?w \<noteq> 0" by (simp add: drop_bit_7_eq_0)
    then have "encode_varint_loop ?w \<noteq> []" by (simp add: encode_varint_loop_Nil)
    then have "varint_buffer v = ucast ((v AND 0x7F) OR 0x80) # varint_buffer ?w"
      by (cases "encode_varint_loop ?w") (simp_all add: varint_buffer_def unfold Let_def)
    also have "\<dots> = leb (unat v)"
      using 1 w False by (simp add: varint_group leb_large byte_arith)
    finally show ?thesis .
  qed
qed

text \<open>The ten-byte buffer of \<open>pb_encode_varint\<close> is never overrun.\<close>

lemma encode_varint_buffer_fits: "length (encode_varint_loop v) \<le> 10"
proof (cases "v = 0")
  case True
  then show ?thesis by (simp add: encode_varint_loop_Nil [THEN iffD2])
next
  case False
  then have "length (encode_varint_loop v) = length (leb (unat v))"
    by (simp add: varint_buffer_leb [symmetric] varint_buffer_def Let_def)
  then show ?thesis using length_leb_u64 [of v] by simp
qed

lemma pb_encode_varint_leb: "pb_encode_varint io v = pb_write io (leb (unat v))"
proof (rule ext)
  fix s
  show "pb_encode_varint io v s = pb_write io (leb (unat v)) s"
  proof (cases "v \<le> 0x7F")
    case True
    then have "unat v < 128" by (simp add: word_le_nat_alt)
    moreover from this have "(ucast v :: u8) = of_nat (unat v)" by (intro word_of_nat_eqI) (simp add: byte_arith)
    ultimately show ?thesis using True by (simp add: pb_encode_varint_def leb_small)
  next
    case False
    then have "v \<noteq> 0" by auto
    then show ?thesis using False by (simp add: pb_encode_varint_def varint_buffer_leb)
  qed
qed

lemma emits_varint: "emits (pb_encode_varint io v) (leb (unat v))"
  unfolding pb_encode_varint_leb
  by (rule emits_write) (use length_leb_u64 [of v] in simp)

lemma emits_svarint: "emits (pb_encode_svarint io v) (leb (unat (zigzag v)))"
  using emits_varint [of io "zigzag v"] by (simp add: emits_def pb_encode_svarint_def)

lemma emits_fixed32: "emits (pb_encode_fixed32 io v) (fixed32_bytes v)"
  using emits_write [of "fixed32_bytes v" io] by (simp add: emits_def pb_encode_fixed32_def fixed32_bytes_def)

lemma emits_fixed64: "emits (pb_encode_fixed64 io v) (fixed64_bytes v)"
  using emits_write [of "fixed64_bytes v" io] by (simp add: emits_def pb_encode_fixed64_def fixed64_bytes_def)

lemma emits_tag: "emits (pb_encode_tag io wt num) (leb (unat (push_bit 3 (ucast num :: u64) OR ucast wt)))"
  using emits_varint [of io "push_bit 3 (ucast num) OR ucast wt"] by (simp add: emits_def pb_encode_tag_def)

lemma emits_string: "length buf < 2 ^ 63 \<Longrightarrow> emits (pb_encode_string io buf) (leb (length buf) @ buf)"
  using emits_seq [OF emits_varint [of io "of_nat (length buf)"] emits_write [of buf io]]
  by (simp add: emits_def pb_encode_string_def unat_of_nat)

section \<open>Reading\<close>

text \<open>\<open>takes f bs x\<close>: on a buffer stream that goes on with \<open>bs\<close> the reader returns \<open>x\<close> and leaves the
  stream behind \<open>bs\<close>.\<close>

definition takes :: "('s pb_istream \<Rightarrow> 'a option \<times> 's pb_istream) \<Rightarrow> u8 list \<Rightarrow> 'a \<Rightarrow> bool" where
  "takes f bs x \<longleftrightarrow> (\<forall>s rest. is_ok s \<and> is_rest s = bs @ rest \<longrightarrow> f s = (Some x, is_advance (length bs) s))"

lemma takesD: "takes f bs x \<Longrightarrow> is_ok s \<Longrightarrow> is_rest s = bs @ rest \<Longrightarrow> f s = (Some x, is_advance (length bs) s)"
  unfolding takes_def by blast

lemma is_advance_rest:
  assumes "is_ok s" and "is_rest s = bs @ rest"
  shows "is_ok (is_advance (length bs) s)" and "is_rest (is_advance (length bs) s) = rest"
    and "length bs \<le> is_bytes_left s" and "is_bytes_left (is_advance (length bs) s) = length rest"
proof -
  have len: "is_bytes_left s = length bs + length rest"
    using assms length_is_rest [of s] by simp
  then show "length bs \<le> is_bytes_left s" by simp
  with is_advance_ok [OF assms(1), of "length bs"]
  show ok: "is_ok (is_advance (length bs) s)" and r: "is_rest (is_advance (length bs) s) = rest"
    using assms by simp_all
  show "is_bytes_left (is_advance (length bs) s) = length rest"
    using length_is_rest [OF ok] r by simp
qed

lemma takes_read: "takes (pb_read io b (length bs)) bs bs"
  unfolding takes_def using is_advance_rest(3) by (auto simp: pb_read_buffer)

lemma takes_map:
  "takes f bs x \<Longrightarrow> takes (\<lambda>s. case f s of (None, s) \<Rightarrow> (None, s) | (Some y, s) \<Rightarrow> (Some (h y), s)) bs (h x)"
  by (fastforce simp: takes_def)

lemma takes_bind:
  fixes f :: "'s pb_istream \<Rightarrow> 'a option \<times> 's pb_istream"
  assumes f: "takes f as x" and g: "takes (g x) bs y"
  shows "takes (\<lambda>s. case f s of (None, s) \<Rightarrow> (None, s) | (Some x, s) \<Rightarrow> g x s) (as @ bs) y"
  unfolding takes_def
proof (intro allI impI)
  fix s :: "'s pb_istream" and rest assume s: "is_ok s \<and> is_rest s = (as @ bs) @ rest"
  then have "f s = (Some x, is_advance (length as) s)" by (intro takesD [OF f]) auto
  moreover have "g x (is_advance (length as) s) = (Some y, is_advance (length bs) (is_advance (length as) s))"
    using s is_advance_rest [of s as "bs @ rest"] by (intro takesD [OF g]) auto
  ultimately show "(case f s of (None, s) \<Rightarrow> (None, s) | (Some x, s) \<Rightarrow> g x s) = (Some y, is_advance (length (as @ bs)) s)"
    by (simp add: is_advance_add add.commute)
qed

lemma unat_or_push:
  fixes v w :: "'a::len word"
  assumes "unat w < 2 ^ k"
  shows "unat (w OR push_bit k v) = (unat w + unat v * 2 ^ k) mod 2 ^ LENGTH('a)"
proof -
  have "unat (w OR push_bit k v) = unat w OR unat (push_bit k v)"
    by (rule unsigned_or_eq)
  also have "unat (push_bit k v) = take_bit LENGTH('a) (push_bit k (unat v))"
    by (simp add: unsigned_push_bit_eq)
  also have "unat w OR \<dots> = take_bit LENGTH('a) (unat w) OR take_bit LENGTH('a) (push_bit k (unat v))"
    using unsigned_take_bit_eq [of "LENGTH('a)" w, where ?'a = nat] by simp
  also have "\<dots> = take_bit LENGTH('a) (push_bit k (unat v) OR unat w)"
    by (simp add: take_bit_or or.commute)
  also have "push_bit k (unat v) OR unat w = unat v * 2 ^ k + unat w"
    by (rule nat_push_or [OF assms])
  finally show ?thesis by (simp add: take_bit_eq_mod add.commute)
qed

lemma readbyte_Cons:
  assumes "is_ok s" and "is_rest s = b # bs"
  shows "pb_readbyte io s = (Some b, is_advance 1 s)"
    and "is_ok (is_advance 1 s)" and "is_rest (is_advance 1 s) = bs"
  using assms is_advance_rest [of s "[b]" bs] by (simp_all add: pb_readbyte_buffer)

lemma leb_read_single: "leb_read p = Some (n, []) \<Longrightarrow> p \<noteq> []"
  by auto

lemma of_nat_mod_word: "(of_nat (x mod 2 ^ LENGTH('a)) :: 'a::len word) = of_nat x"
  by (simp add: word_of_nat_eq_iff take_bit_eq_mod)

text \<open>One byte of a base-128 integer: the last one, or a group of seven bits and the rest.\<close>

lemma leb_read_cases:
  assumes "leb_read p = Some (n, [])"
  obtains b where "p = [b]" "unat b < 128" "n = unat b"
  | b q m where "p = b # q" "128 \<le> unat b" "leb_read q = Some (m, [])" "n = unat b mod 128 + 128 * m"
  using assms by (cases p) (force split: if_splits)+

lemma and_0x80: "(b :: u8) AND 0x80 \<noteq> 0 \<longleftrightarrow> 128 \<le> unat b"
  using and_0x80_eq_0 [of b] by auto

lemma varint_group_add:
  assumes "unat (result :: 'a::len word) < 2 ^ (7 * k)" and "8 \<le> LENGTH('a)"
  shows "unat (result OR push_bit (7 * k) (ucast (byte AND 0x7F :: u8))) =
           (unat result + unat byte mod 128 * 2 ^ (7 * k)) mod 2 ^ LENGTH('a)"
    and "unat result + unat byte mod 128 * 2 ^ (7 * k) < 2 ^ (7 * Suc k)"
proof -
  have "unat (ucast (byte AND 0x7F) :: 'a word) = unat byte mod 128"
    using assms(2) by (subst unat_ucast_up) (simp_all add: byte_arith)
  then show "unat (result OR push_bit (7 * k) (ucast (byte AND 0x7F))) =
           (unat result + unat byte mod 128 * 2 ^ (7 * k)) mod 2 ^ LENGTH('a)"
    using unat_or_push [OF assms(1)] by simp
  have "unat byte mod 128 * 2 ^ (7 * k) \<le> 127 * 2 ^ (7 * k)"
    using mod_less_divisor [of 128 "unat byte"] by (intro mult_right_mono) linarith+
  moreover have "(2 :: nat) ^ (7 * Suc k) = 128 * 2 ^ (7 * k)" by (simp add: power_add)
  ultimately show "unat result + unat byte mod 128 * 2 ^ (7 * k) < 2 ^ (7 * Suc k)"
    using assms(1) by linarith
qed

lemma varint_loop_takes:
  assumes "leb_read p = Some (n, [])" and "k + length p \<le> 10" and "unat (result :: u64) < 2 ^ (7 * k)"
  shows "takes (varint_loop io (7 * k) result) p (of_nat (unat result + n * 2 ^ (7 * k)))"
  using assms
proof (induction p arbitrary: n k result)
  case (Cons b q)
  let ?r = "result OR push_bit (7 * k) (ucast (b AND 0x7F))"
  have k: "k < 10" "\<not> 64 \<le> 7 * k" "(7 * k + 7) mod 256 = 7 * Suc k" using Cons.prems by simp_all
  have "8 \<le> LENGTH(64)" by simp
  note g = varint_group_add [OF Cons.prems(3) this, of b]
  have r: "(of_nat (unat ?r) :: u64) = of_nat (unat result + unat b mod 128 * 2 ^ (7 * k))"
    by (simp only: g(1) of_nat_mod_word)
  show ?case
    unfolding takes_def
  proof (intro allI impI)
    fix s :: "'a pb_istream" and rest assume "is_ok s \<and> is_rest s = (b # q) @ rest"
    then have s: "is_ok s" and rest: "is_rest s = b # (q @ rest)" by simp_all
    note rb = readbyte_Cons [OF s rest]
    from Cons.prems(1)
    show "varint_loop io (7 * k) result s = (Some (of_nat (unat result + n * 2 ^ (7 * k))), is_advance (length (b # q)) s)"
    proof (cases rule: leb_read_cases)
      case (1 c)
      then show ?thesis using k rb r by (subst varint_loop.simps) (simp add: and_0x80)
    next
      case (2 c q' m)
      have "takes (varint_loop io (7 * Suc k) ?r) q (of_nat (unat ?r + m * 2 ^ (7 * Suc k)))"
        using Cons.prems 2 g by (intro Cons.IH) (auto intro: le_less_trans [OF mod_less_eq_dividend])
      then have "varint_loop io (7 * Suc k) ?r (is_advance 1 s) =
          (Some (of_nat (unat ?r + m * 2 ^ (7 * Suc k))), is_advance (length q) (is_advance 1 s))"
        by (rule takesD) (use rb in auto)
      moreover have "(of_nat (unat ?r + m * 2 ^ (7 * Suc k)) :: u64) = of_nat (unat result + n * 2 ^ (7 * k))"
        unfolding of_nat_add [of "unat ?r"] r using 2 by (simp add: algebra_simps power_add)
      ultimately show ?thesis
        using k rb 2 by (subst varint_loop.simps) (simp add: and_0x80 is_advance_add add.commute [of "7 * k" 7])
    qed
  qed
qed simp

lemma varint_takes:
  assumes "leb_read p = Some (n, [])" and "length p \<le> 10"
  shows "takes (pb_decode_varint io) p (of_nat n)"
  using varint_loop_takes [of p n 0 0 io] assms by (simp add: takes_def pb_decode_varint_def)

lemma leb_read_split: "leb_read bs = Some (n, r) \<Longrightarrow> \<exists>p. bs = p @ r \<and> leb_read p = Some (n, [])"
proof (induction bs arbitrary: n)
  case (Cons b bs)
  show ?case
  proof (cases "unat b < 128")
    case True
    then show ?thesis using Cons.prems by (intro exI [of _ "[b]"]) auto
  next
    case False
    then obtain m where m: "leb_read bs = Some (m, r)" "n = unat b mod 128 + 128 * m"
      using Cons.prems by auto
    from Cons.IH [OF m(1)] obtain q where "bs = q @ r" "leb_read q = Some (m, [])" by blast
    then show ?thesis using m(2) False by (intro exI [of _ "b # q"]) simp
  qed
qed simp

lemma varint_loop_None:
  assumes "leb_read (take j (is_rest s)) = None" and "is_ok s" and "k + j = 10"
  shows "fst (varint_loop io (7 * k) result s) = None"
  using assms
proof (induction j arbitrary: k s result)
  case 0
  then show ?case by (subst varint_loop.simps) simp
next
  case (Suc j)
  then have k: "(7 * k + 7) mod 256 = 7 * Suc k" "7 * k < 64" by simp_all
  show ?case
  proof (cases "is_rest s")
    case Nil
    then show ?thesis using Suc.prems k by (subst varint_loop.simps) (simp add: pb_readbyte_buffer)
  next
    case (Cons b bs)
    note rb = readbyte_Cons [OF Suc.prems(2) Cons]
    have "128 \<le> unat b" "leb_read (take j bs) = None"
      using Suc.prems(1) Cons by (auto split: if_splits)
    moreover from this have "fst (varint_loop io (7 * Suc k) r (is_advance 1 s)) = None" for r
      using Suc rb by (intro Suc.IH) simp_all
    ultimately show ?thesis
      using k rb by (subst varint_loop.simps) (simp add: and_0x80 add.commute [of "7 * k" 7])
  qed
qed

lemma varint_decode_exact:
  assumes "is_ok s"
  shows "fst (pb_decode_varint io s) = map_option (\<lambda>(n, r). of_nat n) (leb_read (take 10 (is_rest s)))"
proof (cases "leb_read (take 10 (is_rest s))")
  case None
  then show ?thesis using varint_loop_None [of 10 s 0] assms by (simp add: pb_decode_varint_def)
next
  case (Some x)
  then obtain n r where x: "leb_read (take 10 (is_rest s)) = Some (n, r)" by (cases x) auto
  then obtain p where p: "take 10 (is_rest s) = p @ r" "leb_read p = Some (n, [])"
    using leb_read_split by blast
  then have "is_rest s = p @ (r @ drop 10 (is_rest s))"
    by (metis append.assoc append_take_drop_id)
  moreover have "length p \<le> 10"
    using arg_cong [OF p(1), of length] by simp
  ultimately show ?thesis using takesD [OF varint_takes [OF p(2)] assms] x by simp
qed

text \<open>The 32-bit reader, for values that fit: also the overlong forms with trailing zero groups.\<close>

lemma varint32_loop_takes:
  assumes "leb_read p = Some (n, [])" and "k + length p \<le> 36"
    and "unat (result :: u32) < 2 ^ (7 * k)" and "unat result + n * 2 ^ (7 * k) < 2 ^ 32"
  shows "\<exists>last. takes (varint32_loop io (7 * k) result) p
                  (of_nat (unat result + n * 2 ^ (7 * k)), 7 * (k + length p), last) \<and>
                (k + length p = 5 \<longrightarrow> last AND 0x70 = 0)"
  using assms
proof (induction p arbitrary: n k result)
  case (Cons b q)
  let ?r = "if 7 * k \<ge> 32 then result else result OR push_bit (7 * k) (ucast (b AND 0x7F))"
  have k: "(7 * k + 7) mod 256 = 7 * Suc k" using Cons.prems by simp
  have n: "unat b mod 128 \<le> n" "n * 2 ^ (7 * k) < 2 ^ 32"
    using Cons.prems(1,4) by (auto split: if_splits)
  have le: "unat b mod 128 * 2 ^ (7 * k) \<le> n * 2 ^ (7 * k)" using n(1) by simp
  have zero: "unat b mod 128 = 0 \<and> n * 2 ^ (7 * k) = 0" if "7 * k \<ge> 32"
  proof -
    have "(2 :: nat) ^ 32 \<le> 2 ^ (7 * k)" using that by (intro power_increasing) simp_all
    then have "n = 0" using n(2) by (cases n) auto
    then show ?thesis using n(1) by simp
  qed
  have ok: "\<not> (7 * k \<ge> 32 \<and> b AND 0x7F \<noteq> 0 \<and> P)" for P
    using zero by (auto simp: word_unat_eq_iff byte_arith)
  have r: "unat ?r = unat result + unat b mod 128 * 2 ^ (7 * k)" "unat ?r < 2 ^ (7 * Suc k)"
  proof -
    have "8 \<le> LENGTH(32)" by simp
    note g = varint_group_add [OF Cons.prems(3) this, of b]
    show "unat ?r = unat result + unat b mod 128 * 2 ^ (7 * k)"
    proof (cases "7 * k \<ge> 32")
      case False
      have "unat result + unat b mod 128 * 2 ^ (7 * k) < 2 ^ 32" using le Cons.prems(4) by linarith
      then show ?thesis using False g(1) by simp
    qed (use zero in simp)
    then show "unat ?r < 2 ^ (7 * Suc k)" using g(2) by (simp only:)
  qed
  have step: "varint32_loop io (7 * k) result s =
      (if b AND 0x80 \<noteq> 0 then varint32_loop io (7 * Suc k) ?r (is_advance 1 s)
       else (Some (?r, 7 * Suc k, b), is_advance 1 s))"
    if "pb_readbyte io s = (Some b, is_advance 1 s)" for s
    by (subst varint32_loop.simps) (simp only: that prod.case option.case ok if_False Let_def k)
  from Cons.prems(1) show ?case
  proof (cases rule: leb_read_cases)
    case (1 c)
    have "takes (varint32_loop io (7 * k) result) [b] (?r, 7 * Suc k, b)"
      unfolding takes_def
    proof (intro allI impI)
      fix s :: "'a pb_istream" and rest assume "is_ok s \<and> is_rest s = [b] @ rest"
      then have "pb_readbyte io s = (Some b, is_advance 1 s)" using readbyte_Cons [of s b rest] by simp
      from step [OF this] show "varint32_loop io (7 * k) result s = (Some (?r, 7 * Suc k, b), is_advance (length [b]) s)"
        using 1 by (simp add: and_0x80)
    qed
    moreover have "?r = of_nat (unat result + n * 2 ^ (7 * k))"
      by (rule word_of_nat_eqI) (use r 1 in simp)
    moreover have "b AND 0x70 = 0" if "k + length (b # q) = 5"
    proof -
      have "k = 4" using that 1 by simp
      then have "unat b < 16" using n(2) 1 by simp
      then have "b = b AND 0x0f" by (simp add: word_unat_eq_iff byte_arith)
      then have "b AND 0x70 = (b AND 0x0f) AND 0x70" by simp
      then show ?thesis by (simp add: and.assoc)
    qed
    ultimately show ?thesis using 1 by auto
  next
    case (2 c q' m)
    have nm: "unat ?r + m * 2 ^ (7 * Suc k) = unat result + n * 2 ^ (7 * k)"
      using r(1) 2 by (simp add: algebra_simps power_add)
    obtain last where last: "takes (varint32_loop io (7 * Suc k) ?r) q
          (of_nat (unat ?r + m * 2 ^ (7 * Suc k)), 7 * (Suc k + length q), last)"
        "Suc k + length q = 5 \<longrightarrow> last AND 0x70 = 0"
      using Cons.IH [of m "Suc k" ?r] Cons.prems 2 r(2) nm by auto
    have "takes (varint32_loop io (7 * k) result) (b # q)
          (of_nat (unat result + n * 2 ^ (7 * k)), 7 * (k + length (b # q)), last)"
      unfolding takes_def
    proof (intro allI impI)
      fix s :: "'a pb_istream" and rest assume s: "is_ok s \<and> is_rest s = (b # q) @ rest"
      then have rb: "pb_readbyte io s = (Some b, is_advance 1 s)" "is_ok (is_advance 1 s)" "is_rest (is_advance 1 s) = q @ rest"
        using readbyte_Cons [of s b "q @ rest"] by auto
      show "varint32_loop io (7 * k) result s =
          (Some (of_nat (unat result + n * 2 ^ (7 * k)), 7 * (k + length (b # q)), last), is_advance (length (b # q)) s)"
        using takesD [OF last(1) rb(2,3)] 2 unfolding step [OF rb(1)] nm
        by (simp add: and_0x80 is_advance_add)
    qed
    then show ?thesis using last(2) by (intro exI [of _ last]) simp
  qed
qed simp

lemma varint32_eof_takes:
  assumes "leb_read p = Some (n, [])" and "length p \<le> 36" and "n < 2 ^ 32" and "is_ok s" and "is_rest s = p @ rest"
  shows "pb_decode_varint32_eof io s = (Some (of_nat n), False, is_advance (length p) s)"
  using assms(1)
proof (cases rule: leb_read_cases)
  case (1 b)
  then have "(ucast b :: u32) = of_nat n"
    using unat_u8_less [of b] by (intro word_of_nat_eqI) (simp add: byte_arith)
  then show ?thesis
    using 1 assms(5) readbyte_Cons [OF assms(4), of b rest] by (simp add: pb_decode_varint32_eof_def and_0x80_eq_0)
next
  case (2 b q m)
  have b: "unat (ucast (b AND 0x7F) :: u32) = unat b mod 128"
    by (subst unat_ucast_up) (simp_all add: byte_arith)
  then have "\<exists>last. takes (varint32_loop io (7 * 1) (ucast (b AND 0x7F))) q
                  (of_nat (unat (ucast (b AND 0x7F) :: u32) + m * 2 ^ (7 * 1)), 7 * (1 + length q), last) \<and>
                (1 + length q = 5 \<longrightarrow> last AND 0x70 = 0)"
    using 2 assms(2,3) by (intro varint32_loop_takes) simp_all
  then obtain last where last: "takes (varint32_loop io 7 (ucast (b AND 0x7F))) q (of_nat n, 7 * (1 + length q), last)"
      "length q = 4 \<longrightarrow> last AND 0x70 = 0"
    using b 2 by (auto simp: mult.commute)
  note rb = readbyte_Cons [OF assms(4), of b "q @ rest"]
  have "varint32_loop io 7 (ucast (b AND 0x7F)) (is_advance 1 s) =
      (Some (of_nat n, 7 * (1 + length q), last), is_advance (length q) (is_advance 1 s))"
    using rb 2 assms(5) by (intro takesD [OF last(1)]) auto
  then show ?thesis
    using rb 2 assms(5) last(2)
    by (simp add: pb_decode_varint32_eof_def and_0x80_eq_0 is_advance_add)
qed

lemma varint32_takes:
  "leb_read p = Some (n, []) \<Longrightarrow> length p \<le> 36 \<Longrightarrow> n < 2 ^ 32 \<Longrightarrow> takes (pb_decode_varint32 io) p (of_nat n)"
  unfolding takes_def by (simp add: pb_decode_varint32_def varint32_eof_takes)

lemma leb_read_own: "leb_read (leb n) = Some (n, [])"
  using leb_read_leb [of n "[]"] by simp

lemma length_leb_u32: "n < 2 ^ 32 \<Longrightarrow> length (leb n) \<le> 5"
  by (rule length_leb_le) simp_all

lemma varint32_leb: "n < 2 ^ 32 \<Longrightarrow> takes (pb_decode_varint32 io) (leb n) (of_nat n)"
  using length_leb_u32 [of n] by (intro varint32_takes) (simp_all add: leb_read_own)

lemma varint_leb: "takes (pb_decode_varint io) (leb (unat v)) v"
  using varint_takes [OF leb_read_own length_leb_u64 [of v], of io] by simp

text \<open>Zigzag: the sign moves to the lowest bit.\<close>

lemma sless_0_bit: "v <s 0 \<longleftrightarrow> bit (v :: u64) 63"
  using bit_last_iff [of v] by (simp add: word_sless_alt)

lemma drop_push_bits:
  fixes v :: u64
  assumes "n < 64"
  shows "bit (NOT (drop_bit k (NOT (push_bit k v)))) n \<longleftrightarrow> (k + n < 64 \<longrightarrow> bit v n)"
    and "bit (drop_bit k (push_bit k v)) n \<longleftrightarrow> k + n < 64 \<and> bit v n"
  using assms by (auto simp: bit_simps)

lemma drop_push_id:
  fixes v :: u64
  shows "bit v 63 \<Longrightarrow> NOT (drop_bit 1 (NOT (push_bit 1 v))) = v"
    and "\<not> bit v 63 \<Longrightarrow> drop_bit 1 (push_bit 1 v) = v"
proof -
  assume top: "bit v 63"
  show "NOT (drop_bit 1 (NOT (push_bit 1 v))) = v"
  proof (rule bit_word_eqI)
    fix n assume "n < LENGTH(64)"
    then have n: "n < 64" and "1 + n < 64 \<or> n = 63" by auto
    then show "bit (NOT (drop_bit 1 (NOT (push_bit 1 v)))) n \<longleftrightarrow> bit v n"
      using top unfolding drop_push_bits(1) [OF n] by blast
  qed
next
  assume top: "\<not> bit v 63"
  show "drop_bit 1 (push_bit 1 v) = v"
  proof (rule bit_word_eqI)
    fix n assume "n < LENGTH(64)"
    then have n: "n < 64" and "1 + n < 64 \<or> n = 63" by auto
    then show "bit (drop_bit 1 (push_bit 1 v)) n \<longleftrightarrow> bit v n"
      using top unfolding drop_push_bits(2) [OF n] by blast
  qed
qed

lemma unzigzag:
  "(if zigzag v AND 1 \<noteq> 0 then NOT (drop_bit 1 (zigzag v)) else drop_bit 1 (zigzag v)) = v"
proof -
  have odd: "zigzag v AND 1 \<noteq> 0 \<longleftrightarrow> bit v 63"
    by (simp add: zigzag_def sless_0_bit and_one_eq odd_iff_mod_2_eq_one [symmetric])
  show ?thesis
    using drop_push_id [of v] odd by (simp add: zigzag_def sless_0_bit del: push_bit_of_1)
qed

lemma svarint_leb: "takes (pb_decode_svarint io) (leb (unat (zigzag v))) v"
  unfolding takes_def pb_decode_svarint_def
  by (auto simp: takesD [OF varint_leb] unzigzag [simplified])

text \<open>Little-endian fixed-width integers.\<close>

lemma ucast_and_0xFF: "(ucast (x AND 0xFF :: 'a::len word) :: u8) = ucast x"
proof (rule bit_word_eqI)
  fix n assume "n < LENGTH(8)"
  moreover have "x AND 0xFF = take_bit 8 x" by (simp add: take_bit_eq_mask mask_eq_exp_minus_1)
  ultimately show "bit (ucast (x AND 0xFF) :: u8) n \<longleftrightarrow> bit (ucast x :: u8) n"
    by (auto simp: bit_simps)
qed

lemma byte_in_place:
  assumes "n < LENGTH('a::len)"
  shows "bit (push_bit k (ucast (ucast (drop_bit k v AND 0xFF) :: u8)) :: 'a word) n \<longleftrightarrow> k \<le> n \<and> n < k + 8 \<and> bit (v :: 'a word) n"
  using assms by (auto simp: ucast_and_0xFF bit_simps)

lemma fixed32_nth:
  "fixed32_bytes v ! 0 = ucast (drop_bit 0 v AND 0xFF)" "fixed32_bytes v ! 1 = ucast (drop_bit 8 v AND 0xFF)"
  "fixed32_bytes v ! 2 = ucast (drop_bit 16 v AND 0xFF)" "fixed32_bytes v ! 3 = ucast (drop_bit 24 v AND 0xFF)"
  by (simp_all add: fixed32_bytes_def)

lemma fixed64_nth:
  "fixed64_bytes v ! 0 = ucast (drop_bit 0 v AND 0xFF)" "fixed64_bytes v ! 1 = ucast (drop_bit 8 v AND 0xFF)"
  "fixed64_bytes v ! 2 = ucast (drop_bit 16 v AND 0xFF)" "fixed64_bytes v ! 3 = ucast (drop_bit 24 v AND 0xFF)"
  "fixed64_bytes v ! 4 = ucast (drop_bit 32 v AND 0xFF)" "fixed64_bytes v ! 5 = ucast (drop_bit 40 v AND 0xFF)"
  "fixed64_bytes v ! 6 = ucast (drop_bit 48 v AND 0xFF)" "fixed64_bytes v ! 7 = ucast (drop_bit 56 v AND 0xFF)"
  by (simp_all add: fixed64_bytes_def)

lemma fixed32_join:
  "push_bit 0 (ucast (fixed32_bytes v ! 0)) OR push_bit 8 (ucast (fixed32_bytes v ! 1)) OR
   push_bit 16 (ucast (fixed32_bytes v ! 2)) OR push_bit 24 (ucast (fixed32_bytes v ! 3)) = v"
  (is "?j = v")
proof (rule bit_word_eqI)
  fix n assume n: "n < LENGTH(32)"
  then have "n < 32" by simp
  then show "bit ?j n \<longleftrightarrow> bit v n"
    by (simp only: bit_or_iff fixed32_nth byte_in_place [OF n]) auto
qed

lemma fixed64_join:
  "push_bit 0 (ucast (fixed64_bytes v ! 0)) OR push_bit 8 (ucast (fixed64_bytes v ! 1)) OR
   push_bit 16 (ucast (fixed64_bytes v ! 2)) OR push_bit 24 (ucast (fixed64_bytes v ! 3)) OR
   push_bit 32 (ucast (fixed64_bytes v ! 4)) OR push_bit 40 (ucast (fixed64_bytes v ! 5)) OR
   push_bit 48 (ucast (fixed64_bytes v ! 6)) OR push_bit 56 (ucast (fixed64_bytes v ! 7)) = v"
  (is "?j = v")
proof (rule bit_word_eqI)
  fix n assume n: "n < LENGTH(64)"
  then have "n < 64" by simp
  then show "bit ?j n \<longleftrightarrow> bit v n"
    by (simp only: bit_or_iff fixed64_nth byte_in_place [OF n]) (cases "bit v n"; simp; linarith)
qed

lemma length_fixed [simp]: "length (fixed32_bytes v) = 4" "length (fixed64_bytes w) = 8"
  by (simp_all add: fixed32_bytes_def fixed64_bytes_def)

lemma fixed32_takes: "takes (pb_decode_fixed32 io) (fixed32_bytes v) v"
proof -
  have "takes (pb_read io True 4) (fixed32_bytes v) (fixed32_bytes v)"
    using takes_read [of io True "fixed32_bytes v"] by (simp only: length_fixed)
  from takes_map [OF this, of "\<lambda>bytes. push_bit 0 (ucast (bytes ! 0)) OR push_bit 8 (ucast (bytes ! 1)) OR
      push_bit 16 (ucast (bytes ! 2)) OR push_bit 24 (ucast (bytes ! 3)) :: u32"]
  show ?thesis unfolding pb_decode_fixed32_def [abs_def] fixed32_join .
qed

lemma fixed64_takes: "takes (pb_decode_fixed64 io) (fixed64_bytes v) v"
proof -
  have "takes (pb_read io True 8) (fixed64_bytes v) (fixed64_bytes v)"
    using takes_read [of io True "fixed64_bytes v"] by (simp only: length_fixed)
  from takes_map [OF this, of "\<lambda>bytes. push_bit 0 (ucast (bytes ! 0)) OR push_bit 8 (ucast (bytes ! 1)) OR
      push_bit 16 (ucast (bytes ! 2)) OR push_bit 24 (ucast (bytes ! 3)) OR
      push_bit 32 (ucast (bytes ! 4)) OR push_bit 40 (ucast (bytes ! 5)) OR
      push_bit 48 (ucast (bytes ! 6)) OR push_bit 56 (ucast (bytes ! 7)) :: u64"]
  show ?thesis unfolding pb_decode_fixed64_def [abs_def] fixed64_join .
qed

section \<open>Tags, strings and fields\<close>

text \<open>A tag that is not an end marker.\<close>

definition read_tag :: "'s icallback \<Rightarrow> 's pb_istream \<Rightarrow> (pb_wire_type_t \<times> u32) option \<times> 's pb_istream" where
  "read_tag io s = (case pb_decode_tag io s of ((ok, wt, num, eof), s) \<Rightarrow> (if ok then Some (wt, num) else None, s))"

definition pb_tag_number :: "pb_wire_type_t \<times> u32 \<Rightarrow> nat" where
  "pb_tag_number t = unat (snd t) * 8 + unat (fst t)"

definition tag_valid :: "pb_wire_type_t \<times> u32 \<Rightarrow> bool" where
  "tag_valid t \<longleftrightarrow> unat (fst t) < 8 \<and> unat (snd t) < 2 ^ 29 \<and> 0 < pb_tag_number t"

lemma emits_pb_tag: "tag_valid t \<Longrightarrow> emits (pb_encode_tag io (fst t) (snd t)) (leb (pb_tag_number t))"
proof -
  assume t: "tag_valid t"
  have "unat (push_bit 3 (ucast (snd t) :: u64) OR ucast (fst t)) = pb_tag_number t"
    using t by (subst unat_push_or) (simp_all add: tag_valid_def pb_tag_number_def unat_ucast_up)
  then show ?thesis using emits_tag [of io "fst t" "snd t"] by simp
qed

lemma read_tag_takes:
  assumes t: "tag_valid t"
  shows "takes (read_tag io) (leb (pb_tag_number t)) t"
proof -
  have less: "pb_tag_number t < 2 ^ 32" using t by (simp add: tag_valid_def pb_tag_number_def)
  have u: "unat (of_nat (pb_tag_number t) :: u32) = pb_tag_number t" using less by (simp add: unat_of_nat)
  have wt: "of_nat (pb_tag_number t) AND 7 = fst t" and num: "drop_bit 3 (of_nat (pb_tag_number t)) = snd t"
    using t u by (simp_all add: word_unat_eq_iff byte_arith tag_valid_def) (simp_all add: pb_tag_number_def)
  have "(of_nat (pb_tag_number t) :: u32) \<noteq> 0" using u t by (auto simp: tag_valid_def)
  moreover have "pb_decode_varint32_eof io s = (Some (of_nat (pb_tag_number t)), False, is_advance (length (leb (pb_tag_number t))) s)"
    if "is_ok s" "is_rest s = leb (pb_tag_number t) @ rest" for s :: "'a pb_istream" and rest
    using varint32_eof_takes [OF leb_read_own _ less that] length_leb_u32 [OF less] by simp
  ultimately show ?thesis
    using wt num by (auto simp: takes_def read_tag_def pb_decode_tag_def)
qed

text \<open>A string: its length and its bytes.\<close>

definition read_string :: "'s icallback \<Rightarrow> 's pb_istream \<Rightarrow> u8 list option \<times> 's pb_istream" where
  "read_string io s =
     (case pb_decode_varint32 io s of (None, s) \<Rightarrow> (None, s) | (Some len, s) \<Rightarrow> pb_read io True (unat len) s)"

lemma read_string_takes:
  assumes "length bs < 2 ^ 32"
  shows "takes (read_string io) (leb (length bs) @ bs) bs"
proof -
  have "takes (pb_read io True (unat (of_nat (length bs) :: u32))) bs bs"
    using assms takes_read [of io True bs] by (simp add: unat_of_nat)
  from takes_bind [where g = "\<lambda>len. pb_read io True (unat len)", OF varint32_leb [OF assms] this]
  show ?thesis unfolding read_string_def [abs_def] .
qed

text \<open>The fields of a message by wire type, as they are skipped. A base-128 integer, also the one in front of the
  bytes of a string, may be padded; the reader of lengths is exact up to 36 bytes of it.\<close>

datatype wire = Varint "u8 list" | Fixed64 "u8 list" | Bytes "u8 list" "u8 list" | Fixed32 "u8 list"

fun wire_type :: "wire \<Rightarrow> pb_wire_type_t" where
  "wire_type (Varint p) = PB_WT_VARINT"
| "wire_type (Fixed64 bs) = PB_WT_64BIT"
| "wire_type (Bytes p bs) = PB_WT_STRING"
| "wire_type (Fixed32 bs) = PB_WT_32BIT"

fun wire_bytes :: "wire \<Rightarrow> u8 list" where
  "wire_bytes (Bytes p bs) = p @ bs"
| "wire_bytes (Varint p) = p"
| "wire_bytes (Fixed64 bs) = bs"
| "wire_bytes (Fixed32 bs) = bs"

fun wire_valid :: "wire \<Rightarrow> bool" where
  "wire_valid (Varint p) = (case leb_read p of Some (n, []) \<Rightarrow> True | _ \<Rightarrow> False)"
| "wire_valid (Fixed64 bs) = (length bs = 8)"
| "wire_valid (Bytes p bs) = (leb_read p = Some (length bs, []) \<and> length bs < 2 ^ 32 \<and> length p \<le> 36)"
| "wire_valid (Fixed32 bs) = (length bs = 4)"

lemma pb_read_advance:
  "is_ok s \<Longrightarrow> is_rest s = bs @ rest \<Longrightarrow> n = length bs \<Longrightarrow> pb_read io b n s = (Some bs, is_advance n s)"
  using takesD [OF takes_read] by fastforce

lemma skip_varint_exact:
  assumes "leb_read p = Some (n, [])" and "is_ok s" and "is_rest s = p @ rest"
  shows "pb_skip_varint io s = (True, is_advance (length p) s)"
  using assms
proof (induction p arbitrary: n s)
  case (Cons b q)
  have rd: "pb_read io True 1 s = (Some [b], is_advance 1 s)"
    using Cons.prems by (intro pb_read_advance) auto
  from Cons.prems(1) show ?case
  proof (cases rule: leb_read_cases)
    case (1 c)
    then show ?thesis using rd by (subst pb_skip_varint.simps) (simp add: and_0x80)
  next
    case (2 c q' m)
    have "pb_skip_varint io (is_advance 1 s) = (True, is_advance (length q) (is_advance 1 s))"
      using Cons.prems 2 readbyte_Cons [of s b "q @ rest"] by (intro Cons.IH) auto
    then show ?thesis using rd 2 by (subst pb_skip_varint.simps) (simp add: and_0x80 is_advance_add)
  qed
qed simp

lemma skip_string_exact:
  assumes "leb_read p = Some (length bs, [])" and "length bs < 2 ^ 32" and "length p \<le> 36"
    and "is_ok s" and "is_rest s = p @ bs @ rest"
  shows "pb_skip_string io s = (True, is_advance (length (p @ bs)) s)"
proof -
  let ?t = "is_advance (length p) s"
  have "pb_decode_varint32 io s = (Some (of_nat (length bs)), ?t)"
    by (rule takesD [OF varint32_takes [OF assms(1,3,2)] assms(4,5)])
  moreover have "pb_read io False (unat (of_nat (length bs) :: u32)) ?t = (Some bs, is_advance (length bs) ?t)"
    using assms is_advance_rest [of s p "bs @ rest"] pb_read_advance [of ?t bs rest] by (simp add: unat_of_nat)
  ultimately show ?thesis by (simp add: pb_skip_string_def is_advance_add add.commute)
qed

lemma skip_field_exact:
  assumes "wire_valid w" and "is_ok s" and "is_rest s = wire_bytes w @ rest"
  shows "pb_skip_field io (wire_type w) s = (True, is_advance (length (wire_bytes w)) s)"
proof (cases w)
  case (Varint p)
  then obtain n where "leb_read p = Some (n, [])" using assms(1) by (auto split: option.splits list.splits)
  then show ?thesis using Varint assms skip_varint_exact by (simp add: pb_skip_field_def)
next
  case (Bytes p bs)
  then show ?thesis using assms skip_string_exact [of p bs s rest io] by (simp add: pb_skip_field_def PB_WT_STRING_def PB_WT_VARINT_def PB_WT_64BIT_def)
qed (use assms in \<open>auto simp: pb_skip_field_def PB_WT_32BIT_def PB_WT_VARINT_def PB_WT_64BIT_def PB_WT_STRING_def pb_read_advance\<close>)

text \<open>Behind continuation bytes without a value, the position of the last group is taken modulo 256.\<close>

lemma varint32_loop_zeros:
  assumes "is_ok s" and "is_rest s = replicate n 0x80 @ b # rest" and "unat b < 128" and "pos < 256"
  shows "varint32_loop io pos 0 s =
     (let p = (pos + 7 * n) mod 256 in
      if 32 \<le> p \<and> b \<noteq> 0 then (None, is_error ''varint overflow'' (is_advance (Suc n) s))
      else (Some (if 32 \<le> p then 0 else push_bit p (ucast b), (p + 7) mod 256, b), is_advance (Suc n) s))"
  using assms
proof (induction n arbitrary: s pos)
  case 0
  have "b AND 0x7F = b" using 0 by (simp add: word_unat_eq_iff byte_arith)
  moreover have "b AND 0x80 = 0" using 0 by (simp add: and_0x80_eq_0)
  moreover have "pb_readbyte io s = (Some b, is_advance 1 s)" using 0 by (intro readbyte_Cons) auto
  ultimately show ?case using 0 by (subst varint32_loop.simps) (auto simp: Let_def)
next
  case (Suc n)
  have rest: "is_rest s = 0x80 # (replicate n 0x80 @ b # rest)" using Suc.prems by simp
  note rb = readbyte_Cons [OF Suc.prems(1) rest]
  have "varint32_loop io pos 0 s = varint32_loop io ((pos + 7) mod 256) 0 (is_advance 1 s)"
    using rb(1) by (subst varint32_loop.simps) (simp add: Let_def)
  also have "\<dots> = (let p = ((pos + 7) mod 256 + 7 * n) mod 256 in
      if 32 \<le> p \<and> b \<noteq> 0 then (None, is_error ''varint overflow'' (is_advance (Suc n) (is_advance 1 s)))
      else (Some (if 32 \<le> p then 0 else push_bit p (ucast b), (p + 7) mod 256, b), is_advance (Suc n) (is_advance 1 s)))"
    by (rule Suc.IH) (use rb Suc.prems in auto)
  also have "((pos + 7) mod 256 + 7 * n) mod 256 = (pos + 7 * Suc n) mod 256"
    by (simp add: mod_add_left_eq add.assoc)
  also have "is_advance (Suc n) (is_advance 1 s) = is_advance (Suc (Suc n)) s" by (simp add: is_advance_add)
  finally show ?case .
qed

lemma leb_read_zeros: "unat b < 128 \<Longrightarrow> leb_read (replicate n 0x80 @ [b]) = Some (unat b * 2 ^ (7 * n), [])"
  by (induction n) (simp_all add: power_add)

lemma push_bit_byte: "push_bit p (ucast (b :: u8) :: u32) = of_nat (unat b * 2 ^ p)"
  by (simp add: push_bit_eq_mult)

lemma and_0x70: "unat (b :: u8) < 128 \<Longrightarrow> b AND 0x70 \<noteq> 0 \<longleftrightarrow> 16 \<le> unat b"
proof -
  assume b: "unat b < 128"
  have mask: "(0x70 :: u8) = push_bit 4 (mask 3)" by (simp add: mask_eq_exp_minus_1 push_bit_eq_mult)
  have "b AND 0x70 = push_bit 4 (take_bit 3 (drop_bit 4 b))"
    unfolding mask by (rule bit_word_eqI) (auto simp: bit_simps simp del: push_bit_numeral)
  then have "unat (b AND 0x70) = 16 * (unat b div 16 mod 8)"
    by (simp only: unat_push_bit unat_take_bit unat_drop_bit) simp
  moreover have "unat b div 16 < 8" using b by (simp add: less_mult_imp_div_less)
  ultimately show ?thesis by (simp add: word_unat_eq_iff div_eq_0_iff not_less)
qed

lemma varint32_zeros:
  assumes "is_ok s" and "is_rest s = replicate n 0x80 @ b # rest" and "unat b < 128"
  shows "pb_decode_varint32 io s =
     (let p = 7 * n mod 256 in
      if 32 \<le> p \<and> b \<noteq> 0 \<or> p = 28 \<and> 16 \<le> unat b
      then (None, is_error ''varint overflow'' (is_advance (Suc n) s))
      else (Some (of_nat (unat b * 2 ^ p)), is_advance (Suc n) s))"
proof (cases n)
  case 0
  have "pb_readbyte io s = (Some b, is_advance 1 s)" using assms 0 by (intro readbyte_Cons) auto
  moreover have "b AND 0x80 = 0" using assms(3) by (simp add: and_0x80_eq_0)
  moreover have "(ucast b :: u32) = of_nat (unat b)" by simp
  ultimately show ?thesis using 0 by (simp add: pb_decode_varint32_def pb_decode_varint32_eof_def)
next
  case (Suc m)
  have rest: "is_rest s = 0x80 # (replicate m 0x80 @ b # rest)" using assms Suc by simp
  note rb = readbyte_Cons [OF assms(1) rest]
  have p: "(7 + 7 * m) mod 256 = 7 * n mod 256" using Suc by simp
  have adv: "is_advance (Suc m) (is_advance 1 s) = is_advance (Suc n) s" by (simp add: is_advance_add Suc)
  define q where "q = 7 * n mod 256"
  have loop: "varint32_loop io 7 0 (is_advance 1 s) =
     (if 32 \<le> q \<and> b \<noteq> 0 then (None, is_error ''varint overflow'' (is_advance (Suc n) s))
      else (Some (if 32 \<le> q then 0 else push_bit q (ucast b), (q + 7) mod 256, b), is_advance (Suc n) s))"
    using varint32_loop_zeros [OF rb(2,3) assms(3), of 7 io] unfolding p adv q_def [symmetric] Let_def by simp
  have byte: "(0x80 :: u8) AND 0x80 \<noteq> 0" "(0x80 :: u8) AND 0x7F = 0" by simp_all
  note decode = pb_decode_varint32_def pb_decode_varint32_eof_def rb(1) byte
  show ?thesis
  proof (cases "32 \<le> q \<and> b \<noteq> 0")
    case True
    then show ?thesis unfolding q_def [symmetric] using loop by (simp add: decode)
  next
    case False
    have "q < 256" by (simp add: q_def)
    then have q35: "(q + 7) mod 256 = 35 \<longleftrightarrow> q = 28"
      by (cases "q + 7 < 256") (auto simp: mod_if)
    have "(if 32 \<le> q then 0 else push_bit q (ucast b)) = (of_nat (unat b * 2 ^ q) :: u32)"
      using False by (auto simp: push_bit_byte)
    with loop False have "varint32_loop io 7 0 (is_advance 1 s) =
        (Some (of_nat (unat b * 2 ^ q), (q + 7) mod 256, b), is_advance (Suc n) s)"
      by (simp only: if_False)
    then show ?thesis
      unfolding q_def [symmetric] using False and_0x70 [OF assms(3)] by (simp add: decode q35)
  qed
qed

text \<open>A substream sees exactly the string; closing it moves the parent behind the string, however much
  of it was read.\<close>

lemma substream_exact:
  assumes len: "length bs < 2 ^ 32" and ok: "is_ok s" and rest: "is_rest s = (leb (length bs) @ bs) @ rest"
  obtains sub parent where "pb_make_string_substream io s = (Some sub, parent)"
    and "is_ok sub" and "is_rest sub = bs"
    and "\<And>k. k \<le> length bs \<Longrightarrow> pb_close_string_substream io parent (is_advance k sub) =
            (True, is_advance (length (leb (length bs) @ bs)) s)"
proof -
  let ?t = "is_advance (length (leb (length bs))) s"
  let ?sub = "?t\<lparr>is_bytes_left := length bs\<rparr>" and ?parent = "is_consume (length bs) ?t"
  have rd: "pb_decode_varint32 io s = (Some (of_nat (length bs)), ?t)"
    using takesD [OF varint32_leb [OF len] ok] rest by simp
  have t: "is_ok ?t" "is_rest ?t = bs @ rest" "is_bytes_left ?t = length bs + length rest"
    using is_advance_rest [OF ok, of "leb (length bs)" "bs @ rest"] rest by simp_all
  have mk: "pb_make_string_substream io s = (Some ?sub, ?parent)"
    using rd t(3) len by (simp add: pb_make_string_substream_def unat_of_nat)
  have sub: "is_ok ?sub" using t(1,3) by (simp add: is_ok_def)
  have "take (length bs) (is_source ?t) = take (length bs) (is_rest ?t)"
    unfolding is_rest_def t(3) by simp
  then have srest: "is_rest ?sub = bs" unfolding t(2) by (simp add: is_rest_def)
  have "pb_close_string_substream io ?parent (is_advance k ?sub) = (True, is_advance (length (leb (length bs) @ bs)) s)"
    if k: "k \<le> length bs" for k
  proof -
    have sk: "is_ok (is_advance k ?sub)" "is_rest (is_advance k ?sub) = drop k bs"
      using is_advance_ok [OF sub, of k] k srest by simp_all
    have left: "is_bytes_left (is_advance k ?sub) = length bs - k" by (simp add: is_advance_def)
    have "pb_read io False (length bs - k) (is_advance k ?sub) = (Some (drop k bs), is_advance (length bs - k) (is_advance k ?sub))"
      using sk by (intro pb_read_advance [where rest = "[]"]) simp_all
    then have drained: "pb_read io False (length bs - k) (is_advance k ?sub) = (Some (drop k bs), is_advance (length bs) ?sub)"
      using k by (simp add: is_advance_add)
    have close: "pb_close_string_substream io ?parent (is_advance k ?sub) =
        (True, ?parent\<lparr>is_source := is_source (is_advance (length bs) ?sub), is_state := is_state (is_advance (length bs) ?sub),
                        is_errmsg := is_errmsg (is_advance (length bs) ?sub)\<rparr>)"
    proof (cases "k = length bs")
      case True
      show ?thesis using left unfolding True by (simp add: pb_close_string_substream_def)
    next
      case False
      then show ?thesis using k by (simp add: pb_close_string_substream_def left drained)
    qed
    show ?thesis
      unfolding close by (cases s) (simp add: is_consume_def is_advance_def add.commute)
  qed
  with that [OF mk sub srest] show thesis by blast
qed

end
