(* ===== verification/PbCodec.thy ===== *)
theory PbCodec
  imports PbWireSpec
begin

text \<open>
  The contract between the writers and the readers of the wire format: \<open>wr x\<close> emits the bytes \<open>enc x\<close> and
  \<open>rd\<close> takes them as \<open>x\<close>. From it follow the round trip of a whole sequence of values through a buffer
  and the agreement of the sizing stream with what is really written. The interpretations show the contract
  for the code's pairs.
\<close>

locale pb_codec =
  fixes wr :: "'a \<Rightarrow> unit pb_ostream \<Rightarrow> bool \<times> unit pb_ostream"
    and rd :: "unit pb_istream \<Rightarrow> 'a option \<times> unit pb_istream"
    and enc :: "'a \<Rightarrow> u8 list"
    and valid :: "'a \<Rightarrow> bool"
  assumes wr_emits: "valid x \<Longrightarrow> emits (wr x) (enc x)"
    and rd_takes: "valid x \<Longrightarrow> takes rd (enc x) x"
begin

fun write_all :: "'a list \<Rightarrow> unit pb_ostream \<Rightarrow> bool \<times> unit pb_ostream" where
  "write_all [] s = (True, s)"
| "write_all (x # xs) s = c_and (wr x) (write_all xs) s"

fun read_all :: "nat \<Rightarrow> unit pb_istream \<Rightarrow> 'a list option \<times> unit pb_istream" where
  "read_all 0 s = (Some [], s)"
| "read_all (Suc n) s =
     (case rd s of (None, s) \<Rightarrow> (None, s)
      | (Some x, s) \<Rightarrow> (case read_all n s of (None, s) \<Rightarrow> (None, s) | (Some xs, s) \<Rightarrow> (Some (x # xs), s)))"

definition wire_list :: "'a list \<Rightarrow> u8 list" where
  "wire_list xs = concat (map enc xs)"

lemma write_all_emits: "(\<And>x. x \<in> set xs \<Longrightarrow> valid x) \<Longrightarrow> emits (write_all xs) (wire_list xs)"
proof (induction xs)
  case Nil
  then show ?case by (simp add: emits_def os_append_def os_ok_def wire_list_def)
next
  case (Cons x xs)
  have "emits (c_and (wr x) (write_all xs)) (enc x @ wire_list xs)"
    using Cons by (intro emits_seq wr_emits) auto
  moreover have "write_all (x # xs) = c_and (wr x) (write_all xs)" by (rule ext) simp
  ultimately show ?case by (simp add: wire_list_def)
qed

lemma read_all_takes: "(\<And>x. x \<in> set xs \<Longrightarrow> valid x) \<Longrightarrow> takes (read_all (length xs)) (wire_list xs) xs"
proof (induction xs)
  case Nil
  then show ?case by (simp add: takes_def wire_list_def)
next
  case (Cons x xs)
  have tl: "takes (\<lambda>s. case read_all (length xs) s of (None, s) \<Rightarrow> (None, s) | (Some xs, s) \<Rightarrow> (Some (x # xs), s))
      (wire_list xs) (x # xs)"
    using Cons by (intro takes_map) auto
  have "takes rd (enc x) x" using Cons.prems by (intro rd_takes) simp
  from takes_bind [where g = "\<lambda>x s. case read_all (length xs) s of (None, s) \<Rightarrow> (None, s) | (Some xs, s) \<Rightarrow> (Some (x # xs), s)",
      OF this tl]
  show ?case by (simp add: takes_def wire_list_def)
qed

text \<open>What is written to a buffer that is large enough is read back.\<close>

lemma buffer_roundtrip:
  assumes "\<And>x. x \<in> set xs \<Longrightarrow> valid x" and "length (wire_list xs) \<le> n" and "n < 2 ^ 63"
  obtains os where "write_all xs (pb_ostream_from_buffer n) = (True, os)"
    and "os_bytes_written os = length (os_out os)" and "os_bytes_written os \<le> n"
    and "fst (read_all (length xs) (pb_istream_from_buffer (os_out os @ junk) (os_bytes_written os))) = Some xs"
proof -
  let ?b = "pb_ostream_from_buffer n" and ?w = "wire_list xs"
  have b: "os_ok ?b" "os_out ?b = []" "os_bytes_written ?b = 0" "os_max_size ?b = n"
    using assms(3) by (simp_all add: pb_ostream_from_buffer_def os_ok_def)
  have w: "write_all xs ?b = (True, os_append ?w ?b)"
    using write_all_emits [OF assms(1)] b assms(2) unfolding emits_def by force
  have "is_ok (pb_istream_from_buffer (?w @ junk) (length ?w))" using assms(2,3) by simp
  then have "read_all (length xs) (pb_istream_from_buffer (?w @ junk) (length ?w)) =
      (Some xs, is_advance (length ?w) (pb_istream_from_buffer (?w @ junk) (length ?w)))"
    by (intro takesD [OF read_all_takes [OF assms(1)], where rest = "[]"]) simp_all
  with that [OF w] show thesis using b assms(2) by simp
qed

text \<open>The sizing stream finds the exact size, and a buffer of one byte less is refused without an overrun.\<close>

lemma sizing_exact:
  assumes "\<And>x. x \<in> set xs \<Longrightarrow> valid x" and "length (wire_list xs) < 2 ^ 63"
    and "write_all xs PB_OSTREAM_SIZING = (ok, sz)"
  shows "ok" and "os_bytes_written sz = length (wire_list xs)"
    and "n < 2 ^ 63 \<Longrightarrow> fst (write_all xs (pb_ostream_from_buffer n)) \<longleftrightarrow> os_bytes_written sz \<le> n"
    and "n < 2 ^ 63 \<Longrightarrow> length (os_out (snd (write_all xs (pb_ostream_from_buffer n)))) \<le> n"
proof -
  note e = write_all_emits [OF assms(1)]
  have "write_all xs PB_OSTREAM_SIZING =
      (True, PB_OSTREAM_SIZING\<lparr>os_bytes_written := szadd (os_bytes_written PB_OSTREAM_SIZING) (length (wire_list xs))\<rparr>)"
    using e by (simp add: emits_def PB_OSTREAM_SIZING_def)
  then show ok and sz: "os_bytes_written sz = length (wire_list xs)"
    using assms(2,3) by (auto simp: PB_OSTREAM_SIZING_def)
  assume n: "n < 2 ^ 63"
  let ?b = "pb_ostream_from_buffer n :: unit pb_ostream"
  have b: "os_ok ?b" "os_bytes_written ?b = 0" "os_max_size ?b = n" "os_out ?b = []"
    using n by (simp_all add: pb_ostream_from_buffer_def os_ok_def)
  from e b have cases: "if length (wire_list xs) \<le> n then write_all xs ?b = (True, os_append (wire_list xs) ?b)
      else fst (write_all xs ?b) = False \<and> os_ok (snd (write_all xs ?b)) \<and> os_max_size (snd (write_all xs ?b)) = n"
    unfolding emits_def by (metis add_0)
  then show "fst (write_all xs ?b) \<longleftrightarrow> os_bytes_written sz \<le> n"
    using sz by (auto split: if_splits)
  show "length (os_out (snd (write_all xs ?b))) \<le> n"
    using cases b(4) by (auto split: if_splits simp: os_ok_def)
qed

end

text \<open>The pairs of the code.\<close>

interpretation pb_varint: pb_codec "pb_encode_varint io" "pb_decode_varint ip" "\<lambda>v. leb (unat v)" "\<lambda>v. True"
  by unfold_locales (rule emits_varint varint_leb)+

interpretation pb_varint32: pb_codec "\<lambda>v. pb_encode_varint io (ucast v)" "pb_decode_varint32 ip" "\<lambda>v. leb (unat v)" "\<lambda>v. True"
proof unfold_locales
  fix x :: u32
  have "unat (ucast x :: u64) = unat x" by (rule unat_ucast_up) simp
  then show "emits (pb_encode_varint io (ucast x)) (leb (unat x))" using emits_varint [of io "ucast x"] by simp
  have "unat x < 2 ^ 32" by (rule order.strict_trans2 [OF unsigned_less]) simp
  from varint32_leb [OF this, of ip] show "takes (pb_decode_varint32 ip) (leb (unat x)) x" by simp
qed

interpretation pb_svarint: pb_codec "pb_encode_svarint io" "pb_decode_svarint ip" "\<lambda>v. leb (unat (zigzag v))" "\<lambda>v. True"
  by unfold_locales (rule emits_svarint svarint_leb)+

interpretation pb_fixed32: pb_codec "pb_encode_fixed32 io" "pb_decode_fixed32 ip" fixed32_bytes "\<lambda>v. True"
  by unfold_locales (rule emits_fixed32 fixed32_takes)+

interpretation pb_fixed64: pb_codec "pb_encode_fixed64 io" "pb_decode_fixed64 ip" fixed64_bytes "\<lambda>v. True"
  by unfold_locales (rule emits_fixed64 fixed64_takes)+

interpretation pb_tag: pb_codec "\<lambda>t. pb_encode_tag io (fst t) (snd t)" "read_tag ip" "\<lambda>t. leb (pb_tag_number t)" tag_valid
  by unfold_locales (rule emits_pb_tag read_tag_takes; assumption)+

interpretation pb_string: pb_codec "pb_encode_string io" "read_string ip" "\<lambda>bs. leb (length bs) @ bs" "\<lambda>bs. length bs < 2 ^ 32"
  by unfold_locales (rule emits_string read_string_takes; simp)+

end
