(* ===== verification/PbMem.thy ===== *)
theory PbMem
  imports Prelude
begin

text \<open>
  The memory in which nanopb keeps messages: bytes at addresses, as the pointer arithmetic, the unions
  and the type casts of \<open>pb_decode.c\<close> and \<open>pb_encode.c\<close> need it. The C library's \<open>realloc\<close> and \<open>free\<close> are
  parameters that work on this memory; \<open>pm_heap\<close> is their own state. Address 0 is NULL. Integers and
  pointers lie in memory in little-endian order.
\<close>

record 'h pb_mem =
  pm_byte :: "nat \<Rightarrow> u8"
  pm_heap :: 'h

type_synonym 'h reallocator = "nat \<Rightarrow> nat \<Rightarrow> 'h pb_mem \<Rightarrow> nat \<times> 'h pb_mem"

type_synonym 'h deallocator = "nat \<Rightarrow> 'h pb_mem \<Rightarrow> 'h pb_mem"

definition load :: "nat \<Rightarrow> nat \<Rightarrow> 'h pb_mem \<Rightarrow> u8 list" where
  "load a n m = map (pm_byte m) [a..<a + n]"

definition store :: "nat \<Rightarrow> u8 list \<Rightarrow> 'h pb_mem \<Rightarrow> 'h pb_mem" where
  "store a bs m = m\<lparr>pm_byte := (\<lambda>x. if a \<le> x \<and> x < a + length bs then bs ! (x - a) else pm_byte m x)\<rparr>"

definition le_bytes :: "nat \<Rightarrow> nat \<Rightarrow> u8 list" where
  "le_bytes n v = rev (be_bytes n v)"

definition le_val :: "u8 list \<Rightarrow> nat" where
  "le_val bs = be_val (rev bs)"

text \<open>\<open>*(T* )dest = v\<close> and \<open>*(const T* )src\<close> for an integer type of \<open>n\<close> bytes.\<close>

definition store_int :: "nat \<Rightarrow> nat \<Rightarrow> nat \<Rightarrow> 'h pb_mem \<Rightarrow> 'h pb_mem" where
  "store_int n v a m = store a (le_bytes n v) m"

definition load_int :: "nat \<Rightarrow> nat \<Rightarrow> 'h pb_mem \<Rightarrow> nat" where
  "load_int n a m = le_val (load a n m)"

text \<open>\<open>*(void** )a\<close>.\<close>

definition load_ptr :: "nat \<Rightarrow> 'h pb_mem \<Rightarrow> nat" where
  "load_ptr a m = load_int 8 a m"

definition store_ptr :: "nat \<Rightarrow> nat \<Rightarrow> 'h pb_mem \<Rightarrow> 'h pb_mem" where
  "store_ptr p a m = store_int 8 p a m"

section \<open>Integers as bytes\<close>

lemma length_le_bytes [simp]: "length (le_bytes n v) = n"
  by (simp add: le_bytes_def)

lemma le_bytes_le_val: "length src = n \<Longrightarrow> le_bytes n (le_val src) = src"
  using be_bytes_be_val [of "rev src"] by (simp add: le_bytes_def le_val_def)

lemma le_val_le_bytes: "le_val (le_bytes n v) = v mod 256 ^ n"
  by (simp add: le_val_def le_bytes_def be_val_be_bytes)

lemma le_bytes_mod: "le_bytes n (v mod 256 ^ n) = le_bytes n v"
  by (simp add: le_bytes_def be_bytes_mod)

lemma le_val_bound: "le_val src < 256 ^ length src"
  using be_val_bound [of "rev src"] by (simp add: le_val_def)

section \<open>Reading and writing regions\<close>

abbreviation region :: "nat \<Rightarrow> nat \<Rightarrow> nat set" where
  "region a n \<equiv> {a..<a + n}"

lemma length_load [simp]: "length (load a n m) = n"
  by (simp add: load_def)

lemma load_0 [simp]: "load a 0 m = []"
  by (simp add: load_def)

lemma nth_load: "i < n \<Longrightarrow> load a n m ! i = pm_byte m (a + i)"
  by (simp add: load_def)

lemma load_add: "load a (n + k) m = load a n m @ load (a + n) k m"
proof -
  have "[a..<a + (n + k)] = [a..<a + n] @ [a + n..<a + n + k]"
    using upt_add_eq_append [of a "a + n" k] by (simp add: add.assoc)
  then show ?thesis by (simp add: load_def)
qed

lemma take_load: "take k (load a n m) = load a (min k n) m"
  by (simp add: load_def take_map take_upt min_def add.commute)

lemma drop_load: "drop k (load a n m) = load (a + k) (n - k) m"
proof (cases "k \<le> n")
  case True
  then have "a + k + (n - k) = a + n" by simp
  then show ?thesis by (simp only: load_def drop_map drop_upt)
qed (simp add: load_def)

lemma load_Suc: "load a (Suc n) m = pm_byte m a # load (Suc a) n m"
  by (simp add: load_def upt_conv_Cons del: upt_Suc)

lemma load_eq_iff: "load a n m = load b n m' \<longleftrightarrow> (\<forall>i < n. pm_byte m (a + i) = pm_byte m' (b + i))"
  by (simp add: list_eq_iff_nth_eq nth_load)

lemma pm_byte_store:
  "pm_byte (store a bs m) x = (if x \<in> region a (length bs) then bs ! (x - a) else pm_byte m x)"
  by (simp add: store_def)

lemma pm_heap_store [simp]: "pm_heap (store a bs m) = pm_heap m"
  by (simp add: store_def)

lemma store_Nil [simp]: "store a [] m = m"
  by (rule pb_mem.equality) (auto simp: store_def fun_eq_iff)

lemma load_store_same [simp]: "load a (length bs) (store a bs m) = bs"
  by (rule nth_equalityI) (auto simp: nth_load pm_byte_store)

lemma load_store_other: "region a n \<inter> region b (length bs) = {} \<Longrightarrow> load a n (store b bs m) = load a n m"
  unfolding load_eq_iff by (auto simp: pm_byte_store)

lemma store_append: "store a (bs @ cs) m = store (a + length bs) cs (store a bs m)"
  by (rule pb_mem.equality) (auto simp: store_def fun_eq_iff nth_append)

lemma store_store_same: "length bs = length cs \<Longrightarrow> store a bs (store a cs m) = store a bs m"
  by (simp add: store_def fun_eq_iff)

lemma store_load [simp]: "store a (load a n m) m = m"
  by (rule pb_mem.equality) (auto simp: store_def fun_eq_iff nth_load)

lemma load_int_bound: "load_int n a m < 256 ^ n"
  using le_val_bound [of "load a n m"] by (simp add: load_int_def)

lemma load_int_store_same: "load_int n a (store_int n v a m) = v mod 256 ^ n"
  using load_store_same [of a "le_bytes n v" m] by (simp add: load_int_def store_int_def le_val_le_bytes)

section \<open>Changes confined to a region\<close>

text \<open>\<open>changes A m m'\<close>: the step from \<open>m\<close> to \<open>m'\<close> changes no byte outside \<open>A\<close> and does not allocate.\<close>

definition changes :: "nat set \<Rightarrow> 'h pb_mem \<Rightarrow> 'h pb_mem \<Rightarrow> bool" where
  "changes A m m' \<longleftrightarrow> (\<forall>x. x \<notin> A \<longrightarrow> pm_byte m' x = pm_byte m x) \<and> pm_heap m' = pm_heap m"

named_theorems frame \<open>what a step leaves alone\<close>

lemma changes_refl [simp, intro]: "changes A m m"
  by (simp add: changes_def)

lemma changes_trans: "changes A m m' \<Longrightarrow> changes A m' m'' \<Longrightarrow> changes A m m''"
  by (simp add: changes_def)

lemma changes_mono: "changes A m m' \<Longrightarrow> A \<subseteq> B \<Longrightarrow> changes B m m'"
  by (auto simp: changes_def)

lemma changes_store: "region a (length bs) \<subseteq> A \<Longrightarrow> changes A m (store a bs m)"
  by (auto simp: changes_def pm_byte_store)

lemma changes_store_int: "region a n \<subseteq> A \<Longrightarrow> changes A m (store_int n v a m)"
  unfolding store_int_def by (rule changes_store) simp

lemma changes_load: "changes A m m' \<Longrightarrow> region a n \<inter> A = {} \<Longrightarrow> load a n m' = load a n m"
  unfolding load_eq_iff changes_def by (simp add: disjoint_iff)

lemma changes_load_int: "changes A m m' \<Longrightarrow> region a n \<inter> A = {} \<Longrightarrow> load_int n a m' = load_int n a m"
  unfolding load_int_def by (simp add: changes_load)

lemma changes_byte: "changes A m m' \<Longrightarrow> x \<notin> A \<Longrightarrow> pm_byte m' x = pm_byte m x"
  by (simp add: changes_def)

lemma load_int_1: "load_int 1 a m = unat (pm_byte m a)"
  by (simp add: load_int_def le_val_def load_def)

end
