(* ===== verification/PbField.thy ===== *)
theory PbField
  imports PbCodec PbMem
begin

text \<open>
  The field decoders and encoders of nanopb: the conversion between a field of a message structure in
  memory and its value on the wire (\<open>pb_dec_*\<close> of \<open>pb_decode.c\<close>, \<open>pb_enc_*\<close> of \<open>pb_encode.c\<close>), with the
  allocation of pointer fields. The configuration is the one of the program: \<open>PB_FIELD_32BIT\<close>,
  \<open>PB_NO_PACKED_STRUCTS\<close> and \<open>PB_ENABLE_MALLOC\<close>, on a 64-bit little-endian target.
\<close>

text \<open>\<open>struct pb_field_s\<close>; \<open>pf_ptr\<close> is the address of the descriptors of a submessage or of a default value.\<close>

record pb_field_t =
  pf_tag :: u32
  pf_type :: u8
  pf_data_offset :: nat
  pf_size_offset :: int
  pf_data_size :: nat
  pf_array_size :: nat
  pf_ptr :: nat

definition PB_LTYPE_BOOL :: u8 where "PB_LTYPE_BOOL = 0x00"
definition PB_LTYPE_VARINT :: u8 where "PB_LTYPE_VARINT = 0x01"
definition PB_LTYPE_UVARINT :: u8 where "PB_LTYPE_UVARINT = 0x02"
definition PB_LTYPE_SVARINT :: u8 where "PB_LTYPE_SVARINT = 0x03"
definition PB_LTYPE_FIXED32 :: u8 where "PB_LTYPE_FIXED32 = 0x04"
definition PB_LTYPE_FIXED64 :: u8 where "PB_LTYPE_FIXED64 = 0x05"
definition PB_LTYPE_LAST_PACKABLE :: u8 where "PB_LTYPE_LAST_PACKABLE = 0x05"
definition PB_LTYPE_BYTES :: u8 where "PB_LTYPE_BYTES = 0x06"
definition PB_LTYPE_STRING :: u8 where "PB_LTYPE_STRING = 0x07"
definition PB_LTYPE_SUBMESSAGE :: u8 where "PB_LTYPE_SUBMESSAGE = 0x08"
definition PB_LTYPE_EXTENSION :: u8 where "PB_LTYPE_EXTENSION = 0x09"
definition PB_LTYPE_FIXED_LENGTH_BYTES :: u8 where "PB_LTYPE_FIXED_LENGTH_BYTES = 0x0A"
definition PB_HTYPE_REQUIRED :: u8 where "PB_HTYPE_REQUIRED = 0x00"
definition PB_HTYPE_OPTIONAL :: u8 where "PB_HTYPE_OPTIONAL = 0x10"
definition PB_HTYPE_REPEATED :: u8 where "PB_HTYPE_REPEATED = 0x20"
definition PB_HTYPE_ONEOF :: u8 where "PB_HTYPE_ONEOF = 0x30"
definition PB_ATYPE_STATIC :: u8 where "PB_ATYPE_STATIC = 0x00"
definition PB_ATYPE_POINTER :: u8 where "PB_ATYPE_POINTER = 0x80"
definition PB_ATYPE_CALLBACK :: u8 where "PB_ATYPE_CALLBACK = 0x40"

lemmas pb_types =
  PB_LTYPE_BOOL_def PB_LTYPE_VARINT_def PB_LTYPE_UVARINT_def PB_LTYPE_SVARINT_def PB_LTYPE_FIXED32_def
  PB_LTYPE_FIXED64_def PB_LTYPE_LAST_PACKABLE_def PB_LTYPE_BYTES_def PB_LTYPE_STRING_def
  PB_LTYPE_SUBMESSAGE_def PB_LTYPE_EXTENSION_def PB_LTYPE_FIXED_LENGTH_BYTES_def
  PB_HTYPE_REQUIRED_def PB_HTYPE_OPTIONAL_def PB_HTYPE_REPEATED_def PB_HTYPE_ONEOF_def
  PB_ATYPE_STATIC_def PB_ATYPE_POINTER_def PB_ATYPE_CALLBACK_def

definition PB_LTYPE :: "u8 \<Rightarrow> u8" where "PB_LTYPE x = x AND 0x0F"
definition PB_HTYPE :: "u8 \<Rightarrow> u8" where "PB_HTYPE x = x AND 0x30"
definition PB_ATYPE :: "u8 \<Rightarrow> u8" where "PB_ATYPE x = x AND 0xC0"

definition PB_SIZE_MAX :: nat where "PB_SIZE_MAX = 2 ^ 32 - 1"

definition PB_BYTES_ARRAY_T_ALLOCSIZE :: "nat \<Rightarrow> nat" where
  "PB_BYTES_ARRAY_T_ALLOCSIZE n = szadd n 4"

section \<open>Allocation\<close>

text \<open>\<open>pData\<close> is the address of the pointer. A failing \<open>realloc\<close> leaves the old pointer in place.\<close>

definition allocate_field ::
    "'h reallocator \<Rightarrow> nat \<Rightarrow> nat \<Rightarrow> nat \<Rightarrow> 's pb_istream \<Rightarrow> 'h pb_mem \<Rightarrow> bool \<times> 's pb_istream \<times> 'h pb_mem" where
  "allocate_field ra pData data_size array_size s m =
     (if data_size = 0 \<or> array_size = 0 then (False, is_error ''invalid size'' s, m)
      else if (data_size \<ge> 2 ^ 32 \<or> array_size \<ge> 2 ^ 32) \<and> (2 ^ 64 - 1) div array_size < data_size
      then (False, is_error ''size too large'' s, m)
      else case ra (load_ptr pData m) (array_size * data_size mod 2 ^ 64) m of
             (ptr, m) \<Rightarrow>
               if ptr = 0 then (False, is_error ''realloc failed'' s, m)
               else (True, s, store_ptr ptr pData m))"

section \<open>Decoders\<close>

text \<open>A decoder gets the stream, the descriptor and the address of the destination.\<close>

type_synonym ('s, 'h) pb_decoder = "pb_field_t \<Rightarrow> 's pb_istream \<Rightarrow> nat \<Rightarrow> 'h pb_mem \<Rightarrow> bool \<times> 's pb_istream \<times> 'h pb_mem"

definition pb_dec_bool :: "'s icallback \<Rightarrow> ('s, 'h) pb_decoder" where
  "pb_dec_bool io f s dest m =
     (case pb_decode_varint32 io s of
        (None, s) \<Rightarrow> (False, s, m)
      | (Some v, s) \<Rightarrow> (True, s, store_int 1 (if v \<noteq> 0 then 1 else 0) dest m))"

text \<open>The value that an integer field of \<open>n\<close> bytes holds after \<open>v\<close> was assigned to it, read back.\<close>

definition clamp_signed :: "nat \<Rightarrow> i64 \<Rightarrow> i64" where
  "clamp_signed n v =
     (if n = 8 then v else if n = 4 then scast (ucast v :: u32) else if n = 2 then scast (ucast v :: u16) else scast (ucast v :: u8))"

definition clamp_unsigned :: "nat \<Rightarrow> u64 \<Rightarrow> u64" where
  "clamp_unsigned n v =
     (if n = 8 then v else if n = 4 then ucast (ucast v :: u32) else if n = 2 then ucast (ucast v :: u16) else ucast (ucast v :: u8))"

definition store_checked ::
    "(nat \<Rightarrow> u64 \<Rightarrow> u64) \<Rightarrow> pb_field_t \<Rightarrow> u64 \<Rightarrow> 's pb_istream \<Rightarrow> nat \<Rightarrow> 'h pb_mem \<Rightarrow> bool \<times> 's pb_istream \<times> 'h pb_mem" where
  "store_checked clamp f v s dest m =
     (let n = pf_data_size f in
      if n = 8 \<or> n = 4 \<or> n = 2 \<or> n = 1
      then if clamp n v \<noteq> v then (False, is_error ''integer too large'' s, store_int n (unat v) dest m)
           else (True, s, store_int n (unat v) dest m)
      else (False, is_error ''invalid data_size'' s, m))"

definition pb_dec_varint :: "'s icallback \<Rightarrow> ('s, 'h) pb_decoder" where
  "pb_dec_varint io f s dest m =
     (case pb_decode_varint io s of
        (None, s) \<Rightarrow> (False, s, m)
      | (Some v, s) \<Rightarrow>
          store_checked clamp_signed f (if pf_data_size f = 8 then v else scast (ucast v :: u32)) s dest m)"

definition pb_dec_uvarint :: "'s icallback \<Rightarrow> ('s, 'h) pb_decoder" where
  "pb_dec_uvarint io f s dest m =
     (case pb_decode_varint io s of (None, s) \<Rightarrow> (False, s, m) | (Some v, s) \<Rightarrow> store_checked clamp_unsigned f v s dest m)"

definition pb_dec_svarint :: "'s icallback \<Rightarrow> ('s, 'h) pb_decoder" where
  "pb_dec_svarint io f s dest m =
     (case pb_decode_svarint io s of (None, s) \<Rightarrow> (False, s, m) | (Some v, s) \<Rightarrow> store_checked clamp_signed f v s dest m)"

definition pb_dec_fixed32 :: "'s icallback \<Rightarrow> ('s, 'h) pb_decoder" where
  "pb_dec_fixed32 io f s dest m =
     (case pb_decode_fixed32 io s of (None, s) \<Rightarrow> (False, s, m) | (Some v, s) \<Rightarrow> (True, s, store_int 4 (unat v) dest m))"

definition pb_dec_fixed64 :: "'s icallback \<Rightarrow> ('s, 'h) pb_decoder" where
  "pb_dec_fixed64 io f s dest m =
     (case pb_decode_fixed64 io s of (None, s) \<Rightarrow> (False, s, m) | (Some v, s) \<Rightarrow> (True, s, store_int 8 (unat v) dest m))"

text \<open>\<open>pb_read\<close> to an address; a failing read of a buffer stream leaves the memory alone.\<close>

definition read_into :: "'s icallback \<Rightarrow> nat \<Rightarrow> nat \<Rightarrow> 's pb_istream \<Rightarrow> 'h pb_mem \<Rightarrow> bool \<times> 's pb_istream \<times> 'h pb_mem" where
  "read_into io dest count s m =
     (case pb_read io True count s of
        (None, s) \<Rightarrow> (False, s, m)
      | (Some bytes, s) \<Rightarrow> (True, s, store dest bytes m))"

definition pb_dec_bytes :: "'s icallback \<Rightarrow> 'h reallocator \<Rightarrow> ('s, 'h) pb_decoder" where
  "pb_dec_bytes io ra f s dest m =
     (case pb_decode_varint32 io s of
        (None, s) \<Rightarrow> (False, s, m)
      | (Some len, s) \<Rightarrow>
          let size = unat len; alloc_size = PB_BYTES_ARRAY_T_ALLOCSIZE size in
          if size > PB_SIZE_MAX then (False, is_error ''bytes overflow'' s, m)
          else if size > alloc_size then (False, is_error ''size too large'' s, m)
          else case (if PB_ATYPE (pf_type f) = PB_ATYPE_POINTER
                     then (case allocate_field ra dest alloc_size 1 s m of (ok, s, m) \<Rightarrow> (ok, load_ptr dest m, s, m))
                     else if alloc_size > pf_data_size f then (False, dest, is_error ''bytes overflow'' s, m)
                     else (True, dest, s, m)) of
                 (False, _, s, m) \<Rightarrow> (False, s, m)
               | (True, bdest, s, m) \<Rightarrow> read_into io (bdest + 4) size s (store_int 4 size bdest m))"

definition pb_dec_string :: "'s icallback \<Rightarrow> 'h reallocator \<Rightarrow> ('s, 'h) pb_decoder" where
  "pb_dec_string io ra f s dest m =
     (case pb_decode_varint32 io s of
        (None, s) \<Rightarrow> (False, s, m)
      | (Some len, s) \<Rightarrow>
          let size = unat len; alloc_size = unat (len + 1) in
          if alloc_size < size then (False, is_error ''size too large'' s, m)
          else case (if PB_ATYPE (pf_type f) = PB_ATYPE_POINTER
                     then (case allocate_field ra dest alloc_size 1 s m of (ok, s, m) \<Rightarrow> (ok, load_ptr dest m, s, m))
                     else if alloc_size > pf_data_size f then (False, dest, is_error ''string overflow'' s, m)
                     else (True, dest, s, m)) of
                 (False, _, s, m) \<Rightarrow> (False, s, m)
               | (True, dest, s, m) \<Rightarrow>
                   (case read_into io dest size s m of (status, s, m) \<Rightarrow> (status, s, store (dest + size) [0] m)))"

definition pb_dec_fixed_length_bytes :: "'s icallback \<Rightarrow> ('s, 'h) pb_decoder" where
  "pb_dec_fixed_length_bytes io f s dest m =
     (case pb_decode_varint32 io s of
        (None, s) \<Rightarrow> (False, s, m)
      | (Some len, s) \<Rightarrow>
          if unat len > PB_SIZE_MAX then (False, is_error ''bytes overflow'' s, m)
          else if len = 0 then (True, s, store dest (replicate (pf_data_size f) 0) m)
          else if unat len \<noteq> pf_data_size f then (False, is_error ''incorrect fixed length bytes size'' s, m)
          else read_into io dest (pf_data_size f) s m)"

section \<open>Encoders\<close>

text \<open>An encoder gets the descriptor, the address of the field and the memory.\<close>

type_synonym ('o, 'h) pb_encoder = "pb_field_t \<Rightarrow> nat \<Rightarrow> 'h pb_mem \<Rightarrow> 'o pb_ostream \<Rightarrow> bool \<times> 'o pb_ostream"

text \<open>A bool has one byte.\<close>

definition safe_read_bool :: "nat \<Rightarrow> 'h pb_mem \<Rightarrow> bool" where
  "safe_read_bool p m = list_ex (\<lambda>b. b \<noteq> 0) (load p 1 m)"

definition pb_enc_bool :: "'o ocallback_fun \<Rightarrow> ('o, 'h) pb_encoder" where
  "pb_enc_bool io f src m s = pb_encode_varint io (if safe_read_bool src m then 1 else 0) s"

definition load_signed :: "nat \<Rightarrow> nat \<Rightarrow> 'h pb_mem \<Rightarrow> i64" where
  "load_signed n src m =
     (if n = 1 then scast (of_nat (load_int 1 src m) :: u8) else if n = 2 then scast (of_nat (load_int 2 src m) :: u16)
      else if n = 4 then scast (of_nat (load_int 4 src m) :: u32) else of_nat (load_int 8 src m))"

definition pb_enc_varint :: "'o ocallback_fun \<Rightarrow> ('o, 'h) pb_encoder" where
  "pb_enc_varint io f src m s =
     (let n = pf_data_size f in
      if n = 1 \<or> n = 2 \<or> n = 4 \<or> n = 8 then pb_encode_varint io (load_signed n src m) s
      else (False, os_error ''invalid data_size'' s))"

definition pb_enc_uvarint :: "'o ocallback_fun \<Rightarrow> ('o, 'h) pb_encoder" where
  "pb_enc_uvarint io f src m s =
     (let n = pf_data_size f in
      if n = 1 \<or> n = 2 \<or> n = 4 \<or> n = 8 then pb_encode_varint io (of_nat (load_int n src m)) s
      else (False, os_error ''invalid data_size'' s))"

definition pb_enc_svarint :: "'o ocallback_fun \<Rightarrow> ('o, 'h) pb_encoder" where
  "pb_enc_svarint io f src m s =
     (let n = pf_data_size f in
      if n = 1 \<or> n = 2 \<or> n = 4 \<or> n = 8 then pb_encode_svarint io (load_signed n src m) s
      else (False, os_error ''invalid data_size'' s))"

definition pb_enc_fixed32 :: "'o ocallback_fun \<Rightarrow> ('o, 'h) pb_encoder" where
  "pb_enc_fixed32 io f src m s = pb_encode_fixed32 io (of_nat (load_int 4 src m)) s"

definition pb_enc_fixed64 :: "'o ocallback_fun \<Rightarrow> ('o, 'h) pb_encoder" where
  "pb_enc_fixed64 io f src m s = pb_encode_fixed64 io (of_nat (load_int 8 src m)) s"

definition pb_enc_bytes :: "'o ocallback_fun \<Rightarrow> ('o, 'h) pb_encoder" where
  "pb_enc_bytes io f src m s =
     (if src = 0 then pb_encode_string io [] s
      else
        let size = load_int 4 src m in
        if PB_ATYPE (pf_type f) = PB_ATYPE_STATIC \<and> PB_BYTES_ARRAY_T_ALLOCSIZE size > pf_data_size f
        then (False, os_error ''bytes size exceeded'' s)
        else pb_encode_string io (load (src + 4) size m) s)"

text \<open>The loop that stands for \<open>strnlen\<close>.\<close>

function string_scan :: "nat \<Rightarrow> nat \<Rightarrow> nat \<Rightarrow> 'h pb_mem \<Rightarrow> nat" where
  "string_scan max_size n p m =
     (if n < max_size \<and> pm_byte m p \<noteq> 0 then string_scan max_size (n + 1) (p + 1) m else n)"
  by pat_completeness auto
termination
  by (relation "measure (\<lambda>(max_size, n, p, m). max_size - n)") auto

declare string_scan.simps [simp del]

definition pb_enc_string :: "'o ocallback_fun \<Rightarrow> ('o, 'h) pb_encoder" where
  "pb_enc_string io f src m s =
     (let max_size = (if PB_ATYPE (pf_type f) = PB_ATYPE_POINTER then 2 ^ 64 - 1 else pf_data_size f);
          size = (if src = 0 then 0 else string_scan max_size 0 src m)
      in pb_encode_string io (load src size m) s)"

definition pb_enc_fixed_length_bytes :: "'o ocallback_fun \<Rightarrow> ('o, 'h) pb_encoder" where
  "pb_enc_fixed_length_bytes io f src m s = pb_encode_string io (load src (pf_data_size f) m) s"

definition pb_encode_tag_for_field :: "'o ocallback_fun \<Rightarrow> pb_field_t \<Rightarrow> 'o pb_ostream \<Rightarrow> bool \<times> 'o pb_ostream" where
  "pb_encode_tag_for_field io f s =
     (let l = PB_LTYPE (pf_type f) in
      if l \<in> {PB_LTYPE_BOOL, PB_LTYPE_VARINT, PB_LTYPE_UVARINT, PB_LTYPE_SVARINT} then pb_encode_tag io PB_WT_VARINT (pf_tag f) s
      else if l = PB_LTYPE_FIXED32 then pb_encode_tag io PB_WT_32BIT (pf_tag f) s
      else if l = PB_LTYPE_FIXED64 then pb_encode_tag io PB_WT_64BIT (pf_tag f) s
      else if l \<in> {PB_LTYPE_BYTES, PB_LTYPE_STRING, PB_LTYPE_SUBMESSAGE, PB_LTYPE_FIXED_LENGTH_BYTES}
      then pb_encode_tag io PB_WT_STRING (pf_tag f) s
      else (False, os_error ''invalid field type'' s))"

end
