(* ===== verification/PbIter.thy ===== *)
theory PbIter
  imports PbField
begin

text \<open>
  The field iterator of nanopb (\<open>pb_common.c\<close>): it walks over the descriptors of a message and keeps the
  addresses of the current field and of its count (or has-flag) in the structure. A table of descriptors
  is the list of its entries without the terminator; an entry with tag 0 ends it as well.
\<close>

definition PB_LAST_FIELD :: pb_field_t where
  "PB_LAST_FIELD = \<lparr>pf_tag = 0, pf_type = 0, pf_data_offset = 0, pf_size_offset = 0, pf_data_size = 0,
     pf_array_size = 0, pf_ptr = 0\<rparr>"

definition field_at :: "pb_field_t list \<Rightarrow> nat \<Rightarrow> pb_field_t" where
  "field_at fs i = (if i < length fs then fs ! i else PB_LAST_FIELD)"

text \<open>\<open>pSize\<close> points into the structure, except that \<open>pb_decode_noinit\<close> makes it point to its local variable
  \<open>fixed_count_size\<close>, which lives in the component \<open>it_fixed_count\<close>.\<close>

datatype pb_size_ref = SizeAt nat | FixedCount

record pb_field_iter_t =
  it_start :: "pb_field_t list"
  it_pos :: nat
  it_required_field_index :: nat
  it_dest_struct :: nat
  it_pData :: nat
  it_pSize :: pb_size_ref
  it_fixed_count :: nat

definition it_field :: "pb_field_iter_t \<Rightarrow> pb_field_t" where
  "it_field iter = field_at (it_start iter) (it_pos iter)"

text \<open>\<open>(char* )p + offset\<close> for a signed offset.\<close>

definition ptr_add :: "nat \<Rightarrow> int \<Rightarrow> nat" where
  "ptr_add p off = nat (int p + off)"

text \<open>The success flag and the iterator; \<open>count\<close> is what the local variable holds.\<close>

definition pb_field_iter_begin :: "nat \<Rightarrow> pb_field_t list \<Rightarrow> nat \<Rightarrow> bool \<times> pb_field_iter_t" where
  "pb_field_iter_begin count fs dest_struct =
     (let pos = field_at fs 0; pData = dest_struct + pf_data_offset pos in
      (pf_tag pos \<noteq> 0,
       \<lparr>it_start = fs, it_pos = 0, it_required_field_index = 0, it_dest_struct = dest_struct,
        it_pData = pData, it_pSize = SizeAt (ptr_add pData (pf_size_offset pos)), it_fixed_count = count\<rparr>))"

definition pb_field_iter_next :: "pb_field_iter_t \<Rightarrow> bool \<times> pb_field_iter_t" where
  "pb_field_iter_next iter =
     (let prev_field = it_field iter; pos = field_at (it_start iter) (it_pos iter + 1) in
      if pf_tag prev_field = 0 then (False, iter)
      else if pf_tag pos = 0
      then (False, snd (pb_field_iter_begin (it_fixed_count iter) (it_start iter) (it_dest_struct iter)))
      else if PB_HTYPE (pf_type prev_field) = PB_HTYPE_ONEOF \<and> PB_HTYPE (pf_type pos) = PB_HTYPE_ONEOF \<and>
              pf_data_offset pos = PB_SIZE_MAX
      then (True, iter\<lparr>it_pos := it_pos iter + 1\<rparr>)
      else
        let prev_size =
              (if PB_ATYPE (pf_type prev_field) = PB_ATYPE_STATIC \<and> PB_HTYPE (pf_type prev_field) = PB_HTYPE_REPEATED
               then pf_data_size prev_field * pf_array_size prev_field
               else if PB_ATYPE (pf_type prev_field) = PB_ATYPE_POINTER then 8
               else pf_data_size prev_field);
            pData = it_pData iter + prev_size + pf_data_offset pos
        in (True,
            iter\<lparr>it_pos := it_pos iter + 1,
                 it_required_field_index :=
                   (if PB_HTYPE (pf_type prev_field) = PB_HTYPE_REQUIRED then it_required_field_index iter + 1
                    else it_required_field_index iter),
                 it_pData := pData,
                 it_pSize := SizeAt (ptr_add pData (pf_size_offset pos))\<rparr>))"

text \<open>Stepping until the predicate holds or the start is reached again. The position repeats after at most
  as many steps as there are descriptors, which bounds the loop.\<close>

fun iter_search :: "(pb_field_t \<Rightarrow> bool) \<Rightarrow> nat \<Rightarrow> nat \<Rightarrow> pb_field_iter_t \<Rightarrow> bool \<times> pb_field_iter_t" where
  "iter_search p 0 start iter = (False, iter)"
| "iter_search p (Suc steps) start iter =
     (if p (it_field iter) then (True, iter)
      else let iter = snd (pb_field_iter_next iter) in
           if it_pos iter \<noteq> start then iter_search p steps start iter else (False, iter))"

definition pb_field_iter_find :: "pb_field_iter_t \<Rightarrow> u32 \<Rightarrow> bool \<times> pb_field_iter_t" where
  "pb_field_iter_find iter tag =
     iter_search (\<lambda>f. pf_tag f = tag \<and> PB_LTYPE (pf_type f) \<noteq> PB_LTYPE_EXTENSION) (length (it_start iter) + 1) (it_pos iter) iter"

definition find_extension_field :: "pb_field_iter_t \<Rightarrow> bool \<times> pb_field_iter_t" where
  "find_extension_field iter =
     iter_search (\<lambda>f. PB_LTYPE (pf_type f) = PB_LTYPE_EXTENSION) (length (it_start iter) + 1) (it_pos iter) iter"

text \<open>The loop \<open>do body while (pb_field_iter_next(&iter))\<close>, whose body may fail or not return.\<close>

function do_fields ::
    "(pb_field_iter_t \<Rightarrow> 'a \<Rightarrow> (bool \<times> 'a) option) \<Rightarrow> pb_field_iter_t \<Rightarrow> 'a \<Rightarrow> (bool \<times> 'a) option" where
  "do_fields body iter a =
     (case body iter a of
        None \<Rightarrow> None
      | Some (False, a) \<Rightarrow> Some (False, a)
      | Some (True, a) \<Rightarrow>
          (case pb_field_iter_next iter of
             (False, _) \<Rightarrow> Some (True, a)
           | (True, iter) \<Rightarrow> do_fields body iter a))"
  by pat_completeness auto

lemma iter_next_pos:
  "pb_field_iter_next iter = (True, iter') \<Longrightarrow>
   it_pos iter' = it_pos iter + 1 \<and> it_start iter' = it_start iter \<and> it_pos iter' < length (it_start iter)"
  by (auto simp: pb_field_iter_next_def Let_def field_at_def PB_LAST_FIELD_def split: if_splits)

termination do_fields
  by (relation "measure (\<lambda>(body, iter, a). length (it_start iter) - it_pos iter)")
    (auto dest!: iter_next_pos [OF sym])

declare do_fields.simps [simp del]

section \<open>Counts\<close>

text \<open>\<open>*(pb_size_t* )iter->pSize\<close>, read and written.\<close>

definition read_size :: "pb_field_iter_t \<Rightarrow> 'h pb_mem \<Rightarrow> nat" where
  "read_size iter m = (case it_pSize iter of SizeAt a \<Rightarrow> load_int 4 a m | FixedCount \<Rightarrow> it_fixed_count iter)"

definition write_size :: "nat \<Rightarrow> pb_field_iter_t \<Rightarrow> 'h pb_mem \<Rightarrow> pb_field_iter_t \<times> 'h pb_mem" where
  "write_size n iter m =
     (case it_pSize iter of
        SizeAt a \<Rightarrow> (iter, store_int 4 n a m)
      | FixedCount \<Rightarrow> (iter\<lparr>it_fixed_count := n mod 2 ^ 32\<rparr>, m))"

text \<open>\<open>*(bool* )iter->pSize = b\<close>.\<close>

definition write_has :: "bool \<Rightarrow> pb_field_iter_t \<Rightarrow> 'h pb_mem \<Rightarrow> 'h pb_mem" where
  "write_has b iter m = (case it_pSize iter of SizeAt a \<Rightarrow> store_int 1 (of_bool b) a m | FixedCount \<Rightarrow> m)"

end
