(* ===== verification/PbDecode.thy ===== *)
theory PbDecode
  imports PbIter
begin

text \<open>
  Decoding of messages (\<open>pb_decode.c\<close>): default values, release of pointer fields, static, pointer and
  callback fields, extensions, and the loop of \<open>pb_decode_noinit\<close>. Recursion over submessages, over the
  linked extensions and the loops that call back take fuel: \<open>None\<close> means that the run did not end within
  it (or that a NULL entry of the decoder table was called). \<open>de_fields\<close> are the generated descriptor
  tables by address, \<open>de_callback\<close> and \<open>de_extension\<close> the client's functions by address.
\<close>

record ('s, 'h) pb_denv =
  de_read :: "'s icallback"
  de_realloc :: "'h reallocator"
  de_free :: "'h deallocator"
  de_fields :: "nat \<Rightarrow> pb_field_t list"
  de_callback :: "nat \<Rightarrow> pb_field_t \<Rightarrow> 's pb_istream \<Rightarrow> nat \<Rightarrow> 'h pb_mem \<Rightarrow> bool \<times> 's pb_istream \<times> 'h pb_mem"
  de_extension :: "nat \<Rightarrow> nat \<Rightarrow> u32 \<Rightarrow> pb_wire_type_t \<Rightarrow> 's pb_istream \<Rightarrow> 'h pb_mem \<Rightarrow> bool \<times> 's pb_istream \<times> 'h pb_mem"

text \<open>The success flag, the stream and the memory.\<close>

type_synonym ('s, 'h) pb_result = "(bool \<times> 's pb_istream \<times> 'h pb_mem) option"

text \<open>A field decoder, with submessages among them.\<close>

type_synonym ('s, 'h) pb_field_decoder = "pb_field_t \<Rightarrow> 's pb_istream \<Rightarrow> nat \<Rightarrow> 'h pb_mem \<Rightarrow> ('s, 'h) pb_result"

section \<open>Extensions in memory\<close>

text \<open>\<open>struct pb_extension_s\<close> has \<open>type\<close>, \<open>dest\<close>, \<open>next\<close> and \<open>found\<close> at 0, 8, 16 and 24;
  \<open>struct pb_extension_type_s\<close> has \<open>decode\<close>, \<open>encode\<close> and \<open>arg\<close> at 0, 8 and 16.\<close>

definition ext_type :: "nat \<Rightarrow> 'h pb_mem \<Rightarrow> nat" where "ext_type ext m = load_ptr ext m"
definition ext_dest :: "nat \<Rightarrow> 'h pb_mem \<Rightarrow> nat" where "ext_dest ext m = load_ptr (ext + 8) m"
definition ext_next :: "nat \<Rightarrow> 'h pb_mem \<Rightarrow> nat" where "ext_next ext m = load_ptr (ext + 16) m"
definition ext_set_found :: "bool \<Rightarrow> nat \<Rightarrow> 'h pb_mem \<Rightarrow> 'h pb_mem" where "ext_set_found b ext m = store_int 1 (of_bool b) (ext + 24) m"
definition ext_arg :: "nat \<Rightarrow> 'h pb_mem \<Rightarrow> nat" where "ext_arg ext m = load_ptr (ext_type ext m + 16) m"

definition iter_from_extension :: "(nat \<Rightarrow> pb_field_t list) \<Rightarrow> nat \<Rightarrow> 'h pb_mem \<Rightarrow> pb_field_iter_t" where
  "iter_from_extension tables ext m =
     (let fs = tables (ext_arg ext m);
          iter = snd (pb_field_iter_begin 0 fs (ext_dest ext m));
          iter = iter\<lparr>it_pData := ext_dest ext m, it_pSize := SizeAt (ext + 24)\<rparr>
      in if PB_ATYPE (pf_type (field_at fs 0)) = PB_ATYPE_POINTER then iter\<lparr>it_pData := ext + 8\<rparr> else iter)"

section \<open>Default values\<close>

definition lift_step :: "('a \<Rightarrow> 'b \<Rightarrow> 'b option) \<Rightarrow> 'a \<Rightarrow> 'b \<Rightarrow> (bool \<times> 'b) option" where
  "lift_step f x y = map_option (Pair True) (f x y)"

fun pb_message_set_to_defaults :: "nat \<Rightarrow> (nat \<Rightarrow> pb_field_t list) \<Rightarrow> pb_field_t list \<Rightarrow> nat \<Rightarrow> 'h pb_mem \<Rightarrow> 'h pb_mem option"
  and pb_field_set_to_default :: "nat \<Rightarrow> (nat \<Rightarrow> pb_field_t list) \<Rightarrow> pb_field_iter_t \<Rightarrow> 'h pb_mem \<Rightarrow> 'h pb_mem option"
  and extensions_set_to_default :: "nat \<Rightarrow> (nat \<Rightarrow> pb_field_t list) \<Rightarrow> nat \<Rightarrow> 'h pb_mem \<Rightarrow> 'h pb_mem option" where
  "pb_message_set_to_defaults 0 tables fs dest_struct m = None"
| "pb_message_set_to_defaults (Suc n) tables fs dest_struct m =
     (case pb_field_iter_begin 0 fs dest_struct of
        (False, _) \<Rightarrow> Some m
      | (True, iter) \<Rightarrow> map_option snd (do_fields (lift_step (\<lambda>iter m. pb_field_set_to_default n tables iter m)) iter m))"
| "pb_field_set_to_default 0 tables iter m = None"
| "pb_field_set_to_default (Suc n) tables iter m =
     (let f = it_field iter; type = pf_type f in
      if PB_LTYPE type = PB_LTYPE_EXTENSION
      then extensions_set_to_default n tables (load_ptr (it_pData iter) m) m
      else if PB_ATYPE type = PB_ATYPE_STATIC
      then
        (case (if PB_HTYPE type = PB_HTYPE_OPTIONAL \<and> it_pSize iter \<noteq> SizeAt (it_pData iter)
               then (True, write_has False iter m)
               else if PB_HTYPE type = PB_HTYPE_REPEATED \<or> PB_HTYPE type = PB_HTYPE_ONEOF
               then (False, snd (write_size 0 iter m))
               else (True, m)) of
           (init_data, m) \<Rightarrow>
             if init_data
             then if PB_LTYPE type = PB_LTYPE_SUBMESSAGE
                  then pb_message_set_to_defaults n tables (tables (pf_ptr f)) (it_pData iter) m
                  else if pf_ptr f \<noteq> 0
                  then Some (store (it_pData iter) (load (pf_ptr f) (pf_data_size f) m) m)
                  else Some (store (it_pData iter) (replicate (pf_data_size f) 0) m)
             else Some m)
      else if PB_ATYPE type = PB_ATYPE_POINTER
      then
        let m = store_ptr 0 (it_pData iter) m
        in Some (if PB_HTYPE type = PB_HTYPE_REPEATED \<or> PB_HTYPE type = PB_HTYPE_ONEOF
                 then snd (write_size 0 iter m) else m)
      else Some m)"
| "extensions_set_to_default 0 tables ext m = None"
| "extensions_set_to_default (Suc n) tables ext m =
     (if ext = 0 then Some m
      else
        let m = ext_set_found False ext m in
        case pb_field_set_to_default n tables (iter_from_extension tables ext m) m of
          None \<Rightarrow> None
        | Some m \<Rightarrow> extensions_set_to_default n tables (ext_next ext m) m)"

section \<open>Release\<close>

text \<open>The loop over the items of an array of submessages.\<close>

fun release_items :: "(nat \<Rightarrow> 'h pb_mem \<Rightarrow> 'h pb_mem option) \<Rightarrow> nat \<Rightarrow> nat \<Rightarrow> nat \<Rightarrow> 'h pb_mem \<Rightarrow> 'h pb_mem option" where
  "release_items release data_size 0 pItem m = Some m"
| "release_items release data_size (Suc count) pItem m =
     (case release pItem m of
        None \<Rightarrow> None
      | Some m \<Rightarrow> release_items release data_size count (pItem + data_size) m)"

text \<open>The loop over the entries of an array of strings.\<close>

fun release_strings :: "'h deallocator \<Rightarrow> nat \<Rightarrow> nat \<Rightarrow> 'h pb_mem \<Rightarrow> 'h pb_mem" where
  "release_strings pb_free 0 pItem m = m"
| "release_strings pb_free (Suc count) pItem m =
     release_strings pb_free count (pItem + 8) (store_ptr 0 pItem (pb_free (load_ptr pItem m) m))"

fun pb_release :: "nat \<Rightarrow> ('s, 'h) pb_denv \<Rightarrow> pb_field_t list \<Rightarrow> nat \<Rightarrow> 'h pb_mem \<Rightarrow> 'h pb_mem option"
  and pb_release_single_field :: "nat \<Rightarrow> ('s, 'h) pb_denv \<Rightarrow> pb_field_iter_t \<Rightarrow> 'h pb_mem \<Rightarrow> 'h pb_mem option"
  and release_extensions :: "nat \<Rightarrow> ('s, 'h) pb_denv \<Rightarrow> nat \<Rightarrow> 'h pb_mem \<Rightarrow> 'h pb_mem option" where
  "pb_release 0 env fs dest_struct m = None"
| "pb_release (Suc n) env fs dest_struct m =
     (if dest_struct = 0 then Some m
      else case pb_field_iter_begin 0 fs dest_struct of
             (False, _) \<Rightarrow> Some m
           | (True, iter) \<Rightarrow> map_option snd (do_fields (lift_step (\<lambda>iter m. pb_release_single_field n env iter m)) iter m))"
| "pb_release_single_field 0 env iter m = None"
| "pb_release_single_field (Suc n) env iter m =
     (let f = it_field iter; type = pf_type f in
      if PB_HTYPE type = PB_HTYPE_ONEOF \<and> read_size iter m \<noteq> unat (pf_tag f) then Some m
      else
        case (if PB_LTYPE type = PB_LTYPE_EXTENSION then release_extensions n env (load_ptr (it_pData iter) m) m
              else if PB_LTYPE type = PB_LTYPE_SUBMESSAGE \<and> PB_ATYPE type \<noteq> PB_ATYPE_CALLBACK
              then
                let pItem = (if PB_ATYPE type = PB_ATYPE_POINTER then load_ptr (it_pData iter) m else it_pData iter);
                    count = (if PB_HTYPE type = PB_HTYPE_REPEATED
                             then let count = (if PB_ATYPE type = PB_ATYPE_STATIC \<and> it_pSize iter = SizeAt (it_pData iter)
                                               then pf_array_size f else read_size iter m)
                                  in if PB_ATYPE type = PB_ATYPE_STATIC \<and> count > pf_array_size f then pf_array_size f
                                     else count
                             else 1)
                in if pItem \<noteq> 0
                   then release_items (\<lambda>pItem m. pb_release n env (de_fields env (pf_ptr f)) pItem m) (pf_data_size f) count pItem m
                   else Some m
              else Some m) of
          None \<Rightarrow> None
        | Some m \<Rightarrow>
            if PB_ATYPE type = PB_ATYPE_POINTER
            then
              let m = (if PB_HTYPE type = PB_HTYPE_REPEATED \<and> (PB_LTYPE type = PB_LTYPE_STRING \<or> PB_LTYPE type = PB_LTYPE_BYTES)
                       then release_strings (de_free env) (read_size iter m) (load_ptr (it_pData iter) m) m else m);
                  m = (if PB_HTYPE type = PB_HTYPE_REPEATED then snd (write_size 0 iter m) else m);
                  m = de_free env (load_ptr (it_pData iter) m) m
              in Some (store_ptr 0 (it_pData iter) m)
            else Some m)"
| "release_extensions 0 env ext m = None"
| "release_extensions (Suc n) env ext m =
     (if ext = 0 then Some m
      else case pb_release_single_field n env (iter_from_extension (de_fields env) ext m) m of
             None \<Rightarrow> None
           | Some m \<Rightarrow> release_extensions n env (ext_next ext m) m)"

text \<open>The old member of a oneof is released before a different one is decoded.\<close>

definition pb_release_union_field ::
    "nat \<Rightarrow> ('s, 'h) pb_denv \<Rightarrow> 's pb_istream \<Rightarrow> pb_field_iter_t \<Rightarrow> 'h pb_mem \<Rightarrow>
     (bool \<times> 's pb_istream \<times> pb_field_iter_t \<times> 'h pb_mem) option" where
  "pb_release_union_field n env s iter m =
     (let old_tag = read_size iter m; new_tag = pf_tag (it_field iter) in
      if old_tag = 0 then Some (True, s, iter, m)
      else if old_tag = unat new_tag then Some (True, s, iter, m)
      else case pb_field_iter_find iter (of_nat old_tag) of
             (False, iter) \<Rightarrow> Some (False, is_error ''invalid union tag'' s, iter, m)
           | (True, iter) \<Rightarrow>
               (case pb_release_single_field n env iter m of
                  None \<Rightarrow> None
                | Some m \<Rightarrow>
                    (case pb_field_iter_find iter new_tag of
                       (False, iter) \<Rightarrow> Some (False, is_error ''iterator error'' s, iter, m)
                     | (True, iter) \<Rightarrow> Some (True, s, iter, m))))"

section \<open>The decoder table\<close>

definition returns :: "('s, 'h) pb_decoder \<Rightarrow> ('s, 'h) pb_field_decoder" where
  "returns dec f s dest m = Some (dec f s dest m)"

definition PB_DECODERS :: "('s, 'h) pb_denv \<Rightarrow> ('s, 'h) pb_field_decoder \<Rightarrow> ('s, 'h) pb_field_decoder option list" where
  "PB_DECODERS env submessage =
     (let io = de_read env in
      [Some (returns (pb_dec_bool io)), Some (returns (pb_dec_varint io)), Some (returns (pb_dec_uvarint io)),
       Some (returns (pb_dec_svarint io)), Some (returns (pb_dec_fixed32 io)), Some (returns (pb_dec_fixed64 io)),
       Some (returns (pb_dec_bytes io (de_realloc env))), Some (returns (pb_dec_string io (de_realloc env))),
       Some submessage, None, Some (returns (pb_dec_fixed_length_bytes io))])"

text \<open>\<open>func = PB_DECODERS[PB_LTYPE(type)]\<close> and its call.\<close>

definition call_decoder :: "('s, 'h) pb_denv \<Rightarrow> ('s, 'h) pb_field_decoder \<Rightarrow> ('s, 'h) pb_field_decoder" where
  "call_decoder env submessage f s dest m =
     (let l = unat (PB_LTYPE (pf_type f)); table = PB_DECODERS env submessage in
      if l < length table then (case table ! l of None \<Rightarrow> None | Some func \<Rightarrow> func f s dest m) else None)"

end
