(* ===== verification/PbDecodeMsg.thy ===== *)
theory PbDecodeMsg
  imports PbDecode
begin

text \<open>
  Decoding of a field into its place in the structure, and of whole messages (\<open>pb_decode.c\<close>). The
  functions get the decoder of submessages as an argument; \<open>pb_dec_submessage\<close> ties the knot.
\<close>

text \<open>A field decoder moves the iterator too: its count may be the local variable of the caller.\<close>

type_synonym ('s, 'h) pb_field_result = "(bool \<times> 's pb_istream \<times> pb_field_iter_t \<times> 'h pb_mem) option"

definition with_iter :: "pb_field_iter_t \<Rightarrow> ('s, 'h) pb_result \<Rightarrow> ('s, 'h) pb_field_result" where
  "with_iter iter r = map_option (\<lambda>(ok, s, m). (ok, s, iter, m)) r"

section \<open>Static fields\<close>

text \<open>The loop over a packed array.\<close>

fun static_packed_loop ::
    "nat \<Rightarrow> ('s, 'h) pb_field_decoder \<Rightarrow> 's pb_istream \<Rightarrow> pb_field_iter_t \<Rightarrow> 'h pb_mem \<Rightarrow> ('s, 'h) pb_field_result" where
  "static_packed_loop 0 func substream iter m = None"
| "static_packed_loop (Suc n) func substream iter m =
     (let f = it_field iter in
      if is_bytes_left substream > 0 \<and> read_size iter m < pf_array_size f
      then
        case func f substream (it_pData iter + pf_data_size f * read_size iter m) m of
          None \<Rightarrow> None
        | Some (False, substream, m) \<Rightarrow> Some (False, substream, iter, m)
        | Some (True, substream, m) \<Rightarrow>
            (case write_size (read_size iter m + 1) iter m of
               (iter, m) \<Rightarrow> static_packed_loop n func substream iter m)
      else Some (True, substream, iter, m))"

definition decode_static_field ::
    "nat \<Rightarrow> ('s, 'h) pb_denv \<Rightarrow> ('s, 'h) pb_field_decoder \<Rightarrow> 's pb_istream \<Rightarrow> pb_wire_type_t \<Rightarrow> pb_field_iter_t \<Rightarrow>
     'h pb_mem \<Rightarrow> ('s, 'h) pb_field_result" where
  "decode_static_field n env submessage s wt iter m =
     (let f = it_field iter; type = pf_type f; func = call_decoder env submessage in
      if PB_HTYPE type = PB_HTYPE_REQUIRED then with_iter iter (func f s (it_pData iter) m)
      else if PB_HTYPE type = PB_HTYPE_OPTIONAL
      then
        let m = (if it_pSize iter \<noteq> SizeAt (it_pData iter) then write_has True iter m else m)
        in with_iter iter (func f s (it_pData iter) m)
      else if PB_HTYPE type = PB_HTYPE_REPEATED
      then
        if wt = PB_WT_STRING \<and> PB_LTYPE type \<le> PB_LTYPE_LAST_PACKABLE
        then
          case pb_make_string_substream (de_read env) s of
            (None, s) \<Rightarrow> Some (False, s, iter, m)
          | (Some substream, s) \<Rightarrow>
              (case static_packed_loop n func substream iter m of
                 None \<Rightarrow> None
               | Some (status, substream, iter, m) \<Rightarrow>
                   if is_bytes_left substream \<noteq> 0 then Some (False, is_error ''array overflow'' s, iter, m)
                   else (case pb_close_string_substream (de_read env) s substream of
                           (False, s) \<Rightarrow> Some (False, s, iter, m)
                         | (True, s) \<Rightarrow> Some (status, s, iter, m)))
        else
          let count = read_size iter m; pItem = it_pData iter + pf_data_size f * count
          in case write_size (count + 1) iter m of
               (iter, m) \<Rightarrow>
                 if count \<ge> pf_array_size f then Some (False, is_error ''array overflow'' s, iter, m)
                 else with_iter iter (func f s pItem m)
      else if PB_HTYPE type = PB_HTYPE_ONEOF
      then
        case write_size (unat (pf_tag f)) iter m of
          (iter, m) \<Rightarrow>
            (case (if PB_LTYPE type = PB_LTYPE_SUBMESSAGE
                   then pb_message_set_to_defaults n (de_fields env) (de_fields env (pf_ptr f)) (it_pData iter)
                          (store (it_pData iter) (replicate (pf_data_size f) 0) m)
                   else Some m) of
               None \<Rightarrow> None
             | Some m \<Rightarrow> with_iter iter (func f s (it_pData iter) m))
      else Some (False, is_error ''invalid field type'' s, iter, m))"

section \<open>Pointer fields\<close>

definition initialize_pointer_field ::
    "nat \<Rightarrow> ('s, 'h) pb_denv \<Rightarrow> nat \<Rightarrow> pb_field_iter_t \<Rightarrow> 'h pb_mem \<Rightarrow> 'h pb_mem option" where
  "initialize_pointer_field n env pItem iter m =
     (let f = it_field iter; type = pf_type f in
      if PB_LTYPE type = PB_LTYPE_STRING \<or> PB_LTYPE type = PB_LTYPE_BYTES then Some (store_ptr 0 pItem m)
      else if PB_LTYPE type = PB_LTYPE_SUBMESSAGE
      then pb_message_set_to_defaults n (de_fields env) (de_fields env (pf_ptr f)) pItem
             (store pItem (replicate (pf_data_size f) 0) m)
      else Some m)"

text \<open>The loop over a packed array, which grows with a guess of the number of remaining entries.\<close>

definition next_allocation :: "nat \<Rightarrow> nat \<Rightarrow> nat \<Rightarrow> nat" where
  "next_allocation bytes_left data_size allocated_size =
     (let remain = (bytes_left - 1) div data_size + 1 in
      if remain < PB_SIZE_MAX - allocated_size then allocated_size + remain else allocated_size + 1)"

fun pointer_packed_loop ::
    "nat \<Rightarrow> ('s, 'h) pb_denv \<Rightarrow> ('s, 'h) pb_field_decoder \<Rightarrow> nat \<Rightarrow> 's pb_istream \<Rightarrow> 's pb_istream \<Rightarrow> pb_field_iter_t \<Rightarrow>
     'h pb_mem \<Rightarrow> (bool \<times> 's pb_istream \<times> 's pb_istream \<times> pb_field_iter_t \<times> 'h pb_mem) option" where
  "pointer_packed_loop 0 env func allocated_size s substream iter m = None"
| "pointer_packed_loop (Suc n) env func allocated_size s substream iter m =
     (let f = it_field iter in
      if is_bytes_left substream = 0 then Some (True, s, substream, iter, m)
      else if read_size iter m = PB_SIZE_MAX
      then Some (False, s\<lparr>is_errmsg := Some ''too many array entries''\<rparr>, substream, iter, m)
      else
        let grow = read_size iter m + 1 > allocated_size;
            allocated_size = (if grow then next_allocation (is_bytes_left substream) (pf_data_size f) allocated_size
                              else allocated_size)
        in case (if grow then allocate_field (de_realloc env) (it_pData iter) (pf_data_size f) allocated_size substream m
                 else (True, substream, m)) of
             (False, substream, m) \<Rightarrow> Some (False, s, substream, iter, m)
           | (True, substream, m) \<Rightarrow>
               let pItem = load_ptr (it_pData iter) m + pf_data_size f * read_size iter m
               in (case initialize_pointer_field n env pItem iter m of
                     None \<Rightarrow> None
                   | Some m \<Rightarrow>
                       (case func f substream pItem m of
                          None \<Rightarrow> None
                        | Some (False, substream, m) \<Rightarrow> Some (False, s, substream, iter, m)
                        | Some (True, substream, m) \<Rightarrow>
                            (case write_size (read_size iter m + 1) iter m of
                               (iter, m) \<Rightarrow> pointer_packed_loop n env func allocated_size s substream iter m))))"

definition decode_pointer_field ::
    "nat \<Rightarrow> ('s, 'h) pb_denv \<Rightarrow> ('s, 'h) pb_field_decoder \<Rightarrow> 's pb_istream \<Rightarrow> pb_wire_type_t \<Rightarrow> pb_field_iter_t \<Rightarrow>
     'h pb_mem \<Rightarrow> ('s, 'h) pb_field_result" where
  "decode_pointer_field n env submessage s wt iter m =
     (let f = it_field iter; type = pf_type f; func = call_decoder env submessage; pData = it_pData iter in
      if PB_HTYPE type = PB_HTYPE_REQUIRED \<or> PB_HTYPE type = PB_HTYPE_OPTIONAL \<or> PB_HTYPE type = PB_HTYPE_ONEOF
      then
        case (if PB_LTYPE type = PB_LTYPE_SUBMESSAGE \<and> load_ptr pData m \<noteq> 0
              then pb_release_single_field n env iter m else Some m) of
          None \<Rightarrow> None
        | Some m \<Rightarrow>
            (case (if PB_HTYPE type = PB_HTYPE_ONEOF then write_size (unat (pf_tag f)) iter m else (iter, m)) of
               (iter, m) \<Rightarrow>
                 if PB_LTYPE type = PB_LTYPE_STRING \<or> PB_LTYPE type = PB_LTYPE_BYTES
                 then with_iter iter (func f s pData m)
                 else
                   (case allocate_field (de_realloc env) pData (pf_data_size f) 1 s m of
                      (False, s, m) \<Rightarrow> Some (False, s, iter, m)
                    | (True, s, m) \<Rightarrow>
                        (case initialize_pointer_field n env (load_ptr pData m) iter m of
                           None \<Rightarrow> None
                         | Some m \<Rightarrow> with_iter iter (func f s (load_ptr pData m) m))))
      else if PB_HTYPE type = PB_HTYPE_REPEATED
      then
        if wt = PB_WT_STRING \<and> PB_LTYPE type \<le> PB_LTYPE_LAST_PACKABLE
        then
          case pb_make_string_substream (de_read env) s of
            (None, s) \<Rightarrow> Some (False, s, iter, m)
          | (Some substream, s) \<Rightarrow>
              (case pointer_packed_loop n env func (read_size iter m) s substream iter m of
                 None \<Rightarrow> None
               | Some (status, s, substream, iter, m) \<Rightarrow>
                   (case pb_close_string_substream (de_read env) s substream of
                      (False, s) \<Rightarrow> Some (False, s, iter, m)
                    | (True, s) \<Rightarrow> Some (status, s, iter, m)))
        else if read_size iter m = PB_SIZE_MAX then Some (False, is_error ''too many array entries'' s, iter, m)
        else
          case allocate_field (de_realloc env) pData (pf_data_size f) (read_size iter m + 1) s m of
            (False, s, m) \<Rightarrow> Some (False, s, iter, m)
          | (True, s, m) \<Rightarrow>
              let count = read_size iter m; pItem = load_ptr pData m + pf_data_size f * count
              in (case write_size (count + 1) iter m of
                    (iter, m) \<Rightarrow>
                      (case initialize_pointer_field n env pItem iter m of
                         None \<Rightarrow> None
                       | Some m \<Rightarrow> with_iter iter (func f s pItem m)))
      else Some (False, is_error ''invalid field type'' s, iter, m))"

section \<open>Callback fields\<close>

text \<open>\<open>struct pb_callback_s\<close> has the function at 0 and its argument at 8.\<close>

fun callback_loop ::
    "nat \<Rightarrow> (pb_field_t \<Rightarrow> 's pb_istream \<Rightarrow> nat \<Rightarrow> 'h pb_mem \<Rightarrow> bool \<times> 's pb_istream \<times> 'h pb_mem) \<Rightarrow> pb_field_t \<Rightarrow> nat \<Rightarrow>
     's pb_istream \<Rightarrow> 'h pb_mem \<Rightarrow> ('s, 'h) pb_result" where
  "callback_loop 0 decode f arg substream m = None"
| "callback_loop (Suc n) decode f arg substream m =
     (case decode f substream arg m of
        (False, substream, m) \<Rightarrow> Some (False, substream, m)
      | (True, substream, m) \<Rightarrow>
          if is_bytes_left substream > 0 then callback_loop n decode f arg substream m
          else Some (True, substream, m))"

definition decode_callback_field ::
    "nat \<Rightarrow> ('s, 'h) pb_denv \<Rightarrow> 's pb_istream \<Rightarrow> pb_wire_type_t \<Rightarrow> pb_field_iter_t \<Rightarrow> 'h pb_mem \<Rightarrow> ('s, 'h) pb_result" where
  "decode_callback_field n env s wt iter m =
     (let pCallback = it_pData iter; arg = pCallback + 8; f = it_field iter in
      if pCallback = 0 \<or> load_ptr pCallback m = 0
      then (case pb_skip_field (de_read env) wt s of (ok, s) \<Rightarrow> Some (ok, s, m))
      else
        let decode = de_callback env (load_ptr pCallback m) in
        if wt = PB_WT_STRING
        then
          case pb_make_string_substream (de_read env) s of
            (None, s) \<Rightarrow> Some (False, s, m)
          | (Some substream, s) \<Rightarrow>
              (case callback_loop n decode f arg substream m of
                 None \<Rightarrow> None
               | Some (False, substream, m) \<Rightarrow> Some (False, is_error ''callback failed'' s, m)
               | Some (True, substream, m) \<Rightarrow>
                   (case pb_close_string_substream (de_read env) s substream of (ok, s) \<Rightarrow> Some (ok, s, m)))
        else
          case read_raw_value (de_read env) wt 10 s of
            (None, s) \<Rightarrow> Some (False, s, m)
          | (Some buffer, s) \<Rightarrow>
              (case decode f (s\<lparr>is_buf := True, is_source := buffer, is_bytes_left := length buffer, is_errmsg := None\<rparr>) arg m of
                 (ok, substream, m) \<Rightarrow> Some (ok, s, m)))"

section \<open>Any field\<close>

definition decode_field ::
    "nat \<Rightarrow> ('s, 'h) pb_denv \<Rightarrow> ('s, 'h) pb_field_decoder \<Rightarrow> 's pb_istream \<Rightarrow> pb_wire_type_t \<Rightarrow> pb_field_iter_t \<Rightarrow>
     'h pb_mem \<Rightarrow> ('s, 'h) pb_field_result" where
  "decode_field n env submessage s wt iter m =
     (case (if PB_HTYPE (pf_type (it_field iter)) = PB_HTYPE_ONEOF then pb_release_union_field n env s iter m
            else Some (True, s, iter, m)) of
        None \<Rightarrow> None
      | Some (False, s, iter, m) \<Rightarrow> Some (False, s, iter, m)
      | Some (True, s, iter, m) \<Rightarrow>
          let atype = PB_ATYPE (pf_type (it_field iter)) in
          if atype = PB_ATYPE_STATIC then decode_static_field n env submessage s wt iter m
          else if atype = PB_ATYPE_POINTER then decode_pointer_field n env submessage s wt iter m
          else if atype = PB_ATYPE_CALLBACK then with_iter iter (decode_callback_field n env s wt iter m)
          else Some (False, is_error ''invalid field type'' s, iter, m))"

section \<open>Extensions\<close>

definition default_extension_decoder ::
    "nat \<Rightarrow> ('s, 'h) pb_denv \<Rightarrow> ('s, 'h) pb_field_decoder \<Rightarrow> 's pb_istream \<Rightarrow> nat \<Rightarrow> u32 \<Rightarrow> pb_wire_type_t \<Rightarrow>
     'h pb_mem \<Rightarrow> ('s, 'h) pb_result" where
  "default_extension_decoder n env submessage s ext tag wt m =
     (if pf_tag (field_at (de_fields env (ext_arg ext m)) 0) \<noteq> tag then Some (True, s, m)
      else
        let iter = iter_from_extension (de_fields env) ext m
        in map_option (\<lambda>(ok, s, iter, m). (ok, s, m))
             (decode_field n env submessage s wt iter (ext_set_found True ext m)))"

fun extension_loop ::
    "nat \<Rightarrow> ('s, 'h) pb_denv \<Rightarrow> ('s, 'h) pb_field_decoder \<Rightarrow> nat \<Rightarrow> 's pb_istream \<Rightarrow> nat \<Rightarrow> u32 \<Rightarrow> pb_wire_type_t \<Rightarrow>
     'h pb_mem \<Rightarrow> ('s, 'h) pb_result" where
  "extension_loop 0 env submessage pos s ext tag wt m = None"
| "extension_loop (Suc n) env submessage pos s ext tag wt m =
     (if ext \<noteq> 0 \<and> pos = is_bytes_left s
      then
        let decode = load_ptr (ext_type ext m) m in
        case (if decode \<noteq> 0 then Some (de_extension env decode ext tag wt s m)
              else default_extension_decoder n env submessage s ext tag wt m) of
          None \<Rightarrow> None
        | Some (False, s, m) \<Rightarrow> Some (False, s, m)
        | Some (True, s, m) \<Rightarrow> extension_loop n env submessage pos s (ext_next ext m) tag wt m
      else Some (True, s, m))"

definition decode_extension ::
    "nat \<Rightarrow> ('s, 'h) pb_denv \<Rightarrow> ('s, 'h) pb_field_decoder \<Rightarrow> 's pb_istream \<Rightarrow> u32 \<Rightarrow> pb_wire_type_t \<Rightarrow> pb_field_iter_t \<Rightarrow>
     'h pb_mem \<Rightarrow> ('s, 'h) pb_result" where
  "decode_extension n env submessage s tag wt iter m =
     extension_loop n env submessage (is_bytes_left s) s (load_ptr (it_pData iter) m) tag wt m"

section \<open>Messages\<close>

text \<open>The variables of \<open>pb_decode_noinit\<close>; \<open>fixed_count_size\<close> is in the iterator, \<open>fixed_count_field\<close> is an
  index of the table.\<close>

record ('s, 'h) pb_decoding =
  dl_stream :: "'s pb_istream"
  dl_iter :: pb_field_iter_t
  dl_mem :: "'h pb_mem"
  dl_fields_seen :: "u32 list"
  dl_extension_range_start :: u32
  dl_fixed_count_field :: "nat option"

datatype loop_control = Continue | Break | Fail

definition PB_MAX_REQUIRED_FIELDS :: nat where "PB_MAX_REQUIRED_FIELDS = 64"

text \<open>A tag that is not in the table.\<close>

definition skip_unknown :: "('s, 'h) pb_denv \<Rightarrow> pb_wire_type_t \<Rightarrow> ('s, 'h) pb_decoding \<Rightarrow> loop_control \<times> ('s, 'h) pb_decoding" where
  "skip_unknown env wt st =
     (case pb_skip_field (de_read env) wt (dl_stream st) of
        (ok, s) \<Rightarrow> (if ok then Continue else Fail, st\<lparr>dl_stream := s\<rparr>))"

definition decode_unknown ::
    "nat \<Rightarrow> ('s, 'h) pb_denv \<Rightarrow> ('s, 'h) pb_field_decoder \<Rightarrow> u32 \<Rightarrow> pb_wire_type_t \<Rightarrow> ('s, 'h) pb_decoding \<Rightarrow>
     (loop_control \<times> ('s, 'h) pb_decoding) option" where
  "decode_unknown n env submessage tag wt st =
     (if tag \<ge> dl_extension_range_start st
      then
        case find_extension_field (dl_iter st) of
          (found, iter) \<Rightarrow>
            let st = st\<lparr>dl_iter := iter,
                        dl_extension_range_start := (if \<not> found then - 1 else pf_tag (it_field iter))\<rparr>
            in if tag \<ge> dl_extension_range_start st
               then
                 (case decode_extension n env submessage (dl_stream st) tag wt iter (dl_mem st) of
                    None \<Rightarrow> None
                  | Some (False, s, m) \<Rightarrow> Some (Fail, st\<lparr>dl_stream := s, dl_mem := m\<rparr>)
                  | Some (True, s, m) \<Rightarrow>
                      let pos = is_bytes_left (dl_stream st); st = st\<lparr>dl_stream := s, dl_mem := m\<rparr>
                      in if pos \<noteq> is_bytes_left s then Some (Continue, st)
                         else Some (skip_unknown env wt st))
               else Some (skip_unknown env wt st)
      else Some (skip_unknown env wt st))"

text \<open>The count of an array of fixed size is a local variable; the previous such array has to be complete.\<close>

definition fixed_count_complete :: "('s, 'h) pb_decoding \<Rightarrow> bool" where
  "fixed_count_complete st =
     (case dl_fixed_count_field st of
        None \<Rightarrow> True
      | Some i \<Rightarrow> it_fixed_count (dl_iter st) = pf_array_size (field_at (it_start (dl_iter st)) i))"

definition enter_fixed_count :: "('s, 'h) pb_decoding \<Rightarrow> bool \<times> ('s, 'h) pb_decoding" where
  "enter_fixed_count st =
     (let iter = dl_iter st in
      if PB_HTYPE (pf_type (it_field iter)) = PB_HTYPE_REPEATED \<and> it_pSize iter = SizeAt (it_pData iter)
      then
        if dl_fixed_count_field st \<noteq> Some (it_pos iter)
        then if \<not> fixed_count_complete st
             then (False, st\<lparr>dl_stream := is_error ''wrong size for fixed count field'' (dl_stream st)\<rparr>)
             else (True, st\<lparr>dl_fixed_count_field := Some (it_pos iter),
                           dl_iter := iter\<lparr>it_fixed_count := 0, it_pSize := FixedCount\<rparr>\<rparr>)
        else (True, st\<lparr>dl_iter := iter\<lparr>it_pSize := FixedCount\<rparr>\<rparr>)
      else (True, st))"

definition mark_seen :: "pb_field_iter_t \<Rightarrow> u32 list \<Rightarrow> u32 list" where
  "mark_seen iter fields_seen =
     (let i = it_required_field_index iter in
      if PB_HTYPE (pf_type (it_field iter)) = PB_HTYPE_REQUIRED \<and> i < PB_MAX_REQUIRED_FIELDS
      then fields_seen[i div 32 := (fields_seen ! (i div 32)) OR push_bit (i mod 32) 1]
      else fields_seen)"

definition decode_known ::
    "nat \<Rightarrow> ('s, 'h) pb_denv \<Rightarrow> ('s, 'h) pb_field_decoder \<Rightarrow> pb_wire_type_t \<Rightarrow> ('s, 'h) pb_decoding \<Rightarrow>
     (loop_control \<times> ('s, 'h) pb_decoding) option" where
  "decode_known n env submessage wt st =
     (case enter_fixed_count st of
        (False, st) \<Rightarrow> Some (Fail, st)
      | (True, st) \<Rightarrow>
          let st = st\<lparr>dl_fields_seen := mark_seen (dl_iter st) (dl_fields_seen st)\<rparr>
          in (case decode_field n env submessage (dl_stream st) wt (dl_iter st) (dl_mem st) of
                None \<Rightarrow> None
              | Some (ok, s, iter, m) \<Rightarrow>
                  Some (if ok then Continue else Fail, st\<lparr>dl_stream := s, dl_iter := iter, dl_mem := m\<rparr>)))"

text \<open>The body of the loop, and the loop.\<close>

definition decode_one ::
    "nat \<Rightarrow> ('s, 'h) pb_denv \<Rightarrow> ('s, 'h) pb_field_decoder \<Rightarrow> ('s, 'h) pb_decoding \<Rightarrow>
     (loop_control \<times> ('s, 'h) pb_decoding) option" where
  "decode_one n env submessage st =
     (case pb_decode_tag (de_read env) (dl_stream st) of
        ((ok, wt, tag, eof), s) \<Rightarrow>
          let st = st\<lparr>dl_stream := s\<rparr> in
          if \<not> ok then Some (if eof then Break else Fail, st)
          else
            (case pb_field_iter_find (dl_iter st) tag of
               (False, iter) \<Rightarrow> decode_unknown n env submessage tag wt (st\<lparr>dl_iter := iter\<rparr>)
             | (True, iter) \<Rightarrow> decode_known n env submessage wt (st\<lparr>dl_iter := iter\<rparr>)))"

fun decode_loop ::
    "nat \<Rightarrow> ('s, 'h) pb_denv \<Rightarrow> ('s, 'h) pb_field_decoder \<Rightarrow> ('s, 'h) pb_decoding \<Rightarrow> (bool \<times> ('s, 'h) pb_decoding) option" where
  "decode_loop 0 env submessage st = None"
| "decode_loop (Suc n) env submessage st =
     (if is_bytes_left (dl_stream st) = 0 then Some (True, st)
      else case decode_one n env submessage st of
             None \<Rightarrow> None
           | Some (Continue, st) \<Rightarrow> decode_loop n env submessage st
           | Some (Break, st) \<Rightarrow> Some (True, st)
           | Some (Fail, st) \<Rightarrow> Some (False, st))"

text \<open>Seeking to the end of the table: \<open>req_field_count\<close> and \<open>last_type\<close> of the last descriptor.\<close>

function required_loop :: "pb_field_iter_t \<Rightarrow> nat \<times> u8 \<times> pb_field_iter_t" where
  "required_loop iter =
     (case pb_field_iter_next iter of
        (False, iter') \<Rightarrow> (it_required_field_index iter, pf_type (it_field iter), iter')
      | (True, iter') \<Rightarrow> required_loop iter')"
  by pat_completeness auto
termination
  by (relation "measure (\<lambda>iter. length (it_start iter) - it_pos iter)") (auto dest!: iter_next_pos [OF sym])

declare required_loop.simps [simp del]

definition all_required_seen :: "pb_field_iter_t \<Rightarrow> u32 list \<Rightarrow> bool" where
  "all_required_seen iter fields_seen =
     (case required_loop iter of
        (req_field_count, last_type, iter) \<Rightarrow>
          let count = (if PB_HTYPE last_type = PB_HTYPE_REQUIRED \<and> pf_tag (it_field iter) \<noteq> 0
                       then req_field_count + 1 else req_field_count);
              count = (if count > PB_MAX_REQUIRED_FIELDS then PB_MAX_REQUIRED_FIELDS else count)
          in count > 0 \<longrightarrow>
             list_all (\<lambda>i. fields_seen ! i = NOT 0) [0..<count div 32] \<and>
             (count mod 32 \<noteq> 0 \<longrightarrow> fields_seen ! (count div 32) = drop_bit (32 - count mod 32) (NOT 0)))"

definition start_decoding :: "'s pb_istream \<Rightarrow> pb_field_t list \<Rightarrow> nat \<Rightarrow> 'h pb_mem \<Rightarrow> ('s, 'h) pb_decoding" where
  "start_decoding s fs dest_struct m =
     \<lparr>dl_stream = s, dl_iter = snd (pb_field_iter_begin 0 fs dest_struct), dl_mem = m, dl_fields_seen = [0, 0],
      dl_extension_range_start = 0, dl_fixed_count_field = None\<rparr>"

text \<open>\<open>pb_decode_noinit\<close>, given the decoder of submessages.\<close>

definition decode_message ::
    "nat \<Rightarrow> ('s, 'h) pb_denv \<Rightarrow> ('s, 'h) pb_field_decoder \<Rightarrow> pb_field_t list \<Rightarrow> 's pb_istream \<Rightarrow> nat \<Rightarrow> 'h pb_mem \<Rightarrow>
     ('s, 'h) pb_result" where
  "decode_message n env submessage fs s dest_struct m =
     (case decode_loop n env submessage (start_decoding s fs dest_struct m) of
        None \<Rightarrow> None
      | Some (ok, st) \<Rightarrow>
          let s = dl_stream st; m = dl_mem st in
          if \<not> ok then Some (False, s, m)
          else if \<not> fixed_count_complete st then Some (False, is_error ''wrong size for fixed count field'' s, m)
          else if \<not> all_required_seen (dl_iter st) (dl_fields_seen st) then Some (False, is_error ''missing required field'' s, m)
          else Some (True, s, m))"

text \<open>\<open>pb_decode\<close>, given \<open>pb_decode_noinit\<close>: a failed message is released again.\<close>

definition decode_and_release ::
    "nat \<Rightarrow> ('s, 'h) pb_denv \<Rightarrow> (pb_field_t list \<Rightarrow> 's pb_istream \<Rightarrow> nat \<Rightarrow> 'h pb_mem \<Rightarrow> ('s, 'h) pb_result) \<Rightarrow>
     pb_field_t list \<Rightarrow> 's pb_istream \<Rightarrow> nat \<Rightarrow> 'h pb_mem \<Rightarrow> ('s, 'h) pb_result" where
  "decode_and_release n env noinit fs s dest_struct m =
     (case pb_message_set_to_defaults n (de_fields env) fs dest_struct m of
        None \<Rightarrow> None
      | Some m \<Rightarrow>
          (case noinit fs s dest_struct m of
             None \<Rightarrow> None
           | Some (True, s, m) \<Rightarrow> Some (True, s, m)
           | Some (False, s, m) \<Rightarrow> map_option (\<lambda>m. (False, s, m)) (pb_release n env fs dest_struct m)))"

fun pb_dec_submessage :: "nat \<Rightarrow> ('s, 'h) pb_denv \<Rightarrow> ('s, 'h) pb_field_decoder" where
  "pb_dec_submessage 0 env f s dest m = None"
| "pb_dec_submessage (Suc n) env f s dest m =
     (let submsg_fields = de_fields env (pf_ptr f); noinit = decode_message n env (pb_dec_submessage n env) in
      case pb_make_string_substream (de_read env) s of
        (None, s) \<Rightarrow> Some (False, s, m)
      | (Some substream, s) \<Rightarrow>
          if pf_ptr f = 0 then Some (False, is_error ''invalid field descriptor'' s, m)
          else
            (case (if PB_HTYPE (pf_type f) = PB_HTYPE_REPEATED
                   then decode_and_release n env noinit submsg_fields substream dest m
                   else noinit submsg_fields substream dest m) of
               None \<Rightarrow> None
             | Some (status, substream, m) \<Rightarrow>
                 (case pb_close_string_substream (de_read env) s substream of
                    (False, s) \<Rightarrow> Some (False, s, m)
                  | (True, s) \<Rightarrow> Some (status, s, m))))"

definition pb_decode_noinit ::
    "nat \<Rightarrow> ('s, 'h) pb_denv \<Rightarrow> pb_field_t list \<Rightarrow> 's pb_istream \<Rightarrow> nat \<Rightarrow> 'h pb_mem \<Rightarrow> ('s, 'h) pb_result" where
  "pb_decode_noinit n env fs s dest_struct m = decode_message n env (pb_dec_submessage n env) fs s dest_struct m"

definition pb_decode ::
    "nat \<Rightarrow> ('s, 'h) pb_denv \<Rightarrow> pb_field_t list \<Rightarrow> 's pb_istream \<Rightarrow> nat \<Rightarrow> 'h pb_mem \<Rightarrow> ('s, 'h) pb_result" where
  "pb_decode n env fs s dest_struct m = decode_and_release n env (pb_decode_noinit n env) fs s dest_struct m"

definition decode_delimited ::
    "('s, 'h) pb_denv \<Rightarrow> (pb_field_t list \<Rightarrow> 's pb_istream \<Rightarrow> nat \<Rightarrow> 'h pb_mem \<Rightarrow> ('s, 'h) pb_result) \<Rightarrow>
     pb_field_t list \<Rightarrow> 's pb_istream \<Rightarrow> nat \<Rightarrow> 'h pb_mem \<Rightarrow> ('s, 'h) pb_result" where
  "decode_delimited env decode fs s dest_struct m =
     (case pb_make_string_substream (de_read env) s of
        (None, s) \<Rightarrow> Some (False, s, m)
      | (Some substream, s) \<Rightarrow>
          (case decode fs substream dest_struct m of
             None \<Rightarrow> None
           | Some (status, substream, m) \<Rightarrow>
               (case pb_close_string_substream (de_read env) s substream of
                  (False, s) \<Rightarrow> Some (False, s, m)
                | (True, s) \<Rightarrow> Some (status, s, m))))"

definition pb_decode_delimited_noinit ::
    "nat \<Rightarrow> ('s, 'h) pb_denv \<Rightarrow> pb_field_t list \<Rightarrow> 's pb_istream \<Rightarrow> nat \<Rightarrow> 'h pb_mem \<Rightarrow> ('s, 'h) pb_result" where
  "pb_decode_delimited_noinit n env fs s dest_struct m = decode_delimited env (pb_decode_noinit n env) fs s dest_struct m"

definition pb_decode_delimited ::
    "nat \<Rightarrow> ('s, 'h) pb_denv \<Rightarrow> pb_field_t list \<Rightarrow> 's pb_istream \<Rightarrow> nat \<Rightarrow> 'h pb_mem \<Rightarrow> ('s, 'h) pb_result" where
  "pb_decode_delimited n env fs s dest_struct m = decode_delimited env (pb_decode n env) fs s dest_struct m"

definition pb_decode_nullterminated ::
    "nat \<Rightarrow> ('s, 'h) pb_denv \<Rightarrow> pb_field_t list \<Rightarrow> 's pb_istream \<Rightarrow> nat \<Rightarrow> 'h pb_mem \<Rightarrow> ('s, 'h) pb_result" where
  "pb_decode_nullterminated n env fs s dest_struct m = pb_decode n env fs s dest_struct m"

end
