(* ===== verification/PbEncodeMsg.thy ===== *)
theory PbEncodeMsg
  imports PbDecode
begin

text \<open>
  Encoding of messages (\<open>pb_encode.c\<close>): arrays, static and pointer fields, callback fields, extensions,
  submessages with their size in front, and whole messages. Recursion over submessages and linked
  extensions takes fuel; \<open>None\<close> means that the run did not end within it. \<open>ee_fields\<close> are the generated
  descriptor tables by address, \<open>ee_callback\<close> and \<open>ee_extension\<close> the client's functions by address, which
  read the memory, and \<open>ee_null\<close> is the \<open>state\<close> of a stream that has none.
\<close>

record ('o, 'h) pb_eenv =
  ee_write :: "'o ocallback_fun"
  ee_fields :: "nat \<Rightarrow> pb_field_t list"
  ee_callback :: "nat \<Rightarrow> pb_field_t \<Rightarrow> nat \<Rightarrow> 'h pb_mem \<Rightarrow> 'o pb_ostream \<Rightarrow> bool \<times> 'o pb_ostream"
  ee_extension :: "nat \<Rightarrow> nat \<Rightarrow> 'h pb_mem \<Rightarrow> 'o pb_ostream \<Rightarrow> bool \<times> 'o pb_ostream"
  ee_null :: 'o

type_synonym 'o pb_eresult = "(bool \<times> 'o pb_ostream) option"

type_synonym ('o, 'h) pb_field_encoder = "pb_field_t \<Rightarrow> nat \<Rightarrow> 'h pb_mem \<Rightarrow> 'o pb_ostream \<Rightarrow> 'o pb_eresult"

text \<open>\<open>if (!f) return false; g\<close> for steps that may not return.\<close>

definition e_and :: "('o pb_ostream \<Rightarrow> 'o pb_eresult) \<Rightarrow> ('o pb_ostream \<Rightarrow> 'o pb_eresult) \<Rightarrow> 'o pb_ostream \<Rightarrow> 'o pb_eresult" where
  "e_and f g s = (case f s of None \<Rightarrow> None | Some (False, s) \<Rightarrow> Some (False, s) | Some (True, s) \<Rightarrow> g s)"

definition e_lift :: "('o pb_ostream \<Rightarrow> bool \<times> 'o pb_ostream) \<Rightarrow> 'o pb_ostream \<Rightarrow> 'o pb_eresult" where
  "e_lift f s = Some (f s)"

text \<open>\<open>PB_OSTREAM_SIZING\<close>, and \<open>pb_write(stream, NULL, size)\<close> on such a stream.\<close>

definition sizing_stream :: "('o, 'h) pb_eenv \<Rightarrow> 'o pb_ostream" where
  "sizing_stream env =
     \<lparr>os_callback = NoCallback, os_out = [], os_state = ee_null env, os_max_size = 0, os_bytes_written = 0, os_errmsg = None\<rparr>"

definition pb_write_sizing :: "nat \<Rightarrow> 'o pb_ostream \<Rightarrow> bool \<times> 'o pb_ostream" where
  "pb_write_sizing count s = (True, s\<lparr>os_bytes_written := szadd (os_bytes_written s) count\<rparr>)"

section \<open>The encoder table\<close>

definition PB_ENCODERS :: "('o, 'h) pb_eenv \<Rightarrow> ('o, 'h) pb_field_encoder \<Rightarrow> ('o, 'h) pb_field_encoder option list" where
  "PB_ENCODERS env submessage =
     (let io = ee_write env in
      [Some (\<lambda>f p m. e_lift (pb_enc_bool io f p m)), Some (\<lambda>f p m. e_lift (pb_enc_varint io f p m)),
       Some (\<lambda>f p m. e_lift (pb_enc_uvarint io f p m)), Some (\<lambda>f p m. e_lift (pb_enc_svarint io f p m)),
       Some (\<lambda>f p m. e_lift (pb_enc_fixed32 io f p m)), Some (\<lambda>f p m. e_lift (pb_enc_fixed64 io f p m)),
       Some (\<lambda>f p m. e_lift (pb_enc_bytes io f p m)), Some (\<lambda>f p m. e_lift (pb_enc_string io f p m)),
       Some submessage, None, Some (\<lambda>f p m. e_lift (pb_enc_fixed_length_bytes io f p m))])"

text \<open>\<open>func = PB_ENCODERS[PB_LTYPE(type)]\<close> and its call.\<close>

definition call_encoder :: "('o, 'h) pb_eenv \<Rightarrow> ('o, 'h) pb_field_encoder \<Rightarrow> ('o, 'h) pb_field_encoder" where
  "call_encoder env submessage f p m s =
     (let l = unat (PB_LTYPE (pf_type f)); table = PB_ENCODERS env submessage in
      if l < length table then (case table ! l of None \<Rightarrow> None | Some func \<Rightarrow> func f p m s) else None)"

section \<open>Arrays\<close>

text \<open>The loop over the entries of an array at \<open>p\<close>.\<close>

fun encode_items :: "(nat \<Rightarrow> 'o pb_ostream \<Rightarrow> 'o pb_eresult) \<Rightarrow> nat \<Rightarrow> nat \<Rightarrow> nat \<Rightarrow> 'o pb_ostream \<Rightarrow> 'o pb_eresult" where
  "encode_items func data_size 0 p s = Some (True, s)"
| "encode_items func data_size (Suc count) p s = e_and (func p) (encode_items func data_size count (p + data_size)) s"

text \<open>The total size of a packed array.\<close>

definition packed_size :: "('o, 'h) pb_eenv \<Rightarrow> ('o, 'h) pb_field_encoder \<Rightarrow> pb_field_t \<Rightarrow> nat \<Rightarrow> nat \<Rightarrow> 'h pb_mem \<Rightarrow> (bool \<times> nat) option" where
  "packed_size env func f pData count m =
     (if PB_LTYPE (pf_type f) = PB_LTYPE_FIXED32 then Some (True, 4 * count)
      else if PB_LTYPE (pf_type f) = PB_LTYPE_FIXED64 then Some (True, 8 * count)
      else map_option (\<lambda>(ok, sizestream). (ok, os_bytes_written sizestream))
             (encode_items (\<lambda>p. func f p m) (pf_data_size f) count pData (sizing_stream env)))"

definition encode_array ::
    "('o, 'h) pb_eenv \<Rightarrow> ('o, 'h) pb_field_encoder \<Rightarrow> pb_field_t \<Rightarrow> nat \<Rightarrow> nat \<Rightarrow> 'h pb_mem \<Rightarrow> 'o pb_ostream \<Rightarrow> 'o pb_eresult" where
  "encode_array env func f pData count m s =
     (let io = ee_write env in
      if count = 0 then Some (True, s)
      else if PB_ATYPE (pf_type f) \<noteq> PB_ATYPE_POINTER \<and> count > pf_array_size f
      then Some (False, os_error ''array max size exceeded'' s)
      else if PB_LTYPE (pf_type f) \<le> PB_LTYPE_LAST_PACKABLE
      then e_and (e_lift (pb_encode_tag io PB_WT_STRING (pf_tag f)))
             (\<lambda>s. case packed_size env func f pData count m of
                    None \<Rightarrow> None
                  | Some (False, _) \<Rightarrow> Some (False, s)
                  | Some (True, n) \<Rightarrow>
                      e_and (e_lift (pb_encode_varint io (of_nat n)))
                        (\<lambda>s. if os_callback s = NoCallback then e_lift (pb_write_sizing n) s
                             else encode_items (\<lambda>p. func f p m) (pf_data_size f) count pData s) s) s
      else encode_items
             (\<lambda>p. e_and (e_lift (pb_encode_tag_for_field io f))
                    (func f (if PB_ATYPE (pf_type f) = PB_ATYPE_POINTER \<and>
                                (PB_LTYPE (pf_type f) = PB_LTYPE_STRING \<or> PB_LTYPE (pf_type f) = PB_LTYPE_BYTES)
                             then load_ptr p m else p) m))
             (pf_data_size f) count pData s)"

section \<open>Fields\<close>

text \<open>Whether a proto3 field has its default value.\<close>

fun pb_check_proto3_default_value :: "nat \<Rightarrow> (nat \<Rightarrow> pb_field_t list) \<Rightarrow> pb_field_t \<Rightarrow> nat \<Rightarrow> 'h pb_mem \<Rightarrow> bool option" where
  "pb_check_proto3_default_value 0 tables f pData m = None"
| "pb_check_proto3_default_value (Suc n) tables f pData m =
     (let type = pf_type f; pSize = ptr_add pData (pf_size_offset f) in
      if PB_HTYPE type = PB_HTYPE_REQUIRED then Some False
      else if PB_HTYPE type = PB_HTYPE_REPEATED \<and> pf_size_offset f \<noteq> 0 then Some (load_int 4 pSize m = 0)
      else if PB_HTYPE type = PB_HTYPE_REPEATED \<and> PB_ATYPE type = PB_ATYPE_STATIC then Some False
      else if PB_HTYPE type = PB_HTYPE_ONEOF then Some (load_int 4 pSize m = 0)
      else if PB_HTYPE type = PB_HTYPE_OPTIONAL \<and> pf_size_offset f \<noteq> 0 then Some (safe_read_bool pSize m = False)
      else if PB_ATYPE type = PB_ATYPE_STATIC \<and> PB_LTYPE type = PB_LTYPE_BYTES then Some (load_int 4 pData m = 0)
      else if PB_ATYPE type = PB_ATYPE_STATIC \<and> PB_LTYPE type = PB_LTYPE_STRING then Some (pm_byte m pData = 0)
      else if PB_ATYPE type = PB_ATYPE_STATIC \<and> PB_LTYPE type = PB_LTYPE_FIXED_LENGTH_BYTES then Some (pf_data_size f = 0)
      else if PB_ATYPE type = PB_ATYPE_STATIC \<and> PB_LTYPE type = PB_LTYPE_SUBMESSAGE
      then
        (case pb_field_iter_begin 0 (tables (pf_ptr f)) pData of
           (False, _) \<Rightarrow> Some True
         | (True, iter) \<Rightarrow>
             map_option fst (do_fields
               (\<lambda>iter u. map_option (\<lambda>b. (b, u)) (pb_check_proto3_default_value n tables (it_field iter) (it_pData iter) m)) iter ()))
      else Some (list_all (\<lambda>b. b = 0) (load pData (pf_data_size f) m)))"

definition encode_basic_field :: "nat \<Rightarrow> ('o, 'h) pb_eenv \<Rightarrow> ('o, 'h) pb_field_encoder \<Rightarrow> ('o, 'h) pb_field_encoder" where
  "encode_basic_field n env submessage f pData m s =
     (let io = ee_write env; type = pf_type f; func = call_encoder env submessage;
          pSize = ptr_add pData (pf_size_offset f); explicit = pf_size_offset f \<noteq> 0 in
      case (if \<not> explicit \<and> PB_HTYPE type = PB_HTYPE_OPTIONAL
            then map_option Not (pb_check_proto3_default_value n (ee_fields env) f pData m) else Some True) of
        None \<Rightarrow> None
      | Some implicit_has \<Rightarrow>
          let p = (if PB_ATYPE type = PB_ATYPE_POINTER then load_ptr pData m else pData);
              implicit_has = (if PB_ATYPE type = PB_ATYPE_POINTER then p \<noteq> 0 else implicit_has)
          in if PB_HTYPE type = PB_HTYPE_REQUIRED
             then if p = 0 then Some (False, os_error ''missing required field'' s)
                  else e_and (e_lift (pb_encode_tag_for_field io f)) (func f p m) s
             else if PB_HTYPE type = PB_HTYPE_OPTIONAL
             then if (if explicit then safe_read_bool pSize m else implicit_has)
                  then e_and (e_lift (pb_encode_tag_for_field io f)) (func f p m) s
                  else Some (True, s)
             else if PB_HTYPE type = PB_HTYPE_REPEATED
             then encode_array env func f p (if explicit then load_int 4 pSize m else pf_array_size f) m s
             else if PB_HTYPE type = PB_HTYPE_ONEOF
             then if (if explicit then load_int 4 pSize m else of_bool implicit_has) = unat (pf_tag f)
                  then e_and (e_lift (pb_encode_tag_for_field io f)) (func f p m) s
                  else Some (True, s)
             else Some (False, os_error ''invalid field type'' s))"

definition encode_callback_field :: "('o, 'h) pb_eenv \<Rightarrow> ('o, 'h) pb_field_encoder" where
  "encode_callback_field env f pData m s =
     (let encode = load_ptr pData m in
      if encode \<noteq> 0
      then (case ee_callback env encode f (pData + 8) m s of
              (False, s) \<Rightarrow> Some (False, os_error ''callback error'' s)
            | (True, s) \<Rightarrow> Some (True, s))
      else Some (True, s))"

definition encode_field :: "nat \<Rightarrow> ('o, 'h) pb_eenv \<Rightarrow> ('o, 'h) pb_field_encoder \<Rightarrow> ('o, 'h) pb_field_encoder" where
  "encode_field n env submessage f pData m s =
     (let atype = PB_ATYPE (pf_type f) in
      if atype = PB_ATYPE_STATIC \<or> atype = PB_ATYPE_POINTER then encode_basic_field n env submessage f pData m s
      else if atype = PB_ATYPE_CALLBACK then encode_callback_field env f pData m s
      else Some (False, os_error ''invalid field type'' s))"

section \<open>Extensions\<close>

definition default_extension_encoder ::
    "nat \<Rightarrow> ('o, 'h) pb_eenv \<Rightarrow> ('o, 'h) pb_field_encoder \<Rightarrow> nat \<Rightarrow> 'h pb_mem \<Rightarrow> 'o pb_ostream \<Rightarrow> 'o pb_eresult" where
  "default_extension_encoder n env submessage ext m s =
     (let f = field_at (ee_fields env (ext_arg ext m)) 0 in
      if PB_ATYPE (pf_type f) = PB_ATYPE_POINTER then encode_field n env submessage f (ext + 8) m s
      else encode_field n env submessage f (ext_dest ext m) m s)"

text \<open>The loop over the linked extensions.\<close>

fun extension_encode_loop ::
    "nat \<Rightarrow> ('o, 'h) pb_eenv \<Rightarrow> ('o, 'h) pb_field_encoder \<Rightarrow> nat \<Rightarrow> 'h pb_mem \<Rightarrow> 'o pb_ostream \<Rightarrow> 'o pb_eresult" where
  "extension_encode_loop 0 env submessage ext m s = None"
| "extension_encode_loop (Suc n) env submessage ext m s =
     (if ext = 0 then Some (True, s)
      else
        let encode = load_ptr (ext_type ext m + 8) m in
        e_and (\<lambda>s. if encode \<noteq> 0 then Some (ee_extension env encode ext m s)
                    else default_extension_encoder n env submessage ext m s)
          (extension_encode_loop n env submessage (ext_next ext m) m) s)"

definition encode_extension_field :: "nat \<Rightarrow> ('o, 'h) pb_eenv \<Rightarrow> ('o, 'h) pb_field_encoder \<Rightarrow> ('o, 'h) pb_field_encoder" where
  "encode_extension_field n env submessage f pData m s = extension_encode_loop n env submessage (load_ptr pData m) m s"

section \<open>Messages\<close>

text \<open>\<open>pb_encode\<close>, given the encoder of submessages.\<close>

definition encode_message ::
    "nat \<Rightarrow> ('o, 'h) pb_eenv \<Rightarrow> ('o, 'h) pb_field_encoder \<Rightarrow> pb_field_t list \<Rightarrow> nat \<Rightarrow> 'h pb_mem \<Rightarrow> 'o pb_ostream \<Rightarrow> 'o pb_eresult" where
  "encode_message n env submessage fs src_struct m s =
     (case pb_field_iter_begin 0 fs src_struct of
        (False, _) \<Rightarrow> Some (True, s)
      | (True, iter) \<Rightarrow>
          do_fields
            (\<lambda>iter s. if PB_LTYPE (pf_type (it_field iter)) = PB_LTYPE_EXTENSION
                      then encode_extension_field n env submessage (it_field iter) (it_pData iter) m s
                      else encode_field n env submessage (it_field iter) (it_pData iter) m s) iter s)"

text \<open>\<open>pb_encode_submessage\<close>, given \<open>pb_encode\<close>: the size is computed first, and checked afterwards.\<close>

definition encode_with_size ::
    "('o, 'h) pb_eenv \<Rightarrow> (pb_field_t list \<Rightarrow> nat \<Rightarrow> 'h pb_mem \<Rightarrow> 'o pb_ostream \<Rightarrow> 'o pb_eresult) \<Rightarrow> pb_field_t list \<Rightarrow> nat \<Rightarrow>
     'h pb_mem \<Rightarrow> 'o pb_ostream \<Rightarrow> 'o pb_eresult" where
  "encode_with_size env encode fs src_struct m s =
     (case encode fs src_struct m (sizing_stream env) of
        None \<Rightarrow> None
      | Some (False, substream) \<Rightarrow> Some (False, s\<lparr>os_errmsg := os_errmsg substream\<rparr>)
      | Some (True, substream) \<Rightarrow>
          let n = os_bytes_written substream in
          e_and (e_lift (pb_encode_varint (ee_write env) (of_nat n)))
            (\<lambda>s. if os_callback s = NoCallback then e_lift (pb_write_sizing n) s
                 else if szadd (os_bytes_written s) n > os_max_size s then Some (False, os_error ''stream full'' s)
                 else
                   (case encode fs src_struct m
                           \<lparr>os_callback = os_callback s, os_out = [], os_state = os_state s, os_max_size = n,
                            os_bytes_written = 0, os_errmsg = None\<rparr> of
                      None \<Rightarrow> None
                    | Some (status, substream) \<Rightarrow>
                        let s = s\<lparr>os_bytes_written := szadd (os_bytes_written s) (os_bytes_written substream),
                                  os_out := os_out s @ os_out substream, os_state := os_state substream,
                                  os_errmsg := os_errmsg substream\<rparr>
                        in if os_bytes_written substream \<noteq> n then Some (False, os_error ''submsg size changed'' s)
                           else Some (status, s))) s)"

fun pb_enc_submessage :: "nat \<Rightarrow> ('o, 'h) pb_eenv \<Rightarrow> ('o, 'h) pb_field_encoder" where
  "pb_enc_submessage 0 env f src m s = None"
| "pb_enc_submessage (Suc n) env f src m s =
     (if pf_ptr f = 0 then Some (False, os_error ''invalid field descriptor'' s)
      else encode_with_size env (encode_message n env (pb_enc_submessage n env)) (ee_fields env (pf_ptr f)) src m s)"

definition pb_encode :: "nat \<Rightarrow> ('o, 'h) pb_eenv \<Rightarrow> pb_field_t list \<Rightarrow> nat \<Rightarrow> 'h pb_mem \<Rightarrow> 'o pb_ostream \<Rightarrow> 'o pb_eresult" where
  "pb_encode n env fs src_struct m s = encode_message n env (pb_enc_submessage n env) fs src_struct m s"

definition pb_encode_submessage ::
    "nat \<Rightarrow> ('o, 'h) pb_eenv \<Rightarrow> pb_field_t list \<Rightarrow> nat \<Rightarrow> 'h pb_mem \<Rightarrow> 'o pb_ostream \<Rightarrow> 'o pb_eresult" where
  "pb_encode_submessage n env fs src_struct m s = encode_with_size env (pb_encode n env) fs src_struct m s"

definition pb_encode_delimited ::
    "nat \<Rightarrow> ('o, 'h) pb_eenv \<Rightarrow> pb_field_t list \<Rightarrow> nat \<Rightarrow> 'h pb_mem \<Rightarrow> 'o pb_ostream \<Rightarrow> 'o pb_eresult" where
  "pb_encode_delimited n env fs src_struct m s = pb_encode_submessage n env fs src_struct m s"

definition pb_encode_nullterminated ::
    "nat \<Rightarrow> ('o, 'h) pb_eenv \<Rightarrow> pb_field_t list \<Rightarrow> nat \<Rightarrow> 'h pb_mem \<Rightarrow> 'o pb_ostream \<Rightarrow> 'o pb_eresult" where
  "pb_encode_nullterminated n env fs src_struct m s =
     e_and (pb_encode n env fs src_struct m) (e_lift (pb_write (ee_write env) [0])) s"

text \<open>The size, if the message can be encoded.\<close>

definition pb_get_encoded_size :: "nat \<Rightarrow> ('o, 'h) pb_eenv \<Rightarrow> pb_field_t list \<Rightarrow> nat \<Rightarrow> 'h pb_mem \<Rightarrow> nat option option" where
  "pb_get_encoded_size n env fs src_struct m =
     map_option (\<lambda>(ok, s). if ok then Some (os_bytes_written s) else None)
       (pb_encode n env fs src_struct m (sizing_stream env))"

end
