(* ===== verification/PbFieldSpec.thy ===== *)
theory PbFieldSpec
  imports PbField
begin

text \<open>
  Correctness of the field decoders and encoders: what each encoder writes is a function of the contents
  of the field (\<open>scalar_wire\<close> for integers and bools), the decoder puts those contents back, and no
  decoder writes outside a static field, whatever the input.
\<close>

section \<open>Integers in memory\<close>

text \<open>\<open>restores dec bs src\<close>: a decoder that reads \<open>bs\<close> writes \<open>src\<close> to its destination.\<close>

definition restores ::
    "('s pb_istream \<Rightarrow> nat \<Rightarrow> 'h pb_mem \<Rightarrow> bool \<times> 's pb_istream \<times> 'h pb_mem) \<Rightarrow> u8 list \<Rightarrow> u8 list \<Rightarrow> bool" where
  "restores dec bs src \<longleftrightarrow>
     (\<forall>s rest dest m. is_ok s \<and> is_rest s = bs @ rest \<longrightarrow>
        dec s dest m = (True, is_advance (length bs) s, store dest src m))"

lemma restoresD:
  "restores dec bs src \<Longrightarrow> is_ok s \<Longrightarrow> is_rest s = bs @ rest \<Longrightarrow>
   dec s dest m = (True, is_advance (length bs) s, store dest src m)"
  by (simp add: restores_def)

lemma restores_store:
  assumes "takes rd bs v" and "\<And>s dest m. st v s dest m = (True, s, store dest src m)"
  shows "restores (\<lambda>s dest m. case rd s of (None, s) \<Rightarrow> (False, s, m) | (Some v, s) \<Rightarrow> st v s dest m) bs src"
  unfolding restores_def using takesD [OF assms(1)] assms(2) by fastforce

abbreviation int_size :: "nat \<Rightarrow> bool" where
  "int_size n \<equiv> n = 1 \<or> n = 2 \<or> n = 4 \<or> n = 8"

lemma store_int_le_val:
  assumes "length c = n" and "v mod 256 ^ n = le_val c"
  shows "store_int n v dest m = store dest c m"
  using le_bytes_mod [of n v] le_bytes_le_val [OF assms(1)] assms(2) by (simp add: store_int_def)

lemma store_checked_ok:
  assumes "int_size (pf_data_size f)" and "clamp (pf_data_size f) v = v" and "length c = pf_data_size f"
    and "unat v mod 256 ^ pf_data_size f = le_val c"
  shows "store_checked clamp f v s dest m = (True, s, store dest c m)"
  using assms store_int_le_val [OF assms(3,4), of dest m] by (auto simp: store_checked_def Let_def)

lemma ucast_down_up:
  assumes "unat (v :: u64) < 2 ^ LENGTH('a)" and "LENGTH('a::len) \<le> 64"
  shows "ucast (ucast v :: 'a word) = v"
proof -
  have "unat v < 2 ^ 64" by (rule order.strict_trans2 [OF unsigned_less]) simp
  then show ?thesis using assms by (simp add: word_unat_eq_iff unat_ucast)
qed

lemma clamp_unsigned_val:
  assumes "int_size n" and "length c = n"
  shows "clamp_unsigned n (of_nat (le_val c)) = of_nat (le_val c)"
    and "unat (of_nat (le_val c) :: u64) = le_val c"
proof -
  note b = le_val_bound [of c, unfolded assms(2)]
  show u: "unat (of_nat (le_val c) :: u64) = le_val c"
    using b assms(1) by (auto simp: unat_of_nat)
  show "clamp_unsigned n (of_nat (le_val c)) = of_nat (le_val c)"
    using b assms(1) u
    by (auto simp: clamp_unsigned_def ucast_down_up [where ?'a = 8] ucast_down_up [where ?'a = 16] ucast_down_up [where ?'a = 32])
qed

lemma scast_scast_u64:
  assumes "LENGTH('a::len) \<le> LENGTH('b::len)" and "LENGTH('b) \<le> 64"
  shows "scast (ucast (scast (x :: 'a word) :: u64) :: 'b word) = (scast x :: u64)"
proof (rule bit_word_eqI)
  fix n assume "n < LENGTH(64)"
  then show "bit (scast (ucast (scast x :: u64) :: 'b word) :: u64) n \<longleftrightarrow> bit (scast x :: u64) n"
    using assms by (auto simp: bit_simps min_def bit_signed_iff)
qed

lemma unat_scast_low:
  assumes "LENGTH('a::len) \<le> 64"
  shows "unat (scast (x :: 'a word) :: u64) mod 2 ^ LENGTH('a) = unat x"
proof -
  have "(ucast (scast x :: u64) :: 'a word) = x"
  proof (rule bit_word_eqI)
    fix n assume "n < LENGTH('a)"
    then show "bit (ucast (scast x :: u64) :: 'a word) n \<longleftrightarrow> bit x n"
      using assms by (cases "n = LENGTH('a) - 1") (auto simp: bit_simps min_def bit_signed_iff)
  qed
  then have "unat (ucast (scast x :: u64) :: 'a word) = unat x" by (rule arg_cong)
  then show ?thesis by (simp only: unat_ucast)
qed

text \<open>The bytes of a signed integer, sign-extended to 64 bits.\<close>

definition signed_val :: "u8 list \<Rightarrow> i64" where
  "signed_val c =
     (if length c = 1 then scast (of_nat (le_val c) :: u8) else if length c = 2 then scast (of_nat (le_val c) :: u16)
      else if length c = 4 then scast (of_nat (le_val c) :: u32) else of_nat (le_val c))"

lemma load_signed_val: "int_size n \<Longrightarrow> load_signed n src m = signed_val (load src n m)"
  by (auto simp: load_signed_def signed_val_def load_int_def)

lemma signed_val_facts:
  assumes "int_size n" and "length c = n"
  shows "clamp_signed n (signed_val c) = signed_val c"
    and "unat (signed_val c) mod 256 ^ n = le_val c"
    and "n \<noteq> 8 \<Longrightarrow> scast (ucast (signed_val c) :: u32) = signed_val c"
proof -
  note b = le_val_bound [of c, unfolded assms(2)]
  show "clamp_signed n (signed_val c) = signed_val c"
    using assms by (auto simp: clamp_signed_def signed_val_def scast_scast_u64)
  show "n \<noteq> 8 \<Longrightarrow> scast (ucast (signed_val c) :: u32) = signed_val c"
    using assms by (auto simp: signed_val_def scast_scast_u64)
  consider "n = 1" | "n = 2" | "n = 4" | "n = 8" using assms(1) by blast
  then show "unat (signed_val c) mod 256 ^ n = le_val c"
  proof cases
    case 1
    then show ?thesis using b assms(2) unat_scast_low [of "of_nat (le_val c) :: u8"] by (simp add: signed_val_def unat_of_nat)
  next
    case 2
    then show ?thesis using b assms(2) unat_scast_low [of "of_nat (le_val c) :: u16"] by (simp add: signed_val_def unat_of_nat)
  next
    case 3
    then show ?thesis using b assms(2) unat_scast_low [of "of_nat (le_val c) :: u32"] by (simp add: signed_val_def unat_of_nat)
  next
    case 4
    then show ?thesis using b assms(2) by (simp add: signed_val_def unat_of_nat)
  qed
qed

section \<open>Round trips of the scalar fields\<close>

lemma uvarint_field:
  assumes "int_size (pf_data_size f)"
  shows "emits (pb_enc_uvarint io f src m) (leb (le_val (load src (pf_data_size f) m)))"
    and "length c = pf_data_size f \<Longrightarrow> restores (pb_dec_uvarint ip f) (leb (le_val c)) c"
proof -
  let ?v = "of_nat (le_val (load src (pf_data_size f) m)) :: u64"
  have "pb_enc_uvarint io f src m = pb_encode_varint io ?v"
    using assms(1) by (intro ext) (simp add: pb_enc_uvarint_def Let_def load_int_def)
  then show "emits (pb_enc_uvarint io f src m) (leb (le_val (load src (pf_data_size f) m)))"
    using emits_varint [of io ?v] clamp_unsigned_val(2) [OF assms(1) length_load, of src m] by simp
  assume c: "length c = pf_data_size f"
  note u = clamp_unsigned_val [OF assms c]
  have "le_val c mod 256 ^ pf_data_size f = le_val c" using le_val_bound [of c] c by simp
  then show "restores (pb_dec_uvarint ip f) (leb (le_val c)) c"
    unfolding pb_dec_uvarint_def [abs_def]
    using u by (intro restores_store [OF varint_leb [of ip "of_nat (le_val c)", unfolded u(2)]] store_checked_ok assms c) simp_all
qed

lemma varint_field:
  assumes "int_size (pf_data_size f)"
  shows "emits (pb_enc_varint io f src m) (leb (unat (signed_val (load src (pf_data_size f) m))))"
    and "length c = pf_data_size f \<Longrightarrow> restores (pb_dec_varint ip f) (leb (unat (signed_val c))) c"
proof -
  have "pb_enc_varint io f src m = pb_encode_varint io (signed_val (load src (pf_data_size f) m))"
    using assms(1) by (intro ext) (auto simp: pb_enc_varint_def Let_def load_signed_val)
  then show "emits (pb_enc_varint io f src m) (leb (unat (signed_val (load src (pf_data_size f) m))))"
    by (simp only: emits_varint)
  assume c: "length c = pf_data_size f"
  note u = signed_val_facts [OF assms c]
  have cast: "(if pf_data_size f = 8 then signed_val c else scast (ucast (signed_val c) :: u32)) = signed_val c"
    using u(3) by simp
  show "restores (pb_dec_varint ip f) (leb (unat (signed_val c))) c"
    unfolding pb_dec_varint_def [abs_def]
    by (intro restores_store [OF varint_leb]; unfold cast; intro store_checked_ok assms u c)
qed

lemma svarint_field:
  assumes "int_size (pf_data_size f)"
  shows "emits (pb_enc_svarint io f src m) (leb (unat (zigzag (signed_val (load src (pf_data_size f) m)))))"
    and "length c = pf_data_size f \<Longrightarrow> restores (pb_dec_svarint ip f) (leb (unat (zigzag (signed_val c)))) c"
proof -
  have "pb_enc_svarint io f src m = pb_encode_svarint io (signed_val (load src (pf_data_size f) m))"
    using assms(1) by (intro ext) (auto simp: pb_enc_svarint_def Let_def load_signed_val)
  then show "emits (pb_enc_svarint io f src m) (leb (unat (zigzag (signed_val (load src (pf_data_size f) m)))))"
    by (simp only: emits_svarint)
  assume c: "length c = pf_data_size f"
  show "restores (pb_dec_svarint ip f) (leb (unat (zigzag (signed_val c)))) c"
    unfolding pb_dec_svarint_def [abs_def]
    by (intro restores_store [OF svarint_leb] store_checked_ok assms signed_val_facts [OF assms c] c)
qed

lemma fixed32_field:
  "emits (pb_enc_fixed32 io f src m) (fixed32_bytes (of_nat (le_val (load src 4 m))))"
  "length c = 4 \<Longrightarrow> restores (pb_dec_fixed32 ip f) (fixed32_bytes (of_nat (le_val c))) c"
proof -
  have "pb_enc_fixed32 io f src m = pb_encode_fixed32 io (of_nat (le_val (load src 4 m)))"
    by (intro ext) (simp add: pb_enc_fixed32_def load_int_def)
  then show "emits (pb_enc_fixed32 io f src m) (fixed32_bytes (of_nat (le_val (load src 4 m))))"
    by (simp only: emits_fixed32)
  assume c: "length c = 4"
  have "unat (of_nat (le_val c) :: u32) mod 256 ^ 4 = le_val c"
    using le_val_bound [of c] c by (simp add: unat_of_nat)
  then show "restores (pb_dec_fixed32 ip f) (fixed32_bytes (of_nat (le_val c))) c"
    unfolding pb_dec_fixed32_def [abs_def] by (intro restores_store [OF fixed32_takes]) (simp add: store_int_le_val c)
qed

lemma fixed64_field:
  "emits (pb_enc_fixed64 io f src m) (fixed64_bytes (of_nat (le_val (load src 8 m))))"
  "length c = 8 \<Longrightarrow> restores (pb_dec_fixed64 ip f) (fixed64_bytes (of_nat (le_val c))) c"
proof -
  have "pb_enc_fixed64 io f src m = pb_encode_fixed64 io (of_nat (le_val (load src 8 m)))"
    by (intro ext) (simp add: pb_enc_fixed64_def load_int_def)
  then show "emits (pb_enc_fixed64 io f src m) (fixed64_bytes (of_nat (le_val (load src 8 m))))"
    by (simp only: emits_fixed64)
  assume c: "length c = 8"
  have "unat (of_nat (le_val c) :: u64) mod 256 ^ 8 = le_val c"
    using le_val_bound [of c] c by (simp add: unat_of_nat)
  then show "restores (pb_dec_fixed64 ip f) (fixed64_bytes (of_nat (le_val c))) c"
    unfolding pb_dec_fixed64_def [abs_def] by (intro restores_store [OF fixed64_takes]) (simp add: store_int_le_val c)
qed

text \<open>A bool that holds 0 or 1; other contents of its byte are written as 1.\<close>

lemma bool_field:
  "emits (pb_enc_bool io f src m) (leb (if load src 1 m = [0] then 0 else 1))"
  "c = [0] \<or> c = [1] \<Longrightarrow> restores (pb_dec_bool ip f :: 's pb_istream \<Rightarrow> nat \<Rightarrow> 'h pb_mem \<Rightarrow> _) (leb (if c = [0] then 0 else 1)) c"
proof -
  let ?v = "(if load src 1 m = [0] then 0 else 1) :: u64"
  have l: "load src 1 m = [pm_byte m src]" by (simp add: load_Suc)
  have "pb_enc_bool io f src m = pb_encode_varint io ?v"
    by (intro ext) (auto simp: pb_enc_bool_def safe_read_bool_def l simp del: One_nat_def)
  moreover have "unat ?v = (if load src 1 m = [0] then 0 else 1)" by simp
  ultimately show "emits (pb_enc_bool io f src m) (leb (if load src 1 m = [0] then 0 else 1))"
    using emits_varint [of io ?v] by simp
  assume c: "c = [0] \<or> c = [1]"
  let ?n = "(if c = [0] then 0 else 1) :: nat"
  have "le_bytes 1 (if (of_nat ?n :: u32) \<noteq> 0 then 1 else 0) = c"
    using c by (auto simp: le_bytes_def)
  then have st: "store_int 1 (if (of_nat ?n :: u32) \<noteq> 0 then 1 else 0) dest m = store dest c m"
    for dest and m :: "'h pb_mem" by (simp only: store_int_def)
  have n: "?n < 2 ^ 32" by simp
  show "restores (pb_dec_bool ip f :: 's pb_istream \<Rightarrow> nat \<Rightarrow> 'h pb_mem \<Rightarrow> _) (leb ?n) c"
    unfolding pb_dec_bool_def [abs_def] by (rule restores_store [OF varint32_leb [OF n, of ip]]) (simp only: st)
qed

section \<open>Strings and bytes\<close>

lemma read_into_exact:
  assumes "is_ok s" and "is_rest s = bs @ rest" and "n = length bs"
  shows "read_into ip dest n s m = (True, is_advance n s, store dest bs m)"
  using pb_read_advance [OF assms] by (simp add: read_into_def)

text \<open>What a length prefix and its bytes leave to the decoders of strings and bytes.\<close>

lemma prefix_read:
  assumes "length bs < 2 ^ 32" and "is_ok s" and "is_rest s = (leb (length bs) @ bs) @ rest"
  obtains t where "pb_decode_varint32 ip s = (Some (of_nat (length bs)), t)"
    and "\<And>dest (m :: 'h pb_mem). read_into ip dest (length bs) t m =
           (True, is_advance (length (leb (length bs) @ bs)) s, store dest bs m)"
proof
  let ?t = "is_advance (length (leb (length bs))) s"
  show "pb_decode_varint32 ip s = (Some (of_nat (length bs)), ?t)"
    using takesD [OF varint32_leb [OF assms(1)] assms(2)] assms(3) by simp
  have "is_ok ?t" "is_rest ?t = bs @ rest"
    using is_advance_rest [OF assms(2), of "leb (length bs)" "bs @ rest"] assms(3) by simp_all
  from read_into_exact [OF this refl]
  show "read_into ip dest (length bs) ?t m = (True, is_advance (length (leb (length bs) @ bs)) s, store dest bs m)"
    for dest and m :: "'h pb_mem" by (simp add: is_advance_add)
qed

lemma fixed_length_bytes_field:
  assumes "pf_data_size f < 2 ^ 32"
  shows "emits (pb_enc_fixed_length_bytes io f src m) (leb (pf_data_size f) @ load src (pf_data_size f) m)"
    and "length c = pf_data_size f \<Longrightarrow> restores (pb_dec_fixed_length_bytes ip f :: 's pb_istream \<Rightarrow> nat \<Rightarrow> 'h pb_mem \<Rightarrow> _) (leb (length c) @ c) c"
proof -
  let ?c = "load src (pf_data_size f) m"
  have "pb_enc_fixed_length_bytes io f src m = pb_encode_string io ?c"
    by (intro ext) (simp add: pb_enc_fixed_length_bytes_def)
  then show "emits (pb_enc_fixed_length_bytes io f src m) (leb (pf_data_size f) @ ?c)"
    using emits_string [of ?c io] assms by simp
  assume c: "length c = pf_data_size f"
  have len: "length c < 2 ^ 32" using assms c by simp
  show "restores (pb_dec_fixed_length_bytes ip f :: 's pb_istream \<Rightarrow> nat \<Rightarrow> 'h pb_mem \<Rightarrow> _) (leb (length c) @ c) c"
    unfolding restores_def
  proof (intro allI impI)
    fix s :: "'s pb_istream" and rest dest and m :: "'h pb_mem"
    assume a: "is_ok s \<and> is_rest s = (leb (length c) @ c) @ rest"
    obtain t where t: "pb_decode_varint32 ip s = (Some (of_nat (length c)), t)"
        "\<And>dest m. read_into ip dest (length c) t (m :: 'h pb_mem) =
           (True, is_advance (length (leb (length c) @ c)) s, store dest c m)"
      using prefix_read [OF len] a by metis
    have u: "unat (of_nat (length c) :: u32) = length c" using len by (simp add: unat_of_nat)
    show "pb_dec_fixed_length_bytes ip f s dest m = (True, is_advance (length (leb (length c) @ c)) s, store dest c m)"
    proof (cases "c = []")
      case True
      then have "read_into ip dest 0 t m = (True, t, m)" by (simp add: read_into_def pb_read_def)
      then have "t = is_advance (length (leb (length c) @ c)) s" using t(2) [of dest m] True by simp
      then show ?thesis using t(1) True c by (simp add: pb_dec_fixed_length_bytes_def PB_SIZE_MAX_def)
    next
      case False
      then have nz: "(of_nat (length c) :: u32) \<noteq> 0" using u by (metis length_0_conv unat_0)
      then show ?thesis using t u c len by (simp add: pb_dec_fixed_length_bytes_def PB_SIZE_MAX_def)
    qed
  qed
qed

lemma string_scan_stop:
  assumes "load src (length str + 1) m = str @ [0]" and "0 \<notin> set str" and "n + length str < max_size"
  shows "string_scan max_size n src m = n + length str"
  using assms
proof (induction str arbitrary: n src)
  case Nil
  then show ?case by (simp add: string_scan.simps load_Suc)
next
  case (Cons c str)
  then have "pm_byte m src = c" "load (Suc src) (length str + 1) m = str @ [0]" by (simp_all add: load_Suc)
  then show ?case
    using Cons.IH [of "Suc src" "Suc n"] Cons.prems by (simp add: string_scan.simps [of max_size n src m])
qed

text \<open>A string with its terminator in a static field; what lies behind the terminator is not touched.\<close>

lemma string_field:
  assumes static: "PB_ATYPE (pf_type f) = PB_ATYPE_STATIC" and str: "0 \<notin> set str"
    and fits: "length str < pf_data_size f" and small: "pf_data_size f < 2 ^ 32"
  shows "src \<noteq> 0 \<Longrightarrow> load src (length str + 1) m = str @ [0] \<Longrightarrow> emits (pb_enc_string io f src m) (leb (length str) @ str)"
    and "restores (pb_dec_string ip ra f :: 's pb_istream \<Rightarrow> nat \<Rightarrow> 'h pb_mem \<Rightarrow> _) (leb (length str) @ str) (str @ [0])"
proof -
  have nptr: "PB_ATYPE (pf_type f) \<noteq> PB_ATYPE_POINTER" using static by (simp add: pb_types)
  have len: "length str < 2 ^ 32" "length str + 1 < 2 ^ 32" using fits small by simp_all
  show "emits (pb_enc_string io f src m) (leb (length str) @ str)"
    if "src \<noteq> 0" "load src (length str + 1) m = str @ [0]"
  proof -
    have "load src (length str) m = str" using that(2) by (simp add: load_add del: One_nat_def)
    moreover have "string_scan (pf_data_size f) 0 src m = length str"
      using string_scan_stop [OF that(2) str, of 0] fits by simp
    ultimately have "pb_enc_string io f src m = pb_encode_string io str"
      using nptr that(1) by (intro ext) (simp add: pb_enc_string_def Let_def)
    then show ?thesis using emits_string [of str io] len by simp
  qed
  show "restores (pb_dec_string ip ra f :: 's pb_istream \<Rightarrow> nat \<Rightarrow> 'h pb_mem \<Rightarrow> _) (leb (length str) @ str) (str @ [0])"
    unfolding restores_def
  proof (intro allI impI)
    fix s :: "'s pb_istream" and rest dest and m :: "'h pb_mem"
    assume a: "is_ok s \<and> is_rest s = (leb (length str) @ str) @ rest"
    obtain t where t: "pb_decode_varint32 ip s = (Some (of_nat (length str)), t)"
        "\<And>dest m. read_into ip dest (length str) t (m :: 'h pb_mem) =
           (True, is_advance (length (leb (length str) @ str)) s, store dest str m)"
      using prefix_read [OF len(1)] a by metis
    have u: "unat (of_nat k :: u32) = k" if "k < 2 ^ 32" for k using that by (simp add: unat_of_nat)
    have u: "unat (of_nat (length str) :: u32) = length str" "unat (of_nat (length str) + 1 :: u32) = length str + 1"
      using u [OF len(1)] u [OF len(2)] by (simp_all add: add.commute)
    show "pb_dec_string ip ra f s dest m =
        (True, is_advance (length (leb (length str) @ str)) s, store dest (str @ [0]) m)"
      using t u nptr fits by (simp add: pb_dec_string_def Let_def store_append)
  qed
qed

lemma allocsize_small: "n < 2 ^ 32 \<Longrightarrow> PB_BYTES_ARRAY_T_ALLOCSIZE n = n + 4"
  by (simp add: PB_BYTES_ARRAY_T_ALLOCSIZE_def)

lemma bytes_field:
  assumes static: "PB_ATYPE (pf_type f) = PB_ATYPE_STATIC" and fits: "4 + length bs \<le> pf_data_size f"
    and small: "pf_data_size f < 2 ^ 32"
  shows "src \<noteq> 0 \<Longrightarrow> load src (4 + length bs) m = le_bytes 4 (length bs) @ bs \<Longrightarrow>
      emits (pb_enc_bytes io f src m) (leb (length bs) @ bs)"
    and "restores (pb_dec_bytes ip ra f :: 's pb_istream \<Rightarrow> nat \<Rightarrow> 'h pb_mem \<Rightarrow> _) (leb (length bs) @ bs) (le_bytes 4 (length bs) @ bs)"
proof -
  have nptr: "PB_ATYPE (pf_type f) \<noteq> PB_ATYPE_POINTER" using static by (simp add: pb_types)
  have len: "length bs < 2 ^ 32" using fits small by simp
  note asz = allocsize_small [OF len]
  show "emits (pb_enc_bytes io f src m) (leb (length bs) @ bs)"
    if "src \<noteq> 0" "load src (4 + length bs) m = le_bytes 4 (length bs) @ bs"
  proof -
    have "load src 4 m = le_bytes 4 (length bs)" and b: "load (src + 4) (length bs) m = bs"
      using that(2) by (simp_all add: load_add)
    then have "load_int 4 src m = length bs" using len by (simp add: load_int_def le_val_le_bytes)
    then have "pb_enc_bytes io f src m = pb_encode_string io bs"
      using static fits that(1) asz b by (intro ext) (simp add: pb_enc_bytes_def Let_def)
    then show ?thesis using emits_string [of bs io] len by simp
  qed
  show "restores (pb_dec_bytes ip ra f :: 's pb_istream \<Rightarrow> nat \<Rightarrow> 'h pb_mem \<Rightarrow> _) (leb (length bs) @ bs) (le_bytes 4 (length bs) @ bs)"
    unfolding restores_def
  proof (intro allI impI)
    fix s :: "'s pb_istream" and rest dest and m :: "'h pb_mem"
    assume a: "is_ok s \<and> is_rest s = (leb (length bs) @ bs) @ rest"
    obtain t where t: "pb_decode_varint32 ip s = (Some (of_nat (length bs)), t)"
        "\<And>dest m. read_into ip dest (length bs) t (m :: 'h pb_mem) =
           (True, is_advance (length (leb (length bs) @ bs)) s, store dest bs m)"
      using prefix_read [OF len] a by metis
    have u: "unat (of_nat (length bs) :: u32) = length bs" using len by (simp add: unat_of_nat)
    show "pb_dec_bytes ip ra f s dest m =
        (True, is_advance (length (leb (length bs) @ bs)) s, store dest (le_bytes 4 (length bs) @ bs) m)"
      using t u nptr fits asz len by (simp add: pb_dec_bytes_def Let_def PB_SIZE_MAX_def store_int_def store_append)
  qed
qed

section \<open>No decoder leaves its field or its stream\<close>

text \<open>\<open>t\<close> is well formed and came out of \<open>s\<close> by reads that its length accounts for.\<close>

abbreviation within :: "'s pb_istream \<Rightarrow> 's pb_istream \<Rightarrow> bool" where
  "within s t \<equiv> is_ok t \<and> is_bytes_left t \<le> is_bytes_left s \<and>
     is_bytes_left t + length (is_source s) \<le> is_bytes_left s + length (is_source t)"

definition stays :: "('s pb_istream \<Rightarrow> 'a \<times> 's pb_istream) \<Rightarrow> bool" where
  "stays f \<longleftrightarrow> (\<forall>s. is_ok s \<longrightarrow> within s (snd (f s)))"

lemma staysD: "stays f \<Longrightarrow> f s = (r, t) \<Longrightarrow> is_ok s \<Longrightarrow> within s t"
  unfolding stays_def by (metis snd_conv)

lemma within_advance: "is_ok s \<Longrightarrow> n \<le> is_bytes_left s \<Longrightarrow> within s (is_advance n s)"
  using is_advance_ok [of s n] by (auto simp: is_advance_def is_ok_def)

lemma stays_readbyte: "stays (pb_readbyte io)"
  unfolding stays_def
proof (intro allI impI)
  fix s :: "'a pb_istream" assume ok: "is_ok s"
  show "within s (snd (pb_readbyte io s))"
  proof (cases "is_rest s")
    case Nil
    then show ?thesis using ok by (simp add: pb_readbyte_buffer)
  next
    case (Cons b bs)
    then have "1 \<le> is_bytes_left s" using length_is_rest [OF ok] by simp
    from within_advance [OF ok this] show ?thesis using readbyte_Cons [OF ok Cons] by simp
  qed
qed

lemma stays_read: "stays (pb_read io b n)"
  unfolding stays_def
  using within_advance by (auto simp: pb_read_buffer split: if_splits)

lemma stays_varint32_loop: "stays (varint32_loop io bitpos result)"
proof -
  have "is_ok s \<Longrightarrow> varint32_loop io bitpos result s = (r, t) \<Longrightarrow> within s t" for s r t
  proof (induction io bitpos result s rule: varint32_loop.induct)
    case (1 io bitpos result s)
    show ?case
    proof (cases "pb_readbyte io s")
      case (Pair b u)
      note u = staysD [OF stays_readbyte Pair "1.prems"(1)]
      show ?thesis
      proof (cases b)
        case None
        then show ?thesis using Pair u "1.prems"(2) by (simp add: varint32_loop.simps [of io bitpos result s])
      next
        case (Some c)
        note step = "1.IH" [OF Pair [symmetric] Some _ refl refl]
        show ?thesis
          using "1.prems"(2) u step Pair Some
          by (simp add: varint32_loop.simps [of io bitpos result s] Let_def split: if_splits) (fastforce+)?
      qed
    qed
  qed
  then show ?thesis unfolding stays_def by (metis prod.collapse)
qed

lemma stays_varint_loop: "stays (varint_loop io bitpos result)"
proof -
  have "is_ok s \<Longrightarrow> varint_loop io bitpos result s = (r, t) \<Longrightarrow> within s t" for s r t
  proof (induction io bitpos result s rule: varint_loop.induct)
    case (1 io bitpos result s)
    show ?case
    proof (cases "pb_readbyte io s")
      case (Pair b u)
      note u = staysD [OF stays_readbyte Pair "1.prems"(1)]
      show ?thesis
      proof (cases b)
        case None
        then show ?thesis using Pair u "1.prems" by (auto simp: varint_loop.simps [of io bitpos result s] split: if_splits)
      next
        case (Some c)
        note step = "1.IH" [OF _ Pair [symmetric] Some refl refl]
        show ?thesis
          using "1.prems" u step Pair Some
          by (simp add: varint_loop.simps [of io bitpos result s] Let_def split: if_splits) (fastforce+)?
      qed
    qed
  qed
  then show ?thesis unfolding stays_def by (metis prod.collapse)
qed

lemma stays_varint32_eof: "stays (\<lambda>s. case pb_decode_varint32_eof io s of (v, eof, s) \<Rightarrow> ((v, eof), s))"
  unfolding stays_def
proof (intro allI impI)
  fix s :: "'a pb_istream" assume ok: "is_ok s"
  show "within s (snd (case pb_decode_varint32_eof io s of (v, eof, s) \<Rightarrow> ((v, eof), s)))"
  proof (cases "pb_readbyte io s")
    case (Pair b u)
    note u = staysD [OF stays_readbyte Pair ok]
    show ?thesis
    proof (cases b)
      case None
      then show ?thesis using Pair u by (simp add: pb_decode_varint32_eof_def)
    next
      case (Some c)
      obtain r t where rt: "varint32_loop io 7 (ucast (c AND 0x7F)) u = (r, t)" by force
      note t = staysD [OF stays_varint32_loop rt]
      show ?thesis
        using Pair Some u t rt
        by (cases r) (auto simp: pb_decode_varint32_eof_def)
    qed
  qed
qed

lemma stays_varint32: "stays (pb_decode_varint32 io)"
  using stays_varint32_eof [of io] unfolding stays_def pb_decode_varint32_def
  by (auto split: prod.splits)

lemma stays_varint: "stays (pb_decode_varint io)"
  using stays_varint_loop by (simp add: stays_def pb_decode_varint_def)

lemma stays_svarint: "stays (pb_decode_svarint io)"
  using stays_varint [of io] unfolding stays_def pb_decode_svarint_def
  by (auto split: prod.splits option.splits)

lemma stays_fixed32: "stays (pb_decode_fixed32 io)"
  using stays_read [of io True 4] unfolding stays_def pb_decode_fixed32_def
  by (auto split: prod.splits option.splits)

lemma stays_fixed64: "stays (pb_decode_fixed64 io)"
  using stays_read [of io True 8] unfolding stays_def pb_decode_fixed64_def
  by (auto split: prod.splits option.splits)

text \<open>\<open>keeps f dec\<close>: on a static field of its size, the decoder changes the bytes of the field only and
  leaves a well-formed stream.\<close>

definition kept :: "nat \<Rightarrow> nat \<Rightarrow> 's pb_istream \<Rightarrow> 'h pb_mem \<Rightarrow> bool \<times> 's pb_istream \<times> 'h pb_mem \<Rightarrow> bool" where
  "kept dest n s m r \<longleftrightarrow>
     (case r of (ok, s', m') \<Rightarrow> changes (region dest n) m m' \<and> within s s')"

definition keeps :: "nat \<Rightarrow> ('s pb_istream \<Rightarrow> nat \<Rightarrow> 'h pb_mem \<Rightarrow> bool \<times> 's pb_istream \<times> 'h pb_mem) \<Rightarrow> bool" where
  "keeps n dec \<longleftrightarrow> (\<forall>s dest m. is_ok s \<longrightarrow> kept dest n s m (dec s dest m))"

lemma keepsD:
  assumes "keeps n dec" and "is_ok s" and "dec s dest m = (ok, s', m')"
  shows "changes (region dest n) m m' \<and> within s s'"
proof -
  have "kept dest n s m (dec s dest m)" using assms(1,2) by (simp add: keeps_def)
  then show ?thesis using assms(3) by (simp add: kept_def)
qed

lemma keeps_bind:
  assumes "stays rd" and "\<And>v s dest m. is_ok s \<Longrightarrow> kept dest n s m (st v s dest m)"
  shows "keeps n (\<lambda>s dest m. case rd s of (None, s) \<Rightarrow> (False, s, m) | (Some v, s) \<Rightarrow> st v s dest m)"
  unfolding keeps_def
proof (intro allI impI)
  fix s :: "'a pb_istream" and dest and m :: "'c pb_mem" assume ok: "is_ok s"
  obtain r t where rt: "rd s = (r, t)" by force
  then have t: "within s t" using staysD [OF assms(1) rt] ok by auto
  show "kept dest n s m (case rd s of (None, s) \<Rightarrow> (False, s, m) | (Some v, s) \<Rightarrow> st v s dest m)"
    using rt t assms(2) [of t dest m] by (cases r) (fastforce simp: kept_def split: prod.splits)+
qed

lemma keeps_store_checked:
  "is_ok s \<Longrightarrow> kept dest (pf_data_size f) s m (store_checked clamp f v s dest m)"
  by (auto simp: store_checked_def Let_def kept_def intro: changes_store_int)

lemma kept_read_into:
  assumes "is_ok s" and "dest \<le> a" and "a + k \<le> dest + n"
  shows "kept dest n s m (read_into io a k s m)"
proof (cases "k \<le> is_bytes_left s")
  case True
  have "length (take k (is_rest s)) = k" using True length_is_rest [OF assms(1)] by simp
  then show ?thesis
    using assms is_advance_ok [OF assms(1) True] True
    by (auto simp: kept_def read_into_def pb_read_buffer is_advance_def intro!: changes_store)
next
  case False
  then show ?thesis using assms by (auto simp: kept_def read_into_def pb_read_buffer)
qed

lemma kept_trans:
  "changes (region dest n) m m' \<Longrightarrow> kept dest n s m' r \<Longrightarrow> kept dest n s m r"
  unfolding kept_def by (auto intro: changes_trans split: prod.splits)

lemma keeps_bool: "1 \<le> n \<Longrightarrow> keeps n (pb_dec_bool io f)"
  unfolding pb_dec_bool_def [abs_def]
  by (rule keeps_bind [OF stays_varint32]) (auto simp: kept_def intro!: changes_store_int)

lemma keeps_ints: "keeps (pf_data_size f) (pb_dec_varint io f)" "keeps (pf_data_size f) (pb_dec_uvarint io f)"
  "keeps (pf_data_size f) (pb_dec_svarint io f)"
  unfolding pb_dec_varint_def [abs_def] pb_dec_uvarint_def [abs_def] pb_dec_svarint_def [abs_def]
  by (rule keeps_bind [OF stays_varint] keeps_bind [OF stays_svarint]; rule keeps_store_checked; assumption)+

lemma keeps_fixed:
  "4 \<le> n \<Longrightarrow> keeps n (pb_dec_fixed32 io f)"
  "8 \<le> n \<Longrightarrow> keeps n (pb_dec_fixed64 io f)"
  unfolding pb_dec_fixed32_def [abs_def] pb_dec_fixed64_def [abs_def]
  by (rule keeps_bind [OF stays_fixed32] keeps_bind [OF stays_fixed64]; auto simp: kept_def intro!: changes_store_int)+

lemma keeps_fixed_length_bytes: "keeps (pf_data_size f) (pb_dec_fixed_length_bytes io f)"
  unfolding pb_dec_fixed_length_bytes_def [abs_def]
  by (rule keeps_bind [OF stays_varint32])
    (auto simp: kept_def [of _ _ _ _ "(_, _)"] intro: changes_store kept_read_into)

lemma string_alloc:
  assumes "\<not> unat (len + 1 :: u32) < unat len"
  shows "unat (len + 1) = unat len + 1"
proof -
  have "unat len < 2 ^ 32" by (rule order.strict_trans2 [OF unsigned_less]) simp
  then consider "unat len + 1 < 2 ^ 32" | "unat len + 1 = 2 ^ 32" by linarith
  then show ?thesis
    using assms unat_word_ariths(1) [of len 1] by cases simp_all
qed

lemma keeps_string:
  assumes "PB_ATYPE (pf_type f) \<noteq> PB_ATYPE_POINTER"
  shows "keeps (pf_data_size f) (pb_dec_string io ra f)"
  unfolding pb_dec_string_def [abs_def]
proof (rule keeps_bind [OF stays_varint32])
  fix len :: u32 and s :: "'a pb_istream" and dest and m :: "'b pb_mem"
  assume ok: "is_ok s"
  have "kept dest (pf_data_size f) s m (case read_into io dest (unat len) s m of
      (status, s, m) \<Rightarrow> (status, s, store (dest + unat len) [0] m))" if "unat len + 1 \<le> pf_data_size f"
    using kept_read_into [where dest = dest and a = dest and k = "unat len" and n = "pf_data_size f" and m = m and io = io, OF ok]
      that
    by (auto simp: kept_def split: prod.splits elim!: changes_trans intro!: changes_store)
  then show "kept dest (pf_data_size f) s m (let size = unat len; alloc_size = unat (len + 1) in
          if alloc_size < size then (False, is_error ''size too large'' s, m)
          else case (if PB_ATYPE (pf_type f) = PB_ATYPE_POINTER
                     then (case allocate_field ra dest alloc_size 1 s m of (ok, s, m) \<Rightarrow> (ok, load_ptr dest m, s, m))
                     else if alloc_size > pf_data_size f then (False, dest, is_error ''string overflow'' s, m)
                     else (True, dest, s, m)) of
                 (True, dest, s, m) \<Rightarrow>
                   (case read_into io dest size s m of (status, s, m) \<Rightarrow> (status, s, store (dest + size) [0] m))
               | (False, _, s, m) \<Rightarrow> (False, s, m))"
    using assms ok string_alloc [of len]
    by (cases "unat (len + 1) < unat len") (auto simp: Let_def kept_def)
qed

lemma keeps_bytes:
  assumes "PB_ATYPE (pf_type f) \<noteq> PB_ATYPE_POINTER"
  shows "keeps (pf_data_size f) (pb_dec_bytes io ra f)"
  unfolding pb_dec_bytes_def [abs_def]
proof (rule keeps_bind [OF stays_varint32])
  fix len :: u32 and s :: "'a pb_istream" and dest and m :: "'b pb_mem"
  assume ok: "is_ok s"
  have "unat len < 2 ^ 32" by (rule order.strict_trans2 [OF unsigned_less]) simp
  note asz = allocsize_small [OF this]
  have "kept dest (pf_data_size f) s m (read_into io (dest + 4) (unat len) s (store_int 4 (unat len) dest m))"
    if "unat len + 4 \<le> pf_data_size f"
    by (rule kept_trans [OF changes_store_int kept_read_into [OF ok]]) (use that in auto)
  then show "kept dest (pf_data_size f) s m (let size = unat len; alloc_size = PB_BYTES_ARRAY_T_ALLOCSIZE size in
          if size > PB_SIZE_MAX then (False, is_error ''bytes overflow'' s, m)
          else if size > alloc_size then (False, is_error ''size too large'' s, m)
          else case (if PB_ATYPE (pf_type f) = PB_ATYPE_POINTER
                     then (case allocate_field ra dest alloc_size 1 s m of (ok, s, m) \<Rightarrow> (ok, load_ptr dest m, s, m))
                     else if alloc_size > pf_data_size f then (False, dest, is_error ''bytes overflow'' s, m)
                     else (True, dest, s, m)) of
                 (True, bdest, s, m) \<Rightarrow> read_into io (bdest + 4) size s (store_int 4 size bdest m)
               | (False, _, s, m) \<Rightarrow> (False, s, m))"
    using assms ok asz by (auto simp: Let_def kept_def [of _ _ _ _ "(_, _)"])
qed

end
