(* ===== verification/PbLayout.thy ===== *)
theory PbLayout
  imports PbDecodeMsg PbEncodeMsg PbFieldSpec
begin

text \<open>
  The structures that the iterator of \<open>pb_common.c\<close> walks over: the iterator at the \<open>i\<close>-th field, where
  the field and its count lie, and the tables that describe a structure of static fields, nested to a
  bounded depth, with disjoint places for its fields (\<open>plain_table\<close>). The tables that the generator emits
  for messages of static fields are of this form.
\<close>

section \<open>The iterator at a field\<close>

definition tags_ok :: "pb_field_t list \<Rightarrow> bool" where
  "tags_ok fs \<longleftrightarrow> list_all (\<lambda>f. pf_tag f \<noteq> 0) fs \<and> distinct (map pf_tag fs)"

fun iter_at :: "nat \<Rightarrow> pb_field_t list \<Rightarrow> nat \<Rightarrow> nat \<Rightarrow> pb_field_iter_t" where
  "iter_at c fs dest 0 = snd (pb_field_iter_begin c fs dest)"
| "iter_at c fs dest (Suc i) = snd (pb_field_iter_next (iter_at c fs dest i))"

declare iter_at.simps [simp del]

declare iter_search.simps [simp del]

lemma tag_nonzero: "tags_ok fs \<Longrightarrow> i < length fs \<Longrightarrow> pf_tag (fs ! i) \<noteq> 0"
  by (simp add: tags_ok_def list_all_length)

lemma field_at_nth [simp]: "i < length fs \<Longrightarrow> field_at fs i = fs ! i"
  by (simp add: field_at_def)

lemma field_at_end [simp]: "pf_tag (field_at fs (length fs)) = 0"
  by (simp add: field_at_def PB_LAST_FIELD_def)

lemma iter_begin_tag: "tags_ok fs \<Longrightarrow> pb_field_iter_begin c fs dest = (fs \<noteq> [], iter_at c fs dest 0)"
  using tag_nonzero [of fs 0] by (cases fs) (auto simp: iter_at.simps pb_field_iter_begin_def Let_def field_at_def PB_LAST_FIELD_def)

lemma iter_at_state:
  assumes "tags_ok fs" and "i < length fs"
  shows "it_start (iter_at c fs dest i) = fs \<and> it_pos (iter_at c fs dest i) = i \<and>
    it_dest_struct (iter_at c fs dest i) = dest \<and> it_fixed_count (iter_at c fs dest i) = c"
  using assms(2)
proof (induction i)
  case 0
  then show ?case by (simp add: iter_at.simps pb_field_iter_begin_def Let_def)
next
  case (Suc i)
  then have "pf_tag (fs ! i) \<noteq> 0" "pf_tag (fs ! Suc i) \<noteq> 0" using tag_nonzero [OF assms(1)] by simp_all
  then show ?case using Suc by (simp add: iter_at.simps pb_field_iter_next_def Let_def it_field_def)
qed

lemma iter_at_field [simp]: "tags_ok fs \<Longrightarrow> i < length fs \<Longrightarrow> it_field (iter_at c fs dest i) = fs ! i"
  using iter_at_state [of fs i c dest] by (simp add: it_field_def)

lemma iter_next_at:
  assumes "tags_ok fs" and "i < length fs"
  shows "pb_field_iter_next (iter_at c fs dest i) =
    (if Suc i < length fs then (True, iter_at c fs dest (Suc i)) else (False, iter_at c fs dest 0))"
proof -
  note st = iter_at_state [OF assms, of c dest]
  note tag = tag_nonzero [OF assms]
  show ?thesis
  proof (cases "Suc i < length fs")
    case True
    then have "pf_tag (fs ! Suc i) \<noteq> 0" using tag_nonzero [OF assms(1)] by simp
    then show ?thesis using True st tag assms by (simp add: iter_at.simps it_field_def pb_field_iter_next_def Let_def)
  next
    case False
    then have "field_at fs (Suc i) = PB_LAST_FIELD" by (simp add: field_at_def)
    then show ?thesis using False st tag assms by (simp add: iter_at.simps it_field_def pb_field_iter_next_def Let_def PB_LAST_FIELD_def)
  qed
qed

text \<open>The search from any field finds the field that satisfies the predicate, and comes back to where it
  started if there is none.\<close>

definition visit_order :: "nat \<Rightarrow> nat \<Rightarrow> nat \<Rightarrow> nat list" where
  "visit_order start i len = (if start \<le> i then [i..<len] @ [0..<start] else [i..<start])"

lemma visit_order_step:
  assumes "i < len" and "start < len"
  shows "visit_order start i len =
    i # (let j = (if Suc i < len then Suc i else 0) in if j = start then [] else visit_order start j len)"
proof (cases "start \<le> i")
  case True
  then show ?thesis using assms by (cases "Suc i < len") (auto simp: visit_order_def Let_def upt_conv_Cons)
next
  case False
  then show ?thesis using assms by (auto simp: visit_order_def Let_def upt_conv_Cons)
qed

lemma iter_search_at:
  assumes t: "tags_ok fs" and s: "start < length fs"
  shows "i < length fs \<Longrightarrow> length (visit_order start i (length fs)) \<le> steps \<Longrightarrow>
    iter_search p steps start (iter_at c fs dest i) =
      (case filter (\<lambda>j. p (fs ! j)) (visit_order start i (length fs)) of
         [] \<Rightarrow> (False, iter_at c fs dest start) | j # _ \<Rightarrow> (True, iter_at c fs dest j))"
proof (induction steps arbitrary: i)
  case 0
  then show ?case using visit_order_step [OF "0.prems"(1) s] by simp
next
  case (Suc steps)
  let ?j = "if Suc i < length fs then Suc i else 0"
  note step = visit_order_step [OF Suc.prems(1) s]
  have nxt: "snd (pb_field_iter_next (iter_at c fs dest i)) = iter_at c fs dest ?j"
    using iter_next_at [OF t Suc.prems(1)] by simp
  have j: "?j < length fs" using s by auto
  show ?case
  proof (cases "p (fs ! i)")
    case True
    then show ?thesis using t Suc.prems(1) step by (simp add: iter_search.simps)
  next
    case False
    show ?thesis
    proof (cases "?j = start")
      case True
      then show ?thesis
        using False t Suc.prems(1) step nxt iter_at_state [OF t j] by (simp add: Let_def iter_search.simps)
    next
      case nstart: False
      then have "length (visit_order start ?j (length fs)) \<le> steps" using Suc.prems(2) step by (simp add: Let_def)
      from Suc.IH [OF j this] show ?thesis
        using False nstart t Suc.prems(1) step nxt iter_at_state [OF t j, of c dest] by (simp add: Let_def iter_search.simps)
    qed
  qed
qed

lemma length_visit_order: "start < len \<Longrightarrow> length (visit_order start start len) = len"
  and set_visit_order: "start < len \<Longrightarrow> set (visit_order start start len) = {0..<len}"
  by (auto simp: visit_order_def)

lemma iter_find_at:
  assumes t: "tags_ok fs" and i: "i < length fs"
  shows "j < length fs \<Longrightarrow> PB_LTYPE (pf_type (fs ! j)) \<noteq> PB_LTYPE_EXTENSION \<Longrightarrow>
      pb_field_iter_find (iter_at c fs dest i) (pf_tag (fs ! j)) = (True, iter_at c fs dest j)"
    and "tag \<notin> pf_tag ` set fs \<Longrightarrow> pb_field_iter_find (iter_at c fs dest i) tag = (False, iter_at c fs dest i)"
proof -
  note st = iter_at_state [OF t i, of c dest]
  have len: "length (visit_order i i (length fs)) \<le> length fs + 1" using length_visit_order [OF i] by simp
  note find = iter_search_at [OF t i i len, of _ c dest]
  show "pb_field_iter_find (iter_at c fs dest i) tag = (False, iter_at c fs dest i)" if "tag \<notin> pf_tag ` set fs" for tag
  proof -
    have "filter (\<lambda>j. pf_tag (fs ! j) = tag \<and> PB_LTYPE (pf_type (fs ! j)) \<noteq> PB_LTYPE_EXTENSION) (visit_order i i (length fs)) = []"
      using that set_visit_order [OF i] by (force simp: filter_empty_conv)
    then show ?thesis using find st by (simp add: pb_field_iter_find_def)
  qed
  show "pb_field_iter_find (iter_at c fs dest i) (pf_tag (fs ! j)) = (True, iter_at c fs dest j)"
    if j: "j < length fs" "PB_LTYPE (pf_type (fs ! j)) \<noteq> PB_LTYPE_EXTENSION"
  proof -
    let ?p = "\<lambda>f. pf_tag f = pf_tag (fs ! j) \<and> PB_LTYPE (pf_type f) \<noteq> PB_LTYPE_EXTENSION"
    let ?js = "filter (\<lambda>k. ?p (fs ! k)) (visit_order i i (length fs))"
    have "k = j" if "k < length fs" "pf_tag (fs ! k) = pf_tag (fs ! j)" for k
      using that j(1) t by (metis tags_ok_def distinct_conv_nth length_map nth_map)
    then have "set ?js = {j}" using set_visit_order [OF i] j by auto
    then obtain ks where "?js = j # ks" by (cases ?js) auto
    then show ?thesis using find [of ?p] st by (simp add: pb_field_iter_find_def)
  qed
qed

lemma find_extension_at:
  assumes t: "tags_ok fs" and i: "i < length fs" and "\<forall>f \<in> set fs. PB_LTYPE (pf_type f) \<noteq> PB_LTYPE_EXTENSION"
  shows "find_extension_field (iter_at c fs dest i) = (False, iter_at c fs dest i)"
proof -
  note st = iter_at_state [OF t i, of c dest]
  have len: "length (visit_order i i (length fs)) \<le> length fs + 1" using length_visit_order [OF i] by simp
  have "filter (\<lambda>j. PB_LTYPE (pf_type (fs ! j)) = PB_LTYPE_EXTENSION) (visit_order i i (length fs)) = []"
    using assms(3) set_visit_order [OF i] by (force simp: filter_empty_conv)
  then show ?thesis using iter_search_at [OF t i i len, of _ c dest] st by (simp add: find_extension_field_def)
qed

text \<open>The loop over the fields, as a recursion over their indices.\<close>

fun seq_steps :: "('i \<Rightarrow> 'a \<Rightarrow> (bool \<times> 'a) option) \<Rightarrow> 'i list \<Rightarrow> 'a \<Rightarrow> (bool \<times> 'a) option" where
  "seq_steps body [] a = Some (True, a)"
| "seq_steps body (x # xs) a =
     (case body x a of None \<Rightarrow> None | Some (False, a) \<Rightarrow> Some (False, a) | Some (True, a) \<Rightarrow> seq_steps body xs a)"

lemma do_fields_at:
  assumes t: "tags_ok fs"
  shows "i < length fs \<Longrightarrow> do_fields body (iter_at c fs dest i) a = seq_steps (\<lambda>j. body (iter_at c fs dest j)) [i..<length fs] a"
proof (induction "length fs - i" arbitrary: i a)
  case 0
  then show ?case by simp
next
  case (Suc k)
  have up: "[i..<length fs] = i # [Suc i..<length fs]" using Suc.prems by (simp add: upt_conv_Cons)
  show ?case
  proof (cases "Suc i < length fs")
    case True
    then have "do_fields body (iter_at c fs dest (Suc i)) a = seq_steps (\<lambda>j. body (iter_at c fs dest j)) [Suc i..<length fs] a" for a
      using Suc.hyps by simp
    then show ?thesis
      using True up iter_next_at [OF t Suc.prems, of c dest]
      by (simp add: do_fields.simps [of body "iter_at c fs dest i"] split: option.splits prod.splits bool.splits)
  next
    case False
    then show ?thesis
      using up iter_next_at [OF t Suc.prems, of c dest]
      by (simp add: do_fields.simps [of body "iter_at c fs dest i"] split: option.splits prod.splits bool.splits)
  qed
qed

section \<open>Places in the structure\<close>

text \<open>Where the \<open>i\<close>-th field and its count or has-flag lie, relative to the structure.\<close>

definition fld_off :: "pb_field_t list \<Rightarrow> nat \<Rightarrow> nat" where
  "fld_off fs i = it_pData (iter_at 0 fs 0 i)"

definition fld_cell :: "pb_field_t list \<Rightarrow> nat \<Rightarrow> nat" where
  "fld_cell fs i = (case it_pSize (iter_at 0 fs 0 i) of SizeAt b \<Rightarrow> b | FixedCount \<Rightarrow> 0)"

definition offsets_ok :: "pb_field_t list \<Rightarrow> bool" where
  "offsets_ok fs \<longleftrightarrow> list_all (\<lambda>i. int (fld_off fs i) + pf_size_offset (fs ! i) = int (fld_cell fs i)) [0..<length fs]"

lemma ptr_add_shift: "int p + off = int q \<Longrightarrow> ptr_add (d + p) off = d + q"
  by (simp add: ptr_add_def add.assoc)

lemma iter_at_places:
  assumes t: "tags_ok fs" and o: "offsets_ok fs"
  shows "i < length fs \<Longrightarrow> it_pData (iter_at c fs dest i) = dest + fld_off fs i \<and>
    it_pSize (iter_at c fs dest i) = SizeAt (dest + fld_cell fs i)"
proof (induction i)
  case 0
  have off: "fld_off fs 0 = pf_data_offset (field_at fs 0)"
    and cell: "fld_cell fs 0 = ptr_add (pf_data_offset (field_at fs 0)) (pf_size_offset (field_at fs 0))"
    by (simp_all add: iter_at.simps pb_field_iter_begin_def Let_def fld_off_def fld_cell_def)
  have "int (pf_data_offset (field_at fs 0)) + pf_size_offset (field_at fs 0) = int (fld_cell fs 0)"
    using o 0 unfolding off [symmetric] offsets_ok_def list_all_length by (metis add.left_neutral field_at_nth length_upt minus_nat.diff_0 nth_upt)
  then have "ptr_add (dest + fld_off fs 0) (pf_size_offset (field_at fs 0)) = dest + fld_cell fs 0"
    by (simp add: ptr_add_shift off)
  then show ?case using off by (simp add: iter_at.simps pb_field_iter_begin_def Let_def)
next
  case (Suc i)
  let ?f = "fs ! i" and ?g = "fs ! Suc i"
  have i: "i < length fs" using Suc.prems by simp
  note IH = Suc.IH [OF i]
  have tags: "pf_tag ?f \<noteq> 0" "pf_tag ?g \<noteq> 0" using tag_nonzero [OF t] Suc.prems by simp_all
  have st: "it_start (iter_at c fs dest i) = fs" "it_pos (iter_at c fs dest i) = i" for c dest
    using iter_at_state [OF t i, of c dest] by simp_all
  have fld: "it_field (iter_at c fs dest i) = ?f" for c dest using t i by simp
  let ?union = "PB_HTYPE (pf_type ?f) = PB_HTYPE_ONEOF \<and> PB_HTYPE (pf_type ?g) = PB_HTYPE_ONEOF \<and> pf_data_offset ?g = PB_SIZE_MAX"
  show ?case
  proof (cases ?union)
    case True
    then have step: "iter_at c fs dest (Suc i) = (iter_at c fs dest i)\<lparr>it_pos := Suc i\<rparr>" for c dest
      using tags st Suc.prems fld by (simp add: iter_at.simps pb_field_iter_next_def Let_def)
    have "fld_off fs (Suc i) = fld_off fs i" "fld_cell fs (Suc i) = fld_cell fs i"
      using step [of 0 0] by (simp_all add: fld_off_def fld_cell_def)
    then show ?thesis using step IH by simp
  next
    case False
    let ?size = "if PB_ATYPE (pf_type ?f) = PB_ATYPE_STATIC \<and> PB_HTYPE (pf_type ?f) = PB_HTYPE_REPEATED
               then pf_data_size ?f * pf_array_size ?f
               else if PB_ATYPE (pf_type ?f) = PB_ATYPE_POINTER then 8 else pf_data_size ?f"
    have step: "it_pData (iter_at c fs dest (Suc i)) = it_pData (iter_at c fs dest i) + ?size + pf_data_offset ?g \<and>
        it_pSize (iter_at c fs dest (Suc i)) =
          SizeAt (ptr_add (it_pData (iter_at c fs dest i) + ?size + pf_data_offset ?g) (pf_size_offset ?g))" for c dest
      using False tags st Suc.prems fld
      by (simp add: iter_at.simps pb_field_iter_next_def Let_def del: de_Morgan_conj)
    have off: "fld_off fs (Suc i) = fld_off fs i + ?size + pf_data_offset ?g"
      and cell: "fld_cell fs (Suc i) = ptr_add (fld_off fs (Suc i)) (pf_size_offset ?g)"
      using step [of 0 0] by (simp_all add: fld_off_def fld_cell_def)
    have "int (fld_off fs (Suc i)) + pf_size_offset ?g = int (fld_cell fs (Suc i))"
      using o Suc.prems by (simp add: offsets_ok_def list_all_length)
    then have "ptr_add (dest + fld_off fs (Suc i)) (pf_size_offset ?g) = dest + fld_cell fs (Suc i)"
      by (rule ptr_add_shift)
    then show ?thesis using step [of c dest] IH off by (simp add: add.assoc)
  qed
qed

lemma cell_explicit:
  assumes "offsets_ok fs" and "i < length fs"
  shows "fld_cell fs i = fld_off fs i \<longleftrightarrow> pf_size_offset (fs ! i) = 0"
    and "ptr_add (dest + fld_off fs i) (pf_size_offset (fs ! i)) = dest + fld_cell fs i"
proof -
  have "int (fld_off fs i) + pf_size_offset (fs ! i) = int (fld_cell fs i)"
    using assms by (simp add: offsets_ok_def list_all_length)
  then show "fld_cell fs i = fld_off fs i \<longleftrightarrow> pf_size_offset (fs ! i) = 0"
    and "ptr_add (dest + fld_off fs i) (pf_size_offset (fs ! i)) = dest + fld_cell fs i"
    by (auto intro: ptr_add_shift)
qed

text \<open>How many bytes a field and its count take.\<close>

definition fld_extent :: "pb_field_t \<Rightarrow> nat" where
  "fld_extent f = (if PB_HTYPE (pf_type f) = PB_HTYPE_REPEATED then pf_data_size f * pf_array_size f else pf_data_size f)"

definition cell_width :: "pb_field_t \<Rightarrow> nat" where
  "cell_width f =
     (if pf_size_offset f = 0 then 0 else if PB_HTYPE (pf_type f) = PB_HTYPE_OPTIONAL then 1 else 4)"

abbreviation fld_region :: "pb_field_t list \<Rightarrow> nat \<Rightarrow> nat \<Rightarrow> nat set" where
  "fld_region fs dest i \<equiv> region (dest + fld_off fs i) (fld_extent (fs ! i))"

abbreviation cell_region :: "pb_field_t list \<Rightarrow> nat \<Rightarrow> nat \<Rightarrow> nat set" where
  "cell_region fs dest i \<equiv> region (dest + fld_cell fs i) (cell_width (fs ! i))"

definition footprint :: "pb_field_t list \<Rightarrow> nat \<Rightarrow> nat \<Rightarrow> nat set" where
  "footprint fs dest i = fld_region fs dest i \<union> cell_region fs dest i"

definition apart :: "nat \<Rightarrow> nat \<Rightarrow> nat \<Rightarrow> nat \<Rightarrow> bool" where
  "apart a n b k \<longleftrightarrow> n = 0 \<or> k = 0 \<or> a + n \<le> b \<or> b + k \<le> a"

lemma apart_regions: "apart a n b k \<Longrightarrow> region (d + a) n \<inter> region (d + b) k = {}"
  by (auto simp: apart_def)

text \<open>Members of the same oneof share their place.\<close>

definition same_oneof :: "pb_field_t list \<Rightarrow> nat \<Rightarrow> nat \<Rightarrow> bool" where
  "same_oneof fs i j \<longleftrightarrow> PB_HTYPE (pf_type (fs ! i)) = PB_HTYPE_ONEOF \<and> PB_HTYPE (pf_type (fs ! j)) = PB_HTYPE_ONEOF \<and>
     fld_cell fs i = fld_cell fs j"

definition slots_apart :: "pb_field_t list \<Rightarrow> nat \<Rightarrow> nat \<Rightarrow> bool" where
  "slots_apart fs i j \<longleftrightarrow>
     (let a = fld_off fs i; n = fld_extent (fs ! i); c = fld_cell fs i; w = cell_width (fs ! i);
          b = fld_off fs j; k = fld_extent (fs ! j); d = fld_cell fs j; v = cell_width (fs ! j)
      in apart a n b k \<and> apart a n d v \<and> apart c w b k \<and> apart c w d v)"

definition layout_ok :: "pb_field_t list \<Rightarrow> nat \<Rightarrow> bool" where
  "layout_ok fs n \<longleftrightarrow>
     list_all (\<lambda>i. fld_off fs i + fld_extent (fs ! i) \<le> n \<and> fld_cell fs i + cell_width (fs ! i) \<le> n \<and>
                    apart (fld_off fs i) (fld_extent (fs ! i)) (fld_cell fs i) (cell_width (fs ! i)) \<and>
                    list_all (\<lambda>j. j = i \<or> same_oneof fs i j \<or> slots_apart fs i j) [0..<length fs]) [0..<length fs]"

lemma footprint_within: "layout_ok fs n \<Longrightarrow> i < length fs \<Longrightarrow> footprint fs dest i \<subseteq> region dest n"
  by (force simp: layout_ok_def list_all_length footprint_def)

lemma footprint_apart:
  assumes "layout_ok fs n" and "i < length fs" and "j < length fs" and "i \<noteq> j" and "\<not> same_oneof fs i j"
  shows "footprint fs dest i \<inter> footprint fs dest j = {}"
proof -
  have "slots_apart fs i j" using assms by (auto simp: layout_ok_def list_all_length)
  then show ?thesis
    unfolding footprint_def slots_apart_def Let_def Int_Un_distrib Int_Un_distrib2 by (blast dest: apart_regions [where d = dest])
qed

lemma cell_apart:
  assumes "layout_ok fs n" and "i < length fs"
  shows "fld_region fs dest i \<inter> cell_region fs dest i = {}"
proof -
  have "apart (fld_off fs i) (fld_extent (fs ! i)) (fld_cell fs i) (cell_width (fs ! i))"
    using assms by (simp add: layout_ok_def list_all_length)
  then show ?thesis by (rule apart_regions)
qed

section \<open>Tables of static fields\<close>

definition plain_type :: "pb_field_t \<Rightarrow> bool" where
  "plain_type f \<longleftrightarrow>
     (let l = PB_LTYPE (pf_type f); h = PB_HTYPE (pf_type f); n = pf_data_size f in
      PB_ATYPE (pf_type f) = PB_ATYPE_STATIC \<and> n < 2 ^ 32 \<and> pf_array_size f < 2 ^ 32 \<and>
      (l = PB_LTYPE_BOOL \<and> n = 1 \<or>
       l \<in> {PB_LTYPE_VARINT, PB_LTYPE_UVARINT, PB_LTYPE_SVARINT} \<and> (n = 1 \<or> n = 2 \<or> n = 4 \<or> n = 8) \<or>
       l = PB_LTYPE_FIXED32 \<and> n = 4 \<or> l = PB_LTYPE_FIXED64 \<and> n = 8 \<or> l = PB_LTYPE_BYTES \<and> 4 \<le> n \<or>
       l = PB_LTYPE_STRING \<and> 1 \<le> n \<or> l = PB_LTYPE_SUBMESSAGE \<and> pf_ptr f \<noteq> 0 \<or> l = PB_LTYPE_FIXED_LENGTH_BYTES \<and> 0 < n) \<and>
      (h \<in> {PB_HTYPE_REPEATED, PB_HTYPE_ONEOF} \<longrightarrow> pf_size_offset f \<noteq> 0) \<and>
      (h = PB_HTYPE_REQUIRED \<longrightarrow> pf_size_offset f = 0) \<and>
      (h = PB_HTYPE_OPTIONAL \<and> pf_size_offset f = 0 \<and> l \<noteq> PB_LTYPE_SUBMESSAGE \<longrightarrow> pf_ptr f = 0))"

text \<open>\<open>plain_table d tables fs n\<close>: a table of static fields in a structure of \<open>n\<close> bytes, nested at most \<open>d\<close> deep.\<close>

fun plain_table :: "nat \<Rightarrow> (nat \<Rightarrow> pb_field_t list) \<Rightarrow> pb_field_t list \<Rightarrow> nat \<Rightarrow> bool" where
  "plain_table 0 tables fs n = False"
| "plain_table (Suc d) tables fs n =
     (fs \<noteq> [] \<and> tags_ok fs \<and> offsets_ok fs \<and> layout_ok fs n \<and>
      list_all (\<lambda>f. plain_type f \<and>
        (PB_LTYPE (pf_type f) = PB_LTYPE_SUBMESSAGE \<longrightarrow> plain_table d tables (tables (pf_ptr f)) (pf_data_size f))) fs)"

end
