(* ===== verification/PbDecodeSpec.thy ===== *)
theory PbDecodeSpec
  imports PbLayout
begin

text \<open>
  Decoding into structures of static fields (\<open>plain_table\<close>): release leaves the memory alone, the default
  values stay in the structure, every step of the decoder stays in the structure and in the stream,
  whatever the input, and the fuel that is needed is bounded by the length of the input and the nesting.
\<close>

section \<open>Plain tables\<close>

lemma plain_tableE:
  assumes "plain_table d tables fs k"
  obtains e where "d = Suc e" and "fs \<noteq> []" and "tags_ok fs" and "offsets_ok fs" and "layout_ok fs k"
    and "\<And>i. i < length fs \<Longrightarrow> plain_type (fs ! i)"
    and "\<And>i. i < length fs \<Longrightarrow> PB_LTYPE (pf_type (fs ! i)) = PB_LTYPE_SUBMESSAGE \<Longrightarrow>
           plain_table e tables (tables (pf_ptr (fs ! i))) (pf_data_size (fs ! i))"
  using assms by (cases d) (auto simp: list_all_length)

declare plain_table.simps [simp del]
declare pb_message_set_to_defaults.simps [simp del] pb_field_set_to_default.simps [simp del]
declare pb_release.simps [simp del] pb_release_single_field.simps [simp del]

text \<open>The types of a plain field exclude one another.\<close>

lemma plain_static: "plain_type f \<Longrightarrow> PB_ATYPE (pf_type f) = PB_ATYPE_STATIC"
  by (simp add: plain_type_def Let_def)

lemma static_not_pointer: "PB_ATYPE_STATIC \<noteq> PB_ATYPE_POINTER" "PB_ATYPE_STATIC \<noteq> PB_ATYPE_CALLBACK"
  by (simp_all add: pb_types)

lemma plain_ltype:
  assumes "plain_type f"
  obtains (bool) "PB_LTYPE (pf_type f) = PB_LTYPE_BOOL" and "pf_data_size f = 1"
    | (int) "PB_LTYPE (pf_type f) \<in> {PB_LTYPE_VARINT, PB_LTYPE_UVARINT, PB_LTYPE_SVARINT}" and "int_size (pf_data_size f)"
    | (fixed32) "PB_LTYPE (pf_type f) = PB_LTYPE_FIXED32" and "pf_data_size f = 4"
    | (fixed64) "PB_LTYPE (pf_type f) = PB_LTYPE_FIXED64" and "pf_data_size f = 8"
    | (bytes) "PB_LTYPE (pf_type f) = PB_LTYPE_BYTES" and "4 \<le> pf_data_size f"
    | (string) "PB_LTYPE (pf_type f) = PB_LTYPE_STRING" and "1 \<le> pf_data_size f"
    | (submessage) "PB_LTYPE (pf_type f) = PB_LTYPE_SUBMESSAGE" and "pf_ptr f \<noteq> 0"
    | (fixed_length) "PB_LTYPE (pf_type f) = PB_LTYPE_FIXED_LENGTH_BYTES" and "0 < pf_data_size f"
  using assms unfolding plain_type_def Let_def by (elim conjE) (elim disjE; elim conjE; assumption?; blast)

lemma plain_not_extension: "plain_type f \<Longrightarrow> PB_LTYPE (pf_type f) \<noteq> PB_LTYPE_EXTENSION"
  by (erule plain_ltype) (auto simp: pb_types)

lemma plain_bounds: "plain_type f \<Longrightarrow> pf_data_size f < 2 ^ 32 \<and> pf_array_size f < 2 ^ 32"
  by (simp add: plain_type_def Let_def)

lemma plain_counted: "plain_type f \<Longrightarrow> PB_HTYPE (pf_type f) \<in> {PB_HTYPE_REPEATED, PB_HTYPE_ONEOF} \<Longrightarrow> pf_size_offset f \<noteq> 0"
  unfolding plain_type_def Let_def by (elim conjE) (drule (1) mp)

lemma plain_implicit:
  "plain_type f \<Longrightarrow> PB_HTYPE (pf_type f) = PB_HTYPE_OPTIONAL \<Longrightarrow> pf_size_offset f = 0 \<Longrightarrow>
   PB_LTYPE (pf_type f) \<noteq> PB_LTYPE_SUBMESSAGE \<Longrightarrow> pf_ptr f = 0"
  by (simp add: plain_type_def Let_def)

lemma htype_values: "PB_HTYPE t = 0 \<or> PB_HTYPE t = 0x10 \<or> PB_HTYPE t = 0x20 \<or> PB_HTYPE t = 0x30"
proof -
  have mask: "(0x30 :: u8) = push_bit 4 (mask 2)" by (simp add: mask_eq_exp_minus_1)
  have h: "PB_HTYPE t = push_bit 4 (take_bit 2 (drop_bit 4 t))"
    unfolding PB_HTYPE_def mask by (rule bit_word_eqI) (auto simp: bit_simps)
  have "unat (take_bit 2 (drop_bit 4 t)) < 4" by (simp only: unsigned_take_bit_eq) (simp add: take_bit_eq_mod)
  then have "unat (take_bit 2 (drop_bit 4 t)) \<in> {0, 1, 2, 3}" by auto
  then have "take_bit 2 (drop_bit 4 t) \<in> {0, 1, 2, 3}" by (auto simp: word_unat_eq_iff)
  then show ?thesis unfolding h by auto
qed

lemma htype_cases:
  obtains (required) "PB_HTYPE t = PB_HTYPE_REQUIRED" | (optional) "PB_HTYPE t = PB_HTYPE_OPTIONAL"
    | (repeated) "PB_HTYPE t = PB_HTYPE_REPEATED" | (oneof) "PB_HTYPE t = PB_HTYPE_ONEOF"
  using htype_values [of t] by (auto simp: pb_types)

lemma htypes_distinct [simp]:
  "PB_HTYPE_REQUIRED \<noteq> PB_HTYPE_OPTIONAL" "PB_HTYPE_REQUIRED \<noteq> PB_HTYPE_REPEATED" "PB_HTYPE_REQUIRED \<noteq> PB_HTYPE_ONEOF"
  "PB_HTYPE_OPTIONAL \<noteq> PB_HTYPE_REQUIRED" "PB_HTYPE_OPTIONAL \<noteq> PB_HTYPE_REPEATED" "PB_HTYPE_OPTIONAL \<noteq> PB_HTYPE_ONEOF"
  "PB_HTYPE_REPEATED \<noteq> PB_HTYPE_REQUIRED" "PB_HTYPE_REPEATED \<noteq> PB_HTYPE_OPTIONAL" "PB_HTYPE_REPEATED \<noteq> PB_HTYPE_ONEOF"
  "PB_HTYPE_ONEOF \<noteq> PB_HTYPE_REQUIRED" "PB_HTYPE_ONEOF \<noteq> PB_HTYPE_OPTIONAL" "PB_HTYPE_ONEOF \<noteq> PB_HTYPE_REPEATED"
  by (simp_all add: pb_types)

text \<open>The iterator at a field of a plain table, and its count.\<close>

lemma plain_cell_width: "plain_type f \<Longrightarrow> PB_HTYPE (pf_type f) \<in> {PB_HTYPE_REPEATED, PB_HTYPE_ONEOF} \<Longrightarrow> cell_width f = 4"
  using plain_counted [of f] by (auto simp: cell_width_def)

lemma read_size_at:
  assumes "tags_ok fs" and "offsets_ok fs" and "i < length fs"
  shows "read_size (iter_at c fs dest i) m = load_int 4 (dest + fld_cell fs i) m"
    and "write_size v (iter_at c fs dest i) m = (iter_at c fs dest i, store_int 4 v (dest + fld_cell fs i) m)"
    and "write_has b (iter_at c fs dest i) m = store_int 1 (of_bool b) (dest + fld_cell fs i) m"
    and "it_pSize (iter_at c fs dest i) = SizeAt (dest + fld_off fs i) \<longleftrightarrow> pf_size_offset (fs ! i) = 0"
    and "it_pData (iter_at c fs dest i) = dest + fld_off fs i"
  using iter_at_places [OF assms, of c dest] cell_explicit(1) [OF assms(2,3)]
  by (simp_all add: read_size_def write_size_def write_has_def)

section \<open>Release\<close>

lemma seq_steps_same: "(\<And>x. x \<in> set xs \<Longrightarrow> body x a = Some (True, a)) \<Longrightarrow> seq_steps body xs a = Some (True, a)"
  by (induction xs) auto

lemma release_items_same: "(\<And>p. release p m = Some m) \<Longrightarrow> release_items release k c p m = Some m"
  by (induction c arbitrary: p) auto

lemma release_single_same:
  assumes "plain_type (it_field iter)"
    and "\<And>p. PB_LTYPE (pf_type (it_field iter)) = PB_LTYPE_SUBMESSAGE \<Longrightarrow>
           pb_release n env (de_fields env (pf_ptr (it_field iter))) p m = Some m"
  shows "pb_release_single_field (Suc n) env iter m = Some m"
  using assms plain_static [OF assms(1)] plain_not_extension [OF assms(1)] static_not_pointer
  by (simp add: pb_release_single_field.simps Let_def release_items_same)

lemma release_plain: "plain_table d (de_fields env) fs k \<Longrightarrow> 2 * d \<le> n \<Longrightarrow> pb_release n env fs dest m = Some m"
proof (induction d arbitrary: fs k n dest)
  case (Suc e)
  from Suc.prems(1) obtain ne: "fs \<noteq> []" and t: "tags_ok fs" and o: "offsets_ok fs"
    and ty: "\<And>i. i < length fs \<Longrightarrow> plain_type (fs ! i)"
    and sub: "\<And>i. i < length fs \<Longrightarrow> PB_LTYPE (pf_type (fs ! i)) = PB_LTYPE_SUBMESSAGE \<Longrightarrow>
           plain_table e (de_fields env) (de_fields env (pf_ptr (fs ! i))) (pf_data_size (fs ! i))"
    by (rule plain_tableE) auto
  obtain n' where n: "n = Suc (Suc n')" and n': "2 * e \<le> n'"
    using Suc.prems(2) by (cases n; cases "n - 1") auto
  have one: "pb_release_single_field (Suc n') env (iter_at 0 fs dest i) m = Some m" if "i < length fs" for i
    using that t ty [OF that] Suc.IH [OF sub [OF that] n'] by (intro release_single_same) simp_all
  have "do_fields (lift_step (\<lambda>iter m. pb_release_single_field (Suc n') env iter m)) (iter_at 0 fs dest 0) m = Some (True, m)"
    using ne do_fields_at [OF t, of 0 _ 0 dest m] one by (simp, intro seq_steps_same) (simp add: lift_step_def)
  then show ?case using iter_begin_tag [OF t] ne unfolding n by (simp add: pb_release.simps)
qed (simp add: plain_table.simps)

lemma release_single_plain:
  assumes "plain_table (Suc e) (de_fields env) fs k" and "2 * e < n" and "i < length fs"
  shows "pb_release_single_field n env (iter_at c fs dest i) m = Some m"
proof -
  from assms(1) have t: "tags_ok fs" and ty: "plain_type (fs ! i)"
    and sub: "PB_LTYPE (pf_type (fs ! i)) = PB_LTYPE_SUBMESSAGE \<Longrightarrow>
       plain_table e (de_fields env) (de_fields env (pf_ptr (fs ! i))) (pf_data_size (fs ! i))"
    using assms(3) by (auto elim: plain_tableE)
  obtain n' where n: "n = Suc n'" and n': "2 * e \<le> n'" using assms(2) by (cases n) auto
  show ?thesis
    unfolding n using t ty sub assms(3) n' by (intro release_single_same) (auto intro: release_plain)
qed

section \<open>Default values\<close>

text \<open>The state of a field, and of a structure, after the defaults were set.\<close>

definition field_default ::
    "(pb_field_t \<Rightarrow> nat \<Rightarrow> 'h pb_mem \<Rightarrow> bool) \<Rightarrow> pb_field_t \<Rightarrow> nat \<Rightarrow> nat \<Rightarrow> 'h pb_mem \<Rightarrow> bool" where
  "field_default sub f p c m \<longleftrightarrow>
     (let h = PB_HTYPE (pf_type f) in
      if h = PB_HTYPE_REPEATED \<or> h = PB_HTYPE_ONEOF then load_int 4 c m = 0
      else (h = PB_HTYPE_OPTIONAL \<and> pf_size_offset f \<noteq> 0 \<longrightarrow> load_int 1 c m = 0) \<and>
           (if PB_LTYPE (pf_type f) = PB_LTYPE_SUBMESSAGE then sub f p m
            else pf_ptr f = 0 \<longrightarrow> load p (pf_data_size f) m = replicate (pf_data_size f) 0))"

fun defaulted :: "nat \<Rightarrow> (nat \<Rightarrow> pb_field_t list) \<Rightarrow> pb_field_t list \<Rightarrow> nat \<Rightarrow> 'h pb_mem \<Rightarrow> bool" where
  "defaulted 0 tables fs dest m = False"
| "defaulted (Suc e) tables fs dest m =
     list_all (\<lambda>i. field_default (\<lambda>f p m. defaulted e tables (tables (pf_ptr f)) p m) (fs ! i) (dest + fld_off fs i)
                     (dest + fld_cell fs i) m) [0..<length fs]"

abbreviation default_at :: "nat \<Rightarrow> (nat \<Rightarrow> pb_field_t list) \<Rightarrow> pb_field_t list \<Rightarrow> nat \<Rightarrow> nat \<Rightarrow> 'h pb_mem \<Rightarrow> bool" where
  "default_at e tables fs dest i m \<equiv>
     field_default (\<lambda>f p m. defaulted e tables (tables (pf_ptr f)) p m) (fs ! i) (dest + fld_off fs i) (dest + fld_cell fs i) m"

declare defaulted.simps [simp del]

lemma defaulted_Suc: "defaulted (Suc e) tables fs dest m \<longleftrightarrow> (\<forall>i < length fs. default_at e tables fs dest i m)"
  by (simp add: defaulted.simps list_all_length)

text \<open>A field in its default state keeps it as long as its place is not touched.\<close>

lemma extent_not_repeated: "PB_HTYPE (pf_type f) \<noteq> PB_HTYPE_REPEATED \<Longrightarrow> fld_extent f = pf_data_size f"
  by (simp add: fld_extent_def)

lemma default_frame:
  assumes "field_default sub f p c m" and "changes A m m'" and "plain_type f"
    and "region c (cell_width f) \<inter> A = {}"
    and "PB_HTYPE (pf_type f) \<in> {PB_HTYPE_REQUIRED, PB_HTYPE_OPTIONAL} \<Longrightarrow> region p (pf_data_size f) \<inter> A = {}"
    and "\<And>n. PB_LTYPE (pf_type f) = PB_LTYPE_SUBMESSAGE \<Longrightarrow> region p (pf_data_size f) \<inter> A = {} \<Longrightarrow> sub f p m \<Longrightarrow> sub f p m'"
  shows "field_default sub f p c m'"
proof (cases rule: htype_cases [of "pf_type f"])
  case required
  moreover have "load p (pf_data_size f) m' = load p (pf_data_size f) m"
    using changes_load [OF assms(2)] assms(5) required by simp
  ultimately show ?thesis using assms(1,5,6) by (auto simp: field_default_def Let_def)
next
  case optional
  then have "region p (pf_data_size f) \<inter> A = {}" using assms(5) by simp
  moreover have "load_int 1 c m' = load_int 1 c m" if "pf_size_offset f \<noteq> 0"
    using changes_load_int [OF assms(2), of c 1] assms(4) optional that by (simp add: cell_width_def)
  moreover have "load p (pf_data_size f) m' = load p (pf_data_size f) m"
    using changes_load [OF assms(2)] assms(5) optional by simp
  ultimately show ?thesis using assms(1,6) optional by (auto simp: field_default_def Let_def)
next
  case repeated
  then have "load_int 4 c m' = load_int 4 c m"
    using changes_load_int [OF assms(2), of c 4] assms(4) plain_cell_width [OF assms(3)] by simp
  then show ?thesis using assms(1) repeated by (simp add: field_default_def Let_def)
next
  case oneof
  then have "load_int 4 c m' = load_int 4 c m"
    using changes_load_int [OF assms(2), of c 4] assms(4) plain_cell_width [OF assms(3)] by simp
  then show ?thesis using assms(1) oneof by (simp add: field_default_def Let_def)
qed

lemma footprint_parts:
  assumes "i < length fs" and "footprint fs dest i \<inter> A = {}"
  shows "cell_region fs dest i \<inter> A = {}"
    and "PB_HTYPE (pf_type (fs ! i)) \<in> {PB_HTYPE_REQUIRED, PB_HTYPE_OPTIONAL, PB_HTYPE_ONEOF} \<Longrightarrow>
           region (dest + fld_off fs i) (pf_data_size (fs ! i)) \<inter> A = {}"
  using assms by (auto simp: footprint_def fld_extent_def)

lemma defaulted_frame:
  "plain_table d tables fs k \<Longrightarrow> defaulted d tables fs dest m \<Longrightarrow> changes A m m' \<Longrightarrow> region dest k \<inter> A = {} \<Longrightarrow>
   defaulted d tables fs dest m'"
proof (induction d arbitrary: fs k dest)
  case (Suc e)
  from Suc.prems(1) have l: "layout_ok fs k" and ty: "\<And>i. i < length fs \<Longrightarrow> plain_type (fs ! i)"
    and sub: "\<And>i. i < length fs \<Longrightarrow> PB_LTYPE (pf_type (fs ! i)) = PB_LTYPE_SUBMESSAGE \<Longrightarrow>
       plain_table e tables (tables (pf_ptr (fs ! i))) (pf_data_size (fs ! i))"
    by (auto elim: plain_tableE)
  have "default_at e tables fs dest i m'" if i: "i < length fs" for i
  proof -
    have disj: "footprint fs dest i \<inter> A = {}" using footprint_within [OF l i, of dest] Suc.prems(4) by blast
    show ?thesis
      by (rule default_frame [OF _ Suc.prems(3) ty [OF i] footprint_parts(1) [OF i disj]])
        (use i Suc.prems Suc.IH [OF sub [OF i]] footprint_parts(2) [OF i disj] in \<open>auto simp: defaulted_Suc\<close>)
  qed
  then show ?case by (simp add: defaulted_Suc)
qed (simp add: defaulted.simps)

lemma store_zeros_default: "length bs = n \<Longrightarrow> load p n (store p bs m) = bs"
  using load_store_same [of p bs m] by simp

lemma load_int_store_other: "region a n \<inter> region b k = {} \<Longrightarrow> load_int n a (store_int k v b m) = load_int n a m"
  by (simp add: load_int_def store_int_def load_store_other)

lemma seq_steps_inv:
  assumes step: "\<And>j a. j < len \<Longrightarrow> P j a \<Longrightarrow> \<exists>a'. body j a = Some (True, a') \<and> P (Suc j) a'"
  shows "i \<le> len \<Longrightarrow> P i a \<Longrightarrow> \<exists>a'. seq_steps body [i..<len] a = Some (True, a') \<and> P len a'"
proof (induction "len - i" arbitrary: i a)
  case (Suc k)
  then have i: "i < len" by simp
  obtain a' where a': "body i a = Some (True, a')" "P (Suc i) a'" using step [OF i Suc.prems(2)] by blast
  have "\<exists>b. seq_steps body [Suc i..<len] a' = Some (True, b) \<and> P len b" using Suc.hyps i a'(2) by simp
  then show ?case using i a'(1) by (simp add: upt_conv_Cons)
qed simp

text \<open>Setting the defaults of one field.\<close>

definition default_region :: "pb_field_t list \<Rightarrow> nat \<Rightarrow> nat \<Rightarrow> nat set" where
  "default_region fs dest i =
     (if PB_HTYPE (pf_type (fs ! i)) \<in> {PB_HTYPE_REPEATED, PB_HTYPE_ONEOF} then cell_region fs dest i else footprint fs dest i)"

lemma set_default_at:
  fixes m :: "'h pb_mem"
  assumes p: "plain_table (Suc e) tables fs k" and i: "i < length fs"
    and sub: "\<And>p (m :: 'h pb_mem). PB_LTYPE (pf_type (fs ! i)) = PB_LTYPE_SUBMESSAGE \<Longrightarrow>
      \<exists>m'. pb_message_set_to_defaults n tables (tables (pf_ptr (fs ! i))) p m = Some m' \<and>
           changes (region p (pf_data_size (fs ! i))) m m' \<and> defaulted e tables (tables (pf_ptr (fs ! i))) p m'"
  shows "\<exists>m'. pb_field_set_to_default (Suc n) tables (iter_at 0 fs dest i) m = Some m' \<and>
    changes (default_region fs dest i) m m' \<and> default_at e tables fs dest i m'"
proof -
  let ?f = "fs ! i" and ?iter = "iter_at 0 fs dest i" and ?p = "dest + fld_off fs i" and ?c = "dest + fld_cell fs i"
  from p i have t: "tags_ok fs" and o: "offsets_ok fs" and l: "layout_ok fs k" and ty: "plain_type ?f"
    by (auto elim: plain_tableE)
  note at = read_size_at [OF t o i, where c = 0 and dest = dest]
  have ap: "fld_region fs dest i \<inter> cell_region fs dest i = {}" by (rule cell_apart [OF l i])
  have step: "pb_field_set_to_default (Suc n) tables ?iter m =
      (if PB_HTYPE (pf_type ?f) = PB_HTYPE_REPEATED \<or> PB_HTYPE (pf_type ?f) = PB_HTYPE_ONEOF then Some (store_int 4 0 ?c m)
       else let m = (if PB_HTYPE (pf_type ?f) = PB_HTYPE_OPTIONAL \<and> pf_size_offset ?f \<noteq> 0 then store_int 1 0 ?c m else m) in
         if PB_LTYPE (pf_type ?f) = PB_LTYPE_SUBMESSAGE then pb_message_set_to_defaults n tables (tables (pf_ptr ?f)) ?p m
         else if pf_ptr ?f \<noteq> 0 then Some (store ?p (load (pf_ptr ?f) (pf_data_size ?f) m) m)
         else Some (store ?p (replicate (pf_data_size ?f) 0) m))"
    using t i plain_static [OF ty] plain_not_extension [OF ty]
    by (simp add: pb_field_set_to_default.simps at Let_def)
  show ?thesis
  proof (cases "PB_HTYPE (pf_type ?f) = PB_HTYPE_REPEATED \<or> PB_HTYPE (pf_type ?f) = PB_HTYPE_ONEOF")
    case True
    then have w: "cell_width ?f = 4" using plain_cell_width [OF ty] by simp
    show ?thesis
      unfolding step using True w load_int_store_same [of 4 ?c 0 m]
      by (auto simp: default_region_def field_default_def intro!: changes_store_int)
  next
    case False
    let ?m = "if PB_HTYPE (pf_type ?f) = PB_HTYPE_OPTIONAL \<and> pf_size_offset ?f \<noteq> 0 then store_int 1 0 ?c m else m"
    have ext: "fld_extent ?f = pf_data_size ?f" using False by (simp add: fld_extent_def)
    have dr: "default_region fs dest i = region ?p (pf_data_size ?f) \<union> cell_region fs dest i"
      using False ext by (simp add: default_region_def footprint_def)
    have m: "changes (cell_region fs dest i) m ?m"
      by (auto simp: cell_width_def intro!: changes_store_int)
    have has: "load_int 1 ?c ?m = 0" if "PB_HTYPE (pf_type ?f) = PB_HTYPE_OPTIONAL \<and> pf_size_offset ?f \<noteq> 0"
      using that load_int_store_same [of 1 ?c 0 m] by simp
    have "\<exists>m'. pb_field_set_to_default (Suc n) tables ?iter m = Some m' \<and> changes (region ?p (pf_data_size ?f)) ?m m' \<and>
        (if PB_LTYPE (pf_type ?f) = PB_LTYPE_SUBMESSAGE then defaulted e tables (tables (pf_ptr ?f)) ?p m'
         else pf_ptr ?f = 0 \<longrightarrow> load ?p (pf_data_size ?f) m' = replicate (pf_data_size ?f) 0)"
    proof (cases "PB_LTYPE (pf_type ?f) = PB_LTYPE_SUBMESSAGE")
      case True
      then show ?thesis using sub [OF True, of ?p ?m] False unfolding step Let_def by auto
    next
      case nsub: False
      show ?thesis
        using nsub False unfolding step Let_def
        by (auto intro!: changes_store store_zeros_default)
    qed
    then obtain m' where m': "pb_field_set_to_default (Suc n) tables ?iter m = Some m'"
        "changes (region ?p (pf_data_size ?f)) ?m m'"
        "if PB_LTYPE (pf_type ?f) = PB_LTYPE_SUBMESSAGE then defaulted e tables (tables (pf_ptr ?f)) ?p m'
         else pf_ptr ?f = 0 \<longrightarrow> load ?p (pf_data_size ?f) m' = replicate (pf_data_size ?f) 0" by blast
    have "load_int 1 ?c m' = load_int 1 ?c ?m" if "PB_HTYPE (pf_type ?f) = PB_HTYPE_OPTIONAL \<and> pf_size_offset ?f \<noteq> 0"
      using changes_load_int [OF m'(2), of ?c 1] ap that ext by (simp add: cell_width_def Int_commute)
    then have "default_at e tables fs dest i m'"
      using m'(3) has False by (simp add: field_default_def Let_def del: One_nat_def)
    moreover have "changes (default_region fs dest i) m m'"
      using changes_trans [OF changes_mono [OF m] changes_mono [OF m'(2)]] dr by blast
    ultimately show ?thesis using m'(1) by blast
  qed
qed

lemma set_to_defaults:
  "plain_table d tables fs k \<Longrightarrow> 2 * d \<le> n \<Longrightarrow>
   \<exists>m'. pb_message_set_to_defaults n tables fs dest m = Some m' \<and> changes (region dest k) m m' \<and> defaulted d tables fs dest m'"
proof (induction d arbitrary: fs k n dest m)
  case (Suc e)
  from Suc.prems(1) have ne: "fs \<noteq> []" and t: "tags_ok fs" and l: "layout_ok fs k"
    and ty: "\<And>i. i < length fs \<Longrightarrow> plain_type (fs ! i)"
    and sub: "\<And>i. i < length fs \<Longrightarrow> PB_LTYPE (pf_type (fs ! i)) = PB_LTYPE_SUBMESSAGE \<Longrightarrow>
           plain_table e tables (tables (pf_ptr (fs ! i))) (pf_data_size (fs ! i))"
    by (auto elim: plain_tableE)
  obtain n' where n: "n = Suc (Suc n')" and n': "2 * e \<le> n'"
    using Suc.prems(2) by (cases n; cases "n - 1") auto
  let ?body = "\<lambda>j. lift_step (pb_field_set_to_default (Suc n') tables) (iter_at 0 fs dest j)"
  let ?P = "\<lambda>j m'. changes (region dest k) m m' \<and> (\<forall>i < j. default_at e tables fs dest i m')"
  have step: "\<exists>a'. ?body j a = Some (True, a') \<and> ?P (Suc j) a'" if j: "j < length fs" and P: "?P j a" for j a
  proof -
    obtain a' where a': "pb_field_set_to_default (Suc n') tables (iter_at 0 fs dest j) a = Some a'"
        "changes (default_region fs dest j) a a'" "default_at e tables fs dest j a'"
      using set_default_at [OF Suc.prems(1) j Suc.IH [OF sub [OF j] n'], of dest a] by blast
    have within: "default_region fs dest j \<subseteq> footprint fs dest j" by (simp add: default_region_def footprint_def)
    have "changes (region dest k) a a'"
      using changes_mono [OF a'(2)] within footprint_within [OF l j, of dest] by blast
    moreover have "default_at e tables fs dest i a'" if i: "i < j" for i
    proof -
      have il: "i < length fs" using i j by simp
      have di: "default_at e tables fs dest i a" using P i by blast
      show ?thesis
      proof (cases "same_oneof fs i j")
        case True
        then have "load_int 4 (dest + fld_cell fs i) a' = 0"
          using a'(3) by (simp add: same_oneof_def field_default_def Let_def)
        then show ?thesis using True by (simp add: same_oneof_def field_default_def Let_def)
      next
        case False
        then have disj: "footprint fs dest i \<inter> default_region fs dest j = {}"
          using footprint_apart [OF l il j _ False, of dest] i within by blast
        show ?thesis
          by (rule default_frame [OF di a'(2) ty [OF il] footprint_parts(1) [OF il disj]])
            (use footprint_parts(2) [OF il disj] defaulted_frame [OF sub [OF il] _ a'(2)] in auto)
      qed
    qed
    ultimately show ?thesis
      using a'(1,3) P changes_trans less_Suc_eq by (auto simp: lift_step_def)
  qed
  have "\<exists>m'. seq_steps ?body [0..<length fs] m = Some (True, m') \<and> ?P (length fs) m'"
    by (rule seq_steps_inv [where P = ?P, OF step]) auto
  then show ?case
    using iter_begin_tag [OF t] ne do_fields_at [OF t, of 0 _ 0 dest m] unfolding n
    by (auto simp: pb_message_set_to_defaults.simps defaulted_Suc)
qed (simp add: plain_table.simps)

section \<open>The field decoders\<close>

text \<open>What a call of the decoder table, with a decoder of submessages for streams of up to \<open>b\<close> bytes, does to
  a static field.\<close>

definition field_kept :: "nat \<Rightarrow> ('s, 'h) pb_field_decoder \<Rightarrow> pb_field_t \<Rightarrow> bool" where
  "field_kept b dec f \<longleftrightarrow>
     (\<forall>s dest m. is_ok s \<and> is_bytes_left s \<le> b \<longrightarrow>
        (\<exists>r. dec f s dest m = Some r \<and> kept dest (pf_data_size f) s m r))"

lemma field_keptD:
  assumes "field_kept b dec f" and "is_ok s" and "is_bytes_left s \<le> b"
  obtains ok s' m' where "dec f s dest m = Some (ok, s', m')" and "changes (region dest (pf_data_size f)) m m'"
    and "within s s'"
  using assms unfolding field_kept_def kept_def by (metis (no_types, lifting) prod.case_eq_if prod.collapse)

lemma field_kept_returns: "keeps (pf_data_size f) (dec f) \<Longrightarrow> (\<And>s dest m. d f s dest m = returns dec f s dest m) \<Longrightarrow> field_kept b d f"
  by (simp add: field_kept_def returns_def keeps_def)

lemma call_decoder_table:
  "PB_LTYPE (pf_type f) = PB_LTYPE_BOOL \<Longrightarrow> call_decoder env sub f s dest m = returns (pb_dec_bool (de_read env)) f s dest m"
  "PB_LTYPE (pf_type f) = PB_LTYPE_VARINT \<Longrightarrow> call_decoder env sub f s dest m = returns (pb_dec_varint (de_read env)) f s dest m"
  "PB_LTYPE (pf_type f) = PB_LTYPE_UVARINT \<Longrightarrow> call_decoder env sub f s dest m = returns (pb_dec_uvarint (de_read env)) f s dest m"
  "PB_LTYPE (pf_type f) = PB_LTYPE_SVARINT \<Longrightarrow> call_decoder env sub f s dest m = returns (pb_dec_svarint (de_read env)) f s dest m"
  "PB_LTYPE (pf_type f) = PB_LTYPE_FIXED32 \<Longrightarrow> call_decoder env sub f s dest m = returns (pb_dec_fixed32 (de_read env)) f s dest m"
  "PB_LTYPE (pf_type f) = PB_LTYPE_FIXED64 \<Longrightarrow> call_decoder env sub f s dest m = returns (pb_dec_fixed64 (de_read env)) f s dest m"
  "PB_LTYPE (pf_type f) = PB_LTYPE_BYTES \<Longrightarrow>
     call_decoder env sub f s dest m = returns (pb_dec_bytes (de_read env) (de_realloc env)) f s dest m"
  "PB_LTYPE (pf_type f) = PB_LTYPE_STRING \<Longrightarrow>
     call_decoder env sub f s dest m = returns (pb_dec_string (de_read env) (de_realloc env)) f s dest m"
  "PB_LTYPE (pf_type f) = PB_LTYPE_SUBMESSAGE \<Longrightarrow> call_decoder env sub f s dest m = sub f s dest m"
  "PB_LTYPE (pf_type f) = PB_LTYPE_FIXED_LENGTH_BYTES \<Longrightarrow>
     call_decoder env sub f s dest m = returns (pb_dec_fixed_length_bytes (de_read env)) f s dest m"
  by (simp_all add: call_decoder_def PB_DECODERS_def Let_def pb_types)

lemma call_decoder_kept:
  assumes ty: "plain_type f" and sub: "PB_LTYPE (pf_type f) = PB_LTYPE_SUBMESSAGE \<Longrightarrow> field_kept b sub f"
  shows "field_kept b (call_decoder env sub) f"
proof -
  have static: "PB_ATYPE (pf_type f) \<noteq> PB_ATYPE_POINTER" using plain_static [OF ty] static_not_pointer by simp
  show ?thesis
    using ty
  proof (cases rule: plain_ltype)
    case bool
    show ?thesis by (rule field_kept_returns [OF keeps_bool call_decoder_table(1)]) (simp_all add: bool)
  next
    case int
    then consider "PB_LTYPE (pf_type f) = PB_LTYPE_VARINT" | "PB_LTYPE (pf_type f) = PB_LTYPE_UVARINT"
      | "PB_LTYPE (pf_type f) = PB_LTYPE_SVARINT" by auto
    then show ?thesis
      by cases (rule field_kept_returns [OF keeps_ints(1) call_decoder_table(2)]
          field_kept_returns [OF keeps_ints(2) call_decoder_table(3)] field_kept_returns [OF keeps_ints(3) call_decoder_table(4)];
          assumption)+
  next
    case fixed32
    show ?thesis by (rule field_kept_returns [OF keeps_fixed(1) call_decoder_table(5)]) (simp_all add: fixed32)
  next
    case fixed64
    show ?thesis by (rule field_kept_returns [OF keeps_fixed(2) call_decoder_table(6)]) (simp_all add: fixed64)
  next
    case bytes
    show ?thesis by (rule field_kept_returns [OF keeps_bytes call_decoder_table(7)]) (simp_all add: bytes static)
  next
    case string
    show ?thesis by (rule field_kept_returns [OF keeps_string call_decoder_table(8)]) (simp_all add: string static)
  next
    case submessage
    then show ?thesis using sub by (simp add: field_kept_def call_decoder_table(9))
  next
    case fixed_length
    show ?thesis by (rule field_kept_returns [OF keeps_fixed_length_bytes call_decoder_table(10)]) (simp_all add: fixed_length)
  qed
qed

text \<open>Every successful decoder of a packable type consumes input, so that the loop over a packed array ends.\<close>

lemma varint32_loop_left: "varint32_loop io bitpos result s = (Some r, t) \<Longrightarrow> is_bytes_left t < is_bytes_left s"
proof (induction io bitpos result s arbitrary: r t rule: varint32_loop.induct)
  case (1 io bitpos result s)
  show ?case
  proof (cases "pb_readbyte io s")
    case (Pair b u)
    show ?thesis
    proof (cases b)
      case None
      then show ?thesis using Pair "1.prems" by (simp add: varint32_loop.simps [of io bitpos result s])
    next
      case (Some c)
      have u: "is_bytes_left u < is_bytes_left s" using pb_readbyte_left Pair Some by simp
      note step = "1.IH" [OF Pair [symmetric] Some _ refl refl]
      show ?thesis
        using "1.prems" u step Pair Some
        by (simp add: varint32_loop.simps [of io bitpos result s] Let_def split: if_splits) (fastforce+)?
    qed
  qed
qed

lemma varint_loop_left: "varint_loop io bitpos result s = (Some r, t) \<Longrightarrow> is_bytes_left t < is_bytes_left s"
proof (induction io bitpos result s arbitrary: r t rule: varint_loop.induct)
  case (1 io bitpos result s)
  show ?case
  proof (cases "pb_readbyte io s")
    case (Pair b u)
    show ?thesis
    proof (cases b)
      case None
      then show ?thesis using Pair "1.prems" by (auto simp: varint_loop.simps [of io bitpos result s] split: if_splits)
    next
      case (Some c)
      have u: "is_bytes_left u < is_bytes_left s" using pb_readbyte_left Pair Some by simp
      note step = "1.IH" [OF _ Pair [symmetric] Some refl refl]
      show ?thesis
        using "1.prems" u step Pair Some
        by (simp add: varint_loop.simps [of io bitpos result s] Let_def split: if_splits) (fastforce+)?
    qed
  qed
qed

lemma varint32_eof_left: "pb_decode_varint32_eof io s = (Some v, eof, t) \<Longrightarrow> is_bytes_left t < is_bytes_left s"
  using varint32_loop_left pb_readbyte_left
  by (fastforce simp: pb_decode_varint32_eof_def split: prod.splits option.splits if_splits)

lemma varint32_left: "pb_decode_varint32 io s = (Some v, t) \<Longrightarrow> is_bytes_left t < is_bytes_left s"
  using varint32_eof_left by (fastforce simp: pb_decode_varint32_def split: prod.splits)

lemma pb_tag_left: "pb_decode_tag io s = ((True, wt, tag, eof), t) \<Longrightarrow> is_bytes_left t < is_bytes_left s \<and> unat tag < 2 ^ 29"
proof -
  assume a: "pb_decode_tag io s = ((True, wt, tag, eof), t)"
  then obtain v e where v: "pb_decode_varint32_eof io s = (Some v, e, t)" "tag = drop_bit 3 v"
    by (auto simp: pb_decode_tag_def split: prod.splits option.splits if_splits)
  have "unat v < 2 ^ 32" by (rule order.strict_trans2 [OF unsigned_less]) simp
  then have "unat (drop_bit 3 v) < 2 ^ 29"
    by (simp only: unsigned_drop_bit_eq) (simp add: drop_bit_eq_div take_bit_nat_eq_self)
  then show ?thesis using varint32_eof_left [OF v(1)] v(2) by simp
qed

lemma packable_eats:
  assumes "plain_type f" and "PB_LTYPE (pf_type f) \<le> PB_LTYPE_LAST_PACKABLE"
    and "call_decoder env sub f s dest m = Some (True, t, m')"
  shows "is_bytes_left t < is_bytes_left s"
  using assms(1)
proof (cases rule: plain_ltype)
  case bool
  then show ?thesis using assms(3) varint32_left
    by (fastforce simp: call_decoder_table returns_def pb_dec_bool_def split: prod.splits option.splits)
next
  case int
  have "is_bytes_left u < is_bytes_left s" if "pb_decode_svarint (de_read env) s = (Some v, u)" for u v
    using that varint_loop_left by (fastforce simp: pb_decode_svarint_def pb_decode_varint_def split: prod.splits option.splits)
  then show ?thesis using assms(3) int varint_loop_left
    by (fastforce simp: call_decoder_table returns_def pb_dec_varint_def pb_dec_uvarint_def pb_dec_svarint_def pb_decode_varint_def
        store_checked_def Let_def split: prod.splits option.splits if_splits)
next
  case fixed32
  then show ?thesis using assms(3) pb_read_once_left
    by (fastforce simp: call_decoder_table returns_def pb_dec_fixed32_def pb_decode_fixed32_def pb_read_def
        split: prod.splits option.splits)
next
  case fixed64
  then show ?thesis using assms(3) pb_read_once_left
    by (fastforce simp: call_decoder_table returns_def pb_dec_fixed64_def pb_decode_fixed64_def pb_read_def
        split: prod.splits option.splits)
qed (use assms(2) in \<open>simp_all add: pb_types\<close>)

section \<open>Substreams of any input\<close>

lemma within_trans: "within s t \<Longrightarrow> within t u \<Longrightarrow> within s u"
  by simp

text \<open>A substream that is closed after reads that its length accounts for leaves the parent well formed.\<close>

lemma substream_any:
  assumes "is_ok s" and "pb_make_string_substream io s = (r, t)"
  shows "r = None \<Longrightarrow> within s t"
    and "r = Some sub \<Longrightarrow> is_ok sub \<and> is_bytes_left sub < is_bytes_left s \<and> within s t \<and> is_source sub = is_source t \<and>
           is_bytes_left t + is_bytes_left sub < is_bytes_left s \<and> is_bytes_left t + is_bytes_left sub \<le> length (is_source t) \<and>
           is_bytes_left t + is_bytes_left sub + length (is_source s) \<le> is_bytes_left s + length (is_source t)"
proof -
  obtain len u where u: "pb_decode_varint32 io s = (len, u)" by force
  note st = staysD [OF stays_varint32 u assms(1)]
  show "r = None \<Longrightarrow> within s t"
    using assms(2) u st by (cases len) (auto simp: pb_make_string_substream_def split: if_splits)
  show "is_ok sub \<and> is_bytes_left sub < is_bytes_left s \<and> within s t \<and> is_source sub = is_source t \<and>
           is_bytes_left t + is_bytes_left sub < is_bytes_left s \<and> is_bytes_left t + is_bytes_left sub \<le> length (is_source t) \<and>
           is_bytes_left t + is_bytes_left sub + length (is_source s) \<le> is_bytes_left s + length (is_source t)"
    if "r = Some sub"
  proof (cases len)
    case (Some n)
    then have "is_bytes_left u < is_bytes_left s" using varint32_left u by simp
    then show ?thesis
      using assms(2) u st Some that
      by (auto simp: pb_make_string_substream_def is_ok_def is_consume_def split: if_splits)
  qed (use assms(2) u that in \<open>simp add: pb_make_string_substream_def\<close>)
qed

lemma close_any:
  assumes s: "is_ok s" and mk: "pb_make_string_substream io s = (Some sub, t)" and w: "within sub sub'"
  obtains s' where "pb_close_string_substream io t sub' = (True, s')" and "within s s'" and "is_bytes_left s' < is_bytes_left s"
proof -
  note any = substream_any(2) [OF s mk refl]
  let ?u = "is_advance (is_bytes_left sub') sub'"
  let ?s' = "t\<lparr>is_source := is_source ?u, is_state := is_state ?u, is_errmsg := is_errmsg ?u\<rparr>"
  have ok: "is_ok sub'" using w by simp
  have cl: "pb_close_string_substream io t sub' = (True, ?s')"
  proof (cases "is_bytes_left sub' = 0")
    case True
    then show ?thesis by (simp add: pb_close_string_substream_def)
  next
    case False
    then show ?thesis using ok by (simp add: pb_close_string_substream_def pb_read_buffer)
  qed
  have len: "length (is_source ?u) = length (is_source sub') - is_bytes_left sub'" by (simp add: is_advance_def)
  have "is_bytes_left sub' \<le> length (is_source sub')" using ok by (simp add: is_ok_def)
  then have "is_bytes_left t \<le> length (is_source ?u)"
    and "is_bytes_left t + length (is_source s) \<le> is_bytes_left s + length (is_source ?u)"
    using any w len by auto
  then have "within s ?s'" using any by (auto simp: is_ok_def)
  moreover have "is_bytes_left ?s' < is_bytes_left s" using any by simp
  ultimately show thesis using that cl by blast
qed

section \<open>Static fields\<close>

lemma item_in_field:
  assumes "PB_HTYPE (pf_type (fs ! i)) = PB_HTYPE_REPEATED" and "j < pf_array_size (fs ! i)"
  shows "region (dest + fld_off fs i + pf_data_size (fs ! i) * j) (pf_data_size (fs ! i)) \<subseteq> fld_region fs dest i"
proof -
  have "pf_data_size (fs ! i) * j + pf_data_size (fs ! i) \<le> pf_data_size (fs ! i) * pf_array_size (fs ! i)"
    using assms(2) by (metis Suc_leI mult_Suc_right mult_le_mono2 add.commute)
  then show ?thesis using assms(1) by (auto simp: fld_extent_def)
qed

text \<open>The outcome of a step for the field at \<open>i\<close>.\<close>

definition step_ok ::
    "nat set \<Rightarrow> pb_field_iter_t \<Rightarrow> 's pb_istream \<Rightarrow> 'h pb_mem \<Rightarrow> ('s, 'h) pb_field_result \<Rightarrow> bool" where
  "step_ok A iter s m r \<longleftrightarrow>
     (\<exists>ok s' m'. r = Some (ok, s', iter, m') \<and> within s s' \<and> changes A m m')"

lemma step_okI: "r = Some (ok, s', iter, m') \<Longrightarrow> within s s' \<Longrightarrow> changes A m m' \<Longrightarrow> step_ok A iter s m r"
  by (auto simp: step_ok_def)

lemma step_ok_after: "step_ok A iter s m' r \<Longrightarrow> changes A m m' \<Longrightarrow> step_ok A iter s m r"
  unfolding step_ok_def by (blast intro: changes_trans)

lemma step_ok_call:
  assumes "field_kept b func f" and "is_ok s" and "is_bytes_left s \<le> b" and "region p (pf_data_size f) \<subseteq> A"
  shows "step_ok A iter s m (with_iter iter (func f s p m))"
proof -
  obtain ok s' m' where r: "func f s p m = Some (ok, s', m')" "changes (region p (pf_data_size f)) m m'" "within s s'"
    by (rule field_keptD [OF assms(1-3)])
  show ?thesis
    by (rule step_okI [OF _ r(3) changes_mono [OF r(2) assms(4)]]) (simp add: with_iter_def r(1))
qed

lemma static_packed_ok:
  assumes p: "plain_table (Suc e) tables fs k" and i: "i < length fs"
    and rep: "PB_HTYPE (pf_type (fs ! i)) = PB_HTYPE_REPEATED" and pk: "PB_LTYPE (pf_type (fs ! i)) \<le> PB_LTYPE_LAST_PACKABLE"
  shows "is_ok s \<Longrightarrow> is_bytes_left s < n \<Longrightarrow>
    step_ok (footprint fs dest i) (iter_at 0 fs dest i) s m (static_packed_loop n (call_decoder env sub) s (iter_at 0 fs dest i) m)"
proof (induction n arbitrary: s m)
  case (Suc n)
  let ?f = "fs ! i" and ?iter = "iter_at 0 fs dest i" and ?func = "call_decoder env sub"
  from p i have t: "tags_ok fs" and o: "offsets_ok fs" and ty: "plain_type ?f" by (auto elim: plain_tableE)
  have nsub: "PB_LTYPE (pf_type ?f) \<noteq> PB_LTYPE_SUBMESSAGE" using pk by (auto simp: pb_types)
  note at = read_size_at [OF t o i, where c = 0 and dest = dest]
  let ?count = "read_size ?iter m"
  let ?p = "dest + fld_off fs i + pf_data_size ?f * ?count"
  show ?case
  proof (cases "is_bytes_left s > 0 \<and> ?count < pf_array_size ?f")
    case False
    then show ?thesis using t i Suc.prems(1) by (auto simp: Let_def intro!: step_okI)
  next
    case True
    have fk: "field_kept (is_bytes_left s) ?func ?f" using call_decoder_kept [OF ty] nsub by blast
    obtain ok s' m' where r: "?func ?f s ?p m = Some (ok, s', m')" "changes (region ?p (pf_data_size ?f)) m m'" "within s s'"
      by (rule field_keptD [OF fk Suc.prems(1) order_refl, of ?p m])
    have ch: "changes (footprint fs dest i) m m'"
      by (rule changes_mono [OF r(2)]) (use item_in_field [OF rep, of ?count dest] True in \<open>simp add: footprint_def le_supI1\<close>)
    show ?thesis
    proof (cases ok)
      case False
      then show ?thesis using True t i r(1,3) ch by (simp add: Let_def at) (rule step_okI; simp)
    next
      case okay: True
      have left: "is_bytes_left s' < is_bytes_left s" using r(1) okay by (intro packable_eats [OF ty pk]) simp
      let ?m = "store_int 4 (read_size ?iter m' + 1) (dest + fld_cell fs i) m'"
      have loop: "static_packed_loop (Suc n) ?func s ?iter m = static_packed_loop n ?func s' ?iter ?m"
        using True t i r(1) okay by (simp add: Let_def at)
      have "changes (footprint fs dest i) m ?m"
        by (rule changes_trans [OF ch]) (use rep plain_cell_width [OF ty] in \<open>auto simp: footprint_def intro!: changes_store_int\<close>)
      moreover have "step_ok (footprint fs dest i) ?iter s' ?m (static_packed_loop n ?func s' ?iter ?m)"
        using Suc.IH [of s' ?m] r(3) left Suc.prems(2) by simp
      ultimately show ?thesis
        unfolding loop using r(3) changes_trans by (fastforce simp: step_ok_def)
    qed
  qed
qed simp

lemma decode_static_ok:
  assumes p: "plain_table (Suc e) (de_fields env) fs k" and i: "i < length fs"
    and sub: "PB_LTYPE (pf_type (fs ! i)) = PB_LTYPE_SUBMESSAGE \<Longrightarrow> field_kept b sub (fs ! i)"
    and s: "is_ok s" "is_bytes_left s \<le> b" and n: "is_bytes_left s \<le> n" "2 * e \<le> n"
  shows "step_ok (footprint fs dest i) (iter_at 0 fs dest i) s m (decode_static_field n env sub s wt (iter_at 0 fs dest i) m)"
proof -
  let ?f = "fs ! i" and ?iter = "iter_at 0 fs dest i" and ?func = "call_decoder env sub" and ?A = "footprint fs dest i"
  let ?p = "dest + fld_off fs i" and ?c = "dest + fld_cell fs i"
  from p i have t: "tags_ok fs" and o: "offsets_ok fs" and ty: "plain_type ?f"
    and pt: "PB_LTYPE (pf_type ?f) = PB_LTYPE_SUBMESSAGE \<Longrightarrow> plain_table e (de_fields env) (de_fields env (pf_ptr ?f)) (pf_data_size ?f)"
    by (auto elim: plain_tableE)
  note at = read_size_at [OF t o i, where c = 0 and dest = dest]
  have fk: "field_kept b ?func ?f" using call_decoder_kept [OF ty] sub by blast
  have fld: "it_field ?iter = ?f" using t i by simp
  have A: "cell_region fs dest i \<subseteq> ?A" "fld_region fs dest i \<subseteq> ?A" by (simp_all add: footprint_def)
  show ?thesis
  proof (cases rule: htype_cases [of "pf_type ?f"])
    case required
    then show ?thesis
      using step_ok_call [OF fk s, where p = ?p and A = ?A] A by (simp add: decode_static_field_def Let_def fld at fld_extent_def)
  next
    case optional
    let ?m = "if pf_size_offset ?f \<noteq> 0 then store_int 1 1 ?c m else m"
    have "changes ?A m ?m" using optional A by (auto simp: cell_width_def intro!: changes_store_int)
    moreover have "step_ok ?A ?iter s ?m (with_iter ?iter (?func ?f s ?p ?m))"
      using step_ok_call [OF fk s, where p = ?p and A = ?A] A optional by (simp add: fld_extent_def)
    ultimately have "step_ok ?A ?iter s m (with_iter ?iter (?func ?f s ?p ?m))" by (rule step_ok_after [rotated])
    then show ?thesis
      using optional by (cases "pf_size_offset ?f = 0") (simp_all add: decode_static_field_def Let_def fld at del: One_nat_def)
  next
    case oneof
    let ?m = "store_int 4 (unat (pf_tag ?f)) ?c m"
    have w: "cell_width ?f = 4" using plain_cell_width [OF ty] oneof by simp
    have ext: "fld_extent ?f = pf_data_size ?f" using oneof by (simp add: fld_extent_def)
    have m: "changes ?A m ?m" using A w by (intro changes_store_int) simp
    show ?thesis
    proof (cases "PB_LTYPE (pf_type ?f) = PB_LTYPE_SUBMESSAGE")
      case False
      have "step_ok ?A ?iter s ?m (with_iter ?iter (?func ?f s ?p ?m))"
        using step_ok_call [OF fk s, where p = ?p and A = ?A] A ext by simp
      then show ?thesis using oneof False step_ok_after [OF _ m] by (simp add: decode_static_field_def Let_def fld at)
    next
      case True
      let ?z = "store ?p (replicate (pf_data_size ?f) 0) ?m"
      obtain m' where m': "pb_message_set_to_defaults n (de_fields env) (de_fields env (pf_ptr ?f)) ?p ?z = Some m'"
          "changes (region ?p (pf_data_size ?f)) ?z m'"
        using set_to_defaults [OF pt [OF True] n(2), of ?p ?z] by blast
      have z: "changes ?A ?m ?z" using A ext by (intro changes_store) simp
      have "changes ?A m m'"
        using changes_trans [OF changes_trans [OF m z] changes_mono [OF m'(2)]] A ext by simp
      moreover have "step_ok ?A ?iter s m' (with_iter ?iter (?func ?f s ?p m'))"
        using step_ok_call [OF fk s, where p = ?p and A = ?A] A ext by simp
      ultimately have "step_ok ?A ?iter s m (with_iter ?iter (?func ?f s ?p m'))" by (rule step_ok_after [rotated])
      then show ?thesis using oneof True m'(1) by (simp add: decode_static_field_def Let_def fld at)
    qed
  next
    case repeated
    have w: "cell_width ?f = 4" using plain_cell_width [OF ty] repeated by simp
    show ?thesis
    proof (cases "wt = PB_WT_STRING \<and> PB_LTYPE (pf_type ?f) \<le> PB_LTYPE_LAST_PACKABLE")
      case False
      let ?count = "load_int 4 ?c m"
      let ?m = "store_int 4 (?count + 1) ?c m" and ?q = "?p + pf_data_size ?f * ?count"
      have m: "changes ?A m ?m" using A w by (intro changes_store_int) simp
      have step: "decode_static_field n env sub s wt ?iter m =
          (if ?count \<ge> pf_array_size ?f then Some (False, is_error ''array overflow'' s, ?iter, ?m)
           else with_iter ?iter (?func ?f s ?q ?m))"
        using repeated False by (auto simp: decode_static_field_def Let_def fld at)
      show ?thesis
      proof (cases "?count \<ge> pf_array_size ?f")
        case True
        then show ?thesis unfolding step using s by (simp only: if_True) (rule step_okI [OF refl _ m]; simp)
      next
        case False
        then have "region ?q (pf_data_size ?f) \<subseteq> ?A" using item_in_field [OF repeated, of ?count dest] A by auto
        then have "step_ok ?A ?iter s ?m (with_iter ?iter (?func ?f s ?q ?m))" by (rule step_ok_call [OF fk s])
        then show ?thesis unfolding step using False step_ok_after [OF _ m] by (simp only: if_False)
      qed
    next
      case packed: True
      obtain r u where mk: "pb_make_string_substream (de_read env) s = (r, u)" by force
      show ?thesis
      proof (cases r)
        case None
        then show ?thesis
          using packed repeated mk substream_any(1) [OF s(1) mk] by (auto simp: decode_static_field_def Let_def fld intro: step_okI)
      next
        case (Some ss)
        note mk = mk [unfolded Some]
        note any = substream_any(2) [OF s(1) mk refl]
        have ss: "is_ok ss" "is_bytes_left ss < n" using any n(1) by simp_all
        obtain ok ss' m' where lp: "static_packed_loop n ?func ss ?iter m = Some (ok, ss', ?iter, m')" "within ss ss'"
            "changes ?A m m'"
          using static_packed_ok [OF p i repeated _ ss, of dest m env sub] packed unfolding step_ok_def by blast
        obtain s' where cl: "pb_close_string_substream (de_read env) u ss' = (True, s')" "within s s'"
          using close_any [OF s(1) mk lp(2)] by blast
        have u: "within s (is_error ''array overflow'' u)" using any by simp
        have step: "decode_static_field n env sub s wt ?iter m =
            (if is_bytes_left ss' \<noteq> 0 then Some (False, is_error ''array overflow'' u, ?iter, m') else Some (ok, s', ?iter, m'))"
          unfolding decode_static_field_def Let_def fld using packed repeated
          by (simp add: mk lp(1) cl(1) del: static_packed_loop.simps)
        show ?thesis
        proof (cases "is_bytes_left ss' = 0")
          case True
          then show ?thesis unfolding step by (simp add: step_okI [OF refl cl(2) lp(3)])
        next
          case False
          then show ?thesis unfolding step by (simp add: step_okI [OF refl u lp(3)])
        qed
      qed
    qed
  qed
qed

section \<open>Any field\<close>

lemma find_at:
  assumes p: "plain_table (Suc e) tables fs k" and i: "i < length fs"
  shows "tag \<in> pf_tag ` set fs \<Longrightarrow>
      \<exists>j < length fs. pf_tag (fs ! j) = tag \<and> pb_field_iter_find (iter_at 0 fs dest i) tag = (True, iter_at 0 fs dest j)"
    and "tag \<notin> pf_tag ` set fs \<Longrightarrow> pb_field_iter_find (iter_at 0 fs dest i) tag = (False, iter_at 0 fs dest i)"
    and "find_extension_field (iter_at 0 fs dest i) = (False, iter_at 0 fs dest i)"
    and "j < length fs \<Longrightarrow> pb_field_iter_find (iter_at 0 fs dest i) (pf_tag (fs ! j)) = (True, iter_at 0 fs dest j)"
proof -
  from p have t: "tags_ok fs" and ext: "\<And>j. j < length fs \<Longrightarrow> PB_LTYPE (pf_type (fs ! j)) \<noteq> PB_LTYPE_EXTENSION"
    by (auto elim!: plain_tableE intro!: plain_not_extension)
  note find = iter_find_at [OF t i, where c = 0 and dest = dest]
  show found: "pb_field_iter_find (iter_at 0 fs dest i) (pf_tag (fs ! j)) = (True, iter_at 0 fs dest j)" if "j < length fs" for j
    using find(1) ext that by blast
  show "\<exists>j < length fs. pf_tag (fs ! j) = tag \<and> pb_field_iter_find (iter_at 0 fs dest i) tag = (True, iter_at 0 fs dest j)"
    if "tag \<in> pf_tag ` set fs"
    using that found by (metis (no_types, lifting) image_iff in_set_conv_nth)
  show "pb_field_iter_find (iter_at 0 fs dest i) tag = (False, iter_at 0 fs dest i)" if "tag \<notin> pf_tag ` set fs"
    using find(2) that by blast
  have "\<forall>f \<in> set fs. PB_LTYPE (pf_type f) \<noteq> PB_LTYPE_EXTENSION" using ext by (auto simp: in_set_conv_nth)
  then show "find_extension_field (iter_at 0 fs dest i) = (False, iter_at 0 fs dest i)"
    using find_extension_at [OF t i] by blast
qed

lemma release_union_plain:
  assumes p: "plain_table (Suc e) (de_fields env) fs k" and i: "i < length fs" and n: "2 * e < n" and s: "is_ok s"
  shows "\<exists>ok s'. pb_release_union_field n env s (iter_at 0 fs dest i) m = Some (ok, s', iter_at 0 fs dest i, m) \<and> within s s'"
proof -
  let ?iter = "iter_at 0 fs dest i"
  from p i have t: "tags_ok fs" by (auto elim: plain_tableE)
  note find = find_at [OF p i, where dest = dest]
  consider "read_size ?iter m = 0 \<or> read_size ?iter m = unat (pf_tag (fs ! i))"
    | "read_size ?iter m \<noteq> 0" "read_size ?iter m \<noteq> unat (pf_tag (fs ! i))" "of_nat (read_size ?iter m) \<notin> pf_tag ` set fs"
    | "read_size ?iter m \<noteq> 0" "read_size ?iter m \<noteq> unat (pf_tag (fs ! i))" "of_nat (read_size ?iter m) \<in> pf_tag ` set fs"
    by blast
  then show ?thesis
  proof cases
    case 1
    then have "pb_release_union_field n env s ?iter m = Some (True, s, ?iter, m)"
      using t i by (auto simp: pb_release_union_field_def Let_def)
    then show ?thesis using s by fastforce
  next
    case 2
    then have "pb_release_union_field n env s ?iter m = Some (False, is_error ''invalid union tag'' s, ?iter, m)"
      using t i find(2) by (simp add: pb_release_union_field_def Let_def)
    then show ?thesis using s by fastforce
  next
    case 3
    obtain j where j: "j < length fs" "pb_field_iter_find ?iter (of_nat (read_size ?iter m)) = (True, iter_at 0 fs dest j)"
      using find(1) [OF 3(3)] by blast
    then have "pb_release_union_field n env s ?iter m = Some (True, s, ?iter, m)"
      using 3 t i release_single_plain [OF p n j(1)] find_at(4) [OF p j(1) i]
      by (simp add: pb_release_union_field_def Let_def)
    then show ?thesis using s by fastforce
  qed
qed

lemma decode_field_ok:
  assumes p: "plain_table (Suc e) (de_fields env) fs k" and i: "i < length fs"
    and sub: "PB_LTYPE (pf_type (fs ! i)) = PB_LTYPE_SUBMESSAGE \<Longrightarrow> field_kept b sub (fs ! i)"
    and s: "is_ok s" "is_bytes_left s \<le> b" and n: "is_bytes_left s \<le> n" "2 * e < n"
  shows "step_ok (footprint fs dest i) (iter_at 0 fs dest i) s m (decode_field n env sub s wt (iter_at 0 fs dest i) m)"
proof -
  let ?iter = "iter_at 0 fs dest i"
  from p i have t: "tags_ok fs" and ty: "plain_type (fs ! i)" by (auto elim: plain_tableE)
  have n2: "2 * e \<le> n" using n(2) by simp
  show ?thesis
  proof (cases "PB_HTYPE (pf_type (fs ! i)) = PB_HTYPE_ONEOF")
    case False
    then show ?thesis
      using decode_static_ok [OF p i sub s n(1) n2, of dest m wt] t i plain_static [OF ty] by (simp add: decode_field_def)
  next
    case True
    obtain ok s' where r: "pb_release_union_field n env s ?iter m = Some (ok, s', ?iter, m)" and w: "within s s'"
      using release_union_plain [OF p i n(2) s(1), of dest m] by blast
    show ?thesis
    proof (cases ok)
      case False
      then show ?thesis using True r w t i by (auto simp: decode_field_def intro: step_okI)
    next
      case okay: True
      have "step_ok (footprint fs dest i) ?iter s' m (decode_static_field n env sub s' wt ?iter m)"
        by (rule decode_static_ok [OF p i sub _ _ _ n2]) (use w s n in auto)
      then have "step_ok (footprint fs dest i) ?iter s m (decode_static_field n env sub s' wt ?iter m)"
        using w by (fastforce simp: step_ok_def)
      then show ?thesis using okay True r t i plain_static [OF ty] by (simp add: decode_field_def)
    qed
  qed
qed

section \<open>Skipping\<close>

lemma stays_snd: "stays f \<Longrightarrow> is_ok s \<Longrightarrow> within s (snd (f s))"
  by (simp add: stays_def)

lemma stays_skip_varint: "stays (pb_skip_varint io)"
proof -
  have "is_ok s \<Longrightarrow> pb_skip_varint io s = (r, t) \<Longrightarrow> within s t" for s r t
  proof (induction io s rule: pb_skip_varint.induct)
    case (1 io s)
    obtain x u where u: "pb_read io True 1 s = (x, u)" by force
    note w = staysD [OF stays_read u "1.prems"(1)]
    show ?case
      using "1.prems"(2) w u "1.IH" [OF u [symmetric], of "the x"]
      by (cases x) (fastforce simp: pb_skip_varint.simps [of io s] split: if_splits)+
  qed
  then show ?thesis unfolding stays_def by (metis prod.collapse)
qed

lemma stays_skip_string: "stays (pb_skip_string io)"
proof -
  have "within s (snd (pb_skip_string io s))" if ok: "is_ok s" for s
  proof -
    obtain len u where u: "pb_decode_varint32 io s = (len, u)" by force
    note w = staysD [OF stays_varint32 u ok]
    show ?thesis
    proof (cases len)
      case (Some n)
      obtain r t where rt: "pb_read io False (unat n) u = (r, t)" by force
      have "within u t" using staysD [OF stays_read rt] w by blast
      then show ?thesis using w u rt Some by (simp add: pb_skip_string_def)
    qed (use u w in \<open>simp add: pb_skip_string_def\<close>)
  qed
  then show ?thesis by (simp add: stays_def)
qed

lemma stays_skip_field: "stays (pb_skip_field io wt)"
proof -
  have "within s (snd (pb_skip_field io wt s))" if ok: "is_ok s" for s
  proof -
    have rd: "within s (snd (pb_read io False n s))" for n by (rule stays_snd [OF stays_read ok])
    note st = stays_snd [OF stays_skip_varint ok, of io] stays_snd [OF stays_skip_string ok, of io]
    show ?thesis using rd [of 8] rd [of 4] st ok by (auto simp: pb_skip_field_def split: prod.splits)
  qed
  then show ?thesis by (simp add: stays_def)
qed

lemma stays_tag: "stays (pb_decode_tag io)"
proof -
  have "within s (snd (pb_decode_tag io s))" if ok: "is_ok s" for s
  proof -
    note stays_snd [OF stays_varint32_eof ok, of io]
    then show ?thesis by (auto simp: pb_decode_tag_def split: prod.splits option.splits)
  qed
  then show ?thesis by (simp add: stays_def)
qed

section \<open>The loop over the fields of the input\<close>

text \<open>The invariant of the loop, for a message that started on the stream \<open>s\<close> and the memory \<open>m\<close>.\<close>

definition decoding_ok ::
    "pb_field_t list \<Rightarrow> nat \<Rightarrow> nat \<Rightarrow> 's pb_istream \<Rightarrow> 'h pb_mem \<Rightarrow> ('s, 'h) pb_decoding \<Rightarrow> bool" where
  "decoding_ok fs dest k s m st \<longleftrightarrow>
     (\<exists>i < length fs. dl_iter st = iter_at 0 fs dest i) \<and> within s (dl_stream st) \<and> changes (region dest k) m (dl_mem st) \<and>
     (dl_extension_range_start st = 0 \<or> dl_extension_range_start st = - 1) \<and> dl_fixed_count_field st = None"

lemma enter_plain:
  assumes p: "plain_table (Suc e) tables fs k" and i: "i < length fs" and it: "dl_iter st = iter_at 0 fs dest i"
  shows "enter_fixed_count st = (True, st)"
proof -
  from p i have t: "tags_ok fs" and o: "offsets_ok fs" and ty: "plain_type (fs ! i)" by (auto elim: plain_tableE)
  show ?thesis
    using read_size_at(4,5) [OF t o i, where c = 0 and dest = dest] t i plain_counted [OF ty]
    by (auto simp: enter_fixed_count_def it Let_def)
qed

lemma decode_unknown_plain:
  assumes p: "plain_table (Suc e) tables fs k" and i: "i < length fs" and it: "dl_iter st = iter_at 0 fs dest i"
    and tag: "unat tag < 2 ^ 29" and x: "dl_extension_range_start st = 0 \<or> dl_extension_range_start st = - 1"
  shows "decode_unknown n env sub tag wt st = Some (skip_unknown env wt (st\<lparr>dl_extension_range_start := - 1\<rparr>))"
proof -
  have "\<not> (- 1 :: u32) \<le> tag" using tag by (simp add: word_le_nat_alt unsigned_minus_1_eq_mask mask_eq_exp_minus_1)
  then show ?thesis
    using x find_at(3) [OF p i, of dest] it by (auto simp: decode_unknown_def skip_unknown_def Let_def split: prod.splits)
qed

lemma decode_one_ok:
  assumes p: "plain_table (Suc e) (de_fields env) fs k"
    and sub: "\<And>i. i < length fs \<Longrightarrow> PB_LTYPE (pf_type (fs ! i)) = PB_LTYPE_SUBMESSAGE \<Longrightarrow> field_kept b sub (fs ! i)"
    and inv: "decoding_ok fs dest k s m st" and b: "is_bytes_left (dl_stream st) \<le> b"
    and n: "is_bytes_left (dl_stream st) \<le> Suc n" "2 * e < n"
  shows "\<exists>ctl st'. decode_one n env sub st = Some (ctl, st') \<and> decoding_ok fs dest k s m st' \<and>
    (ctl = Continue \<longrightarrow> is_bytes_left (dl_stream st') < is_bytes_left (dl_stream st))"
proof -
  from p have l: "layout_ok fs k" by (auto elim: plain_tableE)
  obtain i where i: "i < length fs" "dl_iter st = iter_at 0 fs dest i" using inv by (auto simp: decoding_ok_def)
  obtain ok wt tag eof t where tg: "pb_decode_tag (de_read env) (dl_stream st) = ((ok, wt, tag, eof), t)" by (metis prod.collapse)
  have "is_ok (dl_stream st)" using inv by (simp add: decoding_ok_def)
  then have w: "within (dl_stream st) t" by (rule staysD [OF stays_tag tg])
  then have inv': "decoding_ok fs dest k s m (st\<lparr>dl_stream := t\<rparr>)" using inv by (auto simp: decoding_ok_def)
  show ?thesis
  proof (cases ok)
    case False
    then show ?thesis using inv' tg by (simp add: decode_one_def)
  next
    case okay: True
    then have left: "is_bytes_left t < is_bytes_left (dl_stream st)" "unat tag < 2 ^ 29" using pb_tag_left [of "de_read env" "dl_stream st" wt tag eof t] tg by simp_all
    show ?thesis
    proof (cases "tag \<in> pf_tag ` set fs")
      case False
      let ?st = "st\<lparr>dl_stream := t, dl_extension_range_start := - 1\<rparr>"
      obtain r u where sk: "pb_skip_field (de_read env) wt t = (r, u)" by force
      have wu: "within t u" using staysD [OF stays_skip_field sk] w by blast
      have "decode_unknown n env sub tag wt (st\<lparr>dl_stream := t, dl_iter := iter_at 0 fs dest i\<rparr>) =
          Some (if r then Continue else Fail, ?st\<lparr>dl_stream := u\<rparr>)"
        using decode_unknown_plain [OF p i(1), of "st\<lparr>dl_stream := t, dl_iter := iter_at 0 fs dest i\<rparr>" dest tag n env sub wt]
          inv left(2) sk i(2) by (simp add: skip_unknown_def decoding_ok_def)
      moreover have "decoding_ok fs dest k s m (?st\<lparr>dl_stream := u\<rparr>)"
        using inv wu w i by (auto simp: decoding_ok_def)
      ultimately show ?thesis
        using tg okay find_at(2) [OF p i(1) False, of dest] left(1) wu i(2) by (simp add: decode_one_def)
    next
      case True
      obtain j where j: "j < length fs" "pb_field_iter_find (iter_at 0 fs dest i) tag = (True, iter_at 0 fs dest j)"
        using find_at(1) [OF p i(1) True] by blast
      let ?seen = "mark_seen (iter_at 0 fs dest j) (dl_fields_seen st)"
      let ?st = "st\<lparr>dl_stream := t, dl_iter := iter_at 0 fs dest j, dl_fields_seen := ?seen\<rparr>"
      have "step_ok (footprint fs dest j) (iter_at 0 fs dest j) t (dl_mem st)
          (decode_field n env sub t wt (iter_at 0 fs dest j) (dl_mem st))"
        by (rule decode_field_ok [OF p j(1) sub [OF j(1)]]) (use w left b n in auto)
      then obtain r u m' where f: "decode_field n env sub t wt (iter_at 0 fs dest j) (dl_mem st) = Some (r, u, iter_at 0 fs dest j, m')"
          and u: "within t u" "changes (footprint fs dest j) (dl_mem st) m'"
        by (auto simp: step_ok_def)
      have "enter_fixed_count (st\<lparr>dl_stream := t, dl_iter := iter_at 0 fs dest j\<rparr>) = (True, st\<lparr>dl_stream := t, dl_iter := iter_at 0 fs dest j\<rparr>)"
        by (rule enter_plain [OF p j(1)]) simp
      then have "decode_known n env sub wt (st\<lparr>dl_stream := t, dl_iter := iter_at 0 fs dest j\<rparr>) =
          Some (if r then Continue else Fail, ?st\<lparr>dl_stream := u, dl_mem := m'\<rparr>)"
        using f by (simp add: decode_known_def Let_def)
      moreover have "decoding_ok fs dest k s m (?st\<lparr>dl_stream := u, dl_mem := m'\<rparr>)"
        using inv u w j(1) changes_trans [OF _ changes_mono [OF u(2) footprint_within [OF l j(1)]]]
        by (auto simp: decoding_ok_def)
      ultimately show ?thesis using tg okay j(2) i(2) left(1) u(1) by (simp add: decode_one_def)
    qed
  qed
qed

lemma decode_loop_ok:
  assumes p: "plain_table (Suc e) (de_fields env) fs k"
    and sub: "\<And>i. i < length fs \<Longrightarrow> PB_LTYPE (pf_type (fs ! i)) = PB_LTYPE_SUBMESSAGE \<Longrightarrow> field_kept b sub (fs ! i)"
  shows "decoding_ok fs dest k s m st \<Longrightarrow> is_bytes_left (dl_stream st) \<le> b \<Longrightarrow> is_bytes_left (dl_stream st) + 2 * e + 1 < n \<Longrightarrow>
    \<exists>ok st'. decode_loop n env sub st = Some (ok, st') \<and> decoding_ok fs dest k s m st'"
proof (induction n arbitrary: st)
  case (Suc n)
  show ?case
  proof (cases "is_bytes_left (dl_stream st) = 0")
    case True
    then show ?thesis using Suc.prems(1) by (intro exI [of _ True] exI [of _ st]) simp
  next
    case False
    have n: "is_bytes_left (dl_stream st) \<le> Suc n" "2 * e < n" using Suc.prems(3) by simp_all
    obtain ctl st' where one: "decode_one n env sub st = Some (ctl, st')" "decoding_ok fs dest k s m st'"
        "ctl = Continue \<longrightarrow> is_bytes_left (dl_stream st') < is_bytes_left (dl_stream st)"
      using decode_one_ok [OF p sub Suc.prems(1,2) n] by blast
    show ?thesis
    proof (cases ctl)
      case Continue
      then have "is_bytes_left (dl_stream st') \<le> b" "is_bytes_left (dl_stream st') + 2 * e + 1 < n"
        using one(3) Suc.prems(2,3) by simp_all
      then show ?thesis using Suc.IH [OF one(2)] False one(1) Continue by simp
    next
      case Break
      then have "decode_loop (Suc n) env sub st = Some (True, st')" using False one(1) by simp
      then show ?thesis using one(2) by blast
    next
      case Fail
      then have "decode_loop (Suc n) env sub st = Some (False, st')" using False one(1) by simp
      then show ?thesis using one(2) by blast
    qed
  qed
qed simp

section \<open>Messages\<close>

text \<open>The outcome of decoding a message.\<close>

definition result_ok :: "nat \<Rightarrow> nat \<Rightarrow> 's pb_istream \<Rightarrow> 'h pb_mem \<Rightarrow> ('s, 'h) pb_result \<Rightarrow> bool" where
  "result_ok dest k s m r \<longleftrightarrow> (\<exists>ok s' m'. r = Some (ok, s', m') \<and> within s s' \<and> changes (region dest k) m m')"

lemma decode_message_ok:
  assumes p: "plain_table (Suc e) (de_fields env) fs k"
    and sub: "\<And>i. i < length fs \<Longrightarrow> PB_LTYPE (pf_type (fs ! i)) = PB_LTYPE_SUBMESSAGE \<Longrightarrow> field_kept (is_bytes_left s) sub (fs ! i)"
    and s: "is_ok s" and n: "is_bytes_left s + 2 * Suc e \<le> n"
  shows "result_ok dest k s m (decode_message n env sub fs s dest m)"
proof -
  from p have t: "tags_ok fs" and ne: "fs \<noteq> []" by (auto elim: plain_tableE)
  have st: "decoding_ok fs dest k s m (start_decoding s fs dest m)"
    using iter_begin_tag [OF t, of 0 dest] ne s by (auto simp: decoding_ok_def start_decoding_def)
  have "\<exists>ok st. decode_loop n env sub (start_decoding s fs dest m) = Some (ok, st) \<and> decoding_ok fs dest k s m st"
  proof (rule decode_loop_ok [OF p _ st])
    show "field_kept (is_bytes_left s) sub (fs ! i)"
      if "i < length fs" "PB_LTYPE (pf_type (fs ! i)) = PB_LTYPE_SUBMESSAGE" for i by (rule sub [OF that])
    show "is_bytes_left (dl_stream (start_decoding s fs dest m)) \<le> is_bytes_left s" by (simp add: start_decoding_def)
    show "is_bytes_left (dl_stream (start_decoding s fs dest m)) + 2 * e + 1 < n" using n by (simp add: start_decoding_def)
  qed
  then obtain ok st where lp: "decode_loop n env sub (start_decoding s fs dest m) = Some (ok, st)" "decoding_ok fs dest k s m st"
    by blast
  have "\<exists>ok' s'. decode_message n env sub fs s dest m = Some (ok', s', dl_mem st) \<and> within s s'"
    using lp by (auto simp: decode_message_def Let_def decoding_ok_def)
  then show ?thesis using lp(2) by (auto simp: result_ok_def decoding_ok_def)
qed

lemma decode_and_release_ok:
  assumes p: "plain_table d (de_fields env) fs k" and n: "2 * d \<le> n"
    and noinit: "\<And>m. result_ok dest k s m (noinit fs s dest m)"
  shows "result_ok dest k s m (decode_and_release n env noinit fs s dest m)"
proof -
  obtain m1 where m1: "pb_message_set_to_defaults n (de_fields env) fs dest m = Some m1" "changes (region dest k) m m1"
    using set_to_defaults [OF p n] by blast
  obtain ok s' m2 where m2: "noinit fs s dest m1 = Some (ok, s', m2)" "within s s'" "changes (region dest k) m1 m2"
    using noinit unfolding result_ok_def by blast
  have "decode_and_release n env noinit fs s dest m = Some (ok, s', m2)"
    using m1(1) m2(1) release_plain [OF p n] by (cases ok) (simp_all add: decode_and_release_def)
  then show ?thesis using m2(2) changes_trans [OF m1(2) m2(3)] by (auto simp: result_ok_def)
qed

lemma submessage_ok:
  assumes p: "plain_table d (de_fields env) (de_fields env (pf_ptr f)) (pf_data_size f)" and f: "pf_ptr f \<noteq> 0"
    and msg: "\<And>dest s m. is_ok s \<Longrightarrow> is_bytes_left s < b \<Longrightarrow>
      result_ok dest (pf_data_size f) s m (decode_message n env (pb_dec_submessage n env) (de_fields env (pf_ptr f)) s dest m)"
    and n: "2 * d \<le> n"
  shows "field_kept b (pb_dec_submessage (Suc n) env) f"
  unfolding field_kept_def
proof (intro allI impI)
  fix s :: "'a pb_istream" and dest and m :: "'b pb_mem"
  assume s: "is_ok s \<and> is_bytes_left s \<le> b"
  obtain r u where mk: "pb_make_string_substream (de_read env) s = (r, u)" by force
  show "\<exists>r. pb_dec_submessage (Suc n) env f s dest m = Some r \<and> kept dest (pf_data_size f) s m r"
  proof (cases r)
    case None
    then show ?thesis using mk s substream_any(1) [of s "de_read env" r u] by (simp add: Let_def kept_def)
  next
    case (Some ss)
    note mk = mk [unfolded Some]
    note any = substream_any(2) [OF _ mk refl]
    have ss: "is_ok ss" "is_bytes_left ss < b" using any s by auto
    let ?noinit = "decode_message n env (pb_dec_submessage n env)"
    have "result_ok dest (pf_data_size f) ss m
        (if PB_HTYPE (pf_type f) = PB_HTYPE_REPEATED
         then decode_and_release n env ?noinit (de_fields env (pf_ptr f)) ss dest m
         else ?noinit (de_fields env (pf_ptr f)) ss dest m)"
      using msg [OF ss] decode_and_release_ok [OF p n, of dest ss ?noinit m] by simp
    then obtain ok ss' m' where d: "(if PB_HTYPE (pf_type f) = PB_HTYPE_REPEATED
         then decode_and_release n env ?noinit (de_fields env (pf_ptr f)) ss dest m
         else ?noinit (de_fields env (pf_ptr f)) ss dest m) = Some (ok, ss', m')" "within ss ss'" "changes (region dest (pf_data_size f)) m m'"
      unfolding result_ok_def by blast
    obtain s' where cl: "pb_close_string_substream (de_read env) u ss' = (True, s')" "within s s'"
      using close_any [OF _ mk d(2)] s by blast
    have "pb_dec_submessage (Suc n) env f s dest m = Some (ok, s', m')"
      using mk f d(1) cl(1) by (simp add: Let_def)
    then show ?thesis using cl(2) d(3) by (simp add: kept_def)
  qed
qed

lemma message_ok:
  "plain_table d (de_fields env) fs k \<Longrightarrow> is_ok s \<Longrightarrow> is_bytes_left s + 2 * d \<le> n \<Longrightarrow>
   result_ok dest k s m (decode_message n env (pb_dec_submessage n env) fs s dest m)"
proof (induction d arbitrary: fs k n s dest m)
  case (Suc e)
  obtain n' where n: "n = Suc n'" using Suc.prems(3) by (cases n) auto
  have "field_kept (is_bytes_left s) (pb_dec_submessage n env) (fs ! i)"
    if i: "i < length fs" and l: "PB_LTYPE (pf_type (fs ! i)) = PB_LTYPE_SUBMESSAGE" for i
    unfolding n
  proof (rule submessage_ok)
    have pi: "plain_type (fs ! i)" "plain_table e (de_fields env) (de_fields env (pf_ptr (fs ! i))) (pf_data_size (fs ! i))"
      using Suc.prems(1) i l by (auto elim: plain_tableE)
    then show "plain_table e (de_fields env) (de_fields env (pf_ptr (fs ! i))) (pf_data_size (fs ! i))" by simp
    show "pf_ptr (fs ! i) \<noteq> 0" using pi(1) l by (cases rule: plain_ltype) (auto simp: pb_types)
    show "2 * e \<le> n'" using Suc.prems(3) n by simp
    show "result_ok dest (pf_data_size (fs ! i)) t m
        (decode_message n' env (pb_dec_submessage n' env) (de_fields env (pf_ptr (fs ! i))) t dest m)"
      if "is_ok t" "is_bytes_left t < is_bytes_left s" for dest t m
      by (rule Suc.IH [OF pi(2) that(1)]) (use that(2) Suc.prems(3) n in simp)
  qed
  then show ?case using decode_message_ok [OF Suc.prems(1) _ Suc.prems(2,3)] by blast
qed (simp add: plain_table.simps)

end
