(* ===== verification/PbMessage.thy ===== *)
theory PbMessage
  imports PbDecodeSpec PbEncodeMsg
begin

text \<open>
  What a structure of static fields means: the message that it holds (\<open>msg_value\<close>, the list of values of
  every field), the wire format of a message (\<open>msg_wire\<close>), and the messages that a structure can hold
  (\<open>msg_ok\<close>). The nesting is bounded as in \<open>plain_table\<close>.
\<close>

text \<open>The value of an item: the bytes of a scalar field in memory, of a string without its terminator, of a
  bytes field without its size; or the values of the fields of a submessage.\<close>

datatype pb_val = PVal "u8 list" | PMsg "pb_val list list"

definition is_packable :: "pb_field_t \<Rightarrow> bool" where
  "is_packable f \<longleftrightarrow> PB_LTYPE (pf_type f) \<le> PB_LTYPE_LAST_PACKABLE"

definition payload :: "pb_field_t \<Rightarrow> nat \<Rightarrow> 'h pb_mem \<Rightarrow> u8 list" where
  "payload f p m =
     (let l = PB_LTYPE (pf_type f) in
      if l = PB_LTYPE_BOOL then [if pm_byte m p = 0 then 0 else 1]
      else if l = PB_LTYPE_BYTES then load (p + 4) (load_int 4 p m) m
      else if l = PB_LTYPE_STRING then load p (string_scan (pf_data_size f) 0 p m) m
      else load p (pf_data_size f) m)"

definition item_value ::
    "(pb_field_t \<Rightarrow> nat \<Rightarrow> 'h pb_mem \<Rightarrow> pb_val list list) \<Rightarrow> pb_field_t \<Rightarrow> nat \<Rightarrow> 'h pb_mem \<Rightarrow> pb_val" where
  "item_value sub f p m = (if PB_LTYPE (pf_type f) = PB_LTYPE_SUBMESSAGE then PMsg (sub f p m) else PVal (payload f p m))"

text \<open>A field without a has-flag is present unless it has its default value; a fixed-length bytes field always is.\<close>

definition val_default :: "pb_field_t \<Rightarrow> pb_val \<Rightarrow> bool" where
  "val_default f v =
     (case v of
        PMsg vs \<Rightarrow> False
      | PVal bs \<Rightarrow>
          let l = PB_LTYPE (pf_type f) in
          if l = PB_LTYPE_BYTES \<or> l = PB_LTYPE_STRING then bs = []
          else l \<noteq> PB_LTYPE_FIXED_LENGTH_BYTES \<and> list_all (\<lambda>b. b = 0) bs)"

definition field_value ::
    "(pb_field_t \<Rightarrow> nat \<Rightarrow> 'h pb_mem \<Rightarrow> pb_val list list) \<Rightarrow> pb_field_t \<Rightarrow> nat \<Rightarrow> nat \<Rightarrow> 'h pb_mem \<Rightarrow> pb_val list" where
  "field_value sub f p c m =
     (let h = PB_HTYPE (pf_type f); v = item_value sub f p m in
      if h = PB_HTYPE_REQUIRED then [v]
      else if h = PB_HTYPE_OPTIONAL
      then if pf_size_offset f \<noteq> 0 then if pm_byte m c \<noteq> 0 then [v] else []
           else if val_default f v then [] else [v]
      else if h = PB_HTYPE_REPEATED then map (\<lambda>j. item_value sub f (p + j * pf_data_size f) m) [0..<load_int 4 c m]
      else if load_int 4 c m = unat (pf_tag f) then [v] else [])"

fun msg_value :: "nat \<Rightarrow> (nat \<Rightarrow> pb_field_t list) \<Rightarrow> pb_field_t list \<Rightarrow> nat \<Rightarrow> 'h pb_mem \<Rightarrow> pb_val list list" where
  "msg_value 0 tables fs dest m = []"
| "msg_value (Suc d) tables fs dest m =
     map (\<lambda>i. field_value (\<lambda>f p m. msg_value d tables (tables (pf_ptr f)) p m) (fs ! i) (dest + fld_off fs i) (dest + fld_cell fs i) m)
       [0..<length fs]"

section \<open>The wire format of messages\<close>

definition payload_wire :: "pb_field_t \<Rightarrow> u8 list \<Rightarrow> u8 list" where
  "payload_wire f bs =
     (let l = PB_LTYPE (pf_type f) in
      if l = PB_LTYPE_BOOL then leb (if bs = [0] then 0 else 1)
      else if l = PB_LTYPE_VARINT then leb (unat (signed_val bs))
      else if l = PB_LTYPE_UVARINT then leb (le_val bs)
      else if l = PB_LTYPE_SVARINT then leb (unat (zigzag (signed_val bs)))
      else if l = PB_LTYPE_FIXED32 then fixed32_bytes (of_nat (le_val bs))
      else if l = PB_LTYPE_FIXED64 then fixed64_bytes (of_nat (le_val bs))
      else leb (length bs) @ bs)"

definition item_wire :: "(pb_field_t \<Rightarrow> pb_val list list \<Rightarrow> u8 list) \<Rightarrow> pb_field_t \<Rightarrow> pb_val \<Rightarrow> u8 list" where
  "item_wire sub f v = (case v of PVal bs \<Rightarrow> payload_wire f bs | PMsg vs \<Rightarrow> leb (length (sub f vs)) @ sub f vs)"

definition field_wire_type :: "pb_field_t \<Rightarrow> pb_wire_type_t" where
  "field_wire_type f =
     (let l = PB_LTYPE (pf_type f) in
      if l = PB_LTYPE_FIXED32 then PB_WT_32BIT else if l = PB_LTYPE_FIXED64 then PB_WT_64BIT
      else if is_packable f then PB_WT_VARINT else PB_WT_STRING)"

definition tag_wire :: "pb_wire_type_t \<Rightarrow> pb_field_t \<Rightarrow> u8 list" where
  "tag_wire wt f = leb (pb_tag_number (wt, pf_tag f))"

definition items_wire :: "(pb_field_t \<Rightarrow> pb_val list list \<Rightarrow> u8 list) \<Rightarrow> pb_field_t \<Rightarrow> pb_val list \<Rightarrow> u8 list" where
  "items_wire sub f vs = concat (map (item_wire sub f) vs)"

definition field_wire :: "(pb_field_t \<Rightarrow> pb_val list list \<Rightarrow> u8 list) \<Rightarrow> pb_field_t \<Rightarrow> pb_val list \<Rightarrow> u8 list" where
  "field_wire sub f vs =
     (if PB_HTYPE (pf_type f) = PB_HTYPE_REPEATED \<and> is_packable f
      then if vs = [] then []
           else tag_wire PB_WT_STRING f @ leb (length (items_wire sub f vs)) @ items_wire sub f vs
      else concat (map (\<lambda>v. tag_wire (field_wire_type f) f @ item_wire sub f v) vs))"

fun msg_wire :: "nat \<Rightarrow> (nat \<Rightarrow> pb_field_t list) \<Rightarrow> pb_field_t list \<Rightarrow> pb_val list list \<Rightarrow> u8 list" where
  "msg_wire 0 tables fs vss = []"
| "msg_wire (Suc d) tables fs vss =
     concat (map (\<lambda>i. field_wire (\<lambda>f. msg_wire d tables (tables (pf_ptr f))) (fs ! i) (vss ! i)) [0..<length fs])"

section \<open>Messages that fit a structure\<close>

definition value_ok ::
    "(pb_field_t \<Rightarrow> pb_val list list \<Rightarrow> u8 list) \<Rightarrow> (pb_field_t \<Rightarrow> pb_val list list \<Rightarrow> bool) \<Rightarrow> pb_field_t \<Rightarrow> pb_val \<Rightarrow> bool" where
  "value_ok wire sub f v =
     (let l = PB_LTYPE (pf_type f); n = pf_data_size f in
      case v of
        PMsg vs \<Rightarrow> l = PB_LTYPE_SUBMESSAGE \<and> sub f vs \<and> length (wire f vs) < 2 ^ 32
      | PVal bs \<Rightarrow>
          l \<noteq> PB_LTYPE_SUBMESSAGE \<and>
          (if l = PB_LTYPE_BOOL then bs = [0] \<or> bs = [1]
           else if l = PB_LTYPE_BYTES then 4 + length bs \<le> n
           else if l = PB_LTYPE_STRING then list_all (\<lambda>b. b \<noteq> 0) bs \<and> length bs < n
           else length bs = n))"

definition field_ok ::
    "(pb_field_t \<Rightarrow> pb_val list list \<Rightarrow> u8 list) \<Rightarrow> (pb_field_t \<Rightarrow> pb_val list list \<Rightarrow> bool) \<Rightarrow> pb_field_t \<Rightarrow> pb_val list \<Rightarrow> bool" where
  "field_ok wire sub f vs \<longleftrightarrow>
     (let h = PB_HTYPE (pf_type f) in
      list_all (value_ok wire sub f) vs \<and>
      (if h = PB_HTYPE_REQUIRED then length vs = 1
       else if h = PB_HTYPE_REPEATED
       then length vs \<le> pf_array_size f \<and> (is_packable f \<longrightarrow> length (items_wire wire f vs) < 2 ^ 32)
       else length vs \<le> 1 \<and>
            (h = PB_HTYPE_OPTIONAL \<and> pf_size_offset f = 0 \<longrightarrow>
               list_all (\<lambda>v. \<not> val_default f v) vs \<and> (PB_LTYPE (pf_type f) = PB_LTYPE_FIXED_LENGTH_BYTES \<longrightarrow> vs \<noteq> []))))"

fun msg_ok :: "nat \<Rightarrow> (nat \<Rightarrow> pb_field_t list) \<Rightarrow> pb_field_t list \<Rightarrow> pb_val list list \<Rightarrow> bool" where
  "msg_ok 0 tables fs vss = False"
| "msg_ok (Suc d) tables fs vss \<longleftrightarrow>
     length vss = length fs \<and>
     list_all (\<lambda>i. field_ok (\<lambda>f. msg_wire d tables (tables (pf_ptr f))) (\<lambda>f. msg_ok d tables (tables (pf_ptr f))) (fs ! i) (vss ! i) \<and>
                    list_all (\<lambda>j. j = i \<or> \<not> same_oneof fs i j \<or> vss ! i = [] \<or> vss ! j = []) [0..<length fs]) [0..<length fs]"

text \<open>Tags that fit the wire format, and optional submessages that have a has-flag.\<close>

fun wire_table :: "nat \<Rightarrow> (nat \<Rightarrow> pb_field_t list) \<Rightarrow> pb_field_t list \<Rightarrow> bool" where
  "wire_table 0 tables fs = False"
| "wire_table (Suc d) tables fs =
     list_all (\<lambda>f. unat (pf_tag f) < 2 ^ 29 \<and>
        (PB_LTYPE (pf_type f) = PB_LTYPE_SUBMESSAGE \<longrightarrow>
           wire_table d tables (tables (pf_ptr f)) \<and> (PB_HTYPE (pf_type f) = PB_HTYPE_OPTIONAL \<longrightarrow> pf_size_offset f \<noteq> 0))) fs"

declare msg_value.simps [simp del] msg_wire.simps [simp del] msg_ok.simps [simp del] wire_table.simps [simp del]

abbreviation sub_value :: "nat \<Rightarrow> (nat \<Rightarrow> pb_field_t list) \<Rightarrow> pb_field_t \<Rightarrow> nat \<Rightarrow> 'h pb_mem \<Rightarrow> pb_val list list" where
  "sub_value d tables f p m \<equiv> msg_value d tables (tables (pf_ptr f)) p m"

abbreviation sub_wire :: "nat \<Rightarrow> (nat \<Rightarrow> pb_field_t list) \<Rightarrow> pb_field_t \<Rightarrow> pb_val list list \<Rightarrow> u8 list" where
  "sub_wire d tables f \<equiv> msg_wire d tables (tables (pf_ptr f))"

abbreviation sub_ok :: "nat \<Rightarrow> (nat \<Rightarrow> pb_field_t list) \<Rightarrow> pb_field_t \<Rightarrow> pb_val list list \<Rightarrow> bool" where
  "sub_ok d tables f \<equiv> msg_ok d tables (tables (pf_ptr f))"

abbreviation value_at :: "nat \<Rightarrow> (nat \<Rightarrow> pb_field_t list) \<Rightarrow> pb_field_t list \<Rightarrow> nat \<Rightarrow> nat \<Rightarrow> 'h pb_mem \<Rightarrow> pb_val list" where
  "value_at d tables fs dest i m \<equiv> field_value (sub_value d tables) (fs ! i) (dest + fld_off fs i) (dest + fld_cell fs i) m"

lemma nth_msg_value: "i < length fs \<Longrightarrow> msg_value (Suc d) tables fs dest m ! i = value_at d tables fs dest i m"
  by (simp add: msg_value.simps)

lemma length_msg_value [simp]: "length (msg_value (Suc d) tables fs dest m) = length fs"
  by (simp add: msg_value.simps)

end
