(* ===== verification/PbEncodeSpec.thy ===== *)
theory PbEncodeSpec
  imports PbMessage
begin

text \<open>
  What the message encoder writes: the wire format of the value of the structure, to a buffer that is
  large enough; the sizing stream counts the same bytes.
\<close>

section \<open>Operations that may not return\<close>

text \<open>As \<open>emits\<close>, on streams without an error: a submessage resets the message of its stream.\<close>

definition buffer_ready :: "'o pb_ostream \<Rightarrow> bool" where
  "buffer_ready s \<longleftrightarrow> os_ok s \<and> os_errmsg s = None"

definition sizing_ready :: "'o pb_ostream \<Rightarrow> bool" where
  "sizing_ready s \<longleftrightarrow> os_callback s = NoCallback \<and> os_bytes_written s < 2 ^ 64"

definition refused :: "'o pb_ostream \<Rightarrow> 'o pb_eresult \<Rightarrow> bool" where
  "refused s r \<longleftrightarrow> (\<exists>t. r = Some (False, t) \<and> os_ok t \<and> os_max_size t = os_max_size s \<and> os_errmsg t \<noteq> None)"

definition e_emits :: "('o pb_ostream \<Rightarrow> 'o pb_eresult) \<Rightarrow> u8 list \<Rightarrow> bool" where
  "e_emits g out \<longleftrightarrow>
     (\<forall>s. buffer_ready s \<longrightarrow>
        (if os_bytes_written s + length out \<le> os_max_size s then g s = Some (True, os_append out s) else refused s (g s))) \<and>
     (\<forall>s. sizing_ready s \<longrightarrow> g s = Some (True, s\<lparr>os_bytes_written := szadd (os_bytes_written s) (length out)\<rparr>))"

lemma e_emitsI:
  assumes "\<And>s. buffer_ready s \<Longrightarrow> os_bytes_written s + length out \<le> os_max_size s \<Longrightarrow> g s = Some (True, os_append out s)"
    and "\<And>s. buffer_ready s \<Longrightarrow> os_max_size s < os_bytes_written s + length out \<Longrightarrow> refused s (g s)"
    and "\<And>s. sizing_ready s \<Longrightarrow> g s = Some (True, s\<lparr>os_bytes_written := szadd (os_bytes_written s) (length out)\<rparr>)"
  shows "e_emits g out"
  using assms by (simp add: e_emits_def)

lemma e_emitsD:
  assumes "e_emits g out"
  shows "buffer_ready s \<Longrightarrow> os_bytes_written s + length out \<le> os_max_size s \<Longrightarrow> g s = Some (True, os_append out s)"
    and "buffer_ready s \<Longrightarrow> os_max_size s < os_bytes_written s + length out \<Longrightarrow> refused s (g s)"
    and "sizing_ready s \<Longrightarrow> g s = Some (True, s\<lparr>os_bytes_written := szadd (os_bytes_written s) (length out)\<rparr>)"
  using assms unfolding e_emits_def by (metis, metis not_le, blast)

lemma e_emits_lift:
  assumes "emits f out"
  shows "e_emits (e_lift f) out"
  by (rule e_emitsI) (use assms in \<open>auto simp: emits_def e_lift_def buffer_ready_def sizing_ready_def refused_def prod_eq_iff\<close>)

lemma append_ready: "buffer_ready s \<Longrightarrow> os_bytes_written s + length out \<le> os_max_size s \<Longrightarrow> buffer_ready (os_append out s)"
  by (simp add: buffer_ready_def os_append_ok) (simp add: os_append_def)

lemma sized_ready: "sizing_ready s \<Longrightarrow> sizing_ready (s\<lparr>os_bytes_written := szadd (os_bytes_written s) n\<rparr>)"
  using szadd_bound by (simp add: sizing_ready_def)

lemma e_emits_skip: "e_emits (\<lambda>s. Some (True, s)) []"
  by (rule e_emitsI) (auto simp: os_append_def buffer_ready_def os_ok_def sizing_ready_def)

lemma e_emits_and:
  assumes f: "e_emits f a" and g: "e_emits g b"
  shows "e_emits (e_and f g) (a @ b)"
proof (rule e_emitsI)
  fix s :: "'a pb_ostream"
  assume r: "buffer_ready s" and fits: "os_bytes_written s + length (a @ b) \<le> os_max_size s"
  then have fa: "os_bytes_written s + length a \<le> os_max_size s" by simp
  show "e_and f g s = Some (True, os_append (a @ b) s)"
    using e_emitsD(1) [OF f r fa] e_emitsD(1) [OF g append_ready [OF r fa]] fits
    by (simp add: e_and_def os_append_append)
next
  fix s :: "'a pb_ostream"
  assume r: "buffer_ready s" and over: "os_max_size s < os_bytes_written s + length (a @ b)"
  show "refused s (e_and f g s)"
  proof (cases "os_bytes_written s + length a \<le> os_max_size s")
    case True
    then show ?thesis
      using e_emitsD(1) [OF f r True] e_emitsD(2) [OF g append_ready [OF r True]] over
      by (simp add: e_and_def refused_def)
  next
    case False
    then show ?thesis using e_emitsD(2) [OF f r] by (auto simp: e_and_def refused_def)
  qed
next
  fix s :: "'a pb_ostream" assume r: "sizing_ready s"
  show "e_and f g s = Some (True, s\<lparr>os_bytes_written := szadd (os_bytes_written s) (length (a @ b))\<rparr>)"
    using e_emitsD(3) [OF f r] e_emitsD(3) [OF g sized_ready [OF r]] by (simp add: e_and_def szadd_assoc)
qed

lemma seq_steps_emits:
  "(\<And>j. j \<in> set js \<Longrightarrow> e_emits (body j) (w j)) \<Longrightarrow> e_emits (seq_steps body js) (concat (map w js))"
proof (induction js)
  case Nil
  have "seq_steps body [] = (\<lambda>s. Some (True, s))" by (rule ext) simp
  then show ?case using e_emits_skip by simp
next
  case (Cons j js)
  have "seq_steps body (j # js) = e_and (body j) (seq_steps body js)" by (rule ext) (simp add: e_and_def split: option.splits prod.splits bool.splits)
  then show ?case using e_emits_and [OF Cons.prems [of j] Cons.IH] Cons.prems by simp
qed

lemma encode_items_emits:
  "(\<And>j. j < n \<Longrightarrow> e_emits (func (p + j * k)) (w j)) \<Longrightarrow> e_emits (encode_items func k n p) (concat (map w [0..<n]))"
proof (induction n arbitrary: p w)
  case 0
  have "encode_items func k 0 p = (\<lambda>s. Some (True, s))" by (rule ext) simp
  then show ?case using e_emits_skip by simp
next
  case (Suc n)
  have "encode_items func k (Suc n) p = e_and (func p) (encode_items func k n (p + k))" by (rule ext) simp
  moreover have "e_emits (func p) (w 0)" using Suc.prems [of 0] by simp
  moreover have "e_emits (encode_items func k n (p + k)) (concat (map (\<lambda>j. w (Suc j)) [0..<n]))"
    by (rule Suc.IH) (use Suc.prems in \<open>force simp: add.assoc\<close>)
  moreover have "concat (map w [0..<Suc n]) = w 0 @ concat (map (\<lambda>j. w (Suc j)) [0..<n])"
    by (simp add: upt_conv_Cons map_Suc_upt [symmetric] comp_def del: upt_Suc)
  ultimately show ?case using e_emits_and by metis
qed

text \<open>The sizing stream of the code counts what is emitted.\<close>

lemma sizing_count:
  assumes "e_emits g out" and "length out < 2 ^ 64"
  shows "g (sizing_stream env) = Some (True, (sizing_stream env)\<lparr>os_bytes_written := length out\<rparr>)"
  using e_emitsD(3) [OF assms(1), of "sizing_stream env"] assms(2) by (simp add: sizing_ready_def sizing_stream_def)

section \<open>Items\<close>

lemma call_encoder_table:
  "PB_LTYPE (pf_type f) = PB_LTYPE_BOOL \<Longrightarrow> call_encoder env sub f p m = e_lift (pb_enc_bool (ee_write env) f p m)"
  "PB_LTYPE (pf_type f) = PB_LTYPE_VARINT \<Longrightarrow> call_encoder env sub f p m = e_lift (pb_enc_varint (ee_write env) f p m)"
  "PB_LTYPE (pf_type f) = PB_LTYPE_UVARINT \<Longrightarrow> call_encoder env sub f p m = e_lift (pb_enc_uvarint (ee_write env) f p m)"
  "PB_LTYPE (pf_type f) = PB_LTYPE_SVARINT \<Longrightarrow> call_encoder env sub f p m = e_lift (pb_enc_svarint (ee_write env) f p m)"
  "PB_LTYPE (pf_type f) = PB_LTYPE_FIXED32 \<Longrightarrow> call_encoder env sub f p m = e_lift (pb_enc_fixed32 (ee_write env) f p m)"
  "PB_LTYPE (pf_type f) = PB_LTYPE_FIXED64 \<Longrightarrow> call_encoder env sub f p m = e_lift (pb_enc_fixed64 (ee_write env) f p m)"
  "PB_LTYPE (pf_type f) = PB_LTYPE_BYTES \<Longrightarrow> call_encoder env sub f p m = e_lift (pb_enc_bytes (ee_write env) f p m)"
  "PB_LTYPE (pf_type f) = PB_LTYPE_STRING \<Longrightarrow> call_encoder env sub f p m = e_lift (pb_enc_string (ee_write env) f p m)"
  "PB_LTYPE (pf_type f) = PB_LTYPE_SUBMESSAGE \<Longrightarrow> call_encoder env sub f p m = sub f p m"
  "PB_LTYPE (pf_type f) = PB_LTYPE_FIXED_LENGTH_BYTES \<Longrightarrow>
     call_encoder env sub f p m = e_lift (pb_enc_fixed_length_bytes (ee_write env) f p m)"
  by (rule ext, simp add: call_encoder_def PB_ENCODERS_def Let_def pb_types)+

lemma string_scan_ge: "n \<le> string_scan max_size n p m"
proof (induction max_size n p m rule: string_scan.induct)
  case (1 max_size n p m)
  then show ?case
    by (cases "n < max_size"; cases "pm_byte m p = 0") (simp_all add: string_scan.simps [of max_size n p m])
qed

lemma string_scan_stopped:
  assumes "string_scan max_size n p m < max_size"
  shows "pm_byte m (p + (string_scan max_size n p m - n)) = 0"
  using assms
proof (induction max_size n p m rule: string_scan.induct)
  case (1 max_size n p m)
  show ?case
  proof (cases "n < max_size \<and> pm_byte m p \<noteq> 0")
    case True
    then have scan: "string_scan max_size n p m = string_scan max_size (n + 1) (p + 1) m" by (simp add: string_scan.simps)
    obtain k where k: "string_scan max_size (n + 1) (p + 1) m = n + 1 + k"
      using string_scan_ge [of "n + 1" max_size "p + 1" m] le_Suc_ex by blast
    show ?thesis using "1.IH" [OF True] "1.prems" unfolding scan k by simp
  next
    case False
    then have "string_scan max_size n p m = n" by (simp add: string_scan.simps)
    then show ?thesis using False "1.prems" by simp
  qed
qed

lemma payload_string:
  assumes l: "PB_LTYPE (pf_type f) = PB_LTYPE_STRING" and len: "length (payload f p m) < pf_data_size f"
  shows "load p (length (payload f p m) + 1) m = payload f p m @ [0]"
proof -
  let ?n = "string_scan (pf_data_size f) 0 p m"
  have pl: "payload f p m = load p ?n m" using l by (simp add: payload_def pb_types)
  then have "?n < pf_data_size f" using len by simp
  then have "pm_byte m (p + ?n) = 0" using string_scan_stopped [of "pf_data_size f" 0 p m] by simp
  then show ?thesis unfolding pl by (simp add: load_add load_Suc del: add_Suc_right)
qed

lemma plain_not_sub: "value_ok wire ok f (PVal bs) \<Longrightarrow> PB_LTYPE (pf_type f) \<noteq> PB_LTYPE_SUBMESSAGE"
  by (simp add: value_ok_def Let_def)

lemma item_emits:
  assumes ty: "plain_type f" and p: "p \<noteq> 0" and v: "value_ok wire ok f (item_value val f p m)"
    and sub: "PB_LTYPE (pf_type f) = PB_LTYPE_SUBMESSAGE \<Longrightarrow> e_emits (sub f p m) (item_wire wire f (PMsg (val f p m)))"
  shows "e_emits (call_encoder env sub f p m) (item_wire wire f (item_value val f p m))"
proof -
  let ?l = "PB_LTYPE (pf_type f)" and ?io = "ee_write env"
  have static: "PB_ATYPE (pf_type f) = PB_ATYPE_STATIC" by (rule plain_static [OF ty])
  have small: "pf_data_size f < 2 ^ 32" using plain_bounds [OF ty] by simp
  show ?thesis
    using ty
  proof (cases rule: plain_ltype)
    case bool
    have "payload_wire f (payload f p m) = leb (if load p 1 m = [0] then 0 else 1)"
      using bool by (simp add: payload_wire_def payload_def load_Suc)
    then show ?thesis
      using e_emits_lift [OF bool_field(1), of ?io f p m] bool
      by (simp add: call_encoder_table item_value_def item_wire_def pb_types)
  next
    case int
    have ns: "?l \<noteq> PB_LTYPE_SUBMESSAGE" using int by (auto simp: pb_types)
    have pl: "payload f p m = load p (pf_data_size f) m" using int by (auto simp: payload_def pb_types)
    consider "?l = PB_LTYPE_VARINT" | "?l = PB_LTYPE_UVARINT" | "?l = PB_LTYPE_SVARINT" using int(1) by auto
    then show ?thesis
    proof cases
      case 1
      then show ?thesis
        using e_emits_lift [OF varint_field(1) [OF int(2)], of ?io p m] ns pl
        by (simp add: call_encoder_table item_value_def item_wire_def payload_wire_def pb_types)
    next
      case 2
      then show ?thesis
        using e_emits_lift [OF uvarint_field(1) [OF int(2)], of ?io p m] ns pl
        by (simp add: call_encoder_table item_value_def item_wire_def payload_wire_def pb_types)
    next
      case 3
      then show ?thesis
        using e_emits_lift [OF svarint_field(1) [OF int(2)], of ?io p m] ns pl
        by (simp add: call_encoder_table item_value_def item_wire_def payload_wire_def pb_types)
    qed
  next
    case fixed32
    then show ?thesis
      using e_emits_lift [OF fixed32_field(1), of ?io f p m]
      by (simp add: call_encoder_table item_value_def item_wire_def payload_wire_def payload_def pb_types)
  next
    case fixed64
    then show ?thesis
      using e_emits_lift [OF fixed64_field(1), of ?io f p m]
      by (simp add: call_encoder_table item_value_def item_wire_def payload_wire_def payload_def pb_types)
  next
    case bytes
    let ?n = "load_int 4 p m"
    have pl: "payload f p m = load (p + 4) ?n m" using bytes by (simp add: payload_def pb_types)
    have iv: "item_value val f p m = PVal (payload f p m)" using bytes by (simp add: item_value_def pb_types)
    have fits: "4 + length (payload f p m) \<le> pf_data_size f" using v bytes unfolding iv by (simp add: value_ok_def pb_types)
    have "load p 4 m = le_bytes 4 ?n" by (simp add: load_int_def le_bytes_le_val)
    then have "load p (4 + length (payload f p m)) m = le_bytes 4 (length (payload f p m)) @ payload f p m"
      by (simp add: load_add pl)
    then show ?thesis
      using e_emits_lift [OF bytes_field(1) [OF static fits small p], of m ?io] bytes iv
      by (simp add: call_encoder_table item_wire_def payload_wire_def pb_types)
  next
    case string
    have iv: "item_value val f p m = PVal (payload f p m)" using string by (simp add: item_value_def pb_types)
    have ok: "0 \<notin> set (payload f p m)" "length (payload f p m) < pf_data_size f"
      using v string unfolding iv by (auto simp: value_ok_def pb_types list_all_iff)
    show ?thesis
      using e_emits_lift [OF string_field(1) [OF static ok small p payload_string [OF string(1) ok(2)]], of ?io] string iv
      by (simp add: call_encoder_table item_wire_def payload_wire_def pb_types)
  next
    case submessage
    then show ?thesis using sub by (simp add: call_encoder_table item_value_def)
  next
    case fixed_length
    then show ?thesis
      using e_emits_lift [OF fixed_length_bytes_field(1) [OF small], of ?io p m]
      by (simp add: call_encoder_table item_value_def item_wire_def payload_wire_def payload_def pb_types)
  qed
qed

lemma tag_emits:
  assumes "plain_type f" and "pf_tag f \<noteq> 0" and "unat (pf_tag f) < 2 ^ 29"
  shows "emits (pb_encode_tag_for_field io f) (tag_wire (field_wire_type f) f)"
    and "emits (pb_encode_tag io PB_WT_STRING (pf_tag f)) (tag_wire PB_WT_STRING f)"
    and "tag_valid (field_wire_type f, pf_tag f)" and "tag_valid (PB_WT_STRING, pf_tag f)"
proof -
  have wt: "field_wire_type f \<in> {PB_WT_VARINT, PB_WT_64BIT, PB_WT_STRING, PB_WT_32BIT}"
    by (simp add: field_wire_type_def Let_def)
  have nz: "0 < unat (pf_tag f)" using assms(2) by (simp add: unat_gt_0)
  have valid: "tag_valid (wt, pf_tag f)" if "wt \<in> {PB_WT_VARINT, PB_WT_64BIT, PB_WT_STRING, PB_WT_32BIT}" for wt
    using that nz assms(3) by (auto simp: tag_valid_def pb_tag_number_def PB_WT_VARINT_def PB_WT_64BIT_def PB_WT_STRING_def PB_WT_32BIT_def)
  then show v: "tag_valid (field_wire_type f, pf_tag f)" "tag_valid (PB_WT_STRING, pf_tag f)" using wt by simp_all
  show "emits (pb_encode_tag io PB_WT_STRING (pf_tag f)) (tag_wire PB_WT_STRING f)"
    using emits_pb_tag [OF v(2), of io] by (simp add: tag_wire_def)
  have "pb_encode_tag_for_field io f = pb_encode_tag io (field_wire_type f) (pf_tag f)"
    using assms(1)
    by (intro ext, cases rule: plain_ltype)
      (auto simp: pb_encode_tag_for_field_def field_wire_type_def is_packable_def pb_types)
  then show "emits (pb_encode_tag_for_field io f) (tag_wire (field_wire_type f) f)"
    using emits_pb_tag [OF v(1), of io] by (simp add: tag_wire_def)
qed

section \<open>Sizes in front\<close>

text \<open>What follows the size \<open>n\<close>: the bytes, or their number on a sizing stream.\<close>

lemma sized_body_emits:
  assumes n: "length out = n" "n < 2 ^ 32"
    and body: "\<And>s. buffer_ready s \<Longrightarrow> if os_bytes_written s + n \<le> os_max_size s then g s = Some (True, os_append out s) else refused s (g s)"
  shows "e_emits (\<lambda>s. if os_callback s = NoCallback then e_lift (pb_write_sizing n) s else g s) out"
proof (rule e_emitsI)
  fix s :: "'a pb_ostream"
  assume r: "buffer_ready s"
  then have b: "os_callback s \<noteq> NoCallback" by (simp add: buffer_ready_def os_ok_def)
  show "os_bytes_written s + length out \<le> os_max_size s \<Longrightarrow>
      (if os_callback s = NoCallback then e_lift (pb_write_sizing n) s else g s) = Some (True, os_append out s)"
    using body [OF r] b n by simp
  show "os_max_size s < os_bytes_written s + length out \<Longrightarrow>
      refused s (if os_callback s = NoCallback then e_lift (pb_write_sizing n) s else g s)"
    using body [OF r] b n by simp
next
  fix s :: "'a pb_ostream"
  assume "sizing_ready s"
  then show "(if os_callback s = NoCallback then e_lift (pb_write_sizing n) s else g s) =
      Some (True, s\<lparr>os_bytes_written := szadd (os_bytes_written s) (length out)\<rparr>)"
    using n by (simp add: sizing_ready_def e_lift_def pb_write_sizing_def)
qed

lemma size_emits: "n < 2 ^ 32 \<Longrightarrow> e_emits (e_lift (pb_encode_varint io (of_nat n))) (leb n)"
  using e_emits_lift [OF emits_varint [of io "of_nat n"]] by (simp add: unat_of_nat)

lemma with_size_emits:
  assumes w: "e_emits (encode fs src m) w" and n: "length w < 2 ^ 32"
  shows "e_emits (encode_with_size env encode fs src m) (leb (length w) @ w)"
proof -
  let ?n = "length w"
  let ?sub = "\<lambda>s. \<lparr>os_callback = os_callback s, os_out = [], os_state = os_state s, os_max_size = ?n, os_bytes_written = 0,
      os_errmsg = None\<rparr> :: 'a pb_ostream"
  let ?inner = "\<lambda>s. if szadd (os_bytes_written s) ?n > os_max_size s then Some (False, os_error ''stream full'' s)
      else (case encode fs src m (?sub s) of
              None \<Rightarrow> None
            | Some (status, substream) \<Rightarrow>
                let s = s\<lparr>os_bytes_written := szadd (os_bytes_written s) (os_bytes_written substream),
                          os_out := os_out s @ os_out substream, os_state := os_state substream,
                          os_errmsg := os_errmsg substream\<rparr>
                in if os_bytes_written substream \<noteq> ?n then Some (False, os_error ''submsg size changed'' s)
                   else Some (status, s))"
  obtain ss where ss: "encode fs src m (sizing_stream env) = Some (True, ss)" "os_bytes_written ss = ?n"
    using sizing_count [OF w, of env] n by simp
  have split: "encode_with_size env encode fs src m =
      e_and (e_lift (pb_encode_varint (ee_write env) (of_nat ?n)))
        (\<lambda>s. if os_callback s = NoCallback then e_lift (pb_write_sizing ?n) s else ?inner s)"
    by (intro ext) (simp add: encode_with_size_def Let_def ss(1), simp only: ss(2))
  have body: "if os_bytes_written s + ?n \<le> os_max_size s then ?inner s = Some (True, os_append w s) else refused s (?inner s)"
    if r: "buffer_ready s" for s :: "'a pb_ostream"
  proof -
    have z: "szadd (os_bytes_written s) ?n = os_bytes_written s + ?n" using r n by (simp add: buffer_ready_def os_ok_def)
    show ?thesis
    proof (cases "os_bytes_written s + ?n \<le> os_max_size s")
      case True
      have "buffer_ready (?sub s)" using r n by (simp add: buffer_ready_def os_ok_def)
      then have "encode fs src m (?sub s) = Some (True, os_append w (?sub s))" by (rule e_emitsD(1) [OF w]) simp
      then show ?thesis using True r z by (cases s) (simp add: os_append_def Let_def buffer_ready_def)
    next
      case False
      then show ?thesis using r z by (simp add: refused_def os_error_def buffer_ready_def os_ok_def)
    qed
  qed
  show ?thesis unfolding split by (rule e_emits_and [OF size_emits [OF n] sized_body_emits [OF refl n body]])
qed

section \<open>Arrays\<close>

lemma length_items_fixed:
  assumes "\<And>v. v \<in> set vs \<Longrightarrow> length (item_wire wire f v) = n"
  shows "length (items_wire wire f vs) = n * length vs"
  using assms by (induction vs) (simp_all add: items_wire_def)

lemma e_emits_ready_cong: "e_emits g out \<Longrightarrow> (\<And>s. f s = g s) \<Longrightarrow> e_emits f out"
  by (simp add: e_emits_def)

lemma packed_size_exact:
  assumes items: "e_emits (encode_items (\<lambda>p. func f p m) (pf_data_size f) count pData) (items_wire wire f vs)"
    and vs: "length vs = count" "\<And>v. v \<in> set vs \<Longrightarrow> value_ok wire ok f v"
    and n: "length (items_wire wire f vs) < 2 ^ 32"
  shows "packed_size env func f pData count m = Some (True, length (items_wire wire f vs))"
proof -
  have fixed: "length (item_wire wire f v) = (if PB_LTYPE (pf_type f) = PB_LTYPE_FIXED32 then 4 else 8)"
    if "v \<in> set vs" "PB_LTYPE (pf_type f) = PB_LTYPE_FIXED32 \<or> PB_LTYPE (pf_type f) = PB_LTYPE_FIXED64" for v
    using vs(2) [OF that(1)] that(2)
    by (elim disjE; cases v) (simp_all add: value_ok_def item_wire_def payload_wire_def pb_types)
  have sz: "encode_items (\<lambda>p. func f p m) (pf_data_size f) count pData (sizing_stream env) =
      Some (True, (sizing_stream env)\<lparr>os_bytes_written := length (items_wire wire f vs)\<rparr>)"
    by (rule sizing_count [OF items]) (use n in simp)
  consider "PB_LTYPE (pf_type f) = PB_LTYPE_FIXED32" | "PB_LTYPE (pf_type f) = PB_LTYPE_FIXED64"
    | "PB_LTYPE (pf_type f) \<noteq> PB_LTYPE_FIXED32" "PB_LTYPE (pf_type f) \<noteq> PB_LTYPE_FIXED64" by blast
  then show ?thesis
  proof cases
    case 1
    then have "length (items_wire wire f vs) = 4 * length vs" using fixed by (intro length_items_fixed) simp
    then show ?thesis using 1 vs(1) by (simp add: packed_size_def)
  next
    case 2
    then have "length (items_wire wire f vs) = 8 * length vs" using fixed by (intro length_items_fixed) (simp add: pb_types)
    then show ?thesis using 2 vs(1) by (simp add: packed_size_def pb_types)
  next
    case 3
    then show ?thesis using sz by (simp add: packed_size_def)
  qed
qed

lemma array_emits:
  assumes ty: "plain_type f" and h: "PB_HTYPE (pf_type f) = PB_HTYPE_REPEATED" and tag: "pf_tag f \<noteq> 0" "unat (pf_tag f) < 2 ^ 29"
    and ok: "field_ok wire ok f vs"
    and vs: "vs = map (\<lambda>j. item_value val f (p + j * pf_data_size f) m) [0..<count]"
    and item: "\<And>j. j < count \<Longrightarrow> e_emits (func f (p + j * pf_data_size f) m) (item_wire wire f (vs ! j))"
  shows "e_emits (encode_array env func f p count m) (field_wire wire f vs)"
proof (cases "count = 0")
  case True
  then have "encode_array env func f p count m = (\<lambda>s. Some (True, s))" by (intro ext) (simp add: encode_array_def Let_def)
  then show ?thesis using True vs by (simp add: field_wire_def e_emits_skip)
next
  case False
  have static: "PB_ATYPE (pf_type f) = PB_ATYPE_STATIC" by (rule plain_static [OF ty])
  have len: "length vs = count" and vs_ok: "\<And>v. v \<in> set vs \<Longrightarrow> value_ok wire ok f v"
    and fits: "count \<le> pf_array_size f"
    and small: "is_packable f \<Longrightarrow> length (items_wire wire f vs) < 2 ^ 32"
    using ok h vs by (auto simp: field_ok_def list_all_iff)
  have nth: "vs = map (\<lambda>j. vs ! j) [0..<count]" using len by (simp add: list_eq_iff_nth_eq)
  show ?thesis
  proof (cases "is_packable f")
    case True
    have iw: "items_wire wire f vs = concat (map (\<lambda>j. item_wire wire f (vs ! j)) [0..<count])"
      unfolding items_wire_def by (subst nth) (simp add: comp_def)
    have items: "e_emits (encode_items (\<lambda>p. func f p m) (pf_data_size f) count p) (items_wire wire f vs)"
      unfolding iw by (rule encode_items_emits) (rule item)
    let ?n = "length (items_wire wire f vs)"
    note n = small [OF True]
    have ps: "packed_size env func f p count m = Some (True, ?n)"
      using packed_size_exact [where func = func and f = f and m = m and pData = p and wire = wire and vs = vs] items len vs_ok n by blast
    have body: "e_emits (\<lambda>s. if os_callback s = NoCallback then e_lift (pb_write_sizing ?n) s
        else encode_items (\<lambda>p. func f p m) (pf_data_size f) count p s) (items_wire wire f vs)"
      by (rule sized_body_emits [OF refl n]) (use e_emitsD(1,2) [OF items] in simp)
    have eq: "encode_array env func f p count m = e_and (e_lift (pb_encode_tag (ee_write env) PB_WT_STRING (pf_tag f)))
        (e_and (e_lift (pb_encode_varint (ee_write env) (of_nat ?n)))
          (\<lambda>s. if os_callback s = NoCallback then e_lift (pb_write_sizing ?n) s
                else encode_items (\<lambda>p. func f p m) (pf_data_size f) count p s))"
      using True False static fits static_not_pointer by (intro ext) (simp add: encode_array_def Let_def is_packable_def ps)
    have "vs \<noteq> []" using len False by auto
    then have wire: "field_wire wire f vs = tag_wire PB_WT_STRING f @ leb ?n @ items_wire wire f vs"
      using True h by (simp add: field_wire_def)
    show ?thesis
      unfolding eq wire by (intro e_emits_and e_emits_lift tag_emits(2) [OF ty tag] size_emits n body)
  next
    case npack: False
    let ?w = "\<lambda>j. tag_wire (field_wire_type f) f @ item_wire wire f (vs ! j)"
    have "field_wire wire f vs = concat (map ?w [0..<count])"
      unfolding field_wire_def using npack by (subst (2) nth) (simp add: comp_def)
    moreover have "e_emits (encode_items (\<lambda>p. e_and (e_lift (pb_encode_tag_for_field (ee_write env) f)) (func f p m)) (pf_data_size f) count p)
        (concat (map ?w [0..<count]))"
      by (rule encode_items_emits) (intro e_emits_and e_emits_lift tag_emits(1) [OF ty tag] item)
    moreover have "encode_array env func f p count m =
        encode_items (\<lambda>p. e_and (e_lift (pb_encode_tag_for_field (ee_write env) f)) (func f p m)) (pf_data_size f) count p"
      using npack False static fits static_not_pointer by (intro ext) (simp add: encode_array_def Let_def is_packable_def)
    ultimately show ?thesis by simp
  qed
qed

section \<open>Fields\<close>

declare pb_check_proto3_default_value.simps [simp del]

lemma load_Nil [simp]: "load a n m = [] \<longleftrightarrow> n = 0"
  by (metis length_load length_0_conv)

lemma check_default:
  assumes ty: "plain_type f" and h: "PB_HTYPE (pf_type f) = PB_HTYPE_OPTIONAL" and imp: "pf_size_offset f = 0"
    and ns: "PB_LTYPE (pf_type f) \<noteq> PB_LTYPE_SUBMESSAGE"
  shows "pb_check_proto3_default_value (Suc n) tables f p m = Some (val_default f (item_value val f p m))"
proof -
  note check = pb_check_proto3_default_value.simps(2) [of n tables f p m]
  have static: "PB_ATYPE (pf_type f) = PB_ATYPE_STATIC" by (rule plain_static [OF ty])
  show ?thesis
    using ty
  proof (cases rule: plain_ltype)
    case string
    then have "string_scan (pf_data_size f) 0 p m = 0 \<longleftrightarrow> pm_byte m p = 0"
      using string_scan_ge [of 1 "pf_data_size f" "p + 1" m] by (auto simp: string_scan.simps [of "pf_data_size f" 0])
    then show ?thesis
      using string h imp static by (simp add: check Let_def val_default_def item_value_def payload_def pb_types)
  next
    case bool
    then show ?thesis
      using h imp static by (simp add: check Let_def val_default_def item_value_def payload_def pb_types load_Suc)
  next
    case submessage
    then show ?thesis using ns by simp
  next
    case int
    then show ?thesis
      using h imp static by (auto simp: check Let_def val_default_def item_value_def payload_def pb_types)
  next
    case bytes
    then show ?thesis
      using h imp static by (simp add: check Let_def val_default_def item_value_def payload_def pb_types)
  qed (use h imp static in \<open>simp_all add: check Let_def val_default_def item_value_def payload_def pb_types\<close>)
qed

lemma basic_field_emits:
  assumes ty: "plain_type f" and tag: "pf_tag f \<noteq> 0" "unat (pf_tag f) < 2 ^ 29" and p: "p \<noteq> 0" and n: "0 < n"
    and imp: "PB_LTYPE (pf_type f) = PB_LTYPE_SUBMESSAGE \<Longrightarrow> PB_HTYPE (pf_type f) = PB_HTYPE_OPTIONAL \<Longrightarrow> pf_size_offset f \<noteq> 0"
    and c: "ptr_add p (pf_size_offset f) = c"
    and ok: "field_ok wire ok f (field_value val f p c m)"
    and sub: "\<And>q. PB_LTYPE (pf_type f) = PB_LTYPE_SUBMESSAGE \<Longrightarrow> q \<noteq> 0 \<Longrightarrow> value_ok wire ok f (PMsg (val f q m)) \<Longrightarrow>
      e_emits (sub f q m) (item_wire wire f (PMsg (val f q m)))"
  shows "e_emits (encode_basic_field n env sub f p m) (field_wire wire f (field_value val f p c m))"
proof -
  let ?func = "call_encoder env sub" and ?io = "ee_write env" and ?v = "item_value val f p m"
  let ?one = "e_and (e_lift (pb_encode_tag_for_field ?io f)) (?func f p m)"
  have static: "PB_ATYPE (pf_type f) = PB_ATYPE_STATIC" by (rule plain_static [OF ty])
  have item: "e_emits (?func f q m) (item_wire wire f (item_value val f q m))"
    if "value_ok wire ok f (item_value val f q m)" "q \<noteq> 0" for q
    using item_emits [OF ty that(2,1)] sub [of q] that by (auto simp: item_value_def)
  have one: "e_emits ?one (tag_wire (field_wire_type f) f @ item_wire wire f ?v)" if "value_ok wire ok f ?v"
    by (intro e_emits_and e_emits_lift tag_emits(1) [OF ty tag] item [OF that p])
  have vok: "v \<in> set (field_value val f p c m) \<Longrightarrow> value_ok wire ok f v" for v
    using ok by (auto simp: field_ok_def Let_def list_all_iff)
  have has: "safe_read_bool c m \<longleftrightarrow> pm_byte m c \<noteq> 0" by (simp add: safe_read_bool_def load_Suc)
  show ?thesis
  proof (cases rule: htype_cases [of "pf_type f"])
    case required
    then have "encode_basic_field n env sub f p m = ?one"
      using static static_not_pointer p by (intro ext) (simp add: encode_basic_field_def Let_def)
    moreover have "field_value val f p c m = [?v]" using required by (simp add: field_value_def)
    ultimately show ?thesis using one vok required by (simp add: field_wire_def)
  next
    case optional
    have "(if pf_size_offset f = 0 then map_option Not (pb_check_proto3_default_value n (ee_fields env) f p m) else Some True) =
        Some (pf_size_offset f = 0 \<longrightarrow> \<not> val_default f ?v)"
      using check_default [OF ty optional, of "n - 1" "ee_fields env" p m val] imp optional n by auto
    then have "encode_basic_field n env sub f p m =
        (if (if pf_size_offset f \<noteq> 0 then pm_byte m c \<noteq> 0 else \<not> val_default f ?v) then ?one else (\<lambda>s. Some (True, s)))"
      using optional static static_not_pointer c has by (intro ext) (simp add: encode_basic_field_def Let_def)
    moreover have "field_value val f p c m =
        (if (if pf_size_offset f \<noteq> 0 then pm_byte m c \<noteq> 0 else \<not> val_default f ?v) then [?v] else [])"
      using optional by (simp add: field_value_def)
    ultimately show ?thesis using one vok optional by (auto simp: field_wire_def e_emits_skip)
  next
    case oneof
    have explicit: "pf_size_offset f \<noteq> 0" using plain_counted [OF ty] oneof by simp
    have "encode_basic_field n env sub f p m =
        (if load_int 4 c m = unat (pf_tag f) then ?one else (\<lambda>s. Some (True, s)))"
      using oneof static static_not_pointer c explicit by (intro ext) (simp add: encode_basic_field_def Let_def)
    moreover have "field_value val f p c m = (if load_int 4 c m = unat (pf_tag f) then [?v] else [])"
      using oneof by (simp add: field_value_def)
    ultimately show ?thesis using one vok oneof by (auto simp: field_wire_def e_emits_skip)
  next
    case repeated
    have explicit: "pf_size_offset f \<noteq> 0" using plain_counted [OF ty] repeated by simp
    let ?count = "load_int 4 c m"
    have "encode_basic_field n env sub f p m = encode_array env ?func f p ?count m"
      using repeated static static_not_pointer c explicit by (intro ext) (simp add: encode_basic_field_def Let_def)
    moreover have vs: "field_value val f p c m = map (\<lambda>j. item_value val f (p + j * pf_data_size f) m) [0..<?count]"
      using repeated by (simp add: field_value_def)
    have "e_emits (encode_array env ?func f p ?count m) (field_wire wire f (field_value val f p c m))"
    proof (rule array_emits [OF ty repeated tag ok vs])
      fix j assume j: "j < ?count"
      have "item_value val f (p + j * pf_data_size f) m \<in> set (field_value val f p c m)" using j unfolding vs by auto
      from item [OF vok [OF this]] show "e_emits (?func f (p + j * pf_data_size f) m) (item_wire wire f (field_value val f p c m ! j))"
        using p j unfolding vs by simp
    qed
    ultimately show ?thesis by simp
  qed
qed

section \<open>Messages\<close>

lemma message_emits:
  assumes p: "plain_table (Suc d) (ee_fields env) fs k" and w: "wire_table (Suc d) (ee_fields env) fs"
    and ok: "msg_ok (Suc d) (ee_fields env) fs (msg_value (Suc d) (ee_fields env) fs src m)" and src: "src \<noteq> 0" and n: "0 < n"
    and sub: "\<And>i q. i < length fs \<Longrightarrow> PB_LTYPE (pf_type (fs ! i)) = PB_LTYPE_SUBMESSAGE \<Longrightarrow> q \<noteq> 0 \<Longrightarrow>
      value_ok (sub_wire d (ee_fields env)) (sub_ok d (ee_fields env)) (fs ! i) (PMsg (sub_value d (ee_fields env) (fs ! i) q m)) \<Longrightarrow>
      e_emits (sub (fs ! i) q m) (item_wire (sub_wire d (ee_fields env)) (fs ! i) (PMsg (sub_value d (ee_fields env) (fs ! i) q m)))"
  shows "e_emits (encode_message n env sub fs src m) (msg_wire (Suc d) (ee_fields env) fs (msg_value (Suc d) (ee_fields env) fs src m))"
proof -
  let ?t = "ee_fields env"
  let ?vs = "msg_value (Suc d) ?t fs src m"
  from p have t: "tags_ok fs" and o: "offsets_ok fs" and ne: "fs \<noteq> []"
    and ty: "\<And>i. i < length fs \<Longrightarrow> plain_type (fs ! i)" by (auto elim: plain_tableE)
  let ?body = "\<lambda>iter s. if PB_LTYPE (pf_type (it_field iter)) = PB_LTYPE_EXTENSION
      then encode_extension_field n env sub (it_field iter) (it_pData iter) m s
      else encode_field n env sub (it_field iter) (it_pData iter) m s"
  have field: "e_emits (?body (iter_at 0 fs src i)) (field_wire (sub_wire d ?t) (fs ! i) (?vs ! i))" if i: "i < length fs" for i
  proof -
    have "?body (iter_at 0 fs src i) = encode_basic_field n env sub (fs ! i) (src + fld_off fs i) m"
      using i t iter_at_places [OF t o i, of 0 src] plain_static [OF ty [OF i]] plain_not_extension [OF ty [OF i]]
      by (intro ext) (simp add: encode_field_def)
    moreover have fok: "field_ok (sub_wire d ?t) (sub_ok d ?t) (fs ! i) (?vs ! i)"
      using ok i by (simp add: msg_ok.simps list_all_length)
    moreover have "unat (pf_tag (fs ! i)) < 2 ^ 29" "PB_LTYPE (pf_type (fs ! i)) = PB_LTYPE_SUBMESSAGE \<Longrightarrow>
        PB_HTYPE (pf_type (fs ! i)) = PB_HTYPE_OPTIONAL \<Longrightarrow> pf_size_offset (fs ! i) \<noteq> 0"
      using w i by (auto simp: wire_table.simps list_all_length)
    ultimately show ?thesis
      using basic_field_emits [OF ty [OF i] tag_nonzero [OF t i], where p = "src + fld_off fs i" and n = n and
          val = "sub_value d ?t" and m = m and sub = sub and env = env, OF _ _ n _ cell_explicit(2) [OF o i] _ sub [OF i]]
        src unfolding nth_msg_value [OF i] by simp
  qed
  have "e_emits (seq_steps (\<lambda>j. ?body (iter_at 0 fs src j)) [0..<length fs])
      (concat (map (\<lambda>i. field_wire (sub_wire d ?t) (fs ! i) (?vs ! i)) [0..<length fs]))"
    by (rule seq_steps_emits) (rule field, simp)
  moreover have "encode_message n env sub fs src m = seq_steps (\<lambda>j. ?body (iter_at 0 fs src j)) [0..<length fs]"
    using iter_begin_tag [OF t] ne do_fields_at [OF t, of 0 ?body 0 src] by (intro ext) (simp add: encode_message_def)
  ultimately show ?thesis by (simp add: msg_wire.simps)
qed

declare pb_enc_submessage.simps [simp del]

lemma encode_emits:
  "plain_table d (ee_fields env) fs k \<Longrightarrow> wire_table d (ee_fields env) fs \<Longrightarrow>
   msg_ok d (ee_fields env) fs (msg_value d (ee_fields env) fs src m) \<Longrightarrow> src \<noteq> 0 \<Longrightarrow> d \<le> n \<Longrightarrow>
   e_emits (encode_message n env (pb_enc_submessage n env) fs src m) (msg_wire d (ee_fields env) fs (msg_value d (ee_fields env) fs src m))"
proof (induction d arbitrary: fs k n src)
  case (Suc d)
  obtain n' where n: "n = Suc n'" "d \<le> n'" using Suc.prems(5) by (cases n) auto
  have n0: "0 < n" using n by simp
  let ?t = "ee_fields env"
  show ?case
  proof (rule message_emits [OF Suc.prems(1-4) n0])
    fix i q
    assume i: "i < length fs" and l: "PB_LTYPE (pf_type (fs ! i)) = PB_LTYPE_SUBMESSAGE" and q: "q \<noteq> 0"
      and v: "value_ok (sub_wire d ?t) (sub_ok d ?t) (fs ! i) (PMsg (sub_value d ?t (fs ! i) q m))"
    have pt: "plain_type (fs ! i)" "plain_table d ?t (?t (pf_ptr (fs ! i))) (pf_data_size (fs ! i))"
      using Suc.prems(1) i l by (auto elim: plain_tableE)
    have wt: "wire_table d ?t (?t (pf_ptr (fs ! i)))" using Suc.prems(2) i l by (simp add: wire_table.simps list_all_length)
    have ptr: "pf_ptr (fs ! i) \<noteq> 0" using pt(1) l by (cases rule: plain_ltype) (auto simp: pb_types)
    have e: "e_emits (encode_message n' env (pb_enc_submessage n' env) (?t (pf_ptr (fs ! i))) q m)
        (sub_wire d ?t (fs ! i) (sub_value d ?t (fs ! i) q m))"
      by (rule Suc.IH [OF pt(2) wt _ q n(2)]) (use v in \<open>simp add: value_ok_def Let_def\<close>)
    have "e_emits (encode_with_size env (encode_message n' env (pb_enc_submessage n' env)) (?t (pf_ptr (fs ! i))) q m)
        (leb (length (sub_wire d ?t (fs ! i) (sub_value d ?t (fs ! i) q m))) @ sub_wire d ?t (fs ! i) (sub_value d ?t (fs ! i) q m))"
      by (rule with_size_emits [where encode = "encode_message n' env (pb_enc_submessage n' env)", OF e]) (use v in \<open>simp add: value_ok_def Let_def\<close>)
    then show "e_emits (pb_enc_submessage n env (fs ! i) q m)
        (item_wire (sub_wire d ?t) (fs ! i) (PMsg (sub_value d ?t (fs ! i) q m)))"
      by (simp add: item_wire_def) (erule e_emits_ready_cong, simp add: n(1) ptr pb_enc_submessage.simps)
  qed
qed (simp add: plain_table.simps)

end
