(* ===== verification/PbRoundSpec.thy ===== *)
theory PbRoundSpec
  imports PbEncodeSpec
begin

text \<open>
  Decoding of what was encoded: the items, the fields and the messages that the decoder finds in the wire
  format of a message are put into a structure of static fields, whose value is the message again.
\<close>

section \<open>Values depend on their place only\<close>

definition bytes_fit :: "pb_field_t \<Rightarrow> nat \<Rightarrow> 'h pb_mem \<Rightarrow> bool" where
  "bytes_fit f p m \<longleftrightarrow> (PB_LTYPE (pf_type f) = PB_LTYPE_BYTES \<longrightarrow> 4 + load_int 4 p m \<le> pf_data_size f)"

lemma bytes_fitI:
  assumes "plain_type f" and "value_ok wire ok f (item_value val f p m) \<or> val_default f (item_value val f p m)"
  shows "bytes_fit f p m"
  using assms(1)
proof (cases rule: plain_ltype)
  case bytes
  then have v: "item_value val f p m = PVal (load (p + 4) (load_int 4 p m) m)" by (simp add: item_value_def payload_def pb_types)
  show ?thesis
    using assms(2) bytes unfolding v by (auto simp: bytes_fit_def value_ok_def val_default_def pb_types)
qed (auto simp: bytes_fit_def pb_types)

lemma string_scan_frame:
  "(\<And>x. p \<le> x \<Longrightarrow> x < p + (max_size - n) \<Longrightarrow> pm_byte m' x = pm_byte m x) \<Longrightarrow> string_scan max_size n p m' = string_scan max_size n p m"
proof (induction max_size n p m rule: string_scan.induct)
  case (1 max_size n p m)
  show ?case
  proof (cases "n < max_size")
    case True
    then have b: "pm_byte m' p = pm_byte m p" using "1.prems" [of p] by simp
    show ?thesis
    proof (cases "pm_byte m p = 0")
      case False
      have "string_scan max_size (n + 1) (p + 1) m' = string_scan max_size (n + 1) (p + 1) m"
        by (rule "1.IH") (use True False "1.prems" in auto)
      then show ?thesis using True False b by (simp add: string_scan.simps [of max_size n p])
    qed (use b True in \<open>simp add: string_scan.simps [of max_size n p]\<close>)
  qed (simp add: string_scan.simps [of max_size n p])
qed

lemma string_scan_le: "n \<le> max_size \<Longrightarrow> string_scan max_size n p m \<le> max_size"
proof (induction max_size n p m rule: string_scan.induct)
  case (1 max_size n p m)
  show ?case
  proof (cases "n < max_size \<and> pm_byte m p \<noteq> 0")
    case True
    then show ?thesis using "1.IH" by (simp add: string_scan.simps [of max_size n p m])
  next
    case False
    then have "string_scan max_size n p m = n" by (auto simp: string_scan.simps [of max_size n p m])
    then show ?thesis using "1.prems" by simp
  qed
qed

lemma item_frame:
  assumes ty: "plain_type f" and ch: "changes A m m'" and disj: "region p (pf_data_size f) \<inter> A = {}" and fit: "bytes_fit f p m"
    and sub: "PB_LTYPE (pf_type f) = PB_LTYPE_SUBMESSAGE \<Longrightarrow> val f p m' = val f p m"
  shows "item_value val f p m' = item_value val f p m"
proof -
  have byte: "pm_byte m' x = pm_byte m x" if "x \<in> region p (pf_data_size f)" for x
    using changes_byte [OF ch] disj that by blast
  have ld: "load q n m' = load q n m" if "region q n \<subseteq> region p (pf_data_size f)" for q n
    by (rule changes_load [OF ch]) (use disj that in blast)
  have all: "load p (pf_data_size f) m' = load p (pf_data_size f) m" by (rule ld) simp
  show ?thesis
    using ty
  proof (cases rule: plain_ltype)
    case bool
    then show ?thesis using byte by (simp add: item_value_def payload_def pb_types)
  next
    case bytes
    then have "load_int 4 p m' = load_int 4 p m" unfolding load_int_def by (subst ld) auto
    moreover have "load (p + 4) (load_int 4 p m) m' = load (p + 4) (load_int 4 p m) m"
      using fit bytes(1) by (intro ld) (auto simp: bytes_fit_def)
    ultimately show ?thesis using bytes by (simp add: item_value_def payload_def pb_types)
  next
    case string
    let ?n = "string_scan (pf_data_size f) 0 p m"
    have "string_scan (pf_data_size f) 0 p m' = ?n" by (rule string_scan_frame) (use byte in auto)
    moreover have "load p ?n m' = load p ?n m" using string_scan_le [of 0 "pf_data_size f" p m] by (intro ld) auto
    ultimately show ?thesis using string by (simp add: item_value_def payload_def pb_types)
  next
    case submessage
    then show ?thesis using sub by (simp add: item_value_def)
  next
    case int
    then show ?thesis using all by (auto simp: item_value_def payload_def pb_types)
  qed (use all in \<open>simp_all add: item_value_def payload_def pb_types\<close>)
qed

text \<open>A value that fits keeps as long as the place of the field is not touched.\<close>

lemma field_frame:
  assumes ty: "plain_type f" and ch: "changes A m m'" and cell: "region c (cell_width f) \<inter> A = {}"
    and ext: "region p (fld_extent f) \<inter> A = {}"
    and ok: "field_ok wire ok f (field_value val f p c m)"
    and imp: "PB_LTYPE (pf_type f) = PB_LTYPE_SUBMESSAGE \<Longrightarrow> PB_HTYPE (pf_type f) = PB_HTYPE_OPTIONAL \<Longrightarrow> pf_size_offset f \<noteq> 0"
    and sub: "\<And>q. PB_LTYPE (pf_type f) = PB_LTYPE_SUBMESSAGE \<Longrightarrow> region q (pf_data_size f) \<inter> A = {} \<Longrightarrow>
      value_ok wire ok f (PMsg (val f q m)) \<Longrightarrow> val f q m' = val f q m"
  shows "field_value val f p c m' = field_value val f p c m"
proof -
  have vok: "value_ok wire ok f v" if "v \<in> set (field_value val f p c m)" for v
    using ok that by (auto simp: field_ok_def Let_def list_all_iff)
  have item: "item_value val f q m' = item_value val f q m"
    if "value_ok wire ok f (item_value val f q m)" "region q (pf_data_size f) \<inter> A = {}" for q
    by (rule item_frame [OF ty ch that(2) bytes_fitI [OF ty]]) (use that sub [of q] in \<open>auto simp: item_value_def\<close>)
  show ?thesis
  proof (cases rule: htype_cases [of "pf_type f"])
    case required
    have "value_ok wire ok f (item_value val f p m)" by (rule vok) (use required in \<open>simp add: field_value_def\<close>)
    then show ?thesis using required item ext by (simp add: field_value_def fld_extent_def)
  next
    case optional
    have ext': "region p (pf_data_size f) \<inter> A = {}" using ext optional by (simp add: fld_extent_def)
    show ?thesis
    proof (cases "pf_size_offset f = 0")
      case False
      then have "pm_byte m' c = pm_byte m c"
        using changes_byte [OF ch, of c] cell optional by (auto simp: cell_width_def)
      moreover have "value_ok wire ok f (item_value val f p m)" if "pm_byte m c \<noteq> 0"
        by (rule vok) (use optional False that in \<open>simp add: field_value_def\<close>)
      ultimately show ?thesis using optional False item ext' by (simp add: field_value_def)
    next
      case True
      have ns: "PB_LTYPE (pf_type f) \<noteq> PB_LTYPE_SUBMESSAGE" using imp optional True by blast
      have "value_ok wire ok f (item_value val f p m)" if "\<not> val_default f (item_value val f p m)"
        by (rule vok) (use optional True that in \<open>simp add: field_value_def\<close>)
      then have "bytes_fit f p m" using bytes_fitI [OF ty] by blast
      then have "item_value val f p m' = item_value val f p m" by (rule item_frame [OF ty ch ext']) (use ns in simp)
      then show ?thesis using optional True by (simp add: field_value_def)
    qed
  next
    case repeated
    let ?n = "load_int 4 c m"
    have "load_int 4 c m' = ?n"
      using changes_load_int [OF ch, of c 4] cell plain_cell_width [OF ty] repeated by simp
    moreover have "item_value val f (p + j * pf_data_size f) m' = item_value val f (p + j * pf_data_size f) m" if j: "j < ?n" for j
    proof (rule item)
      show "value_ok wire ok f (item_value val f (p + j * pf_data_size f) m)"
        by (rule vok) (use repeated j in \<open>simp add: field_value_def\<close>)
      have "?n \<le> pf_array_size f" using ok repeated by (simp add: field_ok_def field_value_def)
      then have "j * pf_data_size f + pf_data_size f \<le> pf_data_size f * pf_array_size f"
        using j by (metis Suc_leI le_trans mult.commute mult_Suc mult_le_mono1 add.commute)
      then have "region (p + j * pf_data_size f) (pf_data_size f) \<subseteq> region p (fld_extent f)"
        using repeated by (auto simp: fld_extent_def)
      then show "region (p + j * pf_data_size f) (pf_data_size f) \<inter> A = {}" using ext by blast
    qed
    ultimately show ?thesis using repeated by (simp add: field_value_def)
  next
    case oneof
    have "load_int 4 c m' = load_int 4 c m"
      using changes_load_int [OF ch, of c 4] cell plain_cell_width [OF ty] oneof by simp
    moreover have "value_ok wire ok f (item_value val f p m)" if "load_int 4 c m = unat (pf_tag f)"
      by (rule vok) (use oneof that in \<open>simp add: field_value_def\<close>)
    ultimately show ?thesis using oneof item ext by (simp add: field_value_def fld_extent_def)
  qed
qed

lemma wire_tableD:
  "wire_table (Suc d) tables fs \<Longrightarrow> i < length fs \<Longrightarrow> unat (pf_tag (fs ! i)) < 2 ^ 29"
  "wire_table (Suc d) tables fs \<Longrightarrow> i < length fs \<Longrightarrow> PB_LTYPE (pf_type (fs ! i)) = PB_LTYPE_SUBMESSAGE \<Longrightarrow>
     wire_table d tables (tables (pf_ptr (fs ! i)))"
  "wire_table (Suc d) tables fs \<Longrightarrow> i < length fs \<Longrightarrow> PB_LTYPE (pf_type (fs ! i)) = PB_LTYPE_SUBMESSAGE \<Longrightarrow>
     PB_HTYPE (pf_type (fs ! i)) = PB_HTYPE_OPTIONAL \<Longrightarrow> pf_size_offset (fs ! i) \<noteq> 0"
  by (auto simp: wire_table.simps list_all_length)

lemma msg_okD:
  "msg_ok (Suc d) tables fs vss \<Longrightarrow> i < length fs \<Longrightarrow> field_ok (sub_wire d tables) (sub_ok d tables) (fs ! i) (vss ! i)"
  "msg_ok (Suc d) tables fs vss \<Longrightarrow> i < length fs \<Longrightarrow> j < length fs \<Longrightarrow> same_oneof fs i j \<Longrightarrow> j \<noteq> i \<Longrightarrow> vss ! i = [] \<or> vss ! j = []"
  "msg_ok (Suc d) tables fs vss \<Longrightarrow> length vss = length fs"
  by (auto simp: msg_ok.simps list_all_length)

lemma field_frame_at:
  assumes p: "plain_table (Suc d) tables fs k" and w: "wire_table (Suc d) tables fs" and i: "i < length fs"
    and ok: "field_ok (sub_wire d tables) (sub_ok d tables) (fs ! i) (value_at d tables fs dest i m)"
    and ch: "changes A m m'" and disj: "footprint fs dest i \<inter> A = {}"
    and sub: "\<And>q. PB_LTYPE (pf_type (fs ! i)) = PB_LTYPE_SUBMESSAGE \<Longrightarrow> region q (pf_data_size (fs ! i)) \<inter> A = {} \<Longrightarrow>
      sub_ok d tables (fs ! i) (sub_value d tables (fs ! i) q m) \<Longrightarrow> sub_value d tables (fs ! i) q m' = sub_value d tables (fs ! i) q m"
  shows "value_at d tables fs dest i m' = value_at d tables fs dest i m"
proof (rule field_frame [OF _ ch _ _ ok])
  show "plain_type (fs ! i)" using p i by (auto elim: plain_tableE)
  show "cell_region fs dest i \<inter> A = {}" "fld_region fs dest i \<inter> A = {}" using disj by (auto simp: footprint_def)
qed (use wire_tableD(3) [OF w i] sub in \<open>auto simp: value_ok_def Let_def\<close>)

lemma msg_value_frame:
  "plain_table d tables fs k \<Longrightarrow> wire_table d tables fs \<Longrightarrow> msg_ok d tables fs (msg_value d tables fs dest m) \<Longrightarrow>
   changes A m m' \<Longrightarrow> region dest k \<inter> A = {} \<Longrightarrow> msg_value d tables fs dest m' = msg_value d tables fs dest m"
proof (induction d arbitrary: fs k dest)
  case (Suc d)
  from Suc.prems(1) have l: "layout_ok fs k" by (auto elim: plain_tableE)
  have "value_at d tables fs dest i m' = value_at d tables fs dest i m" if i: "i < length fs" for i
  proof (rule field_frame_at [OF Suc.prems(1,2) i _ Suc.prems(4)])
    show "field_ok (sub_wire d tables) (sub_ok d tables) (fs ! i) (value_at d tables fs dest i m)"
      using msg_okD(1) [OF Suc.prems(3) i] nth_msg_value [OF i] by metis
    show "footprint fs dest i \<inter> A = {}" using footprint_within [OF l i, of dest] Suc.prems(5) by blast
    show "sub_value d tables (fs ! i) q m' = sub_value d tables (fs ! i) q m"
      if "PB_LTYPE (pf_type (fs ! i)) = PB_LTYPE_SUBMESSAGE" "region q (pf_data_size (fs ! i)) \<inter> A = {}"
        "sub_ok d tables (fs ! i) (sub_value d tables (fs ! i) q m)" for q
    proof (rule Suc.IH [OF _ _ that(3) Suc.prems(4) that(2)])
      show "plain_table d tables (tables (pf_ptr (fs ! i))) (pf_data_size (fs ! i))"
        using Suc.prems(1) i that(1) by (auto elim: plain_tableE)
      show "wire_table d tables (tables (pf_ptr (fs ! i)))" by (rule wire_tableD(2) [OF Suc.prems(2) i that(1)])
    qed
  qed
  then show ?case by (simp add: msg_value.simps)
qed (simp add: plain_table.simps)

section \<open>Items\<close>

text \<open>\<open>item_restored\<close>: what the decoder does at the wire format of an item.\<close>

definition item_restored ::
    "(pb_field_t \<Rightarrow> nat \<Rightarrow> 'h pb_mem \<Rightarrow> pb_val list list) \<Rightarrow> (pb_field_t \<Rightarrow> pb_val list list \<Rightarrow> u8 list) \<Rightarrow> pb_field_t \<Rightarrow> pb_val \<Rightarrow>
     nat \<Rightarrow> 's pb_istream \<Rightarrow> 'h pb_mem \<Rightarrow> ('s, 'h) pb_result \<Rightarrow> bool" where
  "item_restored val wire f v p s m r \<longleftrightarrow>
     (\<exists>m'. r = Some (True, is_advance (length (item_wire wire f v)) s, m') \<and> changes (region p (pf_data_size f)) m m' \<and>
           item_value val f p m' = v)"

lemma restores_item:
  assumes r: "restores (dec f) (payload_wire f bs) c" and s: "is_ok s" "is_rest s = item_wire wire f (PVal bs) @ rest"
    and c: "length c \<le> pf_data_size f" and ns: "PB_LTYPE (pf_type f) \<noteq> PB_LTYPE_SUBMESSAGE"
    and pl: "payload f p (store p c m) = bs"
    and d: "call_decoder env sub f s p m = returns dec f s p m"
  shows "item_restored val wire f (PVal bs) p s m (call_decoder env sub f s p m)"
  using restoresD [OF r s(1), of rest p m] s(2) c ns pl unfolding d
  by (auto simp: item_restored_def returns_def item_wire_def item_value_def intro!: changes_store)

lemma load_store_prefix: "n \<le> length c \<Longrightarrow> load p n (store p c m) = take n c"
  using take_load [of n p "length c" "store p c m"] load_store_same [of p c m] by (simp add: min_def)

lemma load_store_suffix: "load (p + k) (length c - k) (store p c m) = drop k c"
  using drop_load [of k p "length c" "store p c m"] load_store_same [of p c m] by simp

lemma scalar_restored:
  fixes s :: "'s pb_istream" and m :: "'h pb_mem"
  assumes ty: "plain_type f" and v: "value_ok wire ok f (PVal bs)" and s: "is_ok s" "is_rest s = item_wire wire f (PVal bs) @ rest"
  shows "item_restored val wire f (PVal bs) p s m (call_decoder env sub f s p m)"
proof -
  let ?ip = "de_read env" and ?ra = "de_realloc env"
  have static: "PB_ATYPE (pf_type f) = PB_ATYPE_STATIC" by (rule plain_static [OF ty])
  have small: "pf_data_size f < 2 ^ 32" using plain_bounds [OF ty] by simp
  have ns: "PB_LTYPE (pf_type f) \<noteq> PB_LTYPE_SUBMESSAGE" using v by (simp add: value_ok_def Let_def)
  note item = restores_item [OF _ s _ ns]
  have whole: "load p (pf_data_size f) (store p c m) = c" if "length c = pf_data_size f" for c
    using load_store_same [of p c m] that by simp
  show ?thesis
    using ty
  proof (cases rule: plain_ltype)
    case bool
    then have bs: "bs = [0] \<or> bs = [1]" using v by (simp add: value_ok_def pb_types)
    have "payload_wire f bs = leb (if bs = [0] then 0 else 1)" using bool by (simp add: payload_wire_def)
    then have r: "restores (pb_dec_bool ?ip f :: 's pb_istream \<Rightarrow> nat \<Rightarrow> 'h pb_mem \<Rightarrow> _) (payload_wire f bs) bs" using bool_field(2) [OF bs, of ?ip f] by simp
    show ?thesis
      by (rule item [where dec = "pb_dec_bool ?ip", OF r]) (use bs bool in \<open>auto simp: call_decoder_table payload_def pb_types pm_byte_store\<close>)
  next
    case int
    have len: "length bs = pf_data_size f" using v int by (auto simp: value_ok_def pb_types)
    have pl: "payload f p (store p bs m) = bs" using int whole [OF len] by (auto simp: payload_def pb_types)
    consider "PB_LTYPE (pf_type f) = PB_LTYPE_VARINT" | "PB_LTYPE (pf_type f) = PB_LTYPE_UVARINT" | "PB_LTYPE (pf_type f) = PB_LTYPE_SVARINT"
      using int(1) by auto
    then show ?thesis
    proof cases
      case 1
      show ?thesis
        by (rule item [where dec = "pb_dec_varint ?ip" and c = bs])
          (use 1 varint_field(2) [OF int(2) len, of ?ip] len pl in \<open>simp_all add: call_decoder_table payload_wire_def pb_types\<close>)
    next
      case 2
      show ?thesis
        by (rule item [where dec = "pb_dec_uvarint ?ip" and c = bs])
          (use 2 uvarint_field(2) [OF int(2) len, of ?ip] len pl in \<open>simp_all add: call_decoder_table payload_wire_def pb_types\<close>)
    next
      case 3
      show ?thesis
        by (rule item [where dec = "pb_dec_svarint ?ip" and c = bs])
          (use 3 svarint_field(2) [OF int(2) len, of ?ip] len pl in \<open>simp_all add: call_decoder_table payload_wire_def pb_types\<close>)
    qed
  next
    case fixed32
    have len: "length bs = 4" using v fixed32 by (simp add: value_ok_def pb_types)
    show ?thesis
      by (rule item [where dec = "pb_dec_fixed32 ?ip" and c = bs])
        (use fixed32 fixed32_field(2) [OF len, of ?ip f] len whole [of bs] in \<open>simp_all add: call_decoder_table payload_wire_def payload_def pb_types\<close>)
  next
    case fixed64
    have len: "length bs = 8" using v fixed64 by (simp add: value_ok_def pb_types)
    show ?thesis
      by (rule item [where dec = "pb_dec_fixed64 ?ip" and c = bs])
        (use fixed64 fixed64_field(2) [OF len, of ?ip f] len whole [of bs] in \<open>simp_all add: call_decoder_table payload_wire_def payload_def pb_types\<close>)
  next
    case bytes
    let ?c = "le_bytes 4 (length bs) @ bs"
    have fits: "4 + length bs \<le> pf_data_size f" using v bytes by (simp add: value_ok_def pb_types)
    have "load_int 4 p (store p ?c m) = length bs"
      using load_store_prefix [of 4 ?c p m] fits small by (simp add: load_int_def le_val_le_bytes)
    moreover have "load (p + 4) (length bs) (store p ?c m) = bs"
      using load_store_suffix [of p 4 ?c m] by simp
    ultimately have pl: "payload f p (store p ?c m) = bs" using bytes by (simp add: payload_def pb_types)
    show ?thesis
      by (rule item [where dec = "pb_dec_bytes ?ip ?ra" and c = ?c])
        (use bytes bytes_field(2) [OF static fits small, of ?ip ?ra] fits pl in \<open>simp_all add: call_decoder_table payload_wire_def pb_types\<close>)
  next
    case string
    have str: "0 \<notin> set bs" "length bs < pf_data_size f" using v string by (auto simp: value_ok_def pb_types list_all_iff)
    have "load p (length bs + 1) (store p (bs @ [0]) m) = bs @ [0]"
      using load_store_same [of p "bs @ [0]" m] by simp
    then have "string_scan (pf_data_size f) 0 p (store p (bs @ [0]) m) = length bs"
      using string_scan_stop [of p bs "store p (bs @ [0]) m" 0 "pf_data_size f"] str by simp
    then have pl: "payload f p (store p (bs @ [0]) m) = bs"
      using string load_store_prefix [of "length bs" "bs @ [0]" p m] by (simp add: payload_def pb_types)
    show ?thesis
      by (rule item [where dec = "pb_dec_string ?ip ?ra" and c = "bs @ [0]"])
        (use string string_field(2) [OF static str small, of ?ip ?ra] str pl in \<open>simp_all add: call_decoder_table payload_wire_def pb_types\<close>)
  next
    case submessage
    then show ?thesis using ns by simp
  next
    case fixed_length
    have len: "length bs = pf_data_size f" using v fixed_length by (simp add: value_ok_def pb_types)
    show ?thesis
      by (rule item [where dec = "pb_dec_fixed_length_bytes ?ip" and c = bs])
        (use fixed_length fixed_length_bytes_field(2) [OF small len, of ?ip] len whole [of bs] in
          \<open>simp_all add: call_decoder_table payload_wire_def payload_def pb_types\<close>)
  qed
qed

section \<open>The message decoded so far\<close>

definition cell_val :: "pb_field_t list \<Rightarrow> nat \<Rightarrow> nat \<Rightarrow> 'h pb_mem \<Rightarrow> nat" where
  "cell_val fs dest i m = load_int 4 (dest + fld_cell fs i) m"

abbreviation is_oneof :: "pb_field_t \<Rightarrow> bool" where
  "is_oneof f \<equiv> PB_HTYPE (pf_type f) = PB_HTYPE_ONEOF"

text \<open>Field \<open>i\<close> holds the values \<open>vs\<close>; if there are none yet, it is in its default state.\<close>

definition holds :: "nat \<Rightarrow> (nat \<Rightarrow> pb_field_t list) \<Rightarrow> pb_field_t list \<Rightarrow> nat \<Rightarrow> nat \<Rightarrow> pb_val list \<Rightarrow> 'h pb_mem \<Rightarrow> bool" where
  "holds d tables fs dest i vs m \<longleftrightarrow>
     (if vs = [] then if is_oneof (fs ! i) then cell_val fs dest i m \<noteq> unat (pf_tag (fs ! i)) else default_at d tables fs dest i m
      else value_at d tables fs dest i m = vs \<and> field_ok (sub_wire d tables) (sub_ok d tables) (fs ! i) vs)"

definition represents :: "nat \<Rightarrow> (nat \<Rightarrow> pb_field_t list) \<Rightarrow> pb_field_t list \<Rightarrow> nat \<Rightarrow> pb_val list list \<Rightarrow> 'h pb_mem \<Rightarrow> bool" where
  "represents d tables fs dest cur m \<longleftrightarrow>
     length cur = length fs \<and> (\<forall>i < length fs. holds d tables fs dest i (cur ! i) m) \<and>
     (\<forall>i < length fs. is_oneof (fs ! i) \<and> (\<forall>j < length fs. same_oneof fs i j \<longrightarrow> cur ! j = []) \<longrightarrow> cell_val fs dest i m = 0)"

lemma representsD:
  assumes "represents d tables fs dest cur m"
  shows "length cur = length fs" and "i < length fs \<Longrightarrow> holds d tables fs dest i (cur ! i) m"
    and "i < length fs \<Longrightarrow> is_oneof (fs ! i) \<Longrightarrow> (\<And>j. j < length fs \<Longrightarrow> same_oneof fs i j \<Longrightarrow> cur ! j = []) \<Longrightarrow> cell_val fs dest i m = 0"
  using assms unfolding represents_def by blast+

text \<open>A step for field \<open>i\<close> that gives it values keeps what the other fields hold.\<close>

lemma holds_frame:
  assumes p: "plain_table (Suc d) tables fs k" and w: "wire_table (Suc d) tables fs" and i: "i < length fs"
    and h: "holds d tables fs dest i vs m" and ch: "changes A m m'" and disj: "footprint fs dest i \<inter> A = {}"
  shows "holds d tables fs dest i vs m'"
proof -
  let ?f = "fs ! i"
  from p i have ty: "plain_type ?f"
    and pt: "PB_LTYPE (pf_type ?f) = PB_LTYPE_SUBMESSAGE \<Longrightarrow> plain_table d tables (tables (pf_ptr ?f)) (pf_data_size ?f)"
    by (auto elim: plain_tableE)
  show ?thesis
  proof (cases "vs = []")
    case False
    then have v: "value_at d tables fs dest i m = vs" and ok: "field_ok (sub_wire d tables) (sub_ok d tables) ?f vs"
      using h by (simp_all add: holds_def)
    have "value_at d tables fs dest i m' = value_at d tables fs dest i m"
    proof (rule field_frame_at [OF p w i _ ch disj])
      show "field_ok (sub_wire d tables) (sub_ok d tables) ?f (value_at d tables fs dest i m)" using ok v by simp
      show "sub_value d tables ?f q m' = sub_value d tables ?f q m"
        if "PB_LTYPE (pf_type ?f) = PB_LTYPE_SUBMESSAGE" "region q (pf_data_size ?f) \<inter> A = {}" "sub_ok d tables ?f (sub_value d tables ?f q m)" for q
        by (rule msg_value_frame [OF pt [OF that(1)] wire_tableD(2) [OF w i that(1)] that(3) ch that(2)])
    qed
    then show ?thesis using False v ok by (simp add: holds_def)
  next
    case True
    show ?thesis
    proof (cases "is_oneof ?f")
      case one: True
      then have "cell_val fs dest i m' = cell_val fs dest i m"
        unfolding cell_val_def using changes_load_int [OF ch, of "dest + fld_cell fs i" 4] footprint_parts(1) [OF i disj] plain_cell_width [OF ty]
        by simp
      then show ?thesis using h True one by (simp add: holds_def)
    next
      case False
      then have "default_at d tables fs dest i m" using h True by (simp add: holds_def)
      then have "default_at d tables fs dest i m'"
        by (rule default_frame [OF _ ch ty footprint_parts(1) [OF i disj]])
          (use footprint_parts(2) [OF i disj] defaulted_frame [OF pt _ ch] in auto)
      then show ?thesis using True False by (simp add: holds_def)
    qed
  qed
qed

lemma same_oneof_sym: "same_oneof fs i j \<Longrightarrow> same_oneof fs j i"
  by (simp add: same_oneof_def)

lemma represents_update:
  assumes p: "plain_table (Suc d) tables fs k" and w: "wire_table (Suc d) tables fs" and i: "i < length fs"
    and r: "represents d tables fs dest cur m" and ch: "changes (footprint fs dest i) m m'"
    and new: "value_at d tables fs dest i m' = vs" "vs \<noteq> []" "field_ok (sub_wire d tables) (sub_ok d tables) (fs ! i) vs"
    and union: "\<And>j. j < length fs \<Longrightarrow> j \<noteq> i \<Longrightarrow> same_oneof fs i j \<Longrightarrow> cur ! j = []"
  shows "represents d tables fs dest (cur[i := vs]) m'"
proof -
  from p have t: "tags_ok fs" and l: "layout_ok fs k" and ty: "\<And>j. j < length fs \<Longrightarrow> plain_type (fs ! j)" by (auto elim: plain_tableE)
  note len = representsD(1) [OF r]
  have disj: "footprint fs dest j \<inter> footprint fs dest i = {}" if "j < length fs" "j \<noteq> i" "\<not> same_oneof fs j i" for j
    by (rule footprint_apart [OF l that(1) i that(2,3)])
  have tag: "cell_val fs dest j m' = unat (pf_tag (fs ! i))" if "same_oneof fs i j" for j
    using new(1,2) that by (auto simp: same_oneof_def field_value_def Let_def cell_val_def split: if_splits)
  have hold: "holds d tables fs dest j (cur[i := vs] ! j) m'" if j: "j < length fs" for j
  proof (cases "j = i")
    case True
    then show ?thesis using new i len by (simp add: holds_def)
  next
    case False
    show ?thesis
    proof (cases "same_oneof fs i j")
      case one: True
      have "pf_tag (fs ! i) \<noteq> pf_tag (fs ! j)"
        using t i j False by (metis tags_ok_def distinct_conv_nth length_map nth_map)
      then have "unat (pf_tag (fs ! i)) \<noteq> unat (pf_tag (fs ! j))" by (simp add: word_unat_eq_iff)
      then show ?thesis using union [OF j False one] tag [OF one] one False by (simp add: holds_def same_oneof_def)
    next
      case nsame: False
      then have "holds d tables fs dest j (cur ! j) m'"
        using holds_frame [OF p w j representsD(2) [OF r j] ch disj [OF j False]] same_oneof_sym by blast
      then show ?thesis using False by simp
    qed
  qed
  have cell: "cell_val fs dest j m' = 0"
    if j: "j < length fs" "is_oneof (fs ! j)" and none: "\<And>k. k < length fs \<Longrightarrow> same_oneof fs j k \<Longrightarrow> cur[i := vs] ! k = []" for j
  proof -
    have nsame: "\<not> same_oneof fs j i" using none [OF i] new(2) i len by auto
    then have ji: "j \<noteq> i" using j(2) by (auto simp: same_oneof_def)
    have "cell_val fs dest j m = 0"
    proof (rule representsD(3) [OF r j])
      fix k assume k: "k < length fs" "same_oneof fs j k"
      then have "k \<noteq> i" using nsame by auto
      then show "cur ! k = []" using none [OF k] by simp
    qed
    moreover have "cell_val fs dest j m' = cell_val fs dest j m"
      unfolding cell_val_def
      using changes_load_int [OF ch, of "dest + fld_cell fs j" 4] footprint_parts(1) [OF j(1) disj [OF j(1) ji nsame]]
        plain_cell_width [OF ty [OF j(1)]] j(2) by simp
    ultimately show ?thesis by simp
  qed
  show ?thesis unfolding represents_def using len hold cell by (metis length_list_update)
qed

text \<open>In the beginning there are no values, and in the end the structure holds the message.\<close>

lemma represents_defaults:
  assumes p: "plain_table (Suc d) tables fs k" and df: "defaulted (Suc d) tables fs dest m"
  shows "represents d tables fs dest (replicate (length fs) []) m"
proof -
  from p have t: "tags_ok fs" by (auto elim: plain_tableE)
  have "holds d tables fs dest i [] m" and "is_oneof (fs ! i) \<Longrightarrow> cell_val fs dest i m = 0" if i: "i < length fs" for i
  proof -
    have da: "default_at d tables fs dest i m" using df i by (simp add: defaulted_Suc)
    then show c: "is_oneof (fs ! i) \<Longrightarrow> cell_val fs dest i m = 0" by (simp add: field_default_def cell_val_def)
    have "unat (pf_tag (fs ! i)) \<noteq> 0" using tag_nonzero [OF t i] by (simp add: unat_eq_0)
    then show "holds d tables fs dest i [] m" using da c by (simp add: holds_def)
  qed
  then show ?thesis by (simp add: represents_def)
qed

lemma implicit_default:
  assumes ty: "plain_type f" and l: "PB_LTYPE (pf_type f) \<noteq> PB_LTYPE_SUBMESSAGE" "PB_LTYPE (pf_type f) \<noteq> PB_LTYPE_FIXED_LENGTH_BYTES"
    and z: "load p (pf_data_size f) m = replicate (pf_data_size f) 0"
  shows "val_default f (item_value val f p m)"
proof -
  have byte: "pm_byte m (p + j) = 0" if "j < pf_data_size f" for j
    using arg_cong [OF z, of "\<lambda>xs. xs ! j"] that by (simp add: nth_load)
  show ?thesis
    using ty
  proof (cases rule: plain_ltype)
    case bool
    then show ?thesis using byte [of 0] by (simp add: val_default_def item_value_def payload_def pb_types)
  next
    case int
    then show ?thesis using z by (auto simp: val_default_def item_value_def payload_def pb_types list_all_iff)
  next
    case bytes
    have "load p 4 m = replicate 4 0" using arg_cong [OF z, of "take 4"] bytes(2) by (simp add: take_load min_def)
    then have "load_int 4 p m = 0" by (simp add: load_int_def le_val_def numeral_eq_Suc be_val_def)
    then show ?thesis using bytes by (simp add: val_default_def item_value_def payload_def pb_types)
  next
    case string
    have "string_scan (pf_data_size f) 0 p m = 0" using byte [of 0] string(2) by (simp add: string_scan.simps)
    then show ?thesis using string by (simp add: val_default_def item_value_def payload_def pb_types)
  qed (use l z in \<open>simp_all add: val_default_def item_value_def payload_def pb_types list_all_iff\<close>)
qed

lemma represents_value:
  assumes p: "plain_table (Suc d) tables fs k" and w: "wire_table (Suc d) tables fs" and ok: "msg_ok (Suc d) tables fs vss"
    and r: "represents d tables fs dest vss m"
  shows "msg_value (Suc d) tables fs dest m = vss"
proof (rule nth_equalityI)
  show "length (msg_value (Suc d) tables fs dest m) = length vss" using representsD(1) [OF r] by simp
  fix i assume "i < length (msg_value (Suc d) tables fs dest m)"
  then have i: "i < length fs" by simp
  let ?f = "fs ! i"
  have ty: "plain_type ?f" using p i by (auto elim: plain_tableE)
  note h = representsD(2) [OF r i]
  have "value_at d tables fs dest i m = vss ! i"
  proof (cases "vss ! i = []")
    case False
    then show ?thesis using h by (simp add: holds_def)
  next
    case True
    have fok: "field_ok (sub_wire d tables) (sub_ok d tables) ?f []" using msg_okD(1) [OF ok i] True by simp
    show ?thesis
    proof (cases rule: htype_cases [of "pf_type ?f"])
      case required
      then show ?thesis using fok by (simp add: field_ok_def)
    next
      case repeated
      then show ?thesis using h True by (simp add: holds_def field_default_def field_value_def)
    next
      case oneof
      then show ?thesis using h True by (simp add: holds_def field_value_def cell_val_def)
    next
      case optional
      then have da: "default_at d tables fs dest i m" using h True by (simp add: holds_def)
      show ?thesis
      proof (cases "pf_size_offset ?f = 0")
        case False
        then have "load_int 1 (dest + fld_cell fs i) m = 0" using da optional by (simp add: field_default_def)
        then have "pm_byte m (dest + fld_cell fs i) = 0" by (simp add: load_int_1 unat_eq_0 del: One_nat_def)
        then show ?thesis using optional False True by (simp add: field_value_def)
      next
        case imp: True
        have "PB_LTYPE (pf_type ?f) \<noteq> PB_LTYPE_SUBMESSAGE" using wire_tableD(3) [OF w i] optional imp by blast
        moreover have "PB_LTYPE (pf_type ?f) \<noteq> PB_LTYPE_FIXED_LENGTH_BYTES" using fok optional imp by (auto simp: field_ok_def)
        ultimately have "val_default ?f (item_value (sub_value d tables) ?f (dest + fld_off fs i) m)"
          by (rule implicit_default [OF ty]) (use da optional imp \<open>PB_LTYPE (pf_type ?f) \<noteq> PB_LTYPE_SUBMESSAGE\<close> plain_implicit [OF ty] in \<open>simp add: field_default_def\<close>)
        then show ?thesis using optional imp True by (simp add: field_value_def)
      qed
    qed
  qed
  then show "msg_value (Suc d) tables fs dest m ! i = vss ! i" using nth_msg_value [OF i] by metis
qed

section \<open>Decoding a field\<close>

text \<open>What is assumed of the decoder of submessages, for streams of up to \<open>b\<close> bytes: an entry of a repeated
  field is set to its defaults by the decoder, the others have their defaults already.\<close>

definition sub_restores :: "nat \<Rightarrow> nat \<Rightarrow> (nat \<Rightarrow> pb_field_t list) \<Rightarrow> ('s, 'h) pb_field_decoder \<Rightarrow> pb_field_t \<Rightarrow> bool" where
  "sub_restores b d tables sub f \<longleftrightarrow>
     (\<forall>vs s rest p m. sub_ok d tables f vs \<and> length (sub_wire d tables f vs) < 2 ^ 32 \<and> is_ok s \<and> is_bytes_left s \<le> b \<and>
        is_rest s = item_wire (sub_wire d tables) f (PMsg vs) @ rest \<and>
        (PB_HTYPE (pf_type f) = PB_HTYPE_REPEATED \<or> defaulted d tables (tables (pf_ptr f)) p m) \<longrightarrow>
        item_restored (sub_value d tables) (sub_wire d tables) f (PMsg vs) p s m (sub f s p m))"

lemma value_restored:
  assumes ty: "plain_type f" and v: "value_ok (sub_wire d tables) (sub_ok d tables) f v"
    and s: "is_ok s" "is_bytes_left s \<le> b" "is_rest s = item_wire (sub_wire d tables) f v @ rest"
    and sub: "PB_LTYPE (pf_type f) = PB_LTYPE_SUBMESSAGE \<Longrightarrow> sub_restores b d tables sub f"
    and df: "PB_LTYPE (pf_type f) = PB_LTYPE_SUBMESSAGE \<Longrightarrow>
      PB_HTYPE (pf_type f) = PB_HTYPE_REPEATED \<or> defaulted d tables (tables (pf_ptr f)) p m"
  obtains m' where "call_decoder env sub f s p m = Some (True, is_advance (length (item_wire (sub_wire d tables) f v)) s, m')"
    and "changes (region p (pf_data_size f)) m m'" and "item_value (sub_value d tables) f p m' = v"
proof -
  have "item_restored (sub_value d tables) (sub_wire d tables) f v p s m (call_decoder env sub f s p m)"
  proof (cases v)
    case (PVal bs)
    show ?thesis unfolding PVal by (rule scalar_restored [OF ty v [unfolded PVal] s(1) s(3) [unfolded PVal]])
  next
    case (PMsg vs)
    then have l: "PB_LTYPE (pf_type f) = PB_LTYPE_SUBMESSAGE" "sub_ok d tables f vs" "length (sub_wire d tables f vs) < 2 ^ 32"
      using v by (simp_all add: value_ok_def Let_def)
    then show ?thesis using sub [OF l(1)] df [OF l(1)] s PMsg unfolding sub_restores_def by (simp add: call_decoder_table(9))
  qed
  then show thesis using that unfolding item_restored_def by blast
qed

text \<open>The count of a repeated field, and what an appended item does to its value.\<close>

lemma count_of:
  assumes "PB_HTYPE (pf_type (fs ! i)) = PB_HTYPE_REPEATED" and "holds d tables fs dest i vs m"
  shows "load_int 4 (dest + fld_cell fs i) m = length vs" and "value_at d tables fs dest i m = vs"
proof -
  show v: "value_at d tables fs dest i m = vs"
    using assms by (auto simp: holds_def field_default_def field_value_def split: if_splits)
  show "load_int 4 (dest + fld_cell fs i) m = length vs"
    using arg_cong [OF v, of length] assms(1) by (simp add: field_value_def)
qed

lemma items_apart: "j < n \<Longrightarrow> region (p + j * k) k \<inter> region (p + n * k) k = {}" for p k :: nat
proof -
  assume "j < n"
  then have "j * k + k \<le> n * k" by (metis Suc_leI mult_Suc mult_le_mono1 add.commute)
  then show ?thesis by auto
qed

lemma append_value:
  assumes p: "plain_table (Suc d) tables fs k" and w: "wire_table (Suc d) tables fs" and i: "i < length fs"
    and h: "PB_HTYPE (pf_type (fs ! i)) = PB_HTYPE_REPEATED" and old: "value_at d tables fs dest i m = vs"
    and ok: "field_ok (sub_wire d tables) (sub_ok d tables) (fs ! i) (vs @ [v])"
    and ch: "changes (cell_region fs dest i \<union> region (dest + fld_off fs i + length vs * pf_data_size (fs ! i)) (pf_data_size (fs ! i))) m m'"
    and count: "load_int 4 (dest + fld_cell fs i) m' = length vs + 1"
    and new: "item_value (sub_value d tables) (fs ! i) (dest + fld_off fs i + length vs * pf_data_size (fs ! i)) m' = v"
  shows "value_at d tables fs dest i m' = vs @ [v]"
proof -
  let ?f = "fs ! i" and ?p = "dest + fld_off fs i" and ?val = "sub_value d tables"
  from p i have ty: "plain_type ?f" and l: "layout_ok fs k"
    and pt: "PB_LTYPE (pf_type ?f) = PB_LTYPE_SUBMESSAGE \<Longrightarrow> plain_table d tables (tables (pf_ptr ?f)) (pf_data_size ?f)"
    by (auto elim: plain_tableE)
  have vs: "vs = map (\<lambda>j. item_value ?val ?f (?p + j * pf_data_size ?f) m) [0..<length vs]"
  proof -
    have "load_int 4 (dest + fld_cell fs i) m = length vs" using arg_cong [OF old, of length] h by (simp add: field_value_def)
    then show ?thesis using old h by (simp add: field_value_def)
  qed
  have same: "item_value ?val ?f (?p + j * pf_data_size ?f) m' = item_value ?val ?f (?p + j * pf_data_size ?f) m" if j: "j < length vs" for j
  proof (rule item_frame [OF ty ch])
    have "vs ! j = item_value ?val ?f (?p + j * pf_data_size ?f) m" using j arg_cong [OF vs, of "\<lambda>xs. xs ! j"] by simp
    then have vok: "value_ok (sub_wire d tables) (sub_ok d tables) ?f (item_value ?val ?f (?p + j * pf_data_size ?f) m)"
      using ok j by (metis append_is_Nil_conv field_ok_def in_set_conv_decomp list_all_append list_all_iff nth_mem)
    then show "bytes_fit ?f (?p + j * pf_data_size ?f) m" using bytes_fitI [OF ty] by blast
    have "length vs < pf_array_size ?f" using ok h by (simp add: field_ok_def)
    then have "region (?p + j * pf_data_size ?f) (pf_data_size ?f) \<subseteq> fld_region fs dest i"
      using item_in_field [OF h, of j dest] j by (simp add: mult.commute)
    then show disj: "region (?p + j * pf_data_size ?f) (pf_data_size ?f) \<inter>
        (cell_region fs dest i \<union> region (?p + length vs * pf_data_size ?f) (pf_data_size ?f)) = {}"
      using cell_apart [OF l i, of dest] items_apart [OF j, of ?p "pf_data_size ?f"] by blast
    show "sub_value d tables ?f (?p + j * pf_data_size ?f) m' = sub_value d tables ?f (?p + j * pf_data_size ?f) m"
      if "PB_LTYPE (pf_type ?f) = PB_LTYPE_SUBMESSAGE"
      by (rule msg_value_frame [OF pt [OF that] wire_tableD(2) [OF w i that] _ ch disj])
        (use vok that in \<open>simp add: value_ok_def item_value_def Let_def\<close>)
  qed
  have "value_at d tables fs dest i m' = map (\<lambda>j. item_value ?val ?f (?p + j * pf_data_size ?f) m') [0..<length vs] @ [v]"
    using h count new by (simp add: field_value_def)
  also have "map (\<lambda>j. item_value ?val ?f (?p + j * pf_data_size ?f) m') [0..<length vs] = vs"
    by (subst (2) vs) (use same in simp)
  finally show ?thesis .
qed

text \<open>One item of a field whose items come one by one.\<close>

definition field_done ::
    "nat \<Rightarrow> (nat \<Rightarrow> pb_field_t list) \<Rightarrow> pb_field_t list \<Rightarrow> nat \<Rightarrow> nat \<Rightarrow> pb_val list \<Rightarrow> nat \<Rightarrow> 's pb_istream \<Rightarrow> 'h pb_mem \<Rightarrow>
     ('s, 'h) pb_field_result \<Rightarrow> bool" where
  "field_done d tables fs dest i vs len s m r \<longleftrightarrow>
     (\<exists>m'. r = Some (True, is_advance len s, iter_at 0 fs dest i, m') \<and> changes (footprint fs dest i) m m' \<and>
           value_at d tables fs dest i m' = vs)"

lemma decode_single:
  assumes p: "plain_table (Suc d) (de_fields env) fs k" and w: "wire_table (Suc d) (de_fields env) fs" and i: "i < length fs"
    and h: "holds d (de_fields env) fs dest i vs m"
    and ok: "field_ok (sub_wire d (de_fields env)) (sub_ok d (de_fields env)) (fs ! i) (vs @ [v])"
    and np: "PB_HTYPE (pf_type (fs ! i)) = PB_HTYPE_REPEATED \<Longrightarrow> is_packable (fs ! i) \<Longrightarrow> wt \<noteq> PB_WT_STRING"
    and sub: "PB_LTYPE (pf_type (fs ! i)) = PB_LTYPE_SUBMESSAGE \<Longrightarrow> sub_restores b d (de_fields env) sub (fs ! i)"
    and s: "is_ok s" "is_bytes_left s \<le> b" "is_rest s = item_wire (sub_wire d (de_fields env)) (fs ! i) v @ rest" and n: "2 * d \<le> n"
  shows "field_done d (de_fields env) fs dest i (vs @ [v]) (length (item_wire (sub_wire d (de_fields env)) (fs ! i) v)) s m
    (decode_static_field n env sub s wt (iter_at 0 fs dest i) m)"
proof -
  let ?t = "de_fields env" and ?f = "fs ! i" and ?iter = "iter_at 0 fs dest i" and ?p = "dest + fld_off fs i"
  let ?c = "dest + fld_cell fs i" and ?A = "footprint fs dest i" and ?wire = "sub_wire d (de_fields env)"
  let ?func = "call_decoder env sub" and ?val = "sub_value d ?t"
  from p i have t: "tags_ok fs" and o: "offsets_ok fs" and l: "layout_ok fs k" and ty: "plain_type ?f"
    and pt: "PB_LTYPE (pf_type ?f) = PB_LTYPE_SUBMESSAGE \<Longrightarrow> plain_table d ?t (?t (pf_ptr ?f)) (pf_data_size ?f)"
    by (auto elim: plain_tableE)
  note at = read_size_at [OF t o i, where c = 0 and dest = dest]
  have fld: "it_field ?iter = ?f" using t i by simp
  have vok: "value_ok ?wire (sub_ok d ?t) ?f v" using ok by (simp add: field_ok_def Let_def)
  note restored = value_restored [OF ty vok s sub]
  have ap: "fld_region fs dest i \<inter> cell_region fs dest i = {}" by (rule cell_apart [OF l i])
  have A: "cell_region fs dest i \<subseteq> ?A" "fld_region fs dest i \<subseteq> ?A" by (simp_all add: footprint_def)
  show ?thesis
  proof (cases rule: htype_cases [of "pf_type ?f"])
    case required
    then have vs: "vs = []" using ok by (simp add: field_ok_def)
    have "defaulted d ?t (?t (pf_ptr ?f)) ?p m" if "PB_LTYPE (pf_type ?f) = PB_LTYPE_SUBMESSAGE"
      using h vs required that by (simp add: holds_def field_default_def)
    then obtain m' where m': "?func ?f s ?p m = Some (True, is_advance (length (item_wire ?wire ?f v)) s, m')"
        "changes (region ?p (pf_data_size ?f)) m m'" "item_value ?val ?f ?p m' = v"
      using restored by metis
    have "changes ?A m m'" using changes_mono [OF m'(2)] A required by (simp add: fld_extent_def)
    then show ?thesis
      using required m' vs by (simp add: field_done_def decode_static_field_def Let_def fld at with_iter_def field_value_def)
  next
    case optional
    then have vs: "vs = []" using ok by (simp add: field_ok_def)
    have ext: "fld_extent ?f = pf_data_size ?f" using optional by (simp add: fld_extent_def)
    let ?m = "if pf_size_offset ?f \<noteq> 0 then store_int 1 1 ?c m else m"
    have ch: "changes (cell_region fs dest i) m ?m" using optional by (auto simp: cell_width_def intro!: changes_store_int)
    have "defaulted d ?t (?t (pf_ptr ?f)) ?p ?m" if "PB_LTYPE (pf_type ?f) = PB_LTYPE_SUBMESSAGE"
      by (rule defaulted_frame [OF pt [OF that] _ ch]) (use h vs optional that ap ext in \<open>simp_all add: holds_def field_default_def\<close>)
    then obtain m' where m': "?func ?f s ?p ?m = Some (True, is_advance (length (item_wire ?wire ?f v)) s, m')"
        "changes (region ?p (pf_data_size ?f)) ?m m'" "item_value ?val ?f ?p m' = v"
      using restored by metis
    have A': "changes ?A m m'" using changes_trans [OF changes_mono [OF ch A(1)] changes_mono [OF m'(2)]] A(2) ext by simp
    have has: "pm_byte m' ?c \<noteq> 0" if "pf_size_offset ?f \<noteq> 0"
    proof -
      have "?c \<in> cell_region fs dest i" using that optional by (simp add: cell_width_def)
      then have "pm_byte m' ?c = pm_byte ?m ?c" using changes_byte [OF m'(2)] ap ext by auto
      moreover have "load_int 1 ?c ?m = 1" using that load_int_store_same [of 1 ?c 1 m] by simp
      ultimately show ?thesis by (metis load_int_1 unat_0 zero_neq_one)
    qed
    have "\<not> val_default ?f v" if "pf_size_offset ?f = 0" using ok optional that by (simp add: field_ok_def)
    then have "value_at d ?t fs dest i m' = [v]" using optional m'(3) has by (simp add: field_value_def)
    moreover have "decode_static_field n env sub s wt ?iter m = with_iter ?iter (?func ?f s ?p ?m)"
      using optional by (cases "pf_size_offset ?f = 0") (simp_all add: decode_static_field_def Let_def fld at del: One_nat_def)
    ultimately show ?thesis using m'(1) vs A' by (simp add: field_done_def with_iter_def)
  next
    case oneof
    then have vs: "vs = []" using ok by (simp add: field_ok_def)
    have ext: "fld_extent ?f = pf_data_size ?f" using oneof by (simp add: fld_extent_def)
    have wd: "cell_width ?f = 4" using plain_cell_width [OF ty] oneof by simp
    let ?m = "store_int 4 (unat (pf_tag ?f)) ?c m"
    have ch: "changes (cell_region fs dest i) m ?m" using wd by (intro changes_store_int) simp
    have "unat (pf_tag ?f) < 2 ^ 32" by (rule order.strict_trans2 [OF unsigned_less]) simp
    then have tag: "load_int 4 ?c ?m = unat (pf_tag ?f)" using load_int_store_same [of 4 ?c "unat (pf_tag ?f)" m] by simp
    obtain m1 where m1: "(if PB_LTYPE (pf_type ?f) = PB_LTYPE_SUBMESSAGE
          then pb_message_set_to_defaults n ?t (?t (pf_ptr ?f)) ?p (store ?p (replicate (pf_data_size ?f) 0) ?m) else Some ?m) = Some m1"
        "changes (region ?p (pf_data_size ?f)) ?m m1"
        "PB_LTYPE (pf_type ?f) = PB_LTYPE_SUBMESSAGE \<Longrightarrow> defaulted d ?t (?t (pf_ptr ?f)) ?p m1"
    proof (cases "PB_LTYPE (pf_type ?f) = PB_LTYPE_SUBMESSAGE")
      case True
      let ?z = "store ?p (replicate (pf_data_size ?f) 0) ?m"
      obtain m1 where "pb_message_set_to_defaults n ?t (?t (pf_ptr ?f)) ?p ?z = Some m1"
          "changes (region ?p (pf_data_size ?f)) ?z m1" "defaulted d ?t (?t (pf_ptr ?f)) ?p m1"
        using set_to_defaults [OF pt [OF True] n] by blast
      moreover have "changes (region ?p (pf_data_size ?f)) ?m ?z" by (rule changes_store) simp
      ultimately show thesis using that True changes_trans by simp blast
    qed (use that in simp)
    obtain m' where m': "?func ?f s ?p m1 = Some (True, is_advance (length (item_wire ?wire ?f v)) s, m')"
        "changes (region ?p (pf_data_size ?f)) m1 m'" "item_value ?val ?f ?p m' = v"
      using restored [of ?p m1 env] m1(3) by metis
    note data = changes_trans [OF m1(2) m'(2)]
    have A': "changes ?A m m'" using changes_trans [OF changes_mono [OF ch A(1)] changes_mono [OF data]] A(2) ext by simp
    have "load_int 4 ?c m' = unat (pf_tag ?f)"
      using changes_load_int [OF data, of ?c 4] ap ext wd tag by (simp add: Int_commute)
    then have "value_at d ?t fs dest i m' = [v]" using oneof m'(3) by (simp add: field_value_def)
    moreover have "decode_static_field n env sub s wt ?iter m = with_iter ?iter (?func ?f s ?p m1)"
      using oneof m1(1)
      by (cases "PB_LTYPE (pf_type ?f) = PB_LTYPE_SUBMESSAGE") (simp_all add: decode_static_field_def Let_def fld at)
    ultimately show ?thesis using m'(1) vs A' by (simp add: field_done_def with_iter_def)
  next
    case repeated
    have wd: "cell_width ?f = 4" using plain_cell_width [OF ty] repeated by simp
    note cnt = count_of [OF repeated h]
    have less: "length vs < pf_array_size ?f" using ok repeated by (simp add: field_ok_def)
    let ?m = "store_int 4 (length vs + 1) ?c m" and ?q = "?p + length vs * pf_data_size ?f"
    have ch: "changes (cell_region fs dest i) m ?m" using wd by (intro changes_store_int) simp
    obtain m' where m': "?func ?f s ?q ?m = Some (True, is_advance (length (item_wire ?wire ?f v)) s, m')"
        "changes (region ?q (pf_data_size ?f)) ?m m'" "item_value ?val ?f ?q m' = v"
      using restored [of ?q ?m env] repeated by metis
    have q: "region ?q (pf_data_size ?f) \<subseteq> fld_region fs dest i"
      using item_in_field [OF repeated less, of dest] by (simp add: mult.commute)
    have both: "changes (cell_region fs dest i \<union> region ?q (pf_data_size ?f)) m m'"
      by (rule changes_trans [OF changes_mono [OF ch] changes_mono [OF m'(2)]]) simp_all
    have "length vs + 1 < 2 ^ 32" using less plain_bounds [OF ty] by simp
    then have "load_int 4 ?c ?m = length vs + 1" using load_int_store_same [of 4 ?c "length vs + 1" m] by simp
    moreover have "region ?c 4 \<inter> region ?q (pf_data_size ?f) = {}" using q ap wd by auto
    ultimately have "load_int 4 ?c m' = length vs + 1" using changes_load_int [OF m'(2)] by simp
    then have "value_at d ?t fs dest i m' = vs @ [v]"
      by (rule append_value [OF p w i repeated cnt(2) ok both _ m'(3)])
    moreover have "changes ?A m m'" by (rule changes_mono [OF both]) (use A q in blast)
    moreover have "\<not> (wt = PB_WT_STRING \<and> PB_LTYPE (pf_type ?f) \<le> PB_LTYPE_LAST_PACKABLE)"
      using np [OF repeated] by (auto simp: is_packable_def)
    then have "decode_static_field n env sub s wt ?iter m = with_iter ?iter (?func ?f s ?q ?m)"
      using repeated less by (auto simp: decode_static_field_def Let_def fld at cnt(1) mult.commute)
    ultimately show ?thesis using m'(1) by (simp add: field_done_def with_iter_def)
  qed
qed

text \<open>A packed array.\<close>

lemma packed_loop_exact:
  assumes p: "plain_table (Suc d) (de_fields env) fs k" and w: "wire_table (Suc d) (de_fields env) fs" and i: "i < length fs"
    and rep: "PB_HTYPE (pf_type (fs ! i)) = PB_HTYPE_REPEATED" and pk: "is_packable (fs ! i)"
  shows "value_at d (de_fields env) fs dest i m = acc \<Longrightarrow>
    field_ok (sub_wire d (de_fields env)) (sub_ok d (de_fields env)) (fs ! i) (acc @ vs) \<Longrightarrow>
    is_ok s \<Longrightarrow> is_rest s = items_wire (sub_wire d (de_fields env)) (fs ! i) vs \<Longrightarrow> is_bytes_left s < n \<Longrightarrow>
    field_done d (de_fields env) fs dest i (acc @ vs) (length (items_wire (sub_wire d (de_fields env)) (fs ! i) vs)) s m
      (static_packed_loop n (call_decoder env sub) s (iter_at 0 fs dest i) m)"
proof (induction vs arbitrary: acc s m n)
  case Nil
  then obtain n' where n: "n = Suc n'" by (cases n) auto
  have "is_bytes_left s = 0" using Nil.prems(3,4) length_is_rest [of s] by (simp add: items_wire_def)
  then show ?case
    using Nil.prems(1) i p unfolding n by (auto simp: field_done_def items_wire_def Let_def elim!: plain_tableE)
next
  case (Cons v vs)
  let ?t = "de_fields env" and ?f = "fs ! i" and ?iter = "iter_at 0 fs dest i" and ?p = "dest + fld_off fs i"
  let ?c = "dest + fld_cell fs i" and ?wire = "sub_wire d (de_fields env)" and ?func = "call_decoder env sub"
  let ?ok = "sub_ok d ?t" and ?val = "sub_value d ?t" and ?q = "dest + fld_off fs i + length acc * pf_data_size (fs ! i)"
  obtain n' where n: "n = Suc n'" using Cons.prems(5) by (cases n) auto
  from p i have t: "tags_ok fs" and o: "offsets_ok fs" and l: "layout_ok fs k" and ty: "plain_type ?f" by (auto elim: plain_tableE)
  note at = read_size_at [OF t o i, where c = 0 and dest = dest]
  have fld: "it_field ?iter = ?f" using t i by simp
  have ns: "PB_LTYPE (pf_type ?f) \<noteq> PB_LTYPE_SUBMESSAGE" using pk by (auto simp: is_packable_def pb_types)
  have wd: "cell_width ?f = 4" using plain_cell_width [OF ty] rep by simp
  have ap: "fld_region fs dest i \<inter> cell_region fs dest i = {}" by (rule cell_apart [OF l i])
  have iw: "items_wire ?wire ?f (v # vs) = item_wire ?wire ?f v @ items_wire ?wire ?f vs" by (simp add: items_wire_def)
  have fok: "length (acc @ v # vs) \<le> pf_array_size ?f" "list_all (value_ok ?wire ?ok ?f) (acc @ v # vs)"
      "length (items_wire ?wire ?f (acc @ v # vs)) < 2 ^ 32"
    using Cons.prems(2) rep pk by (simp_all add: field_ok_def)
  have ok1: "field_ok ?wire ?ok ?f (acc @ [v])" using fok rep by (auto simp: field_ok_def items_wire_def)
  have vok: "value_ok ?wire ?ok ?f v" using fok(2) by simp
  have cnt: "load_int 4 ?c m = length acc" using arg_cong [OF Cons.prems(1), of length] rep by (simp add: field_value_def)
  have less: "length acc < pf_array_size ?f" using fok(1) by simp
  have q: "region ?q (pf_data_size ?f) \<subseteq> fld_region fs dest i"
    using item_in_field [OF rep less, of dest] by (simp add: mult.commute)
  let ?len = "length (item_wire ?wire ?f v)"
  obtain m1 where m1: "?func ?f s ?q m = Some (True, is_advance ?len s, m1)"
      "changes (region ?q (pf_data_size ?f)) m m1" "item_value ?val ?f ?q m1 = v"
    using value_restored [OF ty vok Cons.prems(3) order_refl, of "items_wire ?wire ?f vs" sub ?q m env] Cons.prems(4) ns iw by metis
  have left: "is_bytes_left (is_advance ?len s) < is_bytes_left s"
    using packable_eats [OF ty _ m1(1)] pk by (simp add: is_packable_def)
  let ?m = "store_int 4 (length acc + 1) ?c m1"
  have disj: "region ?q (pf_data_size ?f) \<inter> region ?c 4 = {}" using q ap wd by auto
  have "load_int 4 ?c m1 = length acc" using changes_load_int [OF m1(2), of ?c 4] disj cnt by (simp add: Int_commute)
  then have loop: "static_packed_loop n ?func s ?iter m = static_packed_loop n' ?func (is_advance ?len s) ?iter ?m"
    using left less m1(1) unfolding n by (simp add: Let_def fld at cnt mult.commute)
  have cm: "changes (region ?c 4) m1 ?m" by (rule changes_store_int) simp
  have both: "changes (cell_region fs dest i \<union> region ?q (pf_data_size ?f)) m ?m"
    by (rule changes_trans [OF changes_mono [OF m1(2)] changes_mono [OF cm]]) (use wd in simp_all)
  have "item_value ?val ?f ?q ?m = item_value ?val ?f ?q m1"
  proof (rule item_frame [OF ty cm disj])
    have "value_ok ?wire ?ok ?f (item_value ?val ?f ?q m1)" using vok m1(3) by simp
    then show "bytes_fit ?f ?q m1" using bytes_fitI [OF ty] by blast
  qed (use ns in simp)
  then have new: "item_value ?val ?f ?q ?m = v" using m1(3) by simp
  have "length acc + 1 < 2 ^ 32" using less plain_bounds [OF ty] by simp
  then have "load_int 4 ?c ?m = length acc + 1" using load_int_store_same [of 4 ?c "length acc + 1" m1] by simp
  then have val: "value_at d ?t fs dest i ?m = acc @ [v]"
    by (rule append_value [OF p w i rep Cons.prems(1) ok1 both _ new])
  have rest: "is_ok (is_advance ?len s)" "is_rest (is_advance ?len s) = items_wire ?wire ?f vs"
    using is_advance_rest [OF Cons.prems(3), of "item_wire ?wire ?f v" "items_wire ?wire ?f vs"] Cons.prems(4) iw by simp_all
  have "field_done d ?t fs dest i ((acc @ [v]) @ vs) (length (items_wire ?wire ?f vs)) (is_advance ?len s) ?m
      (static_packed_loop n' ?func (is_advance ?len s) ?iter ?m)"
    by (rule Cons.IH [OF val _ rest]) (use Cons.prems(2,5) left n in simp_all)
  then obtain m' where m': "static_packed_loop n' ?func (is_advance ?len s) ?iter ?m =
        Some (True, is_advance (length (items_wire ?wire ?f vs)) (is_advance ?len s), ?iter, m')"
      "changes (footprint fs dest i) ?m m'" "value_at d ?t fs dest i m' = acc @ v # vs"
    by (auto simp: field_done_def)
  have "changes (footprint fs dest i) m ?m" by (rule changes_mono [OF both]) (use q in \<open>auto simp: footprint_def\<close>)
  then show ?case
    using m' changes_trans unfolding loop by (auto simp: field_done_def iw is_advance_add)
qed

lemma decode_packed:
  assumes p: "plain_table (Suc d) (de_fields env) fs k" and w: "wire_table (Suc d) (de_fields env) fs" and i: "i < length fs"
    and rep: "PB_HTYPE (pf_type (fs ! i)) = PB_HTYPE_REPEATED" and pk: "is_packable (fs ! i)"
    and h: "holds d (de_fields env) fs dest i acc m"
    and ok: "field_ok (sub_wire d (de_fields env)) (sub_ok d (de_fields env)) (fs ! i) (acc @ vs)"
    and s: "is_ok s" "is_rest s = (leb (length (items_wire (sub_wire d (de_fields env)) (fs ! i) vs)) @
              items_wire (sub_wire d (de_fields env)) (fs ! i) vs) @ rest" and n: "is_bytes_left s \<le> n"
  shows "field_done d (de_fields env) fs dest i (acc @ vs)
    (length (leb (length (items_wire (sub_wire d (de_fields env)) (fs ! i) vs)) @ items_wire (sub_wire d (de_fields env)) (fs ! i) vs)) s m
    (decode_static_field n env sub s PB_WT_STRING (iter_at 0 fs dest i) m)"
proof -
  let ?f = "fs ! i" and ?items = "items_wire (sub_wire d (de_fields env)) (fs ! i) vs" and ?iter = "iter_at 0 fs dest i"
  from p have t: "tags_ok fs" by (auto elim: plain_tableE)
  have fld: "it_field ?iter = ?f" using t i by simp
  have len: "length ?items < 2 ^ 32" using ok rep pk by (simp add: field_ok_def items_wire_def)
  obtain ss u where ss: "pb_make_string_substream (de_read env) s = (Some ss, u)" "is_ok ss" "is_rest ss = ?items"
      "pb_close_string_substream (de_read env) u (is_advance (length ?items) ss) = (True, is_advance (length (leb (length ?items) @ ?items)) s)"
    using substream_exact [OF len s] by (metis order_refl)
  have left: "is_bytes_left ss < n" using substream_any(2) [OF s(1) ss(1) refl] n by simp
  have "value_at d (de_fields env) fs dest i m = acc" by (rule count_of(2) [OF rep h])
  then have "field_done d (de_fields env) fs dest i (acc @ vs) (length ?items) ss m
      (static_packed_loop n (call_decoder env sub) ss ?iter m)"
    by (rule packed_loop_exact [OF p w i rep pk _ _ ss(2,3) left]) (use ok in simp)
  then obtain m' where m': "static_packed_loop n (call_decoder env sub) ss ?iter m = Some (True, is_advance (length ?items) ss, ?iter, m')"
      "changes (footprint fs dest i) m m'" "value_at d (de_fields env) fs dest i m' = acc @ vs"
    by (auto simp: field_done_def)
  have "is_bytes_left (is_advance (length ?items) ss) = 0"
    using length_is_rest [OF ss(2)] ss(3) by (simp add: is_advance_def)
  then have "decode_static_field n env sub s PB_WT_STRING ?iter m =
      Some (True, is_advance (length (leb (length ?items) @ ?items)) s, ?iter, m')"
    using rep pk ss m'(1) by (simp add: decode_static_field_def Let_def fld is_packable_def)
  then show ?thesis using m'(2,3) by (simp add: field_done_def)
qed

end
