(* ===== verification/PbMessageSpec.thy ===== *)
theory PbMessageSpec
  imports PbRoundSpec
begin

text \<open>
  The loop of the message decoder at the wire format of a message: the record of the required fields, the
  fields one after another, the whole message, and the round trip through a buffer.
\<close>

section \<open>The record of the required fields\<close>

abbreviation is_required :: "pb_field_t \<Rightarrow> bool" where
  "is_required f \<equiv> PB_HTYPE (pf_type f) = PB_HTYPE_REQUIRED"

definition req_index :: "pb_field_t list \<Rightarrow> nat \<Rightarrow> nat" where
  "req_index fs i = length (filter is_required (take i fs))"

lemma req_index_Suc: "i < length fs \<Longrightarrow> req_index fs (Suc i) = req_index fs i + of_bool (is_required (fs ! i))"
  by (simp add: req_index_def take_Suc_conv_app_nth)

lemma req_index_mono: "i \<le> j \<Longrightarrow> req_index fs i \<le> req_index fs j"
proof -
  assume "i \<le> j"
  then have "take j fs = take i fs @ take (j - i) (drop i fs)" by (metis le_add_diff_inverse take_add)
  then show ?thesis by (simp add: req_index_def)
qed

lemma req_index_inj:
  assumes "is_required (fs ! i)" and "is_required (fs ! j)" and "i < length fs" and "j < length fs" and "req_index fs i = req_index fs j"
  shows "i = j"
proof (rule ccontr)
  assume "i \<noteq> j"
  then consider "i < j" | "j < i" by linarith
  then show False
  proof cases
    case 1
    then show False using req_index_mono [of "Suc i" j fs] req_index_Suc [OF assms(3)] assms(1,5) by simp
  next
    case 2
    then show False using req_index_mono [of "Suc j" i fs] req_index_Suc [OF assms(4)] assms(2,5) by simp
  qed
qed

lemma req_index_onto: "r < req_index fs n \<Longrightarrow> n \<le> length fs \<Longrightarrow> \<exists>i < n. is_required (fs ! i) \<and> req_index fs i = r"
proof (induction n)
  case (Suc n)
  show ?case
  proof (cases "r < req_index fs n")
    case True
    then show ?thesis using Suc.IH Suc.prems(2) less_SucI by (metis Suc_leD)
  next
    case False
    then show ?thesis using Suc.prems req_index_Suc [of n fs] by (cases "is_required (fs ! n)") auto
  qed
qed (simp add: req_index_def)

lemma iter_req_index: "tags_ok fs \<Longrightarrow> i < length fs \<Longrightarrow> it_required_field_index (iter_at c fs dest i) = req_index fs i"
proof (induction i)
  case 0
  then show ?case by (simp add: iter_at.simps pb_field_iter_begin_def Let_def req_index_def)
next
  case (Suc i)
  have i: "i < length fs" using Suc.prems(2) by simp
  note st = iter_at_state [OF Suc.prems(1) i, of c dest]
  have tags: "pf_tag (fs ! i) \<noteq> 0" "pf_tag (fs ! Suc i) \<noteq> 0" using tag_nonzero [OF Suc.prems(1)] Suc.prems(2) by simp_all
  show ?case
    using Suc.IH [OF Suc.prems(1) i] st tags Suc.prems(2) req_index_Suc [OF i] iter_at_field [OF Suc.prems(1) i, of c dest]
    by (simp add: iter_at.simps pb_field_iter_next_def Let_def)
qed

text \<open>\<open>seen_ok fs p seen\<close>: the bits are those of the required fields that satisfy \<open>p\<close>.\<close>

definition seen_ok :: "pb_field_t list \<Rightarrow> (nat \<Rightarrow> bool) \<Rightarrow> u32 list \<Rightarrow> bool" where
  "seen_ok fs p seen \<longleftrightarrow> length seen = 2 \<and>
     (\<forall>r < 64. bit (seen ! (r div 32)) (r mod 32) \<longleftrightarrow> (\<exists>i < length fs. is_required (fs ! i) \<and> p i \<and> req_index fs i = r))"

lemma seen_start: "(\<And>i. \<not> p i) \<Longrightarrow> seen_ok fs p [0, 0]"
  by (auto simp: seen_ok_def nth_Cons split: nat.splits)

lemma mark_seen_ok:
  assumes t: "tags_ok fs" and i: "i < length fs" and s: "seen_ok fs p seen"
  shows "seen_ok fs (\<lambda>j. j = i \<or> p j) (mark_seen (iter_at c fs dest i) seen)"
proof (cases "is_required (fs ! i) \<and> req_index fs i < 64")
  case False
  then have same: "mark_seen (iter_at c fs dest i) seen = seen"
    using t i by (auto simp: mark_seen_def Let_def iter_req_index PB_MAX_REQUIRED_FIELDS_def)
  show ?thesis
    unfolding same seen_ok_def using s False by (auto simp: seen_ok_def)
next
  case True
  let ?k = "req_index fs i"
  have k: "?k div 32 < 2" using True by (intro less_mult_imp_div_less) simp
  have marked: "mark_seen (iter_at c fs dest i) seen = seen[?k div 32 := (seen ! (?k div 32)) OR push_bit (?k mod 32) 1]"
    using t i True by (simp add: mark_seen_def Let_def iter_req_index PB_MAX_REQUIRED_FIELDS_def)
  have len: "length seen = 2" using s by (simp add: seen_ok_def)
  have "bit (mark_seen (iter_at c fs dest i) seen ! (r div 32)) (r mod 32) \<longleftrightarrow>
      (\<exists>j < length fs. is_required (fs ! j) \<and> (j = i \<or> p j) \<and> req_index fs j = r)" if r: "r < 64" for r
  proof -
    have old: "bit (seen ! (r div 32)) (r mod 32) \<longleftrightarrow> (\<exists>j < length fs. is_required (fs ! j) \<and> p j \<and> req_index fs j = r)"
      using s r by (simp add: seen_ok_def)
    have "bit (mark_seen (iter_at c fs dest i) seen ! (r div 32)) (r mod 32) \<longleftrightarrow> bit (seen ! (r div 32)) (r mod 32) \<or> r = ?k"
    proof (cases "r div 32 = ?k div 32")
      case same: True
      have "bit (push_bit (?k mod 32) 1 :: u32) (r mod 32) \<longleftrightarrow> r mod 32 = ?k mod 32"
        by (auto simp: bit_simps)
      moreover have "r mod 32 = ?k mod 32 \<longleftrightarrow> r = ?k" using same by (metis div_mult_mod_eq)
      ultimately show ?thesis using same k len unfolding marked by (simp add: bit_or_iff)
    next
      case False
      then show ?thesis unfolding marked by auto
    qed
    then show ?thesis using old True i by auto
  qed
  then show ?thesis using len unfolding seen_ok_def marked by simp
qed

lemma required_loop_at:
  "tags_ok fs \<Longrightarrow> i < length fs \<Longrightarrow>
   required_loop (iter_at c fs dest i) = (req_index fs (length fs - 1), pf_type (fs ! (length fs - 1)), iter_at c fs dest 0)"
proof (induction "length fs - i" arbitrary: i rule: less_induct)
  case less
  show ?case
  proof (cases "Suc i < length fs")
    case True
    then show ?thesis
      using less.hyps [of "Suc i"] less.prems iter_next_at [OF less.prems, of c dest] by (simp add: required_loop.simps [of "iter_at c fs dest i"])
  next
    case False
    then have "required_loop (iter_at c fs dest i) = (req_index fs i, pf_type (fs ! i), iter_at c fs dest 0)"
      using less.prems iter_next_at [OF less.prems, of c dest] iter_req_index [OF less.prems, of c dest]
      by (simp add: required_loop.simps [of "iter_at c fs dest i"])
    moreover have "i = length fs - 1" using False less.prems(2) by simp
    ultimately show ?thesis by simp
  qed
qed

lemma bit_top_word: "n < 32 \<Longrightarrow> k \<le> 32 \<Longrightarrow> bit (drop_bit (32 - k) (NOT 0) :: u32) n \<longleftrightarrow> n < k"
  by (auto simp: bit_simps)

lemma all_seen:
  assumes t: "tags_ok fs" and a: "a < length fs"
  shows "seen_ok fs (\<lambda>i. True) seen \<Longrightarrow> all_required_seen (iter_at c fs dest a) seen"
    and "seen_ok fs p seen \<Longrightarrow> i < length fs \<Longrightarrow> is_required (fs ! i) \<Longrightarrow> \<not> p i \<Longrightarrow> req_index fs i < 64 \<Longrightarrow>
      \<not> all_required_seen (iter_at c fs dest a) seen"
proof -
  let ?last = "length fs - 1" and ?total = "req_index fs (length fs)"
  let ?count = "min ?total 64"
  have ne: "0 < length fs" using a by auto
  then have "Suc ?last = length fs" by simp
  then have total: "?total = req_index fs ?last + of_bool (is_required (fs ! ?last))"
    using req_index_Suc [of ?last fs] ne by simp
  have tag0: "pf_tag (it_field (iter_at c fs dest 0)) \<noteq> 0" using tag_nonzero [OF t ne] iter_at_field [OF t ne, of c dest] by simp
  have iff: "all_required_seen (iter_at c fs dest a) seen \<longleftrightarrow>
      (?count > 0 \<longrightarrow> list_all (\<lambda>i. seen ! i = NOT 0) [0..<?count div 32] \<and>
         (?count mod 32 \<noteq> 0 \<longrightarrow> seen ! (?count div 32) = drop_bit (32 - ?count mod 32) (NOT 0)))" for seen
    using tag0 required_loop_at [OF t a, of c dest]
    unfolding all_required_seen_def Let_def total PB_MAX_REQUIRED_FIELDS_def by (auto simp: min_def)
  show "all_required_seen (iter_at c fs dest a) seen" if s: "seen_ok fs (\<lambda>i. True) seen"
  proof -
    have bit: "bit (seen ! q) n \<longleftrightarrow> 32 * q + n < ?total" if "q < 2" "n < 32" for q n
    proof -
      have r: "32 * q + n < 64" "(32 * q + n) div 32 = q" "(32 * q + n) mod 32 = n" using that by auto
      have "bit (seen ! q) n \<longleftrightarrow> (\<exists>i < length fs. is_required (fs ! i) \<and> req_index fs i = 32 * q + n)"
        using s r by (auto simp: seen_ok_def)
      also have "\<dots> \<longleftrightarrow> 32 * q + n < ?total"
      proof
        assume "\<exists>i < length fs. is_required (fs ! i) \<and> req_index fs i = 32 * q + n"
        then obtain i where i: "i < length fs" "is_required (fs ! i)" "req_index fs i = 32 * q + n" by blast
        then show "32 * q + n < ?total"
          using req_index_Suc [OF i(1)] req_index_mono [of "Suc i" "length fs" fs] by simp
      qed (use req_index_onto [of "32 * q + n" fs "length fs"] in auto)
      finally show ?thesis .
    qed
    have full: "seen ! q = NOT 0" if "q < ?count div 32" for q
    proof (rule bit_word_eqI)
      fix n assume "n < LENGTH(32)"
      then show "bit (seen ! q) n = bit (NOT 0 :: u32) n" using bit [of q n] that by (auto simp: bit_simps)
    qed
    have part: "seen ! (?count div 32) = drop_bit (32 - ?count mod 32) (NOT 0)" if "?count mod 32 \<noteq> 0"
    proof (rule bit_word_eqI)
      fix n assume n: "n < LENGTH(32)"
      have less: "?total < 64" using that by (cases "?total < 64") auto
      then have "?total = 32 * (?total div 32) + ?total mod 32" "?total div 32 < 2" by simp_all
      then have "32 * (?total div 32) + n < ?total \<longleftrightarrow> n < ?total mod 32" by linarith
      then show "bit (seen ! (?count div 32)) n = bit (drop_bit (32 - ?count mod 32) (NOT 0) :: u32) n"
        using bit [of "?total div 32" n] bit_top_word [of n "?total mod 32"] n less by (simp add: min_def)
    qed
    show ?thesis unfolding iff using full part by (auto simp: list_all_iff)
  qed
  show "\<not> all_required_seen (iter_at c fs dest a) seen"
    if s: "seen_ok fs p seen" and i: "i < length fs" "is_required (fs ! i)" "\<not> p i" "req_index fs i < 64"
  proof
    assume all: "all_required_seen (iter_at c fs dest a) seen"
    let ?r = "req_index fs i"
    have nb: "\<not> bit (seen ! (?r div 32)) (?r mod 32)"
      using s i unfolding seen_ok_def by (metis req_index_inj)
    have "?r < ?total" using req_index_Suc [OF i(1)] req_index_mono [of "Suc i" "length fs" fs] i by simp
    then have r: "?r < ?count" using i(4) by simp
    then have "?r div 32 < ?count div 32 \<or> ?r div 32 = ?count div 32 \<and> ?r mod 32 < ?count mod 32"
      by (metis div_le_mono div_mult_mod_eq less_imp_le nat_add_left_cancel_less order_le_less)
    then show False
    proof
      assume "?r div 32 < ?count div 32"
      then have "seen ! (?r div 32) = NOT 0" using all r unfolding iff by (auto simp: list_all_iff)
      then show False using nb by (simp add: bit_simps)
    next
      assume b: "?r div 32 = ?count div 32 \<and> ?r mod 32 < ?count mod 32"
      then have "seen ! (?r div 32) = drop_bit (32 - ?count mod 32) (NOT 0)" using all r unfolding iff by auto
      then show False using nb b bit_top_word [of "?r mod 32" "?count mod 32"] by simp
    qed
  qed
qed

section \<open>One field of the input\<close>

lemma tag_takes:
  assumes v: "tag_valid (wt, num)" and s: "is_ok s" "is_rest s = leb (pb_tag_number (wt, num)) @ rest"
  obtains eof where "pb_decode_tag io s = ((True, wt, num, eof), is_advance (length (leb (pb_tag_number (wt, num)))) s)"
proof -
  have "read_tag io s = (Some (wt, num), is_advance (length (leb (pb_tag_number (wt, num)))) s)"
    by (rule takesD [OF read_tag_takes [OF v] s])
  then show thesis using that by (auto simp: read_tag_def split: prod.splits if_splits)
qed

text \<open>The state of the loop when the input so far had the values \<open>cur\<close>.\<close>

definition decoding ::
    "nat \<Rightarrow> (nat \<Rightarrow> pb_field_t list) \<Rightarrow> pb_field_t list \<Rightarrow> nat \<Rightarrow> nat \<Rightarrow> 'h pb_mem \<Rightarrow> pb_val list list \<Rightarrow> ('s, 'h) pb_decoding \<Rightarrow> bool" where
  "decoding d tables fs dest k m cur st \<longleftrightarrow>
     (\<exists>a < length fs. dl_iter st = iter_at 0 fs dest a) \<and> is_ok (dl_stream st) \<and> represents d tables fs dest cur (dl_mem st) \<and>
     changes (region dest k) m (dl_mem st) \<and> dl_fixed_count_field st = None \<and>
     (dl_extension_range_start st = 0 \<or> dl_extension_range_start st = - 1) \<and>
     seen_ok fs (\<lambda>i. cur ! i \<noteq> []) (dl_fields_seen st)"

text \<open>The values \<open>chunk\<close> can come next for field \<open>i\<close>: those of a packed array, or a single value.\<close>

definition chunk_ok ::
    "nat \<Rightarrow> (nat \<Rightarrow> pb_field_t list) \<Rightarrow> pb_field_t list \<Rightarrow> pb_val list list \<Rightarrow> bool \<Rightarrow> nat \<Rightarrow> pb_val list \<Rightarrow> bool" where
  "chunk_ok d tables fs cur packed i chunk \<longleftrightarrow>
     i < length fs \<and> field_ok (sub_wire d tables) (sub_ok d tables) (fs ! i) (cur ! i @ chunk) \<and>
     (if packed then PB_HTYPE (pf_type (fs ! i)) = PB_HTYPE_REPEATED \<and> is_packable (fs ! i) \<and> chunk \<noteq> [] else length chunk = 1) \<and>
     list_all (\<lambda>j. j \<noteq> i \<and> same_oneof fs i j \<longrightarrow> cur ! j = []) [0..<length fs]"

definition subs_restore :: "nat \<Rightarrow> nat \<Rightarrow> (nat \<Rightarrow> pb_field_t list) \<Rightarrow> ('s, 'h) pb_field_decoder \<Rightarrow> pb_field_t list \<Rightarrow> bool" where
  "subs_restore b d tables sub fs \<longleftrightarrow>
     (\<forall>i < length fs. PB_LTYPE (pf_type (fs ! i)) = PB_LTYPE_SUBMESSAGE \<longrightarrow> sub_restores b d tables sub (fs ! i))"

text \<open>The wire type that comes with a chunk, and what comes behind the tag.\<close>

definition chunk_type :: "bool \<Rightarrow> pb_field_t \<Rightarrow> pb_wire_type_t" where
  "chunk_type packed f = (if packed then PB_WT_STRING else field_wire_type f)"

definition chunk_body :: "bool \<Rightarrow> (pb_field_t \<Rightarrow> pb_val list list \<Rightarrow> u8 list) \<Rightarrow> pb_field_t \<Rightarrow> pb_val list \<Rightarrow> u8 list" where
  "chunk_body packed wire f chunk =
     (if packed then leb (length (items_wire wire f chunk)) @ items_wire wire f chunk else item_wire wire f (hd chunk))"

definition chunk_wire :: "bool \<Rightarrow> (pb_field_t \<Rightarrow> pb_val list list \<Rightarrow> u8 list) \<Rightarrow> pb_field_t \<Rightarrow> pb_val list \<Rightarrow> u8 list" where
  "chunk_wire packed wire f chunk = tag_wire (chunk_type packed f) f @ chunk_body packed wire f chunk"

lemma decode_chunk:
  assumes p: "plain_table (Suc d) (de_fields env) fs k" and w: "wire_table (Suc d) (de_fields env) fs"
    and r: "represents d (de_fields env) fs dest cur m" and c: "chunk_ok d (de_fields env) fs cur packed i chunk"
    and sub: "subs_restore b d (de_fields env) sub fs"
    and s: "is_ok s" "is_bytes_left s \<le> b" "is_rest s = chunk_body packed (sub_wire d (de_fields env)) (fs ! i) chunk @ rest"
    and n: "is_bytes_left s \<le> n" "2 * d < n"
  shows "field_done d (de_fields env) fs dest i (cur ! i @ chunk) (length (chunk_body packed (sub_wire d (de_fields env)) (fs ! i) chunk)) s m
    (decode_field n env sub s (chunk_type packed (fs ! i)) (iter_at 0 fs dest i) m)"
proof -
  let ?f = "fs ! i" and ?iter = "iter_at 0 fs dest i"
  have i: "i < length fs" and ok: "field_ok (sub_wire d (de_fields env)) (sub_ok d (de_fields env)) ?f (cur ! i @ chunk)"
    and union: "\<And>j. j < length fs \<Longrightarrow> j \<noteq> i \<Longrightarrow> same_oneof fs i j \<Longrightarrow> cur ! j = []" using c by (simp_all add: chunk_ok_def list_all_length)
  from p i have t: "tags_ok fs" and o: "offsets_ok fs" and ty: "plain_type ?f" by (auto elim: plain_tableE)
  have n2: "2 * d \<le> n" using n(2) by simp
  note h = representsD(2) [OF r i]
  have fld: "it_field ?iter = ?f" using t i by simp
  have static: "field_done d (de_fields env) fs dest i (cur ! i @ chunk)
      (length (chunk_body packed (sub_wire d (de_fields env)) ?f chunk)) s m (decode_static_field n env sub s (chunk_type packed ?f) ?iter m)"
  proof (cases packed)
    case True
    then have rep: "PB_HTYPE (pf_type ?f) = PB_HTYPE_REPEATED" "is_packable ?f" using c by (simp_all add: chunk_ok_def)
    have body: "chunk_body packed (sub_wire d (de_fields env)) ?f chunk =
        leb (length (items_wire (sub_wire d (de_fields env)) ?f chunk)) @ items_wire (sub_wire d (de_fields env)) ?f chunk"
      using True by (simp add: chunk_body_def)
    have "decode_static_field n env sub s (chunk_type packed ?f) ?iter m = decode_static_field n env sub s PB_WT_STRING ?iter m"
      using True by (simp add: chunk_type_def)
    then show ?thesis
      using decode_packed [OF p w i rep h ok s(1) s(3) [unfolded body] n(1)] body by simp
  next
    case False
    then have "length chunk = 1" using c by (auto simp: chunk_ok_def)
    then obtain v where v: "chunk = [v]" by (cases chunk) auto
    have body: "chunk_body packed (sub_wire d (de_fields env)) ?f chunk = item_wire (sub_wire d (de_fields env)) ?f v"
      using False v by (auto simp: chunk_body_def)
    show ?thesis
      unfolding body unfolding v
    proof (rule decode_single [OF p w i h ok [unfolded v] _ _ s(1,2) s(3) [unfolded body] n2])
      show "PB_LTYPE (pf_type ?f) = PB_LTYPE_SUBMESSAGE \<Longrightarrow> sub_restores b d (de_fields env) sub ?f"
        using sub i by (simp add: subs_restore_def)
      show "is_packable ?f \<Longrightarrow> chunk_type packed ?f \<noteq> PB_WT_STRING" using False by (simp add: chunk_type_def field_wire_type_def pb_types Let_def PB_WT_32BIT_def PB_WT_64BIT_def PB_WT_VARINT_def PB_WT_STRING_def)
    qed
  qed
  show ?thesis
  proof (cases "is_oneof ?f")
    case True
    then have "cur ! i = []" using ok c by (auto simp: field_ok_def chunk_ok_def split: if_splits)
    then have "cell_val fs dest i m = 0" using representsD(3) [OF r i True] union by metis
    then have "read_size ?iter m = 0" by (simp add: read_size_at(1) [OF t o i] cell_val_def)
    then have "pb_release_union_field n env s ?iter m = Some (True, s, ?iter, m)"
      by (simp add: pb_release_union_field_def Let_def)
    then show ?thesis using static True plain_static [OF ty] by (simp add: decode_field_def fld)
  next
    case False
    then show ?thesis using static plain_static [OF ty] by (simp add: decode_field_def fld)
  qed
qed

lemma decode_one_chunk:
  assumes p: "plain_table (Suc d) (de_fields env) fs k" and w: "wire_table (Suc d) (de_fields env) fs"
    and st: "decoding d (de_fields env) fs dest k m0 cur st" and c: "chunk_ok d (de_fields env) fs cur packed i chunk"
    and sub: "subs_restore b d (de_fields env) sub fs"
    and b: "is_bytes_left (dl_stream st) \<le> b"
    and rest: "is_rest (dl_stream st) = chunk_wire packed (sub_wire d (de_fields env)) (fs ! i) chunk @ rest"
    and n: "is_bytes_left (dl_stream st) \<le> Suc n" "2 * d < n"
  obtains st' where "decode_one n env sub st = Some (Continue, st')"
    and "decoding d (de_fields env) fs dest k m0 (cur[i := cur ! i @ chunk]) st'"
    and "dl_stream st' = is_advance (length (chunk_wire packed (sub_wire d (de_fields env)) (fs ! i) chunk)) (dl_stream st)"
    and "is_bytes_left (dl_stream st') < is_bytes_left (dl_stream st)"
proof -
  let ?t = "de_fields env" and ?f = "fs ! i" and ?wire = "sub_wire d (de_fields env)" and ?s = "dl_stream st"
  let ?tag = "tag_wire (chunk_type packed ?f) ?f" and ?body = "chunk_body packed ?wire ?f chunk"
  have i: "i < length fs" and cne: "chunk \<noteq> []" and ok: "field_ok ?wire (sub_ok d ?t) ?f (cur ! i @ chunk)"
    and union: "\<And>j. j < length fs \<Longrightarrow> j \<noteq> i \<Longrightarrow> same_oneof fs i j \<Longrightarrow> cur ! j = []"
    using c by (auto simp: chunk_ok_def list_all_length split: if_splits)
  from p i have t: "tags_ok fs" and l: "layout_ok fs k" and ty: "plain_type ?f" by (auto elim: plain_tableE)
  obtain a where a: "a < length fs" "dl_iter st = iter_at 0 fs dest a" using st by (auto simp: decoding_def)
  have s: "is_ok ?s" and r: "represents d ?t fs dest cur (dl_mem st)" and seen: "seen_ok fs (\<lambda>i. cur ! i \<noteq> []) (dl_fields_seen st)"
    using st by (simp_all add: decoding_def)
  have valid: "tag_valid (chunk_type packed ?f, pf_tag ?f)"
    using tag_emits(3,4) [OF ty tag_nonzero [OF t i] wire_tableD(1) [OF w i]] by (auto simp: chunk_type_def)
  have rest: "is_rest ?s = ?tag @ ?body @ rest" using rest by (simp add: chunk_wire_def)
  let ?u = "is_advance (length ?tag) ?s"
  obtain eof where tg: "pb_decode_tag (de_read env) ?s = ((True, chunk_type packed ?f, pf_tag ?f, eof), ?u)"
    using tag_takes [OF valid s] rest unfolding tag_wire_def by metis
  have u: "is_ok ?u" "is_rest ?u = ?body @ rest" using is_advance_rest [OF s rest] by simp_all
  have left: "is_bytes_left ?u < is_bytes_left ?s" using pb_tag_left [OF tg] by simp
  have "field_done d ?t fs dest i (cur ! i @ chunk) (length ?body) ?u (dl_mem st)
      (decode_field n env sub ?u (chunk_type packed ?f) (iter_at 0 fs dest i) (dl_mem st))"
    by (rule decode_chunk [OF p w r c sub u(1) _ u(2) _ n(2)]) (use left b n in simp_all)
  then obtain m' where m': "decode_field n env sub ?u (chunk_type packed ?f) (iter_at 0 fs dest i) (dl_mem st) =
        Some (True, is_advance (length ?body) ?u, iter_at 0 fs dest i, m')"
      "changes (footprint fs dest i) (dl_mem st) m'" "value_at d ?t fs dest i m' = cur ! i @ chunk"
    by (auto simp: field_done_def)
  let ?seen = "mark_seen (iter_at 0 fs dest i) (dl_fields_seen st)"
  let ?st = "st\<lparr>dl_stream := is_advance (length ?body) ?u, dl_iter := iter_at 0 fs dest i, dl_mem := m', dl_fields_seen := ?seen\<rparr>"
  have enter: "enter_fixed_count (st\<lparr>dl_stream := ?u, dl_iter := iter_at 0 fs dest i\<rparr>) =
      (True, st\<lparr>dl_stream := ?u, dl_iter := iter_at 0 fs dest i\<rparr>)"
    by (rule enter_plain [OF p i]) simp
  have one: "decode_one n env sub st = Some (Continue, ?st)"
    using tg find_at(4) [OF p a(1) i, of dest] a(2) enter m'(1) by (simp add: decode_one_def decode_known_def Let_def)
  have "represents d ?t fs dest (cur[i := cur ! i @ chunk]) m'"
    by (rule represents_update [OF p w i r m'(2,3) _ ok union]) (use cne in simp)
  moreover have "changes (region dest k) m0 m'"
    using st changes_trans [OF _ changes_mono [OF m'(2) footprint_within [OF l i]]] by (auto simp: decoding_def)
  moreover have "(\<lambda>j. cur[i := cur ! i @ chunk] ! j \<noteq> []) = (\<lambda>j. j = i \<or> cur ! j \<noteq> [])"
    using representsD(1) [OF r] i cne by (auto simp: nth_list_update)
  moreover have adv: "is_advance (length ?body) ?u = is_advance (length (chunk_wire packed ?wire ?f chunk)) ?s"
    unfolding chunk_wire_def by (simp add: is_advance_add)
  moreover have "is_ok (is_advance (length ?body) ?u)" by (rule is_advance_rest(1) [OF u])
  ultimately have "decoding d ?t fs dest k m0 (cur[i := cur ! i @ chunk]) ?st"
    using mark_seen_ok [OF t i seen, of 0 dest] st i unfolding decoding_def by auto
  moreover have "is_bytes_left (is_advance (length ?body) ?u) < is_bytes_left ?s" using left by (simp add: is_advance_def)
  ultimately show thesis using that [OF one] adv by simp
qed

text \<open>A field that the table does not have.\<close>

definition unknown_ok :: "pb_field_t list \<Rightarrow> u32 \<Rightarrow> wire \<Rightarrow> bool" where
  "unknown_ok fs num w \<longleftrightarrow> tag_valid (wire_type w, num) \<and> wire_valid w \<and> num \<notin> pf_tag ` set fs"

definition unknown_wire :: "u32 \<Rightarrow> wire \<Rightarrow> u8 list" where
  "unknown_wire num w = leb (pb_tag_number (wire_type w, num)) @ wire_bytes w"

lemma decode_one_unknown:
  assumes p: "plain_table (Suc d) (de_fields env) fs k"
    and st: "decoding d (de_fields env) fs dest k m0 cur st" and c: "unknown_ok fs num w"
    and rest: "is_rest (dl_stream st) = unknown_wire num w @ rest"
  obtains st' where "decode_one n env sub st = Some (Continue, st')"
    and "decoding d (de_fields env) fs dest k m0 cur st'"
    and "dl_stream st' = is_advance (length (unknown_wire num w)) (dl_stream st)"
    and "is_bytes_left (dl_stream st') < is_bytes_left (dl_stream st)"
proof -
  let ?s = "dl_stream st" and ?tag = "leb (pb_tag_number (wire_type w, num))"
  have valid: "tag_valid (wire_type w, num)" "wire_valid w" and nin: "num \<notin> pf_tag ` set fs" using c by (simp_all add: unknown_ok_def)
  obtain a where a: "a < length fs" "dl_iter st = iter_at 0 fs dest a" using st by (auto simp: decoding_def)
  have s: "is_ok ?s" using st by (simp add: decoding_def)
  have rest: "is_rest ?s = ?tag @ wire_bytes w @ rest" using rest by (simp add: unknown_wire_def)
  let ?u = "is_advance (length ?tag) ?s"
  obtain eof where tg: "pb_decode_tag (de_read env) ?s = ((True, wire_type w, num, eof), ?u)"
    using tag_takes [OF valid(1) s] rest by metis
  have u: "is_ok ?u" "is_rest ?u = wire_bytes w @ rest" using is_advance_rest [OF s rest] by simp_all
  have left: "is_bytes_left ?u < is_bytes_left ?s" "unat num < 2 ^ 29" using pb_tag_left [OF tg] by simp_all
  have sk: "pb_skip_field (de_read env) (wire_type w) ?u = (True, is_advance (length (wire_bytes w)) ?u)"
    by (rule skip_field_exact [OF valid(2) u])
  let ?st = "st\<lparr>dl_stream := is_advance (length (wire_bytes w)) ?u, dl_iter := iter_at 0 fs dest a, dl_extension_range_start := - 1\<rparr>"
  have "decode_unknown n env sub num (wire_type w) (st\<lparr>dl_stream := ?u, dl_iter := iter_at 0 fs dest a\<rparr>) = Some (Continue, ?st)"
    using decode_unknown_plain [OF p a(1) _ left(2), of "st\<lparr>dl_stream := ?u, dl_iter := iter_at 0 fs dest a\<rparr>" dest n env sub "wire_type w"]
      st sk by (simp add: skip_unknown_def decoding_def)
  then have one: "decode_one n env sub st = Some (Continue, ?st)"
    using tg find_at(2) [OF p a(1) nin, of dest] a(2) by (simp add: decode_one_def)
  have adv: "is_advance (length (wire_bytes w)) ?u = is_advance (length (unknown_wire num w)) ?s"
    by (simp add: is_advance_add unknown_wire_def)
  have "is_ok (is_advance (length (wire_bytes w)) ?u)" by (rule is_advance_rest(1) [OF u])
  then have "decoding d (de_fields env) fs dest k m0 cur ?st" using st a(1) by (auto simp: decoding_def)
  moreover have "is_bytes_left (is_advance (length (wire_bytes w)) ?u) < is_bytes_left ?s" using left by (simp add: is_advance_def)
  ultimately show thesis using that [OF one] adv by simp
qed

section \<open>Sequences of fields\<close>

text \<open>The pieces of an input: values of known fields, in any order, and unknown fields.\<close>

datatype pb_piece = Packed nat "pb_val list" | Single nat pb_val | Unknown u32 wire

fun put :: "pb_val list list \<Rightarrow> pb_piece list \<Rightarrow> pb_val list list" where
  "put cur [] = cur"
| "put cur (Packed i vs # es) = put (cur[i := cur ! i @ vs]) es"
| "put cur (Single i v # es) = put (cur[i := cur ! i @ [v]]) es"
| "put cur (Unknown num w # es) = put cur es"

fun pieces_ok :: "nat \<Rightarrow> (nat \<Rightarrow> pb_field_t list) \<Rightarrow> pb_field_t list \<Rightarrow> pb_val list list \<Rightarrow> pb_piece list \<Rightarrow> bool" where
  "pieces_ok d tables fs cur [] = True"
| "pieces_ok d tables fs cur (Packed i vs # es) \<longleftrightarrow> chunk_ok d tables fs cur True i vs \<and> pieces_ok d tables fs (cur[i := cur ! i @ vs]) es"
| "pieces_ok d tables fs cur (Single i v # es) \<longleftrightarrow> chunk_ok d tables fs cur False i [v] \<and> pieces_ok d tables fs (cur[i := cur ! i @ [v]]) es"
| "pieces_ok d tables fs cur (Unknown num w # es) \<longleftrightarrow> unknown_ok fs num w \<and> pieces_ok d tables fs cur es"

fun piece_wire :: "(pb_field_t \<Rightarrow> pb_val list list \<Rightarrow> u8 list) \<Rightarrow> pb_field_t list \<Rightarrow> pb_piece \<Rightarrow> u8 list" where
  "piece_wire wire fs (Packed i vs) = chunk_wire True wire (fs ! i) vs"
| "piece_wire wire fs (Single i v) = chunk_wire False wire (fs ! i) [v]"
| "piece_wire wire fs (Unknown num w) = unknown_wire num w"

definition pieces_wire :: "(pb_field_t \<Rightarrow> pb_val list list \<Rightarrow> u8 list) \<Rightarrow> pb_field_t list \<Rightarrow> pb_piece list \<Rightarrow> u8 list" where
  "pieces_wire wire fs es = concat (map (piece_wire wire fs) es)"

lemma put_append: "put cur (es @ es') = put (put cur es) es'"
  by (induction cur es rule: put.induct) simp_all

lemma pieces_ok_append: "pieces_ok d tables fs cur (es @ es') \<longleftrightarrow> pieces_ok d tables fs cur es \<and> pieces_ok d tables fs (put cur es) es'"
  by (induction cur es rule: put.induct) simp_all

text \<open>The pieces that the encoder writes for a field: all values of a packed array at once, others one by one.\<close>

definition field_chunks :: "pb_field_t list \<Rightarrow> nat \<Rightarrow> pb_val list \<Rightarrow> pb_piece list" where
  "field_chunks fs i vs =
     (if PB_HTYPE (pf_type (fs ! i)) = PB_HTYPE_REPEATED \<and> is_packable (fs ! i) then if vs = [] then [] else [Packed i vs]
      else map (Single i) vs)"

lemma single_chunks:
  assumes i: "i < length fs" and np: "\<not> (PB_HTYPE (pf_type (fs ! i)) = PB_HTYPE_REPEATED \<and> is_packable (fs ! i))"
  shows "length cur = length fs \<Longrightarrow> field_ok (sub_wire d tables) (sub_ok d tables) (fs ! i) (cur ! i @ vs) \<Longrightarrow>
    (vs \<noteq> [] \<Longrightarrow> \<forall>j < length fs. j \<noteq> i \<and> same_oneof fs i j \<longrightarrow> cur ! j = []) \<Longrightarrow>
    pieces_ok d tables fs cur (map (Single i) vs) \<and> put cur (map (Single i) vs) = cur[i := cur ! i @ vs]"
proof (induction vs arbitrary: cur)
  case (Cons v vs)
  let ?cur = "cur[i := cur ! i @ [v]]"
  have nth: "?cur ! i = cur ! i @ [v]" using i Cons.prems(1) by simp
  have "field_ok (sub_wire d tables) (sub_ok d tables) (fs ! i) (cur ! i @ [v])"
    using Cons.prems(2) np by (cases "vs = []") (auto simp: field_ok_def Let_def split: if_splits)
  then have "chunk_ok d tables fs cur False i [v]" using i Cons.prems(3) by (auto simp: chunk_ok_def list_all_length)
  moreover have "pieces_ok d tables fs ?cur (map (Single i) vs) \<and> put ?cur (map (Single i) vs) = ?cur[i := ?cur ! i @ vs]"
    using Cons.IH [of ?cur] Cons.prems nth by simp
  ultimately show ?case using nth by simp
qed simp

lemma field_chunks_wire: "pieces_wire wire fs (field_chunks fs i vs) = field_wire wire (fs ! i) vs"
proof (cases "PB_HTYPE (pf_type (fs ! i)) = PB_HTYPE_REPEATED \<and> is_packable (fs ! i)")
  case True
  then show ?thesis by (simp add: pieces_wire_def field_chunks_def field_wire_def chunk_wire_def chunk_type_def chunk_body_def)
next
  case False
  then have "field_wire wire (fs ! i) vs = concat (map (\<lambda>v. tag_wire (field_wire_type (fs ! i)) (fs ! i) @ item_wire wire (fs ! i) v) vs)" for vs
    unfolding field_wire_def by (simp only: if_False)
  moreover have "field_chunks fs i vs = map (Single i) vs" unfolding field_chunks_def using False by (simp only: if_False)
  ultimately show ?thesis by (simp add: pieces_wire_def comp_def chunk_wire_def chunk_type_def chunk_body_def)
qed

lemma field_chunks_ok:
  assumes i: "i < length fs" and len: "length cur = length fs" and cur: "cur ! i = []"
    and ok: "field_ok (sub_wire d tables) (sub_ok d tables) (fs ! i) vs"
    and union: "vs \<noteq> [] \<Longrightarrow> \<forall>j < length fs. j \<noteq> i \<and> same_oneof fs i j \<longrightarrow> cur ! j = []"
  shows "pieces_ok d tables fs cur (field_chunks fs i vs)" and "put cur (field_chunks fs i vs) = cur[i := vs]"
proof -
  have "pieces_ok d tables fs cur (field_chunks fs i vs) \<and> put cur (field_chunks fs i vs) = cur[i := vs]"
  proof (cases "PB_HTYPE (pf_type (fs ! i)) = PB_HTYPE_REPEATED \<and> is_packable (fs ! i)")
    case True
    then show ?thesis
      using i cur ok union len
      by (cases "vs = []") (simp_all add: field_chunks_def chunk_ok_def list_all_length list_update_id [of cur i, unfolded cur])
  next
    case False
    then have "field_chunks fs i vs = map (Single i) vs" by (auto simp: field_chunks_def)
    then show ?thesis using single_chunks [OF i False len, of d tables vs] cur ok union by simp
  qed
  then show "pieces_ok d tables fs cur (field_chunks fs i vs)" "put cur (field_chunks fs i vs) = cur[i := vs]" by simp_all
qed

definition msg_chunks :: "pb_field_t list \<Rightarrow> pb_val list list \<Rightarrow> nat \<Rightarrow> pb_piece list" where
  "msg_chunks fs vss i = concat (map (\<lambda>j. field_chunks fs j (vss ! j)) [i..<length fs])"

lemma msg_chunks_ok:
  assumes ok: "msg_ok (Suc d) tables fs vss"
  shows "i \<le> length fs \<Longrightarrow>
    pieces_ok d tables fs (take i vss @ replicate (length fs - i) []) (msg_chunks fs vss i) \<and>
    put (take i vss @ replicate (length fs - i) []) (msg_chunks fs vss i) = vss"
proof (induction "length fs - i" arbitrary: i)
  case 0
  then show ?case using msg_okD(3) [OF ok] by (simp add: msg_chunks_def)
next
  case (Suc n)
  then have i: "i < length fs" by simp
  let ?cur = "take i vss @ replicate (length fs - i) []"
  have lv: "length vss = length fs" by (rule msg_okD(3) [OF ok])
  have len: "length ?cur = length fs" using lv i by simp
  have cur: "?cur ! i = []" using lv i by (simp add: nth_append)
  have union: "\<forall>j < length fs. j \<noteq> i \<and> same_oneof fs i j \<longrightarrow> ?cur ! j = []" if "vss ! i \<noteq> []"
  proof (intro allI impI)
    fix j assume j: "j < length fs" "j \<noteq> i \<and> same_oneof fs i j"
    then have "vss ! j = []" using msg_okD(2) [OF ok i j(1)] that by blast
    then show "?cur ! j = []" using lv i j(1) by (simp add: nth_append)
  qed
  note field = field_chunks_ok [OF i len cur msg_okD(1) [OF ok i] union]
  have next': "?cur[i := vss ! i] = take (Suc i) vss @ replicate (length fs - Suc i) []"
  proof -
    have "length fs - i = Suc n" "length fs - Suc i = n" using Suc.hyps(2) by simp_all
    then show ?thesis using lv i by (simp add: take_Suc_conv_app_nth list_update_append)
  qed
  have "msg_chunks fs vss i = field_chunks fs i (vss ! i) @ msg_chunks fs vss (Suc i)"
    using i by (simp add: msg_chunks_def upt_conv_Cons)
  then show ?case
    using field(1,2) next' Suc.hyps(1) [of "Suc i"] Suc.hyps(2) i by (simp add: pieces_ok_append put_append)
qed

lemma msg_chunks_wire:
  assumes ok: "msg_ok (Suc d) tables fs vss"
  shows "pieces_wire (sub_wire d tables) fs (msg_chunks fs vss 0) = msg_wire (Suc d) tables fs vss"
proof -
  have "pieces_wire w fs (concat (map g is)) = concat (map (\<lambda>i. pieces_wire w fs (g i)) is)" for w g and "is" :: "nat list"
    by (induction "is") (simp_all add: pieces_wire_def)
  then show ?thesis by (simp add: msg_chunks_def msg_wire.simps field_chunks_wire)
qed

text \<open>The loop over them.\<close>

lemma loop_chunks:
  assumes p: "plain_table (Suc d) (de_fields env) fs k" and w: "wire_table (Suc d) (de_fields env) fs"
    and sub: "subs_restore b d (de_fields env) sub fs"
  shows "decoding d (de_fields env) fs dest k m0 cur st \<Longrightarrow> pieces_ok d (de_fields env) fs cur es \<Longrightarrow>
    is_rest (dl_stream st) = pieces_wire (sub_wire d (de_fields env)) fs es @ rest \<Longrightarrow>
    is_bytes_left (dl_stream st) \<le> b \<Longrightarrow> is_bytes_left (dl_stream st) + 2 * d + 1 < n \<Longrightarrow>
    \<exists>n' st'. decode_loop n env sub st = decode_loop n' env sub st' \<and> decoding d (de_fields env) fs dest k m0 (put cur es) st' \<and>
      dl_stream st' = is_advance (length (pieces_wire (sub_wire d (de_fields env)) fs es)) (dl_stream st) \<and>
      is_bytes_left (dl_stream st') + 2 * d + 1 < n'"
proof (induction es arbitrary: cur st n)
  case Nil
  then show ?case by (intro exI [of _ n] exI [of _ st]) (simp add: pieces_wire_def)
next
  case (Cons e es)
  let ?wire = "sub_wire d (de_fields env)" and ?s = "dl_stream st"
  let ?cur = "put cur [e]"
  obtain n1 where n: "n = Suc n1" using Cons.prems(5) by (cases n) auto
  have cw: "pieces_wire ?wire fs (e # es) = piece_wire ?wire fs e @ pieces_wire ?wire fs es" by (simp add: pieces_wire_def)
  have rest: "is_rest ?s = piece_wire ?wire fs e @ (pieces_wire ?wire fs es @ rest)" using Cons.prems(3) cw by simp
  have fuel: "is_bytes_left ?s \<le> Suc n1" "2 * d < n1" using Cons.prems(5) n by simp_all
  have ok: "pieces_ok d (de_fields env) fs cur [e]" "pieces_ok d (de_fields env) fs ?cur es"
    using Cons.prems(2) pieces_ok_append [of d "de_fields env" fs cur "[e]" es] by simp_all
  obtain st1 where st1: "decode_one n1 env sub st = Some (Continue, st1)" "decoding d (de_fields env) fs dest k m0 ?cur st1"
      "dl_stream st1 = is_advance (length (piece_wire ?wire fs e)) ?s" "is_bytes_left (dl_stream st1) < is_bytes_left ?s"
  proof (cases e)
    case (Packed i c)
    then have c: "chunk_ok d (de_fields env) fs cur True i c" using ok(1) by simp
    show ?thesis
      by (rule decode_one_chunk [OF p w Cons.prems(1) c sub Cons.prems(4) rest [unfolded Packed piece_wire.simps] fuel])
        (use that Packed in simp)
  next
    case (Single i v)
    then have c: "chunk_ok d (de_fields env) fs cur False i [v]" using ok(1) by simp
    show ?thesis
      by (rule decode_one_chunk [OF p w Cons.prems(1) c sub Cons.prems(4) rest [unfolded Single piece_wire.simps] fuel])
        (use that Single in simp)
  next
    case (Unknown num wv)
    then have c: "unknown_ok fs num wv" using ok(1) by simp
    show ?thesis
      by (rule decode_one_unknown [OF p Cons.prems(1) c rest [unfolded Unknown piece_wire.simps]]) (use that Unknown in simp)
  qed
  have "is_ok ?s" using Cons.prems(1) by (simp add: decoding_def)
  then have rest1: "is_rest (dl_stream st1) = pieces_wire ?wire fs es @ rest" using is_advance_rest(2) [OF _ rest] st1(3) by simp
  have "decode_loop n env sub st = decode_loop n1 env sub st1" using st1(1,4) n by simp
  moreover have "\<exists>n' st'. decode_loop n1 env sub st1 = decode_loop n' env sub st' \<and>
      decoding d (de_fields env) fs dest k m0 (put ?cur es) st' \<and>
      dl_stream st' = is_advance (length (pieces_wire ?wire fs es)) (dl_stream st1) \<and> is_bytes_left (dl_stream st') + 2 * d + 1 < n'"
    by (rule Cons.IH [OF st1(2) ok(2) rest1]) (use Cons.prems st1(4) n in simp_all)
  moreover have "put cur (e # es) = put ?cur es" using put_append [of cur "[e]" es] by simp
  ultimately show ?case using cw st1(3) by (simp add: is_advance_add)
qed

section \<open>Whole messages\<close>

lemma decode_message_pieces:
  assumes p: "plain_table (Suc d) (de_fields env) fs k" and w: "wire_table (Suc d) (de_fields env) fs"
    and ok: "pieces_ok d (de_fields env) fs (replicate (length fs) []) es" and df: "defaulted (Suc d) (de_fields env) fs dest m"
    and sub: "subs_restore (is_bytes_left s) d (de_fields env) sub fs"
    and s: "is_ok s" "is_rest s = pieces_wire (sub_wire d (de_fields env)) fs es" and n: "is_bytes_left s + 2 * Suc d \<le> n"
  obtains m' where "(\<And>i. i < length fs \<Longrightarrow> is_required (fs ! i) \<Longrightarrow> put (replicate (length fs) []) es ! i \<noteq> []) \<Longrightarrow>
      decode_message n env sub fs s dest m = Some (True, is_advance (length (is_rest s)) s, m')"
    and "\<And>i. i < length fs \<Longrightarrow> is_required (fs ! i) \<Longrightarrow> req_index fs i < 64 \<Longrightarrow> put (replicate (length fs) []) es ! i = [] \<Longrightarrow>
      decode_message n env sub fs s dest m = Some (False, is_error ''missing required field'' (is_advance (length (is_rest s)) s), m')"
    and "changes (region dest k) m m'" and "represents d (de_fields env) fs dest (put (replicate (length fs) []) es) m'"
proof -
  let ?t = "de_fields env" and ?w = "is_rest s"
  from p have t: "tags_ok fs" and ne: "fs \<noteq> []" by (auto elim: plain_tableE)
  let ?st = "start_decoding s fs dest m"
  let ?cur = "replicate (length fs) []"
  let ?vss = "put ?cur es"
  have "seen_ok fs (\<lambda>i. ?cur ! i \<noteq> []) [0, 0]" by (auto simp: seen_ok_def nth_Cons split: nat.splits)
  then have st: "decoding d ?t fs dest k m ?cur ?st"
    using iter_begin_tag [OF t, of 0 dest] ne s(1) represents_defaults [OF p df]
    by (auto simp: decoding_def start_decoding_def)
  have "\<exists>n' st'. decode_loop n env sub ?st = decode_loop n' env sub st' \<and> decoding d ?t fs dest k m ?vss st' \<and>
      dl_stream st' = is_advance (length (pieces_wire (sub_wire d ?t) fs es)) (dl_stream ?st) \<and>
      is_bytes_left (dl_stream st') + 2 * d + 1 < n'"
    by (rule loop_chunks [OF p w sub st ok, where rest = "[]"]) (use s(2) n in \<open>simp_all add: start_decoding_def\<close>)
  then obtain n' st' where lp: "decode_loop n env sub ?st = decode_loop n' env sub st'" "decoding d ?t fs dest k m ?vss st'"
      "dl_stream st' = is_advance (length ?w) s" "0 < n'"
    unfolding s(2) by (auto simp: start_decoding_def)
  have "is_bytes_left (is_advance (length ?w) s) = 0" using length_is_rest [OF s(1)] by (simp add: is_advance_def)
  then have loop: "decode_loop n env sub ?st = Some (True, st')" using lp(1,3,4) by (cases n') simp_all
  obtain a where a: "a < length fs" "dl_iter st' = iter_at 0 fs dest a" using lp(2) by (auto simp: decoding_def)
  have seen: "seen_ok fs (\<lambda>i. ?vss ! i \<noteq> []) (dl_fields_seen st')" using lp(2) by (simp add: decoding_def)
  have msg: "decode_message n env sub fs s dest m =
      (if all_required_seen (dl_iter st') (dl_fields_seen st') then Some (True, is_advance (length ?w) s, dl_mem st')
       else Some (False, is_error ''missing required field'' (is_advance (length ?w) s), dl_mem st'))"
    using loop lp(2,3) by (simp add: decode_message_def Let_def decoding_def fixed_count_complete_def)
  show thesis
  proof (rule that)
    assume "\<And>i. i < length fs \<Longrightarrow> is_required (fs ! i) \<Longrightarrow> ?vss ! i \<noteq> []"
    then have "seen_ok fs (\<lambda>i. True) (dl_fields_seen st')" using seen unfolding seen_ok_def by auto
    then show "decode_message n env sub fs s dest m = Some (True, is_advance (length ?w) s, dl_mem st')"
      using all_seen(1) [OF t a(1)] a(2) msg by simp
  next
    fix i assume "i < length fs" "is_required (fs ! i)" "req_index fs i < 64" "?vss ! i = []"
    then show "decode_message n env sub fs s dest m =
        Some (False, is_error ''missing required field'' (is_advance (length ?w) s), dl_mem st')"
      using all_seen(2) [OF t a(1) seen] a(2) msg by simp
  next
    show "changes (region dest k) m (dl_mem st')" "represents d ?t fs dest ?vss (dl_mem st')"
      using lp(2) by (simp_all add: decoding_def)
  qed
qed

lemma decode_message_exact:
  assumes p: "plain_table (Suc d) (de_fields env) fs k" and w: "wire_table (Suc d) (de_fields env) fs"
    and ok: "msg_ok (Suc d) (de_fields env) fs vss" and df: "defaulted (Suc d) (de_fields env) fs dest m"
    and sub: "subs_restore (is_bytes_left s) d (de_fields env) sub fs"
    and es: "pieces_ok d (de_fields env) fs (replicate (length fs) []) es" "put (replicate (length fs) []) es = vss"
    and s: "is_ok s" "is_rest s = pieces_wire (sub_wire d (de_fields env)) fs es" and n: "is_bytes_left s + 2 * Suc d \<le> n"
  obtains m' where "decode_message n env sub fs s dest m = Some (True, is_advance (length (is_rest s)) s, m')"
    and "changes (region dest k) m m'" and "msg_value (Suc d) (de_fields env) fs dest m' = vss"
proof -
  have req: "vss ! i \<noteq> []" if "i < length fs" "is_required (fs ! i)" for i
    using msg_okD(1) [OF ok that(1)] that(2) by (auto simp: field_ok_def)
  show thesis
    by (rule decode_message_pieces [OF p w es(1) df sub s n]) (use that req represents_value [OF p w ok] es(2) in blast)
qed

text \<open>\<open>msg_restored\<close>: the decoder of messages leaves the message \<open>vss\<close> in the structure of \<open>k\<close> bytes at \<open>dest\<close>.\<close>

definition msg_restored ::
    "nat \<Rightarrow> (nat \<Rightarrow> pb_field_t list) \<Rightarrow> pb_field_t list \<Rightarrow> nat \<Rightarrow> pb_val list list \<Rightarrow> nat \<Rightarrow> 's pb_istream \<Rightarrow> 'h pb_mem \<Rightarrow>
     ('s, 'h) pb_result \<Rightarrow> bool" where
  "msg_restored d tables fs k vss dest s m r \<longleftrightarrow>
     (\<exists>m'. r = Some (True, is_advance (length (is_rest s)) s, m') \<and> changes (region dest k) m m' \<and>
           msg_value d tables fs dest m' = vss)"

lemma decode_and_release_exact:
  assumes p: "plain_table d (de_fields env) fs k" and n: "2 * d \<le> n"
    and noinit: "\<And>m. defaulted d (de_fields env) fs dest m \<Longrightarrow> msg_restored d (de_fields env) fs k vss dest s m (noinit fs s dest m)"
  shows "msg_restored d (de_fields env) fs k vss dest s m (decode_and_release n env noinit fs s dest m)"
proof -
  obtain m1 where m1: "pb_message_set_to_defaults n (de_fields env) fs dest m = Some m1" "changes (region dest k) m m1"
      "defaulted d (de_fields env) fs dest m1"
    using set_to_defaults [OF p n] by blast
  then show ?thesis
    using noinit [OF m1(3)] changes_trans by (auto simp: msg_restored_def decode_and_release_def)
qed

declare pb_dec_submessage.simps [simp del]

lemma submessage_restores:
  assumes p: "plain_table d (de_fields env) (de_fields env (pf_ptr f)) (pf_data_size f)" and f: "pf_ptr f \<noteq> 0"
    and l: "PB_LTYPE (pf_type f) = PB_LTYPE_SUBMESSAGE" and n: "2 * d \<le> n"
    and msg: "\<And>vs dest s m. sub_ok d (de_fields env) f vs \<Longrightarrow> defaulted d (de_fields env) (de_fields env (pf_ptr f)) dest m \<Longrightarrow>
      is_ok s \<Longrightarrow> is_rest s = sub_wire d (de_fields env) f vs \<Longrightarrow> is_bytes_left s < b \<Longrightarrow>
      msg_restored d (de_fields env) (de_fields env (pf_ptr f)) (pf_data_size f) vs dest s m
        (decode_message n env (pb_dec_submessage n env) (de_fields env (pf_ptr f)) s dest m)"
  shows "sub_restores b d (de_fields env) (pb_dec_submessage (Suc n) env) f"
  unfolding sub_restores_def
proof (intro allI impI, elim conjE)
  fix vs rest q and s :: "'a pb_istream" and m :: "'b pb_mem"
  let ?t = "de_fields env" and ?fs = "de_fields env (pf_ptr f)" and ?w = "sub_wire d (de_fields env) f vs"
  assume ok: "sub_ok d ?t f vs" and len: "length ?w < 2 ^ 32" and s: "is_ok s" "is_bytes_left s \<le> b"
    and rest: "is_rest s = item_wire (sub_wire d ?t) f (PMsg vs) @ rest"
    and pre: "PB_HTYPE (pf_type f) = PB_HTYPE_REPEATED \<or> defaulted d ?t ?fs q m"
  have "is_rest s = (leb (length ?w) @ ?w) @ rest" using rest by (simp add: item_wire_def)
  then obtain ss u where ss: "pb_make_string_substream (de_read env) s = (Some ss, u)" "is_ok ss" "is_rest ss = ?w"
      "pb_close_string_substream (de_read env) u (is_advance (length ?w) ss) = (True, is_advance (length (leb (length ?w) @ ?w)) s)"
    using substream_exact [OF len s(1)] by (metis order_refl)
  have left: "is_bytes_left ss < b" using substream_any(2) [OF s(1) ss(1) refl] s(2) by simp
  let ?noinit = "decode_message n env (pb_dec_submessage n env)"
  have "msg_restored d ?t ?fs (pf_data_size f) vs q ss m
      (if PB_HTYPE (pf_type f) = PB_HTYPE_REPEATED then decode_and_release n env ?noinit ?fs ss q m else ?noinit ?fs ss q m)"
    using pre msg [OF ok _ ss(2,3) left] decode_and_release_exact [OF p n, of q vs ss ?noinit m] by auto
  then obtain m' where m': "(if PB_HTYPE (pf_type f) = PB_HTYPE_REPEATED then decode_and_release n env ?noinit ?fs ss q m
        else ?noinit ?fs ss q m) = Some (True, is_advance (length ?w) ss, m')"
      "changes (region q (pf_data_size f)) m m'" "msg_value d ?t ?fs q m' = vs"
    unfolding msg_restored_def ss(3) by blast
  have "pb_dec_submessage (Suc n) env f s q m = Some (True, is_advance (length (leb (length ?w) @ ?w)) s, m')"
    using ss f m'(1) by (simp add: pb_dec_submessage.simps Let_def)
  then show "item_restored (sub_value d ?t) (sub_wire d ?t) f (PMsg vs) q s m (pb_dec_submessage (Suc n) env f s q m)"
    using m'(2,3) l by (simp add: item_restored_def item_wire_def item_value_def)
qed

lemma subs_restoreI:
  fixes env :: "('s, 'h) pb_denv"
  assumes p: "plain_table (Suc d) (de_fields env) fs k" and w: "wire_table (Suc d) (de_fields env) fs" and n: "b + 2 * Suc d \<le> n"
    and msg: "\<And>fs k vss dest (m :: 'h pb_mem) (s :: 's pb_istream) n.
      plain_table d (de_fields env) fs k \<Longrightarrow> wire_table d (de_fields env) fs \<Longrightarrow> msg_ok d (de_fields env) fs vss \<Longrightarrow>
      defaulted d (de_fields env) fs dest m \<Longrightarrow> is_ok s \<Longrightarrow> is_rest s = msg_wire d (de_fields env) fs vss \<Longrightarrow>
      is_bytes_left s + 2 * d \<le> n \<Longrightarrow>
      msg_restored d (de_fields env) fs k vss dest s m (decode_message n env (pb_dec_submessage n env) fs s dest m)"
  shows "subs_restore b d (de_fields env) (pb_dec_submessage n env) fs"
proof -
  obtain n' where n': "n = Suc n'" using n by (cases n) auto
  have "sub_restores b d (de_fields env) (pb_dec_submessage (Suc n') env) (fs ! i)"
    if i: "i < length fs" and l: "PB_LTYPE (pf_type (fs ! i)) = PB_LTYPE_SUBMESSAGE" for i
  proof (rule submessage_restores [OF _ _ l])
    have pt: "plain_type (fs ! i)" "plain_table d (de_fields env) (de_fields env (pf_ptr (fs ! i))) (pf_data_size (fs ! i))"
      using p i l by (auto elim: plain_tableE)
    then show "plain_table d (de_fields env) (de_fields env (pf_ptr (fs ! i))) (pf_data_size (fs ! i))" by simp
    show "pf_ptr (fs ! i) \<noteq> 0" using pt(1) l by (cases rule: plain_ltype) (auto simp: pb_types)
    show "2 * d \<le> n'" using n n' by simp
    show "msg_restored d (de_fields env) (de_fields env (pf_ptr (fs ! i))) (pf_data_size (fs ! i)) vs dest t m
        (decode_message n' env (pb_dec_submessage n' env) (de_fields env (pf_ptr (fs ! i))) t dest m)"
      if "sub_ok d (de_fields env) (fs ! i) vs" "defaulted d (de_fields env) (de_fields env (pf_ptr (fs ! i))) dest m"
        "is_ok t" "is_rest t = sub_wire d (de_fields env) (fs ! i) vs" "is_bytes_left t < b" for vs dest t m
      by (rule msg [OF pt(2) wire_tableD(2) [OF w i l] that(1-4)]) (use that(5) n n' in simp)
  qed
  then show ?thesis by (simp add: subs_restore_def n')
qed

lemma message_exact:
  "plain_table d (de_fields env) fs k \<Longrightarrow> wire_table d (de_fields env) fs \<Longrightarrow> msg_ok d (de_fields env) fs vss \<Longrightarrow>
   defaulted d (de_fields env) fs dest m \<Longrightarrow> is_ok s \<Longrightarrow> is_rest s = msg_wire d (de_fields env) fs vss \<Longrightarrow>
   is_bytes_left s + 2 * d \<le> n \<Longrightarrow>
   msg_restored d (de_fields env) fs k vss dest s m (decode_message n env (pb_dec_submessage n env) fs s dest m)"
proof (induction d arbitrary: fs k n s dest m vss)
  case (Suc d)
  have sub: "subs_restore (is_bytes_left s) d (de_fields env) (pb_dec_submessage n env) fs"
    by (rule subs_restoreI [OF Suc.prems(1,2,7) Suc.IH])
  have es: "pieces_ok d (de_fields env) fs (replicate (length fs) []) (msg_chunks fs vss 0)"
      "put (replicate (length fs) []) (msg_chunks fs vss 0) = vss"
    using msg_chunks_ok [OF Suc.prems(3), of 0] by simp_all
  have "is_rest s = pieces_wire (sub_wire d (de_fields env)) fs (msg_chunks fs vss 0)"
    using Suc.prems(6) msg_chunks_wire [OF Suc.prems(3)] by simp
  from decode_message_exact [OF Suc.prems(1-4) sub es Suc.prems(5) this Suc.prems(7)] show ?case
    unfolding msg_restored_def by blast
qed (simp add: plain_table.simps)

lemma subs_restore_all:
  "plain_table (Suc d) (de_fields env) fs k \<Longrightarrow> wire_table (Suc d) (de_fields env) fs \<Longrightarrow> b + 2 * Suc d \<le> n \<Longrightarrow>
   subs_restore b d (de_fields env) (pb_dec_submessage n env) fs"
  by (rule subs_restoreI [OF _ _ _ message_exact])

section \<open>\<open>pb_decode\<close>\<close>

text \<open>An input that consists of pieces gives the message that they make up.\<close>

lemma pb_decode_pieces:
  fixes m :: "'h pb_mem"
  assumes p: "plain_table (Suc d) (de_fields env) fs k" and w: "wire_table (Suc d) (de_fields env) fs"
    and es: "pieces_ok d (de_fields env) fs (replicate (length fs) []) es"
    and ok: "msg_ok (Suc d) (de_fields env) fs (put (replicate (length fs) []) es)"
    and s: "is_ok s" "is_rest s = pieces_wire (sub_wire d (de_fields env)) fs es" and n: "is_bytes_left s + 2 * Suc d \<le> n"
  shows "msg_restored (Suc d) (de_fields env) fs k (put (replicate (length fs) []) es) dest s m (pb_decode n env fs s dest m)"
  unfolding pb_decode_def
proof (rule decode_and_release_exact [OF p])
  fix m :: "'h pb_mem" assume "defaulted (Suc d) (de_fields env) fs dest m"
  from decode_message_exact [OF p w ok this subs_restore_all [OF p w n] es refl s n]
  show "msg_restored (Suc d) (de_fields env) fs k (put (replicate (length fs) []) es) dest s m (pb_decode_noinit n env fs s dest m)"
    unfolding msg_restored_def pb_decode_noinit_def by blast
qed (use n in simp)

text \<open>Without a required field the message is refused.\<close>

lemma pb_decode_incomplete:
  assumes p: "plain_table (Suc d) (de_fields env) fs k" and w: "wire_table (Suc d) (de_fields env) fs"
    and es: "pieces_ok d (de_fields env) fs (replicate (length fs) []) es"
    and i: "i < length fs" "is_required (fs ! i)" "req_index fs i < 64" "put (replicate (length fs) []) es ! i = []"
    and s: "is_ok s" "is_rest s = pieces_wire (sub_wire d (de_fields env)) fs es" and n: "is_bytes_left s + 2 * Suc d \<le> n"
  obtains m' where "pb_decode n env fs s dest m =
      Some (False, is_error ''missing required field'' (is_advance (length (is_rest s)) s), m')"
    and "changes (region dest k) m m'"
proof -
  have n2: "2 * Suc d \<le> n" using n by simp
  obtain m1 where m1: "pb_message_set_to_defaults n (de_fields env) fs dest m = Some m1" "changes (region dest k) m m1"
      "defaulted (Suc d) (de_fields env) fs dest m1"
    using set_to_defaults [OF p n2] by blast
  obtain m2 where m2: "decode_message n env (pb_dec_submessage n env) fs s dest m1 =
        Some (False, is_error ''missing required field'' (is_advance (length (is_rest s)) s), m2)" "changes (region dest k) m1 m2"
    by (rule decode_message_pieces [OF p w es m1(3) subs_restore_all [OF p w n] s n]) (use i in blast)
  show thesis
    by (rule that [OF _ changes_trans [OF m1(2) m2(2)]])
      (simp add: pb_decode_def decode_and_release_def pb_decode_noinit_def m1(1) m2(1) release_plain [OF p n2])
qed

text \<open>The canonical order of the fields.\<close>

lemma pb_decode_exact:
  assumes p: "plain_table d (de_fields env) fs k" and w: "wire_table d (de_fields env) fs" and ok: "msg_ok d (de_fields env) fs vss"
    and s: "is_ok s" "is_rest s = msg_wire d (de_fields env) fs vss" and n: "is_bytes_left s + 2 * d \<le> n"
  shows "msg_restored d (de_fields env) fs k vss dest s m (pb_decode n env fs s dest m)"
  unfolding pb_decode_def
  by (rule decode_and_release_exact [OF p]) (use n message_exact [OF p w ok _ s n] in \<open>simp_all add: pb_decode_noinit_def\<close>)

text \<open>Whatever the input, decoding ends and stays in the structure.\<close>

lemma pb_decode_within:
  assumes p: "plain_table d (de_fields env) fs k" and s: "is_ok s" and n: "is_bytes_left s + 2 * d \<le> n"
  shows "result_ok dest k s m (pb_decode n env fs s dest m)"
  unfolding pb_decode_def
  by (rule decode_and_release_ok [OF p]) (use n message_ok [OF p s n] in \<open>simp_all add: pb_decode_noinit_def\<close>)

end
