(* ===== verification/PbTypeSpec.thy ===== *)
theory PbTypeSpec
  imports PbDecodeSpec
begin

text \<open>
  The representation invariant of a structure of static fields (\<open>msg_typed\<close>): booleans are 0 or 1, the size
  of a bytes field fits in it, strings are terminated, counts of arrays do not exceed their room, the tag of
  a union is 0 or one of its members', and submessages are well formed. Setting the defaults establishes
  it and decoding any input preserves it, unless it fails.
\<close>

section \<open>The invariant\<close>

definition item_typed :: "(pb_field_t \<Rightarrow> nat \<Rightarrow> 'h pb_mem \<Rightarrow> bool) \<Rightarrow> pb_field_t \<Rightarrow> nat \<Rightarrow> 'h pb_mem \<Rightarrow> bool" where
  "item_typed sub f p m \<longleftrightarrow>
     (let l = PB_LTYPE (pf_type f); n = pf_data_size f in
      if l = PB_LTYPE_BOOL then pm_byte m p \<le> 1
      else if l = PB_LTYPE_BYTES then 4 + load_int 4 p m \<le> n
      else if l = PB_LTYPE_STRING then 0 \<in> set (load p n m)
      else l = PB_LTYPE_SUBMESSAGE \<longrightarrow> sub f p m)"

lemma item_typed_simps:
  "PB_LTYPE (pf_type f) = PB_LTYPE_BOOL \<Longrightarrow> item_typed sub f p m \<longleftrightarrow> pm_byte m p \<le> 1"
  "PB_LTYPE (pf_type f) = PB_LTYPE_BYTES \<Longrightarrow> item_typed sub f p m \<longleftrightarrow> 4 + load_int 4 p m \<le> pf_data_size f"
  "PB_LTYPE (pf_type f) = PB_LTYPE_STRING \<Longrightarrow> item_typed sub f p m \<longleftrightarrow> 0 \<in> set (load p (pf_data_size f) m)"
  "PB_LTYPE (pf_type f) = PB_LTYPE_SUBMESSAGE \<Longrightarrow> item_typed sub f p m \<longleftrightarrow> sub f p m"
  "PB_LTYPE (pf_type f) \<in> {PB_LTYPE_VARINT, PB_LTYPE_UVARINT, PB_LTYPE_SVARINT, PB_LTYPE_FIXED32, PB_LTYPE_FIXED64,
     PB_LTYPE_FIXED_LENGTH_BYTES} \<Longrightarrow> item_typed sub f p m"
  by (auto simp: item_typed_def pb_types Let_def)

definition field_typed :: "(pb_field_t \<Rightarrow> nat \<Rightarrow> 'h pb_mem \<Rightarrow> bool) \<Rightarrow> pb_field_t \<Rightarrow> nat \<Rightarrow> nat \<Rightarrow> 'h pb_mem \<Rightarrow> bool" where
  "field_typed sub f p c m \<longleftrightarrow>
     (let h = PB_HTYPE (pf_type f) in
      if h = PB_HTYPE_REPEATED
      then load_int 4 c m \<le> pf_array_size f \<and>
           list_all (\<lambda>j. item_typed sub f (p + pf_data_size f * j) m) [0..<load_int 4 c m]
      else if h = PB_HTYPE_ONEOF then load_int 4 c m = unat (pf_tag f) \<longrightarrow> item_typed sub f p m
      else item_typed sub f p m)"

definition union_typed :: "pb_field_t list \<Rightarrow> nat \<Rightarrow> nat \<Rightarrow> 'h pb_mem \<Rightarrow> bool" where
  "union_typed fs dest i m \<longleftrightarrow>
     (PB_HTYPE (pf_type (fs ! i)) = PB_HTYPE_ONEOF \<longrightarrow>
        (let old_tag = load_int 4 (dest + fld_cell fs i) m in
         old_tag = 0 \<or> list_ex (\<lambda>j. same_oneof fs i j \<and> old_tag = unat (pf_tag (fs ! j))) [0..<length fs]))"

fun msg_typed :: "nat \<Rightarrow> (nat \<Rightarrow> pb_field_t list) \<Rightarrow> pb_field_t list \<Rightarrow> nat \<Rightarrow> 'h pb_mem \<Rightarrow> bool" where
  "msg_typed 0 tables fs dest m = False"
| "msg_typed (Suc d) tables fs dest m =
     list_all (\<lambda>i. field_typed (\<lambda>f p m. msg_typed d tables (tables (pf_ptr f)) p m) (fs ! i) (dest + fld_off fs i)
                     (dest + fld_cell fs i) m \<and> union_typed fs dest i m) [0..<length fs]"

declare msg_typed.simps [simp del]

abbreviation sub_typed :: "nat \<Rightarrow> (nat \<Rightarrow> pb_field_t list) \<Rightarrow> pb_field_t \<Rightarrow> nat \<Rightarrow> 'h pb_mem \<Rightarrow> bool" where
  "sub_typed d tables f p m \<equiv> msg_typed d tables (tables (pf_ptr f)) p m"

abbreviation typed_at :: "nat \<Rightarrow> (nat \<Rightarrow> pb_field_t list) \<Rightarrow> pb_field_t list \<Rightarrow> nat \<Rightarrow> nat \<Rightarrow> 'h pb_mem \<Rightarrow> bool" where
  "typed_at d tables fs dest i m \<equiv> field_typed (sub_typed d tables) (fs ! i) (dest + fld_off fs i) (dest + fld_cell fs i) m"

lemma msg_typed_Suc:
  "msg_typed (Suc d) tables fs dest m \<longleftrightarrow> (\<forall>i < length fs. typed_at d tables fs dest i m \<and> union_typed fs dest i m)"
  by (simp add: msg_typed.simps list_all_length)

text \<open>Tables whose default values, if there are any, belong to numbers, enumerations or byte arrays of a fixed
  length, for which every value is well formed: the tables of the repository are of this kind.\<close>

fun number_defaults :: "nat \<Rightarrow> (nat \<Rightarrow> pb_field_t list) \<Rightarrow> pb_field_t list \<Rightarrow> bool" where
  "number_defaults 0 tables fs = False"
| "number_defaults (Suc d) tables fs =
     list_all (\<lambda>f. if PB_LTYPE (pf_type f) = PB_LTYPE_SUBMESSAGE then number_defaults d tables (tables (pf_ptr f))
                   else pf_ptr f \<noteq> 0 \<longrightarrow> PB_LTYPE (pf_type f) \<notin> {PB_LTYPE_BOOL, PB_LTYPE_BYTES, PB_LTYPE_STRING}) fs"

declare number_defaults.simps [simp del]

lemma number_defaultsD:
  assumes "number_defaults (Suc d) tables fs" and "i < length fs"
  shows "PB_LTYPE (pf_type (fs ! i)) = PB_LTYPE_SUBMESSAGE \<Longrightarrow> number_defaults d tables (tables (pf_ptr (fs ! i)))"
    and "PB_LTYPE (pf_type (fs ! i)) \<in> {PB_LTYPE_BOOL, PB_LTYPE_BYTES, PB_LTYPE_STRING} \<Longrightarrow> pf_ptr (fs ! i) = 0"
  using assms by (auto simp: number_defaults.simps list_all_length pb_types split: if_splits)

section \<open>Steps that do not touch a field\<close>

lemma item_typed_frame:
  assumes ty: "plain_type f" and ch: "changes A m m'" and disj: "region p (pf_data_size f) \<inter> A = {}"
    and sub: "PB_LTYPE (pf_type f) = PB_LTYPE_SUBMESSAGE \<Longrightarrow> sub f p m' = sub f p m"
  shows "item_typed sub f p m' = item_typed sub f p m"
proof -
  have byte: "pm_byte m' x = pm_byte m x" if "x \<in> region p (pf_data_size f)" for x using changes_byte [OF ch] disj that by blast
  have all: "load p (pf_data_size f) m' = load p (pf_data_size f) m" by (rule changes_load [OF ch disj])
  show ?thesis
    using ty
  proof (cases rule: plain_ltype)
    case bytes
    then have "region p 4 \<subseteq> region p (pf_data_size f)" by auto
    then have "region p 4 \<inter> A = {}" using disj by blast
    then show ?thesis using bytes changes_load_int [OF ch] by (simp add: item_typed_simps)
  qed (use byte all sub in \<open>auto simp: item_typed_simps\<close>)
qed

lemma field_typed_frame:
  assumes ty: "plain_type f" and ch: "changes A m m'" and cell: "region c (cell_width f) \<inter> A = {}"
    and ext: "region p (fld_extent f) \<inter> A = {}"
    and sub: "\<And>q. PB_LTYPE (pf_type f) = PB_LTYPE_SUBMESSAGE \<Longrightarrow> region q (pf_data_size f) \<inter> A = {} \<Longrightarrow> sub f q m' = sub f q m"
  shows "field_typed sub f p c m' = field_typed sub f p c m"
proof -
  have item: "item_typed sub f q m' = item_typed sub f q m" if "region q (pf_data_size f) \<inter> A = {}" for q
    by (rule item_typed_frame [OF ty ch that]) (use sub that in blast)
  show ?thesis
  proof (cases rule: htype_cases [of "pf_type f"])
    case repeated
    have cnt: "load_int 4 c m' = load_int 4 c m"
      using changes_load_int [OF ch, of c 4] cell plain_cell_width [OF ty] repeated by simp
    have "region (p + pf_data_size f * j) (pf_data_size f) \<inter> A = {}" if "j < pf_array_size f" for j
    proof -
      have "pf_data_size f * j + pf_data_size f \<le> pf_data_size f * pf_array_size f"
        using that by (metis Suc_leI mult_Suc_right mult_le_mono2 add.commute)
      then have "region (p + pf_data_size f * j) (pf_data_size f) \<subseteq> region p (fld_extent f)" using repeated by (auto simp: fld_extent_def)
      then show ?thesis using ext by blast
    qed
    then show ?thesis using repeated cnt item by (auto simp: field_typed_def list_all_length)
  next
    case oneof
    have "load_int 4 c m' = load_int 4 c m"
      using changes_load_int [OF ch, of c 4] cell plain_cell_width [OF ty] oneof by simp
    then show ?thesis using oneof item ext by (simp add: field_typed_def fld_extent_def)
  qed (use item ext in \<open>simp_all add: field_typed_def fld_extent_def\<close>)
qed

lemma union_typed_frame:
  assumes p: "plain_table d tables fs k" and i: "i < length fs" and ch: "changes A m m'" and cell: "cell_region fs dest i \<inter> A = {}"
  shows "union_typed fs dest i m' = union_typed fs dest i m"
proof (cases "PB_HTYPE (pf_type (fs ! i)) = PB_HTYPE_ONEOF")
  case True
  from p i have "plain_type (fs ! i)" by (auto elim: plain_tableE)
  then have "load_int 4 (dest + fld_cell fs i) m' = load_int 4 (dest + fld_cell fs i) m"
    using changes_load_int [OF ch, of "dest + fld_cell fs i" 4] cell plain_cell_width True by simp
  then show ?thesis by (simp add: union_typed_def)
qed (simp add: union_typed_def)

lemma msg_typed_frame:
  "plain_table d tables fs k \<Longrightarrow> changes A m m' \<Longrightarrow> region dest k \<inter> A = {} \<Longrightarrow> msg_typed d tables fs dest m' = msg_typed d tables fs dest m"
proof (induction d arbitrary: fs k dest)
  case (Suc e)
  from Suc.prems(1) have l: "layout_ok fs k" and ty: "\<And>i. i < length fs \<Longrightarrow> plain_type (fs ! i)"
    and sub: "\<And>i. i < length fs \<Longrightarrow> PB_LTYPE (pf_type (fs ! i)) = PB_LTYPE_SUBMESSAGE \<Longrightarrow>
       plain_table e tables (tables (pf_ptr (fs ! i))) (pf_data_size (fs ! i))"
    by (auto elim: plain_tableE)
  have "typed_at e tables fs dest i m' = typed_at e tables fs dest i m \<and> union_typed fs dest i m' = union_typed fs dest i m"
    if i: "i < length fs" for i
  proof -
    have disj: "footprint fs dest i \<inter> A = {}" using footprint_within [OF l i, of dest] Suc.prems(3) by blast
    have cell: "cell_region fs dest i \<inter> A = {}" and fld: "fld_region fs dest i \<inter> A = {}" using disj by (auto simp: footprint_def)
    have "typed_at e tables fs dest i m' = typed_at e tables fs dest i m"
      by (rule field_typed_frame [OF ty [OF i] Suc.prems(2) cell fld]) (rule Suc.IH [OF sub [OF i] Suc.prems(2)])
    then show ?thesis using union_typed_frame [OF Suc.prems(1) i Suc.prems(2) cell] by blast
  qed
  then show ?case by (simp add: msg_typed_Suc)
qed (simp add: msg_typed.simps)

text \<open>A step within the place of one field keeps the others.\<close>

lemma typed_update:
  assumes p: "plain_table (Suc d) tables fs k" and i: "i < length fs" and ch: "changes (footprint fs dest i) m m'"
    and old: "msg_typed (Suc d) tables fs dest m" and new: "typed_at d tables fs dest i m'"
    and tag: "PB_HTYPE (pf_type (fs ! i)) = PB_HTYPE_ONEOF \<Longrightarrow> load_int 4 (dest + fld_cell fs i) m' = unat (pf_tag (fs ! i))"
  shows "msg_typed (Suc d) tables fs dest m'"
  unfolding msg_typed_Suc
proof (intro allI impI)
  fix j assume j: "j < length fs"
  from p have t: "tags_ok fs" and l: "layout_ok fs k" and ty: "plain_type (fs ! j)"
    and sub: "PB_LTYPE (pf_type (fs ! j)) = PB_LTYPE_SUBMESSAGE \<Longrightarrow> plain_table d tables (tables (pf_ptr (fs ! j))) (pf_data_size (fs ! j))"
    using j by (auto elim: plain_tableE)
  have oldj: "typed_at d tables fs dest j m" "union_typed fs dest j m" using old j by (simp_all add: msg_typed_Suc)
  have mem: "union_typed fs dest j m'" if "same_oneof fs j i"
  proof -
    have "load_int 4 (dest + fld_cell fs j) m' = unat (pf_tag (fs ! i))" using tag that by (simp add: same_oneof_def)
    then show ?thesis using that i by (auto simp: union_typed_def list_ex_iff Let_def)
  qed
  show "typed_at d tables fs dest j m' \<and> union_typed fs dest j m'"
  proof (cases "j = i")
    case True
    have "union_typed fs dest i m'"
    proof (cases "PB_HTYPE (pf_type (fs ! i)) = PB_HTYPE_ONEOF")
      case True
      then show ?thesis using mem \<open>j = i\<close> by (simp add: same_oneof_def)
    qed (simp add: union_typed_def)
    then show ?thesis using True new by simp
  next
    case ne: False
    show ?thesis
    proof (cases "same_oneof fs j i")
      case True
      have "pf_tag (fs ! j) \<noteq> pf_tag (fs ! i)" using t i j ne by (metis tags_ok_def length_map nth_eq_iff_index_eq nth_map)
      then have "load_int 4 (dest + fld_cell fs j) m' \<noteq> unat (pf_tag (fs ! j))"
        using tag True by (simp add: same_oneof_def word_unat_eq_iff)
      then show ?thesis using True mem by (simp add: field_typed_def same_oneof_def)
    next
      case False
      have disj: "footprint fs dest j \<inter> footprint fs dest i = {}" by (rule footprint_apart [OF l j i ne False])
      have cell: "cell_region fs dest j \<inter> footprint fs dest i = {}" and fld: "fld_region fs dest j \<inter> footprint fs dest i = {}"
        using disj by (auto simp: footprint_def)
      have "typed_at d tables fs dest j m' = typed_at d tables fs dest j m"
        by (rule field_typed_frame [OF ty ch cell fld]) (rule msg_typed_frame [OF sub ch])
      then show ?thesis using oldj union_typed_frame [OF p j ch cell] by simp
    qed
  qed
qed

section \<open>Defaults\<close>

lemma default_typed: "number_defaults d tables fs \<Longrightarrow> plain_table d tables fs k \<Longrightarrow> defaulted d tables fs dest m \<Longrightarrow> msg_typed d tables fs dest m"
proof (induction d arbitrary: fs k dest)
  case (Suc d)
  have "typed_at d tables fs dest i m \<and> union_typed fs dest i m" if i: "i < length fs" for i
  proof -
    let ?f = "fs ! i" and ?p = "dest + fld_off fs i"
    from Suc.prems(2) i have t: "tags_ok fs" and ty: "plain_type ?f"
      and sub: "PB_LTYPE (pf_type ?f) = PB_LTYPE_SUBMESSAGE \<Longrightarrow> plain_table d tables (tables (pf_ptr ?f)) (pf_data_size ?f)"
      by (auto elim: plain_tableE)
    have df: "default_at d tables fs dest i m" using Suc.prems(3) i by (simp add: defaulted_Suc)
    show ?thesis
    proof (cases "PB_HTYPE (pf_type ?f) = PB_HTYPE_REPEATED \<or> PB_HTYPE (pf_type ?f) = PB_HTYPE_ONEOF")
      case True
      have "unat (pf_tag ?f) \<noteq> 0" using tag_nonzero [OF t i] by (simp add: unat_eq_zero)
      then show ?thesis using df True by (auto simp: field_default_def field_typed_def union_typed_def Let_def)
    next
      case False
      have "item_typed (sub_typed d tables) ?f ?p m"
      proof (cases "PB_LTYPE (pf_type ?f) = PB_LTYPE_SUBMESSAGE")
        case True
        then have "defaulted d tables (tables (pf_ptr ?f)) ?p m" using df False by (simp add: field_default_def Let_def)
        then have "sub_typed d tables ?f ?p m" by (rule Suc.IH [OF number_defaultsD(1) [OF Suc.prems(1) i True] sub [OF True]])
        then show ?thesis using True by (simp add: item_typed_simps)
      next
        case nsub: False
        then have z: "load ?p (pf_data_size ?f) m = replicate (pf_data_size ?f) 0"
          if "PB_LTYPE (pf_type ?f) \<in> {PB_LTYPE_BOOL, PB_LTYPE_BYTES, PB_LTYPE_STRING}"
          using df False number_defaultsD(2) [OF Suc.prems(1) i that] by (simp add: field_default_def Let_def)
        show ?thesis
          using ty
        proof (cases rule: plain_ltype)
          case bool
          then show ?thesis using z by (simp add: item_typed_simps load_def)
        next
          case bytes
          have "load ?p 4 m = take 4 (load ?p (pf_data_size ?f) m)" using bytes by (simp add: take_load)
          then have "load_int 4 ?p m = le_val (replicate 4 0)" using z bytes by (simp add: load_int_def)
          also have "\<dots> = 0" by (simp add: le_val_def be_val_def eval_nat_numeral)
          finally show ?thesis using bytes by (simp add: item_typed_simps)
        next
          case string
          then show ?thesis using z by (simp add: item_typed_simps)
        qed (use nsub in \<open>auto simp: item_typed_simps\<close>)
      qed
      then show ?thesis using False by (simp add: field_typed_def union_typed_def)
    qed
  qed
  then show ?case by (simp add: msg_typed_Suc)
qed (simp add: defaulted.simps)

section \<open>The field decoders\<close>

text \<open>A successful call of the decoder table leaves a well-formed item. A decoder of submessages may rely on
  the item being well formed before, unless it is an array entry, which it sets to defaults itself.\<close>

definition decodes_typed ::
    "nat \<Rightarrow> (pb_field_t \<Rightarrow> nat \<Rightarrow> 'h pb_mem \<Rightarrow> bool) \<Rightarrow> ('s, 'h) pb_field_decoder \<Rightarrow> pb_field_t \<Rightarrow> bool" where
  "decodes_typed b typed dec f \<longleftrightarrow>
     (\<forall>s p m s' m'. is_ok s \<and> is_bytes_left s \<le> b \<and>
        (PB_LTYPE (pf_type f) = PB_LTYPE_SUBMESSAGE \<longrightarrow> PB_HTYPE (pf_type f) \<noteq> PB_HTYPE_REPEATED \<longrightarrow> typed f p m) \<and>
        dec f s p m = Some (True, s', m') \<longrightarrow> item_typed typed f p m')"

lemma bool_typed: "pb_dec_bool io f s p m = (True, s', m') \<Longrightarrow> pm_byte m' p \<le> 1"
  using load_int_store_same [of 1 p 1 m] load_int_store_same [of 1 p 0 m]
  by (auto simp: pb_dec_bool_def load_int_1 word_le_nat_alt simp del: One_nat_def split: prod.splits option.splits if_splits)

lemma read_into_changes: "is_ok s \<Longrightarrow> read_into io p n s m = (ok, s', m') \<Longrightarrow> changes (region p n) m m'"
  using kept_read_into [of s p p n n m io] by (simp add: kept_def)

lemma bytes_typed:
  assumes s: "is_ok s" and at: "PB_ATYPE (pf_type f) \<noteq> PB_ATYPE_POINTER" and r: "pb_dec_bytes io ra f s p m = (True, s', m')"
  shows "4 + load_int 4 p m' \<le> pf_data_size f"
proof -
  obtain len u where u: "pb_decode_varint32 io s = (Some len, u)"
    using r by (auto simp: pb_dec_bytes_def split: prod.splits option.splits)
  have lt: "unat len < 2 ^ 32" by (rule order.strict_trans2 [OF unsigned_less]) simp
  have fits: "unat len + 4 \<le> pf_data_size f" and rd: "read_into io (p + 4) (unat len) u (store_int 4 (unat len) p m) = (True, s', m')"
    using r u at allocsize_small [OF lt] by (auto simp: pb_dec_bytes_def Let_def split: if_splits)
  have "is_ok u" using staysD [OF stays_varint32 u s] by blast
  from changes_load_int [OF read_into_changes [OF this rd], of p 4]
  have "load_int 4 p m' = unat len" using load_int_store_same [of 4 p "unat len" m] lt by simp
  then show ?thesis using fits by simp
qed

lemma string_typed:
  assumes at: "PB_ATYPE (pf_type f) \<noteq> PB_ATYPE_POINTER" and r: "pb_dec_string io ra f s p m = (True, s', m')"
  shows "0 \<in> set (load p (pf_data_size f) m')"
proof -
  obtain len u where u: "pb_decode_varint32 io s = (Some len, u)"
    using r by (auto simp: pb_dec_string_def split: prod.splits option.splits)
  have al: "unat (len + 1) = unat len + 1"
    by (rule string_alloc) (use r u in \<open>auto simp: pb_dec_string_def Let_def\<close>)
  obtain m1 where fits: "unat len < pf_data_size f" and m': "m' = store (p + unat len) [0] m1"
    using r u at al by (auto simp: pb_dec_string_def Let_def split: if_splits prod.splits)
  have "load p (pf_data_size f) m' ! unat len = 0" using fits m' by (simp add: nth_load pm_byte_store)
  then show ?thesis using fits by (metis length_load nth_mem)
qed

lemma call_decoder_typed:
  fixes env :: "('s, 'h) pb_denv"
  assumes ty: "plain_type f" and sub: "PB_LTYPE (pf_type f) = PB_LTYPE_SUBMESSAGE \<Longrightarrow> decodes_typed b typed sub f"
  shows "decodes_typed b typed (call_decoder env sub) f"
  unfolding decodes_typed_def
proof (intro allI impI, elim conjE)
  fix s :: "'s pb_istream" and p and m :: "'h pb_mem" and s' m'
  assume s: "is_ok s" "is_bytes_left s \<le> b" 
    and old: "PB_LTYPE (pf_type f) = PB_LTYPE_SUBMESSAGE \<longrightarrow> PB_HTYPE (pf_type f) \<noteq> PB_HTYPE_REPEATED \<longrightarrow> typed f p m"
    and r: "call_decoder env sub f s p m = Some (True, s', m')"
  have at: "PB_ATYPE (pf_type f) \<noteq> PB_ATYPE_POINTER" using plain_static [OF ty] static_not_pointer by simp
  show "item_typed typed f p m'"
    using ty
  proof (cases rule: plain_ltype)
    case bool
    then show ?thesis using r bool_typed by (auto simp: item_typed_simps call_decoder_table returns_def)
  next
    case bytes
    then show ?thesis using r bytes_typed [OF s(1) at] by (auto simp: item_typed_simps call_decoder_table returns_def)
  next
    case string
    then show ?thesis using r string_typed [OF at] by (auto simp: item_typed_simps call_decoder_table returns_def)
  next
    case submessage
    then show ?thesis using r sub [OF submessage(1)] s old unfolding decodes_typed_def by (simp add: call_decoder_table)
  qed (auto simp: item_typed_simps)
qed

lemma decodes_typedD:
  "decodes_typed b typed dec f \<Longrightarrow> dec f s p m = Some (True, s', m') \<Longrightarrow> is_ok s \<Longrightarrow> is_bytes_left s \<le> b \<Longrightarrow>
   (PB_LTYPE (pf_type f) = PB_LTYPE_SUBMESSAGE \<Longrightarrow> PB_HTYPE (pf_type f) \<noteq> PB_HTYPE_REPEATED \<Longrightarrow> typed f p m) \<Longrightarrow> item_typed typed f p m'"
  unfolding decodes_typed_def by blast

section \<open>Static fields\<close>

lemma count_typed:
  assumes "PB_HTYPE (pf_type (fs ! i)) = PB_HTYPE_REPEATED" and "typed_at d tables fs dest i m"
  shows "load_int 4 (dest + fld_cell fs i) m \<le> pf_array_size (fs ! i)"
  using assms by (simp add: field_typed_def)

text \<open>An item that is added to an array.\<close>

lemma append_typed:
  assumes p: "plain_table (Suc d) tables fs k" and i: "i < length fs" and rep: "PB_HTYPE (pf_type (fs ! i)) = PB_HTYPE_REPEATED"
    and old: "typed_at d tables fs dest i m" and room: "load_int 4 (dest + fld_cell fs i) m < pf_array_size (fs ! i)"
    and ch: "changes (cell_region fs dest i \<union>
        region (dest + fld_off fs i + pf_data_size (fs ! i) * load_int 4 (dest + fld_cell fs i) m) (pf_data_size (fs ! i))) m m'"
    and cnt: "load_int 4 (dest + fld_cell fs i) m' = load_int 4 (dest + fld_cell fs i) m + 1"
    and new: "item_typed (sub_typed d tables) (fs ! i) (dest + fld_off fs i + pf_data_size (fs ! i) * load_int 4 (dest + fld_cell fs i) m) m'"
  shows "typed_at d tables fs dest i m'"
proof -
  let ?f = "fs ! i" and ?p = "dest + fld_off fs i" and ?n = "load_int 4 (dest + fld_cell fs i) m"
  from p i have l: "layout_ok fs k" and ty: "plain_type ?f"
    and sub: "PB_LTYPE (pf_type ?f) = PB_LTYPE_SUBMESSAGE \<Longrightarrow> plain_table d tables (tables (pf_ptr ?f)) (pf_data_size ?f)"
    by (auto elim: plain_tableE)
  have "item_typed (sub_typed d tables) ?f (?p + pf_data_size ?f * j) m'" if j: "j < ?n" for j
  proof -
    have "pf_data_size ?f * j + pf_data_size ?f \<le> pf_data_size ?f * ?n"
      using j by (metis Suc_leI mult_Suc_right mult_le_mono2 add.commute)
    moreover have "region (?p + pf_data_size ?f * j) (pf_data_size ?f) \<subseteq> fld_region fs dest i"
      using item_in_field [OF rep, of j dest] j room by simp
    ultimately have disj: "region (?p + pf_data_size ?f * j) (pf_data_size ?f) \<inter>
        (cell_region fs dest i \<union> region (?p + pf_data_size ?f * ?n) (pf_data_size ?f)) = {}"
      using cell_apart [OF l i, of dest] by auto
    have "item_typed (sub_typed d tables) ?f (?p + pf_data_size ?f * j) m' = item_typed (sub_typed d tables) ?f (?p + pf_data_size ?f * j) m"
      by (rule item_typed_frame [OF ty ch disj]) (rule msg_typed_frame [OF sub ch disj])
    then show ?thesis using old rep j by (simp add: field_typed_def list_all_length)
  qed
  then show ?thesis using rep cnt new room by (simp add: field_typed_def list_all_iff)
qed

text \<open>The state after the count of an array was raised.\<close>

lemma count_raised:
  assumes ty: "plain_type (fs ! i)" and rep: "PB_HTYPE (pf_type (fs ! i)) = PB_HTYPE_REPEATED" and room: "n < pf_array_size (fs ! i)"
  shows "load_int 4 c (store_int 4 (n + 1) c m) = n + 1"
  using load_int_store_same [of 4 c "n + 1" m] plain_bounds [OF ty] room by simp

lemma packed_typed:
  assumes p: "plain_table (Suc d) tables fs k" and i: "i < length fs"
    and rep: "PB_HTYPE (pf_type (fs ! i)) = PB_HTYPE_REPEATED" and pk: "PB_LTYPE (pf_type (fs ! i)) \<le> PB_LTYPE_LAST_PACKABLE"
  shows "is_ok s \<Longrightarrow> typed_at d tables fs dest i m \<Longrightarrow>
    static_packed_loop n (call_decoder env sub) s (iter_at 0 fs dest i) m = Some (True, s', iter', m') \<Longrightarrow>
    typed_at d tables fs dest i m'"
proof (induction n arbitrary: s m)
  case (Suc n)
  let ?f = "fs ! i" and ?iter = "iter_at 0 fs dest i" and ?func = "call_decoder env sub" and ?c = "dest + fld_cell fs i"
  from p i have t: "tags_ok fs" and o: "offsets_ok fs" and l: "layout_ok fs k" and ty: "plain_type ?f" by (auto elim: plain_tableE)
  have nsub: "PB_LTYPE (pf_type ?f) \<noteq> PB_LTYPE_SUBMESSAGE" using pk by (auto simp: pb_types)
  note at = read_size_at [OF t o i, where c = 0 and dest = dest]
  let ?n = "load_int 4 ?c m"
  let ?q = "dest + fld_off fs i + pf_data_size ?f * ?n"
  show ?case
  proof (cases "is_bytes_left s > 0 \<and> ?n < pf_array_size ?f")
    case False
    then show ?thesis using t i Suc.prems(2,3) by (auto simp: Let_def at split: if_splits)
  next
    case True
    have fk: "field_kept (is_bytes_left s) ?func ?f" using call_decoder_kept [OF ty] nsub by blast
    have td: "decodes_typed (is_bytes_left s) (sub_typed d tables) ?func ?f" by (rule call_decoder_typed [OF ty]) (use nsub in blast)
    obtain ok u m1 where r: "?func ?f s ?q m = Some (ok, u, m1)" "changes (region ?q (pf_data_size ?f)) m m1" "within s u"
      by (rule field_keptD [OF fk Suc.prems(1) order_refl, of ?q m])
    have okay: ok using Suc.prems(3) True t i r(1) by (cases ok) (simp_all add: Let_def at)
    let ?m = "store_int 4 (?n + 1) ?c m1"
    have wd: "cell_width ?f = 4" using plain_cell_width [OF ty] rep by simp
    have q: "region ?q (pf_data_size ?f) \<subseteq> fld_region fs dest i" using item_in_field [OF rep, of ?n dest] True by simp
    have disj: "region ?q (pf_data_size ?f) \<inter> region ?c 4 = {}" using q cell_apart [OF l i, of dest] wd by auto
    have cnt: "load_int 4 ?c m1 = ?n" using changes_load_int [OF r(2), of ?c 4] disj by (simp add: Int_commute)
    have loop: "static_packed_loop n ?func u ?iter ?m = Some (True, s', iter', m')"
      using Suc.prems(3) True t i r(1) okay cnt by (simp add: Let_def at)
    have cm: "changes (region ?c 4) m1 ?m" by (rule changes_store_int) simp
    have both: "changes (cell_region fs dest i \<union> region ?q (pf_data_size ?f)) m ?m"
      by (rule changes_trans [OF changes_mono [OF r(2)] changes_mono [OF cm]]) (use wd in simp_all)
    have "item_typed (sub_typed d tables) ?f ?q m1"
      by (rule decodes_typedD [OF td _ Suc.prems(1) order_refl]) (use r(1) okay rep in simp_all)
    moreover have "item_typed (sub_typed d tables) ?f ?q ?m = item_typed (sub_typed d tables) ?f ?q m1"
      by (rule item_typed_frame [OF ty cm disj]) (use nsub in blast)
    moreover have "load_int 4 ?c ?m = ?n + 1" by (rule count_raised [OF ty rep]) (use True in simp)
    ultimately have "typed_at d tables fs dest i ?m"
      by (intro append_typed [OF p i rep Suc.prems(2) _ both]) (use True in simp_all)
    then show ?thesis using Suc.IH [OF _ _ loop] r(3) by blast
  qed
qed simp

lemma with_iter_Some: "with_iter iter r = Some (ok, s', iter', m') \<Longrightarrow> r = Some (ok, s', m')"
  by (auto simp: with_iter_def)

text \<open>A static field that was decoded is well formed, and the tag of a union says so.\<close>

lemma static_typed:
  assumes p: "plain_table (Suc d) (de_fields env) fs k" and z: "number_defaults (Suc d) (de_fields env) fs" and i: "i < length fs"
    and kept: "PB_LTYPE (pf_type (fs ! i)) = PB_LTYPE_SUBMESSAGE \<Longrightarrow> field_kept b sub (fs ! i)"
    and sub: "PB_LTYPE (pf_type (fs ! i)) = PB_LTYPE_SUBMESSAGE \<Longrightarrow> decodes_typed b (sub_typed d (de_fields env)) sub (fs ! i)"
    and s: "is_ok s" "is_bytes_left s \<le> b" and n: "2 * d \<le> n"
    and old: "typed_at d (de_fields env) fs dest i m"
    and r: "decode_static_field n env sub s wt (iter_at 0 fs dest i) m = Some (True, s', iter', m')"
  shows "typed_at d (de_fields env) fs dest i m' \<and>
    (PB_HTYPE (pf_type (fs ! i)) = PB_HTYPE_ONEOF \<longrightarrow> load_int 4 (dest + fld_cell fs i) m' = unat (pf_tag (fs ! i)))"
proof -
  let ?t = "de_fields env" and ?f = "fs ! i" and ?iter = "iter_at 0 fs dest i" and ?func = "call_decoder env sub"
  let ?p = "dest + fld_off fs i" and ?c = "dest + fld_cell fs i" and ?ty = "item_typed (sub_typed d (de_fields env)) (fs ! i)"
  from p i have t: "tags_ok fs" and o: "offsets_ok fs" and l: "layout_ok fs k" and ty: "plain_type ?f"
    and pt: "PB_LTYPE (pf_type ?f) = PB_LTYPE_SUBMESSAGE \<Longrightarrow> plain_table d ?t (?t (pf_ptr ?f)) (pf_data_size ?f)"
    by (auto elim: plain_tableE)
  note at = read_size_at [OF t o i, where c = 0 and dest = dest]
  have fk: "field_kept b ?func ?f" using call_decoder_kept [OF ty] kept by blast
  have td: "decodes_typed b (sub_typed d ?t) ?func ?f" using call_decoder_typed [OF ty] sub by blast
  have fld: "it_field ?iter = ?f" using t i by simp
  have ap: "fld_region fs dest i \<inter> cell_region fs dest i = {}" by (rule cell_apart [OF l i])
  have call: "?ty q m2 \<and> changes (region q (pf_data_size ?f)) m1 m2"
    if "?func ?f s q m1 = Some (True, u, m2)"
      "PB_LTYPE (pf_type ?f) = PB_LTYPE_SUBMESSAGE \<Longrightarrow> PB_HTYPE (pf_type ?f) \<noteq> PB_HTYPE_REPEATED \<Longrightarrow> ?ty q m1" for q m1 m2 u
  proof -
    have "?ty q m2" by (rule decodes_typedD [OF td that(1) s]) (use that(2) in \<open>simp add: item_typed_simps\<close>)
    then show ?thesis using field_keptD [OF fk s, of q m1] that(1) by (metis option.inject prod.inject)
  qed
  have cell: "?ty ?p m1 = ?ty ?p m" if "changes (cell_region fs dest i) m m1" "fld_extent ?f = pf_data_size ?f" for m1
  proof -
    have disj: "region ?p (pf_data_size ?f) \<inter> cell_region fs dest i = {}" using ap that(2) by simp
    show ?thesis by (rule item_typed_frame [OF ty that(1) disj]) (rule msg_typed_frame [OF pt that(1) disj])
  qed
  show ?thesis
  proof (cases rule: htype_cases [of "pf_type ?f"])
    case required
    then have "?func ?f s ?p m = Some (True, s', m')" using r by (auto simp: decode_static_field_def Let_def fld at with_iter_def)
    then show ?thesis using call old required by (simp add: field_typed_def)
  next
    case optional
    let ?m = "if pf_size_offset ?f \<noteq> 0 then store_int 1 1 ?c m else m"
    have ext: "fld_extent ?f = pf_data_size ?f" using optional by (simp add: fld_extent_def)
    have ch: "changes (cell_region fs dest i) m ?m" using optional by (auto simp: cell_width_def intro!: changes_store_int)
    have "?ty ?p m" using old optional by (simp add: field_typed_def)
    then have "?ty ?p ?m" using cell [OF ch ext] by blast
    moreover have "decode_static_field n env sub s wt ?iter m = with_iter ?iter (?func ?f s ?p ?m)"
      using optional by (cases "pf_size_offset ?f = 0") (simp_all add: decode_static_field_def Let_def fld at del: One_nat_def)
    then have "?func ?f s ?p ?m = Some (True, s', m')" using r by (metis with_iter_Some)
    ultimately show ?thesis using call optional by (simp add: field_typed_def)
  next
    case oneof
    have ext: "fld_extent ?f = pf_data_size ?f" using oneof by (simp add: fld_extent_def)
    have wd: "cell_width ?f = 4" using plain_cell_width [OF ty] oneof by simp
    let ?m = "store_int 4 (unat (pf_tag ?f)) ?c m"
    have "unat (pf_tag ?f) < 2 ^ 32" by (rule order.strict_trans2 [OF unsigned_less]) simp
    then have tag: "load_int 4 ?c ?m = unat (pf_tag ?f)" using load_int_store_same [of 4 ?c "unat (pf_tag ?f)" m] by simp
    have keep: "load_int 4 ?c m2 = unat (pf_tag ?f)" if "changes (region ?p (pf_data_size ?f)) ?m m2" for m2
      using changes_load_int [OF that, of ?c 4] ap ext wd tag by (simp add: Int_commute)
    show ?thesis
    proof (cases "PB_LTYPE (pf_type ?f) = PB_LTYPE_SUBMESSAGE")
      case True
      let ?z = "store ?p (replicate (pf_data_size ?f) 0) ?m"
      obtain m1 where m1: "pb_message_set_to_defaults n ?t (?t (pf_ptr ?f)) ?p ?z = Some m1"
          "changes (region ?p (pf_data_size ?f)) ?z m1" "defaulted d ?t (?t (pf_ptr ?f)) ?p m1"
        using set_to_defaults [OF pt [OF True] n] by blast
      have "changes (region ?p (pf_data_size ?f)) ?m ?z" by (rule changes_store) simp
      note ch = changes_trans [OF this m1(2)]
      have "?ty ?p m1" using default_typed [OF number_defaultsD(1) [OF z i True] pt [OF True] m1(3)] True by (simp add: item_typed_simps)
      moreover have "decode_static_field n env sub s wt ?iter m = with_iter ?iter (?func ?f s ?p m1)"
        using oneof True m1(1) by (simp add: decode_static_field_def Let_def fld at)
      then have "?func ?f s ?p m1 = Some (True, s', m')" using r by (metis with_iter_Some)
      ultimately have "?ty ?p m'" "changes (region ?p (pf_data_size ?f)) m1 m'" using call by blast+
      then show ?thesis using oneof keep [OF changes_trans [OF ch]] by (simp add: field_typed_def)
    next
      case False
      have "decode_static_field n env sub s wt ?iter m = with_iter ?iter (?func ?f s ?p ?m)"
        using oneof False by (simp add: decode_static_field_def Let_def fld at)
      then have "?func ?f s ?p ?m = Some (True, s', m')" using r by (metis with_iter_Some)
      then have "?ty ?p m'" "changes (region ?p (pf_data_size ?f)) ?m m'" using call False by blast+
      then show ?thesis using oneof keep by (simp add: field_typed_def)
    qed
  next
    case repeated
    have wd: "cell_width ?f = 4" using plain_cell_width [OF ty] repeated by simp
    have "typed_at d ?t fs dest i m'"
    proof (cases "wt = PB_WT_STRING \<and> PB_LTYPE (pf_type ?f) \<le> PB_LTYPE_LAST_PACKABLE")
      case False
      let ?n = "load_int 4 ?c m"
      let ?m = "store_int 4 (?n + 1) ?c m" and ?q = "?p + pf_data_size ?f * ?n"
      have step: "decode_static_field n env sub s wt ?iter m =
          (if ?n \<ge> pf_array_size ?f then Some (False, is_error ''array overflow'' s, ?iter, ?m) else with_iter ?iter (?func ?f s ?q ?m))"
        using repeated False by (auto simp: decode_static_field_def Let_def fld at)
      have room: "?n < pf_array_size ?f" using r unfolding step by (rule contrapos_pp) simp
      have "?func ?f s ?q ?m = Some (True, s', m')" using r room unfolding step by (simp add: with_iter_Some)
      then have item: "?ty ?q m'" "changes (region ?q (pf_data_size ?f)) ?m m'" using call repeated by blast+
      have q: "region ?q (pf_data_size ?f) \<inter> region ?c 4 = {}"
        using item_in_field [OF repeated room, of dest] ap wd by auto
      have "load_int 4 ?c m' = ?n + 1"
        using changes_load_int [OF item(2), of ?c 4] q count_raised [where i = i and fs = fs, OF ty repeated room, of ?c m] by (simp add: Int_commute)
      moreover have "changes (region ?c 4) m ?m" by (rule changes_store_int) simp
      then have "changes (cell_region fs dest i \<union> region ?q (pf_data_size ?f)) m m'"
        using changes_trans [OF changes_mono changes_mono [OF item(2)]] wd by (metis Un_upper1 Un_upper2)
      ultimately show ?thesis using append_typed [OF p i repeated old room] item(1) by blast
    next
      case packed: True
      obtain rs u where mk: "pb_make_string_substream (de_read env) s = (rs, u)" by force
      obtain ss where ss: "rs = Some ss"
        using r packed repeated mk by (cases rs) (auto simp: decode_static_field_def Let_def fld)
      note mk = mk [unfolded ss]
      have ok: "is_ok ss" using substream_any(2) [OF s(1) mk refl] by blast
      have "decode_static_field n env sub s wt ?iter m =
          (case static_packed_loop n ?func ss ?iter m of
             None \<Rightarrow> None
           | Some (status, substream, iter, m) \<Rightarrow>
               if is_bytes_left substream \<noteq> 0 then Some (False, is_error ''array overflow'' u, iter, m)
               else (case pb_close_string_substream (de_read env) u substream of
                       (False, s) \<Rightarrow> Some (False, s, iter, m)
                     | (True, s) \<Rightarrow> Some (status, s, iter, m)))"
        unfolding decode_static_field_def Let_def fld using packed repeated by (simp add: mk del: static_packed_loop.simps)
      then obtain ss' it where lp: "static_packed_loop n ?func ss ?iter m = Some (True, ss', it, m')"
        using r by (auto split: option.splits prod.splits if_splits bool.splits)
      show ?thesis by (rule packed_typed [OF p i repeated _ ok old lp]) (use packed in blast)
    qed
    then show ?thesis using repeated by simp
  qed
qed

section \<open>Messages\<close>

text \<open>What the decoder of submessages has to do for the fields of a table.\<close>

definition subs_typed ::
    "nat \<Rightarrow> nat \<Rightarrow> (nat \<Rightarrow> pb_field_t list) \<Rightarrow> ('s, 'h) pb_field_decoder \<Rightarrow> pb_field_t list \<Rightarrow> bool" where
  "subs_typed b d tables sub fs \<longleftrightarrow>
     (\<forall>i < length fs. PB_LTYPE (pf_type (fs ! i)) = PB_LTYPE_SUBMESSAGE \<longrightarrow>
        field_kept b sub (fs ! i) \<and> decodes_typed b (sub_typed d tables) sub (fs ! i))"

lemma decode_field_typed:
  assumes p: "plain_table (Suc d) (de_fields env) fs k" and z: "number_defaults (Suc d) (de_fields env) fs" and i: "i < length fs"
    and sub: "subs_typed b d (de_fields env) sub fs"
    and s: "is_ok s" "is_bytes_left s \<le> b" and n: "is_bytes_left s \<le> n" "2 * d < n"
    and old: "msg_typed (Suc d) (de_fields env) fs dest m"
    and r: "decode_field n env sub s wt (iter_at 0 fs dest i) m = Some (True, s', iter', m')"
  shows "msg_typed (Suc d) (de_fields env) fs dest m'"
proof -
  let ?f = "fs ! i" and ?iter = "iter_at 0 fs dest i"
  from p i have t: "tags_ok fs" and ty: "plain_type ?f" by (auto elim: plain_tableE)
  have fld: "it_field ?iter = ?f" using t i by simp
  have kept: "PB_LTYPE (pf_type ?f) = PB_LTYPE_SUBMESSAGE \<Longrightarrow> field_kept b sub ?f"
    and typed: "PB_LTYPE (pf_type ?f) = PB_LTYPE_SUBMESSAGE \<Longrightarrow> decodes_typed b (sub_typed d (de_fields env)) sub ?f"
    using sub i by (simp_all add: subs_typed_def)
  have at: "typed_at d (de_fields env) fs dest i m" using old i by (simp add: msg_typed_Suc)
  obtain s1 where w: "within s s1" and r1: "decode_static_field n env sub s1 wt ?iter m = Some (True, s', iter', m')"
  proof (cases "PB_HTYPE (pf_type ?f) = PB_HTYPE_ONEOF")
    case True
    obtain ok s1 where u: "pb_release_union_field n env s ?iter m = Some (ok, s1, ?iter, m)" and w: "within s s1"
      using release_union_plain [OF p i n(2) s(1)] by blast
    show thesis
      by (rule that [OF w]) (use r True u plain_static [OF ty] in \<open>cases ok; simp add: decode_field_def fld\<close>)
  next
    case False
    show thesis by (rule that [of s]) (use r False s plain_static [OF ty] in \<open>simp_all add: decode_field_def fld\<close>)
  qed
  have n2: "2 * d \<le> n" using n(2) by simp
  have s1: "is_ok s1" "is_bytes_left s1 \<le> b" using w s by auto
  have ch: "changes (footprint fs dest i) m m'"
    using decode_field_ok [OF p i kept s n, of dest m wt] r by (auto simp: step_ok_def)
  note st = static_typed [OF p z i kept typed s1 n2 at r1]
  show ?thesis by (rule typed_update [OF p i ch old]) (use st in blast)+
qed

lemma decode_one_typed:
  assumes p: "plain_table (Suc d) (de_fields env) fs k" and z: "number_defaults (Suc d) (de_fields env) fs"
    and sub: "subs_typed b d (de_fields env) sub fs"
    and inv: "decoding_ok fs dest k s m st" and b: "is_bytes_left (dl_stream st) \<le> b"
    and n: "is_bytes_left (dl_stream st) \<le> Suc n" "2 * d < n"
    and old: "msg_typed (Suc d) (de_fields env) fs dest (dl_mem st)"
    and r: "decode_one n env sub st = Some (ctl, st')" "ctl \<noteq> Fail"
  shows "msg_typed (Suc d) (de_fields env) fs dest (dl_mem st')"
proof -
  obtain i where i: "i < length fs" "dl_iter st = iter_at 0 fs dest i" using inv by (auto simp: decoding_ok_def)
  obtain ok wt tag eof t where tg: "pb_decode_tag (de_read env) (dl_stream st) = ((ok, wt, tag, eof), t)" by (metis prod.collapse)
  have "is_ok (dl_stream st)" using inv by (simp add: decoding_ok_def)
  then have w: "within (dl_stream st) t" by (rule staysD [OF stays_tag tg])
  show ?thesis
  proof (cases ok)
    case False
    then show ?thesis using r old tg by (auto simp: decode_one_def)
  next
    case okay: True
    then have left: "is_bytes_left t < is_bytes_left (dl_stream st)" "unat tag < 2 ^ 29"
      using pb_tag_left [of "de_read env" "dl_stream st" wt tag eof t] tg by simp_all
    show ?thesis
    proof (cases "tag \<in> pf_tag ` set fs")
      case False
      then show ?thesis
        using r old tg okay find_at(2) [OF p i(1) False, of dest] i(2) inv
          decode_unknown_plain [OF p i(1) _ left(2), of "st\<lparr>dl_stream := t, dl_iter := iter_at 0 fs dest i\<rparr>" dest n env sub wt]
        by (auto simp: decode_one_def skip_unknown_def decoding_ok_def split: prod.splits)
    next
      case True
      obtain j where j: "j < length fs" "pb_field_iter_find (iter_at 0 fs dest i) tag = (True, iter_at 0 fs dest j)"
        using find_at(1) [OF p i(1) True] by blast
      have enter: "enter_fixed_count (st\<lparr>dl_stream := t, dl_iter := iter_at 0 fs dest j\<rparr>) =
          (True, st\<lparr>dl_stream := t, dl_iter := iter_at 0 fs dest j\<rparr>)"
        by (rule enter_plain [OF p j(1)]) simp
      obtain u it m' where f: "decode_field n env sub t wt (iter_at 0 fs dest j) (dl_mem st) = Some (True, u, it, m')"
          and st': "dl_mem st' = m'"
        using r tg okay j(2) i(2) enter
        by (auto simp: decode_one_def decode_known_def Let_def split: option.splits prod.splits if_splits)
      have "msg_typed (Suc d) (de_fields env) fs dest m'"
        by (rule decode_field_typed [OF p z j(1) sub _ _ _ n(2) old f]) (use w left b n in auto)
      then show ?thesis using st' by simp
    qed
  qed
qed

lemma decode_loop_typed:
  assumes p: "plain_table (Suc d) (de_fields env) fs k" and z: "number_defaults (Suc d) (de_fields env) fs"
    and sub: "subs_typed b d (de_fields env) sub fs"
  shows "decoding_ok fs dest k s m st \<Longrightarrow> is_bytes_left (dl_stream st) \<le> b \<Longrightarrow> is_bytes_left (dl_stream st) + 2 * d + 1 < n \<Longrightarrow>
    msg_typed (Suc d) (de_fields env) fs dest (dl_mem st) \<Longrightarrow> decode_loop n env sub st = Some (True, st') \<Longrightarrow>
    msg_typed (Suc d) (de_fields env) fs dest (dl_mem st')"
proof (induction n arbitrary: st)
  case (Suc n)
  show ?case
  proof (cases "is_bytes_left (dl_stream st) = 0")
    case True
    then show ?thesis using Suc.prems(4,5) by simp
  next
    case False
    have n: "is_bytes_left (dl_stream st) \<le> Suc n" "2 * d < n" using Suc.prems(3) by simp_all
    have kept: "\<And>i. i < length fs \<Longrightarrow> PB_LTYPE (pf_type (fs ! i)) = PB_LTYPE_SUBMESSAGE \<Longrightarrow> field_kept b sub (fs ! i)"
      using sub by (simp add: subs_typed_def)
    obtain ctl st1 where one: "decode_one n env sub st = Some (ctl, st1)" "decoding_ok fs dest k s m st1"
        "ctl = Continue \<longrightarrow> is_bytes_left (dl_stream st1) < is_bytes_left (dl_stream st)"
      using decode_one_ok [OF p kept Suc.prems(1,2) n] by blast
    have ctl: "ctl \<noteq> Fail" using Suc.prems(5) False one(1) by auto
    have typed: "msg_typed (Suc d) (de_fields env) fs dest (dl_mem st1)"
      by (rule decode_one_typed [OF p z sub Suc.prems(1,2) n Suc.prems(4) one(1) ctl])
    show ?thesis
    proof (cases ctl)
      case Continue
      then have "is_bytes_left (dl_stream st1) \<le> b" "is_bytes_left (dl_stream st1) + 2 * d + 1 < n"
        using one(3) Suc.prems(2,3) by simp_all
      then show ?thesis using Suc.IH [OF one(2)] typed False one(1) Continue Suc.prems(5) by simp
    next
      case Break
      then show ?thesis using typed Suc.prems(5) False one(1) by simp
    qed (use ctl in simp)
  qed
qed simp

lemma decode_message_typed:
  assumes p: "plain_table (Suc d) (de_fields env) fs k" and z: "number_defaults (Suc d) (de_fields env) fs"
    and sub: "subs_typed (is_bytes_left s) d (de_fields env) sub fs"
    and s: "is_ok s" and n: "is_bytes_left s + 2 * Suc d \<le> n"
    and old: "msg_typed (Suc d) (de_fields env) fs dest m"
    and r: "decode_message n env sub fs s dest m = Some (True, s', m')"
  shows "msg_typed (Suc d) (de_fields env) fs dest m'"
proof -
  from p have t: "tags_ok fs" and ne: "fs \<noteq> []" by (auto elim: plain_tableE)
  have st: "decoding_ok fs dest k s m (start_decoding s fs dest m)"
    using iter_begin_tag [OF t, of 0 dest] ne s by (auto simp: decoding_ok_def start_decoding_def)
  obtain st' where lp: "decode_loop n env sub (start_decoding s fs dest m) = Some (True, st')" "dl_mem st' = m'"
    using r by (auto simp: decode_message_def Let_def split: option.splits prod.splits if_splits)
  have "msg_typed (Suc d) (de_fields env) fs dest (dl_mem st')"
    by (rule decode_loop_typed [OF p z sub st _ _ _ lp(1)]) (use n old in \<open>simp_all add: start_decoding_def\<close>)
  then show ?thesis using lp(2) by simp
qed

lemma decode_and_release_typed:
  assumes p: "plain_table d (de_fields env) fs k" and z: "number_defaults d (de_fields env) fs" and n: "2 * d \<le> n"
    and noinit: "\<And>m s' m'. msg_typed d (de_fields env) fs dest m \<Longrightarrow> noinit fs s dest m = Some (True, s', m') \<Longrightarrow>
      msg_typed d (de_fields env) fs dest m'"
    and r: "decode_and_release n env noinit fs s dest m = Some (True, s', m')"
  shows "msg_typed d (de_fields env) fs dest m'"
proof -
  obtain m1 where m1: "pb_message_set_to_defaults n (de_fields env) fs dest m = Some m1" "defaulted d (de_fields env) fs dest m1"
    using set_to_defaults [OF p n] by blast
  have "noinit fs s dest m1 = Some (True, s', m')"
    using r m1(1) by (auto simp: decode_and_release_def split: option.splits bool.splits prod.splits)
  then show ?thesis by (rule noinit [OF default_typed [OF z p m1(2)]])
qed

lemma submessage_typed:
  fixes env :: "('s, 'h) pb_denv"
  assumes p: "plain_table d (de_fields env) (de_fields env (pf_ptr f)) (pf_data_size f)"
    and z: "number_defaults d (de_fields env) (de_fields env (pf_ptr f))"
    and l: "PB_LTYPE (pf_type f) = PB_LTYPE_SUBMESSAGE" and n: "2 * d \<le> n"
    and msg: "\<And>s dest (m :: 'h pb_mem) s' m'. is_ok s \<Longrightarrow> is_bytes_left s < b \<Longrightarrow> msg_typed d (de_fields env) (de_fields env (pf_ptr f)) dest m \<Longrightarrow>
      decode_message n env (pb_dec_submessage n env) (de_fields env (pf_ptr f)) s dest m = Some (True, s', m') \<Longrightarrow>
      msg_typed d (de_fields env) (de_fields env (pf_ptr f)) dest m'"
  shows "decodes_typed b (sub_typed d (de_fields env)) (pb_dec_submessage (Suc n) env) f"
  unfolding decodes_typed_def item_typed_simps(4) [OF l]
proof (intro allI impI, elim conjE)
  fix s :: "'s pb_istream" and dest and m :: "'h pb_mem" and s' m'
  let ?noinit = "decode_message n env (pb_dec_submessage n env)" and ?fs = "de_fields env (pf_ptr f)"
  assume s: "is_ok s" "is_bytes_left s \<le> b"
    and old: "PB_LTYPE (pf_type f) = PB_LTYPE_SUBMESSAGE \<longrightarrow> PB_HTYPE (pf_type f) \<noteq> PB_HTYPE_REPEATED \<longrightarrow> sub_typed d (de_fields env) f dest m"
    and r: "pb_dec_submessage (Suc n) env f s dest m = Some (True, s', m')"
  obtain rs u where mk: "pb_make_string_substream (de_read env) s = (rs, u)" by force
  obtain ss where ss: "rs = Some ss" using r mk by (cases rs) (auto simp: Let_def)
  note mk = mk [unfolded ss]
  have sub: "is_ok ss" "is_bytes_left ss < b" using substream_any(2) [OF s(1) mk refl] s(2) by auto
  obtain ss' where d: "(if PB_HTYPE (pf_type f) = PB_HTYPE_REPEATED then decode_and_release n env ?noinit ?fs ss dest m
         else ?noinit ?fs ss dest m) = Some (True, ss', m')"
    using r mk by (auto simp: Let_def split: if_splits option.splits prod.splits bool.splits)
  show "sub_typed d (de_fields env) f dest m'"
  proof (cases "PB_HTYPE (pf_type f) = PB_HTYPE_REPEATED")
    case True
    then have "decode_and_release n env ?noinit ?fs ss dest m = Some (True, ss', m')" using d by simp
    from decode_and_release_typed [OF p z n _ this] show ?thesis using msg [OF sub] by blast
  next
    case False
    then show ?thesis using msg [OF sub] old l d by simp
  qed
qed

lemma message_typed:
  "plain_table d (de_fields env) fs k \<Longrightarrow> number_defaults d (de_fields env) fs \<Longrightarrow> is_ok s \<Longrightarrow> is_bytes_left s + 2 * d \<le> n \<Longrightarrow>
   msg_typed d (de_fields env) fs dest m \<Longrightarrow> decode_message n env (pb_dec_submessage n env) fs s dest m = Some (True, s', m') \<Longrightarrow>
   msg_typed d (de_fields env) fs dest m'"
proof (induction d arbitrary: fs k n s dest m s' m')
  case (Suc d)
  obtain n' where n: "n = Suc n'" using Suc.prems(4) by (cases n) auto
  have "subs_typed (is_bytes_left s) d (de_fields env) (pb_dec_submessage n env) fs"
    unfolding subs_typed_def
  proof (intro allI impI)
    fix i assume i: "i < length fs" and l: "PB_LTYPE (pf_type (fs ! i)) = PB_LTYPE_SUBMESSAGE"
    let ?f = "fs ! i"
    have ty: "plain_type ?f" and pt: "plain_table d (de_fields env) (de_fields env (pf_ptr ?f)) (pf_data_size ?f)"
      using Suc.prems(1) i l by (auto elim: plain_tableE)
    have ptr: "pf_ptr ?f \<noteq> 0" using ty l by (cases rule: plain_ltype) (auto simp: pb_types)
    have n2: "2 * d \<le> n'" using Suc.prems(4) n by simp
    have "field_kept (is_bytes_left s) (pb_dec_submessage n env) ?f"
      unfolding n by (rule submessage_ok [OF pt ptr message_ok [OF pt] n2]) (use Suc.prems(4) n in simp_all)
    moreover have "decodes_typed (is_bytes_left s) (sub_typed d (de_fields env)) (pb_dec_submessage n env) ?f"
      unfolding n
      by (rule submessage_typed [OF pt number_defaultsD(1) [OF Suc.prems(2) i l] l n2],
          rule Suc.IH [OF pt number_defaultsD(1) [OF Suc.prems(2) i l]]) (use Suc.prems(4) n in simp_all)
    ultimately show "field_kept (is_bytes_left s) (pb_dec_submessage n env) ?f \<and>
        decodes_typed (is_bytes_left s) (sub_typed d (de_fields env)) (pb_dec_submessage n env) ?f" by blast
  qed
  from decode_message_typed [OF Suc.prems(1,2) this Suc.prems(3-6)] show ?case .
qed (simp add: plain_table.simps)

lemma pb_decode_typed:
  assumes p: "plain_table d (de_fields env) fs k" and z: "number_defaults d (de_fields env) fs" and s: "is_ok s"
    and n: "is_bytes_left s + 2 * d \<le> n" and r: "pb_decode n env fs s dest m = Some (True, s', m')"
  shows "msg_typed d (de_fields env) fs dest m'"
proof (rule decode_and_release_typed [OF p z _ _ r [unfolded pb_decode_def]])
  show "2 * d \<le> n" using n by simp
qed (use message_typed [OF p z s n] in \<open>simp add: pb_decode_noinit_def\<close>)

end
