(* ===== verification/PbUnion.thy ===== *)
theory PbUnion
  imports PbDecodeSpec
begin

text \<open>
  Decoding into a union, one member after another (\<open>pb_decode.c\<close>): what \<open>decode_field\<close> does with an
  integer member, and with a bytes member that is a pointer, whatever the union holds before.
\<close>

section \<open>Releasing the old member\<close>

text \<open>A static member that holds no message has nothing to release, and its place is not cleared.\<close>

lemma release_static_member:
  assumes "PB_ATYPE (pf_type (it_field iter)) = PB_ATYPE_STATIC"
    and "PB_LTYPE (pf_type (it_field iter)) \<noteq> PB_LTYPE_EXTENSION"
    and "PB_LTYPE (pf_type (it_field iter)) \<noteq> PB_LTYPE_SUBMESSAGE"
  shows "pb_release_single_field (Suc n) env iter m = Some m"
  using assms by (simp add: pb_release_single_field.simps Let_def PB_ATYPE_STATIC_def PB_ATYPE_POINTER_def)

lemma release_union_static:
  assumes t: "tags_ok fs" and ij: "i < length fs" "j < length fs"
    and i: "PB_LTYPE (pf_type (fs ! i)) \<noteq> PB_LTYPE_EXTENSION"
    and j: "PB_ATYPE (pf_type (fs ! j)) = PB_ATYPE_STATIC" "PB_LTYPE (pf_type (fs ! j)) \<noteq> PB_LTYPE_EXTENSION"
      "PB_LTYPE (pf_type (fs ! j)) \<noteq> PB_LTYPE_SUBMESSAGE"
    and holds: "read_size (iter_at 0 fs dest i) m = unat (pf_tag (fs ! j))"
  shows "pb_release_union_field (Suc n) env s (iter_at 0 fs dest i) m = Some (True, s, iter_at 0 fs dest i, m)"
proof -
  have "pb_release_single_field (Suc n) env (iter_at 0 fs dest j) m = Some m"
    using j t ij by (intro release_static_member) simp_all
  then show ?thesis
    using iter_find_at(1) [OF t ij(1,2) j(2)] iter_find_at(1) [OF t ij(2,1) i] t ij holds
    by (simp add: pb_release_union_field_def Let_def)
qed

lemma release_union_same:
  assumes "tags_ok fs" and "i < length fs" and "read_size (iter_at 0 fs dest i) m \<in> {0, unat (pf_tag (fs ! i))}"
  shows "pb_release_union_field n env s (iter_at 0 fs dest i) m = Some (True, s, iter_at 0 fs dest i, m)"
  using assms by (auto simp: pb_release_union_field_def Let_def)

section \<open>The members\<close>

lemma decode_union_integer:
  fixes env :: "('s, 'h) pb_denv"
  assumes t: "tags_ok fs" and j: "j < length fs"
    and type: "PB_HTYPE (pf_type (fs ! j)) = PB_HTYPE_ONEOF" "PB_ATYPE (pf_type (fs ! j)) = PB_ATYPE_STATIC"
      "PB_LTYPE (pf_type (fs ! j)) = PB_LTYPE_VARINT" "pf_data_size (fs ! j) = 8"
    and place: "it_pData (iter_at 0 fs dest j) = d" "it_pSize (iter_at 0 fs dest j) = SizeAt a"
    and holds: "load_int 4 a m \<in> {0, unat (pf_tag (fs ! j))}"
    and input: "leb_read p = Some (v, [])" "length p \<le> 10" "is_ok s" "is_rest s = p @ rest"
  shows "decode_field n env sub s PB_WT_VARINT (iter_at 0 fs dest j) m =
    Some (True, is_advance (length p) s, iter_at 0 fs dest j, store_int 8 v d (store_int 4 (unat (pf_tag (fs ! j))) a m))"
proof -
  let ?iter = "iter_at 0 fs dest j"
  have "pb_release_union_field n env s ?iter m = Some (True, s, ?iter, m)"
    by (rule release_union_same [OF t j]) (use holds in \<open>simp add: read_size_def place(2)\<close>)
  moreover have "pb_decode_varint (de_read env) s = (Some (of_nat v), is_advance (length p) s)"
    by (rule takesD [OF varint_takes [OF input(1,2)] input(3,4)])
  moreover have "store_int 8 (unat (of_nat v :: u64)) d m' = store_int 8 v d m'" for m' :: "'h pb_mem"
    using le_bytes_mod [of 8 v] by (simp add: store_int_def unat_of_nat)
  ultimately show ?thesis
    using type place t j
    by (simp add: decode_field_def decode_static_field_def Let_def call_decoder_table(2) returns_def pb_dec_varint_def
        store_checked_def clamp_signed_def write_size_def with_iter_def PB_HTYPE_ONEOF_def PB_HTYPE_REQUIRED_def
        PB_HTYPE_OPTIONAL_def PB_HTYPE_REPEATED_def PB_LTYPE_VARINT_def PB_LTYPE_SUBMESSAGE_def)
qed

text \<open>The bytes go where \<open>realloc\<close> says, and \<open>realloc\<close> is asked to move what the place of the union points to.\<close>

lemma decode_union_pointer:
  fixes env :: "('s, 'h) pb_denv"
  assumes t: "tags_ok fs" and ij: "i < length fs" "j < length fs"
    and ti: "PB_HTYPE (pf_type (fs ! i)) = PB_HTYPE_ONEOF" "PB_ATYPE (pf_type (fs ! i)) = PB_ATYPE_POINTER"
      "PB_LTYPE (pf_type (fs ! i)) = PB_LTYPE_BYTES"
    and tj: "PB_ATYPE (pf_type (fs ! j)) = PB_ATYPE_STATIC" "PB_LTYPE (pf_type (fs ! j)) \<noteq> PB_LTYPE_EXTENSION"
      "PB_LTYPE (pf_type (fs ! j)) \<noteq> PB_LTYPE_SUBMESSAGE"
    and place: "it_pData (iter_at 0 fs dest i) = d" "it_pSize (iter_at 0 fs dest i) = SizeAt a" "region a 4 \<inter> region d 8 = {}"
    and holds: "load_int 4 a m = unat (pf_tag (fs ! j))"
    and input: "leb_read p = Some (length bs, [])" "length p \<le> 36" "length bs < 2 ^ 32" "is_ok s" "is_rest s = p @ bs @ rest"
  shows "decode_field (Suc n) env sub s PB_WT_STRING (iter_at 0 fs dest i) m =
    (case de_realloc env (load_ptr d m) (length bs + 4) (store_int 4 (unat (pf_tag (fs ! i))) a m) of
       (ptr, m') \<Rightarrow>
         if ptr = 0 then Some (False, is_error ''realloc failed'' (is_advance (length p) s), iter_at 0 fs dest i, m')
         else Some (True, is_advance (length (p @ bs)) s, iter_at 0 fs dest i,
                store (ptr mod 2 ^ 64 + 4) bs (store_int 4 (length bs) (ptr mod 2 ^ 64) (store_ptr ptr d m'))))"
proof -
  let ?iter = "iter_at 0 fs dest i" and ?t = "is_advance (length p) s"
  let ?m = "store_int 4 (unat (pf_tag (fs ! i))) a m"
  have ext: "PB_LTYPE (pf_type (fs ! i)) \<noteq> PB_LTYPE_EXTENSION"
    using ti(3) by (simp add: PB_LTYPE_BYTES_def PB_LTYPE_EXTENSION_def)
  have release: "pb_release_union_field (Suc n) env s ?iter m = Some (True, s, ?iter, m)"
    by (rule release_union_static [OF t ij ext tj]) (simp add: read_size_def place holds)
  have len: "pb_decode_varint32 (de_read env) s = (Some (of_nat (length bs)), ?t)"
    by (rule takesD [OF varint32_takes [OF input(1,2,3)] input(4,5)])
  have rd: "pb_read (de_read env) True (length bs) ?t = (Some bs, is_advance (length (p @ bs)) s)"
    using pb_read_advance [of ?t bs rest "length bs" "de_read env" True] is_advance_rest [OF input(4,5)]
    by (simp add: is_advance_add add.commute)
  have old: "load_ptr d ?m = load_ptr d m"
    unfolding load_ptr_def load_int_def store_int_def using place(3) by (subst load_store_other) auto
  have new: "load_ptr d (store_ptr ptr d m') = ptr mod 2 ^ 64" for ptr and m' :: "'h pb_mem"
    using load_int_store_same [of 8 d ptr m'] by (simp add: load_ptr_def store_ptr_def)
  have size: "unat (of_nat (length bs) :: u32) = length bs" "PB_BYTES_ARRAY_T_ALLOCSIZE (length bs) = length bs + 4"
      "length bs + 4 < 2 ^ 64"
    using input(3) by (simp_all add: unat_of_nat PB_BYTES_ARRAY_T_ALLOCSIZE_def)
  have alloc: "allocate_field (de_realloc env) d (length bs + 4) 1 ?t ?m =
      (case de_realloc env (load_ptr d m) (length bs + 4) ?m of
         (ptr, m') \<Rightarrow> if ptr = 0 then (False, is_error ''realloc failed'' ?t, m') else (True, ?t, store_ptr ptr d m'))"
    using size(3) by (simp add: allocate_field_def old)
  have bytes: "pb_dec_bytes (de_read env) (de_realloc env) (fs ! i) s d ?m =
      (case de_realloc env (load_ptr d m) (length bs + 4) ?m of
         (ptr, m') \<Rightarrow>
           if ptr = 0 then (False, is_error ''realloc failed'' ?t, m')
           else (True, is_advance (length (p @ bs)) s,
                  store (ptr mod 2 ^ 64 + 4) bs (store_int 4 (length bs) (ptr mod 2 ^ 64) (store_ptr ptr d m'))))"
    using ti(2) input(3) by (simp add: pb_dec_bytes_def len size alloc Let_def PB_SIZE_MAX_def read_into_def rd new del: One_nat_def split: prod.split)
  have "decode_field (Suc n) env sub s PB_WT_STRING ?iter m =
      with_iter ?iter (Some (pb_dec_bytes (de_read env) (de_realloc env) (fs ! i) s d ?m))"
    using ti place t ij
    by (simp add: decode_field_def release decode_pointer_field_def Let_def write_size_def call_decoder_table(7) returns_def
        PB_ATYPE_POINTER_def PB_ATYPE_STATIC_def PB_LTYPE_BYTES_def PB_LTYPE_SUBMESSAGE_def)
  then show ?thesis unfolding bytes by (simp add: with_iter_def split: prod.split)
qed

end
