(* ===== verification/PbProperties.thy ===== *)
theory PbProperties
  imports PbCodec
begin

text \<open>
  The properties of the nanopb runtime, each with an instance at a concrete message. The callbacks of
  custom streams are parameters throughout; on buffer streams they are not called.
\<close>

text \<open>The callback of a stream that has none, for the instances.\<close>

definition no_input :: "unit icallback" where
  "no_input st n = (False, [], st)"

definition no_output :: "unit ocallback_fun" where
  "no_output st bs = (False, st)"

section \<open>The wire format\<close>

text \<open>C25: \<open>pb_decode_varint\<close> on a buffer succeeds if and only if a base-128 integer ends within the next ten
  bytes, and then returns its value modulo \<open>2 ^ 64\<close> (\<open>leb_read\<close> reads it off the bytes).\<close>

theorem varint_decodes_exactly:
  assumes "is_ok s"
  shows "fst (pb_decode_varint io s) = map_option (\<lambda>(n, r). of_nat n) (leb_read (take 10 (is_rest s)))"
  by (rule varint_decode_exact [OF assms])

theorem varint_decodes_exactly_witness:
  "fst (pb_decode_varint no_input (pb_istream_from_buffer [0xac, 0x02, 7] 3)) = Some 300 \<and>
   fst (pb_decode_varint no_input (pb_istream_from_buffer (replicate 11 0x80) 11)) = None"
proof -
  have "leb_read (take 10 (is_rest (pb_istream_from_buffer [0xac, 0x02, 7] 3))) = Some (300, [7])"
    and "leb_read (take 10 (is_rest (pb_istream_from_buffer (replicate 11 0x80) 11))) = None" by code_simp+
  then show ?thesis
    using varint_decodes_exactly [of "pb_istream_from_buffer [0xac, 0x02, 7] 3" no_input]
      varint_decodes_exactly [of "pb_istream_from_buffer (replicate 11 0x80) 11" no_input]
    by (simp del: from_buffer(1))
qed

text \<open>\<open>pb_encode_varint\<close> writes the shortest base-128 form of its value and never overruns its ten-byte
  buffer.\<close>

theorem varint_encodes_shortest:
  "pb_encode_varint io v = pb_write io (leb (unat v)) \<and> length (encode_varint_loop v) \<le> 10 \<and>
   leb_read (leb (unat v)) = Some (unat v, [])"
  by (simp add: pb_encode_varint_leb encode_varint_buffer_fits leb_read_own)

text \<open>Signed integers written with \<open>pb_encode_svarint\<close> into a buffer that is large enough are read back
  with \<open>pb_decode_svarint\<close>, whatever follows them in the buffer.\<close>

theorem svarints_roundtrip:
  assumes "length (concat (map (\<lambda>v. leb (unat (zigzag v))) xs)) \<le> n" and "n < 2 ^ 63"
  shows "\<exists>os. pb_codec.write_all (pb_encode_svarint io) xs (pb_ostream_from_buffer n) = (True, os) \<and>
    os_bytes_written os = length (os_out os) \<and> os_bytes_written os \<le> n \<and>
    fst (pb_codec.read_all (pb_decode_svarint ip) (length xs)
      (pb_istream_from_buffer (os_out os @ junk) (os_bytes_written os))) = Some xs"
proof -
  have "length (pb_svarint.wire_list xs) \<le> n" using assms(1) by (simp add: pb_svarint.wire_list_def)
  from pb_svarint.buffer_roundtrip [where xs = xs and io = io and junk = junk and ip = ip, OF TrueI this assms(2)]
  obtain os where "pb_codec.write_all (pb_encode_svarint io) xs (pb_ostream_from_buffer n) = (True, os)"
      "os_bytes_written os = length (os_out os)" "os_bytes_written os \<le> n"
      "fst (pb_codec.read_all (pb_decode_svarint ip) (length xs)
        (pb_istream_from_buffer (os_out os @ junk) (os_bytes_written os))) = Some xs"
    by metis
  then show ?thesis by blast
qed

theorem svarints_roundtrip_witness:
  "\<exists>os. pb_codec.write_all (pb_encode_svarint no_output) [- 1, 64] (pb_ostream_from_buffer 3) = (True, os) \<and>
    fst (pb_codec.read_all (pb_decode_svarint no_input) 2
      (pb_istream_from_buffer (os_out os @ [9]) (os_bytes_written os))) = Some [- 1, 64]"
proof -
  have fits: "length (concat (map (\<lambda>v. leb (unat (zigzag v))) [- 1, 64])) \<le> 3" by code_simp
  have lt: "(3 :: nat) < 2 ^ 63" and len: "length [- 1, 64 :: i64] = 2" by simp_all
  from svarints_roundtrip [OF fits lt, of no_output no_input "[9]", unfolded len] show ?thesis by blast
qed

text \<open>A sizing stream computes exactly the number of bytes that the same calls write: a buffer of that
  size is accepted, a smaller one is refused, and no buffer is ever overrun.\<close>

theorem sizing_is_exact:
  assumes "\<forall>bs \<in> set xs. length bs < 2 ^ 32" and "length (concat (map (\<lambda>bs. leb (length bs) @ bs) xs)) < 2 ^ 63"
    and "pb_codec.write_all (pb_encode_string io) xs PB_OSTREAM_SIZING = (ok, sz)" and "n < 2 ^ 63"
  shows "ok \<and> os_bytes_written sz = length (concat (map (\<lambda>bs. leb (length bs) @ bs) xs)) \<and>
    (fst (pb_codec.write_all (pb_encode_string io) xs (pb_ostream_from_buffer n)) \<longleftrightarrow> os_bytes_written sz \<le> n) \<and>
    length (os_out (snd (pb_codec.write_all (pb_encode_string io) xs (pb_ostream_from_buffer n)))) \<le> n"
  using pb_string.sizing_exact(1,2) [where xs = xs and io = io and ok = ok and sz = sz]
    pb_string.sizing_exact(3,4) [where xs = xs and io = io and ok = ok and sz = sz and n = n] assms
  by (simp add: pb_string.wire_list_def)

theorem sizing_is_exact_witness:
  "\<not> fst (pb_codec.write_all (pb_encode_string no_output) [[1, 2], []] (pb_ostream_from_buffer 3)) \<and>
   fst (pb_codec.write_all (pb_encode_string no_output) [[1, 2], []] (pb_ostream_from_buffer 4))"
proof -
  let ?w = "pb_codec.write_all (pb_encode_string no_output) [[1, 2], []]"
  have len: "length (concat (map (\<lambda>bs. leb (length bs) @ bs) [[1, 2 :: u8], []])) = 4" by code_simp
  obtain ok sz where sz: "?w PB_OSTREAM_SIZING = (ok, sz)" by force
  have v: "\<forall>bs \<in> set [[1, 2 :: u8], []]. length bs < 2 ^ 32" by simp
  have "fst (?w (pb_ostream_from_buffer n)) \<longleftrightarrow> 4 \<le> n" if "n < 2 ^ 63" for n
    using sizing_is_exact [OF v _ sz that] unfolding len by simp
  from this [of 3] this [of 4] show ?thesis by simp
qed

text \<open>C26: \<open>pb_skip_field\<close> skips exactly one field of the given wire type, so that an unknown field does not
  affect what is read behind it: a base-128 integer in any encoding, padded ones of any length included, eight or
  four bytes, or a string of less than 2^32 bytes behind any encoding of its length in up to 36 bytes (C28 shows
  longer ones that are misread).\<close>

theorem skip_is_exact:
  assumes "wire_valid w" and "is_ok s" and "is_rest s = wire_bytes w @ rest"
  shows "pb_skip_field io (wire_type w) s = (True, is_advance (length (wire_bytes w)) s) \<and>
    is_rest (snd (pb_skip_field io (wire_type w) s)) = rest"
  using skip_field_exact [OF assms] is_advance_rest [OF assms(2,3)] by simp_all

text \<open>The length 2 in three bytes.\<close>

theorem skip_is_exact_witness:
  "is_rest (snd (pb_skip_field no_input PB_WT_STRING (pb_istream_from_buffer [0x82, 0x80, 0, 8, 9, 5] 6))) = [5]"
proof -
  have w: "wire_valid (Bytes [0x82, 0x80, 0] [8, 9])" by simp
  have ok: "is_ok (pb_istream_from_buffer [0x82, 0x80, 0, 8, 9, 5] 6)" by simp
  have "is_rest (pb_istream_from_buffer [0x82, 0x80, 0, 8, 9, 5] 6) = wire_bytes (Bytes [0x82, 0x80, 0] [8, 9]) @ [5]"
    by simp
  from skip_is_exact [OF w ok this, of no_input, THEN conjunct2] show ?thesis by simp
qed

text \<open>C27: A substream made by \<open>pb_make_string_substream\<close> delivers exactly the bytes of the string, and
  \<open>pb_close_string_substream\<close> moves the parent stream behind the string, however much of it was read.\<close>

theorem substream_is_exact:
  assumes "length bs < 2 ^ 32" and "is_ok s" and "is_rest s = leb (length bs) @ bs @ rest" and "k \<le> length bs"
  shows "\<exists>sub parent. pb_make_string_substream io s = (Some sub, parent) \<and> is_ok sub \<and> is_rest sub = bs \<and>
    pb_read io True k sub = (Some (take k bs), is_advance k sub) \<and>
    pb_close_string_substream io parent (is_advance k sub) = (True, is_advance (length (leb (length bs) @ bs)) s)"
proof -
  have "is_rest s = (leb (length bs) @ bs) @ rest" using assms(3) by simp
  then obtain sub parent where s: "pb_make_string_substream io s = (Some sub, parent)" "is_ok sub" "is_rest sub = bs"
      "pb_close_string_substream io parent (is_advance k sub) = (True, is_advance (length (leb (length bs) @ bs)) s)"
    using substream_exact [OF assms(1,2)] assms(4) by metis
  have "pb_read io True k sub = (Some (take k bs), is_advance k sub)"
    using pb_read_advance [OF s(2), of "take k bs" "drop k bs" k io True] s(3) assms(4) by simp
  then show ?thesis using s by blast
qed

theorem substream_is_exact_witness:
  "\<exists>sub parent. pb_make_string_substream no_input (pb_istream_from_buffer [2, 8, 9, 5] 4) = (Some sub, parent) \<and>
    is_rest sub = [8, 9] \<and>
    is_rest (snd (pb_close_string_substream no_input parent (is_advance 1 sub))) = [5]"
proof -
  have "leb 2 = [2]" by code_simp
  then have r: "is_rest (pb_istream_from_buffer [2, 8, 9, 5] 4) = leb (length [8, 9 :: u8]) @ [8, 9] @ [5]"
    and l: "length (leb (length [8, 9 :: u8]) @ [8, 9]) = 3" by (simp_all add: numeral_2_eq_2)
  have "is_ok (pb_istream_from_buffer [2, 8, 9, 5] 4)" by simp
  from substream_is_exact [OF _ this r, of 1 no_input, unfolded l] show ?thesis
    by (force simp: is_advance_def pb_istream_from_buffer_def is_rest_def)
qed

text \<open>C28: The 32-bit reader has no limit on the length of a base-128 integer, and its 8-bit position wraps:
  after any number \<open>n\<close> of continuation bytes without a value it takes the last byte \<open>b\<close>, which stands for
  \<open>b * 2 ^ (7 * n)\<close>, for \<open>b * 2 ^ p\<close>, where \<open>p = 7 * n mod 256\<close>, and returns this modulo \<open>2 ^ 32\<close>. Only at the
  position 28, and from the position 32 on, does it look for an overflow.\<close>

theorem varint32_position_wraps:
  assumes "is_ok s" and "is_rest s = replicate n 0x80 @ b # rest" and "unat b < 128"
  shows "leb_read (replicate n 0x80 @ [b]) = Some (unat b * 2 ^ (7 * n), []) \<and>
    pb_decode_varint32 io s =
      (let p = 7 * n mod 256 in
       if 32 \<le> p \<and> b \<noteq> 0 \<or> p = 28 \<and> 16 \<le> unat b
       then (None, is_error ''varint overflow'' (is_advance (Suc n) s))
       else (Some (of_nat (unat b * 2 ^ p)), is_advance (Suc n) s))"
  using leb_read_zeros [OF assms(3)] varint32_zeros [OF assms] by blast

text \<open>So 37 continuation bytes and a last byte of 1, which encode \<open>2 ^ 259\<close>, are read as 8.\<close>

theorem varint32_position_wraps_witness:
  "leb_read (replicate 37 0x80 @ [1]) = Some (2 ^ 259, []) \<and>
   fst (pb_decode_varint32 no_input (pb_istream_from_buffer (replicate 37 0x80 @ [1]) 38)) = Some 8"
proof -
  let ?s = "pb_istream_from_buffer (replicate 37 0x80 @ [1]) 38"
  have "is_ok ?s" and "is_rest ?s = replicate 37 0x80 @ 1 # []" by simp_all
  from varint32_position_wraps [OF this, of no_input] show ?thesis by simp
qed

end
