(* ===== verification/PbMsgProperties.thy ===== *)
theory PbMsgProperties
  imports PbMessageSpec PbTypeSpec PbUnion PbProperties
begin

text \<open>
  The properties of nanopb's messages: what \<open>pb_encode\<close> writes and \<open>pb_decode\<close> makes of it, of the same
  fields in another order and with unknown ones among them, of incomplete messages and of any input at
  all. They hold for every descriptor table of static fields (\<open>plain_table\<close>); the instances are about a
  record with a required, an optional and a repeated field and a submessage.
\<close>

section \<open>A table and a structure\<close>

definition point_fields :: "pb_field_t list" where
  "point_fields =
     [\<lparr>pf_tag = 1, pf_type = PB_HTYPE_REQUIRED OR PB_LTYPE_VARINT, pf_data_offset = 0, pf_size_offset = 0,
       pf_data_size = 4, pf_array_size = 0, pf_ptr = 0\<rparr>]"

definition record_fields :: "pb_field_t list" where
  "record_fields =
     [\<lparr>pf_tag = 1, pf_type = PB_HTYPE_REQUIRED OR PB_LTYPE_UVARINT, pf_data_offset = 0, pf_size_offset = 0,
       pf_data_size = 4, pf_array_size = 0, pf_ptr = 0\<rparr>,
      \<lparr>pf_tag = 2, pf_type = PB_HTYPE_OPTIONAL OR PB_LTYPE_STRING, pf_data_offset = 1, pf_size_offset = - 1,
       pf_data_size = 6, pf_array_size = 0, pf_ptr = 0\<rparr>,
      \<lparr>pf_tag = 3, pf_type = PB_HTYPE_REPEATED OR PB_LTYPE_UVARINT, pf_data_offset = 5, pf_size_offset = - 4,
       pf_data_size = 2, pf_array_size = 4, pf_ptr = 0\<rparr>,
      \<lparr>pf_tag = 4, pf_type = PB_HTYPE_OPTIONAL OR PB_LTYPE_SUBMESSAGE, pf_data_offset = 4, pf_size_offset = - 4,
       pf_data_size = 4, pf_array_size = 0, pf_ptr = 0x8000\<rparr>]"

definition record_tables :: "nat \<Rightarrow> pb_field_t list" where
  "record_tables p = (if p = 0x8000 then point_fields else [])"

definition empty_mem :: "unit pb_mem" where
  "empty_mem = \<lparr>pm_byte = (\<lambda>x. 0), pm_heap = ()\<rparr>"

definition record_mem :: "unit pb_mem" where
  "record_mem = store 0x100
     [42, 0, 0, 0, 1, 104, 105, 0, 0, 0, 0, 0, 2, 0, 0, 0, 5, 0, 0x2c, 1, 0, 0, 0, 0,
      1, 0, 0, 0, 0xfe, 0xff, 0xff, 0xff] empty_mem"

definition record_eenv :: "(unit, unit) pb_eenv" where
  "record_eenv =
     \<lparr>ee_write = no_output, ee_fields = record_tables, ee_callback = (\<lambda>a f arg m s. (False, s)),
      ee_extension = (\<lambda>a ext m s. (False, s)), ee_null = ()\<rparr>"

definition record_denv :: "(unit, unit) pb_denv" where
  "record_denv =
     \<lparr>de_read = no_input, de_realloc = (\<lambda>p n m. (0, m)), de_free = (\<lambda>p m. m), de_fields = record_tables,
      de_callback = (\<lambda>a f s arg m. (False, s, m)), de_extension = (\<lambda>a ext tag wt s m. (False, s, m))\<rparr>"

definition record_value :: "pb_val list list" where
  "record_value = [[PVal [42, 0, 0, 0]], [PVal [104, 105]], [PVal [5, 0], PVal [0x2c, 1]], [PMsg [[PVal [0xfe, 0xff, 0xff, 0xff]]]]]"

definition record_wire :: "u8 list" where
  "record_wire = [8, 42, 18, 2, 104, 105, 0x1a, 3, 5, 0xac, 2,
     0x22, 11, 8, 0xfe, 0xff, 0xff, 0xff, 0xff, 0xff, 0xff, 0xff, 0xff, 1]"

lemma record_plain: "plain_table 2 record_tables record_fields 32"
  and record_tags: "wire_table 2 record_tables record_fields"
  and record_holds: "msg_value 2 record_tables record_fields 0x100 record_mem = record_value"
  and record_ok: "msg_ok 2 record_tables record_fields record_value"
  and record_bytes: "msg_wire 2 record_tables record_fields record_value = record_wire"
  by code_simp+

lemma record_env [simp]: "ee_fields record_eenv = record_tables" "de_fields record_denv = record_tables"
  by (simp_all add: record_eenv_def record_denv_def)

lemma length_record_wire [simp]: "length record_wire = 24"
  by (simp add: record_wire_def)

section \<open>Encoding\<close>

text \<open>C2: \<open>pb_encode\<close> into a buffer and \<open>pb_decode\<close> of what was written restore the message, whatever was in
  the structure it is decoded into: every field has its old value, and nothing but the structure changes.\<close>

theorem message_roundtrip:
  assumes "plain_table d tables fs k" and "wire_table d tables fs" and "ee_fields ee = tables" and "de_fields de = tables"
    and "msg_ok d tables fs (msg_value d tables fs src m1)" and "src \<noteq> 0"
    and "length (msg_wire d tables fs (msg_value d tables fs src m1)) \<le> bufsize" and "bufsize < 2 ^ 63"
    and "d \<le> n1" and "bufsize + 2 * d \<le> n2"
  shows "\<exists>os s m'. pb_encode n1 ee fs src m1 (pb_ostream_from_buffer bufsize) = Some (True, os) \<and>
    pb_decode n2 de fs (pb_istream_from_buffer (os_out os) (os_bytes_written os)) dest m2 = Some (True, s, m') \<and>
    msg_value d tables fs dest m' = msg_value d tables fs src m1 \<and> changes (region dest k) m2 m'"
proof -
  let ?vss = "msg_value d tables fs src m1"
  let ?w = "msg_wire d tables fs ?vss" and ?os = "pb_ostream_from_buffer bufsize"
  have "e_emits (pb_encode n1 ee fs src m1) ?w"
    using encode_emits [of d ee fs k src m1 n1] assms by (simp add: pb_encode_def e_emits_def)
  moreover have "buffer_ready ?os" "os_bytes_written ?os + length ?w \<le> os_max_size ?os"
    using assms(7,8) by (simp_all add: buffer_ready_def os_ok_def pb_ostream_from_buffer_def)
  ultimately have enc: "pb_encode n1 ee fs src m1 ?os = Some (True, os_append ?w ?os)" by (rule e_emitsD(1))
  have out: "os_out (os_append ?w ?os) = ?w" "os_bytes_written (os_append ?w ?os) = length ?w"
    by (simp_all add: pb_ostream_from_buffer_def)
  let ?s = "pb_istream_from_buffer ?w (length ?w)"
  have "msg_restored d (de_fields de) fs k ?vss dest ?s m2 (pb_decode n2 de fs ?s dest m2)"
    by (rule pb_decode_exact) (use assms in \<open>simp_all add: pb_istream_from_buffer_def is_ok_def is_rest_def\<close>)
  then show ?thesis using enc out assms(4) by (auto simp: msg_restored_def)
qed

theorem message_roundtrip_witness:
  "\<exists>os s m'. pb_encode 2 record_eenv record_fields 0x100 record_mem (pb_ostream_from_buffer 24) = Some (True, os) \<and>
    pb_decode 28 record_denv record_fields (pb_istream_from_buffer (os_out os) (os_bytes_written os)) 0x200 empty_mem = Some (True, s, m') \<and>
    msg_value 2 record_tables record_fields 0x200 m' = record_value"
proof -
  have ok: "msg_ok 2 record_tables record_fields (msg_value 2 record_tables record_fields 0x100 record_mem)"
    and fits: "length (msg_wire 2 record_tables record_fields (msg_value 2 record_tables record_fields 0x100 record_mem)) \<le> 24"
    by (simp_all add: record_holds record_ok record_bytes)
  from message_roundtrip [OF record_plain record_tags record_env ok _ fits, where ?n1.0 = 2 and ?n2.0 = 28 and dest = "0x200" and ?m2.0 = empty_mem]
  show ?thesis by (fastforce simp: record_holds)
qed

text \<open>C9: \<open>pb_get_encoded_size\<close> is exact: \<open>pb_encode\<close> succeeds on a buffer if and only if it has that many
  bytes, and then writes exactly that many; it never exceeds a smaller buffer.\<close>

theorem message_size_exact:
  assumes "plain_table d (ee_fields ee) fs k" and "wire_table d (ee_fields ee) fs"
    and "msg_ok d (ee_fields ee) fs (msg_value d (ee_fields ee) fs src m)" and "src \<noteq> 0" and "d \<le> n"
    and "length (msg_wire d (ee_fields ee) fs (msg_value d (ee_fields ee) fs src m)) < 2 ^ 64" and "bufsize < 2 ^ 63"
  shows "\<exists>len ok os. pb_get_encoded_size n ee fs src m = Some (Some len) \<and>
    pb_encode n ee fs src m (pb_ostream_from_buffer bufsize) = Some (ok, os) \<and> (ok \<longleftrightarrow> len \<le> bufsize) \<and>
    (ok \<longrightarrow> os_bytes_written os = len) \<and> os_bytes_written os = length (os_out os) \<and> length (os_out os) \<le> bufsize"
proof -
  let ?w = "msg_wire d (ee_fields ee) fs (msg_value d (ee_fields ee) fs src m)" and ?os = "pb_ostream_from_buffer bufsize"
  have em: "e_emits (pb_encode n ee fs src m) ?w"
    using encode_emits [OF assms(1-5)] by (simp add: pb_encode_def e_emits_def)
  have len: "pb_get_encoded_size n ee fs src m = Some (Some (length ?w))"
    using sizing_count [OF em assms(6), of ee] by (simp add: pb_get_encoded_size_def)
  have ready: "buffer_ready ?os" using assms(7) by (simp add: buffer_ready_def os_ok_def pb_ostream_from_buffer_def)
  have os: "os_bytes_written ?os = 0" "os_max_size ?os = bufsize" "os_out ?os = []" by (simp_all add: pb_ostream_from_buffer_def)
  show ?thesis
  proof (cases "length ?w \<le> bufsize")
    case True
    then show ?thesis using len e_emitsD(1) [OF em ready] os by simp
  next
    case False
    then have "refused ?os (pb_encode n ee fs src m ?os)" using e_emitsD(2) [OF em ready] os by simp
    then show ?thesis using len False os by (auto simp: refused_def os_ok_def)
  qed
qed

theorem message_size_exact_witness:
  "\<exists>len os. pb_get_encoded_size 2 record_eenv record_fields 0x100 record_mem = Some (Some len) \<and>
    pb_encode 2 record_eenv record_fields 0x100 record_mem (pb_ostream_from_buffer 23) = Some (len \<le> 23, os) \<and>
    length (os_out os) \<le> 23"
  using message_size_exact [where d = 2 and ee = record_eenv and fs = record_fields and k = 32 and src = "0x100" and m = record_mem
      and n = 2 and bufsize = 23]
  by (auto simp: record_plain record_tags record_holds record_ok record_bytes)

section \<open>Decoding\<close>

text \<open>C4: Whatever the input, \<open>pb_decode\<close> into a structure of static fields ends (in as many steps as the input
  has bytes and two for each level of nesting), changes nothing but the structure, allocates nothing, and
  neither reads behind the end of the input nor moves backwards.\<close>

theorem decode_stays_in_structure:
  assumes "plain_table d (de_fields env) fs k" and "is_ok s" and "is_bytes_left s + 2 * d \<le> n"
  shows "\<exists>ok s' m'. pb_decode n env fs s dest m = Some (ok, s', m') \<and> changes (region dest k) m m' \<and>
    is_ok s' \<and> is_bytes_left s' \<le> is_bytes_left s"
  using pb_decode_within [OF assms, where dest = dest and m = m] by (auto simp: result_ok_def)

theorem decode_stays_in_structure_witness:
  "\<exists>ok s' m'. pb_decode 9 record_denv record_fields (pb_istream_from_buffer [0x1a, 0xff, 3, 5, 7] 5) 0x100 record_mem = Some (ok, s', m') \<and>
    pm_byte m' 0x120 = 0 \<and> pm_byte m' 0xff = 0"
proof -
  have zero: "pm_byte record_mem 0x120 = 0" "pm_byte record_mem 0xff = 0" by code_simp+
  have ok: "is_ok (pb_istream_from_buffer [0x1a, 0xff, 3, 5, 7] 5)"
    and n: "is_bytes_left (pb_istream_from_buffer [0x1a, 0xff, 3, 5, 7] 5) + 2 * 2 \<le> 9"
    by (simp_all add: pb_istream_from_buffer_def is_ok_def)
  obtain ok s' m' where r: "pb_decode 9 record_denv record_fields (pb_istream_from_buffer [0x1a, 0xff, 3, 5, 7] 5) 0x100 record_mem = Some (ok, s', m')"
    and m': "changes (region 0x100 32) record_mem m'"
    using decode_stays_in_structure [OF record_plain [folded record_env(2)] ok n, where dest = "0x100" and m = record_mem] by blast
  have "pm_byte m' 0x120 = 0" "pm_byte m' 0xff = 0" using changes_byte [OF m'] zero by simp_all
  then show ?thesis using r by blast
qed

text \<open>C7: The structure of static fields that \<open>pb_decode\<close> fills, whatever the input it accepts, is well formed: counts
  of arrays do not exceed their room, strings are terminated, the size of a bytes field fits, booleans are 0 or 1,
  the tag of a union is 0, when no member is set, or one of its members', and then that member is well formed, down
  through all submessages. Default values, if the tables give any, have to be those of numbers, enumerations or byte
  arrays of a fixed length (\<open>number_defaults\<close>), as all default values in the tables of the repository are.\<close>

theorem decoded_is_well_formed:
  assumes "plain_table d (de_fields env) fs k" and "number_defaults d (de_fields env) fs" and "is_ok s"
    and "is_bytes_left s + 2 * d \<le> n" and "pb_decode n env fs s dest m = Some (True, s', m')"
  shows "msg_typed d (de_fields env) fs dest m'"
  by (rule pb_decode_typed [OF assms])

theorem decoded_is_well_formed_witness:
  "\<exists>s' m'. pb_decode 28 record_denv record_fields (pb_istream_from_buffer record_wire 24) 0x100 record_mem = Some (True, s', m') \<and>
    msg_typed 2 record_tables record_fields 0x100 m'"
proof -
  let ?s = "pb_istream_from_buffer record_wire 24"
  have ok: "is_ok ?s" and n: "is_bytes_left ?s + 2 * 2 \<le> 28"
    by (simp_all add: pb_istream_from_buffer_def is_ok_def)
  have z: "number_defaults 2 record_tables record_fields" by code_simp
  have "msg_restored 2 (de_fields record_denv) record_fields 32 record_value 0x100 ?s record_mem
      (pb_decode 28 record_denv record_fields ?s 0x100 record_mem)"
    by (rule pb_decode_exact) (simp_all add: record_plain record_tags record_ok record_bytes ok n [simplified])
  then obtain s' m' where r: "pb_decode 28 record_denv record_fields ?s 0x100 record_mem = Some (True, s', m')"
    by (auto simp: msg_restored_def)
  from decoded_is_well_formed [OF record_plain [folded record_env(2)] z [folded record_env(2)] ok n r] show ?thesis using r by auto
qed

text \<open>The table of \<open>gdt_cct_NetworkConnectionInfo\<close>, whose two enumerations have default values (here at \<open>0x80\<close>
  and \<open>0x84\<close>).\<close>

definition network_fields :: "pb_field_t list" where
  "network_fields =
     [\<lparr>pf_tag = 1, pf_type = PB_ATYPE_STATIC OR PB_HTYPE_OPTIONAL OR PB_LTYPE_VARINT, pf_data_offset = 4, pf_size_offset = - 4,
       pf_data_size = 4, pf_array_size = 0, pf_ptr = 0x80\<rparr>,
      \<lparr>pf_tag = 2, pf_type = PB_ATYPE_STATIC OR PB_HTYPE_OPTIONAL OR PB_LTYPE_UVARINT, pf_data_offset = 4, pf_size_offset = - 4,
       pf_data_size = 4, pf_array_size = 0, pf_ptr = 0x84\<rparr>]"

lemma network_fields_ok: "plain_table 1 record_tables network_fields 16 \<and> number_defaults 1 record_tables network_fields"
  by code_simp

text \<open>C6: The fields of a message may come in any order and with unknown fields among them, and the values of
  an array in several pieces, packed or single: \<open>pb_decode\<close> returns the message that they make up.\<close>

theorem decode_any_order:
  assumes "plain_table (Suc d) tables fs k" and "wire_table (Suc d) tables fs" and "de_fields env = tables"
    and "pieces_ok d tables fs (replicate (length fs) []) es"
    and "msg_ok (Suc d) tables fs (put (replicate (length fs) []) es)"
    and "is_ok s" and "is_rest s = pieces_wire (sub_wire d tables) fs es" and "is_bytes_left s + 2 * Suc d \<le> n"
  shows "\<exists>m'. pb_decode n env fs s dest m = Some (True, is_advance (length (is_rest s)) s, m') \<and>
    msg_value (Suc d) tables fs dest m' = put (replicate (length fs) []) es \<and> changes (region dest k) m m'"
  using pb_decode_pieces [where env = env and d = d and fs = fs and k = k and es = es and s = s and n = n and dest = dest and m = m] assms
  by (auto simp: msg_restored_def)

definition shuffled_pieces :: "pb_piece list" where
  "shuffled_pieces =
     [Single 2 (PVal [5, 0]), Unknown 9 (Bytes [2] [1, 2]), Single 1 (PVal [104, 105]), Single 0 (PVal [42, 0, 0, 0]),
      Single 3 (PMsg [[PVal [0xfe, 0xff, 0xff, 0xff]]]), Packed 2 [PVal [0x2c, 1]]]"

theorem decode_any_order_witness:
  "\<exists>s m'. pb_decode 40 record_denv record_fields
      (pb_istream_from_buffer
         [0x18, 5, 0x4a, 2, 1, 2, 18, 2, 104, 105, 8, 42,
          0x22, 11, 8, 0xfe, 0xff, 0xff, 0xff, 0xff, 0xff, 0xff, 0xff, 0xff, 1, 0x1a, 2, 0xac, 2] 29) 0x200 record_mem = Some (True, s, m') \<and>
    msg_value 2 record_tables record_fields 0x200 m' = record_value"
proof -
  let ?in = "[0x18, 5, 0x4a, 2, 1, 2, 18, 2, 104, 105, 8, 42,
      0x22, 11, 8, 0xfe, 0xff, 0xff, 0xff, 0xff, 0xff, 0xff, 0xff, 0xff, 1, 0x1a, 2, 0xac, 2] :: u8 list"
  let ?s = "pb_istream_from_buffer ?in 29" and ?none = "replicate (length record_fields) []"
  have two: "Suc 1 = 2" by simp
  have pieces: "pieces_ok 1 record_tables record_fields ?none shuffled_pieces" by code_simp
  have put: "put ?none shuffled_pieces = record_value" by code_simp
  have wire: "pieces_wire (sub_wire 1 record_tables) record_fields shuffled_pieces = ?in" by code_simp
  have s: "is_rest ?s = pieces_wire (sub_wire 1 record_tables) record_fields shuffled_pieces"
    unfolding wire by (simp add: pb_istream_from_buffer_def is_rest_def)
  have ok: "is_ok ?s" and left: "is_bytes_left ?s + 2 * Suc 1 \<le> 40"
    by (simp_all add: pb_istream_from_buffer_def is_ok_def)
  have msg: "msg_ok (Suc 1) record_tables record_fields (put ?none shuffled_pieces)" unfolding put two by (rule record_ok)
  note plain = record_plain [folded two] and tags = record_tags [folded two]
  from decode_any_order [OF plain tags record_env(2) pieces msg ok s left, where dest = "0x200" and m = record_mem]
  show ?thesis unfolding put two by blast
qed

text \<open>C10: A message in which a required field is missing (one of the first 64 required ones, to which the
  runtime's bit field extends) is refused with the error for it, wherever its other fields stand.\<close>

theorem missing_required_refused:
  assumes "plain_table (Suc d) tables fs k" and "wire_table (Suc d) tables fs" and "de_fields env = tables"
    and "pieces_ok d tables fs (replicate (length fs) []) es" and "i < length fs"
    and "PB_HTYPE (pf_type (fs ! i)) = PB_HTYPE_REQUIRED" and "req_index fs i < PB_MAX_REQUIRED_FIELDS"
    and "put (replicate (length fs) []) es ! i = []"
    and "is_ok s" and "is_rest s = pieces_wire (sub_wire d tables) fs es" and "is_errmsg s = None"
    and "is_bytes_left s + 2 * Suc d \<le> n"
  shows "\<exists>s' m'. pb_decode n env fs s dest m = Some (False, s', m') \<and>
    is_errmsg s' = Some ''missing required field'' \<and> changes (region dest k) m m'"
proof -
  obtain m' where "pb_decode n env fs s dest m =
      Some (False, is_error ''missing required field'' (is_advance (length (is_rest s)) s), m')"
    and "changes (region dest k) m m'"
    by (rule pb_decode_incomplete [where env = env and d = d and fs = fs and k = k and es = es and i = i and s = s and n = n
          and dest = dest and m = m]) (use assms in \<open>simp_all add: PB_MAX_REQUIRED_FIELDS_def\<close>)
  then show ?thesis using assms(11) by (simp add: is_error_def is_advance_def)
qed

theorem missing_required_refused_witness:
  "\<exists>s' m'. pb_decode 12 record_denv record_fields (pb_istream_from_buffer [18, 2, 104, 105] 4) 0x200 record_mem = Some (False, s', m') \<and>
    is_errmsg s' = Some ''missing required field''"
proof -
  let ?es = "[Single 1 (PVal [104, 105])]" and ?s = "pb_istream_from_buffer [18, 2, 104, 105] 4"
  have two: "Suc 1 = 2" by simp
  have pieces: "pieces_ok 1 record_tables record_fields (replicate (length record_fields) []) ?es"
    and missing: "put (replicate (length record_fields) []) ?es ! 0 = []"
    and req: "PB_HTYPE (pf_type (record_fields ! 0)) = PB_HTYPE_REQUIRED" "req_index record_fields 0 < PB_MAX_REQUIRED_FIELDS"
    by code_simp+
  have wire: "pieces_wire (sub_wire 1 record_tables) record_fields ?es = [18, 2, 104, 105]" by code_simp
  have s: "is_rest ?s = pieces_wire (sub_wire 1 record_tables) record_fields ?es"
    unfolding wire by (simp add: pb_istream_from_buffer_def is_rest_def)
  have ok: "is_ok ?s" and left: "is_bytes_left ?s + 2 * Suc 1 \<le> 12" and err: "is_errmsg ?s = None"
    by (simp_all add: pb_istream_from_buffer_def is_ok_def)
  note plain = record_plain [folded two] and tags = record_tags [folded two]
  have pos: "0 < length record_fields" by (simp add: record_fields_def)
  from missing_required_refused [OF plain tags record_env(2) pieces pos req missing ok s err left, where dest = "0x200" and m = record_mem]
  show ?thesis by blast
qed

section \<open>Tables outside these bounds\<close>

text \<open>Two tables that are not plain. A table of no fields consists of its terminator, which the search for the
  field number 0 finds: it is decoded like a required boolean, into a structure that has no room for it.\<close>

lemma empty_table_writes:
  "map_option (\<lambda>(ok, s, m). (ok, pm_byte m 0x100)) (pb_decode 5 record_denv [] (pb_istream_from_buffer [1, 7] 2) 0x100 empty_mem) =
   Some (True, 1)"
  by code_simp

text \<open>An array of fixed size has no count (its size offset is 0); setting the defaults writes the four bytes
  of a count to the array itself, also if it is shorter.\<close>

lemma fixed_count_default_overflows:
  "map_option (load 0x100 4) (pb_message_set_to_defaults 2 record_tables
      [\<lparr>pf_tag = 1, pf_type = PB_HTYPE_REPEATED OR PB_LTYPE_BOOL, pf_data_offset = 0, pf_size_offset = 0,
        pf_data_size = 1, pf_array_size = 2, pf_ptr = 0\<rparr>] 0x100 (store 0x100 [1, 1, 5, 6] empty_mem)) = Some [0, 0, 0, 0]"
  by code_simp

section \<open>Unions with pointers\<close>

text \<open>Three members of the union in Firestore's \<open>Value\<close>: a boolean, an integer and a string share their place.\<close>

definition value_fields :: "pb_field_t list" where
  "value_fields =
     [\<lparr>pf_tag = 1, pf_type = PB_ATYPE_STATIC OR PB_HTYPE_ONEOF OR PB_LTYPE_BOOL, pf_data_offset = 8, pf_size_offset = - 8,
       pf_data_size = 1, pf_array_size = 0, pf_ptr = 0\<rparr>,
      \<lparr>pf_tag = 2, pf_type = PB_ATYPE_STATIC OR PB_HTYPE_ONEOF OR PB_LTYPE_VARINT, pf_data_offset = PB_SIZE_MAX, pf_size_offset = - 8,
       pf_data_size = 8, pf_array_size = 0, pf_ptr = 0\<rparr>,
      \<lparr>pf_tag = 17, pf_type = PB_ATYPE_POINTER OR PB_HTYPE_ONEOF OR PB_LTYPE_BYTES, pf_data_offset = PB_SIZE_MAX, pf_size_offset = - 8,
       pf_data_size = 8, pf_array_size = 0, pf_ptr = 0\<rparr>]"

text \<open>A C library that records the calls of \<open>realloc\<close> (and grants a block at \<open>0x1000\<close>) and of \<open>free\<close>.\<close>

definition logging_denv :: "(unit, (nat \<times> nat) list) pb_denv" where
  "logging_denv =
     \<lparr>de_read = no_input, de_realloc = (\<lambda>p n m. (0x1000, m\<lparr>pm_heap := pm_heap m @ [(p, n)]\<rparr>)),
      de_free = (\<lambda>p m. m\<lparr>pm_heap := pm_heap m @ [(p, 0)]\<rparr>), de_fields = (\<lambda>p. []),
      de_callback = (\<lambda>a f s arg m. (False, s, m)), de_extension = (\<lambda>a ext tag wt s m. (False, s, m))\<rparr>"

definition logged :: "('s, 'h) pb_result \<Rightarrow> (bool \<times> 'h) option" where
  "logged r = map_option (\<lambda>(ok, s, m). (ok, pm_heap m)) r"

text \<open>C33: A union with a pointer member trusts what another member left in its place: when a 64-bit integer
  member is decoded and then a bytes member that is a pointer, \<open>decode_field\<close> passes the integer of the sender,
  whatever it is, to \<open>realloc\<close> as the address of the block to be moved (CVE-2021-21401), in every table of fields
  with two such members of one union. What happens next is up to \<open>realloc\<close>; if it returns a block, the bytes are
  stored there and the decoding goes on.\<close>

theorem union_confuses_pointer:
  fixes env :: "('s, 'h) pb_denv"
  assumes "tags_ok fs" and "i < length fs" and "j < length fs"
    and "PB_HTYPE (pf_type (fs ! j)) = PB_HTYPE_ONEOF" and "PB_ATYPE (pf_type (fs ! j)) = PB_ATYPE_STATIC"
    and "PB_LTYPE (pf_type (fs ! j)) = PB_LTYPE_VARINT" and "pf_data_size (fs ! j) = 8"
    and "PB_HTYPE (pf_type (fs ! i)) = PB_HTYPE_ONEOF" and "PB_ATYPE (pf_type (fs ! i)) = PB_ATYPE_POINTER"
    and "PB_LTYPE (pf_type (fs ! i)) = PB_LTYPE_BYTES"
    and "it_pData (iter_at 0 fs dest j) = d" and "it_pSize (iter_at 0 fs dest j) = SizeAt a"
    and "it_pData (iter_at 0 fs dest i) = d" and "it_pSize (iter_at 0 fs dest i) = SizeAt a"
    and "region a 4 \<inter> region d 8 = {}" and "load_int 4 a m \<in> {0, unat (pf_tag (fs ! j))}"
    and "leb_read q = Some (v, [])" and "length q \<le> 10" and "is_ok s" and "is_rest s = q @ rest"
    and "leb_read p = Some (length bs, [])" and "length p \<le> 36" and "length bs < 2 ^ 32"
    and "is_ok s'" and "is_rest s' = p @ bs @ rest'"
  shows "\<exists>m1. decode_field (Suc n) env sub s PB_WT_VARINT (iter_at 0 fs dest j) m =
      Some (True, is_advance (length q) s, iter_at 0 fs dest j, m1) \<and>
    decode_field (Suc n) env sub s' PB_WT_STRING (iter_at 0 fs dest i) m1 =
      (case de_realloc env (v mod 2 ^ 64) (length bs + 4) (store_int 4 (unat (pf_tag (fs ! i))) a m1) of
         (ptr, m2) \<Rightarrow>
           if ptr = 0 then Some (False, is_error ''realloc failed'' (is_advance (length p) s'), iter_at 0 fs dest i, m2)
           else Some (True, is_advance (length (p @ bs)) s', iter_at 0 fs dest i,
                  store (ptr mod 2 ^ 64 + 4) bs (store_int 4 (length bs) (ptr mod 2 ^ 64) (store_ptr ptr d m2))))"
proof -
  let ?tag = "unat (pf_tag (fs ! j))" and ?m1 = "store_int 8 v d (store_int 4 (unat (pf_tag (fs ! j))) a m)"
  have tag: "load_int 4 a ?m1 = ?tag"
  proof -
    have "load_int 4 a ?m1 = load_int 4 a (store_int 4 ?tag a m)"
      by (rule changes_load_int [OF changes_store_int assms(15)]) simp
    moreover have "?tag < 2 ^ 32" by (rule order.strict_trans2 [OF unsigned_less]) simp
    ultimately show ?thesis by (simp add: load_int_store_same)
  qed
  have "load_ptr d ?m1 = v mod 2 ^ 64" by (simp add: load_ptr_def load_int_store_same)
  moreover have "PB_LTYPE (pf_type (fs ! j)) \<noteq> PB_LTYPE_EXTENSION" "PB_LTYPE (pf_type (fs ! j)) \<noteq> PB_LTYPE_SUBMESSAGE"
    using assms(6) by (simp_all add: PB_LTYPE_VARINT_def PB_LTYPE_EXTENSION_def PB_LTYPE_SUBMESSAGE_def)
  ultimately show ?thesis
    using decode_union_integer [OF assms(1,3,4-7,11,12,16-20), of "Suc n" env sub]
      decode_union_pointer [OF assms(1-3,8-10,5) _ _ assms(13-15) tag assms(21-25), of n env sub] by auto
qed

text \<open>From the integer \<open>0x200000\<close> and the string \<open>A\<close>. The calls are those of \<open>realloc\<close> and \<open>free\<close>.\<close>

theorem union_confuses_pointer_witness:
  "\<exists>m1 m2. decode_field 10 logging_denv (\<lambda>f s dest m. None) (pb_istream_from_buffer [0x80, 0x80, 0x80, 0x01] 4) PB_WT_VARINT
      (iter_at 0 value_fields 0x100 1) \<lparr>pm_byte = (\<lambda>x. 0), pm_heap = []\<rparr> =
        Some (True, is_advance 4 (pb_istream_from_buffer [0x80, 0x80, 0x80, 0x01] 4), iter_at 0 value_fields 0x100 1, m1) \<and>
    decode_field 10 logging_denv (\<lambda>f s dest m. None) (pb_istream_from_buffer [1, 0x41] 2) PB_WT_STRING
      (iter_at 0 value_fields 0x100 2) m1 =
        Some (True, is_advance 2 (pb_istream_from_buffer [1, 0x41] 2), iter_at 0 value_fields 0x100 2, m2) \<and>
    pm_heap m2 = pm_heap m1 @ [(0x200000, 5)]"
proof -
  let ?s = "pb_istream_from_buffer [0x80, 0x80, 0x80, 0x01] 4" and ?s' = "pb_istream_from_buffer [1, 0x41] 2"
  have table: "tags_ok value_fields" "1 < length value_fields" "2 < length value_fields"
    and types: "PB_HTYPE (pf_type (value_fields ! 1)) = PB_HTYPE_ONEOF" "PB_ATYPE (pf_type (value_fields ! 1)) = PB_ATYPE_STATIC"
      "PB_LTYPE (pf_type (value_fields ! 1)) = PB_LTYPE_VARINT" "pf_data_size (value_fields ! 1) = 8"
      "PB_HTYPE (pf_type (value_fields ! 2)) = PB_HTYPE_ONEOF" "PB_ATYPE (pf_type (value_fields ! 2)) = PB_ATYPE_POINTER"
      "PB_LTYPE (pf_type (value_fields ! 2)) = PB_LTYPE_BYTES"
    and place: "it_pData (iter_at 0 value_fields 0x100 1) = 0x108" "it_pSize (iter_at 0 value_fields 0x100 1) = SizeAt 0x100"
      "it_pData (iter_at 0 value_fields 0x100 2) = 0x108" "it_pSize (iter_at 0 value_fields 0x100 2) = SizeAt 0x100"
    and empty: "load_int 4 0x100 \<lparr>pm_byte = (\<lambda>x. 0), pm_heap = [] :: (nat \<times> nat) list\<rparr> \<in> {0, unat (pf_tag (value_fields ! 1))}"
    by code_simp+
  have apart: "region 0x100 4 \<inter> region 0x108 8 = {}" by auto
  have int: "leb_read [0x80, 0x80, 0x80, 0x01] = Some (0x200000, [])" and len: "leb_read [1] = Some (length [0x41 :: u8], [])"
    by simp_all
  have s: "is_ok ?s" "is_rest ?s = [0x80, 0x80, 0x80, 0x01] @ []" "is_ok ?s'" "is_rest ?s' = [1] @ [0x41] @ []" by simp_all
  have short: "length [0x80 :: u8, 0x80, 0x80, 0x01] \<le> 10" "length [1 :: u8] \<le> 36" "length [0x41 :: u8] < 2 ^ 32" by simp_all
  note run = union_confuses_pointer [OF table(1,3,2) types place apart empty int short(1) s(1,2) len short(2,3) s(3,4),
      of 9 logging_denv "\<lambda>f s dest m. None"]
  have nums: "Suc 9 = 10" "(0x200000 :: nat) mod 2 ^ 64 = 0x200000" "length [0x41 :: u8] + 4 = 5"
      "length [0x80 :: u8, 0x80, 0x80, 0x01] = 4" "length ([1] @ [0x41 :: u8]) = 2" "(0x1000 :: nat) = 0 \<longleftrightarrow> False"
    by simp_all
  have ra: "de_realloc logging_denv x k m = (0x1000, m\<lparr>pm_heap := pm_heap m @ [(x, k)]\<rparr>)" for x k m
    by (simp add: logging_denv_def)
  have heap: "pm_heap (store_int k x c m) = pm_heap m" "pm_heap (store_ptr x c m) = pm_heap m" for k x c
      and m :: "(nat \<times> nat) list pb_mem"
    by (simp_all add: store_int_def store_ptr_def)
  from run [unfolded nums ra prod.case if_False] show ?thesis
    by (elim exE conjE) (intro exI conjI, assumption, assumption, simp add: heap)
qed

text \<open>The same with a whole message.\<close>

lemma value_message_confuses:
  "logged (pb_decode 10 logging_denv value_fields
      (pb_istream_from_buffer [0x10, 0x80, 0x80, 0x80, 0x01, 0x8a, 0x01, 1, 0x41] 9) 0x100 \<lparr>pm_byte = (\<lambda>x. 0), pm_heap = []\<rparr>) =
   Some (True, [(0x200000, 5)])"
  by code_simp

end
