(* ===== verification/Spec2Isabelle.thy ===== *)
theory Spec2Isabelle
  imports BerProperties Oid Unicode Concrete UtilProperties StackProperties TableProperties BioProperties PbMsgProperties
begin

text \<open>
  This library verifies the C code of the repository that carries logic of its own. The application is
  written in Swift; all of its C code is vendored under \<open>src/socialNetwork/Pods/\<close>. Modelled are the
  byte-string layer of BoringSSL (\<open>BoringSSL-GRPC/src/crypto/\<close>), through which everything in BoringSSL
  reads and writes DER, with the utilities it stands on, and the runtime of nanopb (\<open>nanopb/\<close>), with
  which Firestore reads and writes its protocol buffers.

  \<^bold>\<open>Parts and theories.\<close> Each theory models the functions of one file, or of one part of a file, under
  their own names; a state is a record with the fields of the C struct, a result that the C code
  returns through a pointer is a component of a tuple, and a failure is \<open>None\<close>, \<open>False\<close> or \<open>Inl\<close>.

  \<^item> \<open>Prelude\<close>: words, lists, the arithmetic of \<open>size_t\<close> (\<open>szadd\<close> wraps at \<open>2 ^ 64\<close>), and the
    interfaces that every pair of an encoder and a decoder satisfies: \<open>prefix_codec\<close> (the reader inverts
    the writer, whatever follows) and \<open>strict_codec\<close> (it accepts nothing else).
  \<^item> \<open>Mem\<close> (\<open>crypto/mem.c\<close>): \<open>OPENSSL_malloc\<close>, \<open>OPENSSL_realloc\<close>, \<open>CRYPTO_memcmp\<close>, strings. The C library's
    \<open>malloc\<close> is the parameter \<open>m\<close>: the block that the \<open>k\<close>-th request gets, or \<open>None\<close>; \<open>alloc_ok\<close> says that a
    block has the requested size, \<open>alloc_avail\<close> that requests below a limit are granted.
  \<^item> \<open>Cbs\<close>, \<open>CbsAsn1\<close> (\<open>bytestring/cbs.c\<close>): the reader. A \<open>CBS\<close> is the list of the bytes that are left; an
    operation returns its result and the \<open>CBS\<close> afterwards. \<open>Der\<close> and \<open>DerInt\<close> hold the reference encoding:
    identifier octets, shortest length octets, two's complement.
  \<^item> \<open>Cbb\<close>, \<open>CbbAsn1\<close> (\<open>bytestring/cbb.c\<close>, \<open>asn1_compat.c\<close>): the builder. The C code chains handles to one
    shared buffer; the record \<open>CBB\<close> holds the buffer, the stack of open children and the number of
    allocations, and a handle is its depth \<open>d\<close> in that stack. \<open>CbbSpec\<close> gives the invariant \<open>cbb_inv\<close>, the
    abstract specification \<open>flush_bytes\<close> and \<open>cbb_flushed\<close> (the bytes that flushing would leave) and the
    locale of writers; \<open>Values\<close> proves the writers of integers, strings, OIDs and fixed-size integers
    against the reference encoding. \<open>Qsort\<close> is the C library's \<open>qsort\<close>
    (with the locale \<open>comparator\<close> of three-way comparisons that are total preorders) and \<open>SetOf\<close> the sorting of SET OF.
  \<^item> \<open>Unicode\<close> (\<open>bytestring/unicode.c\<close>), \<open>Oid\<close> (the text of object identifiers).
  \<^item> \<open>Ber\<close> (\<open>bytestring/ber.c\<close>): the conversion of BER to DER; it reads with \<open>Cbs\<close> and writes with \<open>Cbb\<close>.
    \<open>BerSpec\<close> has the reference conversion \<open>ber_conv\<close> on byte lists, the predicate \<open>clean\<close> and the
    refinement; \<open>BerProperties\<close> the properties.
  \<^item> \<open>ConstTime\<close> (\<open>crypto/internal.h\<close>): branch-free comparisons; \<open>Base64\<close> (\<open>base64/base64.c\<close>) computes its
    characters with them. \<open>Base64Spec\<close> is the reference codec, \<open>Base64Stream\<close> the streaming interface.
  \<^item> \<open>Stack\<close> (\<open>stack/stack.c\<close>): an array of pointers with growth, search and sort; \<open>StackSpec\<close> has its
    invariant \<open>stack_ok\<close> and the abstraction \<open>elems\<close> to lists. A pointer is a 64-bit word.
  \<^item> \<open>Lhash\<close> (\<open>lhash/lhash.c\<close>): the hash table, linked chains of items on a heap of items at addresses;
    \<open>LhashSpec\<close> has its invariant \<open>lh_ok\<close>, the abstraction \<open>lh_map\<close> to finite maps and the locale \<open>keyed\<close> of hash
    and comparison functions that agree on a key. \<open>LhashWalk\<close>: \<open>lh_doall_arg\<close> with a callback that may change the
    table, which is \<open>None\<close> when an item is read that was freed.
  \<^item> \<open>Refcount\<close> (\<open>refcount_lock.c\<close>, \<open>refcount_c11.c\<close>): reference counts; a loop of compare-and-swap is a
    sequence of the values other threads leave. \<open>Pool\<close> (\<open>pool/pool.c\<close>): buffers shared by contents; it stores
    them with \<open>Lhash\<close>, hashes and compares them, and counts with \<open>Refcount\<close>. The critical sections of
    \<open>CRYPTO_BUFFER_new\<close> and \<open>CRYPTO_BUFFER_free\<close> are steps of threads (\<open>pool_step\<close>). \<open>PoolSpec\<close> interprets
    \<open>keyed\<close> on buffers and has the invariant \<open>pool_inv\<close> of the reachable states.
  \<^item> \<open>Buf\<close> (\<open>buf/buf.c\<close>): growing buffers. \<open>BioBase\<close> (\<open>bio/bio.c\<close>, \<open>bio.h\<close>): the structures of BIOs in a heap, their
    flags, fields and chains; \<open>BioPair\<close> (\<open>bio/pair.c\<close>) and \<open>BioMem\<close> (\<open>bio/bio_mem.c\<close>): the two methods that need
    no system calls; \<open>Bio\<close>: the functions that call a method, one of these or the client's; \<open>BioRead\<close>: reading
    a number of bytes, everything, or an ASN.1 object. Their operations are in the option monad, and \<open>None\<close> is what
    has no defined result in C, a failing assertion or a loop that does not end. \<open>BioPairSpec\<close> reads the ring
    buffers as queues, with the invariant \<open>pair_ok\<close>; \<open>BioNewSpec\<close> is about making pairs. \<open>BioReadSpec\<close> has the
    locale \<open>byte_source\<close> of BIOs that hand out bytes in pieces, and what follows for reading from them;
    \<open>BioSources\<close> interprets it on memory BIOs and on the halves of pairs, and shows it of methods of a client that
    hand out a memory in smaller pieces.
  \<^item> \<open>PbStream\<close> (streams of \<open>pb_decode.c\<close> and \<open>pb_encode.c\<close>), \<open>PbWire\<close> (varints, fixed-size values, tags,
    strings, skipping, substreams), with the reference encoding \<open>leb\<close> in \<open>PbWireSpec\<close> and, in \<open>PbCodec\<close>, the
    locale \<open>pb_codec\<close> of matching readers and writers with one interpretation for every type of value.
  \<^item> \<open>PbMem\<close>: the memory of nanopb's messages, bytes at addresses (address 0 is NULL); a structure is its
    address, as in the code, which computes with offsets. \<open>PbField\<close>: one decoder and one encoder per field
    type, on that memory, and the descriptors \<open>pb_field_t\<close>. \<open>PbIter\<close> (\<open>pb_common.c\<close>): the iterator over the
    fields of a structure. \<open>PbDecode\<close>, \<open>PbDecodeMsg\<close> (\<open>pb_decode.c\<close>) and \<open>PbEncodeMsg\<close> (\<open>pb_encode.c\<close>): defaults,
    release, static, pointer and callback fields, extensions, arrays of fixed size, required fields,
    submessages, \<open>pb_decode\<close>, \<open>pb_encode\<close> and their variants.
  \<^item> \<open>PbLayout\<close>: the tables of static fields (\<open>plain_table\<close>: submessages nested to a bounded depth, unions, arrays
    with a count, strings and bytes with a maximal size, each field in its own place), for which the theorems
    about messages hold. \<open>PbFieldSpec\<close> and \<open>PbDecodeSpec\<close>: every decoder and every step of the message
    decoder stays in its field, in the structure and in the stream. \<open>PbTypeSpec\<close>: the representation
    invariant \<open>msg_typed\<close>. \<open>PbMessage\<close>: the abstract message of a structure (\<open>msg_value\<close>), its wire format
    (\<open>msg_wire\<close>) and the messages that fit (\<open>msg_ok\<close>). \<open>PbEncodeSpec\<close> shows that the encoder emits that format,
    \<open>PbRoundSpec\<close> and \<open>PbMessageSpec\<close> that the decoder restores the message from it, also when its pieces come
    in another order (\<open>pb_piece\<close>). \<open>PbUnion\<close>: one member of a union decoded after another, also when it is a pointer.
  \<^item> \<open>UtilProperties\<close>, \<open>StackProperties\<close>, \<open>TableProperties\<close>, \<open>BioProperties\<close>, \<open>PbProperties\<close>, \<open>PbMsgProperties\<close>,
    \<open>BerProperties\<close> and this theory state the properties C1 to C40; \<open>Concrete\<close> has an allocator and a comparison for their instances.

  \<^bold>\<open>What the lemmas show.\<close> Readers accept exactly the encodings they should (C1, C13, C16, C25, C26, C27);
  writers and readers are inverse (C2, C5, C14, C18, C19); the builder keeps its invariant and refines its
  specification (C3, C15), reports errors for good (C29) and makes progress when there is memory (C30);
  messages are restored in every order of their fields (C2, C6), decoding any input ends within the structure
  (C4) and leaves it well formed when it succeeds (C7), incomplete messages are refused (C10); the conversion
  of BER refines the reference, ends and leaves nothing to convert (C8, C31); the optimised code of base64 and
  of the comparisons is equivalent to the plain definitions (C17, C20); the stack refines lists (C21 to C24);
  the hash table refines finite maps, its walk visits every item once and its load is bounded (C34 to C36);
  the pool keeps one buffer for equal contents and frees none that a thread can reach, in every interleaving of
  its critical sections (C37, C38); a BIO pair carries bytes in order and keeps its promises about room, or is
  not made at all (C11, C39, C40); reading an object from a BIO agrees with the reader of byte strings, whatever the
  pieces in which the BIO hands it out (C12); sizes are exact (C9). C28, C32 and C33 state misbehaviour, in general: of
  the 32-bit varint reader on every number of continuation bytes, of the search for BER on every sequence of
  siblings, and of every union with a pointer member.

  \<^bold>\<open>Bounds and fuel.\<close> \<open>cbs_convert_ber\<close> takes fuel because nested calls share their input; the length of
  the input plus one always suffices (C31). The decoder and the encoder of messages take fuel because of
  submessages, linked extensions and callbacks; \<open>None\<close> means that it ran out. For plain tables of depth \<open>d\<close>
  the number of bytes left plus \<open>2 * d\<close> is enough to decode any input (C4) and \<open>d\<close> is enough to encode (C2, C9). Every
  other loop is a total function. Lists that stand for memory are shorter than \<open>2 ^ 63\<close> bytes (\<open>2 ^ 62\<close> for
  the base64 input, so that its output is), as every object of a 64-bit machine is; the code's own limits
  (\<open>2 ^ 32 - 2\<close> for lengths, the depth of 2048 for BER, 64 bits for varints, 64 required fields of a message) are
  part of the definitions. \<open>size_t\<close> has 64 bits and \<open>uint_fast8_t\<close> 8, as on the devices the application runs
  on. nanopb is configured as in the program: \<open>PB_FIELD_32BIT\<close>, \<open>PB_NO_PACKED_STRUCTS\<close>, \<open>PB_ENABLE_MALLOC\<close>.

  \<^bold>\<open>Parameters.\<close> \<open>malloc\<close>, \<open>realloc\<close> and \<open>free\<close>, the comparison, copy and free functions of a stack's client,
  the hash and comparison functions and the callbacks of a hash table's client, the addresses of blocks, the
  functions of a client's BIO method, the callbacks of custom nanopb streams, of callback fields and of
  extensions, and the generated descriptor tables are arguments; the theorems state what they rely on.

  \<^bold>\<open>Differences from the code.\<close> \<open>is_consume\<close> takes a count from \<open>bytes_left\<close> that every caller has compared with it, so that
  the difference does not wrap. The callback of a custom nanopb stream gets the state of the stream and cannot
  change its \<open>bytes_left\<close>. A buffer of the pool that was freed compares as different, hashes to 0 and is not counted,
  where the code would read freed memory; C38 shows that the table holds no such buffer in a reachable state.
  \<open>CBB_discard_child\<close> forgets the descendants of the discarded child too, whose handles the code leaves dangling.

  \<^bold>\<open>Not modelled.\<close> The theorems about messages, but for C33, are about tables of static fields; pointer and callback fields,
  extensions and arrays of fixed size are in the definitions, and \<open>PbMsgProperties\<close> evaluates what goes wrong with some of
  them. The locks of the pool are its atomic steps. BIOs over sockets, files and descriptors call the system;
  BoringSSL's error queue, hash functions, arithmetic, ciphers, ASN.1 templates, X.509 and TLS, and gRPC, upb and Firebase, which are C++ and
  Objective-C or driven by generated tables, and the application are left out.
\<close>

section \<open>Concrete inputs\<close>

text \<open>A builder with an open SEQUENCE that holds one byte, for the instances below.\<close>

definition open_sequence :: CBB where
  "open_sequence =
     \<lparr>cbb_base = Some \<lparr>cb_buf = [0x30, 0, 5, 0], cb_len = 3, cb_cap = 4, cb_can_resize = True, cb_error = False\<rparr>,
      cbb_children = [\<lparr>ch_offset = 1, ch_len_len = 1, ch_asn1 = True\<rparr>], cbb_allocs = 2\<rparr>"

lemma open_sequence_inv: "cbb_inv open_sequence"
  by (simp add: open_sequence_def cbb_inv_def cbb_ok_def base_ok_def pending_ok_def OPENSSL_MALLOC_PREFIX_def)

section \<open>Parsing and building DER\<close>

text \<open>C1: \<open>CBS_get_any_asn1\<close> accepts exactly the DER encodings: it returns contents \<open>c\<close> and a tag, and leaves
  \<open>rest\<close>, if and only if the input is the (unique) identifier octets of the tag, the shortest length
  octets, the contents and then \<open>rest\<close>.\<close>

theorem get_any_asn1_exactly_der:
  "CBS_get_any_asn1 cbs = (Some (c, tag), rest) \<longleftrightarrow>
   length c < 2 ^ 32 \<and> cbs = der_tag tag @ der_len (length c) @ c @ rest"
  by (simp add: get_any_asn1_iff der_element_def)

text \<open>C3: \<open>CBB_flush\<close> keeps the builder's invariant; when it succeeds, the pending descendants of the handle
  are gone and the written bytes are the ones the reference \<open>flush_bytes\<close> computes by filling in the
  length of every pending child from the inside out; when it fails, the handle was stale or the shared
  error flag is set.\<close>

theorem flush_refines:
  assumes "alloc_ok m" and "cbb_inv s" and "CBB_flush m d s = (r, s')"
  shows "cbb_inv s' \<and>
    (if r then d \<le> length (cbb_children s) \<and> cbb_children s' = take d (cbb_children s) \<and>
       flush_bytes (drop d (cbb_children s)) (cbb_bytes s) = Some (cbb_bytes s')
     else s' = s \<and> length (cbb_children s) < d \<or> cbb_error s')"
  using CBB_flush [OF assms] by (auto simp: cbb_flushed_def)

theorem flush_refines_witness:
  "flush_bytes (drop 0 (cbb_children open_sequence)) (cbb_bytes open_sequence) = Some [0x30, 1, 5]"
proof -
  have "CBB_flush zeroed 0 open_sequence = (True, snd (CBB_flush zeroed 0 open_sequence))"
    and bytes: "cbb_bytes (snd (CBB_flush zeroed 0 open_sequence)) = [0x30, 1, 5]"
    by code_simp+
  from flush_refines [OF zeroed_ok open_sequence_inv this(1)] bytes show ?thesis by simp
qed

text \<open>C5: A list of 64-bit integers that is written with \<open>CBB_add_asn1_uint64\<close> into a fresh builder and
  finished is read back, value by value, with \<open>CBS_get_asn1_uint64\<close>, and nothing is left over.\<close>

theorem uint64_build_and_read:
  assumes "alloc_ok m" and "cap < 2 ^ 63" and "CBB_init m k cap = (True, s0)"
    and "asn1_uint64_cbb.write_list m 0 xs s0 = (True, s1)"
    and "CBB_finish m 0 True s1 = ((True, Some (buf, n)), s2)"
  shows "asn1_uint64.read_n (length xs) (CBS_init buf n) = (Some xs, [])"
  using asn1_uint64_cbb.build_and_read [OF _ assms] by (simp add: CBS_init_def)

theorem uint64_build_and_read_witness:
  "asn1_uint64.read_n 2 [2, 1, 5, 2, 2, 0, 0x80] = (Some [5, 0x80], [])"
proof -
  define s0 where "s0 = snd (CBB_init zeroed 0 8)"
  define s1 where "s1 = snd (asn1_uint64_cbb.write_list zeroed 0 [5, 0x80] s0)"
  note run = s1_def s0_def asn1_uint64_cbb.write_list.simps c_and_def
  have init: "CBB_init zeroed 0 8 = (True, s0)" unfolding s0_def by code_simp
  have written: "asn1_uint64_cbb.write_list zeroed 0 [5, 0x80] s0 = (True, s1)" unfolding run by code_simp
  have "fst (CBB_finish zeroed 0 True s1) = (True, Some ([2, 1, 5, 2, 2, 0, 0x80, 0], 7))"
    unfolding run by code_simp
  then have fin: "CBB_finish zeroed 0 True s1 =
      ((True, Some ([2, 1, 5, 2, 2, 0, 0x80, 0], 7)), snd (CBB_finish zeroed 0 True s1))"
    by (metis prod.collapse)
  have cap: "8 < (2 :: nat) ^ 63" by simp
  from uint64_build_and_read [OF zeroed_ok cap init written fin] show ?thesis
    by (simp add: CBS_init_def numeral_2_eq_2 del: asn1_uint64.read_n.simps)
qed

text \<open>C13: \<open>CBS_get_asn1_uint64\<close> accepts exactly the shortest two's-complement encodings of the
  non-negative integers below \<open>2 ^ 64\<close>, tagged INTEGER.\<close>

theorem uint64_strict:
  "CBS_get_asn1_uint64 bs = (Some w, rest) \<longleftrightarrow>
   bs = der_element CBS_ASN1_INTEGER (der_int (uint w)) @ rest"
  using asn1_uint64.strict_iff [of bs w rest] by (simp add: der_uint64_def)

text \<open>\<open>CBS_get_asn1_int64\<close> accepts exactly the shortest two's-complement encodings of the integers from
  \<open>- 2 ^ 63\<close> to \<open>2 ^ 63 - 1\<close>.\<close>

theorem int64_strict:
  "CBS_get_asn1_int64 bs = (Some w, rest) \<longleftrightarrow>
   bs = der_element CBS_ASN1_INTEGER (der_int (sint w)) @ rest"
  using asn1_int64.strict_iff [of bs w rest] by (simp add: der_int64_def)

text \<open>C14: Whatever text \<open>CBB_add_asn1_oid_from_text\<close> accepts, the contents it leaves in a fresh builder are
  turned back into that text by \<open>CBS_asn1_oid_to_text\<close> (NUL-terminated), whenever that succeeds.\<close>

theorem oid_text_roundtrip:
  assumes "alloc_ok m" and "cap < 2 ^ 63" and "CBB_init m k cap = (True, s0)"
    and "CBB_add_asn1_oid_from_text m 0 str len s0 = (True, s1)"
    and "CBB_finish m 0 True s1 = ((True, Some (der, n)), s2)"
    and "CBS_asn1_oid_to_text m k' (CBS_init der n) = (Some txt, k'')"
  shows "take (length (take len str) + 1) txt = take len str @ [0]"
proof -
  obtain cs where cs: "cs \<noteq> []" "take len str = oid_text cs"
    using oid_from_text_accepts [of m 0 str len s0] assms(4) by auto
  have "take n der = oid_contents cs"
    using cbb_run [OF writes_oid_from_text [OF cs(2,1)] assms(1-5)] by (rule conjunct1)
  moreover obtain ds where ds: "ds \<noteq> []" "take n der = oid_contents ds"
      "take (Suc (length (oid_text ds))) txt = oid_text ds @ [0]"
    using oid_to_text_Some [OF assms(1,6)] by (auto simp: CBS_init_def)
  ultimately have "ds = cs" using oid_contents_inject by simp
  then show ?thesis using ds cs by simp
qed

theorem oid_text_roundtrip_witness:
  "fst (CBS_asn1_oid_to_text zeroed 0 [0x2a, 0x86, 0x48]) \<noteq> None \<and>
   take 8 (the (fst (CBS_asn1_oid_to_text zeroed 0 [0x2a, 0x86, 0x48]))) = [49, 46, 50, 46, 56, 52, 48, 0]"
proof -
  define s0 where "s0 = snd (CBB_init zeroed 0 8)"
  define s1 where "s1 = snd (CBB_add_asn1_oid_from_text zeroed 0 [49, 46, 50, 46, 56, 52, 48] 7 s0)"
  define r where "r = CBS_asn1_oid_to_text zeroed 0 (CBS_init [0x2a, 0x86, 0x48, 0, 0, 0, 0, 0] 3)"
  have cap: "8 < (2 :: nat) ^ 63" by simp
  have init: "CBB_init zeroed 0 8 = (True, s0)" unfolding s0_def by code_simp
  have conv: "CBB_add_asn1_oid_from_text zeroed 0 [49, 46, 50, 46, 56, 52, 48] 7 s0 = (True, s1)"
    unfolding s1_def s0_def by code_simp
  have "fst (CBB_finish zeroed 0 True s1) = (True, Some ([0x2a, 0x86, 0x48, 0, 0, 0, 0, 0], 3))"
    unfolding s1_def s0_def by code_simp
  then have fin: "CBB_finish zeroed 0 True s1 =
      ((True, Some ([0x2a, 0x86, 0x48, 0, 0, 0, 0, 0], 3)), snd (CBB_finish zeroed 0 True s1))"
    by (metis prod.collapse)
  have some: "fst r \<noteq> None" unfolding r_def by code_simp
  then have "r = (Some (the (fst r)), snd r)" by (simp add: prod_eq_iff)
  from oid_text_roundtrip [OF zeroed_ok cap init conv fin this [unfolded r_def]] some
  show ?thesis by (simp add: r_def CBS_init_def eval_nat_numeral)
qed

text \<open>C15: \<open>CBB_flush_asn1_set_of\<close> sorts: the contents of the handle were a sequence of complete DER elements,
  and after a successful call they are a permutation of those elements, in the lexicographic order of their bytes,
  which is the order of DER's SET OF. As no DER element is a proper prefix of another one, there is only one way
  to cut the contents into elements.\<close>

theorem set_of_sorts:
  assumes "alloc_ok m" and "cbb_inv s" and "CBB_flush_asn1_set_of m d s = (True, s')"
  shows "\<exists>bs es es'. flush_bytes (drop d (cbb_children s)) (cbb_bytes s) = Some bs \<and>
    drop (cbb_start d s) bs = concat es \<and>
    (\<forall>e \<in> set es. \<exists>tag contents. length contents < 2 ^ 32 \<and> e = der_element tag contents) \<and>
    cbb_bytes s' = take (cbb_start d s) bs @ concat es' \<and>
    mset es' = mset es \<and> sorted_wrt (\<lambda>a b. a = b \<or> (a, b) \<in> lexord {(x, y). x < y}) es' \<and> cbb_inv s'"
proof -
  obtain bs es where e: "cbb_flushed d s = Some bs" "drop (cbb_start d s) bs = concat es" "\<forall>e \<in> set es. is_element e"
      "cbb_bytes s' = take (cbb_start d s) bs @ concat (qsort compare_set_of_element es)" "cbb_inv s'"
    using flush_set_of [OF assms] by blast
  have "sorted_wrt (\<lambda>a b. a = b \<or> (a, b) \<in> lexord {(x, y). x < y}) (qsort compare_set_of_element es)"
    using set_of.ordered_qsort [unfolded set_of.ordered_def, of es] by (simp only: compare_bytes_le bytes_le_def)
  with e show ?thesis
    unfolding cbb_flushed_def is_element_def
    by (intro exI [of _ bs] exI [of _ es] exI [of _ "qsort compare_set_of_element es"]) auto
qed

definition open_set :: CBB where
  "open_set =
     \<lparr>cbb_base = Some \<lparr>cb_buf = [0x31, 0, 5, 0, 2, 1, 7], cb_len = 7, cb_cap = 7, cb_can_resize = False, cb_error = False\<rparr>,
      cbb_children = [\<lparr>ch_offset = 1, ch_len_len = 1, ch_asn1 = True\<rparr>], cbb_allocs = 2\<rparr>"

theorem set_of_sorts_witness:
  "cbb_bytes (snd (CBB_flush_asn1_set_of zeroed 1 open_set)) = [0x31, 0, 2, 1, 7, 5, 0] \<and>
   (\<exists>es es'. [5, 0, 2, 1, 7] = concat es \<and> [2, 1, 7, 5, 0] = concat es' \<and>
      (\<forall>e \<in> set es. \<exists>tag contents. length contents < 2 ^ 32 \<and> e = der_element tag contents) \<and>
      mset es' = mset es \<and> sorted_wrt (\<lambda>a b. a = b \<or> (a, b) \<in> lexord {(x, y). x < y}) es')"
proof -
  have inv: "cbb_inv open_set"
    by (simp add: open_set_def cbb_inv_def cbb_ok_def base_ok_def pending_ok_def)
  have run: "CBB_flush_asn1_set_of zeroed 1 open_set = (True, snd (CBB_flush_asn1_set_of zeroed 1 open_set))"
    and out: "cbb_bytes (snd (CBB_flush_asn1_set_of zeroed 1 open_set)) = [0x31, 0, 2, 1, 7, 5, 0]"
    and pre: "flush_bytes (drop 1 (cbb_children open_set)) (cbb_bytes open_set) = Some [0x31, 0, 5, 0, 2, 1, 7]"
      "cbb_start 1 open_set = 2"
    by code_simp+
  from set_of_sorts [OF zeroed_ok inv run] show ?thesis
    unfolding out pre by (simp add: out) blast
qed

text \<open>C16: \<open>cbs_get_utf8\<close> accepts exactly the shortest UTF-8 encodings of the code points up to U+10FFFF that
  are neither surrogates (U+D800 to U+DFFF) nor noncharacters (U+FDD0 to U+FDEF and the last two of every plane).\<close>

theorem utf8_strict:
  "cbs_get_utf8 bs = (Some u, rest) \<longleftrightarrow>
     unat u \<le> 0x10ffff \<and> \<not> (0xd800 \<le> unat u \<and> unat u \<le> 0xdfff) \<and>
     \<not> (0xfdd0 \<le> unat u \<and> unat u \<le> 0xfdef) \<and> unat u mod 0x10000 < 0xfffe \<and> bs = utf8 u @ rest"
  by (simp only: utf8.strict_iff valid_code_point_iff conj_assoc)

text \<open>What \<open>CBS_get_any_asn1_element\<close> reads does not depend on what follows: an element that it
  returns is returned again, with the same tag and header length, in front of any other bytes. So no
  DER encoding is a proper prefix of another one.\<close>

theorem element_self_delimiting:
  assumes "CBS_get_any_asn1_element bs = (Some (e, tag, hl), rest)"
  shows "bs = e @ rest \<and> CBS_get_any_asn1_element (e @ other) = (Some (e, tag, hl), other)"
proof -
  obtain c where "length c < 2 ^ 32" "e = der_element tag c" "hl = header_length tag c" "bs = e @ rest"
    using get_any_element_dec [OF assms] by blast
  then show ?thesis by (simp add: get_any_element_enc)
qed

theorem element_self_delimiting_witness:
  "CBS_get_any_asn1_element ([2, 1, 5] @ [7, 7]) = (Some ([2, 1, 5], 2, 2), [7, 7])"
proof -
  have "CBS_get_any_asn1_element [2, 1, 5, 9] = (Some ([2, 1, 5], 2, 2), [9])" by code_simp
  from element_self_delimiting [OF this] show ?thesis by blast
qed

section \<open>Errors and progress of the builder\<close>

text \<open>C29: An error is sticky: once the flag of the shared buffer is set, flushing, appending bytes or
  integers, opening children, reserving space and finishing all fail and leave the builder as it is.\<close>

theorem builder_error_sticky:
  assumes "cbb_error s"
  shows "CBB_flush m d s = (False, s) \<and> CBB_add_bytes m d data s = (False, s) \<and> cbb_add_u m d v n s = (False, s) \<and>
    CBB_add_asn1 m d tag s = (False, s) \<and> CBB_add_space m d n s = (None, s) \<and> CBB_reserve m d n s = (None, s) \<and>
    CBB_finish m d True s = ((False, None), s)"
proof -
  have "CBB_flush m d s = (False, s)"
    using CBB_flush_no_base [OF assms] by (metis prod.collapse)
  then show ?thesis
    by (cases "d = 0") (simp_all add: CBB_add_bytes_def cbb_add_u_def CBB_add_asn1_def c_and_def CBB_add_space_def
        CBB_reserve_def CBB_finish_def)
qed

theorem builder_error_sticky_witness:
  "CBB_add_bytes zeroed 0 [1]
     \<lparr>cbb_base = Some \<lparr>cb_buf = [7], cb_len = 1, cb_cap = 1, cb_can_resize = True, cb_error = True\<rparr>,
      cbb_children = [], cbb_allocs = 0\<rparr> =
   (False, \<lparr>cbb_base = Some \<lparr>cb_buf = [7], cb_len = 1, cb_cap = 1, cb_can_resize = True, cb_error = True\<rparr>,
      cbb_children = [], cbb_allocs = 0\<rparr>)"
  by (rule builder_error_sticky [THEN conjunct2, THEN conjunct1]) (simp add: cbb_error_def)

text \<open>C30: When the lengths of the pending children can be represented and there is room for the result,
  \<open>CBB_flush\<close> succeeds.\<close>

theorem flush_succeeds:
  assumes "alloc_ok m" and "cbb_inv s" and "d \<le> length (cbb_children s)"
    and "flush_bytes (drop d (cbb_children s)) (cbb_bytes s) = Some bs" and "cbb_room m s (length bs)"
  shows "\<exists>s'. CBB_flush m d s = (True, s') \<and> cbb_bytes s' = bs \<and> cbb_children s' = take d (cbb_children s)"
proof -
  obtain r s' where fl: "CBB_flush m d s = (r, s')" by force
  have "cbb_flushed d s = Some bs" using assms(4) by (simp add: cbb_flushed_def)
  from CBB_flush_live [OF assms(1,2,3) this assms(5)] fl have "r" by simp
  then show ?thesis using CBB_flush [OF assms(1,2) fl] fl assms(4) by (auto simp: cbb_flushed_def)
qed

theorem flush_succeeds_witness:
  "\<exists>s'. CBB_flush zeroed 0 open_sequence = (True, s') \<and> cbb_bytes s' = [0x30, 1, 5] \<and> cbb_children s' = []"
proof -
  have "flush_bytes (drop 0 (cbb_children open_sequence)) (cbb_bytes open_sequence) = Some [0x30, 1, 5]" by code_simp
  moreover have "cbb_room zeroed open_sequence (length [0x30, 1, 5 :: u8])"
    by (simp add: cbb_room_def open_sequence_def)
  ultimately show ?thesis
    using flush_succeeds [OF zeroed_ok open_sequence_inv, of 0 "[0x30, 1, 5]"] by simp
qed

end
